(* ===== verification/Kernel_Prelude.thy ===== *)
theory Kernel_Prelude
  imports Main "HOL-Library.Word"
begin

text \<open>
  Shared vocabulary of the development: the machine integer types of
  \<^verbatim>\<open>util/types.h\<close> and \<^verbatim>\<open>errno.h\<close>, the result type in which every kernel routine
  returns (a value, or the reason it never returns to its caller), the assertion macros of
  \<^verbatim>\<open>debug.h\<close>, and the generic lemmas on results, lists and words that the component theories
  use. The collections \<open>result_simps\<close> and \<open>word_nat_simps\<close> are extended by later theories.
\<close>

unbundle bit_operations_syntax

named_theorems result_simps \<open>unfolding the sequencing of fallible operations\<close>
named_theorems word_nat_simps \<open>moving unsigned word arithmetic to the natural numbers\<close>

section \<open>Machine integers\<close>

type_synonym u8 = "8 word"
type_synonym u16 = "16 word"
type_synonym u32 = "32 word"
type_synonym u64 = "64 word"

text \<open>The x86\_64 build: \<^verbatim>\<open>size_t\<close> and pointers are 64 bit wide, the null pointer is 0.\<close>

abbreviation (input) NULL :: u64 where
  "NULL \<equiv> 0"

text \<open>\<^verbatim>\<open>BIT(x)\<close> is \<^verbatim>\<open>1ull << x\<close>.\<close>

definition BIT :: "nat \<Rightarrow> u64" where
  "BIT x = push_bit x 1"

definition PAGE_SIZE :: u64 where
  "PAGE_SIZE = 4096"

definition PAGE_SHIFT :: nat where
  "PAGE_SHIFT = 12"

section \<open>Results\<close>

text \<open>
  A routine that does not return to its caller has an outcome of type \<open>kfault\<close>:
  \<^item> \<open>Panic\<close>: a failed \<^verbatim>\<open>kpanic\<close> or \<^verbatim>\<open>assert\<close>, after which \<^verbatim>\<open>panic()\<close> halts the core;
  \<^item> \<open>Mem_Fault\<close>: an access through a pointer that designates no object;
  \<^item> \<open>Div_By_Zero\<close>: an integer division by zero;
  \<^item> \<open>Blocked\<close>: the running task went to sleep and waits for another one;
  \<^item> \<open>Diverges\<close>: a loop that has no last iteration.
\<close>

datatype kfault = Panic string | Mem_Fault string | Div_By_Zero | Blocked | Diverges

type_synonym 'a result = "kfault + 'a"

definition rbind :: "'a result \<Rightarrow> ('a \<Rightarrow> 'b result) \<Rightarrow> 'b result" where
  "rbind m f = (case m of Inl e \<Rightarrow> Inl e | Inr x \<Rightarrow> f x)"

lemma rbind_Inl [simp, result_simps]: "rbind (Inl e) f = Inl e"
  by (simp add: rbind_def)

lemma rbind_Inr [simp, result_simps]: "rbind (Inr x) f = f x"
  by (simp add: rbind_def)

lemma rbind_eq_Inr [result_simps]: "rbind m f = Inr y \<longleftrightarrow> (\<exists>x. m = Inr x \<and> f x = Inr y)"
  by (cases m) auto

lemma rbind_eq_Inl:
  "rbind m f = Inl e \<longleftrightarrow> m = Inl e \<or> (\<exists>x. m = Inr x \<and> f x = Inl e)"
  by (cases m) auto

lemma rbind_assoc: "rbind (rbind m f) g = rbind m (\<lambda>x. rbind (f x) g)"
  by (cases m) auto

lemma rbind_cong [fundef_cong]:
  "m = m' \<Longrightarrow> (\<And>x. m' = Inr x \<Longrightarrow> f x = g x) \<Longrightarrow> rbind m f = rbind m' g"
  by (cases m') auto

text \<open>The macros of \<^verbatim>\<open>debug.h\<close>. The modelled configuration defines \<^verbatim>\<open>DEBUG\<close> (the default of
  \<^verbatim>\<open>menuconf.txt\<close>), in which \<^verbatim>\<open>assert\<close> is \<^verbatim>\<open>kpanic\<close>.\<close>

definition kpanic :: "bool \<Rightarrow> string \<Rightarrow> unit result" where
  "kpanic x msg = (if x then Inr () else Inl (Panic msg))"

definition kassert :: "bool \<Rightarrow> string \<Rightarrow> unit result" where
  "kassert x msg = kpanic x msg"

lemma kpanic_True [simp]: "kpanic True msg = Inr ()"
  by (simp add: kpanic_def)

lemma kpanic_False [simp]: "kpanic False msg = Inl (Panic msg)"
  by (simp add: kpanic_def)

lemma kassert_True [simp]: "kassert True msg = Inr ()"
  by (simp add: kassert_def)

lemma kassert_False [simp]: "kassert False msg = Inl (Panic msg)"
  by (simp add: kassert_def)

lemma kpanic_eq_Inr [result_simps]: "kpanic x msg = Inr u \<longleftrightarrow> x"
  by (simp add: kpanic_def)

lemma kassert_eq_Inr [result_simps]: "kassert x msg = Inr u \<longleftrightarrow> x"
  by (simp add: kassert_def kpanic_def)

text \<open>Reading an element of a C array whose extent is known: out of range is a fault.\<close>

definition rd :: "'a list \<Rightarrow> nat \<Rightarrow> 'a result" where
  "rd xs i = (if i < length xs then Inr (xs ! i) else Inl (Mem_Fault ''array index''))"

lemma rd_in_range [simp]: "i < length xs \<Longrightarrow> rd xs i = Inr (xs ! i)"
  by (simp add: rd_def)

lemma rd_eq_Inr [result_simps]: "rd xs i = Inr x \<longleftrightarrow> i < length xs \<and> x = xs ! i"
  by (auto simp: rd_def)

section \<open>Error numbers\<close>

text \<open>The codes of \<^verbatim>\<open>errno.h\<close> that the modelled code returns, negated, as C \<^verbatim>\<open>int\<close>s.\<close>

definition SUCCESS :: int where "SUCCESS = 0"
definition ENOENT :: int where "ENOENT = 2"
definition EIO :: int where "EIO = 5"
definition ENOEXEC :: int where "ENOEXEC = 8"
definition EBADF :: int where "EBADF = 9"
definition EEXIST :: int where "EEXIST = 17"
definition ENODEV :: int where "ENODEV = 19"
definition ENOTDIR :: int where "ENOTDIR = 20"
definition EISDIR :: int where "EISDIR = 21"
definition EINVAL :: int where "EINVAL = 22"
definition ENAMETOOLONG :: int where "ENAMETOOLONG = 36"
definition ENOSYS :: int where "ENOSYS = 38"
definition ENOTSUP :: int where "ENOTSUP = 95"

lemmas errno_defs = SUCCESS_def ENOENT_def EIO_def ENOEXEC_def EBADF_def EEXIST_def ENODEV_def
  ENOTDIR_def EISDIR_def EINVAL_def ENAMETOOLONG_def ENOSYS_def ENOTSUP_def

section \<open>Words as natural numbers\<close>

lemma unat_add_no_wrap [word_nat_simps]:
  fixes x y :: "'a::len word"
  assumes "unat x + unat y < 2 ^ LENGTH('a)"
  shows "unat (x + y) = unat x + unat y"
  using assms by (simp add: unat_word_ariths)

lemma unat_sub_no_wrap [word_nat_simps]:
  fixes x y :: "'a::len word"
  assumes "y \<le> x"
  shows "unat (x - y) = unat x - unat y"
  using assms by (rule unat_sub)

lemma unat_of_nat_small [word_nat_simps]:
  assumes "n < 2 ^ LENGTH('a)"
  shows "unat (of_nat n :: 'a::len word) = n"
  using assms by (simp add: unat_of_nat take_bit_nat_eq_self)

lemma of_nat_unat_word: "of_nat (unat x) = (x :: 'a::len word)"
  by simp

lemma unat_lt_2p64: "unat (x :: u64) < 18446744073709551616"
  using unsigned_less [of x, where ?'a = nat] by simp

lemma of_nat_eq_iff_small:
  assumes "m < 2 ^ LENGTH('a)" "n < 2 ^ LENGTH('a)"
  shows "(of_nat m :: 'a::len word) = of_nat n \<longleftrightarrow> m = n"
  using assms by (metis unat_of_nat_small)

lemma unat_div_word [word_nat_simps]: "unat ((x :: 'a::len word) div y) = unat x div unat y"
  by (rule unat_div)

lemma unat_mod_word [word_nat_simps]: "unat ((x :: 'a::len word) mod y) = unat x mod unat y"
  by (rule unat_mod)

end
