(* ===== verification/Bitmap.thy ===== *)
theory Bitmap
  imports Kernel_Prelude
begin

text \<open>
  The bit set of \<^verbatim>\<open>libutil/bitmap.c\<close>: a size in bits and an array of bytes. The operations are
  translated with their loops and bounds assertions; the lemmas relate them to the set of the
  bits that are set. The locale \<open>bit_store\<close> is the interface the page allocator relies on.
\<close>

record bitmap_t =
  bmp_size :: u64
  bmp_bytes :: "u8 list"

definition BITMAP_BYTE_SIZE :: "u64 \<Rightarrow> u64" where
  "BITMAP_BYTE_SIZE b = (if b mod 8 = 0 then drop_bit 3 b else drop_bit 3 b + 1)"

text \<open>The array comes from \<^verbatim>\<open>kmalloc(bytes)\<close> and is filled by \<^verbatim>\<open>memset\<close>.\<close>

definition bitmap_init :: "u64 \<Rightarrow> u8 \<Rightarrow> bitmap_t" where
  "bitmap_init sz fill =
     \<lparr>bmp_size = sz, bmp_bytes = replicate (unat (BITMAP_BYTE_SIZE sz)) fill\<rparr>"

definition bitmap_get :: "bitmap_t \<Rightarrow> u64 \<Rightarrow> bool result" where
  "bitmap_get bmp index =
     rbind (kassert (index < bmp_size bmp) ''bitmap_get(): out of bounds'') (\<lambda>_.
       let byte = index div 8; bitno = index mod 8 in
       rbind (rd (bmp_bytes bmp) (unat byte)) (\<lambda>b.
         Inr (ucast b AND BIT (unat bitno) \<noteq> 0)))"

definition bitmap_set :: "bitmap_t \<Rightarrow> u64 \<Rightarrow> bitmap_t result" where
  "bitmap_set bmp index =
     rbind (kassert (index < bmp_size bmp) ''bitmap_set(): out of bounds'') (\<lambda>_.
       let byte = index div 8; bitno = index mod 8 in
       rbind (rd (bmp_bytes bmp) (unat byte)) (\<lambda>b.
         Inr (bmp\<lparr>bmp_bytes := (bmp_bytes bmp)[unat byte := ucast (ucast b OR BIT (unat bitno))]\<rparr>)))"

definition bitmap_clr :: "bitmap_t \<Rightarrow> u64 \<Rightarrow> bitmap_t result" where
  "bitmap_clr bmp index =
     rbind (kassert (index < bmp_size bmp) ''bitmap_clr(): out of bounds'') (\<lambda>_.
       let byte = index div 8; bitno = index mod 8 in
       rbind (rd (bmp_bytes bmp) (unat byte)) (\<lambda>b.
         Inr (bmp\<lparr>bmp_bytes :=
           (bmp_bytes bmp)[unat byte := ucast (ucast b AND NOT (BIT (unat bitno)))]\<rparr>)))"

text \<open>The inner loop of \<^verbatim>\<open>bitmap_find_free\<close>: the first clear bit of a byte.\<close>

function find_free_bit :: "u8 \<Rightarrow> nat \<Rightarrow> u64 \<Rightarrow> u64" where
  "find_free_bit b j pos =
     (if j < 8 then
        if ucast b AND BIT j = 0 then pos + of_nat j else find_free_bit b (Suc j) pos
      else pos)"
  by pat_completeness auto
termination
  by (relation "measure (\<lambda>(b, j, pos). 8 - j)") auto

function find_free_from :: "bitmap_t \<Rightarrow> nat \<Rightarrow> u64 result" where
  "find_free_from bmp i =
     (if i < unat (BITMAP_BYTE_SIZE (bmp_size bmp)) then
        rbind (rd (bmp_bytes bmp) i) (\<lambda>b.
          if b \<noteq> 0xff then Inr (find_free_bit b 0 (of_nat i * 8))
          else find_free_from bmp (Suc i))
      else Inr (- 1))"
  by pat_completeness auto
termination
  by (relation "measure (\<lambda>(bmp, i). unat (BITMAP_BYTE_SIZE (bmp_size bmp)) - i)") auto

definition bitmap_find_free :: "bitmap_t \<Rightarrow> u64 result" where
  "bitmap_find_free bmp = find_free_from bmp 0"

text \<open>
  \<^verbatim>\<open>bitmap_find_n_free\<close>: the two nested loops over bytes and bits run over the bit numbers
  \<open>k = 8 * i + j\<close> in order; \<open>free_bits\<close> and \<open>pos\<close> (\<^verbatim>\<open>bit\<close>) are the variables of the C function.
\<close>

function find_n_free_from :: "bitmap_t \<Rightarrow> u64 \<Rightarrow> nat \<Rightarrow> u64 \<Rightarrow> u64 \<Rightarrow> u64 result" where
  "find_n_free_from bmp n k free_bits pos =
     (if k < 8 * unat (BITMAP_BYTE_SIZE (bmp_size bmp)) then
        let i = k div 8; j = k mod 8 in
        rbind (rd (bmp_bytes bmp) i) (\<lambda>b.
          if ucast b AND BIT j = 0 then
            rbind
              (if free_bits = 0 then
                 if n = 0 then Inl Div_By_Zero
                 else if (of_nat i * 8 + of_nat j) mod n \<noteq> 0 then Inr (0, pos)
                 else Inr (free_bits + 1, of_nat i * 8 + of_nat j)
               else Inr (free_bits + 1, pos))
              (\<lambda>(free_bits, pos).
                 if free_bits \<ge> n then Inr pos
                 else find_n_free_from bmp n (Suc k) free_bits pos)
          else find_n_free_from bmp n (Suc k) 0 (- 1))
      else Inr (- 1))"
  by pat_completeness auto
termination
  by (relation "measure (\<lambda>(bmp, n, k, free_bits, pos).
        8 * unat (BITMAP_BYTE_SIZE (bmp_size bmp)) - k)") auto

definition bitmap_find_n_free :: "bitmap_t \<Rightarrow> u64 \<Rightarrow> u64 result" where
  "bitmap_find_n_free bmp n = find_n_free_from bmp n 0 0 (- 1)"

declare find_free_bit.simps [simp del] find_free_from.simps [simp del]
  find_n_free_from.simps [simp del]

section \<open>The set of used bits\<close>

definition bmp_bit :: "bitmap_t \<Rightarrow> nat \<Rightarrow> bool" where
  "bmp_bit bmp k = bit (bmp_bytes bmp ! (k div 8)) (k mod 8)"

abbreviation bmp_extent :: "bitmap_t \<Rightarrow> nat" where
  "bmp_extent bmp \<equiv> 8 * unat (BITMAP_BYTE_SIZE (bmp_size bmp))"

definition bmp_used :: "bitmap_t \<Rightarrow> nat set" where
  "bmp_used bmp = {k. k < unat (bmp_size bmp) \<and> bmp_bit bmp k}"

definition bmp_wf :: "bitmap_t \<Rightarrow> bool" where
  "bmp_wf bmp \<longleftrightarrow> length (bmp_bytes bmp) = unat (BITMAP_BYTE_SIZE (bmp_size bmp))"

text \<open>
  The searches look at whole bytes. When the size is no multiple of 8, the bits behind the size
  are looked at as well and have to be marked used.
\<close>

definition bmp_padded :: "bitmap_t \<Rightarrow> bool" where
  "bmp_padded bmp \<longleftrightarrow> (\<forall>k. unat (bmp_size bmp) \<le> k \<longrightarrow> k < bmp_extent bmp \<longrightarrow> bmp_bit bmp k)"

definition bmp_inv :: "bitmap_t \<Rightarrow> bool" where
  "bmp_inv bmp \<longleftrightarrow> bmp_wf bmp \<and> bmp_padded bmp"

lemma div_8_round_up: "(n + 7) div 8 = (if n mod 8 = 0 then n div 8 else n div 8 + 1)" for n :: nat
proof -
  have "n = 8 * (n div 8) + n mod 8" by simp
  moreover have "(8 * q + r + 7) div 8 = (if r = 0 then q else q + 1)" if "r < 8" for q r :: nat
    using that by (auto simp: div_nat_eqI)
  ultimately show ?thesis by (metis mod_less_divisor zero_less_numeral)
qed

lemma unat_BITMAP_BYTE_SIZE: "unat (BITMAP_BYTE_SIZE b) = (unat b + 7) div 8"
proof -
  have d: "unat (drop_bit 3 b) = unat b div 8"
    by (simp add: unat_drop_bit_eq drop_bit_nat_def)
  have m: "b mod 8 = 0 \<longleftrightarrow> unat b mod 8 = 0"
    by (simp add: unat_mod_word flip: unat_eq_0)
  have "unat (drop_bit 3 b + 1) = unat b div 8 + 1"
    using unat_lt_2p64 [of b] by (subst unat_add_no_wrap) (simp_all add: d)
  then show ?thesis by (simp add: BITMAP_BYTE_SIZE_def d m div_8_round_up)
qed

lemma bmp_extent_bounds:
  "unat (bmp_size bmp) \<le> bmp_extent bmp" "bmp_extent bmp < unat (bmp_size bmp) + 8"
  "bmp_extent bmp \<le> 18446744073709551616"
  using unat_lt_2p64 [of "bmp_size bmp"] by (simp_all add: unat_BITMAP_BYTE_SIZE)

lemma byte_test: "ucast (b :: u8) AND BIT j = 0 \<longleftrightarrow> \<not> bit b j"
proof (cases "j < 8")
  case True
  then show ?thesis
    using bit_iff_and_push_bit_not_eq_0 [of "ucast b :: u64" j]
    by (auto simp: BIT_def bit_ucast_iff)
next
  case False
  then show ?thesis
    using bit_iff_and_push_bit_not_eq_0 [of "ucast b :: u64" j] bit_imp_le_length [of b j]
    by (auto simp: BIT_def bit_ucast_iff)
qed

lemma bit_byte_set:
  "j < 8 \<Longrightarrow> bit (ucast (ucast (b :: u8) OR BIT j) :: u8) m \<longleftrightarrow> m = j \<or> bit b m"
  by (auto simp: BIT_def bit_simps dest: bit_imp_le_length)

lemma bit_byte_clr:
  "j < 8 \<Longrightarrow> bit (ucast (ucast (b :: u8) AND NOT (BIT j)) :: u8) m \<longleftrightarrow> m \<noteq> j \<and> bit b m"
  by (auto simp: BIT_def bit_simps dest: bit_imp_le_length)

lemma byte_index_less: "bmp_wf bmp \<Longrightarrow> k < bmp_extent bmp \<Longrightarrow> k div 8 < length (bmp_bytes bmp)"
  by (simp add: bmp_wf_def less_mult_imp_div_less mult.commute)

lemma size_index_less: "i < bmp_size bmp \<Longrightarrow> unat i < bmp_extent bmp"
  using bmp_extent_bounds(1) [of bmp] by (simp add: word_less_nat_alt)

lemmas bitmap_op_simps = unat_div_word unat_mod_word byte_index_less size_index_less

lemma div_mod_8_eq: "k div 8 = i div 8 \<Longrightarrow> k mod 8 = i mod 8 \<longleftrightarrow> k = (i::nat)"
  by (metis div_mult_mod_eq)

lemma bitmap_get_ok:
  assumes "bmp_wf bmp" and "i < bmp_size bmp"
  shows "bitmap_get bmp i = Inr (unat i \<in> bmp_used bmp)"
  using assms
  by (simp add: bitmap_get_def bitmap_op_simps byte_test bmp_used_def bmp_bit_def word_less_nat_alt)

lemma bitmap_set_ok:
  assumes "bmp_inv bmp" and "i < bmp_size bmp"
  obtains bmp' where "bitmap_set bmp i = Inr bmp'" and "bmp_inv bmp'"
    and "bmp_size bmp' = bmp_size bmp" and "bmp_used bmp' = insert (unat i) (bmp_used bmp)"
proof -
  have wf: "bmp_wf bmp" and pad: "bmp_padded bmp" using assms(1) by (auto simp: bmp_inv_def)
  let ?j = "unat i div 8"
  let ?b = "ucast (ucast (bmp_bytes bmp ! ?j) OR BIT (unat i mod 8)) :: u8"
  let ?bmp' = "bmp\<lparr>bmp_bytes := (bmp_bytes bmp)[?j := ?b]\<rparr>"
  have j: "?j < length (bmp_bytes bmp)" by (rule byte_index_less [OF wf size_index_less [OF assms(2)]])
  have bits: "bmp_bit ?bmp' k \<longleftrightarrow> k = unat i \<or> bmp_bit bmp k" for k
    using div_mod_8_eq [of k "unat i"] j
    by (cases "k div 8 = unat i div 8") (auto simp: bmp_bit_def bit_byte_set)
  have "bitmap_set bmp i = Inr ?bmp'"
    using assms(2) j by (simp add: bitmap_set_def bitmap_op_simps Let_def)
  moreover have "bmp_inv ?bmp'" using wf pad by (auto simp: bmp_inv_def bmp_wf_def bmp_padded_def bits)
  moreover have "bmp_used ?bmp' = insert (unat i) (bmp_used bmp)"
    using assms(2) by (auto simp: bmp_used_def bits word_less_nat_alt)
  ultimately show ?thesis using that by simp
qed

lemma bitmap_clr_ok:
  assumes "bmp_inv bmp" and "i < bmp_size bmp"
  obtains bmp' where "bitmap_clr bmp i = Inr bmp'" and "bmp_inv bmp'"
    and "bmp_size bmp' = bmp_size bmp" and "bmp_used bmp' = bmp_used bmp - {unat i}"
proof -
  have wf: "bmp_wf bmp" and pad: "bmp_padded bmp" using assms(1) by (auto simp: bmp_inv_def)
  let ?j = "unat i div 8"
  let ?b = "ucast (ucast (bmp_bytes bmp ! ?j) AND NOT (BIT (unat i mod 8))) :: u8"
  let ?bmp' = "bmp\<lparr>bmp_bytes := (bmp_bytes bmp)[?j := ?b]\<rparr>"
  have j: "?j < length (bmp_bytes bmp)" by (rule byte_index_less [OF wf size_index_less [OF assms(2)]])
  have bits: "bmp_bit ?bmp' k \<longleftrightarrow> k \<noteq> unat i \<and> bmp_bit bmp k" for k
    using div_mod_8_eq [of k "unat i"] j
    by (cases "k div 8 = unat i div 8") (auto simp: bmp_bit_def bit_byte_clr)
  have "bitmap_clr bmp i = Inr ?bmp'"
    using assms(2) j by (simp add: bitmap_clr_def bitmap_op_simps Let_def)
  moreover have "bmp_inv ?bmp'"
    using wf pad assms(2) by (auto simp: bmp_inv_def bmp_wf_def bmp_padded_def bits word_less_nat_alt)
  moreover have "bmp_used ?bmp' = bmp_used bmp - {unat i}"
    by (auto simp: bmp_used_def bits)
  ultimately show ?thesis using that by simp
qed

section \<open>Searching\<close>

lemma find_free_bit_first:
  assumes "j \<le> j'" and "j' < 8" and "\<not> bit b j'" and "\<forall>m. j \<le> m \<longrightarrow> m < j' \<longrightarrow> bit b m"
  shows "find_free_bit b j pos = pos + of_nat j'"
  using assms
proof (induction "j' - j" arbitrary: j)
  case 0
  then show ?case by (subst find_free_bit.simps) (simp add: byte_test)
next
  case (Suc d)
  then have "bit b j" and "j < 8" by auto
  with Suc show ?case by (subst find_free_bit.simps) (simp add: byte_test)
qed

lemma byte_not_full: "b \<noteq> (0xff :: u8) \<Longrightarrow> \<exists>j<8. \<not> bit b j"
proof (rule ccontr)
  assume "b \<noteq> 0xff" and "\<not> (\<exists>j<8. \<not> bit b j)"
  then have "b = mask 8" by (intro bit_eqI) (auto simp: bit_simps)
  also have "mask 8 = (0xff :: u8)" by (simp add: mask_eq_exp_minus_1)
  finally show False using \<open>b \<noteq> 0xff\<close> by simp
qed

lemma byte_first_free:
  assumes "b \<noteq> (0xff :: u8)"
  shows "\<exists>j. \<not> bit b j \<and> j < 8 \<and> (\<forall>m<j. bit b m)"
proof -
  obtain j0 where "j0 < 8" "\<not> bit b j0" using byte_not_full [OF assms] by blast
  moreover from this obtain j where "\<not> bit b j" "\<forall>m<j. bit b m"
    using exists_least_iff [of "\<lambda>j. \<not> bit b j"] by blast
  ultimately show ?thesis by (metis not_less_iff_gr_or_eq order.strict_trans)
qed

lemma byte_full: "j < 8 \<Longrightarrow> bit (0xff :: u8) j"
proof -
  assume "j < 8"
  then have "bit (mask 8 :: u8) j" by (simp add: bit_simps)
  moreover have "mask 8 = (0xff :: u8)" by (simp add: mask_eq_exp_minus_1)
  ultimately show ?thesis by metis
qed

lemma unat_bit_index:
  assumes "k < bmp_extent bmp"
  shows "unat (of_nat (k div 8) * 8 + of_nat (k mod 8) :: u64) = k"
proof -
  have "of_nat (k div 8) * 8 + of_nat (k mod 8) = (of_nat (k div 8 * 8 + k mod 8) :: u64)"
    by (simp only: of_nat_add of_nat_mult of_nat_numeral)
  then show ?thesis using assms bmp_extent_bounds(3) [of bmp] by (simp add: unat_of_nat_small)
qed

lemma bits_below_Suc_byte:
  assumes "\<forall>k<8 * i. bmp_bit bmp k" and "\<forall>j<8. bit (bmp_bytes bmp ! i) j"
  shows "\<forall>k<8 * Suc i. bmp_bit bmp k"
proof (intro allI impI)
  fix k assume "k < 8 * Suc i"
  then have "k < 8 * i \<or> k div 8 = i" by auto
  then consider "k < 8 * i" | "k div 8 = i" by blast
  then show "bmp_bit bmp k" using assms by cases (auto simp: bmp_bit_def)
qed

lemma find_free_from_first:
  assumes "bmp_wf bmp" and "\<forall>k<8 * i. bmp_bit bmp k" and "i \<le> unat (BITMAP_BYTE_SIZE (bmp_size bmp))"
  shows "(\<forall>k<bmp_extent bmp. bmp_bit bmp k) \<and> find_free_from bmp i = Inr (- 1) \<or>
    (\<exists>k<bmp_extent bmp. \<not> bmp_bit bmp k \<and> (\<forall>m<k. bmp_bit bmp m) \<and>
       find_free_from bmp i = Inr (of_nat k))"
  using assms
proof (induction bmp i rule: find_free_from.induct)
  case (1 bmp i)
  show ?case
  proof (cases "i < unat (BITMAP_BYTE_SIZE (bmp_size bmp))")
    case False
    then have "find_free_from bmp i = Inr (- 1)" by (simp add: find_free_from.simps [of bmp i])
    moreover have "8 * i = bmp_extent bmp" using False "1.prems"(3) by simp
    ultimately show ?thesis using "1.prems"(2) by simp
  next
    case True
    let ?b = "bmp_bytes bmp ! i"
    have rd: "rd (bmp_bytes bmp) i = Inr ?b" using True "1.prems"(1) by (simp add: bmp_wf_def)
    show ?thesis
    proof (cases "?b = 0xff")
      case full: True
      have "\<forall>k<8 * Suc i. bmp_bit bmp k"
        using bits_below_Suc_byte "1.prems"(2) byte_full full by simp
      moreover have "find_free_from bmp i = find_free_from bmp (Suc i)"
        by (subst find_free_from.simps) (simp add: True rd full)
      ultimately show ?thesis using "1.IH" [OF True rd] full "1.prems"(1) True by (simp del: mult_Suc_right)
    next
      case False
      then obtain j where j: "\<not> bit ?b j" "j < 8" "\<forall>m<j. bit ?b m"
        using byte_first_free by blast
      let ?k = "8 * i + j"
      have "find_free_bit ?b 0 (of_nat i * 8) = of_nat ?k"
        using find_free_bit_first [of 0 j ?b] j by simp
      then have "find_free_from bmp i = Inr (of_nat ?k)"
        by (subst find_free_from.simps) (simp add: True rd False)
      moreover have "\<not> bmp_bit bmp ?k" using j by (simp add: bmp_bit_def)
      moreover have "bmp_bit bmp m" if "m < ?k" for m
      proof (cases "m < 8 * i")
        case True
        then show ?thesis using "1.prems"(2) by simp
      next
        case False
        define d where "d = m - 8 * i"
        have "m = 8 * i + d" "d < j" using that False by (simp_all add: d_def)
        then have "m div 8 = i" "m mod 8 < j" using j(2) by simp_all
        then show ?thesis using j(3) by (simp add: bmp_bit_def)
      qed
      moreover have "?k < bmp_extent bmp" using True j(2) by simp
      ultimately show ?thesis by blast
    qed
  qed
qed

lemma bitmap_find_free_ok:
  assumes "bmp_inv bmp"
  shows "bitmap_find_free bmp =
    Inr (if {..<unat (bmp_size bmp)} \<subseteq> bmp_used bmp then - 1
         else of_nat (LEAST k. k \<notin> bmp_used bmp))"
proof -
  have wf: "bmp_wf bmp" and pad: "bmp_padded bmp" using assms by (auto simp: bmp_inv_def)
  consider (full) "\<forall>k<bmp_extent bmp. bmp_bit bmp k" "find_free_from bmp 0 = Inr (- 1)"
    | (free) k where "k < bmp_extent bmp" "\<not> bmp_bit bmp k" "\<forall>m<k. bmp_bit bmp m"
        "find_free_from bmp 0 = Inr (of_nat k)"
    using find_free_from_first [OF wf, of 0] by auto
  then show ?thesis
  proof cases
    case full
    then have "{..<unat (bmp_size bmp)} \<subseteq> bmp_used bmp"
      using bmp_extent_bounds(1) [of bmp] by (auto simp: bmp_used_def)
    with full show ?thesis by (simp add: bitmap_find_free_def)
  next
    case (free k)
    then have k: "k < unat (bmp_size bmp)" using pad by (auto simp: bmp_padded_def not_le [symmetric])
    have "(LEAST k. k \<notin> bmp_used bmp) = k"
      using free k by (intro Least_equality) (auto simp: bmp_used_def not_le [symmetric])
    moreover have "k \<notin> bmp_used bmp" using free by (simp add: bmp_used_def)
    ultimately show ?thesis using free k by (auto simp: bitmap_find_free_def)
  qed
qed

text \<open>Aligned runs of \<open>n\<close> clear bits, what \<^verbatim>\<open>bitmap_find_n_free\<close> looks for.\<close>

definition free_run :: "bitmap_t \<Rightarrow> nat \<Rightarrow> nat \<Rightarrow> bool" where
  "free_run bmp n a \<longleftrightarrow>
     a mod n = 0 \<and> a + n \<le> bmp_extent bmp \<and> (\<forall>k. a \<le> k \<longrightarrow> k < a + n \<longrightarrow> \<not> bmp_bit bmp k)"

text \<open>
  The loop invariant at bit number \<open>k\<close> with \<open>f\<close> free bits counted: the last \<open>f\<close> bits are clear
  and start at an aligned position, and no run starts before them.
\<close>

definition run_inv :: "bitmap_t \<Rightarrow> nat \<Rightarrow> nat \<Rightarrow> nat \<Rightarrow> u64 \<Rightarrow> bool" where
  "run_inv bmp n k f pos \<longleftrightarrow>
     f \<le> k \<and> f < n \<and> (0 < f \<longrightarrow> pos = of_nat (k - f) \<and> (k - f) mod n = 0) \<and>
     (\<forall>m. k - f \<le> m \<longrightarrow> m < k \<longrightarrow> \<not> bmp_bit bmp m) \<and>
     (\<forall>a. a < k - f \<longrightarrow> \<not> free_run bmp n a)"

lemma run_inv_used:
  assumes "run_inv bmp n k f pos" and "bmp_bit bmp k"
  shows "run_inv bmp n (Suc k) 0 (- 1)"
proof -
  have "\<not> free_run bmp n a" if "a < Suc k" for a
  proof (cases "a < k - f")
    case True
    then show ?thesis using assms(1) by (simp add: run_inv_def)
  next
    case False
    then have "a \<le> k" "k < a + n" using that assms(1) by (auto simp: run_inv_def)
    then show ?thesis using assms(2) by (auto simp: free_run_def)
  qed
  then show ?thesis using assms(1) by (auto simp: run_inv_def)
qed

lemma run_inv_unaligned:
  assumes "run_inv bmp n k 0 pos" and "k mod n \<noteq> 0"
  shows "run_inv bmp n (Suc k) 0 pos'"
  using assms by (auto simp: run_inv_def less_Suc_eq free_run_def)

lemma run_inv_start:
  assumes "run_inv bmp n k 0 pos" and "k mod n = 0" and "\<not> bmp_bit bmp k" and "1 < n"
  shows "run_inv bmp n (Suc k) 1 (of_nat k)"
  using assms by (auto simp: run_inv_def le_less_Suc_eq)

lemma run_inv_extend:
  assumes "run_inv bmp n k f pos" and "0 < f" and "\<not> bmp_bit bmp k" and "Suc f < n"
  shows "run_inv bmp n (Suc k) (Suc f) pos"
  using assms by (auto simp: run_inv_def less_Suc_eq)

lemma run_inv_found:
  assumes "run_inv bmp n k f pos" and "k < bmp_extent bmp" and "\<not> bmp_bit bmp k" and "Suc f = n"
    and "(k - f) mod n = 0"
  shows "free_run bmp n (k - f) \<and> (LEAST a. free_run bmp n a) = k - f"
proof -
  have "f \<le> k" and clear: "\<forall>m. k - f \<le> m \<longrightarrow> m < k \<longrightarrow> \<not> bmp_bit bmp m"
    and none: "\<forall>a. a < k - f \<longrightarrow> \<not> free_run bmp n a"
    using assms(1) by (simp_all add: run_inv_def)
  have "\<not> bmp_bit bmp m" if "k - f \<le> m" "m < k - f + n" for m
    using that clear assms(3,4) \<open>f \<le> k\<close> by (cases "m = k") auto
  then have "free_run bmp n (k - f)"
    using assms(2,4,5) \<open>f \<le> k\<close> by (simp add: free_run_def)
  moreover have "k - f \<le> a" if "free_run bmp n a" for a
    using that none by (meson not_le)
  ultimately show ?thesis by (auto intro: Least_equality)
qed

definition find_n_result :: "bitmap_t \<Rightarrow> nat \<Rightarrow> u64" where
  "find_n_result bmp n =
     (if \<exists>a. free_run bmp n a then of_nat (LEAST a. free_run bmp n a) else - 1)"

lemma find_n_free_from_ok:
  assumes "bmp_wf bmp" and "0 < n" and "run_inv bmp (unat n) k (unat f) pos"
    and "k \<le> bmp_extent bmp"
  shows "find_n_free_from bmp n k f pos = Inr (find_n_result bmp (unat n))"
  using assms
proof (induction bmp n k f pos rule: find_n_free_from.induct)
  case (1 bmp n k f pos)
  note inv = "1.prems"(3)
  have n0: "n \<noteq> 0" "0 < unat n" using "1.prems"(2) by (auto simp: word_less_nat_alt)
  show ?case
  proof (cases "k < bmp_extent bmp")
    case False
    have "\<not> free_run bmp (unat n) a" for a
      using False inv by (cases "a < k - unat f") (auto simp: run_inv_def free_run_def)
    then have "find_n_result bmp (unat n) = - 1" by (simp add: find_n_result_def)
    then show ?thesis using False by (subst find_n_free_from.simps) simp
  next
    case True
    note step = "1.IH" [OF True refl refl]
    let ?b = "bmp_bytes bmp ! (k div 8)"
    let ?p = "of_nat (k div 8) * 8 + of_nat (k mod 8) :: u64"
    have rd: "rd (bmp_bytes bmp) (k div 8) = Inr ?b"
      using byte_index_less [OF "1.prems"(1) True] by simp
    have p: "?p = of_nat k" using unat_bit_index [OF True] by (metis of_nat_unat_word)
    have al: "?p mod n = 0 \<longleftrightarrow> k mod unat n = 0"
      using unat_bit_index [OF True] unat_mod_word [of ?p n] by (metis unat_eq_0)
    have f1: "unat (f + 1) = Suc (unat f)"
      using inv unat_lt_2p64 [of n] by (subst unat_add_no_wrap) (auto simp: run_inv_def)
    show ?thesis
    proof (cases "bmp_bit bmp k")
      case used: True
      then have t: "ucast ?b AND BIT (k mod 8) \<noteq> 0" by (simp add: byte_test bmp_bit_def)
      have "find_n_free_from bmp n k f pos = find_n_free_from bmp n (Suc k) 0 (- 1)"
        by (subst find_n_free_from.simps) (simp add: True rd t)
      then show ?thesis
        using step(2) [OF rd t "1.prems"(1,2)] run_inv_used [OF inv used] True by simp
    next
      case free: False
      then have t: "ucast ?b AND BIT (k mod 8) = 0" by (simp add: byte_test bmp_bit_def)
      note rec = step(1) [OF rd t _ refl _ "1.prems"(1,2)]
      show ?thesis
      proof (cases "f = 0")
        case f0: True
        show ?thesis
        proof (cases "k mod unat n = 0")
          case False
          then have "find_n_free_from bmp n k f pos = find_n_free_from bmp n (Suc k) 0 pos"
            using al by (subst find_n_free_from.simps) (simp add: True rd t f0 n0)
          then show ?thesis
            using rec [of 0 pos] run_inv_unaligned [of bmp "unat n" k pos pos] inv False al f0 n0 True
            by simp
        next
          case aligned: True
          show ?thesis
          proof (cases "unat n = 1")
            case n1: True
            then have "n = 1" by (metis unat_1 word_unat_eq_iff)
            then have "find_n_free_from bmp n k f pos = Inr (of_nat k)"
              using al aligned p by (subst find_n_free_from.simps) (simp add: True rd t f0)
            then show ?thesis
              using run_inv_found [OF inv True free] n1 f0 by (auto simp: find_n_result_def)
          next
            case False
            then have "1 < n" using n0 by (simp add: word_less_nat_alt)
            then have "\<not> n \<le> 1" by simp
            then have "find_n_free_from bmp n k f pos = find_n_free_from bmp n (Suc k) 1 (of_nat k)"
              using al aligned p by (subst find_n_free_from.simps) (simp add: True rd t f0 n0)
            then show ?thesis
              using rec [of 1 "of_nat k"] run_inv_start [of bmp "unat n" k pos] inv aligned free al p
                f0 n0 True \<open>1 < n\<close> by (simp add: word_less_nat_alt not_le)
          qed
        qed
      next
        case False
        then have f0: "0 < unat f" by (simp add: unat_gt_0)
        then have pos: "pos = of_nat (k - unat f)" "(k - unat f) mod unat n = 0"
          using inv by (auto simp: run_inv_def)
        show ?thesis
        proof (cases "Suc (unat f) = unat n")
          case last: True
          then have "n \<le> f + 1" by (simp add: word_le_nat_alt f1)
          then have "find_n_free_from bmp n k f pos = Inr pos"
            by (subst find_n_free_from.simps) (simp add: True rd t False)
          then show ?thesis
            using run_inv_found [OF inv True free last pos(2)] pos by (auto simp: find_n_result_def)
        next
          case more: False
          then have lt: "\<not> n \<le> f + 1" using inv by (auto simp: word_le_nat_alt f1 run_inv_def)
          then have "find_n_free_from bmp n k f pos = find_n_free_from bmp n (Suc k) (f + 1) pos"
            by (subst find_n_free_from.simps) (simp add: True rd t False)
          moreover have "Suc (unat f) < unat n" using more inv by (auto simp: run_inv_def)
          ultimately show ?thesis
            using rec [of "f + 1" pos] run_inv_extend [OF inv f0 free] False lt True by (simp add: f1)
        qed
      qed
    qed
  qed
qed

lemma bitmap_find_n_free_ok:
  assumes "bmp_wf bmp" and "0 < n"
  shows "bitmap_find_n_free bmp n = Inr (find_n_result bmp (unat n))"
  unfolding bitmap_find_n_free_def using assms
  by (intro find_n_free_from_ok) (auto simp: run_inv_def word_less_nat_alt)

text \<open>With the padding bits set, a run lies inside the bitmap and misses the used bits.\<close>

lemma free_run_bounds:
  assumes "bmp_inv bmp" and "free_run bmp n a" and "0 < n"
  shows "a + n \<le> unat (bmp_size bmp)" and "{a..<a + n} \<inter> bmp_used bmp = {}"
proof -
  have pad: "bmp_padded bmp" using assms(1) by (simp add: bmp_inv_def)
  show "a + n \<le> unat (bmp_size bmp)"
  proof (rule ccontr)
    assume "\<not> ?thesis"
    then have "unat (bmp_size bmp) \<le> a + n - 1" "a + n - 1 < bmp_extent bmp" "a \<le> a + n - 1"
      "a + n - 1 < a + n"
      using assms by (auto simp: free_run_def)
    then have "bmp_bit bmp (a + n - 1)" "\<not> bmp_bit bmp (a + n - 1)"
      using pad assms(2) unfolding bmp_padded_def free_run_def by blast+
    then show False by simp
  qed
  show "{a..<a + n} \<inter> bmp_used bmp = {}"
    using assms(2) by (auto simp: free_run_def bmp_used_def)
qed

section \<open>The interface\<close>

text \<open>
  What the page allocator relies on: a set of numbers below a capacity with membership,
  insertion, removal and the search for the least absent number.
\<close>

locale bit_store =
  fixes get :: "'b \<Rightarrow> u64 \<Rightarrow> bool result"
    and ins :: "'b \<Rightarrow> u64 \<Rightarrow> 'b result"
    and del :: "'b \<Rightarrow> u64 \<Rightarrow> 'b result"
    and find :: "'b \<Rightarrow> u64 result"
    and used :: "'b \<Rightarrow> nat set"
    and cap :: "'b \<Rightarrow> nat"
    and inv :: "'b \<Rightarrow> bool"
  assumes used_below_cap: "used b \<subseteq> {..<cap b}"
    and cap_bound: "cap b < 2 ^ 64"
    and get_used: "inv b \<Longrightarrow> unat i < cap b \<Longrightarrow> get b i = Inr (unat i \<in> used b)"
    and ins_used: "inv b \<Longrightarrow> unat i < cap b \<Longrightarrow>
      \<exists>b'. ins b i = Inr b' \<and> inv b' \<and> cap b' = cap b \<and> used b' = insert (unat i) (used b)"
    and del_used: "inv b \<Longrightarrow> unat i < cap b \<Longrightarrow>
      \<exists>b'. del b i = Inr b' \<and> inv b' \<and> cap b' = cap b \<and> used b' = used b - {unat i}"
    and find_least: "inv b \<Longrightarrow>
      find b = Inr (if {..<cap b} \<subseteq> used b then - 1 else of_nat (LEAST k. k \<notin> used b))"
begin

lemma find_full: "inv b \<Longrightarrow> used b = {..<cap b} \<Longrightarrow> find b = Inr (- 1)"
  by (simp add: find_least)

lemma find_free:
  assumes "inv b" and "used b \<noteq> {..<cap b}"
  obtains i where "find b = Inr i" and "i \<noteq> - 1" and "unat i < cap b" and "unat i \<notin> used b"
proof -
  let ?k = "LEAST k. k \<notin> used b"
  obtain k where k: "k < cap b" "k \<notin> used b" using assms(2) used_below_cap [of b] by blast
  have "?k \<le> k" "?k \<notin> used b"
    using Least_le [of "\<lambda>k. k \<notin> used b", OF k(2)] LeastI [of "\<lambda>k. k \<notin> used b", OF k(2)] .
  then have lt: "?k < cap b" using k by simp
  have u: "unat (of_nat ?k :: u64) = ?k" using lt cap_bound [of b] by (intro unat_of_nat_small) simp
  have "find b = Inr (of_nat ?k)" using find_least [OF assms(1)] k by auto
  moreover have "of_nat ?k \<noteq> (- 1 :: u64)"
  proof
    assume "of_nat ?k = (- 1 :: u64)"
    then have "?k = unat (- 1 :: u64)" using u by metis
    then show False using lt cap_bound [of b] by (simp add: unsigned_minus_1_eq_mask mask_eq_exp_minus_1)
  qed
  ultimately show ?thesis using that u lt \<open>?k \<notin> used b\<close> by metis
qed

end

interpretation bm: bit_store bitmap_get bitmap_set bitmap_clr bitmap_find_free bmp_used
  "\<lambda>bmp. unat (bmp_size bmp)" bmp_inv
proof (unfold_locales, goal_cases)
  case (1 b) show ?case by (auto simp: bmp_used_def)
next
  case (2 b) show ?case using unat_lt_2p64 by simp
next
  case (3 b i) then show ?case by (simp add: bitmap_get_ok bmp_inv_def word_less_nat_alt)
next
  case (4 b i) then show ?case by (metis bitmap_set_ok word_less_nat_alt)
next
  case (5 b i) then show ?case by (metis bitmap_clr_ok word_less_nat_alt)
next
  case (6 b) then show ?case by (rule bitmap_find_free_ok)
qed

text \<open>A freshly initialised bitmap filled with ones (as the boot stage makes it) is well formed.\<close>

lemma bitmap_init_inv: "bmp_inv (bitmap_init sz 0xff)"
  unfolding bmp_inv_def bmp_wf_def bmp_padded_def
  using byte_full [of "_ mod 8"]
  by (auto simp: bitmap_init_def bmp_bit_def less_mult_imp_div_less mult.commute)

end
