(* ===== verification/Mutexes.thy ===== *)
theory Mutexes
  imports Kernel_Prelude
begin

text \<open>
  Tasks and locks: the structures of \<^verbatim>\<open>sched/task.h\<close> and \<^verbatim>\<open>sched/mutex.h\<close>, the atomic
  primitives of \<^verbatim>\<open>x86/atomic.c\<close>, the operations of \<^verbatim>\<open>sched/spinlock.c\<close> and
  \<^verbatim>\<open>sched/mutex.c\<close> as one task executes them, and the state every other component extends
  (\<open>kbase\<close>: the running task and the task structures in memory). What several tasks do to one
  mutex, step by step, is the subject of \<open>Mutex_Interleaving\<close>.
\<close>

section \<open>Tasks\<close>

datatype task_state_t = TASK_RUNNING | TASK_SLEEPING | TASK_KILLED

text \<open>A pointer to an address space is the static kernel object or an object on the heap.\<close>

datatype vspace_ref = VSPACE_KERNEL | Vspace u64

record task_t =
  tid :: u64
  task_state :: task_state_t
  task_context :: u64
  task_vspace :: vspace_ref
  kstack_ptr :: u64
  kstack_base :: u64
  irq_wait :: bool
  user_stack :: u64
  task_process :: u64

record kbase =
  current_task :: u64
  tasks :: "u64 \<rightharpoonup> task_t"

section \<open>Atomic primitives\<close>

text \<open>\<^verbatim>\<open>xchg(val, mem)\<close>: the old contents of the cell, and its new contents.\<close>

definition xchg :: "u64 \<Rightarrow> u64 \<Rightarrow> u64 \<times> u64" where
  "xchg val mem = (mem, val)"

text \<open>\<^verbatim>\<open>lock xadd\<close>: the old contents of the cell, and its new contents.\<close>

definition atomic_add :: "u64 \<Rightarrow> u64 \<Rightarrow> u64 \<times> u64" where
  "atomic_add mem increment = (mem, mem + increment)"

section \<open>Spinlocks\<close>

record spin_t =
  spin_word :: u64
  spin_magic :: u64

definition MUTEX_MAGIC :: u64 where "MUTEX_MAGIC = 0xdeadbeef"
definition SPIN_MAGIC :: u64 where "SPIN_MAGIC = 0xdead0ff0"

definition SPIN_INITIALIZER :: spin_t where
  "SPIN_INITIALIZER = \<lparr>spin_word = 0, spin_magic = SPIN_MAGIC\<rparr>"

definition spin_check_magic :: "spin_t \<Rightarrow> unit result" where
  "spin_check_magic spin =
     kassert (spin_magic spin = SPIN_MAGIC) ''spin_t uninitialized or corrupt''"

definition spin_init :: "spin_t \<Rightarrow> spin_t result" where
  "spin_init spin =
     rbind (kassert (spin_magic spin \<noteq> MUTEX_MAGIC) ''mutex_init(): mutex already initialized'')
       (\<lambda>_. Inr (spin\<lparr>spin_word := 0, spin_magic := SPIN_MAGIC\<rparr>))"

text \<open>A taken spinlock makes the caller yield until another task has released it.\<close>

definition spin_lock :: "spin_t \<Rightarrow> spin_t result" where
  "spin_lock spin =
     rbind (spin_check_magic spin) (\<lambda>_.
       let (old, new) = xchg 1 (spin_word spin) in
       if old \<noteq> 0 then Inl Blocked else Inr (spin\<lparr>spin_word := new\<rparr>))"

definition spin_unlock :: "spin_t \<Rightarrow> spin_t result" where
  "spin_unlock spin =
     rbind (spin_check_magic spin) (\<lambda>_.
     rbind (kassert (spin_word spin \<noteq> 0) ''spinlock is not acquired'') (\<lambda>_.
       Inr (spin\<lparr>spin_word := 0\<rparr>)))"

definition spin_destroy :: "spin_t \<Rightarrow> spin_t result" where
  "spin_destroy spin =
     rbind (spin_check_magic spin) (\<lambda>_.
     rbind (kassert (spin_word spin = 0) ''spin_destroy() called while locked'') (\<lambda>_.
       Inr (spin\<lparr>spin_magic := 0\<rparr>)))"

section \<open>Mutexes\<close>

text \<open>
  The list of waiting tasks is the sequence of task pointers that its \<^verbatim>\<open>list_t\<close> holds
  (\<open>Linked_List\<close> shows that \<^verbatim>\<open>list.c\<close> implements these sequences).
\<close>

record mutex_t =
  mtx_lock :: u64
  mtx_magic :: u64
  waiting_tasks :: "u64 list"
  waiting_tasks_lock :: spin_t
  held_by :: u64

definition MUTEX_INITIALIZER :: mutex_t where
  "MUTEX_INITIALIZER = \<lparr>mtx_lock = 0, mtx_magic = MUTEX_MAGIC, waiting_tasks = [],
     waiting_tasks_lock = SPIN_INITIALIZER, held_by = NULL\<rparr>"

definition mutex_check_magic :: "mutex_t \<Rightarrow> unit result" where
  "mutex_check_magic mtx =
     kassert (mtx_magic mtx = MUTEX_MAGIC) ''mutex_t uninitialized or corrupt''"

definition mutex_init :: "mutex_t \<Rightarrow> mutex_t result" where
  "mutex_init mtx =
     rbind (kassert (mtx_magic mtx \<noteq> MUTEX_MAGIC) ''mutex_init(): mutex already initialized'') (\<lambda>_.
       let mtx = mtx\<lparr>mtx_magic := MUTEX_MAGIC, mtx_lock := 0, held_by := NULL,
                     waiting_tasks := []\<rparr> in
       rbind (spin_init (waiting_tasks_lock mtx)) (\<lambda>spin.
         Inr (mtx\<lparr>waiting_tasks_lock := spin\<rparr>)))"

text \<open>
  As one task runs it: when the exchange finds the mutex taken, the task puts itself on the list
  of waiting tasks and gives up the processor, which is the outcome \<open>Blocked\<close>.
\<close>

definition mutex_lock :: "mutex_t \<Rightarrow> 'a kbase_scheme \<Rightarrow> mutex_t result" where
  "mutex_lock mtx s =
     rbind (mutex_check_magic mtx) (\<lambda>_.
     rbind (kassert (mtx_lock mtx = 0) ''mutex already acquired'') (\<lambda>_.
       let (old, new) = xchg 1 (mtx_lock mtx) in
       if old \<noteq> 0 then
         rbind (kassert (current_task s \<noteq> NULL) ''mutex_lock(): invalid current_task'') (\<lambda>_.
         rbind (spin_lock (waiting_tasks_lock mtx)) (\<lambda>_. Inl Blocked))
       else Inr (mtx\<lparr>mtx_lock := new, held_by := current_task s\<rparr>)))"

definition wake_first :: "u64 list \<Rightarrow> 'a kbase_scheme \<Rightarrow> 'a kbase_scheme result" where
  "wake_first waiting s =
     (case waiting of [] \<Rightarrow> Inr s
      | t # _ \<Rightarrow>
         rbind (kassert (t \<noteq> NULL) ''mutex wakeup: invalid task ptr'') (\<lambda>_.
         case tasks s t of None \<Rightarrow> Inl (Mem_Fault ''task_t'')
         | Some task \<Rightarrow>
             rbind (kassert (task_state task = TASK_SLEEPING) ''mutex wakeup: task is not sleeping'')
               (\<lambda>_. Inr (s\<lparr>tasks := (tasks s)(t \<mapsto> task\<lparr>task_state := TASK_RUNNING\<rparr>)\<rparr>))))"

definition mutex_unlock ::
  "mutex_t \<Rightarrow> 'a kbase_scheme \<Rightarrow> (mutex_t \<times> 'a kbase_scheme) result" where
  "mutex_unlock mtx s =
     rbind (mutex_check_magic mtx) (\<lambda>_.
     rbind (kassert (mtx_lock mtx \<noteq> 0) ''mutex released but not locked'') (\<lambda>_.
     rbind (kassert (held_by mtx = current_task s) ''mutex released by other task'') (\<lambda>_.
       let mtx = mtx\<lparr>held_by := NULL, mtx_lock := 0\<rparr> in
       rbind (spin_lock (waiting_tasks_lock mtx)) (\<lambda>spin.
       rbind (wake_first (waiting_tasks mtx) s) (\<lambda>s.
       rbind (spin_unlock spin) (\<lambda>spin.
         Inr (mtx\<lparr>waiting_tasks_lock := spin\<rparr>, s)))))))"

definition mutex_locked :: "mutex_t \<Rightarrow> u64 result" where
  "mutex_locked mtx = rbind (mutex_check_magic mtx) (\<lambda>_. Inr (mtx_lock mtx))"

definition mutex_held :: "mutex_t \<Rightarrow> 'a kbase_scheme \<Rightarrow> bool result" where
  "mutex_held mtx s =
     rbind (mutex_check_magic mtx) (\<lambda>_. Inr (held_by mtx = current_task s))"

definition mutex_destroy :: "mutex_t \<Rightarrow> mutex_t result" where
  "mutex_destroy mtx =
     rbind (mutex_check_magic mtx) (\<lambda>_.
     rbind (kassert (mtx_lock mtx = 0) ''mutex_destroy() called while locked'') (\<lambda>_.
     rbind (spin_destroy (waiting_tasks_lock mtx)) (\<lambda>spin.
       Inr (mtx\<lparr>mtx_magic := 0, waiting_tasks := [], waiting_tasks_lock := spin,
                held_by := NULL\<rparr>))))"

lemmas spin_defs = spin_check_magic_def spin_init_def spin_lock_def spin_unlock_def
  spin_destroy_def SPIN_INITIALIZER_def xchg_def

lemmas mutex_defs = mutex_check_magic_def mutex_init_def mutex_lock_def mutex_unlock_def
  mutex_locked_def mutex_held_def mutex_destroy_def MUTEX_INITIALIZER_def wake_first_def

section \<open>Uncontended mutexes\<close>

text \<open>
  A mutex at rest: initialised, not taken, nobody waiting. All the sequential components take
  their locks in this state and leave them in it.
\<close>

definition mutex_idle :: "mutex_t \<Rightarrow> bool" where
  "mutex_idle mtx \<longleftrightarrow>
     mtx_magic mtx = MUTEX_MAGIC \<and> mtx_lock mtx = 0 \<and> waiting_tasks mtx = [] \<and>
     waiting_tasks_lock mtx = SPIN_INITIALIZER \<and> held_by mtx = NULL"

abbreviation mutex_taken :: "mutex_t \<Rightarrow> 'a kbase_scheme \<Rightarrow> mutex_t" where
  "mutex_taken mtx s \<equiv> mtx\<lparr>mtx_lock := 1, held_by := current_task s\<rparr>"

lemma mutex_idle_INITIALIZER [simp]: "mutex_idle MUTEX_INITIALIZER"
  by (simp add: mutex_idle_def MUTEX_INITIALIZER_def)

lemma mutex_idle_iff: "mutex_idle mtx \<longleftrightarrow> mtx = MUTEX_INITIALIZER"
  by (cases mtx) (auto simp: mutex_idle_def MUTEX_INITIALIZER_def)

lemma mutex_lock_idle [simp]: "mutex_idle mtx \<Longrightarrow> mutex_lock mtx s = Inr (mutex_taken mtx s)"
  by (simp add: mutex_idle_def mutex_defs spin_defs)

lemma mutex_unlock_taken [simp]:
  assumes "mutex_idle mtx" and "current_task s' = current_task s"
  shows "mutex_unlock (mutex_taken mtx s) s' = Inr (mtx, s')"
proof -
  have "mtx = MUTEX_INITIALIZER" using assms(1) by (simp add: mutex_idle_iff)
  then show ?thesis using assms(2) by (simp add: mutex_defs spin_defs)
qed

lemma mutex_held_taken [simp]:
  "mutex_idle mtx \<Longrightarrow> current_task s' = current_task s \<Longrightarrow>
   mutex_held (mutex_taken mtx s) s' = Inr True"
  by (simp add: mutex_idle_def mutex_defs)

lemma mutex_init_idle:
  assumes "mtx_magic mtx \<noteq> MUTEX_MAGIC" and "spin_magic (waiting_tasks_lock mtx) \<noteq> MUTEX_MAGIC"
  shows "mutex_init mtx = Inr MUTEX_INITIALIZER"
  using assms by (simp add: mutex_defs spin_defs)

text \<open>Taking a mutex twice without releasing it is caught: the second call never returns.\<close>

lemma mutex_lock_taken_fails:
  "mtx_lock mtx \<noteq> 0 \<Longrightarrow> \<exists>e. mutex_lock mtx s = Inl e"
  by (auto simp: mutex_defs rbind_def kassert_def kpanic_def)

end
