(* ===== verification/Page_Alloc.thy ===== *)
theory Page_Alloc
  imports Bitmap Mutexes
begin

text \<open>
  The physical page allocator of \<^verbatim>\<open>mm/page.c\<close> over the bitmap of used page frames, with the
  contents of the page frames (512 words of 64 bit each) as the kernel sees them through the
  direct mapping. The locale \<open>frame_allocator\<close> is the contract the page tables and the heap rely
  on; it is interpreted on \<open>alloc_page\<close> and \<open>free_page\<close>.
\<close>

record pgstate = kbase +
  free_pages :: bitmap_t
  free_pages_lock :: mutex_t
  phys :: "u64 \<Rightarrow> nat \<Rightarrow> u64"

definition setup_page_bitmap ::
  "u8 list \<Rightarrow> u64 \<Rightarrow> 'a pgstate_scheme \<Rightarrow> 'a pgstate_scheme" where
  "setup_page_bitmap bitmap_addr sz s =
     s\<lparr>free_pages := (free_pages s)\<lparr>bmp_bytes := bitmap_addr, bmp_size := sz\<rparr>\<rparr>"

text \<open>\<^verbatim>\<open>memset(ppn_to_virt(ppn), 0, PAGE_SIZE)\<close>.\<close>

definition zero_page :: "u64 \<Rightarrow> 'a pgstate_scheme \<Rightarrow> 'a pgstate_scheme" where
  "zero_page ppn s = s\<lparr>phys := (phys s)(ppn := (\<lambda>_. 0))\<rparr>"

definition alloc_page :: "'a pgstate_scheme \<Rightarrow> (u64 \<times> 'a pgstate_scheme) result" where
  "alloc_page s =
     rbind (mutex_lock (free_pages_lock s) s) (\<lambda>m.
       let s = s\<lparr>free_pages_lock := m\<rparr> in
       rbind (bitmap_find_free (free_pages s)) (\<lambda>ppn.
       rbind (kpanic (ppn \<noteq> - 1) ''alloc_page() out of memory'') (\<lambda>_.
       rbind (bitmap_set (free_pages s) ppn) (\<lambda>bmp.
       let s = s\<lparr>free_pages := bmp\<rparr> in
       rbind (mutex_unlock (free_pages_lock s) s) (\<lambda>(m, s).
         Inr (ppn, zero_page ppn (s\<lparr>free_pages_lock := m\<rparr>)))))))"

text \<open>\<^verbatim>\<open>while (dma_pages--) bitmap_set(&free_pages, page++);\<close>\<close>

fun mark_used :: "nat \<Rightarrow> u64 \<Rightarrow> bitmap_t \<Rightarrow> bitmap_t result" where
  "mark_used 0 page bmp = Inr bmp"
| "mark_used (Suc n) page bmp = rbind (bitmap_set bmp page) (mark_used n (page + 1))"

definition alloc_dma_region :: "'a pgstate_scheme \<Rightarrow> (u64 \<times> 'a pgstate_scheme) result" where
  "alloc_dma_region s =
     (let dma_pages = 16; max_page = 1048576 - 1 in
      rbind (mutex_lock (free_pages_lock s) s) (\<lambda>m.
        let s = s\<lparr>free_pages_lock := m\<rparr> in
        rbind (bitmap_find_n_free (free_pages s) dma_pages) (\<lambda>ppn_start.
        if ppn_start = - 1 \<or> ppn_start + dma_pages > max_page then
          rbind (mutex_unlock (free_pages_lock s) s) (\<lambda>(m, s).
          rbind (kpanic False ''No DMA region could be allocated!'') (\<lambda>_.
            Inr (NULL, s\<lparr>free_pages_lock := m\<rparr>)))
        else
          rbind (mark_used (unat dma_pages) ppn_start (free_pages s)) (\<lambda>bmp.
          let s = s\<lparr>free_pages := bmp\<rparr> in
          rbind (mutex_unlock (free_pages_lock s) s) (\<lambda>(m, s).
            Inr (push_bit PAGE_SHIFT ppn_start, s\<lparr>free_pages_lock := m\<rparr>))))))"

definition free_page :: "u64 \<Rightarrow> 'a pgstate_scheme \<Rightarrow> 'a pgstate_scheme result" where
  "free_page page s =
     (if page \<ge> bmp_size (free_pages s) then
        rbind (kassert False ''page out of bounds'') (\<lambda>_. Inr s)
      else
        rbind (mutex_lock (free_pages_lock s) s) (\<lambda>m.
          let s = s\<lparr>free_pages_lock := m\<rparr> in
          rbind (bitmap_get (free_pages s) page) (\<lambda>b.
          rbind (kassert (b = True) ''double free page'') (\<lambda>_.
          rbind (bitmap_clr (free_pages s) page) (\<lambda>bmp.
          let s = s\<lparr>free_pages := bmp\<rparr> in
          rbind (mutex_unlock (free_pages_lock s) s) (\<lambda>(m, s).
            Inr (s\<lparr>free_pages_lock := m\<rparr>)))))))"

section \<open>Frames in use\<close>

definition pg_inv :: "'a pgstate_scheme \<Rightarrow> bool" where
  "pg_inv s \<longleftrightarrow> bmp_inv (free_pages s) \<and> mutex_idle (free_pages_lock s)"

definition pg_used :: "'a pgstate_scheme \<Rightarrow> nat set" where
  "pg_used s = bmp_used (free_pages s)"

definition pg_total :: "'a pgstate_scheme \<Rightarrow> nat" where
  "pg_total s = unat (bmp_size (free_pages s))"

lemma pg_used_below: "pg_used s \<subseteq> {..<pg_total s}"
  unfolding pg_used_def pg_total_def by (rule bm.used_below_cap)

lemma mutex_roundtrip:
  assumes "mutex_idle m" and "free_pages_lock s = mutex_taken m s0" and "current_task s = current_task s0"
  shows "mutex_unlock (free_pages_lock s) s = Inr (m, s)"
  using assms by simp

text \<open>Both outcomes of an allocation, with everything that changes.\<close>

lemma alloc_page_free:
  assumes "pg_inv s" and "pg_used s \<noteq> {..<pg_total s}"
  obtains ppn bmp where "alloc_page s = Inr (ppn, zero_page ppn (s\<lparr>free_pages := bmp\<rparr>))"
    and "bmp_inv bmp" and "bmp_size bmp = bmp_size (free_pages s)"
    and "bmp_used bmp = insert (unat ppn) (pg_used s)"
    and "unat ppn < pg_total s" and "unat ppn \<notin> pg_used s"
proof -
  have b: "bmp_inv (free_pages s)" and l: "mutex_idle (free_pages_lock s)"
    using assms(1) by (simp_all add: pg_inv_def)
  obtain ppn where ppn: "bitmap_find_free (free_pages s) = Inr ppn" "ppn \<noteq> - 1"
    "unat ppn < pg_total s" "unat ppn \<notin> pg_used s"
    using bm.find_free [OF b] assms(2) by (metis pg_total_def pg_used_def)
  obtain bmp where bmp: "bitmap_set (free_pages s) ppn = Inr bmp" "bmp_inv bmp"
    "bmp_size bmp = bmp_size (free_pages s)" "bmp_used bmp = insert (unat ppn) (pg_used s)"
    using bitmap_set_ok [OF b, of ppn] ppn(3) by (metis pg_total_def pg_used_def word_less_nat_alt)
  have "alloc_page s = Inr (ppn, zero_page ppn (s\<lparr>free_pages := bmp\<rparr>))"
    using l ppn(1,2) bmp(1) by (simp add: alloc_page_def Let_def)
  then show ?thesis using that bmp ppn by blast
qed

lemma alloc_page_full:
  assumes "pg_inv s" and "pg_used s = {..<pg_total s}"
  shows "alloc_page s = Inl (Panic ''alloc_page() out of memory'')"
proof -
  have "bitmap_find_free (free_pages s) = Inr (- 1)"
    using bm.find_full assms by (simp add: pg_inv_def pg_used_def pg_total_def)
  then show ?thesis using assms(1) by (simp add: alloc_page_def pg_inv_def)
qed

lemma free_page_used:
  assumes "pg_inv s" and "unat p \<in> pg_used s"
  obtains bmp where "free_page p s = Inr (s\<lparr>free_pages := bmp\<rparr>)"
    and "bmp_inv bmp" and "bmp_size bmp = bmp_size (free_pages s)"
    and "bmp_used bmp = pg_used s - {unat p}"
proof -
  have b: "bmp_inv (free_pages s)" and l: "mutex_idle (free_pages_lock s)"
    using assms(1) by (simp_all add: pg_inv_def)
  have lt: "p < bmp_size (free_pages s)"
    using assms(2) pg_used_below [of s] by (auto simp: word_less_nat_alt pg_total_def)
  obtain bmp where bmp: "bitmap_clr (free_pages s) p = Inr bmp" "bmp_inv bmp"
    "bmp_size bmp = bmp_size (free_pages s)" "bmp_used bmp = pg_used s - {unat p}"
    using bitmap_clr_ok [OF b lt] by (metis pg_used_def)
  have "bitmap_get (free_pages s) p = Inr True"
    using bitmap_get_ok [of "free_pages s" p] b lt assms(2) by (simp add: bmp_inv_def pg_used_def)
  then have "free_page p s = Inr (s\<lparr>free_pages := bmp\<rparr>)"
    using lt l bmp(1) by (simp add: free_page_def Let_def not_le)
  then show ?thesis using that bmp by blast
qed

lemma free_page_unused:
  assumes "pg_inv s" and "unat p \<notin> pg_used s"
  shows "\<exists>msg. free_page p s = Inl (Panic msg)"
proof (cases "p < bmp_size (free_pages s)")
  case False
  then show ?thesis by (simp add: free_page_def not_less)
next
  case True
  then have "bitmap_get (free_pages s) p = Inr False"
    using assms bitmap_get_ok [of "free_pages s" p] by (simp add: pg_inv_def bmp_inv_def pg_used_def)
  then show ?thesis using True assms(1) by (simp add: free_page_def pg_inv_def not_le)
qed

lemma pg_inv_update [simp]:
  "pg_inv (zero_page p s) = pg_inv s" "pg_used (zero_page p s) = pg_used s"
  "pg_total (zero_page p s) = pg_total s"
  "pg_used (s\<lparr>free_pages := bmp\<rparr>) = bmp_used bmp"
  "pg_total (s\<lparr>free_pages := bmp\<rparr>) = unat (bmp_size bmp)"
  "pg_inv (s\<lparr>free_pages := bmp\<rparr>) \<longleftrightarrow> bmp_inv bmp \<and> mutex_idle (free_pages_lock s)"
  "pg_inv (s\<lparr>phys := ph\<rparr>) = pg_inv s" "pg_used (s\<lparr>phys := ph\<rparr>) = pg_used s"
  "pg_total (s\<lparr>phys := ph\<rparr>) = pg_total s"
  "free_pages (zero_page p s) = free_pages s" "free_pages_lock (zero_page p s) = free_pages_lock s"
  "current_task (zero_page p s) = current_task s" "tasks (zero_page p s) = tasks s"
  "phys (zero_page p s) = (phys s)(p := (\<lambda>_. 0))"
  by (simp_all add: pg_inv_def pg_used_def pg_total_def zero_page_def)

section \<open>The contract\<close>

locale frame_allocator =
  fixes alloc :: "'s \<Rightarrow> (u64 \<times> 's) result"
    and release :: "u64 \<Rightarrow> 's \<Rightarrow> 's result"
    and in_use :: "'s \<Rightarrow> nat set"
    and total :: "'s \<Rightarrow> nat"
    and ok :: "'s \<Rightarrow> bool"
  assumes in_use_below: "in_use s \<subseteq> {..<total s}"
    and alloc_fresh: "ok s \<Longrightarrow> in_use s \<noteq> {..<total s} \<Longrightarrow>
      \<exists>p s'. alloc s = Inr (p, s') \<and> ok s' \<and> total s' = total s \<and> unat p < total s \<and>
        unat p \<notin> in_use s \<and> in_use s' = insert (unat p) (in_use s)"
    and alloc_exhausted: "ok s \<Longrightarrow> in_use s = {..<total s} \<Longrightarrow> \<exists>e. alloc s = Inl e"
    and release_used: "ok s \<Longrightarrow> unat p \<in> in_use s \<Longrightarrow>
      \<exists>s'. release p s = Inr s' \<and> ok s' \<and> total s' = total s \<and> in_use s' = in_use s - {unat p}"
    and release_unused: "ok s \<Longrightarrow> unat p \<notin> in_use s \<Longrightarrow> \<exists>e. release p s = Inl e"
begin

lemma alloc_cases:
  assumes "ok s" and "alloc s = Inr (p, s')"
  shows "ok s'" "total s' = total s" "unat p < total s" "unat p \<notin> in_use s"
    "in_use s' = insert (unat p) (in_use s)"
proof -
  have "in_use s \<noteq> {..<total s}" using alloc_exhausted assms by fastforce
  from alloc_fresh [OF assms(1) this] assms(2)
  show "ok s'" "total s' = total s" "unat p < total s" "unat p \<notin> in_use s"
    "in_use s' = insert (unat p) (in_use s)" by auto
qed

lemma alloc_twice_distinct:
  assumes "ok s" and "alloc s = Inr (p, s')" and "alloc s' = Inr (q, s'')"
  shows "p \<noteq> q"
  using alloc_cases [OF assms(1,2)] alloc_cases [OF _ assms(3)] by auto

lemma alloc_then_release:
  assumes "ok s" and "alloc s = Inr (p, s')"
  shows "\<exists>s''. release p s' = Inr s'' \<and> ok s'' \<and> in_use s'' = in_use s \<and> (\<exists>e. release p s'' = Inl e)"
proof -
  note a = alloc_cases [OF assms]
  obtain s'' where "release p s' = Inr s''" "ok s''" "in_use s'' = in_use s' - {unat p}"
    using release_used [OF a(1), of p] a(5) by auto
  moreover from this have "\<exists>e. release p s'' = Inl e" using release_unused by simp
  ultimately show ?thesis using a by auto
qed

end

interpretation pg: frame_allocator alloc_page free_page pg_used pg_total pg_inv
proof (unfold_locales, goal_cases)
  case (1 s) show ?case by (rule pg_used_below)
next
  case (2 s)
  then obtain ppn bmp where "alloc_page s = Inr (ppn, zero_page ppn (s\<lparr>free_pages := bmp\<rparr>))"
    "bmp_inv bmp" "bmp_size bmp = bmp_size (free_pages s)"
    "bmp_used bmp = insert (unat ppn) (pg_used s)" "unat ppn < pg_total s" "unat ppn \<notin> pg_used s"
    by (rule alloc_page_free)
  then show ?case using 2(1) by (simp add: pg_inv_def [of s] pg_total_def)
next
  case (3 s) then show ?case using alloc_page_full by blast
next
  case (4 s p)
  then obtain bmp where "free_page p s = Inr (s\<lparr>free_pages := bmp\<rparr>)" "bmp_inv bmp"
    "bmp_size bmp = bmp_size (free_pages s)" "bmp_used bmp = pg_used s - {unat p}"
    by (rule free_page_used)
  then show ?case using 4(1) by (simp add: pg_inv_def [of s] pg_total_def)
next
  case (5 s p) then show ?case using free_page_unused by blast
qed

section \<open>Properties\<close>

text \<open>
  C5: \<^verbatim>\<open>alloc_page\<close> hands out the lowest page frame that is not in use, marks it used, clears its
  contents and touches nothing else; with every frame in use it panics.
\<close>

theorem alloc_page_spec:
  assumes "pg_inv s"
  shows "if pg_used s = {..<pg_total s} then \<exists>msg. alloc_page s = Inl (Panic msg)
    else \<exists>s'. alloc_page s = Inr (of_nat (LEAST k. k \<notin> pg_used s), s') \<and> pg_inv s' \<and>
      (LEAST k. k \<notin> pg_used s) < pg_total s \<and>
      pg_used s' = insert (LEAST k. k \<notin> pg_used s) (pg_used s) \<and> pg_total s' = pg_total s \<and>
      phys s' = (phys s)(of_nat (LEAST k. k \<notin> pg_used s) := (\<lambda>_. 0)) \<and> tasks s' = tasks s"
proof (cases "pg_used s = {..<pg_total s}")
  case True
  then show ?thesis using alloc_page_full [OF assms] by simp
next
  case False
  let ?k = "LEAST k. k \<notin> pg_used s"
  obtain ppn bmp where a: "alloc_page s = Inr (ppn, zero_page ppn (s\<lparr>free_pages := bmp\<rparr>))"
    and bmp: "bmp_inv bmp" "bmp_size bmp = bmp_size (free_pages s)"
    "bmp_used bmp = insert (unat ppn) (pg_used s)" "unat ppn < pg_total s"
    using alloc_page_free [OF assms False] by metis
  have "\<not> {..<pg_total s} \<subseteq> pg_used s" using False pg_used_below by blast
  then have f: "bitmap_find_free (free_pages s) = Inr (of_nat ?k)"
    using bitmap_find_free_ok [of "free_pages s"] assms by (simp add: pg_inv_def pg_total_def pg_used_def)
  have "ppn = of_nat ?k"
    using a f assms by (auto simp: alloc_page_def pg_inv_def result_simps Let_def)
  moreover obtain k where "k < pg_total s" "k \<notin> pg_used s" using False pg_used_below by blast
  then have lt: "?k < pg_total s" using Least_le le_less_trans by metis
  then have "unat (of_nat ?k :: u64) = ?k"
    using unat_lt_2p64 [of "bmp_size (free_pages s)"] by (intro unat_of_nat_small) (simp add: pg_total_def)
  ultimately show ?thesis using False a bmp assms lt by (simp add: pg_inv_def [of s] pg_total_def [of s])
qed

text \<open>A machine with 64 page frames of which the first nine are in use, for the examples.\<close>

definition small_machine :: pgstate where
  "small_machine = \<lparr>current_task = 0, tasks = Map.empty,
     free_pages = \<lparr>bmp_size = 64, bmp_bytes = [0xff, 1, 0, 0, 0, 0, 0, 0]\<rparr>,
     free_pages_lock = MUTEX_INITIALIZER, phys = (\<lambda>_ _. 7)\<rparr>"

lemma small_machine_inv: "pg_inv small_machine" and small_machine_total: "pg_total small_machine = 64"
  by (auto simp: small_machine_def pg_inv_def pg_total_def bmp_inv_def bmp_wf_def bmp_padded_def
    unat_BITMAP_BYTE_SIZE)

lemma alloc_page_spec_witness:
  "\<exists>s'. pg_inv small_machine \<and> alloc_page small_machine = Inr (9, s') \<and> pg_inv s' \<and>
    phys s' = (phys small_machine)(9 := (\<lambda>_. 0))"
proof -
  have run: "(case alloc_page small_machine of Inr (p, s) \<Rightarrow> p = 9 | _ \<Rightarrow> False)" by code_simp
  show ?thesis
    using alloc_page_spec [OF small_machine_inv] run small_machine_inv
    by (cases "pg_used small_machine = {..<pg_total small_machine}") auto
qed

lemma mark_used_ok:
  assumes "bmp_inv bmp" and "unat p + n \<le> unat (bmp_size bmp)"
  shows "\<exists>bmp'. mark_used n p bmp = Inr bmp' \<and> bmp_inv bmp' \<and> bmp_size bmp' = bmp_size bmp \<and>
    bmp_used bmp' = bmp_used bmp \<union> {unat p..<unat p + n}"
  using assms
proof (induction n arbitrary: p bmp)
  case 0
  then show ?case by simp
next
  case (Suc n)
  then have "p < bmp_size bmp" by (simp add: word_less_nat_alt)
  then obtain b where b: "bitmap_set bmp p = Inr b" "bmp_inv b" "bmp_size b = bmp_size bmp"
    "bmp_used b = insert (unat p) (bmp_used bmp)"
    using bitmap_set_ok [OF Suc.prems(1)] by metis
  have p1: "unat (p + 1) = Suc (unat p)"
    using Suc.prems(2) unat_lt_2p64 [of "bmp_size bmp"] by (subst unat_add_no_wrap) auto
  then obtain b' where "mark_used n (p + 1) b = Inr b'" "bmp_inv b'" "bmp_size b' = bmp_size b"
    "bmp_used b' = bmp_used b \<union> {Suc (unat p)..<Suc (unat p) + n}"
    using Suc.IH [OF b(2), of "p + 1"] Suc.prems(2) b(3) by auto
  moreover have "{unat p..<unat p + Suc n} = insert (unat p) {Suc (unat p)..<Suc (unat p) + n}" by auto
  ultimately show ?case using b by simp
qed

text \<open>
  \<^verbatim>\<open>alloc_dma_region\<close> returns the first 64 KiB region of free frames that is aligned to its
  size, provided it ends below 4 GiB: the region consists of frames that were free and are then
  marked used, so the DMA engine never crosses a 64 KiB boundary. In every other case it panics.
\<close>

theorem alloc_dma_region_spec:
  assumes "pg_inv s"
  shows "if \<exists>p. free_run (free_pages s) 16 p \<and> (\<forall>q<p. \<not> free_run (free_pages s) 16 q) \<and> p + 16 \<le> 1048575
    then \<exists>a s'. alloc_dma_region s = Inr (a, s') \<and> unat a mod 65536 = 0 \<and> unat a + 65536 \<le> 2 ^ 32 \<and>
      {unat a div 4096..<unat a div 4096 + 16} \<inter> pg_used s = {} \<and>
      pg_used s' = pg_used s \<union> {unat a div 4096..<unat a div 4096 + 16} \<and>
      pg_inv s' \<and> pg_total s' = pg_total s \<and> phys s' = phys s
    else \<exists>msg. alloc_dma_region s = Inl (Panic msg)"
    (is "if ?found then _ else _")
proof -
  let ?bm = "free_pages s"
  have b: "bmp_inv ?bm" "bmp_wf ?bm" and l: "mutex_idle (free_pages_lock s)"
    using assms by (simp_all add: pg_inv_def bmp_inv_def)
  have f: "bitmap_find_n_free ?bm 16 = Inr (find_n_result ?bm 16)"
    using bitmap_find_n_free_ok [OF b(2), of 16] by simp
  have first: "find_n_result ?bm 16 = of_nat p \<and> p + 16 \<le> unat (bmp_size ?bm)
      \<and> {p..<p + 16} \<inter> pg_used s = {}"
    if "free_run ?bm 16 p" "\<forall>q<p. \<not> free_run ?bm 16 q" for p
  proof -
    have "(LEAST a. free_run ?bm 16 a) = p" using that by (intro Least_equality) (auto simp: not_less [symmetric])
    then show ?thesis
      using that free_run_bounds [OF b(1), of 16 p] by (auto simp: find_n_result_def pg_used_def)
  qed
  show ?thesis
  proof (cases ?found)
    case True
    then obtain p where p: "free_run ?bm 16 p" "\<forall>q<p. \<not> free_run ?bm 16 q" "p + 16 \<le> 1048575" by blast
    let ?p = "of_nat p :: u64"
    have up: "unat ?p = p" using p(3) by (intro unat_of_nat_small) simp
    note fp = first [OF p(1,2)]
    have ne: "?p \<noteq> - 1" and le: "\<not> ?p + 16 > 1048575"
      using p(3) by (auto simp: word_less_nat_alt unat_add_no_wrap up unsigned_minus_1_eq_mask
        mask_eq_exp_minus_1 dest!: arg_cong [where f = unat])
    obtain bmp where bmp: "mark_used 16 ?p ?bm = Inr bmp" "bmp_inv bmp" "bmp_size bmp = bmp_size ?bm"
      "bmp_used bmp = pg_used s \<union> {p..<p + 16}"
      using mark_used_ok [OF b(1), of ?p 16] fp up by (auto simp: pg_used_def)
    have sh: "unat (push_bit PAGE_SHIFT ?p) = 4096 * p"
      using p(3) by (simp add: PAGE_SHIFT_def push_bit_eq_mult unat_word_ariths up)
    have "alloc_dma_region s = Inr (push_bit PAGE_SHIFT ?p, s\<lparr>free_pages := bmp\<rparr>)"
      using l f fp bmp(1) ne le by (simp add: alloc_dma_region_def Let_def)
    moreover have "(4096 * p) mod 65536 = 0"
      using p(1) by (auto simp: free_run_def mod_eq_0_iff_dvd)
    ultimately show ?thesis using True fp bmp p(3) l sh by (simp add: pg_total_def)
  next
    case False
    show ?thesis
    proof (cases "\<exists>p. free_run ?bm 16 p")
      case True
      then obtain p where p: "free_run ?bm 16 p" "\<forall>q<p. \<not> free_run ?bm 16 q"
        using exists_least_iff [of "free_run ?bm 16"] by blast
      note fp = first [OF p]
      have "unat (of_nat p + 16 :: u64) = p + 16"
        using fp unat_lt_2p64 [of "bmp_size ?bm"]
        by (subst unat_add_no_wrap) (simp_all add: unat_of_nat_small)
      then have "of_nat p + 16 > (1048575 :: u64)" using False p by (auto simp: word_less_nat_alt)
      then show ?thesis using False l f fp by (simp add: alloc_dma_region_def Let_def)
    next
      case none: False
      then have "find_n_result ?bm 16 = - 1" by (simp add: find_n_result_def)
      then show ?thesis using False l f by (simp add: alloc_dma_region_def Let_def)
    qed
  qed
qed

lemma alloc_dma_region_spec_witness:
  "\<exists>s'. pg_inv small_machine \<and> alloc_dma_region small_machine = Inr (0x10000, s') \<and> pg_inv s' \<and>
    pg_used s' = pg_used small_machine \<union> {16..<32}"
proof -
  have run: "(case alloc_dma_region small_machine of Inr (p, s) \<Rightarrow> p = 0x10000 | _ \<Rightarrow> False)" by code_simp
  show ?thesis
    using alloc_dma_region_spec [OF small_machine_inv] run small_machine_inv
    by (auto split: if_splits sum.splits)
qed

end
