(* ===== verification/Vspace.thy ===== *)
theory Vspace
  imports Page_Alloc "HOL-Library.Sublist"
begin

text \<open>
  Address spaces, \<^verbatim>\<open>x86_64/vspace.c\<close>: the four levels of page tables inside the page frames of
  \<open>phys\<close>, the page walk \<^verbatim>\<open>resolve_mapping\<close>, mapping and unmapping one page. Table entries are 64 bit
  words read and written through the bit fields of \<^verbatim>\<open>gpte_t\<close>. A pointer into a table
  (\<^verbatim>\<open>(gpte_t*)ppn_to_virt(ppn) + i\<close>) is the pair of frame number and index, as the direct mapping at
  \<^verbatim>\<open>IDENT_OFFSET\<close> gives the kernel access to every frame. Invalidating the TLB and loading
  \<^verbatim>\<open>cr3\<close> have no counterpart. Creating and deleting address spaces needs the heap and is in
  \<open>Vspace_Objects\<close>.
\<close>

section \<open>Page table entries\<close>

type_synonym gpte_t = u64
type_synonym gpte_ptr = "u64 \<times> nat"

definition gpte_present :: "gpte_t \<Rightarrow> bool" where "gpte_present e = bit e 0"
definition gpte_write :: "gpte_t \<Rightarrow> bool" where "gpte_write e = bit e 1"
definition gpte_user :: "gpte_t \<Rightarrow> bool" where "gpte_user e = bit e 2"
definition gpte_no_exec :: "gpte_t \<Rightarrow> bool" where "gpte_no_exec e = bit e 63"
definition gpte_ppn :: "gpte_t \<Rightarrow> u64" where "gpte_ppn e = take_bit 40 (drop_bit 12 e)"

definition gpte_set :: "nat \<Rightarrow> bool \<Rightarrow> gpte_t \<Rightarrow> gpte_t" where
  "gpte_set n b e = (if b then set_bit n e else unset_bit n e)"

definition gpte_set_ppn :: "u64 \<Rightarrow> gpte_t \<Rightarrow> gpte_t" where
  "gpte_set_ppn p e = (e AND NOT (push_bit 12 (mask 40))) OR push_bit 12 (take_bit 40 p)"

definition PG_USER :: u64 where "PG_USER = BIT 0"
definition PG_WRITE :: u64 where "PG_WRITE = BIT 1"
definition PG_NOEXEC :: u64 where "PG_NOEXEC = BIT 2"

definition IDENT_OFFSET :: u64 where "IDENT_OFFSET = 0xffff800000000000"

definition phys_to_virt :: "u64 \<Rightarrow> u64" where
  "phys_to_virt phys_addr = phys_addr + IDENT_OFFSET"

definition ppn_to_virt :: "u64 \<Rightarrow> u64" where
  "ppn_to_virt ppn = phys_to_virt (push_bit PAGE_SHIFT ppn)"

section \<open>Operations\<close>

record vspace_t =
  vs_lock :: mutex_t
  vs_pml4_ppn :: u64

record vmstate = pgstate +
  vspaces :: "vspace_ref \<rightharpoonup> vspace_t"

record vaddr_t =
  va_pml4_ppn :: u64
  va_pdpt_ppn :: u64
  va_pdir_ppn :: u64
  va_ptbl_ppn :: u64
  va_page_ppn :: u64
  va_pml4i :: u64
  va_pdpti :: u64
  va_pdiri :: u64
  va_ptbli :: u64
  va_pml4e :: "gpte_ptr option"
  va_pdpte :: "gpte_ptr option"
  va_pdire :: "gpte_ptr option"
  va_ptble :: "gpte_ptr option"
  va_page :: u64

definition get_vspace :: "vspace_ref \<Rightarrow> 'a vmstate_scheme \<Rightarrow> vspace_t result" where
  "get_vspace r s = (case vspaces s r of None \<Rightarrow> Inl (Mem_Fault ''vspace_t'') | Some vs \<Rightarrow> Inr vs)"

definition set_vs_lock :: "vspace_ref \<Rightarrow> vspace_t \<Rightarrow> mutex_t \<Rightarrow> 'a vmstate_scheme \<Rightarrow> 'a vmstate_scheme" where
  "set_vs_lock r vs m s = s\<lparr>vspaces := (vspaces s)(r \<mapsto> vs\<lparr>vs_lock := m\<rparr>)\<rparr>"

text \<open>The structure \<^verbatim>\<open>vaddr\<close> after \<^verbatim>\<open>resolve_mapping\<close>, given the tables and the root frame.\<close>

definition resolve_vaddr :: "(u64 \<Rightarrow> nat \<Rightarrow> u64) \<Rightarrow> u64 \<Rightarrow> u64 \<Rightarrow> vaddr_t" where
  "resolve_vaddr ph root virt =
     (let ptbli = virt AND 0x1ff;
          pdiri = drop_bit 9 virt AND 0x1ff;
          pdpti = drop_bit 18 virt AND 0x1ff;
          pml4i = drop_bit 27 virt AND 0x1ff;
          va = \<lparr>va_pml4_ppn = root, va_pdpt_ppn = 0, va_pdir_ppn = 0, va_ptbl_ppn = 0, va_page_ppn = 0,
                va_pml4i = pml4i, va_pdpti = pdpti, va_pdiri = pdiri, va_ptbli = ptbli,
                va_pml4e = Some (root, unat pml4i), va_pdpte = None, va_pdire = None, va_ptble = None,
                va_page = NULL\<rparr> in
      if gpte_present (ph root (unat pml4i)) then
        let pdpt = gpte_ppn (ph root (unat pml4i));
            va = va\<lparr>va_pdpt_ppn := pdpt, va_pdpte := Some (pdpt, unat pdpti)\<rparr> in
        if gpte_present (ph pdpt (unat pdpti)) then
          let pdir = gpte_ppn (ph pdpt (unat pdpti));
              va = va\<lparr>va_pdir_ppn := pdir, va_pdire := Some (pdir, unat pdiri)\<rparr> in
          if gpte_present (ph pdir (unat pdiri)) then
            let ptbl = gpte_ppn (ph pdir (unat pdiri));
                va = va\<lparr>va_ptbl_ppn := ptbl, va_ptble := Some (ptbl, unat ptbli)\<rparr> in
            if gpte_present (ph ptbl (unat ptbli)) then
              let page = gpte_ppn (ph ptbl (unat ptbli)) in
              va\<lparr>va_page_ppn := page, va_page := ppn_to_virt page\<rparr>
            else va
          else va
        else va
      else va)"

definition resolve_mapping :: "vspace_ref \<Rightarrow> u64 \<Rightarrow> 'a vmstate_scheme \<Rightarrow> vaddr_t result" where
  "resolve_mapping r virt s =
     rbind (get_vspace r s) (\<lambda>vs.
     rbind (mutex_held (vs_lock vs) s) (\<lambda>h.
     rbind (kassert h ''vspace lock not held'') (\<lambda>_.
       Inr (resolve_vaddr (phys s) (vs_pml4_ppn vs) virt))))"

text \<open>Reading and writing through an entry pointer; the null pointer faults.\<close>

definition gpte_at :: "gpte_ptr option \<Rightarrow> 'a pgstate_scheme \<Rightarrow> gpte_t result" where
  "gpte_at p s = (case p of None \<Rightarrow> Inl (Mem_Fault ''gpte_t'') | Some (t, i) \<Rightarrow> Inr (phys s t i))"

definition gpte_upd ::
  "gpte_ptr option \<Rightarrow> (gpte_t \<Rightarrow> gpte_t) \<Rightarrow> 'a pgstate_scheme \<Rightarrow> 'a pgstate_scheme result" where
  "gpte_upd p f s = (case p of None \<Rightarrow> Inl (Mem_Fault ''gpte_t'')
     | Some (t, i) \<Rightarrow> Inr (s\<lparr>phys := (phys s)(t := (phys s t)(i := f (phys s t i)))\<rparr>))"

text \<open>
  The block \<^verbatim>\<open>vspace_map\<close> has three times: an entry that is not present gets a fresh table, and the
  address is resolved again.
\<close>

definition map_level ::
  "vspace_ref \<Rightarrow> u64 \<Rightarrow> (vaddr_t \<Rightarrow> gpte_ptr option) \<Rightarrow> vaddr_t \<times> 'a vmstate_scheme
    \<Rightarrow> (vaddr_t \<times> 'a vmstate_scheme) result" where
  "map_level r virt entry = (\<lambda>(vaddr, s).
     rbind (gpte_at (entry vaddr) s) (\<lambda>e.
     if \<not> gpte_present e then
       rbind (gpte_upd (entry vaddr) (\<lambda>e. gpte_set 2 True (gpte_set 1 True (gpte_set 0 True e))) s) (\<lambda>s.
       rbind (alloc_page s) (\<lambda>(ppn, s).
       rbind (gpte_upd (entry vaddr) (gpte_set_ppn ppn) s) (\<lambda>s.
       rbind (resolve_mapping r virt s) (\<lambda>vaddr. Inr (vaddr, s)))))
     else Inr (vaddr, s)))"

definition leaf_entry :: "u64 \<Rightarrow> u64 \<Rightarrow> gpte_t \<Rightarrow> gpte_t" where
  "leaf_entry ph flags e =
     gpte_set_ppn ph (gpte_set 2 (flags AND PG_USER \<noteq> 0) (gpte_set 1 (flags AND PG_WRITE \<noteq> 0)
       (gpte_set 63 (flags AND PG_NOEXEC \<noteq> 0) (gpte_set 0 True e))))"

definition vspace_map ::
  "vspace_ref \<Rightarrow> u64 \<Rightarrow> u64 \<Rightarrow> u64 \<Rightarrow> 'a vmstate_scheme \<Rightarrow> 'a vmstate_scheme result" where
  "vspace_map r virt ph flags s =
     rbind (get_vspace r s) (\<lambda>vs.
     rbind (mutex_lock (vs_lock vs) s) (\<lambda>m.
     let s = set_vs_lock r vs m s in
     rbind (resolve_mapping r virt s) (\<lambda>vaddr.
     rbind (map_level r virt va_pml4e (vaddr, s)) (\<lambda>vs1.
     rbind (map_level r virt va_pdpte vs1) (\<lambda>vs2.
     rbind (map_level r virt va_pdire vs2) (\<lambda>(vaddr, s).
     rbind (gpte_at (va_ptble vaddr) s) (\<lambda>e.
     rbind (if \<not> gpte_present e then gpte_upd (va_ptble vaddr) (leaf_entry ph flags) s else Inr s) (\<lambda>s.
     rbind (get_vspace r s) (\<lambda>vs.
     rbind (mutex_unlock (vs_lock vs) s) (\<lambda>(m, s).
       Inr (set_vs_lock r vs m s)))))))))))"

definition vspace_unmap ::
  "vspace_ref \<Rightarrow> u64 \<Rightarrow> 'a vmstate_scheme \<Rightarrow> (bool \<times> 'a vmstate_scheme) result" where
  "vspace_unmap r virt s =
     rbind (get_vspace r s) (\<lambda>vs.
     rbind (mutex_lock (vs_lock vs) s) (\<lambda>m.
     let s = set_vs_lock r vs m s in
     rbind (resolve_mapping r virt s) (\<lambda>vaddr.
     rbind (if va_page vaddr \<noteq> NULL then
              rbind (gpte_upd (va_ptble vaddr) (\<lambda>_. 0) s) (\<lambda>s.
              rbind (free_page (va_page_ppn vaddr) s) (\<lambda>s. Inr (True, s)))
            else Inr (False, s)) (\<lambda>(ret, s).
     rbind (get_vspace r s) (\<lambda>vs.
     rbind (mutex_unlock (vs_lock vs) s) (\<lambda>(m, s).
       Inr (ret, set_vs_lock r vs m s)))))))"

definition virt_to_ppn :: "vspace_ref \<Rightarrow> u64 \<Rightarrow> 'a vmstate_scheme \<Rightarrow> u64 result" where
  "virt_to_ppn r virt_addr s =
     rbind (resolve_mapping r (drop_bit PAGE_SHIFT virt_addr) s) (\<lambda>vaddr. Inr (va_page_ppn vaddr))"

definition virt_to_phys :: "vspace_ref \<Rightarrow> u64 \<Rightarrow> 'a vmstate_scheme \<Rightarrow> u64 result" where
  "virt_to_phys r virt_addr s =
     rbind (virt_to_ppn r virt_addr s) (\<lambda>ppn. Inr (push_bit PAGE_SHIFT ppn))"

text \<open>\<^verbatim>\<open>memset(ppn_to_virt(pml4), 0, PAGE_SIZE/2)\<close> clears the first 256 entries.\<close>

definition vspace_setup :: "u64 \<Rightarrow> 'a vmstate_scheme \<Rightarrow> 'a vmstate_scheme result" where
  "vspace_setup pml4_ppn s =
     rbind (get_vspace VSPACE_KERNEL s) (\<lambda>vs.
     rbind (mutex_init (vs_lock vs)) (\<lambda>m.
       Inr (s\<lparr>vspaces := (vspaces s)(VSPACE_KERNEL \<mapsto> \<lparr>vs_lock = m, vs_pml4_ppn = pml4_ppn\<rparr>),
         phys := (phys s)(pml4_ppn := (\<lambda>i. if i < 256 then 0 else phys s pml4_ppn i))\<rparr>)))"

definition vspace_update_kernel_mapping :: "vspace_ref \<Rightarrow> 'a vmstate_scheme \<Rightarrow> 'a vmstate_scheme result" where
  "vspace_update_kernel_mapping r s =
     rbind (kassert (r \<noteq> VSPACE_KERNEL) ''update_kernel_mapping(): VSPACE_KERNEL given'') (\<lambda>_.
     rbind (get_vspace r s) (\<lambda>vs.
     rbind (get_vspace VSPACE_KERNEL s) (\<lambda>kvs.
       Inr (s\<lparr>phys := (phys s)(vs_pml4_ppn vs := (\<lambda>i. if 256 \<le> i \<and> i < 512
         then phys s (vs_pml4_ppn kvs) i else phys s (vs_pml4_ppn vs) i))\<rparr>))))"

section \<open>Bit fields\<close>

lemma gpte_ppn_set_ppn [simp]: "gpte_ppn (gpte_set_ppn p e) = take_bit 40 p"
  by (rule bit_eqI) (auto simp: gpte_ppn_def gpte_set_ppn_def bit_simps)

lemma bit_gpte_set_ppn:
  "n < 12 \<or> 52 \<le> n \<Longrightarrow> bit (gpte_set_ppn p e) n = bit e n"
  by (auto simp: gpte_set_ppn_def bit_simps dest: bit_imp_le_length)

lemma bit_gpte_set: "bit (gpte_set m b e) n = (if n = m then b \<and> m < 64 else bit e n)"
  by (auto simp: gpte_set_def bit_simps dest: bit_imp_le_length)

lemmas gpte_flag_defs = gpte_present_def gpte_write_def gpte_user_def gpte_no_exec_def

lemma gpte_zero [simp]: "\<not> gpte_present 0"
  by (simp add: gpte_flag_defs)

lemma leaf_entry_fields:
  "gpte_present (leaf_entry p flags e)" "gpte_ppn (leaf_entry p flags e) = take_bit 40 p"
  "gpte_write (leaf_entry p flags e) \<longleftrightarrow> flags AND PG_WRITE \<noteq> 0"
  "gpte_user (leaf_entry p flags e) \<longleftrightarrow> flags AND PG_USER \<noteq> 0"
  "gpte_no_exec (leaf_entry p flags e) \<longleftrightarrow> flags AND PG_NOEXEC \<noteq> 0"
  by (simp_all add: leaf_entry_def gpte_flag_defs bit_gpte_set_ppn bit_gpte_set)

section \<open>Page walks as paths\<close>

text \<open>The frame reached from a root through a list of table indices, if every entry is present.\<close>

fun walk :: "(u64 \<Rightarrow> nat \<Rightarrow> u64) \<Rightarrow> u64 \<Rightarrow> nat list \<Rightarrow> u64 option" where
  "walk ph t [] = Some t"
| "walk ph t (i # p) = (if gpte_present (ph t i) then walk ph (gpte_ppn (ph t i)) p else None)"

lemma walk_append: "walk ph t (p @ q) = (case walk ph t p of None \<Rightarrow> None | Some t' \<Rightarrow> walk ph t' q)"
  by (induction p arbitrary: t) auto

lemma walk_snoc:
  "walk ph t (p @ [i]) = (case walk ph t p of None \<Rightarrow> None
     | Some t' \<Rightarrow> if gpte_present (ph t' i) then Some (gpte_ppn (ph t' i)) else None)"
  by (simp add: walk_append split: option.split)

lemma walk_prefix: "walk ph t (p @ q) = Some f \<Longrightarrow> \<exists>f'. walk ph t p = Some f'"
  by (auto simp: walk_append split: option.splits)

definition va_index :: "u64 \<Rightarrow> nat \<Rightarrow> nat" where
  "va_index virt k = unat (drop_bit (9 * k) virt AND 0x1ff)"

definition vpath :: "u64 \<Rightarrow> nat list" where
  "vpath virt = [va_index virt 3, va_index virt 2, va_index virt 1, va_index virt 0]"

lemma va_index_less: "va_index virt k < 512"
proof -
  have m: "(0x1ff :: u64) = mask 9" by (simp add: mask_eq_exp_minus_1)
  have "unat (take_bit 9 (drop_bit (9 * k) virt)) = take_bit 9 (unat (drop_bit (9 * k) virt))"
    by (simp add: unsigned_take_bit_eq)
  also have "\<dots> < 2 ^ 9" by (rule take_bit_nat_less_exp)
  finally show ?thesis by (simp add: va_index_def m flip: take_bit_eq_mask)
qed

lemma vpath_length [simp]: "length (vpath virt) = 4"
  by (simp add: vpath_def)

text \<open>What a page walk tells about one page: the entry that maps it.\<close>

definition leaf_of :: "(u64 \<Rightarrow> nat \<Rightarrow> u64) \<Rightarrow> u64 \<Rightarrow> u64 \<Rightarrow> u64 option" where
  "leaf_of ph root virt =
     (case walk ph root (take 3 (vpath virt)) of None \<Rightarrow> None
      | Some t \<Rightarrow> let e = ph t (va_index virt 0) in if gpte_present e then Some e else None)"

lemma walk_vpath: "walk ph root (vpath virt) = map_option gpte_ppn (leaf_of ph root virt)"
  by (simp add: leaf_of_def vpath_def)

text \<open>The entry pointers of \<open>resolve_vaddr\<close> are those at the end of the prefixes of the path.\<close>

lemma resolve_vaddr_walk:
  "va_pml4e (resolve_vaddr ph root virt) = Some (root, va_index virt 3)"
  "va_pdpte (resolve_vaddr ph root virt) =
     map_option (\<lambda>t. (t, va_index virt 2)) (walk ph root [va_index virt 3])"
  "va_pdire (resolve_vaddr ph root virt) =
     map_option (\<lambda>t. (t, va_index virt 1)) (walk ph root [va_index virt 3, va_index virt 2])"
  "va_ptble (resolve_vaddr ph root virt) =
     map_option (\<lambda>t. (t, va_index virt 0)) (walk ph root [va_index virt 3, va_index virt 2, va_index virt 1])"
  "va_page_ppn (resolve_vaddr ph root virt) =
     (case walk ph root (vpath virt) of None \<Rightarrow> 0 | Some f \<Rightarrow> f)"
  "va_page (resolve_vaddr ph root virt) =
     (case walk ph root (vpath virt) of None \<Rightarrow> NULL | Some f \<Rightarrow> ppn_to_virt f)"
  by (simp_all add: resolve_vaddr_def Let_def va_index_def vpath_def)

section \<open>Ownership of frames\<close>

text \<open>
  The paths below the entries \<open>M\<close> of the root table: the managed part of the address space. The
  direct mapping at entry 256 shows every frame once more and is no part of it.
\<close>

definition mpath :: "nat set \<Rightarrow> nat list \<Rightarrow> bool" where
  "mpath M p \<longleftrightarrow> length p \<le> 4 \<and> (p \<noteq> [] \<longrightarrow> hd p \<in> M) \<and> set p \<subseteq> {..<512}"

text \<open>
  The invariant of an address space: every table and every page mapped in the managed part is a
  frame that the page allocator has handed out, and no frame is reached on two paths. So every
  table is a tree of its own and every page is mapped once.
\<close>

definition frames_owned :: "nat set \<Rightarrow> (u64 \<Rightarrow> nat \<Rightarrow> u64) \<Rightarrow> u64 \<Rightarrow> nat set \<Rightarrow> bool" where
  "frames_owned M ph root used \<longleftrightarrow>
     (\<forall>p f. mpath M p \<longrightarrow> walk ph root p = Some f \<longrightarrow> unat f \<in> used) \<and>
     (\<forall>p q f. mpath M p \<longrightarrow> mpath M q \<longrightarrow> walk ph root p = Some f \<longrightarrow> walk ph root q = Some f \<longrightarrow> p = q)"

lemma frames_owned_used: "frames_owned M ph root used \<Longrightarrow> mpath M p \<Longrightarrow> walk ph root p = Some f \<Longrightarrow> unat f \<in> used"
  by (auto simp: frames_owned_def)

lemma frames_owned_inj:
  "frames_owned M ph root used \<Longrightarrow> mpath M p \<Longrightarrow> mpath M q \<Longrightarrow>
   walk ph root p = Some f \<Longrightarrow> walk ph root q = Some f \<Longrightarrow> p = q"
  unfolding frames_owned_def by blast

lemma mpath_butlast: "mpath M (p @ [i]) \<Longrightarrow> mpath M p"
  by (cases p) (auto simp: mpath_def)

lemma mpath_Nil [simp]: "mpath M []"
  by (simp add: mpath_def)

text \<open>Changing one entry, and the contents of frames that are no tables, changes one path.\<close>

lemma walk_change:
  assumes own: "frames_owned M ph root used" and p: "mpath M (p @ [i])" "walk ph root p = Some t"
    and e: "ph' t i = e" and same: "\<And>t' j. unat t' \<in> used \<Longrightarrow> (t', j) \<noteq> (t, i) \<Longrightarrow> ph' t' j = ph t' j"
    and q: "mpath M q" "\<not> strict_prefix (p @ [i]) q"
  shows "walk ph' root q =
    (if q = p @ [i] then if gpte_present e then Some (gpte_ppn e) else None else walk ph root q)"
  using q
proof (induction q rule: rev_induct)
  case Nil
  then show ?case by simp
next
  case (snoc j q)
  have mq: "mpath M q" by (rule mpath_butlast [OF snoc.prems(1)])
  have "q \<noteq> p @ [i]" using snoc.prems(2) by (auto simp: strict_prefix_def)
  moreover have "\<not> strict_prefix (p @ [i]) q" using snoc.prems(2) by (auto simp: strict_prefix_def)
  ultimately have IH: "walk ph' root q = walk ph root q" using snoc.IH [OF mq] by simp
  show ?case
  proof (cases "walk ph root q")
    case None
    then have "q \<noteq> p" using p(2) by auto
    then show ?thesis using None IH by (simp add: walk_snoc)
  next
    case (Some t')
    then have "unat t' \<in> used" using frames_owned_used [OF own mq] by simp
    moreover have "t' = t \<longleftrightarrow> q = p"
      using frames_owned_inj [OF own mq mpath_butlast [OF p(1)]] Some p(2) by auto
    ultimately show ?thesis using Some IH e same [of t' j] by (auto simp: walk_snoc)
  qed
qed

text \<open>Below an entry that got a fresh, empty frame nothing is mapped.\<close>

lemma walk_below_empty:
  assumes "walk ph root p = Some f" and "\<And>j. ph f j = 0" and "strict_prefix p q"
  shows "walk ph root q = None"
proof -
  obtain r where "q = p @ r" "r \<noteq> []" using assms(3) by (auto simp: strict_prefix_def prefix_def)
  then show ?thesis using assms by (cases r) (simp_all add: walk_append)
qed

lemma walk_insert:
  assumes own: "frames_owned M ph root used" and p: "mpath M (p @ [i])" "walk ph root p = Some t"
    and absent: "\<not> gpte_present (ph t i)" and e: "gpte_present (ph' t i)" "gpte_ppn (ph' t i) = f"
    and same: "\<And>t' j. unat t' \<in> used \<Longrightarrow> (t', j) \<noteq> (t, i) \<Longrightarrow> ph' t' j = ph t' j"
    and leaf: "length p = 3 \<or> (\<forall>j. ph' f j = 0)" and q: "mpath M q"
  shows "walk ph' root q = (if q = p @ [i] then Some f else walk ph root q)"
proof (cases "strict_prefix (p @ [i]) q")
  case False
  then show ?thesis using walk_change [OF own p refl same q False] e by simp
next
  case True
  have at: "walk ph' root (p @ [i]) = Some f"
    using walk_change [OF own p refl same p(1)] e by simp
  have "length (p @ [i]) < length q" using True by (rule prefix_length_less)
  then have "\<forall>j. ph' f j = 0" using leaf q by (auto simp: mpath_def)
  then have "walk ph' root q = None" using walk_below_empty [OF at _ True] by blast
  moreover have "walk ph root q = None"
  proof -
    obtain r where "q = (p @ [i]) @ r" using True by (auto simp: strict_prefix_def prefix_def)
    then show ?thesis using p(2) absent by (simp add: walk_append)
  qed
  ultimately show ?thesis using True by (auto simp: strict_prefix_def)
qed

lemma frames_owned_insert:
  assumes own: "frames_owned M ph root used" and sub: "used \<subseteq> used'" and f: "unat f \<in> used'"
    and new: "\<And>q. mpath M q \<Longrightarrow> walk ph root q \<noteq> Some f"
    and w: "\<And>q. mpath M q \<Longrightarrow> walk ph' root q = (if q = p' then Some f else walk ph root q)"
  shows "frames_owned M ph' root used'"
  using own sub f new by (fastforce simp: frames_owned_def w split: if_splits)

lemma frames_owned_remove:
  assumes own: "frames_owned M ph root used" and p: "mpath M p'" "walk ph root p' = Some f"
    and w: "\<And>q. mpath M q \<Longrightarrow> walk ph' root q = (if q = p' then None else walk ph root q)"
  shows "frames_owned M ph' root (used - {unat f})"
proof -
  have "f' \<noteq> f" if "mpath M q" "q \<noteq> p'" "walk ph root q = Some f'" for q f'
    using frames_owned_inj [OF own that(1) p(1)] p(2) that by auto
  then have neq: "unat f' \<noteq> unat f" if "mpath M q" "q \<noteq> p'" "walk ph root q = Some f'" for q f'
    using that by (metis word_unat_eq_iff)
  have "unat f' \<in> used - {unat f}" if "mpath M q" "walk ph' root q = Some f'" for q f'
    using that frames_owned_used [OF own that(1)] neq [OF that(1)] by (simp add: w split: if_splits)
  moreover have "q = q'" if "mpath M q" "mpath M q'" "walk ph' root q = Some f'" "walk ph' root q' = Some f'" for q q' f'
    using that frames_owned_inj [OF own that(1,2)] by (simp add: w split: if_splits)
  ultimately show ?thesis unfolding frames_owned_def by blast
qed

text \<open>The entries of leaves away from the changed path.\<close>

lemma leaf_of_other:
  assumes own: "frames_owned M ph root used" and p: "mpath M (p @ [i])" "walk ph root p = Some t"
    and same: "\<And>t' j. unat t' \<in> used \<Longrightarrow> (t', j) \<noteq> (t, i) \<Longrightarrow> ph' t' j = ph t' j"
    and w: "\<And>q. mpath M q \<Longrightarrow> q \<noteq> p @ [i] \<Longrightarrow> walk ph' root q = walk ph root q"
    and v: "mpath M (vpath v)" "vpath v \<noteq> p @ [i]" "take 3 (vpath v) \<noteq> p @ [i]"
  shows "leaf_of ph' root v = leaf_of ph root v"
proof -
  have vp: "vpath v = take 3 (vpath v) @ [va_index v 0]" by (simp add: vpath_def)
  then have m: "mpath M (take 3 (vpath v))" using v(1) mpath_butlast by metis
  have "ph' t' (va_index v 0) = ph t' (va_index v 0)" if "walk ph root (take 3 (vpath v)) = Some t'" for t'
    using same [of t' "va_index v 0"] frames_owned_used [OF own m that] v(2) vp
      frames_owned_inj [OF own m mpath_butlast [OF p(1)] that] p(2) by (cases "t' = t") force+
  then show ?thesis using w [OF m v(3)] by (auto simp: leaf_of_def split: option.split)
qed

section \<open>One level of \<open>vspace_map\<close>\<close>

text \<open>
  What the three table levels do to the state: frames are added to the ones in use, existing walks
  stay, tables that are added were free before, no leaf entry changes, and neither does any frame
  that is in use and is no table.
\<close>

definition is_table :: "nat set \<Rightarrow> (u64 \<Rightarrow> nat \<Rightarrow> u64) \<Rightarrow> u64 \<Rightarrow> u64 \<Rightarrow> bool" where
  "is_table M ph root f \<longleftrightarrow> (\<exists>q. mpath M q \<and> length q \<le> 3 \<and> walk ph root q = Some f)"

definition vm_grow :: "nat set \<Rightarrow> u64 \<Rightarrow> nat \<Rightarrow> 'a pgstate_scheme \<Rightarrow> 'a pgstate_scheme \<Rightarrow> bool" where
  "vm_grow M root n s s' \<longleftrightarrow>
     (\<exists>bmp ph. s' = s\<lparr>free_pages := bmp, phys := ph\<rparr>) \<and> pg_inv s' \<and> pg_total s' = pg_total s \<and>
     frames_owned M (phys s') root (pg_used s') \<and>
     pg_used s \<subseteq> pg_used s' \<and> card (pg_used s') \<le> card (pg_used s) + n \<and>
     (\<forall>q f. mpath M q \<longrightarrow> walk (phys s) root q = Some f \<longrightarrow> walk (phys s') root q = Some f) \<and>
     (\<forall>q f. mpath M q \<longrightarrow> walk (phys s) root q = None \<longrightarrow> walk (phys s') root q = Some f \<longrightarrow> unat f \<notin> pg_used s) \<and>
     (\<forall>v. mpath M (vpath v) \<longrightarrow> leaf_of (phys s') root v = leaf_of (phys s) root v) \<and>
     (\<forall>f. unat f \<in> pg_used s \<longrightarrow> \<not> is_table M (phys s) root f \<longrightarrow> phys s' f = phys s f)"

lemma vm_growD:
  assumes "vm_grow M root n s s'"
  shows "\<exists>bmp ph. s' = s\<lparr>free_pages := bmp, phys := ph\<rparr>" "pg_inv s'" "pg_total s' = pg_total s"
    "frames_owned M (phys s') root (pg_used s')" "pg_used s \<subseteq> pg_used s'"
    "card (pg_used s') \<le> card (pg_used s) + n"
    "mpath M q \<Longrightarrow> walk (phys s) root q = Some f \<Longrightarrow> walk (phys s') root q = Some f"
    "mpath M q \<Longrightarrow> walk (phys s) root q = None \<Longrightarrow> walk (phys s') root q = Some f \<Longrightarrow> unat f \<notin> pg_used s"
    "mpath M (vpath v) \<Longrightarrow> leaf_of (phys s') root v = leaf_of (phys s) root v"
    "unat f \<in> pg_used s \<Longrightarrow> \<not> is_table M (phys s) root f \<Longrightarrow> phys s' f = phys s f"
  using assms unfolding vm_grow_def by blast+

lemma vm_grow_frame:
  assumes "vm_grow M root n s s'"
  shows "current_task s' = current_task s" "tasks s' = tasks s" "free_pages_lock s' = free_pages_lock s"
  using vm_growD(1) [OF assms] by auto

lemma vm_grow_vspaces: "vm_grow M root n s s' \<Longrightarrow> vspaces s' = vspaces s"
  using vm_growD(1) by fastforce

lemma vm_grow_refl: "pg_inv s \<Longrightarrow> frames_owned M (phys s) root (pg_used s) \<Longrightarrow> vm_grow M root n s s"
  unfolding vm_grow_def by (auto intro!: exI [of _ "free_pages s"] exI [of _ "phys s"])

lemma vm_grow_trans:
  assumes a: "vm_grow M root m s s'" and b: "vm_grow M root n s' s''"
  shows "vm_grow M root (m + n) s s''"
proof -
  have tab: "\<not> is_table M (phys s') root f" if "unat f \<in> pg_used s" "\<not> is_table M (phys s) root f" for f
  proof
    assume "is_table M (phys s') root f"
    then obtain q where q: "mpath M q" "length q \<le> 3" "walk (phys s') root q = Some f"
      by (auto simp: is_table_def)
    then show False
      using that vm_growD(7) [OF a q(1)] vm_growD(8) [OF a q(1)]
      by (cases "walk (phys s) root q") (auto simp: is_table_def)
  qed
  have new: "unat f \<notin> pg_used s" if q: "mpath M q" "walk (phys s) root q = None" "walk (phys s'') root q = Some f" for q f
    using vm_growD(7,8) [OF b q(1)] vm_growD(8) [OF a q(1,2)] vm_growD(5) [OF a] q(3)
    by (cases "walk (phys s') root q") auto
  show ?thesis unfolding vm_grow_def
  proof (intro conjI allI impI)
    show "\<exists>bmp ph. s'' = s\<lparr>free_pages := bmp, phys := ph\<rparr>"
      using vm_growD(1) [OF a] vm_growD(1) [OF b] by (elim exE) (rule exI, rule exI, simp)
    show "pg_used s \<subseteq> pg_used s''" using vm_growD(5) [OF a] vm_growD(5) [OF b] by (rule subset_trans)
    show "card (pg_used s'') \<le> card (pg_used s) + (m + n)"
      using vm_growD(6) [OF a] vm_growD(6) [OF b] by simp
    show "phys s'' f = phys s f" if "unat f \<in> pg_used s" "\<not> is_table M (phys s) root f" for f
      using vm_growD(10) [OF a that] vm_growD(10) [OF b _ tab [OF that]] vm_growD(5) [OF a] that(1) by auto
  qed (use vm_growD(2-4,7,9) [OF a] vm_growD(2-4,7,9) [OF b] new in simp_all)
qed

definition vm_ready :: "nat set \<Rightarrow> vspace_ref \<Rightarrow> u64 \<Rightarrow> 'a vmstate_scheme \<Rightarrow> bool" where
  "vm_ready M r root s \<longleftrightarrow>
     pg_inv s \<and> pg_total s \<le> 2 ^ 35 \<and> frames_owned M (phys s) root (pg_used s) \<and>
     (\<exists>m. mutex_idle m \<and> vspaces s r = Some \<lparr>vs_lock = mutex_taken m s, vs_pml4_ppn = root\<rparr>)"

lemma vm_ready_grow:
  assumes "vm_ready M r root s" and "vm_grow M root n s s'"
  shows "vm_ready M r root s'"
  using assms vm_growD(2-4) [OF assms(2)] vm_grow_frame(1) [OF assms(2)] vm_grow_vspaces [OF assms(2)]
  by (auto simp: vm_ready_def)

lemma resolve_mapping_ready:
  assumes "vm_ready M r root s"
  shows "resolve_mapping r virt s = Inr (resolve_vaddr (phys s) root virt)"
proof -
  obtain m where "mutex_idle m" "vspaces s r = Some \<lparr>vs_lock = mutex_taken m s, vs_pml4_ppn = root\<rparr>"
    using assms by (auto simp: vm_ready_def)
  then show ?thesis by (simp add: resolve_mapping_def get_vspace_def)
qed

lemma take_bit_40_frame: "unat p < 2 ^ 40 \<Longrightarrow> take_bit 40 (p :: u64) = p"
  by (rule word_unat_eq_iff [THEN iffD2]) (simp add: unsigned_take_bit_eq take_bit_nat_eq_self)

lemma pg_used_full_card:
  "pg_used s = {..<pg_total s} \<longleftrightarrow> \<not> card (pg_used s) < pg_total s"
proof
  show "\<not> card (pg_used s) < pg_total s" if "pg_used s = {..<pg_total s}" using that by simp
  show "pg_used s = {..<pg_total s}" if "\<not> card (pg_used s) < pg_total s"
    using that pg_used_below [of s] card_mono [OF _ pg_used_below [of s]] by (intro card_subset_eq) auto
qed

lemma finite_pg_used: "finite (pg_used s)"
  using pg_used_below by (rule finite_subset) simp

text \<open>Adding an empty table below an absent entry.\<close>

lemma vm_grow_new_table:
  assumes ready: "vm_ready M r root s" and p: "mpath M (p @ [i])" "length p \<le> 2" "walk (phys s) root p = Some t"
    and absent: "\<not> gpte_present (phys s t i)"
    and e: "gpte_present e" "gpte_ppn e = f"
    and f: "unat f \<notin> pg_used s" "bmp_used bmp = insert (unat f) (pg_used s)"
    and bmp: "bmp_inv bmp" "bmp_size bmp = bmp_size (free_pages s)"
    and s': "s' = s\<lparr>free_pages := bmp, phys := (phys s)(f := (\<lambda>_. 0), t := (phys s t)(i := e))\<rparr>"
  shows "vm_grow M root 1 s s' \<and> walk (phys s') root (p @ [i]) = Some f"
proof -
  have own: "frames_owned M (phys s) root (pg_used s)" and inv: "pg_inv s"
    using ready by (simp_all add: vm_ready_def)
  have t: "unat t \<in> pg_used s" using frames_owned_used [OF own mpath_butlast [OF p(1)] p(3)] .
  have tf: "t \<noteq> f" using t f(1) by auto
  have same: "phys s' t' j = phys s t' j" if "unat t' \<in> pg_used s" "(t', j) \<noteq> (t, i)" for t' j
    using that f(1) s' by auto
  have zero: "phys s' f j = 0" for j using s' tf by simp
  have w: "walk (phys s') root q = (if q = p @ [i] then Some f else walk (phys s) root q)" if "mpath M q" for q
    using walk_insert [OF own p(1,3) absent, of "phys s'" f, OF _ _ same _ that] e s' zero by auto
  have new: "walk (phys s) root q \<noteq> Some f" if "mpath M q" for q
    using frames_owned_used [OF own that] f(1) by auto
  have used: "pg_used s' = insert (unat f) (pg_used s)" using s' f(2) by simp
  show ?thesis unfolding vm_grow_def
  proof (intro conjI allI impI)
    show "\<exists>bmp ph. s' = s\<lparr>free_pages := bmp, phys := ph\<rparr>" using s' by blast
    show "pg_inv s'" "pg_total s' = pg_total s" using s' bmp inv by (simp_all add: pg_inv_def pg_total_def)
    show "frames_owned M (phys s') root (pg_used s')"
      using own used new w by (intro frames_owned_insert [OF own, of "pg_used s'" f "phys s'" "p @ [i]"]) auto
    show "card (pg_used s') \<le> card (pg_used s) + 1" using used f(1) by (simp add: finite_pg_used)
    show "walk (phys s') root q = Some g" if "mpath M q" "walk (phys s) root q = Some g" for q g
      using that w p(3) absent by (auto simp: walk_snoc)
    show "unat g \<notin> pg_used s" if "mpath M q" "walk (phys s) root q = None" "walk (phys s') root q = Some g" for q g
      using that w f(1) by (auto split: if_splits)
    show "leaf_of (phys s') root v = leaf_of (phys s) root v" if "mpath M (vpath v)" for v
    proof (cases "take 3 (vpath v) = p @ [i]")
      case True
      then show ?thesis using w [OF p(1)] zero p(3) absent by (simp add: leaf_of_def walk_snoc)
    next
      case False
      have "vpath v \<noteq> p @ [i]" using p(2) by (auto dest!: arg_cong [where f = length])
      then show ?thesis using leaf_of_other [OF own p(1,3) same _ that _ False] w by auto
    qed
    show "phys s' g = phys s g" if "unat g \<in> pg_used s" "\<not> is_table M (phys s) root g" for g
      using that f(1) p mpath_butlast [OF p(1)] s' by (auto simp: is_table_def)
  qed (use w p(1) used in auto)
qed

lemma map_level_ok:
  assumes ready: "vm_ready M r root s" and p: "mpath M (p @ [i])" "length p \<le> 2" "walk (phys s) root p = Some t"
    and entry: "entry (resolve_vaddr (phys s) root virt) = Some (t, i)"
    and space: "card (pg_used s) < pg_total s"
  obtains s' f where
    "map_level r virt entry (resolve_vaddr (phys s) root virt, s) = Inr (resolve_vaddr (phys s') root virt, s')"
    "vm_grow M root 1 s s'" "walk (phys s') root (p @ [i]) = Some f"
proof (cases "gpte_present (phys s t i)")
  case True
  then have "walk (phys s) root (p @ [i]) = Some (gpte_ppn (phys s t i))" using p(3) by (simp add: walk_snoc)
  moreover have "vm_grow M root 1 s s" using ready by (simp add: vm_grow_refl vm_ready_def)
  ultimately show ?thesis using that True entry by (simp add: map_level_def gpte_at_def)
next
  case False
  define e1 where "e1 = gpte_set 2 True (gpte_set 1 True (gpte_set 0 True (phys s t i)))"
  define s1 where "s1 = s\<lparr>phys := (phys s)(t := (phys s t)(i := e1))\<rparr>"
  have s1: "pg_inv s1" "pg_used s1 = pg_used s" "pg_total s1 = pg_total s" "free_pages s1 = free_pages s"
    using ready by (simp_all add: s1_def vm_ready_def)
  then have "pg_used s1 \<noteq> {..<pg_total s1}" using space pg_used_full_card [of s] by simp
  from alloc_page_free [OF s1(1) this] obtain f bmp where
    a: "alloc_page s1 = Inr (f, zero_page f (s1\<lparr>free_pages := bmp\<rparr>))" and
    bmp: "bmp_inv bmp" "bmp_size bmp = bmp_size (free_pages s)" "bmp_used bmp = insert (unat f) (pg_used s)"
    and f: "unat f < pg_total s" "unat f \<notin> pg_used s" unfolding s1 by metis
  define e where "e = gpte_set_ppn f e1"
  define s' where "s' = s\<lparr>free_pages := bmp, phys := (phys s)(f := (\<lambda>_. 0), t := (phys s t)(i := e))\<rparr>"
  have "unat t \<in> pg_used s"
    using ready p mpath_butlast frames_owned_used unfolding vm_ready_def by metis
  then have tf: "t \<noteq> f" using f by auto
  have "gpte_present e" by (simp add: e_def e1_def gpte_present_def bit_gpte_set_ppn bit_gpte_set)
  moreover have "gpte_ppn e = f"
    using f(1) ready by (simp add: e_def take_bit_40_frame vm_ready_def)
  ultimately have g: "vm_grow M root 1 s s'" "walk (phys s') root (p @ [i]) = Some f"
    using vm_grow_new_table [OF ready p False _ _ f(2) bmp(3,1,2) s'_def] by auto
  have "gpte_upd (Some (t, i)) (gpte_set_ppn f) (zero_page f (s1\<lparr>free_pages := bmp\<rparr>)) = Inr s'"
    using tf by (simp add: gpte_upd_def zero_page_def s1_def e_def s'_def fun_upd_twist)
  then have "map_level r virt entry (resolve_vaddr (phys s) root virt, s) = Inr (resolve_vaddr (phys s') root virt, s')"
    using False entry a resolve_mapping_ready [OF vm_ready_grow [OF ready g(1)]]
    by (simp add: map_level_def gpte_at_def gpte_upd_def e1_def s1_def)
  then show ?thesis using that g by blast
qed

section \<open>Mapping a page\<close>

definition vspace_root :: "vspace_ref \<Rightarrow> 'a vmstate_scheme \<Rightarrow> u64" where
  "vspace_root r s = (case vspaces s r of None \<Rightarrow> 0 | Some vs \<Rightarrow> vs_pml4_ppn vs)"

text \<open>The table entry that maps a page number in an address space, if there is one.\<close>

definition vspace_mapping :: "vspace_ref \<Rightarrow> 'a vmstate_scheme \<Rightarrow> u64 \<Rightarrow> u64 option" where
  "vspace_mapping r s virt = leaf_of (phys s) (vspace_root r s) virt"

definition vspace_inv :: "nat set \<Rightarrow> vspace_ref \<Rightarrow> 'a vmstate_scheme \<Rightarrow> bool" where
  "vspace_inv M r s \<longleftrightarrow>
     pg_inv s \<and> pg_total s \<le> 2 ^ 35 \<and> frames_owned M (phys s) (vspace_root r s) (pg_used s) \<and>
     (\<exists>vs. vspaces s r = Some vs \<and> mutex_idle (vs_lock vs))"

text \<open>A frame that is a table of the address space or is mapped in its managed part.\<close>

definition vspace_owns :: "nat set \<Rightarrow> vspace_ref \<Rightarrow> 'a vmstate_scheme \<Rightarrow> u64 \<Rightarrow> bool" where
  "vspace_owns M r s f \<longleftrightarrow> (\<exists>q. mpath M q \<and> walk (phys s) (vspace_root r s) q = Some f)"

definition in_region :: "nat set \<Rightarrow> u64 \<Rightarrow> bool" where
  "in_region M virt \<longleftrightarrow> va_index virt 3 \<in> M"

lemma mpath_vpath [simp]: "mpath M (vpath v) \<longleftrightarrow> in_region M v"
  using va_index_less by (auto simp: mpath_def vpath_def in_region_def)

lemma mpath_vpath_prefixes:
  assumes "in_region M v"
  shows "mpath M [va_index v 3]" "mpath M [va_index v 3, va_index v 2]"
    "mpath M [va_index v 3, va_index v 2, va_index v 1]"
  using assms va_index_less by (auto simp: mpath_def in_region_def)

lemma take_bit_eq_iff_bits:
  assumes "n \<le> 64"
  shows "take_bit n v = take_bit n (w :: u64) \<longleftrightarrow> (\<forall>k<n. bit v k = bit w k)"
proof
  assume "take_bit n v = take_bit n w"
  then have "bit (take_bit n v) k = bit (take_bit n w) k" for k by simp
  then show "\<forall>k<n. bit v k = bit w k" by (auto simp: bit_take_bit_iff)
qed (auto intro!: bit_eqI simp: bit_take_bit_iff)

lemma vpath_eq_iff: "vpath v = vpath w \<longleftrightarrow> take_bit 36 v = take_bit 36 w"
proof -
  have m: "(0x1ff :: u64) = mask 9" by (simp add: mask_eq_exp_minus_1)
  have i: "va_index v k = va_index w k \<longleftrightarrow> (\<forall>n. 9 * k \<le> n \<longrightarrow> n < 9 * k + 9 \<longrightarrow> bit v n = bit w n)"
    if "k < 4" for k
  proof -
    have "va_index v k = va_index w k \<longleftrightarrow> take_bit 9 (drop_bit (9 * k) v) = take_bit 9 (drop_bit (9 * k) w)"
      by (simp add: va_index_def m flip: take_bit_eq_mask word_unat_eq_iff)
    also have "\<dots> \<longleftrightarrow> (\<forall>n<9. bit v (9 * k + n) = bit w (9 * k + n))"
      by (simp add: take_bit_eq_iff_bits bit_simps)
    also have "\<dots> \<longleftrightarrow> (\<forall>n. 9 * k \<le> n \<longrightarrow> n < 9 * k + 9 \<longrightarrow> bit v n = bit w n)"
    proof (rule iffI; intro allI impI)
      fix n assume "\<forall>n<9. bit v (9 * k + n) = bit w (9 * k + n)" "9 * k \<le> n" "n < 9 * k + 9"
      then show "bit v n = bit w n" by (elim allE [of _ "n - 9 * k"]) auto
    qed simp
    finally show ?thesis .
  qed
  have "vpath v = vpath w \<longleftrightarrow> (\<forall>n<36. bit v n = bit w n)"
  proof
    assume "vpath v = vpath w"
    then have all: "va_index v k = va_index w k" if "k < 4" for k
      using that by (auto simp: vpath_def less_Suc_eq numeral_eq_Suc)
    have "bit v n = bit w n" if "n < 36" for n
      using i [of "n div 9"] all [of "n div 9"] that by (auto simp: less_mult_imp_div_less)
    then show "\<forall>n<36. bit v n = bit w n" by blast
  next
    assume "\<forall>n<36. bit v n = bit w n"
    then have "va_index v k = va_index w k" if "k < 4" for k using i [OF that] that by auto
    then show "vpath v = vpath w" by (simp add: vpath_def)
  qed
  also have "\<dots> \<longleftrightarrow> take_bit 36 v = take_bit 36 w"
    by (simp add: take_bit_eq_iff_bits)
  finally show ?thesis .
qed

text \<open>The three levels in a row give the page table of the address.\<close>

lemma map_levels_ok:
  assumes ready: "vm_ready M r root s" and v: "in_region M virt"
    and space: "card (pg_used s) + 3 \<le> pg_total s"
  obtains s' t where
    "rbind (map_level r virt va_pml4e (resolve_vaddr (phys s) root virt, s)) (\<lambda>vs1.
     rbind (map_level r virt va_pdpte vs1) (map_level r virt va_pdire)) = Inr (resolve_vaddr (phys s') root virt, s')"
    "vm_grow M root 3 s s'" "walk (phys s') root (take 3 (vpath virt)) = Some t"
proof -
  note mp = mpath_vpath_prefixes [OF v]
  obtain s1 f1 where 1: "map_level r virt va_pml4e (resolve_vaddr (phys s) root virt, s)
      = Inr (resolve_vaddr (phys s1) root virt, s1)" "vm_grow M root 1 s s1"
      "walk (phys s1) root [va_index virt 3] = Some f1"
    using map_level_ok [OF ready, of "[]" "va_index virt 3" root va_pml4e virt] mp space
    by (auto simp: resolve_vaddr_walk)
  note r1 = vm_ready_grow [OF ready 1(2)]
  have sp1: "card (pg_used s1) + 2 \<le> pg_total s1" using vm_growD(3,6) [OF 1(2)] space by simp
  obtain s2 f2 where 2: "map_level r virt va_pdpte (resolve_vaddr (phys s1) root virt, s1)
      = Inr (resolve_vaddr (phys s2) root virt, s2)" "vm_grow M root 1 s1 s2"
      "walk (phys s2) root [va_index virt 3, va_index virt 2] = Some f2"
    using map_level_ok [OF r1, of "[va_index virt 3]" "va_index virt 2" f1 va_pdpte virt] mp sp1 1(3)
    by (auto simp: resolve_vaddr_walk simp del: walk.simps)
  note r2 = vm_ready_grow [OF r1 2(2)]
  have sp2: "card (pg_used s2) + 1 \<le> pg_total s2" using vm_growD(3,6) [OF 2(2)] sp1 by simp
  obtain s3 f3 where 3: "map_level r virt va_pdire (resolve_vaddr (phys s2) root virt, s2)
      = Inr (resolve_vaddr (phys s3) root virt, s3)" "vm_grow M root 1 s2 s3"
      "walk (phys s3) root [va_index virt 3, va_index virt 2, va_index virt 1] = Some f3"
    using map_level_ok [OF r2, of "[va_index virt 3, va_index virt 2]" "va_index virt 1" f2 va_pdire virt]
      mp sp2 2(3)
    by (auto simp: resolve_vaddr_walk simp del: walk.simps)
  have "vm_grow M root 3 s s3"
    using vm_grow_trans [OF vm_grow_trans [OF 1(2) 2(2)] 3(2)] by (simp add: numeral_3_eq_3)
  then show ?thesis using that 1(1) 2(1) 3(1,3) by (simp add: vpath_def)
qed

lemma vspace_inv_taken:
  assumes "vspace_inv M r s"
  obtains m where "get_vspace r s = Inr \<lparr>vs_lock = m, vs_pml4_ppn = vspace_root r s\<rparr>"
    and "mutex_idle m" and "mutex_lock m s = Inr (mutex_taken m s)"
    and "vspaces s r = Some \<lparr>vs_lock = m, vs_pml4_ppn = vspace_root r s\<rparr>"
    and "vm_ready M r (vspace_root r s)
      (set_vs_lock r \<lparr>vs_lock = m, vs_pml4_ppn = vspace_root r s\<rparr> (mutex_taken m s) s)"
proof -
  obtain vs where vs: "vspaces s r = Some vs" "mutex_idle (vs_lock vs)"
    using assms by (auto simp: vspace_inv_def)
  then have eq: "vs = \<lparr>vs_lock = vs_lock vs, vs_pml4_ppn = vspace_root r s\<rparr>"
    by (simp add: vspace_root_def)
  have "pg_inv (set_vs_lock r vs m' s) = pg_inv s" "pg_used (set_vs_lock r vs m' s) = pg_used s"
    "pg_total (set_vs_lock r vs m' s) = pg_total s" "phys (set_vs_lock r vs m' s) = phys s" for m'
    by (simp_all add: set_vs_lock_def pg_inv_def pg_used_def pg_total_def)
  then have "vm_ready M r (vspace_root r s) (set_vs_lock r vs (mutex_taken (vs_lock vs) s) s)"
    using assms vs by (auto simp: vspace_inv_def vm_ready_def vspace_root_def set_vs_lock_def)
  then show ?thesis using that [of "vs_lock vs"] vs eq by (simp add: get_vspace_def)
qed

text \<open>Releasing the lock of an address space gives back the table of address spaces.\<close>

lemma vspace_unlock_taken:
  assumes "vspaces s r = Some \<lparr>vs_lock = m, vs_pml4_ppn = root\<rparr>" and "mutex_idle m"
    and "current_task s' = current_task s"
    and "vspaces s' = (vspaces s)(r \<mapsto> \<lparr>vs_lock = mutex_taken m s, vs_pml4_ppn = root\<rparr>)"
  shows "rbind (get_vspace r s') (\<lambda>vs. rbind (mutex_unlock (vs_lock vs) s') (\<lambda>(m, s). Inr (set_vs_lock r vs m s)))
    = Inr (s'\<lparr>vspaces := vspaces s\<rparr>)"
proof -
  have "(vspaces s)(r \<mapsto> \<lparr>vs_lock = m, vs_pml4_ppn = root\<rparr>) = vspaces s"
    using assms(1) by (rule fun_upd_idem)
  then show ?thesis using assms by (simp add: get_vspace_def set_vs_lock_def)
qed

lemma page_state_vspaces [simp]:
  "pg_inv (s\<lparr>vspaces := x\<rparr>) = pg_inv s" "pg_used (s\<lparr>vspaces := x\<rparr>) = pg_used s"
  "pg_total (s\<lparr>vspaces := x\<rparr>) = pg_total s" "pg_inv (set_vs_lock r vs m s) = pg_inv s"
  "pg_used (set_vs_lock r vs m s) = pg_used s" "pg_total (set_vs_lock r vs m s) = pg_total s"
  "phys (set_vs_lock r vs m s) = phys s" "current_task (set_vs_lock r vs m s) = current_task s"
  by (simp_all add: pg_inv_def pg_used_def pg_total_def set_vs_lock_def)

text \<open>Filling an absent leaf entry.\<close>

lemma leaf_insert:
  assumes own: "frames_owned M ph root used" and v: "in_region M virt"
    and t: "walk ph root (take 3 (vpath virt)) = Some t" and absent: "\<not> gpte_present (ph t (va_index virt 0))"
    and f: "unat f \<in> used" "unat f < 2 ^ 40" "\<And>q. mpath M q \<Longrightarrow> walk ph root q \<noteq> Some f"
    and ph': "ph' = ph(t := (ph t)(va_index virt 0 := leaf_entry f flags (ph t (va_index virt 0))))"
  shows "frames_owned M ph' root used \<and>
    leaf_of ph' root virt = Some (leaf_entry f flags (ph t (va_index virt 0))) \<and>
    (\<forall>v. in_region M v \<longrightarrow> vpath v \<noteq> vpath virt \<longrightarrow> leaf_of ph' root v = leaf_of ph root v) \<and>
    (\<forall>q. mpath M q \<longrightarrow> walk ph' root q = (if q = vpath virt then Some f else walk ph root q))"
proof -
  let ?p = "take 3 (vpath virt)" and ?i = "va_index virt 0"
  have vp: "?p @ [?i] = vpath virt" by (simp add: vpath_def)
  have p: "mpath M (?p @ [?i])" using v vp by simp
  have same: "ph' t' j = ph t' j" if "(t', j) \<noteq> (t, ?i)" for t' j using that ph' by auto
  have e: "gpte_present (ph' t ?i)" "gpte_ppn (ph' t ?i) = f"
    using ph' f(2) by (simp_all add: leaf_entry_fields take_bit_40_frame)
  have w: "walk ph' root q = (if q = ?p @ [?i] then Some f else walk ph root q)" if "mpath M q" for q
    using walk_insert [OF own p t absent, of ph' f q, OF e same _ that] by simp
  have "frames_owned M ph' root used"
    using f w by (intro frames_owned_insert [OF own, of used f ph' "?p @ [?i]"]) auto
  moreover have "walk ph' root ?p = Some t"
    using w [OF mpath_butlast [OF p]] t by simp
  then have "leaf_of ph' root virt = Some (leaf_entry f flags (ph t ?i))"
    using e by (simp add: leaf_of_def ph')
  moreover have "leaf_of ph' root v = leaf_of ph root v" if "in_region M v" "vpath v \<noteq> vpath virt" for v
  proof -
    have "take 3 (vpath v) \<noteq> ?p @ [?i]" by (auto simp: vpath_def)
    then show ?thesis
      using leaf_of_other [OF own p t same, of v] w that vp by simp
  qed
  ultimately show ?thesis using w unfolding vp by blast
qed

lemma rbind_assoc3:
  "rbind a (\<lambda>x. rbind (b x) (\<lambda>y. rbind (c y) k)) = rbind (rbind a (\<lambda>x. rbind (b x) c)) k"
  by (simp add: rbind_assoc)

lemma vspace_map_ok:
  assumes inv: "vspace_inv M r s" and v: "in_region M virt"
    and f: "unat f \<in> pg_used s" "\<not> vspace_owns M r s f"
    and space: "card (pg_used s) + 3 \<le> pg_total s"
  obtains s' where "vspace_map r virt f flags s = Inr s'" and "vspace_inv M r s'"
    and "vspaces s' = vspaces s"
    and "\<exists>bmp ph. s' = s\<lparr>free_pages := bmp, phys := ph\<rparr>"
    and "case vspace_mapping r s virt of Some e \<Rightarrow> vspace_mapping r s' virt = Some e
      | None \<Rightarrow> \<exists>e. vspace_mapping r s' virt = Some (leaf_entry f flags e)"
    and "\<forall>v. in_region M v \<longrightarrow> vpath v \<noteq> vpath virt \<longrightarrow> vspace_mapping r s' v = vspace_mapping r s v"
    and "pg_used s \<subseteq> pg_used s'" and "pg_total s' = pg_total s"
    and "card (pg_used s') \<le> card (pg_used s) + 3"
    and "\<forall>g. unat g \<in> pg_used s \<longrightarrow> \<not> is_table M (phys s) (vspace_root r s) g \<longrightarrow> phys s' g = phys s g"
    and "\<forall>g. vspace_owns M r s' g \<longrightarrow> vspace_owns M r s g \<or> g = f \<or> unat g \<notin> pg_used s"
proof -
  let ?root = "vspace_root r s"
  obtain m where m: "get_vspace r s = Inr \<lparr>vs_lock = m, vs_pml4_ppn = ?root\<rparr>" "mutex_idle m"
    "mutex_lock m s = Inr (mutex_taken m s)" "vspaces s r = Some \<lparr>vs_lock = m, vs_pml4_ppn = ?root\<rparr>"
    and ready: "vm_ready M r ?root (set_vs_lock r \<lparr>vs_lock = m, vs_pml4_ppn = ?root\<rparr> (mutex_taken m s) s)"
    using vspace_inv_taken [OF inv] by blast
  define s0 where "s0 = set_vs_lock r \<lparr>vs_lock = m, vs_pml4_ppn = ?root\<rparr> (mutex_taken m s) s"
  have s0: "phys s0 = phys s" "pg_used s0 = pg_used s" "pg_total s0 = pg_total s"
    by (simp_all add: s0_def)
  obtain s1 t where s1: "rbind (map_level r virt va_pml4e (resolve_vaddr (phys s0) ?root virt, s0)) (\<lambda>vs1.
      rbind (map_level r virt va_pdpte vs1) (map_level r virt va_pdire)) = Inr (resolve_vaddr (phys s1) ?root virt, s1)"
    and g: "vm_grow M ?root 3 s0 s1" and t: "walk (phys s1) ?root (take 3 (vpath virt)) = Some t"
    using map_levels_ok [OF ready [folded s0_def] v] space s0 by auto
  note g1 = vm_growD [OF g, unfolded s0]
  obtain bmp ph where ext: "s1 = s0\<lparr>free_pages := bmp, phys := ph\<rparr>" using g1(1) by blast
  have ptble: "va_ptble (resolve_vaddr (phys s1) ?root virt) = Some (t, va_index virt 0)"
    using t by (simp add: resolve_vaddr_walk vpath_def del: walk.simps)
  let ?e = "phys s1 t (va_index virt 0)"
  define ph' where "ph' = (if gpte_present ?e then phys s1
    else (phys s1)(t := (phys s1 t)(va_index virt 0 := leaf_entry f flags ?e)))"
  define s' where "s' = s1\<lparr>phys := ph', vspaces := vspaces s\<rparr>"
  have "(if \<not> gpte_present ?e
      then gpte_upd (va_ptble (resolve_vaddr (phys s1) ?root virt)) (leaf_entry f flags) s1 else Inr s1)
      = Inr (s1\<lparr>phys := ph'\<rparr>)"
    using ptble by (simp add: ph'_def gpte_upd_def)
  moreover have "rbind (get_vspace r (s1\<lparr>phys := ph'\<rparr>)) (\<lambda>vs. rbind (mutex_unlock (vs_lock vs) (s1\<lparr>phys := ph'\<rparr>))
      (\<lambda>(m, s). Inr (set_vs_lock r vs m s))) = Inr s'"
    using vspace_unlock_taken [OF m(4,2), of "s1\<lparr>phys := ph'\<rparr>"]
    by (simp add: s'_def ext s0_def set_vs_lock_def)
  ultimately have run: "vspace_map r virt f flags s = Inr s'"
    using m(1,3) s1 ptble resolve_mapping_ready [OF ready]
    by (simp add: vspace_map_def rbind_assoc3 gpte_at_def split del: if_split flip: s0_def)
  have new: "walk (phys s1) ?root q \<noteq> Some f" if "mpath M q" for q
    using g1(7,8) [OF that] f that by (cases "walk (phys s) ?root q") (auto simp: vspace_owns_def)
  have f40: "unat f < 2 ^ 40" using f(1) pg_used_below [of s] inv by (auto simp: vspace_inv_def)
  have f1: "unat f \<in> pg_used s1" using f(1) g1(5) by blast
  have root': "vspace_root r s' = ?root" by (simp add: s'_def vspace_root_def)
  have leaf: "leaf_of (phys s1) ?root virt = (if gpte_present ?e then Some ?e else None)"
    using t by (simp add: leaf_of_def)
  have main: "frames_owned M ph' ?root (pg_used s1) \<and>
      (case leaf_of (phys s) ?root virt of Some e \<Rightarrow> leaf_of ph' ?root virt = Some e
       | None \<Rightarrow> \<exists>e. leaf_of ph' ?root virt = Some (leaf_entry f flags e)) \<and>
      (\<forall>v. in_region M v \<longrightarrow> vpath v \<noteq> vpath virt \<longrightarrow> leaf_of ph' ?root v = leaf_of (phys s) ?root v)"
  proof (cases "gpte_present ?e")
    case True
    then show ?thesis using g1(4,9) v leaf by (simp add: ph'_def split: option.split)
  next
    case False
    then have "ph' = (phys s1)(t := (phys s1 t)(va_index virt 0 := leaf_entry f flags ?e))" by (simp add: ph'_def)
    from leaf_insert [OF g1(4) v t False f1 f40 new this]
    show ?thesis using g1(9) v leaf False by auto
  qed
  have data: "phys s' g = phys s g" if "unat g \<in> pg_used s" "\<not> is_table M (phys s) ?root g" for g
  proof -
    have "g \<noteq> t"
    proof
      have mp: "mpath M (take 3 (vpath virt))" using mpath_vpath_prefixes(3) [OF v] by (simp add: vpath_def)
      assume "g = t"
      with t g1(7,8) [OF mp] that mp show False
        by (cases "walk (phys s) ?root (take 3 (vpath virt))") (auto simp: is_table_def)
    qed
    then show ?thesis using g1(10) [OF that] by (simp add: s'_def ph'_def)
  qed
  have w': "walk (phys s1) ?root q = Some g \<or> g = f" if "mpath M q" "walk ph' ?root q = Some g" for q g
  proof (cases "gpte_present ?e")
    case True
    then show ?thesis using that by (simp add: ph'_def)
  next
    case False
    then have "ph' = (phys s1)(t := (phys s1 t)(va_index virt 0 := leaf_entry f flags ?e))" by (simp add: ph'_def)
    from leaf_insert [OF g1(4) v t False f1 f40 new this] that show ?thesis by (auto split: if_splits)
  qed
  have owns: "vspace_owns M r s g \<or> g = f \<or> unat g \<notin> pg_used s" if "vspace_owns M r s' g" for g
  proof -
    obtain q where q: "mpath M q" "walk (phys s') ?root q = Some g" using \<open>vspace_owns M r s' g\<close> root' by (auto simp: vspace_owns_def)
    then have "walk (phys s1) ?root q = Some g \<or> g = f" using w' by (simp add: s'_def)
    then show ?thesis using g1(7,8) [OF q(1)] q(1)
      by (cases "walk (phys s) ?root q") (auto simp: vspace_owns_def)
  qed
  have "vspace_inv M r s'"
    using inv main g1(2,3) m(2,4) root' by (auto simp: vspace_inv_def s'_def)
  moreover have "\<exists>bmp ph. s' = s\<lparr>free_pages := bmp, phys := ph\<rparr>"
    by (rule exI [of _ bmp], rule exI [of _ ph']) (simp add: s'_def ext s0_def set_vs_lock_def)
  moreover have mp: "vspace_mapping r s' = leaf_of ph' ?root" "vspace_mapping r s = leaf_of (phys s) ?root"
    using root' by (simp_all add: vspace_mapping_def s'_def fun_eq_iff)
  moreover have "pg_used s' = pg_used s1" "pg_total s' = pg_total s1" "vspaces s' = vspaces s" by (simp_all add: s'_def)
  ultimately show ?thesis using that [of s', unfolded mp] run main data g1(3,5,6) owns by metis
qed

section \<open>Unmapping a page\<close>

lemma ppn_to_virt_not_NULL:
  assumes "unat f < 2 ^ 35"
  shows "ppn_to_virt f \<noteq> NULL"
proof -
  have p: "unat (push_bit 12 f) = 4096 * unat f"
    using assms by (simp add: push_bit_eq_mult unat_word_ariths)
  then have "unat (push_bit 12 f + 0xffff800000000000) = 4096 * unat f + 0xffff800000000000"
    using assms by (subst unat_add_no_wrap) simp_all
  then show ?thesis
    by (auto simp: ppn_to_virt_def phys_to_virt_def IDENT_OFFSET_def PAGE_SHIFT_def simp flip: unat_eq_0)
qed

text \<open>Clearing a present leaf entry.\<close>

lemma leaf_remove:
  assumes own: "frames_owned M ph root used" and v: "in_region M virt"
    and t: "walk ph root (take 3 (vpath virt)) = Some t" and f: "walk ph root (vpath virt) = Some f"
    and ph': "ph' = ph(t := (ph t)(va_index virt 0 := 0))"
  shows "frames_owned M ph' root (used - {unat f}) \<and> leaf_of ph' root virt = None \<and>
    (\<forall>v. in_region M v \<longrightarrow> vpath v \<noteq> vpath virt \<longrightarrow> leaf_of ph' root v = leaf_of ph root v) \<and>
    (\<forall>q. mpath M q \<longrightarrow> walk ph' root q = (if q = vpath virt then None else walk ph root q))"
proof -
  let ?p = "take 3 (vpath virt)" and ?i = "va_index virt 0"
  have vp: "?p @ [?i] = vpath virt" by (simp add: vpath_def)
  have p: "mpath M (?p @ [?i])" using v vp by simp
  have same: "ph' t' j = ph t' j" if "(t', j) \<noteq> (t, ?i)" for t' j using that ph' by auto
  have w: "walk ph' root q = (if q = ?p @ [?i] then None else walk ph root q)" if "mpath M q" for q
  proof -
    have "\<not> strict_prefix (?p @ [?i]) q"
      using that by (auto simp: mpath_def dest: prefix_length_less)
    moreover have "ph' t ?i = 0" using ph' by simp
    ultimately show ?thesis using walk_change [OF own p t _ same that] by fastforce
  qed
  have "frames_owned M ph' root (used - {unat f})"
    using frames_owned_remove [OF own p] w f vp by simp
  moreover have "leaf_of ph' root virt = None"
    using walk_vpath [of ph' root virt] w [OF p] vp by simp
  moreover have "leaf_of ph' root v = leaf_of ph root v" if "in_region M v" "vpath v \<noteq> vpath virt" for v
  proof -
    have "take 3 (vpath v) \<noteq> ?p @ [?i]" by (auto simp: vpath_def)
    then show ?thesis using leaf_of_other [OF own p t same, of v] w that vp by simp
  qed
  ultimately show ?thesis using w unfolding vp by blast
qed

lemma vspace_unmap_absent:
  assumes inv: "vspace_inv M r s" and none: "vspace_mapping r s virt = None"
  shows "vspace_unmap r virt s = Inr (False, s)"
proof -
  let ?root = "vspace_root r s"
  obtain m where m: "get_vspace r s = Inr \<lparr>vs_lock = m, vs_pml4_ppn = ?root\<rparr>" "mutex_idle m"
    "mutex_lock m s = Inr (mutex_taken m s)" "vspaces s r = Some \<lparr>vs_lock = m, vs_pml4_ppn = ?root\<rparr>"
    and ready: "vm_ready M r ?root (set_vs_lock r \<lparr>vs_lock = m, vs_pml4_ppn = ?root\<rparr> (mutex_taken m s) s)"
    using vspace_inv_taken [OF inv] by blast
  define s0 where "s0 = set_vs_lock r \<lparr>vs_lock = m, vs_pml4_ppn = ?root\<rparr> (mutex_taken m s) s"
  have "va_page (resolve_vaddr (phys s) ?root virt) = NULL"
    using none by (simp add: resolve_vaddr_walk walk_vpath vspace_mapping_def)
  moreover have "(vspaces s)(r \<mapsto> \<lparr>vs_lock = m, vs_pml4_ppn = ?root\<rparr>) = vspaces s"
    using m(4) by (rule fun_upd_idem)
  ultimately show ?thesis
    using m resolve_mapping_ready [OF ready]
    by (simp add: vspace_unmap_def get_vspace_def set_vs_lock_def)
qed

lemma vspace_unmap_present:
  assumes inv: "vspace_inv M r s" and v: "in_region M virt" and e: "vspace_mapping r s virt = Some e"
  obtains s' where "vspace_unmap r virt s = Inr (True, s')" and "vspace_inv M r s'"
    and "vspaces s' = vspaces s" and "\<exists>bmp ph. s' = s\<lparr>free_pages := bmp, phys := ph\<rparr>"
    and "vspace_mapping r s' virt = None"
    and "\<forall>v. in_region M v \<longrightarrow> vpath v \<noteq> vpath virt \<longrightarrow> vspace_mapping r s' v = vspace_mapping r s v"
    and "pg_used s' = pg_used s - {unat (gpte_ppn e)}" and "unat (gpte_ppn e) \<in> pg_used s"
    and "pg_total s' = pg_total s"
    and "\<forall>g. \<not> is_table M (phys s) (vspace_root r s) g \<longrightarrow> phys s' g = phys s g"
    and "\<forall>g. vspace_owns M r s' g \<longrightarrow> vspace_owns M r s g \<and> unat g \<noteq> unat (gpte_ppn e)"
proof -
  let ?root = "vspace_root r s" and ?f = "gpte_ppn e" and ?i = "va_index virt 0"
  obtain m where m: "get_vspace r s = Inr \<lparr>vs_lock = m, vs_pml4_ppn = ?root\<rparr>" "mutex_idle m"
    "mutex_lock m s = Inr (mutex_taken m s)" "vspaces s r = Some \<lparr>vs_lock = m, vs_pml4_ppn = ?root\<rparr>"
    and ready: "vm_ready M r ?root (set_vs_lock r \<lparr>vs_lock = m, vs_pml4_ppn = ?root\<rparr> (mutex_taken m s) s)"
    using vspace_inv_taken [OF inv] by blast
  have own: "frames_owned M (phys s) ?root (pg_used s)" and pg: "pg_inv s" "pg_total s \<le> 2 ^ 35"
    using inv by (simp_all add: vspace_inv_def)
  have w: "walk (phys s) ?root (vpath virt) = Some ?f" using e by (simp add: walk_vpath vspace_mapping_def)
  obtain t where t: "walk (phys s) ?root (take 3 (vpath virt)) = Some t"
    using e by (auto simp: vspace_mapping_def leaf_of_def split: option.splits)
  have f: "unat ?f \<in> pg_used s" using frames_owned_used [OF own _ w] v by simp
  then have "unat ?f < 2 ^ 35" using pg_used_below [of s] pg(2) by auto
  note nz = ppn_to_virt_not_NULL [OF this]
  define s0 where "s0 = set_vs_lock r \<lparr>vs_lock = m, vs_pml4_ppn = ?root\<rparr> (mutex_taken m s) s"
  define ph' where "ph' = (phys s)(t := (phys s t)(?i := 0))"
  have s0: "phys s0 = phys s" by (simp add: s0_def)
  have "pg_inv (s0\<lparr>phys := ph'\<rparr>)" "unat ?f \<in> pg_used (s0\<lparr>phys := ph'\<rparr>)"
    using pg f by (simp_all add: s0_def)
  from free_page_used [OF this] obtain bmp where
    fr: "free_page ?f (s0\<lparr>phys := ph'\<rparr>) = Inr (s0\<lparr>phys := ph', free_pages := bmp\<rparr>)"
    and bmp: "bmp_inv bmp" "bmp_size bmp = bmp_size (free_pages s)" "bmp_used bmp = pg_used s - {unat ?f}"
    by (auto simp: s0_def set_vs_lock_def pg_used_def)
  define s' where "s' = s\<lparr>phys := ph', free_pages := bmp\<rparr>"
  have "vspace_unmap r virt s = Inr (True, s')"
  proof -
    have "(vspaces s)(r \<mapsto> \<lparr>vs_lock = m, vs_pml4_ppn = ?root\<rparr>) = vspaces s"
      using m(4) by (rule fun_upd_idem)
    moreover have "va_ptble (resolve_vaddr (phys s) ?root virt) = Some (t, ?i)"
      "va_page (resolve_vaddr (phys s) ?root virt) \<noteq> NULL" "va_page_ppn (resolve_vaddr (phys s) ?root virt) = ?f"
      using t w nz by (simp_all add: resolve_vaddr_walk vpath_def del: walk.simps)
    ultimately show ?thesis
      using m resolve_mapping_ready [OF ready] fr
      by (simp add: vspace_unmap_def get_vspace_def set_vs_lock_def gpte_upd_def s0_def s'_def flip: ph'_def)
  qed
  moreover have root': "vspace_root r s' = ?root" by (simp add: s'_def vspace_root_def)
  moreover note main = leaf_remove [OF own v t w ph'_def]
  moreover have "vspace_inv M r s'"
    using inv main bmp m(4) root' by (auto simp: vspace_inv_def s'_def pg_inv_def pg_total_def pg_used_def)
  moreover have "phys s' g = phys s g" if "\<not> is_table M (phys s) ?root g" for g
  proof -
    have "mpath M (take 3 (vpath virt))" using mpath_vpath_prefixes(3) [OF v] by (simp add: vpath_def)
    then have "g \<noteq> t" using that t by (auto simp: is_table_def)
    then show ?thesis by (simp add: s'_def ph'_def)
  qed
  moreover have "\<exists>bmp ph. s' = s\<lparr>free_pages := bmp, phys := ph\<rparr>"
    by (rule exI [of _ bmp], rule exI [of _ ph']) (simp add: s'_def)
  moreover have "vspace_owns M r s g \<and> unat g \<noteq> unat ?f" if "vspace_owns M r s' g" for g
  proof -
    obtain q where q: "mpath M q" "walk ph' ?root q = Some g"
      using \<open>vspace_owns M r s' g\<close> root' by (auto simp: vspace_owns_def s'_def)
    then have "q \<noteq> vpath virt" "walk (phys s) ?root q = Some g" using main by (auto split: if_splits)
    then show ?thesis using frames_owned_inj [OF own q(1) _ _ w] v q(1) by (auto simp: vspace_owns_def simp flip: word_unat_eq_iff)
  qed
  ultimately show ?thesis
    using that [of s'] f bmp by (simp add: vspace_mapping_def s'_def pg_total_def)
qed

section \<open>Properties\<close>

text \<open>A root table with no present entry in the managed part owns itself.\<close>

lemma frames_owned_empty:
  assumes "\<forall>i\<in>M. \<not> gpte_present (ph root i)" and "unat root \<in> used"
  shows "frames_owned M ph root used"
proof -
  have "p = [] \<and> f = root" if "mpath M p" "walk ph root p = Some f" for p f
    using that assms(1) by (cases p) (auto simp: mpath_def split: if_splits)
  then show ?thesis using assms(2) unfolding frames_owned_def by blast
qed

text \<open>The small machine with one empty user address space whose root table is frame 1.\<close>

definition small_vm :: vmstate where
  "small_vm = \<lparr>current_task = 0, tasks = Map.empty,
     free_pages = \<lparr>bmp_size = 64, bmp_bytes = [0xff, 1, 0, 0, 0, 0, 0, 0]\<rparr>,
     free_pages_lock = MUTEX_INITIALIZER, phys = (\<lambda>_ _. 0),
     vspaces = [Vspace 0x1000 \<mapsto> \<lparr>vs_lock = MUTEX_INITIALIZER, vs_pml4_ppn = 1\<rparr>]\<rparr>"

lemma small_vm_pg [simp]:
  "pg_inv small_vm" "pg_total small_vm = 64" "pg_used small_vm = pg_used small_machine"
  using small_machine_inv small_machine_total
  by (simp_all add: small_vm_def small_machine_def pg_inv_def pg_total_def pg_used_def)

lemma small_machine_used: "pg_used small_machine = {..<9}"
proof -
  have b: "bit (0xff :: u8) j" if "j < 8" for j using byte_full [OF that] .
  have o: "bit (1 :: u8) j \<longleftrightarrow> j = 0" for j by (auto simp: bit_simps)
  have z: "[0xff, 1, 0, 0, 0, 0, 0, 0 :: u8] ! j = 0" if "1 < j" "j < 8" for j
    using that by (auto simp: nth_Cons' split: if_splits)
  have "k \<in> pg_used small_machine \<longleftrightarrow> k < 9" for k
  proof -
    consider "k < 8" | "k = 8" | "9 \<le> k" "k < 16" | "16 \<le> k" "k < 64" | "64 \<le> k" by linarith
    then show ?thesis
    proof cases
      case 1
      then show ?thesis using b [of k] by (simp add: pg_used_def small_machine_def bmp_used_def bmp_bit_def)
    next
      case 2
      then show ?thesis by (simp add: pg_used_def small_machine_def bmp_used_def bmp_bit_def)
    next
      case 3
      then have "k div 8 = 1" "k mod 8 \<noteq> 0" by (simp_all add: mod_eq_0_iff_dvd div_nat_eqI) presburger
      then show ?thesis using 3 o by (simp add: pg_used_def small_machine_def bmp_used_def bmp_bit_def)
    next
      case 4
      then have "1 < k div 8" "k div 8 < 8" by (simp_all add: less_mult_imp_div_less)
      then show ?thesis using 4 z [of "k div 8"] by (simp add: pg_used_def small_machine_def bmp_used_def bmp_bit_def)
    next
      case 5
      then show ?thesis by (simp add: pg_used_def small_machine_def bmp_used_def)
    qed
  qed
  then show ?thesis by auto
qed

lemma small_vm_inv: "vspace_inv {..<256} (Vspace 0x1000) small_vm"
  and small_vm_root: "vspace_root (Vspace 0x1000) small_vm = 1"
  and small_vm_owns: "f \<noteq> 1 \<Longrightarrow> \<not> vspace_owns {..<256} (Vspace 0x1000) small_vm f"
proof -
  show root: "vspace_root (Vspace 0x1000) small_vm = 1" by (simp add: vspace_root_def small_vm_def)
  have "frames_owned {..<256} (phys small_vm) 1 (pg_used small_vm)"
    unfolding small_vm_pg(3) by (rule frames_owned_empty) (simp_all add: small_vm_def small_machine_used)
  then show "vspace_inv {..<256} (Vspace 0x1000) small_vm"
    using root by (simp add: vspace_inv_def) (simp add: small_vm_def)
  show "\<not> vspace_owns {..<256} (Vspace 0x1000) small_vm f" if "f \<noteq> 1"
  proof -
    have "walk (phys small_vm) 1 q \<noteq> Some f" for q using that by (cases q) (simp_all add: small_vm_def)
    then show ?thesis by (simp add: vspace_owns_def root)
  qed
qed

text \<open>
  C1: \<^verbatim>\<open>vspace_map\<close> of a page that is not mapped makes a page walk of that page number end at the given
  frame with exactly the requested write, user and execute permissions; a page that is already
  mapped keeps its mapping. Every other page of the region keeps its mapping, the address space
  stays well formed, frames that are no page tables keep their contents, and at most three frames
  are taken for new tables.
\<close>

theorem vspace_map_spec:
  assumes "vspace_inv M r s" and "in_region M virt" and "unat f \<in> pg_used s" and "\<not> vspace_owns M r s f"
    and "card (pg_used s) + 3 \<le> pg_total s"
  shows "\<exists>s'. vspace_map r virt f flags s = Inr s' \<and> vspace_inv M r s' \<and> vspaces s' = vspaces s \<and>
    (\<exists>e. vspace_mapping r s' virt = Some e \<and>
      (if vspace_mapping r s virt = None then
         gpte_ppn e = f \<and> (gpte_write e \<longleftrightarrow> flags AND PG_WRITE \<noteq> 0) \<and>
         (gpte_user e \<longleftrightarrow> flags AND PG_USER \<noteq> 0) \<and> (gpte_no_exec e \<longleftrightarrow> flags AND PG_NOEXEC \<noteq> 0)
       else vspace_mapping r s virt = Some e)) \<and>
    (\<forall>v. in_region M v \<longrightarrow> take_bit 36 v \<noteq> take_bit 36 virt \<longrightarrow>
      vspace_mapping r s' v = vspace_mapping r s v) \<and>
    pg_used s \<subseteq> pg_used s' \<and> card (pg_used s') \<le> card (pg_used s) + 3 \<and>
    (\<forall>g. unat g \<in> pg_used s \<longrightarrow> \<not> is_table M (phys s) (vspace_root r s) g \<longrightarrow> phys s' g = phys s g)"
proof -
  have "take_bit 40 f = f"
    using assms(1,3) pg_used_below [of s] by (intro take_bit_40_frame) (auto simp: vspace_inv_def)
  note fields = leaf_entry_fields [of f flags, unfolded this]
  show ?thesis
  proof (rule vspace_map_ok [OF assms, of flags], goal_cases)
    case (1 s')
    then show ?case unfolding vpath_eq_iff
      by (intro exI [of _ s']) (cases "vspace_mapping r s virt", auto simp: fields)
  qed
qed

text \<open>
  C6: \<^verbatim>\<open>vspace_unmap\<close> reports whether the page was mapped. If it was, its mapping is gone, its frame
  is free again and every other mapping and the contents of frames that are no tables stay; if it
  was not, nothing changes.
\<close>

theorem vspace_unmap_spec:
  assumes "vspace_inv M r s" and "in_region M virt"
  shows "case vspace_mapping r s virt of
      None \<Rightarrow> vspace_unmap r virt s = Inr (False, s)
    | Some e \<Rightarrow> \<exists>s'. vspace_unmap r virt s = Inr (True, s') \<and> vspace_inv M r s' \<and>
        vspaces s' = vspaces s \<and> vspace_mapping r s' virt = None \<and>
        (\<forall>v. in_region M v \<longrightarrow> take_bit 36 v \<noteq> take_bit 36 virt \<longrightarrow>
          vspace_mapping r s' v = vspace_mapping r s v) \<and>
        unat (gpte_ppn e) \<in> pg_used s \<and> pg_used s' = pg_used s - {unat (gpte_ppn e)} \<and>
        (\<forall>g. \<not> is_table M (phys s) (vspace_root r s) g \<longrightarrow> phys s' g = phys s g)"
proof (cases "vspace_mapping r s virt")
  case None
  then show ?thesis using vspace_unmap_absent [OF assms(1)] by simp
next
  case (Some e)
  show ?thesis
  proof (rule vspace_unmap_present [OF assms Some], goal_cases)
    case (1 s')
    then show ?case using Some unfolding vpath_eq_iff by simp
  qed
qed


lemma vspace_map_spec_witness:
  "\<exists>s' e. vspace_map (Vspace 0x1000) 0x400 3 (PG_USER OR PG_WRITE) small_vm = Inr s' \<and>
    vspace_inv {..<256} (Vspace 0x1000) s' \<and> vspace_mapping (Vspace 0x1000) s' 0x400 = Some e \<and>
    gpte_ppn e = 3 \<and> gpte_write e \<and> gpte_user e \<and> \<not> gpte_no_exec e"
proof -
  have r: "in_region {..<256} 0x400" by (simp add: in_region_def va_index_def)
  have n: "vspace_mapping (Vspace 0x1000) small_vm 0x400 = None"
    by (simp add: vspace_mapping_def leaf_of_def small_vm_root vpath_def) (simp add: small_vm_def)
  have f: "(PG_USER OR PG_WRITE) AND PG_WRITE \<noteq> 0" "(PG_USER OR PG_WRITE) AND PG_USER \<noteq> 0"
    "(PG_USER OR PG_WRITE) AND PG_NOEXEC = 0"
    by (simp_all add: PG_USER_def PG_WRITE_def PG_NOEXEC_def BIT_def)
  have "\<exists>s'. vspace_map (Vspace 0x1000) 0x400 3 (PG_USER OR PG_WRITE) small_vm = Inr s' \<and>
    vspace_inv {..<256} (Vspace 0x1000) s' \<and> (\<exists>e. vspace_mapping (Vspace 0x1000) s' 0x400 = Some e \<and>
    gpte_ppn e = 3 \<and> gpte_write e \<and> gpte_user e \<and> \<not> gpte_no_exec e)"
    using vspace_map_spec [OF small_vm_inv r, of 3 "PG_USER OR PG_WRITE"] small_vm_owns [of 3] n f
    by (simp add: small_machine_used) blast
  then show ?thesis by blast
qed

lemma vspace_unmap_spec_witness:
  "\<exists>s s' e. vspace_map (Vspace 0x1000) 0x400 3 0 small_vm = Inr s \<and> vspace_inv {..<256} (Vspace 0x1000) s \<and>
    vspace_mapping (Vspace 0x1000) s 0x400 = Some e \<and> vspace_unmap (Vspace 0x1000) 0x400 s = Inr (True, s') \<and>
    vspace_mapping (Vspace 0x1000) s' 0x400 = None \<and> pg_used s' = pg_used s - {unat (gpte_ppn e)}"
proof -
  have r: "in_region {..<256} 0x400" by (simp add: in_region_def va_index_def)
  have n: "vspace_mapping (Vspace 0x1000) small_vm 0x400 = None"
    by (simp add: vspace_mapping_def leaf_of_def small_vm_root vpath_def) (simp add: small_vm_def)
  have 3: "unat (3 :: u64) \<in> pg_used small_vm" "card (pg_used small_vm) + 3 \<le> pg_total small_vm"
    by (simp_all add: small_machine_used)
  show ?thesis
  proof (rule vspace_map_ok [OF small_vm_inv r 3(1) _ 3(2), of 0], goal_cases)
    case 1
    then show ?case by (rule small_vm_owns) simp
  next
    case (2 s)
    then obtain e where "vspace_mapping (Vspace 0x1000) s 0x400 = Some e" using n by auto
    then show ?case using vspace_unmap_spec [OF 2(2) r] 2(1,2) by auto
  qed
qed

end
