(* ===== verification/Page_Mapper.thy ===== *)
theory Page_Mapper
  imports Vspace
begin

text \<open>
  Mapping fresh pages. The kernel heap, \<^verbatim>\<open>sbrk\<close>, the user stacks, the page fault handler and the ELF
  loader all map pages the same way: a frame from \<^verbatim>\<open>alloc_page\<close> goes to \<^verbatim>\<open>vspace_map\<close>, page by page
  over a range. The locale \<open>page_mapper\<close> is the contract they rely on, with the lemmas on ranges; it
  is interpreted on \<open>map_fresh\<close> and \<open>vspace_unmap\<close> for every address space.
\<close>

text \<open>\<^verbatim>\<open>vspace_map(vspace, page, alloc_page(), flags)\<close>\<close>

definition map_fresh :: "vspace_ref \<Rightarrow> u64 \<Rightarrow> u64 \<Rightarrow> 'a vmstate_scheme \<Rightarrow> 'a vmstate_scheme result" where
  "map_fresh r flags page s =
     rbind (alloc_page s) (\<lambda>(ppn, s). vspace_map r page ppn flags s)"

definition unmap_page :: "vspace_ref \<Rightarrow> u64 \<Rightarrow> 'a vmstate_scheme \<Rightarrow> 'a vmstate_scheme result" where
  "unmap_page r page s = rbind (vspace_unmap r page s) (\<lambda>(_, s). Inr s)"

text \<open>A loop over \<open>n\<close> consecutive page numbers.\<close>

fun for_pages :: "(u64 \<Rightarrow> 's \<Rightarrow> 's result) \<Rightarrow> nat \<Rightarrow> u64 \<Rightarrow> 's \<Rightarrow> 's result" where
  "for_pages f 0 page s = Inr s"
| "for_pages f (Suc n) page s = rbind (f page s) (for_pages f n (page + 1))"

section \<open>The contract\<close>

locale page_mapper =
  fixes map1 :: "u64 \<Rightarrow> 's \<Rightarrow> 's result"
    and unmap1 :: "u64 \<Rightarrow> 's \<Rightarrow> 's result"
    and mapped :: "'s \<Rightarrow> u64 \<Rightarrow> bool"
    and region :: "u64 \<Rightarrow> bool"
    and ok :: "'s \<Rightarrow> bool"
    and free :: "'s \<Rightarrow> nat"
    and same :: "'s \<Rightarrow> 's \<Rightarrow> bool"
    and key :: "u64 \<Rightarrow> u64"
  assumes map1_ok: "ok s \<Longrightarrow> region v \<Longrightarrow> 4 \<le> free s \<Longrightarrow>
      \<exists>s'. map1 v s = Inr s' \<and> ok s' \<and> same s s' \<and> free s \<le> free s' + 4 \<and> mapped s' v \<and>
        (\<forall>w. region w \<longrightarrow> key w \<noteq> key v \<longrightarrow> mapped s' w = mapped s w)"
    and unmap1_ok: "ok s \<Longrightarrow> region v \<Longrightarrow>
      \<exists>s'. unmap1 v s = Inr s' \<and> ok s' \<and> same s s' \<and> free s \<le> free s' \<and> \<not> mapped s' v \<and>
        (\<forall>w. region w \<longrightarrow> key w \<noteq> key v \<longrightarrow> mapped s' w = mapped s w)"
    and mapped_key: "key v = key w \<Longrightarrow> mapped s v = mapped s w"
    and same_refl: "same s s"
    and same_trans: "same s s' \<Longrightarrow> same s' s'' \<Longrightarrow> same s s''"
begin

definition keys :: "nat \<Rightarrow> u64 \<Rightarrow> u64 set" where
  "keys n v = (\<lambda>i. key (v + of_nat i)) ` {..<n}"

lemma keys_Suc: "keys (Suc n) v = insert (key v) (keys n (v + 1))"
proof -
  have "{..<Suc n} = insert 0 (Suc ` {..<n})" by (rule lessThan_Suc_eq_insert_0)
  then show ?thesis by (auto simp: keys_def image_iff add.assoc)
qed

lemma map_range:
  assumes "ok s" and "4 * n \<le> free s" and "\<forall>i<n. region (v + of_nat i)"
  shows "\<exists>s'. for_pages map1 n v s = Inr s' \<and> ok s' \<and> same s s' \<and> free s \<le> free s' + 4 * n \<and>
    (\<forall>w. region w \<longrightarrow> mapped s' w = (mapped s w \<or> key w \<in> keys n v))"
  using assms
proof (induction n arbitrary: v s)
  case 0
  then show ?case by (simp add: same_refl keys_def)
next
  case (Suc n)
  have "region v" using Suc.prems(3) by (elim allE [of _ 0]) simp
  then obtain s1 where s1: "map1 v s = Inr s1" "ok s1" "same s s1" "free s \<le> free s1 + 4" "mapped s1 v"
    "\<forall>w. region w \<longrightarrow> key w \<noteq> key v \<longrightarrow> mapped s1 w = mapped s w"
    using map1_ok [OF Suc.prems(1), of v] Suc.prems(2) by auto
  have reg: "\<forall>i<n. region (v + 1 + of_nat i)"
  proof (intro allI impI)
    fix i assume "i < n"
    then show "region (v + 1 + of_nat i)" using Suc.prems(3) by (elim allE [of _ "Suc i"]) (simp add: add.assoc)
  qed
  obtain s' where s': "for_pages map1 n (v + 1) s1 = Inr s'" "ok s'" "same s1 s'" "free s1 \<le> free s' + 4 * n"
    "\<forall>w. region w \<longrightarrow> mapped s' w = (mapped s1 w \<or> key w \<in> keys n (v + 1))"
    using Suc.IH [OF s1(2) _ reg] Suc.prems(2) s1(4) by auto
  have "mapped s' w = (mapped s w \<or> key w \<in> keys (Suc n) v)" if "region w" for w
    using s'(5) s1(5,6) mapped_key [of w v s1] that by (cases "key w = key v") (auto simp: keys_Suc)
  then show ?case using s' s1 same_trans by (auto simp: keys_Suc)
qed

lemma unmap_range:
  assumes "ok s" and "\<forall>i<n. region (v + of_nat i)"
  shows "\<exists>s'. for_pages unmap1 n v s = Inr s' \<and> ok s' \<and> same s s' \<and> free s \<le> free s' \<and>
    (\<forall>w. region w \<longrightarrow> mapped s' w = (mapped s w \<and> key w \<notin> keys n v))"
  using assms
proof (induction n arbitrary: v s)
  case 0
  then show ?case by (simp add: same_refl keys_def)
next
  case (Suc n)
  have "region v" using Suc.prems(2) by (elim allE [of _ 0]) simp
  then obtain s1 where s1: "unmap1 v s = Inr s1" "ok s1" "same s s1" "free s \<le> free s1" "\<not> mapped s1 v"
    "\<forall>w. region w \<longrightarrow> key w \<noteq> key v \<longrightarrow> mapped s1 w = mapped s w"
    using unmap1_ok [OF Suc.prems(1), of v] by auto
  have reg: "\<forall>i<n. region (v + 1 + of_nat i)"
  proof (intro allI impI)
    fix i assume "i < n"
    then show "region (v + 1 + of_nat i)" using Suc.prems(2) by (elim allE [of _ "Suc i"]) (simp add: add.assoc)
  qed
  obtain s' where s': "for_pages unmap1 n (v + 1) s1 = Inr s'" "ok s'" "same s1 s'" "free s1 \<le> free s'"
    "\<forall>w. region w \<longrightarrow> mapped s' w = (mapped s1 w \<and> key w \<notin> keys n (v + 1))"
    using Suc.IH [OF s1(2) reg] by auto
  have "mapped s' w = (mapped s w \<and> key w \<notin> keys (Suc n) v)" if "region w" for w
    using s'(5) s1(5,6) mapped_key [of w v s1] that by (cases "key w = key v") (auto simp: keys_Suc)
  then show ?case using s' s1 same_trans by (auto simp: keys_Suc)
qed

end

section \<open>The interpretation\<close>

text \<open>A fresh frame is no part of any address space.\<close>

lemma walk_zero_page:
  assumes "frames_owned M ph root used" and "unat f \<notin> used" and "mpath M q"
  shows "walk (ph(f := z)) root q = walk ph root q"
  using assms(3)
proof (induction q rule: rev_induct)
  case (snoc i q)
  have "mpath M q" by (rule mpath_butlast [OF snoc.prems])
  then have "walk ph root q \<noteq> Some f" using frames_owned_used [OF assms(1)] assms(2) by auto
  then show ?case using snoc.IH [OF \<open>mpath M q\<close>] by (auto simp: walk_snoc split: option.splits)
qed simp

lemma leaf_zero_page:
  assumes "frames_owned M ph root used" and "unat f \<notin> used" and "in_region M v"
  shows "leaf_of (ph(f := z)) root v = leaf_of ph root v"
proof -
  have m: "mpath M (take 3 (vpath v))" using mpath_vpath_prefixes(3) [OF assms(3)] by (simp add: vpath_def)
  then have "walk ph root (take 3 (vpath v)) \<noteq> Some f"
    using frames_owned_used [OF assms(1)] assms(2) by auto
  then show ?thesis using walk_zero_page [OF assms(1,2) m] by (auto simp: leaf_of_def split: option.split)
qed

lemma alloc_page_filled:
  assumes inv: "vspace_inv M r s" and space: "card (pg_used s) < pg_total s"
  obtains p s1 s' where "alloc_page s = Inr (p, s1)" and "phys s1 p = (\<lambda>_. 0)" and "s' = s1\<lparr>phys := (phys s1)(p := z)\<rparr>"
    and "vspace_inv M r s'" and "\<not> vspace_owns M r s' p"
    and "unat p \<in> pg_used s'" and "unat p \<notin> pg_used s" and "pg_used s' = insert (unat p) (pg_used s)"
    and "pg_total s' = pg_total s" and "vspaces s' = vspaces s"
    and "\<exists>bmp ph. s' = s\<lparr>free_pages := bmp, phys := ph\<rparr>" and "phys s' = (phys s)(p := z)"
    and "\<forall>v. in_region M v \<longrightarrow> vspace_mapping r s' v = vspace_mapping r s v"
proof -
  have pg: "pg_inv s" and own: "frames_owned M (phys s) (vspace_root r s) (pg_used s)"
    using inv by (simp_all add: vspace_inv_def)
  have "pg_used s \<noteq> {..<pg_total s}" using pg_used_full_card [of s] space by simp
  from alloc_page_free [OF pg this] obtain p bmp where
    a: "alloc_page s = Inr (p, zero_page p (s\<lparr>free_pages := bmp\<rparr>))" and
    b: "bmp_inv bmp" "bmp_size bmp = bmp_size (free_pages s)" "bmp_used bmp = insert (unat p) (pg_used s)"
       "unat p < pg_total s" "unat p \<notin> pg_used s" by metis
  define s1 where "s1 = zero_page p (s\<lparr>free_pages := bmp\<rparr>)"
  define s' where "s' = s1\<lparr>phys := (phys s1)(p := z)\<rparr>"
  have s': "vspace_root r s' = vspace_root r s" "phys s' = (phys s)(p := z)" "vspaces s' = vspaces s"
    "pg_used s' = insert (unat p) (pg_used s)" "pg_total s' = pg_total s" "pg_inv s'"
    using b pg by (simp_all add: s'_def s1_def vspace_root_def zero_page_def pg_total_def pg_inv_def pg_used_def)
  have w: "walk (phys s') (vspace_root r s) q = walk (phys s) (vspace_root r s) q" if "mpath M q" for q
    unfolding s'(2) by (rule walk_zero_page [OF own b(5) that])
  have "frames_owned M (phys s') (vspace_root r s) (pg_used s')"
    using own unfolding frames_owned_def s'(4) by (simp add: w)
  then have "vspace_inv M r s'" using inv s' by (simp add: vspace_inv_def)
  moreover have "\<not> vspace_owns M r s' p"
    using frames_owned_used [OF own] b(5) w by (auto simp: vspace_owns_def s'(1))
  moreover have "\<forall>v. in_region M v \<longrightarrow> vspace_mapping r s' v = vspace_mapping r s v"
    using leaf_zero_page [OF own b(5)] by (simp add: vspace_mapping_def s')
  moreover have "\<exists>bmp ph. s' = s\<lparr>free_pages := bmp, phys := ph\<rparr>"
    by (rule exI [of _ bmp], rule exI [of _ "(phys s)(p := z)"]) (simp add: s'_def s1_def zero_page_def)
  moreover have "phys s1 p = (\<lambda>_. 0)" by (simp add: s1_def)
  ultimately show ?thesis using that [of p s1 s'] a b s' by (simp flip: s1_def) (simp add: s'_def)
qed

definition free_frames :: "'a pgstate_scheme \<Rightarrow> nat" where
  "free_frames s = pg_total s - card (pg_used s)"

lemma free_frames_card: "card (pg_used s) + free_frames s = pg_total s"
  using card_mono [OF _ pg_used_below [of s]] by (simp add: free_frames_def)

definition vm_frame :: "'a vmstate_scheme \<Rightarrow> 'a vmstate_scheme \<Rightarrow> bool" where
  "vm_frame s s' \<longleftrightarrow> (\<exists>bmp ph. s' = s\<lparr>free_pages := bmp, phys := ph\<rparr>)"

lemma vm_frame_refl: "vm_frame s s"
  unfolding vm_frame_def by (rule exI [of _ "free_pages s"], rule exI [of _ "phys s"]) simp

lemma vm_frame_trans: "vm_frame s s' \<Longrightarrow> vm_frame s' s'' \<Longrightarrow> vm_frame s s''"
  unfolding vm_frame_def by (elim exE) (rule exI, rule exI, simp)

text \<open>
  The frame rule of the address spaces: a frame in use that an address space does not own stays
  in use, is not changed and does not become one of its own.
\<close>

definition vm_apart :: "nat set \<Rightarrow> vspace_ref \<Rightarrow> 'a vmstate_scheme \<Rightarrow> 'a vmstate_scheme \<Rightarrow> bool" where
  "vm_apart M r s s' \<longleftrightarrow> pg_total s' = pg_total s \<and>
     (\<forall>f. unat f \<in> pg_used s \<longrightarrow> \<not> vspace_owns M r s f \<longrightarrow>
        unat f \<in> pg_used s' \<and> \<not> vspace_owns M r s' f \<and> phys s' f = phys s f)"

lemma vm_apart_refl: "vm_apart M r s s"
  by (simp add: vm_apart_def)

lemma vm_apart_trans: "vm_apart M r s s' \<Longrightarrow> vm_apart M r s' s'' \<Longrightarrow> vm_apart M r s s''"
  by (simp add: vm_apart_def)

text \<open>A fresh frame, filled with \<open>z\<close>, is mapped.\<close>

lemma map_filled_ok:
  assumes inv: "vspace_inv M r s" and v: "in_region M virt" and space: "4 \<le> free_frames s"
  obtains s1 s' p where "alloc_page s = Inr (p, s1)" and "vspace_map r virt p flags (s1\<lparr>phys := (phys s1)(p := z)\<rparr>) = Inr s'"
    and "phys s1 p = (\<lambda>_. 0)" and "vspace_inv M r s'" and "vm_frame s s'"
    and "free_frames s \<le> free_frames s' + 4"
    and "if vspace_mapping r s virt = None then \<exists>e. vspace_mapping r s' virt = Some (leaf_entry p flags e)
      else vspace_mapping r s' virt = vspace_mapping r s virt"
    and "unat p \<notin> pg_used s" and "unat p < 2 ^ 35"
    and "\<forall>v. in_region M v \<longrightarrow> vpath v \<noteq> vpath virt \<longrightarrow> vspace_mapping r s' v = vspace_mapping r s v"
    and "pg_used s \<subseteq> pg_used s'" and "pg_total s' = pg_total s"
    and "\<forall>g. unat g \<in> pg_used s \<longrightarrow> \<not> is_table M (phys s) (vspace_root r s) g \<longrightarrow> phys s' g = phys s g"
    and "phys s' p = z" and "vm_apart M r s s'"
proof (rule alloc_page_filled [where z = z, OF inv], goal_cases)
  case 1
  then show ?case using space free_frames_card [of s] by linarith
next
  case (2 p s0 s1)
  note a0 = 2(2,3,4)
  note a = a0(1) 2(5-)
  have own: "frames_owned M (phys s) (vspace_root r s) (pg_used s)" using inv by (simp add: vspace_inv_def)
  have fin: "finite (pg_used s)" by (rule finite_pg_used)
  have c1: "card (pg_used s1) = Suc (card (pg_used s))" using a(5,6) fin by simp
  have root: "vspace_root r s1 = vspace_root r s" using a(8) by (simp add: vspace_root_def)
  have tab: "is_table M (phys s1) (vspace_root r s) g = is_table M (phys s) (vspace_root r s) g" for g
    using walk_zero_page [OF own a(5)] by (auto simp: is_table_def a(10))
  have sp1: "card (pg_used s1) + 3 \<le> pg_total s1"
    using c1 a(7) space free_frames_card [of s] by linarith
  show ?case
  proof (rule vspace_map_ok [OF a(2) v a(4,3) sp1, of flags], goal_cases)
    case (1 s')
    have fr: "vm_frame s s'"
      using a(9) 1(4) unfolding vm_frame_def by (elim exE) (rule exI, rule exI, simp)
    have ff: "free_frames s \<le> free_frames s' + 4"
      using 1(8,9) a(7) c1 free_frames_card [of s] free_frames_card [of s'] by linarith
    have mp: "if vspace_mapping r s virt = None then \<exists>e. vspace_mapping r s' virt = Some (leaf_entry p flags e)
      else vspace_mapping r s' virt = vspace_mapping r s virt"
      using 1(5) a(11) v by (auto split: option.splits)
    have data: "\<forall>g. unat g \<in> pg_used s \<longrightarrow> \<not> is_table M (phys s) (vspace_root r s) g \<longrightarrow> phys s' g = phys s g"
      using 1(10) a(5,6,10) root tab by auto
    have "\<not> is_table M (phys s1) (vspace_root r s1) p" using a(3) by (auto simp: is_table_def vspace_owns_def)
    then have "phys s' p = z" using 1(10) a(4,10) by simp
    moreover have "unat p < 2 ^ 35" using a(4) pg_used_below [of s1] a(2) by (auto simp: vspace_inv_def)
    moreover have "vm_apart M r s s'"
      unfolding vm_apart_def
    proof (rule conjI [rotated], intro allI impI)
      fix g assume g: "unat g \<in> pg_used s" "\<not> vspace_owns M r s g"
      have nt: "\<not> is_table M (phys s) (vspace_root r s) g" using g(2) by (auto simp: is_table_def vspace_owns_def)
      have "\<not> vspace_owns M r s1 g"
        using g(2) walk_zero_page [OF own a(5)] by (auto simp: vspace_owns_def a(10) root)
      moreover have "g \<noteq> p" "unat g \<in> pg_used s1" using g(1) a(5,6) by auto
      ultimately show "unat g \<in> pg_used s' \<and> \<not> vspace_owns M r s' g \<and> phys s' g = phys s g"
        using 1(7,11) data g(1) nt by blast
    qed (use 1(8) a(7) in simp)
    ultimately show ?case
      using that [OF a0(1) _ a0(2), of s'] 1 a a0(3) fr ff mp data by (simp add: subset_insertI2)
  qed
qed

lemma map_fresh_ok:
  assumes inv: "vspace_inv M r s" and v: "in_region M virt" and space: "4 \<le> free_frames s"
  obtains s' p where "map_fresh r flags virt s = Inr s'" and "vspace_inv M r s'" and "vm_frame s s'"
    and "free_frames s \<le> free_frames s' + 4"
    and "if vspace_mapping r s virt = None then \<exists>e. vspace_mapping r s' virt = Some (leaf_entry p flags e)
      else vspace_mapping r s' virt = vspace_mapping r s virt"
    and "unat p \<notin> pg_used s" and "unat p < 2 ^ 35"
    and "\<forall>v. in_region M v \<longrightarrow> vpath v \<noteq> vpath virt \<longrightarrow> vspace_mapping r s' v = vspace_mapping r s v"
    and "pg_used s \<subseteq> pg_used s'" and "pg_total s' = pg_total s"
    and "\<forall>g. unat g \<in> pg_used s \<longrightarrow> \<not> is_table M (phys s) (vspace_root r s) g \<longrightarrow> phys s' g = phys s g"
    and "\<forall>i. phys s' p i = 0" and "vm_apart M r s s'"
proof (rule map_filled_ok [where flags = flags and z = "\<lambda>_. 0", OF assms], goal_cases)
  case (1 s1 s' p)
  note F = 1(2-)
  have "s1\<lparr>phys := (phys s1)(p := (\<lambda>_. 0))\<rparr> = s1" using F(3) by (simp add: fun_upd_idem)
  then have "map_fresh r flags virt s = Inr s'" using F(1,2) by (simp add: map_fresh_def)
  then show ?case using that [of s' p] F by simp
qed

lemma unmap_page_ok:
  assumes inv: "vspace_inv M r s" and v: "in_region M virt"
  obtains s' where "unmap_page r virt s = Inr s'" and "vspace_inv M r s'" and "vm_frame s s'"
    and "free_frames s \<le> free_frames s'" and "vspace_mapping r s' virt = None"
    and "\<forall>v. in_region M v \<longrightarrow> vpath v \<noteq> vpath virt \<longrightarrow> vspace_mapping r s' v = vspace_mapping r s v"
    and "vm_apart M r s s'"
proof (cases "vspace_mapping r s virt")
  case None
  show ?thesis
    using that [of s] None inv vspace_unmap_absent [OF inv None] by (simp add: unmap_page_def vm_frame_refl vm_apart_refl)
next
  case (Some e)
  show ?thesis
  proof (rule vspace_unmap_present [OF inv v Some], goal_cases)
    case (1 s')
    then have "card (pg_used s') \<le> card (pg_used s)" by (simp add: card_Diff_subset finite_pg_used)
    then have "free_frames s \<le> free_frames s'"
      using 1(9) free_frames_card [of s] free_frames_card [of s'] by linarith
    moreover have "vm_apart M r s s'"
      unfolding vm_apart_def
    proof (rule conjI [rotated], intro allI impI)
      fix g assume g: "unat g \<in> pg_used s" "\<not> vspace_owns M r s g"
      have "\<not> is_table M (phys s) (vspace_root r s) g" using g(2) by (auto simp: is_table_def vspace_owns_def)
      moreover have "vspace_owns M r s (gpte_ppn e)"
        using Some v unfolding vspace_owns_def by (intro exI [of _ "vpath virt"]) (simp add: walk_vpath vspace_mapping_def)
      then have "g \<noteq> gpte_ppn e" using g(2) by blast
      ultimately show "unat g \<in> pg_used s' \<and> \<not> vspace_owns M r s' g \<and> phys s' g = phys s g"
        using 1(7,10,11) g by (auto simp: word_unat_eq_iff)
    qed (use 1(9) in simp)
    ultimately show ?case using that [of s'] 1 by (simp add: unmap_page_def vm_frame_def)
  qed
qed

interpretation vm: page_mapper "map_fresh r flags" "unmap_page r" "\<lambda>s v. vspace_mapping r s v \<noteq> None"
  "in_region M" "vspace_inv M r" free_frames "\<lambda>s s'. vm_frame s s' \<and> vm_apart M r s s'" "take_bit 36"
  for r :: vspace_ref and flags :: u64 and M :: "nat set"
proof (unfold_locales, goal_cases)
  case (1 s v)
  show ?case
  proof (rule map_fresh_ok [OF 1, of flags], goal_cases)
    case (1 s' p)
    then show ?case unfolding vpath_eq_iff by (auto split: if_splits)
  qed
next
  case (2 s v)
  show ?case
  proof (rule unmap_page_ok [OF 2], goal_cases)
    case (1 s')
    then show ?case unfolding vpath_eq_iff by auto
  qed
next
  case (3 v w s)
  then have "vpath v = vpath w" by (simp add: vpath_eq_iff)
  then show ?case by (simp add: vspace_mapping_def leaf_of_def vpath_def)
next
  case (4 s)
  show ?case using vm_apart_refl vm_frame_refl by blast
next
  case (5 s s' s'')
  then show ?case using vm_apart_trans vm_frame_trans by blast
qed

section \<open>Other address spaces\<close>

text \<open>
  Work on one address space leaves every other one alone that shares no frame with it: its tables
  and pages are in use and not owned by the first.
\<close>

definition vspace_disjoint :: "nat set \<Rightarrow> vspace_ref \<Rightarrow> nat set \<Rightarrow> vspace_ref \<Rightarrow> 'a vmstate_scheme \<Rightarrow> bool" where
  "vspace_disjoint M r M' r' s \<longleftrightarrow> (\<forall>f. vspace_owns M r s f \<longrightarrow> \<not> vspace_owns M' r' s f)"

lemma walk_apart:
  assumes own: "frames_owned M' (phys s) root (pg_used s)" and apart: "vm_apart M r s s'"
    and disj: "\<And>q f. mpath M' q \<Longrightarrow> walk (phys s) root q = Some f \<Longrightarrow> \<not> vspace_owns M r s f" and q: "mpath M' q"
  shows "walk (phys s') root q = walk (phys s) root q"
  using q
proof (induction q rule: rev_induct)
  case (snoc i q)
  have m: "mpath M' q" by (rule mpath_butlast [OF snoc.prems])
  show ?case
  proof (cases "walk (phys s) root q")
    case (Some t)
    then have "phys s' t = phys s t"
      using apart frames_owned_used [OF own m Some] disj [OF m Some] by (simp add: vm_apart_def)
    then show ?thesis using snoc.IH [OF m] Some by (simp add: walk_snoc)
  qed (use snoc.IH [OF m] in \<open>simp add: walk_snoc\<close>)
qed simp

lemma vspace_apart:
  assumes inv: "vspace_inv M' r' s" and apart: "vm_apart M r s s'" and disj: "vspace_disjoint M' r' M r s"
    and frame: "vspaces s' r' = vspaces s r'" "pg_inv s'"
  shows "vspace_inv M' r' s'" and "vspace_disjoint M' r' M r s'"
    and "in_region M' v \<Longrightarrow> vspace_mapping r' s' v = vspace_mapping r' s v"
    and "vspace_owns M' r' s' f = vspace_owns M' r' s f"
proof -
  let ?root = "vspace_root r' s"
  have own: "frames_owned M' (phys s) ?root (pg_used s)" using inv by (simp add: vspace_inv_def)
  have root: "vspace_root r' s' = ?root" using frame(1) by (simp add: vspace_root_def)
  have d: "\<not> vspace_owns M r s f" if "mpath M' q" "walk (phys s) ?root q = Some f" for q f
    using disj that by (auto simp: vspace_disjoint_def vspace_owns_def)
  have w: "walk (phys s') ?root q = walk (phys s) ?root q" if "mpath M' q" for q
    by (rule walk_apart [OF own apart _ that]) (rule d)
  have used: "unat f \<in> pg_used s'" if "mpath M' q" "walk (phys s) ?root q = Some f" for q f
    using apart frames_owned_used [OF own that] d [OF that] by (simp add: vm_apart_def)
  have "frames_owned M' (phys s') ?root (pg_used s')"
    using own used unfolding frames_owned_def by (simp add: w)
  then show "vspace_inv M' r' s'" using inv frame root apart by (simp add: vspace_inv_def vm_apart_def)
  show o: "vspace_owns M' r' s' f = vspace_owns M' r' s f" for f using w by (auto simp: vspace_owns_def root)
  show "vspace_disjoint M' r' M r s'"
    unfolding vspace_disjoint_def o
  proof (intro allI impI)
    fix f assume f: "vspace_owns M' r' s f"
    then have "unat f \<in> pg_used s" using frames_owned_used [OF own] by (auto simp: vspace_owns_def)
    moreover have "\<not> vspace_owns M r s f" using disj f by (simp add: vspace_disjoint_def)
    ultimately show "\<not> vspace_owns M r s' f" using apart by (simp add: vm_apart_def)
  qed
  assume v: "in_region M' v"
  have m: "mpath M' (take 3 (vpath v))" using mpath_vpath_prefixes(3) [OF v] by (simp add: vpath_def)
  have "phys s' t = phys s t" if "walk (phys s) ?root (take 3 (vpath v)) = Some t" for t
    using apart frames_owned_used [OF own m that] d [OF m that] by (simp add: vm_apart_def)
  then show "vspace_mapping r' s' v = vspace_mapping r' s v"
    using w [OF m] by (auto simp: vspace_mapping_def leaf_of_def root split: option.split)
qed

end
