(* ===== verification/Kheap.thy ===== *)
theory Kheap
  imports Page_Mapper
begin

text \<open>
  The kernel heap, \<^verbatim>\<open>mm/heap.c\<close>: a doubly linked chain of blocks between \<^verbatim>\<open>KHEAP_START\<close> and the heap
  break, each with a header in front of its payload. The headers in memory are the finite map
  \<open>hblocks\<close> from their addresses; payloads are not modelled, so what a client writes stays inside
  its own block. The chain is related to an abstract list of blocks, on which first-fit
  allocation, coalescing and shrinking are stated.
\<close>

record hblock_t =
  hb_available :: u32
  hb_magic :: u32
  hb_prev :: u64
  hb_next :: u64
  hb_function :: u64
  hb_line :: u32
  hb_size :: u64

definition HEAP_MAGIC :: u32 where "HEAP_MAGIC = 0xabcdefab"

text \<open>The size of the packed structure with the two fields of the \<^verbatim>\<open>DEBUG\<close> build.\<close>

definition HEADER_SIZE :: u64 where "HEADER_SIZE = 44"

definition KHEAP_START :: u64 where "KHEAP_START = 0xffffe00000000000"

record hstate = vmstate +
  kheap_start :: u64
  kheap_break :: u64
  heap_start :: u64
  heap_last :: u64
  kheap_mutex :: mutex_t
  hblocks :: "u64 \<rightharpoonup> hblock_t"

definition hb_get :: "u64 \<Rightarrow> 'a hstate_scheme \<Rightarrow> hblock_t result" where
  "hb_get a s = (case hblocks s a of None \<Rightarrow> Inl (Mem_Fault ''hblock_t'') | Some h \<Rightarrow> Inr h)"

definition hb_upd :: "u64 \<Rightarrow> (hblock_t \<Rightarrow> hblock_t) \<Rightarrow> 'a hstate_scheme \<Rightarrow> 'a hstate_scheme result" where
  "hb_upd a f s = rbind (hb_get a s) (\<lambda>h. Inr (s\<lparr>hblocks := (hblocks s)(a \<mapsto> f h)\<rparr>))"

text \<open>Stores through a pointer to memory that holds no header yet: the other fields are what was there.\<close>

definition hb_blank :: hblock_t where
  "hb_blank = \<lparr>hb_available = 0, hb_magic = 0, hb_prev = 0, hb_next = 0, hb_function = 0, hb_line = 0,
     hb_size = 0\<rparr>"

definition hb_write :: "u64 \<Rightarrow> (hblock_t \<Rightarrow> hblock_t) \<Rightarrow> 'a hstate_scheme \<Rightarrow> 'a hstate_scheme" where
  "hb_write a f s = s\<lparr>hblocks := (hblocks s)(a \<mapsto>
     f (case hblocks s a of None \<Rightarrow> hb_blank | Some h \<Rightarrow> h))\<rparr>"

text \<open>
  \<^verbatim>\<open>kbrk\<close>. The page loops run over \<open>last + 1 - first\<close> pages; the page numbers are quotients by the page
  size, so \<^verbatim>\<open>page <= last\<close> ends.
\<close>

definition kbrk :: "u64 \<Rightarrow> 'a hstate_scheme \<Rightarrow> (u64 \<times> 'a hstate_scheme) result" where
  "kbrk increment s =
     (let orig_brk = kheap_break s;
          s = s\<lparr>kheap_break := kheap_break s + increment\<rparr> in
      if orig_brk > kheap_break s then
        let first_unmap = kheap_break s div PAGE_SIZE;
            first_unmap = (if kheap_break s mod PAGE_SIZE \<noteq> 0 then first_unmap + 1 else first_unmap);
            last_unmap = orig_brk div PAGE_SIZE in
        rbind (for_pages (unmap_page VSPACE_KERNEL) (unat last_unmap + 1 - unat first_unmap) first_unmap s)
          (\<lambda>s. Inr (orig_brk, s))
      else
        let first_map = orig_brk div PAGE_SIZE;
            first_map = (if orig_brk mod PAGE_SIZE \<noteq> 0 then first_map + 1 else first_map);
            last_map = kheap_break s div PAGE_SIZE in
        rbind (for_pages (map_fresh VSPACE_KERNEL (PG_NOEXEC OR PG_WRITE))
            (unat last_map + 1 - unat first_map) first_map s)
          (\<lambda>s. Inr (orig_brk, s)))"

definition crop :: "u64 \<Rightarrow> u64 \<Rightarrow> 'a hstate_scheme \<Rightarrow> 'a hstate_scheme result" where
  "crop block new_size s =
     rbind (hb_get block s) (\<lambda>h.
     let excess_size = hb_size h - new_size in
     if excess_size \<le> HEADER_SIZE then Inr s
     else
       let original_next = hb_next h; next = block + new_size in
       rbind (hb_upd block (\<lambda>h. h\<lparr>hb_size := new_size, hb_next := next\<rparr>) s) (\<lambda>s.
       let s = hb_write next (\<lambda>h. h\<lparr>hb_available := 1, hb_magic := HEAP_MAGIC, hb_prev := block,
                 hb_next := original_next, hb_size := excess_size\<rparr>) s in
       if original_next \<noteq> NULL then hb_upd original_next (\<lambda>h. h\<lparr>hb_prev := next\<rparr>) s
       else Inr (s\<lparr>heap_last := next\<rparr>)))"

text \<open>
  The search loop of \<^verbatim>\<open>_kmalloc\<close>: the first available block that is large enough. There are
  \<open>2 ^ 64\<close> addresses, so a chain that is followed further than that never ends.
\<close>

fun find_fit :: "nat \<Rightarrow> u64 \<Rightarrow> u64 \<Rightarrow> 'a hstate_scheme \<Rightarrow> u64 option result" where
  "find_fit 0 required_size entry s = Inl Diverges"
| "find_fit (Suc n) required_size entry s =
     (if entry = NULL then Inr None
      else
        rbind (hb_get entry s) (\<lambda>h.
        rbind (kpanic (hb_magic h = HEAP_MAGIC) ''kheap: heap corruption detected'') (\<lambda>_.
        if hb_available h \<noteq> 0 \<and> hb_size h \<ge> required_size then Inr (Some entry)
        else find_fit n required_size (hb_next h) s)))"

abbreviation pointer_fuel :: nat where
  "pointer_fuel \<equiv> 18446744073709551617"

definition kmalloc :: "u64 \<Rightarrow> u32 \<Rightarrow> u64 \<Rightarrow> 'a hstate_scheme \<Rightarrow> (u64 \<times> 'a hstate_scheme) result" where
  "kmalloc sz line function s =
     rbind (mutex_lock (kheap_mutex s) s) (\<lambda>m.
     let s = s\<lparr>kheap_mutex := m\<rparr>; required_size = HEADER_SIZE + sz in
     rbind (find_fit pointer_fuel required_size (heap_start s) s) (\<lambda>found.
     case found of
       Some entry \<Rightarrow>
         rbind (hb_upd entry (\<lambda>h. h\<lparr>hb_available := 0, hb_function := function, hb_line := line\<rparr>) s) (\<lambda>s.
         rbind (crop entry required_size s) (\<lambda>s.
         rbind (mutex_unlock (kheap_mutex s) s) (\<lambda>(m, s).
           Inr (entry + HEADER_SIZE, s\<lparr>kheap_mutex := m\<rparr>))))
     | None \<Rightarrow>
         rbind (kbrk (sz + HEADER_SIZE) s) (\<lambda>(blk, s).
         if blk = - 1 then
           rbind (mutex_unlock (kheap_mutex s) s) (\<lambda>(m, s). Inr (NULL, s\<lparr>kheap_mutex := m\<rparr>))
         else
           let s = hb_write blk (\<lambda>h. h\<lparr>hb_available := 0, hb_magic := HEAP_MAGIC, hb_next := NULL,
                     hb_prev := heap_last s, hb_size := HEADER_SIZE + sz, hb_function := function,
                     hb_line := line\<rparr>) s in
           rbind (if heap_last s \<noteq> NULL then hb_upd (heap_last s) (\<lambda>h. h\<lparr>hb_next := blk\<rparr>) s else Inr s) (\<lambda>s.
           let s = s\<lparr>heap_last := blk\<rparr>;
               s = (if heap_start s = NULL then s\<lparr>heap_start := blk\<rparr> else s) in
           rbind (mutex_unlock (kheap_mutex s) s) (\<lambda>(m, s).
             Inr (blk + HEADER_SIZE, s\<lparr>kheap_mutex := m\<rparr>))))))"

definition merge_blocks :: "u64 \<Rightarrow> u64 \<Rightarrow> 'a hstate_scheme \<Rightarrow> 'a hstate_scheme result" where
  "merge_blocks first second s =
     rbind (hb_get first s) (\<lambda>h1.
     rbind (hb_get second s) (\<lambda>h2.
     rbind (kpanic (hb_magic h1 = HEAP_MAGIC \<and> hb_magic h2 = HEAP_MAGIC) ''kheap: heap corruption detected'') (\<lambda>_.
     rbind (hb_upd first (\<lambda>h. h\<lparr>hb_size := hb_size h + hb_size h2, hb_next := hb_next h2\<rparr>) s) (\<lambda>s.
     rbind (if hb_next h2 \<noteq> NULL then hb_upd (hb_next h2) (\<lambda>h. h\<lparr>hb_prev := first\<rparr>) s
            else Inr (s\<lparr>heap_last := first\<rparr>)) (\<lambda>s.
     hb_upd second (\<lambda>h. h\<lparr>hb_magic := 0\<rparr>) s)))))"

text \<open>\<^verbatim>\<open>block != NULL && block->available\<close>\<close>

definition hb_is_free :: "u64 \<Rightarrow> 'a hstate_scheme \<Rightarrow> bool result" where
  "hb_is_free a s = (if a = NULL then Inr False else rbind (hb_get a s) (\<lambda>h. Inr (hb_available h \<noteq> 0)))"

text \<open>The loop at the end of \<^verbatim>\<open>kfree\<close> that gives memory at the end of the heap back.\<close>

fun shrink_heap :: "nat \<Rightarrow> 'a hstate_scheme \<Rightarrow> 'a hstate_scheme result" where
  "shrink_heap 0 s = Inl Diverges"
| "shrink_heap (Suc n) s =
     rbind (hb_is_free (heap_last s) s) (\<lambda>b.
     if \<not> b then Inr s
     else
       rbind (hb_upd (heap_last s) (\<lambda>h. h\<lparr>hb_magic := 0\<rparr>) s) (\<lambda>s.
       rbind (hb_get (heap_last s) s) (\<lambda>h.
       let decrement = hb_size h in
       rbind (if hb_prev h \<noteq> NULL then
                rbind (hb_upd (hb_prev h) (\<lambda>h. h\<lparr>hb_next := NULL\<rparr>) s) (\<lambda>s. Inr (s\<lparr>heap_last := hb_prev h\<rparr>))
              else Inr (s\<lparr>heap_start := NULL, heap_last := NULL\<rparr>)) (\<lambda>s.
       rbind (kbrk (- decrement) s) (\<lambda>(_, s). shrink_heap n s)))))"

definition kfree :: "u64 \<Rightarrow> 'a hstate_scheme \<Rightarrow> 'a hstate_scheme result" where
  "kfree ptr s =
     (if ptr = NULL then Inr s
      else
        rbind (kpanic (\<not> (heap_last s = NULL \<or> heap_start s = NULL \<or> ptr < heap_start s \<or>
                 ptr > heap_last s + HEADER_SIZE)) ''kheap: heap corruption detected'') (\<lambda>_.
        rbind (mutex_lock (kheap_mutex s) s) (\<lambda>m.
        let s = s\<lparr>kheap_mutex := m\<rparr>; tofree = ptr - HEADER_SIZE in
        rbind (hb_get tofree s) (\<lambda>h.
        rbind (kpanic (\<not> (hb_magic h \<noteq> HEAP_MAGIC \<or> hb_available h \<noteq> 0)) ''kheap: heap corruption detected'') (\<lambda>_.
        rbind (hb_upd tofree (\<lambda>h. h\<lparr>hb_available := 1\<rparr>) s) (\<lambda>s.
        rbind (hb_is_free (hb_next h) s) (\<lambda>b.
        rbind (if b then merge_blocks tofree (hb_next h) s else Inr s) (\<lambda>s.
        rbind (hb_is_free (hb_prev h) s) (\<lambda>b.
        rbind (if b then merge_blocks (hb_prev h) tofree s else Inr s) (\<lambda>s.
        rbind (shrink_heap pointer_fuel s) (\<lambda>s.
        rbind (mutex_unlock (kheap_mutex s) s) (\<lambda>(m, s).
          Inr (s\<lparr>kheap_mutex := m\<rparr>)))))))))))))"

text \<open>\<^verbatim>\<open>_kheap_check_corrupt\<close> walks from \<^verbatim>\<open>kheap_start_\<close>.\<close>

fun kheap_check_from :: "nat \<Rightarrow> string \<Rightarrow> u64 \<Rightarrow> 'a hstate_scheme \<Rightarrow> unit result" where
  "kheap_check_from 0 msg entry s = Inl Diverges"
| "kheap_check_from (Suc n) msg entry s =
     (if entry = NULL then Inr ()
      else rbind (hb_get entry s) (\<lambda>h.
           rbind (kpanic (hb_magic h = HEAP_MAGIC) msg) (\<lambda>_.
           kheap_check_from n msg (hb_next h) s)))"

definition kheap_check_corrupt :: "'a hstate_scheme \<Rightarrow> unit result" where
  "kheap_check_corrupt s = kheap_check_from pointer_fuel ''heap corruption detected'' (kheap_start s) s"

definition kheap_print :: "'a hstate_scheme \<Rightarrow> 'a hstate_scheme result" where
  "kheap_print s =
     rbind (mutex_lock (kheap_mutex s) s) (\<lambda>m.
     let s = s\<lparr>kheap_mutex := m\<rparr> in
     rbind (kheap_check_from pointer_fuel ''kheap: heap corruption detected'' (heap_start s) s) (\<lambda>_.
     rbind (mutex_unlock (kheap_mutex s) s) (\<lambda>(m, s). Inr (s\<lparr>kheap_mutex := m\<rparr>))))"

section \<open>The heap break\<close>

text \<open>The entries of the kernel's root table that cover the heap, from \<^verbatim>\<open>KHEAP_START\<close> to the top.\<close>

definition heap_slots :: "nat set" where
  "heap_slots = {448..<512}"

abbreviation heap_base :: nat where
  "heap_base \<equiv> 0xffffe00000000000"

definition heap_pages_mapped :: "'a hstate_scheme \<Rightarrow> bool" where
  "heap_pages_mapped s \<longleftrightarrow>
     (\<forall>p. heap_base div 4096 \<le> p \<longrightarrow> p * 4096 < unat (kheap_break s) \<longrightarrow>
        vspace_mapping VSPACE_KERNEL s (of_nat p) \<noteq> None)"

lemma vm_frame_heap:
  assumes "vm_frame s s'"
  shows "kheap_break s' = kheap_break s" "heap_start s' = heap_start s" "heap_last s' = heap_last s"
    "hblocks s' = hblocks s" "kheap_mutex s' = kheap_mutex s" "kheap_start s' = kheap_start s"
    "current_task s' = current_task s" "tasks s' = tasks s" "vspaces s' = vspaces s"
    "hstate.more s' = hstate.more s"
  using assms by (auto simp: vm_frame_def)

lemma in_heap_slots:
  assumes "heap_base div 4096 \<le> p" and "p < 2 ^ 52"
  shows "in_region heap_slots (of_nat p)"
proof -
  have u: "unat (of_nat p :: u64) = p" using assms(2) by (intro unat_of_nat_small) simp
  have m: "(0x1ff :: u64) = mask 9" by (simp add: mask_eq_exp_minus_1)
  have "va_index (of_nat p) 3 = take_bit 9 (p div 134217728)"
    by (simp add: va_index_def m u unsigned_take_bit_eq drop_bit_eq_div unat_div_word flip: take_bit_eq_mask)
  moreover obtain d where "p div 134217728 = 33553920 + d" "d < 512" "448 \<le> d"
    using assms by (intro that [of "p div 134217728 - 33553920"]) auto
  moreover have "(33553920 + d) mod 512 = d" if "d < 512" for d :: nat
    using that mod_mult_self4 [of 512 65535 d] by simp
  ultimately show ?thesis by (simp add: in_region_def heap_slots_def take_bit_nat_def)
qed

lemma vm_apart_update [simp]:
  "vm_apart M r (s\<lparr>kheap_break := x\<rparr>) s' = vm_apart M r s s'"
  "vm_apart M r (s\<lparr>kheap_mutex := m\<rparr>) s' = vm_apart M r s s'"
  "vm_apart M r s (s'\<lparr>kheap_mutex := m\<rparr>) = vm_apart M r s s'"
  by (simp_all add: vm_apart_def vspace_owns_def vspace_root_def pg_used_def pg_total_def)

lemma vm_update_break [simp]:
  "vspace_inv M r (s\<lparr>kheap_break := x\<rparr>) = vspace_inv M r s"
  "free_frames (s\<lparr>kheap_break := x\<rparr>) = free_frames s"
  "vspace_mapping r (s\<lparr>kheap_break := x\<rparr>) = vspace_mapping r s"
  by (simp_all add: vspace_inv_def free_frames_def vspace_mapping_def vspace_root_def pg_inv_def pg_used_def
    pg_total_def fun_eq_iff)

text \<open>Page numbers in the heap differ as soon as they differ in the bits the page walk looks at.\<close>

lemma heap_page_key:
  assumes "heap_base div 4096 \<le> p" "p < 2 ^ 52" "heap_base div 4096 \<le> q" "q < 2 ^ 52"
  shows "take_bit 36 (of_nat p :: u64) = take_bit 36 (of_nat q) \<longleftrightarrow> p = q"
proof -
  have "unat (take_bit 36 (of_nat r :: u64)) = r - (2 ^ 52 - 2 ^ 36)" if "heap_base div 4096 \<le> r" "r < 2 ^ 52" for r
  proof -
    define d where "d = r - 4503530907893760"
    have d: "r = 4503530907893760 + d" "d < 68719476736" using that by (simp_all add: d_def)
    have "unat (take_bit 36 (of_nat r :: u64)) = r mod 68719476736"
      using that(2) by (simp add: unsigned_take_bit_eq take_bit_nat_def unat_of_nat_small)
    also have "\<dots> = (65535 * 68719476736 + d) mod 68719476736" by (simp add: d(1))
    also have "\<dots> = d mod 68719476736" by (rule mod_mult_self3)
    also have "\<dots> = d" using d(2) by (rule mod_less)
    finally show ?thesis by (simp add: d_def)
  qed
  then show ?thesis using assms by (auto simp: word_unat_eq_iff)
qed

lemma page_div_bound: "unat (x :: u64) div 4096 < 2 ^ 52"
  using unat_lt_2p64 [of x] by (simp add: less_mult_imp_div_less)

lemma unat_first_page:
  "unat (if x mod PAGE_SIZE \<noteq> 0 then x div PAGE_SIZE + 1 else x div PAGE_SIZE) = (unat x + 4095) div 4096"
proof -
  have m: "x mod PAGE_SIZE = 0 \<longleftrightarrow> unat x mod 4096 = 0"
    by (simp add: PAGE_SIZE_def unat_mod_word flip: unat_eq_0)
  have d: "unat (x div PAGE_SIZE) = unat x div 4096" by (simp add: PAGE_SIZE_def unat_div_word)
  then have "unat (x div PAGE_SIZE + 1) = unat x div 4096 + 1"
    using page_div_bound [of x] by (subst unat_add_no_wrap) simp_all
  moreover have "(n + 4095) div 4096 = (if n mod 4096 = 0 then n div 4096 else n div 4096 + 1)" for n :: nat
  proof -
    have "n = 4096 * (n div 4096) + n mod 4096" by simp
    moreover have "(4096 * q + r + 4095) div 4096 = (if r = 0 then q else q + 1)" if "r < 4096" for q r :: nat
      using that by (auto simp: div_nat_eqI)
    ultimately show ?thesis by (metis mod_less_divisor zero_less_numeral)
  qed
  ultimately show ?thesis using m d by simp
qed

lemma heap_keys:
  assumes "heap_base div 4096 \<le> p" "p + n \<le> 2 ^ 52" "heap_base div 4096 \<le> q" "q < 2 ^ 52"
  shows "take_bit 36 (of_nat q :: u64) \<in> vm.keys n (of_nat p) \<longleftrightarrow> p \<le> q \<and> q < p + n"
proof -
  have "take_bit 36 (of_nat q :: u64) = take_bit 36 (of_nat p + of_nat i) \<longleftrightarrow> q = p + i" if "i < n" for i
    using heap_page_key [of q "p + i"] assms that by simp
  then have "take_bit 36 (of_nat q :: u64) \<in> vm.keys n (of_nat p) \<longleftrightarrow> (\<exists>i<n. q = p + i)"
    unfolding vm.keys_def by auto
  also have "\<dots> \<longleftrightarrow> p \<le> q \<and> q < p + n" by (auto intro: exI [of _ "q - p"])
  finally show ?thesis .
qed

lemma heap_range_region:
  assumes "heap_base div 4096 \<le> p" "p + n \<le> 2 ^ 52"
  shows "\<forall>i<n. in_region heap_slots (of_nat p + of_nat i)"
proof (intro allI impI)
  fix i assume "i < n"
  then show "in_region heap_slots (of_nat p + of_nat i)" using in_heap_slots [of "p + i"] assms by simp
qed

text \<open>Raising the break maps every page up to the new break.\<close>

lemma kbrk_grow:
  assumes inv: "vspace_inv heap_slots VSPACE_KERNEL s" and mapped: "heap_pages_mapped s"
    and base: "heap_base \<le> unat (kheap_break s)"
    and nowrap: "unat (kheap_break s) + unat inc < 2 ^ 64"
    and space: "4 * (unat inc div 4096 + 2) \<le> free_frames s"
  obtains s' where "kbrk inc s = Inr (kheap_break s, s')"
    and "vm_frame (s\<lparr>kheap_break := kheap_break s + inc\<rparr>) s'"
    and "vspace_inv heap_slots VSPACE_KERNEL s'" and "heap_pages_mapped s'"
    and "free_frames s \<le> free_frames s' + 4 * (unat inc div 4096 + 2)"
    and "vm_apart heap_slots VSPACE_KERNEL s s'"
proof -
  let ?b = "unat (kheap_break s)" and ?n = "unat (kheap_break s) + unat inc"
  define s0 where "s0 = s\<lparr>kheap_break := kheap_break s + inc\<rparr>"
  have new: "unat (kheap_break s0) = ?n" using nowrap by (simp add: s0_def unat_add_no_wrap)
  define first where "first = (?b + 4095) div 4096"
  define cnt where "cnt = ?n div 4096 + 1 - first"
  have fu: "(if kheap_break s mod PAGE_SIZE \<noteq> 0 then kheap_break s div PAGE_SIZE + 1
      else kheap_break s div PAGE_SIZE) = of_nat first"
    unfolding first_def unat_first_page [symmetric] by (rule of_nat_unat_word [symmetric])
  have ub: "unat (of_nat first :: u64) = first"
    using unat_lt_2p64 [of "kheap_break s"] by (intro unat_of_nat_small) (simp add: first_def less_mult_imp_div_less)
  have ul: "unat (kheap_break s0 div PAGE_SIZE) = ?n div 4096"
    using new by (simp add: PAGE_SIZE_def unat_div_word)
  have cb: "cnt \<le> unat inc div 4096 + 2"
  proof -
    have "?n div 4096 \<le> ?b div 4096 + unat inc div 4096 + 1"
      using div_add1_eq [of ?b "unat inc" 4096] by simp
    moreover have "?b div 4096 \<le> first" by (simp add: first_def div_le_mono)
    ultimately show ?thesis by (simp add: cnt_def)
  qed
  have fb: "heap_base div 4096 \<le> first" using base div_le_mono [of heap_base "?b + 4095" 4096] by (simp add: first_def)
  have n52: "?n div 4096 < 2 ^ 52" using nowrap by (simp add: less_mult_imp_div_less)
  have fc: "cnt = 0 \<or> first + cnt = ?n div 4096 + 1" by (auto simp: cnt_def)
  have fn: "first \<le> 2 ^ 52" using unat_lt_2p64 [of "kheap_break s"] by (simp add: first_def div_le_mono)
  have range: "first + cnt \<le> 2 ^ 52" using fc n52 fn by auto
  have inv0: "vspace_inv heap_slots VSPACE_KERNEL s0" "4 * cnt \<le> free_frames s0"
    using inv space cb by (simp_all add: s0_def)
  obtain s' where s': "for_pages (map_fresh VSPACE_KERNEL (PG_NOEXEC OR PG_WRITE)) cnt (of_nat first) s0 = Inr s'"
    "vspace_inv heap_slots VSPACE_KERNEL s'" "vm_frame s0 s'" "free_frames s0 \<le> free_frames s' + 4 * cnt"
    "\<forall>w. in_region heap_slots w \<longrightarrow> (vspace_mapping VSPACE_KERNEL s' w \<noteq> None) =
       (vspace_mapping VSPACE_KERNEL s0 w \<noteq> None \<or> take_bit 36 w \<in> vm.keys cnt (of_nat first))" "vm_apart heap_slots VSPACE_KERNEL s0 s'"
    using vm.map_range [OF inv0 heap_range_region [OF fb range], where flags = "PG_NOEXEC OR PG_WRITE"] by blast
  have "\<not> kheap_break s > kheap_break s0" using new by (simp add: word_less_nat_alt)
  then have "kbrk inc s = Inr (kheap_break s, s')"
    using s'(1) fu ub ul by (simp add: kbrk_def Let_def cnt_def flip: s0_def)
  moreover have "heap_pages_mapped s'"
    unfolding heap_pages_mapped_def vm_frame_heap(1) [OF s'(3)] new
  proof (intro allI impI)
    fix p assume p: "heap_base div 4096 \<le> p" "p * 4096 < ?n"
    then have p52: "p < 2 ^ 52" using nowrap by simp
    show "vspace_mapping VSPACE_KERNEL s' (of_nat p) \<noteq> None"
    proof (cases "p * 4096 < ?b")
      case True
      then have "vspace_mapping VSPACE_KERNEL s (of_nat p) \<noteq> None"
        using mapped p by (simp add: heap_pages_mapped_def)
      then show ?thesis using s'(5) in_heap_slots [OF p(1) p52] by (simp add: s0_def)
    next
      case False
      then have "first \<le> p" by (simp add: first_def div_le_mono less_mult_imp_div_less)
      moreover have "p \<le> ?n div 4096" using p(2) by simp
      ultimately have "take_bit 36 (of_nat p) \<in> vm.keys cnt (of_nat first)"
        using heap_keys [OF fb range p(1) p52] by (simp add: cnt_def)
      then show ?thesis using s'(5) in_heap_slots [OF p(1) p52] by blast
    qed
  qed
  ultimately show ?thesis using that s'(2,3,4,6) cb by (simp add: s0_def)
qed

text \<open>Lowering the break unmaps the pages above it and keeps those below it.\<close>

lemma kbrk_shrink:
  assumes inv: "vspace_inv heap_slots VSPACE_KERNEL s" and mapped: "heap_pages_mapped s"
    and dec: "0 < unat dec" "heap_base + unat dec \<le> unat (kheap_break s)"
  obtains s' where "kbrk (- dec) s = Inr (kheap_break s, s')"
    and "vm_frame (s\<lparr>kheap_break := kheap_break s - dec\<rparr>) s'"
    and "vspace_inv heap_slots VSPACE_KERNEL s'" and "heap_pages_mapped s'"
    and "free_frames s \<le> free_frames s'"
    and "vm_apart heap_slots VSPACE_KERNEL s s'"
proof -
  let ?b = "unat (kheap_break s)" and ?n = "unat (kheap_break s) - unat dec"
  define s0 where "s0 = s\<lparr>kheap_break := kheap_break s - dec\<rparr>"
  have "dec \<le> kheap_break s" using dec by (simp add: word_le_nat_alt)
  then have new: "unat (kheap_break s0) = ?n" by (simp add: s0_def unat_sub_no_wrap)
  define first where "first = (?n + 4095) div 4096"
  define cnt where "cnt = ?b div 4096 + 1 - first"
  have fu: "(if kheap_break s0 mod PAGE_SIZE \<noteq> 0 then kheap_break s0 div PAGE_SIZE + 1
      else kheap_break s0 div PAGE_SIZE) = of_nat first"
    unfolding first_def new [symmetric] unat_first_page [symmetric] by (rule of_nat_unat_word [symmetric])
  have ub: "unat (of_nat first :: u64) = first"
    using unat_lt_2p64 [of "kheap_break s0"] by (intro unat_of_nat_small) (simp add: first_def new less_mult_imp_div_less)
  have ul: "unat (kheap_break s div PAGE_SIZE) = ?b div 4096" by (simp add: PAGE_SIZE_def unat_div_word)
  have fb: "heap_base div 4096 \<le> first" using dec div_le_mono [of heap_base "?n + 4095" 4096] by (simp add: first_def)
  have fc: "cnt = 0 \<or> first + cnt = ?b div 4096 + 1" by (auto simp: cnt_def)
  have fn: "first \<le> 2 ^ 52" using unat_lt_2p64 [of "kheap_break s"] by (simp add: first_def div_le_mono)
  have range: "first + cnt \<le> 2 ^ 52" using fc page_div_bound [of "kheap_break s"] fn by auto
  have inv0: "vspace_inv heap_slots VSPACE_KERNEL s0" using inv by (simp add: s0_def)
  obtain s' where s': "for_pages (unmap_page VSPACE_KERNEL) cnt (of_nat first) s0 = Inr s'"
    "vspace_inv heap_slots VSPACE_KERNEL s'" "vm_frame s0 s'" "free_frames s0 \<le> free_frames s'"
    "\<forall>w. in_region heap_slots w \<longrightarrow> (vspace_mapping VSPACE_KERNEL s' w \<noteq> None) =
       (vspace_mapping VSPACE_KERNEL s0 w \<noteq> None \<and> take_bit 36 w \<notin> vm.keys cnt (of_nat first))" "vm_apart heap_slots VSPACE_KERNEL s0 s'"
    using vm.unmap_range [OF inv0 heap_range_region [OF fb range]] by blast
  have "kheap_break s > kheap_break s0" using new dec by (simp add: word_less_nat_alt)
  then have "kbrk (- dec) s = Inr (kheap_break s, s')"
    using s'(1) fu ub ul by (simp add: kbrk_def Let_def cnt_def flip: s0_def)
  moreover have "heap_pages_mapped s'"
    unfolding heap_pages_mapped_def vm_frame_heap(1) [OF s'(3)] new
  proof (intro allI impI)
    fix p assume p: "heap_base div 4096 \<le> p" "p * 4096 < ?n"
    then have p52: "p < 2 ^ 52" using unat_lt_2p64 [of "kheap_break s"] by simp
    have "vspace_mapping VSPACE_KERNEL s0 (of_nat p) \<noteq> None"
      using mapped p by (simp add: heap_pages_mapped_def s0_def)
    moreover have "\<not> first \<le> p" using p(2) by (simp add: first_def)
    then have "take_bit 36 (of_nat p) \<notin> vm.keys cnt (of_nat first)"
      using heap_keys [OF fb range p(1) p52] by simp
    ultimately show "vspace_mapping VSPACE_KERNEL s' (of_nat p) \<noteq> None"
      using s'(5) in_heap_slots [OF p(1) p52] by blast
  qed
  ultimately show ?thesis using that s'(2,3,4,6) by (simp add: s0_def)
qed

section \<open>The chain of blocks\<close>

text \<open>
  The abstract heap is the list of blocks in the order of their addresses: whether the block is
  available, and its size with the header. \<open>hseg H p a bs e\<close>: from address \<open>a\<close> on, the headers in
  memory are those of \<open>bs\<close>, linked in both directions, with \<open>p\<close> before the first and \<open>e\<close> after the
  last one.
\<close>

type_synonym hblocks_abs = "(bool \<times> nat) list"

definition total_size :: "hblocks_abs \<Rightarrow> nat" where
  "total_size bs = sum_list (map snd bs)"

fun last_addr :: "u64 \<Rightarrow> nat \<Rightarrow> hblocks_abs \<Rightarrow> u64" where
  "last_addr p a [] = p"
| "last_addr p a (b # bs) = last_addr (of_nat a) (a + snd b) bs"

definition header_ok :: "hblock_t \<Rightarrow> bool \<Rightarrow> nat \<Rightarrow> u64 \<Rightarrow> u64 \<Rightarrow> bool" where
  "header_ok h v n p e \<longleftrightarrow>
     hb_magic h = HEAP_MAGIC \<and> (hb_available h \<noteq> 0 \<longleftrightarrow> v) \<and> hb_size h = of_nat n \<and> hb_prev h = p \<and>
     hb_next h = e \<and> 44 \<le> n"

fun hseg :: "(u64 \<rightharpoonup> hblock_t) \<Rightarrow> u64 \<Rightarrow> nat \<Rightarrow> hblocks_abs \<Rightarrow> u64 \<Rightarrow> bool" where
  "hseg H p a [] e = True"
| "hseg H p a ((v, n) # bs) e =
     ((\<exists>h. H (of_nat a) = Some h \<and> header_ok h v n p (if bs = [] then e else of_nat (a + n))) \<and>
      hseg H (of_nat a) (a + n) bs e)"

lemma total_size_simps [simp]:
  "total_size [] = 0" "total_size (b # bs) = snd b + total_size bs"
  "total_size (bs @ cs) = total_size bs + total_size cs"
  by (simp_all add: total_size_def)

lemma last_addr_append [simp]: "last_addr p a (bs @ cs) = last_addr (last_addr p a bs) (a + total_size bs) cs"
  by (induction bs arbitrary: p a) (auto simp: add.assoc)

lemma hseg_append:
  "hseg H p a (bs @ cs) e \<longleftrightarrow>
     hseg H p a bs (if cs = [] then e else of_nat (a + total_size bs)) \<and>
     hseg H (last_addr p a bs) (a + total_size bs) cs e"
proof (induction bs arbitrary: p a)
  case (Cons b bs)
  then show ?case by (cases b; cases "bs = []") (auto simp: add.assoc)
qed simp

lemma hseg_size: "hseg H p a bs e \<Longrightarrow> 44 * length bs \<le> total_size bs"
proof (induction bs arbitrary: p a)
  case (Cons b bs)
  then have "44 * length bs \<le> total_size bs" "44 \<le> snd b" by (cases b; auto simp: header_ok_def)+
  then show ?case by simp
qed simp

lemma of_nat_u64_eq: "m < 2 ^ 64 \<Longrightarrow> n < 2 ^ 64 \<Longrightarrow> (of_nat m :: u64) = of_nat n \<longleftrightarrow> m = n"
  using of_nat_eq_iff_small [where 'a = 64, of m n] by simp

text \<open>Updates outside a segment.\<close>

lemma hseg_frame:
  assumes "\<And>x. a \<le> x \<Longrightarrow> x < a + total_size bs \<Longrightarrow> H' (of_nat x) = H (of_nat x)"
  shows "hseg H' p a bs e \<longleftrightarrow> hseg H p a bs e"
  using assms
proof (induction bs arbitrary: p a)
  case (Cons b bs)
  obtain v n where b: "b = (v, n)" by (cases b)
  show ?case
  proof (cases "44 \<le> n")
    case True
    have "H' (of_nat a) = H (of_nat a)" using Cons.prems [of a] True b by simp
    moreover have "hseg H' q (a + n) bs e = hseg H q (a + n) bs e" for q
      using Cons.IH [of "a + n"] Cons.prems b by simp
    ultimately show ?thesis by (simp add: b)
  qed (simp add: b header_ok_def)
qed simp

lemma hseg_upd:
  assumes "x < a \<or> a + total_size bs \<le> x" and "x < 2 ^ 64" and "a + total_size bs \<le> 2 ^ 64"
  shows "hseg (H(of_nat x \<mapsto> h)) p a bs e \<longleftrightarrow> hseg H p a bs e"
proof (rule hseg_frame)
  fix y assume "a \<le> y" "y < a + total_size bs"
  then have "y \<noteq> x" "y < 2 ^ 64" using assms by auto
  then have "(of_nat y :: u64) \<noteq> of_nat x" using of_nat_u64_eq [of y x] assms(2) by simp
  then show "(H(of_nat x \<mapsto> h)) (of_nat y) = H (of_nat y)" by simp
qed

lemma hseg_split:
  "hseg H p a (xs @ (v, n) # ys) e \<longleftrightarrow>
     hseg H p a xs (of_nat (a + total_size xs)) \<and>
     (\<exists>h. H (of_nat (a + total_size xs)) = Some h \<and>
        header_ok h v n (last_addr p a xs) (if ys = [] then e else of_nat (a + total_size xs + n))) \<and>
     hseg H (of_nat (a + total_size xs)) (a + total_size xs + n) ys e"
  by (simp add: hseg_append)

lemma hseg_upd2:
  assumes "x < a \<or> a + total_size bs \<le> x" and "x < 2 ^ 64" and "y < a \<or> a + total_size bs \<le> y" and "y < 2 ^ 64"
    and "a + total_size bs \<le> 2 ^ 64"
  shows "hseg (H(of_nat x \<mapsto> h, of_nat y \<mapsto> g)) p a bs e \<longleftrightarrow> hseg H p a bs e"
  using hseg_upd [OF assms(1,2,5)] hseg_upd [OF assms(3,4,5)] by simp

lemma hseg_set_prev:
  assumes "hseg H p a ys e" and "ys \<noteq> []" and "a + total_size ys \<le> 2 ^ 64"
  obtains h where "H (of_nat a) = Some h" and "hseg (H(of_nat a \<mapsto> h\<lparr>hb_prev := p'\<rparr>)) p' a ys e"
    and "hb_magic h = HEAP_MAGIC"
proof -
  obtain v n zs where ys: "ys = (v, n) # zs" using assms(2) by (cases ys) auto
  then obtain h where h: "H (of_nat a) = Some h" "header_ok h v n p (if zs = [] then e else of_nat (a + n))"
    and zs: "hseg H (of_nat a) (a + n) zs e" using assms(1) by auto
  have "44 \<le> n" using h(2) by (simp add: header_ok_def)
  then have "hseg (H(of_nat a \<mapsto> h\<lparr>hb_prev := p'\<rparr>)) (of_nat a) (a + n) zs e"
    using zs assms(3) ys by (subst hseg_upd) simp_all
  then show ?thesis using that [of h] h ys by (simp add: header_ok_def)
qed

lemma hseg_set_next:
  assumes "hseg H p a bs e" and "bs \<noteq> []" and "a + total_size bs \<le> 2 ^ 64"
  obtains h where "H (last_addr p a bs) = Some h"
    and "hseg (H(last_addr p a bs \<mapsto> h\<lparr>hb_next := x\<rparr>)) p a bs x"
proof -
  obtain xs v n where bs: "bs = xs @ [(v, n)]" using assms(2) by (metis append_butlast_last_id prod.exhaust)
  then obtain h where h: "H (of_nat (a + total_size xs)) = Some h" "header_ok h v n (last_addr p a xs) e"
    and xs: "hseg H p a xs (of_nat (a + total_size xs))" using assms(1) hseg_split [of H p a xs v n "[]" e] by auto
  have "44 \<le> n" using h(2) by (simp add: header_ok_def)
  then have "hseg (H(of_nat (a + total_size xs) \<mapsto> h\<lparr>hb_next := x\<rparr>)) p a xs (of_nat (a + total_size xs))"
    using xs assms(3) bs by (subst hseg_upd) simp_all
  then show ?thesis using that [of h] h bs by (simp add: hseg_append header_ok_def)
qed

text \<open>Changing one header in place.\<close>

lemma hseg_set_block:
  assumes "hseg H p a (xs @ (v, n) # ys) e" and "a + total_size (xs @ (v, n) # ys) \<le> 2 ^ 64"
    and "H (of_nat (a + total_size xs)) = Some h \<Longrightarrow>
      header_ok h v n (last_addr p a xs) (if ys = [] then e else of_nat (a + total_size xs + n)) \<Longrightarrow>
      header_ok h' v' n (last_addr p a xs) (if ys = [] then e else of_nat (a + total_size xs + n))"
    and "H (of_nat (a + total_size xs)) = Some h"
  shows "hseg (H(of_nat (a + total_size xs) \<mapsto> h')) p a (xs @ (v', n) # ys) e"
proof -
  let ?x = "a + total_size xs"
  have s: "hseg H p a xs (of_nat ?x)" "hseg H (of_nat ?x) (?x + n) ys e"
    and h: "header_ok h v n (last_addr p a xs) (if ys = [] then e else of_nat (?x + n))"
    using assms(1,4) by (auto simp: hseg_split)
  have n: "44 \<le> n" using h by (simp add: header_ok_def)
  have "hseg (H(of_nat ?x \<mapsto> h')) p a xs (of_nat ?x)" "hseg (H(of_nat ?x \<mapsto> h')) (of_nat ?x) (?x + n) ys e"
    using s n assms(2) by (subst hseg_upd; simp)+
  then show ?thesis using assms(3) [OF assms(4) h] unfolding hseg_split by simp
qed

text \<open>Splitting a block, as \<^verbatim>\<open>crop\<close> does it.\<close>

lemma hseg_crop:
  assumes seg: "hseg H p a (xs @ (v, n) # ys) e" and bound: "a + total_size (xs @ (v, n) # ys) \<le> 2 ^ 64"
    and req: "44 \<le> m" "m + 44 < n" and x: "x = a + total_size xs" and h: "H (of_nat x) = Some h"
    and h1: "h1 = h\<lparr>hb_size := of_nat m, hb_next := of_nat (x + m)\<rparr>"
    and h2: "header_ok h2 True (n - m) (of_nat x) (if ys = [] then e else of_nat (x + n))"
    and H1: "H1 = H(of_nat x \<mapsto> h1, of_nat (x + m) \<mapsto> h2)"
  shows "ys = [] \<Longrightarrow> hseg H1 p a (xs @ (v, m) # (True, n - m) # ys) e"
    and "ys \<noteq> [] \<Longrightarrow> \<exists>g. H1 (of_nat (x + n)) = Some g \<and>
      hseg (H1(of_nat (x + n) \<mapsto> g\<lparr>hb_prev := of_nat (x + m)\<rparr>)) p a (xs @ (v, m) # (True, n - m) # ys) e"
proof -
  have s: "hseg H p a xs (of_nat x)" "hseg H (of_nat x) (x + n) ys e"
    and ho: "header_ok h v n (last_addr p a xs) (if ys = [] then e else of_nat (x + n))"
    using seg h x by (auto simp: hseg_split)
  have ub: "x + n + total_size ys \<le> 2 ^ 64" using bound x by simp
  have neq: "(of_nat x :: u64) \<noteq> of_nat (x + m)" using of_nat_u64_eq [of x "x + m"] ub req by simp
  have s1: "hseg H1 p a xs (of_nat x)" "hseg H1 (of_nat x) (x + n) ys e"
    unfolding H1 using s req ub x by (subst hseg_upd2; simp)+
  have ho1: "H1 (of_nat x) = Some h1" "header_ok h1 v m (last_addr p a xs) (of_nat (x + m))"
    "H1 (of_nat (x + m)) = Some h2"
    using neq ho req by (simp_all add: H1 h1 header_ok_def)
  show "hseg H1 p a (xs @ (v, m) # (True, n - m) # ys) e" if "ys = []"
    using that s1 ho1 h2 req unfolding hseg_split x [symmetric] by simp
  assume ne: "ys \<noteq> []"
  obtain g where g: "H1 (of_nat (x + n)) = Some g"
    "hseg (H1(of_nat (x + n) \<mapsto> g\<lparr>hb_prev := of_nat (x + m)\<rparr>)) (of_nat (x + m)) (x + n) ys e"
    using hseg_set_prev [OF s1(2) ne ub] by metis
  let ?H2 = "H1(of_nat (x + n) \<mapsto> g\<lparr>hb_prev := of_nat (x + m)\<rparr>)"
  have lt: "x + n < 2 ^ 64" using ub ne s(2) hseg_size [OF s(2)] by (cases ys) auto
  have "hseg ?H2 p a xs (of_nat x)" using s1(1) req x lt by (subst hseg_upd) simp_all
  moreover have "?H2 (of_nat x) = Some h1" "?H2 (of_nat (x + m)) = Some h2"
    using ho1 of_nat_u64_eq [of "x + n" x] of_nat_u64_eq [of "x + n" "x + m"] lt req by auto
  ultimately show "\<exists>g. H1 (of_nat (x + n)) = Some g \<and>
      hseg (H1(of_nat (x + n) \<mapsto> g\<lparr>hb_prev := of_nat (x + m)\<rparr>)) p a (xs @ (v, m) # (True, n - m) # ys) e"
    using g ne ho1 h2 req unfolding hseg_split x [symmetric] by simp
qed

text \<open>Joining two blocks, as \<^verbatim>\<open>merge_blocks\<close> does it.\<close>

lemma hseg_merge:
  assumes seg: "hseg H p a (xs @ (v, n) # (w, m) # ys) e" and bound: "a + total_size (xs @ (v, n) # (w, m) # ys) \<le> 2 ^ 64"
    and x: "x = a + total_size xs" and h: "H (of_nat x) = Some h" "H (of_nat (x + n)) = Some h2"
    and h1: "h1 = h\<lparr>hb_size := hb_size h + hb_size h2, hb_next := hb_next h2\<rparr>"
    and H1: "H1 = H(of_nat x \<mapsto> h1)"
  shows "ys = [] \<Longrightarrow> hseg (H1(of_nat (x + n) \<mapsto> g')) p a (xs @ (v, n + m) # ys) e"
    and "ys \<noteq> [] \<Longrightarrow> \<exists>g. H1 (of_nat (x + n + m)) = Some g \<and>
      hseg (H1(of_nat (x + n + m) \<mapsto> g\<lparr>hb_prev := of_nat x\<rparr>, of_nat (x + n) \<mapsto> g')) p a (xs @ (v, n + m) # ys) e"
proof -
  have s: "hseg H p a xs (of_nat x)" "hseg H (of_nat (x + n)) (x + n + m) ys e"
    and ho: "header_ok h v n (last_addr p a xs) (of_nat (x + n))"
      "header_ok h2 w m (of_nat x) (if ys = [] then e else of_nat (x + n + m))"
    using seg h x by (auto simp: hseg_split)
  have ub: "x + n + m + total_size ys \<le> 2 ^ 64" and n: "44 \<le> n" "44 \<le> m"
    using bound x ho by (simp_all add: header_ok_def)
  have neq: "(of_nat x :: u64) \<noteq> of_nat (x + n)" using of_nat_u64_eq [of x "x + n"] ub n by simp
  have ho1: "header_ok h1 v (n + m) (last_addr p a xs) (if ys = [] then e else of_nat (x + n + m))"
    using ho by (simp add: header_ok_def h1)
  have s1: "hseg H1 p a xs (of_nat x)" "hseg H1 (of_nat (x + n)) (x + n + m) ys e"
    unfolding H1 using s n ub x by (subst hseg_upd; simp)+
  show "hseg (H1(of_nat (x + n) \<mapsto> g')) p a (xs @ (v, n + m) # ys) e" if "ys = []"
  proof -
    have "hseg (H1(of_nat (x + n) \<mapsto> g')) p a xs (of_nat x)"
      using s1(1) n ub x by (subst hseg_upd) simp_all
    then show ?thesis using that ho1 neq unfolding hseg_split x [symmetric] by (simp add: H1)
  qed
  assume ne: "ys \<noteq> []"
  obtain g where g: "H1 (of_nat (x + n + m)) = Some g"
    "hseg (H1(of_nat (x + n + m) \<mapsto> g\<lparr>hb_prev := of_nat x\<rparr>)) (of_nat x) (x + n + m) ys e"
    using hseg_set_prev [OF s1(2) ne ub] by metis
  let ?H2 = "H1(of_nat (x + n + m) \<mapsto> g\<lparr>hb_prev := of_nat x\<rparr>, of_nat (x + n) \<mapsto> g')"
  have lt: "x + n + m < 2 ^ 64" using ub ne s(2) hseg_size [OF s(2)] by (cases ys) auto
  have "hseg ?H2 p a xs (of_nat x)" using s1(1) n x lt by (subst hseg_upd2) simp_all
  moreover have "hseg ?H2 (of_nat x) (x + n + m) ys e" using g(2) n ub lt by (subst hseg_upd) simp_all
  moreover have "?H2 (of_nat x) = Some h1"
    using neq of_nat_u64_eq [of "x + n + m" x] lt n by (auto simp: H1)
  ultimately have "hseg ?H2 p a (xs @ (v, n + m) # ys) e"
    using ho1 ne unfolding hseg_split x [symmetric] by (simp add: add.assoc)
  then show "\<exists>g. H1 (of_nat (x + n + m)) = Some g \<and>
      hseg (H1(of_nat (x + n + m) \<mapsto> g\<lparr>hb_prev := of_nat x\<rparr>, of_nat (x + n) \<mapsto> g')) p a (xs @ (v, n + m) # ys) e"
    using g(1) by blast
qed

section \<open>The heap as a list of blocks\<close>

fun block_addrs :: "nat \<Rightarrow> hblocks_abs \<Rightarrow> nat set" where
  "block_addrs a [] = {}"
| "block_addrs a (b # bs) = insert a (block_addrs (a + snd b) bs)"

fun live_of :: "nat \<Rightarrow> hblocks_abs \<Rightarrow> (nat \<times> nat) set" where
  "live_of a [] = {}"
| "live_of a ((v, n) # bs) = (if v then {} else {(a + 44, n - 44)}) \<union> live_of (a + n) bs"

text \<open>The allocations that are in use: address and length of the payload of every block not available.\<close>

definition heap_live :: "'a hstate_scheme \<Rightarrow> (nat \<times> nat) set" where
  "heap_live s = {(unat a + 44, unat (hb_size h) - 44) | a h.
     hblocks s a = Some h \<and> hb_magic h = HEAP_MAGIC \<and> hb_available h = 0}"

text \<open>
  The headers in memory with the magic number are the chain of blocks, which fills the heap from its
  start to the break.
\<close>

definition heap_rel :: "'a hstate_scheme \<Rightarrow> hblocks_abs \<Rightarrow> bool" where
  "heap_rel s bs \<longleftrightarrow>
     hseg (hblocks s) NULL heap_base bs NULL \<and> unat (kheap_break s) = heap_base + total_size bs \<and>
     heap_start s = (if bs = [] then NULL else of_nat heap_base) \<and>
     heap_last s = last_addr NULL heap_base bs \<and>
     (\<forall>a h. hblocks s a = Some h \<longrightarrow> hb_magic h = HEAP_MAGIC \<longrightarrow> unat a \<in> block_addrs heap_base bs)"

text \<open>Available blocks are never adjacent and never last.\<close>

definition coalesced :: "hblocks_abs \<Rightarrow> bool" where
  "coalesced bs \<longleftrightarrow> successively (\<lambda>b c. \<not> (fst b \<and> fst c)) bs \<and> (bs \<noteq> [] \<longrightarrow> \<not> fst (last bs))"

definition heap_inv :: "'a hstate_scheme \<Rightarrow> bool" where
  "heap_inv s \<longleftrightarrow>
     (\<exists>bs. heap_rel s bs \<and> coalesced bs) \<and> mutex_idle (kheap_mutex s) \<and>
     vspace_inv heap_slots VSPACE_KERNEL s \<and> heap_pages_mapped s"

lemma block_addrs_append [simp]: "block_addrs a (xs @ ys) = block_addrs a xs \<union> block_addrs (a + total_size xs) ys"
  by (induction xs arbitrary: a) (auto simp: add.assoc)

lemma live_of_append [simp]: "live_of a (xs @ ys) = live_of a xs \<union> live_of (a + total_size xs) ys"
  by (induction a xs rule: live_of.induct) (auto simp: add.assoc)

lemma heap_rel_bound: "heap_rel s bs \<Longrightarrow> heap_base + total_size bs < 2 ^ 64"
  using unat_lt_2p64 [of "kheap_break s"] by (simp add: heap_rel_def)

lemma hseg_live:
  assumes "hseg H p a bs e" and "a + total_size bs < 2 ^ 64"
  shows "live_of a bs = {(unat x + 44, unat (hb_size h) - 44) | x h.
    H x = Some h \<and> unat x \<in> block_addrs a bs \<and> hb_available h = 0}" (is "_ = ?L a bs")
  using assms
proof (induction bs arbitrary: p a)
  case (Cons b bs)
  obtain v n where b: "b = (v, n)" by (cases b)
  obtain h where h: "H (of_nat a) = Some h" "header_ok h v n p (if bs = [] then e else of_nat (a + n))"
    using Cons.prems(1) b by auto
  have u: "unat (of_nat a :: u64) = a" "unat (hb_size h) = n"
    using Cons.prems(2) b h(2) by (simp_all add: header_ok_def unat_of_nat_small)
  have x: "unat x = a \<longleftrightarrow> x = of_nat a" for x :: u64 using u(1) by auto
  have "?L a (b # bs) = {(unat x + 44, unat (hb_size h) - 44) | x h. H x = Some h \<and> x = of_nat a \<and> hb_available h = 0}
      \<union> ?L (a + n) bs"
    by (auto simp: b x)
  moreover have "{(unat x + 44, unat (hb_size h) - 44) | x h. H x = Some h \<and> x = of_nat a \<and> hb_available h = 0}
      = (if v then {} else {(a + 44, n - 44)})"
    using h u by (cases "hb_available h = 0") (simp_all add: header_ok_def)
  moreover have "live_of (a + n) bs = ?L (a + n) bs" using Cons.IH [of "of_nat a" "a + n"] Cons.prems b by simp
  ultimately show ?case by (simp add: b)
qed simp

lemma hseg_magic:
  assumes "hseg H p a bs e" and "a + total_size bs < 2 ^ 64" and "unat x \<in> block_addrs a bs" and "H x = Some h"
  shows "hb_magic h = HEAP_MAGIC"
  using assms
proof (induction bs arbitrary: p a)
  case (Cons b bs)
  obtain v n where b: "b = (v, n)" by (cases b)
  obtain h' where h: "H (of_nat a) = Some h'" "header_ok h' v n p (if bs = [] then e else of_nat (a + n))"
    using Cons.prems(1) b by auto
  show ?case
  proof (cases "unat x = a")
    case True
    then have "x = of_nat a" by auto
    then show ?thesis using h Cons.prems(4) by (simp add: header_ok_def)
  next
    case False
    then show ?thesis using Cons.IH [of "of_nat a" "a + n"] Cons.prems b by simp
  qed
qed simp

lemma heap_live_rel:
  assumes "heap_rel s bs"
  shows "heap_live s = live_of heap_base bs"
proof -
  have seg: "hseg (hblocks s) NULL heap_base bs NULL" using assms by (simp add: heap_rel_def)
  note b = heap_rel_bound [OF assms]
  have "hblocks s x = Some h \<Longrightarrow> hb_magic h = HEAP_MAGIC \<longleftrightarrow> unat x \<in> block_addrs heap_base bs" for x h
    using assms hseg_magic [OF seg b] by (auto simp: heap_rel_def)
  then show ?thesis unfolding hseg_live [OF seg b] heap_live_def by blast
qed

text \<open>Distinct allocations do not overlap, headers included, and lie inside the heap.\<close>

lemma live_of_bounds:
  assumes "hseg H p a bs e" and "(x, l) \<in> live_of a bs"
  shows "a + 44 \<le> x \<and> x + l \<le> a + total_size bs"
  using assms
proof (induction bs arbitrary: p a)
  case (Cons b bs)
  obtain v n where b: "b = (v, n)" by (cases b)
  have n: "44 \<le> n" and seg: "hseg H (of_nat a) (a + n) bs e" using Cons.prems(1) b by (auto simp: header_ok_def)
  show ?case using Cons.IH [OF seg] Cons.prems(2) n b by (auto split: if_splits)
qed simp

lemma live_of_disjoint:
  assumes "hseg H p a bs e" and "(x, l) \<in> live_of a bs" and "(y, m) \<in> live_of a bs" and "(x, l) \<noteq> (y, m)"
  shows "x + l + 44 \<le> y \<or> y + m + 44 \<le> x"
  using assms
proof (induction bs arbitrary: p a)
  case (Cons b bs)
  obtain v n where b: "b = (v, n)" by (cases b)
  have n: "44 \<le> n" and seg: "hseg H (of_nat a) (a + n) bs e" using Cons.prems(1) b by (auto simp: header_ok_def)
  have "a + n + 44 \<le> z" if "(z, k) \<in> live_of (a + n) bs" for z k using live_of_bounds [OF seg that] by simp
  then show ?case using Cons.IH [OF seg] Cons.prems(2-4) n b by (auto split: if_splits)
qed simp

section \<open>Searching\<close>

text \<open>The first available block of at least \<open>req\<close> bytes and what is before and behind it.\<close>

fun first_fit :: "nat \<Rightarrow> hblocks_abs \<Rightarrow> (hblocks_abs \<times> nat \<times> hblocks_abs) option" where
  "first_fit req [] = None"
| "first_fit req ((v, n) # bs) =
     (if v \<and> req \<le> n then Some ([], n, bs)
      else map_option (\<lambda>(xs, m, ys). ((v, n) # xs, m, ys)) (first_fit req bs))"

lemma first_fit_Some:
  "first_fit req bs = Some (xs, n, ys) \<Longrightarrow> bs = xs @ (True, n) # ys \<and> req \<le> n"
  by (induction req bs arbitrary: xs rule: first_fit.induct) (auto split: if_splits)

lemma find_fit_ok:
  assumes "hseg (hblocks s) p a bs NULL" and "0 < a" and "a + total_size bs < 2 ^ 64" and "length bs < fuel"
  shows "find_fit fuel req (if bs = [] then NULL else of_nat a) s =
    Inr (map_option (\<lambda>t. of_nat (a + total_size (fst t))) (first_fit (unat req) bs))"
  using assms
proof (induction bs arbitrary: p a fuel)
  case Nil
  then show ?case by (cases fuel) simp_all
next
  case (Cons b bs)
  obtain v n where b: "b = (v, n)" by (cases b)
  obtain f where f: "fuel = Suc f" "length bs < f" using Cons.prems(4) by (cases fuel) simp_all
  obtain h where h: "hblocks s (of_nat a) = Some h" "header_ok h v n p (if bs = [] then NULL else of_nat (a + n))"
    and seg: "hseg (hblocks s) (of_nat a) (a + n) bs NULL" using Cons.prems(1) b by auto
  have nz: "of_nat a \<noteq> (0 :: u64)" using of_nat_u64_eq [of a 0] Cons.prems(2,3) by simp
  have le: "req \<le> hb_size h \<longleftrightarrow> unat req \<le> n"
    using h(2) Cons.prems(3) b by (simp add: header_ok_def word_le_nat_alt unat_of_nat_small)
  have IH: "find_fit f req (if bs = [] then NULL else of_nat (a + n)) s =
    Inr (map_option (\<lambda>t. of_nat (a + n + total_size (fst t))) (first_fit (unat req) bs))"
    using Cons.IH [OF seg] Cons.prems(2,3) f(2) b by simp
  show ?case
    using nz h le IH unfolding f(1) b
    by (simp add: hb_get_def header_ok_def add.assoc option.map_comp comp_def case_prod_beta del: of_nat_add)
qed

section \<open>Allocation\<close>

text \<open>Steps that change the headers and the two ends of the chain only.\<close>

definition chain_step :: "'a hstate_scheme \<Rightarrow> 'a hstate_scheme \<Rightarrow> bool" where
  "chain_step s s' \<longleftrightarrow> (\<exists>H st la. s' = s\<lparr>hblocks := H, heap_start := st, heap_last := la\<rparr>)"

lemma chain_step_refl: "chain_step s s"
  unfolding chain_step_def
  by (rule exI [of _ "hblocks s"], rule exI [of _ "heap_start s"], rule exI [of _ "heap_last s"]) simp

lemma chain_step_trans: "chain_step s s' \<Longrightarrow> chain_step s' s'' \<Longrightarrow> chain_step s s''"
  unfolding chain_step_def by (elim exE) (rule exI, rule exI, rule exI, simp)

lemma chain_step_hblocks: "chain_step s (s\<lparr>hblocks := H\<rparr>)"
  and chain_step_hblocks_last: "chain_step s (s\<lparr>hblocks := H, heap_last := l\<rparr>)"
  unfolding chain_step_def
  by (rule exI [of _ H], rule exI [of _ "heap_start s"], rule exI [of _ "heap_last s"], simp)
     (rule exI [of _ H], rule exI [of _ "heap_start s"], rule exI [of _ l], simp)

lemma chain_step_frame:
  assumes "chain_step s s'"
  shows "kheap_mutex s' = kheap_mutex s" "current_task s' = current_task s" "kheap_break s' = kheap_break s"
    "vspace_inv M r s' = vspace_inv M r s" "heap_pages_mapped s' = heap_pages_mapped s"
    "free_frames s' = free_frames s" "vspace_mapping r s' = vspace_mapping r s"
    "tasks s' = tasks s" "vspaces s' = vspaces s" "phys s' = phys s" "hstate.more s' = hstate.more s"
  using assms
  by (auto simp: chain_step_def heap_pages_mapped_def vspace_inv_def vspace_mapping_def vspace_root_def
    free_frames_def pg_inv_def pg_used_def pg_total_def fun_eq_iff)

lemma chain_step_apart:
  assumes "chain_step s' s''"
  shows "vm_apart M r s s'' = vm_apart M r s s'" "vm_apart M r s'' s = vm_apart M r s' s"
  using assms by (auto simp: chain_step_def vm_apart_def vspace_owns_def vspace_root_def pg_used_def pg_total_def)

lemma vm_update_mutex [simp]:
  "vspace_inv M r (s\<lparr>kheap_mutex := m\<rparr>) = vspace_inv M r s"
  "heap_pages_mapped (s\<lparr>kheap_mutex := m\<rparr>) = heap_pages_mapped s"
  "heap_rel (s\<lparr>kheap_mutex := m\<rparr>) bs = heap_rel s bs"
  "heap_live (s\<lparr>kheap_mutex := m\<rparr>) = heap_live s"
  "free_frames (s\<lparr>kheap_mutex := m\<rparr>) = free_frames s"
  by (auto simp: heap_pages_mapped_def vspace_inv_def vspace_mapping_def vspace_root_def heap_rel_def
    heap_live_def free_frames_def pg_inv_def pg_used_def pg_total_def)

lemma block_addr_of:
  assumes "heap_rel s (xs @ (v, n) # ys)" and "x = heap_base + total_size xs"
  shows "unat (of_nat x :: u64) = x" "x + n < 2 ^ 64" "(of_nat x :: u64) \<noteq> 0"
proof -
  have b: "heap_base + total_size (xs @ (v, n) # ys) < 2 ^ 64" by (rule heap_rel_bound [OF assms(1)])
  then show "x + n < 2 ^ 64" using assms(2) by simp
  then show "unat (of_nat x :: u64) = x" by (intro unat_of_nat_small) simp
  then show "(of_nat x :: u64) \<noteq> 0" using assms(2) by (auto simp flip: unat_eq_0)
qed

lemma heap_rel_header:
  assumes "heap_rel s (xs @ (v, n) # ys)" and "x = heap_base + total_size xs"
  obtains h where "hblocks s (of_nat x) = Some h"
    and "header_ok h v n (last_addr 0 heap_base xs) (if ys = [] then 0 else of_nat (x + n))"
  using assms unfolding heap_rel_def hseg_split by blast

lemma set_available_ok:
  assumes rel: "heap_rel s (xs @ (v, n) # ys)" and x: "x = heap_base + total_size xs"
    and h': "\<And>h. hb_magic (f h) = hb_magic h" "\<And>h. hb_size (f h) = hb_size h" "\<And>h. hb_prev (f h) = hb_prev h"
      "\<And>h. hb_next (f h) = hb_next h" "\<And>h. hb_available (f h) \<noteq> 0 \<longleftrightarrow> v'"
  obtains s' where "hb_upd (of_nat x) f s = Inr s'" and "heap_rel s' (xs @ (v', n) # ys)" and "chain_step s s'"
proof -
  obtain h where h: "hblocks s (of_nat x) = Some h" using heap_rel_header [OF rel x] by blast
  let ?s' = "s\<lparr>hblocks := (hblocks s)(of_nat x \<mapsto> f h)\<rparr>"
  have bound: "heap_base + total_size (xs @ (v, n) # ys) \<le> 2 ^ 64" using heap_rel_bound [OF rel] by simp
  have "hseg ((hblocks s)(of_nat (heap_base + total_size xs) \<mapsto> f h)) 0 heap_base (xs @ (v', n) # ys) 0"
    using rel h bound x
    by (intro hseg_set_block [where v = v and h = h]) (auto simp: heap_rel_def header_ok_def h')
  then have "heap_rel ?s' (xs @ (v', n) # ys)"
    using rel h x block_addr_of(1) [OF rel x] by (auto simp: heap_rel_def h')
  then show ?thesis using that [of ?s'] h by (simp add: hb_upd_def hb_get_def chain_step_hblocks)
qed

lemma crop_ok:
  assumes rel: "heap_rel s (xs @ (v, n) # ys)" and x: "x = heap_base + total_size xs"
    and m: "44 \<le> unat m" "unat m \<le> n"
  obtains s' where "crop (of_nat x) m s = Inr s'" and "chain_step s s'"
    and "heap_rel s' (if n - unat m \<le> 44 then xs @ (v, n) # ys
      else xs @ (v, unat m) # (True, n - unat m) # ys)"
proof -
  obtain h where h: "hblocks s (of_nat x) = Some h"
    and ho: "header_ok h v n (last_addr 0 heap_base xs) (if ys = [] then 0 else of_nat (x + n))"
    using heap_rel_header [OF rel x] by blast
  note b = block_addr_of [OF rel x]
  have ex: "unat (hb_size h - m) = n - unat m" "of_nat (unat m) = m"
    using ho b(2) m by (simp_all add: header_ok_def unat_sub_no_wrap word_le_nat_alt unat_of_nat_small)
  have le: "hb_size h - m \<le> HEADER_SIZE \<longleftrightarrow> n - unat m \<le> 44" by (simp add: word_le_nat_alt ex HEADER_SIZE_def)
  show ?thesis
  proof (cases "n - unat m \<le> 44")
    case True
    then show ?thesis using that [of s] rel h le by (simp add: crop_def hb_get_def chain_step_refl)
  next
    case False
    have seg: "hseg (hblocks s) 0 heap_base (xs @ (v, n) # ys) 0" using rel by (simp add: heap_rel_def)
    have bound: "heap_base + total_size (xs @ (v, n) # ys) \<le> 2 ^ 64" using heap_rel_bound [OF rel] by simp
    define nx where "nx = (of_nat (x + unat m) :: u64)"
    have nx: "of_nat x + m = nx" using ex(2) by (simp add: nx_def)
    have unx: "unat nx = x + unat m" using b(2) m by (simp add: nx_def unat_of_nat_small del: of_nat_add)
    define h1 where "h1 = h\<lparr>hb_size := m, hb_next := nx\<rparr>"
    define H0 where "H0 = (hblocks s)(of_nat x \<mapsto> h1)"
    define h2 where "h2 = (case H0 nx of None \<Rightarrow> hb_blank | Some h \<Rightarrow> h)\<lparr>hb_available := 1, hb_magic := HEAP_MAGIC,
      hb_prev := of_nat x, hb_next := hb_next h, hb_size := hb_size h - m\<rparr>"
    have h2: "header_ok h2 True (n - unat m) (of_nat x) (if ys = [] then 0 else of_nat (x + n))"
      using ho ex(1) False by (auto simp: h2_def header_ok_def simp flip: ex(1))
    define H1 where "H1 = H0(nx \<mapsto> h2)"
    have H1: "H1 = (hblocks s)(of_nat x \<mapsto> h1, of_nat (x + unat m) \<mapsto> h2)" by (simp add: H1_def H0_def nx_def)
    have h1: "h1 = h\<lparr>hb_size := of_nat (unat m), hb_next := of_nat (x + unat m)\<rparr>"
      by (simp add: h1_def nx_def del: of_nat_add)
    have lt: "unat m + 44 < n" using False by simp
    note cr = hseg_crop [OF seg bound m(1) lt x h h1 h2 H1]
    have dom: "unat a \<in> block_addrs heap_base (xs @ (v, unat m) # (True, n - unat m) # ys)"
      if "unat a \<in> block_addrs heap_base (xs @ (v, n) # ys) \<or> a = nx" for a
      using that unx x m by (auto simp: add.assoc)
    have mg: "unat a \<in> block_addrs heap_base (xs @ (v, n) # ys) \<or> a = nx" if "H1 a = Some g" "hb_magic g = HEAP_MAGIC" for a g
      using that rel b(1) x by (auto simp: H1_def H0_def heap_rel_def split: if_splits)
    show ?thesis
    proof (cases "ys = []")
      case True
      let ?s' = "s\<lparr>hblocks := H1, heap_last := nx\<rparr>"
      have "crop (of_nat x) m s = Inr ?s'"
        using True False h le ho nx
        by (simp add: crop_def hb_get_def hb_upd_def hb_write_def header_ok_def Let_def H1_def H0_def h1_def h2_def)
      moreover have "heap_rel ?s' (xs @ (v, unat m) # (True, n - unat m) # ys)"
        unfolding heap_rel_def using cr(1) [OF True] rel dom mg m x True
        by (auto simp: heap_rel_def nx_def)
      ultimately show ?thesis using that [of ?s'] False by (simp add: chain_step_hblocks_last)
    next
      case ne: False
      obtain g where g: "H1 (of_nat (x + n)) = Some g"
        "hseg (H1(of_nat (x + n) \<mapsto> g\<lparr>hb_prev := of_nat (x + unat m)\<rparr>)) 0 heap_base
          (xs @ (v, unat m) # (True, n - unat m) # ys) 0"
        using cr(2) [OF ne] by blast
      let ?s' = "s\<lparr>hblocks := H1(of_nat (x + n) \<mapsto> g\<lparr>hb_prev := nx\<rparr>)\<rparr>"
      have nn: "hb_next h = of_nat (x + n)" "(of_nat (x + n) :: u64) \<noteq> 0"
        using ho ne b(2) x of_nat_u64_eq [of "x + n" 0] by (simp_all add: header_ok_def)
      have "crop (of_nat x) m s = Inr ?s'"
        using False h le nx nn g(1)
        by (simp add: crop_def hb_get_def hb_upd_def hb_write_def Let_def H1_def H0_def h1_def h2_def del: of_nat_add)
      moreover have "heap_rel ?s' (xs @ (v, unat m) # (True, n - unat m) # ys)"
        unfolding heap_rel_def
      proof (intro conjI allI impI)
        show "unat a \<in> block_addrs heap_base (xs @ (v, unat m) # (True, n - unat m) # ys)"
          if a: "hblocks ?s' a = Some g'" "hb_magic g' = HEAP_MAGIC" for a g'
        proof -
          have "unat a \<in> block_addrs heap_base (xs @ (v, n) # ys) \<or> a = nx"
            using a g(1) mg [of a] by (cases "a = of_nat (x + n)") auto
          then show ?thesis by (rule dom)
        qed
        have "last_addr (of_nat x) (x + n) ys = last_addr nx (x + n) ys" using ne by (cases ys) auto
        then show "heap_last ?s' = last_addr 0 heap_base (xs @ (v, unat m) # (True, n - unat m) # ys)"
          using rel m x by (simp add: heap_rel_def nx_def add.assoc)
      qed (use g(2) rel m x in \<open>auto simp: heap_rel_def nx_def\<close>)
      ultimately show ?thesis using that [of ?s'] False by (simp add: chain_step_hblocks)
    qed
  qed
qed

lemma coalesced_fit:
  assumes "coalesced (xs @ (True, n) # ys)"
  shows "coalesced (xs @ (False, k) # ys)" "coalesced (xs @ (False, k) # (True, m) # ys)"
  using assms by (auto simp: coalesced_def successively_append_iff successively_Cons)

lemma coalesced_append: "coalesced bs \<Longrightarrow> coalesced (bs @ [(False, n)])"
  by (auto simp: coalesced_def successively_append_iff)

lemma hseg_grow:
  assumes seg: "hseg H 0 a bs 0" and b: "a + total_size bs + n < 2 ^ 64" "44 \<le> n"
    and x: "x = of_nat (a + total_size bs)"
    and h: "header_ok h False n (last_addr 0 a bs) 0"
    and H1: "H1 = H(x \<mapsto> h)"
  shows "bs = [] \<Longrightarrow> hseg H1 0 a [(False, n)] 0"
    and "bs \<noteq> [] \<Longrightarrow> \<exists>g. H1 (last_addr 0 a bs) = Some g \<and>
      hseg (H1(last_addr 0 a bs \<mapsto> g\<lparr>hb_next := x\<rparr>)) 0 a (bs @ [(False, n)]) 0"
proof -
  have s1: "hseg H1 0 a bs 0" unfolding H1 x using seg b by (subst hseg_upd) simp_all
  show "hseg H1 0 a [(False, n)] 0" if "bs = []" using that h by (simp add: H1 x)
  assume ne: "bs \<noteq> []"
  have ub: "a + total_size bs \<le> 2 ^ 64" using b by simp
  obtain g where g: "H1 (last_addr 0 a bs) = Some g"
    "hseg (H1(last_addr 0 a bs \<mapsto> g\<lparr>hb_next := x\<rparr>)) 0 a bs x"
    using hseg_set_next [OF s1 ne ub] by metis
  have "last_addr 0 a bs \<noteq> x"
  proof -
    obtain xs v k where bs: "bs = xs @ [(v, k)]" using ne by (metis append_butlast_last_id prod.exhaust)
    then have "44 \<le> k" using seg hseg_split [of H 0 a xs v k "[]" 0] by (auto simp: header_ok_def)
    then show ?thesis using bs b of_nat_u64_eq [of "a + total_size xs" "a + total_size bs"] by (simp add: x)
  qed
  then have "hseg (H1(last_addr 0 a bs \<mapsto> g\<lparr>hb_next := x\<rparr>)) 0 a (bs @ [(False, n)]) 0"
    using g(2) h by (simp add: hseg_append x H1)
  then show "\<exists>g. H1 (last_addr 0 a bs) = Some g \<and>
      hseg (H1(last_addr 0 a bs \<mapsto> g\<lparr>hb_next := x\<rparr>)) 0 a (bs @ [(False, n)]) 0"
    using g(1) by blast
qed

lemma last_addr_nz:
  assumes "heap_rel s bs" and "bs \<noteq> []"
  shows "last_addr 0 heap_base bs \<noteq> 0"
proof -
  obtain xs v n where bs: "bs = xs @ [(v, n)]" using assms(2) by (metis append_butlast_last_id prod.exhaust)
  then show ?thesis using block_addr_of(3) [of s xs v n "[]"] assms(1) by simp
qed

text \<open>The tail of \<^verbatim>\<open>_kmalloc\<close>: a new block at the old break is linked to the end of the chain.\<close>

lemma link_block:
  assumes rel: "heap_rel s bs" and s1: "hblocks s1 = hblocks s" "heap_start s1 = heap_start s" "heap_last s1 = heap_last s"
      "kheap_break s1 = kheap_break s + HEADER_SIZE + sz"
    and n: "n = 44 + unat sz" "heap_base + total_size bs + n < 2 ^ 64"
    and blk: "blk = kheap_break s" and h: "\<And>h. header_ok (f h) False n (heap_last s) 0"
  obtains s2 where "(let s' = hb_write blk f s1 in
      rbind (if heap_last s' \<noteq> 0 then hb_upd (heap_last s') (\<lambda>h. h\<lparr>hb_next := blk\<rparr>) s' else Inr s') (\<lambda>s.
        let s = s\<lparr>heap_last := blk\<rparr>; s = (if heap_start s = 0 then s\<lparr>heap_start := blk\<rparr> else s) in
        Inr s)) = Inr s2"
    and "heap_rel s2 (bs @ [(False, n)])" and "chain_step s1 s2"
proof -
  have ux: "unat blk = heap_base + total_size bs" using rel by (simp add: heap_rel_def blk)
  then have x: "blk = of_nat (heap_base + total_size bs)" by (metis of_nat_unat_word)
  have seg: "hseg (hblocks s) 0 heap_base bs 0" and la: "heap_last s = last_addr 0 heap_base bs"
    and hs: "heap_start s = (if bs = [] then 0 else of_nat heap_base)" using rel by (simp_all add: heap_rel_def)
  define h0 where "h0 = f (case hblocks s blk of None \<Rightarrow> hb_blank | Some h \<Rightarrow> h)"
  define H1 where "H1 = (hblocks s)(blk \<mapsto> h0)"
  have w: "hb_write blk f s1 = s1\<lparr>hblocks := H1\<rparr>" by (simp add: hb_write_def s1 H1_def h0_def)
  have h0: "header_ok h0 False n (last_addr 0 heap_base bs) 0" using h la by (simp add: h0_def)
  have brk: "unat (kheap_break s1) = heap_base + total_size (bs @ [(False, n)])"
  proof -
    have "kheap_break s1 = blk + of_nat n" using s1(4) n(1) by (simp add: blk HEADER_SIZE_def add.assoc)
    then show ?thesis using n(2) ux by (simp add: unat_add_no_wrap unat_of_nat_small)
  qed
  have n44: "44 \<le> n" using n by simp
  note gr = hseg_grow [OF seg n(2) n44 x h0 H1_def]
  have dom: "unat a \<in> block_addrs heap_base (bs @ [(False, n)])" if "H1 a = Some g" "hb_magic g = HEAP_MAGIC" for a g
    using that rel ux by (auto simp: H1_def heap_rel_def split: if_splits)
  show ?thesis
  proof (cases "bs = []")
    case True
    then have z: "heap_last s1 = 0" "heap_start s1 = 0" using la hs s1 by simp_all
    let ?s2 = "s1\<lparr>hblocks := H1, heap_last := blk, heap_start := blk\<rparr>"
    show ?thesis
    proof (rule that [of ?s2])
      show "chain_step s1 ?s2" unfolding chain_step_def 
        by (rule exI [of _ H1], rule exI [of _ blk], rule exI [of _ blk]) simp
      show "heap_rel ?s2 (bs @ [(False, n)])"
        unfolding heap_rel_def using gr(1) [OF True] True brk dom x by simp
    qed (use z w in \<open>simp_all add: Let_def\<close>)
  next
    case False
    obtain g where g: "H1 (last_addr 0 heap_base bs) = Some g"
      "hseg (H1(last_addr 0 heap_base bs \<mapsto> g\<lparr>hb_next := blk\<rparr>)) 0 heap_base (bs @ [(False, n)]) 0"
      using gr(2) [OF False] by blast
    have z: "heap_last s1 \<noteq> 0" "heap_last s1 = last_addr 0 heap_base bs" "heap_start s1 \<noteq> 0" "heap_start s1 = of_nat heap_base"
      using la hs s1 False last_addr_nz [OF rel] by simp_all
    let ?H2 = "H1(last_addr 0 heap_base bs \<mapsto> g\<lparr>hb_next := blk\<rparr>)"
    let ?s2 = "s1\<lparr>hblocks := ?H2, heap_last := blk\<rparr>"
    have dom2: "unat a \<in> block_addrs heap_base (bs @ [(False, n)])" if "?H2 a = Some g'" "hb_magic g' = HEAP_MAGIC" for a g'
      using that dom [of a] g(1) by (cases "a = last_addr 0 heap_base bs") auto
    show ?thesis
    proof (rule that [of ?s2])
      show "heap_rel ?s2 (bs @ [(False, n)])"
        unfolding heap_rel_def using g(2) False brk dom2 x z by simp
    qed (use z w g(1) in \<open>simp_all add: Let_def hb_upd_def hb_get_def chain_step_hblocks_last\<close>)
  qed
qed

lemma heap_unlock:
  assumes "mutex_idle m" and "kheap_mutex s = mutex_taken m s0" and "current_task s = current_task s0"
  shows "mutex_unlock (kheap_mutex s) s = Inr (m, s)"
  using assms by simp

lemma kmalloc_fit:
  assumes inv: "heap_inv s" and rel: "heap_rel s bs" "coalesced bs"
    and fit: "first_fit (44 + unat sz) bs = Some (xs, n, ys)" and sz: "unat sz + 44 < 2 ^ 64"
  obtains s' l where "kmalloc sz line fn s = Inr (of_nat (heap_base + total_size xs + 44), s')"
    and "heap_inv s'" and "unat sz \<le> l" and "free_frames s' = free_frames s"
    and "heap_live s' = insert (heap_base + total_size xs + 44, l) (heap_live s)"
    and "kheap_break s' = kheap_break s" and "vspaces s' = vspaces s" and "tasks s' = tasks s"
    and "current_task s' = current_task s" and "phys s' = phys s" and "hstate.more s' = hstate.more s" and "vm_apart heap_slots VSPACE_KERNEL s s'"
proof -
  let ?x = "heap_base + total_size xs" and ?req = "HEADER_SIZE + sz"
  have bs: "bs = xs @ (True, n) # ys" "44 + unat sz \<le> n" using first_fit_Some [OF fit] by auto
  have ureq: "unat ?req = 44 + unat sz" using sz by (subst unat_add_no_wrap) (simp_all add: HEADER_SIZE_def)
  have lock: "mutex_idle (kheap_mutex s)" using inv by (simp add: heap_inv_def)
  define s0 where "s0 = s\<lparr>kheap_mutex := mutex_taken (kheap_mutex s) s\<rparr>"
  have rel0: "heap_rel s0 (xs @ (True, n) # ys)" using rel(1) bs by (simp add: s0_def)
  have seg: "hseg (hblocks s0) 0 heap_base bs 0" and st: "heap_start s = (if bs = [] then 0 else of_nat heap_base)"
    using rel0 bs by (simp_all add: heap_rel_def s0_def)
  have bound: "heap_base + total_size bs < 2 ^ 64" using heap_rel_bound [OF rel(1)] .
  have "length bs < pointer_fuel" using hseg_size [OF seg] bound by simp
  then have find: "find_fit pointer_fuel ?req (heap_start s) s0 = Inr (Some (of_nat ?x))"
    using find_fit_ok [OF seg _ bound] fit ureq unfolding st by simp
  obtain s1 where s1: "hb_upd (of_nat ?x) (\<lambda>h. h\<lparr>hb_available := 0, hb_function := fn, hb_line := line\<rparr>) s0 = Inr s1"
    "heap_rel s1 (xs @ (False, n) # ys)" "chain_step s0 s1"
    using set_available_ok [OF rel0 refl, of "\<lambda>h. h\<lparr>hb_available := 0, hb_function := fn, hb_line := line\<rparr>" False] by auto
  define bs' where "bs' = (if n - unat ?req \<le> 44 then xs @ (False, n) # ys
    else xs @ (False, unat ?req) # (True, n - unat ?req) # ys)"
  obtain s2 where s2: "crop (of_nat ?x) ?req s1 = Inr s2" "chain_step s1 s2" "heap_rel s2 bs'"
    using crop_ok [OF s1(2) refl, of ?req] bs(2) ureq unfolding bs'_def by auto
  note st2 = chain_step_trans [OF s1(3) s2(2)]
  define s' where "s' = s2\<lparr>kheap_mutex := kheap_mutex s\<rparr>"
  have "mutex_unlock (kheap_mutex s2) s2 = Inr (kheap_mutex s, s2)"
    using heap_unlock [OF lock, of s2 s] chain_step_frame(1,2) [OF st2] by (simp add: s0_def)
  then have "kmalloc sz line fn s = Inr (of_nat ?x + HEADER_SIZE, s')"
    using lock find s1(1) s2(1) by (simp add: kmalloc_def Let_def s'_def flip: s0_def)
  moreover have "of_nat ?x + HEADER_SIZE = of_nat (?x + 44)" by (simp add: HEADER_SIZE_def)
  moreover have "coalesced bs'" using coalesced_fit [OF rel(2) [unfolded bs(1)]] by (simp add: bs'_def)
  then have "heap_inv s'"
    using inv s2(3) chain_step_frame(4,5) [OF st2] by (auto simp: heap_inv_def s'_def s0_def)
  moreover have "heap_live s' = insert (?x + 44, if n - unat ?req \<le> 44 then n - 44 else unat sz) (heap_live s)"
    using heap_live_rel [OF s2(3)] heap_live_rel [OF rel(1)] bs ureq by (simp add: s'_def bs'_def add.assoc)
  ultimately show ?thesis
    using that [of s' "if n - unat ?req \<le> 44 then n - 44 else unat sz"] bs(2) chain_step_frame [OF st2]
      chain_step_apart(1) [OF st2, of heap_slots VSPACE_KERNEL s] vm_apart_refl [of heap_slots VSPACE_KERNEL s]
    by (simp add: s'_def s0_def split: if_splits)
qed

lemma kmalloc_grow:
  assumes inv: "heap_inv s" and rel: "heap_rel s bs" "coalesced bs"
    and fit: "first_fit (44 + unat sz) bs = None" and sz: "unat (kheap_break s) + unat sz + 44 < 2 ^ 64"
    and space: "4 * ((unat sz + 44) div 4096 + 2) \<le> free_frames s"
  obtains s' where "kmalloc sz line fn s = Inr (kheap_break s + HEADER_SIZE, s')"
    and "heap_inv s'" and "heap_live s' = insert (unat (kheap_break s) + 44, unat sz) (heap_live s)"
    and "unat (kheap_break s') = unat (kheap_break s) + 44 + unat sz"
    and "free_frames s \<le> free_frames s' + 4 * ((unat sz + 44) div 4096 + 2)"
    and "vspaces s' = vspaces s" and "tasks s' = tasks s" and "current_task s' = current_task s"
    and "hstate.more s' = hstate.more s" and "vm_apart heap_slots VSPACE_KERNEL s s'"
proof -
  let ?req = "HEADER_SIZE + sz" and ?inc = "sz + HEADER_SIZE"
  have ureq: "unat ?req = 44 + unat sz" using sz by (subst unat_add_no_wrap) (simp_all add: HEADER_SIZE_def)
  have uinc: "?inc = ?req" by (rule add.commute)
  have uinc': "unat ?inc = unat sz + 44" by (simp add: uinc ureq)
  have lock: "mutex_idle (kheap_mutex s)" using inv by (simp add: heap_inv_def)
  define s0 where "s0 = s\<lparr>kheap_mutex := mutex_taken (kheap_mutex s) s\<rparr>"
  have rel0: "heap_rel s0 bs" using rel(1) by (simp add: s0_def)
  have seg: "hseg (hblocks s0) 0 heap_base bs 0" and st: "heap_start s = (if bs = [] then 0 else of_nat heap_base)"
    and brk: "unat (kheap_break s0) = heap_base + total_size bs"
    using rel0 by (simp_all add: heap_rel_def s0_def)
  have heap_start_s0: "heap_start s0 = heap_start s" by (simp add: s0_def)
  have s0b: "kheap_break s0 = kheap_break s" "free_frames s0 = free_frames s" by (simp_all add: s0_def)
  have bound: "heap_base + total_size bs < 2 ^ 64" using heap_rel_bound [OF rel(1)] .
  have "length bs < pointer_fuel" using hseg_size [OF seg] bound by simp
  then have find: "find_fit pointer_fuel ?req (heap_start s) s0 = Inr None"
    using find_fit_ok [OF seg _ bound, of pointer_fuel ?req] fit ureq unfolding st by simp
  have vm0: "vspace_inv heap_slots VSPACE_KERNEL s0" "heap_pages_mapped s0" "heap_base \<le> unat (kheap_break s0)"
    "unat (kheap_break s0) + unat ?inc < 2 ^ 64" "4 * (unat ?inc div 4096 + 2) \<le> free_frames s0"
    using inv brk sz space uinc' s0b by (simp_all add: heap_inv_def s0_def)
  obtain s1 where s1: "kbrk ?inc s0 = Inr (kheap_break s0, s1)" "vm_frame (s0\<lparr>kheap_break := kheap_break s0 + ?inc\<rparr>) s1"
    "vspace_inv heap_slots VSPACE_KERNEL s1" "heap_pages_mapped s1"
    "free_frames s0 \<le> free_frames s1 + 4 * (unat ?inc div 4096 + 2)" "vm_apart heap_slots VSPACE_KERNEL s0 s1"
    using kbrk_grow [OF vm0] by blast
  note fr = vm_frame_heap [OF s1(2), simplified]
  let ?blk = "kheap_break s"
  let ?f = "\<lambda>h. h\<lparr>hb_available := 0, hb_magic := HEAP_MAGIC, hb_next := 0, hb_prev := heap_last s1,
    hb_size := ?req, hb_function := fn, hb_line := line\<rparr>"
  have hdr: "header_ok (?f h) False (44 + unat sz) (heap_last s0) 0" for h
    using fr by (simp add: header_ok_def HEADER_SIZE_def)
  have nb: "heap_base + total_size bs + (44 + unat sz) < 2 ^ 64" using sz brk s0b by simp
  have b1: "kheap_break s1 = kheap_break s0 + HEADER_SIZE + sz" using fr by (simp add: add.commute add.left_commute)
  obtain s2 where link: "(let s' = hb_write ?blk ?f s1 in
      rbind (if heap_last s' \<noteq> 0 then hb_upd (heap_last s') (\<lambda>h. h\<lparr>hb_next := ?blk\<rparr>) s' else Inr s') (\<lambda>s.
        let s = s\<lparr>heap_last := ?blk\<rparr>; s = (if heap_start s = 0 then s\<lparr>heap_start := ?blk\<rparr> else s) in
        Inr s)) = Inr s2"
    and s2: "heap_rel s2 (bs @ [(False, 44 + unat sz)])" "chain_step s1 s2"
    using link_block [OF rel0 fr(4,2,3) b1 refl nb s0b(1) [symmetric], of ?f] hdr by blast
  have ne: "?blk \<noteq> - 1"
    using nb brk s0b by (auto simp: unsigned_minus_1_eq_mask mask_eq_exp_minus_1)
  define s' where "s' = s2\<lparr>kheap_mutex := kheap_mutex s\<rparr>"
  have "mutex_unlock (kheap_mutex s2) s2 = Inr (kheap_mutex s, s2)"
    using heap_unlock [OF lock, of s2 s] chain_step_frame(1,2) [OF s2(2)] fr by (simp add: s0_def)
  then have "kmalloc sz line fn s = Inr (?blk + HEADER_SIZE, s')"
  proof -
    define w where "w = hb_write ?blk ?f s1"
    obtain y where y: "(if heap_last w \<noteq> 0 then hb_upd (heap_last w) (\<lambda>h. h\<lparr>hb_next := ?blk\<rparr>) w else Inr w) = Inr y"
      "(let s = y\<lparr>heap_last := ?blk\<rparr> in if heap_start s = 0 then s\<lparr>heap_start := ?blk\<rparr> else s) = s2"
      using link unfolding Let_def rbind_eq_Inr w_def by blast
    show ?thesis using \<open>mutex_unlock (kheap_mutex s2) s2 = Inr (kheap_mutex s, s2)\<close>
      unfolding kmalloc_def Let_def mutex_lock_idle [OF lock] rbind_Inr s0_def [symmetric]
      using find s1(1) [unfolded s0b] ne y
      by (simp add: Let_def s'_def heap_start_s0 cong: if_cong flip: w_def split del: if_split)
  qed
  moreover have "heap_inv s'"
    using s1(3,4) s2(1) coalesced_append [OF rel(2)] lock chain_step_frame(4,5) [OF s2(2)]
    by (auto simp: heap_inv_def s'_def)
  moreover have "heap_live s' = insert (unat (kheap_break s) + 44, unat sz) (heap_live s)"
    using heap_live_rel [OF s2(1)] heap_live_rel [OF rel(1)] brk s0b by (simp add: s'_def)
  moreover have "unat (kheap_break s') = unat (kheap_break s) + 44 + unat sz"
    using s2(1) brk s0b by (simp add: heap_rel_def s'_def)
  ultimately show ?thesis
    using that [of s'] s0b s1(5,6) uinc' chain_step_frame [OF s2(2)] chain_step_apart(1) [OF s2(2)] fr by (simp add: s'_def s0_def)
qed

section \<open>Release\<close>

lemma hb_is_free_block:
  assumes "heap_rel s (xs @ (v, n) # ys)" and "x = heap_base + total_size xs"
  shows "hb_is_free (of_nat x) s = Inr v"
proof -
  obtain h where "hblocks s (of_nat x) = Some h"
    "header_ok h v n (last_addr 0 heap_base xs) (if ys = [] then 0 else of_nat (x + n))"
    using heap_rel_header [OF assms] by blast
  then show ?thesis using block_addr_of(3) [OF assms] by (simp add: hb_is_free_def hb_get_def header_ok_def)
qed

lemma hb_is_free_NULL [simp]: "hb_is_free 0 s = Inr False"
  by (simp add: hb_is_free_def)

lemma hb_is_free_last:
  assumes "heap_rel s bs"
  shows "hb_is_free (last_addr 0 heap_base bs) s = Inr (bs \<noteq> [] \<and> fst (last bs))"
proof (cases bs rule: rev_cases)
  case (snoc xs b)
  then show ?thesis using hb_is_free_block [of s xs "fst b" "snd b" "[]" "heap_base + total_size xs"] assms by simp
qed simp

lemma merge_blocks_ok:
  assumes rel: "heap_rel s (xs @ (v, n) # (w, m) # ys)" and x: "x = heap_base + total_size xs"
  obtains s' where "merge_blocks (of_nat x) (of_nat (x + n)) s = Inr s'" and "chain_step s s'"
    and "heap_rel s' (xs @ (v, n + m) # ys)"
proof -
  have rel': "heap_rel s ((xs @ [(v, n)]) @ (w, m) # ys)" using rel by simp
  obtain h where h: "hblocks s (of_nat x) = Some h"
    and ho: "header_ok h v n (last_addr 0 heap_base xs) (of_nat (x + n))"
    using heap_rel_header [OF rel x] by auto
  obtain h2 where h2: "hblocks s (of_nat (x + n)) = Some h2"
    and ho2: "header_ok h2 w m (of_nat x) (if ys = [] then 0 else of_nat (x + n + m))"
    using heap_rel_header [OF rel', of "x + n"] x by (auto simp: add.assoc)
  have b: "unat (of_nat (x + n) :: u64) = x + n" "x + n + m < 2 ^ 64"
    using block_addr_of(1,2) [OF rel', of "x + n"] x by (simp_all add: add.assoc)
  have seg: "hseg (hblocks s) 0 heap_base (xs @ (v, n) # (w, m) # ys) 0" using rel by (simp add: heap_rel_def)
  have bound: "heap_base + total_size (xs @ (v, n) # (w, m) # ys) \<le> 2 ^ 64" using heap_rel_bound [OF rel] by simp
  define h1 where "h1 = h\<lparr>hb_size := hb_size h + hb_size h2, hb_next := hb_next h2\<rparr>"
  define H1 where "H1 = (hblocks s)(of_nat x \<mapsto> h1)"
  define g' where "g' = h2\<lparr>hb_magic := 0\<rparr>"
  note mg = hseg_merge [OF seg bound x h h2 h1_def H1_def, of g']
  have ne: "(of_nat x :: u64) \<noteq> of_nat (x + n)" and n44: "44 \<le> n" "44 \<le> m"
    using of_nat_u64_eq [of x "x + n"] b ho ho2 by (simp_all add: header_ok_def)
  have magic: "hb_magic h = HEAP_MAGIC" "hb_magic h2 = HEAP_MAGIC" using ho ho2 by (simp_all add: header_ok_def)
  have dom1: "unat a \<in> block_addrs heap_base (xs @ (v, n) # (w, m) # ys)" if "H1 a = Some k" "hb_magic k = HEAP_MAGIC" for a k
    using that rel block_addr_of(1) [OF rel x] x by (auto simp: H1_def heap_rel_def split: if_splits)
  have dom: "unat a \<in> block_addrs heap_base (xs @ (v, n + m) # ys)"
    if "unat a \<in> block_addrs heap_base (xs @ (v, n) # (w, m) # ys)" "a \<noteq> of_nat (x + n)" for a
  proof -
    have "unat a \<noteq> x + n" using that(2) b(1) by (metis of_nat_unat_word)
    then show ?thesis using that(1) x by (auto simp: add.assoc)
  qed
  have nz: "HEAP_MAGIC \<noteq> 0" by (simp add: HEAP_MAGIC_def)
  show ?thesis
  proof (cases "ys = []")
    case True
    let ?s' = "s\<lparr>hblocks := H1(of_nat (x + n) \<mapsto> g'), heap_last := of_nat x\<rparr>"
    have "merge_blocks (of_nat x) (of_nat (x + n)) s = Inr ?s'"
      using h h2 magic ho2 True ne
      by (simp add: merge_blocks_def hb_get_def hb_upd_def header_ok_def H1_def h1_def g'_def del: of_nat_add)
    moreover have "heap_rel ?s' (xs @ (v, n + m) # ys)"
      unfolding heap_rel_def
    proof (intro conjI allI impI)
      show "unat a \<in> block_addrs heap_base (xs @ (v, n + m) # ys)"
        if "hblocks ?s' a = Some k" "hb_magic k = HEAP_MAGIC" for a k
        using that dom [of a] dom1 [of a] nz by (cases "a = of_nat (x + n)") (auto simp: g'_def simp del: of_nat_add)
    qed (use mg(1) [OF True] rel x True in \<open>auto simp: heap_rel_def\<close>)
    ultimately show ?thesis using that [of ?s'] by (simp add: chain_step_hblocks_last del: of_nat_add)
  next
    case False
    obtain g where g: "H1 (of_nat (x + n + m)) = Some g"
      "hseg (H1(of_nat (x + n + m) \<mapsto> g\<lparr>hb_prev := of_nat x\<rparr>, of_nat (x + n) \<mapsto> g')) 0 heap_base (xs @ (v, n + m) # ys) 0"
      using mg(2) [OF False] by blast
    let ?H = "H1(of_nat (x + n + m) \<mapsto> g\<lparr>hb_prev := of_nat x\<rparr>, of_nat (x + n) \<mapsto> g')"
    let ?s' = "s\<lparr>hblocks := ?H\<rparr>"
    have nn: "hb_next h2 = of_nat (x + n + m)" "(of_nat (x + n + m) :: u64) \<noteq> 0"
      "(of_nat (x + n) :: u64) \<noteq> of_nat (x + n + m)"
      using ho2 False b(2) n44 of_nat_u64_eq [of "x + n + m" 0] of_nat_u64_eq [of "x + n" "x + n + m"]
      by (simp_all add: header_ok_def)
    have "merge_blocks (of_nat x) (of_nat (x + n)) s = Inr ?s'"
      using h h2 magic nn ne g(1)
      by (simp add: merge_blocks_def hb_get_def hb_upd_def H1_def h1_def g'_def del: of_nat_add)
    moreover have "heap_rel ?s' (xs @ (v, n + m) # ys)"
      unfolding heap_rel_def
    proof (intro conjI allI impI)
      show "unat a \<in> block_addrs heap_base (xs @ (v, n + m) # ys)"
        if k: "hblocks ?s' a = Some k" "hb_magic k = HEAP_MAGIC" for a k
      proof -
        have "a \<noteq> of_nat (x + n)" using k nz by (auto simp: g'_def simp del: of_nat_add)
        moreover have "unat a \<in> block_addrs heap_base (xs @ (v, n) # (w, m) # ys)"
          using k calculation dom1 [of a] g(1) by (cases "a = of_nat (x + n + m)") (auto simp del: of_nat_add)
        ultimately show ?thesis using dom by blast
      qed
      have "last_addr (of_nat (x + n)) (x + n + m) ys = last_addr (of_nat x) (x + n + m) ys"
        using False by (cases ys) auto
      then show "heap_last ?s' = last_addr 0 heap_base (xs @ (v, n + m) # ys)"
        using rel x by (simp add: heap_rel_def add.assoc)
    qed (use g(2) rel x in \<open>auto simp: heap_rel_def\<close>)
    ultimately show ?thesis using that [of ?s'] by (simp add: chain_step_hblocks del: of_nat_add)
  qed
qed

lemma heap_rel_vm_frame:
  assumes "vm_frame (s\<lparr>kheap_break := b\<rparr>) s'"
  shows "heap_rel s' bs \<longleftrightarrow> heap_rel (s\<lparr>kheap_break := b\<rparr>) bs"
  using vm_frame_heap [OF assms] by (simp add: heap_rel_def)

text \<open>Unlinking the last block.\<close>

lemma unlink_last:
  assumes rel: "heap_rel s (xs @ [(v, n)])" and x: "x = heap_base + total_size xs"
  obtains s1 h where "hb_upd (of_nat x) (\<lambda>h. h\<lparr>hb_magic := 0\<rparr>) s = Inr s1" and "hblocks s1 (of_nat x) = Some h"
    and "hb_size h = of_nat n" and "heap_last s1 = of_nat x"
    and "\<exists>s2. (if hb_prev h \<noteq> 0 then
          rbind (hb_upd (hb_prev h) (\<lambda>h. h\<lparr>hb_next := 0\<rparr>) s1) (\<lambda>s. Inr (s\<lparr>heap_last := hb_prev h\<rparr>))
        else Inr (s1\<lparr>heap_start := 0, heap_last := 0\<rparr>)) = Inr s2 \<and>
      chain_step s s2 \<and> heap_rel (s2\<lparr>kheap_break := kheap_break s - of_nat n\<rparr>) xs"
proof -
  obtain h0 where h0: "hblocks s (of_nat x) = Some h0" "header_ok h0 v n (last_addr 0 heap_base xs) 0"
    using heap_rel_header [OF rel x] by auto
  note b = block_addr_of [OF rel x]
  define h where "h = h0\<lparr>hb_magic := 0\<rparr>"
  define H1 where "H1 = (hblocks s)(of_nat x \<mapsto> h)"
  define s1 where "s1 = s\<lparr>hblocks := H1\<rparr>"
  have seg: "hseg (hblocks s) 0 heap_base xs (of_nat x)" "44 \<le> n"
    using rel h0(2) x by (simp_all add: heap_rel_def hseg_split header_ok_def)
  have seg1: "hseg H1 0 heap_base xs (of_nat x)"
    unfolding H1_def using seg b(2) x by (subst hseg_upd) simp_all
  have brk: "unat (kheap_break s - of_nat n) = heap_base + total_size xs"
  proof -
    have "unat (kheap_break s) = x + n" "unat (of_nat n :: u64) = n"
      using rel x b(2) by (simp_all add: heap_rel_def unat_of_nat_small)
    then show ?thesis using x by (simp add: unat_sub_no_wrap word_le_nat_alt)
  qed
  have nz: "HEAP_MAGIC \<noteq> 0" by (simp add: HEAP_MAGIC_def)
  have dom: "unat a \<in> block_addrs heap_base xs" if "H1 a = Some k" "hb_magic k = HEAP_MAGIC" for a k
  proof -
    have "a \<noteq> of_nat x" using that nz by (auto simp: H1_def h_def)
    then have "unat a \<noteq> x" "hblocks s a = Some k" using b(1) that by (auto simp: H1_def)
    then show ?thesis using that(2) rel x by (auto simp: heap_rel_def)
  qed
  have prev: "hb_prev h = last_addr 0 heap_base xs" using h0(2) by (simp add: h_def header_ok_def)
  have "\<exists>s2. (if hb_prev h \<noteq> 0 then
          rbind (hb_upd (hb_prev h) (\<lambda>h. h\<lparr>hb_next := 0\<rparr>) s1) (\<lambda>s. Inr (s\<lparr>heap_last := hb_prev h\<rparr>))
        else Inr (s1\<lparr>heap_start := 0, heap_last := 0\<rparr>)) = Inr s2 \<and>
      chain_step s s2 \<and> heap_rel (s2\<lparr>kheap_break := kheap_break s - of_nat n\<rparr>) xs"
  proof (cases "xs = []")
    case True
    have "chain_step s (s1\<lparr>heap_start := 0, heap_last := 0\<rparr>)" unfolding chain_step_def s1_def
      by (rule exI [of _ H1], rule exI [of _ 0], rule exI [of _ 0]) simp
    then show ?thesis using True prev brk dom by (auto simp: heap_rel_def s1_def)
  next
    case False
    have rx: "xs = butlast xs @ [(fst (last xs), snd (last xs))]" using False by simp
    have rel': "heap_rel s (butlast xs @ (fst (last xs), snd (last xs)) # [(v, n)])"
      using rel rx by (metis append.assoc append_Cons append_Nil)
    have pnz: "last_addr 0 heap_base xs \<noteq> 0"
      using block_addr_of(3) [OF rel' refl] by (subst rx) simp
    have ub: "heap_base + total_size xs \<le> 2 ^ 64" using b(2) x by simp
    obtain g where g: "H1 (last_addr 0 heap_base xs) = Some g"
      "hseg (H1(last_addr 0 heap_base xs \<mapsto> g\<lparr>hb_next := 0\<rparr>)) 0 heap_base xs 0"
      using hseg_set_next [OF seg1 False ub] by metis
    let ?H = "H1(last_addr 0 heap_base xs \<mapsto> g\<lparr>hb_next := 0\<rparr>)"
    let ?s2 = "s\<lparr>hblocks := ?H, heap_last := last_addr 0 heap_base xs\<rparr>"
    have "heap_rel (?s2\<lparr>kheap_break := kheap_break s - of_nat n\<rparr>) xs"
      unfolding heap_rel_def
    proof (intro conjI allI impI)
      show "unat a \<in> block_addrs heap_base xs"
        if "hblocks (?s2\<lparr>kheap_break := kheap_break s - of_nat n\<rparr>) a = Some k" "hb_magic k = HEAP_MAGIC" for a k
        using that dom [of a] g(1) by (cases "a = last_addr 0 heap_base xs") auto
    qed (use g(2) brk rel False in \<open>auto simp: heap_rel_def\<close>)
    moreover have "(if hb_prev h \<noteq> 0 then
          rbind (hb_upd (hb_prev h) (\<lambda>h. h\<lparr>hb_next := 0\<rparr>) s1) (\<lambda>s. Inr (s\<lparr>heap_last := hb_prev h\<rparr>))
        else Inr (s1\<lparr>heap_start := 0, heap_last := 0\<rparr>)) = Inr ?s2"
      using pnz prev g(1) by (simp add: hb_upd_def hb_get_def s1_def)
    ultimately show ?thesis using chain_step_hblocks_last [where H = ?H] by blast
  qed
  moreover have "hb_upd (of_nat x) (\<lambda>h. h\<lparr>hb_magic := 0\<rparr>) s = Inr s1" "hblocks s1 (of_nat x) = Some h"
    "hb_size h = of_nat n" "heap_last s1 = of_nat x"
    using h0 rel x by (simp_all add: hb_upd_def hb_get_def s1_def H1_def h_def header_ok_def heap_rel_def)
  ultimately show ?thesis using that by blast
qed

text \<open>Shrinking drops an available block at the end and stops there.\<close>

lemma shrink_heap_stop:
  assumes "heap_rel s bs" and "bs = [] \<or> \<not> fst (last bs)" and "0 < fuel"
  shows "shrink_heap fuel s = Inr s"
proof -
  obtain f where "fuel = Suc f" using assms(3) gr0_implies_Suc by blast
  moreover have "heap_last s = last_addr 0 heap_base bs" using assms(1) by (simp add: heap_rel_def)
  ultimately show ?thesis using hb_is_free_last [OF assms(1)] assms(2) by simp
qed

definition heap_step :: "'a hstate_scheme \<Rightarrow> 'a hstate_scheme \<Rightarrow> bool" where
  "heap_step s s' \<longleftrightarrow> kheap_mutex s' = kheap_mutex s \<and> current_task s' = current_task s \<and> tasks s' = tasks s \<and>
     vspaces s' = vspaces s \<and> hstate.more s' = hstate.more s \<and> free_frames s \<le> free_frames s' \<and>
     unat (kheap_break s') \<le> unat (kheap_break s) \<and> vm_apart heap_slots VSPACE_KERNEL s s' \<and>
     (vspace_inv heap_slots VSPACE_KERNEL s \<and> heap_pages_mapped s \<longrightarrow>
      vspace_inv heap_slots VSPACE_KERNEL s' \<and> heap_pages_mapped s')"

lemma heap_step_chain: "chain_step s s' \<Longrightarrow> heap_step s s'"
  using chain_step_frame [of s s'] chain_step_apart(1) [of s s' _ _ s] vm_apart_refl by (simp add: heap_step_def)

lemma heap_step_trans: "heap_step s s' \<Longrightarrow> heap_step s' s'' \<Longrightarrow> heap_step s s''"
  unfolding heap_step_def by (auto intro: vm_apart_trans)

lemma shrink_heap_drop:
  assumes rel: "heap_rel s (xs @ [(True, n)])" and stop: "xs = [] \<or> \<not> fst (last xs)" and fuel: "1 < fuel"
    and vm: "vspace_inv heap_slots VSPACE_KERNEL s" "heap_pages_mapped s"
  obtains s' where "shrink_heap fuel s = Inr s'" and "heap_rel s' xs" and "heap_step s s'"
proof -
  define x where "x = heap_base + total_size xs"
  obtain f where f: "fuel = Suc f" "0 < f" using fuel by (cases fuel) auto
  obtain s1 h s2 where s1: "hb_upd (of_nat x) (\<lambda>h. h\<lparr>hb_magic := 0\<rparr>) s = Inr s1" "hblocks s1 (of_nat x) = Some h"
      "hb_size h = of_nat n" "heap_last s1 = of_nat x"
    and s2: "(if hb_prev h \<noteq> 0 then
          rbind (hb_upd (hb_prev h) (\<lambda>h. h\<lparr>hb_next := 0\<rparr>) s1) (\<lambda>s. Inr (s\<lparr>heap_last := hb_prev h\<rparr>))
        else Inr (s1\<lparr>heap_start := 0, heap_last := 0\<rparr>)) = Inr s2"
      "chain_step s s2" "heap_rel (s2\<lparr>kheap_break := kheap_break s - of_nat n\<rparr>) xs"
    using unlink_last [OF rel x_def] by metis
  have n: "44 \<le> n" using heap_rel_header [OF rel x_def] by (auto simp: header_ok_def)
  note b = block_addr_of [OF rel x_def]
  have un: "unat (of_nat n :: u64) = n" "unat (kheap_break s) = x + n"
    using b(2) rel by (simp_all add: unat_of_nat_small heap_rel_def x_def)
  note fr = chain_step_frame [OF s2(2)]
  have vm2: "vspace_inv heap_slots VSPACE_KERNEL s2" "heap_pages_mapped s2" "0 < unat (of_nat n :: u64)"
    "heap_base + unat (of_nat n :: u64) \<le> unat (kheap_break s2)" using vm fr un n by (simp_all add: x_def)
  obtain s3 where s3: "kbrk (- of_nat n) s2 = Inr (kheap_break s2, s3)"
    "vm_frame (s2\<lparr>kheap_break := kheap_break s2 - of_nat n\<rparr>) s3" "vspace_inv heap_slots VSPACE_KERNEL s3"
    "heap_pages_mapped s3" "free_frames s2 \<le> free_frames s3" "vm_apart heap_slots VSPACE_KERNEL s2 s3"
    using kbrk_shrink [OF vm2] by blast
  have rel3: "heap_rel s3 xs" using heap_rel_vm_frame [OF s3(2)] s2(3) fr by simp
  have la: "heap_last s = of_nat x" using rel by (simp add: heap_rel_def x_def)
  have "hb_is_free (of_nat x) s = Inr True" using hb_is_free_block [OF rel x_def] .
  then have "shrink_heap fuel s = shrink_heap f s3"
    using s1 s2(1) s3(1) la unfolding f(1) by (simp add: hb_get_def Let_def split del: if_split)
  moreover have "shrink_heap f s3 = Inr s3" by (rule shrink_heap_stop [OF rel3 stop f(2)])
  moreover have "unat (kheap_break s3) \<le> unat (kheap_break s)"
    using rel3 un(2) by (simp add: heap_rel_def x_def)
  then have "heap_step s s3"
    using s3(3-6) fr vm_frame_heap [OF s3(2)] chain_step_apart(2) [OF s2(2)] by (simp add: heap_step_def)
  ultimately show ?thesis using that rel3 by simp
qed

lemma live_of_split:
  assumes "(y, l) \<in> live_of a bs"
  obtains xs n ys where "bs = xs @ (False, n) # ys" and "y = a + total_size xs + 44" and "l = n - 44"
  using assms
proof (induction bs arbitrary: a thesis)
  case (Cons b bs)
  obtain v n where b: "b = (v, n)" by (cases b)
  show ?case
  proof (cases "(y, l) \<in> live_of (a + n) bs")
    case True
    from Cons.IH [OF _ True] obtain xs m ys where "bs = xs @ (False, m) # ys"
      "y = a + n + total_size xs + 44" "l = m - 44" by blast
    then show ?thesis using Cons.prems(1) [of "b # xs" m ys] b by simp
  next
    case False
    then have "\<not> v" "y = a + 44" "l = n - 44" using Cons.prems(2) b by (auto split: if_splits)
    then show ?thesis using Cons.prems(1) [of "[]" n bs] b by simp
  qed
qed simp

lemma hb_is_free_prev:
  assumes "heap_rel s (xs @ ys)"
  shows "hb_is_free (last_addr 0 heap_base xs) s = Inr (xs \<noteq> [] \<and> fst (last xs))"
proof (cases xs rule: rev_cases)
  case (snoc us b)
  then show ?thesis using hb_is_free_block [of s us "fst b" "snd b" ys "heap_base + total_size us"] assms by simp
qed simp

text \<open>The two optional merges of \<^verbatim>\<open>kfree\<close>, on the abstract blocks behind and before the freed one.\<close>

definition join_next :: "nat \<Rightarrow> hblocks_abs \<Rightarrow> nat \<times> hblocks_abs" where
  "join_next n ys = (case ys of (True, m) # zs \<Rightarrow> (n + m, zs) | _ \<Rightarrow> (n, ys))"

definition join_prev :: "hblocks_abs \<Rightarrow> nat \<Rightarrow> hblocks_abs \<times> nat" where
  "join_prev xs n = (if xs \<noteq> [] \<and> fst (last xs) then (butlast xs, snd (last xs) + n) else (xs, n))"

lemma merge_next_ok:
  assumes rel: "heap_rel s (xs @ (v, n) # ys)" and x: "x = heap_base + total_size xs"
    and nxt: "nxt = (if ys = [] then 0 else of_nat (x + n))"
  obtains s' where "rbind (hb_is_free nxt s) (\<lambda>b. if b then merge_blocks (of_nat x) nxt s else Inr s) = Inr s'"
    and "chain_step s s'" and "heap_rel s' (xs @ (v, fst (join_next n ys)) # snd (join_next n ys))"
proof (cases ys)
  case Nil
  then show ?thesis using that [of s] rel nxt by (simp add: join_next_def chain_step_refl)
next
  case (Cons c zs)
  obtain w m where c: "c = (w, m)" by (cases c)
  have rel': "heap_rel s ((xs @ [(v, n)]) @ (w, m) # zs)" using rel Cons c by simp
  have free: "hb_is_free nxt s = Inr w"
    using hb_is_free_block [OF rel', of "x + n"] Cons x nxt by (simp add: add.assoc)
  show ?thesis
  proof (cases w)
    case True
    then show ?thesis
      using merge_blocks_ok [of s xs v n w m zs x] rel Cons c x free nxt that by (auto simp: join_next_def)
  next
    case False
    then show ?thesis using that [of s] rel Cons c free by (simp add: join_next_def chain_step_refl)
  qed
qed

lemma merge_prev_ok:
  assumes rel: "heap_rel s (xs @ (True, n) # ys)" and x: "x = heap_base + total_size xs"
  obtains s' where "rbind (hb_is_free (last_addr 0 heap_base xs) s)
      (\<lambda>b. if b then merge_blocks (last_addr 0 heap_base xs) (of_nat x) s else Inr s) = Inr s'"
    and "chain_step s s'"
    and "heap_rel s' (fst (join_prev xs n) @ (True, snd (join_prev xs n)) # ys)"
proof (cases "xs \<noteq> [] \<and> fst (last xs)")
  case True
  define us k where "us = butlast xs" and "k = snd (last xs)"
  have xs: "xs = us @ [(True, k)]"
    using True append_butlast_last_id [of xs] by (cases "last xs") (auto simp: us_def k_def)
  have rel': "heap_rel s (us @ (True, k) # (True, n) # ys)" using rel xs by simp
  have xk: "x = heap_base + total_size us + k" using x xs by simp
  obtain s' where "merge_blocks (of_nat (heap_base + total_size us)) (of_nat x) s = Inr s'" "chain_step s s'"
    "heap_rel s' (us @ (True, k + n) # ys)"
    unfolding xk by (rule merge_blocks_ok [OF rel' refl])
  moreover have "join_prev xs n = (us, k + n)" using True by (simp add: join_prev_def us_def k_def)
  moreover have "last_addr 0 heap_base xs = of_nat (heap_base + total_size us)" by (simp add: xs)
  ultimately show ?thesis using that [of s'] hb_is_free_prev [OF rel] True by (simp del: of_nat_add)
next
  case False
  then show ?thesis using that [of s] rel hb_is_free_prev [OF rel] by (auto simp: join_prev_def chain_step_refl)
qed

lemma join_live:
  "live_of a (fst (join_prev xs n) @ (True, snd (join_prev xs n)) # ys) =
     live_of a xs \<union> live_of (a + total_size xs + n) ys"
proof (cases "xs \<noteq> [] \<and> fst (last xs)")
  case True
  define us k where "us = butlast xs" and "k = snd (last xs)"
  have xs: "xs = us @ [(True, k)]"
    using True append_butlast_last_id [of xs] by (cases "last xs") (auto simp: us_def k_def)
  have "join_prev xs n = (us, k + n)" using True by (simp add: join_prev_def us_def k_def)
  moreover have "live_of a xs = live_of a us" "total_size xs = total_size us + k" by (simp_all add: xs)
  ultimately show ?thesis by (simp add: add.assoc)
qed (auto simp: join_prev_def)

lemma join_next_live:
  "live_of (a + fst (join_next n ys)) (snd (join_next n ys)) = live_of (a + n) ys"
  by (auto simp: join_next_def add.assoc split: list.split prod.split bool.split)

lemma coalesced_join:
  fixes k m n :: nat
  assumes "coalesced (xs @ (False, n) # ys)"
  defines "us \<equiv> fst (join_prev xs k)" and "zs \<equiv> snd (join_next n ys)"
  shows "us = [] \<or> \<not> fst (last us)" and "zs = [] \<Longrightarrow> coalesced us" and "zs \<noteq> [] \<Longrightarrow> coalesced (us @ (True, m) # zs)"
proof -
  have c: "successively (\<lambda>b c. \<not> (fst b \<and> fst c)) xs" "successively (\<lambda>b c. \<not> (fst b \<and> fst c)) ys"
    "ys \<noteq> [] \<longrightarrow> \<not> fst (last ys)"
    using assms(1) by (auto simp: coalesced_def successively_append_iff successively_Cons)
  have us: "successively (\<lambda>b c. \<not> (fst b \<and> fst c)) us \<and> (us = [] \<or> \<not> fst (last us))"
  proof (cases xs rule: rev_cases)
    case (snoc vs b)
    then show ?thesis using c(1) by (auto simp: us_def join_prev_def successively_append_iff)
  qed (simp add: us_def join_prev_def)
  have zs: "successively (\<lambda>b c. \<not> (fst b \<and> fst c)) zs" "zs \<noteq> [] \<longrightarrow> \<not> fst (hd zs) \<and> \<not> fst (last zs)"
    using c(2,3)
    by (auto simp: zs_def join_next_def successively_Cons split: list.splits prod.splits bool.splits if_splits)
  show "us = [] \<or> \<not> fst (last us)" using us by blast
  show "coalesced us" using us by (auto simp: coalesced_def)
  show "coalesced (us @ (True, m) # zs)" if "zs \<noteq> []"
    using us zs that by (auto simp: coalesced_def successively_append_iff successively_Cons)
qed

text \<open>The range check in front of \<^verbatim>\<open>kfree\<close> lets every live pointer pass.\<close>

lemma kfree_range:
  assumes rel: "heap_rel s (xs @ (v, n) # ys)" and p: "unat ptr = heap_base + total_size xs + 44"
  shows "heap_last s \<noteq> 0" "heap_start s \<noteq> 0" "\<not> ptr < heap_start s" "\<not> ptr > heap_last s + HEADER_SIZE"
    "ptr \<noteq> 0" "ptr - HEADER_SIZE = of_nat (heap_base + total_size xs)"
proof -
  have hs: "heap_start s = of_nat heap_base" and hl: "heap_last s = last_addr 0 heap_base (xs @ (v, n) # ys)"
    using rel by (simp_all add: heap_rel_def)
  show "heap_start s \<noteq> 0" using hs by simp
  show "\<not> ptr < heap_start s" using hs p by (simp add: word_less_nat_alt)
  show "ptr \<noteq> 0" using p by auto
  show "ptr - HEADER_SIZE = of_nat (heap_base + total_size xs)"
  proof -
    have "ptr = of_nat (heap_base + total_size xs + 44)" using p by (metis of_nat_unat_word)
    then show ?thesis by (simp add: HEADER_SIZE_def)
  qed
  show "heap_last s \<noteq> 0" using hl last_addr_nz [OF rel] by simp
  obtain us w m where us: "xs @ (v, n) # ys = us @ [(w, m)]" "total_size xs \<le> total_size us"
  proof (cases ys rule: rev_cases)
    case Nil
    then show ?thesis using that [of xs v n] by simp
  next
    case (snoc zs c)
    then show ?thesis using that [of "xs @ (v, n) # zs" "fst c" "snd c"] by simp
  qed
  have rel': "heap_rel s (us @ (w, m) # [])" using rel us by simp
  obtain h where "header_ok h w m (last_addr 0 heap_base us) 0"
    using heap_rel_header [OF rel' refl] by auto
  then have m: "44 \<le> m" by (simp add: header_ok_def)
  have "heap_last s = of_nat (heap_base + total_size us)" using hl us by simp
  then have "unat (heap_last s + HEADER_SIZE) = heap_base + total_size us + 44"
    using block_addr_of(1,2) [OF rel' refl] m by (subst unat_add_no_wrap) (simp_all add: HEADER_SIZE_def)
  then show "\<not> ptr > heap_last s + HEADER_SIZE" using p us(2) by (simp add: word_less_nat_alt)
qed

lemma shrink_heap_ok:
  assumes rel: "heap_rel s (us @ (True, k) # zs)" and us: "us = [] \<or> \<not> fst (last us)"
    and zs: "zs \<noteq> [] \<Longrightarrow> \<not> fst (last zs)" and fuel: "1 < fuel"
    and vm: "vspace_inv heap_slots VSPACE_KERNEL s" "heap_pages_mapped s"
  obtains s' where "shrink_heap fuel s = Inr s'" and "heap_step s s'"
    and "heap_rel s' (if zs = [] then us else us @ (True, k) # zs)"
proof (cases "zs = []")
  case True
  then have rel': "heap_rel s (us @ [(True, k)])" using rel by simp
  obtain s' where "shrink_heap fuel s = Inr s'" "heap_rel s' us" "heap_step s s'"
    by (rule shrink_heap_drop [OF rel' us fuel vm])
  then show ?thesis using that True by simp
next
  case False
  have "shrink_heap fuel s = Inr s" using shrink_heap_stop [OF rel] zs False fuel by simp
  moreover have "heap_step s s" by (rule heap_step_chain [OF chain_step_refl])
  ultimately show ?thesis using that rel False by simp
qed

lemma kfree_ok:
  assumes inv: "heap_inv s" and live: "(unat ptr, l) \<in> heap_live s"
  obtains s' where "kfree ptr s = Inr s'" and "heap_inv s'" and "heap_live s' = heap_live s - {(unat ptr, l)}"
    and "free_frames s \<le> free_frames s'" and "vspaces s' = vspaces s" and "tasks s' = tasks s"
    and "current_task s' = current_task s" and "hstate.more s' = hstate.more s"
    and "vm_apart heap_slots VSPACE_KERNEL s s'" and "unat (kheap_break s') \<le> unat (kheap_break s)"
proof -
  obtain bs where rel: "heap_rel s bs" "coalesced bs" and lock: "mutex_idle (kheap_mutex s)"
    and vm: "vspace_inv heap_slots VSPACE_KERNEL s" "heap_pages_mapped s" using inv by (auto simp: heap_inv_def)
  obtain xs n ys where bs: "bs = xs @ (False, n) # ys" and p: "unat ptr = heap_base + total_size xs + 44" and l: "l = n - 44"
    using live live_of_split unfolding heap_live_rel [OF rel(1)] by blast
  define x where "x = heap_base + total_size xs"
  define s0 where "s0 = s\<lparr>kheap_mutex := mutex_taken (kheap_mutex s) s\<rparr>"
  have rel0: "heap_rel s0 (xs @ (False, n) # ys)" using rel(1) bs by (simp add: s0_def)
  have rb: "heap_rel s (xs @ (False, n) # ys)" using rel(1) bs by simp
  note rg = kfree_range [OF rb p, folded x_def]
  define nxt where "nxt = (if ys = [] then 0 else of_nat (x + n) :: u64)"
  obtain h where h: "hblocks s0 (of_nat x) = Some h" "header_ok h False n (last_addr 0 heap_base xs) nxt"
    using heap_rel_header [OF rel0 x_def] unfolding nxt_def by blast
  then have hd: "hb_magic h = HEAP_MAGIC" "hb_available h = 0" "hb_next h = nxt" "hb_prev h = last_addr 0 heap_base xs"
    by (simp_all add: header_ok_def)
  obtain s1 where s1: "hb_upd (of_nat x) (\<lambda>h. h\<lparr>hb_available := 1\<rparr>) s0 = Inr s1" "heap_rel s1 (xs @ (True, n) # ys)" "chain_step s0 s1"
    using set_available_ok [OF rel0 x_def, of "\<lambda>h. h\<lparr>hb_available := 1\<rparr>" True] by auto
  define n1 zs where "n1 = fst (join_next n ys)" and "zs = snd (join_next n ys)"
  obtain s2 where s2: "rbind (hb_is_free nxt s1) (\<lambda>b. if b then merge_blocks (of_nat x) nxt s1 else Inr s1) = Inr s2"
    "chain_step s1 s2" "heap_rel s2 (xs @ (True, n1) # zs)"
    using merge_next_ok [OF s1(2) x_def nxt_def] unfolding n1_def zs_def by blast
  define us k where "us = fst (join_prev xs n1)" and "k = snd (join_prev xs n1)"
  obtain s3 where s3: "rbind (hb_is_free (last_addr 0 heap_base xs) s2)
      (\<lambda>b. if b then merge_blocks (last_addr 0 heap_base xs) (of_nat x) s2 else Inr s2) = Inr s3"
    "chain_step s2 s3" "heap_rel s3 (us @ (True, k) # zs)"
    using merge_prev_ok [OF s2(3) x_def] unfolding us_def k_def by blast
  note st = chain_step_trans [OF chain_step_trans [OF s1(3) s2(2)] s3(2)]
  note cj = coalesced_join [OF rel(2) [unfolded bs], folded zs_def, of n1, folded us_def]
  have vm3: "vspace_inv heap_slots VSPACE_KERNEL s3" "heap_pages_mapped s3"
    using vm chain_step_frame(4,5) [OF st] by (simp_all add: s0_def)
  have zl: "zs \<noteq> [] \<Longrightarrow> \<not> fst (last zs)" using cj(3) [of 0] by (auto simp: coalesced_def)
  obtain s4 where s4: "shrink_heap pointer_fuel s3 = Inr s4" "heap_step s3 s4"
    "heap_rel s4 (if zs = [] then us else us @ (True, k) # zs)"
    using shrink_heap_ok [OF s3(3) cj(1) zl _ vm3, of pointer_fuel] by auto
  define s' where "s' = s4\<lparr>kheap_mutex := kheap_mutex s\<rparr>"
  have fr: "kheap_mutex s4 = mutex_taken (kheap_mutex s) s" "current_task s4 = current_task s"
    using s4(2) chain_step_frame(1,2) [OF st] by (simp_all add: heap_step_def s0_def)
  have "mutex_unlock (kheap_mutex s4) s4 = Inr (kheap_mutex s, s4)" using heap_unlock [OF lock fr] .
  moreover obtain b2 where "hb_is_free nxt s1 = Inr b2" "(if b2 then merge_blocks (of_nat x) nxt s1 else Inr s1) = Inr s2"
    using s2(1) unfolding rbind_eq_Inr by blast
  moreover obtain b3 where "hb_is_free (last_addr 0 heap_base xs) s2 = Inr b3"
    "(if b3 then merge_blocks (last_addr 0 heap_base xs) (of_nat x) s2 else Inr s2) = Inr s3"
    using s3(1) unfolding rbind_eq_Inr by blast
  moreover have "hblocks s (of_nat x) = Some h" using h(1) by (simp add: s0_def)
  ultimately have run: "kfree ptr s = Inr s'"
    using rg lock hd s1(1) s4(1)
    by (simp add: kfree_def Let_def hb_get_def s'_def cong: if_cong flip: s0_def split del: if_split)
  have lv: "live_of heap_base (if zs = [] then us else us @ (True, k) # zs) = live_of heap_base xs \<union> live_of (x + n) ys"
    using join_live [of heap_base xs n1 zs] join_next_live [of x n ys]
    by (auto simp: us_def k_def x_def n1_def zs_def)
  have seg: "hseg (hblocks s) 0 heap_base xs (of_nat x)" "hseg (hblocks s) (of_nat x) (x + n) ys 0"
    using rb by (simp_all add: heap_rel_def hseg_split x_def)
  have "44 \<le> n" using h(2) by (simp add: header_ok_def)
  then have "(x + 44, n - 44) \<notin> live_of heap_base xs \<union> live_of (x + n) ys"
    using live_of_bounds [OF seg(1)] live_of_bounds [OF seg(2)] by (fastforce simp: x_def)
  then have "heap_live s' = heap_live s - {(unat ptr, l)}"
    using heap_live_rel [OF s4(3)] heap_live_rel [OF rel(1)] lv p l bs by (auto simp: s'_def x_def)
  moreover have "coalesced (if zs = [] then us else us @ (True, k) # zs)" using cj(2,3) by simp
  then have "heap_inv s'"
    using s4(2,3) vm3 lock by (auto simp: heap_inv_def s'_def heap_step_def)
  ultimately show ?thesis
    using that [of s'] run s4(2) chain_step_frame [OF st] chain_step_apart(2) [OF st] by (simp add: s'_def heap_step_def s0_def)
qed

lemma kfree_dead:
  assumes inv: "heap_inv s" and dead: "\<And>l. (unat ptr, l) \<notin> heap_live s" and nz: "ptr \<noteq> 0"
  shows "\<exists>e. kfree ptr s = Inl e"
proof (rule ccontr)
  assume "\<not> ?thesis"
  then obtain s' where run: "kfree ptr s = Inr s'" by (cases "kfree ptr s") auto
  have lock: "mutex_idle (kheap_mutex s)" using inv by (simp add: heap_inv_def)
  from run nz have g: "\<not> (heap_last s = 0 \<or> heap_start s = 0 \<or> ptr < heap_start s \<or> ptr > heap_last s + HEADER_SIZE)"
    by (simp add: kfree_def rbind_eq_Inr kpanic_eq_Inr)
  from run nz lock obtain h where h: "hblocks s (ptr - HEADER_SIZE) = Some h" "hb_magic h = HEAP_MAGIC" "hb_available h = 0"
    by (auto simp: kfree_def Let_def rbind_eq_Inr kpanic_eq_Inr hb_get_def split: option.splits)
  obtain bs where "heap_rel s bs" using inv by (auto simp: heap_inv_def)
  then have "heap_start s = of_nat heap_base" using g by (auto simp: heap_rel_def split: if_splits)
  then have "heap_base \<le> unat ptr" using g by (simp add: word_less_nat_alt not_less)
  then have "unat (ptr - HEADER_SIZE) + 44 = unat ptr"
    by (simp add: unat_sub_no_wrap HEADER_SIZE_def word_le_nat_alt)
  then have "(unat ptr, unat (hb_size h) - 44) \<in> heap_live s"
    using h unfolding heap_live_def mem_Collect_eq by metis
  then show False using dead by blast
qed

section \<open>The contract\<close>

text \<open>What the clients of the heap rely on.\<close>

locale memory_allocator =
  fixes malloc :: "u64 \<Rightarrow> 's \<Rightarrow> (u64 \<times> 's) result"
    and release :: "u64 \<Rightarrow> 's \<Rightarrow> 's result"
    and live :: "'s \<Rightarrow> (nat \<times> nat) set"
    and ok :: "'s \<Rightarrow> bool"
    and room :: "'s \<Rightarrow> u64 \<Rightarrow> bool"
  assumes malloc_ok: "ok s \<Longrightarrow> room s n \<Longrightarrow>
      \<exists>p s' l. malloc n s = Inr (p, s') \<and> ok s' \<and> p \<noteq> 0 \<and> unat n \<le> l \<and> (\<forall>l. (unat p, l) \<notin> live s) \<and>
        live s' = insert (unat p, l) (live s)"
    and release_ok: "ok s \<Longrightarrow> (unat p, l) \<in> live s \<Longrightarrow>
      \<exists>s'. release p s = Inr s' \<and> ok s' \<and> live s' = live s - {(unat p, l)}"
    and release_dead: "ok s \<Longrightarrow> p \<noteq> 0 \<Longrightarrow> \<forall>l. (unat p, l) \<notin> live s \<Longrightarrow> \<exists>e. release p s = Inl e"
    and live_apart: "ok s \<Longrightarrow> (x, l) \<in> live s \<Longrightarrow> (y, m) \<in> live s \<Longrightarrow> (x, l) \<noteq> (y, m) \<Longrightarrow>
      x + l < y \<or> y + m < x"
begin

lemma live_unique: "ok s \<Longrightarrow> (x, l) \<in> live s \<Longrightarrow> (x, m) \<in> live s \<Longrightarrow> l = m"
  using live_apart [of s x l x m] by auto

text \<open>Releasing what was just allocated restores the allocations, and a second release is caught.\<close>

lemma malloc_release:
  assumes "ok s" and "room s n" and "malloc n s = Inr (p, s')"
  shows "\<exists>s''. release p s' = Inr s'' \<and> ok s'' \<and> live s'' = live s \<and> (\<exists>e. release p s'' = Inl e)"
proof -
  obtain l where l: "ok s'" "p \<noteq> 0" "\<forall>l. (unat p, l) \<notin> live s" "live s' = insert (unat p, l) (live s)"
    using malloc_ok [OF assms(1,2)] assms(3) by auto
  obtain s'' where s'': "release p s' = Inr s''" "ok s''" "live s'' = live s' - {(unat p, l)}"
    using release_ok [OF l(1), of p l] l(4) by auto
  then have "live s'' = live s" using l(3,4) by auto
  moreover from this have "\<exists>e. release p s'' = Inl e" using release_dead [OF s''(2) l(2)] l(3) by simp
  ultimately show ?thesis using s'' by blast
qed

text \<open>Two allocations in a row do not overlap.\<close>

lemma malloc_disjoint:
  assumes "ok s" and "room s n" and "malloc n s = Inr (p, s')" and "room s' m" and "malloc m s' = Inr (q, s'')"
  shows "unat p + unat n < unat q \<or> unat q + unat m < unat p"
proof -
  obtain l where l: "ok s'" "unat n \<le> l" "live s' = insert (unat p, l) (live s)"
    using malloc_ok [OF assms(1,2)] assms(3) by auto
  obtain k where k: "ok s''" "unat m \<le> k" "\<forall>l. (unat q, l) \<notin> live s'" "live s'' = insert (unat q, k) (live s')"
    using malloc_ok [OF l(1) assms(4)] assms(5) by auto
  have "(unat p, l) \<noteq> (unat q, k)" using k(3) l(3) by auto
  then show ?thesis using live_apart [OF k(1), of "unat p" l "unat q" k] k l by auto
qed

end

definition heap_room :: "'a hstate_scheme \<Rightarrow> u64 \<Rightarrow> bool" where
  "heap_room s sz \<longleftrightarrow>
     unat (kheap_break s) + unat sz + 44 < 2 ^ 64 \<and> 4 * ((unat sz + 44) div 4096 + 2) \<le> free_frames s"

lemma kmalloc_ok:
  assumes inv: "heap_inv s" and room: "heap_room s sz"
  obtains p s' l where "kmalloc sz line fn s = Inr (p, s')" and "heap_inv s'" and "p \<noteq> 0" and "unat sz \<le> l"
    and "\<forall>l. (unat p, l) \<notin> heap_live s" and "heap_live s' = insert (unat p, l) (heap_live s)"
    and "vspaces s' = vspaces s" and "tasks s' = tasks s" and "current_task s' = current_task s"
    and "free_frames s \<le> free_frames s' + 4 * ((unat sz + 44) div 4096 + 2)"
    and "hstate.more s' = hstate.more s" and "vm_apart heap_slots VSPACE_KERNEL s s'"
    and "unat (kheap_break s') \<le> unat (kheap_break s) + unat sz + 44"
proof -
  obtain bs where rel: "heap_rel s bs" "coalesced bs" using inv by (auto simp: heap_inv_def)
  have seg: "hseg (hblocks s) 0 heap_base bs 0" and brk: "unat (kheap_break s) = heap_base + total_size bs"
    using rel(1) by (simp_all add: heap_rel_def)
  have sz: "unat sz + 44 < 2 ^ 64" "unat (kheap_break s) + unat sz + 44 < 2 ^ 64"
    and sp: "4 * ((unat sz + 44) div 4096 + 2) \<le> free_frames s" using room by (auto simp: heap_room_def)
  note live = heap_live_rel [OF rel(1)]
  show ?thesis
  proof (cases "first_fit (44 + unat sz) bs")
    case None
    obtain s' where s': "kmalloc sz line fn s = Inr (kheap_break s + HEADER_SIZE, s')" "heap_inv s'"
      "heap_live s' = insert (unat (kheap_break s) + 44, unat sz) (heap_live s)"
      "free_frames s \<le> free_frames s' + 4 * ((unat sz + 44) div 4096 + 2)"
      "vspaces s' = vspaces s" "tasks s' = tasks s" "current_task s' = current_task s"
      "hstate.more s' = hstate.more s" "vm_apart heap_slots VSPACE_KERNEL s s'"
      "unat (kheap_break s') = unat (kheap_break s) + 44 + unat sz"
      by (rule kmalloc_grow [OF inv rel None sz(2) sp])
    have u: "unat (kheap_break s + HEADER_SIZE) = unat (kheap_break s) + 44"
      using sz(2) by (subst unat_add_no_wrap) (simp_all add: HEADER_SIZE_def)
    have "(unat (kheap_break s) + 44, l) \<notin> heap_live s" for l
      using live_of_bounds [OF seg] brk unfolding live by fastforce
    moreover have "kheap_break s + HEADER_SIZE \<noteq> 0" using u by (metis add_is_0 unat_0 zero_neq_numeral)
    ultimately show ?thesis using that [OF s'(1,2), of "unat sz"] s' u by simp
  next
    case (Some t)
    obtain xs n ys where t: "t = (xs, n, ys)" by (cases t)
    have bs: "bs = xs @ (True, n) # ys" using first_fit_Some Some t by blast
    obtain s' l where s': "kmalloc sz line fn s = Inr (of_nat (heap_base + total_size xs + 44), s')" "heap_inv s'"
      "unat sz \<le> l" "heap_live s' = insert (heap_base + total_size xs + 44, l) (heap_live s)"
      "free_frames s' = free_frames s" "vspaces s' = vspaces s" "tasks s' = tasks s" "current_task s' = current_task s"
      "hstate.more s' = hstate.more s" "vm_apart heap_slots VSPACE_KERNEL s s'" "kheap_break s' = kheap_break s"
      by (rule kmalloc_fit [OF inv rel Some [unfolded t] sz(1)])
    have rel': "heap_rel s (xs @ (True, n) # ys)" using rel(1) bs by simp
    obtain h where "header_ok h True n (last_addr 0 heap_base xs) (if ys = [] then 0 else of_nat (heap_base + total_size xs + n))"
      using heap_rel_header [OF rel' refl] by blast
    then have n: "44 \<le> n" by (simp add: header_ok_def)
    have u: "unat (of_nat (heap_base + total_size xs + 44) :: u64) = heap_base + total_size xs + 44"
      using block_addr_of(2) [OF rel' refl] n by (intro unat_of_nat_small) simp
    have seg': "hseg (hblocks s) 0 heap_base xs (of_nat (heap_base + total_size xs))"
      "hseg (hblocks s) (of_nat (heap_base + total_size xs)) (heap_base + total_size xs + n) ys 0"
      using seg unfolding bs hseg_split by auto
    have "(heap_base + total_size xs + 44, k) \<notin> heap_live s" for k
      using live_of_bounds [OF seg'(1)] live_of_bounds [OF seg'(2)] n unfolding live bs by fastforce
    moreover have "(of_nat (heap_base + total_size xs + 44) :: u64) \<noteq> 0" using u by (metis add_is_0 unat_0 zero_neq_numeral)
    ultimately show ?thesis using that [OF s'(1,2), of l] s' u by simp
  qed
qed

text \<open>Room for a number of allocations of less than a page each, or for fewer of several pages.\<close>

definition heap_budget :: "'a hstate_scheme \<Rightarrow> nat \<Rightarrow> bool" where
  "heap_budget s k \<longleftrightarrow> unat (kheap_break s) + 4096 * k < 2 ^ 64 \<and> 8 * k \<le> free_frames s"

lemma kmalloc_units:
  assumes "heap_inv s" and "heap_budget s (u + k)" and "unat sz + 44 < 4096 * u"
  obtains p s' l where "kmalloc sz line fn s = Inr (p, s')" and "heap_inv s'" and "p \<noteq> 0" and "unat sz \<le> l"
    and "\<forall>l. (unat p, l) \<notin> heap_live s" and "heap_live s' = insert (unat p, l) (heap_live s)"
    and "current_task s' = current_task s" and "hstate.more s' = hstate.more s" and "heap_budget s' k"
proof -
  define d where "d = (unat sz + 44) div 4096"
  have d: "4 * (d + 2) \<le> 8 * u" "4 * (d + 2) + 8 * k \<le> 8 * (u + k)" 
  proof -
    have "d < u" using assms(3) unfolding d_def by (simp add: less_mult_imp_div_less mult.commute)
    then show "4 * (d + 2) \<le> 8 * u" by presburger
    then show "4 * (d + 2) + 8 * k \<le> 8 * (u + k)" by simp
  qed
  have b: "unat (kheap_break s) + 4096 * (u + k) < 2 ^ 64" "8 * (u + k) \<le> free_frames s"
    using assms(2) by (simp_all add: heap_budget_def)
  have "unat (kheap_break s) + unat sz + 44 < 2 ^ 64" using b(1) assms(3) by (simp add: distrib_left)
  moreover have "4 * (d + 2) \<le> free_frames s" using d b(2) by linarith
  ultimately have room: "heap_room s sz" by (simp only: heap_room_def d_def)
  show ?thesis
  proof (rule kmalloc_ok [OF assms(1) room, of line fn], goal_cases)
    case (1 p s' l)
    have "free_frames s \<le> free_frames s' + 4 * (d + 2)" using 1(10) by (simp only: d_def)
    then have "8 * k \<le> free_frames s'" using b(2) d by linarith
    moreover have "unat (kheap_break s') + 4096 * k < 2 ^ 64" using 1(13) b(1) assms(3) by (simp add: distrib_left)
    ultimately have "heap_budget s' k" unfolding heap_budget_def by blast
    then show ?case using 1 by (intro that [of p s' l])
  qed
qed

lemma kmalloc_small:
  assumes "heap_inv s" and "heap_budget s (Suc k)" and "unat sz + 44 < 4096"
  obtains p s' l where "kmalloc sz line fn s = Inr (p, s')" and "heap_inv s'" and "p \<noteq> 0" and "unat sz \<le> l"
    and "\<forall>l. (unat p, l) \<notin> heap_live s" and "heap_live s' = insert (unat p, l) (heap_live s)"
    and "current_task s' = current_task s" and "hstate.more s' = hstate.more s" and "heap_budget s' k"
  using kmalloc_units [of s 1 k sz line fn] assms by auto

lemma heap_budget_mono:
  "heap_budget s k \<Longrightarrow> unat (kheap_break s') \<le> unat (kheap_break s) \<Longrightarrow> free_frames s \<le> free_frames s' \<Longrightarrow> j \<le> k \<Longrightarrow>
   heap_budget s' j"
  by (simp add: heap_budget_def)

interpretation kheap: memory_allocator "\<lambda>n. kmalloc n line fn" kfree heap_live heap_inv heap_room
  for line :: u32 and fn :: u64
proof (unfold_locales, goal_cases)
  case (1 s n)
  show ?case by (rule kmalloc_ok [OF 1, of line fn]) blast
next
  case (2 s p l)
  show ?case by (rule kfree_ok [OF 2]) blast
next
  case (3 s p)
  then show ?case using kfree_dead by blast
next
  case (4 s x l y m)
  then obtain bs where rel: "heap_rel s bs" by (auto simp: heap_inv_def)
  then have "hseg (hblocks s) 0 heap_base bs 0" by (simp add: heap_rel_def)
  then show ?case using live_of_disjoint [of _ 0 heap_base bs 0 x l y m] 4(2-4) unfolding heap_live_rel [OF rel]
    by fastforce
qed

section \<open>Properties\<close>

lemma heap_live_mapped:
  assumes "heap_inv s" and "(x, l) \<in> heap_live s" and "x \<le> a" and "a < x + l"
  shows "vspace_mapping VSPACE_KERNEL s (of_nat (a div 4096)) \<noteq> None"
proof -
  obtain bs where rel: "heap_rel s bs" and pm: "heap_pages_mapped s" using assms(1) by (auto simp: heap_inv_def)
  have "heap_base + 44 \<le> x \<and> x + l \<le> unat (kheap_break s)"
    using live_of_bounds [of "hblocks s" 0 heap_base bs 0 x l] assms(2) rel
    unfolding heap_live_rel [OF rel] by (simp add: heap_rel_def)
  then have "heap_base div 4096 \<le> a div 4096" "a div 4096 * 4096 < unat (kheap_break s)"
    using assms(3,4) div_le_mono [of heap_base a 4096] div_times_less_eq_dividend [of a 4096] by linarith+
  then show ?thesis using pm by (simp add: heap_pages_mapped_def)
qed

text \<open>An empty kernel heap on the small machine.\<close>

definition small_heap :: hstate where
  "small_heap = vmstate.extend (small_vm\<lparr>vspaces := [VSPACE_KERNEL \<mapsto> \<lparr>vs_lock = MUTEX_INITIALIZER, vs_pml4_ppn = 1\<rparr>]\<rparr>)
     \<lparr>kheap_start = KHEAP_START, kheap_break = KHEAP_START, heap_start = 0, heap_last = 0,
      kheap_mutex = MUTEX_INITIALIZER, hblocks = Map.empty\<rparr>"

lemma small_heap_inv: "heap_inv small_heap" and small_heap_room: "heap_room small_heap 100"
  and small_heap_live: "heap_live small_heap = {}"
proof -
  have pg: "pg_used small_heap = {..<9}" "pg_total small_heap = 64" "pg_inv small_heap"
    using small_machine_used small_machine_total small_machine_inv
    by (simp_all add: small_heap_def small_vm_def small_machine_def vmstate.extend_def hstate.defs vmstate.defs
      pg_used_def pg_total_def pg_inv_def)
  have root: "vspace_root VSPACE_KERNEL small_heap = 1"
    by (simp add: small_heap_def vmstate.extend_def vspace_root_def)
  have "frames_owned heap_slots (phys small_heap) 1 (pg_used small_heap)"
    unfolding pg(1) by (rule frames_owned_empty) (simp_all add: small_heap_def vmstate.extend_def small_vm_def)
  then have vs: "vspace_inv heap_slots VSPACE_KERNEL small_heap"
    using pg root by (simp add: vspace_inv_def) (simp add: small_heap_def vmstate.extend_def)
  have hp: "kheap_break small_heap = KHEAP_START" "heap_start small_heap = 0" "heap_last small_heap = 0"
    "hblocks small_heap = Map.empty" "kheap_mutex small_heap = MUTEX_INITIALIZER"
    by (simp_all add: small_heap_def vmstate.extend_def)
  then have "heap_rel small_heap [] \<and> coalesced []"
    by (simp add: heap_rel_def KHEAP_START_def coalesced_def)
  moreover have "heap_pages_mapped small_heap" by (simp add: heap_pages_mapped_def hp KHEAP_START_def)
  ultimately show "heap_inv small_heap" unfolding heap_inv_def using vs hp(5) by auto
  have "free_frames small_heap = 55" using pg by (simp add: free_frames_def)
  then show "heap_room small_heap 100" by (simp add: heap_room_def hp KHEAP_START_def)
  show "heap_live small_heap = {}" by (simp add: heap_live_def hp)
qed

text \<open>
  C2: \<^verbatim>\<open>kmalloc\<close> succeeds whenever the address range behind the break and the free page frames
  suffice. It returns at least the requested number of bytes, adds exactly this one allocation,
  which overlaps no other live allocation and whose bytes are all in mapped pages, and keeps the
  heap well formed.
\<close>

theorem kmalloc_spec:
  assumes "heap_inv s" and "heap_room s sz"
  shows "\<exists>p s' l. kmalloc sz line fn s = Inr (p, s') \<and> heap_inv s' \<and> unat sz \<le> l \<and>
    heap_live s' = insert (unat p, l) (heap_live s) \<and>
    (\<forall>(x, m) \<in> heap_live s. x + m < unat p \<or> unat p + l < x) \<and>
    (\<forall>a. unat p \<le> a \<and> a < unat p + l \<longrightarrow> vspace_mapping VSPACE_KERNEL s' (of_nat (a div 4096)) \<noteq> None)"
proof (rule kmalloc_ok [OF assms, of line fn], goal_cases)
  case (1 p s' l)
  have "x + m < unat p \<or> unat p + l < x" if "(x, m) \<in> heap_live s" for x m
    using kheap.live_apart [OF 1(2), of x m "unat p" l] 1(5,6) that by auto
  then show ?case using 1 heap_live_mapped [OF 1(2), of "unat p" l] by blast
qed

lemma kmalloc_spec_witness:
  "\<exists>p s' l. heap_inv small_heap \<and> heap_room small_heap 100 \<and> kmalloc 100 7 0 small_heap = Inr (p, s') \<and>
    heap_inv s' \<and> 100 \<le> l \<and> heap_live s' = {(unat p, l)}"
  using kmalloc_spec [OF small_heap_inv small_heap_room, of 7 0] small_heap_inv small_heap_room small_heap_live
  by fastforce



text \<open>
  Allocating and releasing again leaves the live allocations as they were, and releasing the
  same pointer a second time does not return.
\<close>

theorem kmalloc_kfree_roundtrip:
  assumes "heap_inv s" and "heap_room s sz" and "kmalloc sz line fn s = Inr (p, s')"
  shows "\<exists>s''. kfree p s' = Inr s'' \<and> heap_inv s'' \<and> heap_live s'' = heap_live s \<and> (\<exists>e. kfree p s'' = Inl e)"
  using assms by (rule kheap.malloc_release)

lemma kmalloc_kfree_roundtrip_witness:
  "\<exists>p s s'. kmalloc 100 7 0 small_heap = Inr (p, s) \<and> kfree p s = Inr s' \<and> heap_live s' = {}"
proof (rule kmalloc_ok [OF small_heap_inv small_heap_room, of 7 0], goal_cases)
  case (1 p s l)
  then show ?case
    using kmalloc_kfree_roundtrip [OF small_heap_inv small_heap_room 1(1)] small_heap_live by fastforce
qed

end
