(* ===== verification/Linked_List.thy ===== *)
theory Linked_List
  imports Kheap
begin

text \<open>
  The doubly linked lists of \<^verbatim>\<open>libutil/list.c\<close>. The items in memory are the finite map \<open>list_items\<close>;
  they come from \<^verbatim>\<open>kmalloc\<close> and go back to \<^verbatim>\<open>kfree\<close>, after which their address designates nothing. The
  refinement lemmas show that the operations implement operations on sequences of payloads, which is
  how the other components model their lists.
\<close>

record list_item_t =
  li_next :: u64
  li_prev :: u64
  li_payload :: u64

record list_t =
  items :: u64
  list_magic :: u64
  list_first :: u64
  list_last :: u64

record lstate = hstate +
  list_items :: "u64 \<rightharpoonup> list_item_t"

definition LIST_MAGIC :: u64 where "LIST_MAGIC = 0xabffdeadbeefabff"

definition LIST_INITIALIZER :: list_t where
  "LIST_INITIALIZER = \<lparr>items = 0, list_magic = LIST_MAGIC, list_first = NULL, list_last = NULL\<rparr>"

definition SANITY_CHECK :: "list_t \<Rightarrow> unit result" where
  "SANITY_CHECK l = kassert (list_magic l = LIST_MAGIC) ''list is invalid or corrupt''"

definition li_get :: "u64 \<Rightarrow> 'a lstate_scheme \<Rightarrow> list_item_t result" where
  "li_get a s = (case list_items s a of None \<Rightarrow> Inl (Mem_Fault ''list_item_t'') | Some i \<Rightarrow> Inr i)"

definition li_upd :: "u64 \<Rightarrow> (list_item_t \<Rightarrow> list_item_t) \<Rightarrow> 'a lstate_scheme \<Rightarrow> 'a lstate_scheme result" where
  "li_upd a f s = rbind (li_get a s) (\<lambda>i. Inr (s\<lparr>list_items := (list_items s)(a \<mapsto> f i)\<rparr>))"

definition list_init :: "list_t \<Rightarrow> list_t" where
  "list_init l = l\<lparr>list_first := NULL, list_last := NULL, items := 0, list_magic := LIST_MAGIC\<rparr>"

text \<open>\<^verbatim>\<open>sizeof(list_item_t)\<close> is 24; the item gets all its fields before anything reads it.\<close>

definition list_add :: "list_t \<Rightarrow> u64 \<Rightarrow> 'a lstate_scheme \<Rightarrow> (u64 \<times> list_t \<times> 'a lstate_scheme) result" where
  "list_add l payload s =
     rbind (SANITY_CHECK l) (\<lambda>_.
     rbind (kmalloc 24 37 0 s) (\<lambda>(item, s).
     let s = s\<lparr>list_items := (list_items s)(item \<mapsto>
               \<lparr>li_next = NULL, li_prev = list_last l, li_payload = payload\<rparr>)\<rparr> in
     rbind (if list_last l \<noteq> NULL then
              rbind (li_upd (list_last l) (\<lambda>i. i\<lparr>li_next := item\<rparr>) s) (\<lambda>s. Inr (l, s))
            else Inr (l\<lparr>list_first := item\<rparr>, s)) (\<lambda>(l, s).
     let l = l\<lparr>list_last := item, items := items l + 1\<rparr> in
     Inr (items l - 1, l, s))))"

fun list_walk :: "nat \<Rightarrow> u64 \<Rightarrow> u64 \<Rightarrow> u64 \<Rightarrow> 'a lstate_scheme \<Rightarrow> u64 result" where
  "list_walk 0 item i index s = Inl Diverges"
| "list_walk (Suc n) item i index s =
     (if item = NULL then Inr NULL
      else if i = index then Inr item
      else rbind (li_get item s) (\<lambda>it. list_walk n (li_next it) (i + 1) index s))"

definition list_get_index :: "list_t \<Rightarrow> u64 \<Rightarrow> 'a lstate_scheme \<Rightarrow> u64 result" where
  "list_get_index l index s =
     rbind (SANITY_CHECK l) (\<lambda>_. list_walk pointer_fuel (list_first l) 0 index s)"

definition list_it_remove :: "list_t \<Rightarrow> u64 \<Rightarrow> 'a lstate_scheme \<Rightarrow> (list_t \<times> 'a lstate_scheme) result" where
  "list_it_remove l item s =
     rbind (SANITY_CHECK l) (\<lambda>_.
     rbind (kassert (item \<noteq> NULL) ''list iterator is null'') (\<lambda>_.
     rbind (li_get item s) (\<lambda>it.
     rbind (if li_prev it \<noteq> NULL then li_upd (li_prev it) (\<lambda>i. i\<lparr>li_next := li_next it\<rparr>) s else Inr s) (\<lambda>s.
     rbind (if li_next it \<noteq> NULL then li_upd (li_next it) (\<lambda>i. i\<lparr>li_prev := li_prev it\<rparr>) s else Inr s) (\<lambda>s.
     let l = (if list_first l = item then l\<lparr>list_first := li_next it\<rparr> else l);
         l = (if list_last l = item then l\<lparr>list_last := li_prev it\<rparr> else l);
         l = l\<lparr>items := items l - 1\<rparr> in
     rbind (kfree item (s\<lparr>list_items := (list_items s)(item := None)\<rparr>)) (\<lambda>s. Inr (l, s)))))))"

definition list_remove :: "list_t \<Rightarrow> u64 \<Rightarrow> 'a lstate_scheme \<Rightarrow> (list_t \<times> 'a lstate_scheme) result" where
  "list_remove l index s =
     rbind (SANITY_CHECK l) (\<lambda>_.
     rbind (list_get_index l index s) (\<lambda>item. list_it_remove l item s))"

text \<open>\<^verbatim>\<open>while (list->items > 0) list_remove(list, 0)\<close>\<close>

fun list_clear_loop :: "nat \<Rightarrow> list_t \<Rightarrow> 'a lstate_scheme \<Rightarrow> (list_t \<times> 'a lstate_scheme) result" where
  "list_clear_loop 0 l s = Inl Diverges"
| "list_clear_loop (Suc n) l s =
     (if items l > 0 then rbind (list_remove l 0 s) (\<lambda>(l, s). list_clear_loop n l s) else Inr (l, s))"

definition list_clear :: "list_t \<Rightarrow> 'a lstate_scheme \<Rightarrow> (list_t \<times> 'a lstate_scheme) result" where
  "list_clear l s = rbind (SANITY_CHECK l) (\<lambda>_. list_clear_loop pointer_fuel l s)"

definition list_pop_front :: "list_t \<Rightarrow> 'a lstate_scheme \<Rightarrow> (u64 \<times> list_t \<times> 'a lstate_scheme) result" where
  "list_pop_front l s =
     rbind (SANITY_CHECK l) (\<lambda>_.
     if items l = 0 then Inr (NULL, l, s)
     else
       let item = list_first l in
       rbind (list_remove l 0 s) (\<lambda>(l, s). Inr (item, l, s)))"

definition list_get :: "list_t \<Rightarrow> u64 \<Rightarrow> 'a lstate_scheme \<Rightarrow> u64 result" where
  "list_get l index s =
     rbind (SANITY_CHECK l) (\<lambda>_.
     rbind (list_get_index l index s) (\<lambda>item.
     if item = NULL then Inr NULL
     else rbind (li_get item s) (\<lambda>it. Inr (li_payload it))))"

definition list_size :: "list_t \<Rightarrow> u64 result" where
  "list_size l = rbind (SANITY_CHECK l) (\<lambda>_. Inr (items l))"

definition list_rotate :: "list_t \<Rightarrow> 'a lstate_scheme \<Rightarrow> (list_t \<times> 'a lstate_scheme) result" where
  "list_rotate l s =
     rbind (SANITY_CHECK l) (\<lambda>_.
     if items l < 2 then Inr (l, s)
     else
       let item = list_first l in
       rbind (li_get item s) (\<lambda>it.
       rbind (li_upd (li_next it) (\<lambda>i. i\<lparr>li_prev := NULL\<rparr>) s) (\<lambda>s.
       rbind (li_upd item (\<lambda>i. i\<lparr>li_prev := list_last l\<rparr>) s) (\<lambda>s.
       rbind (li_get item s) (\<lambda>it.
       let l = l\<lparr>list_first := li_next it\<rparr> in
       rbind (li_upd item (\<lambda>i. i\<lparr>li_next := NULL\<rparr>) s) (\<lambda>s.
       rbind (li_upd (list_last l) (\<lambda>i. i\<lparr>li_next := item\<rparr>) s) (\<lambda>s.
       Inr (l\<lparr>list_last := item\<rparr>, s))))))))"

definition list_it_get :: "u64 \<Rightarrow> 'a lstate_scheme \<Rightarrow> u64 result" where
  "list_it_get it s = rbind (li_get it s) (\<lambda>i. Inr (li_payload i))"

definition list_it_next :: "u64 \<Rightarrow> 'a lstate_scheme \<Rightarrow> u64 result" where
  "list_it_next it s = rbind (li_get it s) (\<lambda>i. Inr (li_next i))"

definition list_it_front :: "list_t \<Rightarrow> u64 result" where
  "list_it_front l = rbind (SANITY_CHECK l) (\<lambda>_. Inr (list_first l))"

definition list_it_back :: "list_t \<Rightarrow> u64 result" where
  "list_it_back l = rbind (SANITY_CHECK l) (\<lambda>_. Inr (list_last l))"

fun list_find_from :: "nat \<Rightarrow> u64 \<Rightarrow> u64 \<Rightarrow> 'a lstate_scheme \<Rightarrow> u64 result" where
  "list_find_from 0 it item s = Inl Diverges"
| "list_find_from (Suc n) it item s =
     (if it = NULL then Inr NULL
      else rbind (li_get it s) (\<lambda>i. if li_payload i = item then Inr it else list_find_from n (li_next i) item s))"

definition list_find :: "list_t \<Rightarrow> u64 \<Rightarrow> 'a lstate_scheme \<Rightarrow> u64 result" where
  "list_find l item s =
     rbind (SANITY_CHECK l) (\<lambda>_. list_find_from pointer_fuel (list_first l) item s)"

definition list_destroy :: "list_t \<Rightarrow> 'a lstate_scheme \<Rightarrow> (list_t \<times> 'a lstate_scheme) result" where
  "list_destroy l s =
     rbind (SANITY_CHECK l) (\<lambda>_.
     rbind (list_clear l s) (\<lambda>(l, s). Inr (l\<lparr>list_magic := 0\<rparr>, s)))"

section \<open>Lists in memory\<close>

text \<open>
  \<open>dseg M p ns e\<close>: the items \<open>ns\<close> (address and payload) are linked in both directions in \<open>M\<close>, with \<open>p\<close>
  before the first and \<open>e\<close> behind the last.
\<close>

fun dseg :: "(u64 \<rightharpoonup> list_item_t) \<Rightarrow> u64 \<Rightarrow> (u64 \<times> u64) list \<Rightarrow> u64 \<Rightarrow> bool" where
  "dseg M p [] e = True"
| "dseg M p ((a, v) # ns) e =
     (M a = Some \<lparr>li_next = (if ns = [] then e else fst (hd ns)), li_prev = p, li_payload = v\<rparr> \<and> dseg M a ns e)"

abbreviation addrs :: "(u64 \<times> u64) list \<Rightarrow> u64 list" where
  "addrs ns \<equiv> map fst ns"

definition front_of :: "(u64 \<times> u64) list \<Rightarrow> u64 \<Rightarrow> u64" where
  "front_of ns e = (if ns = [] then e else fst (hd ns))"

definition back_of :: "u64 \<Rightarrow> (u64 \<times> u64) list \<Rightarrow> u64" where
  "back_of p ns = (if ns = [] then p else fst (last ns))"

definition list_rel :: "'a lstate_scheme \<Rightarrow> list_t \<Rightarrow> (u64 \<times> u64) list \<Rightarrow> bool" where
  "list_rel s l ns \<longleftrightarrow>
     list_magic l = LIST_MAGIC \<and> unat (items l) = length ns \<and> list_first l = front_of ns NULL \<and>
     list_last l = back_of NULL ns \<and> dseg (list_items s) NULL ns NULL \<and> distinct (addrs ns) \<and> NULL \<notin> set (addrs ns)"

text \<open>Every item in memory is a live allocation of the heap.\<close>

definition items_live :: "'a lstate_scheme \<Rightarrow> bool" where
  "items_live s \<longleftrightarrow> heap_inv s \<and> (\<forall>a \<in> dom (list_items s). \<exists>l. (unat a, l) \<in> heap_live s)"

lemma dseg_append:
  "dseg M p (ns @ ms) e \<longleftrightarrow> dseg M p ns (front_of ms e) \<and> dseg M (back_of p ns) ms e"
proof (induction ns arbitrary: p)
  case (Cons n ns)
  then show ?case by (cases n; cases "ns = []") (auto simp: front_of_def back_of_def)
qed (simp add: back_of_def)

lemma dseg_frame: "(\<And>a. a \<in> set (addrs ns) \<Longrightarrow> M' a = M a) \<Longrightarrow> dseg M' p ns e = dseg M p ns e"
  by (induction ns arbitrary: p) auto

lemma dseg_upd: "a \<notin> set (addrs ns) \<Longrightarrow> dseg (M(a := x)) p ns e = dseg M p ns e"
  by (rule dseg_frame) auto

lemma dseg_dom: "dseg M p ns e \<Longrightarrow> set (addrs ns) \<subseteq> dom M"
proof (induction ns arbitrary: p)
  case (Cons n ns)
  then show ?case using Cons.IH [of "fst n"] by (cases n) auto
qed simp

lemma dseg_set_next:
  assumes "dseg M p (ns @ [(a, v)]) e" and "a \<notin> set (addrs ns)"
  shows "\<exists>i. M a = Some i \<and> dseg (M(a \<mapsto> i\<lparr>li_next := e'\<rparr>)) p (ns @ [(a, v)]) e'"
  using assms by (auto simp: dseg_append dseg_upd front_of_def)

lemma dseg_set_prev:
  assumes "dseg M p ((a, v) # ns) e" and "a \<notin> set (addrs ns)"
  shows "\<exists>i. M a = Some i \<and> dseg (M(a \<mapsto> i\<lparr>li_prev := p'\<rparr>)) p' ((a, v) # ns) e"
  using assms by (auto simp: dseg_upd)

lemma front_back_simps [simp]:
  "front_of [] e = e" "front_of (n # ns) e = fst n" "back_of p [] = p" "back_of p (n # ns) = back_of (fst n) ns" "back_of p (ns @ [n]) = fst n"
  "front_of (ns @ ms) e = front_of ns (front_of ms e)" "back_of p (ns @ ms) = back_of (back_of p ns) ms"
  by (auto simp: front_of_def back_of_def)

section \<open>Lookups\<close>

lemma fuel_length:
  assumes "distinct (addrs ns)" and "NULL \<notin> set (addrs ns)"
  shows "length ns < pointer_fuel"
proof -
  have "length ns = card (set (addrs ns))" using assms(1) distinct_card by fastforce
  also have "\<dots> \<le> card (UNIV :: u64 set)" by (rule card_mono) auto
  also have "\<dots> = 2 ^ 64" by (simp add: card_word)
  finally show ?thesis by simp
qed

lemma list_walk_ok:
  assumes "dseg (list_items s) p ns NULL" and "NULL \<notin> set (addrs ns)" and "length ns < fuel"
    and "unat i + length ns < 2 ^ 64" and "unat i \<le> unat index"
  shows "list_walk fuel (front_of ns NULL) i index s =
    Inr (if unat index - unat i < length ns then fst (ns ! (unat index - unat i)) else NULL)"
  using assms
proof (induction ns arbitrary: p i fuel)
  case Nil
  then show ?case by (cases fuel) simp_all
next
  case (Cons n ns)
  obtain a v where n: "n = (a, v)" by (cases n)
  obtain f where f: "fuel = Suc f" using Cons.prems(3) by (cases fuel) simp_all
  have it: "list_items s a = Some \<lparr>li_next = front_of ns NULL, li_prev = p, li_payload = v\<rparr>"
    using Cons.prems(1) n by (simp add: front_of_def)
  show ?case
  proof (cases "i = index")
    case True
    then show ?thesis using Cons.prems(2) n f by auto
  next
    case False
    then have lt: "unat i < unat index" using Cons.prems(5) by (metis le_neq_implies_less word_unat_eq_iff)
    have i1: "unat (i + 1) = Suc (unat i)" using Cons.prems(4) by (subst unat_add_no_wrap) simp_all
    have "list_walk f (front_of ns NULL) (i + 1) index s =
        Inr (if unat index - unat (i + 1) < length ns then fst (ns ! (unat index - unat (i + 1))) else NULL)"
      using Cons.prems n f lt i1 by (intro Cons.IH [of a]) simp_all
    moreover have "unat index - unat i = Suc (unat index - unat (i + 1))" using lt i1 by simp
    ultimately show ?thesis using False Cons.prems(2) n f it by (auto simp: li_get_def)
  qed
qed

lemma list_find_from_ok:
  assumes "dseg (list_items s) p ns NULL" and "NULL \<notin> set (addrs ns)" and "length ns < fuel"
  shows "list_find_from fuel (front_of ns NULL) item s =
    Inr (case find (\<lambda>n. snd n = item) ns of None \<Rightarrow> NULL | Some n \<Rightarrow> fst n)"
  using assms
proof (induction ns arbitrary: p fuel)
  case Nil
  then show ?case by (cases fuel) simp_all
next
  case (Cons n ns)
  obtain a v where n: "n = (a, v)" by (cases n)
  obtain f where f: "fuel = Suc f" using Cons.prems(3) by (cases fuel) simp_all
  have it: "list_items s a = Some \<lparr>li_next = front_of ns NULL, li_prev = p, li_payload = v\<rparr>"
    using Cons.prems(1) n by (simp add: front_of_def)
  show ?case using Cons.IH [of a f] Cons.prems n f it by (auto simp: li_get_def)
qed

lemma list_rel_length: "list_rel s l ns \<Longrightarrow> length ns < 2 ^ 64"
  using unat_lt_2p64 [of "items l"] by (simp add: list_rel_def)

lemma list_get_index_ok:
  assumes "list_rel s l ns"
  shows "list_get_index l index s = Inr (if unat index < length ns then fst (ns ! unat index) else NULL)"
  using list_walk_ok [of s 0 ns pointer_fuel 0 index] assms fuel_length [of ns] list_rel_length [OF assms]
  by (simp add: list_get_index_def SANITY_CHECK_def list_rel_def)

lemma dseg_nth:
  assumes "dseg M p ns e" and "i < length ns"
  shows "\<exists>it. M (fst (ns ! i)) = Some it \<and> li_payload it = snd (ns ! i)"
  using assms
proof (induction ns arbitrary: p i)
  case (Cons n ns)
  obtain a v where n: "n = (a, v)" by (cases n)
  show ?case using Cons.IH [of a "i - 1"] Cons.prems n by (cases i) auto
qed simp

lemma list_get_ok:
  assumes "list_rel s l ns"
  shows "list_get l index s = Inr (if unat index < length ns then snd (ns ! unat index) else NULL)"
proof (cases "unat index < length ns")
  case True
  have "dseg (list_items s) NULL ns NULL" using assms by (simp add: list_rel_def)
  then obtain it where "list_items s (fst (ns ! unat index)) = Some it" "li_payload it = snd (ns ! unat index)"
    using dseg_nth True by blast
  moreover have "fst (ns ! unat index) \<noteq> 0" using assms True by (force simp: list_rel_def)
  ultimately show ?thesis
    using True list_get_index_ok [OF assms] assms by (simp add: list_get_def li_get_def SANITY_CHECK_def list_rel_def)
qed (use list_get_index_ok [OF assms] assms in \<open>simp add: list_get_def SANITY_CHECK_def list_rel_def\<close>)

lemma list_find_ok:
  assumes "list_rel s l ns"
  shows "list_find l item s = Inr (case find (\<lambda>n. snd n = item) ns of None \<Rightarrow> NULL | Some n \<Rightarrow> fst n)"
  using list_find_from_ok [of s 0 ns pointer_fuel item] assms fuel_length [of ns]
  by (simp add: list_find_def SANITY_CHECK_def list_rel_def)

lemma list_size_ok: "list_rel s l ns \<Longrightarrow> list_size l = Inr (of_nat (length ns))"
  by (simp add: list_size_def SANITY_CHECK_def list_rel_def) (metis of_nat_unat_word)

section \<open>Updates\<close>

lemma heap_update_items [simp]:
  "heap_inv (s\<lparr>list_items := x\<rparr>) = heap_inv s" "heap_live (s\<lparr>list_items := x\<rparr>) = heap_live s"
  "heap_room (s\<lparr>list_items := x\<rparr>) sz = heap_room s sz" "free_frames (s\<lparr>list_items := x\<rparr>) = free_frames s"
  by (simp_all add: heap_inv_def heap_rel_def heap_pages_mapped_def vspace_inv_def vspace_mapping_def vspace_root_def
    heap_live_def heap_room_def free_frames_def pg_inv_def pg_used_def pg_total_def)

lemma list_items_more: "hstate.more s' = hstate.more s \<Longrightarrow> list_items s' = list_items s"
  by (cases s; cases s'; simp)

lemma list_rel_items: "list_items s' = list_items s \<Longrightarrow> list_rel s' l ns = list_rel s l ns"
  by (simp add: list_rel_def)

lemma list_add_ok:
  assumes rel: "list_rel s l ns" and live: "items_live s" and room: "heap_room s 24" and len: "Suc (length ns) < 2 ^ 64"
  obtains p l' s' where "list_add l v s = Inr (of_nat (length ns), l', s')" and "list_rel s' l' (ns @ [(p, v)])"
    and "items_live s'" and "p \<notin> dom (list_items s)"
    and "\<forall>a. a \<notin> set (addrs ns) \<longrightarrow> a \<noteq> p \<longrightarrow> list_items s' a = list_items s a"
proof -
  have inv: "heap_inv s" using live by (simp add: items_live_def)
  obtain p s1 k where s1: "kmalloc 24 37 0 s = Inr (p, s1)" "heap_inv s1" "p \<noteq> 0" "\<forall>l. (unat p, l) \<notin> heap_live s"
    "heap_live s1 = insert (unat p, k) (heap_live s)" "hstate.more s1 = hstate.more s"
    by (rule kmalloc_ok [OF inv room, of 37 0])
  have it1: "list_items s1 = list_items s" by (rule list_items_more [OF s1(6)])
  have fresh: "p \<notin> dom (list_items s)" using s1(4) live by (auto simp: items_live_def)
  have seg: "dseg (list_items s) 0 ns 0" and dist: "distinct (addrs ns)" "0 \<notin> set (addrs ns)"
    using rel by (simp_all add: list_rel_def)
  have pn: "p \<notin> set (addrs ns)" using dseg_dom [OF seg] fresh by blast
  define it where "it = \<lparr>li_next = 0, li_prev = back_of 0 ns, li_payload = v\<rparr>"
  define M1 where "M1 = (list_items s)(p \<mapsto> it)"
  have seg1: "dseg M1 0 ns 0" unfolding M1_def using seg pn by (simp add: dseg_upd)
  have it: "items l = of_nat (length ns)" using rel by (metis list_rel_def of_nat_unat_word)
  have un: "unat (of_nat (Suc (length ns)) :: u64) = Suc (length ns)" using len by (intro unat_of_nat_small) simp
  have lv: "items_live (s1\<lparr>list_items := M\<rparr>)" if "dom M = insert p (dom (list_items s))" for M
    using that live s1(2,5) by (auto simp: items_live_def)
  show ?thesis
  proof (cases ns rule: rev_cases)
    case Nil
    let ?s' = "s1\<lparr>list_items := M1\<rparr>"
    let ?l' = "l\<lparr>list_first := p, list_last := p, items := items l + 1\<rparr>"
    show ?thesis
    proof (rule that [of ?l' ?s' p])
      show "list_add l v s = Inr (of_nat (length ns), ?l', ?s')"
        using s1(1) rel Nil it1 by (simp add: list_add_def SANITY_CHECK_def list_rel_def M1_def it_def it Let_def)
      show "list_rel ?s' ?l' (ns @ [(p, v)])"
        using rel Nil s1(3) it un by (simp add: list_rel_def M1_def it_def)
      show "items_live ?s'" by (rule lv) (auto simp: M1_def)
    qed (use fresh in \<open>auto simp: M1_def\<close>)
  next
    case (snoc ms n)
    obtain b w where n: "n = (b, w)" by (cases n)
    have b: "b \<noteq> 0" "b \<notin> set (addrs ms)" "b \<noteq> p" using dist pn snoc n by auto
    obtain i where i: "M1 b = Some i" "dseg (M1(b \<mapsto> i\<lparr>li_next := p\<rparr>)) 0 ns p"
      using dseg_set_next [OF seg1 [unfolded snoc n] b(2), of p] snoc n by blast
    let ?M = "M1(b \<mapsto> i\<lparr>li_next := p\<rparr>)"
    let ?s' = "s1\<lparr>list_items := ?M\<rparr>" and ?l' = "l\<lparr>list_last := p, items := items l + 1\<rparr>"
    have last: "list_last l = b" using rel snoc n by (simp add: list_rel_def)
    show ?thesis
    proof (rule that [of ?l' ?s' p])
      show "list_add l v s = Inr (of_nat (length ns), ?l', ?s')"
        using s1(1) rel it1 last b i(1) snoc n
        by (simp add: list_add_def SANITY_CHECK_def list_rel_def M1_def it_def it Let_def li_upd_def li_get_def)
      have "?M p = Some it" using b(3) by (simp add: M1_def)
      then have "dseg ?M 0 (ns @ [(p, v)]) 0" using i(2) by (simp only: dseg_append dseg.simps) (simp add: it_def)
      then show "list_rel ?s' ?l' (ns @ [(p, v)])"
        using rel s1(3) it un pn dist b(3) snoc n by (simp add: list_rel_def)
      show "items_live ?s'" using i(1) by (intro lv) (auto simp: M1_def b)
    qed (use fresh snoc n in \<open>auto simp: M1_def\<close>)
  qed
qed

text \<open>Unlinking one item.\<close>

lemma dseg_unlink:
  assumes seg: "dseg M 0 (xs @ (a, v) # ys) 0" and dist: "distinct (addrs (xs @ (a, v) # ys))"
    and M1: "M1 = (if xs = [] then M else M(back_of 0 xs \<mapsto> (the (M (back_of 0 xs)))\<lparr>li_next := front_of ys 0\<rparr>))"
    and M2: "M2 = (if ys = [] then M1 else M1(front_of ys 0 \<mapsto> (the (M1 (front_of ys 0)))\<lparr>li_prev := back_of 0 xs\<rparr>))"
  shows "dseg (M2(a := None)) 0 (xs @ ys) 0" and "dom M1 = dom M" and "dom M2 = dom M"
proof -
  have s: "dseg M 0 xs a" "dseg M a ys 0" using seg by (simp_all add: dseg_append)
  have ad: "a \<notin> set (addrs xs)" "a \<notin> set (addrs ys)" "set (addrs xs) \<inter> set (addrs ys) = {}"
    "distinct (addrs xs)" "distinct (addrs ys)" using dist by auto
  have 1: "dseg M1 0 xs (front_of ys 0) \<and> dseg M1 a ys 0 \<and> dom M1 = dom M"
  proof (cases xs rule: rev_cases)
    case (snoc us n)
    obtain b w where n: "n = (b, w)" by (cases n)
    have b: "b \<notin> set (addrs us)" "b \<notin> set (addrs ys)" using ad snoc n by auto
    obtain i where "M b = Some i" "dseg (M(b \<mapsto> i\<lparr>li_next := front_of ys 0\<rparr>)) 0 xs (front_of ys 0)"
      using dseg_set_next [OF s(1) [unfolded snoc n] b(1), of "front_of ys 0"] snoc n by blast
    then show ?thesis using s(2) b(2) snoc n M1 by (auto simp: dseg_upd)
  qed (use s M1 in simp)
  have 2: "dseg M2 0 xs (front_of ys 0) \<and> dseg M2 (back_of 0 xs) ys 0 \<and> dom M2 = dom M"
  proof (cases ys)
    case (Cons n zs)
    obtain c w where n: "n = (c, w)" by (cases n)
    have c: "c \<notin> set (addrs zs)" "c \<notin> set (addrs xs)" using ad Cons n by auto
    have "dseg M1 a ((c, w) # zs) 0" using 1 Cons n by simp
    from dseg_set_prev [OF this c(1), of "back_of 0 xs"] obtain i where
      "M1 c = Some i" "dseg (M1(c \<mapsto> i\<lparr>li_prev := back_of 0 xs\<rparr>)) (back_of 0 xs) ys 0" using Cons n by blast
    then show ?thesis using 1 c(2) Cons n M2 by (auto simp: dseg_upd)
  qed (use 1 M2 in simp)
  show "dom M1 = dom M" "dom M2 = dom M" using 1 2 by auto
  show "dseg (M2(a := None)) 0 (xs @ ys) 0"
    using 2 ad by (simp add: dseg_append dseg_upd)
qed

lemma list_it_remove_ok:
  assumes rel: "list_rel s l (xs @ (a, v) # ys)" and live: "items_live s"
  obtains l' s' where "list_it_remove l a s = Inr (l', s')" and "list_rel s' l' (xs @ ys)" and "items_live s'"
    and "\<forall>b. b \<notin> set (addrs (xs @ (a, v) # ys)) \<longrightarrow> list_items s' b = list_items s b"
    and "list_items s' a = None"
proof -
  let ?M = "list_items s"
  have seg: "dseg ?M 0 (xs @ (a, v) # ys) 0" and dist: "distinct (addrs (xs @ (a, v) # ys))"
    and nz: "0 \<notin> set (addrs (xs @ (a, v) # ys))" and inv: "heap_inv s"
    using rel live by (simp_all add: list_rel_def items_live_def)
  have it: "?M a = Some \<lparr>li_next = front_of ys 0, li_prev = back_of 0 xs, li_payload = v\<rparr>"
    using seg by (simp add: dseg_append front_of_def)
  define M1 where "M1 = (if xs = [] then ?M else ?M(back_of 0 xs \<mapsto> (the (?M (back_of 0 xs)))\<lparr>li_next := front_of ys 0\<rparr>))"
  define M2 where "M2 = (if ys = [] then M1 else M1(front_of ys 0 \<mapsto> (the (M1 (front_of ys 0)))\<lparr>li_prev := back_of 0 xs\<rparr>))"
  note un = dseg_unlink [OF seg dist M1_def M2_def]
  have bx: "xs \<noteq> [] \<Longrightarrow> back_of 0 xs \<in> set (addrs xs)" and fy: "ys \<noteq> [] \<Longrightarrow> front_of ys 0 \<in> set (addrs ys)"
    by (auto simp: back_of_def front_of_def)
  have bnz: "back_of 0 xs \<noteq> 0 \<longleftrightarrow> xs \<noteq> []" "front_of ys 0 \<noteq> 0 \<longleftrightarrow> ys \<noteq> []" using bx fy nz by auto
  have dm: "xs \<noteq> [] \<Longrightarrow> back_of 0 xs \<in> dom ?M" "ys \<noteq> [] \<Longrightarrow> front_of ys 0 \<in> dom M1"
    using bx fy dseg_dom [OF seg] un(2) by auto
  have u1: "(if back_of 0 xs \<noteq> 0 then li_upd (back_of 0 xs) (\<lambda>i. i\<lparr>li_next := front_of ys 0\<rparr>) s else Inr s) = Inr (s\<lparr>list_items := M1\<rparr>)"
    using dm(1) by (auto simp: bnz M1_def li_upd_def li_get_def)
  have u2: "(if front_of ys 0 \<noteq> 0 then li_upd (front_of ys 0) (\<lambda>i. i\<lparr>li_prev := back_of 0 xs\<rparr>) (s\<lparr>list_items := M1\<rparr>)
      else Inr (s\<lparr>list_items := M1\<rparr>)) = Inr (s\<lparr>list_items := M2\<rparr>)"
    using dm(2) by (auto simp: bnz M2_def li_upd_def li_get_def)
  have "a \<in> dom ?M" using it by blast
  then obtain k where k: "(unat a, k) \<in> heap_live (s\<lparr>list_items := M2(a := None)\<rparr>)" using live by (auto simp: items_live_def)
  have inv2: "heap_inv (s\<lparr>list_items := M2(a := None)\<rparr>)" using inv by simp
  obtain s' where s': "kfree a (s\<lparr>list_items := M2(a := None)\<rparr>) = Inr s'" "heap_inv s'"
    "heap_live s' = heap_live s - {(unat a, k)}" "hstate.more s' = hstate.more (s\<lparr>list_items := M2(a := None)\<rparr>)"
    using kfree_ok [OF inv2 k] by auto
  have it': "list_items s' = M2(a := None)" using list_items_more [OF s'(4)] by simp
  define l' where "l' = (let l = (if list_first l = a then l\<lparr>list_first := front_of ys 0\<rparr> else l);
      l = (if list_last l = a then l\<lparr>list_last := back_of 0 xs\<rparr> else l) in l\<lparr>items := items l - 1\<rparr>)"
  have run: "list_it_remove l a s = Inr (l', s')"
    using rel nz it u1 u2 s'(1)
    by (simp add: list_it_remove_def SANITY_CHECK_def list_rel_def li_get_def l'_def Let_def cong: if_cong split del: if_split)
  have "list_first l = a \<longleftrightarrow> xs = []" using rel dist by (cases xs) (auto simp: list_rel_def)
  moreover have "list_last l = a \<longleftrightarrow> ys = []" using rel dist by (cases ys rule: rev_cases) (auto simp: list_rel_def)
  moreover have "unat (items l - 1) = length (xs @ ys)"
    using rel by (subst unat_sub_no_wrap) (simp_all add: list_rel_def word_le_nat_alt)
  moreover have "list_first l = front_of xs a" "list_last l = back_of a ys" "list_magic l = LIST_MAGIC"
    using rel by (simp_all add: list_rel_def)
  ultimately have "list_first l' = (if xs = [] then front_of ys 0 else front_of xs a)"
    "list_last l' = (if ys = [] then back_of 0 xs else back_of a ys)"
    "unat (items l') = length (xs @ ys)" "list_magic l' = LIST_MAGIC"
    by (auto simp: l'_def Let_def)
  then have "list_first l' = front_of (xs @ ys) 0" "list_last l' = back_of 0 (xs @ ys)"
    "unat (items l') = length (xs @ ys)" "list_magic l' = LIST_MAGIC"
    by (auto simp: front_of_def back_of_def)
  then have "list_rel s' l' (xs @ ys)"
    using un(1) it' dist nz unfolding list_rel_def by simp
  moreover have "items_live s'"
  proof -
    have "dom (list_items s') = dom ?M - {a}" using it' un(3) by auto
    moreover have "\<exists>m. (unat b, m) \<in> heap_live s'" if b: "b \<in> dom ?M" "b \<noteq> a" for b
    proof -
      obtain m where "(unat b, m) \<in> heap_live s" using live b(1) unfolding items_live_def by blast
      moreover have "unat b \<noteq> unat a" using b(2) by (simp add: word_unat_eq_iff)
      ultimately show ?thesis using s'(3) by auto
    qed
    ultimately show ?thesis using s'(2) unfolding items_live_def by blast
  qed
  moreover have "\<forall>b. b \<notin> set (addrs (xs @ (a, v) # ys)) \<longrightarrow> list_items s' b = ?M b"
    using it' bx fy by (auto simp: M2_def M1_def split: if_splits)
  moreover have "list_items s' a = None" by (simp add: it')
  ultimately show ?thesis using that run by blast
qed

lemma list_remove_ok:
  assumes rel: "list_rel s l ns" and live: "items_live s" and i: "unat index < length ns"
  obtains l' s' where "list_remove l index s = Inr (l', s')"
    and "list_rel s' l' (take (unat index) ns @ drop (Suc (unat index)) ns)" and "items_live s'"
    and "\<forall>b. b \<notin> set (addrs ns) \<longrightarrow> list_items s' b = list_items s b"
proof -
  obtain a v where n: "ns ! unat index = (a, v)" by (cases "ns ! unat index")
  have ns: "ns = take (unat index) ns @ (a, v) # drop (Suc (unat index)) ns"
    using id_take_nth_drop [OF i] n by simp
  obtain l' s' where "list_it_remove l a s = Inr (l', s')" "list_rel s' l' (take (unat index) ns @ drop (Suc (unat index)) ns)"
    "items_live s'" "\<forall>b. b \<notin> set (addrs ns) \<longrightarrow> list_items s' b = list_items s b"
    using list_it_remove_ok [of s l "take (unat index) ns" a v "drop (Suc (unat index)) ns"] rel live ns by metis
  then show ?thesis
    using that list_get_index_ok [OF rel, of index] i n rel by (simp add: list_remove_def SANITY_CHECK_def list_rel_def)
qed

lemma list_remove_beyond:
  assumes "list_rel s l ns" and "length ns \<le> unat index"
  shows "list_remove l index s = Inl (Panic ''list iterator is null'')"
  using assms list_get_index_ok [OF assms(1), of index]
  by (simp add: list_remove_def list_it_remove_def SANITY_CHECK_def list_rel_def)

lemma list_clear_loop_ok:
  assumes "list_rel s l ns" and "items_live s" and "length ns < fuel"
  shows "\<exists>l' s'. list_clear_loop fuel l s = Inr (l', s') \<and> list_rel s' l' [] \<and> items_live s' \<and>
    (\<forall>b. b \<notin> set (addrs ns) \<longrightarrow> list_items s' b = list_items s b)"
  using assms
proof (induction ns arbitrary: l s fuel)
  case Nil
  then show ?case by (cases fuel) (auto simp: list_rel_def word_less_nat_alt)
next
  case (Cons n ns)
  obtain f where f: "fuel = Suc f" using Cons.prems(3) by (cases fuel) simp_all
  obtain l1 s1 where s1: "list_remove l 0 s = Inr (l1, s1)" "list_rel s1 l1 ns" "items_live s1"
    "\<forall>b. b \<notin> set (addrs (n # ns)) \<longrightarrow> list_items s1 b = list_items s b"
    using list_remove_ok [OF Cons.prems(1,2), of 0] by auto
  have "items l > 0" using Cons.prems(1) by (simp add: list_rel_def word_less_nat_alt)
  moreover obtain l' s' where "list_clear_loop f l1 s1 = Inr (l', s')" "list_rel s' l' []" "items_live s'"
    "\<forall>b. b \<notin> set (addrs ns) \<longrightarrow> list_items s' b = list_items s1 b"
    using Cons.IH [OF s1(2,3), of f] Cons.prems(3) f by auto
  ultimately show ?case using s1 f by auto
qed

lemma list_rotate_ok:
  assumes rel: "list_rel s l ns"
  obtains l' s' where "list_rotate l s = Inr (l', s')"
    and "list_rel s' l' (if length ns < 2 then ns else tl ns @ [hd ns])"
    and "\<exists>M. s' = s\<lparr>list_items := M\<rparr> \<and> dom M = dom (list_items s) \<and> (\<forall>b. b \<notin> set (addrs ns) \<longrightarrow> M b = list_items s b)"
proof (cases "length ns < 2")
  case True
  then have "items l < 2" using rel by (simp add: list_rel_def word_less_nat_alt)
  then have run: "list_rotate l s = Inr (l, s)" using rel by (simp add: list_rotate_def SANITY_CHECK_def list_rel_def)
  have ex: "\<exists>M. s = s\<lparr>list_items := M\<rparr> \<and> dom M = dom (list_items s) \<and> (\<forall>b. b \<notin> set (addrs ns) \<longrightarrow> M b = list_items s b)"
    by (rule exI [of _ "list_items s"]) simp
  show ?thesis by (rule that [OF run _ ex]) (use rel True in simp)
next
  case False
  obtain a v ms where ns: "ns = (a, v) # ms" using False by (cases ns) auto
  have "ms \<noteq> []" using False ns by auto
  then obtain us b w where ms: "ms = us @ [(b, w)]" by (metis append_butlast_last_id prod.exhaust)
  obtain c x ks where ks: "ms = (c, x) # ks" using \<open>ms \<noteq> []\<close> by (cases ms) auto
  let ?M = "list_items s"
  have seg: "dseg ?M 0 ns 0" and dist: "distinct (addrs ns)" and nz: "0 \<notin> set (addrs ns)"
    using rel by (simp_all add: list_rel_def)
  have l: "list_first l = a" "list_last l = b" "list_magic l = LIST_MAGIC" "\<not> items l < 2"
    using rel False ns ms by (simp_all add: list_rel_def word_less_nat_alt)
  have ma: "?M a = Some \<lparr>li_next = c, li_prev = 0, li_payload = v\<rparr>" and sms: "dseg ?M a ((c, x) # ks) 0"
    using seg ns ks by auto
  have dm: "distinct (addrs ms)" and an: "a \<notin> set (addrs ms)" using dist ns by simp_all
  have cn: "c \<notin> set (addrs ks)" using dm unfolding ks by simp
  have bn: "b \<notin> set (addrs us)" using dm unfolding ms by simp
  obtain i where i: "?M c = Some i" "dseg (?M(c \<mapsto> i\<lparr>li_prev := 0\<rparr>)) 0 ms 0"
    using dseg_set_prev [OF sms cn, of 0] ks by blast
  define M1 where "M1 = ?M(c \<mapsto> i\<lparr>li_prev := 0\<rparr>)"
  define M3 where "M3 = M1(a \<mapsto> \<lparr>li_next = 0, li_prev = b, li_payload = v\<rparr>)"
  have s3: "dseg M3 0 (us @ [(b, w)]) 0" using i(2) an ms by (simp add: M3_def M1_def dseg_upd)
  obtain j where j: "M3 b = Some j" "dseg (M3(b \<mapsto> j\<lparr>li_next := a\<rparr>)) 0 ms a"
    using dseg_set_next [OF s3 bn, of a] ms by blast
  define M4 where "M4 = M3(b \<mapsto> j\<lparr>li_next := a\<rparr>)"
  have ac: "a \<noteq> c" using an unfolding ks by simp
  have ab: "a \<noteq> b" using an unfolding ms by simp
  note ac = ac ab
  let ?l' = "l\<lparr>list_first := c, list_last := a\<rparr>"
  have "M1 a = Some \<lparr>li_next = c, li_prev = 0, li_payload = v\<rparr>" using ma ac by (simp add: M1_def)
  then have run: "list_rotate l s = Inr (?l', s\<lparr>list_items := M4\<rparr>)"
    using l ma i(1) j(1) ac
    by (simp add: list_rotate_def SANITY_CHECK_def li_get_def li_upd_def Let_def M4_def M3_def flip: M1_def)
  have "M4 a = Some \<lparr>li_next = 0, li_prev = b, li_payload = v\<rparr>" using ac by (simp add: M4_def M3_def)
  then have "dseg M4 0 (ms @ [(a, v)]) 0"
    using j(2) by (simp only: dseg_append dseg.simps M4_def) (simp add: ms)
  then have rel': "list_rel (s\<lparr>list_items := M4\<rparr>) ?l' (ms @ [(a, v)])"
    using rel ns ks dist nz by (simp add: list_rel_def) auto
  moreover have "b \<in> set (addrs ms)" by (simp add: ms)
  moreover have "c \<in> set (addrs ms)" by (simp add: ks)
  ultimately have in_ns: "a \<in> set (addrs ns)" "b \<in> set (addrs ns)" "c \<in> set (addrs ns)"
    using ns by simp_all
  then have "a \<in> dom ?M" "b \<in> dom ?M" "c \<in> dom ?M" using dseg_dom [OF seg] by blast+
  then have d4: "dom M4 = dom ?M" by (auto simp: M4_def M3_def M1_def split: if_splits)
  have f4: "\<forall>d. d \<notin> set (addrs ns) \<longrightarrow> M4 d = ?M d" using in_ns by (auto simp: M4_def M3_def M1_def)
  show ?thesis
  proof (rule that [OF run])
    show "list_rel (s\<lparr>list_items := M4\<rparr>) ?l' (if length ns < 2 then ns else tl ns @ [hd ns])"
      using rel' False ns by simp
  qed (use d4 f4 in blast)
qed

section \<open>The contract\<close>

text \<open>A store of sequences: what the scheduler, the locks and the file system expect of a list.\<close>

locale sequence_store =
  fixes rel :: "'s \<Rightarrow> 'l \<Rightarrow> u64 list \<Rightarrow> bool"
    and ok :: "'s \<Rightarrow> bool"
    and room :: "'s \<Rightarrow> bool"
    and add :: "'l \<Rightarrow> u64 \<Rightarrow> 's \<Rightarrow> (u64 \<times> 'l \<times> 's) result"
    and get :: "'l \<Rightarrow> u64 \<Rightarrow> 's \<Rightarrow> u64 result"
    and remove :: "'l \<Rightarrow> u64 \<Rightarrow> 's \<Rightarrow> ('l \<times> 's) result"
    and len :: "'l \<Rightarrow> u64 result"
    and rotate :: "'l \<Rightarrow> 's \<Rightarrow> ('l \<times> 's) result"
  assumes add_ok: "rel s l xs \<Longrightarrow> ok s \<Longrightarrow> room s \<Longrightarrow> Suc (length xs) < 2 ^ 64 \<Longrightarrow>
      \<exists>l' s'. add l v s = Inr (of_nat (length xs), l', s') \<and> rel s' l' (xs @ [v]) \<and> ok s'"
    and get_ok: "rel s l xs \<Longrightarrow> get l i s = Inr (if unat i < length xs then xs ! unat i else NULL)"
    and remove_ok: "rel s l xs \<Longrightarrow> ok s \<Longrightarrow> unat i < length xs \<Longrightarrow>
      \<exists>l' s'. remove l i s = Inr (l', s') \<and> rel s' l' (take (unat i) xs @ drop (Suc (unat i)) xs) \<and> ok s'"
    and len_ok: "rel s l xs \<Longrightarrow> len l = Inr (of_nat (length xs)) \<and> length xs < 2 ^ 64"
    and rotate_ok: "rel s l xs \<Longrightarrow> ok s \<Longrightarrow>
      \<exists>l' s'. rotate l s = Inr (l', s') \<and> rel s' l' (if length xs < 2 then xs else tl xs @ [hd xs]) \<and> ok s'"
begin

text \<open>A queue: what was added last is found at the end, and the oldest entry stays in front.\<close>

lemma add_get:
  assumes "rel s l xs" and "ok s" and "room s" and "Suc (length xs) < 2 ^ 64"
  shows "\<exists>i l' s'. add l v s = Inr (i, l', s') \<and> get l' i s' = Inr v \<and>
    (\<forall>j. unat j < length xs \<longrightarrow> get l' j s' = get l j s)"
proof -
  obtain l' s' where a: "add l v s = Inr (of_nat (length xs), l', s')" "rel s' l' (xs @ [v])"
    using add_ok [OF assms] by blast
  have "unat (of_nat (length xs) :: u64) = length xs" using assms(4) by (intro unat_of_nat_small) simp
  then have "get l' (of_nat (length xs)) s' = Inr v" using get_ok [OF a(2)] by simp
  moreover have "get l' j s' = get l j s" if "unat j < length xs" for j
    using get_ok [OF a(2), of j] get_ok [OF assms(1), of j] that by (simp add: nth_append)
  ultimately show ?thesis using a(1) by blast
qed

lemma add_remove:
  assumes "rel s l xs" and "ok s" and "room s" and "Suc (length xs) < 2 ^ 64"
  shows "\<exists>i l' s' l'' s''. add l v s = Inr (i, l', s') \<and> remove l' i s' = Inr (l'', s'') \<and> rel s'' l'' xs"
proof -
  obtain l' s' where a: "add l v s = Inr (of_nat (length xs), l', s')" "rel s' l' (xs @ [v])" "ok s'"
    using add_ok [OF assms] by blast
  have u: "unat (of_nat (length xs) :: u64) = length xs" using assms(4) by (intro unat_of_nat_small) simp
  obtain l'' s'' where "remove l' (of_nat (length xs)) s' = Inr (l'', s'')"
    "rel s'' l'' (take (length xs) (xs @ [v]) @ drop (Suc (length xs)) (xs @ [v]))"
    using remove_ok [OF a(2,3), of "of_nat (length xs)"] u by auto
  then show ?thesis using a(1) by auto
qed

end

definition payloads_rel :: "'a lstate_scheme \<Rightarrow> list_t \<Rightarrow> u64 list \<Rightarrow> bool" where
  "payloads_rel s l xs \<longleftrightarrow> (\<exists>ns. list_rel s l ns \<and> map snd ns = xs)"

interpretation ll: sequence_store payloads_rel items_live "\<lambda>s. heap_room s 24" list_add list_get list_remove list_size list_rotate
proof (unfold_locales, goal_cases)
  case (1 s l xs v)
  then obtain ns where ns: "list_rel s l ns" "xs = map snd ns" by (auto simp: payloads_rel_def)
  have "Suc (length ns) < 2 ^ 64" using 1(4) ns by simp
  then obtain p l' s' where "list_add l v s = Inr (of_nat (length ns), l', s')"
    "list_rel s' l' (ns @ [(p, v)])" "items_live s'" by (rule list_add_ok [OF ns(1) 1(2,3)])
  then show ?case using ns(2) by (auto simp: payloads_rel_def)
next
  case (2 s l xs i)
  then show ?case by (auto simp: payloads_rel_def list_get_ok)
next
  case (3 s l xs i)
  then obtain ns where ns: "list_rel s l ns" "xs = map snd ns" by (auto simp: payloads_rel_def)
  have "unat i < length ns" using 3(3) ns by simp
  then obtain l' s' where "list_remove l i s = Inr (l', s')"
    "list_rel s' l' (take (unat i) ns @ drop (Suc (unat i)) ns)" "items_live s'" by (rule list_remove_ok [OF ns(1) 3(2)])
  then show ?case using ns(2) by (auto simp: payloads_rel_def take_map drop_map)
next
  case (4 s l xs)
  then show ?case using list_rel_length by (auto simp: payloads_rel_def list_size_ok)
next
  case (5 s l xs)
  then obtain ns where ns: "list_rel s l ns" "xs = map snd ns" by (auto simp: payloads_rel_def)
  obtain l' s' where r: "list_rotate l s = Inr (l', s')" "list_rel s' l' (if length ns < 2 then ns else tl ns @ [hd ns])"
    "\<exists>M. s' = s\<lparr>list_items := M\<rparr> \<and> dom M = dom (list_items s) \<and> (\<forall>b. b \<notin> set (addrs ns) \<longrightarrow> M b = list_items s b)"
    by (rule list_rotate_ok [OF ns(1)])
  obtain M where M: "s' = s\<lparr>list_items := M\<rparr>" "dom M = dom (list_items s)" using r(3) by blast
  have "items_live s'" using 5(2) unfolding items_live_def M(1) by (simp add: M(2))
  then show ?case using r(1,2) ns(2) by (cases ns) (auto simp: payloads_rel_def map_tl)
qed

section \<open>Properties\<close>

definition small_lists :: lstate where
  "small_lists = hstate.extend small_heap \<lparr>list_items = Map.empty\<rparr>"

lemma small_lists_ok: "items_live small_lists" "heap_room small_lists 24"
  "payloads_rel small_lists LIST_INITIALIZER []"
proof -
  have h: "heap_inv small_lists = heap_inv small_heap" "heap_room small_lists 100 = heap_room small_heap 100"
    by (simp_all add: small_lists_def hstate.defs heap_inv_def heap_rel_def heap_pages_mapped_def vspace_inv_def
      vspace_mapping_def vspace_root_def heap_room_def free_frames_def pg_inv_def pg_used_def pg_total_def)
  then show "items_live small_lists" using small_heap_inv by (simp add: items_live_def) (simp add: small_lists_def hstate.defs)
  show "heap_room small_lists 24" using h small_heap_room by (simp add: heap_room_def)
  show "payloads_rel small_lists LIST_INITIALIZER []" by (simp add: payloads_rel_def list_rel_def LIST_INITIALIZER_def)
qed

text \<open>
  C11: The linked lists implement sequences: on a list that holds the payloads \<open>xs\<close>, \<^verbatim>\<open>list_size\<close> is
  the length, \<^verbatim>\<open>list_get\<close> the element at an index (null behind the end), \<^verbatim>\<open>list_add\<close> appends and returns
  the index of the new element, \<^verbatim>\<open>list_remove\<close> drops the element at an index (and panics behind the
  end), and \<^verbatim>\<open>list_rotate\<close> moves the first element to the end. All of them return, keep the links
  consistent and every item a live heap allocation.
\<close>

theorem list_refines_sequence:
  assumes "payloads_rel s l xs" and "items_live s"
  shows "list_size l = Inr (of_nat (length xs)) \<and>
    (\<forall>i. list_get l i s = Inr (if unat i < length xs then xs ! unat i else 0)) \<and>
    (\<forall>v. heap_room s 24 \<and> Suc (length xs) < 2 ^ 64 \<longrightarrow>
      (\<exists>l' s'. list_add l v s = Inr (of_nat (length xs), l', s') \<and> payloads_rel s' l' (xs @ [v]) \<and> items_live s')) \<and>
    (\<forall>i. if unat i < length xs
      then \<exists>l' s'. list_remove l i s = Inr (l', s') \<and>
        payloads_rel s' l' (take (unat i) xs @ drop (Suc (unat i)) xs) \<and> items_live s'
      else list_remove l i s = Inl (Panic ''list iterator is null'')) \<and>
    (\<exists>l' s'. list_rotate l s = Inr (l', s') \<and>
      payloads_rel s' l' (if length xs < 2 then xs else tl xs @ [hd xs]) \<and> items_live s')"
proof (intro conjI allI impI)
  fix i
  have "list_remove l i s = Inl (Panic ''list iterator is null'')" if "\<not> unat i < length xs"
    using assms(1) that list_remove_beyond by (force simp: payloads_rel_def)
  then show "if unat i < length xs
      then \<exists>l' s'. list_remove l i s = Inr (l', s') \<and>
        payloads_rel s' l' (take (unat i) xs @ drop (Suc (unat i)) xs) \<and> items_live s'
      else list_remove l i s = Inl (Panic ''list iterator is null'')"
    using ll.remove_ok [OF assms, of i] by simp
qed (use ll.len_ok [OF assms(1)] ll.get_ok [OF assms(1)] ll.add_ok [OF assms] ll.rotate_ok [OF assms] in blast)+

lemma list_refines_sequence_witness:
  "\<exists>l s. list_size LIST_INITIALIZER = Inr 0 \<and> list_add LIST_INITIALIZER 7 small_lists = Inr (0, l, s) \<and>
    payloads_rel s l [7] \<and> list_remove LIST_INITIALIZER 0 small_lists = Inl (Panic ''list iterator is null'')"
  using list_refines_sequence [OF small_lists_ok(3,1)] small_lists_ok(2) by simp blast

text \<open>
  \<^verbatim>\<open>list_find\<close> returns the iterator of the first item with the given payload, or null; removing
  through that iterator takes out exactly this occurrence.
\<close>

theorem list_find_remove:
  assumes rel: "payloads_rel s l xs" and live: "items_live s" and mem: "v \<in> set xs"
  shows "\<exists>it l' s'. list_find l v s = Inr it \<and> it \<noteq> 0 \<and> list_it_remove l it s = Inr (l', s') \<and>
    items_live s' \<and> payloads_rel s' l' (remove1 v xs)"
proof -
  obtain ns where ns: "list_rel s l ns" "xs = map snd ns" using rel by (auto simp: payloads_rel_def)
  have ex: "\<exists>n. find (\<lambda>n. snd n = v) ns = Some n" using mem ns(2) by (cases "find (\<lambda>n. snd n = v) ns") (auto simp: find_None_iff)
  then obtain a w where f: "find (\<lambda>n. snd n = v) ns = Some (a, w)" by auto
  then obtain i where i0: "i < length ns" "snd (ns ! i) = v" "(a, w) = ns ! i" "\<forall>j<i. snd (ns ! j) \<noteq> v"
    unfolding find_Some_iff by blast
  then have i: "i < length ns" "ns ! i = (a, v)" "\<forall>j<i. snd (ns ! j) \<noteq> v" by (cases "ns ! i", simp_all)+
  define ms ks where "ms = take i ns" and "ks = drop (Suc i) ns"
  have split: "ns = ms @ (a, v) # ks" using id_take_nth_drop [OF i(1)] i(2) by (simp add: ms_def ks_def)
  have "v \<notin> set (map snd ms)" using i(1,3) by (fastforce simp: ms_def in_set_conv_nth)
  then have r1: "remove1 v xs = map snd (ms @ ks)" using ns(2) split by (simp add: remove1_append)
  have rel': "list_rel s l (ms @ (a, v) # ks)" using ns(1) split by simp
  obtain l' s' where "list_it_remove l a s = Inr (l', s')" "list_rel s' l' (ms @ ks)" "items_live s'"
    by (rule list_it_remove_ok [OF rel' live])
  moreover have "a \<noteq> 0" using rel' by (auto simp: list_rel_def)
  moreover have "list_find l v s = Inr a" using list_find_ok [OF ns(1), of v] f by simp
  ultimately show ?thesis unfolding payloads_rel_def r1 by blast
qed

lemma list_find_remove_witness:
  "\<exists>l s it l' s'. list_add LIST_INITIALIZER 7 small_lists = Inr (0, l, s) \<and> list_find l 7 s = Inr it \<and>
    list_it_remove l it s = Inr (l', s') \<and> payloads_rel s' l' []"
proof -
  obtain l s where "list_add LIST_INITIALIZER 7 small_lists = Inr (0, l, s)" "payloads_rel s l [7]" "items_live s"
    using ll.add_ok [OF small_lists_ok(3,1,2), of 7] by auto
  moreover from this have "\<exists>it l' s'. list_find l 7 s = Inr it \<and> it \<noteq> 0 \<and> list_it_remove l it s = Inr (l', s') \<and>
    items_live s' \<and> payloads_rel s' l' (remove1 7 [7])"
    by (intro list_find_remove) simp_all
  ultimately show ?thesis by fastforce
qed



text \<open>
  \<^verbatim>\<open>list_pop_front\<close> of a non-empty list does not return the payload of the first item but the
  address of the item itself, which has been freed and designates no item any more.
\<close>

theorem list_pop_front_dangling:
  assumes rel: "list_rel s l ((a, v) # ns)" and live: "items_live s"
  shows "\<exists>l' s'. list_pop_front l s = Inr (a, l', s') \<and> list_rel s' l' ns \<and> list_items s' a = None"
proof -
  have rel0: "list_rel s l ([] @ (a, v) # ns)" using rel by simp
  have seg: "list_items s a = Some \<lparr>li_next = front_of ns 0, li_prev = 0, li_payload = v\<rparr>"
    using rel by (simp add: list_rel_def front_of_def)
  obtain l' s' where r: "list_it_remove l a s = Inr (l', s')" "list_rel s' l' ([] @ ns)" "list_items s' a = None"
    by (rule list_it_remove_ok [OF rel0 live])
  have "list_get_index l 0 s = Inr a" using list_get_index_ok [OF rel, of 0] by simp
  moreover have "items l \<noteq> 0" "list_first l = a" using rel by (auto simp: list_rel_def)
  ultimately have "list_pop_front l s = Inr (a, l', s')"
    using r rel by (simp add: list_pop_front_def list_remove_def SANITY_CHECK_def list_rel_def)
  then show ?thesis using r by simp
qed

lemma list_pop_front_dangling_witness:
  "\<exists>l (s :: lstate) a l' s'. list_rel s l [(a, 7)] \<and> list_pop_front l s = Inr (a, l', s') \<and> list_items s' a = None"
proof -
  have rel: "list_rel small_lists LIST_INITIALIZER []" by (simp add: list_rel_def LIST_INITIALIZER_def)
  have len: "Suc (length ([] :: (u64 \<times> u64) list)) < 2 ^ 64" by simp
  show ?thesis
  proof (rule list_add_ok [OF rel small_lists_ok(1,2) len, of 7], goal_cases)
    case (1 p l s)
    then have "list_rel s l [(p, 7)]" by simp
    then show ?case using list_pop_front_dangling [of s l p 7 "[]"] 1(3) by blast
  qed
qed

end
