(* ===== verification/Mutex_Interleaving.thy ===== *)
theory Mutex_Interleaving
  imports Mutexes
begin

text \<open>
  Several tasks using one mutex. \<open>Mutexes\<close> describes a call of \<^verbatim>\<open>sched/mutex.c\<close> as one
  uninterrupted task executes it; here every access to shared memory is a step of its own, and the
  scheduler may switch to another running task between any two of them. The calls are those of the
  debug build, whose assertions are steps too. A failed assertion halts the machine.

  Results: the two descriptions agree on uninterrupted calls, the mutex excludes, and a task that
  has gone to sleep on a mutex is never woken again.
\<close>

section \<open>Steps\<close>

text \<open>
  Where a task is in \<^verbatim>\<open>mutex_lock\<close> or \<^verbatim>\<open>mutex_unlock\<close>: the next access it makes.
  \<open>Outside\<close> and \<open>Inside\<close> are the caller's code before the lock and in the critical section.
\<close>

datatype mutex_pc =
    Outside
  | Lock_Test | Lock_Xchg | Lock_Current | Lock_Spin | Lock_Sleep | Lock_Add | Lock_Yield
  | Lock_Spin_Unlock | Lock_Own
  | Inside
  | Unlock_Test | Unlock_Owner | Unlock_Disown | Unlock_Release | Unlock_Spin | Unlock_Wake
  | Unlock_Spin_Unlock

record mxstate = kbase +
  mtx :: mutex_t
  pc :: "u64 \<Rightarrow> mutex_pc"
  halted :: "kfault option"

definition goto :: "mutex_pc \<Rightarrow> mxstate \<Rightarrow> mxstate" where
  "goto l s = s\<lparr>pc := (pc s)(current_task s := l)\<rparr>"

text \<open>Go on when the checked operation succeeds, and halt when an assertion of it fails.\<close>

definition attempt :: "'a result \<Rightarrow> ('a \<Rightarrow> mxstate) \<Rightarrow> mxstate \<Rightarrow> mxstate" where
  "attempt r k s = (case r of Inl e \<Rightarrow> s\<lparr>halted := Some e\<rparr> | Inr x \<Rightarrow> k x)"

definition set_spin :: "spin_t \<Rightarrow> mxstate \<Rightarrow> mxstate" where
  "set_spin spin s = s\<lparr>mtx := (mtx s)\<lparr>waiting_tasks_lock := spin\<rparr>\<rparr>"

text \<open>One turn of the loop of \<^verbatim>\<open>spin_lock\<close>: stay in it while the exchange finds a one.\<close>

definition spin_turn :: "mutex_pc \<Rightarrow> mxstate \<Rightarrow> mxstate" where
  "spin_turn l s =
     (let spin = waiting_tasks_lock (mtx s) in
      attempt (spin_check_magic spin) (\<lambda>_.
        let (old, new) = xchg 1 (spin_word spin); s = set_spin (spin\<lparr>spin_word := new\<rparr>) s in
        if old \<noteq> 0 then s else goto l s) s)"

definition spin_release :: "mutex_pc \<Rightarrow> mxstate \<Rightarrow> mxstate" where
  "spin_release l s =
     attempt (spin_unlock (waiting_tasks_lock (mtx s))) (\<lambda>spin. goto l (set_spin spin s)) s"

definition call_lock :: "mxstate \<Rightarrow> mxstate" where
  "call_lock s = attempt (mutex_check_magic (mtx s)) (\<lambda>_. goto Lock_Test s) s"

definition call_unlock :: "mxstate \<Rightarrow> mxstate" where
  "call_unlock s = attempt (mutex_check_magic (mtx s)) (\<lambda>_. goto Unlock_Test s) s"

definition lock_turn :: "mxstate \<Rightarrow> mxstate" where
  "lock_turn s =
     (case pc s (current_task s) of
        Lock_Test \<Rightarrow>
          attempt (kassert (mtx_lock (mtx s) = 0) ''mutex already acquired'')
            (\<lambda>_. goto Lock_Xchg s) s
      | Lock_Xchg \<Rightarrow>
          let (old, new) = xchg 1 (mtx_lock (mtx s)); s = s\<lparr>mtx := (mtx s)\<lparr>mtx_lock := new\<rparr>\<rparr> in
          if old \<noteq> 0 then goto Lock_Current s else goto Lock_Own s
      | Lock_Current \<Rightarrow>
          attempt (kassert (current_task s \<noteq> NULL) ''mutex_lock(): invalid current_task'')
            (\<lambda>_. goto Lock_Spin s) s
      | Lock_Spin \<Rightarrow> spin_turn Lock_Sleep s
      | Lock_Sleep \<Rightarrow>
          attempt (case tasks s (current_task s) of None \<Rightarrow> Inl (Mem_Fault ''task_t'')
                   | Some task \<Rightarrow> Inr task) (\<lambda>task.
            goto Lock_Add
              (s\<lparr>tasks := (tasks s)(current_task s \<mapsto> task\<lparr>task_state := TASK_SLEEPING\<rparr>)\<rparr>)) s
      | Lock_Add \<Rightarrow>
          goto Lock_Yield
            (s\<lparr>mtx := (mtx s)\<lparr>waiting_tasks := waiting_tasks (mtx s) @ [current_task s]\<rparr>\<rparr>)
      | Lock_Spin_Unlock \<Rightarrow> spin_release Lock_Xchg s
      | Lock_Own \<Rightarrow> goto Inside (s\<lparr>mtx := (mtx s)\<lparr>held_by := current_task s\<rparr>\<rparr>)
      | _ \<Rightarrow> s)"

definition unlock_turn :: "mxstate \<Rightarrow> mxstate" where
  "unlock_turn s =
     (case pc s (current_task s) of
        Unlock_Test \<Rightarrow>
          attempt (kassert (mtx_lock (mtx s) \<noteq> 0) ''mutex released but not locked'')
            (\<lambda>_. goto Unlock_Owner s) s
      | Unlock_Owner \<Rightarrow>
          attempt (kassert (held_by (mtx s) = current_task s) ''mutex released by other task'')
            (\<lambda>_. goto Unlock_Disown s) s
      | Unlock_Disown \<Rightarrow> goto Unlock_Release (s\<lparr>mtx := (mtx s)\<lparr>held_by := NULL\<rparr>\<rparr>)
      | Unlock_Release \<Rightarrow> goto Unlock_Spin (s\<lparr>mtx := (mtx s)\<lparr>mtx_lock := 0\<rparr>\<rparr>)
      | Unlock_Spin \<Rightarrow> spin_turn Unlock_Wake s
      | Unlock_Wake \<Rightarrow>
          attempt (wake_first (waiting_tasks (mtx s)) s) (goto Unlock_Spin_Unlock) s
      | Unlock_Spin_Unlock \<Rightarrow> spin_release Outside s
      | _ \<Rightarrow> s)"

text \<open>
  The current task keeps the processor, even after it has marked itself as sleeping, until a timer
  interrupt or its own call of \<^verbatim>\<open>yield\<close> switches to a running task. Only at \<open>Lock_Yield\<close> it
  cannot go on by itself; \<^verbatim>\<open>yield\<close> returns to the statement behind it.
\<close>

definition switch_to :: "u64 \<Rightarrow> mxstate \<Rightarrow> mxstate" where
  "switch_to t s =
     (if pc s (current_task s) = Lock_Yield then goto Lock_Spin_Unlock s else s)
     \<lparr>current_task := t\<rparr>"

inductive mutex_step :: "mxstate \<Rightarrow> mxstate \<Rightarrow> bool" where
  enter: "halted s = None \<Longrightarrow> pc s (current_task s) = Outside \<Longrightarrow> mutex_step s (call_lock s)"
| leave: "halted s = None \<Longrightarrow> pc s (current_task s) \<in> {Inside, Outside} \<Longrightarrow>
          mutex_step s (call_unlock s)"
| locking: "halted s = None \<Longrightarrow>
          pc s (current_task s) \<in> {Lock_Test, Lock_Xchg, Lock_Current, Lock_Spin, Lock_Sleep,
            Lock_Add, Lock_Spin_Unlock, Lock_Own} \<Longrightarrow>
          mutex_step s (lock_turn s)"
| unlocking: "halted s = None \<Longrightarrow>
          pc s (current_task s) \<in> {Unlock_Test, Unlock_Owner, Unlock_Disown, Unlock_Release,
            Unlock_Spin, Unlock_Wake, Unlock_Spin_Unlock} \<Longrightarrow>
          mutex_step s (unlock_turn s)"
| switch: "halted s = None \<Longrightarrow> tasks s t = Some task \<Longrightarrow> task_state task = TASK_RUNNING \<Longrightarrow>
          mutex_step s (switch_to t s)"

text \<open>The start: a fresh mutex, and running tasks at addresses other than null, one of them current.\<close>

definition mutex_start :: "mxstate \<Rightarrow> bool" where
  "mutex_start s \<longleftrightarrow> mtx s = MUTEX_INITIALIZER \<and> pc s = (\<lambda>_. Outside) \<and> halted s = None \<and>
     current_task s \<in> dom (tasks s) \<and> NULL \<notin> dom (tasks s) \<and>
     (\<forall>task \<in> ran (tasks s). task_state task = TASK_RUNNING)"

inductive mutex_reachable :: "mxstate \<Rightarrow> bool" where
  start: "mutex_start s \<Longrightarrow> mutex_reachable s"
| step: "mutex_reachable s \<Longrightarrow> mutex_step s s' \<Longrightarrow> mutex_reachable s'"

text \<open>An interleaving given as a list of choices, for running the relation.\<close>

datatype mutex_choice = Enter | Leave | Go | Switch u64

definition pick :: "mutex_choice \<Rightarrow> mxstate \<Rightarrow> mxstate option" where
  "pick a s =
     (let l = pc s (current_task s) in
      if halted s \<noteq> None then None
      else case a of
        Enter \<Rightarrow> if l = Outside then Some (call_lock s) else None
      | Leave \<Rightarrow> if l \<in> {Inside, Outside} then Some (call_unlock s) else None
      | Go \<Rightarrow>
          if l \<in> {Lock_Test, Lock_Xchg, Lock_Current, Lock_Spin, Lock_Sleep, Lock_Add,
                  Lock_Spin_Unlock, Lock_Own} then Some (lock_turn s)
          else if l \<in> {Unlock_Test, Unlock_Owner, Unlock_Disown, Unlock_Release, Unlock_Spin,
                       Unlock_Wake, Unlock_Spin_Unlock} then Some (unlock_turn s)
          else None
      | Switch t \<Rightarrow>
          (case tasks s t of None \<Rightarrow> None
           | Some task \<Rightarrow> if task_state task = TASK_RUNNING then Some (switch_to t s) else None))"

fun interleave :: "mutex_choice list \<Rightarrow> mxstate \<Rightarrow> mxstate option" where
  "interleave [] s = Some s"
| "interleave (a # as) s = (case pick a s of None \<Rightarrow> None | Some s' \<Rightarrow> interleave as s')"

lemma pick_step: "pick a s = Some s' \<Longrightarrow> mutex_step s s'"
  unfolding pick_def Let_def
  by (cases a) (auto split: if_splits option.splits intro: mutex_step.intros)

lemma interleave_steps: "interleave as s = Some s' \<Longrightarrow> mutex_step\<^sup>*\<^sup>* s s'"
  by (induction as arbitrary: s)
    (auto split: option.splits dest!: pick_step intro: converse_rtranclp_into_rtranclp)

lemma reachable_steps: "mutex_step\<^sup>*\<^sup>* s s' \<Longrightarrow> mutex_reachable s \<Longrightarrow> mutex_reachable s'"
  by (induction rule: rtranclp_induct) (auto intro: mutex_reachable.step)

section \<open>Uninterrupted calls\<close>

text \<open>Running the current task alone, without a switch, until it is back in the caller's code.\<close>

fun run_alone :: "nat \<Rightarrow> mxstate \<Rightarrow> mxstate" where
  "run_alone 0 s = s"
| "run_alone (Suc n) s =
     (if halted s \<noteq> None \<or> pc s (current_task s) \<in> {Inside, Outside, Lock_Yield} then s
      else run_alone n (unlock_turn (lock_turn s)))"

section \<open>The invariant\<close>

text \<open>
  The invariant has three parts, each over the components of the state it is about: the word and
  the owner of the mutex, the spinlock of the waiting list, and the sleeping tasks. Each part says
  of every task where it can be, given who owns the lock. A task owns the mutex from the successful
  exchange to the release. At the two tests of \<^verbatim>\<open>mutex_unlock\<close> there may also be a task that calls
  it without owning the mutex.
\<close>

definition lock_at :: "u64 option \<Rightarrow> u64 \<Rightarrow> u64 \<Rightarrow> mutex_pc \<Rightarrow> bool" where
  "lock_at owner h t l \<longleftrightarrow>
     (l \<in> {Lock_Own, Inside, Unlock_Disown, Unlock_Release} \<or>
      l \<in> {Unlock_Test, Unlock_Owner} \<and> h = t) = (owner = Some t) \<and>
     (l \<in> {Inside, Unlock_Disown} \<longrightarrow> h = t) \<and>
     (h = t \<longrightarrow> t \<noteq> NULL \<longrightarrow> l \<in> {Inside, Unlock_Test, Unlock_Owner, Unlock_Disown}) \<and>
     (l \<noteq> Outside \<longrightarrow> t \<noteq> NULL)"

definition lock_inv :: "u64 \<Rightarrow> u64 \<Rightarrow> (u64 \<Rightarrow> mutex_pc) \<Rightarrow> bool" where
  "lock_inv lk h p \<longleftrightarrow>
     (\<exists>owner. (owner \<noteq> None \<longrightarrow> lk \<noteq> 0) \<and> (\<forall>t. lock_at owner h t (p t)))"

abbreviation "spin_pcs \<equiv>
  {Lock_Sleep, Lock_Add, Lock_Yield, Lock_Spin_Unlock, Unlock_Wake, Unlock_Spin_Unlock}"

definition spin_inv :: "u64 \<Rightarrow> (u64 \<Rightarrow> mutex_pc) \<Rightarrow> bool" where
  "spin_inv w p \<longleftrightarrow>
     (\<exists>owner. (owner \<noteq> None \<longrightarrow> w \<noteq> 0) \<and> (\<forall>t. (p t \<in> spin_pcs) = (owner = Some t)))"

definition asleep :: "(u64 \<rightharpoonup> task_t) \<Rightarrow> u64 \<Rightarrow> bool" where
  "asleep ts t \<longleftrightarrow> (case ts t of None \<Rightarrow> False | Some task \<Rightarrow> task_state task = TASK_SLEEPING)"

abbreviation "sleep_pcs \<equiv> {Lock_Add, Lock_Yield, Lock_Spin_Unlock}"

definition sleep_inv :: "(u64 \<rightharpoonup> task_t) \<Rightarrow> u64 list \<Rightarrow> (u64 \<Rightarrow> mutex_pc) \<Rightarrow> bool" where
  "sleep_inv ts ws p \<longleftrightarrow>
     (\<forall>t. asleep ts t \<longleftrightarrow> p t \<in> sleep_pcs) \<and> (\<forall>t \<in> set ws. p t \<in> {Lock_Yield, Lock_Spin_Unlock})"

definition mutex_inv :: "mxstate \<Rightarrow> bool" where
  "mutex_inv s \<longleftrightarrow>
     mtx_magic (mtx s) = MUTEX_MAGIC \<and> spin_magic (waiting_tasks_lock (mtx s)) = SPIN_MAGIC \<and>
     NULL \<notin> dom (tasks s) \<and> current_task s \<in> dom (tasks s) \<and>
     pc s (current_task s) \<noteq> Lock_Spin_Unlock \<and>
     lock_inv (mtx_lock (mtx s)) (held_by (mtx s)) (pc s) \<and>
     spin_inv (spin_word (waiting_tasks_lock (mtx s))) (pc s) \<and>
     sleep_inv (tasks s) (waiting_tasks (mtx s)) (pc s)"

subsection \<open>Effects of single accesses\<close>

lemma lock_inv_update:
  assumes "lock_inv lk h p"
    and "\<And>owner. \<lbrakk>owner \<noteq> None \<longrightarrow> lk \<noteq> 0; lock_at owner h c (p c)\<rbrakk> \<Longrightarrow>
      (f owner \<noteq> None \<longrightarrow> lk' \<noteq> 0) \<and> lock_at (f owner) h' c x \<and>
      (\<forall>t l. t \<noteq> c \<longrightarrow> lock_at owner h t l \<longrightarrow> lock_at (f owner) h' t l)"
  shows "lock_inv lk' h' (p(c := x))"
proof -
  obtain owner where o: "owner \<noteq> None \<longrightarrow> lk \<noteq> 0" "\<And>t. lock_at owner h t (p t)"
    using assms(1) unfolding lock_inv_def by auto
  show ?thesis
    unfolding lock_inv_def using assms(2) [OF o(1) o(2) [of c]] o(2)
    by (intro exI [of _ "f owner"]) auto
qed

lemma lock_inv_elsewhere:
  assumes "lock_inv lk h p"
    and "p c \<notin> {Lock_Own, Inside, Unlock_Disown, Unlock_Release, Unlock_Test, Unlock_Owner}"
    and "x \<notin> {Lock_Own, Inside, Unlock_Disown, Unlock_Release, Unlock_Test, Unlock_Owner}"
    and "lk \<noteq> 0 \<longrightarrow> lk' \<noteq> 0" and "c \<noteq> NULL"
  shows "lock_inv lk' h (p(c := x))"
  by (rule lock_inv_update [OF assms(1), where f = id]) (use assms(2-) in \<open>auto simp: lock_at_def\<close>)

lemma lock_inv_acquire:
  assumes "lock_inv lk h p" and "lk = 0" and "p c = Lock_Xchg"
  shows "lock_inv 1 h (p(c := Lock_Own))"
  by (rule lock_inv_update [OF assms(1), where f = "\<lambda>_. Some c"])
    (use assms(2-) in \<open>auto simp: lock_at_def\<close>)

lemma lock_inv_own:
  assumes "lock_inv lk h p" and "p c = Lock_Own"
  shows "lock_inv lk c (p(c := Inside))"
  by (rule lock_inv_update [OF assms(1), where f = id])
    (use assms(2) in \<open>auto simp: lock_at_def\<close>)

lemma lock_inv_unlock:
  assumes "lock_inv lk h p" and "c \<noteq> NULL"
    and "p c = Inside \<and> x = Unlock_Test \<or> p c = Outside \<and> x = Unlock_Test \<or>
         p c = Unlock_Test \<and> x = Unlock_Owner"
  shows "lock_inv lk h (p(c := x))"
  by (rule lock_inv_update [OF assms(1), where f = id])
    (use assms(2-) in \<open>auto simp: lock_at_def\<close>)

lemma lock_inv_owner:
  assumes "lock_inv lk h p" and "p c = Unlock_Owner" and "h = c"
  shows "lock_inv lk c (p(c := Unlock_Disown))"
  by (rule lock_inv_update [OF assms(1), where f = id])
    (use assms(2-) in \<open>auto simp: lock_at_def\<close>)

lemma lock_inv_disown:
  assumes "lock_inv lk h p" and "p c = Unlock_Disown"
  shows "lock_inv lk NULL (p(c := Unlock_Release))"
  by (rule lock_inv_update [OF assms(1), where f = id])
    (use assms(2-) in \<open>auto simp: lock_at_def\<close>)

lemma lock_inv_release:
  assumes "lock_inv lk h p" and "p c = Unlock_Release"
  shows "lock_inv 0 h (p(c := Unlock_Spin))"
  by (rule lock_inv_update [OF assms(1), where f = "\<lambda>_. None"])
    (use assms(2-) in \<open>auto simp: lock_at_def\<close>)

lemma spin_inv_update:
  assumes "spin_inv w p"
    and "\<And>owner. \<lbrakk>owner \<noteq> None \<longrightarrow> w \<noteq> 0; (p c \<in> spin_pcs) = (owner = Some c)\<rbrakk> \<Longrightarrow>
      (f owner \<noteq> None \<longrightarrow> w' \<noteq> 0) \<and> (x \<in> spin_pcs) = (f owner = Some c) \<and>
      (\<forall>t. t \<noteq> c \<longrightarrow> (owner = Some t) = (f owner = Some t))"
  shows "spin_inv w' (p(c := x))"
proof -
  obtain owner where o: "owner \<noteq> None \<longrightarrow> w \<noteq> 0" "\<And>t. (p t \<in> spin_pcs) = (owner = Some t)"
    using assms(1) unfolding spin_inv_def by blast
  note f = assms(2) [OF o(1) o(2) [of c]]
  have "((p(c := x)) t \<in> spin_pcs) = (f owner = Some t)" for t
    using f o(2) [of t] by (cases "t = c") (simp_all del: insert_iff)
  then show ?thesis unfolding spin_inv_def using f by blast
qed

lemma spin_inv_keep:
  assumes "spin_inv w p" and "(x \<in> spin_pcs) = (p c \<in> spin_pcs)" and "w \<noteq> 0 \<longrightarrow> w' \<noteq> 0"
  shows "spin_inv w' (p(c := x))"
  by (rule spin_inv_update [OF assms(1), where f = id])
    (use assms(2-) in \<open>simp del: insert_iff\<close>)

lemma spin_inv_acquire:
  assumes "spin_inv w p" and "w = 0" and "x \<in> spin_pcs"
  shows "spin_inv 1 (p(c := x))"
  by (rule spin_inv_update [OF assms(1), where f = "\<lambda>_. Some c"])
    (use assms(2-) in \<open>simp del: insert_iff\<close>)

lemma spin_inv_release:
  assumes "spin_inv w p" and "p c \<in> spin_pcs" and "x \<notin> spin_pcs"
  shows "spin_inv 0 (p(c := x))"
  by (rule spin_inv_update [OF assms(1), where f = "\<lambda>_. None"])
    (use assms(2-) in \<open>auto simp del: insert_iff\<close>)

lemma spin_inv_word: "spin_inv w p \<Longrightarrow> w' \<noteq> 0 \<Longrightarrow> spin_inv w' p"
  by (auto simp: spin_inv_def)

lemma spin_inv_unique:
  "spin_inv w p \<Longrightarrow> p t \<in> spin_pcs \<Longrightarrow> p u \<in> spin_pcs \<Longrightarrow> t = u"
  unfolding spin_inv_def by (metis option.inject)

lemma sleep_inv_keep:
  assumes "sleep_inv ts ws p" and "p c \<notin> sleep_pcs" and "x \<notin> sleep_pcs"
  shows "sleep_inv ts ws (p(c := x))"
  using assms unfolding sleep_inv_def by (auto simp del: insert_iff)

lemma sleep_inv_sleep:
  assumes "sleep_inv ts ws p" and "p c = Lock_Sleep"
  shows "sleep_inv (ts(c \<mapsto> task\<lparr>task_state := TASK_SLEEPING\<rparr>)) ws (p(c := Lock_Add))"
  using assms unfolding sleep_inv_def asleep_def by (auto simp del: insert_iff)

lemma sleep_inv_add:
  assumes "sleep_inv ts ws p" and "p c = Lock_Add"
  shows "sleep_inv ts (ws @ [c]) (p(c := Lock_Yield))"
  using assms unfolding sleep_inv_def by (auto simp del: insert_iff)

lemma sleep_inv_yield:
  assumes "sleep_inv ts ws p" and "p c = Lock_Yield"
  shows "sleep_inv ts ws (p(c := Lock_Spin_Unlock))"
  using assms unfolding sleep_inv_def by (auto simp del: insert_iff)

subsection \<open>Every step keeps the invariant\<close>

lemmas turn_defs = call_lock_def call_unlock_def lock_turn_def unlock_turn_def spin_turn_def
  spin_release_def attempt_def goto_def set_spin_def switch_to_def xchg_def spin_unlock_def
  spin_check_magic_def mutex_check_magic_def kassert_def kpanic_def rbind_def Let_def

lemmas lock_inv_rules = lock_inv_elsewhere lock_inv_acquire lock_inv_own lock_inv_unlock
  lock_inv_owner lock_inv_disown lock_inv_release
lemmas spin_inv_rules = spin_inv_word spin_inv_keep spin_inv_acquire spin_inv_release
lemmas sleep_inv_rules = sleep_inv_keep sleep_inv_sleep sleep_inv_add sleep_inv_yield

lemma mutex_inv_start: "mutex_start s \<Longrightarrow> mutex_inv s"
  by (auto simp: mutex_start_def mutex_inv_def MUTEX_INITIALIZER_def SPIN_INITIALIZER_def
      lock_inv_def lock_at_def spin_inv_def sleep_inv_def asleep_def ran_def split: option.split)

lemma mutex_inv_halt [simp]: "mutex_inv (s\<lparr>halted := h\<rparr>) = mutex_inv s"
  by (simp add: mutex_inv_def)

lemma mutex_inv_current: "mutex_inv s \<Longrightarrow> current_task s \<noteq> NULL"
  by (auto simp: mutex_inv_def)

lemma mutex_invE:
  assumes "mutex_inv s"
  obtains "mtx_magic (mtx s) = MUTEX_MAGIC" "spin_magic (waiting_tasks_lock (mtx s)) = SPIN_MAGIC"
    "tasks s NULL = None" "\<exists>task. tasks s (current_task s) = Some task"
    "current_task s \<noteq> NULL" "pc s (current_task s) \<noteq> Lock_Spin_Unlock"
    "lock_inv (mtx_lock (mtx s)) (held_by (mtx s)) (pc s)"
    "spin_inv (spin_word (waiting_tasks_lock (mtx s))) (pc s)"
    "sleep_inv (tasks s) (waiting_tasks (mtx s)) (pc s)"
  using assms mutex_inv_current [OF assms] by (auto simp: mutex_inv_def)

lemma nobody_to_wake:
  assumes "mutex_inv s" and "pc s (current_task s) = Unlock_Wake"
  shows "waiting_tasks (mtx s) = []"
proof (rule ccontr)
  assume "waiting_tasks (mtx s) \<noteq> []"
  then obtain t where t: "t \<in> set (waiting_tasks (mtx s))" by (cases "waiting_tasks (mtx s)") auto
  have "pc s t \<in> {Lock_Yield, Lock_Spin_Unlock}"
    using assms(1) t unfolding mutex_inv_def sleep_inv_def by blast
  moreover have "t = current_task s"
    using assms(1) calculation assms(2) unfolding mutex_inv_def
    by (intro spin_inv_unique) auto
  ultimately show False using assms(2) by auto
qed

lemma mutex_inv_attempt:
  assumes "mutex_inv s" and "\<And>x. r = Inr x \<Longrightarrow> mutex_inv (k x)"
  shows "mutex_inv (attempt r k s)"
  using assms by (cases r) (simp_all add: attempt_def)

lemma mutex_inv_turn:
  assumes inv: "mutex_inv s"
  shows mutex_inv_call_lock: "pc s (current_task s) = Outside \<Longrightarrow> mutex_inv (call_lock s)"
    and mutex_inv_call_unlock:
      "pc s (current_task s) \<in> {Inside, Outside} \<Longrightarrow> mutex_inv (call_unlock s)"
    and mutex_inv_lock_turn: "mutex_inv (lock_turn s)"
    and mutex_inv_unlock_turn: "mutex_inv (unlock_turn s)"
proof -
  have *: "mtx_magic (mtx s) = MUTEX_MAGIC" "spin_magic (waiting_tasks_lock (mtx s)) = SPIN_MAGIC"
    "tasks s NULL = None" "current_task s \<noteq> NULL" "pc s (current_task s) \<noteq> Lock_Spin_Unlock"
    and parts: "lock_inv (mtx_lock (mtx s)) (held_by (mtx s)) (pc s)"
      "spin_inv (spin_word (waiting_tasks_lock (mtx s))) (pc s)"
      "sleep_inv (tasks s) (waiting_tasks (mtx s)) (pc s)"
    using inv by (auto simp: mutex_inv_def)
  obtain task where task: "tasks s (current_task s) = Some task"
    using inv by (auto simp: mutex_inv_def)
  note simps = * task domIff mutex_inv_def turn_defs
    lock_inv_rules [OF parts(1)] spin_inv_rules [OF parts(2)] sleep_inv_rules [OF parts(3)]
  show "mutex_inv (call_lock s)" if "pc s (current_task s) = Outside"
    using that parts by (simp add: simps)
  show "mutex_inv (call_unlock s)" if "pc s (current_task s) \<in> {Inside, Outside}"
    using that parts by (auto simp: simps)
  show "mutex_inv (lock_turn s)"
    using parts by (cases "pc s (current_task s)") (simp_all add: simps)
  show "mutex_inv (unlock_turn s)"
  proof (cases "pc s (current_task s)")
    case Unlock_Wake
    then have "waiting_tasks (mtx s) = []" by (rule nobody_to_wake [OF inv])
    with Unlock_Wake parts show ?thesis by (simp add: simps wake_first_def sleep_inv_keep)
  next
    case Unlock_Test
    with parts show ?thesis
      by (auto simp: unlock_turn_def simps intro!: mutex_inv_attempt [OF inv])
  next
    case Unlock_Spin_Unlock
    with parts show ?thesis by (auto simp: simps)
  qed (use parts in \<open>simp_all add: simps\<close>)
qed

lemma mutex_inv_switch:
  assumes inv: "mutex_inv s" and task: "tasks s t = Some task" "task_state task = TASK_RUNNING"
  shows "mutex_inv (switch_to t s)"
proof -
  have parts: "lock_inv (mtx_lock (mtx s)) (held_by (mtx s)) (pc s)"
      "spin_inv (spin_word (waiting_tasks_lock (mtx s))) (pc s)"
      "sleep_inv (tasks s) (waiting_tasks (mtx s)) (pc s)"
    using inv by (auto simp: mutex_inv_def)
  have "asleep (tasks s) t \<longleftrightarrow> pc s t \<in> sleep_pcs" using parts(3) unfolding sleep_inv_def by blast
  then have "pc s t \<notin> sleep_pcs" using task by (simp add: asleep_def)
  then show ?thesis
    using inv task mutex_inv_current [OF inv]
    by (auto simp: mutex_inv_def turn_defs lock_inv_rules [OF parts(1)] spin_inv_rules [OF parts(2)]
        sleep_inv_rules [OF parts(3)])
qed

lemma mutex_inv_step: "mutex_step s s' \<Longrightarrow> mutex_inv s \<Longrightarrow> mutex_inv s'"
  by (induction rule: mutex_step.induct)
    (simp_all add: mutex_inv_turn mutex_inv_switch)

lemma mutex_inv_reachable: "mutex_reachable s \<Longrightarrow> mutex_inv s"
  by (induction rule: mutex_reachable.induct) (auto intro: mutex_inv_start mutex_inv_step)

lemma usage_panics:
  assumes "mutex_step s s'" and "mutex_inv s" and "halted s' = Some e"
  shows "e \<in> {Panic ''mutex already acquired'', Panic ''mutex released but not locked'',
              Panic ''mutex released by other task''}"
proof -
  have "spin_word (waiting_tasks_lock (mtx s)) \<noteq> 0" if "pc s (current_task s) \<in> spin_pcs"
    using assms(2) that unfolding mutex_inv_def spin_inv_def by blast
  with assms(1) show ?thesis
    using assms(2,3) nobody_to_wake [OF assms(2)] mutex_inv_current [OF assms(2)]
    by (cases rule: mutex_step.cases)
      (auto simp: mutex_inv_def turn_defs wake_first_def split: if_splits)
qed

lemma reachable_panics:
  assumes "mutex_reachable s" and "halted s = Some e"
  shows "e \<in> {Panic ''mutex already acquired'', Panic ''mutex released but not locked'',
              Panic ''mutex released by other task''}"
  using assms
proof (cases rule: mutex_reachable.cases)
  case start
  with assms(2) show ?thesis by (simp add: mutex_start_def)
next
  case (step s')
  show ?thesis by (rule usage_panics [OF step(2) mutex_inv_reachable [OF step(1)] assms(2)])
qed

lemma mutex_inv_inside:
  assumes "mutex_inv s" and "pc s t = Inside"
  shows "mtx_lock (mtx s) \<noteq> 0" and "held_by (mtx s) = t" and "pc s u = Inside \<Longrightarrow> t = u"
proof -
  obtain owner where o: "owner \<noteq> None \<longrightarrow> mtx_lock (mtx s) \<noteq> 0"
      "\<And>t. lock_at owner (held_by (mtx s)) t (pc s t)"
    using assms(1) unfolding mutex_inv_def lock_inv_def by blast
  show "mtx_lock (mtx s) \<noteq> 0" and "held_by (mtx s) = t" and "pc s u = Inside \<Longrightarrow> t = u"
    using assms(2) o(1) o(2) [of t] o(2) [of u] by (simp_all add: lock_at_def)
qed

text \<open>A sleeping task keeps the spinlock, so that nobody gets past it.\<close>

lemma stuck_step:
  assumes "mutex_step r r'" and inv: "mutex_inv r" and t: "asleep (tasks r) t"
  shows "asleep (tasks r') t" and "pc r u = Unlock_Spin \<Longrightarrow> pc r' u = Unlock_Spin"
proof -
  have "pc r t \<in> sleep_pcs" using inv t unfolding mutex_inv_def sleep_inv_def by blast
  then have "spin_word (waiting_tasks_lock (mtx r)) \<noteq> 0"
    and "pc r (current_task r) \<in> spin_pcs \<Longrightarrow> current_task r = t"
    using inv spin_inv_unique [of _ "pc r" "current_task r" t]
    unfolding mutex_inv_def spin_inv_def by blast+
  with assms(1) show "asleep (tasks r') t" "pc r u = Unlock_Spin \<Longrightarrow> pc r' u = Unlock_Spin"
    using inv t nobody_to_wake [OF inv]
    by (cases rule: mutex_step.cases; 
        auto simp: mutex_inv_def turn_defs wake_first_def asleep_def split: if_splits option.splits)+
qed

section \<open>Results\<close>

text \<open>
  C14: Whatever the tasks do and however they are interleaved, at most one task is in the critical
  section of a mutex, and while it is there the mutex is taken and records it as its holder. The
  only assertions that can fail are those on the use of the mutex: a call of \<^verbatim>\<open>mutex_lock\<close> that
  finds the mutex taken at its first test, and calls of \<^verbatim>\<open>mutex_unlock\<close> by tasks that do not hold it.
\<close>

theorem mutex_mutual_exclusion:
  assumes "mutex_reachable s"
  shows "(pc s t = Inside \<longrightarrow> pc s u = Inside \<longrightarrow> t = u) \<and>
    (pc s t = Inside \<longrightarrow> mtx_lock (mtx s) \<noteq> 0 \<and> held_by (mtx s) = t) \<and>
    (\<forall>e. halted s = Some e \<longrightarrow>
      e \<in> {Panic ''mutex already acquired'', Panic ''mutex released but not locked'',
           Panic ''mutex released by other task''})"
  using mutex_inv_inside [OF mutex_inv_reachable [OF assms]] reachable_panics [OF assms] by blast

text \<open>
  A task that goes to sleep in \<^verbatim>\<open>mutex_lock\<close> keeps the spinlock of the waiting list across
  \<^verbatim>\<open>yield\<close>. From then on it is asleep for ever, and a task in the loop of
  \<^verbatim>\<open>spin_lock\<close> that \<^verbatim>\<open>mutex_unlock\<close> runs before it wakes the first waiting task never leaves it.
\<close>

theorem mutex_sleeper_stuck:
  assumes "mutex_reachable s" and "asleep (tasks s) t" and "mutex_step\<^sup>*\<^sup>* s s'"
  shows "asleep (tasks s') t \<and> (pc s u = Unlock_Spin \<longrightarrow> pc s' u = Unlock_Spin)"
proof -
  have "mutex_reachable s' \<and> asleep (tasks s') t \<and> (pc s u = Unlock_Spin \<longrightarrow> pc s' u = Unlock_Spin)"
    using assms(3,1,2)
    by (induction rule: rtranclp_induct)
      (auto dest: stuck_step [OF _ mutex_inv_reachable] intro: mutex_reachable.step)
  then show ?thesis by blast
qed

lemma lock_alone:
  assumes "halted s = None"
  shows "case mutex_lock (mtx s) s of
           Inr m \<Rightarrow> run_alone 3 (call_lock s) = goto Inside (s\<lparr>mtx := m\<rparr>)
         | Inl e \<Rightarrow> halted (run_alone 3 (call_lock s)) = Some e"
  using assms by (simp add: mutex_lock_def turn_defs numeral_eq_Suc)

lemma unlock_alone:
  assumes "halted s = None"
  shows "case mutex_unlock (mtx s) s of
           Inr (m, s') \<Rightarrow> run_alone 7 (call_unlock s) = goto Outside (s'\<lparr>mtx := m\<rparr>)
         | Inl e \<Rightarrow>
             if e = Blocked then pc (run_alone 7 (call_unlock s)) (current_task s) = Unlock_Spin
             else halted (run_alone 7 (call_unlock s)) = Some e"
proof -
  note simps = mutex_unlock_def turn_defs numeral_eq_Suc spin_lock_def wake_first_def
  consider "waiting_tasks (mtx s) = []"
    | t ts where "waiting_tasks (mtx s) = t # ts" "tasks s t = None"
    | t ts task where "waiting_tasks (mtx s) = t # ts" "tasks s t = Some task"
    by (metis list.exhaust option.exhaust)
  then show ?thesis using assms by cases (simp_all add: simps)
qed


section \<open>An example\<close>

text \<open>
  Two tasks. The first passes the test of \<^verbatim>\<open>mutex_lock\<close> and is interrupted before the exchange; the
  second takes the mutex; the first goes to sleep; the second calls \<^verbatim>\<open>mutex_unlock\<close>.
\<close>

definition idle_task :: "u64 \<Rightarrow> task_t" where
  "idle_task n = \<lparr>tid = n, task_state = TASK_RUNNING, task_context = NULL,
     task_vspace = VSPACE_KERNEL, kstack_ptr = NULL, kstack_base = NULL, irq_wait = False,
     user_stack = NULL, task_process = NULL\<rparr>"

definition two_tasks :: mxstate where
  "two_tasks = \<lparr>current_task = 0x1000, tasks = [0x1000 \<mapsto> idle_task 1, 0x2000 \<mapsto> idle_task 2],
     mtx = MUTEX_INITIALIZER, pc = (\<lambda>_. Outside), halted = None\<rparr>"

definition contend :: "mutex_choice list" where
  "contend = [Enter, Go, Switch 0x2000, Enter, Go, Go, Go, Switch 0x1000]"

definition fall_asleep :: "mutex_choice list" where
  "fall_asleep = [Go, Go, Go, Go, Go, Switch 0x2000, Leave, Go, Go, Go, Go]"

lemma two_tasks_start: "mutex_start two_tasks"
  by (auto simp: mutex_start_def two_tasks_def idle_task_def ran_def)

lemma interleave_reachable: "interleave as two_tasks = Some s \<Longrightarrow> mutex_reachable s"
  by (auto intro: reachable_steps [OF interleave_steps] mutex_reachable.start two_tasks_start)

lemmas run_simps = pick_def turn_defs two_tasks_def idle_task_def contend_def fall_asleep_def
  MUTEX_INITIALIZER_def SPIN_INITIALIZER_def

lemma asleep_example:
  "\<exists>s. interleave (contend @ fall_asleep) two_tasks = Some s \<and>
     pc s 0x2000 = Unlock_Spin \<and> asleep (tasks s) 0x1000 \<and> pick Go s = Some s"
  by (simp add: run_simps asleep_def)

theorem mutex_mutual_exclusion_witness:
  "\<exists>s. interleave contend two_tasks = Some s \<and> pc s 0x2000 = Inside \<and> mtx_lock (mtx s) \<noteq> 0 \<and>
     held_by (mtx s) = 0x2000"
proof -
  have "\<exists>s. interleave contend two_tasks = Some s \<and> pc s 0x2000 = Inside"
    by (simp add: run_simps)
  then obtain s where s: "interleave contend two_tasks = Some s" "pc s 0x2000 = Inside" by blast
  with mutex_mutual_exclusion [OF interleave_reachable [OF s(1)], of "0x2000"] show ?thesis by blast
qed

theorem mutex_sleeper_stuck_witness:
  "\<exists>s s'. interleave (contend @ fall_asleep) two_tasks = Some s \<and> interleave [Go, Go, Go] s = Some s' \<and>
     asleep (tasks s') 0x1000 \<and> pc s' 0x2000 = Unlock_Spin"
proof -
  obtain s where s: "interleave (contend @ fall_asleep) two_tasks = Some s"
      "pc s 0x2000 = Unlock_Spin" "asleep (tasks s) 0x1000" "pick Go s = Some s"
    using asleep_example by blast
  then have g: "interleave [Go, Go, Go] s = Some s" by simp
  from s mutex_sleeper_stuck [OF interleave_reachable [OF s(1)] s(3) interleave_steps [OF g], of "0x2000"] g
  show ?thesis by blast
qed


end
