(* ===== verification/Vspace_Objects.thy ===== *)
theory Vspace_Objects
  imports Kheap
begin

text \<open>
  Creating and deleting address spaces, the part of \<^verbatim>\<open>x86_64/vspace.c\<close> that needs the heap:
  \<^verbatim>\<open>vspace_create\<close> allocates the object and its root table and shares the kernel's upper half,
  \<^verbatim>\<open>vspace_delete\<close> walks the lower half and frees every page and every table. \<^verbatim>\<open>kfree\<close> leaves the bytes of an
  object in place, so a deleted \<^verbatim>\<open>vspace_t\<close> keeps its entry in \<open>vspaces\<close>.
\<close>

section \<open>Operations\<close>

text \<open>
  \<open>raw\<close> is what uninitialised memory holds; \<^verbatim>\<open>sizeof(vspace_t)\<close> is 80. The old contents of the object
  matter, because \<^verbatim>\<open>mutex_init\<close> checks them.
\<close>

definition vspace_memory :: "(u64 \<Rightarrow> vspace_t) \<Rightarrow> u64 \<Rightarrow> 'a vmstate_scheme \<Rightarrow> vspace_t" where
  "vspace_memory raw p s = (case vspaces s (Vspace p) of None \<Rightarrow> raw p | Some vs \<Rightarrow> vs)"

definition vspace_create :: "(u64 \<Rightarrow> vspace_t) \<Rightarrow> 'a hstate_scheme \<Rightarrow> (vspace_ref \<times> 'a hstate_scheme) result" where
  "vspace_create raw s =
     rbind (kmalloc 80 101 0 s) (\<lambda>(vspace, s).
     rbind (alloc_page s) (\<lambda>(ppn, s).
     rbind (mutex_init (vs_lock (vspace_memory raw vspace s))) (\<lambda>m.
     let s = s\<lparr>vspaces := (vspaces s)(Vspace vspace \<mapsto> \<lparr>vs_lock = m, vs_pml4_ppn = ppn\<rparr>)\<rparr> in
     rbind (vspace_update_kernel_mapping (Vspace vspace) s) (\<lambda>s. Inr (Vspace vspace, s)))))"

text \<open>
  One of the nested loops: over the entries from \<open>i\<close> on, \<open>n\<close> of them, of the table \<open>t\<close>. Entries that are not
  present are skipped.
\<close>

fun free_entries ::
  "(u64 \<Rightarrow> 'a pgstate_scheme \<Rightarrow> 'a pgstate_scheme result) \<Rightarrow> u64 \<Rightarrow> nat \<Rightarrow> nat \<Rightarrow> 'a pgstate_scheme \<Rightarrow> 'a pgstate_scheme result" where
  "free_entries f t 0 i s = Inr s"
| "free_entries f t (Suc n) i s =
     rbind (if \<not> gpte_present (phys s t i) then Inr s else f (gpte_ppn (phys s t i)) s)
       (free_entries f t n (i + 1))"

text \<open>A page at level 0; a page table at level 1, a page directory at level 2, a PDPT at level 3.\<close>

fun free_table :: "nat \<Rightarrow> u64 \<Rightarrow> 'a pgstate_scheme \<Rightarrow> 'a pgstate_scheme result" where
  "free_table 0 ppn s = free_page ppn s"
| "free_table (Suc l) ppn s = rbind (free_entries (free_table l) ppn 512 0 s) (free_page ppn)"

definition vspace_free_frames :: "u64 \<Rightarrow> 'a pgstate_scheme \<Rightarrow> 'a pgstate_scheme result" where
  "vspace_free_frames pml4_ppn s = rbind (free_entries (free_table 3) pml4_ppn 256 0 s) (free_page pml4_ppn)"

definition vspace_delete :: "vspace_ref \<Rightarrow> 'a hstate_scheme \<Rightarrow> 'a hstate_scheme result" where
  "vspace_delete r s =
     rbind (get_vspace r s) (\<lambda>vs.
     rbind (mutex_lock (vs_lock vs) s) (\<lambda>m.
     let live = (vs_pml4_ppn vs \<noteq> - 1);
         pml4_ppn = vs_pml4_ppn vs;
         s = s\<lparr>vspaces := (vspaces s)(r \<mapsto> \<lparr>vs_lock = m, vs_pml4_ppn = - 1\<rparr>)\<rparr> in
     rbind (mutex_unlock m s) (\<lambda>(m, s).
     let s = s\<lparr>vspaces := (vspaces s)(r \<mapsto> \<lparr>vs_lock = m, vs_pml4_ppn = - 1\<rparr>)\<rparr> in
     if \<not> live then Inr s
     else
       rbind (vspace_free_frames pml4_ppn s) (\<lambda>s.
       case r of VSPACE_KERNEL \<Rightarrow> Inl (Mem_Fault ''kfree'') | Vspace p \<Rightarrow> kfree p s))))"

section \<open>Freeing a tree of tables\<close>

text \<open>The paths of at most \<open>l\<close> indices, and the frames they reach from a table.\<close>

definition tpath :: "nat \<Rightarrow> nat list \<Rightarrow> bool" where
  "tpath l p \<longleftrightarrow> length p \<le> l \<and> set p \<subseteq> {..<512}"

definition tree_frames :: "(u64 \<Rightarrow> nat \<Rightarrow> u64) \<Rightarrow> nat \<Rightarrow> u64 \<Rightarrow> u64 set" where
  "tree_frames ph l t = {f. \<exists>p. tpath l p \<and> walk ph t p = Some f}"

definition tree_ok :: "(u64 \<Rightarrow> nat \<Rightarrow> u64) \<Rightarrow> nat \<Rightarrow> u64 \<Rightarrow> nat set \<Rightarrow> bool" where
  "tree_ok ph l t used \<longleftrightarrow> unat ` tree_frames ph l t \<subseteq> used \<and>
     (\<forall>p q f. tpath l p \<longrightarrow> tpath l q \<longrightarrow> walk ph t p = Some f \<longrightarrow> walk ph t q = Some f \<longrightarrow> p = q)"

definition frees :: "nat set \<Rightarrow> 'a pgstate_scheme \<Rightarrow> 'a pgstate_scheme \<Rightarrow> bool" where
  "frees F s s' \<longleftrightarrow> pg_inv s' \<and> (\<exists>bmp. s' = s\<lparr>free_pages := bmp\<rparr>) \<and> pg_used s' = pg_used s - F \<and> pg_total s' = pg_total s"

text \<open>The frames below the entries of a table.\<close>

definition entry_frames :: "(u64 \<Rightarrow> nat \<Rightarrow> u64) \<Rightarrow> nat \<Rightarrow> u64 \<Rightarrow> nat \<Rightarrow> u64 set" where
  "entry_frames ph l t i = (if gpte_present (ph t i) then tree_frames ph l (gpte_ppn (ph t i)) else {})"

lemma tpath_Nil [simp]: "tpath l []"
  by (simp add: tpath_def)

lemma tpath_Cons [simp]: "tpath (Suc l) (i # p) \<longleftrightarrow> i < 512 \<and> tpath l p"
  by (auto simp: tpath_def)

lemma tree_frames_0: "tree_frames ph 0 t = {t}"
  by (auto simp: tree_frames_def tpath_def)

lemma tree_frames_Suc: "tree_frames ph (Suc l) t = insert t (\<Union>i<512. entry_frames ph l t i)"
proof (rule set_eqI, rule iffI)
  fix f assume "f \<in> tree_frames ph (Suc l) t"
  then obtain p where p: "tpath (Suc l) p" "walk ph t p = Some f" by (auto simp: tree_frames_def)
  show "f \<in> insert t (\<Union>i<512. entry_frames ph l t i)"
  proof (cases p)
    case Nil
    then show ?thesis using p by simp
  next
    case (Cons i q)
    then show ?thesis using p by (auto simp: entry_frames_def tree_frames_def split: if_splits)
  qed
next
  fix f assume "f \<in> insert t (\<Union>i<512. entry_frames ph l t i)"
  then show "f \<in> tree_frames ph (Suc l) t"
  proof
    assume "f = t"
    then show ?thesis unfolding tree_frames_def by (auto intro: exI [of _ "[]"])
  next
    assume "f \<in> (\<Union>i<512. entry_frames ph l t i)"
    then obtain i p where "i < 512" "gpte_present (ph t i)" "tpath l p" "walk ph (gpte_ppn (ph t i)) p = Some f"
      by (auto simp: entry_frames_def tree_frames_def split: if_splits)
    then show ?thesis unfolding tree_frames_def by (auto intro!: exI [of _ "i # p"])
  qed
qed

lemma frees_refl: "pg_inv s \<Longrightarrow> frees {} s s"
  unfolding frees_def by (auto intro: exI [of _ "free_pages s"])

lemma frees_trans: "frees F s s' \<Longrightarrow> frees G s' s'' \<Longrightarrow> frees (F \<union> G) s s''"
  unfolding frees_def by auto

lemma frees_phys: "frees F s s' \<Longrightarrow> phys s' = phys s"
  by (auto simp: frees_def)

lemma free_page_frees:
  assumes "pg_inv s" and "unat p \<in> pg_used s"
  shows "\<exists>s'. free_page p s = Inr s' \<and> frees {unat p} s s'"
proof (rule free_page_used [OF assms], goal_cases)
  case (1 bmp)
  then show ?case using assms(1) by (auto simp: frees_def pg_inv_def pg_total_def)
qed

lemma unat_image_mem [simp]: "unat (t :: u64) \<in> unat ` A \<longleftrightarrow> t \<in> A"
  by (auto simp: image_iff simp flip: word_unat_eq_iff)

text \<open>Entries with disjoint trees below them are freed one after the other.\<close>

lemma free_entries_ok:
  fixes s :: "'a pgstate_scheme"
  assumes sub: "\<And>t (s :: 'a pgstate_scheme). pg_inv s \<Longrightarrow> tree_ok (phys s) l t (pg_used s) \<Longrightarrow>
      \<exists>s'. free_table l t s = Inr s' \<and> frees (unat ` tree_frames (phys s) l t) s s'"
    and inv: "pg_inv s"
    and ok: "\<forall>j. i \<le> j \<longrightarrow> j < i + n \<longrightarrow> gpte_present (phys s t j) \<longrightarrow> tree_ok (phys s) l (gpte_ppn (phys s t j)) (pg_used s)"
    and disj: "\<forall>j k. i \<le> j \<longrightarrow> j < k \<longrightarrow> k < i + n \<longrightarrow> entry_frames (phys s) l t j \<inter> entry_frames (phys s) l t k = {}"
  shows "\<exists>s'. free_entries (free_table l) t n i s = Inr s' \<and> frees (unat ` (\<Union>j\<in>{i..<i + n}. entry_frames (phys s) l t j)) s s'"
  using inv ok disj
proof (induction n arbitrary: i s)
  case 0
  then show ?case by (simp add: frees_refl)
next
  case (Suc n)
  let ?F = "unat ` entry_frames (phys s) l t i"
  obtain s1 where s1: "(if \<not> gpte_present (phys s t i) then Inr s else free_table l (gpte_ppn (phys s t i)) s) = Inr s1" "frees ?F s s1"
    using sub [OF Suc.prems(1), of "gpte_ppn (phys s t i)"] Suc.prems(2) [rule_format, of i] frees_refl [OF Suc.prems(1)]
    by (cases "gpte_present (phys s t i)") (auto simp: entry_frames_def)
  have ph: "phys s1 = phys s" by (rule frees_phys [OF s1(2)])
  have inv1: "pg_inv s1" and used1: "pg_used s1 = pg_used s - ?F" using s1(2) by (simp_all add: frees_def)
  have ok1: "\<forall>j. i + 1 \<le> j \<longrightarrow> j < i + 1 + n \<longrightarrow> gpte_present (phys s1 t j) \<longrightarrow> tree_ok (phys s1) l (gpte_ppn (phys s1 t j)) (pg_used s1)"
  proof (intro allI impI)
    fix j assume j: "i + 1 \<le> j" "j < i + 1 + n" "gpte_present (phys s1 t j)"
    have "tree_ok (phys s) l (gpte_ppn (phys s t j)) (pg_used s)" using Suc.prems(2) j by (simp add: ph)
    moreover have "entry_frames (phys s) l t i \<inter> tree_frames (phys s) l (gpte_ppn (phys s t j)) = {}"
      using Suc.prems(3) [rule_format, of i j] j by (simp add: entry_frames_def ph)
    ultimately show "tree_ok (phys s1) l (gpte_ppn (phys s1 t j)) (pg_used s1)"
      by (auto simp: tree_ok_def ph used1 simp flip: word_unat_eq_iff)
  qed
  have disj1: "\<forall>j k. i + 1 \<le> j \<longrightarrow> j < k \<longrightarrow> k < i + 1 + n \<longrightarrow> entry_frames (phys s1) l t j \<inter> entry_frames (phys s1) l t k = {}"
    using Suc.prems(3) by (simp add: ph)
  obtain s2 where s2: "free_entries (free_table l) t n (i + 1) s1 = Inr s2"
    "frees (unat ` (\<Union>j\<in>{i + 1..<i + 1 + n}. entry_frames (phys s) l t j)) s1 s2"
    using Suc.IH [OF inv1 ok1 disj1] by (auto simp: ph)
  have "{i..<i + Suc n} = insert i {i + 1..<i + 1 + n}" by auto
  then have "unat ` (\<Union>j\<in>{i..<i + Suc n}. entry_frames (phys s) l t j) =
    ?F \<union> unat ` (\<Union>j\<in>{i + 1..<i + 1 + n}. entry_frames (phys s) l t j)" by (simp add: image_Un)
  then show ?case using frees_trans [OF s1(2) s2(2)] s1(1) s2(1) by simp
qed

lemma tree_ok_inj:
  "tree_ok ph l t used \<Longrightarrow> tpath l p \<Longrightarrow> tpath l q \<Longrightarrow> walk ph t p = Some f \<Longrightarrow> walk ph t q = Some f \<Longrightarrow> p = q"
  unfolding tree_ok_def by blast

lemma tree_ok_entry:
  assumes "tree_ok ph (Suc l) t used" and "i < 512" and "gpte_present (ph t i)"
  shows "tree_ok ph l (gpte_ppn (ph t i)) used"
proof -
  have sub: "tree_frames ph l (gpte_ppn (ph t i)) \<subseteq> tree_frames ph (Suc l) t"
    using assms(2,3) unfolding tree_frames_Suc by (auto simp: entry_frames_def)
  have "p = q" if "tpath l p" "tpath l q" "walk ph (gpte_ppn (ph t i)) p = Some f" "walk ph (gpte_ppn (ph t i)) q = Some f" for p q f
  proof -
    have "i # p = i # q" using tree_ok_inj [OF assms(1), of "i # p" "i # q" f] assms(2,3) that by simp
    then show ?thesis by simp
  qed
  moreover have "unat ` tree_frames ph l (gpte_ppn (ph t i)) \<subseteq> used"
    using assms(1) sub unfolding tree_ok_def by (meson image_mono order_trans)
  ultimately show ?thesis unfolding tree_ok_def by blast
qed

lemma tree_ok_disjoint:
  assumes "tree_ok ph (Suc l) t used" and "i < 512" "j < 512" "i \<noteq> j"
  shows "entry_frames ph l t i \<inter> entry_frames ph l t j = {}"
proof (rule ccontr)
  assume "\<not> ?thesis"
  then obtain f p q where "gpte_present (ph t i)" "gpte_present (ph t j)" "tpath l p" "tpath l q"
    "walk ph (gpte_ppn (ph t i)) p = Some f" "walk ph (gpte_ppn (ph t j)) q = Some f"
    by (auto simp: entry_frames_def tree_frames_def split: if_splits)
  then have "i # p = j # q" using tree_ok_inj [OF assms(1), of "i # p" "j # q" f] assms(2,3) by simp
  then show False using assms(4) by simp
qed

lemma tree_ok_root:
  assumes "tree_ok ph (Suc l) t used" and "i < 512"
  shows "t \<notin> entry_frames ph l t i"
proof
  assume "t \<in> entry_frames ph l t i"
  then obtain p where "gpte_present (ph t i)" "tpath l p" "walk ph (gpte_ppn (ph t i)) p = Some t"
    by (auto simp: entry_frames_def tree_frames_def split: if_splits)
  then show False using tree_ok_inj [OF assms(1), of "i # p" "[]" t] assms(2) by simp
qed

lemma free_table_ok:
  fixes s :: "'a pgstate_scheme"
  shows "pg_inv s \<Longrightarrow> tree_ok (phys s) l t (pg_used s) \<Longrightarrow>
    \<exists>s'. free_table l t s = Inr s' \<and> frees (unat ` tree_frames (phys s) l t) s s'"
proof (induction l arbitrary: s t)
  case 0
  then show ?case using free_page_frees [of s t] by (simp add: tree_frames_0 tree_ok_def)
next
  case (Suc l)
  note ok = Suc.prems(2)
  obtain s1 where s1: "free_entries (free_table l) t 512 0 s = Inr s1"
    "frees (unat ` (\<Union>j\<in>{0..<0 + 512}. entry_frames (phys s) l t j)) s s1"
    using free_entries_ok [OF Suc.IH Suc.prems(1), of 0 512 t] tree_ok_entry [OF ok] tree_ok_disjoint [OF ok] by auto
  have "unat t \<in> pg_used s" using ok unfolding tree_ok_def tree_frames_Suc by simp
  moreover have "t \<notin> (\<Union>j\<in>{0..<0 + 512}. entry_frames (phys s) l t j)"
    using tree_ok_root [OF ok] by simp
  ultimately have "unat t \<in> pg_used s1" using s1(2) unfolding frees_def by (simp del: UN_iff)
  then obtain s2 where s2: "free_page t s1 = Inr s2" "frees {unat t} s1 s2"
    using free_page_frees [of s1 t] s1(2) by (auto simp: frees_def)
  then show ?case using frees_trans [OF s1(2) s2(2)] s1(1)
    by (simp add: tree_frames_Suc lessThan_atLeast0)
qed

section \<open>Deleting an address space\<close>

abbreviation user_slots :: "nat set" where
  "user_slots \<equiv> {..<256}"

definition vspace_frames :: "nat set \<Rightarrow> vspace_ref \<Rightarrow> 'a vmstate_scheme \<Rightarrow> nat set" where
  "vspace_frames M r s = {unat f | f. vspace_owns M r s f}"

lemma mpath_user_Cons [simp]: "mpath user_slots (i # p) \<longleftrightarrow> i < 256 \<and> tpath 3 p"
  by (auto simp: mpath_def tpath_def)

lemma owned_frames_split:
  "{f. \<exists>p. mpath user_slots p \<and> walk ph root p = Some f} = insert root (\<Union>i\<in>{0..<0 + 256}. entry_frames ph 3 root i)"
  (is "?L = ?R")
proof (rule set_eqI, rule iffI)
  fix f assume "f \<in> ?L"
  then obtain p where p: "mpath user_slots p" "walk ph root p = Some f" by blast
  show "f \<in> ?R"
  proof (cases p)
    case (Cons i q)
    then show ?thesis using p by (auto simp: entry_frames_def tree_frames_def split: if_splits intro!: bexI [of _ i])
  qed (use p in simp)
next
  fix f assume "f \<in> ?R"
  then consider "f = root" | i p where "i < 256" "gpte_present (ph root i)" "tpath 3 p" "walk ph (gpte_ppn (ph root i)) p = Some f"
    by (auto simp: entry_frames_def tree_frames_def split: if_splits)
  then show "f \<in> ?L"
  proof cases
    case 1
    then show ?thesis using mpath_Nil by (auto intro!: exI [of _ "[]"])
  next
    case 2
    then show ?thesis by (auto intro!: exI [of _ "i # p"])
  qed
qed

lemma vspace_free_frames_ok:
  assumes inv: "pg_inv s" and own: "frames_owned user_slots (phys s) root (pg_used s)"
  shows "\<exists>s'. vspace_free_frames root s = Inr s' \<and>
    frees (unat ` {f. \<exists>p. mpath user_slots p \<and> walk (phys s) root p = Some f}) s s'"
proof -
  let ?ph = "phys s"
  have inj: "p = q" if "mpath user_slots p" "mpath user_slots q" "walk ?ph root p = Some f" "walk ?ph root q = Some f" for p q f
    using frames_owned_inj [OF own] that by blast
  have sub: "\<forall>j. 0 \<le> j \<longrightarrow> j < 0 + 256 \<longrightarrow> gpte_present (?ph root j) \<longrightarrow> tree_ok ?ph 3 (gpte_ppn (?ph root j)) (pg_used s)"
  proof (intro allI impI)
    fix j :: nat assume j: "j < 0 + 256" "gpte_present (?ph root j)"
    have "unat f \<in> pg_used s" if "tpath 3 p" "walk ?ph (gpte_ppn (?ph root j)) p = Some f" for p f
      using frames_owned_used [OF own, of "j # p" f] j that by simp
    moreover have "p = q" if "tpath 3 p" "tpath 3 q" "walk ?ph (gpte_ppn (?ph root j)) p = Some f"
      "walk ?ph (gpte_ppn (?ph root j)) q = Some f" for p q f
      using inj [of "j # p" "j # q" f] j that by simp
    ultimately show "tree_ok ?ph 3 (gpte_ppn (?ph root j)) (pg_used s)"
      unfolding tree_ok_def tree_frames_def by blast
  qed
  have disj: "\<forall>j k. 0 \<le> j \<longrightarrow> j < k \<longrightarrow> k < 0 + 256 \<longrightarrow> entry_frames ?ph 3 root j \<inter> entry_frames ?ph 3 root k = {}"
  proof (intro allI impI, rule ccontr)
    fix j k :: nat assume jk: "j < k" "k < 0 + 256" and "entry_frames ?ph 3 root j \<inter> entry_frames ?ph 3 root k \<noteq> {}"
    then obtain f p q where "gpte_present (?ph root j)" "gpte_present (?ph root k)" "tpath 3 p" "tpath 3 q"
      "walk ?ph (gpte_ppn (?ph root j)) p = Some f" "walk ?ph (gpte_ppn (?ph root k)) q = Some f"
      by (auto simp: entry_frames_def tree_frames_def split: if_splits)
    then show False using inj [of "j # p" "k # q" f] jk by simp
  qed
  obtain s1 where s1: "free_entries (free_table 3) root 256 0 s = Inr s1"
    "frees (unat ` (\<Union>j\<in>{0..<0 + 256}. entry_frames ?ph 3 root j)) s s1"
    using free_entries_ok [OF free_table_ok inv sub disj] by blast
  have "root \<notin> entry_frames ?ph 3 root j" if "j < 256" for j
  proof
    assume "root \<in> entry_frames ?ph 3 root j"
    then obtain p where "gpte_present (?ph root j)" "tpath 3 p" "walk ?ph (gpte_ppn (?ph root j)) p = Some root"
      by (auto simp: entry_frames_def tree_frames_def split: if_splits)
    then show False using inj [of "j # p" "[]" root] that by simp
  qed
  then have "unat root \<in> pg_used s1"
    using s1(2) frames_owned_used [OF own mpath_Nil, of root] by (simp add: frees_def)
  then obtain s2 where s2: "free_page root s1 = Inr s2" "frees {unat root} s1 s2"
    using free_page_frees [of s1 root] s1(2) by (auto simp: frees_def)
  then show ?thesis using frees_trans [OF s1(2) s2(2)] s1(1) by (simp add: vspace_free_frames_def owned_frames_split)
qed

text \<open>Address spaces that own none of the freed frames stay as they are.\<close>

lemma vspace_inv_frees:
  assumes inv: "vspace_inv M r s" and fr: "frees F s s'" and apart: "vspace_frames M r s \<inter> F = {}"
  shows "vspace_inv M r s'" and "vspace_mapping r s' v = vspace_mapping r s v" and "vspace_owns M r s' f = vspace_owns M r s f"
proof -
  obtain bmp where s': "s' = s\<lparr>free_pages := bmp\<rparr>" and used: "pg_used s' = pg_used s - F" "pg_inv s'" "pg_total s' = pg_total s"
    using fr by (auto simp: frees_def)
  have eq: "phys s' = phys s" "vspaces s' = vspaces s" "vspace_root r s' = vspace_root r s"
    by (simp_all add: s' vspace_root_def)
  have "frames_owned M (phys s) (vspace_root r s) (pg_used s - F)"
    using inv apart unfolding vspace_inv_def frames_owned_def vspace_frames_def vspace_owns_def by blast
  then show "vspace_inv M r s'" using inv used unfolding vspace_inv_def eq by simp
  show "vspace_mapping r s' v = vspace_mapping r s v" "vspace_owns M r s' f = vspace_owns M r s f"
    by (simp_all add: vspace_mapping_def vspace_owns_def eq)
qed

lemma heap_inv_frees:
  assumes inv: "heap_inv s" and fr: "frees F s s'" and apart: "vspace_frames heap_slots VSPACE_KERNEL s \<inter> F = {}"
  shows "heap_inv s'" and "heap_live s' = heap_live s"
proof -
  have vm: "vspace_inv heap_slots VSPACE_KERNEL s" using inv by (simp add: heap_inv_def)
  obtain bmp where s': "s' = s\<lparr>free_pages := bmp\<rparr>" using fr by (auto simp: frees_def)
  note vi = vspace_inv_frees [OF vm fr apart]
  have "heap_pages_mapped s'" using inv vi(2) by (simp add: heap_inv_def heap_pages_mapped_def s')
  then show "heap_inv s'" using inv vi(1) by (auto simp: heap_inv_def heap_rel_def s')
  show "heap_live s' = heap_live s" by (simp add: heap_live_def s')
qed

lemma heap_inv_vspaces:
  assumes "r \<noteq> VSPACE_KERNEL"
  shows "heap_inv (s\<lparr>vspaces := (vspaces s)(r := x)\<rparr>) = heap_inv s"
    and "heap_live (s\<lparr>vspaces := (vspaces s)(r := x)\<rparr>) = heap_live s"
proof -
  have k: "vspace_root VSPACE_KERNEL (s\<lparr>vspaces := (vspaces s)(r := x)\<rparr>) = vspace_root VSPACE_KERNEL s"
    using assms by (simp add: vspace_root_def)
  have "pg_used (s\<lparr>vspaces := (vspaces s)(r := x)\<rparr>) = pg_used s" "pg_total (s\<lparr>vspaces := (vspaces s)(r := x)\<rparr>) = pg_total s"
    "pg_inv (s\<lparr>vspaces := (vspaces s)(r := x)\<rparr>) = pg_inv s"
    by (simp_all add: pg_used_def pg_total_def pg_inv_def)
  then show "heap_inv (s\<lparr>vspaces := (vspaces s)(r := x)\<rparr>) = heap_inv s"
    using assms by (simp add: heap_inv_def heap_rel_def heap_pages_mapped_def vspace_mapping_def vspace_inv_def k)
  show "heap_live (s\<lparr>vspaces := (vspaces s)(r := x)\<rparr>) = heap_live s" by (simp add: heap_live_def)
qed

lemma vspace_delete_ok:
  assumes "heap_inv s" and "vspace_inv user_slots (Vspace p) s" and "(unat p, l) \<in> heap_live s"
    and "vspace_frames user_slots (Vspace p) s \<inter> vspace_frames heap_slots VSPACE_KERNEL s = {}"
  shows "\<exists>s1 s'. vspace_delete (Vspace p) s = kfree p s1 \<and> kfree p s1 = Inr s' \<and>
    pg_used s1 = pg_used s - vspace_frames user_slots (Vspace p) s \<and> phys s1 = phys s \<and>
    heap_inv s' \<and> heap_live s' = heap_live s - {(unat p, l)} \<and>
    free_frames s + card (vspace_frames user_slots (Vspace p) s) \<le> free_frames s' \<and>
    (\<forall>M r v. r \<noteq> Vspace p \<longrightarrow> vspace_inv M r s \<longrightarrow> vspace_frames M r s \<inter> vspace_frames user_slots (Vspace p) s = {} \<longrightarrow>
      vspace_inv M r s1 \<and> vspace_mapping r s1 v = vspace_mapping r s v) \<and>
    vspace_delete (Vspace p) s' = Inr s' \<and>
    vspaces s' (Vspace p) = Some \<lparr>vs_lock = MUTEX_INITIALIZER, vs_pml4_ppn = - 1\<rparr>"
proof -
  define root where "root = vspace_root (Vspace p) s"
  define F where "F = vspace_frames user_slots (Vspace p) s"
  define dead where "dead = \<lparr>vs_lock = MUTEX_INITIALIZER, vs_pml4_ppn = - 1 :: u64\<rparr>"
  define s0 where "s0 = s\<lparr>vspaces := (vspaces s)(Vspace p \<mapsto> dead)\<rparr>"
  have vs: "vspaces s (Vspace p) = Some \<lparr>vs_lock = MUTEX_INITIALIZER, vs_pml4_ppn = root\<rparr>"
    and pg: "pg_inv s" and own: "frames_owned user_slots (phys s) root (pg_used s)" and small: "pg_total s \<le> 2 ^ 35"
    using assms(2) by (auto simp: vspace_inv_def root_def vspace_root_def mutex_idle_iff)
  have "unat root < 2 ^ 35" using frames_owned_used [OF own mpath_Nil] pg_used_below [of s] small by fastforce
  then have live: "root \<noteq> - 1" by (auto simp: unsigned_minus_1_eq_mask mask_eq_exp_minus_1)
  have F: "unat ` {f. \<exists>q. mpath user_slots q \<and> walk (phys s) root q = Some f} = F"
    by (auto simp: F_def vspace_frames_def vspace_owns_def root_def)
  have s0: "pg_inv s0" "pg_used s0 = pg_used s" "pg_total s0 = pg_total s" "phys s0 = phys s"
    using pg by (simp_all add: s0_def pg_inv_def pg_used_def pg_total_def)
  obtain s1 where s1: "vspace_free_frames root s0 = Inr s1" "frees F s0 s1"
    using vspace_free_frames_ok [OF s0(1), of root] own s0 F by auto
  have lock: "mutex_lock MUTEX_INITIALIZER s = Inr (mutex_taken MUTEX_INITIALIZER s)" by simp
  have del: "vspace_delete (Vspace p) s = kfree p s1"
    using vs live s1(1) mutex_unlock_taken [of MUTEX_INITIALIZER "s\<lparr>vspaces := (vspaces s)(Vspace p \<mapsto> \<lparr>vs_lock = mutex_taken MUTEX_INITIALIZER s, vs_pml4_ppn = - 1\<rparr>)\<rparr>" s]
    by (simp add: vspace_delete_def get_vspace_def Let_def s0_def dead_def)
  have hi0: "heap_inv s0" "heap_live s0 = heap_live s"
    using assms(1) heap_inv_vspaces [of "Vspace p" s "Some dead"] by (simp_all add: s0_def)
  have other: "vspace_frames M r s0 = vspace_frames M r s" "vspace_inv M r s0 = vspace_inv M r s"
    "vspace_mapping r s0 v = vspace_mapping r s v" if "r \<noteq> Vspace p" for M r v
    using that s0 by (simp_all add: vspace_frames_def vspace_owns_def vspace_inv_def vspace_mapping_def vspace_root_def s0_def)
  have hi1: "heap_inv s1" "heap_live s1 = heap_live s"
    using heap_inv_frees [OF hi0(1) s1(2)] assms(4) hi0(2) other(1) [of VSPACE_KERNEL heap_slots] by (auto simp: F_def)
  have fr: "free_frames s + card F \<le> free_frames s1"
  proof -
    have "F \<subseteq> pg_used s" using frames_owned_used [OF own] by (auto simp: F_def vspace_frames_def vspace_owns_def root_def)
    then have "card (pg_used s1) = card (pg_used s) - card F" "card F \<le> card (pg_used s)"
      using s1(2) s0(2) finite_pg_used [of s] by (auto simp: frees_def card_Diff_subset finite_subset card_mono)
    then show ?thesis using s1(2) s0 free_frames_card [of s] free_frames_card [of s1] by (simp add: frees_def)
  qed
  have keep: "vspace_inv M r s1 \<and> vspace_mapping r s1 v = vspace_mapping r s v"
    if "r \<noteq> Vspace p" "vspace_inv M r s" "vspace_frames M r s \<inter> F = {}" for M r v
    using vspace_inv_frees [OF _ s1(2), of M r] other [OF that(1)] that by simp
  have v1: "vspaces s1 (Vspace p) = Some dead" using s1(2) by (auto simp: frees_def s0_def)
  have l1: "(unat p, l) \<in> heap_live s1" using assms(3) hi1 by simp
  show ?thesis
  proof (rule kfree_ok [OF hi1(1) l1], goal_cases)
    case (1 s')
    have v': "vspaces s' (Vspace p) = Some dead" using v1 1(5) by simp
    then have "vspace_delete (Vspace p) s' = Inr (s'\<lparr>vspaces := (vspaces s')(Vspace p \<mapsto> dead)\<rparr>)"
      using mutex_unlock_taken [of MUTEX_INITIALIZER "s'\<lparr>vspaces := (vspaces s')(Vspace p \<mapsto> \<lparr>vs_lock = mutex_taken MUTEX_INITIALIZER s', vs_pml4_ppn = - 1\<rparr>)\<rparr>" s']
      by (simp add: vspace_delete_def get_vspace_def Let_def dead_def)
    also have "(vspaces s')(Vspace p \<mapsto> dead) = vspaces s'" using v1 1(5) by (simp add: fun_upd_idem)
    finally have again: "vspace_delete (Vspace p) s' = Inr s'" by simp
    have "pg_used s1 = pg_used s - F" "phys s1 = phys s" using s1(2) s0 by (auto simp: frees_def)
    then show ?case using 1 del hi1 fr keep again v' unfolding F_def dead_def by (intro exI [of _ s1] exI [of _ s']) auto
  qed
qed



section \<open>Creating an address space\<close>

text \<open>A frame that was free can be taken and filled without a change to the kernel's address space.\<close>

lemma heap_inv_new_frame:
  assumes inv: "heap_inv s" and f: "unat f \<notin> pg_used s"
    and s': "s' = s\<lparr>free_pages := bmp, phys := (phys s)(f := z)\<rparr>"
    and bmp: "bmp_inv bmp" "bmp_size bmp = bmp_size (free_pages s)" "bmp_used bmp = insert (unat f) (pg_used s)"
  shows "heap_inv s'" and "heap_live s' = heap_live s"
    and "vspace_owns heap_slots VSPACE_KERNEL s' g = vspace_owns heap_slots VSPACE_KERNEL s g"
proof -
  let ?k = "vspace_root VSPACE_KERNEL s"
  have vm: "vspace_inv heap_slots VSPACE_KERNEL s" and own: "frames_owned heap_slots (phys s) ?k (pg_used s)"
    using inv by (simp_all add: heap_inv_def vspace_inv_def)
  have eq: "vspace_root VSPACE_KERNEL s' = ?k" "phys s' = (phys s)(f := z)" "vspaces s' = vspaces s"
    "pg_used s' = insert (unat f) (pg_used s)" "pg_total s' = pg_total s" "pg_inv s'"
    using bmp vm by (simp_all add: s' vspace_root_def pg_total_def vspace_inv_def pg_inv_def pg_used_def)
  have w: "walk (phys s') ?k q = walk (phys s) ?k q" if "mpath heap_slots q" for q
    unfolding eq(2) by (rule walk_zero_page [OF own f that])
  have "frames_owned heap_slots (phys s') ?k (pg_used s')"
    using own unfolding frames_owned_def eq(4) by (simp add: w)
  then have v: "vspace_inv heap_slots VSPACE_KERNEL s'" using vm eq by (simp add: vspace_inv_def)
  have "vspace_mapping VSPACE_KERNEL s' u = vspace_mapping VSPACE_KERNEL s u" if "in_region heap_slots u" for u
    unfolding vspace_mapping_def eq(1) unfolding eq(2) by (rule leaf_zero_page [OF own f that])
  then have "heap_pages_mapped s'"
    using inv unat_lt_2p64 [of "kheap_break s"] in_heap_slots by (auto simp: heap_inv_def heap_pages_mapped_def s')
  then show "heap_inv s'" using inv v by (auto simp: heap_inv_def heap_rel_def s')
  show "heap_live s' = heap_live s" by (simp add: heap_live_def s')
  show "vspace_owns heap_slots VSPACE_KERNEL s' g = vspace_owns heap_slots VSPACE_KERNEL s g"
    using w by (auto simp: vspace_owns_def eq(1))
qed

lemma leaf_of_shared:
  assumes "ph a (va_index v 3) = ph b (va_index v 3)"
  shows "leaf_of ph a v = leaf_of ph b v"
  using assms by (simp add: leaf_of_def vpath_def)

lemma leaf_of_absent: "\<not> gpte_present (ph t (va_index v 3)) \<Longrightarrow> leaf_of ph t v = None"
  by (simp add: leaf_of_def vpath_def)

lemma vspace_create_ok:
  assumes "heap_inv s" and "heap_room s 80" and "9 \<le> free_frames s"
    and "\<forall>p. mtx_magic (vs_lock (vspace_memory raw p s)) \<noteq> MUTEX_MAGIC \<and>
      spin_magic (waiting_tasks_lock (vs_lock (vspace_memory raw p s))) \<noteq> MUTEX_MAGIC"
  shows "\<exists>p l s'. vspace_create raw s = Inr (Vspace p, s') \<and> heap_inv s' \<and> vspace_inv user_slots (Vspace p) s' \<and>
    (\<forall>l. (unat p, l) \<notin> heap_live s) \<and> heap_live s' = insert (unat p, l) (heap_live s) \<and>
    (\<forall>v. in_region user_slots v \<longrightarrow> vspace_mapping (Vspace p) s' v = None) \<and>
    (\<forall>v. \<not> in_region user_slots v \<longrightarrow> vspace_mapping (Vspace p) s' v = vspace_mapping VSPACE_KERNEL s' v) \<and>
    vspace_frames user_slots (Vspace p) s' \<inter> vspace_frames heap_slots VSPACE_KERNEL s' = {} \<and>
    free_frames s \<le> free_frames s' + 9"
proof (rule kmalloc_ok [OF assms(1,2), of 101 0], goal_cases)
  case (1 p s1 l)
  have vm1: "vspace_inv heap_slots VSPACE_KERNEL s1" using 1(2) by (simp add: heap_inv_def)
  then have pg1: "pg_inv s1" and own1: "frames_owned heap_slots (phys s1) (vspace_root VSPACE_KERNEL s1) (pg_used s1)"
    and small: "pg_total s1 \<le> 2 ^ 35" by (simp_all add: vspace_inv_def)
  obtain kvs where kvs: "vspaces s1 VSPACE_KERNEL = Some kvs" using vm1 by (auto simp: vspace_inv_def)
  have "pg_used s1 \<noteq> {..<pg_total s1}"
    using pg_used_full_card [of s1] 1(10) assms(3) free_frames_card [of s1] by auto
  from alloc_page_free [OF pg1 this] obtain f bmp where
    a: "alloc_page s1 = Inr (f, zero_page f (s1\<lparr>free_pages := bmp\<rparr>))" and
    b: "bmp_inv bmp" "bmp_size bmp = bmp_size (free_pages s1)" "bmp_used bmp = insert (unat f) (pg_used s1)"
       "unat f < pg_total s1" "unat f \<notin> pg_used s1" by metis
  define z where "z = (\<lambda>i. if 256 \<le> i \<and> i < 512 then phys s1 (vs_pml4_ppn kvs) i else 0)"
  define s2 where "s2 = s1\<lparr>free_pages := bmp, phys := (phys s1)(f := z)\<rparr>"
  define s' where "s' = s2\<lparr>vspaces := (vspaces s2)(Vspace p \<mapsto> \<lparr>vs_lock = MUTEX_INITIALIZER, vs_pml4_ppn = f\<rparr>)\<rparr>"
  note nf = heap_inv_new_frame [OF 1(2) b(5) s2_def b(1-3)]
  have kroot: "vs_pml4_ppn kvs \<noteq> f"
    using frames_owned_used [OF own1 mpath_Nil] b(5) kvs by (auto simp: vspace_root_def)
  have mem: "vspace_memory raw p (zero_page f (s1\<lparr>free_pages := bmp\<rparr>)) = vspace_memory raw p s"
    using 1(7) by (simp add: vspace_memory_def zero_page_def)
  have init: "mutex_init (vs_lock (vspace_memory raw p (s1\<lparr>free_pages := bmp, phys := (phys s1)(f := \<lambda>_. 0)\<rparr>))) = Inr MUTEX_INITIALIZER"
    using mutex_init_idle assms(4) mem by (simp add: zero_page_def)
  have run: "vspace_create raw s = Inr (Vspace p, s')"
    using 1(1) a kvs kroot init
    by (simp add: vspace_create_def Let_def vspace_update_kernel_mapping_def get_vspace_def s'_def s2_def z_def zero_page_def cong: if_cong)
  have hi: "heap_inv s'" "heap_live s' = insert (unat p, l) (heap_live s)"
    using heap_inv_vspaces [of "Vspace p" s2 "Some \<lparr>vs_lock = MUTEX_INITIALIZER, vs_pml4_ppn = f\<rparr>"] nf 1(6) by (simp_all add: s'_def)
  have eq: "phys s' = (phys s1)(f := z)" "pg_used s' = insert (unat f) (pg_used s1)" "pg_total s' = pg_total s1" "pg_inv s'"
    "vspace_root (Vspace p) s' = f" "vspace_root VSPACE_KERNEL s' = vs_pml4_ppn kvs"
    using b pg1 kvs by (simp_all add: s'_def s2_def pg_used_def pg_total_def pg_inv_def vspace_root_def)
  have absent: "\<forall>i\<in>user_slots. \<not> gpte_present (phys s' f i)" by (simp add: eq z_def)
  have ui: "vspace_inv user_slots (Vspace p) s'"
    using frames_owned_empty [of user_slots "phys s'" f "pg_used s'"] absent eq small by (simp add: vspace_inv_def s'_def)
  have low: "vspace_mapping (Vspace p) s' v = None" if "in_region user_slots v" for v
    using leaf_of_absent [of "phys s'" f v] absent that by (simp add: vspace_mapping_def eq(5) in_region_def)
  have high: "vspace_mapping (Vspace p) s' v = vspace_mapping VSPACE_KERNEL s' v" if "\<not> in_region user_slots v" for v
    unfolding vspace_mapping_def eq(5,6)
    by (rule leaf_of_shared) (use that kroot va_index_less [of v 3] in \<open>simp add: eq(1) z_def in_region_def\<close>)
  have only: "g = f" if o: "vspace_owns user_slots (Vspace p) s' g" for g
  proof -
    obtain q where q: "mpath user_slots q" "walk (phys s') f q = Some g" using o by (auto simp: vspace_owns_def eq(5))
    then show ?thesis using absent by (cases q) (auto split: if_splits)
  qed
  have "\<not> vspace_owns heap_slots VSPACE_KERNEL s1 f" using frames_owned_used [OF own1] b(5) by (auto simp: vspace_owns_def)
  moreover have "vspace_owns heap_slots VSPACE_KERNEL s' g = vspace_owns heap_slots VSPACE_KERNEL s1 g" for g
    using nf(3) [of g] by (simp add: vspace_owns_def vspace_root_def s'_def)
  ultimately have "vspace_frames user_slots (Vspace p) s' \<inter> vspace_frames heap_slots VSPACE_KERNEL s' = {}"
    using only by (auto simp: vspace_frames_def simp flip: word_unat_eq_iff)
  moreover have "free_frames s \<le> free_frames s' + 9"
    using 1(10) eq(2,3) b(5) finite_pg_used [of s1] free_frames_card [of s1] free_frames_card [of s'] by simp
  ultimately show ?case using run hi ui low high 1(5) by blast
qed


section \<open>Witnesses and recycling\<close>

lemma wake_first_tasks: "wake_first ws s = Inr s' \<Longrightarrow> \<exists>t. s' = s\<lparr>tasks := t\<rparr>"
  by (auto simp: wake_first_def rbind_eq_Inr split: list.splits option.splits) (metis kbase.surjective kbase.update_convs(2))

lemma mutex_unlock_tasks: "mutex_unlock m s = Inr (m', s') \<Longrightarrow> \<exists>t. s' = s\<lparr>tasks := t\<rparr>"
  using wake_first_tasks by (fastforce simp: mutex_unlock_def Let_def rbind_eq_Inr)

lemma alloc_page_keeps_vspaces:
  assumes "alloc_page s = Inr (p, s')"
  shows "vspaces s' = vspaces s"
proof -
  obtain x xa xb m s1 where "mutex_unlock x (s\<lparr>free_pages_lock := xa, free_pages := xb\<rparr>) = Inr (m, s1)"
    "s' = zero_page p (s1\<lparr>free_pages_lock := m\<rparr>)"
    using assms by (auto simp: alloc_page_def Let_def rbind_eq_Inr)
  then show ?thesis using mutex_unlock_tasks by (fastforce simp: zero_page_def)
qed

definition raw_zero :: "u64 \<Rightarrow> vspace_t" where
  "raw_zero p = \<lparr>vs_lock = \<lparr>mtx_lock = 0, mtx_magic = 0, waiting_tasks = [], waiting_tasks_lock = \<lparr>spin_word = 0, spin_magic = 0\<rparr>,
     held_by = 0\<rparr>, vs_pml4_ppn = 0\<rparr>"

lemma small_heap_free: "free_frames small_heap = 55" and small_heap_vspace: "vspaces small_heap (Vspace p) = None"
proof -
  have "pg_used small_heap = {..<9}" "pg_total small_heap = 64"
    using small_machine_used small_machine_total
    by (simp_all add: small_heap_def small_vm_def small_machine_def vmstate.extend_def hstate.defs vmstate.defs
      pg_used_def pg_total_def)
  then show "free_frames small_heap = 55" by (simp add: free_frames_def)
  show "vspaces small_heap (Vspace p) = None" by (simp add: small_heap_def vmstate.extend_def)
qed

lemma small_heap_create_ready:
  "heap_room small_heap 80" "9 \<le> free_frames small_heap"
  "\<forall>p. mtx_magic (vs_lock (vspace_memory raw_zero p small_heap)) \<noteq> MUTEX_MAGIC \<and>
    spin_magic (waiting_tasks_lock (vs_lock (vspace_memory raw_zero p small_heap))) \<noteq> MUTEX_MAGIC"
  using small_heap_room small_heap_free
  by (simp_all add: heap_room_def vspace_memory_def small_heap_vspace raw_zero_def MUTEX_MAGIC_def)


text \<open>An empty heap hands out its first address.\<close>

lemma heap_empty:
  assumes "heap_rel s bs" and "coalesced bs" and "heap_live s = {}"
  shows "bs = []"
proof (rule ccontr)
  assume "bs \<noteq> []"
  then obtain xs v n where bs: "bs = xs @ [(v, n)]" by (cases bs rule: rev_cases) auto
  then have "\<not> v" using assms(2) by (simp add: coalesced_def)
  then show False using assms(3) unfolding heap_live_rel [OF assms(1)] bs by simp
qed

lemma kmalloc_empty:
  assumes "heap_inv s" and "heap_live s = {}" and "heap_room s sz"
  obtains s' where "kmalloc sz line fn s = Inr (of_nat heap_base + HEADER_SIZE, s')" and "heap_inv s'"
    and "vspaces s' = vspaces s" and "free_frames s \<le> free_frames s' + 4 * ((unat sz + 44) div 4096 + 2)"
proof -
  obtain bs where rel: "heap_rel s bs" "coalesced bs" using assms(1) by (auto simp: heap_inv_def)
  have bs: "bs = []" by (rule heap_empty [OF rel assms(2)])
  have "unat (kheap_break s) = heap_base" using rel(1) by (simp add: heap_rel_def bs)
  then have brk: "kheap_break s = of_nat heap_base" by (metis of_nat_unat_word)
  show ?thesis
  proof (rule kmalloc_grow [OF assms(1) rel, of sz line fn], goal_cases)
    case (4 s')
    then show ?case using that [of s'] brk by simp
  qed (use assms(3) in \<open>simp_all add: bs heap_room_def\<close>)
qed


text \<open>
  \<^verbatim>\<open>vspace_delete\<close> does not destroy the mutex of the object it frees. When the heap hands out
  the same address for the next address space, \<^verbatim>\<open>vspace_create\<close> finds the old magic number
  and panics.
\<close>

theorem vspace_recycled_panics:
  assumes "heap_inv s" and "vspace_inv user_slots (Vspace p) s" and "(unat p, l) \<in> heap_live s"
    and "vspace_frames user_slots (Vspace p) s \<inter> vspace_frames heap_slots VSPACE_KERNEL s = {}"
    and "vspace_delete (Vspace p) s = Inr s'" and "kmalloc 80 101 0 s' = Inr (p, s1)" and "vspaces s1 = vspaces s'"
    and "alloc_page s1 = Inr (ppn, s2)"
  shows "vspace_create raw s' = Inl (Panic ''mutex_init(): mutex already initialized'')"
proof -
  have "vspaces s' (Vspace p) = Some \<lparr>vs_lock = MUTEX_INITIALIZER, vs_pml4_ppn = - 1\<rparr>"
    using vspace_delete_ok [OF assms(1-4)] assms(5) by auto
  moreover have "vspaces s2 = vspaces s1" using alloc_page_keeps_vspaces [OF assms(8)] .
  ultimately show ?thesis using assms(6-8)
    by (simp add: vspace_create_def vspace_memory_def mutex_init_def MUTEX_INITIALIZER_def)
qed

theorem vspace_recycled_panics_witness:
  "\<exists>p s s'. vspace_create raw_zero small_heap = Inr (Vspace p, s) \<and> vspace_delete (Vspace p) s = Inr s' \<and>
    vspace_create raw_zero s' = Inl (Panic ''mutex_init(): mutex already initialized'')"
proof -
  obtain p l s where s: "vspace_create raw_zero small_heap = Inr (Vspace p, s)" "heap_inv s" "vspace_inv user_slots (Vspace p) s"
    "\<forall>l. (unat p, l) \<notin> heap_live small_heap" "heap_live s = insert (unat p, l) (heap_live small_heap)"
    "vspace_frames user_slots (Vspace p) s \<inter> vspace_frames heap_slots VSPACE_KERNEL s = {}" "46 \<le> free_frames s"
    using vspace_create_ok [OF small_heap_inv small_heap_create_ready] small_heap_free by fastforce
  have l: "(unat p, l) \<in> heap_live s" using s(5) by simp
  obtain s0 where "kmalloc 80 101 0 small_heap = Inr (of_nat heap_base + HEADER_SIZE, s0)"
    by (rule kmalloc_empty [OF small_heap_inv small_heap_live small_heap_create_ready(1)])
  then have p: "p = of_nat heap_base + HEADER_SIZE"
    using s(1) by (auto simp: vspace_create_def rbind_eq_Inr split: prod.splits)
  obtain s' where s': "vspace_delete (Vspace p) s = Inr s'" "heap_inv s'" "heap_live s' = {}" "46 \<le> free_frames s'"
    using vspace_delete_ok [OF s(2,3) l s(6)] s(4,5,7) small_heap_live by fastforce
  have room: "heap_room s' 80"
  proof -
    obtain bs where rel: "heap_rel s' bs" "coalesced bs" using s'(2) by (auto simp: heap_inv_def)
    have "bs = []" by (rule heap_empty [OF rel s'(3)])
    then show ?thesis using rel(1) s'(4) by (simp add: heap_rel_def heap_room_def)
  qed
  obtain s1 where s1: "kmalloc 80 101 0 s' = Inr (p, s1)" "heap_inv s1" "vspaces s1 = vspaces s'" "38 \<le> free_frames s1"
  proof (rule kmalloc_empty [OF s'(2,3) room, of 101 0], goal_cases)
    case (1 t)
    then show ?case using 1(1) [of t] s'(4) p by simp
  qed
  have vm1: "vspace_inv heap_slots VSPACE_KERNEL s1" using s1(2) by (simp add: heap_inv_def)
  have "card (pg_used s1) < pg_total s1" using s1(4) free_frames_card [of s1] by linarith
  then obtain ppn s2 where "alloc_page s1 = Inr (ppn, s2)" using alloc_page_filled [OF vm1] by metis
  from vspace_recycled_panics [OF s(2,3) l s(6) s'(1) s1(1,3) this] show ?thesis using s(1) s'(1) by blast
qed

end
