(* ===== verification/Processes.thy ===== *)
theory Processes
  imports Vspace_Objects
begin

text \<open>
  The structures of a process: \<^verbatim>\<open>proc_t\<close> of \<^verbatim>\<open>sched/proc.h\<close>, \<^verbatim>\<open>userstack_t\<close> of \<^verbatim>\<open>sched/userstack.h\<close>, the ELF
  structures of \<^verbatim>\<open>sched/loader.c\<close> and \<^verbatim>\<open>loader_t\<close> of \<^verbatim>\<open>sched/loader.h\<close>, and the state \<open>pstate\<close> that holds
  the objects of these types by address. Lists of objects are the sequences of their addresses.
\<close>

datatype proc_state_t = PROC_RUNNING | PROC_KILLED

record proc_t =
  pid :: u64
  uid :: u64
  gid :: u64
  proc_state :: proc_state_t
  proc_task_list :: "u64 list"
  proc_task_list_lock :: mutex_t
  stack_list :: "u64 list"
  stack_list_lock :: mutex_t
  fd_counter :: u64
  fd_list :: "u64 list"
  fd_list_lock :: mutex_t
  proc_vspace :: vspace_ref
  heap_brk :: u64
  heap_lock :: mutex_t
  working_dir :: u64
  proc_loader :: u64

record userstack_t =
  stk_index :: u64
  stk_start_page :: u64
  stk_page_count :: u64
  stk_stack_ptr :: u64
  stk_allocated :: bool
  stk_pages_mapped :: u64

record elf64_t =
  elf_magic :: u32
  elf_type :: u8
  elf_endianness :: u8
  elf_header_version :: u8
  elf_os_abi :: u8
  elf_reserved1 :: u64
  elf_bintype :: u16
  elf_isa :: u16
  elf_elf_version :: u32
  elf_entry :: u64
  elf_pht_pos :: u64
  elf_sht_pos :: u64
  elf_flags :: u32
  elf_header_size :: u16
  elf_pht_entry_size :: u16
  elf_pht_entries :: u16
  elf_sht_entry_size :: u16
  elf_sht_entries :: u16
  elf_sht_index_names :: u16

record elf64_phte_t =
  ph_type :: u32
  ph_flags :: u32
  p_offset :: u64
  p_vaddr :: u64
  ph_undefined :: u64
  p_filesz :: u64
  p_memsz :: u64
  ph_alignment :: u64

record loader_t =
  ldr_file :: u64
  ldr_entry_addr :: u64
  ldr_header :: u64
  ldr_pht :: u64
  ldr_lock :: mutex_t
  ldr_refs :: u64
  ldr_min_heap_break :: u64

record pstate = hstate +
  procs :: "u64 \<rightharpoonup> proc_t"
  userstacks :: "u64 \<rightharpoonup> userstack_t"
  loaders :: "u64 \<rightharpoonup> loader_t"
  elf_headers :: "u64 \<rightharpoonup> elf64_t"
  phts :: "u64 \<rightharpoonup> elf64_phte_t list"

definition USER_BREAK :: u64 where "USER_BREAK = 0x0000800000000000"

text \<open>Reading and writing an object through a pointer to it.\<close>

definition proc_at :: "u64 \<Rightarrow> 'a pstate_scheme \<Rightarrow> proc_t result" where
  "proc_at p s = (case procs s p of None \<Rightarrow> Inl (Mem_Fault ''proc_t'') | Some x \<Rightarrow> Inr x)"

definition proc_set :: "u64 \<Rightarrow> proc_t \<Rightarrow> 'a pstate_scheme \<Rightarrow> 'a pstate_scheme" where
  "proc_set p x s = s\<lparr>procs := (procs s)(p \<mapsto> x)\<rparr>"

definition stack_at :: "u64 \<Rightarrow> 'a pstate_scheme \<Rightarrow> userstack_t result" where
  "stack_at p s = (case userstacks s p of None \<Rightarrow> Inl (Mem_Fault ''userstack_t'') | Some x \<Rightarrow> Inr x)"

definition stack_set :: "u64 \<Rightarrow> userstack_t \<Rightarrow> 'a pstate_scheme \<Rightarrow> 'a pstate_scheme" where
  "stack_set p x s = s\<lparr>userstacks := (userstacks s)(p \<mapsto> x)\<rparr>"

definition loader_at :: "u64 \<Rightarrow> 'a pstate_scheme \<Rightarrow> loader_t result" where
  "loader_at p s = (case loaders s p of None \<Rightarrow> Inl (Mem_Fault ''loader_t'') | Some x \<Rightarrow> Inr x)"

definition loader_set :: "u64 \<Rightarrow> loader_t \<Rightarrow> 'a pstate_scheme \<Rightarrow> 'a pstate_scheme" where
  "loader_set p x s = s\<lparr>loaders := (loaders s)(p \<mapsto> x)\<rparr>"

text \<open>Taking and releasing a mutex that is a field of a process.\<close>

definition proc_lock ::
  "(proc_t \<Rightarrow> mutex_t) \<Rightarrow> ((mutex_t \<Rightarrow> mutex_t) \<Rightarrow> proc_t \<Rightarrow> proc_t) \<Rightarrow> u64 \<Rightarrow> 'a pstate_scheme \<Rightarrow> 'a pstate_scheme result" where
  "proc_lock get upd p s =
     rbind (proc_at p s) (\<lambda>x. rbind (mutex_lock (get x) s) (\<lambda>m. Inr (proc_set p (upd (\<lambda>_. m) x) s)))"

definition proc_unlock ::
  "(proc_t \<Rightarrow> mutex_t) \<Rightarrow> ((mutex_t \<Rightarrow> mutex_t) \<Rightarrow> proc_t \<Rightarrow> proc_t) \<Rightarrow> u64 \<Rightarrow> 'a pstate_scheme \<Rightarrow> 'a pstate_scheme result" where
  "proc_unlock get upd p s =
     rbind (proc_at p s) (\<lambda>x. rbind (mutex_unlock (get x) s) (\<lambda>(m, s). Inr (proc_set p (upd (\<lambda>_. m) x) s)))"

section \<open>Lemmas on the structures\<close>

lemmas proc_defs = proc_at_def proc_set_def stack_at_def stack_set_def loader_at_def loader_set_def

text \<open>The memory management does not look at the process structures.\<close>

lemma vm_proc_update [simp]:
  "vspace_inv M r (s\<lparr>procs := x\<rparr>) = vspace_inv M r s" "vspace_inv M r (s\<lparr>userstacks := y\<rparr>) = vspace_inv M r s"
  "vspace_inv M r (s\<lparr>loaders := z\<rparr>) = vspace_inv M r s" "vspace_inv M r (s\<lparr>elf_headers := v\<rparr>) = vspace_inv M r s"
  "vspace_inv M r (s\<lparr>phts := w\<rparr>) = vspace_inv M r s"
  "vspace_mapping r (s\<lparr>procs := x\<rparr>) = vspace_mapping r s" "vspace_mapping r (s\<lparr>userstacks := y\<rparr>) = vspace_mapping r s"
  "vspace_mapping r (s\<lparr>loaders := z\<rparr>) = vspace_mapping r s" "vspace_mapping r (s\<lparr>elf_headers := v\<rparr>) = vspace_mapping r s"
  "vspace_mapping r (s\<lparr>phts := w\<rparr>) = vspace_mapping r s"
  "free_frames (s\<lparr>procs := x\<rparr>) = free_frames s" "free_frames (s\<lparr>userstacks := y\<rparr>) = free_frames s"
  "free_frames (s\<lparr>loaders := z\<rparr>) = free_frames s" "free_frames (s\<lparr>elf_headers := v\<rparr>) = free_frames s"
  "free_frames (s\<lparr>phts := w\<rparr>) = free_frames s"
  "pg_used (s\<lparr>procs := x\<rparr>) = pg_used s" "pg_used (s\<lparr>userstacks := y\<rparr>) = pg_used s"
  "pg_used (s\<lparr>loaders := z\<rparr>) = pg_used s" "pg_used (s\<lparr>elf_headers := v\<rparr>) = pg_used s"
  "pg_used (s\<lparr>phts := w\<rparr>) = pg_used s"
  "heap_inv (s\<lparr>procs := x\<rparr>) = heap_inv s" "heap_inv (s\<lparr>userstacks := y\<rparr>) = heap_inv s"
  "heap_inv (s\<lparr>loaders := z\<rparr>) = heap_inv s" "heap_inv (s\<lparr>elf_headers := v\<rparr>) = heap_inv s"
  "heap_inv (s\<lparr>phts := w\<rparr>) = heap_inv s"
  "heap_live (s\<lparr>procs := x\<rparr>) = heap_live s" "heap_live (s\<lparr>userstacks := y\<rparr>) = heap_live s"
  "heap_live (s\<lparr>loaders := z\<rparr>) = heap_live s" "heap_live (s\<lparr>elf_headers := v\<rparr>) = heap_live s"
  "heap_live (s\<lparr>phts := w\<rparr>) = heap_live s"
  "heap_room (s\<lparr>procs := x\<rparr>) n = heap_room s n" "heap_room (s\<lparr>userstacks := y\<rparr>) n = heap_room s n"
  "heap_room (s\<lparr>loaders := z\<rparr>) n = heap_room s n" "heap_room (s\<lparr>elf_headers := v\<rparr>) n = heap_room s n"
  "heap_room (s\<lparr>phts := w\<rparr>) n = heap_room s n"
  by (simp_all add: vspace_inv_def free_frames_def vspace_mapping_def vspace_root_def pg_inv_def pg_used_def
    pg_total_def fun_eq_iff heap_inv_def heap_rel_def heap_pages_mapped_def heap_live_def heap_room_def)

lemma vm_frame_procs:
  assumes "vm_frame s s'"
  shows "procs s' = procs s" "userstacks s' = userstacks s" "loaders s' = loaders s" "current_task s' = current_task s"
    "tasks s' = tasks s" "vspaces s' = vspaces s" "elf_headers s' = elf_headers s" "phts s' = phts s"
  using assms by (auto simp: vm_frame_def)

lemma hstate_more_procs:
  assumes "hstate.more s' = hstate.more s"
  shows "procs s' = procs s" "userstacks s' = userstacks s" "loaders s' = loaders s"
    "elf_headers s' = elf_headers s" "phts s' = phts s"
  using assms by (cases s; cases s'; simp add: pstate.defs)+

section \<open>User address spaces next to the kernel heap\<close>

text \<open>
  A process runs in an address space of its own that shares no frame of its lower half with the
  kernel heap. Work on either of them preserves the other.
\<close>

definition user_space_inv :: "vspace_ref \<Rightarrow> 'a hstate_scheme \<Rightarrow> bool" where
  "user_space_inv r s \<longleftrightarrow> r \<noteq> VSPACE_KERNEL \<and> heap_inv s \<and> vspace_inv user_slots r s \<and>
     vspace_disjoint user_slots r heap_slots VSPACE_KERNEL s"

text \<open>Page numbers of the lower half.\<close>

abbreviation user_page :: "nat \<Rightarrow> bool" where
  "user_page x \<equiv> x < 34359738368"

lemma user_page_region:
  assumes "user_page x"
  shows "in_region user_slots (of_nat x)"
proof -
  have u: "unat (of_nat x :: u64) = x" using assms by (intro unat_of_nat_small) simp
  have m: "(0x1ff :: u64) = mask 9" by (simp add: mask_eq_exp_minus_1)
  have "va_index (of_nat x) 3 = take_bit 9 (x div 134217728)"
    by (simp add: va_index_def m u unsigned_take_bit_eq drop_bit_eq_div unat_div_word flip: take_bit_eq_mask)
  also have "\<dots> \<le> x div 134217728" by (simp add: take_bit_nat_def)
  also have "\<dots> < 256" using assms by simp
  finally show ?thesis by (simp add: in_region_def)
qed

lemma user_page_path:
  assumes "user_page x" "user_page y"
  shows "vpath (of_nat x) = vpath (of_nat y) \<longleftrightarrow> x = y"
proof -
  have "unat (take_bit 36 (of_nat z :: u64)) = z" if "user_page z" for z
  proof -
    have "unat (of_nat z :: u64) = z" using that by (intro unat_of_nat_small) simp
    then show ?thesis using that by (simp add: unsigned_take_bit_eq take_bit_nat_def)
  qed
  then show ?thesis using assms unfolding vpath_eq_iff by metis
qed

lemma vspace_disjoint_sym: "vspace_disjoint M r M' r' s = vspace_disjoint M' r' M r s"
  by (auto simp: vspace_disjoint_def)

lemma user_space_step:
  assumes inv: "user_space_inv r s" and r: "vspace_inv user_slots r s'" "vm_frame s s'" "vm_apart user_slots r s s'"
  shows "user_space_inv r s'" and "heap_live s' = heap_live s"
proof -
  have k: "vspace_inv heap_slots VSPACE_KERNEL s" "vspace_disjoint heap_slots VSPACE_KERNEL user_slots r s"
    using inv by (simp_all add: user_space_inv_def heap_inv_def vspace_disjoint_sym)
  have pg: "pg_inv s'" using r(1) by (simp add: vspace_inv_def)
  have vs: "vspaces s' = vspaces s" using r(2) by (auto simp: vm_frame_def)
  note k' = vspace_apart [OF k(1) r(3) k(2) _ pg]
  note fr = vm_frame_heap [OF r(2)]
  have "heap_pages_mapped s'"
    using inv k'(3) vs fr(1) unat_lt_2p64 [of "kheap_break s"] in_heap_slots
    by (auto simp: heap_pages_mapped_def user_space_inv_def heap_inv_def)
  then show "user_space_inv r s'"
    using inv r(1) k'(1,2) vs fr by (auto simp: user_space_inv_def heap_inv_def heap_rel_def vspace_disjoint_sym)
  show "heap_live s' = heap_live s" using fr by (simp add: heap_live_def)
qed

lemma user_map_filled:
  assumes inv: "user_space_inv r s" and x: "user_page x" and space: "4 \<le> free_frames s"
  obtains s1 s' p where "alloc_page s = Inr (p, s1)"
    and "vspace_map r (of_nat x) p flags (s1\<lparr>phys := (phys s1)(p := z)\<rparr>) = Inr s'" and "phys s1 p = (\<lambda>_. 0)"
    and "user_space_inv r s'" and "vm_frame s s'"
    and "free_frames s \<le> free_frames s' + 4" and "heap_live s' = heap_live s"
    and "if vspace_mapping r s (of_nat x) = None then \<exists>e. vspace_mapping r s' (of_nat x) = Some (leaf_entry p flags e)
      else vspace_mapping r s' (of_nat x) = vspace_mapping r s (of_nat x)"
    and "\<forall>y. user_page y \<longrightarrow> y \<noteq> x \<longrightarrow> vspace_mapping r s' (of_nat y) = vspace_mapping r s (of_nat y)"
    and "unat p \<notin> pg_used s" and "unat p < 2 ^ 35" and "phys s' p = z"
proof (rule map_filled_ok [of user_slots r s "of_nat x" flags z], goal_cases)
  case (4 s1 s' p)
  note F = 4(2-)
  note us = user_space_step [OF inv F(4,5,15)]
  have "\<forall>y. user_page y \<longrightarrow> y \<noteq> x \<longrightarrow> vspace_mapping r s' (of_nat y) = vspace_mapping r s (of_nat y)"
    using F(10) user_page_region user_page_path [OF _ x] by blast
  then show ?case using that [OF F(1-3) us(1) F(5,6) us(2) F(7) _ F(8,9,14)] by blast
qed (use inv x space user_page_region in \<open>simp_all add: user_space_inv_def\<close>)

lemma user_map_fresh:
  assumes inv: "user_space_inv r s" and x: "user_page x" and space: "4 \<le> free_frames s"
  obtains s' p where "map_fresh r flags (of_nat x) s = Inr s'" and "user_space_inv r s'" and "vm_frame s s'"
    and "free_frames s \<le> free_frames s' + 4" and "heap_live s' = heap_live s"
    and "if vspace_mapping r s (of_nat x) = None then \<exists>e. vspace_mapping r s' (of_nat x) = Some (leaf_entry p flags e)
      else vspace_mapping r s' (of_nat x) = vspace_mapping r s (of_nat x)"
    and "\<forall>y. user_page y \<longrightarrow> y \<noteq> x \<longrightarrow> vspace_mapping r s' (of_nat y) = vspace_mapping r s (of_nat y)"
    and "unat p \<notin> pg_used s" and "unat p < 2 ^ 35" and "\<forall>i. phys s' p i = 0"
proof (rule user_map_filled [where flags = flags and z = "\<lambda>_. 0", OF assms], goal_cases)
  case (1 s1 s' p)
  note F = 1(2-)
  have "s1\<lparr>phys := (phys s1)(p := (\<lambda>_. 0))\<rparr> = s1" using F(3) by (simp add: fun_upd_idem)
  then have "map_fresh r flags (of_nat x) s = Inr s'" using F(1,2) by (simp add: map_fresh_def)
  then show ?case using that [of s' p] F by simp
qed

lemma user_unmap:
  assumes inv: "user_space_inv r s" and x: "user_page x"
  obtains s' where "vspace_unmap r (of_nat x) s = Inr (vspace_mapping r s (of_nat x) \<noteq> None, s')"
    and "user_space_inv r s'" and "vm_frame s s'" and "free_frames s \<le> free_frames s'" and "heap_live s' = heap_live s"
    and "vspace_mapping r s' (of_nat x) = None"
    and "\<forall>y. user_page y \<longrightarrow> y \<noteq> x \<longrightarrow> vspace_mapping r s' (of_nat y) = vspace_mapping r s (of_nat y)"
proof (rule unmap_page_ok [of user_slots r s "of_nat x"], goal_cases)
  case (3 s')
  note F = 3(2-)
  have i: "vspace_inv user_slots r s" using inv by (simp add: user_space_inv_def)
  obtain b where b: "vspace_unmap r (of_nat x) s = Inr (b, s')"
    using F(1) by (auto simp: unmap_page_def rbind_eq_Inr)
  have "b = (vspace_mapping r s (of_nat x) \<noteq> None)"
  proof (cases "vspace_mapping r s (of_nat x)")
    case None
    then show ?thesis using vspace_unmap_absent [OF i None] b by simp
  next
    case (Some e)
    show ?thesis by (rule vspace_unmap_present [OF i user_page_region [OF x] Some]) (use b Some in simp)
  qed
  note us = user_space_step [OF inv F(2,3,7)]
  have "\<forall>y. user_page y \<longrightarrow> y \<noteq> x \<longrightarrow> vspace_mapping r s' (of_nat y) = vspace_mapping r s (of_nat y)"
    using F(6) user_page_region user_page_path [OF _ x] by blast
  then show ?case using that [OF _ us(1) F(3,4) us(2) F(5)] b \<open>b = _\<close> by blast
qed (use inv x user_page_region in \<open>simp_all add: user_space_inv_def\<close>)

lemma user_kmalloc:
  assumes inv: "user_space_inv r s" and room: "heap_room s sz"
  obtains p s' l where "kmalloc sz line fn s = Inr (p, s')" and "user_space_inv r s'" and "p \<noteq> 0" and "unat sz \<le> l"
    and "\<forall>l. (unat p, l) \<notin> heap_live s" and "heap_live s' = insert (unat p, l) (heap_live s)"
    and "vspaces s' = vspaces s" and "tasks s' = tasks s" and "current_task s' = current_task s"
    and "hstate.more s' = hstate.more s"
    and "\<forall>y. user_page y \<longrightarrow> vspace_mapping r s' (of_nat y) = vspace_mapping r s (of_nat y)"
    and "free_frames s \<le> free_frames s' + 4 * ((unat sz + 44) div 4096 + 2)"
proof (rule kmalloc_ok [of s sz line fn], goal_cases)
  case (3 p s' l)
  note F = 3(2-)
  have v: "vspace_inv user_slots r s" "vspace_disjoint user_slots r heap_slots VSPACE_KERNEL s"
    using inv by (simp_all add: user_space_inv_def)
  have pg: "pg_inv s'" using F(2) by (simp add: heap_inv_def vspace_inv_def)
  have vs: "vspaces s' r = vspaces s r" using F(7) by simp
  note v' = vspace_apart [OF v(1) F(12) v(2) vs pg]
  have "user_space_inv r s'" using inv F(2) v'(1,2) by (simp add: user_space_inv_def)
  then show ?case using that [OF F(1) _ F(3,4,5,6,7,8,9,11) _ F(10)] v'(3) user_page_region by blast
qed (use inv room in \<open>simp_all add: user_space_inv_def\<close>)

end
