(* ===== verification/Cstring.thy ===== *)
theory Cstring
  imports Kernel_Prelude "HOL-Library.Signed_Division"
begin

text \<open>
  The string and memory routines of \<^verbatim>\<open>libutil/string.c\<close> over a byte addressed memory: a partial map
  from addresses to bytes, in which an access outside the mapped part is a fault. Loops that run to
  a terminating zero byte have as much fuel as there are addresses; a loop that uses it up has
  visited all of them and goes round forever.
\<close>

type_synonym bmem = "u64 \<rightharpoonup> u8"

definition rdb :: "bmem \<Rightarrow> u64 \<Rightarrow> u8 result" where
  "rdb m p = (case m p of None \<Rightarrow> Inl (Mem_Fault ''read'') | Some b \<Rightarrow> Inr b)"

definition wrb :: "bmem \<Rightarrow> u64 \<Rightarrow> u8 \<Rightarrow> bmem result" where
  "wrb m p b = (case m p of None \<Rightarrow> Inl (Mem_Fault ''write'') | Some _ \<Rightarrow> Inr (m(p \<mapsto> b)))"

abbreviation address_fuel :: nat where
  "address_fuel \<equiv> 18446744073709551617"

section \<open>Operations\<close>

fun strlen_loop :: "nat \<Rightarrow> u64 \<Rightarrow> u64 \<Rightarrow> bmem \<Rightarrow> u64 result" where
  "strlen_loop 0 str len m = Inl Diverges"
| "strlen_loop (Suc n) str len m =
     rbind (rdb m str) (\<lambda>c. if c \<noteq> 0 then strlen_loop n (str + 1) (len + 1) m else Inr len)"

definition strlen :: "u64 \<Rightarrow> bmem \<Rightarrow> u64 result" where
  "strlen str m = strlen_loop address_fuel str 0 m"

text \<open>\<^verbatim>\<open>while (length--) *s1++ = *s2++;\<close>\<close>

fun copy_loop :: "nat \<Rightarrow> u64 \<Rightarrow> u64 \<Rightarrow> bmem \<Rightarrow> bmem result" where
  "copy_loop 0 s1 s2 m = Inr m"
| "copy_loop (Suc n) s1 s2 m = rbind (rdb m s2) (\<lambda>b. rbind (wrb m s1 b) (copy_loop n (s1 + 1) (s2 + 1)))"

definition memcpy :: "u64 \<Rightarrow> u64 \<Rightarrow> u64 \<Rightarrow> bmem \<Rightarrow> (u64 \<times> bmem) result" where
  "memcpy dest src n m = rbind (copy_loop (unat n) dest src m) (\<lambda>m. Inr (dest, m))"

fun set_loop :: "nat \<Rightarrow> u64 \<Rightarrow> u8 \<Rightarrow> bmem \<Rightarrow> bmem result" where
  "set_loop 0 s c m = Inr m"
| "set_loop (Suc n) s c m = rbind (wrb m s c) (set_loop n (s + 1) c)"

definition memset :: "u64 \<Rightarrow> u8 \<Rightarrow> u64 \<Rightarrow> bmem \<Rightarrow> (u64 \<times> bmem) result" where
  "memset block c sz m = rbind (set_loop (unat sz) block c m) (\<lambda>m. Inr (block, m))"

definition strcpy :: "u64 \<Rightarrow> u64 \<Rightarrow> bmem \<Rightarrow> (u64 \<times> bmem) result" where
  "strcpy dest src m = rbind (strlen src m) (\<lambda>len. memcpy dest src (len + 1) m)"

fun strnlen_loop :: "nat \<Rightarrow> u64 \<Rightarrow> u64 \<Rightarrow> u64 \<Rightarrow> bmem \<Rightarrow> u64 result" where
  "strnlen_loop 0 i src n m = Inr n"
| "strnlen_loop (Suc k) i src n m =
     rbind (rdb m (src + i)) (\<lambda>c. if c = 0 then Inr (i + 1) else strnlen_loop k (i + 1) src n m)"

definition strnlen :: "u64 \<Rightarrow> u64 \<Rightarrow> bmem \<Rightarrow> u64 result" where
  "strnlen src n m = strnlen_loop (unat n) 0 src n m"

definition strncpy :: "u64 \<Rightarrow> u64 \<Rightarrow> u64 \<Rightarrow> bmem \<Rightarrow> (u64 \<times> bmem) result" where
  "strncpy dest src sz m =
     rbind (strnlen src sz m) (\<lambda>len.
     rbind (copy_loop (unat len) dest src m) (\<lambda>m. Inr (dest, m)))"

text \<open>\<^verbatim>\<open>strccpy\<close> copies up to a terminator and returns where it stopped in the source.\<close>

fun strccpy_loop :: "nat \<Rightarrow> u64 \<Rightarrow> u64 \<Rightarrow> u8 \<Rightarrow> bmem \<Rightarrow> (u64 \<times> bmem) result" where
  "strccpy_loop 0 dest src terminator m = Inl Diverges"
| "strccpy_loop (Suc n) dest src terminator m =
     rbind (rdb m src) (\<lambda>c.
     let src = src + 1 in
     if c = 0 \<or> c = terminator then
       let src = (if c = 0 then src - 1 else src) in
       rbind (wrb m dest 0) (\<lambda>m. Inr (src, m))
     else rbind (wrb m dest c) (strccpy_loop n (dest + 1) src terminator))"

definition strccpy :: "u64 \<Rightarrow> u64 \<Rightarrow> u8 \<Rightarrow> bmem \<Rightarrow> (u64 \<times> bmem) result" where
  "strccpy dest src terminator m = strccpy_loop address_fuel dest src terminator m"

fun strend_loop :: "nat \<Rightarrow> u64 \<Rightarrow> bmem \<Rightarrow> u64 result" where
  "strend_loop 0 dest m = Inl Diverges"
| "strend_loop (Suc n) dest m = rbind (rdb m dest) (\<lambda>c. if c \<noteq> 0 then strend_loop n (dest + 1) m else Inr dest)"

definition strcat :: "u64 \<Rightarrow> u64 \<Rightarrow> bmem \<Rightarrow> (u64 \<times> bmem) result" where
  "strcat dest app m =
     rbind (strend_loop address_fuel dest m) (\<lambda>d.
     rbind (strcpy d app m) (\<lambda>(_, m). Inr (dest, m)))"

fun memcmp_loop :: "nat \<Rightarrow> u64 \<Rightarrow> u64 \<Rightarrow> bmem \<Rightarrow> int result" where
  "memcmp_loop 0 s1 s2 m = Inr 0"
| "memcmp_loop (Suc n) s1 s2 m =
     rbind (rdb m s1) (\<lambda>a. rbind (rdb m s2) (\<lambda>b.
     if a \<noteq> b then Inr (if a < b then - 1 else 1) else memcmp_loop n (s1 + 1) (s2 + 1) m))"

definition memcmp :: "u64 \<Rightarrow> u64 \<Rightarrow> u64 \<Rightarrow> bmem \<Rightarrow> int result" where
  "memcmp region1 region2 sz m = memcmp_loop (unat sz) region1 region2 m"

fun strcmp_loop :: "nat \<Rightarrow> u64 \<Rightarrow> u64 \<Rightarrow> bmem \<Rightarrow> int result" where
  "strcmp_loop 0 str1 str2 m = Inl Diverges"
| "strcmp_loop (Suc n) str1 str2 m =
     rbind (rdb m str1) (\<lambda>a. rbind (rdb m str2) (\<lambda>b.
     if a \<noteq> 0 \<and> a = b then strcmp_loop n (str1 + 1) (str2 + 1) m else Inr (uint a - uint b)))"

definition strcmp :: "u64 \<Rightarrow> u64 \<Rightarrow> bmem \<Rightarrow> int result" where
  "strcmp str1 str2 m = strcmp_loop address_fuel str1 str2 m"

fun memchr_loop :: "nat \<Rightarrow> u64 \<Rightarrow> u8 \<Rightarrow> bmem \<Rightarrow> u64 result" where
  "memchr_loop 0 src c m = Inr NULL"
| "memchr_loop (Suc n) src c m = rbind (rdb m src) (\<lambda>b. if b = c then Inr src else memchr_loop n (src + 1) c m)"

definition memchr :: "u64 \<Rightarrow> u8 \<Rightarrow> u64 \<Rightarrow> bmem \<Rightarrow> u64 result" where
  "memchr block c sz m = memchr_loop (unat sz) block c m"

fun strclen_loop :: "nat \<Rightarrow> u64 \<Rightarrow> u8 \<Rightarrow> u64 \<Rightarrow> bmem \<Rightarrow> u64 result" where
  "strclen_loop 0 src terminator len m = Inl Diverges"
| "strclen_loop (Suc n) src terminator len m =
     rbind (rdb m src) (\<lambda>c.
     if c \<noteq> terminator \<and> c \<noteq> 0 then strclen_loop n (src + 1) terminator (len + 1) m else Inr len)"

definition strclen :: "u64 \<Rightarrow> u8 \<Rightarrow> bmem \<Rightarrow> u64 result" where
  "strclen src terminator m = strclen_loop address_fuel src terminator 0 m"

definition nchar :: "u32 \<Rightarrow> u8" where
  "nchar index = (if index < 10 then ucast (48 + index) else ucast (97 + index - 10))"

text \<open>The loop of \<^verbatim>\<open>strrev\<close> over \<open>k\<close> remaining swaps.\<close>

fun strrev_loop :: "nat \<Rightarrow> u64 \<Rightarrow> u64 \<Rightarrow> u64 \<Rightarrow> bmem \<Rightarrow> bmem result" where
  "strrev_loop 0 i len buf m = Inr m"
| "strrev_loop (Suc k) i len buf m =
     rbind (rdb m (buf + i)) (\<lambda>tmp.
     rbind (rdb m (buf + (len - 1 - i))) (\<lambda>c.
     rbind (wrb m (buf + i) c) (\<lambda>m.
     rbind (wrb m (buf + (len - 1 - i)) tmp) (strrev_loop k (i + 1) len buf))))"

definition strrev :: "u64 \<Rightarrow> bmem \<Rightarrow> (u64 \<times> bmem) result" where
  "strrev buf m =
     rbind (strlen buf m) (\<lambda>len.
     rbind (strrev_loop (unat (len div 2)) 0 len buf m) (\<lambda>m. Inr (buf, m)))"

text \<open>The digit loops: unsigned at both widths, signed with C's truncating division.\<close>

fun udigits :: "nat \<Rightarrow> 'a::len word \<Rightarrow> 'a word \<Rightarrow> u64 \<Rightarrow> bmem \<Rightarrow> (u64 \<times> bmem) result" where
  "udigits 0 value base bufPtr m = Inl Diverges"
| "udigits (Suc k) value base bufPtr m =
     (if base = 0 then Inl Div_By_Zero
      else
        let n = value mod base in
        rbind (wrb m bufPtr (nchar (ucast n))) (\<lambda>m.
        let value = value div base in
        if value = 0 then Inr (bufPtr + 1, m) else udigits k value base (bufPtr + 1) m))"

definition utoa :: "u32 \<Rightarrow> u64 \<Rightarrow> u32 \<Rightarrow> bmem \<Rightarrow> (u64 \<times> bmem) result" where
  "utoa value str base m =
     rbind (udigits address_fuel value base str m) (\<lambda>(bufPtr, m).
     rbind (wrb m bufPtr 0) (strrev str))"

definition ultoa :: "u64 \<Rightarrow> u64 \<Rightarrow> u32 \<Rightarrow> bmem \<Rightarrow> (u64 \<times> bmem) result" where
  "ultoa value str base m =
     rbind (udigits address_fuel value (scast base) str m) (\<lambda>(bufPtr, m).
     rbind (wrb m bufPtr 0) (strrev str))"

fun sdigits :: "nat \<Rightarrow> int \<Rightarrow> int \<Rightarrow> u64 \<Rightarrow> bmem \<Rightarrow> (u64 \<times> bmem) result" where
  "sdigits 0 value base bufPtr m = Inl Diverges"
| "sdigits (Suc k) value base bufPtr m =
     (if base = 0 then Inl Div_By_Zero
      else
        let n = value smod base in
        rbind (wrb m bufPtr (nchar (of_int n))) (\<lambda>m.
        let value = value sdiv base in
        if value = 0 then Inr (bufPtr + 1, m) else sdigits k value base (bufPtr + 1) m))"

text \<open>\<^verbatim>\<open>value = -value\<close> at \<open>w\<close> bits wraps at the least value.\<close>

definition sneg :: "nat \<Rightarrow> int \<Rightarrow> int" where
  "sneg w v = (if v = - (2 ^ (w - 1)) then v else - v)"

definition stoa :: "nat \<Rightarrow> int \<Rightarrow> u64 \<Rightarrow> int \<Rightarrow> bmem \<Rightarrow> (u64 \<times> bmem) result" where
  "stoa w value str base m =
     (let isNegative = (value < 0); value = (if value < 0 then sneg w value else value) in
      rbind (sdigits address_fuel value base str m) (\<lambda>(bufPtr, m).
      rbind (if isNegative then rbind (wrb m bufPtr 45) (\<lambda>m. Inr (bufPtr + 1, m)) else Inr (bufPtr, m)) (\<lambda>(bufPtr, m).
      rbind (wrb m bufPtr 0) (strrev str))))"

definition itoa :: "int \<Rightarrow> u64 \<Rightarrow> int \<Rightarrow> bmem \<Rightarrow> (u64 \<times> bmem) result" where
  "itoa value str base m = stoa 32 value str base m"

definition ltoa :: "int \<Rightarrow> u64 \<Rightarrow> int \<Rightarrow> bmem \<Rightarrow> (u64 \<times> bmem) result" where
  "ltoa value str base m = stoa 64 value str base m"

fun ptoa_loop :: "nat \<Rightarrow> u64 \<Rightarrow> u64 \<Rightarrow> bmem \<Rightarrow> (u64 \<times> bmem) result" where
  "ptoa_loop 0 value bufPtr m = Inr (bufPtr, m)"
| "ptoa_loop (Suc i) value bufPtr m =
     rbind (wrb m bufPtr (nchar (ucast (drop_bit (i * 4) value AND 0xf)))) (ptoa_loop i value (bufPtr + 1))"

definition ptoa :: "u64 \<Rightarrow> u64 \<Rightarrow> bmem \<Rightarrow> (u64 \<times> bmem) result" where
  "ptoa value str m =
     rbind (wrb m str 48) (\<lambda>m.
     rbind (wrb m (str + 1) 120) (\<lambda>m.
     rbind (ptoa_loop 16 value (str + 2) m) (\<lambda>(bufPtr, m).
     rbind (wrb m bufPtr 0) (\<lambda>m. Inr (str, m)))))"

definition exceptions :: "string list" where
  "exceptions = [
    ''Divide by zero'', ''Debug'', ''NMI'', ''Breakpoint'', ''Overflow'', ''Bounds check'',
    ''Invalid opcode'', ''Device not available'', ''Double fault'',
    ''Coprocessor segment overrun'', ''Invalid TSS'', ''Segment not present'',
    ''Stack segment fault'', ''General protection fault'', ''Page fault'', ''reserved'',
    ''Floating-point error'', ''Alignment check'', ''Machine check'',
    ''SIMD floating point exception'']"

definition err_messages :: "string list" where
  "err_messages = [
    ''success'', ''operation not permitted'', ''no such file or directory'', ''no such process'',
    ''interrupted system call'', ''input/output error'', ''no such device or address'',
    ''argument list too long'', ''exec format error'', ''bad file descriptor'',
    ''no child processes'', ''resource temporarily unavailable'', ''cannot allocate memory'',
    ''permission denied'', ''bad address'', ''block device required'',
    ''device or resource busy'', ''file exists'', ''invalid cross-device link'',
    ''no such device'', ''not a directory'', ''is a directory'', ''invalid argument'',
    ''too many open files in system'', ''too many open files'',
    ''inappropriate ioctl for device'', ''text file busy'', ''file too large'',
    ''no space left on device'', ''illegal seek'', ''read-only file system'', ''too many links'',
    ''broken pipe'', ''numerical argument out of domain'', ''numerical result out of range'',
    ''resource deadlock avoided'', ''file name too long'', ''no locks available'',
    ''function not implemented'', ''directory not empty'', ''too many levels of symbolic links'',
    ''resource temporarily unavailable'', ''no message of desired type'', ''identifier removed'',
    ''channel number out of range'', ''level 2 not synchronized'', ''level 3 halted'',
    ''level 3 reset'', ''link number out of range'', ''protocol driver not attached'',
    ''no csi structure available'', ''level 2 halted'', ''invalid exchange'',
    ''invalid request descriptor'', ''exchange full'', ''no anode'', ''invalid request code'',
    ''invalid slot'', ''resource deadlock avoided'', ''bad font file format'',
    ''device not a stream'', ''no data available'', ''timer expired'',
    ''out of streams resources'', ''machine is not on the network'', ''package not installed'',
    ''object is remote'', ''link has been severed'', ''advertise error'', ''srmount error'',
    ''communication error on send'', ''protocol error'', ''multihop attempted'',
    ''rfs specific error'', ''bad message'', ''value too large for defined data type'',
    ''name not unique on network'', ''file descriptor in bad state'', ''remote address changed'',
    ''can not access a needed shared library'', ''accessing a corrupted shared library'',
    ''.lib section in a.out corrupted'', ''attempting to link in too many shared libraries'',
    ''cannot exec a shared library directly'',
    ''invalid or incomplete multibyte or wide character'',
    ''interrupted system call should be restarted'', ''streams pipe error'', ''too many users'',
    ''socket operation on non-socket'', ''destination address required'', ''message too long'',
    ''protocol wrong type for socket'', ''protocol not available'', ''protocol not supported'',
    ''socket type not supported'', ''operation not supported'',
    ''protocol family not supported'', ''address family not supported by protocol'',
    ''address already in use'', ''cannot assign requested address'', ''network is down'',
    ''network is unreachable'', ''network dropped connection on reset'',
    ''software caused connection abort'', ''connection reset by peer'',
    ''no buffer space available'', ''transport endpoint is already connected'',
    ''transport endpoint is not connected'', ''cannot send after transport endpoint shutdown'',
    ''too many references: cannot splice'', ''connection timed out'', ''connection refused'',
    ''host is down'', ''no route to host'', ''operation already in progress'',
    ''operation now in progress'', ''stale file handle'', ''structure needs cleaning'',
    ''not a xenix named type file'', ''no xenix semaphores available'', ''is a named type file'',
    ''remote i/o error'', ''disk quota exceeded'', ''no medium found'', ''wrong medium type'',
    ''operation canceled'', ''required key not available'', ''key has expired'',
    ''key has been revoked'', ''key was rejected by service'', ''owner died'',
    ''state not recoverable'', ''operation not possible due to rf-kill'',
    ''memory page has hardware error'', ''operation not supported'',
    ''filesystem not supported'', ''interference conflict'']"

text \<open>
  \<^verbatim>\<open>err < sizeof(err_messages)\<close> compares with the size of the table in bytes, eight per entry; reading
  an entry behind the end is a fault.
\<close>

definition strerror :: "u32 \<Rightarrow> string result" where
  "strerror err =
     (if unat err < 8 * length err_messages then rd err_messages (unat err) else Inr ''Unknown error'')"

definition strexcept :: "u32 \<Rightarrow> string result" where
  "strexcept exc =
     (if unat exc < 8 * length exceptions then rd exceptions (unat exc) else Inr ''unknown'')"

section \<open>Memory with a list of bytes in it\<close>

definition mput :: "bmem \<Rightarrow> u64 \<Rightarrow> u8 list \<Rightarrow> bmem" where
  "mput m p bs = (\<lambda>a. if unat (a - p) < length bs then Some (bs ! unat (a - p)) else m a)"

definition holds :: "bmem \<Rightarrow> u64 \<Rightarrow> u8 list \<Rightarrow> bool" where
  "holds m p bs \<longleftrightarrow> (\<forall>i<length bs. m (p + of_nat i) = Some (bs ! i))"

definition writable :: "bmem \<Rightarrow> u64 \<Rightarrow> nat \<Rightarrow> bool" where
  "writable m p n \<longleftrightarrow> (\<forall>i<n. m (p + of_nat i) \<noteq> None)"

text \<open>A terminated string.\<close>

definition cstr :: "bmem \<Rightarrow> u64 \<Rightarrow> u8 list \<Rightarrow> bool" where
  "cstr m p bs \<longleftrightarrow> holds m p (bs @ [0]) \<and> 0 \<notin> set bs \<and> length bs < 2 ^ 64"

lemma offset_unat: "i < 2 ^ 64 \<Longrightarrow> unat (p + of_nat i - p :: u64) = i"
  by (simp add: unat_of_nat_small)

lemma mput_Nil [simp]: "mput m p [] = m"
  by (simp add: mput_def)

lemma mput_snoc:
  assumes "length bs < 2 ^ 64"
  shows "(mput m p bs)(p + of_nat (length bs) \<mapsto> b) = mput m p (bs @ [b])"
proof
  fix a
  have "a = p + of_nat (length bs) \<longleftrightarrow> unat (a - p) = length bs"
    using offset_unat [OF assms, of p] by (metis add_diff_cancel_left' diff_add_cancel add.commute of_nat_unat_word)
  then show "((mput m p bs)(p + of_nat (length bs) \<mapsto> b)) a = mput m p (bs @ [b]) a"
    by (auto simp: mput_def nth_append less_Suc_eq)
qed

lemma mput_get: "i < length bs \<Longrightarrow> i < 2 ^ 64 \<Longrightarrow> mput m p bs (p + of_nat i) = Some (bs ! i)"
  by (simp add: mput_def unat_of_nat_small)

lemma mput_out: "length bs \<le> i \<Longrightarrow> i < 2 ^ 64 \<Longrightarrow> mput m p bs (p + of_nat i) = m (p + of_nat i)"
  by (simp add: mput_def unat_of_nat_small)

lemma mput_upd:
  assumes "i < length bs" and "i < 2 ^ 64"
  shows "(mput m p bs)(p + of_nat i \<mapsto> b) = mput m p (bs[i := b])"
proof
  fix a
  have "a = p + of_nat i \<longleftrightarrow> unat (a - p) = i"
    using offset_unat [OF assms(2), of p] by (metis add_diff_cancel_left' diff_add_cancel add.commute of_nat_unat_word)
  then show "((mput m p bs)(p + of_nat i \<mapsto> b)) a = mput m p (bs[i := b]) a"
    using assms by (auto simp: mput_def)
qed

lemma holds_mput: "length bs \<le> 2 ^ 64 \<Longrightarrow> holds (mput m p bs) p bs"
  by (auto simp: holds_def mput_get)

lemma cstr_mput: "0 \<notin> set bs \<Longrightarrow> length bs < 2 ^ 64 \<Longrightarrow> cstr (mput m p (bs @ [0])) p bs"
  using holds_mput [of "bs @ [0]" m p] by (simp add: cstr_def)

section \<open>Copying\<close>

lemma writableD: "writable m p n \<Longrightarrow> i < n \<Longrightarrow> \<exists>b. m (p + of_nat i) = Some b"
  by (auto simp: writable_def)

lemma writable_mput: "writable m p n \<Longrightarrow> i < n \<Longrightarrow> n \<le> 2 ^ 64 \<Longrightarrow> \<exists>b. mput m p bs (p + of_nat i) = Some b"
  using writableD [of m p n i] by (auto simp: mput_def)

lemma offset_neq: "i < 2 ^ 64 \<Longrightarrow> j < 2 ^ 64 \<Longrightarrow> i \<noteq> j \<Longrightarrow> p + of_nat i \<noteq> (p + of_nat j :: u64)"
  using of_nat_eq_iff_small [where 'a = 64, of i j] by simp

text \<open>Copying forward is right as long as no byte is overwritten before it is read.\<close>

definition copy_safe :: "u64 \<Rightarrow> u64 \<Rightarrow> nat \<Rightarrow> bool" where
  "copy_safe d s n \<longleftrightarrow> (\<forall>i<n. \<forall>j<i. d + of_nat j \<noteq> s + of_nat i)"

lemma copy_loop_from:
  assumes h: "holds m s bs" and w: "writable m d (length bs)" and safe: "copy_safe d s (length bs)"
    and len: "length bs \<le> 2 ^ 64" and k: "k + n = length bs"
  shows "copy_loop n (d + of_nat k) (s + of_nat k) (mput m d (take k bs)) = Inr (mput m d bs)"
  using k
proof (induction n arbitrary: k)
  case 0
  then show ?case by simp
next
  case (Suc n)
  have k64: "k < 2 ^ 64" "k < length bs" using Suc.prems len by simp_all
  have "unat (s + of_nat k - d) \<ge> k"
  proof (rule ccontr)
    assume "\<not> ?thesis"
    then have j: "unat (s + of_nat k - d) < k" by simp
    then have "d + of_nat (unat (s + of_nat k - d)) \<noteq> s + of_nat k"
      using safe k64(2) unfolding copy_safe_def by blast
    then show False by simp
  qed
  then have "mput m d (take k bs) (s + of_nat k) = Some (bs ! k)"
    using h k64 by (auto simp: mput_def holds_def)
  then have "rdb (mput m d (take k bs)) (s + of_nat k) = Inr (bs ! k)" by (simp add: rdb_def)
  moreover have "wrb (mput m d (take k bs)) (d + of_nat k) (bs ! k) = Inr (mput m d (take (Suc k) bs))"
    using writable_mput [OF w k64(2) len, of "take k bs"] mput_snoc [of "take k bs" m d "bs ! k"] k64
    by (auto simp: wrb_def take_Suc_conv_app_nth)
  moreover have "copy_loop n (d + of_nat (Suc k)) (s + of_nat (Suc k)) (mput m d (take (Suc k) bs)) = Inr (mput m d bs)"
    using Suc.IH [of "Suc k"] Suc.prems by simp
  ultimately show ?case by (simp add: add.assoc add.commute [of 1])
qed

lemma copy_loop_ok:
  assumes "holds m s bs" and "writable m d (length bs)" and "copy_safe d s (length bs)" and "length bs \<le> 2 ^ 64"
  shows "copy_loop (length bs) d s m = Inr (mput m d bs)"
  using copy_loop_from [OF assms, of 0 "length bs"] by simp

lemma set_loop_from:
  assumes w: "writable m p N" and len: "N \<le> 2 ^ 64" and k: "k + n = N"
  shows "set_loop n (p + of_nat k) c (mput m p (replicate k c)) = Inr (mput m p (replicate N c))"
  using k
proof (induction n arbitrary: k)
  case 0
  then show ?case by simp
next
  case (Suc n)
  have k64: "k < 2 ^ 64" "k < N" using Suc.prems len by simp_all
  have "wrb (mput m p (replicate k c)) (p + of_nat k) c = Inr (mput m p (replicate (Suc k) c))"
    using writable_mput [OF w k64(2) len, of "replicate k c"] mput_snoc [of "replicate k c" m p c] k64
    by (auto simp: wrb_def replicate_append_same simp flip: replicate_Suc)
  moreover have "set_loop n (p + of_nat (Suc k)) c (mput m p (replicate (Suc k) c)) = Inr (mput m p (replicate N c))"
    using Suc.IH [of "Suc k"] Suc.prems by simp
  ultimately show ?case by (simp add: add.assoc add.commute [of 1])
qed

section \<open>Terminated strings\<close>

lemma holds_at: "holds m p bs \<Longrightarrow> i < length bs \<Longrightarrow> m (p + of_nat i) = Some (bs ! i)"
  by (simp add: holds_def)

lemma cstr_at:
  assumes "cstr m p bs" and "i \<le> length bs"
  shows "rdb m (p + of_nat i) = Inr (if i < length bs then bs ! i else 0)"
  using assms holds_at [of m p "bs @ [0]" i] by (auto simp: cstr_def rdb_def nth_append)

lemma strlen_loop_from:
  assumes "cstr m p bs" and "k \<le> length bs" and "length bs - k < n"
  shows "strlen_loop n (p + of_nat k) (of_nat k) m = Inr (of_nat (length bs))"
  using assms(2,3)
proof (induction n arbitrary: k)
  case (Suc n)
  have nz: "k < length bs \<Longrightarrow> bs ! k \<noteq> 0" using assms(1) nth_mem by (fastforce simp: cstr_def)
  show ?case
  proof (cases "k < length bs")
    case True
    have "strlen_loop n (p + of_nat (Suc k)) (of_nat (Suc k)) m = Inr (of_nat (length bs))"
      using Suc.IH [of "Suc k"] Suc.prems True by simp
    then show ?thesis using cstr_at [OF assms(1), of k] True nz by (simp add: add.assoc add.commute [of 1])
  next
    case False
    then show ?thesis using cstr_at [OF assms(1), of k] Suc.prems by simp
  qed
qed simp

lemma strlen_ok: "cstr m p bs \<Longrightarrow> strlen p m = Inr (of_nat (length bs))"
  using strlen_loop_from [of m p bs 0 address_fuel] by (simp add: strlen_def cstr_def)

lemma strcmp_loop_from:
  assumes x: "cstr m p xs" and y: "cstr m q ys" and eq: "take k xs = take k ys" "k \<le> length xs" "k \<le> length ys"
    and "length xs - k < n"
  shows "strcmp_loop n (p + of_nat k) (q + of_nat k) m =
    Inr (let i = length (takeWhile (\<lambda>(a, b). a = b) (zip xs ys)) in
      uint ((xs @ [0]) ! i) - uint ((ys @ [0]) ! i))"
  using assms(3-6)
proof (induction n arbitrary: k)
  case (Suc n)
  let ?i = "length (takeWhile (\<lambda>(a, b). a = b) (zip xs ys))"
  have nzx: "k < length xs \<Longrightarrow> xs ! k \<noteq> 0" and nzy: "k < length ys \<Longrightarrow> ys ! k \<noteq> 0"
    using x y nth_mem by (fastforce simp: cstr_def)+
  have rx: "rdb m (p + of_nat k) = Inr ((xs @ [0]) ! k)" and ry: "rdb m (q + of_nat k) = Inr ((ys @ [0]) ! k)"
    using cstr_at [OF x Suc.prems(2)] cstr_at [OF y Suc.prems(3)] Suc.prems(2,3) by (auto simp: nth_append)
  have pre: "\<forall>j<k. xs ! j = ys ! j" using Suc.prems(1) by (metis nth_take)
  show ?case
  proof (cases "k < length xs \<and> k < length ys \<and> xs ! k = ys ! k")
    case True
    then have "take (Suc k) xs = take (Suc k) ys" using Suc.prems(1) by (simp add: take_Suc_conv_app_nth)
    then have "strcmp_loop n (p + of_nat (Suc k)) (q + of_nat (Suc k)) m =
      Inr (let i = ?i in uint ((xs @ [0]) ! i) - uint ((ys @ [0]) ! i))"
      using Suc.IH [of "Suc k"] Suc.prems(4) True by fastforce
    then show ?thesis using rx ry True nzx by (simp add: nth_append add.assoc add.commute [of 1])
  next
    case False
    have "?i = k"
    proof -
      have "takeWhile (\<lambda>(a, b). a = b) (zip xs ys) = take k (zip xs ys)"
      proof (rule takeWhile_eq_take_P_nth)
        show "(\<lambda>(a, b). a = b) (zip xs ys ! j)" if "j < k" "j < length (zip xs ys)" for j using that pre by simp
        show "\<not> (\<lambda>(a, b). a = b) (zip xs ys ! k)" if "k < length (zip xs ys)" using that False by simp
      qed
      then show ?thesis using Suc.prems(2,3) by simp
    qed
    moreover have "\<not> ((xs @ [0]) ! k \<noteq> 0 \<and> (xs @ [0]) ! k = (ys @ [0]) ! k)"
      using False nzx nzy Suc.prems(2,3) by (auto simp: nth_append split: if_splits)
    ultimately show ?thesis using rx ry by (auto simp: Let_def)
  qed
qed simp

section \<open>Reversal\<close>

lemma mput_same: "holds m p bs \<Longrightarrow> mput m p bs = m"
  by (rule ext) (force simp: mput_def holds_def)

lemma mput_mput: "length bs \<le> length cs \<Longrightarrow> mput (mput m p bs) p cs = mput m p cs"
  by (rule ext) (simp add: mput_def)

lemma mput_append_prefix: "length bs = length cs \<Longrightarrow> mput (mput m p (bs @ ds)) p cs = mput m p (cs @ ds)"
  by (rule ext) (simp add: mput_def nth_append)

definition swapped :: "nat \<Rightarrow> 'a list \<Rightarrow> 'a list" where
  "swapped i xs = map (\<lambda>j. if j < i \<or> length xs - i \<le> j then xs ! (length xs - 1 - j) else xs ! j) [0..<length xs]"

lemma length_swapped [simp]: "length (swapped i xs) = length xs"
  by (simp add: swapped_def)

lemma swapped_nth: "j < length xs \<Longrightarrow>
  swapped i xs ! j = (if j < i \<or> length xs - i \<le> j then xs ! (length xs - 1 - j) else xs ! j)"
  by (simp add: swapped_def)

lemma swapped_0: "swapped 0 xs = xs"
  by (rule nth_equalityI) (simp_all add: swapped_nth)

lemma swapped_half: "swapped (length xs div 2) xs = rev xs"
proof (rule nth_equalityI)
  fix j assume "j < length (swapped (length xs div 2) xs)"
  then have j: "j < length xs" by simp
  show "swapped (length xs div 2) xs ! j = rev xs ! j"
  proof (cases "j < length xs div 2 \<or> length xs - length xs div 2 \<le> j")
    case True
    then show ?thesis using j by (simp add: swapped_nth rev_nth)
  next
    case False
    then have "length xs - 1 - j = j" by presburger
    then show ?thesis using j False by (simp add: swapped_nth rev_nth)
  qed
qed simp

lemma swapped_Suc:
  assumes "i < length xs div 2"
  shows "swapped (Suc i) xs = (swapped i xs)[i := xs ! (length xs - 1 - i), length xs - 1 - i := xs ! i]"
proof (rule nth_equalityI)
  fix j assume "j < length (swapped (Suc i) xs)"
  then have j: "j < length xs" by simp
  have i: "i < length xs" "i < length xs - 1 - i" using assms by presburger+
  consider "j = i" | "j = length xs - 1 - i" | "j \<noteq> i" "j \<noteq> length xs - 1 - i" by blast
  then show "swapped (Suc i) xs ! j = (swapped i xs)[i := xs ! (length xs - 1 - i), length xs - 1 - i := xs ! i] ! j"
  proof cases
    case 3
    then have "(j < Suc i \<or> length xs - Suc i \<le> j) = (j < i \<or> length xs - i \<le> j)" using i j by linarith
    then show ?thesis using 3 j by (simp add: swapped_nth)
  qed (use i j in \<open>simp_all add: swapped_nth\<close>)
qed simp

lemma strrev_loop_from:
  assumes m: "holds m p bs" and len: "length bs < 2 ^ 64" and i: "i + k = length bs div 2"
  shows "strrev_loop k (of_nat i) (of_nat (length bs)) p (mput m p (swapped i bs)) = Inr (mput m p (rev bs))"
  using i
proof (induction k arbitrary: i)
  case 0
  then show ?case by (simp add: swapped_half)
next
  case (Suc k)
  have i: "i < length bs div 2" "i < length bs" "i < 2 ^ 64" using Suc.prems len by linarith+
  let ?j = "length bs - 1 - i"
  have j: "i < ?j" "?j < length bs" "?j < 2 ^ 64" using i len by linarith+
  have jw: "of_nat (length bs) - 1 - of_nat i = (of_nat ?j :: u64)"
    using i(2) by (simp add: of_nat_diff)
  let ?m1 = "mput m p ((swapped i bs)[i := bs ! ?j])"
  have ni: "\<not> length bs - i \<le> i" using j(1) by linarith
  have r1: "rdb (mput m p (swapped i bs)) (p + of_nat i) = Inr (bs ! i)"
    using mput_get [of i "swapped i bs" m p] i ni by (simp add: rdb_def swapped_nth)
  have r2: "rdb (mput m p (swapped i bs)) (p + of_nat ?j) = Inr (bs ! ?j)"
    using mput_get [of ?j "swapped i bs" m p] i j by (simp add: rdb_def swapped_nth)
  have w1: "wrb (mput m p (swapped i bs)) (p + of_nat i) (bs ! ?j) = Inr ?m1"
    using mput_get [of i "swapped i bs" m p] mput_upd [of i "swapped i bs" m p] i by (simp add: wrb_def)
  have w2: "wrb ?m1 (p + of_nat ?j) (bs ! i) = Inr (mput m p (swapped (Suc i) bs))"
    using mput_get [of ?j "(swapped i bs)[i := bs ! ?j]" m p] mput_upd [of ?j "(swapped i bs)[i := bs ! ?j]" m p] j
      swapped_Suc [OF i(1)] by (simp add: wrb_def)
  have "strrev_loop k (of_nat (Suc i)) (of_nat (length bs)) p (mput m p (swapped (Suc i) bs)) = Inr (mput m p (rev bs))"
    using Suc.IH [of "Suc i"] Suc.prems by simp
  then show ?case using r1 r2 w1 w2 by (simp add: jw add.commute [of 1])
qed

lemma strrev_ok:
  assumes "cstr m p bs"
  shows "strrev p m = Inr (p, mput m p (rev bs))"
proof -
  have h: "holds m p bs" and len: "length bs < 2 ^ 64"
    using assms by (auto simp: cstr_def holds_def nth_append less_Suc_eq)
  have "unat (of_nat (length bs) div 2 :: u64) = length bs div 2"
    using len by (simp add: unat_div unat_of_nat_small)
  then show ?thesis
    using strlen_ok [OF assms] strrev_loop_from [OF h len, of 0 "length bs div 2"] mput_same [OF h]
    by (simp add: strrev_def swapped_0)
qed

lemma strrev_mput:
  assumes "0 \<notin> set bs" and "length bs < 2 ^ 64"
  shows "strrev p (mput m p (bs @ [0])) = Inr (p, mput m p (rev bs @ [0]))"
  using strrev_ok [OF cstr_mput [OF assms, of m p]] by (simp add: mput_append_prefix)

section \<open>Numerals\<close>

text \<open>The digits of a number, least significant first, and the value of a printed numeral.\<close>

function rdigits :: "nat \<Rightarrow> nat \<Rightarrow> nat list" where
  "rdigits b v = (if b < 2 then [] else v mod b # (if v div b = 0 then [] else rdigits b (v div b)))"
  by pat_completeness auto
termination
proof (relation "measure snd")
  fix b v :: nat
  assume "\<not> b < 2" "v div b \<noteq> 0"
  then have "v div b < v" by (intro div_less_dividend) (auto intro: Nat.gr0I)
  then show "((b, v div b), b, v) \<in> measure snd" by simp
qed simp

declare rdigits.simps [simp del]

definition digit_value :: "u8 \<Rightarrow> nat" where
  "digit_value c = (if c < 58 then unat c - 48 else unat c - 87)"

definition numeral_value :: "nat \<Rightarrow> u8 list \<Rightarrow> nat" where
  "numeral_value b ds = foldl (\<lambda>v c. v * b + digit_value c) 0 ds"

definition numeral_of :: "nat \<Rightarrow> nat \<Rightarrow> u8 list" where
  "numeral_of b v = rev (map (\<lambda>d. nchar (of_nat d)) (rdigits b v))"

lemma rdigits_Cons: "2 \<le> b \<Longrightarrow> rdigits b v = v mod b # (if v div b = 0 then [] else rdigits b (v div b))"
  by (subst rdigits.simps) simp

lemma rdigits_less: "2 \<le> b \<Longrightarrow> d \<in> set (rdigits b v) \<Longrightarrow> d < b"
proof (induction b v rule: rdigits.induct)
  case (1 b v)
  then show ?case using rdigits_Cons [of b v] by (auto split: if_splits)
qed

lemma rdigits_horner: "2 \<le> b \<Longrightarrow> foldr (\<lambda>d v. v * b + d) (rdigits b v) 0 = v"
proof (induction b v rule: rdigits.induct)
  case (1 b v)
  show ?case
  proof (cases "v div b = 0")
    case True
    then show ?thesis using 1(2) by (subst rdigits.simps) (auto simp: div_eq_0_iff)
  next
    case False
    then show ?thesis using 1 by (subst rdigits.simps) simp
  qed
qed

lemma rdigits_length: "2 \<le> b \<Longrightarrow> v < 2 ^ k \<Longrightarrow> 0 < k \<Longrightarrow> length (rdigits b v) \<le> k"
proof (induction b v arbitrary: k rule: rdigits.induct)
  case (1 b v)
  show ?case
  proof (cases "v div b = 0")
    case True
    then show ?thesis using 1(4) by (subst rdigits.simps) simp
  next
    case False
    have half: "v div b \<le> v div 2" using 1(2) by (simp add: div_le_mono2)
    obtain k' where k: "k = Suc k'" using 1(4) by (cases k) auto
    have "v div 2 < 2 ^ k'" using 1(3) unfolding k by (simp add: less_mult_imp_div_less)
    then have small: "v div b < 2 ^ k'" using half by linarith
    then have "0 < k'" using False by (cases k') auto
    then have "length (rdigits b (v div b)) \<le> k'" using 1(1) [OF _ False 1(2) small] 1(2) by linarith
    then show ?thesis using k 1(2) by (subst rdigits.simps) simp
  qed
qed

lemma nchar_range:
  assumes "d < 36"
  shows "digit_value (nchar (of_nat d)) = d" and "nchar (of_nat d) \<noteq> 0" and "nchar (of_nat d) \<noteq> 45"
proof -
  have "\<forall>d\<in>set [0..<36]. digit_value (nchar (of_nat d)) = d \<and> nchar (of_nat d) \<noteq> 0 \<and> nchar (of_nat d) \<noteq> 45"
    by (simp add: upt_rec digit_value_def nchar_def)
  then show "digit_value (nchar (of_nat d)) = d" "nchar (of_nat d) \<noteq> 0" "nchar (of_nat d) \<noteq> 45"
    using assms by auto
qed

lemma numeral_value_of:
  assumes b: "2 \<le> b" "b \<le> 36"
  shows "numeral_value b (numeral_of b v) = v"
proof -
  have dv: "d \<in> set (rdigits b v) \<Longrightarrow> digit_value (nchar (of_nat d)) = d" for d
    using rdigits_less [OF b(1), of d v] b(2) nchar_range(1) [of d] by linarith
  have "foldr (\<lambda>d w. w * b + digit_value (nchar (of_nat d))) (rdigits b v) 0 = foldr (\<lambda>d w. w * b + d) (rdigits b v) 0"
    using dv by (intro foldr_cong) auto
  then show ?thesis
    using rdigits_horner [OF b(1), of v] by (simp add: numeral_value_def numeral_of_def foldl_conv_foldr foldr_map comp_def)
qed

lemma numeral_of_chars:
  assumes "2 \<le> b" "b \<le> 36"
  shows "0 \<notin> set (numeral_of b v)" and "45 \<notin> set (numeral_of b v)"
  using rdigits_less [OF assms(1)] assms(2) nchar_range(2,3)
  by (auto simp: numeral_of_def) (metis less_le_trans)+

lemma wrb_mput:
  assumes "writable m p n" and "length bs < n" and "n \<le> 2 ^ 64"
  shows "wrb (mput m p bs) (p + of_nat (length bs)) b = Inr (mput m p (bs @ [b]))"
  using writable_mput [OF assms(1,2,3), of bs] mput_snoc [of bs m p b] assms(2,3) by (auto simp: wrb_def)

lemma udigits_from:
  fixes val base :: "'a::len word"
  assumes w: "writable m p n" and n: "n \<le> 2 ^ 64" and b: "2 \<le> unat base" and b32: "unat base < 2 ^ 32"
    and len: "length bs + length (rdigits (unat base) (unat val)) \<le> n" and k: "length (rdigits (unat base) (unat val)) \<le> k"
  shows "udigits k val base (p + of_nat (length bs)) (mput m p bs) =
    (let ds = bs @ map (\<lambda>d. nchar (of_nat d)) (rdigits (unat base) (unat val)) in Inr (p + of_nat (length ds), mput m p ds))"
  using len k
proof (induction k arbitrary: val bs)
  case 0
  then show ?case using rdigits_Cons [OF b, of "unat val"] by simp
next
  case (Suc k)
  let ?c = "nchar (ucast (val mod base))"
  have cd: "ucast (val mod base) = (of_nat (unat val mod unat base) :: u32)"
    by (metis unat_mod_distrib of_nat_unat ucast_eq)
  have z: "val div base = 0 \<longleftrightarrow> unat val div unat base = 0"
    by (simp flip: unat_div add: unat_eq_zero)
  have b0: "base \<noteq> 0" using b by auto
  have wr: "wrb (mput m p bs) (p + of_nat (length bs)) ?c = Inr (mput m p (bs @ [?c]))"
    using wrb_mput [OF w _ n] Suc.prems(1) rdigits_Cons [OF b, of "unat val"] by simp
  show ?case
  proof (cases "val div base = 0")
    case True
    then show ?thesis using b0 wr z rdigits_Cons [OF b, of "unat val"] cd by (simp add: Let_def)
  next
    case False
    have "udigits k (val div base) base (p + of_nat (length (bs @ [?c]))) (mput m p (bs @ [?c])) =
      (let ds = (bs @ [?c]) @ map (\<lambda>d. nchar (of_nat d)) (rdigits (unat base) (unat (val div base)))
       in Inr (p + of_nat (length ds), mput m p ds))"
      using Suc.IH [of "bs @ [?c]" "val div base"] Suc.prems rdigits_Cons [OF b, of "unat val"] False z
      by (simp add: unat_div)
    then show ?thesis using b0 wr z False rdigits_Cons [OF b, of "unat val"] cd
      by (simp add: Let_def unat_div ac_simps)
  qed
qed

lemma sdigits_from:
  assumes w: "writable m p n" and n: "n \<le> 2 ^ 64" and b: "2 \<le> base" and b32: "base < 2 ^ 32" and v: "0 \<le> val"
    and len: "length bs + length (rdigits (nat base) (nat val)) \<le> n" and k: "length (rdigits (nat base) (nat val)) \<le> k"
  shows "sdigits k val base (p + of_nat (length bs)) (mput m p bs) =
    (let ds = bs @ map (\<lambda>d. nchar (of_nat d)) (rdigits (nat base) (nat val)) in Inr (p + of_nat (length ds), mput m p ds))"
  using v len k
proof (induction k arbitrary: val bs)
  case 0
  then show ?case using rdigits_Cons [of "nat base" "nat val"] b by simp
next
  case (Suc k)
  let ?c = "nchar (of_int (val smod base))"
  have r: "rdigits (nat base) (nat val) = nat val mod nat base # (if nat val div nat base = 0 then [] else rdigits (nat base) (nat val div nat base))"
    using rdigits_Cons [of "nat base" "nat val"] b by simp
  have sm: "val smod base = int (nat val mod nat base)" and sd: "val sdiv base = int (nat val div nat base)"
    using Suc.prems(1) b by (simp_all add: signed_modulo_int_def signed_divide_int_def sgn_if zmod_int zdiv_int)
  have wr: "wrb (mput m p bs) (p + of_nat (length bs)) ?c = Inr (mput m p (bs @ [?c]))"
    using wrb_mput [OF w _ n] Suc.prems(2) r by simp
  show ?case
  proof (cases "nat val div nat base = 0")
    case True
    then show ?thesis using b wr r sm sd by (simp add: Let_def)
  next
    case False
    have "sdigits k (val sdiv base) base (p + of_nat (length (bs @ [?c]))) (mput m p (bs @ [?c])) =
      (let ds = (bs @ [?c]) @ map (\<lambda>d. nchar (of_nat d)) (rdigits (nat base) (nat (val sdiv base)))
       in Inr (p + of_nat (length ds), mput m p ds))"
      using Suc.IH [of "val sdiv base" "bs @ [?c]"] Suc.prems r False sd by simp
    then show ?thesis using b wr r False sm sd by (simp add: Let_def ac_simps)
  qed
qed

section \<open>Properties\<close>

lemma rdigits_fuel: "2 \<le> b \<Longrightarrow> v < 2 ^ k \<Longrightarrow> 0 < k \<Longrightarrow> k \<le> 64 \<Longrightarrow> length (rdigits b v) \<le> address_fuel"
  using rdigits_length [of b v k] by simp

lemma numeral_of_length: "length (numeral_of b v) = length (rdigits b v)"
  by (simp add: numeral_of_def)

lemma rdigits_length_power: "2 \<le> b \<Longrightarrow> v < b ^ k \<Longrightarrow> 0 < k \<Longrightarrow> length (rdigits b v) \<le> k"
proof (induction b v arbitrary: k rule: rdigits.induct)
  case (1 b v)
  show ?case
  proof (cases "v div b = 0")
    case True
    then show ?thesis using 1(4) by (subst rdigits.simps) simp
  next
    case False
    obtain k' where k: "k = Suc k'" using 1(4) by (cases k) auto
    have small: "v div b < b ^ k'" using 1(3) unfolding k by (simp add: less_mult_imp_div_less mult.commute)
    then have "0 < k'" using False by (cases k') auto
    then have "length (rdigits b (v div b)) \<le> k'" using 1(1) [OF _ False 1(2) small] 1(2) by linarith
    then show ?thesis using k 1(2) by (subst rdigits.simps) simp
  qed
qed

lemma utoa_ok:
  assumes "2 \<le> unat base" and "unat base \<le> 36" and "writable m str n" and "length (numeral_of (unat base) (unat v)) < n" and "n \<le> 2 ^ 64"
  shows "utoa v str base m = Inr (str, mput m str (numeral_of (unat base) (unat v) @ [0]))"
proof -
  let ?ds = "numeral_of (unat base) (unat v)"
  have len: "length (rdigits (unat base) (unat v)) < n" using assms(4) by (simp add: numeral_of_length)
  have "length (rdigits (unat base) (unat v)) \<le> 32"
    using rdigits_length [OF assms(1), of "unat v" 32] unsigned_less [of v, where ?'a = nat] by simp
  then have fuel: "length (rdigits (unat base) (unat v)) \<le> address_fuel" by simp
  have z: "0 \<notin> set ?ds" by (rule numeral_of_chars(1) [OF assms(1,2)])
  have "udigits address_fuel v base str m = Inr (str + of_nat (length (rev ?ds)), mput m str (rev ?ds))"
    using udigits_from [OF assms(3,5,1), of "[]" v address_fuel] len fuel assms(2) by (simp add: numeral_of_def Let_def)
  moreover have "wrb (mput m str (rev ?ds)) (str + of_nat (length (rev ?ds))) 0 = Inr (mput m str (rev ?ds @ [0]))"
    using assms(4) by (intro wrb_mput [OF assms(3) _ assms(5)]) simp
  moreover have "strrev str (mput m str (rev ?ds @ [0])) = Inr (str, mput m str (?ds @ [0]))"
    using strrev_mput [of "rev ?ds" str m] z assms(4,5) by simp
  ultimately show ?thesis by (simp add: utoa_def)
qed

definition signed_numeral :: "nat \<Rightarrow> int \<Rightarrow> u8 list" where
  "signed_numeral b v = (if v < 0 then 45 # numeral_of b (nat (- v)) else numeral_of b (nat v))"

lemma itoa_ok:
  assumes "- (2 ^ 31) < v" and "v < 2 ^ 31" and "2 \<le> base" and "base \<le> 36" and "writable m str n"
    and "length (signed_numeral (nat base) v) < n" and "n \<le> 2 ^ 64"
  shows "itoa v str base m = Inr (str, mput m str (signed_numeral (nat base) v @ [0]))"
proof -
  define u where "u = nat \<bar>v\<bar>"
  let ?ds = "numeral_of (nat base) u"
  let ?out = "if v < 0 then 45 # ?ds else ?ds"
  have out: "?out = signed_numeral (nat base) v" by (simp add: signed_numeral_def u_def)
  have len: "length (rdigits (nat base) u) < n" "length ?out < n"
    using assms(6) unfolding out [symmetric] by (auto simp: numeral_of_length split: if_splits)
  have "length (rdigits (nat base) u) \<le> 32" using rdigits_length [of "nat base" u 32] assms(1-3) by (simp add: u_def)
  then have fuel: "length (rdigits (nat base) u) \<le> address_fuel" by simp
  have mag: "(if v < 0 then sneg 32 v else v) = \<bar>v\<bar>" using assms(1) by (simp add: sneg_def)
  have b: "2 \<le> nat base" "nat base \<le> 36" using assms(3,4) by simp_all
  note z = numeral_of_chars [OF b, of u]
  have dig: "sdigits address_fuel \<bar>v\<bar> base str m = Inr (str + of_nat (length (rev ?ds)), mput m str (rev ?ds))"
    using sdigits_from [OF assms(5,7,3) _ _ _, of "\<bar>v\<bar>" "[]" address_fuel] len(1) fuel assms(4) by (simp add: numeral_of_def Let_def u_def)
  have sign: "(if v < 0 then rbind (wrb (mput m str (rev ?ds)) (str + of_nat (length (rev ?ds))) 45) (\<lambda>m. Inr (str + of_nat (length (rev ?ds)) + 1, m))
      else Inr (str + of_nat (length (rev ?ds)), mput m str (rev ?ds))) = Inr (str + of_nat (length (rev ?out)), mput m str (rev ?out))"
    using wrb_mput [OF assms(5) _ assms(7), of "rev ?ds" 45] len by (auto simp: ac_simps numeral_of_length)
  have fin: "wrb (mput m str (rev ?out)) (str + of_nat (length (rev ?out))) 0 = Inr (mput m str (rev ?out @ [0]))"
    using len(2) by (intro wrb_mput [OF assms(5) _ assms(7)]) simp
  have rv: "strrev str (mput m str (rev ?out @ [0])) = Inr (str, mput m str (?out @ [0]))"
    using strrev_mput [of "rev ?out" str m] z len assms(7) by (simp split: if_splits)
  show ?thesis unfolding itoa_def stoa_def Let_def mag dig rbind_Inr prod.case sign fin rv out [symmetric] by simp
qed

definition first_diff :: "u8 list \<Rightarrow> u8 list \<Rightarrow> nat" where
  "first_diff xs ys = length (takeWhile (\<lambda>(a, b). a = b) (zip xs ys))"

lemma first_diff_props:
  shows "first_diff xs ys \<le> length xs" and "first_diff xs ys \<le> length ys"
    and "take (first_diff xs ys) xs = take (first_diff xs ys) ys"
    and "first_diff xs ys < length xs \<Longrightarrow> first_diff xs ys < length ys \<Longrightarrow> xs ! first_diff xs ys \<noteq> ys ! first_diff xs ys"
proof -
  let ?i = "first_diff xs ys"
  have le: "?i \<le> length (zip xs ys)" unfolding first_diff_def by (rule length_takeWhile_le)
  then show "?i \<le> length xs" "?i \<le> length ys" by simp_all
  have "xs ! j = ys ! j" if "j < ?i" for j
  proof -
    have "takeWhile (\<lambda>(a, b). a = b) (zip xs ys) ! j = zip xs ys ! j"
      using that unfolding first_diff_def by (rule takeWhile_nth)
    moreover have "takeWhile (\<lambda>(a, b). a = b) (zip xs ys) ! j \<in> set (takeWhile (\<lambda>(a, b). a = b) (zip xs ys))"
      using that unfolding first_diff_def by (rule nth_mem)
    ultimately have "(\<lambda>(a, b). a = b) (zip xs ys ! j)" using set_takeWhileD by metis
    then show ?thesis using that le by simp
  qed
  then show "take ?i xs = take ?i ys" using le by (intro nth_equalityI) simp_all
  assume "?i < length xs" "?i < length ys"
  then show "xs ! ?i \<noteq> ys ! ?i"
    using nth_length_takeWhile [of "\<lambda>(a, b). a = b" "zip xs ys"] by (simp add: first_diff_def)
qed

lemma strcmp_ok:
  assumes "cstr m p xs" and "cstr m q ys"
  shows "strcmp p q m = Inr (uint ((xs @ [0]) ! first_diff xs ys) - uint ((ys @ [0]) ! first_diff xs ys))"
  using strcmp_loop_from [OF assms, of 0 address_fuel] assms(1)
  by (simp add: strcmp_def first_diff_def cstr_def Let_def)

lemma byte_pos: "c \<noteq> 0 \<Longrightarrow> 0 < uint (c :: u8)"
  using word_gt_0 [of c] by (simp add: word_less_def)

lemma strcmp_sign:
  assumes "0 \<notin> set xs" and "0 \<notin> set ys" and d: "d = uint ((xs @ [0]) ! first_diff xs ys) - uint ((ys @ [0]) ! first_diff xs ys)"
  shows "d = 0 \<longleftrightarrow> xs = ys" and "d < 0 \<longleftrightarrow> (xs, ys) \<in> lexord {(a, b). a < b}"
proof -
  let ?i = "first_diff xs ys"
  note fd = first_diff_props [of xs ys]
  have x: "?i < length xs \<Longrightarrow> 0 < uint (xs ! ?i)" and y: "?i < length ys \<Longrightarrow> 0 < uint (ys ! ?i)"
    using assms(1,2) nth_mem by (metis byte_pos)+
  have lex: "(xs, ys) \<in> lexord {(a, b). a < b} \<longleftrightarrow> ?i < length ys \<and> (?i = length xs \<or> xs ! ?i < ys ! ?i)"
    (is "?L \<longleftrightarrow> ?R")
  proof
    assume ?L
    then consider "length xs < length ys" "take (length xs) ys = xs"
      | j where "j < length xs" "j < length ys" "take j xs = take j ys" "xs ! j < ys ! j"
      by (auto simp: lexord_take_index_conv)
    then show ?R
    proof cases
      case 1
      then have "xs ! ?i = ys ! ?i" if "?i < length xs" using that by (metis nth_take)
      then show ?thesis using 1 fd by fastforce
    next
      case 2
      have "j = ?i"
      proof (rule ccontr)
        assume "j \<noteq> ?i"
        moreover have "\<not> j < ?i" using 2 fd(3) by (metis less_irrefl nth_take)
        ultimately have "?i < j" by simp
        then have "xs ! ?i = ys ! ?i" using 2(3) by (metis nth_take)
        then show False using fd(4) \<open>?i < j\<close> 2 by simp
      qed
      then show ?thesis using 2 by simp
    qed
  next
    assume ?R
    then show ?L using fd(1,3) by (auto simp: lexord_take_index_conv order_le_less)
  qed
  have eq: "xs = ys \<longleftrightarrow> ?i = length xs \<and> ?i = length ys"
    using fd(3) fd(4) fd(1,2) by (metis order_le_less take_all_iff order_refl)
  show "d = 0 \<longleftrightarrow> xs = ys"
    using d x y fd(1,2,4) by (auto simp: eq nth_append word_uint_eq_iff)
  show "d < 0 \<longleftrightarrow> (xs, ys) \<in> lexord {(a, b). a < b}"
    unfolding lex using d x y fd(1,2,4) by (auto simp: nth_append word_less_def)
qed

text \<open>
  For two terminated strings \<^verbatim>\<open>strcmp\<close> returns (it never runs past a terminator); the result is zero exactly when the
  strings are equal and negative exactly when the first comes before the second in the lexicographic
  order of their unsigned bytes.
\<close>

theorem strcmp_spec:
  assumes "cstr m p xs" and "cstr m q ys"
  shows "\<exists>d. strcmp p q m = Inr d \<and> (d = 0 \<longleftrightarrow> xs = ys) \<and> (d < 0 \<longleftrightarrow> (xs, ys) \<in> lexord {(a, b). a < b})"
  using strcmp_ok [OF assms] strcmp_sign [OF _ _ refl, of xs ys] assms by (auto simp: cstr_def)

definition two_words :: bmem where
  "two_words = mput (mput Map.empty 16 [97, 98, 0]) 32 [97, 99, 0]"

lemma two_words_cstr: "cstr two_words 16 [97, 98] \<and> cstr two_words 32 [97, 99]"
  by (simp add: two_words_def cstr_def holds_def mput_def less_Suc_eq)

theorem strcmp_spec_witness:
  "cstr two_words 16 [97, 98] \<and> cstr two_words 32 [97, 99] \<and> (\<exists>d. strcmp 16 32 two_words = Inr d \<and> d < 0)"
  using strcmp_spec [OF conjunct1 [OF two_words_cstr] conjunct2 [OF two_words_cstr]] two_words_cstr by auto

text \<open>
  \<^verbatim>\<open>strcpy\<close> into a buffer that does not overlap the source leaves an equal string there (by \<^verbatim>\<open>strlen\<close> and
  \<^verbatim>\<open>strcmp\<close>), returns the destination and changes no byte outside the copy.
\<close>

theorem strcpy_spec:
  assumes "cstr m src bs" and "writable m dest (length bs + 1)" and "\<forall>i\<le>length bs. \<forall>j\<le>length bs. dest + of_nat i \<noteq> src + of_nat j"
  shows "\<exists>m'. strcpy dest src m = Inr (dest, m') \<and> cstr m' dest bs \<and> cstr m' src bs \<and>
    strlen dest m' = Inr (of_nat (length bs)) \<and> strcmp dest src m' = Inr 0 \<and>
    (\<forall>a. (\<forall>i\<le>length bs. a \<noteq> dest + of_nat i) \<longrightarrow> m' a = m a)"
proof -
  let ?m = "mput m dest (bs @ [0])"
  have len: "length bs < 2 ^ 64" and nz: "0 \<notin> set bs" and h: "holds m src (bs @ [0])"
    using assms(1) by (simp_all add: cstr_def)
  have safe: "copy_safe dest src (length (bs @ [0]))" using assms(3) by (auto simp: copy_safe_def less_Suc_eq_le)
  have out: "?m a = m a" if "\<forall>i\<le>length bs. a \<noteq> dest + of_nat i" for a
  proof -
    have "a = dest + of_nat (unat (a - dest))" by simp
    then have "\<not> unat (a - dest) \<le> length bs" using that by blast
    then show ?thesis by (simp add: mput_def)
  qed
  have d: "cstr ?m dest bs" by (rule cstr_mput [OF nz len])
  have "?m (src + of_nat j) = m (src + of_nat j)" if "j \<le> length bs" for j
    using out [of "src + of_nat j"] assms(3) that by metis
  then have s: "cstr ?m src bs" using assms(1) by (auto simp: cstr_def holds_def)
  have "Suc (length bs) \<noteq> 2 ^ 64"
  proof
    assume "Suc (length bs) = 2 ^ 64"
    then have "unat (src - dest) \<le> length bs" using unsigned_less [of "src - dest", where ?'a = nat] by simp
    then have "dest + of_nat (unat (src - dest)) \<noteq> src + of_nat 0" using assms(3) by blast
    then show False by simp
  qed
  then have "Suc (length bs) < 2 ^ LENGTH(64)" using len by simp
  then have "unat (of_nat (Suc (length bs)) :: u64) = Suc (length bs)" by (rule unat_of_nat_small)
  then have n: "unat (of_nat (length bs) + 1 :: u64) = length (bs @ [0])" by (simp add: add.commute)
  have "copy_loop (length (bs @ [0])) dest src m = Inr ?m"
    using copy_loop_ok [OF h _ safe] assms(2) len by simp
  then have "strcpy dest src m = Inr (dest, ?m)"
    using strlen_ok [OF assms(1)] n by (simp add: strcpy_def memcpy_def)
  moreover have "strcmp dest src ?m = Inr 0" using strcmp_ok [OF d s] by simp
  ultimately show ?thesis using d s strlen_ok [OF d] out by blast
qed

definition word_and_buffer :: bmem where
  "word_and_buffer = mput (mput Map.empty 16 [97, 98, 0]) 32 [1, 2, 3]"

theorem strcpy_spec_witness:
  "\<exists>m'. strcpy 32 16 word_and_buffer = Inr (32, m') \<and> strcmp 32 16 m' = Inr 0"
proof -
  have "cstr word_and_buffer 16 [97, 98]" "writable word_and_buffer 32 (length [97 :: u8, 98] + 1)"
    "\<forall>i\<le>length [97 :: u8, 98]. \<forall>j\<le>length [97 :: u8, 98]. 32 + of_nat i \<noteq> (16 + of_nat j :: u64)"
    by (simp_all add: word_and_buffer_def cstr_def holds_def writable_def mput_def less_Suc_eq le_Suc_eq)
  from strcpy_spec [OF this] show ?thesis by blast
qed

text \<open>
  \<^verbatim>\<open>utoa\<close> with a base from 2 to 36 writes at most 32 digits and a terminator, and the digits read
  back in that base are the number. No other byte changes.
\<close>

theorem utoa_roundtrip:
  assumes "2 \<le> unat base" and "unat base \<le> 36" and "writable m str 33"
  shows "\<exists>ds. utoa v str base m = Inr (str, mput m str (ds @ [0])) \<and> cstr (mput m str (ds @ [0])) str ds \<and>
    length ds \<le> 32 \<and> numeral_value (unat base) ds = unat v"
proof -
  have len: "length (numeral_of (unat base) (unat v)) \<le> 32"
    using rdigits_length [OF assms(1), of "unat v" 32] unsigned_less [of v, where ?'a = nat] by (simp add: numeral_of_length)
  show ?thesis
    using utoa_ok [OF assms, of v] cstr_mput [OF numeral_of_chars(1) [OF assms(1,2)], of "unat v" m str] len numeral_value_of [OF assms(1,2)]
    by (intro exI [of _ "numeral_of (unat base) (unat v)"]) simp
qed

theorem utoa_roundtrip_witness:
  "\<exists>ds. utoa 255 64 16 (mput Map.empty 64 (replicate 33 7)) = Inr (64, mput (mput Map.empty 64 (replicate 33 7)) 64 (ds @ [0])) \<and>
    numeral_value 16 ds = 255"
proof -
  have "writable (mput Map.empty 64 (replicate 33 7)) 64 33"
    by (auto simp: writable_def mput_def unat_of_nat_small)
  then show ?thesis using utoa_roundtrip [of 16 "mput Map.empty 64 (replicate 33 7)" 64 255] by auto
qed

text \<open>
  \<^verbatim>\<open>itoa\<close> of a number other than the least one, in a base from 2 to 36, writes the sign and at most 32
  digits, and the digits read back are the magnitude of the number.
\<close>

theorem itoa_roundtrip:
  assumes "- (2 ^ 31) < v" and "v < 2 ^ 31" and "2 \<le> base" and "base \<le> 36" and "writable m str 34"
  shows "\<exists>ds. itoa v str base m = Inr (str, mput m str ((if v < 0 then 45 # ds else ds) @ [0])) \<and>
    0 \<notin> set ds \<and> 45 \<notin> set ds \<and> length ds \<le> 32 \<and>
    v = (if v < 0 then - int (numeral_value (nat base) ds) else int (numeral_value (nat base) ds))"
proof -
  let ?ds = "numeral_of (nat base) (nat \<bar>v\<bar>)"
  have b: "2 \<le> nat base" "nat base \<le> 36" using assms(3,4) by simp_all
  have len: "length ?ds \<le> 32"
    using rdigits_length [of "nat base" "nat \<bar>v\<bar>" 32] assms(1-3) by (simp add: numeral_of_length)
  have out: "signed_numeral (nat base) v = (if v < 0 then 45 # ?ds else ?ds)" by (simp add: signed_numeral_def)
  have "itoa v str base m = Inr (str, mput m str ((if v < 0 then 45 # ?ds else ?ds) @ [0]))"
    by (rule itoa_ok [OF assms(1-5), unfolded out]) (use len in auto)
  then show ?thesis
    using numeral_of_chars [OF b, of "nat \<bar>v\<bar>"] len numeral_value_of [OF b, of "nat \<bar>v\<bar>"]
    by (intro exI [of _ ?ds]) (auto split: if_splits)
qed

theorem itoa_roundtrip_witness:
  "\<exists>ds. itoa (- 42) 64 10 (mput Map.empty 64 (replicate 34 7)) = Inr (64, mput (mput Map.empty 64 (replicate 34 7)) 64 (45 # ds @ [0])) \<and>
    numeral_value 10 ds = 42"
proof -
  have "writable (mput Map.empty 64 (replicate 34 7)) 64 34"
    by (auto simp: writable_def mput_def unat_of_nat_small)
  then show ?thesis using itoa_roundtrip [of "- 42" 10 "mput Map.empty 64 (replicate 34 7)" 64] by auto
qed

text \<open>
  At the least number the negation wraps, the remainders are negative and the characters are no
  digits: the last one is an O.
\<close>

lemma itoa_least_digit: "sneg 32 (- (2 ^ 31)) = - (2 ^ 31) \<and> nchar (of_int (sneg 32 (- (2 ^ 31)) smod 10)) = 79"
  by (simp add: sneg_def nchar_def signed_modulo_int_def signed_divide_int_def)

lemma length_err_messages: "length err_messages = 137"
  by (simp add: err_messages_def)

text \<open>
  \<^verbatim>\<open>strerror\<close> returns the entry of the table for the 137 codes it lists and the default text from 1096
  on, but reads behind the end of the table for the codes in between, because its guard compares
  with the size of the table in bytes.
\<close>

theorem strerror_range:
  "(unat err < 137 \<longrightarrow> strerror err = Inr (err_messages ! unat err)) \<and>
   (137 \<le> unat err \<and> unat err < 1096 \<longrightarrow> strerror err = Inl (Mem_Fault ''array index'')) \<and>
   (1096 \<le> unat err \<longrightarrow> strerror err = Inr ''Unknown error'')"
  by (simp add: strerror_def rd_def length_err_messages)

theorem strerror_range_witness:
  "strerror 2 = Inr ''no such file or directory'' \<and> (\<exists>t. strerror 200 = Inl (Mem_Fault t)) \<and> strerror 5000 = Inr ''Unknown error''"
proof -
  have "err_messages ! 2 = ''no such file or directory''" by (simp add: err_messages_def)
  then show ?thesis using strerror_range [of 2] strerror_range [of 200] strerror_range [of 5000] by simp
qed

end
