(* ===== verification/Userstack.thy ===== *)
theory Userstack
  imports Processes Cstring
begin

text \<open>
  The user stacks of a process, \<^verbatim>\<open>sched/userstack.c\<close>. Stacks are slots of 32 MiB, each below a gap of the same
  size, counted downwards from the end of the user address space. A slot gets its pages one by one
  in the page fault handler and loses all of them when its task is deleted.
\<close>

definition STACK_SIZE :: u64 where "STACK_SIZE = 32 * 1024 * 1024"

section \<open>Operations\<close>

fun find_unallocated :: "u64 list \<Rightarrow> 'a pstate_scheme \<Rightarrow> u64 option result" where
  "find_unallocated [] s = Inr None"
| "find_unallocated (a # as) s =
     rbind (stack_at a s) (\<lambda>stack. if \<not> stk_allocated stack then Inr (Some a) else find_unallocated as s)"

definition stack_start_page :: "u64 \<Rightarrow> u64" where
  "stack_start_page index = drop_bit PAGE_SHIFT USER_BREAK - 2 * (index + 1) * (STACK_SIZE div PAGE_SIZE)"

text \<open>\<^verbatim>\<open>sizeof(userstack_t)\<close> is 48.\<close>

definition create_stack :: "u64 \<Rightarrow> 'a pstate_scheme \<Rightarrow> (u64 \<times> 'a pstate_scheme) result" where
  "create_stack p s =
     rbind (proc_lock stack_list_lock stack_list_lock_update p s) (\<lambda>s.
     rbind (proc_at p s) (\<lambda>proc.
     rbind (find_unallocated (stack_list proc) s) (\<lambda>found.
     case found of
       Some a \<Rightarrow>
         rbind (stack_at a s) (\<lambda>stack.
         rbind (proc_unlock stack_list_lock stack_list_lock_update p (stack_set a (stack\<lparr>stk_allocated := True\<rparr>) s)) (\<lambda>s.
         Inr (a, s)))
     | None \<Rightarrow>
         let index = of_nat (length (stack_list proc));
             page_count = STACK_SIZE div PAGE_SIZE;
             start_page = stack_start_page index in
         rbind (kmalloc 48 27 0 s) (\<lambda>(a, s).
         let s = stack_set a \<lparr>stk_index = index, stk_start_page = start_page, stk_page_count = page_count,
                   stk_stack_ptr = push_bit PAGE_SHIFT (start_page + drop_bit PAGE_SHIFT STACK_SIZE),
                   stk_allocated = True, stk_pages_mapped = 0\<rparr> s;
             s = proc_set p (proc\<lparr>stack_list := stack_list proc @ [a]\<rparr>) s in
         rbind (proc_unlock stack_list_lock stack_list_lock_update p s) (\<lambda>s. Inr (a, s))))))"

fun find_stack :: "u64 list \<Rightarrow> u64 \<Rightarrow> 'a pstate_scheme \<Rightarrow> u64 option result" where
  "find_stack [] virt_page s = Inr None"
| "find_stack (a # as) virt_page s =
     rbind (stack_at a s) (\<lambda>stack.
     if stk_allocated stack \<and> virt_page \<ge> stk_start_page stack \<and>
        virt_page < stk_start_page stack + stk_page_count stack then Inr (Some a)
     else find_stack as virt_page s)"

definition stack_load :: "u64 \<Rightarrow> u64 \<Rightarrow> 'a pstate_scheme \<Rightarrow> (int \<times> 'a pstate_scheme) result" where
  "stack_load p virt_page s =
     rbind (proc_lock stack_list_lock stack_list_lock_update p s) (\<lambda>s.
     rbind (proc_at p s) (\<lambda>proc.
     rbind (find_stack (stack_list proc) virt_page s) (\<lambda>found.
     rbind (case found of
              None \<Rightarrow> Inr (- ENOENT, s)
            | Some a \<Rightarrow>
                rbind (map_fresh (proc_vspace proc) (PG_NOEXEC OR PG_USER OR PG_WRITE) virt_page s) (\<lambda>s.
                rbind (stack_at a s) (\<lambda>stack.
                Inr (SUCCESS, stack_set a (stack\<lparr>stk_pages_mapped := stk_pages_mapped stack + 1\<rparr>) s)))) (\<lambda>(ret, s).
     rbind (proc_unlock stack_list_lock stack_list_lock_update p s) (\<lambda>s. Inr (ret, s))))))"

text \<open>
  The loop runs until as many pages have been unmapped as were counted. After all page
  numbers have been visited without that, it goes on forever.
\<close>

fun unmap_stack :: "nat \<Rightarrow> vspace_ref \<Rightarrow> u64 \<Rightarrow> u64 \<Rightarrow> 'a vmstate_scheme \<Rightarrow> 'a vmstate_scheme result" where
  "unmap_stack 0 r end_page pages_mapped s = Inl Diverges"
| "unmap_stack (Suc n) r end_page pages_mapped s =
     (if pages_mapped = 0 then Inr s
      else rbind (vspace_unmap r end_page s) (\<lambda>(unmapped, s).
        unmap_stack n r (end_page - 1) (if unmapped then pages_mapped - 1 else pages_mapped) s))"

text \<open>Removing the stacks at the back of the list that are not allocated, the last one first.\<close>

fun drop_unallocated :: "u64 list \<Rightarrow> 'a pstate_scheme \<Rightarrow> u64 list result" where
  "drop_unallocated [] s = Inr []"
| "drop_unallocated (a # as) s =
     rbind (stack_at a s) (\<lambda>last_stack. if stk_allocated last_stack then Inr (a # as) else drop_unallocated as s)"

definition delete_stack :: "u64 \<Rightarrow> u64 \<Rightarrow> 'a pstate_scheme \<Rightarrow> 'a pstate_scheme result" where
  "delete_stack p index s =
     rbind (proc_lock stack_list_lock stack_list_lock_update p s) (\<lambda>s.
     rbind (proc_at p s) (\<lambda>proc.
     rbind (kassert (unat index < length (stack_list proc)) ''stack index invalid or not allocated'') (\<lambda>_.
     let a = stack_list proc ! unat index in
     rbind (stack_at a s) (\<lambda>stack.
     rbind (kassert (stk_allocated stack) ''stack index invalid or not allocated'') (\<lambda>_.
     let s = stack_set a (stack\<lparr>stk_allocated := False\<rparr>) s;
         end_page = stk_start_page stack + stk_page_count stack - 1 in
     rbind (unmap_stack address_fuel (proc_vspace proc) end_page (stk_pages_mapped stack) s) (\<lambda>s.
     let s = stack_set a (stack\<lparr>stk_allocated := False, stk_pages_mapped := 0\<rparr>) s in
     rbind (drop_unallocated (rev (stack_list proc)) s) (\<lambda>kept.
     proc_unlock stack_list_lock stack_list_lock_update p
       (proc_set p (proc\<lparr>stack_list := rev kept\<rparr>) s))))))))"

section \<open>The layout of the stacks\<close>

lemma stack_pages: "STACK_SIZE div PAGE_SIZE = 8192" and stack_pages_shift: "drop_bit PAGE_SHIFT STACK_SIZE = 8192"
  by (simp_all add: STACK_SIZE_def PAGE_SIZE_def PAGE_SHIFT_def)

text \<open>Two million slots fit below the end of the user address space.\<close>

lemma unat_stack_start:
  assumes "i < 2097152"
  shows "unat (stack_start_page (of_nat i)) = 34359738368 - 16384 * (i + 1)"
proof -
  have b: "drop_bit PAGE_SHIFT USER_BREAK = (34359738368 :: u64)" by (simp add: PAGE_SHIFT_def USER_BREAK_def)
  define w :: u64 where "w = of_nat (16384 * (i + 1))"
  have w: "unat w = 16384 * (i + 1)" unfolding w_def using assms by (intro unat_of_nat_small) simp
  have "2 * (of_nat i + 1) * (STACK_SIZE div PAGE_SIZE) = w" by (simp add: stack_pages w_def)
  then have "stack_start_page (of_nat i) = 34359738368 - w" by (simp add: stack_start_page_def b)
  moreover have "w \<le> 34359738368" using assms by (simp add: word_le_nat_alt w)
  ultimately show ?thesis by (simp add: unat_sub w)
qed

definition stack_slot :: "nat \<Rightarrow> nat set" where
  "stack_slot i = {34359738368 - 16384 * (i + 1)..<34359738368 - 16384 * (i + 1) + 8192}"

text \<open>Different slots are at least a whole slot apart, and there is one above the first.\<close>

lemma stack_slot_gap:
  assumes "i < 2097152" "j < 2097152" "i < j" "x \<in> stack_slot i" "y \<in> stack_slot j"
  shows "y + 8192 < x"
  using assms by (auto simp: stack_slot_def)

lemma stack_slot_disjoint: "i < 2097152 \<Longrightarrow> j < 2097152 \<Longrightarrow> i \<noteq> j \<Longrightarrow> stack_slot i \<inter> stack_slot j = {}"
  using stack_slot_gap [of i j] stack_slot_gap [of j i] by (cases "i < j") fastforce+

definition slot_of :: "nat \<Rightarrow> nat \<Rightarrow> userstack_t \<Rightarrow> bool" where
  "slot_of i n st \<longleftrightarrow>
     stk_index st = of_nat i \<and> stk_start_page st = stack_start_page (of_nat i) \<and> stk_page_count st = 8192 \<and>
     stk_stack_ptr st = push_bit PAGE_SHIFT (stack_start_page (of_nat i) + 8192) \<and> stk_pages_mapped st = of_nat n"

text \<open>
  The stacks of a process: the object at position \<open>i\<close> of the list describes slot \<open>i\<close> and counts the pages
  that are mapped there; a slot that is not allocated has none. The last slot is allocated.
\<close>

definition mapped_in :: "vspace_ref \<Rightarrow> 'a vmstate_scheme \<Rightarrow> nat set \<Rightarrow> nat set" where
  "mapped_in r s P = {x \<in> P. vspace_mapping r s (of_nat x) \<noteq> None}"

text \<open>
  Bounds the number of slots, so that the slots do not reach down to the program and its heap:
  4096 slots take the upper 256 GiB of the lower half.
\<close>

abbreviation (input) stack_limit :: nat where
  "stack_limit \<equiv> 4096"

definition stack_ok :: "vspace_ref \<Rightarrow> 'a pstate_scheme \<Rightarrow> nat \<Rightarrow> u64 \<Rightarrow> bool" where
  "stack_ok r s i a \<longleftrightarrow>
     (\<exists>st l. userstacks s a = Some st \<and> (unat a, l) \<in> heap_live s \<and>
       slot_of i (card (mapped_in r s (stack_slot i))) st \<and>
       (\<not> stk_allocated st \<longrightarrow> mapped_in r s (stack_slot i) = {}))"

definition stacks_inv :: "u64 \<Rightarrow> 'a pstate_scheme \<Rightarrow> bool" where
  "stacks_inv p s \<longleftrightarrow>
     (\<exists>proc. procs s p = Some proc \<and> mutex_idle (stack_list_lock proc) \<and> distinct (stack_list proc) \<and>
       length (stack_list proc) \<le> stack_limit \<and> user_space_inv (proc_vspace proc) s \<and>
       (\<forall>i<length (stack_list proc). stack_ok (proc_vspace proc) s i (stack_list proc ! i)) \<and>
       (\<forall>i < stack_limit. length (stack_list proc) \<le> i \<longrightarrow> mapped_in (proc_vspace proc) s (stack_slot i) = {}))"

section \<open>Locks of a process\<close>

lemma proc_lock_idle:
  assumes "procs s p = Some x" and "mutex_idle (get x)"
  shows "proc_lock get upd p s = Inr (s\<lparr>procs := (procs s)(p \<mapsto> upd (\<lambda>_. mutex_taken (get x) s) x)\<rparr>)"
  using assms by (simp add: proc_lock_def proc_defs)

lemma proc_unlock_taken:
  assumes "procs s' p = Some y" and "get y = mutex_taken m s" and "mutex_idle m" and "current_task s' = current_task s"
  shows "proc_unlock get upd p s' = Inr (s'\<lparr>procs := (procs s')(p \<mapsto> upd (\<lambda>_. m) y)\<rparr>)"
  using assms by (simp add: proc_unlock_def proc_defs)

section \<open>Unmapping a slot\<close>

lemma mapped_in_sub: "finite P \<Longrightarrow> finite (mapped_in r s P)" "mapped_in r s P \<subseteq> P"
  by (auto simp: mapped_in_def)

lemma unmap_stack_ok:
  assumes "user_space_inv r s" and "lo + k \<le> 34359738368" and "k < fuel" and "n = card (mapped_in r s {lo..<lo + k})"
  shows "\<exists>s'. unmap_stack fuel r (of_nat (lo + k) - 1) (of_nat n) s = Inr s' \<and> user_space_inv r s' \<and> vm_frame s s' \<and>
    heap_live s' = heap_live s \<and> free_frames s \<le> free_frames s' \<and>
    (\<forall>y. user_page y \<longrightarrow> vspace_mapping r s' (of_nat y) = (if y \<in> {lo..<lo + k} then None else vspace_mapping r s (of_nat y)))"
  using assms
proof (induction k arbitrary: fuel s n)
  case 0
  then show ?case by (cases fuel) (auto simp: mapped_in_def vm_frame_refl)
next
  case (Suc k)
  obtain f where fuel: "fuel = Suc f" using Suc.prems(3) by (cases fuel) auto
  let ?x = "lo + k"
  have x: "user_page ?x" using Suc.prems(2) by simp
  have range: "{lo..<lo + Suc k} = insert ?x {lo..<lo + k}" by auto
  have n64: "n < 2 ^ 64"
  proof -
    have "n \<le> card {lo..<lo + Suc k}" unfolding Suc.prems(4) by (intro card_mono mapped_in_sub) simp_all
    then show ?thesis using Suc.prems(2) by simp
  qed
  show ?case
  proof (cases "n = 0")
    case True
    have "finite (mapped_in r s {lo..<lo + Suc k})" by (rule mapped_in_sub) simp
    then have none: "mapped_in r s {lo..<lo + Suc k} = {}" using Suc.prems(4) True card_0_eq by metis
    then show ?thesis using Suc.prems(1) fuel True by (auto simp: mapped_in_def vm_frame_refl)
  next
    case False
    then have nz: "(of_nat n :: u64) \<noteq> 0" using n64 of_nat_eq_iff_small [where 'a = 64, of n 0] by simp
    have px: "of_nat (lo + Suc k) - 1 = (of_nat ?x :: u64)" by simp
    let ?b = "vspace_mapping r s (of_nat ?x) \<noteq> None"
    show ?thesis
    proof (rule user_unmap [OF Suc.prems(1) x], goal_cases)
      case (1 s1)
      have rest: "vspace_mapping r s1 (of_nat y) = vspace_mapping r s (of_nat y)" if "y \<in> {lo..<lo + k}" for y
        using 1(7) that x by simp
      have m1: "mapped_in r s1 {lo..<lo + k} = mapped_in r s {lo..<lo + k}" using rest by (auto simp: mapped_in_def)
      have "mapped_in r s {lo..<lo + Suc k} = (if ?b then insert ?x (mapped_in r s {lo..<lo + k}) else mapped_in r s {lo..<lo + k})"
        unfolding range by (auto simp: mapped_in_def simp del: of_nat_add)
      then have cnt: "n = card (mapped_in r s1 {lo..<lo + k}) + (if ?b then 1 else 0)"
        unfolding Suc.prems(4) m1 using mapped_in_sub(1) [of "{lo..<lo + k}" r s] mapped_in_sub(2) [of r s "{lo..<lo + k}"] by (auto simp: card_insert_if subset_iff)
      have cw: "(if ?b then of_nat n - 1 else of_nat n) = (of_nat (card (mapped_in r s1 {lo..<lo + k})) :: u64)"
        unfolding cnt by simp
      have "lo + k \<le> 34359738368" "k < f" using Suc.prems(2,3) fuel by simp_all
      from Suc.IH [OF 1(2) this refl] obtain s' where
        s': "unmap_stack f r (of_nat (lo + k) - 1) (of_nat (card (mapped_in r s1 {lo..<lo + k}))) s1 = Inr s'"
          "user_space_inv r s'" "vm_frame s1 s'" "heap_live s' = heap_live s1" "free_frames s1 \<le> free_frames s'"
          "\<forall>y. user_page y \<longrightarrow> vspace_mapping r s' (of_nat y) = (if y \<in> {lo..<lo + k} then None else vspace_mapping r s1 (of_nat y))"
        by blast
      have "unmap_stack fuel r (of_nat (lo + Suc k) - 1) (of_nat n) s = Inr s'"
        unfolding fuel px using 1(1) s'(1) cw nz by (simp only: unmap_stack.simps if_False rbind_Inr prod.case)
      moreover have "vspace_mapping r s' (of_nat y) = (if y \<in> {lo..<lo + Suc k} then None else vspace_mapping r s (of_nat y))"
        if "user_page y" for y
        using s'(6) 1(6,7) that range by (cases "y = ?x") auto
      ultimately show ?case using s' 1(3-5) vm_frame_trans by (intro exI [of _ s']) (auto intro: vm_frame_trans)
    qed
  qed
qed

section \<open>Slots\<close>

lemma stack_slot_user: "i < stack_limit \<Longrightarrow> x \<in> stack_slot i \<Longrightarrow> user_page x"
  by (auto simp: stack_slot_def)

lemma stack_range:
  assumes "i < stack_limit" and "user_page x"
  shows "of_nat x \<ge> stack_start_page (of_nat i) \<and> of_nat x < stack_start_page (of_nat i) + 8192 \<longleftrightarrow> x \<in> stack_slot i"
proof -
  have u: "unat (of_nat x :: u64) = x" using assms(2) by (intro unat_of_nat_small) simp
  have s: "unat (stack_start_page (of_nat i)) = 34359738368 - 16384 * (i + 1)" using assms(1) by (intro unat_stack_start) simp
  have "unat (stack_start_page (of_nat i) + 8192) = 34359738368 - 16384 * (i + 1) + 8192"
    using assms(1) s by (subst unat_add_no_wrap) simp_all
  then show ?thesis by (auto simp: word_le_nat_alt word_less_nat_alt u s stack_slot_def)
qed

lemma find_stack_ok:
  assumes "\<forall>k<length as. stack_ok r s (j + k) (as ! k)" and "j + length as \<le> stack_limit" and "user_page x"
  shows "find_stack as (of_nat x) s =
    Inr (map_option (\<lambda>k. as ! k) (find (\<lambda>k. stk_allocated (the (userstacks s (as ! k))) \<and> x \<in> stack_slot (j + k)) [0..<length as]))"
  using assms(1,2)
proof (induction as arbitrary: j)
  case (Cons a as)
  have "stack_ok r s j a" using Cons.prems(1) by (elim allE [of _ 0]) simp
  then obtain st where st: "userstacks s a = Some st" "stk_start_page st = stack_start_page (of_nat j)" "stk_page_count st = 8192"
    by (auto simp: stack_ok_def slot_of_def)
  have r: "of_nat x \<ge> stk_start_page st \<and> of_nat x < stk_start_page st + stk_page_count st \<longleftrightarrow> x \<in> stack_slot j"
    unfolding st(2,3) using Cons.prems(2) assms(3) by (intro stack_range) simp_all
  have tl: "\<forall>k<length as. stack_ok r s (Suc j + k) (as ! k)"
  proof (intro allI impI)
    fix k assume "k < length as"
    then show "stack_ok r s (Suc j + k) (as ! k)" using Cons.prems(1) [rule_format, of "Suc k"] by simp
  qed
  have up: "[0..<length (a # as)] = 0 # map Suc [0..<length as]" by (simp add: upt_conv_Cons map_Suc_upt del: upt_Suc)
  have fm: "find P (map Suc ks) = map_option Suc (find (\<lambda>k. P (Suc k)) ks)" for P ks by (induction ks) auto
  show ?case
  proof (cases "stk_allocated st \<and> x \<in> stack_slot j")
    case True
    then show ?thesis unfolding up using st(1) r by (simp add: stack_at_def)
  next
    case False
    then have "find_stack (a # as) (of_nat x) s = find_stack as (of_nat x) s" using st(1) r by (auto simp: stack_at_def)
    moreover have "\<not> (stk_allocated (the (userstacks s ((a # as) ! 0))) \<and> x \<in> stack_slot (j + 0))" using False st(1) by simp
    ultimately show ?thesis unfolding up using Cons.IH [OF tl] Cons.prems(2)
      by (auto simp: fm option.map_comp comp_def simp del: find_stack.simps)
  qed
qed simp

section \<open>Loading a stack page\<close>

lemma user_space_update [simp]:
  "user_space_inv r (s\<lparr>procs := x\<rparr>) = user_space_inv r s" "user_space_inv r (s\<lparr>userstacks := y\<rparr>) = user_space_inv r s"
  "user_space_inv r (s\<lparr>loaders := z\<rparr>) = user_space_inv r s" "user_space_inv r (s\<lparr>elf_headers := v\<rparr>) = user_space_inv r s"
  "user_space_inv r (s\<lparr>phts := w\<rparr>) = user_space_inv r s"
  "mapped_in r (s\<lparr>procs := x\<rparr>) P = mapped_in r s P" "mapped_in r (s\<lparr>userstacks := y\<rparr>) P = mapped_in r s P"
  by (simp_all add: user_space_inv_def mapped_in_def vspace_disjoint_def vspace_owns_def vspace_root_def)

lemma find_procs [simp]:
  "find_stack as v (s\<lparr>procs := x\<rparr>) = find_stack as v s"
  "find_unallocated as (s\<lparr>procs := x\<rparr>) = find_unallocated as s"
  "drop_unallocated as (s\<lparr>procs := x\<rparr>) = drop_unallocated as s"
  "stack_at a (s\<lparr>procs := x\<rparr>) = stack_at a s"
  by (induction as) (simp_all add: stack_at_def cong: if_cong)

text \<open>A stack keeps its description when neither its object nor its slot changes.\<close>

lemma stack_ok_keep:
  assumes "stack_ok r s i a" and "userstacks s' a = userstacks s a" and "heap_live s \<subseteq> heap_live s'"
    and "mapped_in r s' (stack_slot i) = mapped_in r s (stack_slot i)"
  shows "stack_ok r s' i a"
  using assms unfolding stack_ok_def by (metis subsetD)

lemma mapped_in_same:
  assumes "\<forall>y\<in>P. vspace_mapping r s' (of_nat y) = vspace_mapping r s (of_nat y)"
  shows "mapped_in r s' P = mapped_in r s P"
  using assms by (auto simp: mapped_in_def)

lemma mapped_in_insert:
  assumes "\<forall>y\<in>P. y \<noteq> x \<longrightarrow> vspace_mapping r s' (of_nat y) = vspace_mapping r s (of_nat y)"
    and "x \<in> P" and "vspace_mapping r s' (of_nat x) \<noteq> None"
  shows "mapped_in r s' P = insert x (mapped_in r s P)"
proof (rule set_eqI)
  fix y show "y \<in> mapped_in r s' P \<longleftrightarrow> y \<in> insert x (mapped_in r s P)"
    using assms by (cases "y = x") (auto simp: mapped_in_def)
qed

lemma find_Some_least: "find P [0..<n] = Some k \<longleftrightarrow> k < n \<and> P k \<and> (\<forall>j<k. \<not> P j)"
  by (auto simp: find_Some_iff)

text \<open>The stack that a page belongs to.\<close>

definition stack_of_page :: "proc_t \<Rightarrow> 'a pstate_scheme \<Rightarrow> nat \<Rightarrow> nat \<Rightarrow> bool" where
  "stack_of_page proc s x i \<longleftrightarrow> i < length (stack_list proc) \<and> x \<in> stack_slot i \<and>
     stk_allocated (the (userstacks s (stack_list proc ! i)))"

lemma find_stack_page:
  assumes inv: "stacks_inv p s" and proc: "procs s p = Some proc" and x: "user_page x"
  shows "find_stack (stack_list proc) (of_nat x) s =
    Inr (if \<exists>i. stack_of_page proc s x i then Some (stack_list proc ! (THE i. stack_of_page proc s x i)) else None)"
proof -
  have ok: "\<forall>k<length (stack_list proc). stack_ok (proc_vspace proc) s (0 + k) (stack_list proc ! k)"
    and len: "0 + length (stack_list proc) \<le> stack_limit" using inv proc by (auto simp: stacks_inv_def)
  let ?P = "\<lambda>k. stk_allocated (the (userstacks s (stack_list proc ! k))) \<and> x \<in> stack_slot (0 + k)"
  have uniq: "i = j" if "stack_of_page proc s x i" "stack_of_page proc s x j" for i j
  proof (rule ccontr)
    assume "i \<noteq> j"
    then have "stack_slot i \<inter> stack_slot j = {}" using that len by (intro stack_slot_disjoint) (auto simp: stack_of_page_def)
    then show False using that by (auto simp: stack_of_page_def)
  qed
  show ?thesis
  proof (cases "\<exists>i. stack_of_page proc s x i")
    case True
    then obtain i where i: "stack_of_page proc s x i" by blast
    have "find ?P [0..<length (stack_list proc)] = Some i"
      unfolding find_Some_least
    proof (intro conjI allI impI)
      fix j assume "j < i"
      show "\<not> ?P j"
      proof
        assume "?P j"
        then have "stack_of_page proc s x j" using \<open>j < i\<close> i by (simp add: stack_of_page_def)
        then show False using uniq [OF i] \<open>j < i\<close> by blast
      qed
    qed (use i in \<open>simp_all add: stack_of_page_def\<close>)
    moreover have "(THE i. stack_of_page proc s x i) = i" using i uniq by blast
    ultimately show ?thesis using find_stack_ok [OF ok len x] True by simp
  next
    case False
    then have "find ?P [0..<length (stack_list proc)] = None" by (auto simp: find_None_iff stack_of_page_def)
    then show ?thesis using find_stack_ok [OF ok len x] False by simp
  qed
qed

abbreviation stack_flags :: u64 where
  "stack_flags \<equiv> PG_NOEXEC OR PG_USER OR PG_WRITE"

lemma stack_load_none:
  assumes inv: "stacks_inv p s" and proc: "procs s p = Some proc" and x: "user_page x"
    and none: "\<nexists>i. stack_of_page proc s x i"
  shows "stack_load p (of_nat x) s = Inr (- ENOENT, s)"
proof -
  have lock: "mutex_idle (stack_list_lock proc)" using inv proc by (simp add: stacks_inv_def)
  define s1 where "s1 = s\<lparr>procs := (procs s)(p \<mapsto> proc\<lparr>stack_list_lock := mutex_taken (stack_list_lock proc) s\<rparr>)\<rparr>"
  have "find_stack as (of_nat x) s1 = find_stack as (of_nat x) s" for as by (simp add: s1_def)
  then have "find_stack (stack_list proc) (of_nat x) s1 = Inr None"
    using find_stack_page [OF inv proc x] none by auto
  moreover have "proc_unlock stack_list_lock stack_list_lock_update p s1 = Inr s"
    using proc_unlock_taken [of s1 p _ stack_list_lock s "stack_list_lock proc"] lock proc by (simp add: s1_def fun_upd_idem)
  ultimately show ?thesis
    using proc_lock_idle [of s p proc stack_list_lock stack_list_lock_update] lock proc
    by (simp add: stack_load_def proc_at_def s1_def)
qed

lemma stack_load_step:
  assumes inv: "stacks_inv p s" and proc: "procs s p = Some proc" and x: "user_page x"
    and i: "stack_of_page proc s x i" and space: "4 \<le> free_frames s"
  obtains s' f where "stack_load p (of_nat x) s = Inr (SUCCESS, s')" and "procs s' = procs s"
    and "user_space_inv (proc_vspace proc) s'" and "heap_live s' = heap_live s"
    and "userstacks s' = (userstacks s)(stack_list proc ! i := map_option (\<lambda>st. st\<lparr>stk_pages_mapped := stk_pages_mapped st + 1\<rparr>)
      (userstacks s (stack_list proc ! i)))"
    and "if vspace_mapping (proc_vspace proc) s (of_nat x) = None
      then \<exists>e. vspace_mapping (proc_vspace proc) s' (of_nat x) = Some (leaf_entry f stack_flags e)
      else vspace_mapping (proc_vspace proc) s' (of_nat x) = vspace_mapping (proc_vspace proc) s (of_nat x)"
    and "unat f \<notin> pg_used s" and "unat f < 2 ^ 35" and "\<forall>i. phys s' f i = 0"
    and "\<forall>y. user_page y \<longrightarrow> y \<noteq> x \<longrightarrow> vspace_mapping (proc_vspace proc) s' (of_nat y) = vspace_mapping (proc_vspace proc) s (of_nat y)"
    and "free_frames s \<le> free_frames s' + 4"
proof -
  let ?r = "proc_vspace proc" and ?L = "stack_list proc"
  let ?a = "?L ! i"
  have lock: "mutex_idle (stack_list_lock proc)" and us: "user_space_inv ?r s" and len: "length ?L \<le> stack_limit"
    and ok: "\<forall>j<length ?L. stack_ok ?r s j (?L ! j)"
    using inv proc by (auto simp: stacks_inv_def)
  have il: "i < length ?L" "x \<in> stack_slot i" using i by (simp_all add: stack_of_page_def)
  define s1 where "s1 = s\<lparr>procs := (procs s)(p \<mapsto> proc\<lparr>stack_list_lock := mutex_taken (stack_list_lock proc) s\<rparr>)\<rparr>"
  have "find_stack as (of_nat x) s1 = find_stack as (of_nat x) s" for as by (simp add: s1_def)
  moreover have "(THE i. stack_of_page proc s x i) = i"
  proof (rule the_equality)
    fix j assume "stack_of_page proc s x j"
    then show "j = i" using i stack_slot_disjoint [of i j] len by (cases "i = j") (auto simp: stack_of_page_def)
  qed (rule i)
  ultimately have find: "find_stack ?L (of_nat x) s1 = Inr (Some ?a)"
    using find_stack_page [OF inv proc x] i by auto
  obtain st where st: "userstacks s ?a = Some st" using ok il by (fastforce simp: stack_ok_def)
  have us1: "user_space_inv ?r s1" and sp1: "4 \<le> free_frames s1" using us space by (simp_all add: s1_def)
  show ?thesis
  proof (rule user_map_fresh [OF us1 x sp1, of stack_flags], goal_cases)
    case (1 s2 f)
    note fr = vm_frame_procs [OF 1(3)]
    let ?st = "st\<lparr>stk_pages_mapped := stk_pages_mapped st + 1\<rparr>"
    define s3 where "s3 = s2\<lparr>userstacks := (userstacks s2)(?a \<mapsto> ?st)\<rparr>"
    define s' where "s' = s3\<lparr>procs := procs s\<rparr>"
    have unlock: "proc_unlock stack_list_lock stack_list_lock_update p s3 = Inr s'"
      using proc_unlock_taken [of s3 p _ stack_list_lock s "stack_list_lock proc"] lock proc fr(1,4)
      by (simp add: s3_def s'_def s1_def fun_upd_idem)
    have run: "stack_load p (of_nat x) s = Inr (SUCCESS, s')"
      using proc_lock_idle [of s p proc stack_list_lock stack_list_lock_update] lock proc find 1(1) fr(2) st unlock
      by (simp add: stack_load_def proc_at_def stack_at_def stack_set_def s3_def s1_def)
    show ?case
      by (rule that [OF run, of f]) (use 1 st fr in \<open>simp_all add: s'_def s3_def s1_def\<close>)
  qed
qed

lemma stack_load_found:
  assumes inv: "stacks_inv p s" and proc: "procs s p = Some proc" and x: "user_page x"
    and i: "stack_of_page proc s x i" and space: "4 \<le> free_frames s"
    and fresh: "vspace_mapping (proc_vspace proc) s (of_nat x) = None"
  obtains s' f e where "stack_load p (of_nat x) s = Inr (SUCCESS, s')" and "stacks_inv p s'" and "procs s' = procs s"
    and "vspace_mapping (proc_vspace proc) s' (of_nat x) = Some (leaf_entry f stack_flags e)"
    and "unat f \<notin> pg_used s" and "unat f < 2 ^ 35" and "\<forall>i. phys s' f i = 0"
    and "\<forall>y. user_page y \<longrightarrow> y \<noteq> x \<longrightarrow> vspace_mapping (proc_vspace proc) s' (of_nat y) = vspace_mapping (proc_vspace proc) s (of_nat y)"
    and "free_frames s \<le> free_frames s' + 4"
proof (rule stack_load_step [OF assms(1-5)], goal_cases)
  case (1 s' f)
  note F = 1(2-)
  let ?r = "proc_vspace proc" and ?L = "stack_list proc"
  let ?a = "?L ! i"
  have lock: "mutex_idle (stack_list_lock proc)" and dist: "distinct ?L" and len: "length ?L \<le> stack_limit"
    and ok: "\<forall>j<length ?L. stack_ok ?r s j (?L ! j)"
    and free: "\<forall>j < stack_limit. length ?L \<le> j \<longrightarrow> mapped_in ?r s (stack_slot j) = {}"
    using inv proc by (auto simp: stacks_inv_def)
  have il: "i < length ?L" "x \<in> stack_slot i" using i by (simp_all add: stack_of_page_def)
  obtain st lv where st: "userstacks s ?a = Some st" "slot_of i (card (mapped_in ?r s (stack_slot i))) st" "stk_allocated st"
    and lv: "(unat ?a, lv) \<in> heap_live s"
    using ok il i by (fastforce simp: stack_ok_def stack_of_page_def)
  let ?st = "st\<lparr>stk_pages_mapped := stk_pages_mapped st + 1\<rparr>"
  obtain e where e: "vspace_mapping ?r s' (of_nat x) = Some (leaf_entry f stack_flags e)" using F(6) fresh by auto
  note other = F(10) and hl = F(4)
  have us': "userstacks s' = (userstacks s)(?a \<mapsto> ?st)" using F(5) st(1) by simp
  have rest: "mapped_in ?r s' (stack_slot j) = mapped_in ?r s (stack_slot j)" if "j \<noteq> i" "j < stack_limit" for j
  proof (rule mapped_in_same, rule ballI)
    fix y assume y: "y \<in> stack_slot j"
    then have "y \<noteq> x" using stack_slot_disjoint [of i j] il len that by auto
    then show "vspace_mapping ?r s' (of_nat y) = vspace_mapping ?r s (of_nat y)"
      using other stack_slot_user [OF that(2) y] by blast
  qed
  have here: "mapped_in ?r s' (stack_slot i) = insert x (mapped_in ?r s (stack_slot i))"
    using other stack_slot_user [of i] il len e by (intro mapped_in_insert) auto
  have "x \<notin> mapped_in ?r s (stack_slot i)" using fresh by (simp add: mapped_in_def)
  moreover have "finite (mapped_in ?r s (stack_slot i))" by (rule mapped_in_sub) (simp add: stack_slot_def)
  ultimately have "card (mapped_in ?r s' (stack_slot i)) = Suc (card (mapped_in ?r s (stack_slot i)))" by (simp add: here)
  then have ok_i: "stack_ok ?r s' i ?a"
    unfolding stack_ok_def using st lv hl us'
    by (intro exI [of _ ?st] exI [of _ lv]) (simp add: slot_of_def add.commute)
  have "stack_ok ?r s' j (?L ! j)" if "j < length ?L" for j
  proof (cases "j = i")
    case False
    then have "?L ! j \<noteq> ?a" using dist that il(1) by (simp add: nth_eq_iff_index_eq)
    then show ?thesis
      using stack_ok_keep [of ?r s j "?L ! j" s'] ok that us' rest [OF False] len by (simp add: hl)
  qed (use ok_i in simp)
  moreover have "mapped_in ?r s' (stack_slot j) = {}" if "j < stack_limit" "length ?L \<le> j" for j
    using free rest [of j] that il(1) by simp
  ultimately have "stacks_inv p s'" using proc lock dist len F(2,3) by (simp add: stacks_inv_def)
  then show ?case using that [OF F(1) _ F(2) e F(7,8,9) other F(11)] by blast
qed

section \<open>Creating a stack\<close>

lemma find_unallocated_ok:
  assumes "\<forall>k<length as. \<exists>st. userstacks s (as ! k) = Some st"
  shows "find_unallocated as s =
    Inr (map_option (\<lambda>k. as ! k) (find (\<lambda>k. \<not> stk_allocated (the (userstacks s (as ! k)))) [0..<length as]))"
  using assms
proof (induction as)
  case (Cons a as)
  obtain st where st: "userstacks s a = Some st" using Cons.prems [rule_format, of 0] by auto
  have tl: "\<forall>k<length as. \<exists>st. userstacks s (as ! k) = Some st" using Cons.prems by (metis Suc_less_eq length_Cons nth_Cons_Suc)
  have up: "[0..<length (a # as)] = 0 # map Suc [0..<length as]" by (simp add: upt_conv_Cons map_Suc_upt del: upt_Suc)
  have fm: "find P (map Suc ks) = map_option Suc (find (\<lambda>k. P (Suc k)) ks)" for P ks by (induction ks) auto
  show ?case unfolding up using Cons.IH [OF tl] st by (auto simp: stack_at_def fm option.map_comp comp_def)
qed simp

text \<open>The stacks of a process as the pair of the slot and what is known of it.\<close>

definition stack_allocated :: "proc_t \<Rightarrow> 'a pstate_scheme \<Rightarrow> nat \<Rightarrow> bool" where
  "stack_allocated proc s i \<longleftrightarrow> i < length (stack_list proc) \<and> stk_allocated (the (userstacks s (stack_list proc ! i)))"

lemma create_stack_reuse:
  assumes inv: "stacks_inv p s" and proc: "procs s p = Some proc"
    and i: "i < length (stack_list proc)" "\<not> stack_allocated proc s i" "\<forall>j<i. stack_allocated proc s j"
  obtains s' where "create_stack p s = Inr (stack_list proc ! i, s')" and "stacks_inv p s'" and "procs s' = procs s"
    and "\<forall>j. stack_allocated proc s' j \<longleftrightarrow> stack_allocated proc s j \<or> j = i"
    and "heap_live s' = heap_live s" and "\<forall>v. vspace_mapping (proc_vspace proc) s' v = vspace_mapping (proc_vspace proc) s v"
proof -
  let ?r = "proc_vspace proc" and ?L = "stack_list proc"
  let ?a = "?L ! i"
  have lock: "mutex_idle (stack_list_lock proc)" and us: "user_space_inv ?r s" and dist: "distinct ?L"
    and len: "length ?L \<le> stack_limit"
    and ok: "\<forall>j<length ?L. stack_ok ?r s j (?L ! j)"
    and free: "\<forall>j < stack_limit. length ?L \<le> j \<longrightarrow> mapped_in ?r s (stack_slot j) = {}"
    using inv proc by (auto simp: stacks_inv_def)
  obtain st lv where st: "userstacks s ?a = Some st" "slot_of i (card (mapped_in ?r s (stack_slot i))) st"
    and lv: "(unat ?a, lv) \<in> heap_live s" using ok i(1) by (fastforce simp: stack_ok_def)
  have "\<forall>k<length ?L. \<exists>st. userstacks s (?L ! k) = Some st" using ok by (auto simp: stack_ok_def)
  moreover have "find (\<lambda>k. \<not> stk_allocated (the (userstacks s (?L ! k)))) [0..<length ?L] = Some i"
    unfolding find_Some_least using i by (auto simp: stack_allocated_def)
  ultimately have find: "find_unallocated ?L s = Inr (Some ?a)" using find_unallocated_ok [of ?L s] by simp
  let ?st = "st\<lparr>stk_allocated := True\<rparr>"
  define s' where "s' = s\<lparr>userstacks := (userstacks s)(?a \<mapsto> ?st)\<rparr>"
  define s1 where "s1 = s\<lparr>procs := (procs s)(p \<mapsto> proc\<lparr>stack_list_lock := mutex_taken (stack_list_lock proc) s\<rparr>)\<rparr>"
  have "proc_unlock stack_list_lock stack_list_lock_update p (s1\<lparr>userstacks := (userstacks s)(?a \<mapsto> ?st)\<rparr>) = Inr s'"
    using proc_unlock_taken [of "s1\<lparr>userstacks := (userstacks s)(?a \<mapsto> ?st)\<rparr>" p _ stack_list_lock s "stack_list_lock proc"] lock proc
    by (simp add: s1_def s'_def fun_upd_idem)
  then have run: "create_stack p s = Inr (?a, s')"
    using proc_lock_idle [of s p proc stack_list_lock stack_list_lock_update] lock proc find st(1)
    by (simp add: create_stack_def proc_at_def stack_at_def stack_set_def s1_def)
  have here: "stack_ok ?r s' i ?a"
    unfolding stack_ok_def using st lv by (intro exI [of _ ?st] exI [of _ lv]) (simp add: slot_of_def s'_def)
  have "stack_ok ?r s' j (?L ! j)" if "j < length ?L" for j
  proof (cases "j = i")
    case False
    then have "?L ! j \<noteq> ?a" using dist that i(1) by (simp add: nth_eq_iff_index_eq)
    then show ?thesis using stack_ok_keep [of ?r s j "?L ! j" s'] ok that by (simp add: s'_def)
  qed (use here in simp)
  then have "stacks_inv p s'" using proc lock us dist len free by (simp add: stacks_inv_def s'_def)
  moreover have "\<forall>j. stack_allocated proc s' j \<longleftrightarrow> stack_allocated proc s j \<or> j = i"
    using dist i(1) by (auto simp: stack_allocated_def s'_def nth_eq_iff_index_eq)
  ultimately show ?thesis using that [OF run] by (simp add: s'_def)
qed

lemma create_stack_new:
  assumes inv: "stacks_inv p s" and proc: "procs s p = Some proc"
    and full: "\<forall>j<length (stack_list proc). stack_allocated proc s j"
    and room: "heap_room s 48" and limit: "length (stack_list proc) < stack_limit"
  obtains a s' where "create_stack p s = Inr (a, s')" and "stacks_inv p s'"
    and "procs s' = (procs s)(p \<mapsto> proc\<lparr>stack_list := stack_list proc @ [a]\<rparr>)"
    and "stack_allocated (proc\<lparr>stack_list := stack_list proc @ [a]\<rparr>) s' (length (stack_list proc))"
    and "\<forall>j<length (stack_list proc). stack_allocated (proc\<lparr>stack_list := stack_list proc @ [a]\<rparr>) s' j"
    and "\<forall>y. user_page y \<longrightarrow> vspace_mapping (proc_vspace proc) s' (of_nat y) = vspace_mapping (proc_vspace proc) s (of_nat y)"
    and "free_frames s \<le> free_frames s' + 8"
proof -
  let ?r = "proc_vspace proc" and ?L = "stack_list proc"
  let ?n = "length ?L"
  have lock: "mutex_idle (stack_list_lock proc)" and us: "user_space_inv ?r s" and dist: "distinct ?L"
    and ok: "\<forall>j<length ?L. stack_ok ?r s j (?L ! j)"
    and free: "\<forall>j < stack_limit. length ?L \<le> j \<longrightarrow> mapped_in ?r s (stack_slot j) = {}"
    using inv proc by (auto simp: stacks_inv_def)
  have "\<forall>k<length ?L. \<exists>st. userstacks s (?L ! k) = Some st" using ok by (auto simp: stack_ok_def)
  moreover have "find (\<lambda>k. \<not> stk_allocated (the (userstacks s (?L ! k)))) [0..<length ?L] = None"
    using full by (auto simp: find_None_iff stack_allocated_def)
  ultimately have find: "find_unallocated ?L s = Inr None" using find_unallocated_ok [of ?L s] by simp
  define proc1 where "proc1 = proc\<lparr>stack_list_lock := mutex_taken (stack_list_lock proc) s\<rparr>"
  define s1 where "s1 = s\<lparr>procs := (procs s)(p \<mapsto> proc1)\<rparr>"
  have us1: "user_space_inv ?r s1" "heap_room s1 48" using us room by (simp_all add: s1_def)
  show ?thesis
  proof (rule user_kmalloc [OF us1, of 27 0], goal_cases)
    case (1 a s2 l)
    note more = hstate_more_procs [OF 1(10)]
    let ?st = "\<lparr>stk_index = of_nat ?n, stk_start_page = stack_start_page (of_nat ?n), stk_page_count = 8192,
      stk_stack_ptr = push_bit PAGE_SHIFT (stack_start_page (of_nat ?n) + 8192), stk_allocated = True, stk_pages_mapped = 0\<rparr>"
    define s3 where "s3 = s2\<lparr>userstacks := (userstacks s)(a \<mapsto> ?st), procs := (procs s)(p \<mapsto> proc1\<lparr>stack_list := ?L @ [a]\<rparr>)\<rparr>"
    define s' where "s' = s3\<lparr>procs := (procs s)(p \<mapsto> proc\<lparr>stack_list := ?L @ [a]\<rparr>)\<rparr>"
    have unlock: "proc_unlock stack_list_lock stack_list_lock_update p s3 = Inr s'"
      using proc_unlock_taken [of s3 p _ stack_list_lock s "stack_list_lock proc"] lock 1(9)
      by (simp add: s3_def s'_def proc1_def s1_def)
    have run: "create_stack p s = Inr (a, s')"
      using proc_lock_idle [of s p proc stack_list_lock stack_list_lock_update] lock proc find 1(1) more unlock
      by (simp add: create_stack_def proc_at_def proc_set_def stack_set_def s3_def s1_def proc1_def stack_pages stack_pages_shift Let_def)
    have live: "\<forall>l. (unat a, l) \<notin> heap_live s" "heap_live s' = insert (unat a, l) (heap_live s)"
      using 1(5,6) by (simp_all add: s'_def s3_def s1_def)
    have new: "a \<notin> set ?L"
    proof
      assume "a \<in> set ?L"
      then obtain k where "k < length ?L" "a = ?L ! k" by (auto simp: in_set_conv_nth)
      then show False using ok live(1) by (auto simp: stack_ok_def)
    qed
    have same: "\<forall>y. user_page y \<longrightarrow> vspace_mapping ?r s' (of_nat y) = vspace_mapping ?r s (of_nat y)"
      using 1(11) by (simp add: s'_def s3_def s1_def)
    have slot: "mapped_in ?r s' (stack_slot j) = mapped_in ?r s (stack_slot j)" if "j < stack_limit" for j
      using same stack_slot_user [OF that] by (intro mapped_in_same) blast
    have usk: "userstacks s' = (userstacks s)(a \<mapsto> ?st)" by (simp add: s'_def s3_def)
    have none: "mapped_in ?r s' (stack_slot ?n) = {}" using free slot limit by simp
    have here: "stack_ok ?r s' ?n a"
      unfolding stack_ok_def using live(2) none
      by (intro exI [of _ ?st] exI [of _ l]) (simp add: slot_of_def usk)
    have okj: "stack_ok ?r s' j ((?L @ [a]) ! j)" if "j < length (?L @ [a])" for j
    proof (cases "j = ?n")
      case False
      then have j: "j < ?n" using that by simp
      then have "?L ! j \<noteq> a" using new nth_mem by metis
      then have "stack_ok ?r s' j (?L ! j)"
        using stack_ok_keep [of ?r s j "?L ! j" s'] ok j live(2) slot limit by (auto simp: usk)
      then show ?thesis using j by (simp add: nth_append)
    qed (use here in simp)
    have "user_space_inv ?r s'" using 1(2) by (simp add: s'_def s3_def)
    moreover have "\<forall>j < stack_limit. length (?L @ [a]) \<le> j \<longrightarrow> mapped_in ?r s' (stack_slot j) = {}"
      using free slot by simp
    ultimately have inv': "stacks_inv p s'"
      unfolding stacks_inv_def using okj lock dist new limit
      by (intro exI [of _ "proc\<lparr>stack_list := ?L @ [a]\<rparr>"]) (simp add: s'_def)
    have keep: "stack_allocated (proc\<lparr>stack_list := ?L @ [a]\<rparr>) s' j" if "j < ?n" for j
      using full that new nth_mem [OF that] by (auto simp: stack_allocated_def usk nth_append)
    have "stack_allocated (proc\<lparr>stack_list := ?L @ [a]\<rparr>) s' ?n"
      by (simp add: stack_allocated_def usk)
    moreover have "free_frames s \<le> free_frames s' + 8" using 1(12) by (simp add: s'_def s3_def s1_def)
    ultimately show ?case using that [OF run inv'] keep same by (simp add: s'_def)
  qed
qed

section \<open>Deleting a stack\<close>

lemma drop_unallocated_ok:
  assumes "\<forall>a\<in>set as. userstacks s a \<noteq> None"
  shows "drop_unallocated as s = Inr (dropWhile (\<lambda>a. \<not> stk_allocated (the (userstacks s a))) as)"
  using assms by (induction as) (auto simp: stack_at_def)

lemma rev_dropWhile_rev:
  obtains n where "rev (dropWhile P (rev xs)) = take n xs" and "n \<le> length xs" and "\<forall>j<length xs. n \<le> j \<longrightarrow> P (xs ! j)"
    and "n = 0 \<or> \<not> P (xs ! (n - 1))"
proof -
  have "\<exists>n. rev (dropWhile P (rev xs)) = take n xs \<and> n \<le> length xs \<and> (\<forall>j<length xs. n \<le> j \<longrightarrow> P (xs ! j)) \<and> (n = 0 \<or> \<not> P (xs ! (n - 1)))"
  proof (induction xs rule: rev_induct)
    case (snoc x xs)
    show ?case
    proof (cases "P x")
      case True
      obtain n where n: "rev (dropWhile P (rev xs)) = take n xs" "n \<le> length xs" "\<forall>j<length xs. n \<le> j \<longrightarrow> P (xs ! j)"
        "n = 0 \<or> \<not> P (xs ! (n - 1))" using snoc by blast
      then show ?thesis using True by (intro exI [of _ n]) (auto simp: nth_append)
    next
      case False
      then show ?thesis by (intro exI [of _ "Suc (length xs)"]) (simp add: nth_append)
    qed
  qed simp
  then show ?thesis using that by blast
qed

lemma stack_start_of_nat:
  assumes "i < stack_limit"
  shows "stack_start_page (of_nat i) + 8192 - 1 = of_nat (34359738368 - 16384 * (i + 1) + 8192) - 1"
proof -
  have "stack_start_page (of_nat i) = of_nat (34359738368 - 16384 * (i + 1))"
  proof -
    have "i < 2097152" using assms by simp
    from unat_stack_start [OF this] show ?thesis using of_nat_unat_word [of "stack_start_page (of_nat i)"] by simp
  qed
  then show ?thesis by simp
qed

lemma delete_stack_ok:
  assumes inv: "stacks_inv p s" and proc: "procs s p = Some proc" and i: "unat index = i" "stack_allocated proc s i"
  obtains n s' where "delete_stack p index s = Inr s'" and "stacks_inv p s'" and "n \<le> length (stack_list proc)"
    and "procs s' = (procs s)(p \<mapsto> proc\<lparr>stack_list := take n (stack_list proc)\<rparr>)"
    and "\<forall>j. stack_allocated (proc\<lparr>stack_list := take n (stack_list proc)\<rparr>) s' j \<longleftrightarrow> stack_allocated proc s j \<and> j \<noteq> i"
    and "n = 0 \<or> stack_allocated (proc\<lparr>stack_list := take n (stack_list proc)\<rparr>) s' (n - 1)"
    and "\<forall>y. user_page y \<longrightarrow> vspace_mapping (proc_vspace proc) s' (of_nat y) =
      (if y \<in> stack_slot i then None else vspace_mapping (proc_vspace proc) s (of_nat y))"
    and "free_frames s \<le> free_frames s'"
proof -
  let ?r = "proc_vspace proc" and ?L = "stack_list proc"
  let ?a = "?L ! i" and ?lo = "34359738368 - 16384 * (i + 1)"
  have lock: "mutex_idle (stack_list_lock proc)" and us: "user_space_inv ?r s" and dist: "distinct ?L"
    and len: "length ?L \<le> stack_limit"
    and ok: "\<forall>j<length ?L. stack_ok ?r s j (?L ! j)"
    and free: "\<forall>j < stack_limit. length ?L \<le> j \<longrightarrow> mapped_in ?r s (stack_slot j) = {}"
    using inv proc by (auto simp: stacks_inv_def)
  have il: "i < length ?L" and ilim: "i < stack_limit" using i len by (auto simp: stack_allocated_def)
  obtain st lv where st: "userstacks s ?a = Some st" "slot_of i (card (mapped_in ?r s (stack_slot i))) st"
    and lv: "(unat ?a, lv) \<in> heap_live s" using ok il by (fastforce simp: stack_ok_def)
  have al: "stk_allocated st" using i(2) st(1) by (simp add: stack_allocated_def)
  define proc1 where "proc1 = proc\<lparr>stack_list_lock := mutex_taken (stack_list_lock proc) s\<rparr>"
  define s2 where "s2 = s\<lparr>procs := (procs s)(p \<mapsto> proc1), userstacks := (userstacks s)(?a \<mapsto> st\<lparr>stk_allocated := False\<rparr>)\<rparr>"
  have us2: "user_space_inv ?r s2" using us by (simp add: s2_def)
  have slot: "stack_slot i = {?lo..<?lo + 8192}" by (simp add: stack_slot_def)
  have cnt: "card (mapped_in ?r s (stack_slot i)) = card (mapped_in ?r s2 {?lo..<?lo + 8192})" by (simp add: s2_def slot)
  have hi: "?lo + 8192 \<le> 34359738368" "(8192 :: nat) < address_fuel" using ilim by simp_all
  obtain s3 where s3: "unmap_stack address_fuel ?r (of_nat (?lo + 8192) - 1) (stk_pages_mapped st) s2 = Inr s3"
    "user_space_inv ?r s3" "vm_frame s2 s3" "heap_live s3 = heap_live s2" "free_frames s2 \<le> free_frames s3"
    "\<forall>y. user_page y \<longrightarrow> vspace_mapping ?r s3 (of_nat y) = (if y \<in> stack_slot i then None else vspace_mapping ?r s2 (of_nat y))"
    using unmap_stack_ok [OF us2 hi cnt] st(2) unfolding slot_of_def slot by auto
  note fr = vm_frame_procs [OF s3(3)]
  let ?st = "st\<lparr>stk_allocated := False, stk_pages_mapped := 0\<rparr>"
  define s4 where "s4 = s3\<lparr>userstacks := (userstacks s)(?a \<mapsto> ?st)\<rparr>"
  have us4: "userstacks s4 = (userstacks s)(?a \<mapsto> ?st)" by (simp add: s4_def)
  let ?P = "\<lambda>a. \<not> stk_allocated (the (userstacks s4 a))"
  have "\<forall>k<length ?L. \<exists>st. userstacks s (?L ! k) = Some st" using ok by (auto simp: stack_ok_def)
  then have "\<forall>a\<in>set (rev ?L). userstacks s4 a \<noteq> None" by (auto simp: us4 in_set_conv_nth)
  then have drop: "drop_unallocated (rev ?L) s4 = Inr (dropWhile ?P (rev ?L))" by (rule drop_unallocated_ok)
  obtain n where n: "rev (dropWhile ?P (rev ?L)) = take n ?L" "n \<le> length ?L" "\<forall>j<length ?L. n \<le> j \<longrightarrow> ?P (?L ! j)"
    "n = 0 \<or> \<not> ?P (?L ! (n - 1))" by (rule rev_dropWhile_rev)
  define proc' where "proc' = proc\<lparr>stack_list := take n ?L\<rparr>"
  define s' where "s' = s4\<lparr>procs := (procs s)(p \<mapsto> proc')\<rparr>"
  have unlock: "proc_unlock stack_list_lock stack_list_lock_update p (s4\<lparr>procs := (procs s)(p \<mapsto> proc1\<lparr>stack_list := take n ?L\<rparr>)\<rparr>) = Inr s'"
    using proc_unlock_taken [of "s4\<lparr>procs := (procs s)(p \<mapsto> proc1\<lparr>stack_list := take n ?L\<rparr>)\<rparr>" p _ stack_list_lock s "stack_list_lock proc"]
      lock fr(4) by (simp add: s'_def s4_def proc1_def proc'_def s2_def)
  have pg: "stk_start_page st + stk_page_count st - 1 = of_nat (?lo + 8192) - 1"
    using st(2) stack_start_of_nat [OF ilim] by (simp add: slot_of_def)
  have run: "delete_stack p index s = Inr s'"
    using proc_lock_idle [of s p proc stack_list_lock stack_list_lock_update] lock proc i il st(1) al s3(1) drop n(1) unlock fr(1,2)
    unfolding delete_stack_def
    by (simp add: proc_at_def proc_set_def stack_at_def stack_set_def Let_def pg s4_def s2_def proc1_def)
  have hl: "heap_live s' = heap_live s" using s3(4) by (simp add: s'_def s4_def s2_def)
  have map': "\<forall>y. user_page y \<longrightarrow> vspace_mapping ?r s' (of_nat y) = (if y \<in> stack_slot i then None else vspace_mapping ?r s (of_nat y))"
    using s3(6) by (simp add: s'_def s4_def s2_def)
  have rest: "mapped_in ?r s' (stack_slot j) = mapped_in ?r s (stack_slot j)" if "j \<noteq> i" "j < stack_limit" for j
  proof (rule mapped_in_same, rule ballI)
    fix y assume y: "y \<in> stack_slot j"
    then have "y \<notin> stack_slot i" using stack_slot_disjoint [of i j] ilim that by auto
    then show "vspace_mapping ?r s' (of_nat y) = vspace_mapping ?r s (of_nat y)"
      using map' stack_slot_user [OF that(2) y] by simp
  qed
  have here: "mapped_in ?r s' (stack_slot i) = {}"
    using map' stack_slot_user [OF ilim] by (auto simp: mapped_in_def)
  have us': "userstacks s' = (userstacks s)(?a \<mapsto> ?st)" by (simp add: s'_def us4)
  have ok': "stack_ok ?r s' j (?L ! j)" if "j < length ?L" for j
  proof (cases "j = i")
    case True
    then show ?thesis unfolding stack_ok_def using st(2) lv here hl
      by (intro exI [of _ ?st] exI [of _ lv]) (simp add: us' slot_of_def)
  next
    case False
    then have "?L ! j \<noteq> ?a" using dist that il by (simp add: nth_eq_iff_index_eq)
    then show ?thesis using stack_ok_keep [of ?r s j "?L ! j" s'] ok that hl rest [OF False] len by (simp add: us')
  qed
  have all': "stk_allocated (the (userstacks s' (?L ! j))) \<longleftrightarrow> stk_allocated (the (userstacks s (?L ! j))) \<and> j \<noteq> i" if "j < length ?L" for j
    using dist that il by (auto simp: us' nth_eq_iff_index_eq)
  have gone: "\<not> stk_allocated (the (userstacks s' (?L ! j)))" if "j < length ?L" "n \<le> j" for j
    using n(3) that by (simp add: us' us4)
  have "mapped_in ?r s' (stack_slot j) = {}" if j: "j < stack_limit" "n \<le> j" for j
  proof (cases "j < length ?L")
    case True
    then show ?thesis using ok' [OF True] gone [OF True j(2)] by (auto simp: stack_ok_def)
  next
    case False
    then show ?thesis using free rest [of j] j il by simp
  qed
  moreover have "user_space_inv ?r s'" using s3(2) by (simp add: s'_def s4_def)
  ultimately have inv': "stacks_inv p s'"
    unfolding stacks_inv_def using ok' lock dist len n(2)
    by (intro exI [of _ proc']) (simp add: s'_def proc'_def)
  have al': "\<forall>j. stack_allocated proc' s' j \<longleftrightarrow> stack_allocated proc s j \<and> j \<noteq> i"
  proof
    fix j show "stack_allocated proc' s' j \<longleftrightarrow> stack_allocated proc s j \<and> j \<noteq> i"
      using all' [of j] gone [of j] n(2) by (cases "j < n") (auto simp: stack_allocated_def proc'_def)
  qed
  have last: "n = 0 \<or> stack_allocated proc' s' (n - 1)"
    using n(2,4) by (cases "n = 0") (auto simp: stack_allocated_def proc'_def us' us4)
  have "procs s' = (procs s)(p \<mapsto> proc')" "free_frames s \<le> free_frames s'"
    using s3(5) by (simp_all add: s'_def s4_def s2_def)
  then show ?thesis using that [OF run inv' n(2)] al' last map' unfolding proc'_def by blast
qed

section \<open>Properties\<close>

text \<open>A process with an empty address space on the small machine.\<close>

definition small_proc :: proc_t where
  "small_proc = \<lparr>pid = 1, uid = 0, gid = 0, proc_state = PROC_RUNNING, proc_task_list = [],
     proc_task_list_lock = MUTEX_INITIALIZER, stack_list = [], stack_list_lock = MUTEX_INITIALIZER, fd_counter = 0,
     fd_list = [], fd_list_lock = MUTEX_INITIALIZER, proc_vspace = Vspace 0x1000, heap_brk = 0x500000,
     heap_lock = MUTEX_INITIALIZER, working_dir = 0, proc_loader = 0x3000\<rparr>"

definition small_loader :: loader_t where
  "small_loader = \<lparr>ldr_file = 1, ldr_entry_addr = 0x400000, ldr_header = 0x4000, ldr_pht = 0, ldr_lock = MUTEX_INITIALIZER,
     ldr_refs = 1, ldr_min_heap_break = 0x500000\<rparr>"

definition small_user :: pstate where
  "small_user = hstate.extend (small_heap\<lparr>vspaces := (vspaces small_heap)(Vspace 0x1000 \<mapsto>
       \<lparr>vs_lock = MUTEX_INITIALIZER, vs_pml4_ppn = 2\<rparr>)\<rparr>)
     \<lparr>procs = [0x2000 \<mapsto> small_proc], userstacks = Map.empty, loaders = [0x3000 \<mapsto> small_loader],
      elf_headers = Map.empty, phts = Map.empty\<rparr>"

lemma small_user_fields:
  "procs small_user 0x2000 = Some small_proc" "loaders small_user = [0x3000 \<mapsto> small_loader]"
  "free_frames small_user = 55" "kheap_break small_user = KHEAP_START" "current_task small_user = 0"
proof -
  have "free_frames small_user = free_frames small_heap"
    by (simp add: small_user_def hstate.extend_def free_frames_def pg_total_def pg_used_def)
  then show "free_frames small_user = 55" by (simp add: small_heap_free)
qed (simp_all add: small_user_def hstate.extend_def small_heap_def vmstate.extend_def small_vm_def small_machine_def)

lemma one_neq_two_u64: "(1 :: u64) \<noteq> 2"
  by simp

lemma small_user_inv: "user_space_inv (Vspace 0x1000) small_user"
proof -
  let ?r = "Vspace 0x1000"
  define t where "t = small_heap\<lparr>vspaces := (vspaces small_heap)(?r := Some \<lparr>vs_lock = MUTEX_INITIALIZER, vs_pml4_ppn = 2\<rparr>)\<rparr>"
  have ti: "heap_inv t" using heap_inv_vspaces(1) [of ?r small_heap] small_heap_inv by (simp add: t_def)
  have eq: "vspaces small_user = vspaces t" "phys small_user = phys t" "free_pages small_user = free_pages t"
    "free_pages_lock small_user = free_pages_lock t" "hblocks small_user = hblocks t" "kheap_break small_user = kheap_break t"
    "heap_start small_user = heap_start t" "heap_last small_user = heap_last t" "kheap_mutex small_user = kheap_mutex t"
    by (simp_all add: small_user_def t_def hstate.extend_def)
  have pgt: "pg_used small_user = pg_used t" "pg_total small_user = pg_total t" "pg_inv small_user = pg_inv t"
    using eq by (simp_all add: pg_used_def pg_total_def pg_inv_def)
  have hi: "heap_inv small_user"
    using ti eq pgt by (simp add: heap_inv_def heap_rel_def heap_pages_mapped_def vspace_inv_def vspace_mapping_def vspace_root_def)
  have used: "pg_used t = {..<9}" "pg_total t = 64"
    using small_machine_used small_machine_total
    by (simp_all add: t_def small_heap_def small_vm_def small_machine_def vmstate.extend_def hstate.defs vmstate.defs pg_used_def pg_total_def)
  have zero: "phys small_user f i = 0" for f i
    by (simp add: eq(2) t_def small_heap_def vmstate.extend_def small_vm_def)
  have root: "vspace_root ?r small_user = 2" "vspace_root VSPACE_KERNEL small_user = 1"
    by (simp_all add: vspace_root_def eq(1) t_def small_heap_def vmstate.extend_def)
  have "frames_owned user_slots (phys small_user) 2 (pg_used small_user)"
    by (rule frames_owned_empty) (simp_all add: zero pgt used)
  then have vi: "vspace_inv user_slots ?r small_user"
    using hi root pgt used by (simp add: vspace_inv_def heap_inv_def eq(1)) (simp add: t_def)
  have "f = rt" if "walk (phys small_user) rt q = Some f" for rt q f using that by (cases q) (simp_all add: zero)
  then have "vspace_disjoint user_slots ?r heap_slots VSPACE_KERNEL small_user"
    unfolding vspace_disjoint_def vspace_owns_def root by (metis one_neq_two_u64)
  then show ?thesis using hi vi by (simp add: user_space_inv_def)
qed

lemma small_user_unmapped: "vspace_mapping (Vspace 0x1000) small_user v = None"
  by (rule leaf_of_absent [of "phys small_user" "vspace_root (Vspace 0x1000) small_user" v, folded vspace_mapping_def])
     (simp add: small_user_def hstate.extend_def small_heap_def vmstate.extend_def small_vm_def)

lemma small_user_stacks: "stacks_inv 0x2000 small_user"
  using small_user_inv small_user_fields(1) small_user_unmapped
  by (simp add: stacks_inv_def mapped_in_def) (simp add: small_proc_def)

lemma small_user_room: "heap_room small_user 48"
  using small_user_fields by (simp add: heap_room_def KHEAP_START_def)

text \<open>
  C26: \<^verbatim>\<open>create_stack\<close> takes the first slot that is not allocated, or adds the next one. The stack
  pointer is the end of the slot, and between the slots of any two stacks there is a gap of 32 MiB
  in which no stack has a page. Nothing else of the process changes.
\<close>

theorem create_stack_spec:
  assumes "stacks_inv p s" and "procs s p = Some proc" and "heap_room s 48" and "length (stack_list proc) < stack_limit"
  shows "\<exists>a i proc' st s'. create_stack p s = Inr (a, s') \<and> stacks_inv p s' \<and> procs s' p = Some proc' \<and>
    \<not> stack_allocated proc s i \<and> (\<forall>j<i. stack_allocated proc s j) \<and> stack_list proc' ! i = a \<and>
    (\<forall>j. stack_allocated proc' s' j \<longleftrightarrow> stack_allocated proc s j \<or> j = i) \<and>
    userstacks s' a = Some st \<and> unat (stk_stack_ptr st) = 4096 * (34359738368 - 16384 * (i + 1) + 8192) \<and>
    (\<forall>j x y. stack_allocated proc' s' j \<longrightarrow> j \<noteq> i \<longrightarrow> x \<in> stack_slot i \<longrightarrow> y \<in> stack_slot j \<longrightarrow> x + 8192 < y \<or> y + 8192 < x)"
proof -
  let ?L = "stack_list proc"
  have fin: ?thesis
    if "create_stack p s = Inr (a, s')" "stacks_inv p s'" "procs s' p = Some proc'" "\<not> stack_allocated proc s i"
      "\<forall>j<i. stack_allocated proc s j" "stack_list proc' ! i = a" "i < length (stack_list proc')" "i < stack_limit"
      "\<forall>j. stack_allocated proc' s' j \<longleftrightarrow> stack_allocated proc s j \<or> j = i" for a i proc' s'
  proof -
    have ok: "stack_ok (proc_vspace proc') s' i a" and len: "length (stack_list proc') \<le> stack_limit"
      using that(2,3,6,7) by (auto simp: stacks_inv_def)
    then obtain st where st: "userstacks s' a = Some st" "stk_stack_ptr st = push_bit PAGE_SHIFT (stack_start_page (of_nat i) + 8192)"
      by (auto simp: stack_ok_def slot_of_def)
    have u: "unat (stack_start_page (of_nat i) + 8192) = 34359738368 - 16384 * (i + 1) + 8192"
      using that(8) unat_stack_start [of i] by (subst unat_add_no_wrap) simp_all
    have "unat (stk_stack_ptr st) = 4096 * (34359738368 - 16384 * (i + 1) + 8192)"
    proof -
      define w where "w = stack_start_page (of_nat i) + 8192"
      define n where "n = 34359738368 - 16384 * (i + 1) + 8192"
      have w: "unat w = n" "n < 34359738368" using u by (simp_all add: w_def n_def)
      have "unat (push_bit 12 w) = take_bit 64 (4096 * n)" unfolding unsigned_push_bit_eq w(1) by (simp add: push_bit_eq_mult mult.commute)
      also have "\<dots> = 4096 * n" using w(2) by (intro take_bit_nat_eq_self) simp
      finally show ?thesis using st(2) by (simp add: PAGE_SHIFT_def w_def n_def)
    qed
    moreover have "x + 8192 < y \<or> y + 8192 < x"
      if "stack_allocated proc' s' j" "j \<noteq> i" "x \<in> stack_slot i" "y \<in> stack_slot j" for j x y
    proof -
      have "j < stack_limit" using that(1) len by (auto simp: stack_allocated_def)
      then show ?thesis
        using stack_slot_gap [of i j x y] stack_slot_gap [of j i y x] that \<open>i < stack_limit\<close> by (cases "i < j") auto
    qed
    ultimately show ?thesis using that st(1) by blast
  qed
  have lim: "length ?L \<le> stack_limit" using assms(1,2) by (auto simp: stacks_inv_def)
  show ?thesis
  proof (cases "\<forall>j<length ?L. stack_allocated proc s j")
    case True
    show ?thesis
    proof (rule create_stack_new [OF assms(1,2) True assms(3,4)], goal_cases)
      case (1 a s')
      have "\<forall>j. stack_allocated (proc\<lparr>stack_list := ?L @ [a]\<rparr>) s' j \<longleftrightarrow> stack_allocated proc s j \<or> j = length ?L"
        using 1(4,5) True by (auto simp: stack_allocated_def nth_append)
      then show ?case
        using fin [OF 1(1,2), of "proc\<lparr>stack_list := ?L @ [a]\<rparr>" "length ?L"] 1(3) True assms(4)
        by (simp add: stack_allocated_def)
    qed
  next
    case False
    define i where "i = (LEAST j. j < length ?L \<and> \<not> stack_allocated proc s j)"
    have i: "i < length ?L" "\<not> stack_allocated proc s i"
      using LeastI_ex [of "\<lambda>j. j < length ?L \<and> \<not> stack_allocated proc s j"] False unfolding i_def by blast+
    have below: "\<forall>j<i. stack_allocated proc s j"
    proof (intro allI impI)
      fix j assume "j < i"
      then show "stack_allocated proc s j"
        using not_less_Least [of j "\<lambda>j. j < length ?L \<and> \<not> stack_allocated proc s j"] i(1) unfolding i_def by auto
    qed
    show ?thesis
    proof (rule create_stack_reuse [OF assms(1,2) i below], goal_cases)
      case (1 s')
      then show ?case using fin [OF 1(1,2), of proc i] assms(2) i below lim by auto
    qed
  qed
qed

theorem create_stack_spec_witness:
  "\<exists>a s'. create_stack 0x2000 small_user = Inr (a, s') \<and> stacks_inv 0x2000 s'"
proof -
  have "length (stack_list small_proc) < stack_limit" by (simp add: small_proc_def)
  from create_stack_spec [OF small_user_stacks small_user_fields(1) small_user_room this] show ?thesis by blast
qed

text \<open>
  A page fault on a page of an allocated stack that is not mapped maps a zeroed frame there, writable for
  the user and not executable, counts it and changes no other page. On any other page
  \<^verbatim>\<open>stack_load\<close> reports that there is no stack and changes nothing.
\<close>

theorem stack_load_spec:
  assumes "stacks_inv p s" and "procs s p = Some proc" and "user_page x" and "4 \<le> free_frames s"
    and "vspace_mapping (proc_vspace proc) s (of_nat x) = None"
  shows "if \<exists>i. stack_of_page proc s x i
    then \<exists>s' f e. stack_load p (of_nat x) s = Inr (SUCCESS, s') \<and> stacks_inv p s' \<and>
      vspace_mapping (proc_vspace proc) s' (of_nat x) = Some e \<and>
      gpte_ppn e = f \<and> gpte_write e \<and> gpte_user e \<and> gpte_no_exec e \<and> unat f \<notin> pg_used s \<and> (\<forall>i. phys s' f i = 0) \<and>
      (\<forall>y. user_page y \<longrightarrow> y \<noteq> x \<longrightarrow> vspace_mapping (proc_vspace proc) s' (of_nat y) = vspace_mapping (proc_vspace proc) s (of_nat y))
    else stack_load p (of_nat x) s = Inr (- ENOENT, s)"
proof (cases "\<exists>i. stack_of_page proc s x i")
  case True
  then obtain i where i: "stack_of_page proc s x i" by blast
  have "?thesis \<longleftrightarrow> (\<exists>s' f e. stack_load p (of_nat x) s = Inr (SUCCESS, s') \<and> stacks_inv p s' \<and>
      vspace_mapping (proc_vspace proc) s' (of_nat x) = Some e \<and>
      gpte_ppn e = f \<and> gpte_write e \<and> gpte_user e \<and> gpte_no_exec e \<and> unat f \<notin> pg_used s \<and> (\<forall>i. phys s' f i = 0) \<and>
      (\<forall>y. user_page y \<longrightarrow> y \<noteq> x \<longrightarrow> vspace_mapping (proc_vspace proc) s' (of_nat y) = vspace_mapping (proc_vspace proc) s (of_nat y)))"
    using True by simp
  also have \<dots>
  proof (rule stack_load_found [OF assms(1-3) i assms(4,5)], goal_cases)
    case (1 s' f e)
    have "gpte_ppn (leaf_entry f stack_flags e) = f" using 1(6) by (simp add: leaf_entry_fields take_bit_40_frame)
    moreover have "gpte_write (leaf_entry f stack_flags e)" "gpte_user (leaf_entry f stack_flags e)" "gpte_no_exec (leaf_entry f stack_flags e)"
      by (simp_all add: leaf_entry_fields PG_NOEXEC_def PG_USER_def PG_WRITE_def BIT_def)
    ultimately show ?case using 1 by blast
  qed
  finally show ?thesis .
next
  case False
  then show ?thesis using stack_load_none [OF assms(1-3)] by simp
qed

theorem stack_load_spec_witness:
  "stack_load 0x2000 (of_nat 5) small_user = Inr (- ENOENT, small_user)"
proof -
  have "4 \<le> free_frames small_user" using small_user_fields(3) by simp
  moreover have "vspace_mapping (proc_vspace small_proc) small_user (of_nat 5) = None"
    using small_user_unmapped by (simp add: small_proc_def)
  ultimately show ?thesis
    using stack_load_spec [OF small_user_stacks small_user_fields(1), of 5]
    by (simp add: stack_of_page_def small_proc_def)
qed

text \<open>
  The page fault handler asks \<^verbatim>\<open>stack_load\<close> without looking whether the page is present. On a page
  that is mapped already (an instruction fetch from a stack page faults that way, since stack pages
  are not executable) it reports success, leaves every mapping as it was and counts a page that
  does not exist, so that the counter is one more than the pages of the slot.
\<close>

theorem stack_load_present:
  assumes "stacks_inv p s" and "procs s p = Some proc" and "user_page x" and "4 \<le> free_frames s"
    and "stack_of_page proc s x i" and "vspace_mapping (proc_vspace proc) s (of_nat x) \<noteq> None"
  shows "\<exists>s' st. stack_load p (of_nat x) s = Inr (SUCCESS, s') \<and> userstacks s' (stack_list proc ! i) = Some st \<and>
    stk_pages_mapped st = of_nat (card (mapped_in (proc_vspace proc) s' (stack_slot i)) + 1) \<and>
    (\<forall>y. user_page y \<longrightarrow> vspace_mapping (proc_vspace proc) s' (of_nat y) = vspace_mapping (proc_vspace proc) s (of_nat y))"
proof (rule stack_load_step [OF assms(1-3,5,4)], goal_cases)
  case (1 s' f)
  have same: "\<forall>y. user_page y \<longrightarrow> vspace_mapping (proc_vspace proc) s' (of_nat y) = vspace_mapping (proc_vspace proc) s (of_nat y)"
    using 1(6,10) assms(6) by auto
  have il: "i < length (stack_list proc)" "i < stack_limit" and "stack_ok (proc_vspace proc) s i (stack_list proc ! i)"
    using assms(1,2,5) by (auto simp: stacks_inv_def stack_of_page_def)
  then obtain st where st: "userstacks s (stack_list proc ! i) = Some st"
    "stk_pages_mapped st = of_nat (card (mapped_in (proc_vspace proc) s (stack_slot i)))" by (auto simp: stack_ok_def slot_of_def)
  have "mapped_in (proc_vspace proc) s' (stack_slot i) = mapped_in (proc_vspace proc) s (stack_slot i)"
    using same stack_slot_user [OF il(2)] by (intro mapped_in_same) blast
  then show ?case using 1(1,5) same st by auto
qed


text \<open>The small process with one stack and one page of it mapped.\<close>

lemma small_user_page:
  obtains proc and s :: pstate where "stacks_inv 0x2000 s" and "procs s 0x2000 = Some proc" and "proc_vspace proc = Vspace 0x1000"
    and "stack_of_page proc s 34359721984 0" and "4 \<le> free_frames s"
    and "vspace_mapping (proc_vspace proc) s (of_nat 34359721984) \<noteq> None"
proof -
  let ?x = "34359721984 :: nat"
  have l: "stack_list small_proc = []" by (simp add: small_proc_def)
  have x: "user_page ?x" by simp
  show ?thesis
  proof (rule create_stack_new [OF small_user_stacks small_user_fields(1) _ small_user_room], goal_cases)
    case (3 a s)
    let ?p = "small_proc\<lparr>stack_list := stack_list small_proc @ [a]\<rparr>"
    have pr: "procs s 0x2000 = Some ?p" using 3(3) by simp
    have sp: "stack_of_page ?p s ?x 0" using 3(4) l by (simp add: stack_of_page_def stack_allocated_def stack_slot_def)
    have r: "proc_vspace ?p = Vspace 0x1000" by (simp add: small_proc_def)
    have fr: "4 \<le> free_frames s" using 3(7) small_user_fields(3) by simp
    have un: "vspace_mapping (proc_vspace ?p) s (of_nat ?x) = None"
      using 3(6) [rule_format, OF x] small_user_unmapped r by simp
    show ?case
    proof (rule stack_load_found [OF 3(2) pr x sp fr un], goal_cases)
      case (1 s' f e)
      note G = this
      have pr': "procs s' 0x2000 = Some ?p" using G(3) pr by simp
      have "stack_ok (proc_vspace ?p) s' 0 a" using G(2) pr' l by (auto simp: stacks_inv_def)
      moreover have "?x \<in> mapped_in (proc_vspace ?p) s' (stack_slot 0)" using G(4) by (simp add: mapped_in_def stack_slot_def)
      ultimately have "stack_of_page ?p s' ?x 0"
        using sp l by (auto simp: stack_ok_def stack_of_page_def)
      moreover have "4 \<le> free_frames s'" using G(9) 3(7) small_user_fields(3) by simp
      ultimately show ?case using that [OF G(2) pr' r] G(4) by simp
    qed
  qed (simp_all add: l)
qed


theorem stack_load_present_witness:
  "\<exists>s :: pstate. \<exists>s' v m. vspace_mapping (Vspace 0x1000) s v = Some m \<and> stack_load 0x2000 v s = Inr (SUCCESS, s')"
proof -
  have x: "user_page 34359721984" by simp
  show ?thesis
  proof (rule small_user_page, goal_cases)
    case (1 proc s)
    from stack_load_present [OF 1(1,2) x 1(5,4,6)] 1(3,6) show ?case by auto
  qed
qed

text \<open>
  C25: \<^verbatim>\<open>delete_stack\<close> on an allocated stack returns: it unmaps the pages of the slot and no other page,
  the stack is not allocated any more and every other stack still is, and the list is cut after
  the last stack that is allocated.
\<close>

theorem delete_stack_spec:
  assumes "stacks_inv p s" and "procs s p = Some proc" and "stack_allocated proc s (unat index)"
  shows "\<exists>s' n proc'. delete_stack p index s = Inr s' \<and> stacks_inv p s' \<and>
    proc' = proc\<lparr>stack_list := take n (stack_list proc)\<rparr> \<and> procs s' = (procs s)(p \<mapsto> proc') \<and>
    (\<forall>y. user_page y \<longrightarrow> vspace_mapping (proc_vspace proc) s' (of_nat y) =
      (if y \<in> stack_slot (unat index) then None else vspace_mapping (proc_vspace proc) s (of_nat y))) \<and>
    (\<forall>j. stack_allocated proc' s' j \<longleftrightarrow> stack_allocated proc s j \<and> j \<noteq> unat index) \<and>
    (n = 0 \<or> stack_allocated proc' s' (n - 1)) \<and> free_frames s \<le> free_frames s'"
  by (rule delete_stack_ok [OF assms(1,2) refl assms(3)]) blast

theorem delete_stack_spec_witness:
  "\<exists>s :: pstate. \<exists>s' m. vspace_mapping (Vspace 0x1000) s 34359721984 = Some m \<and> delete_stack 0x2000 0 s = Inr s' \<and>
    vspace_mapping (Vspace 0x1000) s' 34359721984 = None"
proof (rule small_user_page, goal_cases)
  case (1 proc s)
  have al: "stack_allocated proc s (unat (0 :: u64))" using 1(4) by (simp add: stack_of_page_def stack_allocated_def)
  have x: "user_page 34359721984" "34359721984 \<in> stack_slot 0" by (simp_all add: stack_slot_def)
  obtain s' where s': "delete_stack 0x2000 0 s = Inr s'"
    "\<forall>y. user_page y \<longrightarrow> vspace_mapping (proc_vspace proc) s' (of_nat y) =
      (if y \<in> stack_slot 0 then None else vspace_mapping (proc_vspace proc) s (of_nat y))"
    using delete_stack_spec [OF 1(1,2) al] by auto
  from s'(2) [rule_format, OF x(1)] show ?case using s'(1) 1(3,6) x(2) by auto
qed

end
