(* ===== verification/Sbrk.thy ===== *)
theory Sbrk
  imports Userstack
begin

text \<open>
  The heap of a process, \<^verbatim>\<open>mm/sbrk.c\<close>: \<^verbatim>\<open>sys_sbrk\<close> moves the break and unmaps the pages it leaves behind,
  \<^verbatim>\<open>heap_load\<close> gives a page below the break a frame when the process touches it.
\<close>

section \<open>Operations\<close>

definition current_process :: "'a kbase_scheme \<Rightarrow> u64 result" where
  "current_process s =
     (case tasks s (current_task s) of None \<Rightarrow> Inl (Mem_Fault ''task_t'') | Some t \<Rightarrow> Inr (task_process t))"

text \<open>
  The loop of \<^verbatim>\<open>sys_sbrk\<close> over the pages from \<open>page\<close> to \<open>last_unmap\<close> inclusive. It has no last iteration
  when \<open>last_unmap\<close> is the greatest page number.
\<close>

fun unmap_range :: "nat \<Rightarrow> vspace_ref \<Rightarrow> u64 \<Rightarrow> u64 \<Rightarrow> 'a vmstate_scheme \<Rightarrow> 'a vmstate_scheme result" where
  "unmap_range 0 r page last_unmap s = Inl Diverges"
| "unmap_range (Suc n) r page last_unmap s =
     (if page \<le> last_unmap
      then rbind (vspace_unmap r page s) (\<lambda>(_, s). unmap_range n r (page + 1) last_unmap s)
      else Inr s)"

definition sys_sbrk :: "u64 \<Rightarrow> 'a pstate_scheme \<Rightarrow> (u64 \<times> 'a pstate_scheme) result" where
  "sys_sbrk increment s =
     rbind (current_process s) (\<lambda>process.
     rbind (proc_at process s) (\<lambda>proc.
     if heap_brk proc = -1 then Inr (-1, s)
     else
       rbind (kassert (proc_loader proc \<noteq> NULL) ''sbrk(): process has invalid loader_t'') (\<lambda>_.
       rbind (loader_at (proc_loader proc) s) (\<lambda>loader.
       let min_heap_break = ldr_min_heap_break loader;
           old_break = heap_brk proc in
       rbind (proc_lock heap_lock heap_lock_update process s) (\<lambda>s.
       rbind (proc_at process s) (\<lambda>proc.
       let new_break = (if heap_brk proc + increment < min_heap_break then min_heap_break
                        else heap_brk proc + increment);
           s = proc_set process (proc\<lparr>heap_brk := new_break\<rparr>) s in
       rbind (if sint increment < 0 then
                let first_unmap = drop_bit PAGE_SHIFT new_break + (if new_break mod PAGE_SIZE \<noteq> 0 then 1 else 0);
                    last_unmap = drop_bit PAGE_SHIFT old_break - (if old_break mod PAGE_SIZE = 0 then 1 else 0)
                in unmap_range address_fuel (proc_vspace proc) first_unmap last_unmap s
              else Inr s) (\<lambda>s.
       rbind (proc_unlock heap_lock heap_lock_update process s) (\<lambda>s. Inr (old_break, s)))))))))"

definition heap_load :: "u64 \<Rightarrow> u64 \<Rightarrow> 'a pstate_scheme \<Rightarrow> (int \<times> 'a pstate_scheme) result" where
  "heap_load p addr s =
     rbind (proc_lock heap_lock heap_lock_update p s) (\<lambda>s.
     rbind (proc_at p s) (\<lambda>proc.
     rbind (loader_at (proc_loader proc) s) (\<lambda>loader.
     rbind (if addr \<ge> ldr_min_heap_break loader \<and> addr < heap_brk proc
            then rbind (map_fresh (proc_vspace proc) (PG_WRITE OR PG_USER) (drop_bit PAGE_SHIFT addr) s) (\<lambda>s. Inr (SUCCESS, s))
            else Inr (- ENOENT, s)) (\<lambda>(ret, s).
     rbind (proc_unlock heap_lock heap_lock_update p s) (\<lambda>s. Inr (ret, s))))))"


section \<open>The heap of a process\<close>

text \<open>The lowest page of the stack area: the heap stays below it.\<close>

abbreviation heap_top :: nat where
  "heap_top \<equiv> 34292629504"

lemma heap_top_stacks: "i < stack_limit \<Longrightarrow> x \<in> stack_slot i \<Longrightarrow> heap_top \<le> x"
  by (auto simp: stack_slot_def)

text \<open>
  The break is at or above the end of the program and below the stacks, and no page between the
  break and the stacks is mapped.
\<close>

definition proc_heap_inv :: "u64 \<Rightarrow> 'a pstate_scheme \<Rightarrow> bool" where
  "proc_heap_inv p s \<longleftrightarrow>
     (\<exists>proc ldr. procs s p = Some proc \<and> mutex_idle (heap_lock proc) \<and> user_space_inv (proc_vspace proc) s \<and>
       proc_loader proc \<noteq> NULL \<and> loaders s (proc_loader proc) = Some ldr \<and>
       ldr_min_heap_break ldr \<le> heap_brk proc \<and> unat (heap_brk proc) \<le> 4096 * heap_top \<and>
       (\<forall>x < heap_top. unat (heap_brk proc) \<le> 4096 * x \<longrightarrow> vspace_mapping (proc_vspace proc) s (of_nat x) = None))"

lemma ceil_4096: "(n + 4095) div 4096 = n div 4096 + (if n mod 4096 = 0 then 0 else 1)" for n :: nat
proof -
  define q r where "q = n div 4096" and "r = n mod 4096"
  have n: "n = r + 4096 * q" and r: "r < 4096" by (simp_all add: q_def r_def)
  have "(n + 4095) div 4096 = (r + 4095) div 4096 + q" unfolding n by (simp add: algebra_simps)
  moreover have "(r + 4095) div 4096 = (if r = 0 then 0 else 1)" using r by (auto intro: div_nat_eqI)
  ultimately show ?thesis unfolding q_def r_def by auto
qed

text \<open>The number of the first page at or above an address.\<close>

lemma page_ceil:
  "drop_bit PAGE_SHIFT b + (if b mod PAGE_SIZE \<noteq> 0 then 1 else 0) = (of_nat ((unat b + 4095) div 4096) :: u64)"
  "drop_bit PAGE_SHIFT b - (if b mod PAGE_SIZE = 0 then 1 else 0) = (of_nat ((unat b + 4095) div 4096) - 1 :: u64)"
proof -
  have d: "drop_bit PAGE_SHIFT b = (of_nat (unat b div 4096) :: u64)"
  proof -
    have "unat (drop_bit PAGE_SHIFT b) = unat b div 4096" by (simp add: PAGE_SHIFT_def drop_bit_eq_div unat_div_word)
    then show ?thesis using of_nat_unat_word [of "drop_bit PAGE_SHIFT b"] by metis
  qed
  have m: "b mod PAGE_SIZE = 0 \<longleftrightarrow> unat b mod 4096 = 0"
    by (simp add: unat_eq_zero [symmetric] unat_mod_word PAGE_SIZE_def del: unat_eq_zero)
  show "drop_bit PAGE_SHIFT b + (if b mod PAGE_SIZE \<noteq> 0 then 1 else 0) = (of_nat ((unat b + 4095) div 4096) :: u64)"
    using m d by (simp add: ceil_4096)
  then show "drop_bit PAGE_SHIFT b - (if b mod PAGE_SIZE = 0 then 1 else 0) = (of_nat ((unat b + 4095) div 4096) - 1 :: u64)"
    by (auto simp: eq_diff_eq split: if_splits)
qed

lemma unmap_range_ok:
  assumes "user_space_inv r s" and "lo + k \<le> 34359738368" and "k < fuel" and "0 < lo + k"
  shows "\<exists>s'. unmap_range fuel r (of_nat lo) (of_nat (lo + k) - 1) s = Inr s' \<and> user_space_inv r s' \<and> vm_frame s s' \<and>
    heap_live s' = heap_live s \<and> free_frames s \<le> free_frames s' \<and>
    (\<forall>y. user_page y \<longrightarrow> vspace_mapping r s' (of_nat y) = (if y \<in> {lo..<lo + k} then None else vspace_mapping r s (of_nat y)))"
  using assms
proof (induction k arbitrary: fuel lo s)
  case 0
  obtain f where fuel: "fuel = Suc f" using "0.prems"(3) by (cases fuel) auto
  define l :: u64 where "l = of_nat lo"
  have l: "unat l = lo" unfolding l_def using "0.prems"(2) by (intro unat_of_nat_small) simp
  have "1 \<le> l" using "0.prems"(4) l by (simp add: word_le_nat_alt)
  then have "\<not> l \<le> l - 1" using l "0.prems"(4) by (simp add: word_le_nat_alt unat_sub_no_wrap)
  then have "unmap_range fuel r (of_nat lo) (of_nat (lo + 0) - 1) s = Inr s" by (simp add: fuel l_def)
  then show ?case using "0.prems"(1) by (auto simp: vm_frame_refl)
next
  case (Suc k)
  obtain f where fuel: "fuel = Suc f" using Suc.prems(3) by (cases fuel) auto
  have x: "user_page lo" using Suc.prems(2) by simp
  have e: "of_nat (lo + Suc k) - 1 = (of_nat (lo + k) :: u64)" by simp
  have le: "(of_nat lo :: u64) \<le> of_nat (lo + k)"
    using Suc.prems(2) unat_of_nat_small [where 'a = 64, of lo] unat_of_nat_small [where 'a = 64, of "lo + k"]
    by (simp add: word_le_nat_alt del: of_nat_add)
  show ?case
  proof (rule user_unmap [OF Suc.prems(1) x], goal_cases)
    case (1 s1)
    have "Suc lo + k \<le> 34359738368" "k < f" "0 < Suc lo + k" using Suc.prems fuel by simp_all
    from Suc.IH [OF 1(2) this] obtain s' where
      s': "unmap_range f r (of_nat (Suc lo)) (of_nat (Suc lo + k) - 1) s1 = Inr s'" "user_space_inv r s'" "vm_frame s1 s'"
        "heap_live s' = heap_live s1" "free_frames s1 \<le> free_frames s'"
        "\<forall>y. user_page y \<longrightarrow> vspace_mapping r s' (of_nat y) =
          (if y \<in> {Suc lo..<Suc lo + k} then None else vspace_mapping r s1 (of_nat y))" by blast
    have n: "of_nat lo + 1 = (of_nat (Suc lo) :: u64)" "(of_nat (lo + k) :: u64) = of_nat (Suc lo + k) - 1" by simp_all
    have "unmap_range fuel r (of_nat lo) (of_nat (lo + Suc k) - 1) s = Inr s'"
      unfolding fuel e using le s'(1) n(2) by (simp add: 1(1) n(1) del: of_nat_Suc of_nat_add)
    moreover have "vspace_mapping r s' (of_nat y) = (if y \<in> {lo..<lo + Suc k} then None else vspace_mapping r s (of_nat y))"
      if "user_page y" for y
      using s'(6) 1(6,7) that by (cases "y = lo") auto
    ultimately show ?case using s' 1(3-5) by (intro exI [of _ s']) (auto intro: vm_frame_trans)
  qed
qed

lemma ceil_le: "(n + 4095) div 4096 \<le> y \<longleftrightarrow> n \<le> 4096 * y" for n :: nat
proof -
  have "(n + 4095) div 4096 \<le> y \<longleftrightarrow> (n + 4095) div 4096 < Suc y" by (rule less_Suc_eq_le [symmetric])
  also have "\<dots> \<longleftrightarrow> n + 4095 < Suc y * 4096" by (rule div_less_iff_less_mult) simp
  finally show ?thesis by auto
qed

lemma uint_add_signed:
  fixes b i :: u64
  assumes "0 \<le> uint b + sint i" and "uint b + sint i < 2 ^ 64"
  shows "uint (b + i) = uint b + sint i"
proof -
  have "b + i = word_of_int (uint b + sint i)" by simp
  then have "uint (b + i) = take_bit 64 (uint b + sint i)" by (simp only: uint_word_of_int_eq) simp
  then show ?thesis using assms by (simp add: take_bit_int_eq_self)
qed

text \<open>The loop over the pages that a shrinking heap leaves behind.\<close>

lemma unmap_heap:
  assumes us: "user_space_inv r s" and le: "b \<le> old" and top: "unat old \<le> 4096 * heap_top" and pos: "0 < unat old"
  obtains s' where "unmap_range address_fuel r (drop_bit PAGE_SHIFT b + (if b mod PAGE_SIZE \<noteq> 0 then 1 else 0))
      (drop_bit PAGE_SHIFT old - (if old mod PAGE_SIZE = 0 then 1 else 0)) s = Inr s'"
    and "user_space_inv r s'" and "vm_frame s s'" and "heap_live s' = heap_live s" and "free_frames s \<le> free_frames s'"
    and "\<forall>y. user_page y \<longrightarrow> vspace_mapping r s' (of_nat y) =
      (if unat b \<le> 4096 * y \<and> 4096 * y < unat old then None else vspace_mapping r s (of_nat y))"
proof -
  define lo hi where "lo = (unat b + 4095) div 4096" and "hi = (unat old + 4095) div 4096"
  have lh: "lo \<le> hi" unfolding lo_def hi_def using le by (intro div_le_mono) (simp add: word_le_nat_alt)
  have hi: "hi \<le> heap_top" "0 < hi" using top pos unfolding hi_def by (simp_all add: ceil_le)
  have rng: "y \<in> {lo..<lo + (hi - lo)} \<longleftrightarrow> unat b \<le> 4096 * y \<and> 4096 * y < unat old" for y
    using lh ceil_le [of "unat b" y] ceil_le [of "unat old" y] by (auto simp: lo_def hi_def)
  have "lo + (hi - lo) \<le> 34359738368" "hi - lo < address_fuel" "0 < lo + (hi - lo)" using lh hi by simp_all
  from unmap_range_ok [OF us this] show ?thesis
    using that lh unfolding page_ceil rng lo_def [symmetric] hi_def [symmetric] by auto
qed

lemma sys_sbrk_ok:
  assumes inv: "proc_heap_inv p s" and cur: "current_process s = Inr p" and proc: "procs s p = Some proc"
    and ldr: "loaders s (proc_loader proc) = Some ldr"
    and low: "0 \<le> uint (heap_brk proc) + sint increment" and high: "uint (heap_brk proc) + sint increment \<le> 4096 * int heap_top"
  obtains b s' where "sys_sbrk increment s = Inr (heap_brk proc, s')" and "proc_heap_inv p s'"
    and "procs s' = (procs s)(p \<mapsto> proc\<lparr>heap_brk := b\<rparr>)"
    and "uint b = max (uint (ldr_min_heap_break ldr)) (uint (heap_brk proc) + sint increment)"
    and "\<forall>y. user_page y \<longrightarrow> vspace_mapping (proc_vspace proc) s' (of_nat y) =
      (if unat b \<le> 4096 * y \<and> 4096 * y < unat (heap_brk proc) then None else vspace_mapping (proc_vspace proc) s (of_nat y))"
    and "loaders s' = loaders s" and "free_frames s \<le> free_frames s'" and "heap_live s' = heap_live s"
proof -
  let ?r = "proc_vspace proc" and ?old = "heap_brk proc" and ?min = "ldr_min_heap_break ldr"
  have lock: "mutex_idle (heap_lock proc)" and us: "user_space_inv ?r s" and l0: "proc_loader proc \<noteq> NULL"
    and minle: "?min \<le> ?old" and top: "unat ?old \<le> 4096 * heap_top"
    and un: "\<forall>x < heap_top. unat ?old \<le> 4096 * x \<longrightarrow> vspace_mapping ?r s (of_nat x) = None"
    using inv proc ldr by (auto simp: proc_heap_inv_def)
  have u: "uint x = int (unat x)" for x :: u64 by simp
  define b where "b = (if ?old + increment < ?min then ?min else ?old + increment)"
  have sum: "uint (?old + increment) = uint ?old + sint increment" using low high by (intro uint_add_signed) simp_all
  have b: "uint b = max (uint ?min) (uint ?old + sint increment)"
    unfolding b_def using sum by (simp add: word_less_def max_def)
  have btop: "unat b \<le> 4096 * heap_top"
  proof -
    have "uint ?min \<le> uint ?old" using minle by (simp add: word_le_def)
    moreover have "uint ?old \<le> 4096 * int heap_top" using top unfolding u by linarith
    ultimately have "uint b \<le> 4096 * int heap_top" using b high by linarith
    then show ?thesis unfolding u by linarith
  qed
  have nm: "?old \<noteq> -1"
  proof
    assume "?old = -1"
    with top show False by (simp add: unsigned_minus_1_eq_mask mask_eq_exp_minus_1)
  qed
  define proc1 where "proc1 = proc\<lparr>heap_lock := mutex_taken (heap_lock proc) s\<rparr>"
  define s2 where "s2 = s\<lparr>procs := (procs s)(p \<mapsto> proc1\<lparr>heap_brk := b\<rparr>)\<rparr>"
  have us2: "user_space_inv ?r s2" using us by (simp add: s2_def)
  let ?loop = "if sint increment < 0
    then unmap_range address_fuel ?r (drop_bit PAGE_SHIFT b + (if b mod PAGE_SIZE \<noteq> 0 then 1 else 0))
      (drop_bit PAGE_SHIFT ?old - (if ?old mod PAGE_SIZE = 0 then 1 else 0)) s2 else Inr s2"
  obtain s3 where s3: "?loop = Inr s3" "user_space_inv ?r s3" "vm_frame s2 s3" "heap_live s3 = heap_live s2" "free_frames s2 \<le> free_frames s3"
    "\<forall>y. user_page y \<longrightarrow> vspace_mapping ?r s3 (of_nat y) =
      (if unat b \<le> 4096 * y \<and> 4096 * y < unat ?old then None else vspace_mapping ?r s2 (of_nat y))"
  proof (cases "sint increment < 0")
    case True
    have "b \<le> ?old" using b minle True by (simp add: word_le_def)
    moreover have "0 < unat ?old" using low True unfolding u by linarith
    ultimately show ?thesis using unmap_heap [OF us2 _ top] that True by (metis (no_types, lifting))
  next
    case False
    then have "uint ?old \<le> uint b" using b by simp
    then have "unat ?old \<le> unat b" unfolding u by linarith
    then have none: "(unat b \<le> 4096 * y \<and> 4096 * y < unat ?old) = False" for y by auto
    show ?thesis by (rule that [of s2]) (use us2 False in \<open>simp_all only: none if_False if_True simp_thms vm_frame_refl order_refl\<close>)
  qed
  note fr = vm_frame_procs [OF s3(3)]
  define s' where "s' = s3\<lparr>procs := (procs s)(p \<mapsto> proc\<lparr>heap_brk := b\<rparr>)\<rparr>"
  have unlock: "proc_unlock heap_lock heap_lock_update p s3 = Inr s'"
    using proc_unlock_taken [of s3 p _ heap_lock s "heap_lock proc"] lock fr(1,4)
    by (simp add: s'_def s2_def proc1_def)
  have run: "sys_sbrk increment s = Inr (?old, s')"
    unfolding sys_sbrk_def using cur proc ldr l0 nm proc_lock_idle [of s p proc heap_lock heap_lock_update] lock unlock s3(1)
    by (simp add: proc_at_def proc_set_def loader_at_def Let_def s2_def proc1_def b_def split del: if_split cong: if_cong)
  have map': "\<forall>y. user_page y \<longrightarrow> vspace_mapping ?r s' (of_nat y) =
      (if unat b \<le> 4096 * y \<and> 4096 * y < unat ?old then None else vspace_mapping ?r s (of_nat y))"
    using s3(6) by (simp add: s'_def s2_def)
  have "proc_heap_inv p s'"
    unfolding proc_heap_inv_def using lock s3(2) l0 ldr fr(3) b btop un map'
    by (intro exI [of _ "proc\<lparr>heap_brk := b\<rparr>"] exI [of _ ldr]) (auto simp: s'_def s2_def word_le_def)
  then show ?thesis using that [OF run _ _ b map'] s3(4,5) fr(3) by (simp add: s'_def s2_def)
qed

section \<open>Loading a heap page\<close>

abbreviation heap_flags :: u64 where
  "heap_flags \<equiv> PG_WRITE OR PG_USER"

lemma unat_page: "unat (drop_bit PAGE_SHIFT a :: u64) = unat a div 4096"
  by (simp add: PAGE_SHIFT_def drop_bit_eq_div unat_div_word)

lemma heap_load_none:
  assumes inv: "proc_heap_inv p s" and proc: "procs s p = Some proc" and ldr: "loaders s (proc_loader proc) = Some ldr"
    and out: "\<not> (ldr_min_heap_break ldr \<le> addr \<and> addr < heap_brk proc)"
  shows "heap_load p addr s = Inr (- ENOENT, s)"
proof -
  have lock: "mutex_idle (heap_lock proc)" using inv proc by (auto simp: proc_heap_inv_def)
  define s1 where "s1 = s\<lparr>procs := (procs s)(p \<mapsto> proc\<lparr>heap_lock := mutex_taken (heap_lock proc) s\<rparr>)\<rparr>"
  have "proc_unlock heap_lock heap_lock_update p s1 = Inr s"
    using proc_unlock_taken [of s1 p _ heap_lock s "heap_lock proc"] lock proc by (simp add: s1_def fun_upd_idem)
  then show ?thesis
    using proc_lock_idle [of s p proc heap_lock heap_lock_update] lock proc ldr out
    by (auto simp: heap_load_def proc_at_def loader_at_def s1_def)
qed

lemma heap_load_found:
  assumes inv: "proc_heap_inv p s" and proc: "procs s p = Some proc" and ldr: "loaders s (proc_loader proc) = Some ldr"
    and rng: "ldr_min_heap_break ldr \<le> addr" "addr < heap_brk proc" and space: "4 \<le> free_frames s"
    and x: "x = unat addr div 4096" and fresh: "vspace_mapping (proc_vspace proc) s (of_nat x) = None"
  obtains s' f e where "heap_load p addr s = Inr (SUCCESS, s')" and "proc_heap_inv p s'" and "procs s' = procs s"
    and "vspace_mapping (proc_vspace proc) s' (of_nat x) = Some (leaf_entry f heap_flags e)"
    and "unat f \<notin> pg_used s" and "unat f < 2 ^ 35" and "\<forall>i. phys s' f i = 0"
    and "\<forall>y. user_page y \<longrightarrow> y \<noteq> x \<longrightarrow> vspace_mapping (proc_vspace proc) s' (of_nat y) = vspace_mapping (proc_vspace proc) s (of_nat y)"
    and "loaders s' = loaders s"
proof -
  let ?r = "proc_vspace proc"
  have lock: "mutex_idle (heap_lock proc)" and us: "user_space_inv ?r s" and top: "unat (heap_brk proc) \<le> 4096 * heap_top"
    and un: "\<forall>x < heap_top. unat (heap_brk proc) \<le> 4096 * x \<longrightarrow> vspace_mapping ?r s (of_nat x) = None"
    using inv proc ldr by (auto simp: proc_heap_inv_def)
  have ab: "unat addr < unat (heap_brk proc)" using rng(2) by (simp add: word_less_nat_alt)
  have xb: "4096 * x \<le> unat addr" unfolding x by simp
  have xu: "user_page x" using ab top xb by linarith
  define s1 where "s1 = s\<lparr>procs := (procs s)(p \<mapsto> proc\<lparr>heap_lock := mutex_taken (heap_lock proc) s\<rparr>)\<rparr>"
  have us1: "user_space_inv ?r s1" and sp1: "4 \<le> free_frames s1" using us space by (simp_all add: s1_def)
  have pg: "drop_bit PAGE_SHIFT addr = of_nat x" unfolding x unat_page [symmetric] by simp
  show ?thesis
  proof (rule user_map_fresh [OF us1 xu sp1, of heap_flags], goal_cases)
    case (1 s2 f)
    note fr = vm_frame_procs [OF 1(3)]
    define s' where "s' = s2\<lparr>procs := procs s\<rparr>"
    have unlock: "proc_unlock heap_lock heap_lock_update p s2 = Inr s'"
      using proc_unlock_taken [of s2 p _ heap_lock s "heap_lock proc"] lock proc fr(1,4)
      by (simp add: s'_def s1_def fun_upd_idem)
    have run: "heap_load p addr s = Inr (SUCCESS, s')"
      using proc_lock_idle [of s p proc heap_lock heap_lock_update] lock proc ldr rng 1(1) unlock
      by (simp add: heap_load_def proc_at_def loader_at_def s1_def pg)
    have other: "\<forall>y. user_page y \<longrightarrow> y \<noteq> x \<longrightarrow> vspace_mapping ?r s' (of_nat y) = vspace_mapping ?r s (of_nat y)"
      using 1(7) by (simp add: s'_def s1_def)
    obtain e where e: "vspace_mapping ?r s' (of_nat x) = Some (leaf_entry f heap_flags e)"
      using 1(6) fresh by (auto simp: s'_def s1_def)
    have "vspace_mapping ?r s' (of_nat y) = None" if "y < heap_top" "unat (heap_brk proc) \<le> 4096 * y" for y
      using other un that ab xb by (cases "y = x") auto
    then have "proc_heap_inv p s'"
      using inv proc 1(2) fr(3) by (auto simp: proc_heap_inv_def s'_def s1_def)
    then show ?case
      by (rule that [OF run _ _ e _ _ _ other]) (use 1 fr in \<open>simp_all add: s'_def s1_def\<close>)
  qed
qed


section \<open>Properties\<close>

lemma vm_tasks_update [simp]:
  "user_space_inv r (s\<lparr>tasks := x\<rparr>) = user_space_inv r s" "vspace_mapping r (s\<lparr>tasks := x\<rparr>) = vspace_mapping r s"
  "free_frames (s\<lparr>tasks := x\<rparr>) = free_frames s"
  by (simp_all add: user_space_inv_def vspace_inv_def free_frames_def vspace_mapping_def vspace_root_def pg_inv_def pg_used_def
    pg_total_def fun_eq_iff heap_inv_def heap_rel_def heap_pages_mapped_def vspace_disjoint_def vspace_owns_def)

text \<open>The small process, running.\<close>

definition small_task :: task_t where
  "small_task = \<lparr>tid = 7, task_state = TASK_RUNNING, task_context = 0, task_vspace = Vspace 0x1000, kstack_ptr = 0,
     kstack_base = 0, irq_wait = False, user_stack = 0, task_process = 0x2000\<rparr>"

definition small_running :: pstate where
  "small_running = small_user\<lparr>tasks := [0 \<mapsto> small_task]\<rparr>"

lemma small_running_fields:
  "procs small_running 0x2000 = Some small_proc" "loaders small_running (proc_loader small_proc) = Some small_loader"
  "current_process small_running = Inr 0x2000" "heap_brk small_proc = 0x500000" "ldr_min_heap_break small_loader = 0x500000"
  using small_user_fields
  by (simp_all add: small_running_def current_process_def small_task_def) (simp_all add: small_proc_def small_loader_def)

lemma small_running_heap: "proc_heap_inv 0x2000 small_running"
  unfolding proc_heap_inv_def
proof (intro exI conjI)
  show "procs small_running 0x2000 = Some small_proc" "loaders small_running (proc_loader small_proc) = Some small_loader"
    by (simp_all add: small_running_fields)
  show "user_space_inv (proc_vspace small_proc) small_running"
    using small_user_inv by (simp add: small_running_def) (simp add: small_proc_def)
  show "\<forall>x<heap_top. unat (heap_brk small_proc) \<le> 4096 * x \<longrightarrow> vspace_mapping (proc_vspace small_proc) small_running (of_nat x) = None"
    using small_user_unmapped by (simp add: small_running_def) (simp add: small_proc_def)
qed (simp_all add: small_running_fields, simp_all add: small_proc_def)

text \<open>
  C15: \<^verbatim>\<open>sys_sbrk\<close> returns the old break and moves it by the increment, but not below the end of the
  program. The pages between the new break and the old one are unmapped and no other page
  changes, so that no page between the break and the stacks is mapped afterwards.
\<close>

theorem sys_sbrk_spec:
  assumes "proc_heap_inv p s" and "current_process s = Inr p" and "procs s p = Some proc"
    and "loaders s (proc_loader proc) = Some ldr"
    and "0 \<le> uint (heap_brk proc) + sint increment" and "uint (heap_brk proc) + sint increment \<le> 4096 * int heap_top"
  shows "\<exists>b s'. sys_sbrk increment s = Inr (heap_brk proc, s') \<and> proc_heap_inv p s' \<and>
    procs s' = (procs s)(p \<mapsto> proc\<lparr>heap_brk := b\<rparr>) \<and>
    uint b = max (uint (ldr_min_heap_break ldr)) (uint (heap_brk proc) + sint increment) \<and>
    (\<forall>y. user_page y \<longrightarrow> vspace_mapping (proc_vspace proc) s' (of_nat y) =
      (if unat b \<le> 4096 * y \<and> 4096 * y < unat (heap_brk proc) then None else vspace_mapping (proc_vspace proc) s (of_nat y)))"
  by (rule sys_sbrk_ok [OF assms]) blast

theorem sys_sbrk_spec_witness:
  "\<exists>b s'. sys_sbrk 0x2001 small_running = Inr (0x500000, s') \<and> proc_heap_inv 0x2000 s' \<and>
    procs s' 0x2000 = Some (small_proc\<lparr>heap_brk := b\<rparr>) \<and> uint b = 0x502001"
  using sys_sbrk_spec [where increment = "0x2001", OF small_running_heap small_running_fields(3,1,2)]
  by (simp add: small_running_fields) (metis fun_upd_same)

text \<open>
  A page fault at an address of the heap whose page is not mapped gives it a zeroed frame that
  the process may write, and changes no other page. At an address outside the heap
  \<^verbatim>\<open>heap_load\<close> reports that there is none and changes nothing.
\<close>

theorem heap_load_spec:
  assumes "proc_heap_inv p s" and "procs s p = Some proc" and "loaders s (proc_loader proc) = Some ldr" and "4 \<le> free_frames s"
    and "vspace_mapping (proc_vspace proc) s (of_nat (unat addr div 4096)) = None"
  shows "if ldr_min_heap_break ldr \<le> addr \<and> addr < heap_brk proc
    then \<exists>s' e. heap_load p addr s = Inr (SUCCESS, s') \<and> proc_heap_inv p s' \<and> procs s' = procs s \<and>
      vspace_mapping (proc_vspace proc) s' (of_nat (unat addr div 4096)) = Some e \<and>
      gpte_write e \<and> gpte_user e \<and> unat (gpte_ppn e) \<notin> pg_used s \<and> (\<forall>i. phys s' (gpte_ppn e) i = 0) \<and>
      (\<forall>y. user_page y \<longrightarrow> y \<noteq> unat addr div 4096 \<longrightarrow> vspace_mapping (proc_vspace proc) s' (of_nat y) = vspace_mapping (proc_vspace proc) s (of_nat y))
    else heap_load p addr s = Inr (- ENOENT, s)"
proof (cases "ldr_min_heap_break ldr \<le> addr \<and> addr < heap_brk proc")
  case True
  then have "ldr_min_heap_break ldr \<le> addr" "addr < heap_brk proc" by simp_all
  from heap_load_found [OF assms(1-3) this assms(4) refl assms(5)] obtain s' f e
    where s': "heap_load p addr s = Inr (SUCCESS, s')" "proc_heap_inv p s'" "procs s' = procs s"
      "vspace_mapping (proc_vspace proc) s' (of_nat (unat addr div 4096)) = Some (leaf_entry f heap_flags e)"
      "unat f \<notin> pg_used s" "unat f < 2 ^ 35" "\<forall>i. phys s' f i = 0"
      "\<forall>y. user_page y \<longrightarrow> y \<noteq> unat addr div 4096 \<longrightarrow> vspace_mapping (proc_vspace proc) s' (of_nat y) = vspace_mapping (proc_vspace proc) s (of_nat y)"
    by metis
  have "gpte_ppn (leaf_entry f heap_flags e) = f" using s'(6) by (simp add: leaf_entry_fields take_bit_40_frame)
  moreover have "gpte_write (leaf_entry f heap_flags e)" "gpte_user (leaf_entry f heap_flags e)"
    by (simp_all add: leaf_entry_fields PG_USER_def PG_WRITE_def BIT_def)
  ultimately show ?thesis using s' True by (metis (no_types, lifting))
next
  case False
  then show ?thesis using heap_load_none [OF assms(1-3) False] by (simp only: if_False)
qed

text \<open>The small process after \<^verbatim>\<open>sbrk(0x2001)\<close>.\<close>

lemma small_grown:
  obtains b and s :: pstate where "proc_heap_inv 0x2000 s" and "procs s 0x2000 = Some (small_proc\<lparr>heap_brk := b\<rparr>)" and "b = 0x502001"
    and "loaders s (proc_loader small_proc) = Some small_loader" and "4 \<le> free_frames s"
    and "\<forall>y. user_page y \<longrightarrow> vspace_mapping (proc_vspace small_proc) s (of_nat y) = None"
proof (rule sys_sbrk_ok [where increment = "0x2001", OF small_running_heap small_running_fields(3,1,2)], goal_cases)
  case (3 b s)
  have un: "vspace_mapping (proc_vspace small_proc) small_running v = None" for v
    using small_user_unmapped by (simp add: small_running_def) (simp add: small_proc_def)
  have "uint b = uint (0x502001 :: u64)" using 3(5) by (simp add: small_running_fields)
  then have b: "b = 0x502001" by (simp only: unsigned_word_eqI)
  have "free_frames small_running = 55" using small_user_fields(3) by (simp add: small_running_def)
  then show ?case
    using 3(1) [OF 3(3) _ b] 3(4,6,7,8) un small_running_fields(2) by simp
qed (simp_all add: small_running_fields)

theorem heap_load_spec_witness:
  "\<exists>s s' :: pstate. heap_load 0x2000 0x501234 s = Inr (SUCCESS, s') \<and> vspace_mapping (Vspace 0x1000) s' 0x501 \<noteq> None"
proof (rule small_grown, goal_cases)
  case (1 b s)
  let ?p = "small_proc\<lparr>heap_brk := b\<rparr>"
  have r: "proc_vspace ?p = Vspace 0x1000" by (simp add: small_proc_def)
  have l: "loaders s (proc_loader ?p) = Some small_loader" using 1(4) by simp
  have "user_page (unat (0x501234 :: u64) div 4096)" by simp
  then have m: "vspace_mapping (proc_vspace ?p) s (of_nat (unat (0x501234 :: u64) div 4096)) = None"
    using 1(6) by (simp del: unat_numeral of_nat_numeral)
  show ?case
    using heap_load_spec [OF 1(1,2) l 1(5) m] 1(3) r by (auto simp: small_running_fields)
qed

lemma unmap_range_empty: "\<not> page \<le> last_unmap \<Longrightarrow> 0 < fuel \<Longrightarrow> unmap_range fuel r page last_unmap s = Inr s"
  by (cases fuel) simp_all

text \<open>
  An increment that would take the break below zero wraps around: the break moves up into the
  kernel half of the address space instead of down to the end of the program, no page is unmapped,
  and every address between the old break and the new one passes for an address of the heap.
\<close>

theorem sys_sbrk_wraps:
  assumes "proc_heap_inv p s" and "current_process s = Inr p" and "procs s p = Some proc"
    and "loaders s (proc_loader proc) = Some ldr" and "uint (heap_brk proc) + sint increment < 0" and "heap_brk proc \<noteq> 0"
  shows "\<exists>b s'. sys_sbrk increment s = Inr (heap_brk proc, s') \<and> procs s' = (procs s)(p \<mapsto> proc\<lparr>heap_brk := b\<rparr>) \<and>
    unat b \<ge> 2 ^ 63 \<and> (\<forall>v. vspace_mapping (proc_vspace proc) s' v = vspace_mapping (proc_vspace proc) s v)"
proof -
  let ?r = "proc_vspace proc" and ?old = "heap_brk proc" and ?min = "ldr_min_heap_break ldr"
  have lock: "mutex_idle (heap_lock proc)" and l0: "proc_loader proc \<noteq> NULL"
    and minle: "?min \<le> ?old" and top: "unat ?old \<le> 4096 * heap_top"
    using assms(1,3,4) by (auto simp: proc_heap_inv_def)
  have u: "uint x = int (unat x)" for x :: u64 by simp
  define b where "b = ?old + increment"
  have g: "- 9223372036854775808 \<le> sint increment" using sint_greater_eq [of increment] by simp
  define k where "k = uint ?old + sint increment + 18446744073709551616"
  have k: "0 \<le> k" "k < 18446744073709551616" unfolding k_def using g assms(5) uint_ge_0 [of ?old] by linarith+
  have "b = word_of_int k" by (simp add: b_def k_def)
  then have "uint b = k" using k by (simp add: uint_word_of_int_eq take_bit_int_eq_self)
  then have "9223372036854775808 \<le> unat b" using g uint_ge_0 [of ?old] unfolding u k_def by linarith
  then have big: "2 ^ 63 \<le> unat b" by simp
  have lt: "?old < b" using big top by (simp add: word_less_nat_alt)
  then have nmin: "\<not> b < ?min" using minle by simp
  have neg: "sint increment < 0" using assms(5) uint_ge_0 [of ?old] by linarith
  have nm: "?old \<noteq> -1"
  proof
    assume "?old = -1"
    with top show False by (simp add: unsigned_minus_1_eq_mask mask_eq_exp_minus_1)
  qed
  define lo hi where "lo = (unat b + 4095) div 4096" and "hi = (unat ?old + 4095) div 4096"
  have "\<not> lo \<le> 2251799813685247" unfolding lo_def ceil_le using big by simp
  moreover have "lo \<le> 4503599627370496" unfolding lo_def ceil_le using unat_lt_2p64 [of b] by simp
  moreover have hi: "hi \<le> heap_top" unfolding hi_def ceil_le by (rule top)
  moreover have "0 < unat ?old" using assms(6) by (simp add: unat_gt_0)
  then have hi0: "\<not> hi \<le> 0" unfolding hi_def ceil_le by simp
  ultimately have nle: "\<not> (of_nat lo :: u64) \<le> of_nat hi - 1"
  proof -
    define h l :: u64 where "h = of_nat hi" and "l = of_nat lo"
    assume A: "\<not> lo \<le> 2251799813685247" "lo \<le> 4503599627370496" "hi \<le> heap_top"
    have h: "unat h = hi" and l: "unat l = lo" unfolding h_def l_def using A by (auto intro!: unat_of_nat_small)
    have "1 \<le> h" using hi0 h by (simp add: word_le_nat_alt)
    then have "unat (h - 1) = hi - 1" using h by (simp add: unat_sub_no_wrap)
    then show ?thesis using A l by (simp add: word_le_nat_alt flip: h_def l_def)
  qed
  define proc1 where "proc1 = proc\<lparr>heap_lock := mutex_taken (heap_lock proc) s\<rparr>"
  define s2 where "s2 = s\<lparr>procs := (procs s)(p \<mapsto> proc1\<lparr>heap_brk := b\<rparr>)\<rparr>"
  have loop: "unmap_range address_fuel ?r (drop_bit PAGE_SHIFT b + (if b mod PAGE_SIZE \<noteq> 0 then 1 else 0))
      (drop_bit PAGE_SHIFT ?old - (if ?old mod PAGE_SIZE = 0 then 1 else 0)) s2 = Inr s2"
    unfolding page_ceil using nle by (intro unmap_range_empty) (simp_all only: lo_def hi_def, simp)
  define s' where "s' = s2\<lparr>procs := (procs s)(p \<mapsto> proc\<lparr>heap_brk := b\<rparr>)\<rparr>"
  have unlock: "proc_unlock heap_lock heap_lock_update p s2 = Inr s'"
    using proc_unlock_taken [of s2 p _ heap_lock s "heap_lock proc"] lock by (simp add: s'_def s2_def proc1_def)
  have run: "sys_sbrk increment s = Inr (?old, s')"
    unfolding sys_sbrk_def using assms(2-4) l0 nm nmin neg proc_lock_idle [of s p proc heap_lock heap_lock_update] lock unlock loop
    by (simp add: proc_at_def proc_set_def loader_at_def Let_def s2_def proc1_def b_def split del: if_split cong: if_cong)
  then show ?thesis using big by (intro exI [of _ b] exI [of _ s']) (simp add: s'_def s2_def)
qed

theorem sys_sbrk_wraps_witness:
  "\<exists>b s'. sys_sbrk (- 0x600000) small_running = Inr (0x500000, s') \<and>
    procs s' 0x2000 = Some (small_proc\<lparr>heap_brk := b\<rparr>) \<and> 2 ^ 63 \<le> unat b"
  using sys_sbrk_wraps [where increment = "- 0x600000", OF small_running_heap small_running_fields(3,1,2)]
  by (simp add: small_running_fields) (metis fun_upd_same)

end
