(* ===== verification/Files.thy ===== *)
theory Files
  imports Sbrk
begin

text \<open>
  The structures of the virtual file system, \<^verbatim>\<open>fs/vfs.h\<close>, the state that holds the objects of these
  types by address, and the operations of \<^verbatim>\<open>fs/vfs.c\<close> on one open file.

  A read function of \<^verbatim>\<open>f_ops_t\<close> gets the driver's data, the number of bytes and the offset. Its value is
  what it returns and the bytes it has stored from the start of the buffer. What the drivers of the repository change
  besides while they read (the memory disk nothing; ext2 takes and releases a heap buffer and moves the position of its
  device) is modelled and bounded with the drivers, in \<open>Block_Devices\<close> and \<open>Ext2\<close>.
\<close>

type_synonym byte = u8

section \<open>Structures\<close>

type_synonym ftype_t = u32

definition F_FIFO :: ftype_t where "F_FIFO = 0x1000"
definition F_CHAR :: ftype_t where "F_CHAR = 0x2000"
definition F_DIR :: ftype_t where "F_DIR = 0x4000"
definition F_BLOCK :: ftype_t where "F_BLOCK = 0x6000"
definition F_REGULAR :: ftype_t where "F_REGULAR = 0x8000"
definition F_SYMLINK :: ftype_t where "F_SYMLINK = 0xa000"
definition F_SOCKET :: ftype_t where "F_SOCKET = 0xc000"

definition BLOCK_SIZE :: u64 where "BLOCK_SIZE = 512"

definition SEEK_SET :: int where "SEEK_SET = 1"
definition SEEK_CUR :: int where "SEEK_CUR = 2"
definition SEEK_END :: int where "SEEK_END = 3"

record fmode_t =
  o_x :: bool
  o_w :: bool
  o_r :: bool
  g_x :: bool
  g_w :: bool
  g_r :: bool
  u_x :: bool
  u_w :: bool
  u_r :: bool
  sticky :: bool
  setgid :: bool
  setuid :: bool

record direntry_t =
  de_name :: string
  de_inode :: u64
  de_file :: u64

record f_ops_t =
  fop_read :: "(u64 \<Rightarrow> u64 \<Rightarrow> u64 \<Rightarrow> int \<times> byte list) option"
  fop_write :: "(u64 \<Rightarrow> byte list \<Rightarrow> u64 \<Rightarrow> int) option"

record fd_t =
  fd_file :: u64
  fpos :: u64
  f_ops :: f_ops_t
  fs_data :: u64
  fdmod :: mutex_t

record dir_t =
  dir_file :: u64
  dir_files :: "u64 list"
  dir_parent :: u64
  dir_mounted :: u64
  dir_fstype :: u64
  dir_driver :: u64

datatype sp_file_u = Sp_None | Sp_Directory u64 | Sp_Symlink u64 | Sp_Device u32 u32

record file_t =
  file_mode :: fmode_t
  file_type :: ftype_t
  file_uid :: u32
  file_gid :: u32
  t_last_modified :: u64
  t_last_accessed :: u64
  t_created :: u64
  file_length :: u64
  file_inode :: u64
  file_driver1 :: u64
  file_driver2 :: u64
  file_parent :: u64
  file_special :: sp_file_u

record fstate = pstate +
  fds :: "u64 \<rightharpoonup> fd_t"
  files :: "u64 \<rightharpoonup> file_t"
  dirs :: "u64 \<rightharpoonup> dir_t"
  direntries :: "u64 \<rightharpoonup> direntry_t"
  vfs_root :: u64
  fs_tree_lock :: mutex_t

definition fd_at :: "u64 \<Rightarrow> 'a fstate_scheme \<Rightarrow> fd_t result" where
  "fd_at p s = (case fds s p of None \<Rightarrow> Inl (Mem_Fault ''fd_t'') | Some x \<Rightarrow> Inr x)"

definition fd_set :: "u64 \<Rightarrow> fd_t \<Rightarrow> 'a fstate_scheme \<Rightarrow> 'a fstate_scheme" where
  "fd_set p x s = s\<lparr>fds := (fds s)(p \<mapsto> x)\<rparr>"

definition file_at :: "u64 \<Rightarrow> 'a fstate_scheme \<Rightarrow> file_t result" where
  "file_at p s = (case files s p of None \<Rightarrow> Inl (Mem_Fault ''file_t'') | Some x \<Rightarrow> Inr x)"

section \<open>Open files\<close>

definition vfs_read :: "u64 \<Rightarrow> u64 \<Rightarrow> 'a fstate_scheme \<Rightarrow> (int \<times> byte list) result" where
  "vfs_read fd len s =
     rbind (fd_at fd s) (\<lambda>d.
     case fop_read (f_ops d) of
       None \<Rightarrow> Inr (- ENOTSUP, [])
     | Some read \<Rightarrow> Inr (read (fs_data d) len (fpos d)))"

definition vfs_seek :: "u64 \<Rightarrow> u64 \<Rightarrow> int \<Rightarrow> 'a fstate_scheme \<Rightarrow> (u64 \<times> 'a fstate_scheme) result" where
  "vfs_seek fd offset whence s =
     rbind (fd_at fd s) (\<lambda>d.
     if whence = SEEK_SET then Inr (offset, fd_set fd (d\<lparr>fpos := offset\<rparr>) s)
     else if whence = SEEK_CUR then Inr (offset, fd_set fd (d\<lparr>fpos := fpos d + offset\<rparr>) s)
     else if whence = SEEK_END then
       rbind (file_at (fd_file d) s) (\<lambda>f. Inr (offset, fd_set fd (d\<lparr>fpos := file_length f + offset\<rparr>) s))
     else Inr (offset, s))"

definition vfs_dup :: "u64 \<Rightarrow> u64" where
  "vfs_dup fd = fd"

definition vfs_close :: "u64 \<Rightarrow> 'a fstate_scheme \<Rightarrow> 'a fstate_scheme result" where
  "vfs_close fd s = rbind (kfree fd s) (\<lambda>s. Inr (s\<lparr>fds := (fds s)(fd := None)\<rparr>))"

text \<open>
  What a client of an open file relies on: the file has contents, and a read stores the bytes from the
  offset on, as many as were asked for and as there are, and returns their number.
\<close>

definition reads :: "f_ops_t \<Rightarrow> u64 \<Rightarrow> byte list \<Rightarrow> bool" where
  "reads ops data contents \<longleftrightarrow>
     (\<exists>read. fop_read ops = Some read \<and>
       (\<forall>len off. read data len off =
          (let bytes = take (unat len) (drop (unat off) contents) in (int (length bytes), bytes))))"

lemma vfs_seek_set [simp]:
  "fds s fd = Some d \<Longrightarrow> vfs_seek fd off SEEK_SET s = Inr (off, s\<lparr>fds := (fds s)(fd \<mapsto> d\<lparr>fpos := off\<rparr>)\<rparr>)"
  by (simp add: vfs_seek_def fd_at_def fd_set_def)

lemma vfs_read_reads:
  assumes "fds s fd = Some d" and "reads (f_ops d) (fs_data d) contents"
  shows "vfs_read fd len s =
    Inr (int (length (take (unat len) (drop (unat (fpos d)) contents))), take (unat len) (drop (unat (fpos d)) contents))"
  using assms by (auto simp: vfs_read_def fd_at_def reads_def Let_def)

lemma vm_fd_update [simp]:
  "user_space_inv r (s\<lparr>fds := x\<rparr>) = user_space_inv r s" "vspace_mapping r (s\<lparr>fds := x\<rparr>) = vspace_mapping r s"
  "free_frames (s\<lparr>fds := x\<rparr>) = free_frames s" "pg_used (s\<lparr>fds := x\<rparr>) = pg_used s"
  "heap_live (s\<lparr>fds := x\<rparr>) = heap_live s" "heap_room (s\<lparr>fds := x\<rparr>) n = heap_room s n" "heap_inv (s\<lparr>fds := x\<rparr>) = heap_inv s"
  by (simp_all add: user_space_inv_def vspace_inv_def free_frames_def vspace_mapping_def vspace_root_def pg_inv_def pg_used_def
    pg_total_def fun_eq_iff heap_inv_def heap_rel_def heap_pages_mapped_def vspace_disjoint_def vspace_owns_def heap_live_def heap_room_def)

lemma vm_frame_files:
  assumes "vm_frame s s'"
  shows "fds s' = fds s" "files s' = files s" "dirs s' = dirs s" "direntries s' = direntries s"
  using assms by (auto simp: vm_frame_def)

lemma hstate_more_files:
  assumes "hstate.more s' = hstate.more s"
  shows "fds s' = fds s" "files s' = files s" "dirs s' = dirs s" "direntries s' = direntries s"
  using assms by (cases s; cases s'; simp add: fstate.defs)+

end
