(* ===== verification/Elf_Loader.thy ===== *)
theory Elf_Loader
  imports Files
begin

text \<open>
  The program loader, \<^verbatim>\<open>sched/loader.c\<close>: reading the ELF header and the program header table of a file,
  the end of the program (\<^verbatim>\<open>load_heap_brk\<close>), and loading one page of a segment when the process touches it
  (\<^verbatim>\<open>loader_load\<close>). \<open>junk\<close> stands for what a new block of the heap holds before anything is stored there.
\<close>

section \<open>Bytes\<close>

text \<open>Integers in memory, the low byte first.\<close>

fun le_nat :: "byte list \<Rightarrow> nat" where
  "le_nat [] = 0"
| "le_nat (b # bs) = unat b + 256 * le_nat bs"

definition le_at :: "byte list \<Rightarrow> nat \<Rightarrow> nat \<Rightarrow> 'a::len word" where
  "le_at buf off n = of_nat (le_nat (take n (drop off buf)))"

definition buffer :: "(nat \<Rightarrow> byte) \<Rightarrow> nat \<Rightarrow> byte list \<Rightarrow> byte list" where
  "buffer junk n bytes = bytes @ map junk [length bytes..<n]"

definition elf64_of_bytes :: "byte list \<Rightarrow> elf64_t" where
  "elf64_of_bytes b = \<lparr>elf_magic = le_at b 0 4, elf_type = le_at b 4 1, elf_endianness = le_at b 5 1,
     elf_header_version = le_at b 6 1, elf_os_abi = le_at b 7 1, elf_reserved1 = le_at b 8 8, elf_bintype = le_at b 16 2,
     elf_isa = le_at b 18 2, elf_elf_version = le_at b 20 4, elf_entry = le_at b 24 8, elf_pht_pos = le_at b 32 8,
     elf_sht_pos = le_at b 40 8, elf_flags = le_at b 48 4, elf_header_size = le_at b 52 2, elf_pht_entry_size = le_at b 54 2,
     elf_pht_entries = le_at b 56 2, elf_sht_entry_size = le_at b 58 2, elf_sht_entries = le_at b 60 2,
     elf_sht_index_names = le_at b 62 2\<rparr>"

definition phte_of_bytes :: "byte list \<Rightarrow> elf64_phte_t" where
  "phte_of_bytes b = \<lparr>ph_type = le_at b 0 4, ph_flags = le_at b 4 4, p_offset = le_at b 8 8, p_vaddr = le_at b 16 8,
     ph_undefined = le_at b 24 8, p_filesz = le_at b 32 8, p_memsz = le_at b 40 8, ph_alignment = le_at b 48 8\<rparr>"

fun pht_of_bytes :: "nat \<Rightarrow> byte list \<Rightarrow> elf64_phte_t list" where
  "pht_of_bytes 0 b = []"
| "pht_of_bytes (Suc n) b = phte_of_bytes (take 56 b) # pht_of_bytes n (drop 56 b)"

text \<open>The bytes of a page frame, and storing bytes at its start.\<close>

definition frame_byte :: "(nat \<Rightarrow> u64) \<Rightarrow> nat \<Rightarrow> byte" where
  "frame_byte w j = ucast (drop_bit (8 * (j mod 8)) (w (j div 8)))"

definition frame_store :: "byte list \<Rightarrow> (nat \<Rightarrow> u64) \<Rightarrow> nat \<Rightarrow> u64" where
  "frame_store bytes w i =
     of_nat (le_nat (map (\<lambda>k. if 8 * i + k < length bytes then bytes ! (8 * i + k) else frame_byte w (8 * i + k)) [0..<8]))"

section \<open>Operations\<close>

definition ELF_ENDIANNESS :: u8 where "ELF_ENDIANNESS = 1"
definition ELF_ISA :: u16 where "ELF_ISA = 0x3e"

definition LOAD :: u32 where "LOAD = 1"

definition arch_str :: "u16 \<Rightarrow> string" where
  "arch_str arch =
     (if arch = 0x00 then ''No-Arch'' else if arch = 0x02 then ''SPARC'' else if arch = 0x03 then ''i386''
      else if arch = 0x08 then ''MIPS'' else if arch = 0x14 then ''PowerPC'' else if arch = 0x28 then ''ARM''
      else if arch = 0xb7 then ''AArch64'' else if arch = 0x32 then ''IA64'' else if arch = 0x3e then ''x86_64''
      else ''Unknown architecture'')"

definition header_at :: "u64 \<Rightarrow> 'a pstate_scheme \<Rightarrow> elf64_t result" where
  "header_at p s = (case elf_headers s p of None \<Rightarrow> Inl (Mem_Fault ''elf64_t'') | Some x \<Rightarrow> Inr x)"

text \<open>The first \<open>n\<close> entries of the table at \<open>p\<close>.\<close>

definition pht_at :: "u64 \<Rightarrow> nat \<Rightarrow> 'a pstate_scheme \<Rightarrow> elf64_phte_t list result" where
  "pht_at p n s =
     (case phts s p of None \<Rightarrow> Inl (Mem_Fault ''elf64_phte_t'')
      | Some t \<Rightarrow> if n \<le> length t then Inr (take n t) else Inl (Mem_Fault ''elf64_phte_t''))"

definition load_pht :: "(nat \<Rightarrow> byte) \<Rightarrow> u64 \<Rightarrow> 'a fstate_scheme \<Rightarrow> (int \<times> 'a fstate_scheme) result" where
  "load_pht junk l s =
     rbind (loader_at l s) (\<lambda>ldr.
     rbind (mutex_held (ldr_lock ldr) s) (\<lambda>held.
     rbind (kassert held ''loader lock not held'') (\<lambda>_.
     rbind (header_at (ldr_header ldr) s) (\<lambda>header.
     let phte_count = ucast (elf_pht_entries header) :: u64;
         phte_size = ucast (elf_pht_entry_size header) :: u64;
         pht_size = phte_count * phte_size in
     if phte_size \<noteq> 56 then Inr (- ENOEXEC, s)
     else
       rbind (kmalloc pht_size 81 0 s) (\<lambda>(pht, s).
       rbind (vfs_seek (ldr_file ldr) (elf_pht_pos header) SEEK_SET s) (\<lambda>(_, s).
       rbind (vfs_read (ldr_file ldr) pht_size s) (\<lambda>(n, bytes).
       if (of_int n :: u64) < pht_size then
         rbind (kfree pht s) (\<lambda>s. Inr (- ENOEXEC, s))
       else
         let s = s\<lparr>phts := (phts s)(pht \<mapsto> pht_of_bytes (unat phte_count) (buffer junk (unat pht_size) bytes))\<rparr> in
         Inr (SUCCESS, loader_set l (ldr\<lparr>ldr_pht := pht\<rparr>) s))))))))"

definition segment_read_size :: "elf64_phte_t \<Rightarrow> u64 \<Rightarrow> u64" where
  "segment_read_size phte f_addr =
     (if p_vaddr phte + p_memsz phte < f_addr + PAGE_SIZE then p_vaddr phte + p_memsz phte - f_addr else PAGE_SIZE)"

definition segment_flags :: "elf64_phte_t \<Rightarrow> u64" where
  "segment_flags phte =
     PG_USER OR (if \<not> bit (ph_flags phte) 0 then PG_NOEXEC else 0) OR (if bit (ph_flags phte) 1 then PG_WRITE else 0)"

definition loader_map_page ::
  "u64 \<Rightarrow> elf64_phte_t \<Rightarrow> u64 \<Rightarrow> vspace_ref \<Rightarrow> 'a fstate_scheme \<Rightarrow> (int \<times> 'a fstate_scheme) result" where
  "loader_map_page l phte virt_page vspace s =
     rbind (loader_at l s) (\<lambda>ldr.
     rbind (mutex_held (ldr_lock ldr) s) (\<lambda>held.
     rbind (kassert held ''loader lock not held'') (\<lambda>_.
     rbind (alloc_page s) (\<lambda>(ppn, s).
     let f_addr = push_bit PAGE_SHIFT virt_page in
     rbind (if p_vaddr phte + p_memsz phte > f_addr then
              let read_size = segment_read_size phte f_addr;
                  read_offset = p_offset phte + f_addr - p_vaddr phte in
              rbind (vfs_seek (ldr_file ldr) read_offset SEEK_SET s) (\<lambda>(_, s).
              rbind (kassert (read_size \<le> PAGE_SIZE) ''invalid read size calculation'') (\<lambda>_.
              rbind (vfs_read (ldr_file ldr) read_size s) (\<lambda>(n, bytes).
              Inr (n, s\<lparr>phys := (phys s)(ppn := frame_store bytes (phys s ppn))\<rparr>))))
            else Inr (0, s)) (\<lambda>(n, s).
     if n < 0 then rbind (free_page ppn s) (\<lambda>s. Inr (- EIO, s))
     else rbind (vspace_map vspace virt_page ppn (segment_flags phte) s) (\<lambda>s. Inr (SUCCESS, s)))))))"

definition loader_lock :: "u64 \<Rightarrow> 'a pstate_scheme \<Rightarrow> 'a pstate_scheme result" where
  "loader_lock l s =
     rbind (loader_at l s) (\<lambda>x. rbind (mutex_lock (ldr_lock x) s) (\<lambda>m. Inr (loader_set l (x\<lparr>ldr_lock := m\<rparr>) s)))"

definition loader_unlock :: "u64 \<Rightarrow> 'a pstate_scheme \<Rightarrow> 'a pstate_scheme result" where
  "loader_unlock l s =
     rbind (loader_at l s) (\<lambda>x. rbind (mutex_unlock (ldr_lock x) s) (\<lambda>(m, s). Inr (loader_set l (x\<lparr>ldr_lock := m\<rparr>) s)))"

text \<open>The body of the loop of \<^verbatim>\<open>load_heap_brk\<close>.\<close>

definition raise_break :: "elf64_phte_t \<Rightarrow> u64 \<Rightarrow> u64" where
  "raise_break phte min_heap_break =
     (if ph_type phte \<noteq> LOAD then min_heap_break
      else let phte_end_addr = p_vaddr phte + p_memsz phte in
        if phte_end_addr > min_heap_break then push_bit PAGE_SHIFT (drop_bit PAGE_SHIFT phte_end_addr + 1)
        else min_heap_break)"

text \<open>Both entry points load the program header table when it has not been loaded yet.\<close>

definition ensure_pht :: "(nat \<Rightarrow> byte) \<Rightarrow> u64 \<Rightarrow> 'a fstate_scheme \<Rightarrow> (int \<times> 'a fstate_scheme) result" where
  "ensure_pht junk l s =
     rbind (loader_at l s) (\<lambda>ldr. if ldr_pht ldr = NULL then load_pht junk l s else Inr (SUCCESS, s))"

definition load_heap_brk :: "(nat \<Rightarrow> byte) \<Rightarrow> u64 \<Rightarrow> 'a fstate_scheme \<Rightarrow> (int \<times> 'a fstate_scheme) result" where
  "load_heap_brk junk l s =
     rbind (loader_at l s) (\<lambda>ldr.
     rbind (kassert (ldr_header ldr \<noteq> NULL \<and> ldr_file ldr \<noteq> NULL) ''invalid loader_t object'') (\<lambda>_.
     rbind (loader_lock l s) (\<lambda>s.
     rbind (ensure_pht junk l s) (\<lambda>(status, s).
     if status < 0 then Inr (status, s)
     else
       rbind (loader_at l s) (\<lambda>ldr.
       rbind (header_at (ldr_header ldr) s) (\<lambda>header.
       rbind (pht_at (ldr_pht ldr) (unat (elf_pht_entries header)) s) (\<lambda>pht.
       let min_heap_break = fold raise_break pht 0 in
       rbind (kassert (min_heap_break \<noteq> 0) ''invalid heap break'') (\<lambda>_.
       rbind (loader_unlock l (loader_set l (ldr\<lparr>ldr_min_heap_break := min_heap_break\<rparr>) s)) (\<lambda>s.
       Inr (SUCCESS, s))))))))))"

text \<open>\<^verbatim>\<open>sizeof(elf64_t)\<close> is 64 and \<^verbatim>\<open>sizeof(loader_t)\<close> is 120.\<close>

definition loader_create ::
  "(u64 \<Rightarrow> loader_t) \<Rightarrow> (nat \<Rightarrow> byte) \<Rightarrow> u64 \<Rightarrow> 'a fstate_scheme \<Rightarrow> (u64 \<times> 'a fstate_scheme) result" where
  "loader_create raw junk file s =
     rbind (kmalloc 64 182 0 s) (\<lambda>(hdr, s).
     rbind (vfs_seek file 0 SEEK_SET s) (\<lambda>(_, s).
     rbind (vfs_read file 64 s) (\<lambda>(n, bytes).
     let header = elf64_of_bytes (buffer junk 64 bytes);
         s' = s\<lparr>elf_headers := (elf_headers s)(hdr \<mapsto> header)\<rparr>;
         fail = rbind (kfree hdr s) (\<lambda>s. Inr (NULL, s)) in
     if n < 0 then fail
     else if elf_magic header \<noteq> 0x464c457f then fail
     else if elf_isa header \<noteq> ELF_ISA \<or> elf_endianness header \<noteq> ELF_ENDIANNESS then fail
     else
       rbind (kmalloc 120 210 0 s') (\<lambda>(l, s).
       rbind (mutex_init (ldr_lock (case loaders s l of None \<Rightarrow> raw l | Some x \<Rightarrow> x))) (\<lambda>m.
       let s = loader_set l \<lparr>ldr_file = file, ldr_entry_addr = elf_entry header, ldr_header = hdr, ldr_pht = NULL,
                 ldr_lock = m, ldr_refs = 1,
                 ldr_min_heap_break = ldr_min_heap_break (case loaders s l of None \<Rightarrow> raw l | Some x \<Rightarrow> x)\<rparr> s in
       rbind (load_heap_brk junk l s) (\<lambda>(status, s).
       if status < 0 then rbind (loader_at l s) (\<lambda>ldr. Inr (l, loader_set l (ldr\<lparr>ldr_min_heap_break := -1\<rparr>) s))
       else Inr (l, s)))))))"

fun find_segment :: "elf64_phte_t list \<Rightarrow> u64 \<Rightarrow> elf64_phte_t option" where
  "find_segment [] vaddr = None"
| "find_segment (phte # ps) vaddr =
     (if ph_type phte \<noteq> LOAD then find_segment ps vaddr
      else if vaddr \<ge> p_vaddr phte \<and> vaddr < p_vaddr phte + p_memsz phte then Some phte
      else find_segment ps vaddr)"

definition loader_load ::
  "(nat \<Rightarrow> byte) \<Rightarrow> u64 \<Rightarrow> u64 \<Rightarrow> vspace_ref \<Rightarrow> 'a fstate_scheme \<Rightarrow> (int \<times> 'a fstate_scheme) result" where
  "loader_load junk l virt_page vspace s =
     rbind (kassert (l \<noteq> NULL) ''invalid loader_t object'') (\<lambda>_.
     rbind (loader_at l s) (\<lambda>ldr.
     rbind (kassert (ldr_header ldr \<noteq> NULL \<and> ldr_file ldr \<noteq> NULL) ''invalid loader_t object'') (\<lambda>_.
     rbind (loader_lock l s) (\<lambda>s.
     rbind (ensure_pht junk l s) (\<lambda>(status, s).
     if status < 0 then Inr (status, s)
     else
       rbind (loader_at l s) (\<lambda>ldr.
       rbind (header_at (ldr_header ldr) s) (\<lambda>header.
       rbind (pht_at (ldr_pht ldr) (unat (elf_pht_entries header)) s) (\<lambda>pht.
       rbind (case find_segment pht (push_bit PAGE_SHIFT virt_page) of
                Some phte \<Rightarrow> loader_map_page l phte virt_page vspace s
              | None \<Rightarrow> Inr (- ENOENT, s)) (\<lambda>(status, s).
       rbind (loader_unlock l s) (\<lambda>s. Inr (status, s)))))))))))"

definition loader_release :: "u64 \<Rightarrow> 'a fstate_scheme \<Rightarrow> 'a fstate_scheme result" where
  "loader_release l s =
     rbind (loader_lock l s) (\<lambda>s.
     rbind (loader_at l s) (\<lambda>ldr.
     let refs = ldr_refs ldr - 1 in
     rbind (loader_unlock l (loader_set l (ldr\<lparr>ldr_refs := refs\<rparr>) s)) (\<lambda>s.
     if refs \<noteq> 0 then Inr s
     else
       rbind (vfs_close (ldr_file ldr) s) (\<lambda>s.
       rbind (kfree (ldr_header ldr) s) (\<lambda>s.
       rbind (if ldr_pht ldr \<noteq> NULL then kfree (ldr_pht ldr) s else Inr s) (\<lambda>s.
       rbind (loader_at l s) (\<lambda>ldr.
       rbind (mutex_destroy (ldr_lock ldr)) (\<lambda>_.
       rbind (kfree l s) (\<lambda>s.
       Inr (s\<lparr>loaders := (loaders s)(l := None), elf_headers := (elf_headers s)(ldr_header ldr := None),
              phts := (phts s)(ldr_pht ldr := None)\<rparr>))))))))))"

section \<open>Bytes of a frame\<close>

lemma le_nat_less: "le_nat bs < 256 ^ length bs"
proof (induction bs)
  case (Cons b bs)
  have "unat b < 256" using unsigned_less [of b, where ?'a = nat] by simp
  moreover have "256 * (le_nat bs + 1) \<le> 256 * 256 ^ length bs" using Cons by (intro mult_le_mono2) simp
  ultimately show ?case by simp
qed simp

lemma le_nat_byte: "k < length bs \<Longrightarrow> le_nat bs div 256 ^ k mod 256 = unat (bs ! k)"
proof (induction bs arbitrary: k)
  case (Cons b bs)
  have b: "unat b < 256" using unsigned_less [of b, where ?'a = nat] by simp
  show ?case
  proof (cases k)
    case (Suc j)
    have "(unat b + 256 * le_nat bs) div 256 ^ k = (unat b + 256 * le_nat bs) div 256 div 256 ^ j"
      by (simp add: Suc div_mult2_eq)
    also have "\<dots> = le_nat bs div 256 ^ j" using b by simp
    finally show ?thesis using Cons Suc by simp
  qed (use b in simp)
qed simp

lemma le_word_byte:
  assumes "k < length bs" and "length bs \<le> 8"
  shows "ucast (drop_bit (8 * k) (of_nat (le_nat bs) :: u64)) = bs ! k"
proof -
  define n where "n = le_nat bs"
  have "(256 :: nat) ^ length bs \<le> 256 ^ 8" using assms(2) by (rule power_increasing) simp
  then have "n < 256 ^ 8" using le_nat_less [of bs] by (simp add: n_def)
  then have u: "unat (of_nat n :: u64) = n" by (intro unat_of_nat_small) simp
  have p: "(2 :: nat) ^ (8 * k) = 256 ^ k" by (simp add: power_mult)
  have "unat (ucast (drop_bit (8 * k) (of_nat n :: u64)) :: byte) = n div 256 ^ k mod 256"
  proof -
    have "unat (drop_bit (8 * k) (of_nat n :: u64)) = drop_bit (8 * k) n" 
      using \<open>n < 256 ^ 8\<close> by (subst unsigned_drop_bit_eq, subst u, subst take_bit_nat_eq_self) simp_all
    also have "\<dots> = n div 256 ^ k" by (simp only: drop_bit_eq_div p)
    finally show ?thesis by (simp add: unsigned_ucast_eq take_bit_nat_def)
  qed
  also have "\<dots> = unat (bs ! k)" using le_nat_byte [OF assms(1)] by (simp add: n_def)
  finally show ?thesis unfolding n_def by (rule unsigned_word_eqI)
qed

lemma frame_store_byte:
  "frame_byte (frame_store bytes w) j = (if j < length bytes then bytes ! j else frame_byte w j)"
proof -
  have j: "8 * (j div 8) + j mod 8 = j" by simp
  show ?thesis
    unfolding frame_byte_def [of "frame_store bytes w"] frame_store_def by (subst le_word_byte) (simp_all add: j)
qed

lemma frame_byte_zero: "frame_byte (\<lambda>_. 0) j = 0"
  by (simp add: frame_byte_def)

section \<open>The end of the program\<close>

definition seg_end :: "elf64_phte_t \<Rightarrow> nat" where
  "seg_end phte = unat (p_vaddr phte) + unat (p_memsz phte)"

text \<open>Segments of the lower half of the address space, as every process has them.\<close>

definition seg_ok :: "elf64_phte_t \<Rightarrow> bool" where
  "seg_ok phte \<longleftrightarrow> (ph_type phte = LOAD \<longrightarrow> seg_end phte \<le> unat USER_BREAK)"

lemma seg_end_word:
  assumes "seg_ok phte" and "ph_type phte = LOAD"
  shows "unat (p_vaddr phte + p_memsz phte) = seg_end phte"
proof -
  have "seg_end phte < 2 ^ 64" using assms by (simp add: seg_ok_def USER_BREAK_def)
  then show ?thesis unfolding seg_end_def by (intro unat_add_no_wrap) simp
qed

lemma next_page:
  assumes "unat a \<le> unat USER_BREAK"
  shows "unat (push_bit PAGE_SHIFT (drop_bit PAGE_SHIFT a + 1) :: u64) = 4096 * (unat a div 4096 + 1)"
proof -
  have "unat a div 4096 \<le> unat USER_BREAK div 4096" using assms by (rule div_le_mono)
  then have q: "unat a div 4096 \<le> 34359738368" by (simp add: USER_BREAK_def)
  define w where "w = drop_bit PAGE_SHIFT a + 1"
  have w: "unat w = unat a div 4096 + 1" unfolding w_def using q by (subst unat_add_no_wrap) (simp_all add: unat_page)
  have "unat (push_bit 12 w) = take_bit 64 (4096 * (unat a div 4096 + 1))"
    unfolding unsigned_push_bit_eq w by (simp add: push_bit_eq_mult mult.commute)
  also have "\<dots> = 4096 * (unat a div 4096 + 1)" using q by (intro take_bit_nat_eq_self) simp
  finally show ?thesis by (simp add: PAGE_SHIFT_def w_def)
qed

lemma fold_raise_break:
  assumes "\<forall>phte \<in> set ps. seg_ok phte" and "4096 dvd unat b"
  shows "4096 dvd unat (fold raise_break ps b) \<and> unat b \<le> unat (fold raise_break ps b) \<and>
    (\<forall>phte \<in> set ps. ph_type phte = LOAD \<longrightarrow> seg_end phte \<le> unat (fold raise_break ps b)) \<and>
    (fold raise_break ps b = b \<or>
     (\<exists>phte \<in> set ps. ph_type phte = LOAD \<and> unat (fold raise_break ps b) \<le> seg_end phte + 4096))"
  using assms
proof (induction ps arbitrary: b)
  case (Cons p ps)
  let ?b = "raise_break p b"
  have ok: "seg_ok p" "\<forall>phte \<in> set ps. seg_ok phte" using Cons.prems(1) by simp_all
  have step: "4096 dvd unat ?b \<and> unat b \<le> unat ?b \<and> (ph_type p = LOAD \<longrightarrow> seg_end p \<le> unat ?b) \<and>
    (?b = b \<or> ph_type p = LOAD \<and> unat ?b \<le> seg_end p + 4096)"
  proof (cases "ph_type p = LOAD \<and> b < p_vaddr p + p_memsz p")
    case True
    have e: "unat (p_vaddr p + p_memsz p) = seg_end p" using seg_end_word ok(1) True by blast
    have "unat ?b = 4096 * (seg_end p div 4096 + 1)"
      using True next_page [of "p_vaddr p + p_memsz p"] ok(1) by (simp add: raise_break_def Let_def e seg_ok_def)
    moreover have "unat b < seg_end p" using True by (simp add: word_less_nat_alt e)
    moreover have "seg_end p < 4096 * (seg_end p div 4096 + 1)" "4096 * (seg_end p div 4096 + 1) \<le> seg_end p + 4096"
      using dividend_less_times_div [of 4096 "seg_end p"] by simp_all
    ultimately show ?thesis using True by simp
  next
    case False
    then have "?b = b" by (auto simp: raise_break_def Let_def)
    moreover have "seg_end p \<le> unat b" if "ph_type p = LOAD"
      using False that seg_end_word [OF ok(1) that] by (simp add: word_less_nat_alt)
    ultimately show ?thesis using Cons.prems(2) by simp
  qed
  have IH: "4096 dvd unat (fold raise_break ps ?b)" "unat ?b \<le> unat (fold raise_break ps ?b)"
    "\<forall>phte \<in> set ps. ph_type phte = LOAD \<longrightarrow> seg_end phte \<le> unat (fold raise_break ps ?b)"
    "fold raise_break ps ?b = ?b \<or> (\<exists>phte \<in> set ps. ph_type phte = LOAD \<and> unat (fold raise_break ps ?b) \<le> seg_end phte + 4096)"
    using Cons.IH [OF ok(2), of ?b] step by blast+
  then show ?case using step by (auto intro: order_trans)
qed simp

section \<open>Loaders\<close>

lemma loader_lock_idle:
  assumes "loaders s l = Some x" and "mutex_idle (ldr_lock x)"
  shows "loader_lock l s = Inr (s\<lparr>loaders := (loaders s)(l \<mapsto> x\<lparr>ldr_lock := mutex_taken (ldr_lock x) s\<rparr>)\<rparr>)"
  using assms by (simp add: loader_lock_def proc_defs)

lemma loader_unlock_taken:
  assumes "loaders s' l = Some y" and "ldr_lock y = mutex_taken m s" and "mutex_idle m" and "current_task s' = current_task s"
  shows "loader_unlock l s' = Inr (s'\<lparr>loaders := (loaders s')(l \<mapsto> y\<lparr>ldr_lock := m\<rparr>)\<rparr>)"
  using assms by (simp add: loader_unlock_def proc_defs)

text \<open>A file with a program header table, and the table.\<close>

definition elf_ok :: "elf64_t \<Rightarrow> byte list \<Rightarrow> bool" where
  "elf_ok h contents \<longleftrightarrow> elf_pht_entry_size h = 56 \<and>
     unat (elf_pht_pos h) + 56 * unat (elf_pht_entries h) \<le> length contents \<and> length contents < 2 ^ 63"

definition pht_in :: "elf64_t \<Rightarrow> byte list \<Rightarrow> elf64_phte_t list" where
  "pht_in h contents = pht_of_bytes (unat (elf_pht_entries h)) (take (56 * unat (elf_pht_entries h)) (drop (unat (elf_pht_pos h)) contents))"

lemma length_pht [simp]: "length (pht_of_bytes n b) = n"
  by (induction n arbitrary: b) simp_all

text \<open>A loader at rest: it knows the header and has the table in memory or has yet to read it.\<close>

definition loader_for :: "loader_t \<Rightarrow> elf64_t \<Rightarrow> byte list \<Rightarrow> 'a fstate_scheme \<Rightarrow> bool" where
  "loader_for ldr h contents s \<longleftrightarrow>
     ldr_header ldr \<noteq> NULL \<and> ldr_file ldr \<noteq> NULL \<and> elf_headers s (ldr_header ldr) = Some h \<and> elf_ok h contents \<and>
     (\<exists>d. fds s (ldr_file ldr) = Some d \<and> reads (f_ops d) (fs_data d) contents) \<and>
     (ldr_pht ldr \<noteq> NULL \<longrightarrow> phts s (ldr_pht ldr) = Some (pht_in h contents))"

definition loader_inv :: "u64 \<Rightarrow> elf64_t \<Rightarrow> byte list \<Rightarrow> 'a fstate_scheme \<Rightarrow> bool" where
  "loader_inv l h contents s \<longleftrightarrow>
     l \<noteq> NULL \<and> (\<exists>ldr. loaders s l = Some ldr \<and> mutex_idle (ldr_lock ldr) \<and> loader_for ldr h contents s)"

definition pht_bytes :: "elf64_t \<Rightarrow> u64" where
  "pht_bytes h = of_nat (56 * unat (elf_pht_entries h))"

lemma pht_bytes_eqs:
  "unat (pht_bytes h) = 56 * unat (elf_pht_entries h)"
  "(ucast (elf_pht_entries h) :: u64) * 56 = pht_bytes h" "unat (ucast (elf_pht_entries h) :: u64) = unat (elf_pht_entries h)"
proof -
  have n: "unat (elf_pht_entries h) < 65536" using unsigned_less [of "elf_pht_entries h", where ?'a = nat] by simp
  then show "unat (pht_bytes h) = 56 * unat (elf_pht_entries h)" unfolding pht_bytes_def by (intro unat_of_nat_small) simp
  have u: "ucast (elf_pht_entries h) = (of_nat (unat (elf_pht_entries h)) :: u64)" by simp
  show "(ucast (elf_pht_entries h) :: u64) * 56 = pht_bytes h" unfolding u pht_bytes_def by (simp add: mult.commute)
  show "unat (ucast (elf_pht_entries h) :: u64) = unat (elf_pht_entries h)"
    unfolding u using n by (intro unat_of_nat_small) simp
qed

lemma load_pht_ok:
  assumes us: "user_space_inv r s" and room: "heap_room s (pht_bytes h)"
    and l: "loaders s l = Some ldr" "mutex_held (ldr_lock ldr) s = Inr True" and lf: "loader_for ldr h contents s"
  obtains s' pht p d len where "load_pht junk l s = Inr (SUCCESS, s')" and "pht \<noteq> NULL"
    and "loaders s' = (loaders s)(l \<mapsto> ldr\<lparr>ldr_pht := pht\<rparr>)" and "loader_for (ldr\<lparr>ldr_pht := pht\<rparr>) h contents s'"
    and "user_space_inv r s'" and "procs s' = procs s" and "current_task s' = current_task s" and "tasks s' = tasks s"
    and "\<forall>y. user_page y \<longrightarrow> vspace_mapping r s' (of_nat y) = vspace_mapping r s (of_nat y)"
    and "free_frames s \<le> free_frames s' + 4 * ((56 * unat (elf_pht_entries h) + 44) div 4096 + 2)"
    and "heap_live s' = insert (unat pht, len) (heap_live s)"
proof (rule user_kmalloc [OF us room, of 81 0], goal_cases)
  case (1 pht s1 len)
  note F = 1(2-)
  note more = hstate_more_procs [OF F(10)] hstate_more_files [OF F(10)]
  obtain d where hd: "elf_headers s (ldr_header ldr) = Some h" and eo: "elf_ok h contents"
    and d: "fds s (ldr_file ldr) = Some d" "reads (f_ops d) (fs_data d) contents"
    using lf by (auto simp: loader_for_def)
  define s2 where "s2 = s1\<lparr>fds := (fds s1)(ldr_file ldr \<mapsto> d\<lparr>fpos := elf_pht_pos h\<rparr>)\<rparr>"
  let ?bytes = "take (56 * unat (elf_pht_entries h)) (drop (unat (elf_pht_pos h)) contents)"
  have lb: "length ?bytes = 56 * unat (elf_pht_entries h)" using eo unfolding elf_ok_def length_take length_drop by linarith
  have rd: "vfs_read (ldr_file ldr) (pht_bytes h) s2 = Inr (int (56 * unat (elf_pht_entries h)), ?bytes)"
    using vfs_read_reads [of s2 "ldr_file ldr" "d\<lparr>fpos := elf_pht_pos h\<rparr>" contents "pht_bytes h"] d(2) lb
    by (simp add: s2_def pht_bytes_eqs(1) del: length_take length_drop)
  have buf: "buffer junk (56 * unat (elf_pht_entries h)) ?bytes = ?bytes" unfolding buffer_def lb by simp
  define s' where "s' = s2\<lparr>phts := (phts s2)(pht \<mapsto> pht_in h contents), loaders := (loaders s)(l \<mapsto> ldr\<lparr>ldr_pht := pht\<rparr>)\<rparr>"
  have sz: "elf_pht_entry_size h = 56" using eo by (simp add: elf_ok_def)
  have w: "\<not> (of_int (int (56 * unat (elf_pht_entries h))) :: u64) < pht_bytes h"
    unfolding pht_bytes_def of_int_of_nat_eq by (rule less_irrefl)
  have sz': "(ucast (elf_pht_entry_size h) :: u64) = 56" by (simp add: sz)
  have seek: "vfs_seek (ldr_file ldr) (elf_pht_pos h) SEEK_SET s1 = Inr (elf_pht_pos h, s2)"
    using d(1) more by (simp add: s2_def)
  have run: "load_pht junk l s = Inr (SUCCESS, s')"
    unfolding load_pht_def
    using l hd F(1) more seek rd w by (simp add: loader_at_def header_at_def sz' Let_def pht_bytes_eqs loader_set_def buf
      del: of_nat_mult of_int_of_nat_eq) (simp add: s'_def pht_in_def s2_def)
  show ?case
  proof (rule that [OF run F(3)])
    show "loader_for (ldr\<lparr>ldr_pht := pht\<rparr>) h contents s'"
      using lf d more by (auto simp: loader_for_def s'_def s2_def)
  qed (use F more in \<open>simp_all add: s'_def s2_def pht_bytes_eqs\<close>)
qed

lemma ensure_pht_ok:
  assumes us: "user_space_inv r s" and room: "ldr_pht ldr = NULL \<longrightarrow> heap_room s (pht_bytes h)"
    and l: "loaders s l = Some ldr" "mutex_held (ldr_lock ldr) s = Inr True" and lf: "loader_for ldr h contents s"
  obtains s' pht where "ensure_pht junk l s = Inr (SUCCESS, s')" and "pht \<noteq> NULL"
    and "loaders s' = (loaders s)(l \<mapsto> ldr\<lparr>ldr_pht := pht\<rparr>)" and "loader_for (ldr\<lparr>ldr_pht := pht\<rparr>) h contents s'"
    and "user_space_inv r s'" and "procs s' = procs s" and "current_task s' = current_task s" and "tasks s' = tasks s"
    and "\<forall>y. user_page y \<longrightarrow> vspace_mapping r s' (of_nat y) = vspace_mapping r s (of_nat y)"
    and "free_frames s \<le> free_frames s' + 4 * ((56 * unat (elf_pht_entries h) + 44) div 4096 + 2)"
proof (cases "ldr_pht ldr = NULL")
  case True
  then have rm: "heap_room s (pht_bytes h)" using room by simp
  have eq: "ensure_pht junk l s = load_pht junk l s" using l(1) True by (simp add: ensure_pht_def loader_at_def)
  show ?thesis by (rule load_pht_ok [OF us rm l lf, of junk]) (rule that, simp_all add: eq)
next
  case False
  then have "ensure_pht junk l s = Inr (SUCCESS, s)" using l(1) by (simp add: ensure_pht_def loader_at_def)
  moreover have "ldr\<lparr>ldr_pht := ldr_pht ldr\<rparr> = ldr" "(loaders s)(l \<mapsto> ldr) = loaders s" using l(1) by (simp_all add: fun_upd_idem)
  ultimately show ?thesis by (intro that [of s "ldr_pht ldr"]) (use False lf us in simp_all)
qed

section \<open>Loading a page\<close>

lemma alloc_page_fds:
  assumes "mutex_idle (free_pages_lock s)" and "alloc_page (s\<lparr>fds := F\<rparr>) = Inr (p, s1)"
  shows "alloc_page s = Inr (p, s1\<lparr>fds := fds s\<rparr>)"
  using assms by (auto simp: alloc_page_def Let_def rbind_eq_Inr zero_page_def)

lemma page_addr:
  assumes "user_page x"
  shows "unat (push_bit PAGE_SHIFT (of_nat x) :: u64) = 4096 * x"
proof -
  have u: "unat (of_nat x :: u64) = x" using assms by (intro unat_of_nat_small) simp
  have "unat (push_bit 12 (of_nat x :: u64)) = take_bit 64 (4096 * x)"
    unfolding unsigned_push_bit_eq u by (simp add: push_bit_eq_mult mult.commute)
  also have "\<dots> = 4096 * x" using assms by (intro take_bit_nat_eq_self) simp
  finally show ?thesis by (simp add: PAGE_SHIFT_def)
qed

text \<open>What the file has for the page at address \<open>a\<close> of a segment, a whole page or up to the end of the segment.\<close>

definition segment_bytes :: "elf64_phte_t \<Rightarrow> byte list \<Rightarrow> nat \<Rightarrow> byte list" where
  "segment_bytes phte contents a =
     take (min 4096 (seg_end phte - a)) (drop (unat (p_offset phte + of_nat a - p_vaddr phte)) contents)"

lemma segment_read_size_nat:
  assumes "seg_ok phte" and "ph_type phte = LOAD" and "unat a < seg_end phte"
  shows "unat (segment_read_size phte a) = min 4096 (seg_end phte - unat a)"
proof -
  note e = seg_end_word [OF assms(1,2)]
  have top: "seg_end phte \<le> 140737488355328" using assms(1,2) by (simp add: seg_ok_def USER_BREAK_def)
  have ap: "unat (a + PAGE_SIZE) = unat a + 4096"
    using assms(3) top by (subst unat_add_no_wrap) (simp_all add: PAGE_SIZE_def)
  have "unat (p_vaddr phte + p_memsz phte - a) = seg_end phte - unat a"
    using assms(3) e by (subst unat_sub_no_wrap) (simp_all add: word_le_nat_alt)
  then show ?thesis using e ap assms(3) by (simp add: segment_read_size_def word_less_nat_alt PAGE_SIZE_def)
qed

lemma loader_map_page_ok:
  assumes us: "user_space_inv r s" and x: "user_page x" and space: "4 \<le> free_frames s"
    and l: "loaders s l = Some ldr" "mutex_held (ldr_lock ldr) s = Inr True" and lf: "loader_for ldr h contents s"
    and seg: "seg_ok phte" "ph_type phte = LOAD" "4096 * x < seg_end phte"
    and fresh: "vspace_mapping r s (of_nat x) = None"
  obtains s' f e where "loader_map_page l phte (of_nat x) r s = Inr (SUCCESS, s')" and "user_space_inv r s'"
    and "loaders s' = loaders s" and "loader_for ldr h contents s'" and "procs s' = procs s" and "current_task s' = current_task s"
    and "vspace_mapping r s' (of_nat x) = Some (leaf_entry f (segment_flags phte) e)"
    and "unat f \<notin> pg_used s" and "unat f < 2 ^ 35"
    and "\<forall>j. frame_byte (phys s' f) j = (if j < length (segment_bytes phte contents (4096 * x))
      then segment_bytes phte contents (4096 * x) ! j else 0)"
    and "\<forall>y. user_page y \<longrightarrow> y \<noteq> x \<longrightarrow> vspace_mapping r s' (of_nat y) = vspace_mapping r s (of_nat y)"
proof -
  let ?a = "push_bit PAGE_SHIFT (of_nat x) :: u64"
  note a = page_addr [OF x]
  obtain d where d: "fds s (ldr_file ldr) = Some d" "reads (f_ops d) (fs_data d) contents"
    using lf by (auto simp: loader_for_def)
  define off where "off = p_offset phte + ?a - p_vaddr phte"
  let ?F = "(fds s)(ldr_file ldr \<mapsto> d\<lparr>fpos := off\<rparr>)"
  let ?bytes = "segment_bytes phte contents (4096 * x)"
  have us0: "user_space_inv r (s\<lparr>fds := ?F\<rparr>)" and sp0: "4 \<le> free_frames (s\<lparr>fds := ?F\<rparr>)" using us space by simp_all
  have idle: "mutex_idle (free_pages_lock s)" using us by (simp add: user_space_inv_def vspace_inv_def pg_inv_def)
  have gt: "?a < p_vaddr phte + p_memsz phte" using seg(3) seg_end_word [OF seg(1,2)] a by (simp add: word_less_nat_alt)
  have rs: "unat (segment_read_size phte ?a) = min 4096 (seg_end phte - 4096 * x)"
    using segment_read_size_nat [OF seg(1,2), of ?a] seg(3) a by simp
  then have rsle: "segment_read_size phte ?a \<le> PAGE_SIZE" by (simp add: word_le_nat_alt PAGE_SIZE_def)
  have ax: "?a = of_nat (4096 * x)" unfolding a [symmetric] by simp
  have bb: "?bytes = take (unat (segment_read_size phte ?a)) (drop (unat off) contents)"
    unfolding segment_bytes_def rs off_def by (simp only: ax)
  show ?thesis
  proof (rule user_map_filled [where flags = "segment_flags phte" and z = "frame_store ?bytes (\<lambda>_. 0)", OF us0 x sp0], goal_cases)
    case (1 s1 s' p)
    note fr = vm_frame_procs [OF 1(5)] vm_frame_files [OF 1(5)]
    have al: "alloc_page s = Inr (p, s1\<lparr>fds := fds s\<rparr>)" by (rule alloc_page_fds [OF idle 1(1)])
    have f1: "fds s1 = ?F"
      using 1(1) by (auto simp: alloc_page_def Let_def rbind_eq_Inr zero_page_def dest!: mutex_unlock_tasks)
    have "vfs_read (ldr_file ldr) (segment_read_size phte ?a) s1 = Inr (int (length ?bytes), ?bytes)"
      using vfs_read_reads [of s1 "ldr_file ldr" "d\<lparr>fpos := off\<rparr>" contents "segment_read_size phte ?a"] d(2) f1
      unfolding bb by simp
    moreover have "vfs_seek (ldr_file ldr) off SEEK_SET (s1\<lparr>fds := fds s\<rparr>) = Inr (off, s1)"
      using d(1) f1 by simp
    ultimately have run: "loader_map_page l phte (of_nat x) r s = Inr (SUCCESS, s')"
      using l al gt rsle 1(2,3) by (simp add: loader_map_page_def loader_at_def Let_def flip: off_def)
    have fds': "fds s' = ?F" using fr by simp
    have lf': "loader_for ldr h contents s'" using lf d fr fds' by (auto simp: loader_for_def)
    obtain e where e: "vspace_mapping r s' (of_nat x) = Some (leaf_entry p (segment_flags phte) e)"
      using 1(8) fresh by auto
    have bytes: "\<forall>j. frame_byte (phys s' p) j = (if j < length ?bytes then ?bytes ! j else 0)"
      by (simp add: 1(12) frame_store_byte frame_byte_zero)
    show ?case
      by (rule that [OF run 1(4) _ lf' _ _ e _ 1(11) bytes]) (use 1 fr in simp_all)
  qed
qed

lemma find_segment_Some:
  assumes "find_segment ps a = Some phte"
  shows "phte \<in> set ps" "ph_type phte = LOAD" "p_vaddr phte \<le> a" "a < p_vaddr phte + p_memsz phte"
  using assms by (induction ps) (auto split: if_splits)

lemma segment_flags_fields:
  "gpte_user (leaf_entry f (segment_flags phte) e)"
  "gpte_write (leaf_entry f (segment_flags phte) e) = bit (ph_flags phte) 1"
  "gpte_no_exec (leaf_entry f (segment_flags phte) e) = (\<not> bit (ph_flags phte) 0)"
  by (auto simp: leaf_entry_fields segment_flags_def PG_NOEXEC_def PG_USER_def PG_WRITE_def BIT_def)

text \<open>The part that \<^verbatim>\<open>load_heap_brk\<close> and \<^verbatim>\<open>loader_load\<close> have in common: take the lock and have the table in memory.\<close>

lemma loader_enter:
  assumes us: "user_space_inv r s" and inv: "loader_inv l h contents s" and ldr: "loaders s l = Some ldr"
    and room: "ldr_pht ldr = NULL \<longrightarrow> heap_room s (pht_bytes h)"
  obtains s1 s2 ldr2 where "loader_lock l s = Inr s1" and "ensure_pht junk l s1 = Inr (SUCCESS, s2)"
    and "loaders s2 = (loaders s)(l \<mapsto> ldr2)" and "ldr_lock ldr2 = mutex_taken (ldr_lock ldr) s" and "mutex_idle (ldr_lock ldr)"
    and "loader_for ldr2 h contents s2" and "pht_at (ldr_pht ldr2) (unat (elf_pht_entries h)) s2 = Inr (pht_in h contents)"
    and "user_space_inv r s2" and "procs s2 = procs s" and "current_task s2 = current_task s"
    and "\<forall>y. user_page y \<longrightarrow> vspace_mapping r s2 (of_nat y) = vspace_mapping r s (of_nat y)"
    and "free_frames s \<le> free_frames s2 + 4 * ((56 * unat (elf_pht_entries h) + 44) div 4096 + 2)"
    and "ldr_pht ldr2 \<noteq> NULL"
proof -
  have idle: "mutex_idle (ldr_lock ldr)" and lf: "loader_for ldr h contents s" using inv ldr by (auto simp: loader_inv_def)
  define ldr1 where "ldr1 = ldr\<lparr>ldr_lock := mutex_taken (ldr_lock ldr) s\<rparr>"
  define s1 where "s1 = s\<lparr>loaders := (loaders s)(l \<mapsto> ldr1)\<rparr>"
  have lk: "loader_lock l s = Inr s1" using loader_lock_idle [OF ldr idle] by (simp add: s1_def ldr1_def)
  have us1: "user_space_inv r s1" and rm: "ldr_pht ldr1 = NULL \<longrightarrow> heap_room s1 (pht_bytes h)"
    and l1: "loaders s1 l = Some ldr1" and lf1: "loader_for ldr1 h contents s1"
    using us room lf by (simp_all add: s1_def ldr1_def loader_for_def)
  have held: "mutex_held (ldr_lock ldr1) s1 = Inr True" using idle by (simp add: s1_def ldr1_def)
  show ?thesis
  proof (rule ensure_pht_ok [OF us1 rm l1 held lf1, of junk], goal_cases)
    case (1 s2 pht)
    let ?l2 = "ldr1\<lparr>ldr_pht := pht\<rparr>"
    have "pht_at pht (unat (elf_pht_entries h)) s2 = Inr (pht_in h contents)"
      using 1(2,4) by (simp add: loader_for_def pht_at_def pht_in_def)
    then show ?case
      by (intro that [OF lk 1(1), of ?l2]) (use 1 idle in \<open>simp_all add: s1_def ldr1_def\<close>)
  qed
qed

lemma loader_inv_leave:
  assumes "loader_for ldr h contents s" and "mutex_idle m" and "l \<noteq> NULL"
  shows "loader_inv l h contents (s\<lparr>loaders := (loaders s)(l \<mapsto> ldr\<lparr>ldr_lock := m\<rparr>)\<rparr>)"
  using assms by (auto simp: loader_inv_def loader_for_def)

lemma loader_load_ok:
  assumes "user_space_inv r s" and "loader_inv l h contents s" and "loaders s l = Some ldr"
    and "ldr_pht ldr = NULL \<longrightarrow> heap_room s (pht_bytes h)"
    and "4 * ((56 * unat (elf_pht_entries h) + 44) div 4096 + 3) \<le> free_frames s"
    and "\<forall>phte \<in> set (pht_in h contents). seg_ok phte" and "user_page x" and "vspace_mapping r s (of_nat x) = None"
  shows "\<exists>status s'. loader_load junk l (of_nat x) r s = Inr (status, s') \<and> user_space_inv r s' \<and> loader_inv l h contents s' \<and>
    (\<forall>y. user_page y \<longrightarrow> y \<noteq> x \<longrightarrow> vspace_mapping r s' (of_nat y) = vspace_mapping r s (of_nat y)) \<and>
    (case find_segment (pht_in h contents) (of_nat (4096 * x)) of
       None \<Rightarrow> status = - ENOENT \<and> vspace_mapping r s' (of_nat x) = None
     | Some phte \<Rightarrow> status = SUCCESS \<and> (\<exists>e. vspace_mapping r s' (of_nat x) = Some e \<and>
         gpte_user e \<and> gpte_write e = bit (ph_flags phte) 1 \<and> gpte_no_exec e = (\<not> bit (ph_flags phte) 0) \<and>
         (\<forall>j. frame_byte (phys s' (gpte_ppn e)) j = (if j < length (segment_bytes phte contents (4096 * x))
            then segment_bytes phte contents (4096 * x) ! j else 0))))"
proof (rule loader_enter [OF assms(1-4), of junk], goal_cases)
  case (1 s1 s2 ldr2)
  have l0: "l \<noteq> NULL" and hd: "ldr_header ldr \<noteq> NULL" "ldr_file ldr \<noteq> NULL"
    using assms(2,3) by (auto simp: loader_inv_def loader_for_def)
  have a: "push_bit PAGE_SHIFT (of_nat x) = (of_nat (4096 * x) :: u64)" unfolding page_addr [OF assms(7), symmetric] by simp
  have l2: "loaders s2 l = Some ldr2" using 1(3) by simp
  have hd2: "header_at (ldr_header ldr2) s2 = Inr h" using 1(6) by (simp add: loader_for_def header_at_def)
  have run: "loader_load junk l (of_nat x) r s =
      rbind (case find_segment (pht_in h contents) (of_nat (4096 * x)) of
          Some phte \<Rightarrow> loader_map_page l phte (of_nat x) r s2 | None \<Rightarrow> Inr (- ENOENT, s2))
        (\<lambda>(status, s). rbind (loader_unlock l s) (\<lambda>s. Inr (status, s)))"
    using l0 hd assms(3) 1(1,2,7) l2 hd2 by (simp add: loader_load_def loader_at_def SUCCESS_def a)
  have un2: "vspace_mapping r s2 (of_nat x) = None" using 1(11) assms(7,8) by simp
  show ?case
  proof (cases "find_segment (pht_in h contents) (of_nat (4096 * x))")
    case None
    let ?s = "s2\<lparr>loaders := (loaders s2)(l \<mapsto> ldr2\<lparr>ldr_lock := ldr_lock ldr\<rparr>)\<rparr>"
    have ul: "loader_unlock l s2 = Inr ?s" by (rule loader_unlock_taken [OF l2 1(4,5,10)])
    have fin: "loader_load junk l (of_nat x) r s = Inr (- ENOENT, ?s)" using run None ul by simp
    show ?thesis
      using fin loader_inv_leave [OF 1(6,5) l0] 1(8,11) un2
      by (intro exI [of _ "- ENOENT"] exI [of _ ?s] conjI) (simp_all add: None del: of_nat_mult)
  next
    case (Some phte)
    note fs = find_segment_Some [OF Some]
    have ok: "seg_ok phte" using assms(6) fs(1) by blast
    have "unat (of_nat (4096 * x) :: u64) = 4096 * x" using page_addr [OF assms(7)] a by metis
    then have lt: "4096 * x < seg_end phte" using fs(4) seg_end_word [OF ok fs(2)] by (simp only: word_less_nat_alt)
    have held: "mutex_held (ldr_lock ldr2) s2 = Inr True" unfolding 1(4) using 1(5,10) by simp
    have sp: "4 \<le> free_frames s2" using 1(12) assms(5) unfolding add_mult_distrib2 by linarith
    show ?thesis
    proof (rule loader_map_page_ok [OF 1(8) assms(7) sp l2 held 1(6) ok fs(2) lt un2], goal_cases)
      case m: (1 s3 f e)
      let ?s = "s3\<lparr>loaders := (loaders s3)(l \<mapsto> ldr2\<lparr>ldr_lock := ldr_lock ldr\<rparr>)\<rparr>" and ?e = "leaf_entry f (segment_flags phte) e"
      have l3: "loaders s3 l = Some ldr2" and c3: "current_task s3 = current_task s" using m(3,6) l2 1(10) by simp_all
      have ul: "loader_unlock l s3 = Inr ?s" by (rule loader_unlock_taken [OF l3 1(4,5) c3])
      have fin: "loader_load junk l (of_nat x) r s = Inr (SUCCESS, ?s)" using run Some m(1) ul by (simp del: of_nat_mult)
      have ppn: "gpte_ppn ?e = f" using m(9) by (simp add: leaf_entry_fields take_bit_40_frame)
      have mp: "vspace_mapping r ?s (of_nat x) = Some ?e" using m(7) by simp
      have pg: "gpte_user ?e \<and> gpte_write ?e = bit (ph_flags phte) 1 \<and> gpte_no_exec ?e = (\<not> bit (ph_flags phte) 0) \<and>
        (\<forall>j. frame_byte (phys ?s (gpte_ppn ?e)) j = (if j < length (segment_bytes phte contents (4096 * x))
            then segment_bytes phte contents (4096 * x) ! j else 0))"
        using m(10) segment_flags_fields unfolding ppn by simp
      have "\<forall>y. user_page y \<longrightarrow> y \<noteq> x \<longrightarrow> vspace_mapping r ?s (of_nat y) = vspace_mapping r s (of_nat y)"
        using m(11) 1(11) by simp
      moreover have "user_space_inv r ?s" using m(2) by simp
      ultimately show ?case
        using fin loader_inv_leave [OF m(4) 1(5) l0] mp pg unfolding Some option.case by blast
    qed
  qed
qed

section \<open>Properties\<close>


text \<open>The small process with a file of one segment: three bytes at \<open>0x400000\<close> that may be executed.\<close>

definition small_elf :: elf64_t where
  "small_elf = \<lparr>elf_magic = 0x464c457f, elf_type = 2, elf_endianness = 1, elf_header_version = 1, elf_os_abi = 0,
     elf_reserved1 = 0, elf_bintype = 2, elf_isa = 0x3e, elf_elf_version = 1, elf_entry = 0x400000, elf_pht_pos = 0,
     elf_sht_pos = 0, elf_flags = 0, elf_header_size = 64, elf_pht_entry_size = 56, elf_pht_entries = 1,
     elf_sht_entry_size = 0, elf_sht_entries = 0, elf_sht_index_names = 0\<rparr>"

definition small_phte :: elf64_phte_t where
  "small_phte = \<lparr>ph_type = 1, ph_flags = 5, p_offset = 56, p_vaddr = 0x400000, ph_undefined = 0, p_filesz = 3, p_memsz = 3,
     ph_alignment = 0\<rparr>"

definition small_file :: "byte list" where
  "small_file = [1,0,0,0, 5,0,0,0, 56,0,0,0,0,0,0,0, 0,0,0x40,0,0,0,0,0, 0,0,0,0,0,0,0,0, 3,0,0,0,0,0,0,0, 3,0,0,0,0,0,0,0,
     0,0,0,0,0,0,0,0, 0x55,0x48,0x89]"

definition small_fd :: fd_t where
  "small_fd = \<lparr>fd_file = 0, fpos = 0, f_ops = \<lparr>fop_read = Some (\<lambda>_ len off.
       let bytes = take (unat len) (drop (unat off) small_file) in (int (length bytes), bytes)), fop_write = None\<rparr>,
     fs_data = 0, fdmod = MUTEX_INITIALIZER\<rparr>"

definition small_fs :: fstate where
  "small_fs = pstate.extend (small_running\<lparr>elf_headers := [0x4000 \<mapsto> small_elf]\<rparr>)
     \<lparr>fds = [1 \<mapsto> small_fd], files = Map.empty, dirs = Map.empty, direntries = Map.empty, vfs_root = 0,
      fs_tree_lock = MUTEX_INITIALIZER\<rparr>"

lemma vm_extend [simp]:
  "user_space_inv r (pstate.extend s x) = user_space_inv r s" "vspace_mapping r (pstate.extend s x) = vspace_mapping r s"
  "free_frames (pstate.extend s x) = free_frames s" "heap_room (pstate.extend s x) n = heap_room s n"
  by (simp_all add: pstate.extend_def user_space_inv_def vspace_inv_def free_frames_def vspace_mapping_def vspace_root_def pg_inv_def
    pg_used_def pg_total_def fun_eq_iff heap_inv_def heap_rel_def heap_pages_mapped_def vspace_disjoint_def vspace_owns_def
    heap_room_def)

lemma small_pht: "pht_in small_elf small_file = [small_phte]"
  by (simp add: pht_in_def small_elf_def small_file_def phte_of_bytes_def le_at_def small_phte_def)

lemma small_fs_space:
  "user_space_inv (Vspace 0x1000) small_fs" "vspace_mapping (Vspace 0x1000) small_fs v = None" "free_frames small_fs = 55"
  using small_user_inv small_user_unmapped small_user_fields(3) by (simp_all add: small_fs_def small_running_def)

lemma small_fs_loader: "loaders small_fs 0x3000 = Some small_loader" "loader_inv 0x3000 small_elf small_file small_fs"
proof -
  show l: "loaders small_fs 0x3000 = Some small_loader"
    using small_user_fields(2) by (simp add: small_fs_def small_running_def pstate.extend_def)
  have "elf_ok small_elf small_file" by (simp add: elf_ok_def small_elf_def small_file_def)
  moreover have "fds small_fs 1 = Some small_fd" "elf_headers small_fs 0x4000 = Some small_elf" by (simp_all add: small_fs_def pstate.extend_def)
  moreover have "reads (f_ops small_fd) (fs_data small_fd) small_file" by (simp add: reads_def small_fd_def)
  ultimately show "loader_inv 0x3000 small_elf small_file small_fs"
    using l by (simp add: loader_inv_def loader_for_def small_loader_def)
qed

lemma small_fs_room: "heap_room small_fs (pht_bytes small_elf)"
proof -
  have "pht_bytes small_elf = 56" by (simp add: pht_bytes_def small_elf_def)
  moreover have "kheap_break small_running = KHEAP_START" "free_frames small_running = 55" using small_user_fields by (simp_all add: small_running_def)
  ultimately show ?thesis by (simp add: small_fs_def) (simp add: heap_room_def KHEAP_START_def free_frames_def pg_total_def pg_used_def)
qed

lemma small_seg_ok: "\<forall>phte \<in> set (pht_in small_elf small_file). seg_ok phte"
  by (simp add: small_pht seg_ok_def seg_end_def small_phte_def USER_BREAK_def)


text \<open>
  C33: \<^verbatim>\<open>load_heap_brk\<close> puts the start of the heap on a page boundary at or above the end of every loadable
  segment and at most one page above the end of one of them.
\<close>

theorem load_heap_brk_spec:
  assumes "user_space_inv r s" and "loader_inv l h contents s" and "loaders s l = Some ldr"
    and "ldr_pht ldr = NULL \<longrightarrow> heap_room s (pht_bytes h)"
    and "\<forall>phte \<in> set (pht_in h contents). seg_ok phte"
    and "\<exists>phte \<in> set (pht_in h contents). ph_type phte = LOAD \<and> 0 < seg_end phte"
  shows "\<exists>s' ldr'. load_heap_brk junk l s = Inr (SUCCESS, s') \<and> user_space_inv r s' \<and> loader_inv l h contents s' \<and>
    loaders s' l = Some ldr' \<and> 4096 dvd unat (ldr_min_heap_break ldr') \<and>
    (\<forall>phte \<in> set (pht_in h contents). ph_type phte = LOAD \<longrightarrow> seg_end phte \<le> unat (ldr_min_heap_break ldr')) \<and>
    (\<exists>phte \<in> set (pht_in h contents). ph_type phte = LOAD \<and> unat (ldr_min_heap_break ldr') \<le> seg_end phte + 4096)"
proof (rule loader_enter [OF assms(1-4), of junk], goal_cases)
  case (1 s1 s2 ldr2)
  have l0: "l \<noteq> NULL" and hd: "ldr_header ldr \<noteq> NULL" "ldr_file ldr \<noteq> NULL"
    using assms(2,3) by (auto simp: loader_inv_def loader_for_def)
  define b where "b = fold raise_break (pht_in h contents) 0"
  note br = fold_raise_break [OF assms(5), of 0, folded b_def]
  have nz: "b \<noteq> 0"
  proof
    assume "b = 0"
    then show False using br assms(6) by auto
  qed
  define ldr3 where "ldr3 = ldr2\<lparr>ldr_min_heap_break := b\<rparr>"
  define s3 where "s3 = s2\<lparr>loaders := (loaders s2)(l \<mapsto> ldr3)\<rparr>"
  let ?s = "s3\<lparr>loaders := (loaders s3)(l \<mapsto> ldr3\<lparr>ldr_lock := ldr_lock ldr\<rparr>)\<rparr>"
  have l2: "loaders s2 l = Some ldr2" "loaders s3 l = Some ldr3" using 1(3) by (simp_all add: s3_def)
  have lf3: "loader_for ldr3 h contents s3" using 1(6) by (simp add: loader_for_def s3_def ldr3_def)
  have hd2: "header_at (ldr_header ldr2) s2 = Inr h" using 1(6) by (simp add: loader_for_def header_at_def)
  have ul: "loader_unlock l s3 = Inr ?s"
    by (rule loader_unlock_taken [OF l2(2) _ 1(5)]) (use 1(4,10) in \<open>simp_all add: s3_def ldr3_def\<close>)
  have run: "load_heap_brk junk l s = Inr (SUCCESS, ?s)"
    using hd assms(3) 1(1,2,7) l2 hd2 nz ul
    by (simp add: load_heap_brk_def loader_at_def loader_set_def SUCCESS_def Let_def ldr3_def s3_def flip: b_def)
  have us: "user_space_inv r ?s" using 1(8) by (simp add: s3_def)
  have "loaders ?s l = Some (ldr3\<lparr>ldr_lock := ldr_lock ldr\<rparr>)" by simp
  moreover have "ldr_min_heap_break (ldr3\<lparr>ldr_lock := ldr_lock ldr\<rparr>) = b" by (simp add: ldr3_def)
  ultimately show ?case
    using run us loader_inv_leave [OF lf3 1(5) l0] br nz by (intro exI conjI) (assumption | simp)+
qed

theorem load_heap_brk_spec_witness:
  "\<exists>s' ldr'. load_heap_brk (\<lambda>_. 0) 0x3000 small_fs = Inr (SUCCESS, s') \<and> loaders s' 0x3000 = Some ldr' \<and>
    0x400003 \<le> unat (ldr_min_heap_break ldr') \<and> unat (ldr_min_heap_break ldr') \<le> 0x401003"
proof -
  have "\<exists>phte \<in> set (pht_in small_elf small_file). ph_type phte = LOAD \<and> 0 < seg_end phte"
    by (simp add: small_pht small_phte_def LOAD_def seg_end_def)
  from load_heap_brk_spec [where junk = "\<lambda>_. 0", OF small_fs_space(1) small_fs_loader(2,1) impI [OF small_fs_room] small_seg_ok this]
  show ?thesis by (simp add: small_pht) (auto simp: small_phte_def LOAD_def seg_end_def)
qed

text \<open>
  When the program header table cannot be read, \<^verbatim>\<open>loader_load\<close> returns an error without releasing the
  lock of the loader. The next call, from the next page fault of any process with that program, panics.
\<close>

theorem loader_load_keeps_lock:
  assumes "l \<noteq> NULL" and "loaders s l = Some ldr" and "mutex_idle (ldr_lock ldr)" and "ldr_header ldr \<noteq> NULL" and "ldr_file ldr \<noteq> NULL"
    and "ldr_pht ldr = NULL" and "elf_headers s (ldr_header ldr) = Some h" and "elf_pht_entry_size h \<noteq> 56"
  shows "\<exists>s'. loader_load junk l page r s = Inr (- ENOEXEC, s') \<and>
    (\<forall>page' r'. loader_load junk l page' r' s' = Inl (Panic ''mutex already acquired''))"
proof -
  let ?l = "ldr\<lparr>ldr_lock := mutex_taken (ldr_lock ldr) s\<rparr>"
  let ?s = "s\<lparr>loaders := (loaders s)(l \<mapsto> ?l)\<rparr>"
  have lk: "loader_lock l s = Inr ?s" by (rule loader_lock_idle [OF assms(2,3)])
  have n56: "(ucast (elf_pht_entry_size h) :: u64) \<noteq> 56"
  proof
    assume "(ucast (elf_pht_entry_size h) :: u64) = 56"
    then have "unat (ucast (elf_pht_entry_size h) :: u64) = 56" by simp
    then have "unat (elf_pht_entry_size h) = 56"
      using unsigned_less [of "elf_pht_entry_size h", where ?'a = nat] by (simp add: unsigned_ucast_eq take_bit_nat_def)
    then have "elf_pht_entry_size h = 56" using word_unat_eq_iff [of "elf_pht_entry_size h" 56] by simp
    then show False using assms(8) by simp
  qed
  have "ensure_pht junk l ?s = Inr (- ENOEXEC, ?s)"
    using assms(3,6,7) n56 by (simp add: ensure_pht_def loader_at_def load_pht_def header_at_def Let_def)
  then have run: "loader_load junk l page r s = Inr (- ENOEXEC, ?s)"
    using assms(1,2,4,5) lk by (simp add: loader_load_def loader_at_def ENOEXEC_def)
  have "loader_lock l ?s = Inl (Panic ''mutex already acquired'')"
    using assms(3) by (simp add: loader_lock_def loader_at_def mutex_lock_def mutex_idle_def mutex_check_magic_def)
  then have "loader_load junk l page' r' ?s = Inl (Panic ''mutex already acquired'')" for page' r'
    using assms(1,4,5) by (simp add: loader_load_def loader_at_def)
  then show ?thesis using run by blast
qed

theorem loader_load_keeps_lock_witness:
  "\<exists>s'. loader_load (\<lambda>_. 0) 0x3000 0x400 (Vspace 0x1000) (small_fs\<lparr>elf_headers := [0x4000 \<mapsto> small_elf\<lparr>elf_pht_entry_size := 32\<rparr>]\<rparr>)
      = Inr (- ENOEXEC, s')"
proof -
  have "loaders (small_fs\<lparr>elf_headers := [0x4000 \<mapsto> small_elf\<lparr>elf_pht_entry_size := 32\<rparr>]\<rparr>) 0x3000 = Some small_loader"
    using small_fs_loader(1) by simp
  from loader_load_keeps_lock [OF _ this, of "small_elf\<lparr>elf_pht_entry_size := 32\<rparr>" "\<lambda>_. 0" "0x400" "Vspace 0x1000"]
  show ?thesis by (simp add: small_loader_def) blast
qed

definition elf_accepted :: "elf64_t \<Rightarrow> bool" where
  "elf_accepted h \<longleftrightarrow> elf_magic h = 0x464c457f \<and> elf_isa h = ELF_ISA \<and> elf_endianness h = ELF_ENDIANNESS"

text \<open>
  \<^verbatim>\<open>loader_create\<close> on a file whose first bytes are not an ELF header for this machine returns no loader and
  gives the memory of the header back: the live blocks of the heap are the same as before.
\<close>

theorem loader_create_rejects:
  assumes "heap_inv s" and "heap_room s 64" and "fds s fd = Some d" and "reads (f_ops d) (fs_data d) contents"
    and "\<not> elf_accepted (elf64_of_bytes (buffer junk 64 (take 64 contents)))"
  shows "\<exists>s'. loader_create raw junk fd s = Inr (NULL, s') \<and> heap_inv s' \<and> heap_live s' = heap_live s \<and> loaders s' = loaders s"
proof (rule kmalloc_ok [OF assms(1,2), of 182 0], goal_cases)
  case (1 p s1 len)
  note more = hstate_more_procs [OF 1(11)] hstate_more_files [OF 1(11)]
  define s2 where "s2 = s1\<lparr>fds := (fds s1)(fd \<mapsto> d\<lparr>fpos := 0\<rparr>)\<rparr>"
  have seek: "vfs_seek fd 0 SEEK_SET s1 = Inr (0, s2)" using assms(3) more by (simp add: s2_def)
  have read: "vfs_read fd 64 s2 = Inr (int (length (take 64 contents)), take 64 contents)"
    using vfs_read_reads [of s2 fd "d\<lparr>fpos := 0\<rparr>" contents 64] assms(4) by (simp add: s2_def)
  have inv2: "heap_inv s2" and live2: "(unat p, len) \<in> heap_live s2" using 1(2,6) by (simp_all add: s2_def)
  show ?case
  proof (rule kfree_ok [OF inv2 live2], goal_cases)
    case f: (1 s3)
    have "heap_live s3 = heap_live s" using f(3) 1(5,6) by (auto simp: s2_def)
    moreover have "loaders s3 = loaders s" using hstate_more_procs [OF f(8)] more by (simp add: s2_def)
    moreover have "loader_create raw junk fd s = Inr (NULL, s3)"
      using assms(5) 1(1) seek read f(1)
      by (auto simp: loader_create_def Let_def elf_accepted_def)
    ultimately show ?case using f(2) by blast
  qed
qed

theorem loader_create_rejects_witness:
  "\<exists>s'. loader_create (\<lambda>_. small_loader) (\<lambda>_. 0) 1 small_fs = Inr (NULL, s') \<and> heap_live s' = heap_live small_fs"
proof -
  have hi: "heap_inv small_fs" using small_fs_space(1) by (simp add: user_space_inv_def)
  have hr: "heap_room small_fs 64"
    using small_user_fields by (simp add: small_fs_def small_running_def) (simp add: heap_room_def KHEAP_START_def free_frames_def pg_total_def pg_used_def)
  have d: "fds small_fs 1 = Some small_fd" "reads (f_ops small_fd) (fs_data small_fd) small_file"
    by (simp_all add: small_fs_def pstate.extend_def reads_def small_fd_def)
  have "\<not> elf_accepted (elf64_of_bytes (buffer (\<lambda>_. 0) 64 (take 64 small_file)))"
    by (simp add: elf_accepted_def elf64_of_bytes_def le_at_def buffer_def small_file_def)
  from loader_create_rejects [OF hi hr d this] show ?thesis by blast
qed

end
