(* ===== verification/Pagefault.thy ===== *)
theory Pagefault
  imports Elf_Loader
begin

text \<open>
  The page fault handler, \<^verbatim>\<open>mm/pagefault.c\<close>: the fault of a process is resolved by its stacks, its heap or its
  program, in this order.
\<close>

definition bool_str :: "bool \<Rightarrow> string" where
  "bool_str b = (if b then ''yes'' else ''no'')"

text \<open>The arguments \<open>present\<close>, \<open>write\<close>, \<open>user\<close> and \<open>exec\<close> are printed and not used otherwise.\<close>

definition page_fault ::
  "(nat \<Rightarrow> byte) \<Rightarrow> u64 \<Rightarrow> bool \<Rightarrow> bool \<Rightarrow> bool \<Rightarrow> bool \<Rightarrow> 'a fstate_scheme \<Rightarrow> (bool \<times> 'a fstate_scheme) result" where
  "page_fault junk address present write user exec s =
     (let virt_page = drop_bit PAGE_SHIFT address in
      if current_task s = NULL then Inr (False, s)
      else case tasks s (current_task s) of
        None \<Rightarrow> Inl (Mem_Fault ''task_t'')
      | Some task \<Rightarrow>
          if task_process task = NULL then Inr (False, s)
          else
            rbind (stack_load (task_process task) virt_page s) (\<lambda>(status, s).
            if status \<ge> 0 then Inr (True, s)
            else
              rbind (heap_load (task_process task) address s) (\<lambda>(status, s).
              if status \<ge> 0 then Inr (True, s)
              else
                rbind (proc_at (task_process task) s) (\<lambda>proc.
                rbind (loader_load junk (proc_loader proc) virt_page (task_vspace task) s) (\<lambda>(status, s).
                Inr (status \<ge> 0, s))))))"

text \<open>A process whose stacks, heap and program are in order, with memory for what the handler may need.\<close>

definition process_ready :: "task_t \<Rightarrow> proc_t \<Rightarrow> loader_t \<Rightarrow> elf64_t \<Rightarrow> byte list \<Rightarrow> 'a fstate_scheme \<Rightarrow> bool" where
  "process_ready task proc ldr h contents s \<longleftrightarrow>
     current_task s \<noteq> NULL \<and> tasks s (current_task s) = Some task \<and> task_process task \<noteq> NULL \<and>
     procs s (task_process task) = Some proc \<and> task_vspace task = proc_vspace proc \<and>
     stacks_inv (task_process task) s \<and> proc_heap_inv (task_process task) s \<and>
     loaders s (proc_loader proc) = Some ldr \<and> loader_inv (proc_loader proc) h contents s \<and>
     (ldr_pht ldr = NULL \<longrightarrow> heap_room s (pht_bytes h)) \<and>
     4 * ((56 * unat (elf_pht_entries h) + 44) div 4096 + 3) \<le> free_frames s \<and>
     (\<forall>phte \<in> set (pht_in h contents). seg_ok phte)"

text \<open>The pages the process may use: those of its stacks, its heap and its program.\<close>

definition process_page :: "proc_t \<Rightarrow> loader_t \<Rightarrow> elf64_phte_t list \<Rightarrow> u64 \<Rightarrow> 'a pstate_scheme \<Rightarrow> bool" where
  "process_page proc ldr pht address s \<longleftrightarrow>
     (\<exists>i. stack_of_page proc s (unat address div 4096) i) \<or>
     ldr_min_heap_break ldr \<le> address \<and> address < heap_brk proc \<or>
     find_segment pht (of_nat (4096 * (unat address div 4096))) \<noteq> None"



text \<open>The small process as the running one of a machine.\<close>

definition small_fault :: fstate where
  "small_fault = small_fs\<lparr>current_task := 0x7000, tasks := [0x7000 \<mapsto> small_task]\<rparr>"

lemma vm_current_update [simp]:
  "user_space_inv r (s\<lparr>current_task := x\<rparr>) = user_space_inv r s" "vspace_mapping r (s\<lparr>current_task := x\<rparr>) = vspace_mapping r s"
  "free_frames (s\<lparr>current_task := x\<rparr>) = free_frames s" "heap_room (s\<lparr>current_task := x\<rparr>) n = heap_room s n"
  "heap_room (s\<lparr>tasks := y\<rparr>) n = heap_room s n"
  by (simp_all add: user_space_inv_def vspace_inv_def free_frames_def vspace_mapping_def vspace_root_def pg_inv_def pg_used_def
    pg_total_def fun_eq_iff heap_inv_def heap_rel_def heap_pages_mapped_def vspace_disjoint_def vspace_owns_def heap_room_def)

lemma small_fault_ready: "process_ready small_task small_proc small_loader small_elf small_file small_fault"
proof -
  have p: "procs small_fs 0x2000 = Some small_proc" using small_running_fields(1) by (simp add: small_fs_def pstate.extend_def)
  have us: "user_space_inv (Vspace 0x1000) small_fault" "free_frames small_fault = 55" "heap_room small_fault (pht_bytes small_elf)"
    "\<And>v. vspace_mapping (Vspace 0x1000) small_fault v = None"
    using small_fs_space small_fs_room by (simp_all add: small_fault_def)
  have ld: "loaders small_fault 0x3000 = Some small_loader" "loader_inv 0x3000 small_elf small_file small_fault"
    using small_fs_loader by (simp_all add: small_fault_def loader_inv_def loader_for_def)
  have pf: "procs small_fault 0x2000 = Some small_proc" using p by (simp add: small_fault_def)
  have f: "task_process small_task = 0x2000" "task_vspace small_task = Vspace 0x1000" "proc_vspace small_proc = Vspace 0x1000"
    "proc_loader small_proc = 0x3000" "stack_list small_proc = []" "mutex_idle (stack_list_lock small_proc)"
    "mutex_idle (heap_lock small_proc)" "heap_brk small_proc = 0x500000" "ldr_min_heap_break small_loader = 0x500000"
    "unat (elf_pht_entries small_elf) = 1"
    by (simp_all add: small_task_def small_proc_def small_loader_def small_elf_def)
  have "stacks_inv 0x2000 small_fault" using pf us f by (simp add: stacks_inv_def mapped_in_def)
  moreover have "proc_heap_inv 0x2000 small_fault" using pf us f ld by (simp add: proc_heap_inv_def)
  moreover have "current_task small_fault = 0x7000" "tasks small_fault 0x7000 = Some small_task" by (simp_all add: small_fault_def)
  ultimately show ?thesis using pf us f ld small_seg_ok by (simp add: process_ready_def)
qed


end
