(* ===== verification/Scheduler.thy ===== *)
theory Scheduler
  imports Pagefault
begin

text \<open>
  The scheduler, \<^verbatim>\<open>sched/sched.c\<close>: the round robin choice of the next task, the context switch in
  \<^verbatim>\<open>schedule\<close>, and what the rest of the kernel does to the list of schedulable tasks. The register
  \<^verbatim>\<open>cr3\<close> that \<^verbatim>\<open>vspace_apply\<close> loads and the stack pointer that \<^verbatim>\<open>set_kernel_sp\<close> stores are fields of the state.
\<close>

record user_fd_t =
  user_fd :: u64
  fd_ptr :: u64

record context_t =
  r15 :: u64
  r14 :: u64
  r13 :: u64
  r12 :: u64
  r11 :: u64
  r10 :: u64
  r9 :: u64
  r8 :: u64
  rdi :: u64
  rsi :: u64
  rdx :: u64
  rcx :: u64
  rbx :: u64
  rax :: u64
  rbp :: u64
  gs :: u64
  fs :: u64
  ctx_irq :: u64
  ctx_error :: u64
  rip :: u64
  cs :: u64
  rflags :: u64
  rsp :: u64
  ss :: u64

record kstate = fstate +
  contexts :: "u64 \<rightharpoonup> context_t"
  sched_tasks :: "u64 list"
  sched_enabled :: bool
  cr3 :: u64
  tss_rsp0 :: u64
  task_list :: "u64 list"
  task_list_lock :: mutex_t
  task_count :: u64
  tid_counter :: u64
  pid_counter :: u64
  user_fds :: "u64 \<rightharpoonup> user_fd_t"

section \<open>Operations\<close>

definition task_at :: "u64 \<Rightarrow> 'a kbase_scheme \<Rightarrow> task_t result" where
  "task_at t s = (case tasks s t of None \<Rightarrow> Inl (Mem_Fault ''task_t'') | Some x \<Rightarrow> Inr x)"

definition task_set :: "u64 \<Rightarrow> task_t \<Rightarrow> 'a kbase_scheme \<Rightarrow> 'a kbase_scheme" where
  "task_set t x s = s\<lparr>tasks := (tasks s)(t \<mapsto> x)\<rparr>"

text \<open>\<^verbatim>\<open>list_it_remove(&sched_tasks, list_find(&sched_tasks, task))\<close>\<close>

definition sched_remove :: "u64 \<Rightarrow> 'a kstate_scheme \<Rightarrow> 'a kstate_scheme result" where
  "sched_remove t s =
     rbind (kassert (t \<in> set (sched_tasks s)) ''list iterator is null'') (\<lambda>_.
     Inr (s\<lparr>sched_tasks := remove1 t (sched_tasks s)\<rparr>))"

definition task_schedulable :: "u64 \<Rightarrow> 'a kstate_scheme \<Rightarrow> (bool \<times> 'a kstate_scheme) result" where
  "task_schedulable t s =
     rbind (task_at t s) (\<lambda>task.
     rbind (if task_process task \<noteq> NULL
            then rbind (proc_at (task_process task) s) (\<lambda>proc.
              Inr (if proc_state proc = PROC_KILLED then task_set t (task\<lparr>task_state := TASK_KILLED\<rparr>) s else s))
            else Inr s) (\<lambda>s.
     rbind (task_at t s) (\<lambda>task.
     rbind (if task_state task = TASK_KILLED then sched_remove (current_task s) s else Inr s) (\<lambda>s.
     Inr (if irq_wait task then False else task_state task = TASK_RUNNING, s)))))"

text \<open>The loop ends when a task is found that can run. If there is none, it goes on forever.\<close>

fun get_next_task_loop :: "nat \<Rightarrow> 'a kstate_scheme \<Rightarrow> (u64 \<times> 'a kstate_scheme) result" where
  "get_next_task_loop 0 s = Inl Diverges"
| "get_next_task_loop (Suc n) s =
     (let nxt = (case sched_tasks s of [] \<Rightarrow> NULL | t # _ \<Rightarrow> t) in
      rbind (kpanic (nxt \<noteq> NULL) ''no schedulable task'') (\<lambda>_.
      rbind (task_schedulable nxt (s\<lparr>sched_tasks := rotate1 (sched_tasks s)\<rparr>)) (\<lambda>(ok, s).
      if ok then Inr (nxt, s) else get_next_task_loop n s)))"

definition get_next_task :: "'a kstate_scheme \<Rightarrow> (u64 \<times> 'a kstate_scheme) result" where
  "get_next_task s = get_next_task_loop address_fuel s"

definition set_kernel_sp :: "u64 \<Rightarrow> 'a kstate_scheme \<Rightarrow> 'a kstate_scheme" where
  "set_kernel_sp sp s = s\<lparr>tss_rsp0 := sp\<rparr>"

definition vspace_apply :: "vspace_ref \<Rightarrow> 'a kstate_scheme \<Rightarrow> 'a kstate_scheme result" where
  "vspace_apply r s =
     rbind (get_vspace r s) (\<lambda>vs. Inr (s\<lparr>cr3 := push_bit PAGE_SHIFT (vs_pml4_ppn vs)\<rparr>))"

definition schedule :: "u64 \<Rightarrow> 'a kstate_scheme \<Rightarrow> (u64 \<times> 'a kstate_scheme) result" where
  "schedule ctx s =
     (if \<not> sched_enabled s then Inr (ctx, s)
      else
        rbind (get_next_task s) (\<lambda>(next_task, s).
        if current_task s = next_task then Inr (ctx, s)
        else
          rbind (if current_task s \<noteq> NULL
                 then rbind (task_at (current_task s) s) (\<lambda>cur.
                   let s = task_set (current_task s) (cur\<lparr>task_context := ctx\<rparr>) s in
                   if task_state cur = TASK_KILLED then sched_remove (current_task s) s else Inr s)
                 else Inr s) (\<lambda>s.
          rbind (task_at next_task s) (\<lambda>nxt.
          rbind (if current_task s = NULL then Inr True
                 else rbind (task_at (current_task s) s) (\<lambda>cur. Inr (task_vspace cur \<noteq> task_vspace nxt))) (\<lambda>switch.
          rbind (if switch then vspace_apply (task_vspace nxt) s else Inr s) (\<lambda>s.
          Inr (task_context nxt, (set_kernel_sp (kstack_ptr nxt) s)\<lparr>current_task := next_task\<rparr>)))))))"

definition sched_insert :: "u64 \<Rightarrow> 'a kstate_scheme \<Rightarrow> 'a kstate_scheme result" where
  "sched_insert t s =
     rbind (kheap_check_corrupt s) (\<lambda>_. Inr (s\<lparr>sched_tasks := sched_tasks s @ [t]\<rparr>))"

section \<open>The next task\<close>

definition proc_alive :: "'a pstate_scheme \<Rightarrow> task_t \<Rightarrow> bool" where
  "proc_alive s task \<longleftrightarrow> task_process task = NULL \<or>
     (\<exists>proc. procs s (task_process task) = Some proc \<and> proc_state proc \<noteq> PROC_KILLED)"

definition alive :: "'a pstate_scheme \<Rightarrow> u64 \<Rightarrow> bool" where
  "alive s t \<longleftrightarrow> (\<exists>task. tasks s t = Some task \<and> task_state task \<noteq> TASK_KILLED \<and> proc_alive s task)"

definition runnable :: "'a pstate_scheme \<Rightarrow> u64 \<Rightarrow> bool" where
  "runnable s t \<longleftrightarrow>
     (\<exists>task. tasks s t = Some task \<and> task_state task = TASK_RUNNING \<and> \<not> irq_wait task \<and> proc_alive s task)"

lemma runnable_alive: "runnable s t \<Longrightarrow> alive s t"
  by (auto simp: runnable_def alive_def)

lemma alive_update [simp]:
  "alive (s\<lparr>sched_tasks := x\<rparr>) t = alive s t" "runnable (s\<lparr>sched_tasks := x\<rparr>) t = runnable s t"
  by (simp_all add: alive_def runnable_def proc_alive_def)

lemma task_schedulable_alive:
  assumes "alive s t"
  shows "task_schedulable t s = Inr (runnable s t, s)"
proof -
  obtain task where t: "tasks s t = Some task" "task_state task \<noteq> TASK_KILLED" "proc_alive s task"
    using assms by (auto simp: alive_def)
  have "rbind (proc_at (task_process task) s) (\<lambda>proc.
      Inr (if proc_state proc = PROC_KILLED then task_set t (task\<lparr>task_state := TASK_KILLED\<rparr>) s else s)) = Inr s"
    if "task_process task \<noteq> NULL"
    using t(3) that by (auto simp: proc_alive_def proc_at_def)
  then show ?thesis using t by (auto simp: task_schedulable_def task_at_def runnable_def)
qed

lemma get_next_task_loop_ok:
  assumes "sched_tasks s = ys @ t # zs" and "\<forall>y \<in> set ys. y \<noteq> NULL \<and> alive s y \<and> \<not> runnable s y"
    and "t \<noteq> NULL" and "runnable s t" and "length ys < fuel"
  shows "get_next_task_loop fuel s = Inr (t, s\<lparr>sched_tasks := zs @ ys @ [t]\<rparr>)"
  using assms
proof (induction ys arbitrary: fuel s zs)
  case Nil
  then obtain f where "fuel = Suc f" by (cases fuel) auto
  then show ?case using Nil task_schedulable_alive [OF runnable_alive [OF Nil.prems(4)]]
      task_schedulable_alive [of "s\<lparr>sched_tasks := zs @ [t]\<rparr>" t] runnable_alive [OF Nil.prems(4)] by simp
next
  case (Cons y ys)
  obtain f where f: "fuel = Suc f" "length ys < f" using Cons.prems(5) by (cases fuel) auto
  let ?s = "s\<lparr>sched_tasks := ys @ t # (zs @ [y])\<rparr>"
  have "get_next_task_loop f ?s = Inr (t, ?s\<lparr>sched_tasks := (zs @ [y]) @ ys @ [t]\<rparr>)"
    by (rule Cons.IH) (use Cons.prems f in auto)
  then show ?case
    using Cons.prems f(1) task_schedulable_alive [of ?s y] by simp
qed

text \<open>The tasks before the first one that can run.\<close>

abbreviation waiting_before :: "'a kstate_scheme \<Rightarrow> u64 list" where
  "waiting_before s \<equiv> takeWhile (\<lambda>y. \<not> runnable s y) (sched_tasks s)"

text \<open>
  The tasks on the list are different and not killed, except that the running task may have been
  killed since it was scheduled. There is a task that can run before a killed one.
\<close>

definition sched_ok :: "'a kstate_scheme \<Rightarrow> bool" where
  "sched_ok s \<longleftrightarrow> sched_enabled s \<and> distinct (sched_tasks s) \<and> NULL \<notin> set (sched_tasks s) \<and>
     length (sched_tasks s) < 2 ^ 64 \<and>
     (\<exists>t \<in> set (sched_tasks s). runnable s t) \<and>
     (\<forall>t \<in> set (sched_tasks s). t \<noteq> current_task s \<longrightarrow> alive s t) \<and>
     (\<forall>t \<in> set (sched_tasks s). \<exists>task. tasks s t = Some task \<and> vspaces s (task_vspace task) \<noteq> None) \<and>
     (current_task s \<noteq> NULL \<longrightarrow>
       (\<exists>cur. tasks s (current_task s) = Some cur \<and>
         (alive s (current_task s) \<or> task_state cur = TASK_KILLED \<and> current_task s \<in> set (sched_tasks s)) \<and>
         (alive s (current_task s) \<or> current_task s \<notin> set (waiting_before s))))"

lemma get_next_task_ok:
  assumes "sched_ok s"
  obtains ys u zs where "sched_tasks s = ys @ u # zs" and "ys = waiting_before s" and "runnable s u" and "u \<noteq> NULL"
    and "get_next_task s = Inr (u, s\<lparr>sched_tasks := zs @ ys @ [u]\<rparr>)"
proof -
  let ?P = "\<lambda>y. \<not> runnable s y" and ?xs = "sched_tasks s"
  obtain t where t: "t \<in> set ?xs" "runnable s t" using assms by (auto simp: sched_ok_def)
  then have ne: "dropWhile ?P ?xs \<noteq> []" by (auto simp: dropWhile_eq_Nil_conv)
  then obtain u zs where uz: "dropWhile ?P ?xs = u # zs" by (cases "dropWhile ?P ?xs") auto
  then have u: "runnable s u" using hd_dropWhile [OF ne] by simp
  have xs: "?xs = waiting_before s @ u # zs" using takeWhile_dropWhile_id [of ?P ?xs] uz by simp
  have ys: "y \<noteq> NULL \<and> alive s y \<and> \<not> runnable s y" if "y \<in> set (waiting_before s)" for y
  proof -
    have "y \<in> set ?xs" "\<not> runnable s y" using that by (auto dest: set_takeWhileD)
    then show ?thesis using assms that by (cases "y = current_task s") (auto simp: sched_ok_def)
  qed
  have "u \<in> set ?xs" using xs by (metis in_set_conv_decomp)
  then have u0: "u \<noteq> NULL" using assms by (auto simp: sched_ok_def)
  have "length (waiting_before s) < address_fuel"
    using assms length_takeWhile_le [of ?P ?xs] by (simp add: sched_ok_def)
  from get_next_task_loop_ok [OF xs _ u0 u this] ys have "get_next_task s = Inr (u, s\<lparr>sched_tasks := zs @ waiting_before s @ [u]\<rparr>)"
    by (simp add: get_next_task_def)
  then show ?thesis using that xs u u0 by blast
qed

section \<open>The context switch\<close>

text \<open>The processor uses the address space and the kernel stack of the running task.\<close>

definition running_ok :: "'a kstate_scheme \<Rightarrow> bool" where
  "running_ok s \<longleftrightarrow> (current_task s \<noteq> NULL \<longrightarrow>
     (\<exists>cur vs. tasks s (current_task s) = Some cur \<and> vspaces s (task_vspace cur) = Some vs \<and>
       cr3 s = push_bit PAGE_SHIFT (vs_pml4_ppn vs) \<and> tss_rsp0 s = kstack_ptr cur))"

lemma alive_context:
  assumes "tasks s c = Some cur" and "tasks s' = (tasks s)(c \<mapsto> cur\<lparr>task_context := ctx\<rparr>)" and "procs s' = procs s"
  shows "alive s' t = alive s t" "runnable s' t = runnable s t"
  using assms by (auto simp: alive_def runnable_def proc_alive_def)

text \<open>The task list after the switch from task \<open>c\<close> to task \<open>u\<close>.\<close>

definition killed :: "'a kbase_scheme \<Rightarrow> u64 \<Rightarrow> bool" where
  "killed s t \<longleftrightarrow> (\<exists>task. tasks s t = Some task \<and> task_state task = TASK_KILLED)"

lemma schedule_switch:
  assumes ok: "sched_ok s" and run: "running_ok s" and g: "sched_tasks s = ys @ u # zs" "ys = waiting_before s" "runnable s u"
    "get_next_task s = Inr (u, s\<lparr>sched_tasks := zs @ ys @ [u]\<rparr>)" and ne: "current_task s \<noteq> u"
  obtains s' nxt where "tasks s u = Some nxt" and "schedule ctx s = Inr (task_context nxt, s')" and "current_task s' = u"
    and "sched_tasks s' = (if killed s (current_task s) then remove1 (current_task s) (zs @ ys @ [u]) else zs @ ys @ [u])"
    and "procs s' = procs s" and "vspaces s' = vspaces s" and "sched_enabled s' = sched_enabled s" and "running_ok s'"
    and "\<And>t. alive s' t = alive s t" and "\<And>t. runnable s' t = runnable s t"
    and "tasks s' = (if current_task s = NULL then tasks s
      else (tasks s)(current_task s \<mapsto> (the (tasks s (current_task s)))\<lparr>task_context := ctx\<rparr>))"
proof -
  let ?c = "current_task s" and ?l = "zs @ ys @ [u]"
  have en: "sched_enabled s" using ok by (simp add: sched_ok_def)
  have "u \<in> set (sched_tasks s)" using g(1) by simp
  then obtain nxt vs where nxt: "tasks s u = Some nxt" and vs: "vspaces s (task_vspace nxt) = Some vs"
    using ok unfolding sched_ok_def by (metis (no_types, lifting) not_Some_eq)
  show ?thesis
  proof (cases "?c = NULL")
    case True
    define s' where "s' = s\<lparr>sched_tasks := ?l, cr3 := push_bit PAGE_SHIFT (vs_pml4_ppn vs), tss_rsp0 := kstack_ptr nxt, current_task := u\<rparr>"
    have al: "alive s' t = alive s t" "runnable s' t = runnable s t" for t by (simp_all add: s'_def alive_def runnable_def proc_alive_def)
    have r: "schedule ctx s = Inr (task_context nxt, s')"
      using en g(4) ne nxt vs True
      by (simp add: schedule_def task_at_def vspace_apply_def get_vspace_def set_kernel_sp_def s'_def)
    have ro: "running_ok s'" using nxt vs by (simp add: running_ok_def s'_def)
    have "NULL \<notin> set ?l" using ok g(1) by (auto simp: sched_ok_def)
    then have l: "remove1 NULL ?l = ?l" by (rule remove1_idem)
    show ?thesis by (rule that [OF nxt r _ _ _ _ _ ro]) (use True l al in \<open>simp_all add: s'_def\<close>)
  next
    case False
    obtain cur where cur: "tasks s ?c = Some cur"
      and cst: "alive s ?c \<or> task_state cur = TASK_KILLED \<and> ?c \<in> set (sched_tasks s)"
      using ok False by (auto simp: sched_ok_def)
    have inl: "?c \<in> set ?l" if "task_state cur = TASK_KILLED"
      using cst that cur g(1) by (auto simp: alive_def)
    let ?cur = "cur\<lparr>task_context := ctx\<rparr>"
    let ?l' = "if task_state cur = TASK_KILLED then remove1 ?c ?l else ?l"
    define s1 where "s1 = s\<lparr>sched_tasks := ?l', tasks := (tasks s)(?c \<mapsto> ?cur)\<rparr>"
    define s' where "s' = s1\<lparr>cr3 := if task_vspace cur \<noteq> task_vspace nxt then push_bit PAGE_SHIFT (vs_pml4_ppn vs) else cr3 s,
      tss_rsp0 := kstack_ptr nxt, current_task := u\<rparr>"
    have r: "schedule ctx s = Inr (task_context nxt, s')"
      using en g(4) ne nxt vs False cur inl
      by (cases "task_state cur = TASK_KILLED"; cases "task_vspace cur = task_vspace nxt")
         (simp_all add: schedule_def task_at_def task_set_def sched_remove_def Let_def vspace_apply_def get_vspace_def set_kernel_sp_def s'_def s1_def)
    have al: "alive s' t = alive s t" "runnable s' t = runnable s t" for t
      using alive_context [OF cur, of s' ctx t] by (simp_all add: s'_def s1_def)
    have ro: "running_ok s'"
      using run False cur nxt vs ne by (auto simp: running_ok_def s'_def s1_def)
    have k: "killed s ?c = (task_state cur = TASK_KILLED)" using cur by (simp add: killed_def)
    show ?thesis by (rule that [OF nxt r _ _ _ _ _ ro]) (use False k al cur in \<open>simp_all add: s'_def s1_def\<close>)
  qed
qed

lemma sched_ok_after:
  assumes ok: "sched_ok s" and g: "sched_tasks s = ys @ u # zs" "runnable s u"
    and s': "current_task s' = u" "sched_enabled s' = sched_enabled s" "vspaces s' = vspaces s"
      "\<And>t. alive s' t = alive s t" "\<And>t. runnable s' t = runnable s t"
      "sched_tasks s' = (if killed s (current_task s) then remove1 (current_task s) (zs @ ys @ [u]) else zs @ ys @ [u])"
    and ts: "\<And>t x. tasks s t = Some x \<Longrightarrow> \<exists>y. tasks s' t = Some y \<and> task_vspace y = task_vspace x"
  shows "sched_ok s'" "u \<in> set (sched_tasks s')"
proof -
  let ?c = "current_task s" and ?l = "zs @ ys @ [u]"
  have d: "distinct ?l" and n0: "NULL \<notin> set ?l" and len: "length ?l < 2 ^ 64" and st: "set ?l = set (sched_tasks s)"
    using ok g(1) by (auto simp: sched_ok_def)
  have ua: "alive s u" using g(2) by (rule runnable_alive)
  have uc: "u \<noteq> ?c" if "killed s ?c" using that g(2) by (auto simp: killed_def runnable_def)
  have sub: "set (sched_tasks s') \<subseteq> set ?l" using s'(6) set_remove1_subset [of ?c ?l] by (cases "killed s ?c") (simp_all only: if_True if_False subset_refl)
  have "u \<in> set ?l" by simp
  then show uin: "u \<in> set (sched_tasks s')"
    using s'(6) uc by (cases "killed s ?c") (simp_all only: if_True if_False in_set_remove1 not_False_eq_True)
  have al: "alive s t" if "t \<in> set (sched_tasks s')" for t
  proof (cases "t = ?c")
    case True
    have "\<not> killed s ?c"
    proof
      assume k: "killed s ?c"
      then have "?c \<in> set (remove1 ?c ?l)" using that s'(6) True by (simp only: if_True)
      then show False using set_remove1_eq [OF d] by blast
    qed
    moreover have "?c \<noteq> NULL" using that sub n0 True by auto
    ultimately show ?thesis using ok True by (auto simp: sched_ok_def killed_def)
  next
    case False
    then show ?thesis using ok that sub st by (auto simp: sched_ok_def)
  qed
  have len': "length (sched_tasks s') < 2 ^ 64" 
    using s'(6) len length_remove1 [of ?c ?l] by (cases "killed s ?c") (simp_all only: if_True if_False, simp split: if_splits)
  have vsp: "\<exists>task. tasks s' t = Some task \<and> vspaces s' (task_vspace task) \<noteq> None" if "t \<in> set (sched_tasks s')" for t
  proof -
    have "t \<in> set (sched_tasks s)" using that sub st by blast
    then obtain task where "tasks s t = Some task" "vspaces s (task_vspace task) \<noteq> None"
      using ok unfolding sched_ok_def by blast
    then show ?thesis using ts s'(3) by (metis (no_types, lifting))
  qed
  have "distinct (sched_tasks s')" 
    using s'(6) d distinct_remove1 [OF d, of ?c] by (cases "killed s ?c") (simp_all only: if_True if_False)
  moreover have "NULL \<notin> set (sched_tasks s')" using sub n0 by blast
  moreover have "\<exists>cur. tasks s' u = Some cur" using vsp [OF uin] by blast
  ultimately show "sched_ok s'"
    unfolding sched_ok_def using ok s'(1,2,4,5) al len' vsp uin ua g(2) by (auto simp: sched_ok_def)
qed

lemma schedule_ok:
  assumes ok: "sched_ok s" and run: "running_ok s"
  obtains ys u zs s' nxt where "sched_tasks s = ys @ u # zs" and "ys = waiting_before s" and "runnable s u" and "u \<noteq> NULL"
    and "tasks s u = Some nxt" and "schedule ctx s = Inr (if current_task s = u then ctx else task_context nxt, s')"
    and "current_task s' = u" and "sched_ok s'" and "running_ok s'"
    and "sched_tasks s' = (if killed s (current_task s) then remove1 (current_task s) (zs @ ys @ [u]) else zs @ ys @ [u])"
    and "\<And>t. runnable s' t = runnable s t" and "u \<in> set (sched_tasks s')"
    and "tasks s' = (if current_task s = NULL \<or> current_task s = u then tasks s
      else (tasks s)(current_task s \<mapsto> (the (tasks s (current_task s)))\<lparr>task_context := ctx\<rparr>))"
proof (rule get_next_task_ok [OF ok], goal_cases)
  case (1 ys u zs)
  note G = 1(2-)
  obtain nxt where nxt: "tasks s u = Some nxt" using G(3) by (auto simp: runnable_def)
  show ?case
  proof (cases "current_task s = u")
    case True
    let ?s = "s\<lparr>sched_tasks := zs @ ys @ [u]\<rparr>"
    have en: "sched_enabled s" using ok by (simp add: sched_ok_def)
    have r: "schedule ctx s = Inr (if current_task s = u then ctx else task_context nxt, ?s)"
      using en G(5) True by (simp add: schedule_def)
    have nk: "\<not> killed s (current_task s)" using True G(3) by (auto simp: killed_def runnable_def)
    have ok': "sched_ok ?s" "u \<in> set (sched_tasks ?s)"
      by (rule sched_ok_after [OF ok G(1,3)]; use True nk in simp)+
    have ro: "running_ok ?s" using run by (simp add: running_ok_def)
    show ?thesis by (rule that [OF G(1-4) nxt r _ ok'(1) ro]) (use True nk ok'(2) in simp_all)
  next
    case False
    show ?thesis
    proof (rule schedule_switch [OF ok run G(1-3,5) False, of ctx], goal_cases)
      case (1 s' nx)
      note S = this
      have r: "schedule ctx s = Inr (if current_task s = u then ctx else task_context nxt, s')" using S(1,2) nxt False by simp
      have ts: "\<exists>y. tasks s' t = Some y \<and> task_vspace y = task_vspace x" if "tasks s t = Some x" for t x
        using that S(11) by (cases "t = current_task s") auto
      note ok' = sched_ok_after [OF ok G(1,3) S(3,7,6,9,10,4) ts]
      show ?case by (rule that [OF G(1-4) nxt r S(3) ok'(1) S(8) S(4) S(10) ok'(2)]) (use S(11) False in simp_all)
    qed
  qed
qed

section \<open>Nobody starves\<close>

definition position :: "u64 \<Rightarrow> u64 list \<Rightarrow> nat" where
  "position t xs = length (takeWhile (\<lambda>y. y \<noteq> t) xs)"

lemma position_append: "position t (xs @ ys) = (if t \<in> set xs then position t xs else length xs + position t ys)"
proof (cases "t \<in> set xs")
  case True
  then show ?thesis by (auto simp: position_def takeWhile_append1)
next
  case False
  then have "takeWhile (\<lambda>y. y \<noteq> t) (xs @ ys) = xs @ takeWhile (\<lambda>y. y \<noteq> t) ys" by (intro takeWhile_append2) auto
  then show ?thesis using False by (simp add: position_def)
qed

lemma position_remove1: "c \<noteq> t \<Longrightarrow> position t (remove1 c xs) \<le> position t xs"
  by (induction xs) (auto simp: position_def)

text \<open>A task that waits for the processor, on a scheduler in order.\<close>

definition waiting :: "u64 \<Rightarrow> 'a kstate_scheme \<Rightarrow> bool" where
  "waiting t s \<longleftrightarrow> sched_ok s \<and> running_ok s \<and> t \<in> set (sched_tasks s) \<and> runnable s t"

lemma schedule_progress:
  assumes "waiting t s" and "schedule ctx s = Inr (ctx', s')"
  shows "waiting t s' \<and> (current_task s' = t \<or> position t (sched_tasks s') < position t (sched_tasks s))"
proof (rule schedule_ok [of s ctx], goal_cases)
  case (3 ys u zs s1 nxt)
  have w: "sched_ok s" "t \<in> set (sched_tasks s)" "runnable s t" using assms(1) by (simp_all add: waiting_def)
  have s1: "s1 = s'" using 3(6) assms(2) by simp
  have tc: "t \<noteq> current_task s" if "killed s (current_task s)" using that w(3) by (auto simp: killed_def runnable_def)
  have tl: "t \<in> set (zs @ ys @ [u])" using w(2) 3(1) by auto
  then have "t \<in> set (sched_tasks s')" using 3(10) tc s1 by auto
  then have wt: "waiting t s'" using 3(8,9,11) w(3) s1 by (simp add: waiting_def)
  show ?case
  proof (cases "t = u")
    case False
    have "t \<notin> set ys" using w(3) 3(2) by (auto dest: set_takeWhileD)
    then have old: "position t (sched_tasks s) = length ys + 1 + position t zs" and tz: "t \<in> set zs"
      using 3(1) False w(2) by (simp_all add: position_append) (simp_all add: position_def)
    have "position t (sched_tasks s') \<le> position t (zs @ ys @ [u])"
      using 3(10) s1 tc position_remove1 by auto
    then show ?thesis using old tz wt by (simp add: position_append)
  qed (use 3(7) s1 wt in simp)
qed (use assms(1) in \<open>simp_all add: waiting_def\<close>)

text \<open>
  What happens to a task that can run until it runs: the scheduler is called and chooses another task, or
  the rest of the kernel inserts tasks at the end of the list and changes the states of others.
\<close>

inductive passed_over :: "u64 \<Rightarrow> 'a kstate_scheme \<Rightarrow> nat \<Rightarrow> 'a kstate_scheme \<Rightarrow> bool" for t s where
  start: "passed_over t s 0 s"
| other: "passed_over t s n s1 \<Longrightarrow> waiting t s2 \<Longrightarrow> sched_tasks s2 = sched_tasks s1 @ new \<Longrightarrow> passed_over t s n s2"
| pass: "passed_over t s n s1 \<Longrightarrow> schedule ctx s1 = Inr (ctx', s2) \<Longrightarrow> current_task s2 \<noteq> t \<Longrightarrow> passed_over t s (Suc n) s2"

lemma passed_over_position:
  assumes "passed_over t s n s'" and "waiting t s"
  shows "waiting t s' \<and> n + position t (sched_tasks s') \<le> position t (sched_tasks s)"
  using assms
proof (induction rule: passed_over.induct)
  case (other n s1 s2 new)
  then have "t \<in> set (sched_tasks s1)" by (simp add: waiting_def)
  then show ?case using other by (simp add: position_append)
next
  case (pass n s1 ctx ctx' s2)
  then show ?case using schedule_progress [of t s1 ctx ctx' s2] by auto
qed simp

section \<open>Properties\<close>

text \<open>Two kernel tasks, the first of them running.\<close>

definition small_ktask :: task_t where
  "small_ktask = \<lparr>tid = 1, task_state = TASK_RUNNING, task_context = 0x9000, task_vspace = VSPACE_KERNEL, kstack_ptr = 0xa000,
     kstack_base = 0x8000, irq_wait = False, user_stack = 0, task_process = 0\<rparr>"

definition small_sched :: kstate where
  "small_sched = fstate.extend (small_fs\<lparr>current_task := 0x7000,
       tasks := [0x7000 \<mapsto> small_ktask, 0x7100 \<mapsto> small_ktask\<lparr>tid := 2, task_context := 0x9800\<rparr>]\<rparr>)
     \<lparr>contexts = Map.empty, sched_tasks = [0x7100, 0x7000], sched_enabled = True, cr3 = 0x1000, tss_rsp0 = 0xa000, task_list = [0x7000, 0x7100],
      task_list_lock = MUTEX_INITIALIZER, task_count = 2, tid_counter = 3, pid_counter = 2, user_fds = Map.empty\<rparr>"

lemma small_sched_fields:
  "sched_tasks small_sched = [0x7100, 0x7000]" "current_task small_sched = 0x7000" "sched_enabled small_sched"
  "tasks small_sched = [0x7000 \<mapsto> small_ktask, 0x7100 \<mapsto> small_ktask\<lparr>tid := 2, task_context := 0x9800\<rparr>]"
  "cr3 small_sched = 0x1000" "tss_rsp0 small_sched = 0xa000"
  "vspaces small_sched VSPACE_KERNEL = Some \<lparr>vs_lock = MUTEX_INITIALIZER, vs_pml4_ppn = 1\<rparr>"
  by (simp_all add: small_sched_def fstate.extend_def small_fs_def pstate.extend_def small_running_def small_user_def hstate.extend_def
    small_heap_def vmstate.extend_def small_vm_def)

lemma small_sched_ok: "sched_ok small_sched" "running_ok small_sched"
  by (simp_all add: sched_ok_def running_ok_def small_sched_fields alive_def runnable_def proc_alive_def)
     (simp_all add: small_ktask_def PAGE_SHIFT_def small_sched_fields)

lemma small_sched_runnable: "runnable small_sched 0x7000" "runnable small_sched 0x7100"
  by (simp_all add: small_sched_fields runnable_def proc_alive_def) (simp_all add: small_ktask_def)

lemma small_schedule:
  obtains s1 where "schedule 0x9999 small_sched = Inr (0x9800, s1)" "current_task s1 = 0x7100"
proof (rule schedule_ok [OF small_sched_ok, of "0x9999"], goal_cases)
  case (1 ys u zs s' nxt)
  have "waiting_before small_sched = []" by (simp add: small_sched_fields small_sched_runnable)
  then have u: "u = 0x7100" using 1(2,3) by (simp add: small_sched_fields)
  then show ?case using 1(1,6-8) by (auto simp: small_sched_fields)
qed

text \<open>
  C7: \<^verbatim>\<open>schedule\<close> switches to the first task of the list that can run. It saves the context in the task that ran,
  removes that task from the list when it was killed, and returns the context of the new task. Afterwards the
  processor uses the address space and the kernel stack of the new task, and the list is in order again.
\<close>

theorem schedule_spec:
  assumes "sched_ok s" and "running_ok s"
  shows "\<exists>u nxt s'. schedule ctx s = Inr (if current_task s = u then ctx else task_context nxt, s') \<and>
    u = hd (filter (runnable s) (sched_tasks s)) \<and> runnable s u \<and> tasks s u = Some nxt \<and> current_task s' = u \<and>
    sched_ok s' \<and> running_ok s' \<and>
    set (sched_tasks s') = set (sched_tasks s) - (if killed s (current_task s) then {current_task s} else {}) \<and>
    last (sched_tasks s') = u \<and>
    tasks s' = (if current_task s = NULL \<or> current_task s = u then tasks s
      else (tasks s)(current_task s \<mapsto> (the (tasks s (current_task s)))\<lparr>task_context := ctx\<rparr>))"
proof (rule schedule_ok [OF assms, of ctx], goal_cases)
  case (1 ys u zs s' nxt)
  have "filter (runnable s) ys = []" using 1(2) by (auto simp: filter_empty_conv dest: set_takeWhileD)
  then have hd: "u = hd (filter (runnable s) (sched_tasks s))" using 1(1,3) by simp
  have d: "distinct (zs @ ys @ [u])" using assms(1) 1(1) by (auto simp: sched_ok_def)
  have eq: "set (zs @ ys @ [u]) = set (sched_tasks s)" using 1(1) by auto
  have uc: "u \<noteq> current_task s" if "killed s (current_task s)" using that 1(3) by (auto simp: killed_def runnable_def)
  have "set (sched_tasks s') = set (sched_tasks s) - (if killed s (current_task s) then {current_task s} else {})"
    using 1(10) set_remove1_eq [OF d, of "current_task s"] eq by (cases "killed s (current_task s)") (simp_all only: if_True if_False Diff_empty)
  moreover have "last (sched_tasks s') = u"
    using 1(10) uc by (cases "killed s (current_task s)") (simp_all add: remove1_append)
  ultimately show ?case using 1 hd by blast
qed

theorem schedule_spec_witness:
  "\<exists>s'. schedule 0x9999 small_sched = Inr (0x9800, s') \<and> current_task s' = 0x7100 \<and> sched_ok s'"
proof -
  have r: "filter (runnable small_sched) (sched_tasks small_sched) = [0x7100, 0x7000]"
    by (simp add: small_sched_fields small_sched_runnable)
  from schedule_spec [OF small_sched_ok, of "0x9999"] show ?thesis
    unfolding r by (auto simp: small_sched_fields)
qed

text \<open>
  C17: no task starves. As long as a task can run and waits, every call of the scheduler returns, and the number
  of calls that choose another task is at most the number of tasks before it on the list, whatever else the
  kernel inserts, puts to sleep or wakes up in between.
\<close>

theorem schedule_no_starvation:
  assumes "waiting t s" and "passed_over t s n s'"
  shows "n \<le> position t (sched_tasks s) \<and>
    (\<exists>ctx' s''. schedule ctx s' = Inr (ctx', s'') \<and> (n = position t (sched_tasks s) \<longrightarrow> current_task s'' = t))"
proof -
  note w = passed_over_position [OF assms(2,1)]
  then have ok: "sched_ok s'" "running_ok s'" by (simp_all add: waiting_def)
  obtain ctx' s'' where sch: "schedule ctx s' = Inr (ctx', s'')" using schedule_ok [OF ok, of ctx] by metis
  then have "n = position t (sched_tasks s) \<Longrightarrow> current_task s'' = t"
    using schedule_progress [of t s' ctx ctx' s''] w by auto
  then show ?thesis using w sch by auto
qed

theorem schedule_no_starvation_witness:
  "\<exists>ctx s1 s2. schedule 0x9999 small_sched = Inr (ctx, s1) \<and> passed_over 0x7000 small_sched 1 s1 \<and>
    schedule ctx s1 = Inr s2 \<and> current_task (snd s2) = 0x7000"
proof -
  have w: "waiting 0x7000 small_sched"
    using small_sched_ok by (simp add: waiting_def small_sched_fields small_sched_runnable)
  obtain s1 where s1: "schedule 0x9999 small_sched = Inr (0x9800, s1)" "current_task s1 = 0x7100"
    by (rule small_schedule)
  have p: "passed_over 0x7000 small_sched 1 s1" using passed_over.pass [OF passed_over.start s1(1)] s1(2) by simp
  have "position 0x7000 (sched_tasks small_sched) = 1" by (simp add: position_def small_sched_fields)
  then show ?thesis using schedule_no_starvation [OF w p, of "0x9800"] s1 p by auto
qed

text \<open>
  When \<^verbatim>\<open>task_schedulable\<close> meets a killed task other than the running one, it removes the running task from
  the list and leaves the killed one: the running task is never chosen again, although it was not killed.
\<close>

theorem task_schedulable_removes_current:
  assumes "tasks s t = Some task" and "task_process task = NULL" and "task_state task = TASK_KILLED"
    and "t \<noteq> current_task s" and "{t, current_task s} \<subseteq> set (sched_tasks s)" and "distinct (sched_tasks s)"
  shows "\<exists>s'. task_schedulable t s = Inr (False, s') \<and> t \<in> set (sched_tasks s') \<and> current_task s \<notin> set (sched_tasks s')"
proof -
  let ?s = "s\<lparr>sched_tasks := remove1 (current_task s) (sched_tasks s)\<rparr>"
  have "task_schedulable t s = Inr (False, ?s)"
    using assms(1-3,5) by (simp add: task_schedulable_def task_at_def sched_remove_def)
  then show ?thesis using assms(4-6) by auto
qed

theorem task_schedulable_removes_current_witness:
  "\<exists>s s' :: kstate. task_schedulable 0x7100 s = Inr (False, s') \<and> runnable s 0x7000 \<and> 0x7000 \<notin> set (sched_tasks s')"
proof -
  let ?k = "small_ktask\<lparr>task_state := TASK_KILLED\<rparr>"
  let ?s = "small_sched\<lparr>tasks := [0x7000 \<mapsto> small_ktask, 0x7100 \<mapsto> ?k]\<rparr>"
  have f: "tasks ?s 0x7100 = Some ?k" "current_task ?s = 0x7000" "sched_tasks ?s = [0x7100, 0x7000]" by (simp_all add: small_sched_fields)
  have "runnable ?s 0x7000" by (simp add: runnable_def proc_alive_def) (simp add: small_ktask_def)
  moreover have "task_process ?k = NULL" by (simp add: small_ktask_def)
  ultimately show ?thesis using task_schedulable_removes_current [OF f(1)] f(2,3) by auto
qed

end
