(* ===== verification/Tasks.thy ===== *)
theory Tasks
  imports Scheduler
begin

text \<open>
  Creating and deleting tasks and processes: \<^verbatim>\<open>x86_64/context.c\<close>, \<^verbatim>\<open>sched/task.c\<close>, the garbage collector of
  \<^verbatim>\<open>sched/tasklist.c\<close>, and the processes of \<^verbatim>\<open>sched/proc.c\<close>. \<open>raw\<close> arguments stand for the contents of
  uninitialised memory. The addresses of functions that a context starts with are arguments too.
\<close>

section \<open>Contexts\<close>

definition CS_KERNEL :: u64 where "CS_KERNEL = 0x08"
definition DS_KERNEL :: u64 where "DS_KERNEL = 0x10"
definition CS_USER :: u64 where "CS_USER = 0x1b"
definition DS_USER :: u64 where "DS_USER = 0x23"
definition CS_USER32 :: u64 where "CS_USER32 = 0x2b"
definition DS_USER32 :: u64 where "DS_USER32 = 0x33"

definition CTX_KERNEL :: u64 where "CTX_KERNEL = 0"
definition CTX_USERMODE :: u64 where "CTX_USERMODE = BIT 0"
definition CTX_USER32 :: u64 where "CTX_USER32 = BIT 1"

text \<open>\<^verbatim>\<open>sizeof(context_t)\<close> is 192. Registers that are not set keep what the memory held.\<close>

definition context_init ::
  "(u64 \<Rightarrow> context_t) \<Rightarrow> u64 \<Rightarrow> u64 \<Rightarrow> u64 \<Rightarrow> u64 \<Rightarrow> u64 \<Rightarrow> u64 \<Rightarrow> 'a kstate_scheme \<Rightarrow> u64 \<times> 'a kstate_scheme" where
  "context_init raw ksp entry_addr stack_ptr flags arg0 arg1 s =
     (let ctx = ksp - 192;
          c = (case contexts s ctx of None \<Rightarrow> raw ctx | Some c \<Rightarrow> c);
          c = c\<lparr>rsp := stack_ptr, rip := entry_addr, rdi := arg0, rsi := arg1\<rparr>;
          c = (if flags AND CTX_USERMODE \<noteq> 0 then
                 if flags AND CTX_USER32 \<noteq> 0 then c\<lparr>cs := CS_USER32, ss := DS_USER32, fs := DS_USER32, gs := DS_USER32\<rparr>
                 else c\<lparr>cs := CS_USER, ss := DS_USER, fs := DS_USER, gs := DS_USER\<rparr>
               else c\<lparr>cs := CS_KERNEL, ss := DS_KERNEL, fs := DS_KERNEL, gs := DS_KERNEL\<rparr>);
          c = c\<lparr>rflags := BIT 9\<rparr>
      in (ctx, s\<lparr>contexts := (contexts s)(ctx \<mapsto> c)\<rparr>))"

definition context_at :: "u64 \<Rightarrow> 'a kstate_scheme \<Rightarrow> context_t result" where
  "context_at p s = (case contexts s p of None \<Rightarrow> Inl (Mem_Fault ''context_t'') | Some c \<Rightarrow> Inr c)"

definition context_set_pc :: "u64 \<Rightarrow> u64 \<Rightarrow> 'a kstate_scheme \<Rightarrow> 'a kstate_scheme result" where
  "context_set_pc ctx pc s =
     rbind (context_at ctx s) (\<lambda>c. Inr (s\<lparr>contexts := (contexts s)(ctx \<mapsto> c\<lparr>rip := pc\<rparr>)\<rparr>))"

definition context_set_ret :: "u64 \<Rightarrow> u64 \<Rightarrow> 'a kstate_scheme \<Rightarrow> 'a kstate_scheme result" where
  "context_set_ret ctx ret s =
     rbind (context_at ctx s) (\<lambda>c. Inr (s\<lparr>contexts := (contexts s)(ctx \<mapsto> c\<lparr>rax := ret\<rparr>)\<rparr>))"

section \<open>The list of all tasks\<close>

definition tl_insert :: "u64 \<Rightarrow> 'a kstate_scheme \<Rightarrow> 'a kstate_scheme result" where
  "tl_insert t s =
     rbind (mutex_lock (task_list_lock s) s) (\<lambda>m.
     let s = s\<lparr>task_list_lock := m, task_list := task_list s @ [t]\<rparr> in
     rbind (mutex_unlock (task_list_lock s) s) (\<lambda>(m, s).
     let s = s\<lparr>task_list_lock := m\<rparr> in
     Inr (s\<lparr>task_count := snd (atomic_add (task_count s) 1)\<rparr>)))"

section \<open>Tasks\<close>

definition KSTACK_SIZE :: u64 where "KSTACK_SIZE = 8192"

definition stack_align :: "u64 \<Rightarrow> u64" where
  "stack_align stack_ptr = stack_ptr AND NOT 7"

text \<open>\<^verbatim>\<open>sizeof(task_t)\<close> is 72; a kernel task keeps what the memory held in \<^verbatim>\<open>user_stack\<close>.\<close>

definition create_task ::
  "(u64 \<Rightarrow> task_t) \<Rightarrow> (u64 \<Rightarrow> context_t) \<Rightarrow> vspace_ref \<Rightarrow> u64 \<Rightarrow> (u64 \<Rightarrow> u64) \<Rightarrow> u64 \<Rightarrow> u64 \<Rightarrow> u64 option \<Rightarrow> u32 \<Rightarrow>
   'a kstate_scheme \<Rightarrow> (u64 \<times> 'a kstate_scheme) result" where
  "create_task rawt rawc vspace entry stack_ptr flags arg0 ustack line s =
     rbind (kmalloc 72 line 0 s) (\<lambda>(t, s).
     rbind (kmalloc KSTACK_SIZE (line + 1) 0 s) (\<lambda>(base, s).
     let kstack = stack_align (base + KSTACK_SIZE);
         (ctx, s) = context_init rawc kstack entry (stack_ptr kstack) flags arg0 0 s;
         (new_tid, counter) = atomic_add (tid_counter s) 1;
         task = \<lparr>tid = new_tid, task_state = TASK_RUNNING, task_context = ctx, task_vspace = vspace, kstack_ptr = kstack,
                 kstack_base = base, irq_wait = False,
                 user_stack = (case ustack of None \<Rightarrow> user_stack (case tasks s t of None \<Rightarrow> rawt t | Some x \<Rightarrow> x) | Some i \<Rightarrow> i),
                 task_process = NULL\<rparr>;
         s = task_set t task (s\<lparr>tid_counter := counter\<rparr>) in
     rbind (tl_insert t s) (\<lambda>s. Inr (t, s))))"

definition create_kernel_task ::
  "(u64 \<Rightarrow> task_t) \<Rightarrow> (u64 \<Rightarrow> context_t) \<Rightarrow> u64 \<Rightarrow> u64 \<Rightarrow> 'a kstate_scheme \<Rightarrow> (u64 \<times> 'a kstate_scheme) result" where
  "create_kernel_task rawt rawc ktask_runtime func s =
     create_task rawt rawc VSPACE_KERNEL ktask_runtime (\<lambda>kstack. kstack) CTX_KERNEL func None 29 s"

definition create_user_task ::
  "(u64 \<Rightarrow> task_t) \<Rightarrow> (u64 \<Rightarrow> context_t) \<Rightarrow> vspace_ref \<Rightarrow> u64 \<Rightarrow> u64 \<Rightarrow> 'a kstate_scheme \<Rightarrow> (u64 \<times> 'a kstate_scheme) result" where
  "create_user_task rawt rawc vspace entry stack s =
     rbind (stack_at stack s) (\<lambda>stk.
     create_task rawt rawc vspace entry (\<lambda>_. stk_stack_ptr stk) CTX_USERMODE 0 (Some (stk_index stk)) 51 s)"

text \<open>\<^verbatim>\<open>yield\<close> enters the scheduler with the context \<open>ctx\<close> that the interrupt has saved.\<close>

definition task_kill :: "u64 \<Rightarrow> 'a kstate_scheme \<Rightarrow> (u64 \<times> 'a kstate_scheme) result" where
  "task_kill ctx s =
     rbind (task_at (current_task s) s) (\<lambda>task.
     schedule ctx (task_set (current_task s) (task\<lparr>task_state := TASK_KILLED\<rparr>) s))"

definition irq_signal :: "u64 \<Rightarrow> 'a kbase_scheme \<Rightarrow> 'a kbase_scheme result" where
  "irq_signal t s = rbind (task_at t s) (\<lambda>task. Inr (task_set t (task\<lparr>irq_wait := False\<rparr>) s))"

section \<open>Starting the scheduler\<close>

definition tl_setup ::
  "(u64 \<Rightarrow> task_t) \<Rightarrow> (u64 \<Rightarrow> context_t) \<Rightarrow> u64 \<Rightarrow> u64 \<Rightarrow> 'a kstate_scheme \<Rightarrow> 'a kstate_scheme result" where
  "tl_setup rawt rawc ktask_runtime cleanup_task_func s =
     rbind (mutex_init (task_list_lock s)) (\<lambda>m.
     rbind (create_kernel_task rawt rawc ktask_runtime cleanup_task_func (s\<lparr>task_list := [], task_list_lock := m\<rparr>)) (\<lambda>(t, s).
     sched_insert t s))"

definition sched_init ::
  "(u64 \<Rightarrow> task_t) \<Rightarrow> (u64 \<Rightarrow> context_t) \<Rightarrow> u64 \<Rightarrow> u64 \<Rightarrow> u64 \<Rightarrow> 'a kstate_scheme \<Rightarrow> 'a kstate_scheme result" where
  "sched_init rawt rawc ktask_runtime cleanup_task_func idle_task_func s =
     rbind (tl_setup rawt rawc ktask_runtime cleanup_task_func (s\<lparr>sched_tasks := [], sched_enabled := False\<rparr>)) (\<lambda>s.
     rbind (create_kernel_task rawt rawc ktask_runtime idle_task_func s) (\<lambda>(t, s). sched_insert t s))"

definition sched_enable :: "u64 \<Rightarrow> 'a kstate_scheme \<Rightarrow> (u64 \<times> 'a kstate_scheme) result" where
  "sched_enable ctx s = schedule ctx (s\<lparr>sched_enabled := True\<rparr>)"

section \<open>Deleting tasks and processes\<close>

definition proc_delete :: "u64 \<Rightarrow> 'a kstate_scheme \<Rightarrow> 'a kstate_scheme result" where
  "proc_delete p s =
     rbind (proc_at p s) (\<lambda>proc.
     rbind (kassert (stack_list proc = []) ''stack list not empty'') (\<lambda>_.
     rbind (kassert (proc_task_list proc = []) ''task list not empty'') (\<lambda>_.
     rbind (loader_release (proc_loader proc) s) (\<lambda>s.
     rbind (mutex_destroy (heap_lock proc)) (\<lambda>m1.
     rbind (mutex_destroy (stack_list_lock proc)) (\<lambda>m2.
     rbind (mutex_destroy (proc_task_list_lock proc)) (\<lambda>m3.
     vspace_delete (proc_vspace proc)
       (proc_set p (proc\<lparr>heap_lock := m1, stack_list_lock := m2, proc_task_list_lock := m3\<rparr>) s))))))))"

definition task_delete :: "u64 \<Rightarrow> 'a kstate_scheme \<Rightarrow> 'a kstate_scheme result" where
  "task_delete t s =
     rbind (kassert (t \<noteq> NULL) ''invalid task_t*'') (\<lambda>_.
     rbind (task_at t s) (\<lambda>task.
     rbind (kassert (task_state task = TASK_KILLED) ''invalid task_t*'') (\<lambda>_.
     rbind (if task_process task = NULL then Inr s
            else
              let p = task_process task in
              rbind (delete_stack p (user_stack task) s) (\<lambda>s.
              rbind (proc_lock proc_task_list_lock proc_task_list_lock_update p s) (\<lambda>s.
              rbind (proc_at p s) (\<lambda>proc.
              rbind (kassert (t \<in> set (proc_task_list proc)) ''cleanup task_list: task has already been removed'') (\<lambda>_.
              let proc = proc\<lparr>proc_task_list := remove1 t (proc_task_list proc)\<rparr>;
                  proc_dead = (proc_task_list proc = []) in
              rbind (proc_unlock proc_task_list_lock proc_task_list_lock_update p (proc_set p proc s)) (\<lambda>s.
              if proc_dead then proc_delete p s else Inr s)))))) (\<lambda>s.
     rbind (kfree (kstack_base task) s) (\<lambda>s.
     rbind (kfree t s) (\<lambda>s. Inr (s\<lparr>tasks := (tasks s)(t := None)\<rparr>)))))))"

text \<open>One pass of the clean up task over the list of all tasks.\<close>

fun cleanup_tasks :: "u64 list \<Rightarrow> 'a kstate_scheme \<Rightarrow> 'a kstate_scheme result" where
  "cleanup_tasks [] s = Inr s"
| "cleanup_tasks (t # ts) s =
     rbind (task_at t s) (\<lambda>task.
     rbind (if task_state task = TASK_KILLED
            then rbind (task_delete t s) (\<lambda>s.
              Inr (s\<lparr>task_list := remove1 t (task_list s), task_count := snd (atomic_add (task_count s) (-1))\<rparr>))
            else Inr s) (cleanup_tasks ts))"

definition cleanup_pass :: "'a kstate_scheme \<Rightarrow> 'a kstate_scheme result" where
  "cleanup_pass s =
     rbind (mutex_lock (task_list_lock s) s) (\<lambda>m.
     let s = s\<lparr>task_list_lock := m\<rparr> in
     rbind (cleanup_tasks (task_list s) s) (\<lambda>s.
     rbind (mutex_unlock (task_list_lock s) s) (\<lambda>(m, s).
     Inr (s\<lparr>task_list_lock := m\<rparr>))))"

section \<open>Processes\<close>

definition proc_base_init :: "proc_t \<Rightarrow> 'a kstate_scheme \<Rightarrow> (proc_t \<times> 'a kstate_scheme) result" where
  "proc_base_init proc s =
     (let (new_pid, counter) = atomic_add (pid_counter s) 1;
          proc = proc\<lparr>proc_state := PROC_RUNNING, pid := new_pid, proc_task_list := [], fd_list := [], stack_list := []\<rparr> in
      rbind (mutex_init (heap_lock proc)) (\<lambda>m1.
      rbind (mutex_init (proc_task_list_lock proc)) (\<lambda>m2.
      rbind (mutex_init (fd_list_lock proc)) (\<lambda>m3.
      rbind (mutex_init (stack_list_lock proc)) (\<lambda>m4.
      Inr (proc\<lparr>heap_lock := m1, proc_task_list_lock := m2, fd_list_lock := m3, stack_list_lock := m4\<rparr>,
           s\<lparr>pid_counter := counter\<rparr>))))))"

fun find_fd :: "u64 list \<Rightarrow> u64 \<Rightarrow> 'a kstate_scheme \<Rightarrow> u64 result" where
  "find_fd [] fd s = Inr NULL"
| "find_fd (a # as) fd s =
     (case user_fds s a of None \<Rightarrow> Inl (Mem_Fault ''user_fd_t'')
      | Some u \<Rightarrow> if user_fd u = fd then Inr (fd_ptr u) else find_fd as fd s)"

definition proc_get_fd :: "u64 \<Rightarrow> int \<Rightarrow> 'a kstate_scheme \<Rightarrow> (u64 \<times> 'a kstate_scheme) result" where
  "proc_get_fd p fd s =
     (if fd < 0 then Inr (NULL, s)
      else
        rbind (proc_lock fd_list_lock fd_list_lock_update p s) (\<lambda>s.
        rbind (proc_at p s) (\<lambda>proc.
        rbind (find_fd (fd_list proc) (of_int fd) s) (\<lambda>ret.
        rbind (proc_unlock fd_list_lock fd_list_lock_update p s) (\<lambda>s. Inr (ret, s))))))"

text \<open>\<^verbatim>\<open>sizeof(user_fd_t)\<close> is 16. The number is returned as an \<^verbatim>\<open>int\<close>.\<close>

definition proc_new_fd :: "u64 \<Rightarrow> u64 \<Rightarrow> 'a kstate_scheme \<Rightarrow> (int \<times> 'a kstate_scheme) result" where
  "proc_new_fd p fd s =
     rbind (proc_at p s) (\<lambda>proc.
     let (new_fd, counter) = atomic_add (fd_counter proc) 1;
         s = proc_set p (proc\<lparr>fd_counter := counter\<rparr>) s in
     rbind (kmalloc 16 108 0 s) (\<lambda>(a, s).
     let s = s\<lparr>user_fds := (user_fds s)(a \<mapsto> \<lparr>user_fd = new_fd, fd_ptr = fd\<rparr>)\<rparr> in
     rbind (proc_lock fd_list_lock fd_list_lock_update p s) (\<lambda>s.
     rbind (proc_at p s) (\<lambda>proc.
     let s = proc_set p (proc\<lparr>fd_list := fd_list proc @ [a]\<rparr>) s in
     rbind (proc_unlock fd_list_lock fd_list_lock_update p s) (\<lambda>s.
     Inr (sint (ucast new_fd :: u32), s))))))"

definition sys_exit :: "u64 \<Rightarrow> 'a kstate_scheme \<Rightarrow> (u64 \<times> 'a kstate_scheme) result" where
  "sys_exit ctx s =
     rbind (task_at (current_task s) s) (\<lambda>task.
     rbind (kpanic (task_process task \<noteq> NULL) ''user task has no associated process'') (\<lambda>_.
     rbind (proc_at (task_process task) s) (\<lambda>proc.
     task_kill ctx (proc_set (task_process task) (proc\<lparr>proc_state := PROC_KILLED\<rparr>) s))))"

section \<open>New tasks\<close>

lemma heap_live_bounds:
  assumes "heap_inv s" and "(x, l) \<in> heap_live s"
  shows "heap_base + 44 \<le> x" "x + l \<le> unat (kheap_break s)"
proof -
  obtain bs where rel: "heap_rel s bs" using assms(1) by (auto simp: heap_inv_def)
  have "heap_base + 44 \<le> x \<and> x + l \<le> unat (kheap_break s)"
    using live_of_bounds [of "hblocks s" 0 heap_base bs 0 x l] assms(2) rel
    unfolding heap_live_rel [OF rel] by (auto simp: heap_rel_def)
  then show "heap_base + 44 \<le> x" "x + l \<le> unat (kheap_break s)" by simp_all
qed

lemma stack_align_nat: "unat (stack_align x) = 8 * (unat x div 8)"
proof -
  have m: "(7 :: u64) = mask 3" by (simp add: mask_eq_exp_minus_1)
  have "stack_align x = push_bit 3 (drop_bit 3 x)"
    unfolding stack_align_def m by (rule bit_word_eqI) (auto simp: bit_simps)
  then have "unat (stack_align x) = take_bit 64 (8 * (unat x div 8))"
  proof -
    define y where "y = drop_bit 3 x"
    have y: "unat y = unat x div 8" by (simp add: y_def drop_bit_eq_div unat_div_word)
    have "unat (push_bit 3 y) = take_bit 64 (8 * unat y)" by (simp only: unsigned_push_bit_eq) (simp add: push_bit_eq_mult mult.commute)
    then show ?thesis using \<open>stack_align x = _\<close> y by (simp only: y_def)
  qed
  also have "\<dots> = 8 * (unat x div 8)"
    using unat_lt_2p64 [of x] by (intro take_bit_nat_eq_self) (simp add: order_le_less_trans [OF times_div_less_eq_dividend])
  finally show ?thesis .
qed


text \<open>What every new task has: an aligned kernel stack of its own with its first context at the top.\<close>

definition fresh_task :: "u64 \<Rightarrow> task_t \<Rightarrow> context_t \<Rightarrow> 'a kstate_scheme \<Rightarrow> 'a kstate_scheme \<Rightarrow> bool" where
  "fresh_task t task c s s' \<longleftrightarrow>
     t \<noteq> NULL \<and> (\<forall>l. (unat t, l) \<notin> heap_live s) \<and> tasks s' = (tasks s)(t \<mapsto> task) \<and> runnable s' t \<and>
     task_list s' = task_list s @ [t] \<and> task_count s' = task_count s + 1 \<and>
     tid task = tid_counter s \<and> tid_counter s' = tid_counter s + 1 \<and> sched_tasks s' = sched_tasks s \<and>
     (\<exists>l. (unat (kstack_base task), l) \<in> heap_live s' - heap_live s \<and> 8192 \<le> l) \<and>
     contexts s' (task_context task) = Some c \<and> 8 dvd unat (kstack_ptr task) \<and>
     unat (kstack_base task) \<le> unat (task_context task) \<and>
     unat (task_context task) + 192 = unat (kstack_ptr task) \<and> unat (kstack_ptr task) \<le> unat (kstack_base task) + 8192"

lemma hstate_more_kernel:
  assumes "hstate.more s' = hstate.more s"
  shows "task_list s' = task_list s" "task_list_lock s' = task_list_lock s" "task_count s' = task_count s"
    "tid_counter s' = tid_counter s" "contexts s' = contexts s" "sched_tasks s' = sched_tasks s" "pid_counter s' = pid_counter s"
    "user_fds s' = user_fds s"
  using assms by (cases s; cases s'; simp add: kstate.defs)+

lemma tl_insert_idle:
  assumes "mutex_idle (task_list_lock s)"
  shows "tl_insert t s = Inr (s\<lparr>task_list := task_list s @ [t], task_count := task_count s + 1\<rparr>)"
  using assms by (simp add: tl_insert_def Let_def atomic_add_def)

lemma heap_kstate_update [simp]:
  "heap_inv (s\<lparr>contexts := a\<rparr>) = heap_inv s" "heap_live (s\<lparr>contexts := a\<rparr>) = heap_live s"
  "heap_inv (s\<lparr>tid_counter := b\<rparr>) = heap_inv s" "heap_live (s\<lparr>tid_counter := b\<rparr>) = heap_live s"
  "heap_inv (s\<lparr>task_list := d, task_count := e\<rparr>) = heap_inv s" "heap_live (s\<lparr>task_list := d, task_count := e\<rparr>) = heap_live s"
  "heap_inv (s\<lparr>tasks := f\<rparr>) = heap_inv s" "heap_live (s\<lparr>tasks := f\<rparr>) = heap_live s"
  "heap_inv (s\<lparr>user_fds := g\<rparr>) = heap_inv s" "heap_live (s\<lparr>user_fds := g\<rparr>) = heap_live s"
  by (simp_all add: vspace_inv_def vspace_mapping_def vspace_root_def pg_inv_def pg_used_def
    pg_total_def fun_eq_iff heap_inv_def heap_rel_def heap_pages_mapped_def heap_live_def)

lemma context_init_ok:
  obtains c where "context_init raw ksp entry sp flags arg0 arg1 s = (ksp - 192, s\<lparr>contexts := (contexts s)(ksp - 192 \<mapsto> c)\<rparr>)"
    and "rip c = entry" and "rsp c = sp" and "rflags c = BIT 9" and "rdi c = arg0"
    and "cs c = (if flags AND CTX_USERMODE \<noteq> 0 then if flags AND CTX_USER32 \<noteq> 0 then CS_USER32 else CS_USER else CS_KERNEL)"
    and "ss c = (if flags AND CTX_USERMODE \<noteq> 0 then if flags AND CTX_USER32 \<noteq> 0 then DS_USER32 else DS_USER else DS_KERNEL)"
proof (rule that)
  let ?m = "case contexts s (ksp - 192) of None \<Rightarrow> raw (ksp - 192) | Some c \<Rightarrow> c"
  let ?c0 = "?m\<lparr>rsp := sp, rip := entry, rdi := arg0, rsi := arg1\<rparr>"
  let ?c = "(if flags AND CTX_USERMODE \<noteq> 0 then
      if flags AND CTX_USER32 \<noteq> 0 then ?c0\<lparr>cs := CS_USER32, ss := DS_USER32, fs := DS_USER32, gs := DS_USER32\<rparr>
      else ?c0\<lparr>cs := CS_USER, ss := DS_USER, fs := DS_USER, gs := DS_USER\<rparr>
    else ?c0\<lparr>cs := CS_KERNEL, ss := DS_KERNEL, fs := DS_KERNEL, gs := DS_KERNEL\<rparr>)\<lparr>rflags := BIT 9\<rparr>"
  show "context_init raw ksp entry sp flags arg0 arg1 s = (ksp - 192, s\<lparr>contexts := (contexts s)(ksp - 192 \<mapsto> ?c)\<rparr>)"
    unfolding context_init_def Let_def ..
qed simp_all

lemma create_task_ok:
  assumes inv: "heap_inv s" and room: "heap_room s 8308" "24 \<le> free_frames s" and lock: "mutex_idle (task_list_lock s)"
  obtains t task c s' where "create_task rawt rawc vspace entry sp flags arg0 ustack line s = Inr (t, s')" and "heap_inv s'"
    and "fresh_task t task c s s'" and "task_vspace task = vspace" and "rip c = entry" and "rsp c = sp (kstack_ptr task)"
    and "rflags c = BIT 9" and "rdi c = arg0" and "task_process task = NULL"
    and "cs c = (if flags AND CTX_USERMODE \<noteq> 0 then if flags AND CTX_USER32 \<noteq> 0 then CS_USER32 else CS_USER else CS_KERNEL)"
    and "ss c = (if flags AND CTX_USERMODE \<noteq> 0 then if flags AND CTX_USER32 \<noteq> 0 then DS_USER32 else DS_USER else DS_KERNEL)"
    and "\<forall>i. ustack = Some i \<longrightarrow> user_stack task = i"
proof -
  have r1: "heap_room s 72" using room by (simp add: heap_room_def)
  show ?thesis
  proof (rule kmalloc_ok [OF inv r1, of line 0], goal_cases)
    case (1 t s1 l)
    note A = this
    have r2: "heap_room s1 KSTACK_SIZE"
      using room A(10,13) by (simp add: heap_room_def KSTACK_SIZE_def)
    show ?case
    proof (rule kmalloc_ok [OF A(2) r2, of "line + 1" 0], goal_cases)
      case (1 base s2 m)
      note B = this
      note m1 = hstate_more_kernel [OF A(11)] and m2 = hstate_more_kernel [OF B(11)]
      let ?ksp = "stack_align (base + KSTACK_SIZE)"
      have bm: "(unat base, m) \<in> heap_live s2" "8192 \<le> m" using B(4,6) by (simp_all add: KSTACK_SIZE_def)
      have top: "unat (base + KSTACK_SIZE) = unat base + 8192"
        using heap_live_bounds(2) [OF B(2) bm(1)] bm(2) unat_lt_2p64 [of "kheap_break s2"]
        by (subst unat_add_no_wrap) (simp_all add: KSTACK_SIZE_def)
      have ksp: "unat ?ksp = 8 * ((unat base + 8192) div 8)" by (simp only: stack_align_nat top)
      have kb: "unat ?ksp \<le> unat base + 8192" "unat base + 8184 \<le> unat ?ksp"
        unfolding ksp by simp_all
      have cu: "unat (?ksp - 192) = unat ?ksp - 192" using kb by (subst unat_sub_no_wrap) (simp_all add: word_le_nat_alt)
      obtain c where c: "context_init rawc ?ksp entry (sp ?ksp) flags arg0 0 s2 = (?ksp - 192, s2\<lparr>contexts := (contexts s2)(?ksp - 192 \<mapsto> c)\<rparr>)"
        "rip c = entry" "rsp c = sp ?ksp" "rflags c = BIT 9" "rdi c = arg0"
        "cs c = (if flags AND CTX_USERMODE \<noteq> 0 then if flags AND CTX_USER32 \<noteq> 0 then CS_USER32 else CS_USER else CS_KERNEL)"
        "ss c = (if flags AND CTX_USERMODE \<noteq> 0 then if flags AND CTX_USER32 \<noteq> 0 then DS_USER32 else DS_USER else DS_KERNEL)"
        by (rule context_init_ok)
      let ?us = "case ustack of None \<Rightarrow> user_stack (case tasks s t of None \<Rightarrow> rawt t | Some x \<Rightarrow> x) | Some i \<Rightarrow> i"
      define task where "task = \<lparr>tid = tid_counter s, task_state = TASK_RUNNING, task_context = ?ksp - 192, task_vspace = vspace,
        kstack_ptr = ?ksp, kstack_base = base, irq_wait = False, user_stack = ?us, task_process = NULL\<rparr>"
      define s3 where "s3 = s2\<lparr>contexts := (contexts s2)(?ksp - 192 \<mapsto> c)\<rparr>\<lparr>tid_counter := tid_counter s + 1\<rparr>\<lparr>tasks := (tasks s)(t \<mapsto> task)\<rparr>"
      define s' where "s' = s3\<lparr>task_list := task_list s @ [t], task_count := task_count s + 1\<rparr>"
      have "mutex_idle (task_list_lock s3)" using lock m1 m2 by (simp add: s3_def)
      then have tl: "tl_insert t s3 = Inr s'" using tl_insert_idle [of s3 t] m1 m2 by (simp add: s'_def s3_def)
      have run: "create_task rawt rawc vspace entry sp flags arg0 ustack line s = Inr (t, s')"
        using A(1,8) B(1,8) c(1) tl m1 m2
        by (cases ustack) (simp_all add: create_task_def Let_def atomic_add_def task_set_def s3_def task_def)
      have hi: "heap_inv s'" and hl: "heap_live s' = heap_live s2" using B(2) by (simp_all add: s'_def s3_def)
      have "runnable s' t" by (simp add: runnable_def proc_alive_def s'_def s3_def) (simp add: task_def)
      moreover have "(unat base, m) \<notin> heap_live s" using B(5) A(6) by auto
      moreover have "contexts s' (task_context task) = Some c" by (simp add: s'_def s3_def task_def)
      ultimately have fr: "fresh_task t task c s s'"
        unfolding fresh_task_def using A(3,5) bm kb cu hl m1 m2 ksp
        by (intro conjI exI [of _ m]) (simp_all add: task_def s'_def s3_def)
      show ?case
        by (rule that [OF run hi fr]) (use c in \<open>simp_all add: task_def\<close>)
    qed
  qed
qed

section \<open>File descriptors\<close>

text \<open>The open files of a process: numbers below the counter, all different.\<close>

definition fds_inv :: "u64 \<Rightarrow> 'a kstate_scheme \<Rightarrow> bool" where
  "fds_inv p s \<longleftrightarrow>
     (\<exists>proc. procs s p = Some proc \<and> mutex_idle (fd_list_lock proc) \<and> unat (fd_counter proc) < 2 ^ 31 \<and>
       (\<forall>a \<in> set (fd_list proc). \<exists>u l. user_fds s a = Some u \<and> unat (user_fd u) < unat (fd_counter proc) \<and> (unat a, l) \<in> heap_live s))"

text \<open>The file that a descriptor of the process stands for, NULL when there is none.\<close>

definition open_file :: "u64 \<Rightarrow> int \<Rightarrow> 'a kstate_scheme \<Rightarrow> u64" where
  "open_file p fd s =
     (case List.find (\<lambda>u. int (unat (user_fd u)) = fd) (map (\<lambda>a. the (user_fds s a)) (fd_list (the (procs s p)))) of
        None \<Rightarrow> NULL | Some u \<Rightarrow> fd_ptr u)"

lemma find_fd_ok:
  assumes "\<forall>a \<in> set as. \<exists>u. user_fds s a = Some u \<and> unat (user_fd u) < 2 ^ 31" and "0 \<le> fd" and "fd < 2 ^ 31"
  shows "find_fd as (of_int fd) s =
    Inr (case List.find (\<lambda>u. int (unat (user_fd u)) = fd) (map (\<lambda>a. the (user_fds s a)) as) of None \<Rightarrow> NULL | Some u \<Rightarrow> fd_ptr u)"
  using assms(1)
proof (induction as)
  case (Cons a as)
  obtain u where u: "user_fds s a = Some u" "unat (user_fd u) < 2 ^ 31" using Cons.prems by auto
  have "user_fd u = of_int fd \<longleftrightarrow> int (unat (user_fd u)) = fd"
  proof
    assume "user_fd u = of_int fd"
    then have "uint (user_fd u) = take_bit 64 fd" by (simp add: uint_word_of_int_eq)
    then show "int (unat (user_fd u)) = fd" using assms(2,3) by (simp add: take_bit_int_eq_self)
  qed (metis of_int_of_nat_eq of_nat_unat_word)
  then show ?case using Cons u by simp
qed simp

lemma proc_get_fd_ok:
  assumes inv: "fds_inv p s" and fd: "0 \<le> fd" "fd < 2 ^ 31"
  shows "proc_get_fd p fd s = Inr (open_file p fd s, s)"
proof -
  obtain proc where proc: "procs s p = Some proc" "mutex_idle (fd_list_lock proc)" "unat (fd_counter proc) < 2 ^ 31"
    and all: "\<forall>a \<in> set (fd_list proc). \<exists>u. user_fds s a = Some u \<and> unat (user_fd u) < unat (fd_counter proc)"
    using inv unfolding fds_inv_def by blast
  define s1 where "s1 = s\<lparr>procs := (procs s)(p \<mapsto> proc\<lparr>fd_list_lock := mutex_taken (fd_list_lock proc) s\<rparr>)\<rparr>"
  have lk: "proc_lock fd_list_lock fd_list_lock_update p s = Inr s1"
    using proc_lock_idle [OF proc(1), of fd_list_lock fd_list_lock_update] proc(2) by (simp add: s1_def)
  have ul: "proc_unlock fd_list_lock fd_list_lock_update p s1 = Inr s"
    using proc_unlock_taken [of s1 p _ fd_list_lock s "fd_list_lock proc"] proc by (simp add: s1_def fun_upd_idem)
  have "\<forall>a \<in> set (fd_list proc). \<exists>u. user_fds s1 a = Some u \<and> unat (user_fd u) < 2 ^ 31"
    using all proc(3) by (fastforce simp: s1_def)
  from find_fd_ok [OF this fd] have "find_fd (fd_list proc) (of_int fd) s1 = Inr (open_file p fd s)"
    using proc(1) by (simp add: open_file_def s1_def)
  then show ?thesis using lk ul fd(1) by (simp add: proc_get_fd_def proc_at_def s1_def)
qed

lemma proc_new_fd_ok:
  assumes inv: "fds_inv p s" and proc: "procs s p = Some proc" and heap: "heap_inv s" "heap_room s 16"
    and last: "unat (fd_counter proc) < 2 ^ 31 - 1"
  obtains s' where "proc_new_fd p fd s = Inr (int (unat (fd_counter proc)), s')" and "fds_inv p s'" and "heap_inv s'"
    and "open_file p (int (unat (fd_counter proc))) s' = fd"
    and "\<forall>i. i \<noteq> int (unat (fd_counter proc)) \<longrightarrow> open_file p i s' = open_file p i s"
proof -
  let ?n = "fd_counter proc"
  have lock: "mutex_idle (fd_list_lock proc)"
    and all: "\<forall>a \<in> set (fd_list proc). \<exists>u l. user_fds s a = Some u \<and> unat (user_fd u) < unat ?n \<and> (unat a, l) \<in> heap_live s"
    using inv proc by (auto simp: fds_inv_def)
  define proc1 where "proc1 = proc\<lparr>fd_counter := ?n + 1\<rparr>"
  define s1 where "s1 = s\<lparr>procs := (procs s)(p \<mapsto> proc1)\<rparr>"
  have n1: "unat (?n + 1) = unat ?n + 1" using last by (subst unat_add_no_wrap) simp_all
  have h1: "heap_inv s1" "heap_room s1 16" using heap by (simp_all add: s1_def)
  show ?thesis
  proof (rule kmalloc_ok [OF h1, of 108 0], goal_cases)
    case (1 a s2 l)
    note A = this
    note more = hstate_more_procs [OF A(11)] hstate_more_kernel [OF A(11)]
    define U where "U = (user_fds s)(a \<mapsto> \<lparr>user_fd = ?n, fd_ptr = fd\<rparr>)"
    define s3 where "s3 = s2\<lparr>user_fds := U\<rparr>"
    let ?p1 = "proc1\<lparr>fd_list_lock := mutex_taken (fd_list_lock proc) s\<rparr>" and ?p2 = "proc1\<lparr>fd_list := fd_list proc @ [a]\<rparr>"
    define s' where "s' = s3\<lparr>procs := (procs s)(p \<mapsto> ?p2)\<rparr>"
    have lk: "proc_lock fd_list_lock fd_list_lock_update p s3 = Inr (s3\<lparr>procs := (procs s)(p \<mapsto> ?p1)\<rparr>)"
      using proc_lock_idle [of s3 p proc1 fd_list_lock fd_list_lock_update] lock more A(9) by (simp add: s3_def s1_def proc1_def)
    have ul: "proc_unlock fd_list_lock fd_list_lock_update p (s3\<lparr>procs := (procs s)(p \<mapsto> ?p1\<lparr>fd_list := fd_list proc @ [a]\<rparr>)\<rparr>) = Inr s'"
      using proc_unlock_taken [of "s3\<lparr>procs := (procs s)(p \<mapsto> ?p1\<lparr>fd_list := fd_list proc @ [a]\<rparr>)\<rparr>" p _ fd_list_lock s "fd_list_lock proc"]
        lock A(9) by (simp add: s3_def s'_def proc1_def s1_def)
    have sn: "sint (ucast ?n :: u32) = int (unat ?n)"
    proof -
      have "unat (ucast ?n :: u32) = unat ?n" using last by (simp add: unsigned_ucast_eq take_bit_nat_eq_self)
      then have u: "uint (ucast ?n :: u32) = int (unat ?n)" by (metis of_nat_unat)
      define k where "k = unat ?n"
      have "signed_take_bit 31 (int k) = int k" using last by (intro signed_take_bit_int_eq_self) (simp_all only: flip: k_def, simp_all)
      then show ?thesis by (simp add: sint_uint u k_def)
    qed
    have run: "proc_new_fd p fd s = Inr (int (unat ?n), s')"
      using proc A(1) lk ul more sn
      by (simp add: proc_new_fd_def proc_at_def proc_set_def atomic_add_def Let_def U_def s3_def s1_def proc1_def)
    have new: "a \<notin> set (fd_list proc)" using all A(5) by (auto simp: s1_def)
    have Uold: "U x = user_fds s x" if "x \<in> set (fd_list proc)" for x using new that by (auto simp: U_def)
    have hl: "heap_live s' = insert (unat a, l) (heap_live s)" using A(6) by (simp add: s'_def s3_def s1_def)
    have "\<forall>x \<in> set (fd_list ?p2). \<exists>u k. user_fds s' x = Some u \<and> unat (user_fd u) < unat (fd_counter ?p2) \<and> (unat x, k) \<in> heap_live s'"
    proof
      fix x assume "x \<in> set (fd_list ?p2)"
      then consider "x = a" | "x \<in> set (fd_list proc)" by auto
      then show "\<exists>u k. user_fds s' x = Some u \<and> unat (user_fd u) < unat (fd_counter ?p2) \<and> (unat x, k) \<in> heap_live s'"
      proof cases
        case 1
        then show ?thesis using hl n1 by (simp add: s'_def s3_def U_def proc1_def) blast
      next
        case 2
        then obtain u k where "user_fds s x = Some u" "unat (user_fd u) < unat ?n" "(unat x, k) \<in> heap_live s" using all by blast
        then show ?thesis using hl n1 Uold [OF 2] by (simp add: s'_def s3_def proc1_def) force
      qed
    qed
    then have inv': "fds_inv p s'"
      unfolding fds_inv_def using lock n1 last by (intro exI [of _ ?p2]) (simp add: s'_def proc1_def)
    have hi: "heap_inv s'" using A(2) by (simp add: s'_def s3_def)
    have mp: "map (\<lambda>a. the (user_fds s' a)) (fd_list (the (procs s' p))) =
        map (\<lambda>a. the (user_fds s a)) (fd_list proc) @ [\<lparr>user_fd = ?n, fd_ptr = fd\<rparr>]"
      using Uold by (simp add: s'_def s3_def proc1_def) (simp add: U_def)
    have none: "List.find (\<lambda>u. int (unat (user_fd u)) = int (unat ?n)) (map (\<lambda>a. the (user_fds s a)) (fd_list proc)) = None"
      unfolding find_None_iff
    proof clarify
      fix u assume "u \<in> set (map (\<lambda>a. the (user_fds s a)) (fd_list proc))" and eq: "int (unat (user_fd u)) = int (unat ?n)"
      then obtain x where "x \<in> set (fd_list proc)" "u = the (user_fds s x)" by auto
      then have "unat (user_fd u) < unat ?n" using all by fastforce
      then show False using eq by (simp del: of_nat_unat)
    qed
    have fapp: "List.find P (xs @ [y]) = (case List.find P xs of None \<Rightarrow> if P y then Some y else None | Some z \<Rightarrow> Some z)" for P xs and y :: user_fd_t
      by (induction xs) auto
    have o1: "open_file p (int (unat ?n)) s' = fd" unfolding open_file_def mp fapp none by simp
    have o2: "\<forall>i. i \<noteq> int (unat ?n) \<longrightarrow> open_file p i s' = open_file p i s"
      unfolding open_file_def mp fapp using proc by (auto split: option.splits)
    show ?case by (rule that [OF run inv' hi o1 o2])
  qed
qed


section \<open>Properties\<close>

lemma vm_extend_kernel [simp]:
  "heap_inv (fstate.extend s x) = heap_inv s" "free_frames (fstate.extend s x) = free_frames s"
  "heap_room (fstate.extend s x) n = heap_room s n" "heap_live (fstate.extend s x) = heap_live s"
  by (simp_all add: fstate.extend_def vspace_inv_def free_frames_def vspace_mapping_def vspace_root_def pg_inv_def
    pg_used_def pg_total_def fun_eq_iff heap_inv_def heap_rel_def heap_pages_mapped_def heap_room_def heap_live_def)

lemma heap_task_update [simp]:
  "heap_inv (s\<lparr>tasks := f\<rparr>) = heap_inv s" "heap_inv (s\<lparr>current_task := c\<rparr>) = heap_inv s" for s :: "'a hstate_scheme"
  by (simp_all add: vspace_inv_def vspace_mapping_def vspace_root_def pg_inv_def pg_used_def
    pg_total_def fun_eq_iff heap_inv_def heap_rel_def heap_pages_mapped_def)

lemma small_sched_heap: "heap_inv small_sched" "free_frames small_sched = 55" "n \<le> 8308 \<Longrightarrow> heap_room small_sched n"
proof -
  have f: "free_frames small_fs = 55" "heap_inv small_fs" using small_fs_space by (simp_all add: user_space_inv_def)
  show h: "heap_inv small_sched" "free_frames small_sched = 55"
    using f by (simp_all add: small_sched_def)
  have k: "kheap_break small_sched = KHEAP_START"
    using small_user_fields(4) by (simp add: small_sched_def fstate.extend_def small_fs_def pstate.extend_def small_running_def)
  assume "n \<le> 8308"
  then have n: "unat n \<le> 8308" by (simp add: word_le_nat_alt)
  then have "(unat n + 44) div 4096 \<le> (8308 + 44) div 4096" by (intro div_le_mono) simp
  then show "heap_room small_sched n" using n h(2) k by (simp add: heap_room_def KHEAP_START_def)
qed

text \<open>
  C16: \<^verbatim>\<open>create_user_task\<close> makes a task that can run. Its first context lies on a kernel stack of its own and starts
  the program at the entry point, on the given user stack, in user mode (ring 3) and with interrupts enabled. The
  task is new on the list of tasks and has the next number.
\<close>

theorem create_user_task_spec:
  assumes "heap_inv s" and "heap_room s 8308" and "24 \<le> free_frames s" and "mutex_idle (task_list_lock s)"
    and "userstacks s stack = Some stk"
  shows "\<exists>t task c s'. create_user_task rawt rawc vspace entry stack s = Inr (t, s') \<and> heap_inv s' \<and> fresh_task t task c s s' \<and>
    task_vspace task = vspace \<and> user_stack task = stk_index stk \<and> rip c = entry \<and> rsp c = stk_stack_ptr stk \<and>
    take_bit 2 (cs c) = 3 \<and> take_bit 2 (ss c) = 3 \<and> bit (rflags c) 9"
proof (rule create_task_ok [OF assms(1-4), of rawt rawc vspace entry "\<lambda>_. stk_stack_ptr stk" CTX_USERMODE 0 "Some (stk_index stk)" 51], goal_cases)
  case (1 t task c s')
  have fl: "CTX_USERMODE AND CTX_USERMODE \<noteq> 0" "CTX_USERMODE AND CTX_USER32 = 0" by (simp_all add: CTX_USERMODE_def CTX_USER32_def BIT_def)
  have "cs c = 0x1b" "ss c = 0x23" "rflags c = BIT 9" using 1(7,10,11) fl by (simp_all add: CS_USER_def DS_USER_def)
  then have sel: "take_bit 2 (cs c) = 3" "take_bit 2 (ss c) = 3" "bit (rflags c) 9" by (simp_all add: BIT_def bit_push_bit_iff)
  have "create_user_task rawt rawc vspace entry stack s = Inr (t, s')" using 1(1) assms(5) by (simp add: create_user_task_def stack_at_def)
  then show ?case using 1 sel by blast
qed

theorem create_user_task_spec_witness:
  "\<exists>t s'. create_user_task (\<lambda>_. small_ktask) (\<lambda>_. undefined) (Vspace 0x1000) 0x400000 0x5000
      (small_sched\<lparr>userstacks := [0x5000 \<mapsto> \<lparr>stk_index = 0, stk_start_page = 0x7fffc000, stk_page_count = 8192, stk_stack_ptr = 0x7fffe0000000,
        stk_allocated = True, stk_pages_mapped = 0\<rparr>]\<rparr>) = Inr (t, s') \<and> runnable s' t"
proof -
  let ?stk = "\<lparr>stk_index = 0, stk_start_page = 0x7fffc000, stk_page_count = 8192, stk_stack_ptr = 0x7fffe0000000,
        stk_allocated = True, stk_pages_mapped = 0\<rparr> :: userstack_t"
  let ?s = "small_sched\<lparr>userstacks := [0x5000 \<mapsto> ?stk]\<rparr>"
  have s: "heap_inv ?s" "heap_room ?s 8308" "24 \<le> free_frames ?s" "userstacks ?s 0x5000 = Some ?stk"
    using small_sched_heap by simp_all
  have "mutex_idle (task_list_lock ?s)" by (simp add: small_sched_def fstate.extend_def)
  from create_user_task_spec [OF s(1-3) this s(4)] show ?thesis by (fastforce simp: fresh_task_def)
qed

text \<open>
  The number that \<^verbatim>\<open>proc_new_fd\<close> returns stands for the file: \<^verbatim>\<open>proc_get_fd\<close> finds it again, and every other
  number of the process still stands for the file it stood for before.
\<close>

theorem fd_roundtrip:
  assumes "fds_inv p s" and "procs s p = Some proc" and "heap_inv s" and "heap_room s 16" and "unat (fd_counter proc) < 2 ^ 31 - 1"
  shows "\<exists>n s'. proc_new_fd p fd s = Inr (n, s') \<and> fds_inv p s' \<and> proc_get_fd p n s' = Inr (fd, s') \<and>
    (\<forall>i f. 0 \<le> i \<longrightarrow> i < 2 ^ 31 \<longrightarrow> i \<noteq> n \<longrightarrow> proc_get_fd p i s = Inr (f, s) \<longrightarrow> proc_get_fd p i s' = Inr (f, s'))"
proof (rule proc_new_fd_ok [OF assms, of fd], goal_cases)
  case (1 s')
  let ?n = "int (unat (fd_counter proc))"
  have n: "0 \<le> ?n" "?n < 2 ^ 31" using assms(5) by (simp_all del: of_nat_unat)
  have get: "proc_get_fd p ?n s' = Inr (fd, s')" using proc_get_fd_ok [OF 1(2) n] 1(4) by simp
  have "proc_get_fd p i s' = Inr (f, s')"
    if "0 \<le> i" "i < 2 ^ 31" "i \<noteq> ?n" "proc_get_fd p i s = Inr (f, s)" for i f
    using proc_get_fd_ok [OF assms(1) that(1,2)] proc_get_fd_ok [OF 1(2) that(1,2)] 1(5) that(3,4) by simp
  then show ?case using 1(1,2) get by blast
qed

theorem fd_roundtrip_witness:
  "\<exists>n s'. proc_new_fd 0x2000 0x1234 small_sched = Inr (n, s') \<and> proc_get_fd 0x2000 n s' = Inr (0x1234, s')"
proof -
  have p: "procs small_sched 0x2000 = Some small_proc"
    using small_running_fields(1) by (simp add: small_sched_def fstate.extend_def small_fs_def pstate.extend_def)
  then have f: "fds_inv 0x2000 small_sched" by (simp add: fds_inv_def) (simp add: small_proc_def)
  have "unat (fd_counter small_proc) < 2 ^ 31 - 1" by (simp add: small_proc_def)
  moreover have "heap_room small_sched 16" by (rule small_sched_heap(3)) (simp add: word_le_nat_alt)
  ultimately show ?thesis using fd_roundtrip [OF f p small_sched_heap(1), of "0x1234"] by blast
qed

end
