(* ===== verification/Descriptors.thy ===== *)
theory Descriptors
  imports Tasks
begin

text \<open>
  The tables that the processor reads: the segment descriptors and the task state segment of \<^verbatim>\<open>x86_64/gdt.c\<close> and the
  interrupt gates of \<^verbatim>\<open>x86_64/idt.c\<close>. The instructions that load their addresses have no effect on the tables; the bytes
  sent to the interrupt controllers are a list of pairs of port and value.
\<close>

section \<open>Segment descriptors\<close>

definition GDT_ENTRIES :: nat where "GDT_ENTRIES = 9"
definition TSS_INDEX :: nat where "TSS_INDEX = 7"

definition PRESENT :: u64 where "PRESENT = BIT 47"
definition CODE :: u64 where "CODE = BIT 43 OR BIT 44"
definition CODE_R :: u64 where "CODE_R = BIT 41"
definition DATA :: u64 where "DATA = BIT 44"
definition DATA_W :: u64 where "DATA_W = BIT 41"
definition LONGMODE :: u64 where "LONGMODE = BIT 53"
definition DPL_USER :: u64 where "DPL_USER = BIT 45 OR BIT 46"
definition OPSIZE32 :: u64 where "OPSIZE32 = BIT 54"
definition MAX_LIMIT :: u64 where "MAX_LIMIT = 0x8f00000000ffff"

record gdt_t =
  gdt_size :: u16
  gdt_addr :: u64

record tss_t =
  tss_reserved0 :: u32
  rsp0 :: u64
  rsp1 :: u64
  rsp2 :: u64
  tss_reserved1 :: u64
  ist1 :: u64
  ist2 :: u64
  ist3 :: u64
  ist4 :: u64
  ist5 :: u64
  ist6 :: u64
  ist7 :: u64
  tss_reserved2 :: u64
  tss_reserved3 :: u16
  iopb_offset :: u16

text \<open>\<^verbatim>\<open>sizeof(tss_t)\<close> is 104.\<close>

definition sizeof_tss :: nat where "sizeof_tss = 104"

text \<open>
  The descriptor of the task state segment is a structure of bit fields over 128 bits, in their order from bit 0 on:
  \<open>put_bits off n v\<close> stores the \<open>n\<close> low bits of \<open>v\<close> from bit \<open>off\<close> on.
\<close>

type_synonym tssd_t = "128 word"

definition put_bits :: "nat \<Rightarrow> nat \<Rightarrow> u64 \<Rightarrow> tssd_t \<Rightarrow> tssd_t" where
  "put_bits off n v td = (td AND NOT (push_bit off (mask n))) OR push_bit off (take_bit n (ucast v))"

definition tssd_limit1 :: "u64 \<Rightarrow> tssd_t \<Rightarrow> tssd_t" where "tssd_limit1 = put_bits 0 16"
definition tssd_base1 :: "u64 \<Rightarrow> tssd_t \<Rightarrow> tssd_t" where "tssd_base1 = put_bits 16 24"
definition tssd_type :: "u64 \<Rightarrow> tssd_t \<Rightarrow> tssd_t" where "tssd_type = put_bits 40 4"
definition tssd_zero1 :: "u64 \<Rightarrow> tssd_t \<Rightarrow> tssd_t" where "tssd_zero1 = put_bits 44 1"
definition tssd_dpl :: "u64 \<Rightarrow> tssd_t \<Rightarrow> tssd_t" where "tssd_dpl = put_bits 45 2"
definition tssd_present :: "u64 \<Rightarrow> tssd_t \<Rightarrow> tssd_t" where "tssd_present = put_bits 47 1"
definition tssd_limit2 :: "u64 \<Rightarrow> tssd_t \<Rightarrow> tssd_t" where "tssd_limit2 = put_bits 48 4"
definition tssd_avl :: "u64 \<Rightarrow> tssd_t \<Rightarrow> tssd_t" where "tssd_avl = put_bits 52 1"
definition tssd_gran :: "u64 \<Rightarrow> tssd_t \<Rightarrow> tssd_t" where "tssd_gran = put_bits 55 1"
definition tssd_base2 :: "u64 \<Rightarrow> tssd_t \<Rightarrow> tssd_t" where "tssd_base2 = put_bits 56 40"
definition tssd_zero2 :: "u64 \<Rightarrow> tssd_t \<Rightarrow> tssd_t" where "tssd_zero2 = put_bits 104 5"

definition setup_tss :: "u64 \<Rightarrow> tssd_t \<Rightarrow> tss_t \<Rightarrow> tssd_t \<times> tss_t" where
  "setup_tss addr td tss =
     (let td = tssd_zero1 0 td;
          td = tssd_zero2 0 td;
          td = tssd_base1 (addr AND 0xffffff) td;
          td = tssd_base2 (drop_bit 24 addr) td;
          td = tssd_limit1 (of_nat sizeof_tss) td;
          td = tssd_limit2 0 td;
          td = tssd_present 1 td;
          td = tssd_avl 0 td;
          td = tssd_gran 0 td;
          td = tssd_dpl 3 td;
          td = tssd_type 9 td
      in (td, tss\<lparr>iopb_offset := of_nat sizeof_tss\<rparr>))"

definition load_gdt :: "u64 \<Rightarrow> gdt_t" where
  "load_gdt gdt_address = \<lparr>gdt_size = of_nat (8 * GDT_ENTRIES), gdt_addr = gdt_address\<rparr>"

text \<open>\<open>gdt\<close> are the entries of \<^verbatim>\<open>s_gdt\<close> at \<open>gdt_address\<close>, \<open>tss\<close> is \<^verbatim>\<open>s_tss\<close> at \<open>tss_address\<close>.\<close>

definition setup_gdt :: "u64 \<Rightarrow> u64 \<Rightarrow> u64 list \<Rightarrow> tss_t \<Rightarrow> u64 list \<times> gdt_t \<times> tss_t" where
  "setup_gdt gdt_address tss_address gdt tss =
     (let gdt = gdt[0 := 0];
          gdt = gdt[1 := PRESENT OR LONGMODE OR MAX_LIMIT OR CODE OR CODE_R];
          gdt = gdt[2 := PRESENT OR LONGMODE OR MAX_LIMIT OR DATA OR DATA_W];
          gdt = gdt[3 := PRESENT OR LONGMODE OR MAX_LIMIT OR CODE OR CODE_R OR DPL_USER];
          gdt = gdt[4 := PRESENT OR LONGMODE OR MAX_LIMIT OR DATA OR DATA_W OR DPL_USER];
          gdt = gdt[5 := PRESENT OR OPSIZE32 OR MAX_LIMIT OR CODE OR CODE_R OR DPL_USER];
          gdt = gdt[6 := PRESENT OR OPSIZE32 OR MAX_LIMIT OR DATA OR DATA_W OR DPL_USER];
          gdtr = load_gdt gdt_address;
          td = (ucast (gdt ! TSS_INDEX) :: tssd_t) OR push_bit 64 (ucast (gdt ! Suc TSS_INDEX));
          (td, tss) = setup_tss tss_address td tss
      in (gdt[TSS_INDEX := ucast td, Suc TSS_INDEX := ucast (drop_bit 64 td)], gdtr, tss))"

section \<open>Interrupt gates\<close>

definition IDT_PRESENT :: u8 where "IDT_PRESENT = 0x80"
definition IDT_USER :: u8 where "IDT_USER = 0x60"
definition IDT_SUPV :: u8 where "IDT_SUPV = 0"
definition IDT_GATE :: u8 where "IDT_GATE = 0xe"
definition IDT_TRAP :: u8 where "IDT_TRAP = 0xf"

record irq_descriptor_t =
  target0 :: u16
  target_selector :: u16
  gate_ist :: u8
  gate_flags :: u8
  target1 :: u16
  target2 :: u32
  gate_pad1 :: u32

record idt_selector_t =
  idt_size :: u16
  idt_addr :: u64

definition setup_pic :: "(u16 \<times> u8) list" where
  "setup_pic = [(0x20, 0x11), (0xA0, 0x11), (0x21, 0x20), (0xA1, 0x28), (0x21, 0x04), (0xA1, 0x02),
     (0x21, 0x01), (0xA1, 0x01), (0x21, 0x00), (0xA1, 0x00)]"

definition install_descriptor ::
  "nat \<Rightarrow> u64 \<Rightarrow> u8 \<Rightarrow> u8 \<Rightarrow> irq_descriptor_t list \<Rightarrow> irq_descriptor_t list result" where
  "install_descriptor ix target_addr flags stack g_idt =
     (if ix < length g_idt then
        Inr (g_idt[ix := (g_idt ! ix)\<lparr>target0 := ucast (target_addr AND 0xffff), target1 := ucast (drop_bit 16 target_addr AND 0xffff),
          target2 := ucast (drop_bit 32 target_addr), target_selector := 0x08, gate_flags := flags, gate_ist := stack\<rparr>])
      else Inl (Mem_Fault ''g_idt''))"

text \<open>The descriptors of the entry points \<open>irq k\<close> of the exceptions and interrupts, in the order of their numbers.\<close>

fun install_irqs :: "(nat \<Rightarrow> u64) \<Rightarrow> nat list \<Rightarrow> irq_descriptor_t list \<Rightarrow> irq_descriptor_t list result" where
  "install_irqs irq [] g_idt = Inr g_idt"
| "install_irqs irq (k # ks) g_idt =
     rbind (install_descriptor k (irq k) (IDT_PRESENT OR IDT_SUPV OR IDT_GATE) 0 g_idt) (install_irqs irq ks)"

definition setup_idt ::
  "(nat \<Rightarrow> u64) \<Rightarrow> u64 \<Rightarrow> u64 \<Rightarrow> irq_descriptor_t list \<Rightarrow> (irq_descriptor_t list \<times> idt_selector_t) result" where
  "setup_idt irq irq_syscall idt_address g_idt =
     rbind (install_irqs irq [0..<48] g_idt) (\<lambda>g_idt.
     rbind (install_descriptor 0x80 irq_syscall (IDT_PRESENT OR IDT_USER OR IDT_GATE) 0 g_idt) (\<lambda>g_idt.
     Inr (g_idt, \<lparr>idt_size = 16 * 256 - 1, idt_addr = idt_address\<rparr>)))"

definition x86_irq_init ::
  "(nat \<Rightarrow> u64) \<Rightarrow> u64 \<Rightarrow> u64 \<Rightarrow> irq_descriptor_t list \<Rightarrow> ((u16 \<times> u8) list \<times> irq_descriptor_t list \<times> idt_selector_t) result" where
  "x86_irq_init irq irq_syscall idt_address g_idt =
     rbind (setup_idt irq irq_syscall idt_address g_idt) (\<lambda>(g_idt, sel). Inr (setup_pic, g_idt, sel))"

section \<open>What the processor reads\<close>

text \<open>
  The fields of a segment descriptor as the processor takes them from the 64 bits, and what a segment register must
  select to run at a privilege level: a present flat segment of the right kind whose level is that of the selector.
\<close>

definition seg_base :: "u64 \<Rightarrow> u64" where
  "seg_base e = take_bit 24 (drop_bit 16 e) OR push_bit 24 (drop_bit 56 e)"

definition seg_limit :: "u64 \<Rightarrow> u64" where
  "seg_limit e = take_bit 16 e OR push_bit 16 (take_bit 4 (drop_bit 48 e))"

definition seg_dpl :: "u64 \<Rightarrow> nat" where
  "seg_dpl e = unat (take_bit 2 (drop_bit 45 e))"

definition flat_segment :: "u64 list \<Rightarrow> u64 \<Rightarrow> bool \<Rightarrow> bool \<Rightarrow> bool" where
  "flat_segment gdt sel code long \<longleftrightarrow>
     (let k = unat (drop_bit 3 sel); e = gdt ! k in
      k < length gdt \<and> bit e 47 \<and> bit e 44 \<and> bit e 43 = code \<and> bit e 41 \<and> bit e 53 = long \<and> bit e 54 = (\<not> long) \<and> bit e 55 \<and>
      seg_base e = 0 \<and> seg_limit e = 0xfffff \<and> seg_dpl e = unat (take_bit 2 sel))"

definition zero_tss :: tss_t where
  "zero_tss = \<lparr>tss_reserved0 = 0, rsp0 = 0, rsp1 = 0, rsp2 = 0, tss_reserved1 = 0, ist1 = 0, ist2 = 0, ist3 = 0, ist4 = 0, ist5 = 0,
     ist6 = 0, ist7 = 0, tss_reserved2 = 0, tss_reserved3 = 0, iopb_offset = 0\<rparr>"

lemmas segment_flags = PRESENT_def CODE_def CODE_R_def DATA_def DATA_W_def LONGMODE_def DPL_USER_def OPSIZE32_def MAX_LIMIT_def BIT_def

lemma gdt_segments:
  assumes "setup_gdt ga ta (replicate 9 0) zero_tss = (gdt, gdtr, tss)"
  shows "length gdt = 9" and "take 7 gdt = [0, 0x00af9a000000ffff, 0x00af92000000ffff, 0x00affa000000ffff, 0x00aff2000000ffff,
    0x00cffa000000ffff, 0x00cff2000000ffff]"
  using assms by (auto simp: setup_gdt_def Let_def segment_flags TSS_INDEX_def eval_nat_numeral split: prod.splits)

lemma gdt_flat_segments:
  assumes "setup_gdt ga ta (replicate 9 0) zero_tss = (gdt, gdtr, tss)"
  shows "flat_segment gdt CS_KERNEL True True" "flat_segment gdt DS_KERNEL False True" "flat_segment gdt CS_USER True True"
    "flat_segment gdt DS_USER False True" "flat_segment gdt CS_USER32 True False" "flat_segment gdt DS_USER32 False False"
proof -
  note seg = gdt_segments [OF assms]
  have nth: "gdt ! k = take 7 gdt ! k" if "k < 7" for k using that by simp
  have e: "gdt ! 1 = 0x00af9a000000ffff" "gdt ! 2 = 0x00af92000000ffff" "gdt ! 3 = 0x00affa000000ffff" "gdt ! 4 = 0x00aff2000000ffff"
    "gdt ! 5 = 0x00cffa000000ffff" "gdt ! 6 = 0x00cff2000000ffff"
    using nth [of 1] nth [of 2] nth [of 3] nth [of 4] nth [of 5] nth [of 6] unfolding seg(2) by simp_all
  show "flat_segment gdt CS_KERNEL True True" "flat_segment gdt DS_KERNEL False True" "flat_segment gdt CS_USER True True"
    "flat_segment gdt DS_USER False True" "flat_segment gdt CS_USER32 True False" "flat_segment gdt DS_USER32 False False"
    using e seg(1)
    by (simp_all add: flat_segment_def CS_KERNEL_def DS_KERNEL_def CS_USER_def DS_USER_def CS_USER32_def DS_USER32_def
      seg_base_def seg_limit_def seg_dpl_def)
qed

text \<open>
  C21: The segment selectors that \<^verbatim>\<open>context_init\<close> puts into a context are well typed for the table that \<^verbatim>\<open>setup_gdt\<close> builds:
  each selects a present flat segment, code for \<^verbatim>\<open>cs\<close> and writable data for the others, 64 bit or 32 bit as the context
  demands, with the privilege level of the selector.
\<close>

theorem context_selectors_typed:
  "let (gdt, gdtr, tss) = setup_gdt ga ta (replicate 9 0) zero_tss;
       (ctx, s') = context_init raw ksp entry_addr stack_ptr flags arg0 arg1 s; c = the (contexts s' ctx);
       long = (flags AND CTX_USERMODE = 0 \<or> flags AND CTX_USER32 = 0); ring = (if flags AND CTX_USERMODE = 0 then 0 else 3)
   in flat_segment gdt (cs c) True long \<and> (\<forall>sel \<in> {ss c, fs c, gs c}. flat_segment gdt sel False long \<and> take_bit 2 sel = ring) \<and>
      take_bit 2 (cs c) = ring"
proof -
  obtain gdt gdtr tss where g: "setup_gdt ga ta (replicate 9 0) zero_tss = (gdt, gdtr, tss)" by (cases "setup_gdt ga ta (replicate 9 0) zero_tss") auto
  have ring: "take_bit 2 CS_KERNEL = 0" "take_bit 2 DS_KERNEL = 0" "take_bit 2 CS_USER = 3" "take_bit 2 DS_USER = 3" "take_bit 2 CS_USER32 = 3"
    "take_bit 2 DS_USER32 = 3" by (simp_all add: CS_KERNEL_def DS_KERNEL_def CS_USER_def DS_USER_def CS_USER32_def DS_USER32_def)
  show ?thesis using gdt_flat_segments [OF g] ring unfolding g context_init_def by (simp add: Let_def)
qed

lemma bit_put_bits: "bit (put_bits off n v td) k \<longleftrightarrow>
    (if off \<le> k \<and> k < off + n \<and> k < 128 then bit v (k - off) else bit td k)"
  by (auto simp: put_bits_def bit_simps dest: bit_imp_le_length)

lemmas tssd_fields = tssd_limit1_def tssd_base1_def tssd_type_def tssd_zero1_def tssd_dpl_def tssd_present_def tssd_limit2_def
  tssd_avl_def tssd_gran_def tssd_base2_def tssd_zero2_def

text \<open>
  The two words of the table from entry 7 on are a present descriptor of an available task state segment, whose base,
  put together from its two fields as the processor does it, is the address of the segment and whose limit is its size.
\<close>

theorem setup_gdt_tss:
  "let (gdt, gdtr, tss) = setup_gdt ga ta (replicate 9 0) zero_tss; lo = gdt ! 7; hi = gdt ! 8
   in seg_base lo OR push_bit 32 hi = ta \<and> seg_limit lo = 104 \<and> bit lo 47 \<and> \<not> bit lo 44 \<and> take_bit 4 (drop_bit 40 lo) = 9 \<and>
      unat (iopb_offset tss) = unat (seg_limit lo)"
proof -
  define td where "td = fst (setup_tss ta 0 zero_tss)"
  obtain gdt gdtr tss where g: "setup_gdt ga ta (replicate 9 0) zero_tss = (gdt, gdtr, tss)" by (cases "setup_gdt ga ta (replicate 9 0) zero_tss") auto
  have w: "gdt ! 7 = ucast td" "gdt ! 8 = ucast (drop_bit 64 td)" "iopb_offset tss = 104"
    using g by (auto simp: setup_gdt_def Let_def TSS_INDEX_def td_def setup_tss_def sizeof_tss_def)
  have t: "td = tssd_type 9 (tssd_dpl 3 (tssd_gran 0 (tssd_avl 0 (tssd_present 1 (tssd_limit2 0 (tssd_limit1 104
      (tssd_base2 (drop_bit 24 ta) (tssd_base1 (ta AND 0xffffff) (tssd_zero2 0 (tssd_zero1 0 0))))))))))"
    by (simp add: td_def setup_tss_def Let_def sizeof_tss_def)
  have m: "(0xffffff :: u64) = mask 24" by (simp add: mask_eq_exp_minus_1)
  have limit1: "bit td k = bit (104 :: u64) k" if "k < 16" for k using that by (simp add: t tssd_fields bit_put_bits)
  have base1: "bit td k = bit ta (k - 16)" if "16 \<le> k" "k < 40" for k
  proof -
    have "k - 16 < 24" using that by simp
    then show ?thesis using that unfolding t m by (simp add: tssd_fields bit_put_bits bit_simps)
  qed
  have type: "bit td k = bit (9 :: u64) (k - 40)" if "40 \<le> k" "k < 44" for k using that by (simp add: t tssd_fields bit_put_bits)
  have limit2: "\<not> bit td k" if "48 \<le> k" "k < 52" for k using that by (simp add: t tssd_fields bit_put_bits)
  have base2: "bit td k = bit ta (k - 32)" if "56 \<le> k" "k < 96" for k
    using that by (simp add: t tssd_fields bit_put_bits bit_simps)
  have flags: "bit td 47" "\<not> bit td 44" by (simp_all add: t tssd_fields bit_put_bits)
  have lo: "seg_base (ucast td) OR push_bit 32 (ucast (drop_bit 64 td)) = ta"
  proof (rule bit_word_eqI)
    fix n assume "n < LENGTH(64)"
    then consider "n < 24" | "24 \<le> n" "n < 32" | "32 \<le> n" "n < 64" by force
    then show "bit (seg_base (ucast td) OR push_bit 32 (ucast (drop_bit 64 td))) n = bit ta n"
      using base1 [of "16 + n"] base2 [of "32 + n"] by cases (auto simp: seg_base_def bit_simps)
  qed
  have "take_bit 16 (ucast td :: u64) = take_bit 16 104"
    by (rule bit_word_eqI, unfold bit_take_bit_iff bit_drop_bit_eq o_def) (use limit1 in \<open>auto simp: bit_simps\<close>)
  moreover have "take_bit 4 (drop_bit 48 (ucast td :: u64)) = 0"
    by (rule bit_word_eqI) (auto simp: bit_simps limit2)
  ultimately have lim: "seg_limit (ucast td) = 104" by (simp add: seg_limit_def)
  have "take_bit 4 (drop_bit 40 (ucast td :: u64)) = take_bit 4 9"
    by (rule bit_word_eqI, unfold bit_take_bit_iff bit_drop_bit_eq o_def) (use type in \<open>auto simp: bit_simps\<close>)
  then have ty: "take_bit 4 (drop_bit 40 (ucast td :: u64)) = 9" by simp
  have "bit (ucast td :: u64) 47" "\<not> bit (ucast td :: u64) 44" using flags by (simp_all add: bit_simps)
  then show ?thesis unfolding g Let_def prod.case w lim ty using lo by simp
qed

text \<open>The address that an interrupt gate transfers control to, and whether a program in ring 3 may use it.\<close>

definition gate_target :: "irq_descriptor_t \<Rightarrow> u64" where
  "gate_target g = ucast (target0 g) OR push_bit 16 (ucast (target1 g)) OR push_bit 32 (ucast (target2 g))"

definition gate_present :: "irq_descriptor_t \<Rightarrow> bool" where "gate_present g \<longleftrightarrow> bit (gate_flags g) 7"
definition gate_dpl :: "irq_descriptor_t \<Rightarrow> nat" where "gate_dpl g = unat (take_bit 2 (drop_bit 5 (gate_flags g)))"

definition zero_gate :: irq_descriptor_t where
  "zero_gate = \<lparr>target0 = 0, target_selector = 0, gate_ist = 0, gate_flags = 0, target1 = 0, target2 = 0, gate_pad1 = 0\<rparr>"

definition gate_for :: "u64 \<Rightarrow> u8 \<Rightarrow> irq_descriptor_t" where
  "gate_for a flags = \<lparr>target0 = ucast (a AND 0xffff), target_selector = 0x08, gate_ist = 0, gate_flags = flags,
     target1 = ucast (drop_bit 16 a AND 0xffff), target2 = ucast (drop_bit 32 a), gate_pad1 = 0\<rparr>"

lemma gate_target_for: "gate_target (gate_for a flags) = a"
proof -
  have m: "(0xffff :: u64) = mask 16" by (simp add: mask_eq_exp_minus_1)
  show ?thesis
  proof (rule bit_word_eqI)
    fix n assume "n < LENGTH(64)"
    then consider "n < 16" | "16 \<le> n" "n < 32" | "32 \<le> n" "n < 64" by force
    then show "bit (gate_target (gate_for a flags)) n = bit a n"
      unfolding gate_target_def gate_for_def m by cases (auto simp: bit_simps)
  qed
qed

lemma install_irqs_ok:
  assumes "length idt = 256" and "\<forall>k \<in> set ks. k < 256" and "\<forall>v < 256. gate_pad1 (idt ! v) = 0"
  shows "\<exists>idt'. install_irqs irq ks idt = Inr idt' \<and> length idt' = 256 \<and>
    (\<forall>v < 256. idt' ! v = (if v \<in> set ks then gate_for (irq v) 0x8e else idt ! v))"
  using assms
proof (induction ks arbitrary: idt)
  case (Cons k ks)
  let ?f = "IDT_PRESENT OR IDT_SUPV OR IDT_GATE"
  have f: "?f = 0x8e" by (simp add: IDT_PRESENT_def IDT_SUPV_def IDT_GATE_def)
  let ?idt = "idt[k := gate_for (irq k) 0x8e]"
  have inst: "install_descriptor k (irq k) 0x8e 0 idt = Inr ?idt"
    using Cons.prems by (cases "idt ! k") (auto simp: install_descriptor_def gate_for_def)
  have "\<forall>v < 256. gate_pad1 (?idt ! v) = 0" using Cons.prems by (auto simp: nth_list_update gate_for_def)
  then obtain idt' where "install_irqs irq ks ?idt = Inr idt'" "length idt' = 256"
    "\<forall>v < 256. idt' ! v = (if v \<in> set ks then gate_for (irq v) 0x8e else ?idt ! v)"
    using Cons.IH [of ?idt] Cons.prems by auto
  then show ?case using inst Cons.prems(1) unfolding install_irqs.simps f by (auto simp: nth_list_update)
qed simp

text \<open>
  C22: After \<^verbatim>\<open>setup_idt\<close> exactly the exceptions, the interrupts of the controllers and the system call have a present gate;
  every gate leads to its own entry point in the code segment of the kernel, and the system call is the only one that
  a program in user mode can reach.
\<close>

theorem setup_idt_spec:
  "\<exists>idt sel. setup_idt irq irq_syscall idt_address (replicate 256 zero_gate) = Inr (idt, sel) \<and> length idt = 256 \<and>
    unat (idt_size sel) + 1 = 16 * length idt \<and>
    (\<forall>v < 256. gate_present (idt ! v) \<longleftrightarrow> v < 48 \<or> v = 0x80) \<and>
    (\<forall>v < 256. gate_present (idt ! v) \<longrightarrow> gate_target (idt ! v) = (if v < 48 then irq v else irq_syscall) \<and> target_selector (idt ! v) = ucast CS_KERNEL) \<and>
    (\<forall>v < 256. gate_present (idt ! v) \<longrightarrow> (gate_dpl (idt ! v) = 3 \<longleftrightarrow> v = 0x80))"
proof -
  let ?z = "replicate 256 zero_gate"
  obtain idt1 where i1: "install_irqs irq [0..<48] ?z = Inr idt1" "length idt1 = 256"
    "\<forall>v < 256. idt1 ! v = (if v < 48 then gate_for (irq v) 0x8e else zero_gate)"
    using install_irqs_ok [of ?z "[0..<48]" irq] by (auto simp: zero_gate_def)
  let ?idt = "idt1[0x80 := gate_for irq_syscall 0xee]"
  have "install_descriptor 0x80 irq_syscall (IDT_PRESENT OR IDT_USER OR IDT_GATE) 0 idt1 = Inr ?idt"
    using i1(2,3) by (simp add: install_descriptor_def gate_for_def zero_gate_def IDT_PRESENT_def IDT_USER_def IDT_GATE_def)
  then have run: "setup_idt irq irq_syscall idt_address ?z = Inr (?idt, \<lparr>idt_size = 16 * 256 - 1, idt_addr = idt_address\<rparr>)"
    using i1(1) by (simp add: setup_idt_def)
  have nth: "?idt ! v = (if v = 0x80 then gate_for irq_syscall 0xee else if v < 48 then gate_for (irq v) 0x8e else zero_gate)" if "v < 256" for v
    using that i1(2,3) by (simp add: nth_list_update)
  have p: "gate_present (gate_for a 0xee)" "gate_present (gate_for a 0x8e)" "\<not> gate_present zero_gate" "gate_dpl (gate_for a 0xee) = 3"
    "gate_dpl (gate_for a 0x8e) = 0" "target_selector (gate_for a x) = ucast CS_KERNEL" for a x
    by (simp_all add: gate_present_def gate_for_def zero_gate_def gate_dpl_def CS_KERNEL_def)
  have "(gate_present (?idt ! v) \<longleftrightarrow> v < 48 \<or> v = 0x80) \<and>
      (gate_present (?idt ! v) \<longrightarrow> gate_target (?idt ! v) = (if v < 48 then irq v else irq_syscall) \<and> target_selector (?idt ! v) = ucast CS_KERNEL) \<and>
      (gate_present (?idt ! v) \<longrightarrow> (gate_dpl (?idt ! v) = 3 \<longleftrightarrow> v = 0x80))" if "v < 256" for v
    unfolding nth [OF that] using p by (simp add: gate_target_for)
  then show ?thesis using run i1(2) by (intro exI [of _ ?idt] exI conjI) auto
qed

theorem setup_idt_spec_witness:
  "\<exists>idt sel. setup_idt (\<lambda>k. of_nat k * 0x1000) 0x90000 0x7000 (replicate 256 zero_gate) = Inr (idt, sel) \<and>
    gate_target (idt ! 14) = 0xE000 \<and> gate_target (idt ! 0x80) = 0x90000 \<and> gate_dpl (idt ! 0x80) = 3 \<and> \<not> gate_present (idt ! 48)"
proof -
  obtain idt sel where i: "setup_idt (\<lambda>k. of_nat k * 0x1000) 0x90000 0x7000 (replicate 256 zero_gate) = Inr (idt, sel)"
    "\<forall>v < 256. gate_present (idt ! v) \<longleftrightarrow> v < 48 \<or> v = 0x80"
    "\<forall>v < 256. gate_present (idt ! v) \<longrightarrow> gate_target (idt ! v) = (if v < 48 then of_nat v * 0x1000 else 0x90000)"
    "\<forall>v < 256. gate_present (idt ! v) \<longrightarrow> (gate_dpl (idt ! v) = 3 \<longleftrightarrow> v = 0x80)"
    using setup_idt_spec [of "\<lambda>k. of_nat k * 0x1000" "0x90000" "0x7000"] by blast
  then show ?thesis using i(2-4) [rule_format, of 14] i(2-4) [rule_format, of "0x80"] i(2) [rule_format, of 48] by auto
qed

theorem context_selectors_typed_witness:
  "let (gdt, gdtr, tss) = setup_gdt 0x1000 0x2000 (replicate 9 0) zero_tss; (ctx, s') = context_init (\<lambda>_. undefined) 0x9000 0x400000 0x8000 CTX_USERMODE 0 0 small_sched
   in flat_segment gdt (cs (the (contexts s' ctx))) True True \<and> flat_segment gdt (ss (the (contexts s' ctx))) False True"
  using context_selectors_typed [of "0x1000" "0x2000" "\<lambda>_. undefined" "0x9000" "0x400000" "0x8000" CTX_USERMODE 0 0 small_sched]
  by (auto simp: Let_def CTX_USERMODE_def CTX_USER32_def BIT_def)
end
