(* ===== verification/Boot_Gdt.thy ===== *)
theory Boot_Gdt
  imports Descriptors
begin

text \<open>
  The segment descriptors of the boot stage: the 32 bit table of \<^verbatim>\<open>boot32/gdt.c\<close>, whose entries are structures of bytes and words, and the
  long mode table of \<^verbatim>\<open>boot32/gdt_long.c\<close>. The instructions that load the tables are left out.
\<close>

section \<open>The 32 bit table\<close>

definition VALID :: u8 where "VALID = 0x80"
definition OFF_32 :: u8 where "OFF_32 = 0x40"
definition SYS_NON :: u8 where "SYS_NON = 0x10"
definition ACC_SUP :: u8 where "ACC_SUP = 0x00"
definition ACC_USR :: u8 where "ACC_USR = 0x60"
definition GRAN_4K :: u8 where "GRAN_4K = 0x80"
definition CXR :: u8 where "CXR = 0x0A"
definition DRW :: u8 where "DRW = 0x02"

definition BOOT_GDT_ENTRIES :: nat where "BOOT_GDT_ENTRIES = 6"

record gdtd_t =
  gdtd_size :: u16
  gdtd_addr :: u32

record gdte_t =
  gdte_limit :: u16
  gdte_base_low :: u16
  gdte_base_middle :: u8
  gdte_access :: u8
  gdte_flags :: u8
  gdte_base_high :: u8

text \<open>The two fields of the task state segment that are set; \<^verbatim>\<open>sizeof(tss)\<close> is 104.\<close>

record tss32_t =
  tss32_esp0 :: u32
  tss32_ss0 :: u32

definition setup_entry :: "nat \<Rightarrow> u32 \<Rightarrow> u32 \<Rightarrow> u8 \<Rightarrow> u8 \<Rightarrow> gdte_t list \<Rightarrow> gdte_t list" where
  "setup_entry k base limit access flags gdt =
     gdt[k := (gdt ! k)\<lparr>gdte_base_low := ucast (base AND 0xffff), gdte_base_middle := ucast (drop_bit 16 base AND 0xff),
       gdte_base_high := ucast (drop_bit 24 base AND 0xff), gdte_limit := ucast (limit AND 0xffff),
       gdte_flags := ucast (drop_bit 16 limit AND 0x0f) OR (flags AND 0xf0), gdte_access := access\<rparr>]"

definition gdt_init :: "u32 \<Rightarrow> u32 \<Rightarrow> gdte_t list \<Rightarrow> tss32_t \<Rightarrow> gdte_t list \<times> gdtd_t \<times> tss32_t" where
  "gdt_init gdt_address tss_address gdt tss =
     (let gdt_descr = \<lparr>gdtd_size = of_nat (8 * BOOT_GDT_ENTRIES), gdtd_addr = gdt_address\<rparr>;
          gdt = setup_entry 0 0 0 0 0 gdt;
          gdt = setup_entry 1 0 0xFFFFF (VALID OR ACC_SUP OR SYS_NON OR CXR) (GRAN_4K OR OFF_32) gdt;
          gdt = setup_entry 2 0 0xFFFFF (VALID OR ACC_SUP OR SYS_NON OR DRW) (GRAN_4K OR OFF_32) gdt;
          gdt = setup_entry 3 0 0xFFFFF (VALID OR ACC_USR OR SYS_NON OR CXR) (GRAN_4K OR OFF_32) gdt;
          gdt = setup_entry 4 0 0xFFFFF (VALID OR ACC_USR OR SYS_NON OR DRW) (GRAN_4K OR OFF_32) gdt;
          gdt = setup_entry 5 tss_address 104 0xe9 0x00 gdt
      in (gdt, gdt_descr, tss\<lparr>tss32_ss0 := 0x10, tss32_esp0 := 0x00\<rparr>))"

section \<open>The long mode table\<close>

text \<open>The flags are those of \<^verbatim>\<open>x86_64/gdt.c\<close>; \<open>gdt\<close> are the three entries.\<close>

definition gdt_long_init :: "u32 \<Rightarrow> u64 list \<Rightarrow> u64 list \<times> gdtd_t" where
  "gdt_long_init gdt_address gdt =
     (let gdt = gdt[0 := 0];
          gdt = gdt[1 := PRESENT OR LONGMODE OR MAX_LIMIT OR CODE OR CODE_R];
          gdt = gdt[2 := PRESENT OR LONGMODE OR MAX_LIMIT OR DATA OR DATA_W]
      in (gdt, \<lparr>gdtd_size = of_nat (8 * 3), gdtd_addr = gdt_address\<rparr>))"

section \<open>What the processor reads\<close>

text \<open>The 64 bits of an entry in memory.\<close>

definition gdte_bits :: "gdte_t \<Rightarrow> u64" where
  "gdte_bits e = ucast (gdte_limit e) OR push_bit 16 (ucast (gdte_base_low e)) OR push_bit 32 (ucast (gdte_base_middle e)) OR
     push_bit 40 (ucast (gdte_access e)) OR push_bit 48 (ucast (gdte_flags e)) OR push_bit 56 (ucast (gdte_base_high e))"

definition zero_gdte :: gdte_t where
  "zero_gdte = \<lparr>gdte_limit = 0, gdte_base_low = 0, gdte_base_middle = 0, gdte_access = 0, gdte_flags = 0, gdte_base_high = 0\<rparr>"

text \<open>The entry that \<^verbatim>\<open>setup_entry\<close> stores, whatever was there.\<close>

definition entry_for :: "u32 \<Rightarrow> u32 \<Rightarrow> u8 \<Rightarrow> u8 \<Rightarrow> gdte_t" where
  "entry_for base limit access flags = \<lparr>gdte_limit = ucast (limit AND 0xffff), gdte_base_low = ucast (base AND 0xffff),
     gdte_base_middle = ucast (drop_bit 16 base AND 0xff), gdte_access = access,
     gdte_flags = ucast (drop_bit 16 limit AND 0x0f) OR (flags AND 0xf0), gdte_base_high = ucast (drop_bit 24 base AND 0xff)\<rparr>"

lemma setup_entry_for: "setup_entry k base limit access flags gdt = gdt[k := entry_for base limit access flags]"
  by (cases "gdt ! k") (simp add: setup_entry_def entry_for_def)

text \<open>The base and the limit come back as the processor puts them together from their parts.\<close>

lemma entry_for_base: "seg_base (gdte_bits (entry_for base limit access flags)) = ucast base"
proof -
  have m: "(0xffff :: u32) = mask 16" "(0xff :: u32) = mask 8" "(0x0f :: u32) = mask 4" by (simp_all add: mask_eq_exp_minus_1)
  show ?thesis
  proof (rule bit_word_eqI)
    fix n assume "n < LENGTH(64)"
    then consider "n < 16" | "16 \<le> n" "n < 24" | "24 \<le> n" "n < 32" | "32 \<le> n" "n < 64" by force
    then show "bit (seg_base (gdte_bits (entry_for base limit access flags))) n = bit (ucast base :: u64) n"
      unfolding seg_base_def gdte_bits_def entry_for_def m by cases (auto simp: bit_simps dest: bit_imp_le_length)
  qed
qed

lemma gdte_bits_limit: "seg_limit (gdte_bits e) = ucast (gdte_limit e) OR push_bit 16 (ucast (take_bit 4 (gdte_flags e)))"
proof -
  have "bit (gdte_bits e) n = bit (gdte_limit e) n" if "n < 16" for n using that by (simp add: gdte_bits_def bit_simps)
  moreover have "n < 16" if "bit (gdte_limit e) n" for n using bit_imp_le_length [OF that] by simp
  ultimately have "take_bit 16 (gdte_bits e) = ucast (gdte_limit e)" by (intro bit_word_eqI) (auto simp: bit_simps)
  moreover have "bit (gdte_bits e) (n + 48) = bit (gdte_flags e) n" if "n < 8" for n
    using that bit_imp_le_length [of "gdte_access e" "n + 8"] bit_imp_le_length [of "gdte_base_middle e" "n + 16"]
      bit_imp_le_length [of "gdte_base_low e" "n + 32"] bit_imp_le_length [of "gdte_limit e" "n + 48"]
    by (auto simp: gdte_bits_def bit_simps add.commute)
  then have "take_bit 4 (drop_bit 48 (gdte_bits e)) = ucast (take_bit 4 (gdte_flags e))"
    by (intro bit_word_eqI) (auto simp: bit_take_bit_iff bit_drop_bit_eq bit_unsigned_iff add.commute)
  ultimately show ?thesis by (simp add: seg_limit_def)
qed

lemma entry_for_limit:
  assumes "unat limit < 2 ^ 20"
  shows "seg_limit (gdte_bits (entry_for base limit access flags)) = ucast limit"
proof -
  have m: "(0xffff :: u32) = mask 16" "(0x0f :: u32) = mask 4" "(0xf0 :: u8) = push_bit 4 (mask 4)" by (simp_all add: mask_eq_exp_minus_1)
  have hi: "n < 20" if "bit limit n" for n
  proof -
    have "odd (unat limit div 2 ^ n)" using that by (simp add: bit_unsigned_iff flip: bit_iff_odd)
    then have "unat limit div 2 ^ n \<noteq> 0" by (metis even_zero)
    then have "2 ^ n \<le> unat limit" by (simp add: div_eq_0_iff)
    then have "(2 :: nat) ^ n < 2 ^ 20" using assms by simp
    then show ?thesis by (rule power_less_imp_less_exp [rotated]) simp
  qed
  have lo: "gdte_limit (entry_for base limit access flags) = ucast (take_bit 16 limit)"
    unfolding entry_for_def m by (simp add: take_bit_eq_mask)
  have fl: "take_bit 4 (gdte_flags (entry_for base limit access flags)) = ucast (take_bit 4 (drop_bit 16 limit))"
    unfolding entry_for_def m by (rule bit_word_eqI) (auto simp: bit_simps)
  show ?thesis
    unfolding gdte_bits_limit lo fl
  proof (rule bit_word_eqI)
    fix n assume "n < LENGTH(64)"
    then consider "n < 16" | "16 \<le> n" "n < 20" | "20 \<le> n" "n < 64" by force
    then show "bit (ucast (ucast (take_bit 16 limit) :: u16) OR push_bit 16 (ucast (ucast (take_bit 4 (drop_bit 16 limit)) :: u8)) :: u64) n = bit (ucast limit :: u64) n"
      by cases (auto simp: bit_simps dest: hi)
  qed
qed

text \<open>
  The selectors for kernel and programs select present flat segments of their kind in the 32 bit table, the descriptor of the task state segment
  holds its address and its size (one more than its limit), and the selectors that the boot stage enters the kernel with select flat segments
  of the long mode table.
\<close>

theorem boot_gdt_spec:
  "let (gdt, descr, tss) = gdt_init ga ta (replicate 6 zero_gdte) t; es = map gdte_bits gdt; (gdt64, descr64) = gdt_long_init ga64 [0, 0, 0]
   in flat_segment es 0x08 True False \<and> flat_segment es 0x10 False False \<and> flat_segment es 0x1b True False \<and> flat_segment es 0x23 False False \<and>
      seg_base (es ! 5) = ucast ta \<and> seg_limit (es ! 5) = 104 \<and> tss32_ss0 tss = 0x10 \<and>
      flat_segment gdt64 0x08 True True \<and> flat_segment gdt64 0x10 False True"
proof -
  have b: "seg_base (gdte_bits (entry_for ta 104 0xe9 0)) = ucast ta" "seg_limit (gdte_bits (entry_for ta 104 0xe9 0)) = 104"
    using entry_for_base entry_for_limit [of 104 ta "0xe9" 0] by simp_all
  have v: "gdte_bits (entry_for 0 0xFFFFF 0x9a 0xc0) = 0x00cf9a000000ffff" "gdte_bits (entry_for 0 0xFFFFF 0x92 0xc0) = 0x00cf92000000ffff"
    "gdte_bits (entry_for 0 0xFFFFF 0xfa 0xc0) = 0x00cffa000000ffff" "gdte_bits (entry_for 0 0xFFFFF 0xf2 0xc0) = 0x00cff2000000ffff"
    by (simp_all add: gdte_bits_def entry_for_def)
  show ?thesis
    by (simp add: gdt_init_def gdt_long_init_def setup_entry_for Let_def VALID_def ACC_SUP_def ACC_USR_def SYS_NON_def CXR_def DRW_def GRAN_4K_def OFF_32_def
        numeral_eq_Suc b v)
      (simp add: flat_segment_def seg_base_def seg_limit_def seg_dpl_def segment_flags)
qed

end
