(* ===== verification/Block_Devices.thy ===== *)
theory Block_Devices
  imports Tasks
begin

text \<open>
  Block devices: the registry of \<^verbatim>\<open>fs/blockdev.c\<close>, the file operations of \<^verbatim>\<open>fs/blkdev_ops.c\<close>, the
  partition driver \<^verbatim>\<open>fs/partscan.c\<close> and the memory disk \<^verbatim>\<open>fs/ramdisk.c\<close>.

  A driver is the memory disk, the partition driver or a driver outside these files, whose functions
  are given: a read gets the driver's data, the minor number, the number of blocks and the first
  block, and yields its return value and the bytes it has stored from the start of the buffer.
  Creating the node of a device in the file system (\<^verbatim>\<open>vfs_mknod\<close>) is an argument \<open>mknod\<close> here.
\<close>

section \<open>Structures\<close>

type_synonym blk_read = "u64 \<Rightarrow> u64 \<Rightarrow> u64 \<Rightarrow> u64 \<Rightarrow> int \<times> byte list"
type_synonym blk_write = "u64 \<Rightarrow> u64 \<Rightarrow> byte list \<Rightarrow> u64 \<Rightarrow> u64 \<Rightarrow> int"

datatype bd_ops_t = Initrd_Ops | Partscan_Ops | Driver_Ops "blk_read option" "blk_write option"

record bd_driver_t =
  drv_name :: string
  drv_prefix :: string
  bd_ops :: bd_ops_t
  drv_major :: u64

text \<open>A driver structure is one of the two static ones or another object, at an address.\<close>

datatype driver_ref = Initrd_driver | Partscan_drv | Driver u64

record bd_t =
  bd_minor :: u64
  bd_capacity :: u64
  bd_driver :: driver_ref
  bd_data :: u64
  bd_name :: string

record part_t =
  part_blkdev :: u64
  part_blk_offset :: u64
  part_blk_size :: u64
  part_type :: u8
  part_prefix :: string

record rd_t =
  rd_ramdisk :: u64
  rd_ramdisk_size :: u64
  rd_minor :: u64
  rd_lock :: mutex_t

text \<open>The memory at a \<^verbatim>\<open>ramdisk\<close> pointer is an object of its own, the module that the boot loader has loaded.\<close>

record bstate = kstate +
  bd_drivers :: "driver_ref \<rightharpoonup> bd_driver_t"
  bds :: "u64 \<rightharpoonup> bd_t"
  bd_parts :: "u64 \<rightharpoonup> part_t"
  rds :: "u64 \<rightharpoonup> rd_t"
  ram :: "u64 \<rightharpoonup> byte list"
  major_counter :: u64
  driver_list :: "driver_ref list"
  driver_list_lock :: mutex_t
  bd_list :: "u64 list"
  bd_list_lock :: mutex_t
  part_major :: u64
  initrd_major :: u64
  minor_counter :: u64
  vfs_initialized :: bool

definition driver_at :: "driver_ref \<Rightarrow> 'a bstate_scheme \<Rightarrow> bd_driver_t result" where
  "driver_at p s = (case bd_drivers s p of None \<Rightarrow> Inl (Mem_Fault ''bd_driver_t'') | Some x \<Rightarrow> Inr x)"

definition bd_at :: "u64 \<Rightarrow> 'a bstate_scheme \<Rightarrow> bd_t result" where
  "bd_at p s = (case bds s p of None \<Rightarrow> Inl (Mem_Fault ''bd_t'') | Some x \<Rightarrow> Inr x)"

definition part_at :: "u64 \<Rightarrow> 'a bstate_scheme \<Rightarrow> part_t result" where
  "part_at p s = (case bd_parts s p of None \<Rightarrow> Inl (Mem_Fault ''part_t'') | Some x \<Rightarrow> Inr x)"

definition rd_at :: "u64 \<Rightarrow> 'a bstate_scheme \<Rightarrow> rd_t result" where
  "rd_at p s = (case rds s p of None \<Rightarrow> Inl (Mem_Fault ''rd_t'') | Some x \<Rightarrow> Inr x)"

section \<open>The memory disk\<close>

text \<open>The source and the target of \<^verbatim>\<open>memcpy\<close> with an offset into the memory of the disk.\<close>

definition ram_read :: "u64 \<Rightarrow> u64 \<Rightarrow> u64 \<Rightarrow> 'a bstate_scheme \<Rightarrow> byte list result" where
  "ram_read p off n s =
     (case ram s p of None \<Rightarrow> Inl (Mem_Fault ''ramdisk'')
      | Some mem \<Rightarrow>
          if unat off + unat n \<le> length mem then Inr (take (unat n) (drop (unat off) mem))
          else Inl (Mem_Fault ''ramdisk''))"

definition ram_write :: "u64 \<Rightarrow> u64 \<Rightarrow> byte list \<Rightarrow> 'a bstate_scheme \<Rightarrow> 'a bstate_scheme result" where
  "ram_write p off bytes s =
     (case ram s p of None \<Rightarrow> Inl (Mem_Fault ''ramdisk'')
      | Some mem \<Rightarrow>
          if unat off + length bytes \<le> length mem
          then Inr (s\<lparr>ram := (ram s)(p \<mapsto> take (unat off) mem @ bytes @ drop (unat off + length bytes) mem)\<rparr>)
          else Inl (Mem_Fault ''ramdisk''))"

definition initrd_read :: "u64 \<Rightarrow> u64 \<Rightarrow> u64 \<Rightarrow> 'a bstate_scheme \<Rightarrow> (int \<times> byte list) result" where
  "initrd_read drv count lba s =
     rbind (rd_at drv s) (\<lambda>rd.
     let count = (if lba + count > rd_ramdisk_size rd then rd_ramdisk_size rd - lba else count) in
     rbind (ram_read (rd_ramdisk rd) (lba * BLOCK_SIZE) (count * BLOCK_SIZE) s) (\<lambda>bytes.
     Inr (sint (count * BLOCK_SIZE), bytes)))"

text \<open>The buffer of a write is a list of bytes; reading behind its end is a fault.\<close>

definition initrd_write ::
  "u64 \<Rightarrow> byte list \<Rightarrow> u64 \<Rightarrow> u64 \<Rightarrow> 'a bstate_scheme \<Rightarrow> (int \<times> 'a bstate_scheme) result" where
  "initrd_write drv buf count lba s =
     rbind (rd_at drv s) (\<lambda>rd.
     rbind (mutex_lock (rd_lock rd) s) (\<lambda>m.
     let s = s\<lparr>rds := (rds s)(drv \<mapsto> rd\<lparr>rd_lock := m\<rparr>)\<rparr>;
         count = (if lba + count > rd_ramdisk_size rd then rd_ramdisk_size rd - lba else count) in
     rbind (if unat (count * BLOCK_SIZE) \<le> length buf then Inr (take (unat (count * BLOCK_SIZE)) buf)
            else Inl (Mem_Fault ''buffer'')) (\<lambda>bytes.
     rbind (ram_write (rd_ramdisk rd) (lba * BLOCK_SIZE) bytes s) (\<lambda>s.
     rbind (rd_at drv s) (\<lambda>rd.
     rbind (mutex_unlock (rd_lock rd) s) (\<lambda>(m, s).
     Inr (sint (count * BLOCK_SIZE), s\<lparr>rds := (rds s)(drv \<mapsto> rd\<lparr>rd_lock := m\<rparr>)\<rparr>)))))))"

definition initrd_get_prefix :: "u64 \<Rightarrow> u64" where
  "initrd_get_prefix drv = NULL"

section \<open>Calling a driver\<close>

text \<open>
  The partition driver passes a request on to the device it is on: \<open>readblk\<close> is the call through
  that device's driver structure. A chain of partitions on partitions is followed by recursion; with
  \<open>address_fuel\<close> only a circular one runs out.
\<close>

definition ps_read ::
  "(driver_ref \<Rightarrow> u64 \<Rightarrow> u64 \<Rightarrow> u64 \<Rightarrow> u64 \<Rightarrow> 'a bstate_scheme \<Rightarrow> 'b result) \<Rightarrow>
   u64 \<Rightarrow> u64 \<Rightarrow> u64 \<Rightarrow> 'a bstate_scheme \<Rightarrow> 'b result" where
  "ps_read readblk drv_struct count lba s =
     rbind (part_at drv_struct s) (\<lambda>part.
     rbind (bd_at (part_blkdev part) s) (\<lambda>bd.
     readblk (bd_driver bd) (bd_data bd) (bd_minor bd) count (lba + part_blk_offset part) s))"

fun readblk ::
  "nat \<Rightarrow> driver_ref \<Rightarrow> u64 \<Rightarrow> u64 \<Rightarrow> u64 \<Rightarrow> u64 \<Rightarrow> 'a bstate_scheme \<Rightarrow> (int \<times> byte list) result" where
  "readblk 0 drv dat minor count lba s = Inl Diverges"
| "readblk (Suc n) drv dat minor count lba s =
     rbind (driver_at drv s) (\<lambda>d.
     case bd_ops d of
       Initrd_Ops \<Rightarrow> initrd_read dat count lba s
     | Partscan_Ops \<Rightarrow> ps_read (readblk n) dat count lba s
     | Driver_Ops None _ \<Rightarrow> Inl (Mem_Fault ''readblk'')
     | Driver_Ops (Some read) _ \<Rightarrow> Inr (read dat minor count lba))"

text \<open>The write function of the partition driver calls the read function of the device.\<close>

definition ps_write ::
  "u64 \<Rightarrow> byte list \<Rightarrow> u64 \<Rightarrow> u64 \<Rightarrow> 'a bstate_scheme \<Rightarrow> (int \<times> byte list) result" where
  "ps_write drv_struct buf count lba s =
     rbind (ps_read (readblk address_fuel) drv_struct count lba s) (\<lambda>(ret, bytes).
     Inr (ret, bytes @ drop (length bytes) buf))"

definition ps_get_prefix :: "u64 \<Rightarrow> 'a bstate_scheme \<Rightarrow> string result" where
  "ps_get_prefix drv_struct s = rbind (part_at drv_struct s) (\<lambda>part. Inr (part_prefix part))"

text \<open>The static driver structures before they are registered.\<close>

definition partscan_drv :: bd_driver_t where
  "partscan_drv = \<lparr>drv_name = ''partscan'', drv_prefix = ''p'', bd_ops = Partscan_Ops, drv_major = 0\<rparr>"

definition initrd_driver :: bd_driver_t where
  "initrd_driver = \<lparr>drv_name = ''ramdisk'', drv_prefix = ''rd'', bd_ops = Initrd_Ops, drv_major = 0\<rparr>"

section \<open>Block devices as files\<close>

definition bd_read :: "'a bstate_scheme \<Rightarrow> u64 \<Rightarrow> u64 \<Rightarrow> u64 \<Rightarrow> (int \<times> byte list) result" where
  "bd_read s drv len off =
     rbind (bd_at drv s) (\<lambda>bd.
     rbind (driver_at (bd_driver bd) s) (\<lambda>d.
     case bd_ops d of
       Driver_Ops None _ \<Rightarrow> Inr (- ENOTSUP, [])
     | _ \<Rightarrow>
         let lba = off div BLOCK_SIZE; count = len div BLOCK_SIZE in
         rbind (readblk address_fuel (bd_driver bd) (bd_data bd) (bd_minor bd) count lba s) (\<lambda>(blks, bytes).
         if blks < 0 then Inr (blks, bytes) else Inr (sint (word_of_int blks * BLOCK_SIZE), bytes))))"

text \<open>The value of a write is what it returns, the buffer afterwards and the new state.\<close>

definition bd_write ::
  "u64 \<Rightarrow> byte list \<Rightarrow> u64 \<Rightarrow> u64 \<Rightarrow> 'a bstate_scheme \<Rightarrow> (int \<times> byte list \<times> 'a bstate_scheme) result" where
  "bd_write drv buf len off s =
     rbind (bd_at drv s) (\<lambda>bd.
     rbind (driver_at (bd_driver bd) s) (\<lambda>d.
     let lba = off div BLOCK_SIZE; count = len div BLOCK_SIZE;
         ret = (\<lambda>blks :: int. if blks < 0 then blks else sint (word_of_int blks * BLOCK_SIZE)) in
     case bd_ops d of
       Initrd_Ops \<Rightarrow> rbind (initrd_write (bd_data bd) buf count lba s) (\<lambda>(blks, s). Inr (ret blks, buf, s))
     | Partscan_Ops \<Rightarrow> rbind (ps_write (bd_data bd) buf count lba s) (\<lambda>(blks, buf). Inr (ret blks, buf, s))
     | Driver_Ops _ None \<Rightarrow> Inr (- ENOTSUP, buf, s)
     | Driver_Ops _ (Some write) \<Rightarrow> Inr (ret (write (bd_data bd) (bd_minor bd) buf count lba), buf, s)))"

text \<open>
  The loop over the list of devices, up to the first with the two numbers. \<open>raw\<close> is what the memory
  of a new \<^verbatim>\<open>fd_t\<close> holds (112 bytes), and \<open>fops\<close> are the operations \<^verbatim>\<open>bd_read\<close> and \<^verbatim>\<open>bd_write\<close>.
\<close>

fun find_bd :: "u64 list \<Rightarrow> u64 \<Rightarrow> u64 \<Rightarrow> 'a bstate_scheme \<Rightarrow> u64 result" where
  "find_bd [] major minor s = Inr NULL"
| "find_bd (p # ps) major minor s =
     rbind (bd_at p s) (\<lambda>bd.
     if bd_minor bd \<noteq> minor then find_bd ps major minor s
     else
       rbind (driver_at (bd_driver bd) s) (\<lambda>d.
       if drv_major d = major then Inr p else find_bd ps major minor s))"

definition bd_list_acquire :: "'a bstate_scheme \<Rightarrow> 'a bstate_scheme result" where
  "bd_list_acquire s = rbind (mutex_lock (bd_list_lock s) s) (\<lambda>m. Inr (s\<lparr>bd_list_lock := m\<rparr>))"

definition bd_list_release :: "'a bstate_scheme \<Rightarrow> 'a bstate_scheme result" where
  "bd_list_release s = rbind (mutex_unlock (bd_list_lock s) s) (\<lambda>(m, s). Inr (s\<lparr>bd_list_lock := m\<rparr>))"

definition bd_open ::
  "(u64 \<Rightarrow> fd_t) \<Rightarrow> f_ops_t \<Rightarrow> u64 \<Rightarrow> u64 \<Rightarrow> 'a bstate_scheme \<Rightarrow> (int \<times> u64 \<times> 'a bstate_scheme) result" where
  "bd_open raw fops major minor s =
     rbind (bd_list_acquire s) (\<lambda>s.
     rbind (find_bd (bd_list s) major minor s) (\<lambda>bd.
     if bd = NULL then rbind (bd_list_release s) (\<lambda>s. Inr (- ENOENT, NULL, s))
     else
       rbind (kmalloc 112 50 0 s) (\<lambda>(fd, s).
       let s = fd_set fd ((raw fd)\<lparr>fpos := 0, fs_data := bd, f_ops := fops\<rparr>) s in
       rbind (bd_list_release s) (\<lambda>s. Inr (SUCCESS, fd, s)))))"

section \<open>The registry\<close>

definition bd_register_driver :: "driver_ref \<Rightarrow> 'a bstate_scheme \<Rightarrow> (u64 \<times> 'a bstate_scheme) result" where
  "bd_register_driver drv s =
     (let (major, counter) = atomic_add (major_counter s) 1; s = s\<lparr>major_counter := counter\<rparr> in
      rbind (driver_at drv s) (\<lambda>d.
      let s = s\<lparr>bd_drivers := (bd_drivers s)(drv \<mapsto> d\<lparr>drv_major := major\<rparr>)\<rparr> in
      rbind (mutex_lock (driver_list_lock s) s) (\<lambda>m.
      let s = s\<lparr>driver_list_lock := m, driver_list := driver_list s @ [drv]\<rparr> in
      rbind (mutex_unlock (driver_list_lock s) s) (\<lambda>(m, s).
      Inr (major, s\<lparr>driver_list_lock := m\<rparr>)))))"

definition BLKDEV_MODE :: fmode_t where
  "BLKDEV_MODE = \<lparr>o_x = False, o_w = False, o_r = False, g_x = False, g_w = True, g_r = True,
     u_x = False, u_w = True, u_r = True, sticky = False, setgid = False, setuid = False\<rparr>"

text \<open>The path is written to a buffer of 256 bytes, which a name of at most 31 characters fits.\<close>

definition try_mknod_blkdevice ::
  "(string \<Rightarrow> ftype_t \<Rightarrow> fmode_t \<Rightarrow> u64 \<Rightarrow> u64 \<Rightarrow> 'a bstate_scheme \<Rightarrow> (int \<times> 'a bstate_scheme) result) \<Rightarrow>
   u64 \<Rightarrow> 'a bstate_scheme \<Rightarrow> 'a bstate_scheme result" where
  "try_mknod_blkdevice mknod blkdev s =
     rbind (bd_at blkdev s) (\<lambda>bd.
     rbind (driver_at (bd_driver bd) s) (\<lambda>d.
     rbind (mknod (''/dev/'' @ bd_name bd) F_BLOCK BLKDEV_MODE (drv_major d) (bd_minor bd) s) (\<lambda>(status, s).
     Inr s)))"

text \<open>\<^verbatim>\<open>bd_register\<close>, with the partition scan that it triggers at its end as an argument.\<close>

definition bd_register_then ::
  "(u64 \<Rightarrow> 'a bstate_scheme \<Rightarrow> 'a bstate_scheme result) \<Rightarrow>
   (string \<Rightarrow> ftype_t \<Rightarrow> fmode_t \<Rightarrow> u64 \<Rightarrow> u64 \<Rightarrow> 'a bstate_scheme \<Rightarrow> (int \<times> 'a bstate_scheme) result) \<Rightarrow>
   u64 \<Rightarrow> 'a bstate_scheme \<Rightarrow> 'a bstate_scheme result" where
  "bd_register_then scan mknod blkdev s =
     rbind (bd_at blkdev s) (\<lambda>bd.
     rbind (kassert (bd_capacity bd \<noteq> 0) ''blkdev must have non-zero capacity'') (\<lambda>_.
     rbind (kassert (bd_driver bd \<noteq> Driver NULL) ''driver field must be initialized'') (\<lambda>_.
     rbind (bd_list_acquire s) (\<lambda>s.
     let s = s\<lparr>bd_list := bd_list s @ [blkdev]\<rparr> in
     rbind (bd_list_release s) (\<lambda>s.
     rbind (if vfs_initialized s then try_mknod_blkdevice mknod blkdev s else Inr s) (scan blkdev))))))"

fun find_name :: "u64 list \<Rightarrow> string \<Rightarrow> 'a bstate_scheme \<Rightarrow> (u64 \<times> u64) option result" where
  "find_name [] name s = Inr None"
| "find_name (p # ps) name s =
     rbind (bd_at p s) (\<lambda>bd.
     if bd_name bd = name then
       rbind (driver_at (bd_driver bd) s) (\<lambda>d. Inr (Some (drv_major d, bd_minor bd)))
     else find_name ps name s)"

definition bd_get_by_name :: "string \<Rightarrow> 'a bstate_scheme \<Rightarrow> ((u64 \<times> u64) option \<times> 'a bstate_scheme) result" where
  "bd_get_by_name name s =
     rbind (bd_list_acquire s) (\<lambda>s.
     rbind (find_name (bd_list s) name s) (\<lambda>r.
     rbind (bd_list_release s) (\<lambda>s. Inr (r, s))))"

fun mknodes ::
  "(string \<Rightarrow> ftype_t \<Rightarrow> fmode_t \<Rightarrow> u64 \<Rightarrow> u64 \<Rightarrow> 'a bstate_scheme \<Rightarrow> (int \<times> 'a bstate_scheme) result) \<Rightarrow>
   u64 list \<Rightarrow> 'a bstate_scheme \<Rightarrow> 'a bstate_scheme result" where
  "mknodes mknod [] s = Inr s"
| "mknodes mknod (p # ps) s = rbind (try_mknod_blkdevice mknod p s) (mknodes mknod ps)"

definition blockdev_mknodes ::
  "(string \<Rightarrow> ftype_t \<Rightarrow> fmode_t \<Rightarrow> u64 \<Rightarrow> u64 \<Rightarrow> 'a bstate_scheme \<Rightarrow> (int \<times> 'a bstate_scheme) result) \<Rightarrow>
   'a bstate_scheme \<Rightarrow> 'a bstate_scheme result" where
  "blockdev_mknodes mknod s =
     rbind (bd_list_acquire s) (\<lambda>s. rbind (mknodes mknod (bd_list s) s) bd_list_release)"

section \<open>Partitions\<close>

text \<open>
  The master boot record: 440 bytes of code, signature and padding, four entries of 16 bytes from
  byte 446 on and the two magic bytes.
\<close>

record mbr_part_t =
  mp_flags :: u8
  mp_chs_start :: "u8 list"
  mp_type :: u8
  mp_chs_last :: "u8 list"
  mp_lba_start :: u32
  mp_lba_size :: u32

definition mbr_part :: "byte list \<Rightarrow> nat \<Rightarrow> mbr_part_t" where
  "mbr_part mbr i =
     \<lparr>mp_flags = le_at mbr (446 + 16 * i) 1, mp_chs_start = take 3 (drop (446 + 16 * i + 1) mbr),
      mp_type = le_at mbr (446 + 16 * i + 4) 1, mp_chs_last = take 3 (drop (446 + 16 * i + 5) mbr),
      mp_lba_start = le_at mbr (446 + 16 * i + 8) 4, mp_lba_size = le_at mbr (446 + 16 * i + 12) 4\<rparr>"

definition mbr_magic :: "byte list \<Rightarrow> bool" where
  "mbr_magic mbr \<longleftrightarrow> mbr ! 510 = 0x55 \<and> mbr ! 511 = 0xAA"

definition part_digit :: "nat \<Rightarrow> string" where
  "part_digit i = [char_of (48 + i)]"

text \<open>
  One entry of the table. \<^verbatim>\<open>sizeof(part_t)\<close> and \<^verbatim>\<open>sizeof(bd_t)\<close> are 64. The name of the partition goes to
  arrays of 32 characters.
\<close>

definition scan_part ::
  "(u64 \<Rightarrow> 'a bstate_scheme \<Rightarrow> 'a bstate_scheme result) \<Rightarrow> byte list \<Rightarrow> u64 \<Rightarrow> nat \<Rightarrow>
   'a bstate_scheme \<Rightarrow> 'a bstate_scheme result" where
  "scan_part register mbr blkdev i s =
     (let part = mbr_part mbr i in
      if mp_type part = 0 then Inr s
      else
        rbind (kmalloc 64 104 0 s) (\<lambda>(genpart, s).
        rbind (bd_at blkdev s) (\<lambda>parent.
        let prefix = bd_name parent @ ''p'' @ part_digit i in
        rbind (if length prefix < 32 then Inr () else Inl (Mem_Fault ''prefix'')) (\<lambda>_.
        let s = s\<lparr>bd_parts := (bd_parts s)(genpart \<mapsto>
                  \<lparr>part_blkdev = blkdev, part_blk_offset = ucast (mp_lba_start part),
                   part_blk_size = ucast (mp_lba_size part), part_type = mp_type part, part_prefix = prefix\<rparr>)\<rparr> in
        rbind (kmalloc 64 111 0 s) (\<lambda>(bd, s).
        register bd (s\<lparr>bds := (bds s)(bd \<mapsto>
          \<lparr>bd_minor = of_nat i, bd_capacity = ucast (mp_lba_size part), bd_driver = Partscan_drv,
           bd_data = genpart, bd_name = prefix\<rparr>)\<rparr>))))))"

fun scan_parts ::
  "(u64 \<Rightarrow> 'a bstate_scheme \<Rightarrow> 'a bstate_scheme result) \<Rightarrow> byte list \<Rightarrow> u64 \<Rightarrow> nat list \<Rightarrow>
   'a bstate_scheme \<Rightarrow> 'a bstate_scheme result" where
  "scan_parts register mbr blkdev [] s = Inr s"
| "scan_parts register mbr blkdev (i # is) s =
     rbind (scan_part register mbr blkdev i s) (scan_parts register mbr blkdev is)"

text \<open>
  \<^verbatim>\<open>partscan\<close> and \<^verbatim>\<open>bd_register\<close> call each other; a partition is not scanned again. \<open>junk\<close> is what the
  local variable \<^verbatim>\<open>mbr\<close> holds before the read.
\<close>

fun partscan_rec ::
  "nat \<Rightarrow> (nat \<Rightarrow> byte) \<Rightarrow>
   (string \<Rightarrow> ftype_t \<Rightarrow> fmode_t \<Rightarrow> u64 \<Rightarrow> u64 \<Rightarrow> 'a bstate_scheme \<Rightarrow> (int \<times> 'a bstate_scheme) result) \<Rightarrow>
   u64 \<Rightarrow> 'a bstate_scheme \<Rightarrow> 'a bstate_scheme result" where
  "partscan_rec 0 junk mknod blkdev s = Inl Diverges"
| "partscan_rec (Suc n) junk mknod blkdev s =
     rbind (bd_at blkdev s) (\<lambda>bd.
     rbind (driver_at (bd_driver bd) s) (\<lambda>d.
     if drv_major d = part_major s then Inr s
     else
       rbind (readblk address_fuel (bd_driver bd) (bd_data bd) (bd_minor bd) 1 0 s) (\<lambda>(ret, bytes).
       if ret < 1 then Inr s
       else
         let mbr = buffer junk 512 bytes in
         if \<not> mbr_magic mbr then Inr s
         else scan_parts (bd_register_then (partscan_rec n junk mknod) mknod) mbr blkdev [0, 1, 2, 3] s)))"

definition partscan ::
  "(nat \<Rightarrow> byte) \<Rightarrow>
   (string \<Rightarrow> ftype_t \<Rightarrow> fmode_t \<Rightarrow> u64 \<Rightarrow> u64 \<Rightarrow> 'a bstate_scheme \<Rightarrow> (int \<times> 'a bstate_scheme) result) \<Rightarrow>
   u64 \<Rightarrow> 'a bstate_scheme \<Rightarrow> 'a bstate_scheme result" where
  "partscan junk mknod blkdev s = partscan_rec address_fuel junk mknod blkdev s"

definition bd_register ::
  "(nat \<Rightarrow> byte) \<Rightarrow>
   (string \<Rightarrow> ftype_t \<Rightarrow> fmode_t \<Rightarrow> u64 \<Rightarrow> u64 \<Rightarrow> 'a bstate_scheme \<Rightarrow> (int \<times> 'a bstate_scheme) result) \<Rightarrow>
   u64 \<Rightarrow> 'a bstate_scheme \<Rightarrow> 'a bstate_scheme result" where
  "bd_register junk mknod blkdev s = bd_register_then (partscan junk mknod) mknod blkdev s"

definition partscan_init :: "'a bstate_scheme \<Rightarrow> 'a bstate_scheme result" where
  "partscan_init s = rbind (bd_register_driver Partscan_drv s) (\<lambda>(major, s). Inr (s\<lparr>part_major := major\<rparr>))"

definition blockdev_init :: "'a bstate_scheme \<Rightarrow> 'a bstate_scheme result" where
  "blockdev_init s =
     (let s = s\<lparr>driver_list := [], bd_list := []\<rparr> in
      rbind (mutex_init (driver_list_lock s)) (\<lambda>m.
      let s = s\<lparr>driver_list_lock := m\<rparr> in
      rbind (mutex_init (bd_list_lock s)) (\<lambda>m. partscan_init (s\<lparr>bd_list_lock := m\<rparr>))))"

section \<open>Installing a memory disk\<close>

definition ramdisk_init :: "'a bstate_scheme \<Rightarrow> 'a bstate_scheme result" where
  "ramdisk_init s = rbind (bd_register_driver Initrd_driver s) (\<lambda>(major, s). Inr (s\<lparr>initrd_major := major\<rparr>))"

text \<open>\<^verbatim>\<open>sizeof(rd_t)\<close> is 96. The lock of the disk and the name of the device are not initialised.\<close>

definition ramdisk_install ::
  "(u64 \<Rightarrow> mutex_t) \<Rightarrow> (u64 \<Rightarrow> string) \<Rightarrow> (nat \<Rightarrow> byte) \<Rightarrow>
   (string \<Rightarrow> ftype_t \<Rightarrow> fmode_t \<Rightarrow> u64 \<Rightarrow> u64 \<Rightarrow> 'a bstate_scheme \<Rightarrow> (int \<times> 'a bstate_scheme) result) \<Rightarrow>
   u64 \<Rightarrow> u64 \<Rightarrow> 'a bstate_scheme \<Rightarrow> (u64 \<times> 'a bstate_scheme) result" where
  "ramdisk_install raw_lock raw_name junk mknod ramdisk ramdisk_size s =
     rbind (kassert (ramdisk \<noteq> NULL) ''invalid ramdisk ptr'') (\<lambda>_.
     rbind (kmalloc 96 75 0 s) (\<lambda>(rd, s).
     let (minor, counter) = atomic_add (minor_counter s) 1;
         blocks = drop_bit 9 ramdisk_size;
         s = s\<lparr>minor_counter := counter, rds := (rds s)(rd \<mapsto>
               \<lparr>rd_ramdisk = ramdisk, rd_ramdisk_size = blocks, rd_minor = minor, rd_lock = raw_lock rd\<rparr>)\<rparr> in
     rbind (kmalloc 64 80 0 s) (\<lambda>(bd, s).
     let s = s\<lparr>bds := (bds s)(bd \<mapsto>
               \<lparr>bd_minor = minor, bd_capacity = blocks div BLOCK_SIZE, bd_driver = Initrd_driver,
                bd_data = rd, bd_name = raw_name bd\<rparr>)\<rparr> in
     rbind (bd_register junk mknod bd s) (\<lambda>s. Inr (bd, s)))))"

section \<open>What a device shows\<close>

text \<open>
  The contents of a device as a list of bytes: for a memory disk the whole blocks of its memory, for a
  partition the contents of the device below it from the first block of the partition on. The number is
  the depth of the chain of partitions.
\<close>

inductive device_shows :: "'a bstate_scheme \<Rightarrow> nat \<Rightarrow> u64 \<Rightarrow> byte list \<Rightarrow> bool" where
  memory: "bds s p = Some bd \<Longrightarrow> bd_drivers s (bd_driver bd) = Some d \<Longrightarrow> bd_ops d = Initrd_Ops \<Longrightarrow>
    rds s (bd_data bd) = Some r \<Longrightarrow> ram s (rd_ramdisk r) = Some mem \<Longrightarrow>
    512 * unat (rd_ramdisk_size r) \<le> length mem \<Longrightarrow> 512 * unat (rd_ramdisk_size r) < 2 ^ 54 \<Longrightarrow>
    device_shows s 0 p (take (512 * unat (rd_ramdisk_size r)) mem)"
| partition: "bds s p = Some bd \<Longrightarrow> bd_drivers s (bd_driver bd) = Some d \<Longrightarrow> bd_ops d = Partscan_Ops \<Longrightarrow>
    bd_parts s (bd_data bd) = Some part \<Longrightarrow> device_shows s n (part_blkdev part) disk \<Longrightarrow>
    512 * unat (part_blk_offset part) \<le> length disk \<Longrightarrow>
    device_shows s (Suc n) p (drop (512 * unat (part_blk_offset part)) disk)"

inductive_cases device_showsE: "device_shows s n p disk"

lemma device_shows_length:
  "device_shows s n p disk \<Longrightarrow> 512 dvd length disk \<and> length disk < 2 ^ 54"
proof (induction rule: device_shows.induct)
  case (memory s p bd d r mem)
  then show ?case by (simp add: min_def)
next
  case (partition s p bd d part n disk)
  then show ?case by (auto intro: dvd_diff_nat)
qed

lemma sint_small: "unat (x :: u64) < 2 ^ 63 \<Longrightarrow> sint x = int (unat x)"
proof -
  assume a: "unat x < 2 ^ 63"
  define k where "k = unat x"
  have u: "uint x = int k" by (simp add: k_def)
  have "signed_take_bit 63 (int k) = int k" using a by (intro signed_take_bit_int_eq_self) (simp_all only: flip: k_def, simp_all)
  then show ?thesis by (simp only: sint_uint u flip: k_def) simp
qed

lemma block_bytes:
  assumes "512 * unat x < 2 ^ 63"
  shows "unat (x * BLOCK_SIZE) = 512 * unat x" and "sint (x * BLOCK_SIZE) = int (512 * unat x)"
proof -
  have "unat x * unat BLOCK_SIZE < 2 ^ LENGTH(64)" using assms by (simp add: BLOCK_SIZE_def)
  then have "unat (x * BLOCK_SIZE) = unat x * unat BLOCK_SIZE" by (rule unat_mult_lem [THEN iffD1])
  then show u: "unat (x * BLOCK_SIZE) = 512 * unat x" by (simp add: BLOCK_SIZE_def)
  show "sint (x * BLOCK_SIZE) = int (512 * unat x)"
    using sint_small [of "x * BLOCK_SIZE"] assms unfolding u by simp
qed

lemma initrd_read_ok:
  assumes "rds s drv = Some r" and "ram s (rd_ramdisk r) = Some mem" and "512 * unat (rd_ramdisk_size r) \<le> length mem"
    and "512 * unat (rd_ramdisk_size r) < 2 ^ 54" and "unat lba \<le> unat (rd_ramdisk_size r)" and "unat lba + unat count < 2 ^ 64"
  shows "initrd_read drv count lba s =
    (let bytes = take (512 * unat count) (drop (512 * unat lba) (take (512 * unat (rd_ramdisk_size r)) mem))
     in Inr (int (length bytes), bytes))"
proof -
  let ?z = "rd_ramdisk_size r"
  define n where "n = (if lba + count > ?z then ?z - lba else count)"
  have sum: "unat (lba + count) = unat lba + unat count" using assms(6) by (intro unat_add_no_wrap) simp
  have n: "unat n = min (unat count) (unat ?z - unat lba)"
    using sum assms(5) by (auto simp: n_def word_less_nat_alt unat_sub word_le_nat_alt)
  have small: "512 * unat n < 2 ^ 63" "512 * unat lba < 2 ^ 63" using n assms(4,5) by simp_all
  have eq: "take (512 * unat n) (drop (512 * unat lba) mem) =
      take (512 * unat count) (drop (512 * unat lba) (take (512 * unat ?z) mem))" (is "?b = ?b'")
    unfolding n drop_take by (simp add: min_def diff_mult_distrib2)
  have le: "512 * unat lba + 512 * unat n \<le> length mem" using assms(3,5) n by linarith
  then have "length ?b = 512 * unat n" by simp
  then have "sint (n * BLOCK_SIZE) = int (length ?b')"
    using block_bytes(2) [OF small(1)] unfolding eq by (simp only:)
  then show ?thesis
    using assms(1,2) le block_bytes(1) [OF small(1)] block_bytes(1) [OF small(2)]
    by (simp add: initrd_read_def rd_at_def ram_read_def Let_def eq del: length_take length_drop flip: n_def)
qed

lemma readblk_shows:
  assumes "device_shows s n p disk" and "n < f" and "bds s p = Some bd" and "512 * unat lba \<le> length disk"
    and "unat count < 2 ^ 54"
  shows "readblk f (bd_driver bd) (bd_data bd) minor count lba s =
    (let bytes = take (512 * unat count) (drop (512 * unat lba) disk) in Inr (int (length bytes), bytes))"
  using assms
proof (induction arbitrary: f bd minor lba rule: device_shows.induct)
  case (memory s p bd' d r mem)
  from memory.prems(1) obtain g where f: "f = Suc g" by (cases f) auto
  have "unat lba \<le> unat (rd_ramdisk_size r)" using memory.prems(3) by (simp add: min_def split: if_splits)
  moreover have "unat lba + unat count < 2 ^ 64" using calculation memory.hyps(7) memory.prems(4) by simp
  ultimately show ?case using memory initrd_read_ok [of s "bd_data bd" r mem lba count]
    by (simp add: f driver_at_def)
next
  case (partition s p bd' d part n disk)
  from partition.prems(1) obtain g where f: "f = Suc g" by (cases f) auto
  obtain pb where pb: "bds s (part_blkdev part) = Some pb"
    using partition.hyps(5) by (auto elim: device_showsE)
  let ?o = "part_blk_offset part"
  have len: "length disk < 2 ^ 54" using device_shows_length [OF partition.hyps(5)] by simp
  have le: "512 * unat lba + 512 * unat ?o \<le> length disk" using partition.prems(3) partition.hyps(6) by simp
  then have sum: "unat (lba + ?o) = unat lba + unat ?o" using len by (intro unat_add_no_wrap) simp
  have "readblk g (bd_driver pb) (bd_data pb) (bd_minor pb) count (lba + ?o) s =
    (let bytes = take (512 * unat count) (drop (512 * unat (lba + ?o)) disk) in Inr (int (length bytes), bytes))"
    using partition.prems partition.hyps(6) pb le sum by (intro partition.IH) (simp_all add: f)
  then show ?case using partition pb sum by (simp add: f driver_at_def ps_read_def part_at_def bd_at_def add.commute)
qed

text \<open>The buffer gets the blocks; the return value is 512 times their number of bytes.\<close>

lemma bd_read_shows:
  assumes "device_shows s n p disk" and "n < address_fuel" and "512 dvd unat off" and "512 dvd unat len"
    and "unat off \<le> length disk" and "unat len < 2 ^ 54"
  shows "bd_read s p len off =
    (let bytes = take (unat len) (drop (unat off) disk) in Inr (512 * int (length bytes), bytes))"
proof -
  obtain bd d where bd: "bds s p = Some bd" "bd_drivers s (bd_driver bd) = Some d" "bd_ops d \<in> {Initrd_Ops, Partscan_Ops}"
    using assms(1) by (cases rule: device_shows.cases) auto
  have u: "unat (off div BLOCK_SIZE) = unat off div 512" "unat (len div BLOCK_SIZE) = unat len div 512"
    by (simp_all add: BLOCK_SIZE_def unat_div_word)
  have e: "512 * (unat off div 512) = unat off" "512 * (unat len div 512) = unat len" using assms(3,4) by (simp_all only: dvd_mult_div_cancel)
  define bytes where "bytes = take (unat len) (drop (unat off) disk)"
  have "unat len div 512 < 2 ^ 54" using assms(6) by simp
  then have r: "readblk address_fuel (bd_driver bd) (bd_data bd) (bd_minor bd) (len div BLOCK_SIZE) (off div BLOCK_SIZE) s =
      Inr (int (length bytes), bytes)"
    using readblk_shows [OF assms(1,2) bd(1), of "off div BLOCK_SIZE" "len div BLOCK_SIZE" "bd_minor bd"] assms(5)
    unfolding u e bytes_def by (simp add: Let_def)
  have "length bytes < 2 ^ 54" using assms(6) by (simp add: bytes_def min_def)
  then have "unat (word_of_int (int (length bytes)) :: u64) = length bytes"
    by (simp add: unat_of_nat take_bit_nat_eq_self)
  then have "sint (word_of_int (int (length bytes)) * BLOCK_SIZE) = 512 * int (length bytes)"
    using block_bytes(2) [of "word_of_int (int (length bytes))"] \<open>length bytes < 2 ^ 54\<close> by simp
  then show ?thesis
    using bd r by (auto simp: bd_read_def bd_at_def driver_at_def Let_def simp flip: bytes_def)
qed

section \<open>Registering devices\<close>

lemmas heap_unfold = vspace_inv_def vspace_mapping_def vspace_root_def pg_inv_def pg_used_def free_frames_def pg_total_def
  fun_eq_iff heap_inv_def heap_rel_def heap_pages_mapped_def heap_live_def heap_budget_def

lemma heap_bstate_update [simp]:
  "heap_inv (s\<lparr>bds := a\<rparr>) = heap_inv s" "heap_live (s\<lparr>bds := a\<rparr>) = heap_live s" "heap_budget (s\<lparr>bds := a\<rparr>) = heap_budget s"
  "heap_inv (s\<lparr>bd_parts := b\<rparr>) = heap_inv s" "heap_live (s\<lparr>bd_parts := b\<rparr>) = heap_live s" "heap_budget (s\<lparr>bd_parts := b\<rparr>) = heap_budget s"
  "heap_inv (s\<lparr>bd_list := c\<rparr>) = heap_inv s" "heap_live (s\<lparr>bd_list := c\<rparr>) = heap_live s" "heap_budget (s\<lparr>bd_list := c\<rparr>) = heap_budget s"
  "heap_inv (s\<lparr>rds := d, minor_counter := e\<rparr>) = heap_inv s" "heap_live (s\<lparr>rds := d, minor_counter := e\<rparr>) = heap_live s"
  "heap_budget (s\<lparr>rds := d, minor_counter := e\<rparr>) = heap_budget s"
  by (simp_all add: heap_unfold)

lemma hstate_more_blocks:
  assumes "hstate.more s' = hstate.more s"
  shows "bd_drivers s' = bd_drivers s" "bds s' = bds s" "bd_parts s' = bd_parts s" "rds s' = rds s" "ram s' = ram s"
    "bd_list s' = bd_list s" "bd_list_lock s' = bd_list_lock s" "part_major s' = part_major s"
    "vfs_initialized s' = vfs_initialized s"
  using assms by (cases s; cases s'; simp add: bstate.defs)+

text \<open>
  The registry before the file system is up: its lock is free, the partition driver has its major
  number, and the device structures are static or live allocations.
\<close>

definition bd_placed :: "'a hstate_scheme \<Rightarrow> u64 \<Rightarrow> bool" where
  "bd_placed s p \<longleftrightarrow> unat p < heap_base \<or> (\<exists>l. (unat p, l) \<in> heap_live s)"

lemma placed_fresh:
  assumes "heap_inv s'" and "heap_live s' = insert (unat p, l) (heap_live s)" and "\<forall>l. (unat p, l) \<notin> heap_live s"
  shows "\<not> bd_placed s p" and "bd_placed s' p" and "bd_placed s q \<Longrightarrow> bd_placed s' q"
  using assms(2,3) heap_live_bounds(1) [OF assms(1), of "unat p" l] by (auto simp: bd_placed_def)


definition bd_inv :: "'a bstate_scheme \<Rightarrow> bool" where
  "bd_inv s \<longleftrightarrow> heap_inv s \<and> mutex_idle (bd_list_lock s) \<and> \<not> vfs_initialized s \<and>
     (\<exists>d. bd_drivers s Partscan_drv = Some d \<and> bd_ops d = Partscan_Ops \<and> drv_major d = part_major s) \<and>
     (\<forall>p \<in> dom (bds s) \<union> dom (bd_parts s). bd_placed s p)"

lemma blockdev_init_inv:
  assumes "heap_inv s" and "bd_drivers s Partscan_drv = Some partscan_drv" and "bds s = Map.empty" and "bd_parts s = Map.empty"
    and "\<not> vfs_initialized s" and "mtx_magic (driver_list_lock s) \<noteq> MUTEX_MAGIC" and "mtx_magic (bd_list_lock s) \<noteq> MUTEX_MAGIC"
    and "spin_magic (waiting_tasks_lock (driver_list_lock s)) \<noteq> MUTEX_MAGIC"
    and "spin_magic (waiting_tasks_lock (bd_list_lock s)) \<noteq> MUTEX_MAGIC"
  shows "\<exists>s'. blockdev_init s = Inr s' \<and> bd_inv s' \<and> bd_list s' = [] \<and> driver_list s' = [Partscan_drv]"
  using assms
  by (simp add: blockdev_init_def partscan_init_def bd_register_driver_def atomic_add_def driver_at_def mutex_init_idle
      Let_def bd_inv_def partscan_drv_def) (simp add: heap_unfold)

text \<open>Devices are only added.\<close>

definition bd_extends :: "'a bstate_scheme \<Rightarrow> 'a bstate_scheme \<Rightarrow> bool" where
  "bd_extends s s' \<longleftrightarrow> bds s \<subseteq>\<^sub>m bds s' \<and> bd_parts s \<subseteq>\<^sub>m bd_parts s' \<and> bd_drivers s' = bd_drivers s \<and>
     rds s' = rds s \<and> ram s' = ram s \<and> part_major s' = part_major s"

lemma bd_extends_refl: "bd_extends s s"
  by (simp add: bd_extends_def)

lemma bd_extends_trans: "bd_extends s s' \<Longrightarrow> bd_extends s' s'' \<Longrightarrow> bd_extends s s''"
  by (auto simp: bd_extends_def intro: map_le_trans)

lemma map_le_Some: "m \<subseteq>\<^sub>m m' \<Longrightarrow> m x = Some y \<Longrightarrow> m' x = Some y"
  by (metis domI map_le_def)

lemma device_shows_extends: "device_shows s n p disk \<Longrightarrow> bd_extends s s' \<Longrightarrow> device_shows s' n p disk"
proof (induction rule: device_shows.induct)
  case (memory s p bd d r mem)
  then show ?case by (intro device_shows.memory [of s' p bd d r mem]) (auto simp: bd_extends_def map_le_Some)
next
  case (partition s p bd d part n disk)
  then show ?case
    by (intro device_shows.partition [of s' p bd d part n disk]) (auto simp: bd_extends_def map_le_Some)
qed

text \<open>The device that stands for an entry of the partition table.\<close>

definition partition_of :: "'a bstate_scheme \<Rightarrow> byte list \<Rightarrow> u64 \<Rightarrow> u64 \<Rightarrow> nat \<Rightarrow> bool" where
  "partition_of s mbr blkdev p i \<longleftrightarrow>
     (\<exists>bd part name. bds s p = Some bd \<and> bd_parts s (bd_data bd) = Some part \<and> bd_driver bd = Partscan_drv \<and>
        bd_minor bd = of_nat i \<and> bd_capacity bd = ucast (mp_lba_size (mbr_part mbr i)) \<and>
        map_option bd_name (bds s blkdev) = Some name \<and> bd_name bd = name @ ''p'' @ part_digit i \<and>
        part_blkdev part = blkdev \<and> part_blk_offset part = ucast (mp_lba_start (mbr_part mbr i)))"

lemma partition_of_extends: "partition_of s mbr blkdev p i \<Longrightarrow> bd_extends s s' \<Longrightarrow> partition_of s' mbr blkdev p i"
  unfolding partition_of_def bd_extends_def map_option_eq_Some by (blast intro: map_le_Some)

lemma register_partition:
  assumes "bd_inv s" and "bds s p = Some bd" and "bd_capacity bd \<noteq> 0" and "bd_driver bd = Partscan_drv"
  shows "bd_register_then (partscan_rec (Suc n) junk mknod) mknod p s = Inr (s\<lparr>bd_list := bd_list s @ [p]\<rparr>)"
  using assms
  by (auto simp: bd_inv_def bd_register_then_def bd_at_def driver_at_def bd_list_acquire_def bd_list_release_def Let_def)

lemma unat_ucast_u32: "unat (ucast (x :: u32) :: u64) = unat x"
proof -
  have "unat x < 2 ^ 32" using unsigned_less [of x] by simp
  then have "take_bit 64 (unat x) = unat x" by (intro take_bit_nat_eq_self) simp
  then show ?thesis by (simp add: unsigned_ucast_eq)
qed

lemma scan_part_empty: "mp_type (mbr_part mbr i) = 0 \<Longrightarrow> scan_part register mbr blkdev i s = Inr s"
  by (simp add: scan_part_def)

lemma scan_part_ok:
  assumes inv: "bd_inv s" and budget: "heap_budget s (Suc (Suc k))" and blk: "bds s blkdev = Some parent"
    and name: "length (bd_name parent) < 30" and part: "mp_type (mbr_part mbr i) \<noteq> 0" "mp_lba_size (mbr_part mbr i) \<noteq> 0"
  obtains p s' where "scan_part (bd_register_then (partscan_rec (Suc n) junk mknod) mknod) mbr blkdev i s = Inr s'"
    and "bd_inv s'" and "heap_budget s' k" and "bd_list s' = bd_list s @ [p]" and "p \<notin> dom (bds s)"
    and "partition_of s' mbr blkdev p i" and "bd_extends s s'"
proof -
  let ?e = "mbr_part mbr i" and ?name = "bd_name parent @ ''p'' @ part_digit i"
  have heap: "heap_inv s" and live: "\<forall>p \<in> dom (bds s) \<union> dom (bd_parts s). bd_placed s p"
    using inv by (simp_all add: bd_inv_def)
  show ?thesis
  proof (rule kmalloc_small [OF heap budget, of 64 104 0], simp, goal_cases)
    case (1 g s1 l1)
    note A = this
    note more1 = hstate_more_blocks [OF A(8)]
    let ?part = "\<lparr>part_blkdev = blkdev, part_blk_offset = ucast (mp_lba_start ?e),
                   part_blk_size = ucast (mp_lba_size ?e), part_type = mp_type ?e, part_prefix = ?name\<rparr>"
    define s2 where "s2 = s1\<lparr>bd_parts := (bd_parts s)(g \<mapsto> ?part)\<rparr>"
    have h2: "heap_inv s2" "heap_budget s2 (Suc k)" using A(2,9) by (simp_all add: s2_def)
    show ?case
    proof (rule kmalloc_small [OF h2, of 64 111 0], simp, goal_cases)
      case (1 p s3 l2)
      note B = this
      note more2 = hstate_more_blocks [OF B(8)]
      let ?bd = "\<lparr>bd_minor = of_nat i, bd_capacity = ucast (mp_lba_size ?e), bd_driver = Partscan_drv,
           bd_data = g, bd_name = ?name\<rparr>"
      define s4 where "s4 = s3\<lparr>bds := (bds s)(p \<mapsto> ?bd)\<rparr>"
      define s' where "s' = s4\<lparr>bd_list := bd_list s @ [p]\<rparr>"
      note fresh1 = placed_fresh [OF A(2,6,5)] and fresh2 = placed_fresh [OF B(2,6,5)]
      have pl: "bd_placed s2 q = bd_placed s1 q" "bd_placed s4 q = bd_placed s3 q" for q
        by (simp_all add: bd_placed_def s2_def s4_def)
      have fresh: "g \<notin> dom (bd_parts s)" "p \<notin> dom (bds s)" "p \<noteq> blkdev"
        using live blk fresh1 fresh2 pl by blast+
      have inv4: "bd_inv s4"
      proof -
        have "bd_placed s4 q" if "q \<in> dom (bds s4) \<union> dom (bd_parts s4)" for q
        proof -
          have "q = p \<or> q = g \<or> q \<in> dom (bds s) \<union> dom (bd_parts s)"
            using that more2 by (auto simp: s4_def s2_def split: if_splits)
          then show ?thesis using live fresh1 fresh2 pl by blast
        qed
        moreover have "heap_inv s4" using B(2) by (simp add: s4_def)
        moreover have "bd_drivers s4 = bd_drivers s" "part_major s4 = part_major s"
          "bd_list_lock s4 = bd_list_lock s" "vfs_initialized s4 = vfs_initialized s"
          using more1 more2 by (simp_all add: s4_def s2_def)
        ultimately show ?thesis using inv unfolding bd_inv_def by simp
      qed
      have cap: "ucast (mp_lba_size ?e) \<noteq> (0 :: u64)"
        using part(2) unat_ucast_u32 [of "mp_lba_size ?e"] by (metis unat_0 unat_eq_zero)
      have run: "scan_part (bd_register_then (partscan_rec (Suc n) junk mknod) mknod) mbr blkdev i s = Inr s'"
        using A(1) B(1) part(1) blk name more1 more2 register_partition [OF inv4, of p ?bd n junk mknod] cap
        by (simp add: scan_part_def Let_def bd_at_def s2_def s4_def s'_def part_digit_def)
      have inv': "bd_inv s'" using inv4 by (simp add: bd_inv_def bd_placed_def s'_def)
      have bud: "heap_budget s' k" using B(9) by (simp add: s'_def s4_def)
      have pof: "partition_of s' mbr blkdev p i"
        unfolding partition_of_def using blk fresh more2
        by (intro exI [of _ ?bd] exI [of _ ?part] exI [of _ "bd_name parent"]) (simp add: s'_def s4_def s2_def)
      have ext: "bd_extends s s'"
        using fresh more1 more2 by (auto simp: bd_extends_def s'_def s4_def s2_def map_le_def)
      show ?case by (rule that [OF run inv' bud _ fresh(2) pof ext]) (simp add: s'_def)
    qed
  qed
qed

definition used_parts :: "byte list \<Rightarrow> nat list" where
  "used_parts mbr = filter (\<lambda>i. mp_type (mbr_part mbr i) \<noteq> 0) [0, 1, 2, 3]"

lemma scan_parts_ok:
  assumes "bd_inv s" and "heap_budget s (2 * length (filter (\<lambda>i. mp_type (mbr_part mbr i) \<noteq> 0) is) + k)" and "bds s blkdev = Some parent"
    and "length (bd_name parent) < 30"
    and "\<forall>i \<in> set is. mp_type (mbr_part mbr i) \<noteq> 0 \<longrightarrow> mp_lba_size (mbr_part mbr i) \<noteq> 0"
  obtains ps s' where "scan_parts (bd_register_then (partscan_rec (Suc n) junk mknod) mknod) mbr blkdev is s = Inr s'"
    and "bd_inv s'" and "bd_list s' = bd_list s @ ps" and "bd_extends s s'"
    and "list_all2 (partition_of s' mbr blkdev) ps (filter (\<lambda>i. mp_type (mbr_part mbr i) \<noteq> 0) is)"
  using assms
proof (induction "is" arbitrary: s thesis)
  case Nil
  then show ?case by (simp add: bd_extends_refl)
next
  case (Cons i "is")
  have size: "\<forall>i \<in> set is. mp_type (mbr_part mbr i) \<noteq> 0 \<longrightarrow> mp_lba_size (mbr_part mbr i) \<noteq> 0" using Cons.prems(6) by simp
  show ?case
  proof (cases "mp_type (mbr_part mbr i) = 0")
    case True
    have "heap_budget s (2 * length (filter (\<lambda>i. mp_type (mbr_part mbr i) \<noteq> 0) is) + k)" using Cons.prems(3) True by simp
    from Cons.IH [OF _ Cons.prems(2) this Cons.prems(4,5) size] obtain ps s' where
      "scan_parts (bd_register_then (partscan_rec (Suc n) junk mknod) mknod) mbr blkdev is s = Inr s'"
      "bd_inv s'" "bd_list s' = bd_list s @ ps" "bd_extends s s'"
      "list_all2 (partition_of s' mbr blkdev) ps (filter (\<lambda>i. mp_type (mbr_part mbr i) \<noteq> 0) is)" by blast
    then show ?thesis using True by (intro Cons.prems(1) [of s' ps]) (simp_all add: scan_part_empty del: partscan_rec.simps)
  next
    case False
    let ?k = "2 * length (filter (\<lambda>i. mp_type (mbr_part mbr i) \<noteq> 0) is) + k"
    have "heap_budget s (Suc (Suc ?k))" using Cons.prems(3) False by simp
    moreover have "mp_lba_size (mbr_part mbr i) \<noteq> 0" using Cons.prems(6) False by simp
    ultimately obtain p s1 where p: "scan_part (bd_register_then (partscan_rec (Suc n) junk mknod) mknod) mbr blkdev i s = Inr s1"
      "bd_inv s1" "heap_budget s1 ?k" "bd_list s1 = bd_list s @ [p]"
      "partition_of s1 mbr blkdev p i" "bd_extends s s1"
      using scan_part_ok [OF Cons.prems(2) _ Cons.prems(4,5) False, of ?k n junk mknod] by blast
    have blk: "bds s1 blkdev = Some parent" using p(6) Cons.prems(4) by (auto simp: bd_extends_def map_le_Some)
    from Cons.IH [OF _ p(2,3) blk Cons.prems(5) size] obtain ps s' where ps:
      "scan_parts (bd_register_then (partscan_rec (Suc n) junk mknod) mknod) mbr blkdev is s1 = Inr s'"
      "bd_inv s'" "bd_list s' = bd_list s1 @ ps" "bd_extends s1 s'"
      "list_all2 (partition_of s' mbr blkdev) ps (filter (\<lambda>i. mp_type (mbr_part mbr i) \<noteq> 0) is)" by blast
    show ?thesis
      using p ps False partition_of_extends [OF p(5) ps(4)] bd_extends_trans [OF p(6) ps(4)]
      by (intro Cons.prems(1) [of s' "p # ps"]) (simp_all del: partscan_rec.simps)
  qed
qed

lemma partition_shows:
  assumes "partition_of s mbr blkdev p i" and "device_shows s n blkdev disk" and "bd_inv s"
    and "512 * unat (mp_lba_start (mbr_part mbr i)) \<le> length disk"
  shows "device_shows s (Suc n) p (drop (512 * unat (mp_lba_start (mbr_part mbr i))) disk)"
proof -
  obtain bd part where bd: "bds s p = Some bd" "bd_parts s (bd_data bd) = Some part" "bd_driver bd = Partscan_drv"
    "part_blkdev part = blkdev" and off: "part_blk_offset part = ucast (mp_lba_start (mbr_part mbr i))"
    using assms(1) by (auto simp: partition_of_def)
  have u: "unat (part_blk_offset part) = unat (mp_lba_start (mbr_part mbr i))" unfolding off by (rule unat_ucast_u32)
  obtain d where "bd_drivers s Partscan_drv = Some d" "bd_ops d = Partscan_Ops" using assms(3) by (auto simp: bd_inv_def)
  then show ?thesis
    using bd assms(2,4) device_shows.partition [of s p bd d part n disk] unfolding u by simp
qed

lemma fuel_Suc: "address_fuel = Suc (Suc 18446744073709551615)"
  by simp

lemma partscan_unfold:
  "partscan junk mknod blkdev s =
     rbind (bd_at blkdev s) (\<lambda>bd.
     rbind (driver_at (bd_driver bd) s) (\<lambda>d.
     if drv_major d = part_major s then Inr s
     else
       rbind (readblk address_fuel (bd_driver bd) (bd_data bd) (bd_minor bd) 1 0 s) (\<lambda>(ret, bytes).
       if ret < 1 then Inr s
       else
         let mbr = buffer junk 512 bytes in
         if \<not> mbr_magic mbr then Inr s
         else scan_parts (bd_register_then (partscan_rec (Suc 18446744073709551615) junk mknod) mknod)
           mbr blkdev [0, 1, 2, 3] s)))"
  unfolding partscan_def by (subst fuel_Suc) (rule partscan_rec.simps(2))

lemma partscan_ok:
  assumes inv: "bd_inv s" and budget: "heap_budget s (2 * length (used_parts disk))" and bd: "bds s p = Some bd" "length (bd_name bd) < 30"
    and drv: "bd_drivers s (bd_driver bd) = Some d" "drv_major d \<noteq> part_major s"
    and disk: "device_shows s n p disk" "n < address_fuel" "512 \<le> length disk"
    and parts: "\<forall>i \<in> set (used_parts disk). mp_lba_size (mbr_part disk i) \<noteq> 0"
  obtains ps s' where "partscan junk mknod p s = Inr s'" and "bd_inv s'" and "bd_extends s s'"
    and "bd_list s' = bd_list s @ ps"
    and "if mbr_magic disk then list_all2 (partition_of s' disk p) ps (used_parts disk) else ps = []"
proof -
  let ?mbr = "take 512 disk"
  have read: "readblk address_fuel (bd_driver bd) (bd_data bd) (bd_minor bd) 1 0 s = Inr (512, ?mbr)"
    using readblk_shows [OF disk(1,2) bd(1), of 0 1] disk(3) by simp
  have buf: "buffer junk 512 ?mbr = ?mbr" using disk(3) by (simp add: buffer_def)
  have part: "mbr_part ?mbr i = mbr_part disk i" if "i < 4" for i
    using that by (simp add: mbr_part_def le_at_def drop_take min_def take_take)
  have magic: "mbr_magic ?mbr = mbr_magic disk" by (simp add: mbr_magic_def)
  show ?thesis
  proof (cases "mbr_magic disk")
    case False
    then show ?thesis
      using bd drv read buf magic inv bd_extends_refl [of s]
      by (intro that [of s "[]"]) (simp_all add: partscan_unfold bd_at_def driver_at_def Let_def)
  next
    case True
    have used: "filter (\<lambda>i. mp_type (mbr_part ?mbr i) \<noteq> 0) [0, 1, 2, 3] = used_parts disk"
      unfolding used_parts_def by (rule filter_cong) (auto simp: part)
    have size: "\<forall>i \<in> set [0, 1, 2, 3]. mp_type (mbr_part ?mbr i) \<noteq> 0 \<longrightarrow> mp_lba_size (mbr_part ?mbr i) \<noteq> 0"
      using parts by (simp add: part used_parts_def)
    have "heap_budget s (2 * length (filter (\<lambda>i. mp_type (mbr_part ?mbr i) \<noteq> 0) [0, 1, 2, 3]) + 0)"
      using budget unfolding used by simp
    with size obtain ps s' where ps: "scan_parts (bd_register_then (partscan_rec (Suc 18446744073709551615) junk mknod) mknod) ?mbr p [0, 1, 2, 3] s = Inr s'"
      "bd_inv s'" "bd_list s' = bd_list s @ ps" "bd_extends s s'" "list_all2 (partition_of s' ?mbr p) ps (used_parts disk)"
      using scan_parts_ok [OF inv _ bd] used by metis
    have lt: "i < 4" if "i \<in> set (used_parts disk)" for i using that by (auto simp: used_parts_def split: if_splits)
    have "list_all2 (partition_of s' disk p) ps (used_parts disk)"
      using ps(5) by (rule list.rel_mono_strong) (simp add: partition_of_def part [OF lt])
    moreover have "partscan junk mknod p s = Inr s'"
      using bd drv read buf magic True ps(1) by (simp add: partscan_unfold bd_at_def driver_at_def Let_def del: partscan_rec.simps)
    ultimately show ?thesis using ps True by (intro that [of s' ps]) simp_all
  qed
qed

lemma bd_register_ok:
  assumes inv: "bd_inv s" and budget: "heap_budget s (2 * length (used_parts disk))" and bd: "bds s p = Some bd" "length (bd_name bd) < 30"
    and cap: "bd_capacity bd \<noteq> 0" "bd_driver bd \<noteq> Driver NULL"
    and drv: "bd_drivers s (bd_driver bd) = Some d" "drv_major d \<noteq> part_major s"
    and disk: "device_shows s n p disk" "n < address_fuel" "512 \<le> length disk"
    and parts: "\<forall>i \<in> set (used_parts disk). mp_lba_size (mbr_part disk i) \<noteq> 0"
  obtains ps s' where "bd_register junk mknod p s = Inr s'" and "bd_inv s'" and "bd_extends s s'"
    and "bd_list s' = bd_list s @ p # ps"
    and "if mbr_magic disk then list_all2 (partition_of s' disk p) ps (used_parts disk) else ps = []"
proof -
  let ?s = "s\<lparr>bd_list := bd_list s @ [p]\<rparr>"
  have reg: "bd_register junk mknod p s = partscan junk mknod p ?s"
    using inv bd cap
    by (simp add: bd_register_def bd_register_then_def bd_inv_def bd_at_def bd_list_acquire_def bd_list_release_def Let_def)
  have inv1: "bd_inv ?s" using inv by (simp add: bd_inv_def bd_placed_def)
  have ext: "bd_extends s ?s" by (simp add: bd_extends_def)
  have h: "heap_budget ?s (2 * length (used_parts disk))" "bds ?s p = Some bd" "bd_drivers ?s (bd_driver bd) = Some d" "drv_major d \<noteq> part_major ?s"
    using budget bd drv by simp_all
  obtain ps s' where "partscan junk mknod p ?s = Inr s'" "bd_inv s'" "bd_extends ?s s'" "bd_list s' = bd_list ?s @ ps"
    "if mbr_magic disk then list_all2 (partition_of s' disk p) ps (used_parts disk) else ps = []"
    by (rule partscan_ok [OF inv1 h(1,2) bd(2) h(3,4) device_shows_extends [OF disk(1) ext] disk(2,3) parts, of junk mknod])
  then show ?thesis using reg bd_extends_trans [OF ext] by (intro that [of s' ps]) simp_all
qed

section \<open>Opening devices\<close>

definition has_numbers :: "'a bstate_scheme \<Rightarrow> u64 \<Rightarrow> u64 \<Rightarrow> u64 \<Rightarrow> bool" where
  "has_numbers s major minor p \<longleftrightarrow>
     (\<exists>bd d. bds s p = Some bd \<and> bd_drivers s (bd_driver bd) = Some d \<and> bd_minor bd = minor \<and> drv_major d = major)"

definition bd_valid :: "'a bstate_scheme \<Rightarrow> u64 \<Rightarrow> bool" where
  "bd_valid s p \<longleftrightarrow> p \<noteq> NULL \<and> (\<exists>bd d. bds s p = Some bd \<and> bd_drivers s (bd_driver bd) = Some d)"

lemma find_bd_ok:
  assumes "\<forall>p \<in> set ps. bd_valid s p"
  shows "find_bd ps major minor s = Inr (case List.find (has_numbers s major minor) ps of None \<Rightarrow> NULL | Some p \<Rightarrow> p)"
  using assms by (induction ps) (auto simp: bd_valid_def has_numbers_def bd_at_def driver_at_def)

lemma bd_open_ok:
  assumes lock: "mutex_idle (bd_list_lock s)" and valid: "\<forall>p \<in> set (bd_list s). bd_valid s p"
    and heap: "heap_inv s" "heap_budget s 1" and found: "List.find (has_numbers s major minor) (bd_list s) = Some p"
  obtains fd l s' where "bd_open raw fops major minor s = Inr (SUCCESS, fd, s')" and "heap_inv s'"
    and "heap_live s' = insert (unat fd, l) (heap_live s)" and "\<forall>l. (unat fd, l) \<notin> heap_live s" and "fd \<noteq> NULL"
    and "fds s' = (fds s)(fd \<mapsto> (raw fd)\<lparr>fpos := 0, fs_data := p, f_ops := fops\<rparr>)"
    and "bd_extends s s'" and "bds s' = bds s" and "bd_parts s' = bd_parts s" and "bd_list s' = bd_list s" and "bd_list_lock s' = bd_list_lock s"
proof -
  let ?s1 = "s\<lparr>bd_list_lock := mutex_taken (bd_list_lock s) s\<rparr>"
  have heap1: "heap_inv ?s1" "heap_budget ?s1 (Suc 0)" "heap_live ?s1 = heap_live s" using heap
    by (simp_all add: heap_unfold)
  have valid1: "\<forall>q \<in> set (bd_list s). bd_valid ?s1 q" using valid by (simp add: bd_valid_def)
  have "has_numbers ?s1 major minor = has_numbers s major minor" by (simp add: has_numbers_def fun_eq_iff)
  then have find: "find_bd (bd_list s) major minor ?s1 = Inr p" using find_bd_ok [OF valid1, of major minor] found by simp
  have p: "p \<noteq> NULL" using found valid by (auto simp: find_Some_iff bd_valid_def in_set_conv_nth)
  show ?thesis
  proof (rule kmalloc_small [OF heap1(1,2), of 112 50 0], simp, goal_cases)
    case (1 fd s2 l)
    note more = hstate_more_blocks [OF 1(8)] hstate_more_files [OF 1(8)]
    let ?d = "(raw fd)\<lparr>fpos := 0, fs_data := p, f_ops := fops\<rparr>"
    let ?s = "s2\<lparr>fds := (fds s)(fd \<mapsto> ?d), bd_list_lock := bd_list_lock s\<rparr>"
    have run: "bd_open raw fops major minor s = Inr (SUCCESS, fd, ?s)"
      using lock find p 1(1,7) more
      by (simp add: bd_open_def bd_list_acquire_def bd_list_release_def fd_set_def Let_def)
    have "heap_inv ?s" "heap_live ?s = insert (unat fd, l) (heap_live s)" using 1(2,6) heap1(3)
      by (simp_all add: heap_unfold)
    then show ?case using run 1(3,5) more heap1(3) by (intro that [of fd ?s l]) (simp_all add: bd_extends_def)
  qed
qed

lemma bd_open_missing:
  assumes "mutex_idle (bd_list_lock s)" and valid: "\<forall>p \<in> set (bd_list s). bd_valid s p"
    and found: "List.find (has_numbers s major minor) (bd_list s) = None"
  shows "bd_open raw fops major minor s = Inr (- ENOENT, NULL, s)"
proof -
  let ?s1 = "s\<lparr>bd_list_lock := mutex_taken (bd_list_lock s) s\<rparr>"
  have valid1: "\<forall>q \<in> set (bd_list s). bd_valid ?s1 q" using valid by (simp add: bd_valid_def)
  have "has_numbers ?s1 major minor = has_numbers s major minor" by (simp add: has_numbers_def fun_eq_iff)
  then have "find_bd (bd_list s) major minor ?s1 = Inr NULL" using find_bd_ok [OF valid1, of major minor] found by simp
  then show ?thesis using assms(1) by (simp add: bd_open_def bd_list_acquire_def bd_list_release_def)
qed

section \<open>Properties\<close>

text \<open>A small registry: one memory disk of two blocks, with a table of one partition.\<close>

definition small_disk :: "byte list" where
  "small_disk = replicate 446 0 @ [0x80, 0, 0, 0, 0x83, 0, 0, 0, 1, 0, 0, 0, 1, 0, 0, 0] @ replicate 48 0 @
     [0x55, 0xAA] @ replicate 512 7"

definition small_blocks :: bstate where
  "small_blocks = kstate.extend small_sched
     \<lparr>bd_drivers = [Initrd_driver \<mapsto> \<lparr>drv_name = ''ramdisk'', drv_prefix = ''rd'', bd_ops = Initrd_Ops, drv_major = 2\<rparr>,
                   Partscan_drv \<mapsto> \<lparr>drv_name = ''partscan'', drv_prefix = ''p'', bd_ops = Partscan_Ops, drv_major = 1\<rparr>],
      bds = [0x3000 \<mapsto> \<lparr>bd_minor = 0, bd_capacity = 2, bd_driver = Initrd_driver, bd_data = 0x3100, bd_name = ''rd0''\<rparr>],
      bd_parts = Map.empty,
      rds = [0x3100 \<mapsto> \<lparr>rd_ramdisk = 0x100000, rd_ramdisk_size = 2, rd_minor = 0, rd_lock = MUTEX_INITIALIZER\<rparr>],
      ram = [0x100000 \<mapsto> small_disk], major_counter = 3, driver_list = [Partscan_drv, Initrd_driver],
      driver_list_lock = MUTEX_INITIALIZER, bd_list = [], bd_list_lock = MUTEX_INITIALIZER, part_major = 1,
      initrd_major = 2, minor_counter = 1, vfs_initialized = False\<rparr>"

lemma small_blocks_fields:
  "bds small_blocks = [0x3000 \<mapsto> \<lparr>bd_minor = 0, bd_capacity = 2, bd_driver = Initrd_driver, bd_data = 0x3100, bd_name = ''rd0''\<rparr>]"
  "bd_drivers small_blocks = [Initrd_driver \<mapsto> \<lparr>drv_name = ''ramdisk'', drv_prefix = ''rd'', bd_ops = Initrd_Ops, drv_major = 2\<rparr>,
                   Partscan_drv \<mapsto> \<lparr>drv_name = ''partscan'', drv_prefix = ''p'', bd_ops = Partscan_Ops, drv_major = 1\<rparr>]"
  "bd_parts small_blocks = Map.empty" "ram small_blocks = [0x100000 \<mapsto> small_disk]" "bd_list small_blocks = []"
  "rds small_blocks = [0x3100 \<mapsto> \<lparr>rd_ramdisk = 0x100000, rd_ramdisk_size = 2, rd_minor = 0, rd_lock = MUTEX_INITIALIZER\<rparr>]"
  "bd_list_lock small_blocks = MUTEX_INITIALIZER" "part_major small_blocks = 1" "\<not> vfs_initialized small_blocks"
  by (simp_all add: small_blocks_def kstate.extend_def)

lemma small_blocks_heap: "heap_inv small_blocks" "heap_budget small_blocks 4"
proof -
  have x: "heap_inv (kstate.extend s x) = heap_inv s" "free_frames (kstate.extend s x) = free_frames s"
    "kheap_break (kstate.extend s x) = kheap_break s" for s x by (simp_all add: kstate.extend_def heap_unfold)
  show "heap_inv small_blocks" using small_sched_heap(1) by (simp add: small_blocks_def x)
  have "kheap_break small_sched = KHEAP_START"
    using small_user_fields(4) by (simp add: small_sched_def fstate.extend_def small_fs_def pstate.extend_def small_running_def)
  then show "heap_budget small_blocks 4" using small_sched_heap(2) by (simp add: small_blocks_def heap_budget_def x KHEAP_START_def)
qed

lemma small_blocks_inv: "bd_inv small_blocks"
  using small_blocks_heap(1) by (simp add: bd_inv_def small_blocks_fields bd_placed_def)

lemma small_disk_length: "length small_disk = 1024"
  by (simp add: small_disk_def)

lemma small_blocks_shows: "device_shows small_blocks 0 0x3000 small_disk"
proof -
  let ?bd = "\<lparr>bd_minor = 0, bd_capacity = 2, bd_driver = Initrd_driver, bd_data = 0x3100, bd_name = ''rd0''\<rparr> :: bd_t"
  let ?d = "\<lparr>drv_name = ''ramdisk'', drv_prefix = ''rd'', bd_ops = Initrd_Ops, drv_major = 2\<rparr> :: bd_driver_t"
  let ?r = "\<lparr>rd_ramdisk = 0x100000, rd_ramdisk_size = 2, rd_minor = 0, rd_lock = MUTEX_INITIALIZER\<rparr> :: rd_t"
  show ?thesis
    using device_shows.memory [of small_blocks "0x3000" ?bd ?d ?r small_disk] small_disk_length
    by (simp add: small_blocks_fields)
qed

lemma small_disk_parts: "used_parts small_disk = [0]" "mbr_part small_disk 0 =
    \<lparr>mp_flags = 0x80, mp_chs_start = [0, 0, 0], mp_type = 0x83, mp_chs_last = [0, 0, 0], mp_lba_start = 1, mp_lba_size = 1\<rparr>"
    "mbr_magic small_disk"
  by (simp_all add: used_parts_def mbr_part_def le_at_def small_disk_def mbr_magic_def nth_append)



text \<open>
  A read of whole blocks through the file operations of a memory disk or of a partition on one stores the bytes
  that the device shows from the offset on, up to the end of the disk. The value it returns is 512 times their
  number: the memory disk returns bytes where \<^verbatim>\<open>bd_read\<close> expects blocks.
\<close>

theorem bd_read_spec:
  assumes "device_shows s n p disk" and "n < address_fuel" and "512 dvd unat off" and "512 dvd unat len"
    and "unat off \<le> length disk" and "unat len < 2 ^ 54"
  shows "bd_read s p len off =
    (let bytes = take (unat len) (drop (unat off) disk) in Inr (512 * int (length bytes), bytes))"
  by (rule bd_read_shows [OF assms])

theorem bd_read_spec_witness:
  "bd_read small_blocks 0x3000 1024 512 = Inr (262144, replicate 512 7)"
proof -
  have "drop 512 small_disk = replicate 512 7" by (simp add: small_disk_def)
  then show ?thesis using bd_read_spec [OF small_blocks_shows, of 512 1024] small_disk_length by simp
qed

text \<open>
  \<^verbatim>\<open>ramdisk_install\<close> divides the size of the disk by the block size twice, so that a disk of less than 512 blocks
  has capacity zero and \<^verbatim>\<open>bd_register\<close> panics.
\<close>

theorem ramdisk_install_small:
  assumes "heap_inv s" and "heap_budget s 2" and "ramdisk \<noteq> NULL" and "unat ramdisk_size < 262144"
  shows "ramdisk_install raw_lock raw_name junk mknod ramdisk ramdisk_size s =
    Inl (Panic ''blkdev must have non-zero capacity'')"
proof -
  have "unat (drop_bit 9 ramdisk_size div BLOCK_SIZE) = 0"
    using assms(4) by (simp add: BLOCK_SIZE_def unat_div_word unat_drop_bit_eq drop_bit_eq_div)
  then have cap: "drop_bit 9 ramdisk_size div BLOCK_SIZE = 0" by (simp add: unat_eq_zero)
  have b: "heap_budget s (Suc (Suc 0))" using assms(2) by (simp add: numeral_2_eq_2)
  show ?thesis
  proof (rule kmalloc_small [OF assms(1) b, of 96 75 0], simp, goal_cases)
    case (1 a s1 l)
    define s2 where "s2 = s1\<lparr>minor_counter := minor_counter s1 + 1, rds := (rds s1)(a \<mapsto>
               \<lparr>rd_ramdisk = ramdisk, rd_ramdisk_size = drop_bit 9 ramdisk_size, rd_minor = minor_counter s1, rd_lock = raw_lock a\<rparr>)\<rparr>"
    have h: "heap_inv s2" "heap_budget s2 (Suc 0)" using 1(2,9) by (simp_all add: s2_def heap_unfold)
    note A = 1
    show ?case
    proof (rule kmalloc_small [OF h, of 64 80 0], simp, goal_cases)
      case (1 bd s3 l2)
      then show ?case using A(1) assms(3) cap
        by (simp add: ramdisk_install_def atomic_add_def Let_def bd_register_def bd_register_then_def bd_at_def s2_def)
    qed
  qed
qed

theorem ramdisk_install_small_witness:
  "ramdisk_install (\<lambda>_. MUTEX_INITIALIZER) (\<lambda>_. []) (\<lambda>_. 0) (\<lambda>_ _ _ _ _. Inr o Pair 0) 0x100000 1024 small_blocks =
    Inl (Panic ''blkdev must have non-zero capacity'')"
proof -
  have "heap_budget small_blocks 2" using small_blocks_heap(2) by (simp add: heap_budget_def)
  from ramdisk_install_small [OF small_blocks_heap(1) this] show ?thesis by simp
qed

text \<open>A write to a partition changes no disk: it reads into the buffer.\<close>

lemma partition_write_reads:
  assumes "bds s p = Some bd" and "bd_drivers s (bd_driver bd) = Some d" and "bd_ops d = Partscan_Ops"
    and "bd_write p buf len off s = Inr (ret, buf', s')"
  shows "s' = s"
  using assms by (auto simp: bd_write_def bd_at_def driver_at_def Let_def rbind_def split: sum.splits prod.splits)

end
