(* ===== verification/Ext2.thy ===== *)
theory Ext2
  imports Block_Devices
begin

text \<open>
  The ext2 file system driver, \<^verbatim>\<open>fs/ext2fs.c\<close>: the on-disk structures as they are read from bytes, probing, fetching
  inodes, files and directories, and reading the contents of a file through its block pointers.

  A buffer on the heap is a list of bytes that the functions pass along; \<open>junk\<close> is what a new buffer holds. The tables
  of group descriptors and the inodes, which stay allocated, are objects of the state.
\<close>

section \<open>On-disk structures\<close>

record ext2_superblock_t =
  total_inodes :: u32
  total_blocks :: u32
  root_blocks :: u32
  unalloc_blocks :: u32
  unalloc_inodes :: u32
  superblock :: u32
  block_size_log :: u32
  fragment_size_log :: u32
  blocks_per_group :: u32
  fragments_per_group :: u32
  inodes_per_group :: u32
  last_mount :: u32
  last_write :: u32
  mounts_since_check :: u16
  mounts_remaining :: u16
  sb_signature :: u16
  fs_state :: u16
  error_action :: u16
  minor_version :: u16
  last_check :: u32
  check_interval :: u32
  creator_os :: u32
  major_version :: u32
  reserved_user :: u16
  reserved_group :: u16
  first_inode_non_reserved :: u32
  inode_size :: u16
  backup_blockgroup :: u16
  optional_features :: u32
  required_features :: u32
  readonly_features :: u32
  fs_id :: "byte list"
  vol_name :: "byte list"
  last_mount_path :: "byte list"
  compression_alg :: u32
  prealloc_file_blocks :: u8
  prealloc_dir_blocks :: u8
  sb_unused :: u16
  journal_id :: "byte list"
  journal_inode :: u32
  journal_device :: u32
  orphan_head :: u32

definition bytes_at :: "byte list \<Rightarrow> nat \<Rightarrow> nat \<Rightarrow> byte list" where
  "bytes_at b off n = take n (drop off b)"

definition superblock_of :: "byte list \<Rightarrow> ext2_superblock_t" where
  "superblock_of b = \<lparr>total_inodes = le_at b 0 4, total_blocks = le_at b 4 4, root_blocks = le_at b 8 4,
     unalloc_blocks = le_at b 12 4, unalloc_inodes = le_at b 16 4, superblock = le_at b 20 4,
     block_size_log = le_at b 24 4, fragment_size_log = le_at b 28 4, blocks_per_group = le_at b 32 4,
     fragments_per_group = le_at b 36 4, inodes_per_group = le_at b 40 4, last_mount = le_at b 44 4,
     last_write = le_at b 48 4, mounts_since_check = le_at b 52 2, mounts_remaining = le_at b 54 2,
     sb_signature = le_at b 56 2, fs_state = le_at b 58 2, error_action = le_at b 60 2, minor_version = le_at b 62 2,
     last_check = le_at b 64 4, check_interval = le_at b 68 4, creator_os = le_at b 72 4, major_version = le_at b 76 4,
     reserved_user = le_at b 80 2, reserved_group = le_at b 82 2, first_inode_non_reserved = le_at b 84 4,
     inode_size = le_at b 88 2, backup_blockgroup = le_at b 90 2, optional_features = le_at b 92 4,
     required_features = le_at b 96 4, readonly_features = le_at b 100 4, fs_id = bytes_at b 104 16,
     vol_name = bytes_at b 120 16, last_mount_path = bytes_at b 136 64, compression_alg = le_at b 200 4,
     prealloc_file_blocks = le_at b 204 1, prealloc_dir_blocks = le_at b 205 1, sb_unused = le_at b 206 2,
     journal_id = bytes_at b 208 16, journal_inode = le_at b 224 4, journal_device = le_at b 228 4,
     orphan_head = le_at b 232 4\<rparr>"

record ext2_gd_t =
  bg_block_bitmap :: u32
  bg_inode_bitmap :: u32
  bg_inode_table :: u32
  bg_free_blocks_count :: u16
  bg_free_inodes_count :: u16
  bg_used_dirs_count :: u16

definition gd_of :: "byte list \<Rightarrow> ext2_gd_t" where
  "gd_of b = \<lparr>bg_block_bitmap = le_at b 0 4, bg_inode_bitmap = le_at b 4 4, bg_inode_table = le_at b 8 4,
     bg_free_blocks_count = le_at b 12 2, bg_free_inodes_count = le_at b 14 2, bg_used_dirs_count = le_at b 16 2\<rparr>"

text \<open>The operating system dependent unions are their bytes.\<close>

record ext2_inode_t =
  i_mode :: u16
  i_uid :: u16
  i_size :: u32
  i_atime :: u32
  i_ctime :: u32
  i_mtime :: u32
  i_dtime :: u32
  i_gid :: u16
  i_links_count :: u16
  i_blocks :: u32
  i_flags :: u32
  i_osd1 :: u32
  i_block :: "u32 list"
  i_generation :: u32
  i_file_acl :: u32
  i_dir_acl :: u32
  i_faddr :: u32
  i_osd2 :: "byte list"

definition inode_of :: "byte list \<Rightarrow> ext2_inode_t" where
  "inode_of b = \<lparr>i_mode = le_at b 0 2, i_uid = le_at b 2 2, i_size = le_at b 4 4, i_atime = le_at b 8 4,
     i_ctime = le_at b 12 4, i_mtime = le_at b 16 4, i_dtime = le_at b 20 4, i_gid = le_at b 24 2,
     i_links_count = le_at b 26 2, i_blocks = le_at b 28 4, i_flags = le_at b 32 4, i_osd1 = le_at b 36 4,
     i_block = map (\<lambda>k. le_at b (40 + 4 * k) 4) [0..<15], i_generation = le_at b 100 4, i_file_acl = le_at b 104 4,
     i_dir_acl = le_at b 108 4, i_faddr = le_at b 112 4, i_osd2 = bytes_at b 116 12\<rparr>"

record ext2_dentry_base_t =
  dent_inode :: u32
  dent_size :: u16
  dent_name_length :: u8
  dent_type :: u8

definition dentry_of :: "byte list \<Rightarrow> ext2_dentry_base_t" where
  "dentry_of b = \<lparr>dent_inode = le_at b 0 4, dent_size = le_at b 4 2, dent_name_length = le_at b 6 1, dent_type = le_at b 7 1\<rparr>"

record ext2fs_t =
  e2_sb :: ext2_superblock_t
  e2_fd :: u64
  e2_root :: u64
  e2_block_size :: u64
  e2_gd_count :: u64
  e2_group_descriptors :: u64
  e2_io_lock :: mutex_t
  e2_fs_lock :: mutex_t

record estate = bstate +
  ext2s :: "u64 \<rightharpoonup> ext2fs_t"
  gd_tables :: "u64 \<rightharpoonup> byte list"
  inodes :: "u64 \<rightharpoonup> ext2_inode_t"
  my_fsinfo :: u64

definition ext2_at :: "u64 \<Rightarrow> 'a estate_scheme \<Rightarrow> ext2fs_t result" where
  "ext2_at p s = (case ext2s s p of None \<Rightarrow> Inl (Mem_Fault ''ext2fs_t'') | Some x \<Rightarrow> Inr x)"

definition inode_at :: "u64 \<Rightarrow> 'a estate_scheme \<Rightarrow> ext2_inode_t result" where
  "inode_at p s = (case inodes s p of None \<Rightarrow> Inl (Mem_Fault ''ext2_inode_t'') | Some x \<Rightarrow> Inr x)"

definition LBA_SIZE :: u64 where "LBA_SIZE = 512"
definition SB_LBA :: u64 where "SB_LBA = 2"
definition SB_SIZE :: u64 where "SB_SIZE = 2"

section \<open>Blocks\<close>

text \<open>What a buffer holds after bytes were stored from its start on.\<close>

definition store_buf :: "byte list \<Rightarrow> byte list \<Rightarrow> byte list result" where
  "store_buf bytes buf =
     (if length bytes \<le> length buf then Inr (bytes @ drop (length bytes) buf) else Inl (Mem_Fault ''buffer''))"

definition div_r :: "u64 \<Rightarrow> u64 \<Rightarrow> u64 result" where
  "div_r a b = (if b = 0 then Inl Div_By_Zero else Inr (a div b))"

definition mod_r :: "u64 \<Rightarrow> u64 \<Rightarrow> u64 result" where
  "mod_r a b = (if b = 0 then Inl Div_By_Zero else Inr (a mod b))"

text \<open>
  The comparison of the signed result of the read with the unsigned size is one of unsigned numbers. The
  value is the truth value returned, the buffer and the new state.
\<close>

definition ext2_get_block ::
  "u64 \<Rightarrow> byte list \<Rightarrow> u64 \<Rightarrow> u64 \<Rightarrow> 'a estate_scheme \<Rightarrow> (bool \<times> byte list \<times> 'a estate_scheme) result" where
  "ext2_get_block fsp buf lba count s =
     rbind (ext2_at fsp s) (\<lambda>fs.
     rbind (mutex_lock (e2_io_lock fs) s) (\<lambda>m.
     let s = s\<lparr>ext2s := (ext2s s)(fsp \<mapsto> fs\<lparr>e2_io_lock := m\<rparr>)\<rparr> in
     rbind (vfs_seek (e2_fd fs) (lba * BLOCK_SIZE) SEEK_SET s) (\<lambda>(_, s).
     rbind (vfs_read (e2_fd fs) (count * BLOCK_SIZE) s) (\<lambda>(error, bytes).
     rbind (store_buf bytes buf) (\<lambda>buf.
     rbind (mutex_unlock m s) (\<lambda>(m, s).
     let s = s\<lparr>ext2s := (ext2s s)(fsp \<mapsto> fs\<lparr>e2_io_lock := m\<rparr>)\<rparr> in
     Inr (\<not> (word_of_int error < count * BLOCK_SIZE), buf, s)))))))"

text \<open>
  \<^verbatim>\<open>sizeof(ext2fs_t)\<close> is 2048, since the superblock is aligned to 1024 bytes. \<open>raw\<close> is what its memory holds.
  The block size is the shifted \<^verbatim>\<open>int\<close> 1024, converted to 64 bits.
\<close>

definition ext2_probe ::
  "(u64 \<Rightarrow> ext2fs_t) \<Rightarrow> (nat \<Rightarrow> byte) \<Rightarrow> u64 \<Rightarrow> 'a estate_scheme \<Rightarrow> (u64 \<times> 'a estate_scheme) result" where
  "ext2_probe raw junk fd s =
     rbind (vfs_seek fd (SB_LBA * BLOCK_SIZE) SEEK_SET s) (\<lambda>(_, s).
     rbind (vfs_read fd (SB_SIZE * BLOCK_SIZE) s) (\<lambda>(error, bytes).
     let sb = superblock_of (buffer junk 1024 bytes) in
     if error < 0 \<or> sb_signature sb \<noteq> 0xef53 then Inr (NULL, s)
     else
       rbind (kmalloc 2048 190 0 s) (\<lambda>(fsp, s).
       rbind (mutex_init (e2_fs_lock (raw fsp))) (\<lambda>fs_lock.
       rbind (mutex_init (e2_io_lock (raw fsp))) (\<lambda>io_lock.
       let block_size = scast (push_bit (unat (block_size_log sb)) (0x400 :: u32)) :: u64 in
       if blocks_per_group sb = 0 then Inl Div_By_Zero
       else
         let gd_count = ucast (total_blocks sb div blocks_per_group sb) +
               (if total_blocks sb mod blocks_per_group sb \<noteq> 0 then 1 else 0) :: u64;
             gdt_lba = (if block_size = 0x400 then 2 else 1) * (block_size div LBA_SIZE);
             gdt_size = gd_count * 32;
             gdt_lba_size = gdt_size div LBA_SIZE + (if gdt_size mod LBA_SIZE \<noteq> 0 then 1 else 0) in
         rbind (kmalloc (gdt_lba_size * LBA_SIZE) 208 0 s) (\<lambda>(gds, s).
         let s = s\<lparr>ext2s := (ext2s s)(fsp \<mapsto> \<lparr>e2_sb = sb, e2_fd = vfs_dup fd, e2_root = NULL,
                   e2_block_size = block_size, e2_gd_count = gd_count, e2_group_descriptors = gds,
                   e2_io_lock = io_lock, e2_fs_lock = fs_lock\<rparr>)\<rparr> in
         rbind (ext2_get_block fsp (buffer junk (unat (gdt_lba_size * LBA_SIZE)) []) gdt_lba gdt_lba_size s) (\<lambda>(ok, buf, s).
         if \<not> ok then
           rbind (kfree gds s) (\<lambda>s.
           rbind (kfree fsp s) (\<lambda>s. Inr (NULL, s\<lparr>ext2s := (ext2s s)(fsp := None)\<rparr>)))
         else Inr (fsp, s\<lparr>gd_tables := (gd_tables s)(gds \<mapsto> buf)\<rparr>))))))))"

section \<open>Inodes\<close>

text \<open>The descriptor of a group and the inode are read at offsets into the table and into the sector.\<close>

definition gd_at :: "u64 \<Rightarrow> u64 \<Rightarrow> 'a estate_scheme \<Rightarrow> ext2_gd_t result" where
  "gd_at gds group_no s =
     (case gd_tables s gds of None \<Rightarrow> Inl (Mem_Fault ''ext2_gd_t'')
      | Some buf \<Rightarrow>
          if 32 * unat group_no + 32 \<le> length buf then Inr (gd_of (drop (32 * unat group_no) buf))
          else Inl (Mem_Fault ''ext2_gd_t''))"

text \<open>The value is the code returned, the inode where it was fetched, and the new state.\<close>

definition fetch_inode ::
  "(nat \<Rightarrow> byte) \<Rightarrow> u64 \<Rightarrow> u64 \<Rightarrow> 'a estate_scheme \<Rightarrow> (int \<times> ext2_inode_t option \<times> 'a estate_scheme) result" where
  "fetch_inode junk fsp inode_no s =
     rbind (ext2_at fsp s) (\<lambda>fs.
     rbind (mutex_held (e2_fs_lock fs) s) (\<lambda>held.
     rbind (kassert held ''fs_lock not acquired'') (\<lambda>_.
     let sb = e2_sb fs in
     if inode_no > ucast (total_inodes sb) then Inr (- ENOENT, None, s)
     else
       rbind (div_r (inode_no - 1) (ucast (inodes_per_group sb))) (\<lambda>group_no.
       let isize = (if major_version sb < 1 then 128 else ucast (inode_size sb)) :: u64 in
       rbind (div_r LBA_SIZE isize) (\<lambda>inodes_per_sector.
       rbind (mod_r (inode_no - 1) (ucast (inodes_per_group sb))) (\<lambda>in_group.
       rbind (div_r in_group inodes_per_sector) (\<lambda>lba_offset.
       rbind (gd_at (e2_group_descriptors fs) group_no s) (\<lambda>group.
       let itable_lba = lba_offset + (ucast (bg_inode_table group) * e2_block_size fs div LBA_SIZE) in
       rbind (kmalloc LBA_SIZE 240 0 s) (\<lambda>(buffer_ptr, s).
       rbind (ext2_get_block fsp (buffer junk 512 []) itable_lba 1 s) (\<lambda>(ok, buf, s).
       if \<not> ok then rbind (kfree buffer_ptr s) (\<lambda>s. Inr (- EIO, None, s))
       else
         rbind (mod_r (inode_no - 1) inodes_per_sector) (\<lambda>buffer_index.
         let off = 128 * unat buffer_index in
         if length buf < off + 128 then Inl (Mem_Fault ''buffer'')
         else rbind (kfree buffer_ptr s) (\<lambda>s. Inr (SUCCESS, Some (inode_of (drop off buf)), s)))))))))))))"

section \<open>File contents\<close>

definition ext2_get_file_block ::
  "u64 \<Rightarrow> ext2_inode_t \<Rightarrow> byte list \<Rightarrow> u64 \<Rightarrow> 'a estate_scheme \<Rightarrow> (u64 \<times> byte list \<times> 'a estate_scheme) result" where
  "ext2_get_file_block fsp inode buf index s =
     rbind (ext2_at fsp s) (\<lambda>fs.
     let ptrs_per_block = e2_block_size fs div 4; block_lba_size = e2_block_size fs div LBA_SIZE in
     if index < 12 then rbind (rd (i_block inode) (unat index)) (\<lambda>b. Inr (ucast b, buf, s))
     else if index < 12 + ptrs_per_block then
       rbind (rd (i_block inode) 12) (\<lambda>b.
       rbind (ext2_get_block fsp buf (ucast b * block_lba_size) block_lba_size s) (\<lambda>(ok, buf, s).
       if \<not> ok then Inr (- 1, buf, s)
       else
         let off = 4 * unat (index - 12) in
         if length buf < off + 4 then Inl (Mem_Fault ''buffer'')
         else Inr (ucast (le_at buf off 4 :: u32), buf, s)))
     else Inl (Panic ''ext2fs: indirect pointers are unimplemented''))"

text \<open>
  The loop of \<^verbatim>\<open>ext2_read\<close>. \<open>out\<close> are the bytes stored in the caller's buffer so far, as many as \<open>bytes_read\<close>; \<open>buf\<close> is
  the buffer for one block.
\<close>

primrec ext2_read_loop ::
  "nat \<Rightarrow> u64 \<Rightarrow> u64 \<Rightarrow> u64 \<Rightarrow> u64 \<Rightarrow> u64 \<Rightarrow> byte list \<Rightarrow> byte list \<Rightarrow> 'a estate_scheme \<Rightarrow>
   (int \<times> u64 \<times> byte list \<times> 'a estate_scheme) result" where
  "ext2_read_loop 0 fsp ip len offset bytes_read buf out s = Inl Diverges"
| "ext2_read_loop (Suc n) fsp ip len offset bytes_read buf out s =
     (if \<not> bytes_read < len then Inr (SUCCESS, bytes_read, out, s)
      else
        rbind (ext2_at fsp s) (\<lambda>fs.
        let block_size = e2_block_size fs in
        rbind (div_r (offset + bytes_read) block_size) (\<lambda>current_block.
        rbind (inode_at ip s) (\<lambda>inode.
        rbind (ext2_get_file_block fsp inode buf current_block s) (\<lambda>(block_no, buf, s).
        let block_lba = block_no * block_size div LBA_SIZE; block_lba_size = block_size div LBA_SIZE in
        rbind (ext2_get_block fsp buf block_lba block_lba_size s) (\<lambda>(ok, buf, s).
        if \<not> ok then Inr (- EIO, bytes_read, out, s)
        else
          let bb_offset = (if bytes_read = 0 then offset mod block_size else 0);
              cpy_size = block_size - bb_offset;
              cpy_size = (if bytes_read + cpy_size > len then cpy_size - (bytes_read + cpy_size - len) else cpy_size) in
          if length buf < unat bb_offset + unat cpy_size then Inl (Mem_Fault ''buffer'')
          else
            ext2_read_loop n fsp ip len offset (bytes_read + cpy_size) buf
              (out @ bytes_at buf (unat bb_offset) (unat cpy_size)) s))))))"

definition ext2_read ::
  "(nat \<Rightarrow> byte) \<Rightarrow> u64 \<Rightarrow> u64 \<Rightarrow> u64 \<Rightarrow> 'a estate_scheme \<Rightarrow> (int \<times> byte list \<times> 'a estate_scheme) result" where
  "ext2_read junk drvdata len offset s =
     rbind (file_at drvdata s) (\<lambda>f.
     rbind (ext2_at (file_driver1 f) s) (\<lambda>fs.
     let len = (if offset + len > file_length f then file_length f - offset else len) in
     rbind (kmalloc (e2_block_size fs) 296 0 s) (\<lambda>(block_buffer, s).
     rbind (ext2_read_loop address_fuel (file_driver1 f) (file_driver2 f) len offset 0
              (buffer junk (unat (e2_block_size fs)) []) [] s) (\<lambda>(error, bytes_read, out, s).
     rbind (kfree block_buffer s) (\<lambda>s.
     if error \<noteq> SUCCESS then Inr (error, out, s) else Inr (sint bytes_read, out, s))))))"

definition ext2_write :: "u64 \<Rightarrow> byte list \<Rightarrow> u64 \<Rightarrow> int" where
  "ext2_write drvdata bytes offset = - ENOSYS"

section \<open>Files and directories\<close>

definition chars :: "byte list \<Rightarrow> string" where
  "chars bs = map (\<lambda>b. char_of (unat b)) bs"

text \<open>
  \<^verbatim>\<open>strncpy\<close> copies the name up to a zero byte and no terminator; the byte behind the name is set to zero. What the
  memory held before may remain between the two.
\<close>

definition entry_name :: "(nat \<Rightarrow> byte) \<Rightarrow> byte list \<Rightarrow> nat \<Rightarrow> string" where
  "entry_name raw bytes n =
     (let copied = takeWhile (\<lambda>b. b \<noteq> 0) (take n bytes)
      in chars (takeWhile (\<lambda>b. b \<noteq> 0) (copied @ map raw [length copied..<n])))"

text \<open>
  The loop over the entries. An entry that claims size 0 makes it run for ever. \<^verbatim>\<open>sizeof(direntry_t)\<close> is 272.
\<close>

primrec fetch_entries ::
  "nat \<Rightarrow> (u64 \<Rightarrow> nat \<Rightarrow> byte) \<Rightarrow> byte list \<Rightarrow> u64 \<Rightarrow> u64 \<Rightarrow> u64 list \<Rightarrow> 'a estate_scheme \<Rightarrow>
   (u64 list \<times> 'a estate_scheme) result" where
  "fetch_entries 0 raw buf len index es s = Inl Diverges"
| "fetch_entries (Suc n) raw buf len index es s =
     (if \<not> index < len then Inr (es, s)
      else if length buf < unat index + 8 then Inl (Mem_Fault ''ext2_dentry_base_t'')
      else
        let direntry = dentry_of (drop (unat index) buf);
            name_at = unat index + 8;
            index = index + ucast (dent_size direntry) in
        if dent_inode direntry = 0 then fetch_entries n raw buf len index es s
        else
          rbind (kmalloc 272 355 0 s) (\<lambda>(dentry, s).
          let name_length = unat (dent_name_length direntry) in
          if length buf < name_at + name_length then Inl (Mem_Fault ''name'')
          else
            fetch_entries n raw buf len index (es @ [dentry])
              (s\<lparr>direntries := (direntries s)(dentry \<mapsto>
                 \<lparr>de_name = entry_name (raw dentry) (drop name_at buf) name_length,
                  de_inode = ucast (dent_inode direntry), de_file = NULL\<rparr>)\<rparr>)))"

definition dir_set :: "u64 \<Rightarrow> dir_t \<Rightarrow> 'a fstate_scheme \<Rightarrow> 'a fstate_scheme" where
  "dir_set p d s = s\<lparr>dirs := (dirs s)(p \<mapsto> d)\<rparr>"

definition ext2_fetch_dir ::
  "(nat \<Rightarrow> byte) \<Rightarrow> (u64 \<Rightarrow> nat \<Rightarrow> byte) \<Rightarrow> u64 \<Rightarrow> u64 \<Rightarrow> dir_t \<Rightarrow> 'a estate_scheme \<Rightarrow> 'a estate_scheme result" where
  "ext2_fetch_dir junk raw dfile dirp d s =
     rbind (file_at dfile s) (\<lambda>f.
     let d = d\<lparr>dir_file := dfile, dir_files := [], dir_mounted := NULL, dir_driver := file_driver1 f\<rparr> in
     rbind (kmalloc (file_length f) 342 0 s) (\<lambda>(buffer_ptr, s).
     rbind (ext2_read junk dfile (file_length f) 0 s) (\<lambda>(_, bytes, s).
     rbind (store_buf bytes (buffer junk (unat (file_length f)) [])) (\<lambda>buf.
     rbind (fetch_entries address_fuel raw buf (file_length f) 0 [] s) (\<lambda>(es, s).
     rbind (kfree buffer_ptr s) (\<lambda>s. Inr (dir_set dirp (d\<lparr>dir_files := es\<rparr>) s)))))))"

definition mode_of :: "u16 \<Rightarrow> fmode_t" where
  "mode_of m = \<lparr>o_x = bit m 0, o_w = bit m 1, o_r = bit m 2, g_x = bit m 3, g_w = bit m 4, g_r = bit m 5,
     u_x = bit m 6, u_w = bit m 7, u_r = bit m 8, sticky = bit m 9, setgid = bit m 10, setuid = bit m 11\<rparr>"

text \<open>
  \<^verbatim>\<open>sizeof(ext2_inode_t)\<close> is 128 and \<^verbatim>\<open>sizeof(dir_t)\<close> is 72. The result of \<^verbatim>\<open>fetch_inode\<close> is ignored: an inode that could
  not be fetched is what its memory held (\<open>raw_inode\<close>).
\<close>

definition ext2_fetch_file ::
  "(nat \<Rightarrow> byte) \<Rightarrow> (u64 \<Rightarrow> nat \<Rightarrow> byte) \<Rightarrow> (u64 \<Rightarrow> ext2_inode_t) \<Rightarrow> (u64 \<Rightarrow> dir_t) \<Rightarrow>
   u64 \<Rightarrow> u64 \<Rightarrow> u64 \<Rightarrow> file_t \<Rightarrow> 'a estate_scheme \<Rightarrow> 'a estate_scheme result" where
  "ext2_fetch_file junk raw raw_inode raw_dir fsp inode_no filep f s =
     rbind (ext2_at fsp s) (\<lambda>fs.
     rbind (mutex_lock (e2_fs_lock fs) s) (\<lambda>m.
     let s = s\<lparr>ext2s := (ext2s s)(fsp \<mapsto> fs\<lparr>e2_fs_lock := m\<rparr>)\<rparr> in
     rbind (kmalloc 128 376 0 s) (\<lambda>(ip, s).
     rbind (fetch_inode junk fsp inode_no s) (\<lambda>(_, found, s).
     let inode = (case found of None \<Rightarrow> raw_inode ip | Some i \<Rightarrow> i);
         s = s\<lparr>inodes := (inodes s)(ip \<mapsto> inode)\<rparr>;
         f = f\<lparr>file_type := ucast (i_mode inode AND 0xf000), file_mode := mode_of (i_mode inode AND 0x0fff),
               file_uid := ucast (i_uid inode), file_gid := ucast (i_gid inode),
               t_last_accessed := ucast (i_atime inode), t_last_modified := ucast (i_mtime inode),
               t_created := ucast (i_ctime inode), file_length := ucast (i_size inode), file_inode := inode_no,
               file_driver1 := fsp, file_driver2 := ip\<rparr>;
         s = s\<lparr>files := (files s)(filep \<mapsto> f)\<rparr> in
     rbind (if file_type f = F_DIR then
              rbind (kmalloc 72 400 0 s) (\<lambda>(dirp, s).
              rbind (ext2_fetch_dir junk raw filep dirp ((raw_dir dirp)\<lparr>dir_fstype := my_fsinfo s\<rparr>) s) (\<lambda>s.
              Inr (s\<lparr>files := (files s)(filep \<mapsto> f\<lparr>file_special := Sp_Directory dirp\<rparr>)\<rparr>)))
            else Inr s) (\<lambda>s.
     rbind (ext2_at fsp s) (\<lambda>fs.
     rbind (mutex_unlock (e2_fs_lock fs) s) (\<lambda>(m, s).
     Inr (s\<lparr>ext2s := (ext2s s)(fsp \<mapsto> fs\<lparr>e2_fs_lock := m\<rparr>)\<rparr>))))))))"

text \<open>\<^verbatim>\<open>sizeof(file_t)\<close> is 88.\<close>

definition ext2_fetch ::
  "(nat \<Rightarrow> byte) \<Rightarrow> (u64 \<Rightarrow> nat \<Rightarrow> byte) \<Rightarrow> (u64 \<Rightarrow> ext2_inode_t) \<Rightarrow> (u64 \<Rightarrow> dir_t) \<Rightarrow> (u64 \<Rightarrow> file_t) \<Rightarrow>
   u64 \<Rightarrow> u64 \<Rightarrow> 'a estate_scheme \<Rightarrow> 'a estate_scheme result" where
  "ext2_fetch junk raw raw_inode raw_dir raw_file dirp direntry s =
     (case (dirs s dirp, direntries s direntry) of
        (Some d, Some e) \<Rightarrow>
          rbind (kassert (dirp \<noteq> NULL \<and> dir_file d \<noteq> NULL \<and> direntry \<noteq> NULL) ''invalid arguments'') (\<lambda>_.
          rbind (kassert (de_inode e \<noteq> 0) ''invalid inode'') (\<lambda>_.
          rbind (kassert (de_file e = NULL) ''nothing to fetch, file already present'') (\<lambda>_.
          rbind (file_at (dir_file d) s) (\<lambda>df.
          rbind (kmalloc 88 420 0 s) (\<lambda>(filep, s).
          let s = s\<lparr>direntries := (direntries s)(direntry \<mapsto> e\<lparr>de_file := filep\<rparr>)\<rparr> in
          ext2_fetch_file junk raw raw_inode raw_dir (file_driver1 df) (de_inode e) filep (raw_file filep) s)))))
      | _ \<Rightarrow> Inl (Mem_Fault ''ext2_fetch''))"

definition ext2_mount ::
  "(nat \<Rightarrow> byte) \<Rightarrow> (u64 \<Rightarrow> nat \<Rightarrow> byte) \<Rightarrow> (u64 \<Rightarrow> ext2_inode_t) \<Rightarrow> (u64 \<Rightarrow> dir_t) \<Rightarrow> (u64 \<Rightarrow> file_t) \<Rightarrow>
   u64 \<Rightarrow> 'a estate_scheme \<Rightarrow> (u64 \<times> 'a estate_scheme) result" where
  "ext2_mount junk raw raw_inode raw_dir raw_file fsp s =
     rbind (kmalloc 88 428 0 s) (\<lambda>(root, s).
     rbind (ext2_fetch_file junk raw raw_inode raw_dir fsp 2 root (raw_file root) s) (\<lambda>s.
     rbind (file_at root s) (\<lambda>f.
     rbind (kassert (file_type f = F_DIR) ''root dir is not a directory'') (\<lambda>_.
     case file_special f of
       Sp_Directory d \<Rightarrow> Inr (d, s)
     | _ \<Rightarrow> Inl (Mem_Fault ''sp_file_u'')))))"

section \<open>Reading blocks of the disk\<close>

text \<open>
  What the driver relies on when it reads from the disk: reads of whole blocks inside the disk store its bytes, and
  return at least their number.
\<close>

definition disk_reads :: "f_ops_t \<Rightarrow> u64 \<Rightarrow> byte list \<Rightarrow> bool" where
  "disk_reads ops dat disk \<longleftrightarrow>
     (\<exists>read. fop_read ops = Some read \<and>
       (\<forall>len off. 512 dvd unat off \<longrightarrow> 512 dvd unat len \<longrightarrow> unat off + unat len \<le> length disk \<longrightarrow>
          (\<exists>n. read dat len off = (n, take (unat len) (drop (unat off) disk)) \<and> int (unat len) \<le> n \<and> n < 2 ^ 63)))"

definition ext2_ok :: "u64 \<Rightarrow> ext2fs_t \<Rightarrow> byte list \<Rightarrow> 'a estate_scheme \<Rightarrow> bool" where
  "ext2_ok fsp e disk s \<longleftrightarrow>
     ext2s s fsp = Some e \<and> mutex_idle (e2_io_lock e) \<and> e2_block_size e \<in> {1024, 2048, 4096} \<and> length disk < 2 ^ 54 \<and>
     (\<exists>d. fds s (e2_fd e) = Some d \<and> disk_reads (f_ops d) (fs_data d) disk)"

text \<open>The only lasting effect of reading: the position of the file descriptor of the disk has moved.\<close>

definition seeked :: "u64 \<Rightarrow> 'a fstate_scheme \<Rightarrow> 'a fstate_scheme \<Rightarrow> bool" where
  "seeked fd s s' \<longleftrightarrow> (\<exists>d x. fds s fd = Some d \<and> s' = s\<lparr>fds := (fds s)(fd \<mapsto> d\<lparr>fpos := x\<rparr>)\<rparr>)"

lemma seeked_refl: "fds s fd = Some d \<Longrightarrow> seeked fd s s"
  unfolding seeked_def by (intro exI [of _ d] exI [of _ "fpos d"]) (simp add: fun_upd_idem)

lemma seeked_trans: "seeked fd s s' \<Longrightarrow> seeked fd s' s'' \<Longrightarrow> seeked fd s s''"
  by (auto simp: seeked_def) blast

lemma ext2_ok_seeked: "ext2_ok fsp e disk s \<Longrightarrow> seeked (e2_fd e) s s' \<Longrightarrow> ext2_ok fsp e disk s'"
  by (auto simp: ext2_ok_def seeked_def)

lemma ext2_ok_refl: "ext2_ok fsp e disk s \<Longrightarrow> seeked (e2_fd e) s s"
  by (auto simp: ext2_ok_def intro: seeked_refl)

lemma block_bytes_nat: "512 * unat x < 2 ^ 63 \<Longrightarrow> unat (x * BLOCK_SIZE) = 512 * unat x"
  by (rule block_bytes(1))

lemma ext2_get_block_ok:
  assumes ok: "ext2_ok fsp e disk s" and range: "512 * unat lba + 512 * unat count \<le> length disk"
    and buf: "512 * unat count \<le> length buf"
  obtains s' where "ext2_get_block fsp buf lba count s =
      Inr (True, bytes_at disk (512 * unat lba) (512 * unat count) @ drop (512 * unat count) buf, s')"
    and "seeked (e2_fd e) s s'"
proof -
  obtain d where d: "fds s (e2_fd e) = Some d" "disk_reads (f_ops d) (fs_data d) disk"
    and fs: "ext2s s fsp = Some e" "mutex_idle (e2_io_lock e)" and len: "length disk < 2 ^ 54"
    using ok by (auto simp: ext2_ok_def)
  have small: "512 * unat lba < 2 ^ 63" "512 * unat count < 2 ^ 63" using range len by simp_all
  note u = block_bytes_nat [OF small(1)] block_bytes_nat [OF small(2)]
  define bytes where "bytes = bytes_at disk (512 * unat lba) (512 * unat count)"
  obtain read n where rd: "fop_read (f_ops d) = Some read"
      "read (fs_data d) (count * BLOCK_SIZE) (lba * BLOCK_SIZE) = (n, bytes)"
    and n: "int (512 * unat count) \<le> n" "n < 2 ^ 63"
    using d(2) range unfolding disk_reads_def bytes_def bytes_at_def by (metis u dvd_triv_left)
  have lb: "length bytes = 512 * unat count" using range by (simp add: bytes_def bytes_at_def)
  have "\<not> word_of_int n < count * BLOCK_SIZE"
  proof -
    have "0 \<le> n" by (rule order_trans [OF _ n(1)]) simp
    then have "uint (word_of_int n :: u64) = n" using n(2) by (simp only: uint_word_of_int_eq) (simp add: take_bit_int_eq_self)
    moreover have "uint (count * BLOCK_SIZE) = int (512 * unat count)" using u(2) by (metis of_nat_unat)
    ultimately show ?thesis using n(1) by (simp only: word_less_def not_less)
  qed
  then have "ext2_get_block fsp buf lba count s = Inr (True, bytes @ drop (512 * unat count) buf,
      s\<lparr>fds := (fds s)(e2_fd e \<mapsto> d\<lparr>fpos := lba * BLOCK_SIZE\<rparr>)\<rparr>)"
    using fs d(1) rd buf lb
    by (simp add: ext2_get_block_def ext2_at_def Let_def vfs_read_def fd_at_def store_buf_def fun_upd_idem)
  then show ?thesis using d(1) by (intro that) (auto simp: bytes_def seeked_def)
qed

section \<open>The contents of a file\<close>

text \<open>
  The abstract view: a disk is a sequence of blocks of \<open>B\<close> bytes; the inode gives the numbers of the first twelve
  blocks of the file and of a block that holds the numbers of the next ones; the contents are the blocks one after
  the other, cut off at the size of the file.
\<close>

definition disk_block :: "nat \<Rightarrow> byte list \<Rightarrow> nat \<Rightarrow> byte list" where
  "disk_block B disk n = bytes_at disk (n * B) B"

definition block_pointer :: "nat \<Rightarrow> byte list \<Rightarrow> ext2_inode_t \<Rightarrow> nat \<Rightarrow> nat" where
  "block_pointer B disk inode i =
     (if i < 12 then unat (i_block inode ! i)
      else unat (le_at (disk_block B disk (unat (i_block inode ! 12))) (4 * (i - 12)) 4 :: u32))"

definition block_count :: "nat \<Rightarrow> nat \<Rightarrow> nat" where
  "block_count B n = (n + B - 1) div B"

definition file_contents :: "nat \<Rightarrow> byte list \<Rightarrow> ext2_inode_t \<Rightarrow> nat \<Rightarrow> byte list" where
  "file_contents B disk inode n =
     take n (concat (map (\<lambda>i. disk_block B disk (block_pointer B disk inode i)) [0..<block_count B n]))"

text \<open>The blocks of a file of \<open>n\<close> bytes are on the disk, and direct or behind the one indirect block.\<close>

definition file_on_disk :: "nat \<Rightarrow> byte list \<Rightarrow> ext2_inode_t \<Rightarrow> nat \<Rightarrow> bool" where
  "file_on_disk B disk inode n \<longleftrightarrow>
     length (i_block inode) = 15 \<and> n \<le> (12 + B div 4) * B \<and>
     (\<forall>i < block_count B n. block_pointer B disk inode i * B + B \<le> length disk) \<and>
     (12 < block_count B n \<longrightarrow> unat (i_block inode ! 12) * B + B \<le> length disk)"

lemma concat_blocks:
  assumes "\<forall>i < n. length (f i) = B" and "i < n"
  shows "drop (i * B) (concat (map f [0..<n])) = f i @ concat (map f [Suc i..<n])"
proof -
  have "length (concat (map f [0..<j])) = j * B" if "j \<le> n" for j
    using that by (induction j) (simp_all add: assms(1))
  then have "length (concat (map f [0..<i])) = i * B" using assms(2) by simp
  moreover have "[0..<n] = [0..<i] @ i # [Suc i..<n]"
    using assms(2) by (metis less_imp_le_nat upt_add_eq_append le_add_diff_inverse upt_conv_Cons zero_le add_0)
  ultimately show ?thesis by simp
qed

lemma block_slice:
  assumes "\<forall>i < n. length (f i) = B" and "i < n" and "j + c \<le> B"
  shows "take c (drop (i * B + j) (concat (map f [0..<n]))) = take c (drop j (f i))"
proof -
  have "drop (i * B + j) (concat (map f [0..<n])) = drop j (f i @ concat (map f [Suc i..<n]))"
    using concat_blocks [OF assms(1,2)] by (metis add.commute drop_drop)
  then show ?thesis using assms by simp
qed

lemma file_block_length:
  assumes "file_on_disk B disk inode n" and "i < block_count B n"
  shows "length (disk_block B disk (block_pointer B disk inode i)) = B"
proof -
  have "block_pointer B disk inode i * B + B \<le> length disk" using assms by (simp add: file_on_disk_def)
  then have "B \<le> length disk - block_pointer B disk inode i * B" by linarith
  then show ?thesis by (simp add: disk_block_def bytes_at_def)
qed

lemma contents_length:
  assumes "0 < B" and "file_on_disk B disk inode n"
  shows "length (file_contents B disk inode n) = n"
proof -
  have "length (concat (map (\<lambda>i. disk_block B disk (block_pointer B disk inode i)) [0..<j])) = j * B" if "j \<le> block_count B n" for j
    using that by (induction j) (simp_all add: file_block_length [OF assms(2)])
  moreover have "n \<le> block_count B n * B"
  proof -
    have "n + B - 1 < block_count B n * B + B" unfolding block_count_def
      using mod_less_divisor [OF assms(1), of "n + B - 1"] mult_div_mod_eq [of B "n + B - 1"] by (metis add_less_cancel_left mult.commute)
    then show ?thesis using assms(1) by linarith
  qed
  ultimately show ?thesis by (simp add: file_contents_def)
qed

lemma contents_slice:
  assumes "0 < B" and "file_on_disk B disk inode n" and "i * B + j + c \<le> n" and "j + c \<le> B" and "0 < c"
  shows "take c (drop (i * B + j) (file_contents B disk inode n)) =
    bytes_at (disk_block B disk (block_pointer B disk inode i)) j c"
proof -
  let ?f = "\<lambda>i. disk_block B disk (block_pointer B disk inode i)"
  have lt: "i < block_count B n"
  proof -
    have "(i + 1) * B \<le> n + B - 1" using assms(3,5) by simp
    then have "i + 1 \<le> block_count B n" using assms(1) unfolding block_count_def by (simp add: less_eq_div_iff_mult_less_eq)
    then show ?thesis by simp
  qed
  have len: "\<forall>i < block_count B n. length (?f i) = B"
    using file_block_length [OF assms(2)] by simp
  have "take c (drop (i * B + j) (take n (concat (map ?f [0..<block_count B n])))) =
      take c (drop (i * B + j) (concat (map ?f [0..<block_count B n])))"
    using assms(3) by (simp add: drop_take min_def)
  then show ?thesis using block_slice [OF len lt assms(4)] by (simp add: file_contents_def bytes_at_def)
qed

lemma block_in_range:
  assumes "0 < B" and "file_on_disk B disk inode n" and "x < n"
  shows "x div B < block_count B n" and "x div B < 12 + B div 4" and "block_pointer B disk inode (x div B) * B + B \<le> length disk"
proof -
  have "x div B + 1 \<le> block_count B n"
  proof -
    have "x div B * B \<le> x" by simp
    then have "(x div B + 1) * B \<le> n + B - 1" using assms(3) by (simp only: distrib_right mult_1)
    then show ?thesis using assms(1) unfolding block_count_def by (simp add: less_eq_div_iff_mult_less_eq)
  qed
  then show lt: "x div B < block_count B n" by simp
  have "x < (12 + B div 4) * B" using assms(2,3) by (simp add: file_on_disk_def)
  then show "x div B < 12 + B div 4" using assms(1) by (simp add: div_less_iff_less_mult)
  show "block_pointer B disk inode (x div B) * B + B \<le> length disk" using assms(2) lt by (simp add: file_on_disk_def)
qed

section \<open>Reading a file\<close>

lemma ext2_block_size:
  assumes "ext2_ok fsp e disk s"
  defines "B \<equiv> unat (e2_block_size e)"
  shows "0 < B" "B \<le> 4096" "B = 512 * unat (e2_block_size e div LBA_SIZE)" "unat (e2_block_size e div 4) = B div 4"
    "4 dvd B" "e2_block_size e \<noteq> 0"
proof -
  have "e2_block_size e = 1024 \<or> e2_block_size e = 2048 \<or> e2_block_size e = 4096" using assms(1) by (auto simp: ext2_ok_def)
  then show "0 < B" "B \<le> 4096" "B = 512 * unat (e2_block_size e div LBA_SIZE)" "unat (e2_block_size e div 4) = B div 4"
    "4 dvd B" "e2_block_size e \<noteq> 0"
    by (auto simp: B_def LBA_SIZE_def unat_div_word)
qed

text \<open>Reading block \<open>b\<close> of the disk into a buffer of one block.\<close>

lemma get_disk_block:
  assumes ok: "ext2_ok fsp e disk s" and B: "B = unat (e2_block_size e)" and lba: "512 * unat lba = b * B"
    and range: "b * B + B \<le> length disk" and buf: "length buf = B"
  obtains s' where "ext2_get_block fsp buf lba (e2_block_size e div LBA_SIZE) s = Inr (True, disk_block B disk b, s')"
    and "seeked (e2_fd e) s s'" and "length (disk_block B disk b) = B"
proof -
  note bs = ext2_block_size [OF ok, folded B]
  have len: "length (disk_block B disk b) = B" using range by (simp add: disk_block_def bytes_at_def)
  show ?thesis
    by (rule ext2_get_block_ok [OF ok, of lba "e2_block_size e div LBA_SIZE" buf])
      (use lba range buf bs(3) len in \<open>auto simp: disk_block_def intro: that\<close>)
qed

lemma lba_of_block:
  assumes ok: "ext2_ok fsp e disk s" and B: "B = unat (e2_block_size e)" and range: "unat b * B \<le> length disk"
  shows "512 * unat (b * (e2_block_size e div LBA_SIZE)) = unat b * B" and "512 * unat (b * e2_block_size e div LBA_SIZE) = unat b * B"
proof -
  note bs = ext2_block_size [OF ok, folded B]
  define k where "k = unat (e2_block_size e div LBA_SIZE)"
  have k: "B = 512 * k" using bs(3) by (simp add: k_def)
  have len: "length disk < 2 ^ 54" using ok by (simp add: ext2_ok_def)
  have lt: "unat b * B < 2 ^ 64" using range len by simp
  have "unat b * k \<le> unat b * B" by (simp add: k)
  then have "unat b * k < 2 ^ 64" using lt by (rule le_less_trans)
  note lt = lt this
  have "unat (b * (e2_block_size e div LBA_SIZE)) = unat b * k"
    using lt(2) unat_mult_lem [of b "e2_block_size e div LBA_SIZE"] by (simp add: k_def)
  then show "512 * unat (b * (e2_block_size e div LBA_SIZE)) = unat b * B" by (simp add: k)
  have "unat (b * e2_block_size e) = unat b * B"
    using lt(1) unat_mult_lem [of b "e2_block_size e"] by (simp add: B)
  then have "unat (b * e2_block_size e div LBA_SIZE) = unat b * B div 512" by (simp add: unat_div_word LBA_SIZE_def)
  also have "\<dots> = unat b * k" by (simp add: k)
  finally show "512 * unat (b * e2_block_size e div LBA_SIZE) = unat b * B" by (simp add: k)
qed

lemma get_file_block_ok:
  assumes ok: "ext2_ok fsp e disk s" and B: "B = unat (e2_block_size e)" and f: "file_on_disk B disk inode n" and x: "unat x < n"
    and buf: "length buf = B"
  obtains b buf' s' where "ext2_get_file_block fsp inode buf (x div e2_block_size e) s = Inr (b, buf', s')"
    and "unat b = block_pointer B disk inode (unat x div B)" and "length buf' = B" and "seeked (e2_fd e) s s'"
proof -
  note bs = ext2_block_size [OF ok, folded B]
  note r = block_in_range [OF bs(1) f x]
  have fs: "ext2s s fsp = Some e" using ok by (simp add: ext2_ok_def)
  have len: "length (i_block inode) = 15" using f by (simp add: file_on_disk_def)
  define i where "i = x div e2_block_size e"
  have i: "unat i = unat x div B" by (simp add: i_def unat_div_word B)
  show ?thesis
  proof (cases "unat x div B < 12")
    case True
    then have "i < 12" using i by (simp add: word_less_nat_alt)
    then have "ext2_get_file_block fsp inode buf i s = Inr (ucast (i_block inode ! unat i), buf, s)"
      using fs len True i by (simp add: ext2_get_file_block_def ext2_at_def)
    then show ?thesis
      using True buf ext2_ok_refl [OF ok] i by (intro that [of "ucast (i_block inode ! unat i)" buf s]) (simp_all add: block_pointer_def unat_ucast_u32 i_def)
  next
    case False
    let ?b = "i_block inode ! 12"
    have ind: "unat ?b * B + B \<le> length disk" using f r(1) False by (simp add: file_on_disk_def)
    have i12: "\<not> i < 12" using False i by (simp add: word_less_nat_alt)
    have "unat (12 + e2_block_size e div 4) = 12 + B div 4" using bs(2,4) by (subst unat_add_no_wrap) simp_all
    then have ilt: "i < 12 + e2_block_size e div 4" using r(2) i by (simp add: word_less_nat_alt)
    have sub: "unat (i - 12) = unat x div B - 12" using False i by (simp add: unat_sub word_le_nat_alt)
    have in_buf: "4 * (unat x div B - 12) + 4 \<le> B" using r(2) False bs(5) by (auto elim!: dvdE)
    have lba: "512 * unat (ucast ?b * (e2_block_size e div LBA_SIZE)) = unat ?b * B"
      using lba_of_block(1) [OF ok B, of "ucast ?b"] ind by (simp add: unat_ucast_u32)
    show ?thesis
    proof (rule get_disk_block [OF ok B lba ind buf])
      fix s'
      let ?buf = "disk_block B disk (unat ?b)" and ?p = "ucast (le_at (disk_block B disk (unat ?b)) (4 * (unat x div B - 12)) 4 :: u32) :: u64"
      assume g: "ext2_get_block fsp buf (ucast ?b * (e2_block_size e div LBA_SIZE)) (e2_block_size e div LBA_SIZE) s = Inr (True, ?buf, s')"
        "seeked (e2_fd e) s s'" "length ?buf = B"
      then have "ext2_get_file_block fsp inode buf i s = Inr (?p, ?buf, s')"
        using fs len i12 ilt sub in_buf by (simp add: ext2_get_file_block_def ext2_at_def Let_def)
      then show thesis
        using g False by (intro that [of ?p ?buf s']) (simp_all add: block_pointer_def unat_ucast_u32 i_def)
    qed
  qed
qed

lemma take_take_drop: "take a (drop k xs) @ take b (drop (k + a) xs) = take (a + b) (drop k xs)"
  by (simp add: take_add add.commute)

lemma read_step_sizes:
  fixes bs len b off :: u64
  assumes B: "B = unat bs" "0 < B" "B \<le> 4096" and len: "unat off + unat len < 2 ^ 63" and b: "unat b < unat len"
    and al: "b = 0 \<or> (unat off + unat b) mod B = 0"
  defines "bb \<equiv> (if b = 0 then off mod bs else 0)"
  defines "cpy \<equiv> (if b + (bs - bb) > len then bs - bb - (b + (bs - bb) - len) else bs - bb)"
  shows "unat bb = (unat off + unat b) mod B" and "unat cpy = min (B - unat bb) (unat len - unat b)"
    and "unat (b + cpy) = unat b + unat cpy" and "unat (off + b) = unat off + unat b"
proof -
  show bb: "unat bb = (unat off + unat b) mod B" using al by (auto simp: bb_def unat_mod_distrib B(1))
  then have lt: "unat bb < B" using B(2) by simp
  have r: "unat (bs - bb) = B - unat bb" using lt by (subst unat_sub) (simp_all add: word_le_nat_alt B(1))
  have s: "unat (b + (bs - bb)) = unat b + (B - unat bb)" using r len b B(3) by (subst unat_add_no_wrap) simp_all
  show cpy: "unat cpy = min (B - unat bb) (unat len - unat b)"
  proof (cases "b + (bs - bb) > len")
    case True
    then have gt: "unat len < unat b + (B - unat bb)" using s by (simp add: word_less_nat_alt)
    have t: "unat (b + (bs - bb) - len) = unat b + (B - unat bb) - unat len"
      using True s by (subst unat_sub) (simp_all add: word_less_nat_alt word_le_nat_alt)
    have "unat (bs - bb - (b + (bs - bb) - len)) = (B - unat bb) - (unat b + (B - unat bb) - unat len)"
      using t r b gt by (subst unat_sub) (simp_all add: word_le_nat_alt)
    then show ?thesis using True gt b by (simp add: cpy_def)
  next
    case False
    then show ?thesis using s r by (simp add: cpy_def word_less_nat_alt)
  qed
  show "unat (b + cpy) = unat b + unat cpy" using cpy len b by (intro unat_add_no_wrap) simp
  show "unat (off + b) = unat off + unat b" using len b by (intro unat_add_no_wrap) simp
qed

lemma read_loop_ok:
  assumes f: "file_on_disk B disk inode n" and B: "B = unat (e2_block_size e)" and len: "unat off + unat len \<le> n" "n < 2 ^ 32"
  shows "\<lbrakk>ext2_ok fsp e disk s; inodes s ip = Some inode; unat b \<le> unat len;
      b = 0 \<or> (unat off + unat b) mod B = 0 \<or> b = len; length buf = B; unat len - unat b < fuel\<rbrakk> \<Longrightarrow>
    \<exists>s'. ext2_read_loop fuel fsp ip len off b buf out s =
        Inr (SUCCESS, len, out @ take (unat len - unat b) (drop (unat off + unat b) (file_contents B disk inode n)), s') \<and>
      seeked (e2_fd e) s s'"
proof (induction fuel arbitrary: b buf out s)
  case 0
  then show ?case by simp
next
  case (Suc k)
  note ok = Suc.prems(1)
  note bs = ext2_block_size [OF ok, folded B]
  show ?case
  proof (cases "b < len")
    case False
    then have "unat b = unat len" using Suc.prems(3) by (simp add: word_less_nat_alt)
    then have "b = len" by (simp only: unsigned_word_eqI)
    then show ?thesis using ext2_ok_refl [OF ok] by auto
  next
    case True
    then have lt: "unat b < unat len" by (simp add: word_less_nat_alt)
    have al: "b = 0 \<or> (unat off + unat b) mod B = 0" using Suc.prems(4) True by auto
    let ?bs = "e2_block_size e" and ?x = "unat off + unat b"
    define bb where "bb = (if b = 0 then off mod ?bs else 0)"
    define cpy where "cpy = (if b + (?bs - bb) > len then ?bs - bb - (b + (?bs - bb) - len) else ?bs - bb)"
    have small: "unat off + unat len < 2 ^ 63" using len by simp
    note sz = read_step_sizes [OF B bs(1,2) small lt al, folded bb_def, folded cpy_def]
    have x: "unat (off + b) < n" using sz(4) lt len(1) by simp
    obtain blk buf1 s1 where g: "ext2_get_file_block fsp inode buf ((off + b) div ?bs) s = Inr (blk, buf1, s1)"
      "unat blk = block_pointer B disk inode (?x div B)" "length buf1 = B" "seeked (e2_fd e) s s1"
      using get_file_block_ok [OF ok B f x Suc.prems(5)] unfolding sz(4) by metis
    have ok1: "ext2_ok fsp e disk s1" by (rule ext2_ok_seeked [OF ok g(4)])
    have rng: "unat blk * B + B \<le> length disk" using block_in_range(3) [OF bs(1) f x] by (simp add: g(2) sz(4))
    note lba = lba_of_block(2) [OF ok1 B add_leD1 [OF rng]]
    obtain s2 where g2: "ext2_get_block fsp buf1 (blk * ?bs div LBA_SIZE) (?bs div LBA_SIZE) s1 = Inr (True, disk_block B disk (unat blk), s2)"
      "seeked (e2_fd e) s1 s2" "length (disk_block B disk (unat blk)) = B"
      by (rule get_disk_block [OF ok1 B lba rng g(3)])
    have sk: "seeked (e2_fd e) s s2" by (rule seeked_trans [OF g(4) g2(2)])
    have ok2: "ext2_ok fsp e disk s2" by (rule ext2_ok_seeked [OF ok1 g2(2)])
    have ino: "inodes s2 ip = Some inode" using sk Suc.prems(2) by (auto simp: seeked_def)
    have bbB: "unat bb < B" using sz(1) bs(1) by simp
    have cpos: "0 < unat cpy" "unat bb + unat cpy \<le> B" "unat b + unat cpy \<le> unat len" using sz(2) bbB lt by linarith+
    have dm: "?x div B * B + unat bb = ?x" using sz(1) by simp
    have bytes: "bytes_at (disk_block B disk (unat blk)) (unat bb) (unat cpy) = take (unat cpy) (drop ?x (file_contents B disk inode n))"
      using contents_slice [OF bs(1) f, of "?x div B" "unat bb" "unat cpy"] cpos len(1) unfolding dm by (simp add: g(2))
    have fs: "ext2s s fsp = Some e" using ok by (simp add: ext2_ok_def)
    let ?out = "out @ take (unat cpy) (drop ?x (file_contents B disk inode n))"
    have step: "ext2_read_loop (Suc k) fsp ip len off b buf out s =
        ext2_read_loop k fsp ip len off (b + cpy) (disk_block B disk (unat blk)) ?out s2"
      by (simp only: ext2_read_loop.simps(2) ext2_at_def fs option.case rbind_Inr div_r_def bs(6) inode_at_def Suc.prems(2)
          g(1) prod.case g2(1) Let_def True not_True_eq_False if_False flip: bb_def,
        simp only: flip: cpy_def, use cpos(2) in \<open>simp add: g2(3) bytes\<close>)
    have al': "b + cpy = 0 \<or> (unat off + unat (b + cpy)) mod B = 0 \<or> b + cpy = len"
    proof (cases "unat cpy = B - unat bb")
      case True
      then have "unat off + unat (b + cpy) = (?x div B + 1) * B" using sz(3) dm bbB by simp
      then show ?thesis by simp
    next
      case False
      then have "unat (b + cpy) = unat len" using sz(2,3) lt by (simp add: min_def split: if_splits)
      then show ?thesis by (simp only: unsigned_word_eqI simp_thms)
    qed
    have "unat len - unat (b + cpy) < k" using Suc.prems(6) cpos(1) lt sz(3) by simp
    from Suc.IH [OF ok2 ino _ al' g2(3) this, of ?out] obtain s' where
      "ext2_read_loop k fsp ip len off (b + cpy) (disk_block B disk (unat blk)) ?out s2 =
        Inr (SUCCESS, len, ?out @ take (unat len - unat (b + cpy)) (drop (unat off + unat (b + cpy)) (file_contents B disk inode n)), s')"
      "seeked (e2_fd e) s2 s'" using cpos(3) sz(3) by auto
    moreover have "?out @ take (unat len - unat (b + cpy)) (drop (unat off + unat (b + cpy)) (file_contents B disk inode n)) =
        out @ take (unat len - unat b) (drop ?x (file_contents B disk inode n))"
      using cpos(3) unfolding sz(3) by (simp add: add.assoc [symmetric] take_take_drop)
    ultimately show ?thesis using step seeked_trans [OF sk] by auto
  qed
qed

lemma hstate_more_ext2:
  assumes "hstate.more s' = hstate.more s"
  shows "ext2s s' = ext2s s" "gd_tables s' = gd_tables s" "inodes s' = inodes s" "my_fsinfo s' = my_fsinfo s"
  using assms by (cases s; cases s'; simp add: estate.defs)+

lemma heap_fds [simp]: "heap_inv (s\<lparr>fds := x\<rparr>) = heap_inv s" "heap_live (s\<lparr>fds := x\<rparr>) = heap_live s"
    "heap_budget (s\<lparr>fds := x\<rparr>) = heap_budget s" for s :: "'a fstate_scheme"
  by (simp_all add: heap_unfold)

text \<open>What reading leaves alone: everything but the heap, which has the same live allocations, and the position in the disk.\<close>

definition read_frame :: "u64 \<Rightarrow> 'a estate_scheme \<Rightarrow> 'a estate_scheme \<Rightarrow> bool" where
  "read_frame fd s s' \<longleftrightarrow> heap_inv s' \<and> heap_live s' = heap_live s \<and> current_task s' = current_task s \<and>
     ext2s s' = ext2s s \<and> gd_tables s' = gd_tables s \<and> inodes s' = inodes s \<and> files s' = files s \<and> dirs s' = dirs s \<and>
     direntries s' = direntries s \<and> (\<exists>d x. fds s fd = Some d \<and> fds s' = (fds s)(fd \<mapsto> d\<lparr>fpos := x\<rparr>))"

lemma ext2_ok_frame: "ext2_ok fsp e disk s \<Longrightarrow> read_frame (e2_fd e) s s' \<Longrightarrow> ext2_ok fsp e disk s'"
  by (auto simp: ext2_ok_def read_frame_def)

lemma ext2_ok_more:
  assumes "ext2_ok fsp e disk s" and "hstate.more s' = hstate.more s"
  shows "ext2_ok fsp e disk s'"
  using assms(1) hstate_more_ext2 [OF assms(2)] hstate_more_files [OF assms(2)] by (simp add: ext2_ok_def)

lemma ext2_read_ok:
  assumes ok: "ext2_ok fsp e disk s" and heap: "heap_inv s" "heap_budget s (2 + k)"
    and f: "files s fp = Some f" "file_driver1 f = fsp" "inodes s (file_driver2 f) = Some inode"
    and on: "file_on_disk (unat (e2_block_size e)) disk inode n" "n = unat (file_length f)" "n < 2 ^ 32"
    and off: "unat off \<le> n" "unat off + unat len < 2 ^ 64"
  obtains s' where "ext2_read junk fp len off s =
      (let bytes = take (unat len) (drop (unat off) (file_contents (unat (e2_block_size e)) disk inode n))
       in Inr (int (length bytes), bytes, s'))"
    and "read_frame (e2_fd e) s s'" and "heap_budget s' k"
proof -
  define B where "B = unat (e2_block_size e)"
  note bs = ext2_block_size [OF ok, folded B_def]
  define m where "m = (if off + len > file_length f then file_length f - off else len)"
  have sum: "unat (off + len) = unat off + unat len" using off(2) by (intro unat_add_no_wrap) simp
  have m: "unat m = min (unat len) (n - unat off)"
    using sum off(1) on(2) by (auto simp: m_def word_less_nat_alt unat_sub word_le_nat_alt)
  let ?c = "file_contents B disk inode n"
  have lc: "length ?c = n" by (rule contents_length [OF bs(1) on(1) [folded B_def]])
  have bytes: "take (unat m) (drop (unat off) ?c) = take (unat len) (drop (unat off) ?c)" (is "?b = _")
    using lc by (simp add: m min_def)
  have lb: "length ?b = unat m" using lc off(1) m by simp
  have fs: "ext2s s fsp = Some e" using ok by (simp add: ext2_ok_def)
  show ?thesis
  proof (rule kmalloc_units [OF heap, of "e2_block_size e" 296 0], goal_cases)
    case 1
    show ?case using bs(2) by (simp add: B_def)
  next
    case (2 p s1 l)
    note A = this
    note more = hstate_more_ext2 [OF A(8)] hstate_more_files [OF A(8)]
    have ok1: "ext2_ok fsp e disk s1" by (rule ext2_ok_more [OF ok A(8)])
    have ino: "inodes s1 (file_driver2 f) = Some inode" using f(3) more by simp
    have le: "unat off + unat m \<le> n" using m off(1) by simp
    have buf: "length (buffer junk (unat (e2_block_size e)) []) = B" by (simp add: buffer_def B_def)
    have "unat m - unat (0 :: u64) < address_fuel" using unat_lt_2p64 [of m] by simp
    from read_loop_ok [OF on(1) [folded B_def] B_def le on(3) ok1 ino _ _ buf this, of "[]"]
    obtain s2 where s2: "ext2_read_loop address_fuel fsp (file_driver2 f) m off 0 (buffer junk (unat (e2_block_size e)) []) [] s1 = Inr (SUCCESS, m, ?b, s2)"
      "seeked (e2_fd e) s1 s2" by auto
    have h2: "heap_inv s2" "(unat p, l) \<in> heap_live s2" "heap_live s2 = insert (unat p, l) (heap_live s)" "heap_budget s2 k"
      using s2(2) A(2,6,9) by (auto simp: seeked_def)
    show ?case
    proof (rule kfree_ok [OF h2(1,2)], goal_cases)
      case (1 s3)
      note more3 = hstate_more_ext2 [OF 1(8)] hstate_more_files [OF 1(8)]
      have "unat m < 2 ^ 63" using m on(3) by simp
      then have "sint m = int (length ?b)" using sint_small [of m] by (simp only: lb)
      then have run: "ext2_read junk fp len off s = Inr (int (length ?b), ?b, s3)"
        using f fs A(1) s2(1) 1(1) by (simp add: ext2_read_def file_at_def ext2_at_def Let_def flip: m_def)
      have "heap_live s3 = heap_live s" using 1(3) h2(3) A(5) by auto
      then have "read_frame (e2_fd e) s s3"
        using 1(2,7) s2(2) more more3 A(7) by (auto simp: read_frame_def seeked_def)
      moreover have "heap_budget s3 k" by (rule heap_budget_mono [OF h2(4) 1(10) 1(4)]) simp
      ultimately show ?case using run unfolding bytes by (intro that [of s3]) (simp_all add: Let_def flip: B_def)
    qed
  qed
qed

section \<open>Fetching an inode\<close>

lemma inode_of_prefix: "inode_of (take 128 b) = inode_of b"
  by (simp add: inode_of_def le_at_def bytes_at_def drop_take min_def)

lemma inode_of_sector:
  assumes "128 * j + 128 \<le> 512"
  shows "inode_of (drop (128 * j) (bytes_at disk x 512)) = inode_of (drop (x + 128 * j) disk)"
proof -
  have "take 128 (drop (128 * j) (bytes_at disk x 512)) = take 128 (drop (x + 128 * j) disk)"
    using assms by (simp add: bytes_at_def drop_take min_def add.commute)
  then show ?thesis by (metis inode_of_prefix)
qed

lemma unat_ucast_u16: "unat (ucast (x :: u16) :: u64) = unat x"
proof -
  have "unat x < 2 ^ 16" using unsigned_less [of x] by simp
  then have "take_bit 64 (unat x) = unat x" by (intro take_bit_nat_eq_self) simp
  then show ?thesis by (simp add: unsigned_ucast_eq)
qed

text \<open>
  The position from which \<^verbatim>\<open>fetch_inode\<close> takes an inode, and the position of the inode in the table. The sector is found
  with the size of the inodes of the file system, the place in the sector with the size of \<^verbatim>\<open>ext2_inode_t\<close>.
\<close>

definition inode_sz :: "ext2_superblock_t \<Rightarrow> nat" where
  "inode_sz sb = (if major_version sb < 1 then 128 else unat (inode_size sb))"

definition fetched_at :: "ext2fs_t \<Rightarrow> nat \<Rightarrow> nat \<Rightarrow> nat" where
  "fetched_at e table ino =
     (let k = (ino - 1) mod unat (inodes_per_group (e2_sb e)); ips = 512 div inode_sz (e2_sb e)
      in table * unat (e2_block_size e) + 512 * (k div ips) + 128 * (k mod ips))"

definition inode_position :: "ext2fs_t \<Rightarrow> nat \<Rightarrow> nat \<Rightarrow> nat" where
  "inode_position e table ino =
     table * unat (e2_block_size e) + (ino - 1) mod unat (inodes_per_group (e2_sb e)) * inode_sz (e2_sb e)"

lemma fetched_at_correct:
  assumes "inode_sz (e2_sb e) = 128"
  shows "fetched_at e table ino = inode_position e table ino"
proof -
  have "512 * (k div 4) + 128 * (k mod 4) = k * 128" for k :: nat
    using mult_div_mod_eq [of 4 k] by linarith
  then show ?thesis using assms by (simp add: fetched_at_def inode_position_def Let_def add.assoc)
qed

lemma fetched_at_wrong:
  assumes "inode_sz (e2_sb e) \<in> {256, 512}"
    and "(ino - 1) mod unat (inodes_per_group (e2_sb e)) mod (512 div inode_sz (e2_sb e)) \<noteq> 0"
  shows "fetched_at e table ino < inode_position e table ino"
proof -
  define k where "k = (ino - 1) mod unat (inodes_per_group (e2_sb e))"
  have sz: "inode_sz (e2_sb e) = 256" using assms by auto
  then have "0 < k mod 2" using assms(2) unfolding k_def [symmetric] by simp
  then have "512 * (k div 2) + 128 * (k mod 2) < k * 256" using mult_div_mod_eq [of 2 k] by linarith
  then show ?thesis unfolding fetched_at_def inode_position_def Let_def k_def [symmetric] sz by simp
qed

lemma fetch_inode_ok:
  assumes ok: "ext2_ok fsp e disk s" and heap: "heap_inv s" "heap_budget s (Suc n)"
    and held: "mtx_magic (e2_fs_lock e) = MUTEX_MAGIC" "held_by (e2_fs_lock e) = current_task s"
    and ino: "1 \<le> unat inode_no" "unat inode_no \<le> unat (total_inodes (e2_sb e))"
    and sz: "inode_sz (e2_sb e) \<in> {128, 256, 512}" and ipg: "512 div inode_sz (e2_sb e) dvd unat (inodes_per_group (e2_sb e))" "inodes_per_group (e2_sb e) \<noteq> 0"
    and tab: "gd_tables s (e2_group_descriptors e) = Some gdt" "g = (unat inode_no - 1) div unat (inodes_per_group (e2_sb e))"
      "32 * g + 32 \<le> length gdt" "table = unat (bg_inode_table (gd_of (drop (32 * g) gdt)))"
    and range: "table * unat (e2_block_size e) + 512 * ((unat inode_no - 1) mod unat (inodes_per_group (e2_sb e)) div (512 div inode_sz (e2_sb e))) + 512 \<le> length disk"
  obtains s' where "fetch_inode junk fsp inode_no s = Inr (SUCCESS, Some (inode_of (drop (fetched_at e table (unat inode_no)) disk)), s')"
    and "read_frame (e2_fd e) s s'" and "heap_budget s' n"
proof -
  let ?sb = "e2_sb e" and ?B = "unat (e2_block_size e)"
  define ipg where "ipg = unat (inodes_per_group ?sb)"
  define ips where "ips = 512 div inode_sz ?sb"
  define k where "k = (unat inode_no - 1) mod ipg"
  have fs: "ext2s s fsp = Some e" and len: "length disk < 2 ^ 54" using ok by (simp_all add: ext2_ok_def)
  have ipg0: "0 < ipg" using ipg(2) by (simp add: ipg_def unat_gt_0)
  have ips: "ips \<in> {1, 2, 4}" "ips dvd ipg" using sz ipg(1) by (auto simp: ips_def ipg_def)
  have u1: "unat (inode_no - 1) = unat inode_no - 1" using ino(1) by (simp add: unat_sub word_le_nat_alt)
  define isz where "isz = (if major_version ?sb < 1 then 128 else ucast (inode_size ?sb) :: u64)"
  have isz: "unat isz = inode_sz ?sb" by (simp add: isz_def inode_sz_def unat_ucast_u16)
  have ipsw: "unat (LBA_SIZE div isz) = ips" by (simp add: unat_div_word LBA_SIZE_def isz ips_def)
  have nz: "(ucast (inodes_per_group ?sb) :: u64) \<noteq> 0" "isz \<noteq> 0" "LBA_SIZE div isz \<noteq> 0"
    using ipg0 sz isz ipsw ips(1) unat_ucast_u32 [of "inodes_per_group ?sb"] by (auto simp: ipg_def unat_eq_zero)
  have tot: "(ucast (total_inodes ?sb) < inode_no) = False"
    using ino(2) by (simp add: word_less_nat_alt unat_ucast_u32)
  define grp where "grp = (inode_no - 1) div ucast (inodes_per_group ?sb)"
  have grp: "unat grp = g" by (simp add: grp_def unat_div_word u1 unat_ucast_u32 tab(2))
  define lo where "lo = (inode_no - 1) mod ucast (inodes_per_group ?sb) div (LBA_SIZE div isz)"
  have lo: "unat lo = k div ips" by (simp add: lo_def unat_div_word unat_mod_distrib u1 unat_ucast_u32 k_def ipg_def flip: ipsw)
  define gd where "gd = gd_of (drop (32 * g) gdt)"
  have gdat: "gd_at (e2_group_descriptors e) grp s = Inr gd" using tab(1,3) grp by (simp add: gd_at_def gd_def)
  have rng: "table * ?B + 512 * (k div ips) + 512 \<le> length disk" using range by (simp add: k_def ipg_def ips_def)
  define lba where "lba = lo + (ucast (bg_inode_table gd) * e2_block_size e div LBA_SIZE)"
  have table: "unat (ucast (bg_inode_table gd) :: u64) = table" by (simp add: unat_ucast_u32 gd_def tab(4))
  have "table * ?B \<le> length disk" using rng by linarith
  then have tB: "512 * unat (ucast (bg_inode_table gd) * e2_block_size e div LBA_SIZE) = table * ?B"
    using lba_of_block(2) [OF ok refl, of "ucast (bg_inode_table gd)"] unfolding table by blast
  have lba: "512 * unat lba = table * ?B + 512 * (k div ips)"
  proof -
    have "unat lba = k div ips + unat (ucast (bg_inode_table gd) * e2_block_size e div LBA_SIZE)"
      unfolding lba_def using tB rng len lo by (subst unat_add_no_wrap) simp_all
    then show ?thesis using tB by simp
  qed
  define idx where "idx = (inode_no - 1) mod (LBA_SIZE div isz)"
  have "unat idx = (unat inode_no - 1) mod ips" by (simp add: idx_def unat_mod_distrib u1 ipsw)
  also have "\<dots> = k mod ips" using ips(2) by (simp add: k_def mod_mod_cancel)
  finally have idx: "unat idx = k mod ips" .
  have ib: "128 * (k mod ips) + 128 \<le> 512" using ips(1) by auto
  show ?thesis
  proof (rule kmalloc_small [OF heap, of LBA_SIZE 240 0], simp add: LBA_SIZE_def, goal_cases)
    case (1 p s1 l)
    note A = this
    have ok1: "ext2_ok fsp e disk s1" by (rule ext2_ok_more [OF ok A(8)])
    have "512 * unat lba + 512 * unat (1 :: u64) \<le> length disk" using lba rng by simp
    moreover have "512 * unat (1 :: u64) \<le> length (buffer junk 512 [])" by (simp add: buffer_def)
    ultimately obtain s2 where s2: "ext2_get_block fsp (buffer junk 512 []) lba 1 s1 =
        Inr (True, bytes_at disk (512 * unat lba) 512 @ drop 512 (buffer junk 512 []), s2)" "seeked (e2_fd e) s1 s2"
      using ext2_get_block_ok [OF ok1, of lba 1 "buffer junk 512 []"] by (metis mult.right_neutral unat_1)
    have buf: "bytes_at disk (512 * unat lba) 512 @ drop 512 (buffer junk 512 []) = bytes_at disk (512 * unat lba) 512"
      by (simp add: buffer_def)
    have lb: "length (bytes_at disk (512 * unat lba) 512) = 512" using lba rng by (simp add: bytes_at_def)
    have ino': "inode_of (drop (128 * unat idx) (bytes_at disk (512 * unat lba) 512)) = inode_of (drop (fetched_at e table (unat inode_no)) disk)"
      unfolding idx using inode_of_sector [OF ib, of disk "512 * unat lba"] lba
      by (simp add: fetched_at_def Let_def k_def ipg_def ips_def)
    have h2: "heap_inv s2" "(unat p, l) \<in> heap_live s2" "heap_live s2 = insert (unat p, l) (heap_live s)" "heap_budget s2 n"
      using s2(2) A(2,6,9) by (auto simp: seeked_def)
    show ?case
    proof (rule kfree_ok [OF h2(1,2)], goal_cases)
      case (1 s3)
      note B = this
      have run: "fetch_inode junk fsp inode_no s = Inr (SUCCESS, Some (inode_of (drop (fetched_at e table (unat inode_no)) disk)), s3)"
        by (simp only: fetch_inode_def ext2_at_def fs option.case rbind_Inr mutex_held_def mutex_check_magic_def held simp_thms
            kassert_True Let_def tot if_False div_r_def nz mod_r_def gdat A(1) prod.case s2(1) [unfolded buf] lb
            flip: isz_def grp_def lo_def lba_def idx_def)
          (use ib B(1) ino' in \<open>simp add: idx\<close>)
      have "heap_live s3 = heap_live s" using B(3) h2(3) A(5) by auto
      moreover note hstate_more_ext2 [OF A(8)] hstate_more_files [OF A(8)] hstate_more_ext2 [OF B(8)] hstate_more_files [OF B(8)]
      ultimately have "read_frame (e2_fd e) s s3"
        using B(2,7) s2(2) A(7) by (auto simp: read_frame_def seeked_def)
      moreover have "heap_budget s3 n" by (rule heap_budget_mono [OF h2(4) B(10) B(4)]) simp
      ultimately show ?case using run by (intro that)
    qed
  qed
qed

section \<open>Directories\<close>

text \<open>Numbers as bytes, the least significant byte first, and the layout of the entries of a directory.\<close>

primrec to_le :: "nat \<Rightarrow> nat \<Rightarrow> byte list" where
  "to_le 0 x = []"
| "to_le (Suc n) x = of_nat x # to_le n (x div 256)"

lemma length_to_le [simp]: "length (to_le n x) = n"
  by (induction n arbitrary: x) simp_all

lemma le_nat_to_le: "x < 256 ^ n \<Longrightarrow> le_nat (to_le n x) = x"
proof (induction n arbitrary: x)
  case (Suc n)
  have "x div 256 < 256 ^ n" using Suc.prems by (simp add: less_mult_imp_div_less mult.commute)
  moreover have "unat (of_nat x :: byte) = x mod 256" by (simp add: unat_of_nat take_bit_eq_mod)
  ultimately show ?case using Suc.IH by simp
qed simp

datatype dir_item = Dir_Item (item_ino: u32) (item_name: "byte list") (item_type: u8) (item_pad: "byte list")

definition item_size :: "dir_item \<Rightarrow> nat" where
  "item_size i = 8 + length (item_name i) + length (item_pad i)"

definition encode_item :: "dir_item \<Rightarrow> byte list" where
  "encode_item i = to_le 4 (unat (item_ino i)) @ to_le 2 (item_size i) @ to_le 1 (length (item_name i)) @
     [item_type i] @ item_name i @ item_pad i"

definition encode_dir :: "dir_item list \<Rightarrow> byte list" where
  "encode_dir is = concat (map encode_item is)"

definition item_ok :: "dir_item \<Rightarrow> bool" where
  "item_ok i \<longleftrightarrow> length (item_name i) < 256 \<and> 0 \<notin> set (item_name i) \<and> item_size i < 65536"

lemma length_encode_item [simp]: "length (encode_item i) = item_size i"
  by (simp add: encode_item_def item_size_def)

lemma dentry_of_encode:
  assumes "item_ok i"
  shows "dentry_of (encode_item i @ rest) =
    \<lparr>dent_inode = item_ino i, dent_size = of_nat (item_size i), dent_name_length = of_nat (length (item_name i)), dent_type = item_type i\<rparr>"
proof -
  have i: "unat (item_ino i) < 256 ^ 4" using unsigned_less [of "item_ino i"] by simp
  have f: "le_nat (to_le 4 (unat (item_ino i))) = unat (item_ino i)" "le_nat (to_le 2 (item_size i)) = item_size i"
    "le_nat (to_le 1 (length (item_name i))) = length (item_name i)"
    using assms i by (auto simp: item_ok_def intro!: le_nat_to_le simp del: to_le.simps)
  have s: "take 2 (drop 4 (encode_item i @ rest)) = to_le 2 (item_size i)" "take 4 (encode_item i @ rest) = to_le 4 (unat (item_ino i))"
    "take 1 (drop 6 (encode_item i @ rest)) = to_le 1 (length (item_name i))" "take 1 (drop 7 (encode_item i @ rest)) = [item_type i]"
    by (simp_all add: encode_item_def)
  show ?thesis unfolding dentry_of_def le_at_def drop_0 s f by simp
qed

lemma drop_encode: "drop 8 (encode_item i @ rest) = item_name i @ item_pad i @ rest"
  by (simp add: encode_item_def)

lemma entry_name_clean: "0 \<notin> set name \<Longrightarrow> entry_name raw (name @ rest) (length name) = chars name"
proof -
  assume "0 \<notin> set name"
  then have "\<forall>b \<in> set name. b \<noteq> 0" by metis
  then show ?thesis by (simp add: entry_name_def Let_def takeWhile_eq_all_conv [THEN iffD2])
qed

text \<open>
  What fetching a directory may change: it adds directory entries, on the heap. The invariant says that the entries
  there are live allocations or static.
\<close>

definition entries_placed :: "'a fstate_scheme \<Rightarrow> bool" where
  "entries_placed s \<longleftrightarrow> (\<forall>p \<in> dom (direntries s). bd_placed s p)"

definition entries_frame :: "'a estate_scheme \<Rightarrow> 'a estate_scheme \<Rightarrow> bool" where
  "entries_frame s s' \<longleftrightarrow> heap_inv s' \<and> heap_live s \<subseteq> heap_live s' \<and> current_task s' = current_task s \<and>
     ext2s s' = ext2s s \<and> gd_tables s' = gd_tables s \<and> inodes s' = inodes s \<and> files s' = files s \<and> dirs s' = dirs s \<and>
     fds s' = fds s \<and> direntries s \<subseteq>\<^sub>m direntries s'"

lemma entries_frame_refl: "heap_inv s \<Longrightarrow> entries_frame s s"
  by (simp add: entries_frame_def)

lemma entries_frame_trans: "entries_frame s s' \<Longrightarrow> entries_frame s' s'' \<Longrightarrow> entries_frame s s''"
  by (auto simp: entries_frame_def intro: map_le_trans)

definition item_entry :: "dir_item \<Rightarrow> direntry_t" where
  "item_entry i = \<lparr>de_name = chars (item_name i), de_inode = ucast (item_ino i), de_file = NULL\<rparr>"

abbreviation used_items :: "dir_item list \<Rightarrow> dir_item list" where
  "used_items is \<equiv> filter (\<lambda>i. item_ino i \<noteq> 0) is"

lemma heap_direntries [simp]: "heap_inv (s\<lparr>direntries := x\<rparr>) = heap_inv s" "heap_live (s\<lparr>direntries := x\<rparr>) = heap_live s"
    "heap_budget (s\<lparr>direntries := x\<rparr>) = heap_budget s" for s :: "'a fstate_scheme"
  by (simp_all add: heap_unfold)

lemma fetch_entries_ok:
  assumes "\<forall>i \<in> set is. item_ok i" and "buf = pre @ encode_dir is" and "unat len = length buf" and "length buf < 2 ^ 63"
    and "unat index = length pre" and "heap_inv s" and "heap_budget s (length (used_items is) + k)" and "entries_placed s"
    and "length is < fuel"
  shows "\<exists>ps s'. fetch_entries fuel raw buf len index es s = Inr (es @ ps, s') \<and> entries_frame s s' \<and> heap_budget s' k \<and>
    entries_placed s' \<and> list_all2 (\<lambda>p i. direntries s' p = Some (item_entry i)) ps (used_items is) \<and>
    (\<forall>p \<in> set ps. p \<noteq> NULL) \<and>
    (\<forall>q l. (unat q, l) \<in> heap_live s \<longrightarrow> q \<notin> dom (direntries s) \<longrightarrow> q \<notin> dom (direntries s'))"
  using assms
proof (induction "is" arbitrary: pre index s fuel es)
  case Nil
  then obtain n where "fuel = Suc n" by (cases fuel) auto
  moreover have "\<not> index < len" using Nil.prems by (simp add: word_less_nat_alt encode_dir_def)
  ultimately show ?case using Nil.prems by (simp add: entries_frame_refl)
next
  case (Cons i "is")
  then obtain n where n: "fuel = Suc n" "length is < n" by (cases fuel) auto
  have ok: "item_ok i" using Cons.prems(1) by simp
  let ?pre = "pre @ encode_item i"
  have buf: "buf = ?pre @ encode_dir is" using Cons.prems(2) by (simp add: encode_dir_def)
  have sz: "8 \<le> item_size i" "item_size i < 65536" using ok by (simp_all add: item_size_def item_ok_def)
  have lt: "index < len" using Cons.prems(3,5) buf sz by (simp add: word_less_nat_alt)
  have dr: "drop (unat index) buf = encode_item i @ encode_dir is" using Cons.prems(5) buf by simp
  have dent: "dentry_of (drop (unat index) buf) = \<lparr>dent_inode = item_ino i, dent_size = of_nat (item_size i),
      dent_name_length = of_nat (length (item_name i)), dent_type = item_type i\<rparr>"
    unfolding dr by (rule dentry_of_encode [OF ok])
  have szw: "unat (ucast (of_nat (item_size i) :: u16) :: u64) = item_size i"
    using sz(2) by (simp add: unat_ucast_u16 unat_of_nat take_bit_nat_eq_self)
  have idx: "unat (index + ucast (of_nat (item_size i) :: u16)) = length ?pre"
    using Cons.prems(3-5) buf szw by (subst unat_add_no_wrap) simp_all
  have nm: "length buf \<ge> unat index + 8 + length (item_name i)" "drop (unat index + 8) buf = item_name i @ item_pad i @ encode_dir is"
    using buf Cons.prems(5) drop_encode [of i "encode_dir is"] dr by (simp_all add: item_size_def)
  have nl: "unat (of_nat (length (item_name i)) :: u8) = length (item_name i)"
    using ok by (simp add: item_ok_def unat_of_nat take_bit_nat_eq_self)
  have name: "entry_name r (drop (unat index + 8) buf) (length (item_name i)) = chars (item_name i)" for r
    using ok unfolding nm(2) by (intro entry_name_clean) (simp add: item_ok_def)
  have oks: "\<forall>i \<in> set is. item_ok i" using Cons.prems(1) by simp
  let ?index = "index + ucast (of_nat (item_size i) :: u16)"
  show ?case
  proof (cases "item_ino i = 0")
    case True
    have "fetch_entries fuel raw buf len index es s = fetch_entries n raw buf len ?index es s"
      unfolding n(1) using lt dent nm(1) True by simp
    moreover have "heap_budget s (length (used_items is) + k)" using Cons.prems(7) True by simp
    ultimately show ?thesis
      using Cons.IH [OF oks buf Cons.prems(3,4) idx Cons.prems(6) _ Cons.prems(8) n(2), of es] True by simp
  next
    case False
    have b: "heap_budget s (Suc (length (used_items is) + k))" using Cons.prems(7) False by simp
    show ?thesis
    proof (rule kmalloc_small [OF Cons.prems(6) b, of 272 355 0], simp, goal_cases)
      case (1 p s1 l)
      note A = this
      note more = hstate_more_files [OF A(8)] hstate_more_ext2 [OF A(8)]
      define s2 where "s2 = s1\<lparr>direntries := (direntries s)(p \<mapsto> item_entry i)\<rparr>"
      have step: "fetch_entries fuel raw buf len index es s = fetch_entries n raw buf len ?index (es @ [p]) s2"
        unfolding n(1) using lt dent nm(1) False A(1) more nl name by (simp add: s2_def item_entry_def)
      note fresh = placed_fresh [OF A(2,6,5)]
      have new: "p \<notin> dom (direntries s)" using fresh(1) Cons.prems(8) by (auto simp: entries_placed_def)
      have fr: "entries_frame s s2"
        using A(2,6,7) more new by (auto simp: entries_frame_def s2_def map_le_def)
      have pl: "entries_placed s2"
        using Cons.prems(8) fresh(2,3) unfolding entries_placed_def by (auto simp: s2_def bd_placed_def)
      have h2: "heap_inv s2" "heap_budget s2 (length (used_items is) + k)" using A(2,9) by (simp_all add: s2_def)
      obtain ps s' where r: "fetch_entries n raw buf len ?index (es @ [p]) s2 = Inr ((es @ [p]) @ ps, s')" "entries_frame s2 s'"
        "heap_budget s' k" "entries_placed s'" "list_all2 (\<lambda>p i. direntries s' p = Some (item_entry i)) ps (used_items is)" "\<forall>p \<in> set ps. p \<noteq> NULL"
        "\<forall>q l. (unat q, l) \<in> heap_live s2 \<longrightarrow> q \<notin> dom (direntries s2) \<longrightarrow> q \<notin> dom (direntries s')"
        using Cons.IH [OF oks buf Cons.prems(3,4) idx h2 pl n(2), of "es @ [p]"] by blast
      have "direntries s' p = Some (item_entry i)"
        using r(2) by (auto simp: entries_frame_def s2_def intro: map_le_Some)
      moreover have "q \<notin> dom (direntries s')" if "(unat q, l) \<in> heap_live s" "q \<notin> dom (direntries s)" for q l
      proof -
        have "q \<noteq> p" using A(5) that(1) by auto
        moreover have "(unat q, l) \<in> heap_live s2" using that(1) A(6) by (simp add: s2_def)
        ultimately show ?thesis using r(7) that(2) unfolding s2_def by auto
      qed
      ultimately show ?case
        using step r(1,3-6) entries_frame_trans [OF fr r(2)] False A(3)
        by (intro exI [of _ "p # ps"] exI [of _ s']) auto
    qed
  qed
qed

lemma ext2_fetch_dir_ok:
  assumes ok: "ext2_ok fsp e disk s" and heap: "heap_inv s" "heap_budget s (u + (2 + (length (used_items items) + k)))" "entries_placed s"
    and f: "files s dfile = Some f" "file_driver1 f = fsp" "inodes s (file_driver2 f) = Some inode"
    and on: "file_on_disk (unat (e2_block_size e)) disk inode n" "n = unat (file_length f)" "n < 2 ^ 32" "n + 44 < 4096 * u"
    and dir: "file_contents (unat (e2_block_size e)) disk inode n = encode_dir items" "\<forall>i \<in> set items. item_ok i"
  obtains ps s' where "ext2_fetch_dir junk raw dfile dirp d s = Inr s'"
    and "dirs s' = (dirs s)(dirp \<mapsto> d\<lparr>dir_file := dfile, dir_mounted := NULL, dir_driver := fsp, dir_files := ps\<rparr>)"
    and "list_all2 (\<lambda>p i. direntries s' p = Some (item_entry i)) ps (used_items items)" and "\<forall>p \<in> set ps. p \<noteq> NULL"
    and "direntries s \<subseteq>\<^sub>m direntries s'" and "entries_placed s'" and "heap_inv s'" and "heap_live s \<subseteq> heap_live s'"
    and "heap_budget s' k" and "ext2_ok fsp e disk s'" and "files s' = files s" and "inodes s' = inodes s" and "ext2s s' = ext2s s"
    and "gd_tables s' = gd_tables s" and "current_task s' = current_task s"
proof -
  have lenf: "unat (file_length f) + 44 < 4096 * u" using on by simp
  have B0: "0 < unat (e2_block_size e)" using ext2_block_size(1) [OF ok] .
  have clen: "length (encode_dir items) = n" using contents_length [OF B0 on(1)] dir(1) by simp
  have items: "length items \<le> n"
  proof -
    have "length is \<le> length (encode_dir is)" for "is" by (induction "is") (simp_all add: encode_dir_def item_size_def)
    then show ?thesis using clen by metis
  qed
  show ?thesis
  proof (rule kmalloc_units [OF heap(1,2) lenf, of 342 0], goal_cases)
    case (1 p s1 l)
    note A = this
    note moreA = hstate_more_ext2 [OF A(8)] hstate_more_files [OF A(8)]
    have ok1: "ext2_ok fsp e disk s1" by (rule ext2_ok_more [OF ok A(8)])
    have f1: "files s1 dfile = Some f" "inodes s1 (file_driver2 f) = Some inode" using f moreA by simp_all
    have z: "unat (0 :: u64) \<le> n" "unat (0 :: u64) + unat (file_length f) < 2 ^ 64" using on by simp_all
    show ?case
    proof (rule ext2_read_ok [OF ok1 A(2,9) f1(1) f(2) f1(2) on(1-3) z, of junk], goal_cases)
      case (1 s2)
      note R = this
      have rd: "ext2_read junk dfile (file_length f) 0 s1 = Inr (int n, encode_dir items, s2)"
        unfolding R(1) Let_def dir(1) unsigned_0 drop_0 on(2) [symmetric] using clen by simp
      have st: "store_buf (encode_dir items) (buffer junk n []) = Inr (encode_dir items)"
        using clen by (simp add: store_buf_def buffer_def)
      have pl1: "entries_placed s2"
        using heap(3) R(2) moreA placed_fresh(3) [OF A(2,6,5)] by (auto simp: entries_placed_def read_frame_def bd_placed_def)
      have pd: "p \<notin> dom (direntries s2)" "(unat p, l) \<in> heap_live s2"
        using heap(3) R(2) moreA placed_fresh(1) [OF A(2,6,5)] A(6) by (auto simp: entries_placed_def read_frame_def)
      have h2: "heap_inv s2" using R(2) by (simp add: read_frame_def)
      have "length items < address_fuel" using items on(3) by simp
      from fetch_entries_ok [OF dir(2) _ _ _ _ h2 R(3) pl1 this, of "encode_dir items" "[]" "file_length f" 0 raw "[]"]
      obtain ps s3 where E: "fetch_entries address_fuel raw (encode_dir items) (file_length f) 0 [] s2 = Inr (ps, s3)" "entries_frame s2 s3"
        "heap_budget s3 k" "entries_placed s3" "list_all2 (\<lambda>p i. direntries s3 p = Some (item_entry i)) ps (used_items items)" "\<forall>p \<in> set ps. p \<noteq> NULL"
        "\<forall>q l. (unat q, l) \<in> heap_live s2 \<longrightarrow> q \<notin> dom (direntries s2) \<longrightarrow> q \<notin> dom (direntries s3)"
        using clen on(2,3) by auto
      have h3: "heap_inv s3" "(unat p, l) \<in> heap_live s3" using E(2) pd(2) by (auto simp: entries_frame_def)
      show ?case
      proof (rule kfree_ok [OF h3], goal_cases)
        case (1 s4)
        note F = this
        note moreF = hstate_more_ext2 [OF F(8)] hstate_more_files [OF F(8)]
        let ?d = "d\<lparr>dir_file := dfile, dir_mounted := NULL, dir_driver := fsp, dir_files := ps\<rparr>"
        define s' where "s' = s4\<lparr>dirs := (dirs s)(dirp \<mapsto> ?d)\<rparr>"
        have run: "ext2_fetch_dir junk raw dfile dirp d s = Inr s'"
          using f A(1) rd st E(1) F(1) on(2) moreF moreA R(2) E(2)
          by (simp add: ext2_fetch_dir_def file_at_def dir_set_def s'_def Let_def read_frame_def entries_frame_def)
        have hd: "heap_inv s'" "heap_live s' = heap_live s3 - {(unat p, l)}" "heap_budget s' k"
          using F(2,3) heap_budget_mono [OF E(3) F(10,4), of k] by (simp_all add: s'_def heap_unfold)
        have live: "heap_live s \<subseteq> heap_live s'"
          using A(5,6) R(2) E(2) hd(2) by (auto simp: read_frame_def entries_frame_def)
        have pl: "entries_placed s'"
        proof -
          have "p \<notin> dom (direntries s3)" using E(7) pd by blast
          then have "unat q \<noteq> unat p" if "q \<in> dom (direntries s3)" for q using that by (metis unsigned_word_eqI)
          then have "bd_placed s' q" if "q \<in> dom (direntries s3)" for q
            using E(4) that hd(2) unfolding entries_placed_def bd_placed_def by fast
          then show ?thesis using moreF by (simp add: entries_placed_def s'_def)
        qed
        have ok': "ext2_ok fsp e disk s'"
          using ok1 R(2) E(2) moreF moreA by (auto simp: ext2_ok_def read_frame_def entries_frame_def s'_def)
        have fr: "direntries s \<subseteq>\<^sub>m direntries s'" "files s' = files s" "inodes s' = inodes s" "ext2s s' = ext2s s"
          "gd_tables s' = gd_tables s" "current_task s' = current_task s"
          using E(2) R(2) moreF moreA A(7) F(7) by (auto simp: entries_frame_def read_frame_def s'_def)
        have ent: "list_all2 (\<lambda>p i. direntries s' p = Some (item_entry i)) ps (used_items items)"
          using E(5) moreF by (simp add: s'_def)
        show ?case by (rule that [OF run _ ent E(6) fr(1) pl hd(1) live hd(3) ok' fr(2-6)]) (simp add: s'_def)
      qed
    qed
  qed
qed

section \<open>A small file system\<close>

text \<open>
  A disk of four blocks of 1024 bytes: block 2 holds a directory with the entry \<^verbatim>\<open>.\<close> and an unused entry, block 3 the
  first inode of an inode table (a directory in block 2) and other bytes.
\<close>

definition small_items :: "dir_item list" where
  "small_items = [Dir_Item 2 [46] 2 (replicate 3 0), Dir_Item 0 [97] 1 (replicate 1003 0)]"

definition small_image :: "byte list" where
  "small_image = replicate 2048 0 @ encode_dir small_items @
     to_le 2 0x41ED @ replicate 2 0 @ to_le 4 1024 @ replicate 32 0 @ to_le 4 2 @ replicate 84 0 @ replicate 896 7"

definition small_inode :: ext2_inode_t where
  "small_inode = inode_of (drop 3072 small_image)"

definition small_e2 :: ext2fs_t where
  "small_e2 = \<lparr>e2_sb = (superblock_of (replicate 1024 0))\<lparr>total_inodes := 4, inodes_per_group := 4\<rparr>, e2_fd = 0x5000, e2_root = NULL,
     e2_block_size = 1024, e2_gd_count = 1, e2_group_descriptors = 0x5200, e2_io_lock = MUTEX_INITIALIZER, e2_fs_lock = MUTEX_INITIALIZER\<rparr>"

definition small_dfile :: file_t where
  "small_dfile = \<lparr>file_mode = mode_of 0x1ED, file_type = F_DIR, file_uid = 0, file_gid = 0, t_last_modified = 0,
     t_last_accessed = 0, t_created = 0, file_length = 1024, file_inode = 2, file_driver1 = 0x5100, file_driver2 = 0x5300,
     file_parent = 0, file_special = Sp_None\<rparr>"

definition small_ops :: f_ops_t where
  "small_ops = \<lparr>fop_read = Some (\<lambda>dat len off. let bytes = take (unat len) (drop (unat off) small_image) in (int (length bytes), bytes)),
     fop_write = None\<rparr>"

definition small_ext2 :: estate where
  "small_ext2 = bstate.extend (small_blocks\<lparr>fds := [0x5000 \<mapsto> \<lparr>fd_file = NULL, fpos = 0, f_ops = small_ops, fs_data = 0, fdmod = MUTEX_INITIALIZER\<rparr>],
       files := [0x5400 \<mapsto> small_dfile], dirs := Map.empty, direntries := Map.empty\<rparr>)
     \<lparr>ext2s = [0x5100 \<mapsto> small_e2], gd_tables = [0x5200 \<mapsto> to_le 8 0 @ to_le 4 3 @ replicate 500 0],
      inodes = [0x5300 \<mapsto> small_inode], my_fsinfo = 0x5500\<rparr>"

lemma small_ext2_fields:
  "fds small_ext2 = [0x5000 \<mapsto> \<lparr>fd_file = NULL, fpos = 0, f_ops = small_ops, fs_data = 0, fdmod = MUTEX_INITIALIZER\<rparr>]"
  "files small_ext2 = [0x5400 \<mapsto> small_dfile]" "direntries small_ext2 = Map.empty" "ext2s small_ext2 = [0x5100 \<mapsto> small_e2]"
  "gd_tables small_ext2 = [0x5200 \<mapsto> to_le 8 0 @ to_le 4 3 @ replicate 500 0]" "inodes small_ext2 = [0x5300 \<mapsto> small_inode]"
  by (simp_all add: small_ext2_def bstate.extend_def)

lemma small_ext2_heap: "heap_inv small_ext2" "heap_budget small_ext2 4"
proof -
  have x: "heap_inv (bstate.extend s x) = heap_inv s" "heap_budget (bstate.extend s x) = heap_budget s" for s x
    by (simp_all add: bstate.extend_def heap_unfold)
  have y: "heap_inv (s\<lparr>fds := a, files := b, dirs := c, direntries := d\<rparr>) = heap_inv s"
     "heap_budget (s\<lparr>fds := a, files := b, dirs := c, direntries := d\<rparr>) = heap_budget s" for s :: bstate and a b c d by (simp_all add: heap_unfold)
  show "heap_inv small_ext2" "heap_budget small_ext2 4"
    using small_blocks_heap unfolding small_ext2_def x y by simp_all
qed

lemma small_items_length: "length (encode_dir small_items) = 1024"
  by (simp add: encode_dir_def small_items_def item_size_def)

lemma small_image_length: "length small_image = 4096"
  by (simp add: small_image_def small_items_length)

lemma small_ext2_ok: "ext2_ok 0x5100 small_e2 small_image small_ext2"
proof -
  have "uint len < 9223372036854775808" if "unat off + unat len \<le> 4096" for len off :: u64
    using that uint_nat [of len] by linarith
  then have "disk_reads small_ops 0 small_image"
    using small_image_length by (auto simp: disk_reads_def small_ops_def Let_def)
  then show ?thesis
    by (simp add: ext2_ok_def small_ext2_fields small_image_length mutex_idle_def MUTEX_INITIALIZER_def) (simp add: small_e2_def MUTEX_INITIALIZER_def)
qed

lemma small_inode_fields: "i_mode small_inode = 0x41ED" "i_size small_inode = 1024" "i_block small_inode ! 0 = 2" "length (i_block small_inode) = 15"
proof -
  have d: "drop 3072 small_image = to_le 2 0x41ED @ replicate 2 0 @ to_le 4 1024 @ replicate 32 0 @ to_le 4 2 @ replicate 84 0 @ replicate 896 7"
    by (simp add: small_image_def small_items_length del: to_le.simps)
  show "i_mode small_inode = 0x41ED" "i_size small_inode = 1024" "i_block small_inode ! 0 = 2" "length (i_block small_inode) = 15"
    unfolding small_inode_def d by (simp_all add: inode_of_def le_at_def le_nat_to_le del: to_le.simps)
qed

lemma small_contents:
  "file_on_disk 1024 small_image small_inode 1024" "file_contents 1024 small_image small_inode 1024 = encode_dir small_items"
proof -
  have b: "block_count 1024 1024 = 1" by (simp add: block_count_def)
  show "file_on_disk 1024 small_image small_inode 1024"
    by (simp add: file_on_disk_def b small_inode_fields small_image_length block_pointer_def)
  have "disk_block 1024 small_image 2 = encode_dir small_items"
    by (simp add: disk_block_def small_image_def small_items_length bytes_at_def)
  then show "file_contents 1024 small_image small_inode 1024 = encode_dir small_items"
    by (simp add: file_contents_def b small_inode_fields block_pointer_def small_items_length)
qed

lemma le_nat_zeros: "le_nat (replicate n 0) = 0"
  by (induction n) simp_all

lemma small_entries_placed: "entries_placed small_ext2"
  by (simp add: entries_placed_def small_ext2_fields)

section \<open>What the driver reads\<close>

text \<open>
  C13: Reading \<open>len\<close> bytes at offset \<open>off\<close> of a file whose blocks are on the disk, direct or behind the singly indirect
  block, returns the bytes of the file from the offset on, up to the end of the file, and their number. Everything but
  the position of the open disk is as before: the buffer of the driver is released again.
\<close>

theorem ext2_read_spec:
  assumes "ext2_ok fsp e disk s" and "heap_inv s" and "heap_budget s 2"
    and "files s fp = Some f" and "file_driver1 f = fsp" and "inodes s (file_driver2 f) = Some inode"
    and "file_on_disk (unat (e2_block_size e)) disk inode n" and "n = unat (file_length f)" and "n < 2 ^ 32"
    and "unat off \<le> n" and "unat off + unat len < 2 ^ 64"
  shows "\<exists>s'. ext2_read junk fp len off s =
      (let bytes = take (unat len) (drop (unat off) (file_contents (unat (e2_block_size e)) disk inode n))
       in Inr (int (length bytes), bytes, s')) \<and> read_frame (e2_fd e) s s'"
proof -
  have "heap_budget s (2 + 0)" using assms(3) by simp
  then show ?thesis using ext2_read_ok [OF assms(1,2) _ assms(4-11), of 0 junk] by metis
qed

theorem ext2_read_spec_witness:
  "\<exists>s'. ext2_read (\<lambda>_. 0) 0x5400 7 4 small_ext2 = Inr (7, take 7 (drop 4 (encode_dir small_items)), s') \<and> heap_live s' = heap_live small_ext2"
proof -
  have b: "heap_budget small_ext2 2" using small_ext2_heap(2) by (simp add: heap_budget_def)
  have f: "files small_ext2 0x5400 = Some small_dfile" "file_driver1 small_dfile = 0x5100" "inodes small_ext2 (file_driver2 small_dfile) = Some small_inode"
    "1024 = unat (file_length small_dfile)" "unat (e2_block_size small_e2) = 1024"
    by (simp_all add: small_ext2_fields small_dfile_def small_e2_def)
  have l: "length (take 7 (drop 4 (encode_dir small_items))) = 7" by (simp add: small_items_length)
  show ?thesis
    using ext2_read_spec [OF small_ext2_ok small_ext2_heap(1) b f(1-3) _ f(4), of 4 7 "\<lambda>_. 0"] small_contents l
    by (auto simp: f(5) Let_def read_frame_def)
qed

text \<open>
  C20: An inode that exists is fetched from the table of its group. The position in the sector is found with the size of
  the structure, 128 bytes, and the sector with the size of the inodes of the file system: the two agree for inodes of
  128 bytes, where the inode is the one asked for, and for larger ones only at the start of a sector.
\<close>

theorem fetch_inode_spec:
  assumes "ext2_ok fsp e disk s" and "heap_inv s" and "heap_budget s 1"
    and "mtx_magic (e2_fs_lock e) = MUTEX_MAGIC" and "held_by (e2_fs_lock e) = current_task s"
    and "1 \<le> unat inode_no" and "unat inode_no \<le> unat (total_inodes (e2_sb e))"
    and "inode_sz (e2_sb e) \<in> {128, 256, 512}" and "512 div inode_sz (e2_sb e) dvd unat (inodes_per_group (e2_sb e))"
    and "inodes_per_group (e2_sb e) \<noteq> 0"
    and "gd_tables s (e2_group_descriptors e) = Some gdt" and "g = (unat inode_no - 1) div unat (inodes_per_group (e2_sb e))"
    and "32 * g + 32 \<le> length gdt" and "table = unat (bg_inode_table (gd_of (drop (32 * g) gdt)))"
    and "table * unat (e2_block_size e) + 512 * ((unat inode_no - 1) mod unat (inodes_per_group (e2_sb e)) div (512 div inode_sz (e2_sb e))) + 512 \<le> length disk"
  shows "(\<exists>s'. fetch_inode junk fsp inode_no s = Inr (SUCCESS, Some (inode_of (drop (fetched_at e table (unat inode_no)) disk)), s') \<and>
      read_frame (e2_fd e) s s') \<and>
    fetched_at e table (unat inode_no) =
      (if inode_sz (e2_sb e) = 128 \<or> (unat inode_no - 1) mod unat (inodes_per_group (e2_sb e)) mod (512 div inode_sz (e2_sb e)) = 0
       then inode_position e table (unat inode_no) else inode_position e table (unat inode_no) - 128)"
proof -
  have "heap_budget s (Suc 0)" using assms(3) by simp
  then have "\<exists>s'. fetch_inode junk fsp inode_no s = Inr (SUCCESS, Some (inode_of (drop (fetched_at e table (unat inode_no)) disk)), s') \<and>
      read_frame (e2_fd e) s s'"
    using fetch_inode_ok [OF assms(1,2) _ assms(4-15), of 0 junk] by metis
  moreover have odd: "t + 512 * (k div 2) + 128 = t + k * 256 - 128" if "k mod 2 = Suc 0" for t k :: nat
  proof -
    have "2 * (k div 2) + 1 = k" using mult_div_mod_eq [of 2 k] that by simp
    then show ?thesis by linarith
  qed
  have even: "512 * (k div 2) = k * 256" if "k mod 2 = 0" for k :: nat using mult_div_mod_eq [of 2 k] that by simp
  have "fetched_at e table (unat inode_no) =
      (if inode_sz (e2_sb e) = 128 \<or> (unat inode_no - 1) mod unat (inodes_per_group (e2_sb e)) mod (512 div inode_sz (e2_sb e)) = 0
       then inode_position e table (unat inode_no) else inode_position e table (unat inode_no) - 128)"
    using assms(8) fetched_at_correct [of e] odd even by (auto simp: fetched_at_def inode_position_def Let_def)
  ultimately show ?thesis by blast
qed

definition small_locked :: estate where
  "small_locked = small_ext2\<lparr>ext2s := [0x5100 \<mapsto> small_e2\<lparr>e2_fs_lock := MUTEX_INITIALIZER\<lparr>held_by := current_task small_ext2\<rparr>\<rparr>]\<rparr>"

theorem fetch_inode_spec_witness:
  "\<exists>s'. fetch_inode (\<lambda>_. 0) 0x5100 1 small_locked = Inr (SUCCESS, Some small_inode, s')"
proof -
  let ?e = "small_e2\<lparr>e2_fs_lock := MUTEX_INITIALIZER\<lparr>held_by := current_task small_ext2\<rparr>\<rparr>"
  let ?gdt = "to_le 8 0 @ to_le 4 3 @ replicate 500 0"
  have ok: "ext2_ok 0x5100 ?e small_image small_locked"
    using small_ext2_ok unfolding ext2_ok_def by (simp add: small_locked_def)
  have h: "heap_inv small_locked" "heap_budget small_locked 1"
    using small_ext2_heap by (simp_all add: small_locked_def heap_unfold)
  have f: "inode_sz (e2_sb small_e2) = 128" "unat (total_inodes (e2_sb small_e2)) = 4" "unat (inodes_per_group (e2_sb small_e2)) = 4"
    "inodes_per_group (e2_sb small_e2) \<noteq> 0" "unat (e2_block_size small_e2) = 1024" "e2_group_descriptors small_e2 = 0x5200"
    by (simp_all add: small_e2_def inode_sz_def superblock_of_def le_at_def le_nat_zeros)
  have tab: "gd_tables small_locked 0x5200 = Some ?gdt" by (simp add: small_locked_def small_ext2_fields)
  have g: "unat (bg_inode_table (gd_of ?gdt)) = 3" by (simp add: gd_of_def le_at_def le_nat_to_le del: to_le.simps)
  have "fetched_at ?e 3 1 = 3072" by (simp add: fetched_at_def f)
  then show ?thesis
    using fetch_inode_spec [OF ok h, of 1 ?gdt 0 3 "\<lambda>_. 0"] tab g f small_image_length
    by (auto simp: MUTEX_INITIALIZER_def small_locked_def small_inode_def simp del: to_le.simps)
qed

text \<open>
  C18: Fetching a directory whose contents are the encoding of a list of entries gives the directory one entry for every
  item in use, in their order, with the name and the inode number that were encoded and no file fetched yet. The items
  with inode number zero are left out. The entries that were there before are as they were.
\<close>

theorem ext2_fetch_dir_roundtrip:
  assumes "ext2_ok fsp e disk s" and "heap_inv s" and "heap_budget s (u + (2 + length (used_items items)))" and "entries_placed s"
    and "files s dfile = Some f" and "file_driver1 f = fsp" and "inodes s (file_driver2 f) = Some inode"
    and "file_on_disk (unat (e2_block_size e)) disk inode n" and "n = unat (file_length f)" and "n < 2 ^ 32" and "n + 44 < 4096 * u"
    and "file_contents (unat (e2_block_size e)) disk inode n = encode_dir items" and "\<forall>i \<in> set items. item_ok i"
  shows "\<exists>ps s'. ext2_fetch_dir junk raw dfile dirp d s = Inr s' \<and>
    dirs s' = (dirs s)(dirp \<mapsto> d\<lparr>dir_file := dfile, dir_mounted := NULL, dir_driver := fsp, dir_files := ps\<rparr>) \<and>
    map (direntries s') ps = map (\<lambda>i. Some \<lparr>de_name = chars (item_name i), de_inode = ucast (item_ino i), de_file = NULL\<rparr>) (used_items items) \<and>
    direntries s \<subseteq>\<^sub>m direntries s' \<and> heap_inv s' \<and> heap_live s \<subseteq> heap_live s'"
proof -
  have "heap_budget s (u + (2 + (length (used_items items) + 0)))" using assms(3) by simp
  then obtain ps s' where r: "ext2_fetch_dir junk raw dfile dirp d s = Inr s'"
    "dirs s' = (dirs s)(dirp \<mapsto> d\<lparr>dir_file := dfile, dir_mounted := NULL, dir_driver := fsp, dir_files := ps\<rparr>)"
    "list_all2 (\<lambda>p i. direntries s' p = Some (item_entry i)) ps (used_items items)"
    "direntries s \<subseteq>\<^sub>m direntries s'" "heap_inv s'" "heap_live s \<subseteq> heap_live s'"
    using ext2_fetch_dir_ok [OF assms(1,2) _ assms(4-13), of 0 junk raw dirp d] by metis
  have "map (direntries s') ps = map (\<lambda>i. Some (item_entry i)) (used_items items)"
    using r(3) by (simp add: list_all2_map1 list_all2_map2 flip: list.rel_eq)
  then show ?thesis using r unfolding item_entry_def by blast
qed

theorem ext2_fetch_dir_roundtrip_witness:
  "\<exists>p s'. ext2_fetch_dir (\<lambda>_. 0) (\<lambda>_ _. 0) 0x5400 0x5600 \<lparr>dir_file = 0, dir_files = [], dir_parent = 0, dir_mounted = 0, dir_fstype = 0, dir_driver = 0\<rparr> small_ext2 = Inr s' \<and>
     map_option dir_files (dirs s' 0x5600) = Some [p] \<and> direntries s' p = Some \<lparr>de_name = ''.'', de_inode = 2, de_file = NULL\<rparr>"
proof -
  have f: "files small_ext2 0x5400 = Some small_dfile" "file_driver1 small_dfile = 0x5100" "inodes small_ext2 (file_driver2 small_dfile) = Some small_inode"
    "1024 = unat (file_length small_dfile)" "unat (e2_block_size small_e2) = 1024"
    by (simp_all add: small_ext2_fields small_dfile_def small_e2_def)
  have u: "used_items small_items = [Dir_Item 2 [46] 2 (replicate 3 0)]" "\<forall>i \<in> set small_items. item_ok i"
    by (simp_all add: small_items_def item_ok_def item_size_def)
  have b: "heap_budget small_ext2 (1 + (2 + length (used_items small_items)))" using small_ext2_heap(2) by (simp add: u)
  have n: "(1024 :: nat) < 2 ^ 32" "(1024 :: nat) + 44 < 4096 * 1" by simp_all
  have c: "char_of (46 :: nat) = CHR ''.''" by code_simp
  from ext2_fetch_dir_roundtrip [OF small_ext2_ok small_ext2_heap(1) b small_entries_placed f(1-3) _ f(4) n _ u(2), of "\<lambda>_. 0" "\<lambda>_ _. 0" "0x5600" "\<lparr>dir_file = 0, dir_files = [], dir_parent = 0, dir_mounted = 0, dir_fstype = 0, dir_driver = 0\<rparr>"]
  obtain ps s' where r: "ext2_fetch_dir (\<lambda>_. 0) (\<lambda>_ _. 0) 0x5400 0x5600 \<lparr>dir_file = 0, dir_files = [], dir_parent = 0, dir_mounted = 0, dir_fstype = 0, dir_driver = 0\<rparr> small_ext2 = Inr s'" "map_option dir_files (dirs s' 0x5600) = Some ps"
    "map (direntries s') ps = [Some \<lparr>de_name = ''.'', de_inode = 2, de_file = NULL\<rparr>]"
    using small_contents by (auto simp: f(5) u chars_def c)
  then show ?thesis by (auto simp: map_eq_Cons_conv)
qed

text \<open>
  A read of the disk that fails with a negative number is taken for a success: \<^verbatim>\<open>ext2_get_block\<close> compares the number
  as an unsigned one with the number of bytes. The buffer is then what the read function left in it.
\<close>

theorem ext2_get_block_error:
  assumes "ext2s s fsp = Some e" and "mutex_idle (e2_io_lock e)" and "fds s (e2_fd e) = Some d"
    and "fop_read (f_ops d) = Some read" and "read (fs_data d) (count * BLOCK_SIZE) (lba * BLOCK_SIZE) = (- int err, [])"
    and "0 < err" and "err < 2 ^ 12" and "unat count < 2 ^ 32"
  shows "\<exists>s'. ext2_get_block fsp buf lba count s = Inr (True, buf, s')"
proof -
  have u: "unat (count * BLOCK_SIZE) = 512 * unat count"
    using assms(8) by (intro block_bytes_nat) simp
  have "take_bit 64 (- int err) = 2 ^ 64 - int err"
    using assms(6,7) by (simp add: take_bit_eq_mod zmod_zminus1_eq_if)
  then have "uint (word_of_int (- int err) :: u64) = 2 ^ 64 - int err" by (simp only: uint_word_of_int_eq) simp
  moreover have "uint (count * BLOCK_SIZE) = int (512 * unat count)" using u by (metis of_nat_unat)
  moreover have "int (512 * unat count) < 2 ^ 41" "int err < 2 ^ 12" using assms(7,8) unfolding of_nat_less_numeral_power_cancel_iff by simp_all
  ultimately have "\<not> word_of_int (- int err) < count * BLOCK_SIZE"
    unfolding word_less_def by simp
  then show ?thesis using assms(1-5)
    by (simp add: ext2_get_block_def ext2_at_def Let_def vfs_read_def fd_at_def store_buf_def fun_upd_idem)
qed

theorem ext2_get_block_error_witness:
  "\<exists>s'. ext2_get_block 0x5100 [1, 2] 3 1 (small_ext2\<lparr>fds := [0x5000 \<mapsto>
      \<lparr>fd_file = NULL, fpos = 0, f_ops = \<lparr>fop_read = Some (\<lambda>_ _ _. (- EIO, [])), fop_write = None\<rparr>, fs_data = 0, fdmod = MUTEX_INITIALIZER\<rparr>]\<rparr>) =
    Inr (True, [1, 2], s')"
  by (rule ext2_get_block_error [where err = 5 and e = small_e2 and
      d = "\<lparr>fd_file = NULL, fpos = 0, f_ops = \<lparr>fop_read = Some (\<lambda>_ _ _. (- EIO, [])), fop_write = None\<rparr>, fs_data = 0, fdmod = MUTEX_INITIALIZER\<rparr>" and read = "\<lambda>_ _ _. (- EIO, [])"])
    (simp_all add: small_ext2_fields EIO_def mutex_idle_def MUTEX_INITIALIZER_def small_e2_def)
end
