(* ===== verification/Vfs.thy ===== *)
theory Vfs
  imports Ext2
begin

text \<open>
  The virtual file system: the lookup of paths, \<^verbatim>\<open>fs/ffind.c\<close>, mounting, creating and opening files, \<^verbatim>\<open>fs/vfs.c\<close>, the
  system calls of \<^verbatim>\<open>fs/fs_syscall.c\<close>, the instances of \<^verbatim>\<open>fs/ramfs.c\<close> and the start of a process from a file,
  \<^verbatim>\<open>proc_start\<close> of \<^verbatim>\<open>sched/proc.c\<close>.

  A path is a string without its terminator. A pointer \<^verbatim>\<open>file_t** node\<close> is \<^const>\<open>None\<close> when it is the null pointer and else
  the value of the variable it points to; reading through the null pointer is a fault. The functions of a file system
  are those of the ext2 driver or missing. The file operations of the ext2 driver and of the block devices are given
  as \<^typ>\<open>f_ops_t\<close> values.
\<close>

section \<open>Structures\<close>

datatype fs_driver = Ext2_Driver | No_Driver

record fs_t =
  fs_name :: string
  fs_mbr_id :: u8
  fs_functions :: fs_driver
  fs_f_ops :: f_ops_t

record ramfs_instance_t =
  ramfs_id :: u64
  ramfs_files :: "u64 list"
  ramfs_lock :: mutex_t

record vstate = estate +
  fs_types :: "u64 \<rightharpoonup> fs_t"
  fs_list :: "u64 list"
  fs_list_lock :: mutex_t
  ramfs_instances :: "u64 \<rightharpoonup> ramfs_instance_t"
  ramfs_id_counter :: u64

text \<open>
  What memory holds that the code reads or passes on before it has been written: the contents of new allocations by
  their address, the byte before a path and the one behind its terminator, the two bytes of padding behind the mode of
  a file, and the local variable \<^verbatim>\<open>target\<close> of \<^verbatim>\<open>vfs_open\<close>.
\<close>

record fs_memory =
  m_bytes :: "nat \<Rightarrow> byte"
  m_name :: "u64 \<Rightarrow> nat \<Rightarrow> byte"
  m_inode :: "u64 \<Rightarrow> ext2_inode_t"
  m_dir :: "u64 \<Rightarrow> dir_t"
  m_file :: "u64 \<Rightarrow> file_t"
  m_ext2 :: "u64 \<Rightarrow> ext2fs_t"
  m_fd :: "u64 \<Rightarrow> fd_t"
  m_ramfs :: "u64 \<Rightarrow> ramfs_instance_t"
  m_before :: "string \<Rightarrow> char"
  m_behind :: "string \<Rightarrow> char"
  m_padding :: "u64 \<Rightarrow> byte list"
  m_target :: u64

definition fs_at :: "u64 \<Rightarrow> 'a vstate_scheme \<Rightarrow> fs_t result" where
  "fs_at p s = (case fs_types s p of None \<Rightarrow> Inl (Mem_Fault ''fs_t'') | Some x \<Rightarrow> Inr x)"

definition dir_at :: "u64 \<Rightarrow> 'a fstate_scheme \<Rightarrow> dir_t result" where
  "dir_at p s = (case dirs s p of None \<Rightarrow> Inl (Mem_Fault ''dir_t'') | Some x \<Rightarrow> Inr x)"

definition direntry_at :: "u64 \<Rightarrow> 'a fstate_scheme \<Rightarrow> direntry_t result" where
  "direntry_at p s = (case direntries s p of None \<Rightarrow> Inl (Mem_Fault ''direntry_t'') | Some x \<Rightarrow> Inr x)"

definition file_set :: "u64 \<Rightarrow> file_t \<Rightarrow> 'a fstate_scheme \<Rightarrow> 'a fstate_scheme" where
  "file_set p f s = s\<lparr>files := (files s)(p \<mapsto> f)\<rparr>"

definition node_value :: "u64 option \<Rightarrow> u64 result" where
  "node_value node = (case node of None \<Rightarrow> Inl (Mem_Fault ''node'') | Some v \<Rightarrow> Inr v)"

definition FFIND_CREATE :: u32 where "FFIND_CREATE = 1"

section \<open>Path lookup\<close>

definition fs_fetch :: "fs_memory \<Rightarrow> u64 \<Rightarrow> u64 \<Rightarrow> 'a vstate_scheme \<Rightarrow> 'a vstate_scheme result" where
  "fs_fetch mem parent entry s =
     rbind (direntry_at entry s) (\<lambda>e.
     if de_file e \<noteq> NULL then Inr s
     else
       rbind (dir_at parent s) (\<lambda>d.
       rbind (kassert (dir_fstype d \<noteq> NULL) ''no filesystem info in directory'') (\<lambda>_.
       rbind (fs_at (dir_fstype d) s) (\<lambda>fst.
       rbind (case fs_functions fst of
                Ext2_Driver \<Rightarrow> ext2_fetch (m_bytes mem) (m_name mem) (m_inode mem) (m_dir mem) (m_file mem) parent entry s
              | No_Driver \<Rightarrow> Inl (Mem_Fault ''fetch'')) (\<lambda>s.
       rbind (direntry_at entry s) (\<lambda>e.
       rbind (file_at (de_file e) s) (\<lambda>f.
       Inr (file_set (de_file e) (f\<lparr>file_parent := parent\<rparr>) s))))))))"

definition ffind_noent :: "u64 \<Rightarrow> u32 \<Rightarrow> u64 \<Rightarrow> 'a fstate_scheme \<Rightarrow> (int \<times> 'a fstate_scheme) result" where
  "ffind_noent parent flags new_file s =
     (if flags AND FFIND_CREATE = 0 then Inr (- ENOENT, s)
      else
        rbind (dir_at parent s) (\<lambda>d.
        let s = dir_set parent (d\<lparr>dir_files := dir_files d @ [new_file]\<rparr>) s in
        rbind (file_at new_file s) (\<lambda>f.
        let s = file_set new_file (f\<lparr>file_parent := parent\<rparr>) s in
        rbind (file_at (dir_file d) s) (\<lambda>pf.
        rbind (file_at new_file s) (\<lambda>f.
        let f = f\<lparr>file_driver1 := file_driver1 pf, file_driver2 := NULL\<rparr>;
            s = file_set new_file f s in
        if file_type f = F_DIR then
          (case file_special f of
             Sp_Directory nd \<Rightarrow>
               rbind (dir_at nd s) (\<lambda>d.
               Inr (SUCCESS, dir_set nd (d\<lparr>dir_parent := parent, dir_driver := file_driver1 f\<rparr>) s))
           | _ \<Rightarrow> Inl (Mem_Fault ''sp_file_u''))
        else Inr (SUCCESS, s))))))"

definition ffind_success :: "u32 \<Rightarrow> int" where
  "ffind_success flags = (if flags AND FFIND_CREATE \<noteq> 0 then - EEXIST else SUCCESS)"

text \<open>
  The name of an entry. \<^verbatim>\<open>ffind_noent\<close> puts the addresses of \<^verbatim>\<open>file_t\<close> objects into the list of entries: the name is
  then read from the bytes of the file, its mode, two bytes of padding and its type.
\<close>

definition mode_bits :: "fmode_t \<Rightarrow> bool list" where
  "mode_bits m = [o_x m, o_w m, o_r m, g_x m, g_w m, g_r m, u_x m, u_w m, u_r m, sticky m, setgid m, setuid m]"

definition mode_byte :: "bool list \<Rightarrow> byte" where
  "mode_byte bs = of_nat (foldr (\<lambda>b n. of_bool b + 2 * n) bs 0)"

definition file_bytes :: "byte list \<Rightarrow> fmode_t \<Rightarrow> ftype_t \<Rightarrow> byte list" where
  "file_bytes pad mode ty = [mode_byte (take 8 (mode_bits mode)), mode_byte (drop 8 (mode_bits mode))] @ take 2 pad @
     map (\<lambda>k. ucast (drop_bit (8 * k) ty)) [0, 1, 2, 3]"

definition stray_name :: "fs_memory \<Rightarrow> u64 \<Rightarrow> fmode_t \<Rightarrow> ftype_t \<Rightarrow> string" where
  "stray_name mem p mode ty = chars (takeWhile (\<lambda>b. b \<noteq> 0) (file_bytes (m_padding mem p) mode ty))"

definition entry_name_at :: "fs_memory \<Rightarrow> u64 \<Rightarrow> 'a fstate_scheme \<Rightarrow> string result" where
  "entry_name_at mem p s =
     (case direntries s p of
        Some e \<Rightarrow> Inr (de_name e)
      | None \<Rightarrow>
          (case files s p of
             Some f \<Rightarrow> Inr (stray_name mem p (file_mode f) (file_type f))
           | None \<Rightarrow> Inl (Mem_Fault ''direntry_t'')))"

text \<open>The loop over the entries, up to the first with the name.\<close>

fun find_entry :: "fs_memory \<Rightarrow> u64 list \<Rightarrow> string \<Rightarrow> 'a fstate_scheme \<Rightarrow> u64 option result" where
  "find_entry mem [] name s = Inr None"
| "find_entry mem (p # ps) name s =
     rbind (entry_name_at mem p s) (\<lambda>n. if n = name then Inr (Some p) else find_entry mem ps name s)"

definition special_directory :: "file_t \<Rightarrow> u64 result" where
  "special_directory f = (case file_special f of Sp_Directory d \<Rightarrow> Inr d | _ \<Rightarrow> Inl (Mem_Fault ''sp_file_u''))"

text \<open>
  \<open>before\<close> is the character in front of the path, which \<^verbatim>\<open>*(rem - 1)\<close> reads when the path is empty. The value is the
  code, the variable behind \<^verbatim>\<open>node\<close> and the new state.
\<close>

function ffind_recursive ::
  "fs_memory \<Rightarrow> char \<Rightarrow> string \<Rightarrow> u64 \<Rightarrow> u64 option \<Rightarrow> u32 \<Rightarrow> 'a vstate_scheme \<Rightarrow> (int \<times> u64 option \<times> 'a vstate_scheme) result" where
  "ffind_recursive mem before pathname start_dir node flags s =
     (let name = takeWhile (\<lambda>c. c \<noteq> CHR ''/'') pathname in
      if length name > 255 then Inr (- ENAMETOOLONG, node, s)
      else
        let current_name = (if name = [] then ''.'' else name);
            rest = drop (Suc (length name)) pathname;
            noent = (\<lambda>wd v s. rbind (ffind_noent wd flags v s) (\<lambda>(ret, s). Inr (ret, node, s))) in
        rbind (dir_at start_dir s) (\<lambda>d.
        let wd = (if dir_mounted d \<noteq> NULL then dir_mounted d else start_dir) in
        rbind (dir_at wd s) (\<lambda>d.
        if dir_files d = [] then rbind (node_value node) (\<lambda>v. noent wd v s)
        else
          rbind (find_entry mem (dir_files d) current_name s) (\<lambda>found.
          case found of
            None \<Rightarrow> noent wd (case node of None \<Rightarrow> NULL | Some v \<Rightarrow> v) s
          | Some entry \<Rightarrow>
              rbind (direntry_at entry s) (\<lambda>e.
              rbind (if de_file e = NULL then fs_fetch mem wd entry s else Inr s) (\<lambda>s.
              rbind (direntry_at entry s) (\<lambda>e.
              if rest = [] then
                rbind (if last (before # pathname) = CHR ''/''
                       then rbind (file_at (de_file e) s) (\<lambda>f. Inr (file_type f \<noteq> F_DIR)) else Inr False) (\<lambda>notdir.
                if notdir then Inr (- ENOTDIR, node, s)
                else
                  rbind (node_value node) (\<lambda>v.
                  Inr (ffind_success flags, Some (if v \<noteq> NULL then de_file e else v), s)))
              else
                rbind (file_at (de_file e) s) (\<lambda>f.
                if file_type f \<noteq> F_DIR then rbind (node_value node) (\<lambda>v. noent wd v s)
                else
                  rbind (special_directory f) (\<lambda>sub.
                  ffind_recursive mem (CHR ''/'') rest sub node flags s)))))))))"
  by pat_completeness auto
termination
  by (relation "measure (\<lambda>(mem, before, pathname, _). length pathname)") auto

declare ffind_recursive.simps [simp del]

text \<open>The path is advanced behind its leading slash before \<^verbatim>\<open>pathname[1]\<close> is compared with the terminator.\<close>

definition ffind ::
  "fs_memory \<Rightarrow> u64 \<Rightarrow> string \<Rightarrow> u64 option \<Rightarrow> u32 \<Rightarrow> 'a vstate_scheme \<Rightarrow> (int \<times> u64 option \<times> 'a vstate_scheme) result" where
  "ffind mem start_dir pathname node flags s =
     (let absolute = (pathname \<noteq> [] \<and> hd pathname = CHR ''/'');
          before = (if absolute then CHR ''/'' else m_before mem pathname);
          rest = (if absolute then tl pathname else pathname);
          start_dir = (if absolute then vfs_root s else start_dir);
          at_end = (case rest of [] \<Rightarrow> m_behind mem pathname = CHR 0x00 | [_] \<Rightarrow> True | _ \<Rightarrow> False) in
      if absolute \<and> at_end then
        if flags AND FFIND_CREATE \<noteq> 0 then Inr (- EEXIST, node, s)
        else
          rbind (node_value node) (\<lambda>v.
          if v \<noteq> NULL then rbind (dir_at start_dir s) (\<lambda>d. Inr (SUCCESS, Some (dir_file d), s))
          else Inr (SUCCESS, node, s))
      else
        rbind (mutex_lock (fs_tree_lock s) s) (\<lambda>m.
        rbind (ffind_recursive mem before rest start_dir node flags (s\<lparr>fs_tree_lock := m\<rparr>)) (\<lambda>(ret, node, s).
        rbind (mutex_unlock (fs_tree_lock s) s) (\<lambda>(m, s). Inr (ret, node, s\<lparr>fs_tree_lock := m\<rparr>)))))"

section \<open>File systems\<close>

definition fs_register :: "u64 \<Rightarrow> 'a vstate_scheme \<Rightarrow> 'a vstate_scheme result" where
  "fs_register p s =
     rbind (kassert (p \<noteq> NULL) ''invalid fs'') (\<lambda>_.
     rbind (mutex_lock (fs_list_lock s) s) (\<lambda>m.
     let s = s\<lparr>fs_list_lock := m, fs_list := fs_list s @ [p]\<rparr> in
     rbind (mutex_unlock (fs_list_lock s) s) (\<lambda>(m, s). Inr (s\<lparr>fs_list_lock := m\<rparr>))))"

text \<open>The static structure of the ext2 driver is at the address \<open>p\<close>, with the operations \<open>ops\<close>.\<close>

definition ext2fs :: "f_ops_t \<Rightarrow> fs_t" where
  "ext2fs ops = \<lparr>fs_name = ''ext2fs'', fs_mbr_id = 0x83, fs_functions = Ext2_Driver, fs_f_ops = ops\<rparr>"

definition ext2fs_init :: "u64 \<Rightarrow> f_ops_t \<Rightarrow> 'a vstate_scheme \<Rightarrow> 'a vstate_scheme result" where
  "ext2fs_init p ops s = fs_register p (s\<lparr>fs_types := (fs_types s)(p \<mapsto> ext2fs ops), my_fsinfo := p\<rparr>)"

definition ramfs_info :: fs_t where
  "ramfs_info = \<lparr>fs_name = ''ramfs'', fs_mbr_id = 0, fs_functions = No_Driver, fs_f_ops = \<lparr>fop_read = None, fop_write = None\<rparr>\<rparr>"

text \<open>\<^verbatim>\<open>sizeof(ramfs_instance_t)\<close> is 112.\<close>

definition ramfs_create :: "fs_memory \<Rightarrow> 'a vstate_scheme \<Rightarrow> (u64 \<times> 'a vstate_scheme) result" where
  "ramfs_create mem s =
     rbind (kmalloc 112 31 0 s) (\<lambda>(p, s).
     rbind (mutex_init (ramfs_lock (m_ramfs mem p))) (\<lambda>m.
     let (new_id, counter) = atomic_add (ramfs_id_counter s) 1 in
     Inr (p, s\<lparr>ramfs_id_counter := counter, ramfs_instances := (ramfs_instances s)(p \<mapsto>
       \<lparr>ramfs_id = new_id, ramfs_files = [], ramfs_lock = m\<rparr>)\<rparr>)))"

text \<open>The loop over the file systems: the data of the first that accepts the disk, with its structure.\<close>

fun probe_list :: "fs_memory \<Rightarrow> u64 list \<Rightarrow> u64 \<Rightarrow> 'a vstate_scheme \<Rightarrow> ((u64 \<times> u64) option \<times> 'a vstate_scheme) result" where
  "probe_list mem [] disk s = Inr (None, s)"
| "probe_list mem (p # ps) disk s =
     rbind (fs_at p s) (\<lambda>fst.
     rbind (case fs_functions fst of
              Ext2_Driver \<Rightarrow> ext2_probe (m_ext2 mem) (m_bytes mem) disk s
            | No_Driver \<Rightarrow> Inl (Mem_Fault ''probe'')) (\<lambda>(dat, s).
     if dat \<noteq> NULL then Inr (Some (dat, p), s) else probe_list mem ps disk s))"

definition probe_fs :: "fs_memory \<Rightarrow> u64 \<Rightarrow> 'a vstate_scheme \<Rightarrow> ((u64 \<times> u64) option \<times> 'a vstate_scheme) result" where
  "probe_fs mem disk s =
     rbind (mutex_lock (fs_list_lock s) s) (\<lambda>m.
     rbind (probe_list mem (fs_list s) disk (s\<lparr>fs_list_lock := m\<rparr>)) (\<lambda>(found, s).
     rbind (mutex_unlock (fs_list_lock s) s) (\<lambda>(m, s). Inr (found, s\<lparr>fs_list_lock := m\<rparr>))))"

section \<open>Creating files\<close>

definition get_working_dir :: "u64 \<Rightarrow> 'a fstate_scheme \<Rightarrow> u64 result" where
  "get_working_dir p s =
     (if p = NULL then Inr (vfs_root s)
      else rbind (proc_at p s) (\<lambda>proc. Inr (if working_dir proc \<noteq> NULL then working_dir proc else vfs_root s)))"

text \<open>\<^verbatim>\<open>time()\<close> is always zero.\<close>

definition time_now :: u64 where "time_now = 0"

definition falloc :: "fs_memory \<Rightarrow> u64 \<Rightarrow> ftype_t \<Rightarrow> fmode_t \<Rightarrow> 'a fstate_scheme \<Rightarrow> (u64 \<times> 'a fstate_scheme) result" where
  "falloc mem p ty mode s =
     rbind (kmalloc 88 120 0 s) (\<lambda>(a, s).
     rbind (if p = NULL then Inr (0, 0) else rbind (proc_at p s) (\<lambda>proc. Inr (ucast (uid proc), ucast (gid proc)))) (\<lambda>(u, g).
     Inr (a, file_set a ((m_file mem a)\<lparr>file_mode := mode, file_uid := u, file_gid := g, file_inode := 0, file_driver1 := NULL,
       file_driver2 := NULL, t_created := time_now, t_last_accessed := time_now, t_last_modified := time_now,
       file_type := ty, file_length := 0\<rparr>) s)))"

definition vfs_mknod ::
  "fs_memory \<Rightarrow> u64 \<Rightarrow> string \<Rightarrow> ftype_t \<Rightarrow> fmode_t \<Rightarrow> u64 \<Rightarrow> u64 \<Rightarrow> 'a vstate_scheme \<Rightarrow> (int \<times> 'a vstate_scheme) result" where
  "vfs_mknod mem p pathname ty mode major minor s =
     (if ty \<noteq> F_BLOCK \<and> ty \<noteq> F_CHAR \<and> ty \<noteq> F_FIFO \<and> ty \<noteq> F_SOCKET then Inr (- EINVAL, s)
      else
        rbind (get_working_dir p s) (\<lambda>wd.
        rbind (ffind mem wd pathname None 0 s) (\<lambda>(status, _, s).
        if status \<noteq> - ENOENT then Inr (if status < 0 then status else - EEXIST, s)
        else
          rbind (falloc mem p ty mode s) (\<lambda>(file, s).
          rbind (file_at file s) (\<lambda>f.
          let s = file_set file (f\<lparr>file_inode := 0, file_special := Sp_Device (ucast major) (ucast minor)\<rparr>) s in
          rbind (ffind mem wd pathname (Some file) FFIND_CREATE s) (\<lambda>(status, node, s).
          if status < 0 then
            rbind (node_value node) (\<lambda>file.
            rbind (kfree file s) (\<lambda>s. Inr (status, s\<lparr>files := (files s)(file := None)\<rparr>)))
          else Inr (status, s)))))))"

definition FMODE_DEFAULT :: fmode_t where
  "FMODE_DEFAULT = \<lparr>o_x = True, o_w = False, o_r = True, g_x = True, g_w = False, g_r = True,
     u_x = True, u_w = True, u_r = True, sticky = False, setgid = False, setuid = False\<rparr>"

definition vfs_mkdir :: "fs_memory \<Rightarrow> u64 \<Rightarrow> string \<Rightarrow> fmode_t \<Rightarrow> 'a vstate_scheme \<Rightarrow> (int \<times> 'a vstate_scheme) result" where
  "vfs_mkdir mem p pathname mode s =
     rbind (get_working_dir p s) (\<lambda>wd.
     rbind (ffind mem wd pathname None 0 s) (\<lambda>(status, _, s).
     if status \<noteq> - ENOENT then Inr (if status < 0 then status else - EEXIST, s)
     else
       rbind (kmalloc 72 178 0 s) (\<lambda>(dir, s).
       let d = (m_dir mem dir)\<lparr>dir_driver := NULL, dir_files := [], dir_fstype := NULL, dir_mounted := NULL\<rparr>;
           s = dir_set dir d s in
       rbind (falloc mem p F_DIR mode s) (\<lambda>(file, s).
       rbind (file_at file s) (\<lambda>f.
       let s = file_set file (f\<lparr>file_special := Sp_Directory dir, file_inode := 0\<rparr>) s;
           s = dir_set dir (d\<lparr>dir_file := file\<rparr>) s in
       rbind (ffind mem wd pathname (Some file) FFIND_CREATE s) (\<lambda>(status, node, s).
       if status < 0 then
         rbind (node_value node) (\<lambda>file.
         rbind (kfree file s) (\<lambda>s.
         let s = s\<lparr>files := (files s)(file := None)\<rparr> in
         rbind (kfree dir s) (\<lambda>s. Inr (status, s\<lparr>dirs := (dirs s)(dir := None)\<rparr>))))
       else Inr (status, s)))))))"

section \<open>Mounting the root file system\<close>

text \<open>\<open>bops\<close> are the file operations of block devices, \<open>p\<close> and \<open>ops\<close> the structure and operations of the ext2 driver.\<close>

definition vfs_init ::
  "fs_memory \<Rightarrow> f_ops_t \<Rightarrow> u64 \<Rightarrow> f_ops_t \<Rightarrow> string \<Rightarrow> 'a vstate_scheme \<Rightarrow> 'a vstate_scheme result" where
  "vfs_init mem bops p ops rootfs s =
     rbind (mutex_init (fs_list_lock s)) (\<lambda>m.
     rbind (ext2fs_init p ops (s\<lparr>fs_list := [], fs_list_lock := m\<rparr>)) (\<lambda>s.
     rbind (bd_get_by_name rootfs s) (\<lambda>(found, s).
     case found of
       None \<Rightarrow> Inl (Panic ''Cannot mount root file system'')
     | Some (major, minor) \<Rightarrow>
         rbind (bd_open (m_fd mem) bops major minor s) (\<lambda>(error, fd, s).
         if error < 0 then Inl (Panic ''Cannot mount root file system'')
         else
           rbind (probe_fs mem fd s) (\<lambda>(found, s).
           case found of
             None \<Rightarrow> Inl (Panic ''Cannot mount root file system'')
           | Some (fsdata, fsp) \<Rightarrow>
               rbind (fs_at fsp s) (\<lambda>fst.
               rbind (case fs_functions fst of
                        Ext2_Driver \<Rightarrow> ext2_mount (m_bytes mem) (m_name mem) (m_inode mem) (m_dir mem) (m_file mem) fsdata s
                      | No_Driver \<Rightarrow> Inl (Mem_Fault ''mount'')) (\<lambda>(mp, s).
               if mp = NULL then Inl (Panic ''Cannot mount root file system'')
               else
                 rbind (dir_at mp s) (\<lambda>d.
                 let s = dir_set mp (d\<lparr>dir_parent := mp\<rparr>) (s\<lparr>vfs_root := mp\<rparr>) in
                 rbind (vfs_mkdir mem NULL ''/dev'' FMODE_DEFAULT s) (\<lambda>(_, s).
                 blockdev_mknodes (vfs_mknod mem NULL) (s\<lparr>vfs_initialized := True\<rparr>))))))))))"

section \<open>Opening files\<close>

text \<open>The value is the code, the new file descriptor and the state. \<^verbatim>\<open>sizeof(fd_t)\<close> is 112.\<close>

definition vfs_open ::
  "fs_memory \<Rightarrow> f_ops_t \<Rightarrow> string \<Rightarrow> 'a vstate_scheme \<Rightarrow> (int \<times> u64 \<times> 'a vstate_scheme) result" where
  "vfs_open mem bops filename s =
     rbind (if current_task s = NULL then Inr NULL else current_process s) (\<lambda>process.
     rbind (get_working_dir process s) (\<lambda>wd.
     rbind (ffind mem wd filename (Some (m_target mem)) 0 s) (\<lambda>(error, node, s).
     if error < 0 then Inr (error, NULL, s)
     else
       rbind (node_value node) (\<lambda>target.
       rbind (file_at target s) (\<lambda>f.
       if file_type f = F_REGULAR then
         rbind (kmalloc 112 257 0 s) (\<lambda>(fd, s).
         rbind (kassert (file_parent f \<noteq> NULL) ''file_t has no parent!'') (\<lambda>_.
         rbind (dir_at (file_parent f) s) (\<lambda>d.
         rbind (fs_at (dir_fstype d) s) (\<lambda>fst.
         Inr (SUCCESS, fd, fd_set fd ((m_fd mem fd)\<lparr>fd_file := target, fpos := 0, f_ops := fs_f_ops fst, fs_data := target\<rparr>) s)))))
       else if file_type f = F_BLOCK then
         (case file_special f of
            Sp_Device major minor \<Rightarrow> bd_open (m_fd mem) bops (ucast major) (ucast minor) s
          | _ \<Rightarrow> Inl (Mem_Fault ''sp_file_u''))
       else if file_type f = F_DIR then Inr (- EISDIR, NULL, s)
       else Inr (- ENOSYS, NULL, s))))))"

section \<open>System calls\<close>

definition SYS_BUFFER_RANGE_CHECK :: "u64 \<Rightarrow> u64 \<Rightarrow> bool" where
  "SYS_BUFFER_RANGE_CHECK buf len \<longleftrightarrow> \<not> (buf + len > USER_BREAK)"

definition in_process :: "string \<Rightarrow> 'a kbase_scheme \<Rightarrow> u64 result" where
  "in_process msg s =
     rbind (kassert (current_task s \<noteq> NULL) msg) (\<lambda>_.
     rbind (current_process s) (\<lambda>process.
     rbind (kassert (process \<noteq> NULL) msg) (\<lambda>_. Inr process)))"

definition fdmod_release :: "u64 \<Rightarrow> 'a fstate_scheme \<Rightarrow> 'a fstate_scheme result" where
  "fdmod_release fdp s =
     rbind (fd_at fdp s) (\<lambda>d.
     rbind (mutex_unlock (fdmod d) s) (\<lambda>(m, s). Inr (fd_set fdp (d\<lparr>fdmod := m\<rparr>) s)))"

text \<open>The value is what is returned, the bytes that were stored in the buffer of the caller and the new state.\<close>

definition sys_read :: "int \<Rightarrow> u64 \<Rightarrow> u64 \<Rightarrow> 'a kstate_scheme \<Rightarrow> (int \<times> byte list \<times> 'a kstate_scheme) result" where
  "sys_read fd buf len s =
     (if \<not> SYS_BUFFER_RANGE_CHECK buf len then Inr (- EINVAL, [], s)
      else
        rbind (in_process ''sys_open() called from kernel mode. use vfs_read()'' s) (\<lambda>process.
        rbind (proc_get_fd process fd s) (\<lambda>(fdp, s).
        if fdp = NULL then Inr (- EBADF, [], s)
        else
          rbind (fd_at fdp s) (\<lambda>d.
          case fop_read (f_ops d) of
            None \<Rightarrow> rbind (fdmod_release fdp s) (\<lambda>s. Inr (- ENOTSUP, [], s))
          | Some read \<Rightarrow>
              let (ret, bytes) = read (fs_data d) len (fpos d) in
              rbind (fdmod_release fdp s) (\<lambda>s. Inr (ret, bytes, s))))))"

text \<open>\<open>bytes\<close> are the contents of the buffer at \<open>buf\<close>.\<close>

definition sys_write :: "int \<Rightarrow> u64 \<Rightarrow> byte list \<Rightarrow> u64 \<Rightarrow> 'a kstate_scheme \<Rightarrow> (int \<times> 'a kstate_scheme) result" where
  "sys_write fd buf bytes len s =
     (if \<not> SYS_BUFFER_RANGE_CHECK buf len then Inr (- EINVAL, s)
      else
        rbind (in_process ''sys_open() called from kernel mode. use vfs_write()'' s) (\<lambda>process.
        if fd = 1 then Inr (sint len, s)
        else
          rbind (proc_get_fd process fd s) (\<lambda>(fdp, s).
          if fdp = NULL then Inr (- EBADF, s)
          else
            rbind (fd_at fdp s) (\<lambda>d.
            case fop_write (f_ops d) of
              None \<Rightarrow> rbind (fdmod_release fdp s) (\<lambda>s. Inr (- ENOTSUP, s))
            | Some write \<Rightarrow>
                let ret = write (fs_data d) (take (unat len) bytes) (fpos d) in
                rbind (fdmod_release fdp s) (\<lambda>s. Inr (ret, s))))))"

definition sys_open :: "fs_memory \<Rightarrow> f_ops_t \<Rightarrow> string \<Rightarrow> 'a vstate_scheme \<Rightarrow> (int \<times> 'a vstate_scheme) result" where
  "sys_open mem bops path s =
     rbind (in_process ''sys_open() called from kernel mode. use vfs_open()'' s) (\<lambda>_.
     rbind (vfs_open mem bops path s) (\<lambda>(error, fd, s).
     if error < 0 then Inr (error, s)
     else rbind (current_process s) (\<lambda>process. proc_new_fd process fd s)))"

definition sys_close :: "int \<Rightarrow> int" where
  "sys_close fd = - ENOSYS"

section \<open>Starting a process\<close>

text \<open>
  \<^verbatim>\<open>sizeof(proc_t)\<close> is 456. The user and group and the working directory of the process are what its memory held
  (\<open>rawp\<close>); the other arguments are what the memory of the loader, the address space, the task and its context held.
\<close>

definition proc_start ::
  "fs_memory \<Rightarrow> f_ops_t \<Rightarrow> (u64 \<Rightarrow> loader_t) \<Rightarrow> (u64 \<Rightarrow> proc_t) \<Rightarrow> (u64 \<Rightarrow> vspace_t) \<Rightarrow> (u64 \<Rightarrow> task_t) \<Rightarrow> (u64 \<Rightarrow> context_t) \<Rightarrow>
   string \<Rightarrow> 'a vstate_scheme \<Rightarrow> (int \<times> 'a vstate_scheme) result" where
  "proc_start mem bops rawl rawp rawv rawt rawc filename s =
     rbind (vfs_open mem bops filename s) (\<lambda>(error, fd, s).
     if error < 0 then Inr (error, s)
     else
       rbind (loader_create rawl (m_bytes mem) fd s) (\<lambda>(ldr, s).
       if ldr = NULL then Inr (- ENOEXEC, s)
       else
         rbind (kmalloc 456 51 0 s) (\<lambda>(p, s).
         rbind (proc_base_init (case procs s p of None \<Rightarrow> rawp p | Some x \<Rightarrow> x) s) (\<lambda>(proc, s).
         rbind (vspace_create rawv s) (\<lambda>(vspace, s).
         rbind (loader_at ldr s) (\<lambda>l.
         let s = proc_set p (proc\<lparr>fd_counter := 0, proc_vspace := vspace, proc_loader := ldr, heap_brk := ldr_min_heap_break l\<rparr>) s in
         rbind (create_stack p s) (\<lambda>(stack, s).
         rbind (create_user_task rawt rawc vspace (ldr_entry_addr l) stack s) (\<lambda>(t, s).
         rbind (task_at t s) (\<lambda>task.
         let s = task_set t (task\<lparr>task_process := p\<rparr>) s in
         rbind (proc_at p s) (\<lambda>proc.
         let s = proc_set p (proc\<lparr>proc_task_list := proc_task_list proc @ [t]\<rparr>) s in
         rbind (sched_insert t s) (\<lambda>s. Inr (SUCCESS, s))))))))))))"

section \<open>Lookup in a tree of directories\<close>

text \<open>
  The specification of the lookup: a path is a list of names, each looked up in the directory that the names before it
  lead to, where a directory with another one mounted on it stands for that one. An entry whose file has not been
  fetched from the disk yet is reported as such.
\<close>

datatype walked = Found u64 | Missing | Unfetched

definition real_dir :: "'a fstate_scheme \<Rightarrow> u64 \<Rightarrow> u64" where
  "real_dir s p = (case dirs s p of None \<Rightarrow> p | Some d \<Rightarrow> if dir_mounted d \<noteq> NULL then dir_mounted d else p)"

definition dir_lookup :: "'a fstate_scheme \<Rightarrow> u64 \<Rightarrow> string \<Rightarrow> direntry_t option" where
  "dir_lookup s p name =
     (case dirs s (real_dir s p) of None \<Rightarrow> None
      | Some d \<Rightarrow> List.find (\<lambda>e. de_name e = name) (map (\<lambda>a. the (direntries s a)) (dir_files d)))"

definition subdir :: "'a fstate_scheme \<Rightarrow> u64 \<Rightarrow> u64 option" where
  "subdir s p =
     (case files s p of None \<Rightarrow> None
      | Some f \<Rightarrow> if file_type f = F_DIR then (case file_special f of Sp_Directory d \<Rightarrow> Some d | _ \<Rightarrow> None) else None)"

fun walk :: "'a fstate_scheme \<Rightarrow> u64 \<Rightarrow> string list \<Rightarrow> walked" where
  "walk s p [] = Missing"
| "walk s p (name # names) =
     (case dir_lookup s p name of None \<Rightarrow> Missing
      | Some e \<Rightarrow>
          if de_file e = NULL then Unfetched
          else if names = [] then Found (de_file e)
          else (case subdir s (de_file e) of None \<Rightarrow> Missing | Some d \<Rightarrow> walk s d names))"

fun join_path :: "string list \<Rightarrow> string" where
  "join_path [] = []"
| "join_path [name] = name"
| "join_path (name # names) = name @ CHR ''/'' # join_path names"

definition name_ok :: "string \<Rightarrow> bool" where
  "name_ok n \<longleftrightarrow> n \<noteq> [] \<and> CHR ''/'' \<notin> set n \<and> length n \<le> 255"

text \<open>
  The tree is well formed: what a directory refers to exists, its list holds directory entries, the files of entries
  exist, and a file that is a directory has one.
\<close>

definition entry_ok :: "'a fstate_scheme \<Rightarrow> u64 \<Rightarrow> bool" where
  "entry_ok s a \<longleftrightarrow> (\<exists>e. direntries s a = Some e \<and>
     (de_file e \<noteq> NULL \<longrightarrow> (\<exists>f. files s (de_file e) = Some f \<and>
        (file_type f = F_DIR \<longrightarrow> (\<exists>d. file_special f = Sp_Directory d \<and> dirs s d \<noteq> None)))))"

definition tree_ok :: "'a fstate_scheme \<Rightarrow> bool" where
  "tree_ok s \<longleftrightarrow> (\<forall>p d. dirs s p = Some d \<longrightarrow>
     (dir_mounted d \<noteq> NULL \<longrightarrow> dirs s (dir_mounted d) \<noteq> None) \<and> (\<forall>a \<in> set (dir_files d). entry_ok s a))"

lemma find_entry_ok:
  assumes "\<forall>a \<in> set as. entry_ok s a"
  shows "\<exists>r. find_entry mem as name s = Inr r \<and>
    (case r of None \<Rightarrow> List.find (\<lambda>e. de_name e = name) (map (\<lambda>a. the (direntries s a)) as) = None
     | Some a \<Rightarrow> a \<in> set as \<and> (\<exists>e. direntries s a = Some e \<and>
         List.find (\<lambda>e. de_name e = name) (map (\<lambda>a. the (direntries s a)) as) = Some e))"
  using assms
proof (induction as)
  case (Cons a as)
  then obtain e where e: "direntries s a = Some e" by (auto simp: entry_ok_def)
  from Cons obtain r where r: "find_entry mem as name s = Inr r" "case r of None \<Rightarrow> List.find (\<lambda>e. de_name e = name) (map (\<lambda>a. the (direntries s a)) as) = None
     | Some a \<Rightarrow> a \<in> set as \<and> (\<exists>e. direntries s a = Some e \<and>
         List.find (\<lambda>e. de_name e = name) (map (\<lambda>a. the (direntries s a)) as) = Some e)" by auto
  show ?case using e r by (cases "de_name e = name") (auto simp: entry_name_at_def split: option.splits)
qed simp

lemma path_head:
  assumes "\<forall>n \<in> set (name # names). name_ok n"
  shows "takeWhile (\<lambda>c. c \<noteq> CHR ''/'') (join_path (name # names) @ (if slash then ''/'' else [])) = name"
    and "drop (Suc (length name)) (join_path (name # names) @ (if slash then ''/'' else [])) =
      (if names = [] then [] else join_path names @ (if slash then ''/'' else []))"
proof -
  have n: "\<forall>c \<in> set name. c \<noteq> CHR ''/''" "name \<noteq> []" using assms by (auto simp: name_ok_def)
  show "takeWhile (\<lambda>c. c \<noteq> CHR ''/'') (join_path (name # names) @ (if slash then ''/'' else [])) = name"
    using n by (cases names) (auto simp: takeWhile_eq_all_conv)
  show "drop (Suc (length name)) (join_path (name # names) @ (if slash then ''/'' else [])) =
      (if names = [] then [] else join_path names @ (if slash then ''/'' else []))"
    by (cases names) auto
qed

text \<open>
  Where a lookup that misses a name stops: the directory, and whether the code then reads through \<^verbatim>\<open>node\<close> without
  testing it (in an empty directory, and behind a file that is no directory).
\<close>

definition dir_empty :: "'a fstate_scheme \<Rightarrow> u64 \<Rightarrow> bool" where
  "dir_empty s p \<longleftrightarrow> (case dirs s (real_dir s p) of None \<Rightarrow> True | Some d \<Rightarrow> dir_files d = [])"

fun stop_at :: "'a fstate_scheme \<Rightarrow> u64 \<Rightarrow> string list \<Rightarrow> u64 \<times> bool" where
  "stop_at s p [] = (real_dir s p, False)"
| "stop_at s p (name # names) =
     (case dir_lookup s p name of None \<Rightarrow> (real_dir s p, dir_empty s p)
      | Some e \<Rightarrow> (case subdir s (de_file e) of None \<Rightarrow> (real_dir s p, True) | Some d \<Rightarrow> stop_at s d names))"

lemma path_nonempty: "\<forall>n \<in> set names. name_ok n \<Longrightarrow> names \<noteq> [] \<Longrightarrow> join_path names \<noteq> []"
  by (induction names rule: join_path.induct) (auto simp: name_ok_def)

lemma path_last:
  assumes "\<forall>n \<in> set names. name_ok n" and "names \<noteq> []"
  shows "last (before # join_path names @ (if slash then ''/'' else [])) = CHR ''/'' \<longleftrightarrow> slash"
proof -
  have "join_path names \<noteq> [] \<and> last (join_path names) \<noteq> CHR ''/''"
    using assms by (induction names rule: join_path.induct) (auto simp: name_ok_def dest: last_in_set)
  then show ?thesis by auto
qed

lemma subdir_None: "entry_ok s a \<Longrightarrow> direntries s a = Some e \<Longrightarrow> de_file e \<noteq> NULL \<Longrightarrow>
    \<exists>f. files s (de_file e) = Some f \<and> (file_type f \<noteq> F_DIR \<longrightarrow> subdir s (de_file e) = None) \<and>
      (file_type f = F_DIR \<longrightarrow> (\<exists>d. file_special f = Sp_Directory d \<and> dirs s d \<noteq> None \<and> subdir s (de_file e) = Some d))"
  by (auto simp: entry_ok_def subdir_def)

lemma ffind_recursive_walk:
  assumes "tree_ok s" and "dirs s p \<noteq> None" and "names \<noteq> []" and "\<forall>n \<in> set names. name_ok n" and "walk s p names \<noteq> Unfetched"
  shows "ffind_recursive mem before (join_path names @ (if slash then ''/'' else [])) p node flags s =
    (case walk s p names of
       Found q \<Rightarrow> if slash \<and> subdir s q = None then Inr (- ENOTDIR, node, s)
                  else rbind (node_value node) (\<lambda>v. Inr (ffind_success flags, Some (if v \<noteq> NULL then q else v), s))
     | _ \<Rightarrow> let (d, strict) = stop_at s p names in
            rbind (if strict then node_value node else Inr (case node of None \<Rightarrow> NULL | Some v \<Rightarrow> v)) (\<lambda>v.
            rbind (ffind_noent d flags v s) (\<lambda>(ret, s). Inr (ret, node, s))))"
  using assms(2-5)
proof (induction names arbitrary: p before)
  case (Cons name names)
  let ?path = "join_path (name # names) @ (if slash then ''/'' else [])"
  let ?rest = "if names = [] then [] else join_path names @ (if slash then ''/'' else [])"
  note head = path_head [OF Cons.prems(3), of slash]
  have nm: "name_ok name" "name \<noteq> []" "\<not> length name > 255" using Cons.prems(3) by (auto simp: name_ok_def)
  obtain d0 where d0: "dirs s p = Some d0" using Cons.prems(1) by blast
  define wd where "wd = real_dir s p"
  have wd: "(if dir_mounted d0 \<noteq> NULL then dir_mounted d0 else p) = wd" by (simp add: wd_def real_dir_def d0)
  have "dir_mounted d0 \<noteq> NULL \<longrightarrow> dirs s (dir_mounted d0) \<noteq> None" using assms(1) d0 unfolding tree_ok_def by blast
  then obtain d where d: "dirs s wd = Some d" unfolding wd [symmetric] using d0 by (cases "dir_mounted d0 = NULL") auto
  have ents: "\<forall>a \<in> set (dir_files d). entry_ok s a" using assms(1) d by (auto simp: tree_ok_def)
  have look: "dir_lookup s p name = List.find (\<lambda>e. de_name e = name) (map (\<lambda>a. the (direntries s a)) (dir_files d))"
    using d by (simp add: dir_lookup_def wd_def)
  obtain found where fe: "find_entry mem (dir_files d) name s = Inr found"
    "case found of None \<Rightarrow> dir_lookup s p name = None
     | Some a \<Rightarrow> a \<in> set (dir_files d) \<and> (\<exists>e. direntries s a = Some e \<and> dir_lookup s p name = Some e)"
    using find_entry_ok [OF ents, of mem name] unfolding look by auto
  note step = ffind_recursive.simps [of mem before ?path p node flags s, unfolded Let_def, unfolded head(1), unfolded head(2)]
  have ne_rest: "(?rest = []) = (names = [])"
    using path_nonempty [of names] Cons.prems(3) by auto
  have emp: "dir_empty s p = (dir_files d = [])" using d by (simp add: dir_empty_def wd_def)
  show ?case
  proof (cases found)
    case None
    then have "dir_lookup s p name = None" using fe(2) by simp
    then show ?thesis
      unfolding step using nm(2,3) d0 d wd fe(1) None emp by (simp add: dir_at_def flip: wd_def)
  next
    case (Some a)
    then obtain e where e: "direntries s a = Some e" "dir_lookup s p name = Some e" "a \<in> set (dir_files d)"
      using fe(2) by auto
    then have ne: "dir_files d \<noteq> []" by auto
    have fl: "de_file e \<noteq> NULL" using Cons.prems(4) e(2) by (auto split: if_splits)
    obtain f where f: "files s (de_file e) = Some f" "file_type f \<noteq> F_DIR \<longrightarrow> subdir s (de_file e) = None"
      "file_type f = F_DIR \<longrightarrow> (\<exists>d. file_special f = Sp_Directory d \<and> dirs s d \<noteq> None \<and> subdir s (de_file e) = Some d)"
      using subdir_None [of s a e] ents e(1,3) fl by blast
    have base: "ffind_recursive mem before ?path p node flags s =
      (if names = [] then
         rbind (if slash then Inr (file_type f \<noteq> F_DIR) else Inr False) (\<lambda>notdir.
         if notdir then Inr (- ENOTDIR, node, s)
         else rbind (node_value node) (\<lambda>v. Inr (ffind_success flags, Some (if v \<noteq> NULL then de_file e else v), s)))
       else if file_type f \<noteq> F_DIR then rbind (node_value node) (\<lambda>v. rbind (ffind_noent wd flags v s) (\<lambda>(ret, s). Inr (ret, node, s)))
       else rbind (special_directory f) (\<lambda>sub. ffind_recursive mem (CHR ''/'') (join_path names @ (if slash then ''/'' else [])) sub node flags s))"
      unfolding step ne_rest path_last [OF Cons.prems(3,2)] using nm(2,3) d0 d wd fe(1) Some ne e(1) fl f(1)
      by (simp add: dir_at_def direntry_at_def file_at_def split del: if_split flip: wd_def cong: if_cong)
    show ?thesis
    proof (cases "names = []")
      case True
      then show ?thesis unfolding base using e(2) fl f(2,3) by auto
    next
      case False
      show ?thesis
      proof (cases "file_type f = F_DIR")
        case True
        then obtain sub where sub: "file_special f = Sp_Directory sub" "dirs s sub \<noteq> None" "subdir s (de_file e) = Some sub"
          using f(3) by auto
        have w: "walk s sub names \<noteq> Unfetched" using Cons.prems(4) e(2) fl False sub(3) by simp
        have "\<forall>n \<in> set names. name_ok n" using Cons.prems(3) by simp
        have st: "stop_at s p (name # names) = stop_at s sub names" using sub(3) e(2) by simp
        from Cons.IH [OF sub(2) False \<open>\<forall>n \<in> set names. name_ok n\<close> w, of "CHR ''/''"] show ?thesis
          unfolding base st using True False sub e(2) fl by (simp add: special_directory_def)
      next
        case nd: False
        then show ?thesis unfolding base using False f(2) e(2) fl by (simp add: wd_def)
      qed
    qed
  qed
qed simp

lemma tree_cong:
  assumes "dirs s' = dirs s" and "direntries s' = direntries s" and "files s' = files s"
  shows "tree_ok s' = tree_ok s" and "subdir s' = subdir s" and "walk s' p names = walk s p names"
proof -
  have l: "real_dir s' = real_dir s" "entry_ok s' = entry_ok s" "subdir s' = subdir s"
    using assms by (simp_all add: fun_eq_iff real_dir_def entry_ok_def subdir_def)
  have "dir_lookup s' = dir_lookup s" by (intro ext) (simp only: dir_lookup_def l assms)
  then show "walk s' p names = walk s p names"
    by (induction names arbitrary: p) (simp_all add: l cong: if_cong option.case_cong)
  show "tree_ok s' = tree_ok s" "subdir s' = subdir s" using l assms by (simp_all add: tree_ok_def)
qed

lemma ffind_ok:
  assumes "tree_ok s" and "mutex_idle (fs_tree_lock s)" and "start = (if absolute then vfs_root s else wd)" and "dirs s start \<noteq> None"
    and "names \<noteq> []" and "\<forall>n \<in> set names. name_ok n" and "path = join_path names @ (if slash then ''/'' else [])"
    and "absolute \<longrightarrow> 2 \<le> length path" and "walk s start names \<noteq> Unfetched" and "v \<noteq> NULL"
  shows "ffind mem wd ((if absolute then ''/'' else []) @ path) (Some v) 0 s =
    Inr (case walk s start names of
           Found q \<Rightarrow> if slash \<and> subdir s q = None then (- ENOTDIR, Some v, s) else (SUCCESS, Some q, s)
         | _ \<Rightarrow> (- ENOENT, Some v, s))"
proof -
  define t where "t = s\<lparr>fs_tree_lock := mutex_taken (fs_tree_lock s) s\<rparr>"
  note tc = tree_cong [of t s, unfolded t_def, simplified, folded t_def]
  have ne: "path \<noteq> []" "hd path \<noteq> CHR ''/''"
  proof -
    obtain n ns where n: "names = n # ns" using assms(5) by (cases names) auto
    then have "n \<noteq> []" "CHR ''/'' \<notin> set n" using assms(6) by (auto simp: name_ok_def)
    then show "path \<noteq> []" "hd path \<noteq> CHR ''/''" unfolding assms(7) n by (cases ns; cases n; auto)+
  qed
  have found: "ffind_recursive mem before path start (Some v) 0 t =
      Inr (case walk s start names of
           Found q \<Rightarrow> if slash \<and> subdir s q = None then (- ENOTDIR, Some v, t) else (SUCCESS, Some q, t)
         | _ \<Rightarrow> (- ENOENT, Some v, t))" for before
    using ffind_recursive_walk [of t start names mem before slash "Some v" 0] assms(1,4-7,9,10) tc
    by (auto simp: t_def node_value_def ffind_success_def ffind_noent_def FFIND_CREATE_def split: walked.splits prod.splits)
  have un: "mutex_unlock (fs_tree_lock t) t = Inr (fs_tree_lock s, t)" using assms(2) by (simp add: t_def)
  have lk: "mutex_lock (fs_tree_lock s) s = Inr (mutex_taken (fs_tree_lock s) s)" using assms(2) by simp
  have restore: "t\<lparr>fs_tree_lock := fs_tree_lock s\<rparr> = s" by (simp add: t_def)
  show ?thesis
    using assms(3,8) ne lk found un restore
    by (auto simp: ffind_def Let_def neq_Nil_conv length_Suc_conv numeral_2_eq_2 Suc_le_length_iff simp flip: t_def split: walked.splits list.splits)
qed


section \<open>A small tree\<close>

text \<open>A root directory with a directory \<^verbatim>\<open>etc\<close>, which holds a regular file \<^verbatim>\<open>motd\<close>.\<close>

definition small_node :: "ftype_t \<Rightarrow> sp_file_u \<Rightarrow> u64 \<Rightarrow> file_t" where
  "small_node ty sp parent = \<lparr>file_mode = FMODE_DEFAULT, file_type = ty, file_uid = 0, file_gid = 0, t_last_modified = 0, t_last_accessed = 0,
     t_created = 0, file_length = 5, file_inode = 0, file_driver1 = 0x5100, file_driver2 = 0, file_parent = parent, file_special = sp\<rparr>"

definition small_folder :: "u64 \<Rightarrow> u64 list \<Rightarrow> dir_t" where
  "small_folder f es = \<lparr>dir_file = f, dir_files = es, dir_parent = 0x6000, dir_mounted = 0, dir_fstype = 0x5500, dir_driver = 0x5100\<rparr>"

definition small_vfs :: vstate where
  "small_vfs = estate.extend (small_ext2\<lparr>vfs_root := 0x6000, fs_tree_lock := MUTEX_INITIALIZER,
      dirs := [0x6000 \<mapsto> small_folder 0x6100 [0x6200], 0x6300 \<mapsto> small_folder 0x6400 [0x6500]],
      direntries := [0x6200 \<mapsto> \<lparr>de_name = ''etc'', de_inode = 11, de_file = 0x6400\<rparr>, 0x6500 \<mapsto> \<lparr>de_name = ''motd'', de_inode = 12, de_file = 0x6600\<rparr>],
      files := [0x6100 \<mapsto> small_node F_DIR (Sp_Directory 0x6000) 0x6000, 0x6400 \<mapsto> small_node F_DIR (Sp_Directory 0x6300) 0x6000,
        0x6600 \<mapsto> small_node F_REGULAR Sp_None 0x6300]\<rparr>)
     \<lparr>fs_types = [0x5500 \<mapsto> ext2fs small_ops], fs_list = [0x5500], fs_list_lock = MUTEX_INITIALIZER, ramfs_instances = Map.empty, ramfs_id_counter = 1\<rparr>"

lemma small_vfs_fields:
  "vfs_root small_vfs = 0x6000" "fs_tree_lock small_vfs = MUTEX_INITIALIZER"
  "dirs small_vfs = [0x6000 \<mapsto> small_folder 0x6100 [0x6200], 0x6300 \<mapsto> small_folder 0x6400 [0x6500]]"
  "direntries small_vfs = [0x6200 \<mapsto> \<lparr>de_name = ''etc'', de_inode = 11, de_file = 0x6400\<rparr>, 0x6500 \<mapsto> \<lparr>de_name = ''motd'', de_inode = 12, de_file = 0x6600\<rparr>]"
  "files small_vfs = [0x6100 \<mapsto> small_node F_DIR (Sp_Directory 0x6000) 0x6000, 0x6400 \<mapsto> small_node F_DIR (Sp_Directory 0x6300) 0x6000,
        0x6600 \<mapsto> small_node F_REGULAR Sp_None 0x6300]"
  "fs_types small_vfs = [0x5500 \<mapsto> ext2fs small_ops]"
  by (simp_all add: small_vfs_def estate.extend_def)

lemma small_vfs_heap: "heap_inv small_vfs" "heap_budget small_vfs 4" "heap_live small_vfs = heap_live small_ext2"
proof -
  have x: "heap_inv (estate.extend s x) = heap_inv s" "heap_budget (estate.extend s x) = heap_budget s" "heap_live (estate.extend s x) = heap_live s" for s x
    by (simp_all add: estate.extend_def heap_unfold)
  have y: "heap_inv (s\<lparr>vfs_root := r, fs_tree_lock := l, dirs := a, direntries := b, files := c\<rparr>) = heap_inv s"
     "heap_budget (s\<lparr>vfs_root := r, fs_tree_lock := l, dirs := a, direntries := b, files := c\<rparr>) = heap_budget s"
     "heap_live (s\<lparr>vfs_root := r, fs_tree_lock := l, dirs := a, direntries := b, files := c\<rparr>) = heap_live s" for s :: estate and r l a b c
    by (simp_all add: heap_unfold)
  show "heap_inv small_vfs" "heap_budget small_vfs 4" "heap_live small_vfs = heap_live small_ext2"
    using small_ext2_heap unfolding small_vfs_def x y by simp_all
qed

lemma small_tree: "tree_ok small_vfs"
proof -
  have d: "p = 0x6000 \<and> d = small_folder 0x6100 [0x6200] \<or> p = 0x6300 \<and> d = small_folder 0x6400 [0x6500]" if "dirs small_vfs p = Some d" for p d
    using that by (auto simp: small_vfs_fields split: if_splits)
  have "entry_ok small_vfs 0x6200" "entry_ok small_vfs 0x6500"
    by (simp_all add: entry_ok_def small_vfs_fields small_node_def F_DIR_def F_REGULAR_def)
  then show ?thesis using d unfolding tree_ok_def by (fastforce simp: small_folder_def)
qed

definition small_memory :: fs_memory where
  "small_memory = \<lparr>m_bytes = (\<lambda>_. 0), m_name = (\<lambda>_ _. 0), m_inode = (\<lambda>_. small_inode), m_dir = (\<lambda>_. small_folder 0 []),
     m_file = (\<lambda>_. small_node F_REGULAR Sp_None 0), m_ext2 = (\<lambda>_. small_e2),
     m_fd = (\<lambda>_. \<lparr>fd_file = NULL, fpos = 0, f_ops = small_ops, fs_data = 0, fdmod = MUTEX_INITIALIZER\<lparr>mtx_magic := 0\<rparr>\<rparr>),
     m_ramfs = (\<lambda>_. \<lparr>ramfs_id = 0, ramfs_files = [], ramfs_lock = MUTEX_INITIALIZER\<lparr>mtx_magic := 0\<rparr>\<rparr>),
     m_before = (\<lambda>_. CHR 0x00), m_behind = (\<lambda>_. CHR 0x00), m_padding = (\<lambda>_. [0, 0]), m_target = 1\<rparr>"

lemma small_walk: "walk small_vfs 0x6000 [''etc'', ''motd''] = Found 0x6600" "walk small_vfs 0x6000 [''tmp''] = Missing"
  by (simp_all add: dir_lookup_def real_dir_def subdir_def small_vfs_fields small_folder_def small_node_def)


section \<open>Creating files\<close>

text \<open>No entry of a directory has the name, as the code reads the names of its entries.\<close>

definition dir_misses :: "fs_memory \<Rightarrow> u64 \<Rightarrow> string \<Rightarrow> 'a fstate_scheme \<Rightarrow> bool" where
  "dir_misses mem p name s \<longleftrightarrow> (\<exists>d. dirs s p = Some d \<and> dir_mounted d = NULL \<and> dir_files d \<noteq> [] \<and>
     find_entry mem (dir_files d) name s = Inr None)"

text \<open>A path whose first name is \<open>name\<close>.\<close>

definition path_from :: "string \<Rightarrow> string \<Rightarrow> bool" where
  "path_from name path \<longleftrightarrow> (\<exists>more. path = name @ more \<and> (more = [] \<or> hd more = CHR ''/''))"

lemma path_from_name:
  assumes "path_from name path" and "name_ok name"
  shows "takeWhile (\<lambda>c. c \<noteq> CHR ''/'') path = name"
proof -
  obtain more where m: "path = name @ more" "more = [] \<or> hd more = CHR ''/''" using assms(1) by (auto simp: path_from_def)
  have "\<forall>c \<in> set name. c \<noteq> CHR ''/''" using assms(2) by (auto simp: name_ok_def)
  then show ?thesis using m by (cases more) (auto simp: takeWhile_append)
qed

lemma ffind_recursive_misses:
  assumes "dir_misses mem p name s" and "path_from name path" and "name_ok name"
  shows "ffind_recursive mem before path p node flags s =
    rbind (ffind_noent p flags (case node of None \<Rightarrow> NULL | Some v \<Rightarrow> v) s) (\<lambda>(ret, s). Inr (ret, node, s))"
proof -
  note step = ffind_recursive.simps [of mem before path p node flags s, unfolded Let_def, unfolded path_from_name [OF assms(2,3)]]
  show ?thesis unfolding step using assms(1,3) by (auto simp: dir_misses_def dir_at_def name_ok_def)
qed

lemma find_entry_cong:
  "(\<And>a. a \<in> set as \<Longrightarrow> entry_name_at mem a s' = entry_name_at mem a s) \<Longrightarrow> find_entry mem as name s' = find_entry mem as name s"
  by (induction as) (simp_all cong: if_cong)

lemma ffind_misses:
  assumes "dir_misses mem (vfs_root s) name s" and "path_from name path" and "name_ok name" and "2 \<le> length path"
    and "mutex_idle (fs_tree_lock s)"
  shows "ffind mem wd (CHR ''/'' # path) node flags s =
    rbind (ffind_noent (vfs_root s) flags (case node of None \<Rightarrow> NULL | Some v \<Rightarrow> v) (s\<lparr>fs_tree_lock := mutex_taken (fs_tree_lock s) s\<rparr>)) (\<lambda>(ret, s').
    rbind (mutex_unlock (fs_tree_lock s') s') (\<lambda>(m, s'). Inr (ret, node, s'\<lparr>fs_tree_lock := m\<rparr>)))"
proof -
  let ?t = "s\<lparr>fs_tree_lock := mutex_taken (fs_tree_lock s) s\<rparr>"
  have fe: "find_entry mem as n ?t = find_entry mem as n s" for as n by (rule find_entry_cong) (simp add: entry_name_at_def split: option.split)
  have "dir_misses mem (vfs_root s) name ?t" using assms(1) by (simp add: dir_misses_def fe)
  from ffind_recursive_misses [OF this assms(2,3)] show ?thesis
    using assms(4,5) by (cases path rule: remdups_adj.cases) (simp_all add: ffind_def Let_def rbind_assoc split_def)
qed

lemma ffind_missing:
  assumes "dir_misses mem (vfs_root s) name s" and "path_from name path" and "name_ok name" and "2 \<le> length path"
    and "mutex_idle (fs_tree_lock s)"
  shows "ffind mem wd (CHR ''/'' # path) node 0 s = Inr (- ENOENT, node, s)"
  using ffind_misses [OF assms, of wd node 0] assms(5) by (simp add: ffind_noent_def)

lemma hstate_more_vfs:
  assumes "hstate.more s' = hstate.more s"
  shows "vfs_root s' = vfs_root s" "fs_tree_lock s' = fs_tree_lock s"
  using assms by (cases s; cases s'; simp add: fstate.defs)+

lemma heap_files [simp]: "heap_inv (s\<lparr>files := x\<rparr>) = heap_inv s" "heap_live (s\<lparr>files := x\<rparr>) = heap_live s"
    "heap_budget (s\<lparr>files := x\<rparr>) = heap_budget s" "heap_inv (s\<lparr>dirs := y\<rparr>) = heap_inv s" "heap_live (s\<lparr>dirs := y\<rparr>) = heap_live s"
    "heap_budget (s\<lparr>dirs := y\<rparr>) = heap_budget s" for s :: "'a fstate_scheme"
  by (simp_all add: heap_unfold)

lemma find_entry_append: "find_entry mem (as @ bs) name s =
    rbind (find_entry mem as name s) (\<lambda>r. case r of Some a \<Rightarrow> Inr (Some a) | None \<Rightarrow> find_entry mem bs name s)"
proof (induction as)
  case (Cons a as)
  show ?case unfolding append_Cons find_entry.simps rbind_assoc
    by (intro rbind_cong refl) (simp add: Cons.IH)
qed simp

text \<open>
  The root directory, with a list of entries that are on the heap or static, as is every directory entry.
\<close>

definition root_ok :: "'a vstate_scheme \<Rightarrow> bool" where
  "root_ok s \<longleftrightarrow> mutex_idle (fs_tree_lock s) \<and> entries_placed s \<and> heap_inv s \<and>
     (\<exists>d. dirs s (vfs_root s) = Some d \<and> files s (dir_file d) \<noteq> None \<and> (\<forall>a \<in> set (dir_files d). bd_placed s a))"

definition root_list :: "'a vstate_scheme \<Rightarrow> u64 list" where
  "root_list s = (case dirs s (vfs_root s) of None \<Rightarrow> [] | Some d \<Rightarrow> dir_files d)"

lemma vfs_mknod_ok:
  assumes ok: "root_ok s" and budget: "heap_budget s (Suc k)" and miss: "dir_misses mem (vfs_root s) name s" and nm: "name_ok name"
    and path: "path_from name path" "2 \<le> length path" and ty: "ty \<in> {F_BLOCK, F_CHAR, F_FIFO, F_SOCKET}"
  obtains a s' where "vfs_mknod mem NULL (CHR ''/'' # path) ty mode major minor s = Inr (SUCCESS, s')"
    and "root_ok s'" and "heap_budget s' k" and "root_list s' = root_list s @ [a]" and "vfs_root s' = vfs_root s"
    and "\<And>n. dir_misses mem (vfs_root s) n s \<Longrightarrow> n \<noteq> stray_name mem a mode ty \<Longrightarrow> dir_misses mem (vfs_root s) n s'"
proof -
  obtain d pf where d: "dirs s (vfs_root s) = Some d" "files s (dir_file d) = Some pf" "\<forall>a \<in> set (dir_files d). bd_placed s a"
    and inv: "mutex_idle (fs_tree_lock s)" "entries_placed s" "heap_inv s"
    using ok by (auto simp: root_ok_def)
  let ?r = "vfs_root s"
  have ndir: "ty \<noteq> F_DIR" using ty by (auto simp: F_DIR_def F_BLOCK_def F_CHAR_def F_FIFO_def F_SOCKET_def)
  show ?thesis
  proof (rule kmalloc_small [OF inv(3) budget, of 88 120 0], simp, goal_cases)
    case (1 a s1 l)
    note A = this
    note more = hstate_more_files [OF A(8)] hstate_more_vfs [OF A(8)]
    note fresh = placed_fresh [OF A(2,6,5)]
    define f where "f = (m_file mem a)\<lparr>file_mode := mode, file_uid := 0, file_gid := 0, file_inode := 0, file_driver1 := NULL,
       file_driver2 := NULL, t_created := time_now, t_last_accessed := time_now, t_last_modified := time_now,
       file_type := ty, file_length := 0, file_special := Sp_Device (ucast major) (ucast minor)\<rparr>"
    define s2 where "s2 = s1\<lparr>files := (files s)(a \<mapsto> f)\<rparr>"
    have new: "a \<notin> set (dir_files d)" "direntries s a = None" using d(3) inv(2) fresh(1) by (auto simp: entries_placed_def)
    have names: "entry_name_at mem q s2 = entry_name_at mem q s" if "q \<noteq> a" for q
      using that more by (simp add: entry_name_at_def s2_def split: option.split)
    have fe2: "find_entry mem (dir_files d) n s2 = find_entry mem (dir_files d) n s" for n
      by (rule find_entry_cong) (use new(1) names in metis)
    have miss2: "dir_misses mem ?r n s2" if "dir_misses mem ?r n s" for n
      using that d(1) more fe2 by (auto simp: dir_misses_def s2_def)
    have alloc: "falloc mem NULL ty mode s = Inr (a, s1\<lparr>files := (files s)(a \<mapsto> f\<lparr>file_special := file_special (m_file mem a)\<rparr>)\<rparr>)"
      using A(1) more by (simp add: falloc_def file_set_def f_def)
    have first: "ffind mem ?r (CHR ''/'' # path) None 0 s = Inr (- ENOENT, None, s)"
      by (rule ffind_missing [OF miss path(1) nm path(2) inv(1)])
    have lock: "fs_tree_lock s2 = fs_tree_lock s" "vfs_root s2 = ?r" "current_task s2 = current_task s" using more A(7) by (simp_all add: s2_def)
    define pf' where "pf' = (if dir_file d = a then f\<lparr>file_parent := ?r\<rparr> else pf)"
    define s' where "s' = s2\<lparr>dirs := (dirs s)(?r \<mapsto> d\<lparr>dir_files := dir_files d @ [a]\<rparr>),
        files := (files s)(a \<mapsto> f\<lparr>file_parent := ?r, file_driver1 := file_driver1 pf', file_driver2 := NULL\<rparr>)\<rparr>"
    have noent: "ffind_noent ?r FFIND_CREATE a (s2\<lparr>fs_tree_lock := m\<rparr>) = Inr (SUCCESS, s'\<lparr>fs_tree_lock := m\<rparr>)" for m
      using d(1,2) more ndir
      by (simp add: ffind_noent_def dir_at_def file_at_def file_set_def dir_set_def s2_def s'_def pf'_def FFIND_CREATE_def f_def Let_def)
    have second: "ffind mem ?r (CHR ''/'' # path) (Some a) FFIND_CREATE s2 = Inr (SUCCESS, Some a, s')"
    proof -
      have i2: "mutex_idle (fs_tree_lock s2)" using inv(1) lock by simp
      have "mutex_unlock (mutex_taken (fs_tree_lock s2) s2) (s'\<lparr>fs_tree_lock := mutex_taken (fs_tree_lock s2) s2\<rparr>) =
          Inr (fs_tree_lock s2, s'\<lparr>fs_tree_lock := mutex_taken (fs_tree_lock s2) s2\<rparr>)"
        by (rule mutex_unlock_taken [OF i2]) (simp add: s'_def)
      moreover have "s'\<lparr>fs_tree_lock := fs_tree_lock s2\<rparr> = s'" by (simp add: s'_def)
      ultimately show ?thesis
        using ffind_misses [OF miss2 [OF miss, folded lock(2)] path(1) nm path(2) i2, of ?r "Some a" FFIND_CREATE] noent
        by (simp add: lock(2))
    qed
    have upd: "f\<lparr>file_special := x, file_inode := 0, file_special := Sp_Device (ucast major) (ucast minor)\<rparr> = f" for x
      by (cases "m_file mem a") (simp add: f_def)
    have run: "vfs_mknod mem NULL (CHR ''/'' # path) ty mode major minor s = Inr (SUCCESS, s')"
      using ty first alloc second upd unfolding s2_def
      by (auto simp: vfs_mknod_def get_working_dir_def file_at_def file_set_def SUCCESS_def)
    have root: "root_ok s'" "root_list s' = root_list s @ [a]" "vfs_root s' = ?r" "heap_budget s' k"
    proof -
      have h: "heap_inv s'" "heap_live s' = heap_live s1" "heap_budget s' k" using A(2,9) by (simp_all add: s'_def s2_def)
      have pl: "bd_placed s' q" if "q = a \<or> bd_placed s q" for q using that fresh(2,3) h(2) by (auto simp: bd_placed_def)
      have "entries_placed s'" using inv(2) pl more by (auto simp: entries_placed_def s'_def s2_def)
      then show "root_ok s'" using h(1) pl d more inv(1) lock by (auto simp: root_ok_def s'_def s2_def)
      show "root_list s' = root_list s @ [a]" "vfs_root s' = ?r" "heap_budget s' k"
        using d(1) more h(3) by (simp_all add: root_list_def s'_def s2_def)
    qed
    have "dir_misses mem ?r n s'" if "dir_misses mem ?r n s" "n \<noteq> stray_name mem a mode ty" for n
    proof -
      have "entry_name_at mem q s' = entry_name_at mem q s" if "q \<in> set (dir_files d)" for q
        using that new(1) more by (auto simp: entry_name_at_def s'_def s2_def split: option.split)
      then have "find_entry mem (dir_files d) n s' = Inr None"
        using find_entry_cong [of "dir_files d" mem s' s n] that(1) d(1) by (auto simp: dir_misses_def)
      moreover have "entry_name_at mem a s' = Inr (stray_name mem a mode ty)"
        using new(2) more by (simp add: entry_name_at_def s'_def s2_def f_def)
      moreover have "dirs s' ?r = Some (d\<lparr>dir_files := dir_files d @ [a]\<rparr>)" by (simp add: s'_def)
      ultimately show ?thesis using that d(1) by (auto simp: dir_misses_def find_entry_append)
    qed
    then show ?case by (intro that [OF run root(1,4,2,3)])
  qed
qed

text \<open>
  \<^verbatim>\<open>vfs_mknod\<close> reports success but the file is lost: \<^verbatim>\<open>ffind_noent\<close> puts the address of the file into the list of
  directory entries, where the bytes of its mode are read as its name. The path is as missing as before, and so is every
  other name, unless it happens to be these bytes. Of a path with several names the first one that is missing counts:
  the node lands in that directory, here in the root.
\<close>

theorem vfs_mknod_lost:
  assumes "root_ok s" and "heap_budget s 1" and "dir_misses mem (vfs_root s) name s" and "name_ok name"
    and "path_from name path" and "2 \<le> length path" and "ty \<in> {F_BLOCK, F_CHAR, F_FIFO, F_SOCKET}"
    and "\<And>a. stray_name mem a mode ty \<noteq> name"
  shows "\<exists>a s'. vfs_mknod mem NULL (CHR ''/'' # path) ty mode major minor s = Inr (SUCCESS, s') \<and> root_list s' = root_list s @ [a] \<and>
    ffind mem wd (CHR ''/'' # path) (Some v) 0 s' = Inr (- ENOENT, Some v, s')"
proof -
  have b: "heap_budget s (Suc 0)" using assms(2) by simp
  obtain a s' where r: "vfs_mknod mem NULL (CHR ''/'' # path) ty mode major minor s = Inr (SUCCESS, s')" "root_ok s'"
    "root_list s' = root_list s @ [a]" "vfs_root s' = vfs_root s" "dir_misses mem (vfs_root s) name s'"
    using vfs_mknod_ok [OF assms(1) b assms(3-7), of mode major minor] assms(3,8) by metis
  have "mutex_idle (fs_tree_lock s')" using r(2) by (simp add: root_ok_def)
  from ffind_missing [OF _ assms(5,4,6) this, of mem wd "Some v"] show ?thesis using r by auto
qed

theorem vfs_mknod_lost_witness:
  "\<exists>a s'. vfs_mknod small_memory NULL ''/hda'' F_BLOCK BLKDEV_MODE 3 0 small_vfs = Inr (SUCCESS, s') \<and> root_list s' = [0x6200, a] \<and>
    ffind small_memory 0 ''/hda'' (Some 1) 0 s' = Inr (- ENOENT, Some 1, s')"
proof -
  have "entries_placed small_vfs" "\<forall>a \<in> set [0x6200]. bd_placed small_vfs a"
    by (auto simp: entries_placed_def small_vfs_fields bd_placed_def split: if_splits)
  then have ok: "root_ok small_vfs"
    using small_vfs_heap(1) by (simp add: root_ok_def small_vfs_fields small_folder_def)
  have b: "heap_budget small_vfs 1" using small_vfs_heap(2) by (simp add: heap_budget_def)
  have m: "dir_misses small_memory (vfs_root small_vfs) ''hda'' small_vfs"
    by (simp add: dir_misses_def small_vfs_fields small_folder_def entry_name_at_def)
  have n: "name_ok ''hda''" "path_from ''hda'' ''hda''" by (simp_all add: name_ok_def path_from_def)
  have st: "stray_name small_memory a BLKDEV_MODE F_BLOCK \<noteq> ''hda''" for a
    by (simp add: stray_name_def file_bytes_def small_memory_def mode_bits_def BLKDEV_MODE_def mode_byte_def F_BLOCK_def chars_def)
  have "root_list small_vfs = [0x6200]" by (simp add: root_list_def small_vfs_fields small_folder_def)
  then show ?thesis using vfs_mknod_lost [OF ok b m n _ _ st, of 3 0 0 1] by (simp add: F_BLOCK_def)
qed

text \<open>C0: An absolute path with one character behind the slash is taken for the root directory, whatever the character is.\<close>

theorem ffind_single_character:
  assumes "dirs s (vfs_root s) = Some d" and "v \<noteq> NULL"
  shows "ffind mem wd [CHR ''/'', c] (Some v) 0 s = Inr (SUCCESS, Some (dir_file d), s)"
  using assms by (simp add: ffind_def Let_def FFIND_CREATE_def node_value_def dir_at_def)

theorem ffind_single_character_witness:
  "ffind small_memory 0 ''/x'' (Some 1) 0 small_vfs = Inr (SUCCESS, Some 0x6100, small_vfs)"
  using ffind_single_character [of small_vfs "small_folder 0x6100 [0x6200]" 1 small_memory 0 "CHR ''x''"]
  by (simp add: small_vfs_fields small_folder_def)

text \<open>
  Creating a node or a directory at a path that exists already reads through a null pointer: \<^verbatim>\<open>vfs_mknod\<close> and
  \<^verbatim>\<open>vfs_mkdir\<close> pass no variable for the file, and the lookup reads it once it has found one. The answer \<^verbatim>\<open>-EEXIST\<close> is
  never given.
\<close>

theorem create_existing_faults:
  assumes "tree_ok s" and "mutex_idle (fs_tree_lock s)" and "dirs s (vfs_root s) \<noteq> None" and "names \<noteq> []" and "\<forall>n \<in> set names. name_ok n"
    and "2 \<le> length (join_path names)" and "walk s (vfs_root s) names = Found q" and "ty \<in> {F_BLOCK, F_CHAR, F_FIFO, F_SOCKET}"
  shows "vfs_mknod mem NULL (CHR ''/'' # join_path names) ty mode major minor s = Inl (Mem_Fault ''node'') \<and>
    vfs_mkdir mem NULL (CHR ''/'' # join_path names) mode s = Inl (Mem_Fault ''node'')"
proof -
  define t where "t = s\<lparr>fs_tree_lock := mutex_taken (fs_tree_lock s) s\<rparr>"
  note tc = tree_cong [of t s, unfolded t_def, simplified, folded t_def]
  have "ffind_recursive mem (CHR ''/'') (join_path names) (vfs_root s) None 0 t = Inl (Mem_Fault ''node'')"
    using ffind_recursive_walk [of t "vfs_root s" names mem "CHR ''/''" False None 0] assms(1,3-5,7) tc by (simp add: t_def node_value_def)
  moreover have "case join_path names of [] \<Rightarrow> False | [_] \<Rightarrow> False | _ \<Rightarrow> True" using assms(6) by (cases "join_path names" rule: remdups_adj.cases) auto
  ultimately have "ffind mem (vfs_root s) (CHR ''/'' # join_path names) None 0 s = Inl (Mem_Fault ''node'')"
    using assms(2) by (auto simp: ffind_def Let_def t_def split: list.splits)
  then show ?thesis using assms(8) by (auto simp: vfs_mknod_def vfs_mkdir_def get_working_dir_def)
qed

theorem create_existing_faults_witness:
  "vfs_mkdir small_memory NULL ''/etc'' FMODE_DEFAULT small_vfs = Inl (Mem_Fault ''node'')"
proof -
  have w: "walk small_vfs (vfs_root small_vfs) [''etc''] = Found 0x6400"
    by (simp add: dir_lookup_def real_dir_def small_vfs_fields small_folder_def)
  have p: "mutex_idle (fs_tree_lock small_vfs)" "dirs small_vfs (vfs_root small_vfs) \<noteq> None" "[''etc''] \<noteq> []" "\<forall>n \<in> set [''etc'']. name_ok n"
    "2 \<le> length (join_path [''etc''])" "F_BLOCK \<in> {F_BLOCK, F_CHAR, F_FIFO, F_SOCKET}" by (simp_all add: small_vfs_fields name_ok_def)
  show ?thesis using create_existing_faults [OF small_tree p(1-5) w p(6), of small_memory FMODE_DEFAULT 0 0] by simp
qed

section \<open>Opening and reading files\<close>

lemma hstate_more_types:
  assumes "hstate.more s' = hstate.more s"
  shows "fs_types s' = fs_types s" "fs_list s' = fs_list s"
  using assms by (cases s; cases s'; simp add: vstate.defs)+



section \<open>System calls\<close>

text \<open>
  C36: A read from an open file never returns: \<^verbatim>\<open>sys_read\<close> releases the lock of the file descriptor, which it has not
  taken, so that \<^verbatim>\<open>mutex_unlock\<close> panics, also where the file has no read function.
\<close>

theorem sys_read_panics:
  assumes "current_task s \<noteq> NULL" and "current_process s = Inr p" and "p \<noteq> NULL" and "proc_get_fd p fd s = Inr (fdp, s')"
    and "fdp \<noteq> NULL" and "fds s' fdp = Some d" and "mtx_lock (fdmod d) = 0"
    and "unat buf + unat len \<le> unat USER_BREAK"
  shows "\<exists>msg. sys_read fd buf len s = Inl (Panic msg)"
proof -
  have "unat (buf + len) = unat buf + unat len" using assms(8) by (intro unat_add_no_wrap) (simp add: USER_BREAK_def)
  then have range: "SYS_BUFFER_RANGE_CHECK buf len" using assms(8) by (simp add: SYS_BUFFER_RANGE_CHECK_def word_less_nat_alt)
  have "\<exists>msg. fdmod_release fdp s' = Inl (Panic msg)"
    using assms(6,7) by (auto simp: fdmod_release_def fd_at_def mutex_unlock_def mutex_check_magic_def kassert_def kpanic_def rbind_def)
  then show ?thesis
    using range assms(1-6)
    by (auto simp: sys_read_def in_process_def fd_at_def split: option.splits prod.splits)
qed

text \<open>
  The range check of the buffer of a system call wraps around: every address of the upper half passes it with a length
  that reaches the end of the address space, so that \<^verbatim>\<open>sys_write\<close> accepts a buffer in kernel memory.
\<close>

theorem sys_write_kernel_buffer:
  assumes "current_task s \<noteq> NULL" and "current_process s = Inr p" and "p \<noteq> NULL" and "buf \<ge> USER_BREAK"
  shows "sys_write 1 buf bytes (- buf) s = Inr (sint (- buf), s)"
  using assms by (simp add: sys_write_def SYS_BUFFER_RANGE_CHECK_def in_process_def)

definition small_process :: vstate where
  "small_process = small_vfs\<lparr>tasks := [0x7000 \<mapsto> small_task], current_task := 0x7000,
     procs := [0x2000 \<mapsto> small_proc\<lparr>fd_list := [0x5700], fd_counter := 1\<rparr>], user_fds := [0x5700 \<mapsto> \<lparr>user_fd = 0, fd_ptr = 0x5000\<rparr>],
     fds := [0x5000 \<mapsto> \<lparr>fd_file = NULL, fpos = 0, f_ops = small_ops, fs_data = 0, fdmod = MUTEX_INITIALIZER\<rparr>]\<rparr>"

lemma small_process_current: "current_task small_process \<noteq> NULL" "current_process small_process = Inr 0x2000"
  by (simp_all add: small_process_def current_process_def small_task_def)

theorem sys_read_panics_witness: "\<exists>msg. sys_read 0 0x1000 16 small_process = Inl (Panic msg)"
proof -
  let ?s = small_process and ?p = "small_proc\<lparr>fd_list := [0x5700], fd_counter := 1\<rparr>"
  have i: "procs ?s 0x2000 = Some ?p" "mutex_idle (fd_list_lock ?p)" by (simp_all add: small_process_def small_proc_def)
  define s1 where "s1 = ?s\<lparr>procs := (procs ?s)(0x2000 \<mapsto> ?p\<lparr>fd_list_lock := mutex_taken (fd_list_lock ?p) ?s\<rparr>)\<rparr>"
  have "proc_lock fd_list_lock fd_list_lock_update 0x2000 ?s = Inr s1"
    using proc_lock_idle [OF i(1), of fd_list_lock fd_list_lock_update] i(2) by (simp add: s1_def)
  moreover have "proc_unlock fd_list_lock fd_list_lock_update 0x2000 s1 = Inr ?s"
    using proc_unlock_taken [of s1 "0x2000" _ fd_list_lock ?s "fd_list_lock ?p"] i by (simp add: s1_def fun_upd_idem)
  moreover have "find_fd [0x5700] 0 s1 = Inr 0x5000" by (simp add: s1_def small_process_def)
  ultimately have g: "proc_get_fd 0x2000 0 ?s = Inr (0x5000, ?s)"
    by (simp add: proc_get_fd_def proc_at_def s1_def)
  let ?d = "\<lparr>fd_file = NULL, fpos = 0, f_ops = small_ops, fs_data = 0, fdmod = MUTEX_INITIALIZER\<rparr>"
  show ?thesis
    by (rule sys_read_panics [OF small_process_current _ g, of ?d]) (simp_all add: small_process_def MUTEX_INITIALIZER_def USER_BREAK_def)
qed

theorem sys_write_kernel_buffer_witness:
  "sys_write 1 0xFFFF800000000000 [] (- 0xFFFF800000000000) small_process = Inr (0x0000800000000000, small_process)"
  using sys_write_kernel_buffer [OF small_process_current, of "0xFFFF800000000000" "[]"] by (simp add: USER_BREAK_def)
end
