(* ===== verification/Interrupts.thy ===== *)
theory Interrupts
  imports Vfs Descriptors
begin

text \<open>
  What the kernel does when the processor enters it: the dispatch of \<^verbatim>\<open>x86/irq.c\<close> to the system calls of
  \<^verbatim>\<open>sched/syscalls.c\<close>, to the page fault handler, to the scheduler and to the handlers that drivers have subscribed,
  \<^verbatim>\<open>sched/interrupt.c\<close>.

  Arguments stand for what the processor and the drivers provide: the address register \<^verbatim>\<open>cr2\<close> of a page fault, the functions
  that handlers are (\<open>drv func dat s\<close>), the memory of the program at a buffer, where a nested interrupt saves its
  context, and the upper half of the register in which a function returns an \<^verbatim>\<open>int\<close>. Bytes sent to ports are recorded.
\<close>

section \<open>Handlers of drivers\<close>

definition IRQ_COUNT :: nat where "IRQ_COUNT = 16"

record irq_handler_t =
  handler_func :: u64
  handler_drv_data :: u64

text \<open>\<open>irq_handlers\<close> is \<^const>\<open>None\<close> before the lists have been allocated.\<close>

record istate = vstate +
  irq_handlers :: "u64 list list option"
  irq_handler_objs :: "u64 \<rightharpoonup> irq_handler_t"
  irq_ongoing :: bool
  port_output :: "(u16 \<times> u8) list"

definition outb :: "u16 \<Rightarrow> u8 \<Rightarrow> 'a istate_scheme \<Rightarrow> 'a istate_scheme" where
  "outb port val s = s\<lparr>port_output := port_output s @ [(port, val)]\<rparr>"

definition irq_kernel_init :: "'a istate_scheme \<Rightarrow> 'a istate_scheme result" where
  "irq_kernel_init s = rbind (kmalloc (32 * of_nat IRQ_COUNT) 50 0 s) (\<lambda>(_, s). Inr (s\<lparr>irq_handlers := Some (replicate IRQ_COUNT [])\<rparr>))"

definition irq_subscribe :: "nat \<Rightarrow> u64 \<Rightarrow> u64 \<Rightarrow> 'a istate_scheme \<Rightarrow> 'a istate_scheme result" where
  "irq_subscribe irq func drv s =
     rbind (if irq_ongoing s \<or> irq \<ge> IRQ_COUNT then
              rbind (kassert (\<not> irq_ongoing s) ''irq_subscribe() not available from irq context'') (\<lambda>_.
              kassert (irq < IRQ_COUNT) ''invalid IRQ subscription'')
            else Inr ()) (\<lambda>_.
     rbind (kmalloc 16 66 0 s) (\<lambda>(handler, s).
     let s = s\<lparr>irq_handler_objs := (irq_handler_objs s)(handler \<mapsto> \<lparr>handler_func = func, handler_drv_data = drv\<rparr>)\<rparr> in
     case irq_handlers s of
       None \<Rightarrow> Inl (Mem_Fault ''irq_handlers'')
     | Some hs \<Rightarrow>
         if irq < length hs then Inr (s\<lparr>irq_handlers := Some (hs[irq := hs ! irq @ [handler]])\<rparr>)
         else Inl (Mem_Fault ''irq_handlers'')))"

text \<open>The loop over the handlers of one interrupt.\<close>

fun call_handlers :: "(u64 \<Rightarrow> u64 \<Rightarrow> 'a istate_scheme \<Rightarrow> 'a istate_scheme result) \<Rightarrow> u64 list \<Rightarrow> 'a istate_scheme \<Rightarrow> 'a istate_scheme result" where
  "call_handlers drv [] s = Inr s"
| "call_handlers drv (h # hs) s =
     (case irq_handler_objs s h of None \<Rightarrow> Inl (Mem_Fault ''irq_handler_t'')
      | Some x \<Rightarrow> rbind (drv (handler_func x) (handler_drv_data x) s) (call_handlers drv hs))"

definition irq_handler :: "(u64 \<Rightarrow> u64 \<Rightarrow> 'a istate_scheme \<Rightarrow> 'a istate_scheme result) \<Rightarrow> nat \<Rightarrow> 'a istate_scheme \<Rightarrow> 'a istate_scheme result" where
  "irq_handler drv irq s =
     (case irq_handlers s of None \<Rightarrow> Inr s
      | Some hs \<Rightarrow> if irq < length hs then call_handlers drv (hs ! irq) s else Inl (Mem_Fault ''irq_handlers''))"

section \<open>System calls\<close>

datatype syscall = UNIM | Sys_Exit | Sys_Read | Sys_Write | Sys_Close | Sys_Sbrk

definition syscall_table :: "syscall list" where
  "syscall_table = [UNIM, Sys_Exit, Sys_Read, Sys_Write, Sys_Close, UNIM, UNIM, UNIM, UNIM, UNIM, UNIM, UNIM, UNIM, UNIM, Sys_Sbrk,
     UNIM, UNIM, UNIM, UNIM, UNIM]"

definition syscall_count :: u64 where
  "syscall_count = of_nat (length syscall_table)"

text \<open>
  A call through the table: \<^const>\<open>Inl\<close> the context of another task when the call does not return, else the value for \<^verbatim>\<open>rax\<close>.
  An entry without a function is the address \<^verbatim>\<open>0xdeadbeef\<close>. A call of it leaves the code of the kernel, for whatever the
  program has there; it is a fault of the model.
\<close>

definition call_syscall ::
  "(u64 \<Rightarrow> u64 \<Rightarrow> byte list) \<Rightarrow> u64 \<Rightarrow> u32 \<Rightarrow> syscall \<Rightarrow> u64 \<Rightarrow> u64 \<Rightarrow> u64 \<Rightarrow> 'a istate_scheme \<Rightarrow> ((u64 + u64) \<times> 'a istate_scheme) result" where
  "call_syscall umem nested upper entry a1 a2 a3 s =
     (case entry of
        UNIM \<Rightarrow> Inl (Mem_Fault ''call of 0xdeadbeef'')
      | Sys_Exit \<Rightarrow> rbind (sys_exit nested s) (\<lambda>(ctx, s). Inr (Inl ctx, s))
      | Sys_Read \<Rightarrow> rbind (sys_read (sint (ucast a1 :: u32)) a2 a3 s) (\<lambda>(ret, _, s). Inr (Inr (of_int ret), s))
      | Sys_Write \<Rightarrow> rbind (sys_write (sint (ucast a1 :: u32)) a2 (umem a2 a3) a3 s) (\<lambda>(ret, s). Inr (Inr (of_int ret), s))
      | Sys_Close \<Rightarrow> Inr (Inr (push_bit 32 (ucast upper) OR ucast (of_int (sys_close (sint (ucast a1 :: u32))) :: u32)), s)
      | Sys_Sbrk \<Rightarrow> rbind (sys_sbrk a1 s) (\<lambda>(ret, s). Inr (Inr ret, s)))"

section \<open>Entering the kernel\<close>

definition EXC_PAGE_FAULT :: u64 where "EXC_PAGE_FAULT = 14"
definition EXC_YIELD :: u64 where "EXC_YIELD = 31"

definition x86_exception :: "(nat \<Rightarrow> byte) \<Rightarrow> u64 \<Rightarrow> u64 \<Rightarrow> u64 \<Rightarrow> 'a fstate_scheme \<Rightarrow> (bool \<times> 'a fstate_scheme) result" where
  "x86_exception junk cr2 exc error s =
     (if exc = EXC_PAGE_FAULT then page_fault junk cr2 (bit error 0) (bit error 1) (bit error 2) (bit error 4) s
      else Inr (False, s))"

definition set_rax :: "u64 \<Rightarrow> u64 \<Rightarrow> 'a kstate_scheme \<Rightarrow> 'a kstate_scheme result" where
  "set_rax ctx v s = rbind (context_at ctx s) (\<lambda>c. Inr (s\<lparr>contexts := (contexts s)(ctx \<mapsto> c\<lparr>rax := v\<rparr>)\<rparr>))"

definition x86_irq_handler ::
  "(u64 \<Rightarrow> u64 \<Rightarrow> 'a istate_scheme \<Rightarrow> 'a istate_scheme result) \<Rightarrow> (nat \<Rightarrow> byte) \<Rightarrow> (u64 \<Rightarrow> u64 \<Rightarrow> byte list) \<Rightarrow> u64 \<Rightarrow> u64 \<Rightarrow> u32 \<Rightarrow>
   u64 \<Rightarrow> 'a istate_scheme \<Rightarrow> (u64 \<times> 'a istate_scheme) result" where
  "x86_irq_handler drv junk umem cr2 nested upper ctx s =
     rbind (context_at ctx s) (\<lambda>c.
     if ctx_irq c = 0x80 then
       if ctx_error c \<ge> syscall_count then rbind (set_rax ctx (of_int (- ENOSYS)) s) (\<lambda>s. Inr (ctx, s))
       else
         rbind (in_process ''Syscall task has no proc_t'' s) (\<lambda>_.
         rbind (rd syscall_table (unat (rax c))) (\<lambda>entry.
         rbind (call_syscall umem nested upper entry (r8 c) (r9 c) (r10 c) s) (\<lambda>(ret, s).
         case ret of Inl other \<Rightarrow> Inr (other, s) | Inr v \<Rightarrow> rbind (set_rax ctx v s) (\<lambda>s. Inr (ctx, s)))))
     else if ctx_irq c < 32 then
       if ctx_irq c = EXC_YIELD then schedule ctx s
       else
         rbind (x86_exception junk cr2 (ctx_irq c) (ctx_error c) s) (\<lambda>(resolved, s).
         rbind (kpanic resolved ''Unhandled exception'') (\<lambda>_. Inr (ctx, s)))
     else if ctx_irq c < 48 then
       let irq_id = unat (ctx_irq c - 32) in
       rbind (irq_handler drv irq_id (s\<lparr>irq_ongoing := True\<rparr>)) (\<lambda>s.
       let s = s\<lparr>irq_ongoing := False\<rparr> in
       rbind (if irq_id = 0 then schedule ctx s else Inr (ctx, s)) (\<lambda>(ctx, s).
       let s = (if irq_id \<ge> 8 then outb 0xa0 0x20 s else s) in
       Inr (ctx, outb 0x20 0x20 s)))
     else rbind (kassert False ''unknown IRQ source'') (\<lambda>_. Inr (ctx, s)))"

section \<open>What scheduling leaves alone\<close>

definition sched_frame :: "'a kstate_scheme \<Rightarrow> 'a kstate_scheme \<Rightarrow> bool" where
  "sched_frame s s' \<longleftrightarrow> contexts s' = contexts s \<and> kstate.more s' = kstate.more s"

lemma sched_frame_update [simp]:
  "sched_frame s (t\<lparr>sched_tasks := x\<rparr>) = sched_frame s t" "sched_frame s (t\<lparr>current_task := a\<rparr>) = sched_frame s t"
  "sched_frame s (t\<lparr>cr3 := b\<rparr>) = sched_frame s t" "sched_frame s (t\<lparr>tss_rsp0 := b\<rparr>) = sched_frame s t"
  "sched_frame s (task_set p y t) = sched_frame s t" "sched_frame s s"
  by (simp_all add: sched_frame_def task_set_def)

lemma rbind_InrE: "rbind m f = Inr y \<Longrightarrow> (\<And>x. m = Inr x \<Longrightarrow> f x = Inr y \<Longrightarrow> R) \<Longrightarrow> R"
  by (auto simp: rbind_eq_Inr)

lemma sched_remove_frame: "sched_remove t s = Inr s' \<Longrightarrow> sched_frame s0 s' = sched_frame s0 s"
  by (auto simp: sched_remove_def elim: rbind_InrE)

lemma task_schedulable_frame:
  assumes "task_schedulable t s = Inr (ok, s')"
  shows "sched_frame s0 s' = sched_frame s0 s"
  using assms unfolding task_schedulable_def by (auto simp: sched_remove_frame split: if_splits elim!: rbind_InrE)

lemma get_next_task_frame: "get_next_task_loop n s = Inr (t, s') \<Longrightarrow> sched_frame s0 s' = sched_frame s0 s"
proof (induction n arbitrary: s)
  case (Suc n)
  from Suc.prems obtain ok s1 where "task_schedulable (case sched_tasks s of [] \<Rightarrow> NULL | t # _ \<Rightarrow> t) (s\<lparr>sched_tasks := rotate1 (sched_tasks s)\<rparr>) = Inr (ok, s1)"
    and r: "(if ok then Inr (case sched_tasks s of [] \<Rightarrow> NULL | t # _ \<Rightarrow> t, s1) else get_next_task_loop n s1) = Inr (t, s')"
    by (auto simp: Let_def elim!: rbind_InrE)
  from task_schedulable_frame [OF this(1), of s0] have "sched_frame s0 s1 = sched_frame s0 s" by simp
  then show ?case using r Suc.IH [of s1] by (auto split: if_splits)
qed simp

lemma schedule_frame:
  assumes "schedule ctx s = Inr (ctx', s')"
  shows "sched_frame s s'"
proof (cases "sched_enabled s")
  case True
  with assms obtain t s1 where s1: "get_next_task_loop address_fuel s = Inr (t, s1)" and r: "(if current_task s1 = t then Inr (ctx, s1)
        else
          rbind (if current_task s1 \<noteq> NULL
                 then rbind (task_at (current_task s1) s1) (\<lambda>cur.
                   let s = task_set (current_task s1) (cur\<lparr>task_context := ctx\<rparr>) s1 in
                   if task_state cur = TASK_KILLED then sched_remove (current_task s) s else Inr s)
                 else Inr s1) (\<lambda>s.
          rbind (task_at t s) (\<lambda>nxt.
          rbind (if current_task s = NULL then Inr True
                 else rbind (task_at (current_task s) s) (\<lambda>cur. Inr (task_vspace cur \<noteq> task_vspace nxt))) (\<lambda>switch.
          rbind (if switch then vspace_apply (task_vspace nxt) s else Inr s) (\<lambda>s.
          Inr (task_context nxt, (set_kernel_sp (kstack_ptr nxt) s)\<lparr>current_task := t\<rparr>)))))) = Inr (ctx', s')"
    by (auto simp: schedule_def get_next_task_def elim!: rbind_InrE simp del: get_next_task_loop.simps)
  have f1: "sched_frame s s1" using get_next_task_frame [OF s1, of s] by simp
  have vs: "sched_frame s x = sched_frame s y" if "vspace_apply v y = Inr x" for v x y using that by (auto simp: vspace_apply_def elim!: rbind_InrE)
  show ?thesis using r f1
    by (auto simp: Let_def set_kernel_sp_def vs sched_remove_frame split: if_splits elim!: rbind_InrE)
qed (use assms in \<open>simp add: schedule_def\<close>)

lemma kstate_more_irq:
  assumes "kstate.more s' = kstate.more s"
  shows "port_output s' = port_output s" "irq_ongoing s' = irq_ongoing s" "irq_handlers s' = irq_handlers s" "irq_handler_objs s' = irq_handler_objs s"
  using assms by (cases s; cases s'; simp add: istate.defs)+

section \<open>Interrupts\<close>

text \<open>
  C24: An interrupt of the controllers calls the handlers of its number with \<^verbatim>\<open>irq_ongoing\<close> set and resets it; the timer
  then runs the scheduler, every other interrupt returns to the task it interrupted. At the end the interrupt is
  acknowledged exactly once, at the first controller and before that at the second one for the numbers from 8 on.
\<close>

theorem irq_acknowledged:
  assumes "contexts s ctx = Some c" and "32 \<le> unat (ctx_irq c)" and "unat (ctx_irq c) < 48"
    and "x86_irq_handler drv junk umem cr2 nested upper ctx s = Inr (ctx', s')"
  shows "\<exists>s1. irq_handler drv (unat (ctx_irq c) - 32) (s\<lparr>irq_ongoing := True\<rparr>) = Inr s1 \<and>
    port_output s' = port_output s1 @ (if 8 \<le> unat (ctx_irq c) - 32 then [(0xa0, 0x20)] else []) @ [(0x20, 0x20)] \<and> \<not> irq_ongoing s' \<and>
    (if unat (ctx_irq c) = 32 then \<exists>s2. schedule ctx (s1\<lparr>irq_ongoing := False\<rparr>) = Inr (ctx', s2) \<and> current_task s' = current_task s2
     else ctx' = ctx \<and> current_task s' = current_task s1)"
proof -
  let ?k = "unat (ctx_irq c - 32)"
  have n: "ctx_irq c \<noteq> 0x80" "\<not> ctx_irq c < 32" "ctx_irq c < 48" "?k = unat (ctx_irq c) - 32"
    using assms(2,3) by (auto simp: word_less_nat_alt unat_sub word_le_nat_alt)
  obtain s1 s2 where s1: "irq_handler drv ?k (s\<lparr>irq_ongoing := True\<rparr>) = Inr s1"
    and s2: "(if ?k = 0 then schedule ctx (s1\<lparr>irq_ongoing := False\<rparr>) else Inr (ctx, s1\<lparr>irq_ongoing := False\<rparr>)) = Inr (ctx', s2)"
    and s': "s' = outb 0x20 0x20 (if 8 \<le> ?k then outb 0xa0 0x20 s2 else s2)"
    using assms(1,4) n by (auto simp: x86_irq_handler_def context_at_def Let_def rbind_eq_Inr)
  have fr: "port_output s2 = port_output s1" "\<not> irq_ongoing s2"
    using s2 kstate_more_irq [of s2 "s1\<lparr>irq_ongoing := False\<rparr>"] by (auto simp: sched_frame_def split: if_splits dest!: schedule_frame)
  have "?k = 0 \<longleftrightarrow> unat (ctx_irq c) = 32" using n(4) assms(2) by linarith
  then show ?thesis using s1 s2 fr unfolding s' n(4) by (auto simp: outb_def split: if_splits)
qed

definition small_context :: context_t where
  "small_context = \<lparr>r15 = 0, r14 = 0, r13 = 0, r12 = 0, r11 = 0, r10 = 16, r9 = 0x1000, r8 = 1, rdi = 0, rsi = 0, rdx = 0, rcx = 0, rbx = 0,
     rax = 3, rbp = 0, gs = 0, fs = 0, ctx_irq = 0x80, ctx_error = 3, rip = 0x400000, cs = CS_USER, rflags = 0x200, rsp = 0x8000, ss = DS_USER\<rparr>"

text \<open>A program with a context that the kernel has saved at its entry, and no subscribed handlers.\<close>

definition small_entry :: "context_t \<Rightarrow> istate" where
  "small_entry c = vstate.extend (small_process\<lparr>contexts := [0x9000 \<mapsto> c]\<rparr>)
     \<lparr>irq_handlers = Some (replicate 16 []), irq_handler_objs = Map.empty, irq_ongoing = False, port_output = []\<rparr>"

lemma small_entry_fields:
  "contexts (small_entry c) = [0x9000 \<mapsto> c]" "irq_handlers (small_entry c) = Some (replicate 16 [])" "port_output (small_entry c) = []"
  "current_task (small_entry c) \<noteq> NULL" "current_process (small_entry c) = Inr 0x2000"
  using small_process_current by (simp_all add: small_entry_def vstate.extend_def current_process_def)

theorem irq_acknowledged_witness:
  "\<exists>s'. x86_irq_handler (\<lambda>_ _. Inr) (\<lambda>_. 0) (\<lambda>_ _. []) 0 0 0 0x9000 (small_entry (small_context\<lparr>ctx_irq := 46\<rparr>)) = Inr (0x9000, s') \<and>
    port_output s' = [(0xa0, 0x20), (0x20, 0x20)] \<and> \<not> irq_ongoing s'"
proof -
  let ?c = "small_context\<lparr>ctx_irq := 46\<rparr>"
  let ?s = "small_entry ?c"
  have c: "contexts ?s 0x9000 = Some ?c" "32 \<le> unat (ctx_irq ?c)" "unat (ctx_irq ?c) < 48" by (simp_all add: small_entry_fields small_context_def)
  have h: "irq_handler (\<lambda>_ _. Inr) 14 (?s\<lparr>irq_ongoing := True\<rparr>) = Inr (?s\<lparr>irq_ongoing := True\<rparr>)"
    by (simp add: irq_handler_def small_entry_fields)
  obtain s' where s': "x86_irq_handler (\<lambda>_ _. Inr) (\<lambda>_. 0) (\<lambda>_ _. []) 0 0 0 0x9000 ?s = Inr (0x9000, s')"
    using c(1) h by (simp add: x86_irq_handler_def context_at_def small_context_def Let_def)
  show ?thesis using irq_acknowledged [OF c s'] s' h by (auto simp: small_context_def small_entry_fields)
qed



text \<open>
  An exception of a program other than a page fault stops the kernel, as does a page fault that is not resolved: there
  is no way to end only the program.
\<close>

theorem exception_panics:
  assumes "contexts s ctx = Some c" and "ctx_irq c < 32" and "ctx_irq c \<noteq> EXC_YIELD"
    and "ctx_irq c = EXC_PAGE_FAULT \<Longrightarrow>
      page_fault junk cr2 (bit (ctx_error c) 0) (bit (ctx_error c) 1) (bit (ctx_error c) 2) (bit (ctx_error c) 4) s = Inr (False, s')"
  shows "x86_irq_handler drv junk umem cr2 nested upper ctx s = Inl (Panic ''Unhandled exception'')"
proof -
  have "ctx_irq c \<noteq> 0x80" using assms(2) by (auto simp: word_less_nat_alt)
  moreover have "\<exists>s'. x86_exception junk cr2 (ctx_irq c) (ctx_error c) s = Inr (False, s')"
    using assms(4) by (auto simp: x86_exception_def)
  ultimately show ?thesis using assms(1-3) by (auto simp: x86_irq_handler_def context_at_def kpanic_def)
qed

theorem exception_panics_witness:
  "x86_irq_handler (\<lambda>_ _. Inr) (\<lambda>_. 0) (\<lambda>_ _. []) 0 0 0 0x9000 (small_entry (small_context\<lparr>ctx_irq := 0\<rparr>)) = Inl (Panic ''Unhandled exception'')"
  by (rule exception_panics [where c = "small_context\<lparr>ctx_irq := 0\<rparr>"]) (simp_all add: small_entry_fields EXC_YIELD_def EXC_PAGE_FAULT_def)

section \<open>Subscriptions\<close>

text \<open>The functions and data that are subscribed to an interrupt, in the order of the calls.\<close>

definition subscribed :: "'a istate_scheme \<Rightarrow> nat \<Rightarrow> (u64 \<times> u64) list" where
  "subscribed s irq =
     (case irq_handlers s of None \<Rightarrow> []
      | Some hs \<Rightarrow> map (\<lambda>a. case irq_handler_objs s a of None \<Rightarrow> (0, 0) | Some h \<Rightarrow> (handler_func h, handler_drv_data h)) (hs ! irq))"

definition irq_inv :: "'a istate_scheme \<Rightarrow> bool" where
  "irq_inv s \<longleftrightarrow> heap_inv s \<and> (\<exists>hs. irq_handlers s = Some hs \<and> length hs = IRQ_COUNT \<and>
     (\<forall>l \<in> set hs. \<forall>a \<in> set l. irq_handler_objs s a \<noteq> None \<and> bd_placed s a))"

primrec calls :: "(u64 \<Rightarrow> u64 \<Rightarrow> 's \<Rightarrow> 's result) \<Rightarrow> (u64 \<times> u64) list \<Rightarrow> 's \<Rightarrow> 's result" where
  "calls drv [] s = Inr s"
| "calls drv (h # hs) s = rbind (drv (fst h) (snd h) s) (calls drv hs)"

lemma call_handlers_calls:
  assumes "\<And>f d t t'. irq_handler_objs t = objs \<Longrightarrow> drv f d t = Inr t' \<Longrightarrow> irq_handler_objs t' = objs" and "irq_handler_objs s = objs"
    and "\<forall>a \<in> set as. objs a \<noteq> None"
  shows "call_handlers drv as s =
    calls drv (map (\<lambda>a. case objs a of None \<Rightarrow> (0, 0) | Some h \<Rightarrow> (handler_func h, handler_drv_data h)) as) s"
  using assms(2,3)
proof (induction as arbitrary: s)
  case (Cons a as)
  obtain h where h: "objs a = Some h" using Cons.prems(2) by auto
  have "call_handlers drv as t = calls drv (map (\<lambda>a. case objs a of None \<Rightarrow> (0, 0) | Some h \<Rightarrow> (handler_func h, handler_drv_data h)) as) t"
    if "drv (handler_func h) (handler_drv_data h) s = Inr t" for t
    using Cons.IH assms(1) [OF Cons.prems(1) that] Cons.prems(2) by simp
  then show ?case using h Cons.prems(1) by (auto intro: rbind_cong)
qed simp

lemma heap_irq [simp]: "heap_inv (s\<lparr>irq_handler_objs := x, irq_handlers := y\<rparr>) = heap_inv s"
    "heap_live (s\<lparr>irq_handler_objs := x, irq_handlers := y\<rparr>) = heap_live s" for s :: "'a istate_scheme"
  by (simp_all add: heap_unfold)

lemma hstate_more_irq:
  assumes "hstate.more s' = hstate.more s"
  shows "irq_handlers s' = irq_handlers s" "irq_handler_objs s' = irq_handler_objs s"
  using assms by (cases s; cases s'; simp add: istate.defs)+

lemma irq_handler_calls:
  assumes "irq_inv s" and "irq < IRQ_COUNT"
    and "\<And>f d t t'. irq_handler_objs t = irq_handler_objs s \<Longrightarrow> drv f d t = Inr t' \<Longrightarrow> irq_handler_objs t' = irq_handler_objs s"
  shows "irq_handler drv irq s = calls drv (subscribed s irq) s"
proof -
  obtain hs where hs: "irq_handlers s = Some hs" "length hs = IRQ_COUNT" "\<forall>l \<in> set hs. \<forall>a \<in> set l. irq_handler_objs s a \<noteq> None"
    using assms(1) by (auto simp: irq_inv_def)
  then have "\<forall>a \<in> set (hs ! irq). irq_handler_objs s a \<noteq> None" using assms(2) by auto
  from call_handlers_calls [OF assms(3) refl this] show ?thesis using hs assms(2) by (simp add: irq_handler_def subscribed_def)
qed

text \<open>
  A subscription adds its function and data at the end of the calls for its interrupt and leaves those of the others
  as they are; an interrupt calls what is subscribed to it in this order.
\<close>

theorem irq_subscribe_spec:
  assumes "irq_inv s" and "heap_budget s 1" and "irq < IRQ_COUNT" and "\<not> irq_ongoing s"
  shows "\<exists>s'. irq_subscribe irq func dat s = Inr s' \<and> irq_inv s' \<and>
    (\<forall>k < IRQ_COUNT. subscribed s' k = subscribed s k @ (if k = irq then [(func, dat)] else [])) \<and>
    (\<forall>drv. (\<forall>f d t t'. irq_handler_objs t = irq_handler_objs s' \<longrightarrow> drv f d t = Inr t' \<longrightarrow> irq_handler_objs t' = irq_handler_objs s') \<longrightarrow>
      irq_handler drv irq s' = calls drv (subscribed s irq @ [(func, dat)]) s')"
proof -
  obtain hs where hs: "irq_handlers s = Some hs" "length hs = IRQ_COUNT"
    "\<forall>l \<in> set hs. \<forall>a \<in> set l. irq_handler_objs s a \<noteq> None \<and> bd_placed s a" and inv: "heap_inv s"
    using assms(1) by (auto simp: irq_inv_def)
  have b: "heap_budget s (Suc 0)" using assms(2) by simp
  show ?thesis
  proof (rule kmalloc_small [OF inv b, of 16 66 0], simp, goal_cases)
    case (1 h s1 l)
    note more = hstate_more_irq [OF 1(8)] and fresh = placed_fresh [OF 1(2,6,5)]
    define s' where "s' = s1\<lparr>irq_handler_objs := (irq_handler_objs s)(h \<mapsto> \<lparr>handler_func = func, handler_drv_data = dat\<rparr>),
        irq_handlers := Some (hs[irq := hs ! irq @ [h]])\<rparr>"
    have run: "irq_subscribe irq func dat s = Inr s'"
      using assms(3,4) 1(1) more hs by (simp add: irq_subscribe_def s'_def)
    have new: "h \<notin> set l" if "l \<in> set hs" for l using hs(3) that fresh(1) by blast
    have nth: "hs ! k \<in> set hs" if "k < IRQ_COUNT" for k using that hs(2) by simp
    have sub: "subscribed s' k = subscribed s k @ (if k = irq then [(func, dat)] else [])" if "k < IRQ_COUNT" for k
      using new [OF nth [OF that]] that hs by (auto simp: subscribed_def s'_def nth_list_update)
    have pl: "bd_placed s' a" if "a = h \<or> bd_placed s a" for a using that fresh(2,3) by (auto simp: bd_placed_def s'_def)
    have all: "\<forall>l \<in> set (hs[irq := hs ! irq @ [h]]). \<forall>a \<in> set l. irq_handler_objs s' a \<noteq> None \<and> bd_placed s' a"
    proof (intro ballI)
      fix l a assume l: "l \<in> set (hs[irq := hs ! irq @ [h]])" and a: "a \<in> set l"
      have "l = hs ! irq @ [h] \<or> l \<in> set hs" using set_update_subset_insert l by fast
      then have "a = h \<or> (irq_handler_objs s a \<noteq> None \<and> bd_placed s a)" using a hs(3) nth [OF assms(3)] by auto
      then show "irq_handler_objs s' a \<noteq> None \<and> bd_placed s' a" using pl by (auto simp: s'_def)
    qed
    have "heap_inv s'" "irq_handlers s' = Some (hs[irq := hs ! irq @ [h]])" using 1(2) by (simp_all add: s'_def)
    then have inv': "irq_inv s'" unfolding irq_inv_def using all hs(2) by (metis length_list_update)
    have "irq_handler drv irq s' = calls drv (subscribed s irq @ [(func, dat)]) s'"
      if "\<forall>f d t t'. irq_handler_objs t = irq_handler_objs s' \<longrightarrow> drv f d t = Inr t' \<longrightarrow> irq_handler_objs t' = irq_handler_objs s'" for drv
    proof -
      have "irq_handler drv irq s' = calls drv (subscribed s' irq) s'"
        by (rule irq_handler_calls [OF inv' assms(3)]) (use that in blast)
      then show ?thesis unfolding sub [OF assms(3)] by simp
    qed
    then show ?case using run inv' sub by blast
  qed
qed

theorem irq_subscribe_spec_witness:
  "\<exists>s'. irq_subscribe 14 0xABC 0xDEF (small_entry small_context) = Inr s' \<and> subscribed s' 14 = [(0xABC, 0xDEF)] \<and> subscribed s' 1 = []"
proof -
  let ?s = "small_entry small_context"
  have x: "heap_inv (vstate.extend s x) = heap_inv s" "heap_budget (vstate.extend s x) = heap_budget s" for s x
    by (simp_all add: vstate.extend_def heap_unfold)
  have y: "heap_inv (small_process\<lparr>contexts := z\<rparr>) = heap_inv small_vfs" "heap_budget (small_process\<lparr>contexts := z\<rparr>) = heap_budget small_vfs" for z
    by (simp_all add: small_process_def heap_unfold)
  have h: "heap_inv ?s" "heap_budget ?s 1"
    using small_vfs_heap(1,2) unfolding small_entry_def x y by (simp_all add: heap_budget_def)
  then have i: "irq_inv ?s" by (simp add: irq_inv_def small_entry_fields IRQ_COUNT_def)
  have "14 < IRQ_COUNT" "\<not> irq_ongoing ?s" by (simp_all add: IRQ_COUNT_def small_entry_def vstate.extend_def)
  from irq_subscribe_spec [OF i h(2) this, of "0xABC" "0xDEF"]
  obtain s' where s': "irq_subscribe 14 0xABC 0xDEF ?s = Inr s'"
    "\<forall>k < IRQ_COUNT. subscribed s' k = subscribed ?s k @ (if k = 14 then [(0xABC, 0xDEF)] else [])" by blast
  have "subscribed ?s k = []" if "k < 16" for k using that by (simp add: subscribed_def small_entry_fields)
  then show ?thesis using s'(1) s'(2) [rule_format, of 14] s'(2) [rule_format, of 1] by (simp add: IRQ_COUNT_def)
qed

section \<open>Waiting for an interrupt\<close>

text \<open>
  One round of the loop of \<^verbatim>\<open>irq_wait_until\<close>, up to the call of \<^verbatim>\<open>yield\<close>: \<open>observed\<close> is the value read at the condition, \<open>ctx\<close> where
  the yield saves the context. The value is \<^const>\<open>None\<close> when the loop ends, else the context that runs next; the loop goes
  on when the task runs again.
\<close>

definition irq_wait_until :: "u64 \<Rightarrow> u64 \<Rightarrow> u64 \<Rightarrow> 'a istate_scheme \<Rightarrow> (u64 option \<times> 'a istate_scheme) result" where
  "irq_wait_until observed val ctx s =
     rbind (kassert (\<not> irq_ongoing s) ''cannot do irq_wait in irq context'') (\<lambda>_.
     if observed = val then Inr (None, s)
     else
       rbind (task_at (current_task s) s) (\<lambda>task.
       rbind (schedule ctx (task_set (current_task s) (task\<lparr>irq_wait := True\<rparr>) s)) (\<lambda>(next_ctx, s). Inr (Some next_ctx, s))))"

text \<open>A task that waits is not run again before it is signalled.\<close>

lemma irq_wait_not_runnable:
  assumes "tasks s t = Some task"
  shows "\<not> runnable (task_set t (task\<lparr>irq_wait := True\<rparr>) s) t"
    and "irq_signal t (task_set t (task\<lparr>irq_wait := True\<rparr>) s) = Inr (task_set t (task\<lparr>irq_wait := False\<rparr>) s)"
  by (simp_all add: runnable_def task_set_def irq_signal_def task_at_def)
end
