(* ===== verification/Formatting.thy ===== *)
theory Formatting
  imports Cstring Mutexes
begin

text \<open>
  Formatted output: \<^verbatim>\<open>_sprintf\<close> of \<^verbatim>\<open>libutil/sprintf.c\<close> and the console output of \<^verbatim>\<open>debug/kprintf.c\<close>.

  The format and the strings among the arguments are lists of bytes without their terminator; reading behind the
  terminator is a fault. The destination is the list of the bytes written to it. The variable arguments are strings or
  64 bit slots. Numbers are printed by \<^const>\<open>utoa\<close> and \<^const>\<open>itoa\<close> into a local buffer of 32 bytes, at address 0 of a memory of
  its own, which holds \<open>junk\<close> before.
\<close>

datatype va_arg = Va_Str "u8 list" | Va_Word u64

section \<open>Operations\<close>

definition hex_char :: "u64 \<Rightarrow> u8" where
  "hex_char nibble = (if nibble > 0xF then 42 else if nibble \<ge> 0xA then 97 + ucast nibble - 0xA else 48 + ucast nibble)"

definition va_word :: "va_arg list \<Rightarrow> (u64 \<times> va_arg list) result" where
  "va_word as = (case as of Va_Word w # as \<Rightarrow> Inr (w, as) | _ \<Rightarrow> Inl (Mem_Fault ''va_arg''))"

definition num_buffer :: "(nat \<Rightarrow> u8) \<Rightarrow> bmem" where
  "num_buffer junk = (\<lambda>p. if unat p < 32 then Some (junk (unat p)) else None)"

definition buffer_string :: "bmem \<Rightarrow> u8 list result" where
  "buffer_string m = rbind (strlen 0 m) (\<lambda>n. Inr (map (\<lambda>i. case m (of_nat i) of Some b \<Rightarrow> b | None \<Rightarrow> 0) [0..<unat n]))"

text \<open>
  The inner loop over the characters of a number's directive. The value is the rest of the format, of the arguments and
  the bytes written. A 64 bit argument is converted to the 32 bit parameter of the printing functions.
\<close>

fun sprintf_number :: "(nat \<Rightarrow> u8) \<Rightarrow> u8 list \<Rightarrow> bool \<Rightarrow> va_arg list \<Rightarrow> (u8 list \<times> va_arg list \<times> u8 list) result" where
  "sprintf_number junk [] longValue as = Inl (Mem_Fault ''fmt'')"
| "sprintf_number junk (c # fmt) longValue as =
     (if c = 108 \<or> c = 122 then sprintf_number junk fmt True as
      else
        rbind (if c = 100 then
                 rbind (va_word as) (\<lambda>(w, as). rbind (itoa (sint (ucast w :: u32)) 0 10 (num_buffer junk)) (\<lambda>(_, m). Inr (m, as)))
               else if c = 117 then rbind (va_word as) (\<lambda>(w, as). rbind (utoa (ucast w) 0 10 (num_buffer junk)) (\<lambda>(_, m). Inr (m, as)))
               else if c = 120 then rbind (va_word as) (\<lambda>(w, as). rbind (utoa (ucast w) 0 16 (num_buffer junk)) (\<lambda>(_, m). Inr (m, as)))
               else Inr (num_buffer junk, as)) (\<lambda>(m, as).
        rbind (buffer_string m) (\<lambda>s. Inr (fmt, as, s))))"

text \<open>The nibbles of a pointer from nibble \<open>k - 1\<close> down; the processor takes the shift modulo 64.\<close>

fun sprintf_nibbles :: "nat \<Rightarrow> u64 \<Rightarrow> u8 list" where
  "sprintf_nibbles 0 ptr = []"
| "sprintf_nibbles (Suc k) ptr = hex_char (drop_bit (4 * k mod 64) ptr AND 0xf) # sprintf_nibbles k ptr"

text \<open>One directive behind its percent sign.\<close>

definition sprintf_directive :: "(nat \<Rightarrow> u8) \<Rightarrow> u8 list \<Rightarrow> va_arg list \<Rightarrow> (u8 list \<times> va_arg list \<times> u8 list) result" where
  "sprintf_directive junk fmt as =
     (case fmt of
        [] \<Rightarrow> Inl (Mem_Fault ''fmt'')
      | d # rest \<Rightarrow>
          if d = 115 then (case as of Va_Str s # as \<Rightarrow> Inr (rest, as, s) | _ \<Rightarrow> Inl (Mem_Fault ''va_arg''))
          else if d \<in> {122, 108, 48, 117, 100, 120} then sprintf_number junk fmt False as
          else if d = 112 then rbind (va_word as) (\<lambda>(w, as). Inr (rest, as, [48, 120] @ sprintf_nibbles 16 w))
          else if d = 113 then rbind (va_word as) (\<lambda>(w, as). Inr (rest, as, [48, 120] @ sprintf_nibbles 32 w))
          else if d = 99 then rbind (va_word as) (\<lambda>(w, as). Inr (rest, as, [ucast w]))
          else if d = 37 then Inr (rest, as, [37])
          else Inr (rest, as, []))"

lemma sprintf_number_shorter: "sprintf_number junk fmt l as = Inr (rest, as', out) \<Longrightarrow> length rest < length fmt"
  by (induction junk fmt l as rule: sprintf_number.induct) (auto simp: rbind_eq_Inr split: if_splits)

lemma sprintf_directive_shorter: "sprintf_directive junk fmt as = Inr (rest, as', out) \<Longrightarrow> length rest < Suc (length fmt)"
  by (auto simp: sprintf_directive_def rbind_eq_Inr dest!: sprintf_number_shorter split: list.splits if_splits va_arg.splits)

function sprintf_loop :: "(nat \<Rightarrow> u8) \<Rightarrow> u8 list \<Rightarrow> va_arg list \<Rightarrow> u8 list result" where
  "sprintf_loop junk [] as = Inr []"
| "sprintf_loop junk (c # fmt) as =
     (if c = 37 then
        rbind (sprintf_directive junk fmt as) (\<lambda>(rest, as, out). rbind (sprintf_loop junk rest as) (\<lambda>more. Inr (out @ more)))
      else rbind (sprintf_loop junk fmt as) (\<lambda>more. Inr (c # more)))"
  by pat_completeness auto
termination
  by (relation "measure (\<lambda>(_, fmt, _). length fmt)") (auto dest: sprintf_directive_shorter)

text \<open>The bytes at the destination, with the terminator.\<close>

definition sprintf :: "(nat \<Rightarrow> u8) \<Rightarrow> u8 list \<Rightarrow> va_arg list \<Rightarrow> u8 list result" where
  "sprintf junk fmt as = rbind (sprintf_loop junk fmt as) (\<lambda>out. Inr (out @ [0]))"

section \<open>What is printed\<close>

text \<open>
  A format as the pieces it is made of, with their arguments, and what each piece prints. The flag of a number says
  whether it is given with the length modifier \<^verbatim>\<open>z\<close>.
\<close>

datatype piece = Lit u8 | Str "u8 list" | Dec bool u64 | Uns bool u64 | Hex bool u64 | Ptr u64 | Chr u64 | Percent

definition modifier :: "bool \<Rightarrow> u8 list" where
  "modifier long = (if long then [122] else [])"

fun piece_fmt :: "piece \<Rightarrow> u8 list" where
  "piece_fmt (Lit c) = [c]"
| "piece_fmt (Str s) = [37, 115]"
| "piece_fmt (Dec long w) = 37 # modifier long @ [100]"
| "piece_fmt (Uns long w) = 37 # modifier long @ [117]"
| "piece_fmt (Hex long w) = 37 # modifier long @ [120]"
| "piece_fmt (Ptr w) = [37, 112]"
| "piece_fmt (Chr w) = [37, 99]"
| "piece_fmt Percent = [37, 37]"

fun piece_args :: "piece \<Rightarrow> va_arg list" where
  "piece_args (Str s) = [Va_Str s]"
| "piece_args (Dec _ w) = [Va_Word w]"
| "piece_args (Uns _ w) = [Va_Word w]"
| "piece_args (Hex _ w) = [Va_Word w]"
| "piece_args (Ptr w) = [Va_Word w]"
| "piece_args (Chr w) = [Va_Word w]"
| "piece_args _ = []"

fun piece_out :: "piece \<Rightarrow> u8 list" where
  "piece_out (Lit c) = [c]"
| "piece_out (Str s) = s"
| "piece_out (Dec _ w) = signed_numeral 10 (sint (ucast w :: u32))"
| "piece_out (Uns _ w) = numeral_of 10 (unat w mod 2 ^ 32)"
| "piece_out (Hex _ w) = numeral_of 16 (unat w mod 2 ^ 32)"
| "piece_out (Ptr w) = [48, 120] @ map (\<lambda>k. nchar (of_nat (unat w div 16 ^ k mod 16))) (rev [0..<16])"
| "piece_out (Chr w) = [ucast w]"
| "piece_out Percent = [37]"

text \<open>A literal is no percent sign; the least number of 32 bits is not printed right.\<close>

fun piece_ok :: "piece \<Rightarrow> bool" where
  "piece_ok (Lit c) \<longleftrightarrow> c \<noteq> 37"
| "piece_ok (Dec _ w) \<longleftrightarrow> sint (ucast w :: u32) \<noteq> - (2 ^ 31)"
| "piece_ok _ \<longleftrightarrow> True"

lemma buffer_string_ok:
  assumes "0 \<notin> set bs" and "length bs < 32"
  shows "buffer_string (mput (num_buffer junk) 0 (bs @ [0])) = Inr bs"
proof -
  have c: "cstr (mput (num_buffer junk) 0 (bs @ [0])) 0 bs" using assms by (intro cstr_mput) auto
  have u: "unat (of_nat (length bs) :: u64) = length bs" using assms(2) by (intro unat_of_nat_small) simp
  have "map (\<lambda>i. case mput (num_buffer junk) 0 (bs @ [0]) (of_nat i) of Some b \<Rightarrow> b | None \<Rightarrow> 0) [0..<length bs] = bs"
    using mput_get [of _ "bs @ [0]" "num_buffer junk" 0] assms(2) by (intro nth_equalityI) (simp_all add: nth_append)
  then show ?thesis using strlen_ok [OF c] u by (simp add: buffer_string_def)
qed

lemma num_buffer_writable: "writable (num_buffer junk) 0 32"
  by (auto simp: writable_def num_buffer_def unat_of_nat_small)

lemma numeral_short:
  assumes "b \<in> {10, 16}" and "v < 2 ^ 32"
  shows "length (numeral_of b v) \<le> 16"
proof -
  have "(2 :: nat) ^ 32 \<le> b ^ 16" using assms(1) by auto
  then show ?thesis using rdigits_length_power [of b v 16] assms by (auto simp: numeral_of_length)
qed

lemma number_printed:
  fixes w :: u64
  shows "rbind (utoa (ucast w) 0 10 (num_buffer junk)) (\<lambda>(_, m). buffer_string m) = Inr (numeral_of 10 (unat w mod 2 ^ 32))"
    and "rbind (utoa (ucast w) 0 16 (num_buffer junk)) (\<lambda>(_, m). buffer_string m) = Inr (numeral_of 16 (unat w mod 2 ^ 32))"
    and "sint (ucast w :: u32) \<noteq> - (2 ^ 31) \<Longrightarrow>
      rbind (itoa (sint (ucast w :: u32)) 0 10 (num_buffer junk)) (\<lambda>(_, m). buffer_string m) = Inr (signed_numeral 10 (sint (ucast w :: u32)))"
proof -
  have u: "unat (ucast w :: u32) = unat w mod 2 ^ 32" by (simp add: unsigned_ucast_eq take_bit_eq_mod)
  have p: "rbind (utoa (ucast w) 0 b (num_buffer junk)) (\<lambda>(_, m). buffer_string m) = Inr (numeral_of (unat b) (unat w mod 2 ^ 32))"
    if "b \<in> {10, 16}" for b :: u32
  proof -
    have b: "2 \<le> unat b" "unat b \<le> 36" "unat b \<in> {10, 16}" using that by auto
    have l: "length (numeral_of (unat b) (unat w mod 2 ^ 32)) \<le> 16" using b(3) by (rule numeral_short) simp
    have "utoa (ucast w) 0 b (num_buffer junk) = Inr (0, mput (num_buffer junk) 0 (numeral_of (unat b) (unat w mod 2 ^ 32) @ [0]))"
      using utoa_ok [OF b(1,2) num_buffer_writable, of "ucast w" junk] l unfolding u by simp
    then show ?thesis using buffer_string_ok [OF numeral_of_chars(1) [OF b(1,2)], of "unat w mod 2 ^ 32" junk] l by simp
  qed
  show "rbind (utoa (ucast w) 0 10 (num_buffer junk)) (\<lambda>(_, m). buffer_string m) = Inr (numeral_of 10 (unat w mod 2 ^ 32))"
    "rbind (utoa (ucast w) 0 16 (num_buffer junk)) (\<lambda>(_, m). buffer_string m) = Inr (numeral_of 16 (unat w mod 2 ^ 32))"
    using p [of 10] p [of 16] by simp_all
  let ?v = "sint (ucast w :: u32)"
  assume "?v \<noteq> - (2 ^ 31)"
  moreover have "- (2 ^ 31) \<le> ?v" "?v < 2 ^ 31" using sint_range_size [of "ucast w :: u32"] by (simp_all add: word_size)
  ultimately have v: "- (2 ^ 31) < ?v" "?v < 2 ^ 31" by simp_all
  have "length (numeral_of 10 (nat \<bar>?v\<bar>)) \<le> 16" by (rule numeral_short) (use v in simp_all)
  then have l: "length (signed_numeral 10 ?v) < 32" by (auto simp: signed_numeral_def)
  have z: "0 \<notin> set (signed_numeral 10 ?v)" using numeral_of_chars(1) [of 10] by (simp add: signed_numeral_def)
  have "itoa ?v 0 10 (num_buffer junk) = Inr (0, mput (num_buffer junk) 0 (signed_numeral 10 ?v @ [0]))"
    using itoa_ok [OF v _ _ num_buffer_writable, of 10 junk] l by simp
  then show "rbind (itoa ?v 0 10 (num_buffer junk)) (\<lambda>(_, m). buffer_string m) = Inr (signed_numeral 10 ?v)"
    using buffer_string_ok [OF z l, of junk] by simp
qed

lemma hex_char_nchar:
  assumes "n < 16"
  shows "hex_char (of_nat n) = nchar (of_nat n)"
proof -
  have "\<forall>n\<in>set [0..<16]. hex_char (of_nat n) = nchar (of_nat n)" by (simp add: upt_rec hex_char_def nchar_def word_le_nat_alt)
  then show ?thesis using assms by simp
qed

lemma nibble_of: "drop_bit (4 * k) ptr AND 0xf = of_nat (unat ptr div 16 ^ k mod 16)" for ptr :: u64
proof (rule word_unat_eq_iff [THEN iffD2])
  have "(drop_bit (4 * k) ptr AND 0xf) = take_bit 4 (drop_bit (4 * k) ptr)" by (simp add: take_bit_eq_mask mask_eq_exp_minus_1)
  then have "unat (drop_bit (4 * k) ptr AND 0xf) = take_bit 4 (drop_bit (4 * k) (unat ptr))"
    by (simp only: unsigned_take_bit_eq unat_drop_bit_eq)
  then have "unat (drop_bit (4 * k) ptr AND 0xf) = unat ptr div 16 ^ k mod 16"
    by (simp add: take_bit_eq_mod drop_bit_eq_div power_mult)
  then show "unat (drop_bit (4 * k) ptr AND 0xf) = unat (of_nat (unat ptr div 16 ^ k mod 16) :: u64)"
    by (simp add: unat_of_nat_small)
qed

lemma sprintf_nibbles_eq:
  "k \<le> 16 \<Longrightarrow> sprintf_nibbles k ptr = map (\<lambda>k. nchar (of_nat (unat ptr div 16 ^ k mod 16))) (rev [0..<k])"
  by (induction k) (simp_all add: nibble_of hex_char_nchar)

text \<open>A number printed, with what follows it in the directive.\<close>

lemma number_directive:
  assumes "rbind r (\<lambda>(_, m). buffer_string m) = Inr s"
  shows "rbind (rbind r (\<lambda>(_, m). Inr (m, as))) (\<lambda>(m, as). rbind (buffer_string m) (\<lambda>s. Inr (fmt, as, s))) = Inr (fmt, as, s)"
  using assms by (cases r) (auto simp: rbind_eq_Inr)

lemma sprintf_loop_piece:
  assumes "piece_ok p"
  shows "sprintf_loop junk (piece_fmt p @ fmt) (piece_args p @ as) = rbind (sprintf_loop junk fmt as) (\<lambda>more. Inr (piece_out p @ more))"
  using assms
  by (cases p)
    (simp_all add: sprintf_directive_def va_word_def modifier_def sprintf_nibbles_eq number_directive [OF number_printed(1)]
      number_directive [OF number_printed(2)] number_directive [OF number_printed(3)])

lemma sprintf_loop_pieces:
  "\<forall>p\<in>set ps. piece_ok p \<Longrightarrow>
    sprintf_loop junk (concat (map piece_fmt ps)) (concat (map piece_args ps)) = Inr (concat (map piece_out ps))"
  by (induction ps) (simp_all add: sprintf_loop_piece)

text \<open>
  C28: a format put together from literal characters and directives, called with the arguments the directives ask for,
  is printed as the texts of its pieces, one after the other, with a terminator: strings as they are, signed, unsigned and
  hexadecimal numbers as their numerals, pointers as sixteen hexadecimal digits behind \<^verbatim>\<open>0x\<close>. A number is printed modulo
  \<open>2 ^ 32\<close> even if the directive has a length modifier.
\<close>

theorem sprintf_spec:
  assumes "\<forall>p\<in>set ps. piece_ok p"
  shows "sprintf junk (concat (map piece_fmt ps)) (concat (map piece_args ps)) = Inr (concat (map piece_out ps) @ [0])"
  using sprintf_loop_pieces [OF assms] by (simp add: sprintf_def)

theorem sprintf_spec_witness:
  "sprintf (\<lambda>_. 7) [97, 37, 122, 117, 32, 37, 115] [Va_Word (2 ^ 32 + 42), Va_Str [111, 107]] = Inr [97, 52, 50, 32, 111, 107, 0]"
  using sprintf_spec [of "[Lit 97, Uns True (2 ^ 32 + 42), Lit 32, Str [111, 107]]" "\<lambda>_. 7"]
  by (simp add: modifier_def numeral_of_def rdigits.simps nchar_def)

section \<open>Console output\<close>

text \<open>
  \<^verbatim>\<open>debug\<close> formats into a static buffer of 2048 bytes, which is protected by a mutex outside of interrupts, and sends it
  byte by byte to port \<^verbatim>\<open>0xe9\<close>; \<open>console\<close> is what the port has received. Writing behind the buffer is a fault.
\<close>

record dbg_state = kbase +
  kprintf_buffer_lock :: mutex_t
  in_irq :: bool
  console :: "u8 list"

definition bytes :: "string \<Rightarrow> u8 list" where
  "bytes cs = map of_char cs"

definition COL_RESET :: "u8 list" where
  "COL_RESET = 27 # bytes ''[0m''"

definition debug_type :: "u8 list list" where
  "debug_type = map (\<lambda>(col, name). 27 # bytes (''['' @ col @ ''m'' @ name))
     [(''35'', '' VSPACE''), (''37'', ''   INIT''), (''37'', '' ASSERT''), (''35'', ''PAGEMGR''), (''35'', ''  KHEAP''),
      (''31'', ''    IRQ''), (''32'', ''PAGEFLT''), (''33'', ''  SCHED''), (''34'', ''FILESYS''), (''34'', ''VIRT_FS''),
      (''34'', ''   DISK''), (''36'', '' PCIBUS''), (''34'', '' BLKDEV''), (''32'', '' LOADER''), (''33'', ''   TASK''),
      (''33'', ''TASKMGR''), (''34'', ''FILESYS''), (''33'', ''PROCESS''), (''33'', ''SYSCALL''), (''32'', '' VSPACE'')]"

definition printdbg :: "u8 list \<Rightarrow> 'a dbg_state_scheme \<Rightarrow> 'a dbg_state_scheme" where
  "printdbg str s = s\<lparr>console := console s @ takeWhile (\<lambda>c. c \<noteq> 0) str\<rparr>"

definition kprintf_buffer :: "u8 list \<Rightarrow> u8 list result" where
  "kprintf_buffer out = (if length out \<le> 2048 then Inr out else Inl (Mem_Fault ''kprintf_buffer''))"

definition debug :: "(nat \<Rightarrow> u8) \<Rightarrow> u32 \<Rightarrow> u8 list \<Rightarrow> va_arg list \<Rightarrow> 'a dbg_state_scheme \<Rightarrow> 'a dbg_state_scheme result" where
  "debug junk level fmt args s =
     (if level AND 0x80000000 = 0 then Inr s
      else if in_irq s \<and> mtx_lock (kprintf_buffer_lock s) \<noteq> 0 then Inr s
      else
        rbind (if in_irq s then Inr s
               else rbind (mutex_lock (kprintf_buffer_lock s) s) (\<lambda>mtx. Inr (s\<lparr>kprintf_buffer_lock := mtx\<rparr>))) (\<lambda>s.
        rbind (rd debug_type (unat (level AND 0xff))) (\<lambda>ty.
        rbind (sprintf junk (bytes ''[%s]: '') [Va_Str ty]) (\<lambda>out.
        rbind (kprintf_buffer out) (\<lambda>out.
        let s = printdbg out s in
        rbind (sprintf junk fmt args) (\<lambda>out.
        rbind (kprintf_buffer out) (\<lambda>out.
        let s = printdbg COL_RESET (printdbg out s) in
        if in_irq s then Inr s
        else rbind (mutex_unlock (kprintf_buffer_lock s) s) (\<lambda>(mtx, s). Inr (s\<lparr>kprintf_buffer_lock := mtx\<rparr>)))))))))"

lemma debug_type_char:
  assumes "ty \<in> set debug_type"
  shows "0 \<notin> set ty" and "length ty = 12"
proof -
  have "\<forall>ty\<in>set debug_type. 0 \<notin> set ty \<and> length ty = 12" by (simp add: debug_type_def bytes_def)
  then show "0 \<notin> set ty" "length ty = 12" using assms by auto
qed

lemma takeWhile_terminated: "0 \<notin> set xs \<Longrightarrow> takeWhile (\<lambda>c. c \<noteq> 0) (xs @ 0 # ys) = xs"
  by (induction xs) auto

text \<open>
  An enabled message whose text has no zero byte and fits the buffer appears on the console behind the name of its
  source, and the lock of the buffer is free again. A message from an interrupt that comes while the buffer is in use is
  dropped.
\<close>

definition message :: "u32 \<Rightarrow> u8 list \<Rightarrow> u8 list" where
  "message level out = [91] @ debug_type ! unat (level AND 0xff) @ [93, 58, 32] @ out @ COL_RESET"

lemma debug_prints:
  assumes "level AND 0x80000000 \<noteq> 0" and "unat (level AND 0xff) < 20" and "mutex_idle (kprintf_buffer_lock s)"
    and "\<forall>p\<in>set ps. piece_ok p" and "0 \<notin> set (concat (map piece_out ps))" and "length (concat (map piece_out ps)) < 2048"
  shows "debug junk level (concat (map piece_fmt ps)) (concat (map piece_args ps)) s =
    Inr (s\<lparr>console := console s @ message level (concat (map piece_out ps))\<rparr>)"
proof -
  let ?ty = "debug_type ! unat (level AND 0xff)" and ?out = "concat (map piece_out ps)"
  have len: "length debug_type = 20" by (simp add: debug_type_def)
  then have ty: "0 \<notin> set ?ty" "length ?ty = 12" using assms(2) debug_type_char [of ?ty] by simp_all
  have "sprintf junk (bytes ''[%s]: '') [Va_Str ?ty] = Inr ([91] @ ?ty @ [93, 58, 32, 0])"
    using sprintf_loop_pieces [of "[Lit 91, Str ?ty, Lit 93, Lit 58, Lit 32]" junk] by (simp add: sprintf_def bytes_def)
  moreover have "takeWhile (\<lambda>c. c \<noteq> 0) ([91] @ ?ty @ [93, 58, 32, 0]) = [91] @ ?ty @ [93, 58, 32]"
    using takeWhile_terminated [of "[91] @ ?ty @ [93, 58, 32]" "[]"] ty(1) by simp
  moreover have "sprintf junk (concat (map piece_fmt ps)) (concat (map piece_args ps)) = Inr (?out @ [0])"
    using sprintf_loop_pieces [OF assms(4)] by (simp add: sprintf_def)
  moreover have "takeWhile (\<lambda>c. c \<noteq> 0) (?out @ [0]) = ?out" using takeWhile_terminated [OF assms(5), of "[]"] .
  moreover have "takeWhile (\<lambda>c. c \<noteq> 0) COL_RESET = COL_RESET" by (simp add: COL_RESET_def bytes_def)
  ultimately show ?thesis using assms(1,2,3,6) len ty
    by (simp add: debug_def rd_def kprintf_buffer_def printdbg_def message_def mutex_idle_iff mutex_defs spin_defs)
qed

lemma debug_dropped: "in_irq s \<Longrightarrow> mtx_lock (kprintf_buffer_lock s) \<noteq> 0 \<Longrightarrow> debug junk level fmt args s = Inr s"
  by (simp add: debug_def)
end
