(* ===== verification/Cmdline.thy ===== *)
theory Cmdline
  imports Interrupts Formatting
begin

text \<open>
  The kernel command line (\<^verbatim>\<open>init/cmdline.c\<close>): parameters \<^verbatim>\<open>name=value\<close> separated by spaces.

  A parameter is a structure of 64 bytes, the name in the first half and the value in the second, first in the stack frame
  of the parser and then on the heap. The parser does not check the lengths: a name of 32 bytes and more runs into the value,
  and a write behind the structure is a fault. The command line is given without its terminator; reading behind the terminator
  is a fault. \<open>raw\<close> are the bytes of uninitialised memory.
\<close>

record cstate = istate +
  cmd_args :: "u64 list"
  cmd_params :: "u64 \<rightharpoonup> u8 list"

section \<open>Operations\<close>

definition put_bytes :: "u8 list \<Rightarrow> nat \<Rightarrow> u8 list \<Rightarrow> u8 list result" where
  "put_bytes obj i bs =
     (if i + length bs \<le> length obj then Inr (take i obj @ bs @ drop (i + length bs) obj) else Inl (Mem_Fault ''cmdline_param_t''))"

definition string_in :: "u8 list \<Rightarrow> nat \<Rightarrow> u8 list result" where
  "string_in obj i =
     (let bs = drop i obj in if 0 \<in> set bs then Inr (takeWhile (\<lambda>b. b \<noteq> 0) bs) else Inl (Mem_Fault ''cmdline_param_t''))"

definition param_copy :: "u8 list \<Rightarrow> u8 list \<Rightarrow> u8 list result" where
  "param_copy p param =
     rbind (string_in param 0) (\<lambda>name.
     rbind (put_bytes p 0 (name @ [0])) (\<lambda>p.
     rbind (string_in param 32) (\<lambda>value. put_bytes p 32 (value @ [0]))))"

fun cmdline_loop ::
  "(u64 \<Rightarrow> nat \<Rightarrow> u8) \<Rightarrow> u8 list \<Rightarrow> bool \<Rightarrow> nat \<Rightarrow> nat \<Rightarrow> u8 list \<Rightarrow> 'a cstate_scheme \<Rightarrow> 'a cstate_scheme result" where
  "cmdline_loop raw [] mode name_ptr val_ptr param s = Inl (Mem_Fault ''cmdline'')"
| "cmdline_loop raw (c # cmdline) mode name_ptr val_ptr param s =
     (if \<not> mode then
        rbind (put_bytes param name_ptr [if c = 61 then 0 else c])
          (\<lambda>param. cmdline_loop raw cmdline (c = 61) (name_ptr + 1) val_ptr param s)
      else if c = 32 \<or> c = 0 then
        rbind (put_bytes param val_ptr [0]) (\<lambda>param.
        rbind (kmalloc 64 62 0 s) (\<lambda>(p, s).
        rbind (param_copy (map (raw p) [0..<64]) param) (\<lambda>obj.
        let s = s\<lparr>cmd_params := (cmd_params s)(p \<mapsto> obj), cmd_args := cmd_args s @ [p]\<rparr> in
        if c = 0 then Inr s else cmdline_loop raw cmdline False 0 32 param s)))
      else rbind (put_bytes param val_ptr [c]) (\<lambda>param. cmdline_loop raw cmdline True name_ptr (val_ptr + 1) param s))"

definition cmdline_parse :: "(u64 \<Rightarrow> nat \<Rightarrow> u8) \<Rightarrow> u8 list \<Rightarrow> 'a cstate_scheme \<Rightarrow> 'a cstate_scheme result" where
  "cmdline_parse raw cmdline s = cmdline_loop raw (cmdline @ [0]) False 0 32 (map (raw 0) [0..<64]) (s\<lparr>cmd_args := []\<rparr>)"

fun cmdline_find :: "u8 list \<Rightarrow> u64 list \<Rightarrow> 'a cstate_scheme \<Rightarrow> u64 result" where
  "cmdline_find param [] s = Inr NULL"
| "cmdline_find param (p # ps) s =
     (case cmd_params s p of
        None \<Rightarrow> Inl (Mem_Fault ''cmdline_param_t'')
      | Some obj \<Rightarrow> rbind (string_in obj 0) (\<lambda>name. if param = name then Inr (p + 32) else cmdline_find param ps s))"

definition cmdline_get :: "u8 list \<Rightarrow> 'a cstate_scheme \<Rightarrow> u64 result" where
  "cmdline_get param s = cmdline_find param (cmd_args s) s"

section \<open>Parsing\<close>

lemma put_bytes_ok: "i + length bs \<le> length obj \<Longrightarrow> put_bytes obj i bs = Inr (take i obj @ bs @ drop (i + length bs) obj)"
  by (simp add: put_bytes_def)

lemma string_in_ok: "0 \<notin> set bs \<Longrightarrow> drop i obj = bs @ 0 # rest \<Longrightarrow> string_in obj i = Inr bs"
  by (simp add: string_in_def takeWhile_terminated)

text \<open>A structure that holds a name and a value.\<close>

definition holds_param :: "u8 list \<Rightarrow> u8 list \<Rightarrow> u8 list \<Rightarrow> bool" where
  "holds_param obj n v \<longleftrightarrow> (\<exists>x y. obj = n @ 0 # x @ v @ 0 # y \<and> length (n @ 0 # x) = 32 \<and> length obj = 64)"

lemma holds_param_strings:
  assumes "holds_param obj n v" and "0 \<notin> set n" and "0 \<notin> set v"
  shows "string_in obj 0 = Inr n" and "string_in obj 32 = Inr v"
proof -
  obtain x y where o: "obj = n @ 0 # x @ v @ 0 # y" "length (n @ 0 # x) = 32" using assms(1) by (auto simp: holds_param_def)
  show "string_in obj 0 = Inr n" using assms(2) o(1) by (intro string_in_ok) simp_all
  have "drop (length (n @ 0 # x)) obj = v @ 0 # y" unfolding o(1) by simp
  then have "drop 32 obj = v @ 0 # y" unfolding o(2) .
  then show "string_in obj 32 = Inr v" using assms(3) by (rule string_in_ok [rotated])
qed

lemma param_copy_ok:
  assumes "holds_param param n v" and "0 \<notin> set n" and "0 \<notin> set v" and "length p = 64"
  shows "\<exists>obj. param_copy p param = Inr obj \<and> holds_param obj n v"
proof -
  have l: "length n < 32" "length v < 32" using assms(1) by (auto simp: holds_param_def)
  let ?q = "n @ 0 # drop (Suc (length n)) p"
  have "put_bytes p 0 (n @ [0]) = Inr ?q" using l assms(4) by (simp add: put_bytes_ok)
  moreover have "put_bytes ?q 32 (v @ [0]) = Inr (take 32 ?q @ (v @ [0]) @ drop (32 + Suc (length v)) ?q)"
    using l assms(4) by (simp add: put_bytes_ok)
  moreover have "holds_param (take 32 ?q @ (v @ [0]) @ drop (32 + Suc (length v)) ?q) n v"
    using l assms(4) unfolding holds_param_def
    by (intro exI [of _ "take (31 - length n) (drop (Suc (length n)) p)"] exI [of _ "drop (33 + length v) ?q"])
      (simp add: take_Cons' numeral_eq_Suc)
  ultimately show ?thesis using holds_param_strings [OF assms(1-3)] by (simp add: param_copy_def)
qed

lemma cmdline_name:
  "61 \<notin> set n \<Longrightarrow> i + length n < length param \<Longrightarrow>
   cmdline_loop raw (n @ 61 # line) False i k param s =
     cmdline_loop raw line True (Suc (i + length n)) k (take i param @ n @ 0 # drop (Suc (i + length n)) param) s"
proof (induction n arbitrary: i param)
  case (Cons c n)
  let ?param = "take i param @ c # drop (Suc i) param"
  have "cmdline_loop raw ((c # n) @ 61 # line) False i k param s = cmdline_loop raw (n @ 61 # line) False (Suc i) k ?param s"
    using Cons.prems by (simp add: put_bytes_ok)
  also have "\<dots> = cmdline_loop raw line True (Suc (Suc i + length n)) k (take (Suc i) ?param @ n @ 0 # drop (Suc (Suc i + length n)) ?param) s"
    by (rule Cons.IH) (use Cons.prems in simp_all)
  finally show ?case using Cons.prems by (simp add: take_append drop_append min_def Suc_diff_le ac_simps)
qed (simp add: put_bytes_ok)

lemma cmdline_value:
  "0 \<notin> set v \<Longrightarrow> 32 \<notin> set v \<Longrightarrow> k + length v < length param \<Longrightarrow>
   cmdline_loop raw (v @ line) True i k param s = cmdline_loop raw line True i (k + length v) (take k param @ v @ drop (k + length v) param) s"
proof (induction v arbitrary: k param)
  case (Cons c v)
  let ?param = "take k param @ c # drop (Suc k) param"
  have "cmdline_loop raw ((c # v) @ line) True i k param s = cmdline_loop raw (v @ line) True i (Suc k) ?param s"
    using Cons.prems by (simp add: put_bytes_ok)
  also have "\<dots> = cmdline_loop raw line True i (Suc k + length v) (take (Suc k) ?param @ v @ drop (Suc k + length v) ?param) s"
    by (rule Cons.IH) (use Cons.prems in simp_all)
  finally show ?case using Cons.prems by (simp add: take_append drop_append min_def Suc_diff_le ac_simps)
qed simp

definition param_ok :: "u8 list \<times> u8 list \<Rightarrow> bool" where
  "param_ok = (\<lambda>(n, v). length n < 32 \<and> length v < 32 \<and> 0 \<notin> set n \<and> 61 \<notin> set n \<and> 0 \<notin> set v \<and> 32 \<notin> set v)"

lemma cmdline_param:
  assumes "param_ok (n, v)" and "length param = 64" and "c = 0 \<or> c = 32"
  shows "\<exists>param'. length param' = 64 \<and> holds_param param' n v \<and>
    cmdline_loop raw (n @ 61 # v @ c # line) False 0 32 param s =
      rbind (kmalloc 64 62 0 s) (\<lambda>(p, s).
      rbind (param_copy (map (raw p) [0..<64]) param') (\<lambda>obj.
      let s = s\<lparr>cmd_params := (cmd_params s)(p \<mapsto> obj), cmd_args := cmd_args s @ [p]\<rparr> in
      if c = 0 then Inr s else cmdline_loop raw line False 0 32 param' s))"
proof -
  have ok: "length n < 32" "length v < 32" "61 \<notin> set n" "0 \<notin> set v" "32 \<notin> set v" using assms(1) by (auto simp: param_ok_def)
  define p1 where "p1 = n @ 0 # drop (Suc (length n)) param"
  define p2 where "p2 = take 32 p1 @ v @ drop (32 + length v) p1"
  define p3 where "p3 = take (32 + length v) p2 @ 0 # drop (33 + length v) p2"
  have l: "length p1 = 64" "length p2 = 64" using ok assms(2) by (simp_all add: p1_def p2_def)
  have "cmdline_loop raw (n @ 61 # v @ c # line) False 0 32 param s = cmdline_loop raw (v @ c # line) True (Suc (length n)) 32 p1 s"
    using cmdline_name [of n 0 param raw "v @ c # line" 32 s] ok assms(2) by (simp add: p1_def)
  also have "\<dots> = cmdline_loop raw (c # line) True (Suc (length n)) (32 + length v) p2 s"
    using cmdline_value [of v 32 p1 raw "c # line" "Suc (length n)" s] ok l(1) by (simp add: p2_def)
  finally have run: "cmdline_loop raw (n @ 61 # v @ c # line) False 0 32 param s = cmdline_loop raw (c # line) True (Suc (length n)) (32 + length v) p2 s" .
  have put: "put_bytes p2 (32 + length v) [0] = Inr p3" using ok l(2) by (simp add: put_bytes_ok p3_def)
  have p3: "p3 = take 32 p1 @ v @ 0 # drop (33 + length v) p2" using ok l(1) by (simp add: p3_def p2_def)
  have t: "take 32 p1 = n @ 0 # take (31 - length n) (drop (Suc (length n)) param)"
    using ok by (simp add: p1_def take_Cons' numeral_eq_Suc)
  have l3: "length p3 = 64" using ok l by (simp add: p3_def)
  have l32: "length (take 32 p1) = 32" using l(1) by simp
  have "holds_param p3 n v"
    using p3 l3 l32 unfolding holds_param_def t by (intro exI [of _ "take (31 - length n) (drop (Suc (length n)) param)"] exI) auto
  then show ?thesis using l3 run put assms(3) by (intro exI [of _ p3]) auto
qed

lemma hstate_more_cmdline:
  assumes "hstate.more s' = hstate.more s"
  shows "cmd_args s' = cmd_args s" "cmd_params s' = cmd_params s"
  using assms by (cases s; cases s'; simp add: cstate.defs)+

lemma heap_cmdline [simp]:
  "heap_inv (s\<lparr>cmd_params := x\<rparr>) = heap_inv s" "heap_live (s\<lparr>cmd_params := x\<rparr>) = heap_live s"
  "heap_budget (s\<lparr>cmd_params := x\<rparr>) = heap_budget s" for s :: "'a cstate_scheme"
  by (simp_all add: heap_unfold)

lemma heap_cmd_args [simp]:
  "heap_inv (s\<lparr>cmd_args := y\<rparr>) = heap_inv s" "heap_live (s\<lparr>cmd_args := y\<rparr>) = heap_live s"
  "heap_budget (s\<lparr>cmd_args := y\<rparr>) = heap_budget s" for s :: "'a cstate_scheme"
  by (simp_all add: heap_unfold)

fun cmdline_text :: "(u8 list \<times> u8 list) list \<Rightarrow> u8 list" where
  "cmdline_text [] = []"
| "cmdline_text [(n, v)] = n @ 61 # v"
| "cmdline_text ((n, v) # kvs) = n @ 61 # v @ 32 # cmdline_text kvs"

definition params_placed :: "'a cstate_scheme \<Rightarrow> bool" where
  "params_placed s \<longleftrightarrow> (\<forall>p \<in> dom (cmd_params s). bd_placed s p)"

abbreviation params_at :: "'a cstate_scheme \<Rightarrow> u64 list \<Rightarrow> (u8 list \<times> u8 list) list \<Rightarrow> bool" where
  "params_at s \<equiv> list_all2 (\<lambda>p (n, v). p + 32 \<noteq> NULL \<and> (\<exists>obj. cmd_params s p = Some obj \<and> holds_param obj n v))"

text \<open>One parameter that is stored on the heap.\<close>

lemma param_stored:
  assumes "param_ok (n, v)" and "length param = 64" and "c = 0 \<or> c = 32" and "heap_inv s" and "heap_budget s (Suc k)" and "params_placed s"
  obtains p obj s1 param' where "length param' = 64" and "holds_param obj n v" and "heap_inv s1" and "heap_budget s1 k" and "params_placed s1"
    and "cmd_params s1 = (cmd_params s)(p \<mapsto> obj)" and "p \<notin> dom (cmd_params s)" and "cmd_args s1 = cmd_args s @ [p]" and "p + 32 \<noteq> NULL"
    and "cmdline_loop raw (n @ 61 # v @ c # line) False 0 32 param s = (if c = 0 then Inr s1 else cmdline_loop raw line False 0 32 param' s1)"
proof -
  have z: "0 \<notin> set n" "0 \<notin> set v" using assms(1) by (simp_all add: param_ok_def)
  obtain param' where P: "length param' = 64" "holds_param param' n v" "cmdline_loop raw (n @ 61 # v @ c # line) False 0 32 param s =
      rbind (kmalloc 64 62 0 s) (\<lambda>(p, s).
      rbind (param_copy (map (raw p) [0..<64]) param') (\<lambda>obj.
      let s = s\<lparr>cmd_params := (cmd_params s)(p \<mapsto> obj), cmd_args := cmd_args s @ [p]\<rparr> in
      if c = 0 then Inr s else cmdline_loop raw line False 0 32 param' s))"
    using cmdline_param [OF assms(1-3), of raw line s] by blast
  show ?thesis
  proof (rule kmalloc_small [OF assms(4,5), of 64 62 0], simp, goal_cases)
    case (1 p s1 l)
    note A = this and m = hstate_more_cmdline [OF this(8)]
    obtain obj where o: "param_copy (map (raw p) [0..<64]) param' = Inr obj" "holds_param obj n v"
      using param_copy_ok [OF P(2) z, of "map (raw p) [0..<64]"] by auto
    note fresh = placed_fresh [OF A(2,6,5)]
    define s2 where "s2 = s1\<lparr>cmd_params := (cmd_params s1)(p \<mapsto> obj), cmd_args := cmd_args s1 @ [p]\<rparr>"
    have "params_placed s2"
      using assms(6) fresh(2,3) m unfolding params_placed_def s2_def by (auto simp: bd_placed_def)
    moreover have "p \<notin> dom (cmd_params s)" using fresh(1) assms(6) by (auto simp: params_placed_def)
    moreover have "unat p + 64 \<le> unat (kheap_break s1)" using heap_live_bounds(2) [OF A(2), of "unat p" l] A(4,6) by simp
    then have "unat (p + 32) = unat p + 32" by (subst unat_add_no_wrap) (use unat_lt_2p64 [of "kheap_break s1"] in simp_all)
    then have "p + 32 \<noteq> NULL" by (metis add_eq_0_iff_both_eq_0 unat_0 zero_neq_numeral)
    ultimately show ?thesis
      using that [of param' obj s2 p] P A(1,2,9) o m by (simp add: s2_def Let_def)
  qed
qed

lemma cmdline_loop_ok:
  assumes "kvs \<noteq> []" and "\<forall>kv\<in>set kvs. param_ok kv" and "length param = 64" and "heap_inv s" and "heap_budget s (length kvs + k)"
    and "params_placed s"
  shows "\<exists>ps s'. cmdline_loop raw (cmdline_text kvs @ [0]) False 0 32 param s = Inr s' \<and> cmd_args s' = cmd_args s @ ps \<and>
    params_at s' ps kvs \<and> cmd_params s \<subseteq>\<^sub>m cmd_params s' \<and> heap_inv s' \<and> heap_budget s' k \<and> params_placed s'"
  using assms
proof (induction kvs arbitrary: param s rule: cmdline_text.induct)
  case (2 n v)
  have h: "heap_budget s (Suc k)" "param_ok (n, v)" using "2.prems" by simp_all
  show ?case
  proof (rule param_stored [OF h(2) "2.prems"(3) _ "2.prems"(4) h(1) "2.prems"(6), of 0 raw "[]"], simp, goal_cases)
    case (1 p obj s1 param')
    then show ?case by (intro exI [of _ "[p]"] exI [of _ s1]) (auto simp: map_le_def)
  qed
next
  case (3 n v kv kvs)
  let ?kvs = "kv # kvs"
  have h: "heap_budget s (Suc (length ?kvs + k))" "param_ok (n, v)" "\<forall>kv\<in>set ?kvs. param_ok kv" using "3.prems" by simp_all
  show ?case
  proof (rule param_stored [OF h(2) "3.prems"(3) _ "3.prems"(4) h(1) "3.prems"(6), of 32 raw "cmdline_text ?kvs @ [0]"], simp, goal_cases)
    case (1 p obj s1 param')
    note A = this
    obtain ps s' where B: "cmdline_loop raw (cmdline_text ?kvs @ [0]) False 0 32 param' s1 = Inr s'" "cmd_args s' = cmd_args s1 @ ps"
      "params_at s' ps ?kvs" "cmd_params s1 \<subseteq>\<^sub>m cmd_params s'" "heap_inv s'" "heap_budget s' k" "params_placed s'"
      using "3.IH" [OF _ h(3) A(1,3,4,5)] by auto
    have "cmd_params s' p = Some obj" using B(4) A(6) by (auto intro: map_le_Some)
    moreover have "cmd_params s \<subseteq>\<^sub>m cmd_params s'"
      using A(6,7) by (intro map_le_trans [OF _ B(4)]) (auto simp: map_le_def)
    ultimately show ?case using A(2,8,9,10) B by (intro exI [of _ "p # ps"] exI [of _ s']) auto
  qed
qed simp

definition param_value :: "'a cstate_scheme \<Rightarrow> u64 \<Rightarrow> u8 list result" where
  "param_value s value = (case cmd_params s (value - 32) of None \<Rightarrow> Inl (Mem_Fault ''cmdline_param_t'') | Some obj \<Rightarrow> string_in obj 32)"

lemma cmdline_find_ok:
  assumes "params_at s ps kvs" and "\<forall>kv\<in>set kvs. param_ok kv"
  shows "\<exists>q. cmdline_find name ps s = Inr q \<and> (case map_of kvs name of None \<Rightarrow> q = NULL | Some v \<Rightarrow> q \<noteq> NULL \<and> param_value s q = Inr v)"
  using assms
proof (induction ps kvs rule: list_all2_induct)
  case (Cons p ps kv kvs)
  obtain n v obj where kv: "kv = (n, v)" "cmd_params s p = Some obj" "holds_param obj n v" using Cons.hyps(1) by auto
  moreover have "0 \<notin> set n" "0 \<notin> set v" using Cons.prems(1) kv(1) by (simp_all add: param_ok_def)
  ultimately have "string_in obj 0 = Inr n" "string_in obj 32 = Inr v" using holds_param_strings by blast+
  then show ?case using Cons kv by (auto simp: param_value_def)
qed simp

text \<open>
  C40: the command line \<^verbatim>\<open>n1=v1 n2=v2 ...\<close> is parsed so that \<^verbatim>\<open>cmdline_get\<close> finds for each name the value of its first
  parameter, and returns NULL for a name that is not there, provided that names and values have at most 31 characters
  and no separator inside.
\<close>

theorem cmdline_roundtrip:
  assumes "kvs \<noteq> []" and "\<forall>kv\<in>set kvs. param_ok kv" and "heap_inv s" and "heap_budget s (length kvs)" and "params_placed s"
  shows "\<exists>s'. cmdline_parse raw (cmdline_text kvs) s = Inr s' \<and>
    (\<forall>name. \<exists>q. cmdline_get name s' = Inr q \<and>
      (case map_of kvs name of None \<Rightarrow> q = NULL | Some v \<Rightarrow> q \<noteq> NULL \<and> param_value s' q = Inr v))"
proof -
  have "params_placed (s\<lparr>cmd_args := []\<rparr>)" using assms(5) by (auto simp: params_placed_def bd_placed_def)
  then obtain ps s' where "cmdline_parse raw (cmdline_text kvs) s = Inr s'" "cmd_args s' = ps" "params_at s' ps kvs"
    using cmdline_loop_ok [OF assms(1,2), of "map (raw 0) [0..<64]" "s\<lparr>cmd_args := []\<rparr>" 0 raw] assms(3,4)
    by (auto simp: cmdline_parse_def)
  then show ?thesis using cmdline_find_ok [OF _ assms(2), of s' ps] by (auto simp: cmdline_get_def)
qed

definition small_cmdline :: cstate where
  "small_cmdline = istate.extend (small_entry small_context) \<lparr>cmd_args = [], cmd_params = Map.empty\<rparr>"

lemma small_cmdline_heap: "heap_inv small_cmdline" "heap_budget small_cmdline 2" "params_placed small_cmdline"
proof -
  have x: "heap_inv (istate.extend (vstate.extend (small_process\<lparr>contexts := z\<rparr>) x) y) = heap_inv small_vfs"
    "heap_budget (istate.extend (vstate.extend (small_process\<lparr>contexts := z\<rparr>) x) y) = heap_budget small_vfs" for x y z
    by (simp_all add: istate.extend_def vstate.extend_def small_process_def heap_unfold)
  show "heap_inv small_cmdline" "heap_budget small_cmdline 2"
    using small_vfs_heap(1,2) unfolding small_cmdline_def small_entry_def x by (simp_all add: heap_budget_def)
  show "params_placed small_cmdline" by (simp add: small_cmdline_def params_placed_def istate.extend_def)
qed

theorem cmdline_roundtrip_witness:
  "\<exists>s' q. cmdline_parse (\<lambda>_ _. 7) (bytes ''rootfs=rd0 init=/sh'') small_cmdline = Inr s' \<and>
    cmdline_get (bytes ''init'') s' = Inr q \<and> param_value s' q = Inr (bytes ''/sh'') \<and> cmdline_get (bytes ''debug'') s' = Inr NULL"
proof -
  let ?kvs = "[(bytes ''rootfs'', bytes ''rd0''), (bytes ''init'', bytes ''/sh'')]"
  have t: "cmdline_text ?kvs = bytes ''rootfs=rd0 init=/sh''" by (simp add: bytes_def)
  have "\<forall>kv\<in>set ?kvs. param_ok kv" by (simp add: param_ok_def bytes_def)
  from cmdline_roundtrip [OF _ this small_cmdline_heap(1) _ small_cmdline_heap(3), of "\<lambda>_ _. 7"]
  obtain s' where s': "cmdline_parse (\<lambda>_ _. 7) (bytes ''rootfs=rd0 init=/sh'') small_cmdline = Inr s'"
    "\<And>name. \<exists>q. cmdline_get name s' = Inr q \<and>
      (case map_of ?kvs name of None \<Rightarrow> q = NULL | Some v \<Rightarrow> q \<noteq> NULL \<and> param_value s' q = Inr v)"
    using small_cmdline_heap(2) unfolding t by (auto simp: numeral_2_eq_2)
  have "map_of ?kvs (bytes ''init'') = Some (bytes ''/sh'')" "map_of ?kvs (bytes ''debug'') = None" by (simp_all add: bytes_def)
  then show ?thesis using s'(1) s'(2) [of "bytes ''init''"] s'(2) [of "bytes ''debug''"] by (auto simp del: map_of.simps)
qed

text \<open>A command line without a parameter, for example an empty one, makes the parser run past its end.\<close>

lemma cmdline_loop_faults: "61 \<notin> set bs \<Longrightarrow> \<exists>f. cmdline_loop raw bs False i k param s = Inl (Mem_Fault f)"
  by (induction bs arbitrary: i param) (auto simp: put_bytes_def)

lemma cmdline_parse_faults: "61 \<notin> set bs \<Longrightarrow> \<exists>f. cmdline_parse raw bs s = Inl (Mem_Fault f)"
  using cmdline_loop_faults [of "bs @ [0]"] by (simp add: cmdline_parse_def)
end
