(* ===== verification/Pci.thy ===== *)
theory Pci
  imports Cmdline
begin

text \<open>
  The PCI bus: the accesses to the configuration space of \<^verbatim>\<open>drivers/pc/pci.c\<close> and the enumeration of the devices and the binding
  of drivers of \<^verbatim>\<open>bus/pci.c\<close>.

  What the devices of the machine do is an argument: \<open>io\<close> holds the functions of the port instructions of the processor on the state
  \<open>hw\<close> of the devices. The theorems assume of it what configuration mechanism 1 of the PCI bus promises (\<open>config_mechanism\<close>).
  \<open>raw p\<close> is what the memory at \<open>p\<close> holds when it has been allocated; the probe function of a driver is an argument.
\<close>

section \<open>Ports\<close>

record 'w io_ports =
  io_inb :: "u16 \<Rightarrow> 'w \<Rightarrow> u8 \<times> 'w"
  io_inw :: "u16 \<Rightarrow> 'w \<Rightarrow> u16 \<times> 'w"
  io_inl :: "u16 \<Rightarrow> 'w \<Rightarrow> u32 \<times> 'w"
  io_outb :: "u16 \<Rightarrow> u8 \<Rightarrow> 'w \<Rightarrow> 'w"
  io_outl :: "u16 \<Rightarrow> u32 \<Rightarrow> 'w \<Rightarrow> 'w"

section \<open>Structures\<close>

definition PCI_VENDOR_ID :: u8 where "PCI_VENDOR_ID = 0x00"
definition PCI_DEVICE_ID :: u8 where "PCI_DEVICE_ID = 0x02"
definition PCI_COMMAND :: u8 where "PCI_COMMAND = 0x04"
definition PCI_REVISION :: u8 where "PCI_REVISION = 0x08"
definition PCI_SUBCLASS :: u8 where "PCI_SUBCLASS = 0x0a"
definition PCI_CLASS :: u8 where "PCI_CLASS = 0x0b"
definition PCI_BAR0 :: u8 where "PCI_BAR0 = 0x10"

record pci_idpair_t =
  vendor :: u16
  device :: u16

record pci_dev_t =
  pd_bus :: u8
  pd_slot :: u8
  pd_func :: u8
  pd_id :: pci_idpair_t
  pd_driver :: u64
  pd_driver_data :: u64

record 'w dstate = cstate +
  hw :: 'w
  pci_spinlock :: spin_t
  pci_devs :: "u64 \<rightharpoonup> pci_dev_t"
  device_list :: "u64 list"
  device_list_lock :: mutex_t
  pci_initialized :: bool

definition pci_dev_at :: "u64 \<Rightarrow> ('w, 'a) dstate_scheme \<Rightarrow> pci_dev_t result" where
  "pci_dev_at p s = (case pci_devs s p of None \<Rightarrow> Inl (Mem_Fault ''pci_dev_t'') | Some d \<Rightarrow> Inr d)"

section \<open>Access to the configuration space\<close>

definition CONFIG_ADDRESS :: u16 where "CONFIG_ADDRESS = 0xcf8"
definition CONFIG_DATA :: u16 where "CONFIG_DATA = 0xcfc"

definition config_address :: "pci_dev_t \<Rightarrow> u8 \<Rightarrow> u32" where
  "config_address dev offset =
     push_bit 16 (ucast (pd_bus dev)) OR push_bit 11 (ucast (pd_slot dev)) OR push_bit 8 (ucast (pd_func dev)) OR
     (ucast offset AND 0xfc) OR ucast (BIT 31)"

definition pci_read32 :: "('w, 'x) io_ports_scheme \<Rightarrow> pci_dev_t \<Rightarrow> u8 \<Rightarrow> ('w, 'a) dstate_scheme \<Rightarrow> (u32 \<times> ('w, 'a) dstate_scheme) result" where
  "pci_read32 io dev offset s =
     rbind (spin_lock (pci_spinlock s)) (\<lambda>spin.
     let (ret, w) = io_inl io CONFIG_DATA (io_outl io CONFIG_ADDRESS (config_address dev offset) (hw s)) in
     rbind (spin_unlock spin) (\<lambda>spin. Inr (ret, s\<lparr>hw := w, pci_spinlock := spin\<rparr>)))"

definition pci_write32 :: "('w, 'x) io_ports_scheme \<Rightarrow> pci_dev_t \<Rightarrow> u8 \<Rightarrow> u32 \<Rightarrow> ('w, 'a) dstate_scheme \<Rightarrow> ('w, 'a) dstate_scheme result" where
  "pci_write32 io dev offset val s =
     rbind (spin_lock (pci_spinlock s)) (\<lambda>spin.
     let w = io_outl io CONFIG_DATA val (io_outl io CONFIG_ADDRESS (config_address dev offset) (hw s)) in
     rbind (spin_unlock spin) (\<lambda>spin. Inr (s\<lparr>hw := w, pci_spinlock := spin\<rparr>)))"

definition pci_read16 :: "('w, 'x) io_ports_scheme \<Rightarrow> pci_dev_t \<Rightarrow> u8 \<Rightarrow> ('w, 'a) dstate_scheme \<Rightarrow> (u16 \<times> ('w, 'a) dstate_scheme) result" where
  "pci_read16 io dev offset s =
     rbind (pci_read32 io dev offset s) (\<lambda>(dat, s). Inr (ucast (drop_bit (unat (offset AND 2) * 8) dat AND 0xffff), s))"

definition pci_read8 :: "('w, 'x) io_ports_scheme \<Rightarrow> pci_dev_t \<Rightarrow> u8 \<Rightarrow> ('w, 'a) dstate_scheme \<Rightarrow> (u8 \<times> ('w, 'a) dstate_scheme) result" where
  "pci_read8 io dev offset s =
     rbind (pci_read32 io dev offset s) (\<lambda>(dat, s). Inr (ucast (drop_bit (unat (offset AND 3) * 8) dat AND 0xff), s))"

definition pci_get_bar :: "('w, 'x) io_ports_scheme \<Rightarrow> pci_dev_t \<Rightarrow> u8 \<Rightarrow> ('w, 'a) dstate_scheme \<Rightarrow> (u32 \<times> ('w, 'a) dstate_scheme) result" where
  "pci_get_bar io dev bar s = pci_read32 io dev (PCI_BAR0 + bar * 4) s"

definition pci_enable_busmaster :: "('w, 'x) io_ports_scheme \<Rightarrow> pci_dev_t \<Rightarrow> ('w, 'a) dstate_scheme \<Rightarrow> ('w, 'a) dstate_scheme result" where
  "pci_enable_busmaster io dev s =
     rbind (pci_read32 io dev PCI_COMMAND s) (\<lambda>(cmd, s).
     pci_write32 io dev PCI_COMMAND (ucast (ucast cmd OR BIT 2)) s)"

section \<open>Enumeration\<close>

definition pci_is_present :: "('w, 'x) io_ports_scheme \<Rightarrow> u8 \<Rightarrow> u8 \<Rightarrow> u8 \<Rightarrow> ('w, 'a) dstate_scheme \<Rightarrow> (bool \<times> ('w, 'a) dstate_scheme) result" where
  "pci_is_present io bus slot fnc s =
     (let dev = \<lparr>pd_bus = bus, pd_slot = slot, pd_func = fnc, pd_id = \<lparr>vendor = 0, device = 0\<rparr>, pd_driver = NULL, pd_driver_data = NULL\<rparr> in
      rbind (pci_read16 io dev 0x00 s) (\<lambda>(v, s). Inr (v \<noteq> 0xffff, s)))"

text \<open>The instance for one function of a device. The class and the revision are read for a message only.\<close>

definition pci_add_dev ::
  "('w, 'x) io_ports_scheme \<Rightarrow> (u64 \<Rightarrow> pci_dev_t) \<Rightarrow> u8 \<Rightarrow> u8 \<Rightarrow> u8 \<Rightarrow> ('w, 'a) dstate_scheme \<Rightarrow> ('w, 'a) dstate_scheme result" where
  "pci_add_dev io raw bus slot fnc s =
     rbind (kmalloc 24 45 0 s) (\<lambda>(p, s).
     if p = NULL then Inl (Mem_Fault ''pci_dev_t'') else
     let dev = (raw p)\<lparr>pd_bus := bus, pd_slot := slot, pd_func := fnc\<rparr> in
     rbind (pci_read16 io dev PCI_VENDOR_ID s) (\<lambda>(v, s).
     rbind (pci_read16 io dev PCI_DEVICE_ID s) (\<lambda>(d, s).
     let dev = dev\<lparr>pd_id := \<lparr>vendor = v, device = d\<rparr>\<rparr> in
     rbind (pci_read8 io dev PCI_REVISION s) (\<lambda>(_, s).
     rbind (pci_read8 io dev PCI_SUBCLASS s) (\<lambda>(_, s).
     rbind (pci_read8 io dev PCI_CLASS s) (\<lambda>(_, s).
     Inr (s\<lparr>pci_devs := (pci_devs s)(p \<mapsto> dev), device_list := device_list s @ [p]\<rparr>)))))))"

fun scan_funcs ::
  "('w, 'x) io_ports_scheme \<Rightarrow> (u64 \<Rightarrow> pci_dev_t) \<Rightarrow> u8 \<Rightarrow> u8 \<Rightarrow> nat list \<Rightarrow> ('w, 'a) dstate_scheme \<Rightarrow> ('w, 'a) dstate_scheme result" where
  "scan_funcs io raw bus slot [] s = Inr s"
| "scan_funcs io raw bus slot (fnc # fncs) s =
     rbind (pci_is_present io bus slot (of_nat fnc) s) (\<lambda>(present, s).
     rbind (if present then pci_add_dev io raw bus slot (of_nat fnc) s else Inr s) (scan_funcs io raw bus slot fncs))"

fun scan_slots ::
  "('w, 'x) io_ports_scheme \<Rightarrow> (u64 \<Rightarrow> pci_dev_t) \<Rightarrow> u8 \<Rightarrow> nat list \<Rightarrow> ('w, 'a) dstate_scheme \<Rightarrow> ('w, 'a) dstate_scheme result" where
  "scan_slots io raw bus [] s = Inr s"
| "scan_slots io raw bus (slot # slots) s =
     rbind (pci_is_present io bus (of_nat slot) 0 s) (\<lambda>(present, s).
     rbind (if present then scan_funcs io raw bus (of_nat slot) [0..<8] s else Inr s) (scan_slots io raw bus slots))"

fun scan_buses ::
  "('w, 'x) io_ports_scheme \<Rightarrow> (u64 \<Rightarrow> pci_dev_t) \<Rightarrow> nat list \<Rightarrow> ('w, 'a) dstate_scheme \<Rightarrow> ('w, 'a) dstate_scheme result" where
  "scan_buses io raw [] s = Inr s"
| "scan_buses io raw (bus # buses) s = rbind (scan_slots io raw (of_nat bus) [0..<32] s) (scan_buses io raw buses)"

definition pci_init :: "('w, 'x) io_ports_scheme \<Rightarrow> (u64 \<Rightarrow> pci_dev_t) \<Rightarrow> ('w, 'a) dstate_scheme \<Rightarrow> ('w, 'a) dstate_scheme result" where
  "pci_init io raw s =
     rbind (kassert (\<not> pci_initialized s) ''PCI bus already initialized'') (\<lambda>_.
     let s = s\<lparr>pci_initialized := True, device_list := []\<rparr> in
     rbind (mutex_init (device_list_lock s)) (\<lambda>m.
     scan_buses io raw [0..<256] (s\<lparr>device_list_lock := m\<rparr>)))"

section \<open>Drivers\<close>

text \<open>
  \<open>ids\<close> is the array of identification pairs of the driver, \<open>drv\<close> the address of the driver's structure. The loop tests up to
  \<open>n\<close> more pairs from index \<open>i\<close> on; it goes on after a pair that fits.
\<close>

fun register_ids ::
  "pci_idpair_t list \<Rightarrow> (u64 \<Rightarrow> ('w, 'a) dstate_scheme \<Rightarrow> (u64 \<times> ('w, 'a) dstate_scheme) result) \<Rightarrow> u64 \<Rightarrow> u64 \<Rightarrow> nat \<Rightarrow> nat \<Rightarrow>
   ('w, 'a) dstate_scheme \<Rightarrow> ('w, 'a) dstate_scheme result" where
  "register_ids ids probe drv p 0 i s = Inr s"
| "register_ids ids probe drv p (Suc n) i s =
     rbind (rd ids i) (\<lambda>idpair.
     if vendor idpair = 0 \<and> device idpair = 0 then Inr s
     else
       rbind (pci_dev_at p s) (\<lambda>dev.
       rbind (if vendor (pd_id dev) = vendor idpair \<and> device (pd_id dev) = device idpair then
                rbind (probe p s) (\<lambda>(drv_data, s).
                if drv_data \<noteq> NULL then
                  rbind (pci_dev_at p s) (\<lambda>dev.
                  Inr (s\<lparr>pci_devs := (pci_devs s)(p \<mapsto> dev\<lparr>pd_driver := drv, pd_driver_data := drv_data\<rparr>)\<rparr>))
                else Inr s)
              else Inr s) (register_ids ids probe drv p n (Suc i))))"

fun register_devs ::
  "pci_idpair_t list \<Rightarrow> (u64 \<Rightarrow> ('w, 'a) dstate_scheme \<Rightarrow> (u64 \<times> ('w, 'a) dstate_scheme) result) \<Rightarrow> u64 \<Rightarrow> u64 list \<Rightarrow>
   ('w, 'a) dstate_scheme \<Rightarrow> ('w, 'a) dstate_scheme result" where
  "register_devs ids probe drv [] s = Inr s"
| "register_devs ids probe drv (p # ps) s =
     rbind (pci_dev_at p s) (\<lambda>dev.
     rbind (if pd_driver dev \<noteq> NULL then Inr s else register_ids ids probe drv p 100 0 s) (register_devs ids probe drv ps))"

definition pci_register_driver ::
  "pci_idpair_t list \<Rightarrow> (u64 \<Rightarrow> ('w, 'a) dstate_scheme \<Rightarrow> (u64 \<times> ('w, 'a) dstate_scheme) result) \<Rightarrow> u64 \<Rightarrow>
   ('w, 'a) dstate_scheme \<Rightarrow> ('w, 'a) dstate_scheme result" where
  "pci_register_driver ids probe drv s =
     rbind (mutex_lock (device_list_lock s) s) (\<lambda>m.
     let s = s\<lparr>device_list_lock := m\<rparr> in
     rbind (register_devs ids probe drv (device_list s) s) (\<lambda>s.
     rbind (mutex_unlock (device_list_lock s) s) (\<lambda>(m, s). Inr (s\<lparr>device_list_lock := m\<rparr>))))"

section \<open>Reading the configuration space\<close>

text \<open>
  Configuration mechanism 1: an address with the enable bit, aligned to four bytes, written to the address port makes the data port
  show the register of the function it names. \<open>cfg b d f r\<close> is the register \<open>r\<close> of function \<open>f\<close> of device \<open>d\<close> on bus \<open>b\<close>;
  \<open>ok\<close> holds in the states of the devices in which the registers have these values.
\<close>

definition config_mechanism :: "('w, 'x) io_ports_scheme \<Rightarrow> ('w \<Rightarrow> bool) \<Rightarrow> (u8 \<Rightarrow> u8 \<Rightarrow> u8 \<Rightarrow> u8 \<Rightarrow> u32) \<Rightarrow> bool" where
  "config_mechanism io ok cfg \<longleftrightarrow> (\<forall>a w. bit a 31 \<longrightarrow> a AND 3 = 0 \<longrightarrow> ok w \<longrightarrow>
     (case io_inl io 0xcfc (io_outl io 0xcf8 a w) of (v, w') \<Rightarrow> ok w' \<and>
        v = cfg (ucast (drop_bit 16 a)) (ucast (drop_bit 11 a) AND 31) (ucast (drop_bit 8 a) AND 7) (ucast a)))"

lemma bits_below: "unat (x :: u8) < 2 ^ n \<Longrightarrow> bit x k \<Longrightarrow> k < n"
  by (metis bit_take_bit_iff take_bit_nat_eq_self unsigned_take_bit_eq word_unat_eq_iff)

lemma bit_enable: "bit (BIT 31) k \<longleftrightarrow> k = 31"
proof -
  have "BIT 31 = 2 ^ 31" by (simp add: BIT_def)
  then show ?thesis by (auto simp only: bit_exp_iff possible_bit_word) simp
qed

lemma config_address_fields:
  assumes "unat (pd_slot dev) < 32" and "unat (pd_func dev) < 8"
  shows "bit (config_address dev offset) 31" and "config_address dev offset AND 3 = 0"
    and "ucast (drop_bit 16 (config_address dev offset)) = pd_bus dev"
    and "ucast (drop_bit 11 (config_address dev offset)) AND 31 = pd_slot dev"
    and "ucast (drop_bit 8 (config_address dev offset)) AND 7 = pd_func dev"
    and "ucast (config_address dev offset) = offset AND 0xfc"
proof -
  have b: "bit (pd_slot dev) k \<Longrightarrow> k < 5" "bit (pd_func dev) k \<Longrightarrow> k < 3" for k
    using bits_below [of "pd_slot dev" 5 k] bits_below [of "pd_func dev" 3 k] assms by simp_all
  have m: "(3 :: u32) = mask 2" "(31 :: u8) = mask 5" "(7 :: u8) = mask 3" "(0xfc :: u32) = push_bit 2 (mask 6)" "(0xfc :: u8) = push_bit 2 (mask 6)"
    by (simp_all add: mask_eq_exp_minus_1)
  show "bit (config_address dev offset) 31" by (simp add: config_address_def bit_enable bit_simps)
  show "config_address dev offset AND 3 = 0"
    unfolding m by (rule bit_word_eqI) (auto simp: config_address_def bit_enable bit_simps m dest: b)
  show "ucast (drop_bit 16 (config_address dev offset)) = pd_bus dev"
    by (rule bit_word_eqI) (auto simp: config_address_def bit_enable bit_simps m dest: b)
  show "ucast (drop_bit 11 (config_address dev offset)) AND 31 = pd_slot dev"
    unfolding m by (rule bit_word_eqI) (auto simp: config_address_def bit_enable bit_simps m dest: b)
  show "ucast (drop_bit 8 (config_address dev offset)) AND 7 = pd_func dev"
    unfolding m by (rule bit_word_eqI) (auto simp: config_address_def bit_enable bit_simps m dest: b)
  show "ucast (config_address dev offset) = offset AND 0xfc"
    unfolding m by (rule bit_word_eqI) (auto simp: config_address_def bit_enable bit_simps m dest: b)
qed

definition pci_ready :: "('w \<Rightarrow> bool) \<Rightarrow> ('w, 'a) dstate_scheme \<Rightarrow> bool" where
  "pci_ready ok s \<longleftrightarrow> ok (hw s) \<and> pci_spinlock s = SPIN_INITIALIZER"

lemma pci_read32_ok:
  assumes "config_mechanism io ok cfg" and "pci_ready ok s" and "unat (pd_slot dev) < 32" and "unat (pd_func dev) < 8"
  obtains w where "pci_read32 io dev offset s = Inr (cfg (pd_bus dev) (pd_slot dev) (pd_func dev) (offset AND 0xfc), s\<lparr>hw := w\<rparr>)"
    and "ok w"
proof -
  note f = config_address_fields [OF assms(3,4), of offset]
  obtain v w where vw: "io_inl io 0xcfc (io_outl io 0xcf8 (config_address dev offset) (hw s)) = (v, w)" by force
  have "ok w" "v = cfg (pd_bus dev) (pd_slot dev) (pd_func dev) (offset AND 0xfc)"
    using assms(1) [unfolded config_mechanism_def, rule_format, OF f(1,2), of "hw s"] assms(2)
    unfolding vw by (simp_all add: pci_ready_def f)
  moreover have "s\<lparr>hw := w, pci_spinlock := SPIN_INITIALIZER\<rparr> = s\<lparr>hw := w\<rparr>" using assms(2) by (cases s) (simp add: pci_ready_def)
  ultimately show ?thesis using that [of w] vw assms(2)
    by (simp add: pci_read32_def CONFIG_ADDRESS_def CONFIG_DATA_def spin_lock_def spin_unlock_def pci_ready_def SPIN_INITIALIZER_def
        spin_check_magic_def xchg_def)
qed

lemma pci_ready_hw [simp]: "pci_ready ok s \<Longrightarrow> ok w \<Longrightarrow> pci_ready ok (s\<lparr>hw := w\<rparr>)"
  by (simp add: pci_ready_def)

lemma pci_read16_ok:
  assumes "config_mechanism io ok cfg" and "pci_ready ok s" and "unat (pd_slot dev) < 32" and "unat (pd_func dev) < 8"
  obtains w where "pci_read16 io dev offset s =
      Inr (ucast (drop_bit (unat (offset AND 2) * 8) (cfg (pd_bus dev) (pd_slot dev) (pd_func dev) (offset AND 0xfc))), s\<lparr>hw := w\<rparr>)" and "ok w"
proof -
  have "ucast (x AND 0xffff) = (ucast x :: u16)" for x :: u32
  proof -
    have m: "(0xffff :: u32) = mask 16" by (simp add: mask_eq_exp_minus_1)
    show ?thesis unfolding m by (rule bit_word_eqI) (auto simp: bit_simps)
  qed
  then show ?thesis by (rule_tac pci_read32_ok [OF assms, of offset]) (simp add: pci_read16_def that)
qed

lemma pci_read8_ok:
  assumes "config_mechanism io ok cfg" and "pci_ready ok s" and "unat (pd_slot dev) < 32" and "unat (pd_func dev) < 8"
  obtains v w where "pci_read8 io dev offset s = Inr (v, s\<lparr>hw := w\<rparr>)" and "ok w"
  by (rule pci_read32_ok [OF assms, of offset]) (simp add: pci_read8_def that)

section \<open>The enumeration finds the functions of the bus\<close>

definition present :: "(u8 \<Rightarrow> u8 \<Rightarrow> u8 \<Rightarrow> u8 \<Rightarrow> u32) \<Rightarrow> u8 \<Rightarrow> u8 \<Rightarrow> u8 \<Rightarrow> bool" where
  "present cfg bus slot fnc \<longleftrightarrow> (ucast (cfg bus slot fnc 0) :: u16) \<noteq> 0xffff"

lemma pci_is_present_ok:
  assumes "config_mechanism io ok cfg" and "pci_ready ok s" and "unat slot < 32" and "unat fnc < 8"
  obtains w where "pci_is_present io bus slot fnc s = Inr (present cfg bus slot fnc, s\<lparr>hw := w\<rparr>)" and "ok w"
proof -
  let ?d = "\<lparr>pd_bus = bus, pd_slot = slot, pd_func = fnc, pd_id = \<lparr>vendor = 0, device = 0\<rparr>, pd_driver = NULL, pd_driver_data = NULL\<rparr>"
  have d: "unat (pd_slot ?d) < 32" "unat (pd_func ?d) < 8" using assms(3,4) by simp_all
  show ?thesis by (rule pci_read16_ok [OF assms(1,2) d, of 0]) (simp add: pci_is_present_def present_def that)
qed

text \<open>The contents of the instance for a function: what was in the memory, with the location and the identification of the function.\<close>

definition shows_function :: "(u8 \<Rightarrow> u8 \<Rightarrow> u8 \<Rightarrow> u8 \<Rightarrow> u32) \<Rightarrow> (u64 \<Rightarrow> pci_dev_t) \<Rightarrow> u8 \<times> u8 \<times> u8 \<Rightarrow> u64 \<Rightarrow> pci_dev_t" where
  "shows_function cfg raw = (\<lambda>(bus, slot, fnc) p. (raw p)\<lparr>pd_bus := bus, pd_slot := slot, pd_func := fnc,
     pd_id := \<lparr>vendor = ucast (cfg bus slot fnc 0), device = ucast (drop_bit 16 (cfg bus slot fnc 0))\<rparr>\<rparr>)"

definition pci_inv :: "('w \<Rightarrow> bool) \<Rightarrow> ('w, 'a) dstate_scheme \<Rightarrow> bool" where
  "pci_inv ok s \<longleftrightarrow> pci_ready ok s \<and> heap_inv s \<and> distinct (device_list s) \<and> (\<forall>p \<in> set (device_list s). bd_placed s p \<and> pci_devs s p \<noteq> None)"

text \<open>The instances \<open>ps\<close> for the functions \<open>fns\<close> have been added, and nothing else has changed of the list.\<close>

definition scanned ::
  "('w \<Rightarrow> bool) \<Rightarrow> (u8 \<Rightarrow> u8 \<Rightarrow> u8 \<Rightarrow> u8 \<Rightarrow> u32) \<Rightarrow> (u64 \<Rightarrow> pci_dev_t) \<Rightarrow> (u8 \<times> u8 \<times> u8) list \<Rightarrow> nat \<Rightarrow> ('w, 'a) dstate_scheme \<Rightarrow> ('w, 'a) dstate_scheme \<Rightarrow> bool" where
  "scanned ok cfg raw fns k s s' \<longleftrightarrow> pci_inv ok s' \<and> heap_budget s' k \<and> device_list_lock s' = device_list_lock s \<and>
     pci_initialized s' = pci_initialized s \<and> current_task s' = current_task s \<and> (\<forall>q \<in> set (device_list s). pci_devs s' q = pci_devs s q) \<and>
     (\<exists>ps. device_list s' = device_list s @ ps \<and> list_all2 (\<lambda>p f. pci_devs s' p = Some (shows_function cfg raw f p)) ps fns)"

lemma scanned_trans:
  assumes "scanned ok cfg raw fns j s s1" and "scanned ok cfg raw hns k s1 s2"
  shows "scanned ok cfg raw (fns @ hns) k s s2"
proof -
  obtain ps qs where l: "device_list s1 = device_list s @ ps" "device_list s2 = device_list s1 @ qs"
    and a: "list_all2 (\<lambda>p f. pci_devs s1 p = Some (shows_function cfg raw f p)) ps fns"
      "list_all2 (\<lambda>p f. pci_devs s2 p = Some (shows_function cfg raw f p)) qs hns"
    using assms by (auto simp: scanned_def)
  have keep: "\<forall>q \<in> set (device_list s1). pci_devs s2 q = pci_devs s1 q" using assms(2) by (simp add: scanned_def)
  have "list_all2 (\<lambda>p f. pci_devs s2 p = Some (shows_function cfg raw f p)) ps fns"
    by (rule list.rel_mono_strong [OF a(1)]) (use keep l(1) in auto)
  then have "list_all2 (\<lambda>p f. pci_devs s2 p = Some (shows_function cfg raw f p)) (ps @ qs) (fns @ hns)" using a(2) by (rule list_all2_appendI)
  moreover have "device_list s2 = device_list s @ (ps @ qs)" using l by simp
  ultimately show ?thesis using assms keep l(1) unfolding scanned_def by auto
qed

lemma heap_hw [simp]: "heap_inv (s\<lparr>hw := w\<rparr>) = heap_inv s" "heap_live (s\<lparr>hw := w\<rparr>) = heap_live s" "heap_budget (s\<lparr>hw := w\<rparr>) = heap_budget s"
    "bd_placed (s\<lparr>hw := w\<rparr>) = bd_placed s" for s :: "('w, 'a) dstate_scheme"
  by (simp_all add: heap_unfold bd_placed_def)

lemma heap_pci_devs [simp]: "heap_inv (s\<lparr>pci_devs := x, device_list := y\<rparr>) = heap_inv s" "heap_budget (s\<lparr>pci_devs := x, device_list := y\<rparr>) = heap_budget s"
    "bd_placed (s\<lparr>pci_devs := x, device_list := y\<rparr>) = bd_placed s" for s :: "('w, 'a) dstate_scheme"
  by (simp_all add: heap_unfold bd_placed_def)

lemma hstate_more_pci:
  assumes "hstate.more s' = hstate.more s"
  shows "hw s' = hw s" "pci_spinlock s' = pci_spinlock s" "pci_devs s' = pci_devs s" "device_list s' = device_list s"
    "device_list_lock s' = device_list_lock s" "pci_initialized s' = pci_initialized s"
  using assms by (cases s; cases s'; simp add: dstate.defs)+

lemma scanned_hw:
  assumes "pci_inv ok s" and "heap_budget s k" and "ok w"
  shows "scanned ok cfg raw [] k s (s\<lparr>hw := w\<rparr>)"
  using assms by (simp add: scanned_def pci_inv_def)

lemma pci_add_dev_ok:
  assumes cm: "config_mechanism io ok cfg" and inv: "pci_inv ok s" and bud: "heap_budget s (Suc k)" and bs: "unat slot < 32" "unat fnc < 8"
  obtains s' where "pci_add_dev io raw bus slot fnc s = Inr s'" and "scanned ok cfg raw [(bus, slot, fnc)] k s s'"
proof -
  have hi: "heap_inv s" using inv by (simp add: pci_inv_def)
  show ?thesis
  proof (rule kmalloc_small [OF hi bud, of 24 45 0], simp, goal_cases)
    case (1 p s1 l)
    note more = hstate_more_pci [OF 1(8)] and fresh = placed_fresh [OF 1(2,6,5)]
    let ?d = "(raw p)\<lparr>pd_bus := bus, pd_slot := slot, pd_func := fnc\<rparr>"
    let ?e = "shows_function cfg raw (bus, slot, fnc) p"
    have r1: "pci_ready ok s1" using inv more by (simp add: pci_inv_def pci_ready_def)
    have d: "unat (pd_slot ?d) < 32" "unat (pd_func ?d) < 8" "unat (pd_slot ?e) < 32" "unat (pd_func ?e) < 8" using bs by (simp_all add: shows_function_def)
    obtain w2 where w2: "pci_read16 io ?d PCI_VENDOR_ID s1 = Inr (ucast (cfg bus slot fnc 0), s1\<lparr>hw := w2\<rparr>)" "ok w2"
      by (rule pci_read16_ok [OF cm r1 d(1,2), of PCI_VENDOR_ID]) (simp add: PCI_VENDOR_ID_def)
    obtain w3 where w3: "pci_read16 io ?d PCI_DEVICE_ID (s1\<lparr>hw := w2\<rparr>) = Inr (ucast (drop_bit 16 (cfg bus slot fnc 0)), s1\<lparr>hw := w3\<rparr>)" "ok w3"
      by (rule pci_read16_ok [OF cm pci_ready_hw [OF r1 w2(2)] d(1,2), of PCI_DEVICE_ID]) (simp add: PCI_DEVICE_ID_def)
    have e: "?d\<lparr>pd_id := \<lparr>vendor = ucast (cfg bus slot fnc 0), device = ucast (drop_bit 16 (cfg bus slot fnc 0))\<rparr>\<rparr> = ?e"
      by (simp add: shows_function_def)
    obtain v4 w4 where w4: "pci_read8 io ?e PCI_REVISION (s1\<lparr>hw := w3\<rparr>) = Inr (v4, s1\<lparr>hw := w4\<rparr>)" "ok w4"
      by (rule pci_read8_ok [OF cm pci_ready_hw [OF r1 w3(2)] d(3,4), of PCI_REVISION]) simp
    obtain v5 w5 where w5: "pci_read8 io ?e PCI_SUBCLASS (s1\<lparr>hw := w4\<rparr>) = Inr (v5, s1\<lparr>hw := w5\<rparr>)" "ok w5"
      by (rule pci_read8_ok [OF cm pci_ready_hw [OF r1 w4(2)] d(3,4), of PCI_SUBCLASS]) simp
    obtain v6 w6 where w6: "pci_read8 io ?e PCI_CLASS (s1\<lparr>hw := w5\<rparr>) = Inr (v6, s1\<lparr>hw := w6\<rparr>)" "ok w6"
      by (rule pci_read8_ok [OF cm pci_ready_hw [OF r1 w5(2)] d(3,4), of PCI_CLASS]) simp
    define s' where "s' = s1\<lparr>hw := w6, pci_devs := (pci_devs s1)(p \<mapsto> ?e), device_list := device_list s1 @ [p]\<rparr>"
    have run: "pci_add_dev io raw bus slot fnc s = Inr s'"
      using 1(1,3) by (simp add: pci_add_dev_def w2(1) w3(1) e w4(1) w5(1) w6(1) s'_def)
    have new: "p \<notin> set (device_list s)" using inv fresh(1) by (auto simp: pci_inv_def)
    have "pci_inv ok s'" using inv fresh new 1(2) r1 w6(2) more by (auto simp: pci_inv_def s'_def pci_ready_def)
    then have "scanned ok cfg raw [(bus, slot, fnc)] k s s'"
      using new more 1(7,9) by (auto simp: scanned_def s'_def)
    then show ?thesis using that run by blast
  qed
qed

text \<open>All locations on one device, on one bus and on the machine, in the order of the loops; and which of them hold a function.\<close>

definition slot_locations :: "nat \<Rightarrow> nat \<Rightarrow> nat list \<Rightarrow> (u8 \<times> u8 \<times> u8) list" where
  "slot_locations bus slot fncs = map (\<lambda>fnc. (of_nat bus, of_nat slot, of_nat fnc)) fncs"

definition bus_locations :: "nat \<Rightarrow> nat list \<Rightarrow> (u8 \<times> u8 \<times> u8) list" where
  "bus_locations bus slots = concat (map (\<lambda>slot. slot_locations bus slot [0..<8]) slots)"

definition pci_locations :: "nat list \<Rightarrow> (u8 \<times> u8 \<times> u8) list" where
  "pci_locations buses = concat (map (\<lambda>bus. bus_locations bus [0..<32]) buses)"

definition has_function :: "(u8 \<Rightarrow> u8 \<Rightarrow> u8 \<Rightarrow> u8 \<Rightarrow> u32) \<Rightarrow> u8 \<times> u8 \<times> u8 \<Rightarrow> bool" where
  "has_function cfg = (\<lambda>(bus, slot, fnc). present cfg bus slot 0 \<and> present cfg bus slot fnc)"

lemma scan_funcs_ok:
  assumes "config_mechanism io ok cfg" and "pci_inv ok s" and "present cfg (of_nat bus) (of_nat slot) 0"
    and "heap_budget s (length (filter (has_function cfg) (slot_locations bus slot fncs)) + k)" and "slot < 32" and "\<forall>f \<in> set fncs. f < 8"
  shows "\<exists>s'. scan_funcs io raw (of_nat bus) (of_nat slot) fncs s = Inr s' \<and>
    scanned ok cfg raw (filter (has_function cfg) (slot_locations bus slot fncs)) k s s'"
  using assms(2,4,6)
proof (induction fncs arbitrary: s)
  case Nil
  then show ?case by (simp add: slot_locations_def scanned_def)
next
  case (Cons f fncs)
  let ?b = "of_nat bus :: u8" and ?s = "of_nat slot :: u8" and ?f = "of_nat f :: u8"
  let ?rest = "filter (has_function cfg) (slot_locations bus slot fncs)"
  have u: "unat ?s < 32" "unat ?f < 8" using assms(5) Cons.prems(3) by (simp_all add: unat_of_nat_small)
  have r: "pci_ready ok s" using Cons.prems(1) by (simp add: pci_inv_def)
  obtain w where w: "pci_is_present io ?b ?s ?f s = Inr (present cfg ?b ?s ?f, s\<lparr>hw := w\<rparr>)" "ok w"
    by (rule pci_is_present_ok [OF assms(1) r u, of ?b])
  have f8: "\<forall>f \<in> set fncs. f < 8" using Cons.prems(3) by simp
  show ?case
  proof (cases "present cfg ?b ?s ?f")
    case True
    have fl: "filter (has_function cfg) (slot_locations bus slot (f # fncs)) = (?b, ?s, ?f) # ?rest"
      using True assms(3) by (simp add: slot_locations_def has_function_def)
    have sc: "scanned ok cfg raw [] (Suc (length ?rest + k)) s (s\<lparr>hw := w\<rparr>)"
      using Cons.prems(2) fl by (intro scanned_hw Cons.prems w) simp
    then have i: "pci_inv ok (s\<lparr>hw := w\<rparr>)" "heap_budget (s\<lparr>hw := w\<rparr>) (Suc (length ?rest + k))" by (simp_all add: scanned_def)
    obtain s1 where s1: "pci_add_dev io raw ?b ?s ?f (s\<lparr>hw := w\<rparr>) = Inr s1" "scanned ok cfg raw [(?b, ?s, ?f)] (length ?rest + k) (s\<lparr>hw := w\<rparr>) s1"
      by (rule pci_add_dev_ok [OF assms(1) i u])
    obtain s' where s': "scan_funcs io raw ?b ?s fncs s1 = Inr s'" "scanned ok cfg raw ?rest k s1 s'"
      using Cons.IH [of s1] s1(2) f8 by (auto simp: scanned_def)
    have "scanned ok cfg raw ([] @ [(?b, ?s, ?f)] @ ?rest) k s s'" by (rule scanned_trans [OF sc scanned_trans [OF s1(2) s'(2)]])
    then show ?thesis using w(1) True s1(1) s'(1) fl by simp
  next
    case False
    have fl: "filter (has_function cfg) (slot_locations bus slot (f # fncs)) = ?rest"
      using False by (simp add: slot_locations_def has_function_def)
    have sc: "scanned ok cfg raw [] (length ?rest + k) s (s\<lparr>hw := w\<rparr>)" using Cons.prems(2) fl by (intro scanned_hw Cons.prems w) simp
    then obtain s' where s': "scan_funcs io raw ?b ?s fncs (s\<lparr>hw := w\<rparr>) = Inr s'" "scanned ok cfg raw ?rest k (s\<lparr>hw := w\<rparr>) s'"
      using Cons.IH [of "s\<lparr>hw := w\<rparr>"] f8 by (auto simp: scanned_def)
    have "scanned ok cfg raw ([] @ ?rest) k s s'" by (rule scanned_trans [OF sc s'(2)])
    then show ?thesis using w(1) False s'(1) fl by simp
  qed
qed

lemma scan_slots_ok:
  assumes "config_mechanism io ok cfg" and "pci_inv ok s"
    and "heap_budget s (length (filter (has_function cfg) (bus_locations bus slots)) + k)" and "\<forall>sl \<in> set slots. sl < 32"
  shows "\<exists>s'. scan_slots io raw (of_nat bus) slots s = Inr s' \<and> scanned ok cfg raw (filter (has_function cfg) (bus_locations bus slots)) k s s'"
  using assms(2,3,4)
proof (induction slots arbitrary: s)
  case Nil
  then show ?case by (simp add: bus_locations_def scanned_def)
next
  case (Cons sl slots)
  let ?b = "of_nat bus :: u8" and ?s = "of_nat sl :: u8" and ?here = "filter (has_function cfg) (slot_locations bus sl [0..<8])"
  let ?rest = "filter (has_function cfg) (bus_locations bus slots)"
  have u: "unat ?s < 32" "unat (0 :: u8) < 8" "sl < 32" using Cons.prems(3) by (simp_all add: unat_of_nat_small)
  have r: "pci_ready ok s" using Cons.prems(1) by (simp add: pci_inv_def)
  obtain w where w: "pci_is_present io ?b ?s 0 s = Inr (present cfg ?b ?s 0, s\<lparr>hw := w\<rparr>)" "ok w"
    by (rule pci_is_present_ok [OF assms(1) r u(1,2), of ?b])
  have fl: "filter (has_function cfg) (bus_locations bus (sl # slots)) = ?here @ ?rest" by (simp add: bus_locations_def)
  have sc: "scanned ok cfg raw [] (length ?here + (length ?rest + k)) s (s\<lparr>hw := w\<rparr>)"
    using Cons.prems(2) fl by (intro scanned_hw Cons.prems w) (simp add: add.assoc)
  then have i: "pci_inv ok (s\<lparr>hw := w\<rparr>)" "heap_budget (s\<lparr>hw := w\<rparr>) (length ?here + (length ?rest + k))" by (simp_all add: scanned_def)
  have "\<exists>s1. (if present cfg ?b ?s 0 then scan_funcs io raw ?b ?s [0..<8] (s\<lparr>hw := w\<rparr>) else Inr (s\<lparr>hw := w\<rparr>)) = Inr s1 \<and>
    scanned ok cfg raw ?here (length ?rest + k) (s\<lparr>hw := w\<rparr>) s1"
  proof (cases "present cfg ?b ?s 0")
    case True
    then show ?thesis using scan_funcs_ok [OF assms(1) i(1) True i(2) u(3)] by simp
  next
    case False
    then have "?here = []" by (auto simp: has_function_def slot_locations_def filter_empty_conv)
    then show ?thesis using False i by (simp add: scanned_def)
  qed
  then obtain s1 where s1: "(if present cfg ?b ?s 0 then scan_funcs io raw ?b ?s [0..<8] (s\<lparr>hw := w\<rparr>) else Inr (s\<lparr>hw := w\<rparr>)) = Inr s1"
    "scanned ok cfg raw ?here (length ?rest + k) (s\<lparr>hw := w\<rparr>) s1" by blast
  obtain s' where s': "scan_slots io raw ?b slots s1 = Inr s'" "scanned ok cfg raw ?rest k s1 s'"
    using Cons.IH [of s1] s1(2) Cons.prems(3) by (auto simp: scanned_def)
  have "scanned ok cfg raw ([] @ ?here @ ?rest) k s s'" by (rule scanned_trans [OF sc scanned_trans [OF s1(2) s'(2)]])
  then show ?case using w(1) s1(1) s'(1) fl by simp
qed

lemma scan_buses_ok:
  assumes "config_mechanism io ok cfg" and "pci_inv ok s"
    and "heap_budget s (length (filter (has_function cfg) (pci_locations buses)) + k)"
  shows "\<exists>s'. scan_buses io raw buses s = Inr s' \<and> scanned ok cfg raw (filter (has_function cfg) (pci_locations buses)) k s s'"
  using assms(2,3)
proof (induction buses arbitrary: s)
  case Nil
  then show ?case by (simp add: pci_locations_def scanned_def)
next
  case (Cons b buses)
  let ?here = "filter (has_function cfg) (bus_locations b [0..<32])" and ?rest = "filter (has_function cfg) (pci_locations buses)"
  have fl: "filter (has_function cfg) (pci_locations (b # buses)) = ?here @ ?rest" by (simp add: pci_locations_def)
  have "heap_budget s (length ?here + (length ?rest + k))" using Cons.prems(2) fl by (simp add: add.assoc)
  from scan_slots_ok [OF assms(1) Cons.prems(1) this] obtain s1 where
    s1: "scan_slots io raw (of_nat b) [0..<32] s = Inr s1" "scanned ok cfg raw ?here (length ?rest + k) s s1" by auto
  obtain s' where s': "scan_buses io raw buses s1 = Inr s'" "scanned ok cfg raw ?rest k s1 s'"
    using Cons.IH [of s1] s1(2) by (auto simp: scanned_def)
  show ?case using s1(1) s'(1) scanned_trans [OF s1(2) s'(2)] fl by simp
qed

definition pci_functions :: "(u8 \<Rightarrow> u8 \<Rightarrow> u8 \<Rightarrow> u8 \<Rightarrow> u32) \<Rightarrow> (u8 \<times> u8 \<times> u8) list" where
  "pci_functions cfg = filter (has_function cfg) (pci_locations [0..<256])"

lemma of_nat_range: "(x :: u8) \<in> of_nat ` {0..<n} \<longleftrightarrow> unat x < n" if "n \<le> 256"
proof
  assume "unat x < n"
  then show "x \<in> of_nat ` {0..<n}" by (intro image_eqI [of _ _ "unat x"]) simp_all
qed (use that in \<open>auto simp: unat_of_nat_small\<close>)

lemma pci_functions_set:
  "(bus, slot, fnc) \<in> set (pci_functions cfg) \<longleftrightarrow> unat slot < 32 \<and> unat fnc < 8 \<and> present cfg bus slot 0 \<and> present cfg bus slot fnc"
proof -
  have "(bus, slot, fnc) \<in> set (pci_locations [0..<256]) \<longleftrightarrow>
      bus \<in> of_nat ` {0..<256} \<and> slot \<in> of_nat ` {0..<32} \<and> fnc \<in> of_nat ` {0..<8}"
    by (auto simp: pci_locations_def bus_locations_def slot_locations_def)
  then show ?thesis using unsigned_less [of bus] by (auto simp: of_nat_range pci_functions_def has_function_def)
qed

lemma pci_functions_distinct: "distinct (pci_functions cfg)"
proof -
  let ?loc = "\<lambda>(b, sl, f). (of_nat b, of_nat sl, of_nat f) :: u8 \<times> u8 \<times> u8"
  let ?all = "List.product [0..<256] (List.product [0..<32] [0..<8])"
  have "inj_on ?loc (set ?all)"
  proof (rule inj_onI)
    fix x y assume "x \<in> set ?all" "y \<in> set ?all" "?loc x = ?loc y"
    moreover have "(of_nat a :: u8) = of_nat b \<longleftrightarrow> a = b" if "a < 256" "b < 256" for a b :: nat
    proof -
      have "unat (of_nat a :: u8) = a" "unat (of_nat b :: u8) = b" using that by (simp_all add: unat_of_nat_small)
      then show ?thesis by metis
    qed
    ultimately show "x = y" by auto
  qed
  moreover have "pci_locations [0..<256] = map ?loc ?all"
    by (simp add: pci_locations_def bus_locations_def slot_locations_def product_concat_map map_concat o_def)
  ultimately show ?thesis by (simp add: pci_functions_def distinct_map distinct_product)
qed

lemma list_all2_members:
  assumes "list_all2 P xs ys"
  shows "\<forall>x \<in> set xs. \<exists>y \<in> set ys. P x y" and "\<forall>y \<in> set ys. \<exists>x \<in> set xs. P x y"
  using assms by (induction rule: list_all2_induct) auto

lemma pci_init_ok:
  assumes "config_mechanism io ok cfg" and "pci_ready ok s" and "heap_inv s" and "heap_budget s (length (pci_functions cfg))"
    and "\<not> pci_initialized s" and "device_list_lock s = m" and "mtx_magic m \<noteq> MUTEX_MAGIC" and "spin_magic (waiting_tasks_lock m) \<noteq> MUTEX_MAGIC"
  obtains s' where "pci_init io raw s = Inr s'" and "pci_inv ok s'" and "pci_initialized s'" and "mutex_idle (device_list_lock s')"
    and "list_all2 (\<lambda>p f. pci_devs s' p = Some (shows_function cfg raw f p)) (device_list s') (pci_functions cfg)"
proof -
  have sp: "(waiting_tasks_lock m)\<lparr>spin_word := 0, spin_magic := SPIN_MAGIC\<rparr> = SPIN_INITIALIZER"
    by (cases "waiting_tasks_lock m") (simp add: SPIN_INITIALIZER_def)
  define m' where "m' = m\<lparr>mtx_magic := MUTEX_MAGIC, mtx_lock := 0, held_by := NULL, waiting_tasks := [], waiting_tasks_lock := SPIN_INITIALIZER\<rparr>"
  have m': "mutex_init m = Inr m'" "mutex_idle m'"
    using assms(7,8) by (simp_all add: mutex_init_def spin_init_def mutex_idle_def sp m'_def)
  let ?s = "s\<lparr>pci_initialized := True, device_list := [], device_list_lock := m'\<rparr>"
  have h: "heap_inv ?s" "heap_budget ?s (length (filter (has_function cfg) (pci_locations [0..<256])) + 0)"
    using assms(3,4) by (simp_all add: heap_unfold pci_functions_def)
  have "pci_inv ok ?s" using h(1) assms(2) by (simp add: pci_inv_def pci_ready_def)
  from scan_buses_ok [OF assms(1) this h(2), of raw] obtain s' where
    "scan_buses io raw [0..<256] ?s = Inr s'" "scanned ok cfg raw (pci_functions cfg) 0 ?s s'" by (auto simp: pci_functions_def)
  then show ?thesis using that [of s'] assms(5,6) m' by (auto simp: pci_init_def scanned_def)
qed

text \<open>
  C32: on a machine whose bus follows configuration mechanism 1, the enumeration succeeds and its list holds one instance for each function
  of the bus that shows a vendor and whose device has a first function, with its location and its vendor and device numbers; no instance
  is listed twice. The fields for the driver are left as the memory was.
\<close>

theorem pci_init_spec:
  assumes "config_mechanism io ok cfg" and "pci_ready ok s" and "heap_inv s" and "heap_budget s (length (pci_functions cfg))"
    and "\<not> pci_initialized s" and "mtx_magic (device_list_lock s) \<noteq> MUTEX_MAGIC" and "spin_magic (waiting_tasks_lock (device_list_lock s)) \<noteq> MUTEX_MAGIC"
  shows "\<exists>s'. pci_init io raw s = Inr s' \<and> pci_initialized s' \<and> distinct (device_list s') \<and> length (device_list s') = length (pci_functions cfg) \<and>
    (\<forall>bus slot fnc. unat slot < 32 \<and> unat fnc < 8 \<and> present cfg bus slot 0 \<and> present cfg bus slot fnc \<longleftrightarrow>
      (\<exists>p \<in> set (device_list s'). \<exists>d. pci_devs s' p = Some d \<and> pd_bus d = bus \<and> pd_slot d = slot \<and> pd_func d = fnc)) \<and>
    (\<forall>p \<in> set (device_list s'). \<exists>d. pci_devs s' p = Some d \<and> pd_driver d = pd_driver (raw p) \<and>
      vendor (pd_id d) = ucast (cfg (pd_bus d) (pd_slot d) (pd_func d) 0) \<and> device (pd_id d) = ucast (drop_bit 16 (cfg (pd_bus d) (pd_slot d) (pd_func d) 0)))"
proof (rule pci_init_ok [OF assms(1-5) refl assms(6,7), of raw], goal_cases)
  case (1 s')
  have ex: "\<exists>f \<in> set (pci_functions cfg). pci_devs s' p = Some (shows_function cfg raw f p)" if "p \<in> set (device_list s')" for p
    using list_all2_members(1) [OF 1(5)] that by blast
  have ex2: "\<exists>p \<in> set (device_list s'). pci_devs s' p = Some (shows_function cfg raw f p)" if "f \<in> set (pci_functions cfg)" for f
    using list_all2_members(2) [OF 1(5)] that by blast
  have "unat slot < 32 \<and> unat fnc < 8 \<and> present cfg bus slot 0 \<and> present cfg bus slot fnc \<longleftrightarrow>
      (\<exists>p \<in> set (device_list s'). \<exists>d. pci_devs s' p = Some d \<and> pd_bus d = bus \<and> pd_slot d = slot \<and> pd_func d = fnc)" for bus slot fnc
  proof
    assume "unat slot < 32 \<and> unat fnc < 8 \<and> present cfg bus slot 0 \<and> present cfg bus slot fnc"
    then show "\<exists>p \<in> set (device_list s'). \<exists>d. pci_devs s' p = Some d \<and> pd_bus d = bus \<and> pd_slot d = slot \<and> pd_func d = fnc"
      using ex2 [of "(bus, slot, fnc)"] by (fastforce simp: pci_functions_set shows_function_def)
  next
    assume "\<exists>p \<in> set (device_list s'). \<exists>d. pci_devs s' p = Some d \<and> pd_bus d = bus \<and> pd_slot d = slot \<and> pd_func d = fnc"
    then have "(bus, slot, fnc) \<in> set (pci_functions cfg)" using ex by (fastforce simp: shows_function_def)
    then show "unat slot < 32 \<and> unat fnc < 8 \<and> present cfg bus slot 0 \<and> present cfg bus slot fnc" by (simp add: pci_functions_set)
  qed
  moreover have "\<exists>d. pci_devs s' p = Some d \<and> pd_driver d = pd_driver (raw p) \<and>
      vendor (pd_id d) = ucast (cfg (pd_bus d) (pd_slot d) (pd_func d) 0) \<and> device (pd_id d) = ucast (drop_bit 16 (cfg (pd_bus d) (pd_slot d) (pd_func d) 0))"
    if "p \<in> set (device_list s')" for p
    using ex [OF that] by (auto simp: shows_function_def)
  ultimately show ?case using 1 by (auto simp: pci_inv_def dest: list_all2_lengthD)
qed

text \<open>A machine with a bridge and an IDE controller as the functions 0 and 1 of device 1; the state of the devices is the address port.\<close>

definition small_config :: "u8 \<Rightarrow> u8 \<Rightarrow> u8 \<Rightarrow> u8 \<Rightarrow> u32" where
  "small_config bus slot fnc r =
     (if (bus, slot, fnc, r) = (0, 1, 0, 0) then 0x70008086 else if (bus, slot, fnc, r) = (0, 1, 1, 0) then 0x70108086 else 0xffffffff)"

definition small_ports :: "u32 io_ports" where
  "small_ports = \<lparr>io_inb = (\<lambda>port w. (0, w)), io_inw = (\<lambda>port w. (0, w)),
     io_inl = (\<lambda>port a. (small_config (ucast (drop_bit 16 a)) (ucast (drop_bit 11 a) AND 31) (ucast (drop_bit 8 a) AND 7) (ucast a), a)),
     io_outb = (\<lambda>port v w. w), io_outl = (\<lambda>port v w. if port = 0xcf8 then v else w)\<rparr>"

definition small_bus :: "u32 dstate" where
  "small_bus = cstate.extend small_cmdline \<lparr>hw = 0, pci_spinlock = SPIN_INITIALIZER, pci_devs = Map.empty, device_list = [],
     device_list_lock = MUTEX_INITIALIZER\<lparr>mtx_magic := 0\<rparr>, pci_initialized = False\<rparr>"

lemma small_bus_heap: "heap_inv small_bus" "heap_budget small_bus 2"
proof -
  have x: "heap_inv (cstate.extend s x) = heap_inv s" "heap_budget (cstate.extend s x) = heap_budget s" for s x
    by (simp_all add: cstate.extend_def heap_unfold)
  show "heap_inv small_bus" "heap_budget small_bus 2" using small_cmdline_heap(1,2) unfolding small_bus_def x by simp_all
qed

lemma small_bus_ready: "config_mechanism small_ports (\<lambda>_. True) small_config" "pci_ready (\<lambda>_. True) small_bus" "\<not> pci_initialized small_bus"
  "mtx_magic (device_list_lock small_bus) \<noteq> MUTEX_MAGIC" "spin_magic (waiting_tasks_lock (device_list_lock small_bus)) \<noteq> MUTEX_MAGIC"
  by (simp_all add: config_mechanism_def small_ports_def pci_ready_def small_bus_def cstate.extend_def MUTEX_MAGIC_def MUTEX_INITIALIZER_def
      SPIN_INITIALIZER_def SPIN_MAGIC_def)

lemma small_functions: "set (pci_functions small_config) = {(0, 1, 0), (0, 1, 1)}" "length (pci_functions small_config) = 2"
proof -
  have "(bus, slot, fnc) \<in> set (pci_functions small_config) \<longleftrightarrow> (bus, slot, fnc) \<in> {(0, 1, 0), (0, 1, 1)}" for bus slot fnc
    by (auto simp: pci_functions_set present_def small_config_def)
  then show s: "set (pci_functions small_config) = {(0, 1, 0), (0, 1, 1)}" by auto
  show "length (pci_functions small_config) = 2" using distinct_card [OF pci_functions_distinct, of small_config] by (simp add: s)
qed

theorem pci_init_spec_witness:
  "\<exists>s'. pci_init small_ports (\<lambda>p. \<lparr>pd_bus = 0, pd_slot = 0, pd_func = 0, pd_id = \<lparr>vendor = 0, device = 0\<rparr>, pd_driver = 7, pd_driver_data = 0\<rparr>) small_bus = Inr s' \<and>
    length (device_list s') = 2 \<and>
    (\<exists>p \<in> set (device_list s'). \<exists>d. pci_devs s' p = Some d \<and> pd_bus d = 0 \<and> pd_slot d = 1 \<and> pd_func d = 1 \<and> pd_driver d = 7 \<and>
      pd_id d = \<lparr>vendor = 0x8086, device = 0x7010\<rparr>)"
proof -
  let ?raw = "\<lambda>p :: u64. \<lparr>pd_bus = 0, pd_slot = 0, pd_func = 0, pd_id = \<lparr>vendor = 0, device = 0\<rparr>, pd_driver = 7, pd_driver_data = 0\<rparr>"
  have b: "heap_budget small_bus (length (pci_functions small_config))" using small_bus_heap(2) by (simp add: small_functions)
  from pci_init_spec [OF small_bus_ready(1,2) small_bus_heap(1) b small_bus_ready(3-5), of ?raw] obtain s' where
    s': "pci_init small_ports ?raw small_bus = Inr s'" "length (device_list s') = 2"
    "\<forall>bus slot fnc. unat slot < 32 \<and> unat fnc < 8 \<and> present small_config bus slot 0 \<and> present small_config bus slot fnc \<longleftrightarrow>
      (\<exists>p \<in> set (device_list s'). \<exists>d. pci_devs s' p = Some d \<and> pd_bus d = bus \<and> pd_slot d = slot \<and> pd_func d = fnc)"
    "\<forall>p \<in> set (device_list s'). \<exists>d. pci_devs s' p = Some d \<and> pd_driver d = 7 \<and>
      vendor (pd_id d) = ucast (small_config (pd_bus d) (pd_slot d) (pd_func d) 0) \<and>
      device (pd_id d) = ucast (drop_bit 16 (small_config (pd_bus d) (pd_slot d) (pd_func d) 0))"
    by (auto simp: small_functions)
  have "present small_config 0 1 0" "present small_config 0 1 1" by (simp_all add: present_def small_config_def)
  then obtain p d where p: "p \<in> set (device_list s')" "pci_devs s' p = Some d" "pd_bus d = 0" "pd_slot d = 1" "pd_func d = 1"
    using s'(3) [rule_format, of 1 1 0] by auto
  then have "pd_driver d = 7" "pd_id d = \<lparr>vendor = 0x8086, device = 0x7010\<rparr>"
    using s'(4) by (auto simp: small_config_def intro!: pci_idpair_t.equality)
  then show ?thesis using s'(1,2) p by blast
qed

section \<open>Binding a driver\<close>

text \<open>The pairs of a table before its end, and whether a device is among them.\<close>

definition table_end :: "pci_idpair_t \<Rightarrow> bool" where
  "table_end idpair \<longleftrightarrow> vendor idpair = 0 \<and> device idpair = 0"

definition known_ids :: "pci_idpair_t list \<Rightarrow> pci_idpair_t list" where
  "known_ids ids = takeWhile (\<lambda>i. \<not> table_end i) ids"

text \<open>The instance after a driver whose probe function returns \<open>dat\<close> has been offered it.\<close>

definition offered :: "pci_idpair_t list \<Rightarrow> u64 \<Rightarrow> u64 \<Rightarrow> pci_dev_t \<Rightarrow> pci_dev_t" where
  "offered ids drv dat d = (if pd_id d \<in> set (known_ids ids) \<and> dat \<noteq> NULL then d\<lparr>pd_driver := drv, pd_driver_data := dat\<rparr> else d)"

text \<open>
  What the driver's probe function has to do: in the states \<open>I\<close>, which do not depend on the instances and the lock of the list, it
  returns \<open>dat p\<close> for the instance \<open>p\<close> and leaves the list, its lock and its instances alone.
\<close>

definition probe_contract :: "(('w, 'a) dstate_scheme \<Rightarrow> bool) \<Rightarrow> (u64 \<Rightarrow> u64) \<Rightarrow>
    (u64 \<Rightarrow> ('w, 'a) dstate_scheme \<Rightarrow> (u64 \<times> ('w, 'a) dstate_scheme) result) \<Rightarrow> bool" where
  "probe_contract I dat probe \<longleftrightarrow> (\<forall>t x m. I t \<longrightarrow> I (t\<lparr>pci_devs := x\<rparr>) \<and> I (t\<lparr>device_list_lock := m\<rparr>)) \<and>
     (\<forall>p t. I t \<longrightarrow> (\<exists>t'. probe p t = Inr (dat p, t') \<and> I t' \<and> pci_devs t' = pci_devs t \<and> device_list t' = device_list t \<and>
        device_list_lock t' = device_list_lock t \<and> current_task t' = current_task t))"

definition same_list :: "('w, 'a) dstate_scheme \<Rightarrow> ('w, 'a) dstate_scheme \<Rightarrow> bool" where
  "same_list s s' \<longleftrightarrow> device_list s' = device_list s \<and> device_list_lock s' = device_list_lock s \<and> current_task s' = current_task s"

lemma register_ids_ok:
  assumes "probe_contract I dat probe" and "I s" and "pci_devs s p = Some d" and "n + i \<le> length ids \<or> (\<exists>x \<in> set (drop i ids). table_end x)"
  shows "\<exists>s'. register_ids ids probe drv p n i s = Inr s' \<and> I s' \<and> same_list s s' \<and>
    pci_devs s' = (pci_devs s)(p \<mapsto> offered (take n (drop i ids)) drv (dat p) d)"
  using assms(2-4)
proof (induction n arbitrary: i s d)
  case 0
  then show ?case by (auto simp: same_list_def offered_def known_ids_def)
next
  case (Suc n)
  have i: "i < length ids" using Suc.prems(3) by (cases "i < length ids") auto
  have ids: "take (Suc n) (drop i ids) = ids ! i # take n (drop (Suc i) ids)" using i by (simp add: Cons_nth_drop_Suc [symmetric])
  show ?case
  proof (cases "table_end (ids ! i)")
    case True
    then have "offered (take (Suc n) (drop i ids)) drv (dat p) d = d" by (simp add: ids offered_def known_ids_def)
    then show ?thesis using Suc.prems True i by (auto simp: table_end_def same_list_def)
  next
    case False
    have end': "n + Suc i \<le> length ids \<or> (\<exists>x \<in> set (drop (Suc i) ids). table_end x)"
      using Suc.prems(3) False i by (auto simp: Cons_nth_drop_Suc [symmetric])
    let ?hit = "vendor (pd_id d) = vendor (ids ! i) \<and> device (pd_id d) = device (ids ! i)"
    have hit: "?hit \<longleftrightarrow> pd_id d = ids ! i" by auto
    define e where "e = (if ?hit \<and> dat p \<noteq> NULL then d\<lparr>pd_driver := drv, pd_driver_data := dat p\<rparr> else d)"
    have off: "offered (take n (drop (Suc i) ids)) drv (dat p) e = offered (take (Suc n) (drop i ids)) drv (dat p) d"
      using False by (auto simp: ids offered_def known_ids_def e_def hit)
    obtain t where t: "probe p s = Inr (dat p, t)" "I t" "pci_devs t = pci_devs s" "same_list s t"
      using assms(1) Suc.prems(1) unfolding probe_contract_def same_list_def by metis
    have "\<exists>s1. (if ?hit then rbind (probe p s) (\<lambda>(drv_data, s). if drv_data \<noteq> NULL then rbind (pci_dev_at p s) (\<lambda>dev.
        Inr (s\<lparr>pci_devs := (pci_devs s)(p \<mapsto> dev\<lparr>pd_driver := drv, pd_driver_data := drv_data\<rparr>)\<rparr>)) else Inr s) else Inr s) = Inr s1 \<and>
        I s1 \<and> same_list s s1 \<and> pci_devs s1 = (pci_devs s)(p \<mapsto> e)"
      using t Suc.prems(1,2) assms(1) by (auto simp: pci_dev_at_def e_def same_list_def probe_contract_def)
    then obtain s1 where s1: "(if ?hit then rbind (probe p s) (\<lambda>(drv_data, s). if drv_data \<noteq> NULL then rbind (pci_dev_at p s) (\<lambda>dev.
        Inr (s\<lparr>pci_devs := (pci_devs s)(p \<mapsto> dev\<lparr>pd_driver := drv, pd_driver_data := drv_data\<rparr>)\<rparr>)) else Inr s) else Inr s) = Inr s1"
        "I s1" "same_list s s1" "pci_devs s1 = (pci_devs s)(p \<mapsto> e)" by blast
    have "pci_devs s1 p = Some e" using s1(4) by simp
    from Suc.IH [OF s1(2) this end'] obtain s' where s': "register_ids ids probe drv p n (Suc i) s1 = Inr s'" "I s'" "same_list s1 s'"
      "pci_devs s' = (pci_devs s1)(p \<mapsto> offered (take (Suc n) (drop i ids)) drv (dat p) d)" unfolding off by blast
    have "register_ids ids probe drv p (Suc n) i s = Inr s'"
      using i False Suc.prems(2) s1(1) s'(1) by (auto simp: table_end_def pci_dev_at_def)
    then show ?thesis using s' s1 by (auto simp: same_list_def)
  qed
qed

definition bound :: "pci_idpair_t list \<Rightarrow> u64 \<Rightarrow> (u64 \<Rightarrow> u64) \<Rightarrow> u64 \<Rightarrow> pci_dev_t \<Rightarrow> pci_dev_t" where
  "bound ids drv dat p d = (if pd_driver d = NULL then offered (take 100 ids) drv (dat p) d else d)"

lemma register_devs_ok:
  assumes "probe_contract I dat probe" and "I s" and "\<forall>p \<in> set ps. pci_devs s p \<noteq> None" and "distinct ps"
    and "100 \<le> length ids \<or> (\<exists>x \<in> set ids. table_end x)"
  shows "\<exists>s'. register_devs ids probe drv ps s = Inr s' \<and> I s' \<and> same_list s s' \<and>
    pci_devs s' = (\<lambda>p. if p \<in> set ps then map_option (bound ids drv dat p) (pci_devs s p) else pci_devs s p)"
  using assms(2-4)
proof (induction ps arbitrary: s)
  case Nil
  then show ?case by (simp add: same_list_def)
next
  case (Cons p ps)
  obtain d where d: "pci_devs s p = Some d" using Cons.prems(2) by auto
  have ids: "100 + 0 \<le> length ids \<or> (\<exists>x \<in> set (drop 0 ids). table_end x)" using assms(5) by simp
  obtain s1 where s1: "(if pd_driver d \<noteq> NULL then Inr s else register_ids ids probe drv p 100 0 s) = Inr s1" "I s1" "same_list s s1"
    "pci_devs s1 = (pci_devs s)(p \<mapsto> bound ids drv dat p d)"
    using register_ids_ok [OF assms(1) Cons.prems(1) d ids, of drv] d Cons.prems(1)
    by (cases "pd_driver d = NULL") (auto simp: bound_def same_list_def fun_upd_idem simp del: register_ids.simps)
  have "\<forall>q \<in> set ps. pci_devs s1 q \<noteq> None" using Cons.prems(2) s1(4) by simp
  then obtain s' where s': "register_devs ids probe drv ps s1 = Inr s'" "I s'" "same_list s1 s'"
    "pci_devs s' = (\<lambda>p. if p \<in> set ps then map_option (bound ids drv dat p) (pci_devs s1 p) else pci_devs s1 p)"
    using Cons.IH [OF s1(2)] Cons.prems(3) by auto
  have "register_devs ids probe drv (p # ps) s = Inr s'" using d s1(1) s'(1) by (simp add: pci_dev_at_def)
  moreover have "pci_devs s' = (\<lambda>q. if q \<in> set (p # ps) then map_option (bound ids drv dat q) (pci_devs s q) else pci_devs s q)"
    using s'(4) s1(4) d Cons.prems(3) by (auto simp: fun_eq_iff)
  ultimately show ?case using s' s1 by (auto simp: same_list_def)
qed


definition small_bound_bus :: "u32 dstate" where
  "small_bound_bus = small_bus\<lparr>device_list := [0x100, 0x200], device_list_lock := MUTEX_INITIALIZER, pci_devs :=
     [0x100 \<mapsto> \<lparr>pd_bus = 0, pd_slot = 1, pd_func = 1, pd_id = \<lparr>vendor = 0x8086, device = 0x7010\<rparr>, pd_driver = 0, pd_driver_data = 0\<rparr>,
      0x200 \<mapsto> \<lparr>pd_bus = 0, pd_slot = 2, pd_func = 0, pd_id = \<lparr>vendor = 0x8086, device = 0x7010\<rparr>, pd_driver = 7, pd_driver_data = 0\<rparr>]\<rparr>"

end
