(* ===== verification/Ata.thy ===== *)
theory Ata
  imports Pci
begin

text \<open>
  The driver for IDE disks behind a PCI controller, \<^verbatim>\<open>drivers/pc/ata.c\<close>.

  The memory of the DMA regions, which the controller shares with the driver, belongs to the state of the devices: the functions of
  \<open>dma_ports\<close> read and write it. What the kernel does from the moment a task gives up the processor until it runs again is the argument
  \<open>sleep\<close>. The busy waiting of \<^verbatim>\<open>msleep\<close> has no effect on the state.
\<close>

section \<open>Structures\<close>

record region_desc_t =
  prd_buffer :: u32
  prd_bytes :: u16
  prd_last_entry :: bool

record 'w dma_ports = "'w io_ports" +
  dma_prd :: "u64 \<Rightarrow> 'w \<Rightarrow> region_desc_t"
  dma_set_prd :: "u64 \<Rightarrow> region_desc_t \<Rightarrow> 'w \<Rightarrow> 'w"
  dma_bytes :: "u64 \<Rightarrow> nat \<Rightarrow> 'w \<Rightarrow> byte list"

record ide_channel_t =
  ch_prdt :: u64
  ch_data_ready :: u64
  ch_irq_status :: u8
  ch_signal_task :: u64
  ch_base :: u16
  ch_ctrl :: u16
  ch_busmaster :: u16
  ch_nIEN :: u16

record ide_dev_t =
  ide_present :: u8
  ide_channel :: u8
  ide_drive :: u8
  ide_type :: u16
  ide_signat :: u16
  ide_capa :: u16
  ide_cmd_sets :: u32
  ide_sectors :: u32
  ide_model :: "u8 list"

record pci_ide_dev_t =
  minor_base :: u64
  transfer_lock :: mutex_t
  ide_channels :: "ide_channel_t list"
  ide_devices :: "ide_dev_t list"

record 'w astate = "'w dstate" +
  ide_ctrls :: "u64 \<rightharpoonup> pci_ide_dev_t"
  ata_major :: u64
  ata_minor_counter :: u64

definition ctrl_at :: "u64 \<Rightarrow> ('w, 'a) astate_scheme \<Rightarrow> pci_ide_dev_t result" where
  "ctrl_at p s = (case ide_ctrls s p of None \<Rightarrow> Inl (Mem_Fault ''pci_ide_dev_t'') | Some c \<Rightarrow> Inr c)"

definition ctrl_set :: "u64 \<Rightarrow> pci_ide_dev_t \<Rightarrow> ('w, 'a) astate_scheme \<Rightarrow> ('w, 'a) astate_scheme" where
  "ctrl_set p c s = s\<lparr>ide_ctrls := (ide_ctrls s)(p \<mapsto> c)\<rparr>"

text \<open>A pointer to a channel is the controller's address and the index of the channel; \<open>channel_ptr\<close> is its address in memory.\<close>

definition chan_at :: "u64 \<Rightarrow> nat \<Rightarrow> ('w, 'a) astate_scheme \<Rightarrow> ide_channel_t result" where
  "chan_at p i s = rbind (ctrl_at p s) (\<lambda>c. rd (ide_channels c) i)"

definition chan_upd :: "u64 \<Rightarrow> nat \<Rightarrow> (ide_channel_t \<Rightarrow> ide_channel_t) \<Rightarrow> ('w, 'a) astate_scheme \<Rightarrow> ('w, 'a) astate_scheme result" where
  "chan_upd p i f s =
     rbind (ctrl_at p s) (\<lambda>c.
     rbind (rd (ide_channels c) i) (\<lambda>ch. Inr (ctrl_set p (c\<lparr>ide_channels := (ide_channels c)[i := f ch]\<rparr>) s)))"

definition channel_ptr :: "u64 \<Rightarrow> nat \<Rightarrow> u64" where
  "channel_ptr p i = p + 80 + 40 * of_nat i"

section \<open>Registers\<close>

definition ATA_SR_BSY :: nat where "ATA_SR_BSY = 7"
definition ATA_SR_DF :: nat where "ATA_SR_DF = 5"
definition ATA_SR_DRQ :: nat where "ATA_SR_DRQ = 3"
definition ATA_SR_ERR :: nat where "ATA_SR_ERR = 0"

definition ATA_CMD_IDENTIFY :: u8 where "ATA_CMD_IDENTIFY = 0xEC"
definition ATA_CMD_READ_DMA_EXT :: u8 where "ATA_CMD_READ_DMA_EXT = 0x25"

definition ATA_IDENT_DEVICETYPE :: nat where "ATA_IDENT_DEVICETYPE = 0"
definition ATA_IDENT_MODEL :: nat where "ATA_IDENT_MODEL = 54"
definition ATA_IDENT_CAPABILITIES :: nat where "ATA_IDENT_CAPABILITIES = 98"
definition ATA_IDENT_MAX_LBA :: nat where "ATA_IDENT_MAX_LBA = 120"
definition ATA_IDENT_COMMANDSETS :: nat where "ATA_IDENT_COMMANDSETS = 164"
definition ATA_IDENT_MAX_LBA_EXT :: nat where "ATA_IDENT_MAX_LBA_EXT = 200"

definition ATA_REG_DATA :: u8 where "ATA_REG_DATA = 0x00"
definition ATA_REG_SECCOUNT0 :: u8 where "ATA_REG_SECCOUNT0 = 0x02"
definition ATA_REG_LBA0 :: u8 where "ATA_REG_LBA0 = 0x03"
definition ATA_REG_LBA1 :: u8 where "ATA_REG_LBA1 = 0x04"
definition ATA_REG_LBA2 :: u8 where "ATA_REG_LBA2 = 0x05"
definition ATA_REG_HDDEVSEL :: u8 where "ATA_REG_HDDEVSEL = 0x06"
definition ATA_REG_COMMAND :: u8 where "ATA_REG_COMMAND = 0x07"
definition ATA_REG_STATUS :: u8 where "ATA_REG_STATUS = 0x07"
definition ATA_REG_CONTROL :: u8 where "ATA_REG_CONTROL = 0x0C"

definition DMA_CMD :: u16 where "DMA_CMD = 0x00"
definition DMA_STAT :: u16 where "DMA_STAT = 0x02"
definition DMA_ADDR :: u16 where "DMA_ADDR = 0x04"

definition DMA_CMD_START :: u8 where "DMA_CMD_START = 0x01"
definition DMA_CMD_STOP :: u8 where "DMA_CMD_STOP = 0"
definition DMA_CMD_READ :: u8 where "DMA_CMD_READ = 0x08"
definition DMA_STAT_FAIL :: u8 where "DMA_STAT_FAIL = 0x02"
definition DMA_STAT_IRQ :: u8 where "DMA_STAT_IRQ = 0x04"

definition BLOCKS_PER_PRD :: u64 where "BLOCKS_PER_PRD = (1024 * 64) div 512 - 1"

lemmas ata_defs = ATA_SR_BSY_def ATA_SR_DF_def ATA_SR_DRQ_def ATA_SR_ERR_def ATA_CMD_IDENTIFY_def ATA_CMD_READ_DMA_EXT_def
  ATA_REG_DATA_def ATA_REG_SECCOUNT0_def ATA_REG_LBA0_def ATA_REG_LBA1_def ATA_REG_LBA2_def ATA_REG_HDDEVSEL_def ATA_REG_COMMAND_def
  ATA_REG_STATUS_def ATA_REG_CONTROL_def DMA_CMD_def DMA_STAT_def DMA_ADDR_def DMA_CMD_START_def DMA_CMD_STOP_def DMA_CMD_READ_def
  DMA_STAT_FAIL_def DMA_STAT_IRQ_def

text \<open>The port of a register: \<^const>\<open>None\<close> for the numbers that the functions ignore.\<close>

definition ide_port :: "ide_channel_t \<Rightarrow> u8 \<Rightarrow> u16 option" where
  "ide_port ch reg =
     (if reg < 0x08 then Some (ch_base ch + ucast reg - 0x00)
      else if reg < 0x0c then Some (ch_base ch + ucast reg - 0x06)
      else if reg < 0x0e then Some (ch_ctrl ch + ucast reg - 0x0a)
      else if reg < 0x16 then Some (ch_busmaster ch + ucast reg - 0x0e)
      else None)"

definition ide_out :: "('w, 'x) io_ports_scheme \<Rightarrow> ide_channel_t \<Rightarrow> u8 \<Rightarrow> u8 \<Rightarrow> 'w \<Rightarrow> 'w" where
  "ide_out io ch reg dat w = (case ide_port ch reg of None \<Rightarrow> w | Some port \<Rightarrow> io_outb io port dat w)"

definition ide_write :: "('w, 'x) io_ports_scheme \<Rightarrow> ide_channel_t \<Rightarrow> u8 \<Rightarrow> u8 \<Rightarrow> 'w \<Rightarrow> 'w" where
  "ide_write io ch reg dat w =
     (let high = reg > 0x07 \<and> reg < 0x0c;
          w = (if high then ide_out io ch ATA_REG_CONTROL (ucast (0x80 OR ch_nIEN ch)) w else w);
          w = ide_out io ch reg dat w in
      if high then ide_out io ch ATA_REG_CONTROL (ucast (ch_nIEN ch)) w else w)"

definition ide_read :: "('w, 'x) io_ports_scheme \<Rightarrow> ide_channel_t \<Rightarrow> u8 \<Rightarrow> 'w \<Rightarrow> u8 \<times> 'w" where
  "ide_read io ch reg w =
     (let high = reg > 0x07 \<and> reg < 0x0c;
          w = (if high then ide_write io ch ATA_REG_CONTROL (ucast (0x80 OR ch_nIEN ch)) w else w);
          (result, w) = (case ide_port ch reg of None \<Rightarrow> (0, w) | Some port \<Rightarrow> io_inb io port w) in
      (result, if high then ide_write io ch ATA_REG_CONTROL (ucast (ch_nIEN ch)) w else w))"

section \<open>Interrupts\<close>

definition ata_irq :: "('w, 'x) io_ports_scheme \<Rightarrow> u64 \<Rightarrow> nat \<Rightarrow> ('w, 'a) astate_scheme \<Rightarrow> ('w, 'a) astate_scheme result" where
  "ata_irq io p i s =
     rbind (chan_at p i s) (\<lambda>channel.
     let busmaster_base = ch_busmaster channel;
         (status, w) = io_inb io (busmaster_base + DMA_STAT) (hw s);
         s = s\<lparr>hw := io_outb io (busmaster_base + DMA_STAT) 4 w\<rparr> in
     if status AND DMA_STAT_IRQ \<noteq> 0 then
       rbind (chan_upd p i (\<lambda>ch. ch\<lparr>ch_data_ready := 1, ch_irq_status := status\<rparr>) s) (\<lambda>s.
       rbind (chan_at p i s) (\<lambda>channel. irq_signal (ch_signal_task channel) s))
     else Inr s)"

section \<open>Reading blocks\<close>

text \<open>The direction and the registers of the drive, up to the command.\<close>

definition ata_program :: "('w, 'x) io_ports_scheme \<Rightarrow> ide_channel_t \<Rightarrow> u8 \<Rightarrow> u64 \<Rightarrow> u64 \<Rightarrow> 'w \<Rightarrow> 'w" where
  "ata_program io channel drive tr_size current_lba w =
     (let w = io_outb io (ch_busmaster channel + DMA_CMD) (DMA_CMD_READ OR DMA_CMD_STOP) w;
          (dma_stat, w) = io_inb io (ch_busmaster channel + DMA_STAT) w;
          w = io_outb io (ch_busmaster channel + DMA_STAT) (dma_stat AND NOT (DMA_STAT_FAIL OR DMA_STAT_IRQ)) w;
          iobase = ch_base channel;
          w = io_outb io (iobase + ucast ATA_REG_HDDEVSEL) (0xe0 OR push_bit 4 drive) w;
          w = io_outb io (iobase + ucast ATA_REG_SECCOUNT0) (ucast (drop_bit 8 tr_size)) w;
          w = io_outb io (iobase + ucast ATA_REG_LBA0) (ucast (drop_bit 24 current_lba AND 0xff)) w;
          w = io_outb io (iobase + ucast ATA_REG_LBA1) (ucast (drop_bit 32 current_lba AND 0xff)) w;
          w = io_outb io (iobase + ucast ATA_REG_LBA2) (ucast (drop_bit 40 current_lba AND 0xff)) w;
          w = io_outb io (iobase + ucast ATA_REG_SECCOUNT0) (ucast (tr_size AND 0xff)) w;
          w = io_outb io (iobase + ucast ATA_REG_LBA0) (ucast (current_lba AND 0xff)) w;
          w = io_outb io (iobase + ucast ATA_REG_LBA1) (ucast (drop_bit 8 current_lba AND 0xff)) w in
      io_outb io (iobase + ucast ATA_REG_LBA2) (ucast (drop_bit 16 current_lba AND 0xff)) w)"

text \<open>The loop that waits for the drive ends when the drive is not busy any more; \<open>n\<close> bounds the number of rounds.\<close>

fun ata_poll :: "nat \<Rightarrow> ('w, 'x) io_ports_scheme \<Rightarrow> u16 \<Rightarrow> 'w \<Rightarrow> 'w result" where
  "ata_poll 0 io port w = Inl Diverges"
| "ata_poll (Suc n) io port w =
     (case io_inb io port w of (status, w) \<Rightarrow> if bit status ATA_SR_BSY then ata_poll n io port w else Inr w)"

definition ata_command :: "('w, 'x) io_ports_scheme \<Rightarrow> ide_channel_t \<Rightarrow> 'w \<Rightarrow> 'w result" where
  "ata_command io channel w =
     (let iobase = ch_base channel in
      rbind (ata_poll address_fuel io (iobase + ucast ATA_REG_STATUS) w) (\<lambda>w.
      rbind (ata_poll address_fuel io (iobase + ucast ATA_REG_STATUS) (io_outb io (iobase + ucast ATA_REG_COMMAND) ATA_CMD_READ_DMA_EXT w)) (\<lambda>w.
      Inr (io_outb io (ch_busmaster channel + DMA_CMD) (DMA_CMD_READ OR DMA_CMD_START) w))))"

text \<open>\<^verbatim>\<open>irq_wait_until(&channel->data_ready, true)\<close>, with the time the task sleeps as \<open>sleep\<close>; \<open>n\<close> bounds how often it wakes up.\<close>

fun ata_wait :: "nat \<Rightarrow> (('w, 'a) astate_scheme \<Rightarrow> ('w, 'a) astate_scheme result) \<Rightarrow> u64 \<Rightarrow> nat \<Rightarrow> ('w, 'a) astate_scheme \<Rightarrow> ('w, 'a) astate_scheme result" where
  "ata_wait 0 sleep p i s = Inl Diverges"
| "ata_wait (Suc n) sleep p i s =
     rbind (chan_at p i s) (\<lambda>channel.
     if ch_data_ready channel = 1 then Inr s
     else
       rbind (task_at (current_task s) s) (\<lambda>task.
       rbind (sleep (task_set (current_task s) (task\<lparr>irq_wait := True\<rparr>) s)) (ata_wait n sleep p i)))"

text \<open>One round of the loop of \<^verbatim>\<open>ata_read\<close>: the bytes of the DMA buffer, or \<^const>\<open>None\<close> when the drive reports an error.\<close>

definition ata_transfer ::
  "('w, 'x) dma_ports_scheme \<Rightarrow> (('w, 'a) astate_scheme \<Rightarrow> ('w, 'a) astate_scheme result) \<Rightarrow> u64 \<Rightarrow> nat \<Rightarrow> u8 \<Rightarrow> u64 \<Rightarrow> u64 \<Rightarrow>
   ('w, 'a) astate_scheme \<Rightarrow> (byte list option \<times> ('w, 'a) astate_scheme) result" where
  "ata_transfer io sleep p i drive tr_size current_lba s =
     rbind (chan_at p i s) (\<lambda>channel.
     let prdt = ch_prdt channel;
         s = s\<lparr>hw := dma_set_prd io prdt ((dma_prd io prdt (hw s))\<lparr>prd_bytes := ucast (tr_size * 512)\<rparr>) (hw s)\<rparr> in
     rbind (chan_upd p i (\<lambda>ch. ch\<lparr>ch_data_ready := 0, ch_signal_task := current_task s\<rparr>) s) (\<lambda>s.
     rbind (ata_command io channel (ata_program io channel drive tr_size current_lba (hw s))) (\<lambda>w.
     let s = s\<lparr>hw := w\<rparr> in
     rbind (kassert (\<not> irq_ongoing s) ''cannot do irq_wait in irq context'') (\<lambda>_.
     rbind (ata_wait address_fuel sleep p i s) (\<lambda>s.
     rbind (chan_at p i s) (\<lambda>channel.
     rbind (kassert (ch_data_ready channel \<noteq> 0) ''irq not ready!'') (\<lambda>_.
     let w = io_outb io (ch_busmaster channel + DMA_CMD) (DMA_CMD_READ OR DMA_CMD_STOP) (hw s);
         (status, w) = io_inb io (ch_base channel + ucast ATA_REG_STATUS) w;
         s = s\<lparr>hw := w\<rparr> in
     if bit status ATA_SR_ERR \<or> bit status ATA_SR_DF then Inr (None, s)
     else Inr (Some (dma_bytes io (ch_prdt channel + 512) (unat (tr_size * 512)) w), s))))))))"

text \<open>The value is the number of blocks read and the bytes stored in the buffer. Each round takes at least one of the \<open>n\<close> blocks.\<close>

fun ata_read_loop ::
  "nat \<Rightarrow> ('w, 'x) dma_ports_scheme \<Rightarrow> (('w, 'a) astate_scheme \<Rightarrow> ('w, 'a) astate_scheme result) \<Rightarrow> u64 \<Rightarrow> nat \<Rightarrow> u8 \<Rightarrow> u64 \<Rightarrow> u64 \<Rightarrow> u64 \<Rightarrow> byte list \<Rightarrow>
   ('w, 'a) astate_scheme \<Rightarrow> (u64 \<times> byte list \<times> ('w, 'a) astate_scheme) result" where
  "ata_read_loop 0 io sleep p i drive current_lba blocks_read blocks_remaining buf s = (if blocks_remaining > 0 then Inl Diverges else Inr (blocks_read, buf, s))"
| "ata_read_loop (Suc n) io sleep p i drive current_lba blocks_read blocks_remaining buf s =
     (if blocks_remaining > 0 then
        let tr_size = (if blocks_remaining > BLOCKS_PER_PRD then BLOCKS_PER_PRD else blocks_remaining) in
        rbind (ata_transfer io sleep p i drive tr_size current_lba s) (\<lambda>(dat, s).
        case dat of None \<Rightarrow> Inr (blocks_read, buf, s)
        | Some data \<Rightarrow>
            ata_read_loop n io sleep p i drive (current_lba + tr_size) (blocks_read + tr_size) (blocks_remaining - tr_size) (buf @ data) s)
      else Inr (blocks_read, buf, s))"

definition ata_read ::
  "('w, 'x) dma_ports_scheme \<Rightarrow> (('w, 'a) astate_scheme \<Rightarrow> ('w, 'a) astate_scheme result) \<Rightarrow> u64 \<Rightarrow> u64 \<Rightarrow> u64 \<Rightarrow> u64 \<Rightarrow>
   ('w, 'a) astate_scheme \<Rightarrow> (int \<times> byte list \<times> ('w, 'a) astate_scheme) result" where
  "ata_read io sleep drv minor count lba s =
     (if drv = NULL then Inr (- ENODEV, [], s)
      else
        rbind (ctrl_at drv s) (\<lambda>c.
        rbind (mutex_lock (transfer_lock c) s) (\<lambda>m.
        let s = ctrl_set drv (c\<lparr>transfer_lock := m\<rparr>) s;
            ch_no = (if minor mod 4 \<ge> 2 then 1 else 0);
            drive = ucast (minor mod 2) in
        rbind (ata_read_loop (unat count) io sleep drv ch_no drive lba 0 count [] s) (\<lambda>(blocks_read, buf, s).
        rbind (ctrl_at drv s) (\<lambda>c.
        rbind (mutex_unlock (transfer_lock c) s) (\<lambda>(m, s).
        Inr (sint blocks_read, buf, ctrl_set drv (c\<lparr>transfer_lock := m\<rparr>) s)))))))"

definition ata_write :: "u64 \<Rightarrow> u64 \<Rightarrow> byte list \<Rightarrow> u64 \<Rightarrow> u64 \<Rightarrow> int" where
  "ata_write drv minor buf count lba = - ENOSYS"

section \<open>Identifying a drive\<close>

text \<open>The loop that waits for the data of the drive: whether it has data, or else it has reported an error.\<close>

fun ide_identify_poll :: "nat \<Rightarrow> ('w, 'x) io_ports_scheme \<Rightarrow> ide_channel_t \<Rightarrow> 'w \<Rightarrow> (bool \<times> 'w) result" where
  "ide_identify_poll 0 io ch w = Inl Diverges"
| "ide_identify_poll (Suc n) io ch w =
     (case ide_read io ch ATA_REG_STATUS w of (status, w) \<Rightarrow>
        if bit status ATA_SR_ERR then Inr (False, w)
        else if \<not> bit status ATA_SR_BSY \<and> bit status ATA_SR_DRQ then Inr (True, w)
        else ide_identify_poll n io ch w)"

text \<open>\<^verbatim>\<open>repinsw\<close>: \<open>n\<close> words from a port, as the bytes they are in memory.\<close>

fun repinsw :: "('w, 'x) io_ports_scheme \<Rightarrow> u16 \<Rightarrow> nat \<Rightarrow> 'w \<Rightarrow> byte list \<times> 'w" where
  "repinsw io port 0 w = ([], w)"
| "repinsw io port (Suc n) w =
     (let (v, w) = io_inw io port w; (data, w) = repinsw io port n w in (ucast v # ucast (drop_bit 8 v) # data, w))"

definition ide_model_text :: "byte list \<Rightarrow> byte list" where
  "ide_model_text idspace =
     concat (map (\<lambda>j. [idspace ! (ATA_IDENT_MODEL + 2 * j + 1), idspace ! (ATA_IDENT_MODEL + 2 * j)]) [0..<20])"

text \<open>Trailing blanks become terminators: the loop from index \<open>i - 1\<close> down.\<close>

fun ide_trim_model :: "nat \<Rightarrow> byte list \<Rightarrow> byte list" where
  "ide_trim_model 0 model = model"
| "ide_trim_model (Suc i) model =
     (if model ! i \<noteq> 32 \<and> model ! i \<noteq> 0 then model
      else ide_trim_model i (if model ! i = 32 then model[i := 0] else model))"

text \<open>The numbers of 16 and of 32 bits at index \<open>k\<close>.\<close>

definition ide_word :: "byte list \<Rightarrow> nat \<Rightarrow> u16" where
  "ide_word bs k = ucast (bs ! k) OR push_bit 8 (ucast (bs ! (k + 1)))"

definition ide_long :: "byte list \<Rightarrow> nat \<Rightarrow> u32" where
  "ide_long bs k = ucast (ide_word bs k) OR push_bit 16 (ucast (ide_word bs (k + 2)))"

definition ide_fill :: "byte list \<Rightarrow> u8 \<Rightarrow> u8 \<Rightarrow> ide_dev_t \<Rightarrow> ide_dev_t" where
  "ide_fill idspace channel drive d =
     (let cmd_sets = ide_long idspace ATA_IDENT_COMMANDSETS;
          d = d\<lparr>ide_present := 1, ide_channel := channel, ide_drive := drive, ide_signat := ide_word idspace ATA_IDENT_DEVICETYPE,
               ide_capa := ide_word idspace ATA_IDENT_CAPABILITIES, ide_cmd_sets := cmd_sets,
               ide_sectors := (if bit cmd_sets 26 then ide_long idspace ATA_IDENT_MAX_LBA_EXT else ide_long idspace ATA_IDENT_MAX_LBA)\<rparr>;
          model = ide_model_text idspace @ drop 40 (ide_model d) in
      d\<lparr>ide_model := (ide_trim_model 41 model)[40 := 0]\<rparr>)"

text \<open>
  The entry that is filled in is \<^verbatim>\<open>ide_device[drv_id]\<close>, where \<^verbatim>\<open>ide_device\<close> points to the entry \<^verbatim>\<open>drv_id\<close> already. Behind the array the
  structure ends. \<open>junk\<close> is what the buffer on the stack holds.
\<close>

definition ide_identify ::
  "('w, 'x) io_ports_scheme \<Rightarrow> (nat \<Rightarrow> byte) \<Rightarrow> u64 \<Rightarrow> u8 \<Rightarrow> u8 \<Rightarrow> ('w, 'a) astate_scheme \<Rightarrow> ('w, 'a) astate_scheme result" where
  "ide_identify io junk p channel drive s =
     (let drv_id = channel * 2 + drive in
      rbind (ctrl_at p s) (\<lambda>c.
      rbind (rd (ide_devices c) (unat drv_id)) (\<lambda>d.
      let c = c\<lparr>ide_devices := (ide_devices c)[unat drv_id := d\<lparr>ide_present := 0\<rparr>]\<rparr>; s = ctrl_set p c s in
      rbind (rd (ide_channels c) (unat channel)) (\<lambda>ch.
      let w = ide_write io ch ATA_REG_HDDEVSEL (0xA0 OR push_bit 4 drive) (hw s);
          w = ide_write io ch ATA_REG_COMMAND ATA_CMD_IDENTIFY w;
          (status, w) = ide_read io ch ATA_REG_STATUS w in
      if status = 0 then Inr (s\<lparr>hw := w\<rparr>)
      else
        rbind (ide_identify_poll address_fuel io ch w) (\<lambda>(ready, w).
        if \<not> ready then Inr (s\<lparr>hw := w\<rparr>)
        else
          let (status, w) = ide_read io ch ATA_REG_STATUS w;
              (idspace, w) = (if \<not> bit status ATA_SR_ERR then repinsw io (ch_base ch + ucast ATA_REG_DATA) 256 w else (map junk [0..<512], w)) in
          rbind (rd (ide_devices c) (unat drv_id + unat drv_id)) (\<lambda>d.
          Inr (ctrl_set p (c\<lparr>ide_devices := (ide_devices c)[unat drv_id + unat drv_id := ide_fill idspace channel drive d]\<rparr>) (s\<lparr>hw := w\<rparr>))))))))"

section \<open>Finding a controller\<close>

definition ata_setup_dma :: "('w, 'x) dma_ports_scheme \<Rightarrow> u64 \<Rightarrow> nat \<Rightarrow> ('w, 'a) astate_scheme \<Rightarrow> ('w, 'a) astate_scheme result" where
  "ata_setup_dma io p i s =
     rbind (alloc_dma_region s) (\<lambda>(phys_buffer, s).
     let prdt = phys_to_virt phys_buffer;
         s = s\<lparr>hw := dma_set_prd io prdt ((dma_prd io prdt (hw s))\<lparr>prd_buffer := ucast (phys_buffer + BLOCK_SIZE), prd_last_entry := True\<rparr>) (hw s)\<rparr> in
     rbind (chan_upd p i (\<lambda>ch. ch\<lparr>ch_prdt := prdt\<rparr>) s) (\<lambda>s.
     rbind (chan_at p i s) (\<lambda>ch.
     Inr (s\<lparr>hw := io_outl io (ch_busmaster ch + DMA_ADDR) (ucast phys_buffer) (hw s)\<rparr>))))"

definition IRQ_ATA_PRIM :: nat where "IRQ_ATA_PRIM = 0x0e"
definition IRQ_ATA_SEC :: nat where "IRQ_ATA_SEC = 0x0f"

text \<open>The interrupt and the DMA region of a channel, when one of its drives is present. \<open>func\<close> is the address of \<^verbatim>\<open>ata_irq\<close>.\<close>

definition ata_setup_channel ::
  "('w, 'x) dma_ports_scheme \<Rightarrow> u64 \<Rightarrow> u64 \<Rightarrow> nat \<Rightarrow> nat \<Rightarrow> ('w, 'a) astate_scheme \<Rightarrow> ('w, 'a) astate_scheme result" where
  "ata_setup_channel io func p i irq s =
     rbind (ctrl_at p s) (\<lambda>c.
     rbind (rd (ide_devices c) (2 * i)) (\<lambda>d0.
     rbind (rd (ide_devices c) (2 * i + 1)) (\<lambda>d1.
     if ide_present d0 \<noteq> 0 \<or> ide_present d1 \<noteq> 0 then
       rbind (irq_subscribe irq func (channel_ptr p i) s) (ata_setup_dma io p i)
     else Inr s)))"

text \<open>The drives that are present become block devices; \<^verbatim>\<open>sizeof(bd_t)\<close> is 64. \<open>drv\<close> is the address of the driver structure.\<close>

fun ata_register_drives ::
  "(nat \<Rightarrow> byte) \<Rightarrow> (string \<Rightarrow> ftype_t \<Rightarrow> fmode_t \<Rightarrow> u64 \<Rightarrow> u64 \<Rightarrow> ('w, 'a) astate_scheme \<Rightarrow> (int \<times> ('w, 'a) astate_scheme) result) \<Rightarrow> u64 \<Rightarrow> u64 \<Rightarrow>
   nat list \<Rightarrow> ('w, 'a) astate_scheme \<Rightarrow> ('w, 'a) astate_scheme result" where
  "ata_register_drives junk mknod drv p [] s = Inr s"
| "ata_register_drives junk mknod drv p (i # is) s =
     rbind (ctrl_at p s) (\<lambda>c.
     rbind (rd (ide_devices c) i) (\<lambda>dev.
     if ide_present dev = 0 then ata_register_drives junk mknod drv p is s
     else
       rbind (kmalloc 64 612 0 s) (\<lambda>(disk, s).
       rbind (bd_register junk mknod disk (s\<lparr>bds := (bds s)(disk \<mapsto>
         \<lparr>bd_minor = minor_base c + of_nat i, bd_capacity = ucast (ide_sectors dev), bd_driver = Driver drv, bd_data = p,
          bd_name = ''hdd'' @ part_digit i\<rparr>)\<rparr>)) (ata_register_drives junk mknod drv p is))))"

text \<open>A base address register, with the standard port when it is not set.\<close>

definition ata_bar :: "u32 \<Rightarrow> u32 \<Rightarrow> u32" where
  "ata_bar standard bar = (if bar = 0x0 \<or> bar = 0x1 then standard else bar)"

text \<open>\<^verbatim>\<open>sizeof(pci_ide_dev_t)\<close> is 416; \<open>raw\<close> is what the memory of the structure holds.\<close>

definition ata_probe ::
  "('w, 'x) dma_ports_scheme \<Rightarrow> (u64 \<Rightarrow> pci_ide_dev_t) \<Rightarrow> (nat \<Rightarrow> byte) \<Rightarrow>
   (string \<Rightarrow> ftype_t \<Rightarrow> fmode_t \<Rightarrow> u64 \<Rightarrow> u64 \<Rightarrow> ('w, 'a) astate_scheme \<Rightarrow> (int \<times> ('w, 'a) astate_scheme) result) \<Rightarrow> u64 \<Rightarrow> u64 \<Rightarrow> u64 \<Rightarrow>
   ('w, 'a) astate_scheme \<Rightarrow> (u64 \<times> ('w, 'a) astate_scheme) result" where
  "ata_probe io raw junk mknod drv func pdev s =
     rbind (pci_dev_at pdev s) (\<lambda>dev.
     rbind (pci_get_bar io dev 0 s) (\<lambda>(bar0, s).
     rbind (pci_get_bar io dev 1 s) (\<lambda>(bar1, s).
     rbind (pci_get_bar io dev 2 s) (\<lambda>(bar2, s).
     rbind (pci_get_bar io dev 3 s) (\<lambda>(bar3, s).
     rbind (pci_get_bar io dev 4 s) (\<lambda>(bar4, s).
     let bar0 = ata_bar 0x1f0 bar0; bar1 = ata_bar 0x3f6 bar1; bar2 = ata_bar 0x170 bar2; bar3 = ata_bar 0x376 bar3 in
     rbind (pci_enable_busmaster io dev s) (\<lambda>s.
     rbind (kmalloc 416 552 0 s) (\<lambda>(p, s).
     if p = NULL then Inl (Mem_Fault ''pci_ide_dev_t'') else
     let (base, counter) = atomic_add (ata_minor_counter s) 4; s = s\<lparr>ata_minor_counter := counter\<rparr>; c = raw p in
     rbind (mutex_init (transfer_lock c)) (\<lambda>m.
     rbind (rd (ide_channels c) 0) (\<lambda>prim.
     rbind (rd (ide_channels c) 1) (\<lambda>sec.
     let prim = prim\<lparr>ch_base := ucast (bar0 AND 0xfffffffc), ch_ctrl := ucast (bar1 AND 0xfffffffc), ch_busmaster := ucast (bar4 AND 0xfffffffc)\<rparr>;
         sec = sec\<lparr>ch_base := ucast (bar2 AND 0xfffffffc), ch_ctrl := ucast (bar3 AND 0xfffffffc), ch_busmaster := ucast ((bar4 AND 0xfffffffc) + 8)\<rparr>;
         s = ctrl_set p (c\<lparr>minor_base := base, transfer_lock := m, ide_channels := (ide_channels c)[0 := prim, 1 := sec]\<rparr>) s;
         s = s\<lparr>hw := ide_write io sec ATA_REG_CONTROL 2 (ide_write io prim ATA_REG_CONTROL 2 (hw s))\<rparr> in
     rbind (ide_identify io junk p 0 0 s) (\<lambda>s.
     rbind (ide_identify io junk p 0 1 s) (\<lambda>s.
     rbind (ide_identify io junk p 1 0 s) (\<lambda>s.
     rbind (ide_identify io junk p 1 1 s) (\<lambda>s.
     rbind (ata_setup_channel io func p 0 IRQ_ATA_PRIM s) (\<lambda>s.
     rbind (ata_setup_channel io func p 1 IRQ_ATA_SEC s) (\<lambda>s.
     let s = s\<lparr>hw := ide_write io sec ATA_REG_CONTROL 0 (ide_write io prim ATA_REG_CONTROL 0 (hw s))\<rparr> in
     rbind (ata_register_drives junk mknod drv p [0, 1, 2] s) (\<lambda>s. Inr (p, s)))))))))))))))))))"

definition ata_pci_ids :: "pci_idpair_t list" where
  "ata_pci_ids = [\<lparr>vendor = 0x8086, device = 0x7111\<rparr>, \<lparr>vendor = 0x8086, device = 0x7010\<rparr>, \<lparr>vendor = 0, device = 0\<rparr>]"

text \<open>\<open>pci_drv\<close> is the address of the structure of the PCI driver.\<close>

definition pc_ata_init ::
  "('w, 'x) dma_ports_scheme \<Rightarrow> (u64 \<Rightarrow> pci_ide_dev_t) \<Rightarrow> (nat \<Rightarrow> byte) \<Rightarrow>
   (string \<Rightarrow> ftype_t \<Rightarrow> fmode_t \<Rightarrow> u64 \<Rightarrow> u64 \<Rightarrow> ('w, 'a) astate_scheme \<Rightarrow> (int \<times> ('w, 'a) astate_scheme) result) \<Rightarrow> u64 \<Rightarrow> u64 \<Rightarrow> u64 \<Rightarrow>
   ('w, 'a) astate_scheme \<Rightarrow> ('w, 'a) astate_scheme result" where
  "pc_ata_init io raw junk mknod drv func pci_drv s =
     rbind (bd_register_driver (Driver drv) s) (\<lambda>(major, s).
     pci_register_driver ata_pci_ids (ata_probe io raw junk mknod drv func) pci_drv (s\<lparr>ata_major := major\<rparr>))"

section \<open>The controller\<close>

text \<open>
  What a controller and its drives are to do, as far as the driver sees it: the registers of a channel, of which the sector count
  and the address keep the previous and the current value; how many reads of the status still show that the drive is busy; the region
  descriptor and the status of the bus master; and the outcome of the last transfer.
\<close>

record ata_view =
  av_select :: u8
  av_count :: "u8 \<times> u8"
  av_lba :: "nat \<Rightarrow> u8 \<times> u8"
  av_command :: u8
  av_busy :: nat
  av_prd :: region_desc_t
  av_stat :: u8
  av_error :: bool
  av_data :: "byte list"

definition push :: "u8 \<Rightarrow> u8 \<times> u8 \<Rightarrow> u8 \<times> u8" where
  "push v r = (snd r, v)"

text \<open>The first block and the number of blocks that 48 bit addressing takes from the registers.\<close>

definition av_first :: "ata_view \<Rightarrow> nat" where
  "av_first v = unat (snd (av_lba v 0)) + 2 ^ 8 * unat (snd (av_lba v 1)) + 2 ^ 16 * unat (snd (av_lba v 2)) +
     2 ^ 24 * unat (fst (av_lba v 0)) + 2 ^ 32 * unat (fst (av_lba v 1)) + 2 ^ 40 * unat (fst (av_lba v 2))"

definition av_blocks :: "ata_view \<Rightarrow> nat" where
  "av_blocks v = (let n = 2 ^ 8 * unat (fst (av_count v)) + unat (snd (av_count v)) in if n = 0 then 65536 else n)"

text \<open>A transfer from the selected drive to memory; \<open>disk d k\<close> is block \<open>k\<close> of drive \<open>d\<close>, \<^const>\<open>None\<close> where it cannot be read.\<close>

definition av_transfer :: "(bool \<Rightarrow> nat \<Rightarrow> byte list option) \<Rightarrow> ata_view \<Rightarrow> ata_view" where
  "av_transfer disk v =
     (let blocks = map (disk (bit (av_select v) 4)) [av_first v..<av_first v + av_blocks v]; v = v\<lparr>av_stat := av_stat v OR 4\<rparr> in
      if None \<notin> set blocks \<and> unat (prd_bytes (av_prd v)) = 512 * av_blocks v then v\<lparr>av_data := concat (map the blocks), av_error := False\<rparr>
      else v\<lparr>av_error := True\<rparr>)"

definition ata_channel ::
  "('w, 'x) dma_ports_scheme \<Rightarrow> ide_channel_t \<Rightarrow> ('w \<Rightarrow> ata_view) \<Rightarrow> (bool \<Rightarrow> nat \<Rightarrow> byte list option) \<Rightarrow> bool" where
  "ata_channel io ch view disk \<longleftrightarrow>
     (\<forall>w x. view (io_outb io (ch_base ch + 2) x w) = (view w)\<lparr>av_count := push x (av_count (view w))\<rparr>) \<and>
     (\<forall>w x. view (io_outb io (ch_base ch + 3) x w) = (view w)\<lparr>av_lba := (av_lba (view w))(0 := push x (av_lba (view w) 0))\<rparr>) \<and>
     (\<forall>w x. view (io_outb io (ch_base ch + 4) x w) = (view w)\<lparr>av_lba := (av_lba (view w))(1 := push x (av_lba (view w) 1))\<rparr>) \<and>
     (\<forall>w x. view (io_outb io (ch_base ch + 5) x w) = (view w)\<lparr>av_lba := (av_lba (view w))(2 := push x (av_lba (view w) 2))\<rparr>) \<and>
     (\<forall>w x. view (io_outb io (ch_base ch + 6) x w) = (view w)\<lparr>av_select := x\<rparr>) \<and>
     (\<forall>w x. \<exists>b < 2 ^ 64. view (io_outb io (ch_base ch + 7) x w) = (view w)\<lparr>av_command := x, av_busy := b\<rparr>) \<and>
     (\<forall>w. case io_inb io (ch_base ch + 7) w of (st, w') \<Rightarrow>
        view w' = (view w)\<lparr>av_busy := av_busy (view w) - 1\<rparr> \<and> (bit st 7 \<longleftrightarrow> av_busy (view w) > 0) \<and>
        (av_busy (view w) = 0 \<longrightarrow> (bit st 0 \<or> bit st 5) = av_error (view w))) \<and>
     (\<forall>w x. view (io_outb io (ch_busmaster ch) x w) =
        (if x = 0x09 \<and> av_command (view w) = 0x25 \<and> av_busy (view w) = 0 then av_transfer disk (view w) else view w)) \<and>
     (\<forall>w. case io_inb io (ch_busmaster ch + 2) w of (st, w') \<Rightarrow> st = av_stat (view w) \<and> view w' = view w) \<and>
     (\<forall>w x. view (io_outb io (ch_busmaster ch + 2) x w) = (view w)\<lparr>av_stat := av_stat (view w) AND NOT (x AND 6)\<rparr>) \<and>
     (\<forall>w r. view (dma_set_prd io (ch_prdt ch) r w) = (view w)\<lparr>av_prd := r\<rparr>) \<and>
     (\<forall>w. dma_prd io (ch_prdt ch) w = av_prd (view w)) \<and>
     (\<forall>w n. n \<le> length (av_data (view w)) \<longrightarrow> dma_bytes io (ch_prdt ch + 512) n w = take n (av_data (view w)))"

lemma ata_channel_cong [simp]:
  "ata_channel io (ch\<lparr>ch_data_ready := a, ch_signal_task := b\<rparr>) view disk = ata_channel io ch view disk"
  "ata_channel io (ch\<lparr>ch_data_ready := a, ch_irq_status := d\<rparr>) view disk = ata_channel io ch view disk"
  by (simp_all add: ata_channel_def)

section \<open>Programming a transfer\<close>

lemma ata_channel_out:
  assumes "ata_channel io ch view disk"
  shows "view (io_outb io (ch_base ch + 2) x w) = (view w)\<lparr>av_count := push x (av_count (view w))\<rparr>"
    and "view (io_outb io (ch_base ch + 3) x w) = (view w)\<lparr>av_lba := (av_lba (view w))(0 := push x (av_lba (view w) 0))\<rparr>"
    and "view (io_outb io (ch_base ch + 4) x w) = (view w)\<lparr>av_lba := (av_lba (view w))(1 := push x (av_lba (view w) 1))\<rparr>"
    and "view (io_outb io (ch_base ch + 5) x w) = (view w)\<lparr>av_lba := (av_lba (view w))(2 := push x (av_lba (view w) 2))\<rparr>"
    and "view (io_outb io (ch_base ch + 6) x w) = (view w)\<lparr>av_select := x\<rparr>"
    and "view (io_outb io (ch_busmaster ch) x w) =
        (if x = 0x09 \<and> av_command (view w) = 0x25 \<and> av_busy (view w) = 0 then av_transfer disk (view w) else view w)"
    and "view (io_outb io (ch_busmaster ch + 2) x w) = (view w)\<lparr>av_stat := av_stat (view w) AND NOT (x AND 6)\<rparr>"
    and "view (dma_set_prd io (ch_prdt ch) r w) = (view w)\<lparr>av_prd := r\<rparr>"
    and "dma_prd io (ch_prdt ch) w = av_prd (view w)"
    and "n \<le> length (av_data (view w)) \<Longrightarrow> dma_bytes io (ch_prdt ch + 512) n w = take n (av_data (view w))"
  using assms by (simp_all only: ata_channel_def)

lemma ata_channel_in:
  assumes "ata_channel io ch view disk"
  shows "io_inb io (ch_base ch + 7) w = (st, w') \<Longrightarrow> view w' = (view w)\<lparr>av_busy := av_busy (view w) - 1\<rparr>"
    and "io_inb io (ch_base ch + 7) w = (st, w') \<Longrightarrow> bit st 7 \<longleftrightarrow> av_busy (view w) > 0"
    and "io_inb io (ch_base ch + 7) w = (st, w') \<Longrightarrow> av_busy (view w) = 0 \<Longrightarrow> (bit st 0 \<or> bit st 5) = av_error (view w)"
    and "io_inb io (ch_busmaster ch + 2) w = (st, w') \<Longrightarrow> st = av_stat (view w)"
    and "io_inb io (ch_busmaster ch + 2) w = (st, w') \<Longrightarrow> view w' = view w"
    and "\<exists>b < 2 ^ 64. view (io_outb io (ch_base ch + 7) x w) = (view w)\<lparr>av_command := x, av_busy := b\<rparr>"
proof -
  have "case io_inb io (ch_base ch + 7) w of (st, w') \<Rightarrow>
        view w' = (view w)\<lparr>av_busy := av_busy (view w) - 1\<rparr> \<and> (bit st 7 \<longleftrightarrow> av_busy (view w) > 0) \<and>
        (av_busy (view w) = 0 \<longrightarrow> (bit st 0 \<or> bit st 5) = av_error (view w))"
    "case io_inb io (ch_busmaster ch + 2) w of (st, w') \<Rightarrow> st = av_stat (view w) \<and> view w' = view w"
    using assms by (simp_all only: ata_channel_def)
  then show "io_inb io (ch_base ch + 7) w = (st, w') \<Longrightarrow> view w' = (view w)\<lparr>av_busy := av_busy (view w) - 1\<rparr>"
    and "io_inb io (ch_base ch + 7) w = (st, w') \<Longrightarrow> bit st 7 \<longleftrightarrow> av_busy (view w) > 0"
    and "io_inb io (ch_base ch + 7) w = (st, w') \<Longrightarrow> av_busy (view w) = 0 \<Longrightarrow> (bit st 0 \<or> bit st 5) = av_error (view w)"
    and "io_inb io (ch_busmaster ch + 2) w = (st, w') \<Longrightarrow> st = av_stat (view w)"
    and "io_inb io (ch_busmaster ch + 2) w = (st, w') \<Longrightarrow> view w' = view w" by auto
  show "\<exists>b < 2 ^ 64. view (io_outb io (ch_base ch + 7) x w) = (view w)\<lparr>av_command := x, av_busy := b\<rparr>"
    using assms by (simp only: ata_channel_def)
qed

lemma unat_byte:
  fixes x :: u64
  shows "unat (ucast (drop_bit k x) :: u8) = unat x div 2 ^ k mod 256" and "unat (ucast (drop_bit k x AND 0xff) :: u8) = unat x div 2 ^ k mod 256"
proof -
  have m: "(0xff :: u64) = mask 8" by (simp add: mask_eq_exp_minus_1)
  have e: "ucast (drop_bit k x AND 0xff) = (ucast (drop_bit k x) :: u8)" unfolding m by (rule bit_word_eqI) (auto simp: bit_simps)
  have "take_bit 64 (unat x) = unat x" by (rule take_bit_nat_eq_self) (use unsigned_less [where ?'a = nat, of x] in simp)
  then have "unat (ucast (drop_bit k x) :: u8) = take_bit 8 (drop_bit k (unat x))" by (simp add: unsigned_ucast_eq unsigned_drop_bit_eq)
  then show "unat (ucast (drop_bit k x) :: u8) = unat x div 2 ^ k mod 256" by (simp add: take_bit_eq_mod drop_bit_eq_div)
  then show "unat (ucast (drop_bit k x AND 0xff) :: u8) = unat x div 2 ^ k mod 256" unfolding e .
qed

lemma nat_bytes:
  fixes n :: nat
  assumes "n < 2 ^ 48"
  shows "n mod 256 + 256 * (n div 256 mod 256) + 65536 * (n div 65536 mod 256) + 16777216 * (n div 16777216 mod 256) +
    4294967296 * (n div 4294967296 mod 256) + 1099511627776 * (n div 1099511627776 mod 256) = n"
proof -
  have e: "n = 256 * (n div 256) + n mod 256" by simp
  have d: "n div 256 = 256 * (n div 65536) + n div 256 mod 256" "n div 65536 = 256 * (n div 16777216) + n div 65536 mod 256"
    "n div 16777216 = 256 * (n div 4294967296) + n div 16777216 mod 256" "n div 4294967296 = 256 * (n div 1099511627776) + n div 4294967296 mod 256"
    using mult_div_mod_eq [of 256 "n div 256"] mult_div_mod_eq [of 256 "n div 65536"] mult_div_mod_eq [of 256 "n div 16777216"]
      mult_div_mod_eq [of 256 "n div 4294967296"] by (simp_all add: div_mult2_eq [symmetric])
  have "n div 1099511627776 mod 256 = n div 1099511627776" using assms by (intro mod_less) (simp add: less_mult_imp_div_less)
  then show ?thesis using e d by linarith
qed

lemma program_view:
  assumes "ata_channel io ch view disk" and "unat lba < 2 ^ 48" and "0 < unat tr" and "unat tr < 256"
    and v_def: "v = view (ata_program io ch drive tr lba w)"
  shows "av_first v = unat lba" and "av_blocks v = unat tr" and "av_select v = 0xe0 OR push_bit 4 drive" and "av_prd v = av_prd (view w)"
    and "av_busy v = av_busy (view w)"
proof -
  obtain st w1 where st: "io_inb io (ch_busmaster ch + 2) (io_outb io (ch_busmaster ch) 8 w) = (st, w1)" by force
  note out = ata_channel_out [OF assms(1)]
  have w1: "view w1 = view w" using ata_channel_in(5) [OF assms(1) st] by (simp add: out)
  let ?lba = "(av_lba (view w))(0 := (ucast (drop_bit 24 lba AND 0xff), ucast (drop_bit 0 lba AND 0xff)),
      1 := (ucast (drop_bit 32 lba AND 0xff), ucast (drop_bit 8 lba AND 0xff)), 2 := (ucast (drop_bit 40 lba AND 0xff), ucast (drop_bit 16 lba AND 0xff)))"
  have "\<exists>x. v = (view w)\<lparr>av_stat := x, av_select := 0xe0 OR push_bit 4 drive, av_count := (ucast (drop_bit 8 tr), ucast (drop_bit 0 tr AND 0xff)), av_lba := ?lba\<rparr>"
    unfolding v_def ata_program_def ata_defs using st by (simp add: out w1 push_def Let_def) (rule exI, rule refl)
  then obtain x where e: "v = (view w)\<lparr>av_stat := x, av_select := 0xe0 OR push_bit 4 drive, av_count := (ucast (drop_bit 8 tr), ucast (drop_bit 0 tr AND 0xff)), av_lba := ?lba\<rparr>" by blast
  have v: "av_lba v = ?lba" "av_count v = (ucast (drop_bit 8 tr), ucast (drop_bit 0 tr AND 0xff))"
    "av_select v = 0xe0 OR push_bit 4 drive" "av_prd v = av_prd (view w)" "av_busy v = av_busy (view w)"
    unfolding e by simp_all
  show "av_select v = 0xe0 OR push_bit 4 drive" "av_prd v = av_prd (view w)" "av_busy v = av_busy (view w)" by (fact v)+
  show "av_first v = unat lba"
    using nat_bytes [OF assms(2)] unat_byte(2) [of 0 lba] unfolding av_first_def v(1) by (simp add: unat_byte)
  show "av_blocks v = unat tr"
    using assms(3,4) unat_byte(2) [of 0 tr] unat_byte(1) [of 8 tr] by (simp add: av_blocks_def v(2))
qed

lemma ata_poll_ok:
  assumes "ata_channel io ch view disk" and "av_busy (view w) < n"
  shows "\<exists>w'. ata_poll n io (ch_base ch + 7) w = Inr w' \<and> view w' = (view w)\<lparr>av_busy := 0\<rparr>"
  using assms(2)
proof (induction n arbitrary: w)
  case (Suc n)
  obtain st w1 where st: "io_inb io (ch_base ch + 7) w = (st, w1)" by force
  note inb = ata_channel_in(1,2) [OF assms(1) st]
  show ?case
  proof (cases "av_busy (view w) = 0")
    case True
    then show ?thesis using st inb by (simp add: ATA_SR_BSY_def)
  next
    case False
    then show ?thesis using st inb Suc.IH [of w1] Suc.prems by (simp add: ATA_SR_BSY_def)
  qed
qed simp

lemma ata_command_ok:
  assumes "ata_channel io ch view disk" and "av_busy (view w) < 2 ^ 64"
  shows "\<exists>w'. ata_command io ch w = Inr w' \<and> view w' = av_transfer disk ((view w)\<lparr>av_command := 0x25, av_busy := 0\<rparr>)"
proof -
  have "av_busy (view w) < address_fuel" using assms(2) by simp
  from ata_poll_ok [OF assms(1) this] obtain w1 where
    w1: "ata_poll address_fuel io (ch_base ch + 7) w = Inr w1" "view w1 = (view w)\<lparr>av_busy := 0\<rparr>" by blast
  let ?w2 = "io_outb io (ch_base ch + 7) 0x25 w1"
  obtain b where b: "b < 2 ^ 64" "view ?w2 = (view w1)\<lparr>av_command := 0x25, av_busy := b\<rparr>"
    using ata_channel_in(6) [OF assms(1), of "0x25" w1] by blast
  then have "av_busy (view ?w2) < address_fuel" by simp
  from ata_poll_ok [OF assms(1) this] obtain w3 where
    w3: "ata_poll address_fuel io (ch_base ch + 7) ?w2 = Inr w3" "view w3 = (view ?w2)\<lparr>av_busy := 0\<rparr>" by blast
  have "view w3 = (view w)\<lparr>av_command := 0x25, av_busy := 0\<rparr>" using w3(2) b(2) w1(2) by simp
  then show ?thesis using w1(1) w3(1) by (simp add: ata_command_def ata_defs ata_channel_out [OF assms(1)])
qed

section \<open>Waiting for the end of a transfer\<close>

definition ata_ready :: "('w, 'x) dma_ports_scheme \<Rightarrow> u64 \<Rightarrow> nat \<Rightarrow> ('w \<Rightarrow> ata_view) \<Rightarrow> (bool \<Rightarrow> nat \<Rightarrow> byte list option) \<Rightarrow> ('w, 'a) astate_scheme \<Rightarrow> bool" where
  "ata_ready io p i view disk s \<longleftrightarrow>
     (\<exists>c. ide_ctrls s p = Some c \<and> i < length (ide_channels c) \<and> ata_channel io (ide_channels c ! i) view disk) \<and>
     av_busy (view (hw s)) < 2 ^ 64 \<and> tasks s (current_task s) \<noteq> None \<and> \<not> irq_ongoing s"

text \<open>The running task and everything but the channels of the controller are the same.\<close>

definition same_ctrl :: "u64 \<Rightarrow> ('w, 'a) astate_scheme \<Rightarrow> ('w, 'a) astate_scheme \<Rightarrow> bool" where
  "same_ctrl p s s' \<longleftrightarrow> current_task s' = current_task s \<and>
     (\<exists>c chs. ide_ctrls s p = Some c \<and> ide_ctrls s' = (ide_ctrls s)(p \<mapsto> c\<lparr>ide_channels := chs\<rparr>))"

lemma same_ctrl_trans: "same_ctrl p s s1 \<Longrightarrow> same_ctrl p s1 s2 \<Longrightarrow> same_ctrl p s s2"
proof -
  assume "same_ctrl p s s1" "same_ctrl p s1 s2"
  then obtain c chs chs' where "current_task s2 = current_task s" "ide_ctrls s p = Some c" "ide_ctrls s2 = (ide_ctrls s)(p \<mapsto> c\<lparr>ide_channels := chs'\<rparr>)"
    by (auto simp: same_ctrl_def)
  then show "same_ctrl p s s2" unfolding same_ctrl_def by blast
qed

text \<open>
  While the task sleeps, the interrupt of the channel comes. What else the kernel does in that time changes neither the controller nor its
  structure, and the same task runs afterwards.
\<close>

definition wakes_by_irq :: "('w, 'x) dma_ports_scheme \<Rightarrow> u64 \<Rightarrow> nat \<Rightarrow> (('w, 'a) astate_scheme \<Rightarrow> ('w, 'a) astate_scheme result) \<Rightarrow> bool" where
  "wakes_by_irq io p i sleep \<longleftrightarrow> (\<forall>s s1. ata_irq io p i s = Inr s1 \<longrightarrow> tasks s1 (current_task s1) \<noteq> None \<longrightarrow>
     (\<exists>s'. sleep s = Inr s' \<and> hw s' = hw s1 \<and> ide_ctrls s' = ide_ctrls s1 \<and> current_task s' = current_task s1 \<and>
        tasks s' (current_task s1) \<noteq> None \<and> irq_ongoing s' = irq_ongoing s1))"

lemma ata_irq_ok:
  assumes "ata_channel io (ide_channels c ! i) view disk" and "ide_ctrls s p = Some c" and "i < length (ide_channels c)"
    and "bit (av_stat (view (hw s))) 2" and "tasks s (ch_signal_task (ide_channels c ! i)) \<noteq> None"
  shows "\<exists>s1 st x. ata_irq io p i s = Inr s1 \<and> view (hw s1) = (view (hw s))\<lparr>av_stat := x\<rparr> \<and>
    ide_ctrls s1 = (ide_ctrls s)(p \<mapsto> c\<lparr>ide_channels := (ide_channels c)[i := (ide_channels c ! i)\<lparr>ch_data_ready := 1, ch_irq_status := st\<rparr>]\<rparr>) \<and>
    current_task s1 = current_task s \<and> (\<forall>t. tasks s1 t = None \<longleftrightarrow> tasks s t = None) \<and> irq_ongoing s1 = irq_ongoing s"
proof -
  let ?ch = "ide_channels c ! i"
  obtain st w1 where st: "io_inb io (ch_busmaster ?ch + 2) (hw s) = (st, w1)" by force
  note inb = ata_channel_in(4,5) [OF assms(1) st]
  have b: "st AND 4 \<noteq> 0"
  proof
    assume "st AND 4 = 0"
    then have "\<not> bit (st AND 4) 2" by simp
    then show False using assms(4) inb(1) by (simp add: bit_and_iff)
  qed
  obtain t where t: "tasks s (ch_signal_task ?ch) = Some t" using assms(5) by blast
  show ?thesis using assms(2,3) st inb b t
    by (auto simp: ata_irq_def chan_at_def chan_upd_def ctrl_at_def ctrl_set_def ata_defs irq_signal_def task_at_def task_set_def
        ata_channel_out [OF assms(1)])
qed

lemma ata_wait_ok:
  assumes "ata_channel io (ide_channels c ! i) view disk" and "ide_ctrls s p = Some c" and "i < length (ide_channels c)"
    and "bit (av_stat (view (hw s))) 2" and "ch_signal_task (ide_channels c ! i) = current_task s" and "ch_data_ready (ide_channels c ! i) = 0"
    and "tasks s (current_task s) \<noteq> None" and "\<not> irq_ongoing s" and "wakes_by_irq io p i sleep"
  shows "\<exists>s' st x. ata_wait address_fuel sleep p i s = Inr s' \<and> view (hw s') = (view (hw s))\<lparr>av_stat := x\<rparr> \<and>
    ide_ctrls s' = (ide_ctrls s)(p \<mapsto> c\<lparr>ide_channels := (ide_channels c)[i := (ide_channels c ! i)\<lparr>ch_data_ready := 1, ch_irq_status := st\<rparr>]\<rparr>) \<and>
    current_task s' = current_task s \<and> tasks s' (current_task s) \<noteq> None \<and> \<not> irq_ongoing s'"
proof -
  obtain t where t: "tasks s (current_task s) = Some t" using assms(7) by blast
  let ?s = "task_set (current_task s) (t\<lparr>irq_wait := True\<rparr>) s"
  have f: "ide_ctrls ?s = ide_ctrls s" "hw ?s = hw s" "current_task ?s = current_task s" "irq_ongoing ?s = irq_ongoing s"
    "tasks ?s (current_task s) \<noteq> None" by (simp_all add: task_set_def)
  have q: "ide_ctrls ?s p = Some c" "bit (av_stat (view (hw ?s))) 2" "tasks ?s (ch_signal_task (ide_channels c ! i)) \<noteq> None"
    using assms(2,4,5) f by simp_all
  obtain s1 st x where s1: "ata_irq io p i ?s = Inr s1" "view (hw s1) = (view (hw s))\<lparr>av_stat := x\<rparr>"
    "ide_ctrls s1 = (ide_ctrls s)(p \<mapsto> c\<lparr>ide_channels := (ide_channels c)[i := (ide_channels c ! i)\<lparr>ch_data_ready := 1, ch_irq_status := st\<rparr>]\<rparr>)"
    "current_task s1 = current_task s" "irq_ongoing s1 = irq_ongoing s" "\<forall>q. tasks s1 q = None \<longleftrightarrow> tasks ?s q = None"
    using ata_irq_ok [OF assms(1) q(1) assms(3) q(2,3)] unfolding f by blast
  obtain s' where s': "sleep ?s = Inr s'" "hw s' = hw s1" "ide_ctrls s' = ide_ctrls s1" "current_task s' = current_task s"
    "tasks s' (current_task s) \<noteq> None" "irq_ongoing s' = irq_ongoing s"
    using assms(9) s1(1,4,5,6) f(5) unfolding wakes_by_irq_def by metis
  have "ata_wait (Suc (Suc n)) sleep p i s = Inr s'" for n
    using assms(2,3,6) t s'(1,3) s1(3) by (simp add: chan_at_def ctrl_at_def task_at_def)
  then have "ata_wait address_fuel sleep p i s = Inr s'" by (simp only: fuel_Suc)
  then show ?thesis using s' s1 assms(8) by auto
qed

section \<open>Reading blocks from a disk\<close>

definition disk_blocks :: "(bool \<Rightarrow> nat \<Rightarrow> byte list option) \<Rightarrow> bool \<Rightarrow> nat \<Rightarrow> nat \<Rightarrow> byte list option list" where
  "disk_blocks disk d k n = map (disk d) [k..<k + n]"

definition disk_ok :: "(bool \<Rightarrow> nat \<Rightarrow> byte list option) \<Rightarrow> bool" where
  "disk_ok disk \<longleftrightarrow> (\<forall>d k bs. disk d k = Some bs \<longrightarrow> length bs = 512)"

lemma disk_blocks_bytes:
  assumes "disk_ok disk" and "None \<notin> set (disk_blocks disk d k n)"
  shows "length (concat (map the (disk_blocks disk d k n))) = 512 * n"
  using assms(2)
proof (induction n)
  case (Suc n)
  have "disk d (k + n) \<noteq> None" and "None \<notin> set (disk_blocks disk d k n)" using Suc.prems by (auto simp: disk_blocks_def)
  then show ?case using Suc.IH assms(1) by (auto simp: disk_blocks_def disk_ok_def)
qed (simp add: disk_blocks_def)

lemma av_blocks_stat [simp]: "av_blocks (v\<lparr>av_stat := x\<rparr>) = av_blocks v"
  by (simp add: av_blocks_def)

lemma av_transfer_ok:
  assumes "av_first v = k" and "av_blocks v = n" and "bit (av_select v) 4 = d" and "unat (prd_bytes (av_prd v)) = 512 * n"
  shows "av_error (av_transfer disk v) \<longleftrightarrow> None \<in> set (disk_blocks disk d k n)"
    and "None \<notin> set (disk_blocks disk d k n) \<Longrightarrow> av_data (av_transfer disk v) = concat (map the (disk_blocks disk d k n))"
    and "bit (av_stat (av_transfer disk v)) 2" and "av_busy (av_transfer disk v) = av_busy v"
proof -
  have "bit (x OR 4) 2" for x :: u8 by (simp add: bit_or_iff)
  then show "bit (av_stat (av_transfer disk v)) 2" by (simp add: av_transfer_def Let_def)
qed (use assms in \<open>auto simp: av_transfer_def disk_blocks_def Let_def\<close>)

lemma ata_transfer_ok:
  assumes ready: "ata_ready io p i view disk s" and wakes: "wakes_by_irq io p i sleep" and disk: "disk_ok disk"
    and tr: "0 < unat tr" "unat tr \<le> 127" and lba: "unat lba < 2 ^ 48"
    and blocks_def: "blocks = disk_blocks disk (bit drive 0) (unat lba) (unat tr)"
  shows "\<exists>s'. ata_transfer io sleep p i drive tr lba s = Inr (if None \<in> set blocks then None else Some (concat (map the blocks)), s') \<and>
    ata_ready io p i view disk s' \<and> same_ctrl p s s'"
proof -
  obtain c where c: "ide_ctrls s p = Some c" "i < length (ide_channels c)" and ac: "ata_channel io (ide_channels c ! i) view disk"
    and r: "av_busy (view (hw s)) < 2 ^ 64" "tasks s (current_task s) \<noteq> None" "\<not> irq_ongoing s"
    using ready by (auto simp: ata_ready_def)
  let ?ch = "ide_channels c ! i"
  note out = ata_channel_out [OF ac]
  have bytes: "unat (tr * 512) = 512 * unat tr" using tr(2) by (simp add: unat_word_ariths)
  have bytes16: "unat (ucast (tr * 512) :: u16) = 512 * unat tr"
    using tr(2) unfolding unsigned_ucast_eq bytes by (simp add: take_bit_nat_eq_self)
  define w1 where "w1 = dma_set_prd io (ch_prdt ?ch) ((dma_prd io (ch_prdt ?ch) (hw s))\<lparr>prd_bytes := ucast (tr * 512)\<rparr>) (hw s)"
  have w1: "view w1 = (view (hw s))\<lparr>av_prd := (av_prd (view (hw s)))\<lparr>prd_bytes := ucast (tr * 512)\<rparr>\<rparr>" by (simp add: w1_def out)
  have tr': "unat tr < 256" using tr(2) by simp
  note prog = program_view [OF ac lba tr(1) tr' refl, of drive w1]
  let ?v = "(view (ata_program io ?ch drive tr lba w1))\<lparr>av_command := 0x25, av_busy := 0\<rparr>"
  have "av_busy (view (ata_program io ?ch drive tr lba w1)) < 2 ^ 64" using prog(5) w1 r(1) by simp
  from ata_command_ok [OF ac this] obtain w2 where
    w2: "ata_command io ?ch (ata_program io ?ch drive tr lba w1) = Inr w2" "view w2 = av_transfer disk ?v" by blast
  have "bit (0xe0 OR push_bit 4 drive) 4 = bit drive 0" by (simp add: bit_simps)
  then have v: "av_first ?v = unat lba" "av_blocks ?v = unat tr" "bit (av_select ?v) 4 = bit drive 0" "unat (prd_bytes (av_prd ?v)) = 512 * unat tr"
    using prog w1 bytes16 by (simp_all add: av_first_def av_blocks_def)
  note dn = av_transfer_ok [OF v, of disk, folded w2(2), folded blocks_def]
  let ?ch2 = "?ch\<lparr>ch_data_ready := 0, ch_signal_task := current_task s\<rparr>"
  let ?c2 = "c\<lparr>ide_channels := (ide_channels c)[i := ?ch2]\<rparr>"
  let ?s2 = "s\<lparr>ide_ctrls := (ide_ctrls s)(p \<mapsto> ?c2), hw := w2\<rparr>"
  have at2: "ide_channels ?c2 ! i = ?ch2" using c(2) by simp
  obtain s3 st x where s3: "ata_wait address_fuel sleep p i ?s2 = Inr s3" "view (hw s3) = (view w2)\<lparr>av_stat := x\<rparr>"
    "ide_ctrls s3 = (ide_ctrls s)(p \<mapsto> c\<lparr>ide_channels := (ide_channels c)[i := ?ch2\<lparr>ch_data_ready := 1, ch_irq_status := st\<rparr>]\<rparr>)"
    "current_task s3 = current_task s" "tasks s3 (current_task s) \<noteq> None" "\<not> irq_ongoing s3"
    using ata_wait_ok [of io ?c2 i view disk ?s2 p sleep] ac c dn(3) wakes r(2,3) by (auto simp del: ata_wait.simps)
  let ?ch3 = "?ch2\<lparr>ch_data_ready := 1, ch_irq_status := st\<rparr>"
  have ac3: "ata_channel io ?ch3 view disk" using ac by (simp add: ata_channel_def)
  let ?w4 = "io_outb io (ch_busmaster ?ch) 8 (hw s3)"
  have w4: "view ?w4 = (view w2)\<lparr>av_stat := x\<rparr>" using s3(2) by (simp add: out)
  obtain st5 w5 where w5: "io_inb io (ch_base ?ch + 7) ?w4 = (st5, w5)" by force
  note inb = ata_channel_in(1,3) [OF ac w5]
  have busy: "av_busy (view w2) = 0" using dn(4) by simp
  then have st5: "(bit st5 0 \<or> bit st5 5) = (None \<in> set blocks)" and vw5: "view w5 = (view w2)\<lparr>av_stat := x\<rparr>" using inb w4 dn(1) by simp_all
  have dat: "dma_bytes io (ch_prdt ?ch + 512) (512 * unat tr) w5 = concat (map the blocks)" if "None \<notin> set blocks"
    using that dn(2) vw5 disk_blocks_bytes [OF disk, of "bit drive 0" "unat lba" "unat tr", folded blocks_def] out(10) [of "512 * unat tr" w5] by simp
  let ?s' = "s3\<lparr>hw := w5\<rparr>"
  have run: "ata_transfer io sleep p i drive tr lba s = Inr (if None \<in> set blocks then None else Some (concat (map the blocks)), ?s')"
    using c w2(1) s3(1,3) r(3) w5 st5 dat
    by (simp add: ata_transfer_def chan_at_def chan_upd_def ctrl_at_def ctrl_set_def w1_def [symmetric] ata_defs bytes del: ata_wait.simps)
  have "ata_ready io p i view disk ?s'"
    using c(2) s3(3-6) ac3 vw5 busy by (simp add: ata_ready_def)
  moreover have "same_ctrl p s ?s'" using c(1) s3(3,4) unfolding same_ctrl_def by auto
  ultimately show ?thesis using run by blast
qed

lemma disk_blocks_good: "None \<in> set (disk_blocks disk d k n) \<longleftrightarrow> (\<exists>j < n. disk d (k + j) = None)"
  by (induction n) (auto simp: disk_blocks_def less_Suc_eq)

lemma disk_blocks_append: "disk_blocks disk d k (m + n) = disk_blocks disk d k m @ disk_blocks disk d (k + m) n"
  using upt_add_eq_append [of k "k + m" n] by (simp add: disk_blocks_def add.assoc)

lemma same_ctrl_refl: "ata_ready io p i view disk s \<Longrightarrow> same_ctrl p s s"
proof -
  assume "ata_ready io p i view disk s"
  then obtain c where c: "ide_ctrls s p = Some c" by (auto simp: ata_ready_def)
  have "c\<lparr>ide_channels := ide_channels c\<rparr> = c" by simp
  then show ?thesis using c unfolding same_ctrl_def by (metis fun_upd_triv)
qed

text \<open>The number of blocks a read of \<open>m\<close> blocks gets when the first \<open>b\<close> of them can be read and no more: whole transfers only.\<close>

definition blocks_got :: "nat \<Rightarrow> nat \<Rightarrow> nat" where
  "blocks_got m b = (if b = m then m else 127 * (b div 127))"

lemma ata_read_loop_ok:
  assumes wakes: "wakes_by_irq io p i sleep" and disk: "disk_ok disk" and "ata_ready io p i view disk s"
    and "b \<le> unat m" and "\<forall>k < b. disk (bit drive 0) (unat lba + k) \<noteq> None" and "b = unat m \<or> disk (bit drive 0) (unat lba + b) = None"
    and "unat lba + unat m \<le> 2 ^ 48" and "unat m \<le> n"
  shows "\<exists>s'. ata_read_loop n io sleep p i drive lba got m buf s =
      Inr (got + of_nat (blocks_got (unat m) b), buf @ concat (map the (disk_blocks disk (bit drive 0) (unat lba) (blocks_got (unat m) b))), s') \<and>
    ata_ready io p i view disk s' \<and> same_ctrl p s s'"
  using assms(3-8)
proof (induction n arbitrary: s b m lba got buf)
  case 0
  then show ?case using same_ctrl_refl [OF 0(1)] by (auto simp: blocks_got_def disk_blocks_def word_gt_0_no unat_eq_zero)
next
  case (Suc n)
  let ?d = "bit drive 0"
  show ?case
  proof (cases "m = 0")
    case True
    then show ?thesis using Suc.prems(1,2) same_ctrl_refl [OF Suc.prems(1)] by (auto simp: blocks_got_def disk_blocks_def)
  next
    case False
    define t where "t = (if m > BLOCKS_PER_PRD then BLOCKS_PER_PRD else m)"
    have t: "unat t = min 127 (unat m)" "0 < unat t" "unat t \<le> 127"
      using False by (auto simp: t_def BLOCKS_PER_PRD_def word_less_nat_alt unat_eq_zero min_def simp flip: unat_gt_0)
    have tm: "unat (m - t) = unat m - unat t" using t(1) by (simp add: unat_sub word_le_nat_alt)
    have lba: "unat lba < 2 ^ 48" using Suc.prems(5) t(1,2) by simp
    have lt: "unat (lba + t) = unat lba + unat t" using Suc.prems(5) t(1) by (simp add: unat_word_ariths)
    let ?blocks = "disk_blocks disk ?d (unat lba) (unat t)"
    obtain s1 where s1: "ata_transfer io sleep p i drive t lba s = Inr (if None \<in> set ?blocks then None else Some (concat (map the ?blocks)), s1)"
      "ata_ready io p i view disk s1" "same_ctrl p s s1"
      using ata_transfer_ok [OF Suc.prems(1) wakes disk t(2,3) lba refl, of drive] by blast
    have m: "m > 0" using False by (simp add: word_gt_0)
    show ?thesis
    proof (cases "unat t \<le> b")
      case True
      have good: "None \<notin> set ?blocks" using Suc.prems(3) True by (auto simp: disk_blocks_good)
      have "\<exists>s'. ata_read_loop n io sleep p i drive (lba + t) (got + t) (m - t) (buf @ concat (map the ?blocks)) s1 =
          Inr (got + t + of_nat (blocks_got (unat (m - t)) (b - unat t)),
            (buf @ concat (map the ?blocks)) @ concat (map the (disk_blocks disk ?d (unat (lba + t)) (blocks_got (unat (m - t)) (b - unat t)))), s') \<and>
          ata_ready io p i view disk s' \<and> same_ctrl p s1 s'"
      proof (rule Suc.IH [OF s1(2)])
        show "\<forall>k < b - unat t. disk ?d (unat (lba + t) + k) \<noteq> None" using Suc.prems(3) unfolding lt by (simp add: add.assoc)
      qed (use Suc.prems True t tm lt in auto)
      then obtain s' where s': "ata_read_loop n io sleep p i drive (lba + t) (got + t) (m - t) (buf @ concat (map the ?blocks)) s1 =
          Inr (got + t + of_nat (blocks_got (unat (m - t)) (b - unat t)),
            (buf @ concat (map the ?blocks)) @ concat (map the (disk_blocks disk ?d (unat (lba + t)) (blocks_got (unat (m - t)) (b - unat t)))), s')"
          "ata_ready io p i view disk s'" "same_ctrl p s1 s'" by blast
      have g: "blocks_got (unat m) b = unat t + blocks_got (unat (m - t)) (b - unat t)"
      proof (cases "b = unat m")
        case False
        then have "unat t = 127" using True t(1) Suc.prems(2) by (simp add: min_def split: if_splits)
        then show ?thesis using False True tm Suc.prems(2) by (auto simp: blocks_got_def le_div_geq)
      qed (use tm True in \<open>auto simp: blocks_got_def\<close>)
      have "ata_read_loop (Suc n) io sleep p i drive lba got m buf s =
          Inr (got + of_nat (blocks_got (unat m) b), buf @ concat (map the (disk_blocks disk ?d (unat lba) (blocks_got (unat m) b))), s')"
        using m s1(1) good s'(1) unfolding g disk_blocks_append by (simp add: t_def [symmetric] lt add.assoc)
      then show ?thesis using s'(2,3) same_ctrl_trans [OF s1(3)] by blast
    next
      case False
      then have b: "b < unat m" "b < 127" using t by auto
      have "None \<in> set ?blocks" using Suc.prems(4) b(1) False unfolding disk_blocks_good by (intro exI [of _ b]) auto
      then have "ata_read_loop (Suc n) io sleep p i drive lba got m buf s = Inr (got, buf, s1)" using m s1(1) by (simp add: t_def [symmetric])
      moreover have "blocks_got (unat m) b = 0" using b by (simp add: blocks_got_def)
      ultimately show ?thesis using s1(2,3) by (simp add: disk_blocks_def)
    qed
  qed
qed


text \<open>A channel with a disk whose block 300 cannot be read; its state is what the driver sees of it.\<close>

definition small_drive :: "bool \<Rightarrow> nat \<Rightarrow> byte list option" where
  "small_drive d k = (if k = 300 then None else Some (replicate 512 (of_nat k)))"

definition small_dma :: "ata_view dma_ports" where
  "small_dma = \<lparr>io_inb = (\<lambda>port v. if port = 0x1f7 then (if av_busy v > 0 then 0x80 else if av_error v then 1 else 0x40, v\<lparr>av_busy := av_busy v - 1\<rparr>)
       else if port = 0xc002 then (av_stat v, v) else (0, v)),
     io_inw = (\<lambda>port v. (0, v)), io_inl = (\<lambda>port v. (0, v)),
     io_outb = (\<lambda>port x v. if port = 0x1f2 then v\<lparr>av_count := push x (av_count v)\<rparr>
       else if port = 0x1f3 then v\<lparr>av_lba := (av_lba v)(0 := push x (av_lba v 0))\<rparr>
       else if port = 0x1f4 then v\<lparr>av_lba := (av_lba v)(1 := push x (av_lba v 1))\<rparr>
       else if port = 0x1f5 then v\<lparr>av_lba := (av_lba v)(2 := push x (av_lba v 2))\<rparr>
       else if port = 0x1f6 then v\<lparr>av_select := x\<rparr>
       else if port = 0x1f7 then v\<lparr>av_command := x, av_busy := 3\<rparr>
       else if port = 0xc000 then if x = 0x09 \<and> av_command v = 0x25 \<and> av_busy v = 0 then av_transfer small_drive v else v
       else if port = 0xc002 then v\<lparr>av_stat := av_stat v AND NOT (x AND 6)\<rparr> else v),
     io_outl = (\<lambda>port x v. v),
     dma_prd = (\<lambda>q v. av_prd v), dma_set_prd = (\<lambda>q r v. v\<lparr>av_prd := r\<rparr>), dma_bytes = (\<lambda>q n v. take n (av_data v))\<rparr>"

definition small_channel :: ide_channel_t where
  "small_channel = \<lparr>ch_prdt = 0x9000, ch_data_ready = 0, ch_irq_status = 0, ch_signal_task = 0, ch_base = 0x1f0, ch_ctrl = 0x3f4, ch_busmaster = 0xc000, ch_nIEN = 0\<rparr>"

definition small_view :: ata_view where
  "small_view = \<lparr>av_select = 0, av_count = (0, 0), av_lba = (\<lambda>_. (0, 0)), av_command = 0, av_busy = 0,
     av_prd = \<lparr>prd_buffer = 0x9200, prd_bytes = 0, prd_last_entry = True\<rparr>, av_stat = 0, av_error = False, av_data = []\<rparr>"

definition small_ide :: pci_ide_dev_t where
  "small_ide = \<lparr>minor_base = 0, transfer_lock = MUTEX_INITIALIZER, ide_channels = [small_channel, small_channel], ide_devices = []\<rparr>"

definition small_ata :: "ata_view astate" where
  "small_ata = dstate.extend (cstate.extend small_cmdline \<lparr>hw = small_view, pci_spinlock = SPIN_INITIALIZER, pci_devs = Map.empty,
     device_list = [], device_list_lock = MUTEX_INITIALIZER, pci_initialized = True\<rparr>) \<lparr>ide_ctrls = [0x8000 \<mapsto> small_ide], ata_major = 0, ata_minor_counter = 4\<rparr>"

lemma small_ata_ready: "ata_ready small_dma 0x8000 0 id small_drive small_ata"
proof -
  have "tasks small_ata (current_task small_ata) \<noteq> None" "hw small_ata = small_view" "ide_ctrls small_ata = [0x8000 \<mapsto> small_ide]" "\<not> irq_ongoing small_ata"
    by (simp_all add: small_ata_def dstate.extend_def cstate.extend_def small_cmdline_def istate.extend_def small_entry_def vstate.extend_def small_process_def)
  moreover have "ata_channel small_dma small_channel id small_drive"
  proof -
    have "\<exists>b < 2 ^ 64. w\<lparr>av_command := x, av_busy := 3\<rparr> = w\<lparr>av_command := x, av_busy := b\<rparr>" for w :: ata_view and x by (intro exI [of _ 3]) simp
    then show ?thesis by (auto simp: ata_channel_def small_dma_def small_channel_def bit_simps)
  qed
  ultimately show ?thesis by (simp add: ata_ready_def small_ide_def small_view_def)
qed


section \<open>What is known of a drive\<close>

lemma concat_pairs: "concat (map (\<lambda>j. [f (2 * j), f (2 * j + 1)]) [0..<n]) = map f [0..<2 * n]"
  by (induction n) auto

lemma ide_trim_model_blanks:
  assumes "\<forall>y \<in> set ys. y = 32 \<or> y = 0" and "t = [] \<or> (last t \<noteq> 32 \<and> last t \<noteq> 0)"
  shows "ide_trim_model (length t + length ys) (t @ ys @ zs) = t @ replicate (length ys) 0 @ zs"
  using assms(1)
proof (induction ys arbitrary: zs rule: rev_induct)
  case Nil
  show ?case
  proof (cases t rule: rev_cases)
    case (snoc u x)
    then show ?thesis using assms(2) by (simp add: nth_append)
  qed simp
next
  case (snoc y ys)
  have "(if y = 32 then (t @ ys @ y # zs)[length t + length ys := 0] else t @ ys @ y # zs) = t @ ys @ 0 # zs"
    using snoc.prems by (auto simp: list_update_append)
  then have "ide_trim_model (length t + length (ys @ [y])) (t @ (ys @ [y]) @ zs) = ide_trim_model (length t + length ys) (t @ ys @ 0 # zs)"
    using snoc.prems by (auto simp: nth_append)
  then show ?case using snoc by (simp add: replicate_app_Cons_same)
qed

text \<open>
  A drive reports its model as 40 characters, filled up with blanks, with the two characters of each word exchanged. Identifying the drive
  stores the model itself as a string, provided that the last byte of the uninitialised array happens to be a blank or zero.
\<close>

theorem ide_model_roundtrip:
  assumes "length t \<le> 40" and "0 \<notin> set t" and "t = [] \<or> last t \<noteq> 32"
    and "\<forall>j < 20. idspace ! (54 + 2 * j) = (t @ replicate (40 - length t) 32) ! (2 * j + 1) \<and>
      idspace ! (54 + 2 * j + 1) = (t @ replicate (40 - length t) 32) ! (2 * j)"
    and "drop 40 (ide_model d) = [x]" and "x = 32 \<or> x = 0"
  shows "length (ide_model (ide_fill idspace channel drive d)) = 41 \<and> takeWhile (\<lambda>b. b \<noteq> 0) (ide_model (ide_fill idspace channel drive d)) = t"
proof -
  let ?pad = "t @ replicate (40 - length t) (32 :: byte)" and ?ys = "replicate (40 - length t) (32 :: byte) @ [x]"
  have "ide_model_text idspace = concat (map (\<lambda>j. [?pad ! (2 * j), ?pad ! (2 * j + 1)]) [0..<20])"
    unfolding ide_model_text_def ATA_IDENT_MODEL_def using assms(4) by (intro arg_cong [of _ _ concat] map_cong refl) simp
  also have "\<dots> = ?pad" unfolding concat_pairs using map_nth [of ?pad] assms(1) by simp
  finally have m: "ide_model_text idspace @ drop 40 (ide_model d) = t @ ?ys @ []" using assms(5) by simp
  have "t = [] \<or> (last t \<noteq> 32 \<and> last t \<noteq> 0)" using assms(2,3) last_in_set [of t] by metis
  moreover have "\<forall>y \<in> set ?ys. y = 32 \<or> y = 0" using assms(6) by auto
  ultimately have "ide_trim_model (length t + length ?ys) (t @ ?ys @ []) = t @ replicate (length ?ys) 0 @ []" by (intro ide_trim_model_blanks)
  then have "ide_trim_model 41 (ide_model_text idspace @ drop 40 (ide_model d)) = t @ replicate (41 - length t) 0"
    unfolding m using assms(1) by (simp add: Suc_diff_le flip: replicate_Suc)
  moreover have "(t @ replicate (41 - length t) 0)[40 := 0] = t @ replicate (41 - length t) (0 :: byte)"
    using assms(1) by (intro nth_equalityI) (auto simp: nth_list_update nth_append)
  ultimately have "ide_model (ide_fill idspace channel drive d) = t @ replicate (41 - length t) 0" by (simp add: ide_fill_def Let_def)
  moreover have "takeWhile (\<lambda>b. b \<noteq> 0) (t @ replicate (41 - length t) 0) = t @ takeWhile (\<lambda>b. b \<noteq> 0) (replicate (41 - length t) (0 :: byte))"
    using assms(2) by (intro takeWhile_append2) auto
  ultimately show ?thesis using assms(1) by simp
qed

theorem ide_model_roundtrip_witness:
  "takeWhile (\<lambda>b. b \<noteq> 0) (ide_model (ide_fill (map (\<lambda>k. if k = 54 then 69 else if k = 55 then 81 else if k = 57 then 77 else 32) [0..<512]) 0 0
     \<lparr>ide_present = 0, ide_channel = 0, ide_drive = 0, ide_type = 0, ide_signat = 0, ide_capa = 0, ide_cmd_sets = 0, ide_sectors = 0,
      ide_model = replicate 41 0\<rparr>)) = [81, 69, 77]"
proof -
  let ?id = "map (\<lambda>k. if k = 54 then 69 else if k = 55 then 81 else if k = 57 then 77 else 32) [0..<512] :: byte list"
  let ?t = "[81, 69, 77] :: byte list"
  have "?id ! (54 + 2 * j) = (?t @ replicate (40 - length ?t) 32) ! (2 * j + 1) \<and> ?id ! (54 + 2 * j + 1) = (?t @ replicate (40 - length ?t) 32) ! (2 * j)" if "j < 20" for j
  proof -
    have "j = 0 \<or> j = 1 \<or> (\<exists>i. j = i + 2)" by (cases "j < 2") (auto simp: le_Suc_ex not_less dest: le_Suc_ex [of 2])
    then show ?thesis using that by (elim disjE exE) (simp_all add: nth_append)
  qed
  then show ?thesis using ide_model_roundtrip [of ?t ?id] by simp
qed

text \<open>What the ports show of a drive that answers to the identification: \<open>idspace\<close> is its reply, \<open>w'\<close> the state of the devices then.\<close>

definition ide_answers :: "('w, 'x) io_ports_scheme \<Rightarrow> ide_channel_t \<Rightarrow> u8 \<Rightarrow> 'w \<Rightarrow> byte list \<Rightarrow> 'w \<Rightarrow> bool" where
  "ide_answers io ch drive w idspace w' \<longleftrightarrow>
     (\<exists>st w1 w2 st2 w3.
        ide_read io ch ATA_REG_STATUS (ide_write io ch ATA_REG_COMMAND ATA_CMD_IDENTIFY (ide_write io ch ATA_REG_HDDEVSEL (0xA0 OR push_bit 4 drive) w)) = (st, w1) \<and>
        st \<noteq> 0 \<and> ide_identify_poll address_fuel io ch w1 = Inr (True, w2) \<and> ide_read io ch ATA_REG_STATUS w2 = (st2, w3) \<and> \<not> bit st2 ATA_SR_ERR \<and>
        repinsw io (ch_base ch + ucast ATA_REG_DATA) 256 w3 = (idspace, w'))"

text \<open>
  C38: the entry that identifying a drive fills in is not always the entry of the drive. It is for the master of the primary channel. A slave of
  the primary channel is entered as the master of the secondary one and its own entry says that there is no drive; a drive of
  the secondary channel is written behind the end of the controller's structure.
\<close>

theorem ide_identify_misplaced:
  assumes "ide_ctrls s p = Some c" and "length (ide_channels c) = 2" and "length (ide_devices c) = 4" and "channel < 2" and "drive < 2"
    and "ide_answers io (ide_channels c ! unat channel) drive (hw s) idspace w'"
  shows "ide_identify io junk p channel drive s =
    (let k = 2 * unat channel + unat drive; devs = (ide_devices c)[k := (ide_devices c ! k)\<lparr>ide_present := 0\<rparr>] in
     if channel = 0 then Inr (ctrl_set p (c\<lparr>ide_devices := devs[2 * k := ide_fill idspace channel drive (devs ! (2 * k))]\<rparr>) (s\<lparr>hw := w'\<rparr>))
     else Inl (Mem_Fault ''array index''))"
proof -
  define k where "k = 2 * unat channel + unat drive"
  obtain st w1 w2 st2 w3 where a:
    "ide_read io (ide_channels c ! unat channel) ATA_REG_STATUS (ide_write io (ide_channels c ! unat channel) ATA_REG_COMMAND ATA_CMD_IDENTIFY
       (ide_write io (ide_channels c ! unat channel) ATA_REG_HDDEVSEL (0xA0 OR push_bit 4 drive) (hw s))) = (st, w1)"
    "st \<noteq> 0" "ide_identify_poll address_fuel io (ide_channels c ! unat channel) w1 = Inr (True, w2)"
    "ide_read io (ide_channels c ! unat channel) ATA_REG_STATUS w2 = (st2, w3)" "\<not> bit st2 ATA_SR_ERR"
    "repinsw io (ch_base (ide_channels c ! unat channel) + ucast ATA_REG_DATA) 256 w3 = (idspace, w')"
    using assms(6) by (auto simp: ide_answers_def)
  have u: "unat channel < 2" "unat drive < 2" using assms(4,5) by (simp_all add: word_less_nat_alt)
  have id: "unat (channel * 2 + drive) = k" using u by (simp add: k_def unat_word_ariths)
  have z: "channel = 0 \<longleftrightarrow> k < 2" using u by (auto simp: k_def word_unat_eq_iff)
  have k4: "k < 4" using u by (simp add: k_def)
  show ?thesis using a(2,5) assms(1-3) u k4 unfolding z k_def [symmetric]
    by (simp add: ide_identify_def id ctrl_at_def ctrl_set_def a(1,3,4,6) rd_def mult_2 Let_def)
qed

definition small_slave :: "unit io_ports" where
  "small_slave = \<lparr>io_inb = (\<lambda>port w. (0x08, w)), io_inw = (\<lambda>port w. (0x4142, w)), io_inl = (\<lambda>port w. (0, w)), io_outb = (\<lambda>port x w. w), io_outl = (\<lambda>port x w. w)\<rparr>"

definition small_none :: ide_dev_t where
  "small_none = \<lparr>ide_present = 0, ide_channel = 0, ide_drive = 0, ide_type = 0, ide_signat = 0, ide_capa = 0, ide_cmd_sets = 0, ide_sectors = 0, ide_model = replicate 41 0\<rparr>"

definition small_two_drives :: "unit astate" where
  "small_two_drives = dstate.extend (cstate.extend small_cmdline \<lparr>hw = (), pci_spinlock = SPIN_INITIALIZER, pci_devs = Map.empty,
     device_list = [], device_list_lock = MUTEX_INITIALIZER, pci_initialized = True\<rparr>)
     \<lparr>ide_ctrls = [0x8000 \<mapsto> small_ide\<lparr>ide_devices := replicate 4 small_none\<rparr>], ata_major = 0, ata_minor_counter = 4\<rparr>"

theorem ide_identify_misplaced_witness:
  "(\<exists>s' c. ide_identify small_slave (\<lambda>_. 0) 0x8000 0 1 small_two_drives = Inr s' \<and> ide_ctrls s' 0x8000 = Some c \<and>
      map ide_present (ide_devices c) = [0, 0, 1, 0]) \<and>
   ide_identify small_slave (\<lambda>_. 0) 0x8000 1 0 small_two_drives = Inl (Mem_Fault ''array index'')"
proof -
  let ?c = "small_ide\<lparr>ide_devices := replicate 4 small_none\<rparr>"
  have c: "ide_ctrls small_two_drives 0x8000 = Some ?c" "length (ide_channels ?c) = 2" "length (ide_devices ?c) = 4"
    by (simp_all add: small_two_drives_def dstate.extend_def small_ide_def)
  have r: "ide_read small_slave ch ATA_REG_STATUS w = (8, ())" for ch w by (simp add: ide_read_def small_slave_def ata_defs ide_port_def)
  have "ide_identify_poll (Suc n) small_slave ch w = Inr (True, ())" for n ch w
    using r [of ch w] by (simp add: ATA_SR_ERR_def ATA_SR_BSY_def ATA_SR_DRQ_def bit_numeral_rec)
  then have q: "ide_identify_poll address_fuel small_slave ch w = Inr (True, ())" for ch w by (simp only: fuel_Suc)
  have b: "\<not> bit (8 :: u8) ATA_SR_ERR" by (simp add: ata_defs)
  define idspace where "idspace n = fst (repinsw small_slave (ch_base (ide_channels ?c ! n) + ucast ATA_REG_DATA) 256 ())" for n
  have i: "repinsw small_slave (ch_base (ide_channels ?c ! n) + ucast ATA_REG_DATA) 256 () = (idspace n, ())" for n
    by (rule prod_eqI) (simp_all add: idspace_def del: repinsw.simps)
  have a: "ide_answers small_slave (ide_channels ?c ! unat n) d (hw small_two_drives) (idspace (unat n)) ()" for n d
    unfolding ide_answers_def by (intro exI conjI, rule r, simp, rule q, rule r, rule b, rule i)
  have "(0 :: u8) < 2" "(1 :: u8) < 2" by simp_all
  note m = ide_identify_misplaced [OF c this(1,2) a, of "\<lambda>_. 0"] ide_identify_misplaced [OF c this(2,1) a, of "\<lambda>_. 0"]
  have f: "ide_present (ide_fill x y z d) = 1" for x y z d by (simp add: ide_fill_def Let_def)
  have "replicate 4 small_none = [small_none, small_none, small_none, small_none]" by (simp add: numeral_eq_Suc)
  then show ?thesis using m by (simp add: ctrl_set_def f) (simp add: small_none_def)
qed
end
