(* ===== verification/Boot32.thy ===== *)
theory Boot32
  imports Vspace
begin

text \<open>
  Page tables of the boot stage (\<^verbatim>\<open>boot32/mmap.c\<close>, \<^verbatim>\<open>boot32/paging.c\<close>): the boot code runs with 32 bit addresses and without
  paging, allocates tables from the bitmap of free pages and maps the memory at its own addresses and again in the upper half.

  Physical memory is the one of the page allocator, frames of 512 words. The bitmap operations are those of \<open>Bitmap\<close>; the code is
  compiled for 32 bits here, which makes no difference below \<open>2 ^ 32\<close> pages. A table is known by its 32 bit address.
\<close>

section \<open>Operations\<close>

record bootstate =
  b_free_pages :: bitmap_t
  b_phys :: "u64 \<Rightarrow> nat \<Rightarrow> u64"

definition page_addr :: "u32 \<Rightarrow> u32" where
  "page_addr ppn = push_bit 12 ppn"

definition frame_at :: "u32 \<Rightarrow> u64" where
  "frame_at addr = ucast (drop_bit 12 addr)"

definition boot_alloc_page :: "'a bootstate_scheme \<Rightarrow> (u32 \<times> 'a bootstate_scheme) result" where
  "boot_alloc_page s =
     rbind (bitmap_find_free (b_free_pages s)) (\<lambda>ppn.
     rbind (bitmap_set (b_free_pages s) ppn) (\<lambda>bmp.
       Inr (ucast ppn, s\<lparr>b_free_pages := bmp, b_phys := (b_phys s)(frame_at (page_addr (ucast ppn)) := (\<lambda>_. 0))\<rparr>)))"

definition PAG_PRESENT :: u64 where "PAG_PRESENT = BIT 0"
definition PAG_RDWR :: u64 where "PAG_RDWR = BIT 1"

definition boot_entry :: "u32 \<Rightarrow> u64" where
  "boot_entry addr = ucast addr OR PAG_PRESENT OR PAG_RDWR"

text \<open>The address of a table is a pointer, which the compiler extends to 64 bits with its sign.\<close>

definition table_entry :: "u32 \<Rightarrow> u64" where
  "table_entry addr = scast addr OR PAG_PRESENT OR PAG_RDWR"

definition put_entry :: "u32 \<Rightarrow> nat \<Rightarrow> u64 \<Rightarrow> 'a bootstate_scheme \<Rightarrow> 'a bootstate_scheme" where
  "put_entry tbl i e s = s\<lparr>b_phys := (b_phys s)(frame_at tbl := (b_phys s (frame_at tbl))(i := e))\<rparr>"

text \<open>The local variables of \<^verbatim>\<open>id_map\<close>.\<close>

record id_cursor =
  c_pml4 :: u32
  c_pdpt :: u32
  c_pdir :: u32
  c_ptbl :: u32
  c_pml4i :: nat
  c_pdpti :: nat
  c_pdiri :: nat
  c_ptbli :: nat
  c_phys :: u32

definition next_ptbl :: "id_cursor \<times> 'a bootstate_scheme \<Rightarrow> (id_cursor \<times> 'a bootstate_scheme) result" where
  "next_ptbl = (\<lambda>(c, s).
     if c_ptbli c \<ge> 512 then
       rbind (boot_alloc_page s) (\<lambda>(ppn, s).
       let c = c\<lparr>c_ptbli := 0, c_ptbl := page_addr ppn, c_pdiri := c_pdiri c + 1\<rparr> in
       Inr (c, put_entry (c_pdir c) (c_pdiri c) (table_entry (c_ptbl c)) s))
     else Inr (c, s))"

definition next_pdir :: "id_cursor \<times> 'a bootstate_scheme \<Rightarrow> (id_cursor \<times> 'a bootstate_scheme) result" where
  "next_pdir = (\<lambda>(c, s).
     if c_pdiri c \<ge> 511 then
       rbind (boot_alloc_page s) (\<lambda>(ppn, s).
       let c = c\<lparr>c_pdiri := 0, c_pdir := page_addr ppn, c_pdpti := c_pdpti c + 1\<rparr> in
       Inr (c, put_entry (c_pdpt c) (c_pdpti c) (table_entry (c_pdir c)) s))
     else Inr (c, s))"

definition next_pdpt :: "id_cursor \<times> 'a bootstate_scheme \<Rightarrow> (id_cursor \<times> 'a bootstate_scheme) result" where
  "next_pdpt = (\<lambda>(c, s).
     if c_pdpti c \<ge> 511 then
       rbind (boot_alloc_page s) (\<lambda>(ppn, s).
       let c = c\<lparr>c_pdpti := 0, c_pdpt := page_addr ppn, c_pml4i := c_pml4i c + 1\<rparr> in
       Inr (c, put_entry (c_pml4 c) (c_pml4i c) (table_entry (c_pdpt c)) s))
     else Inr (c, s))"

fun id_map_loop :: "nat \<Rightarrow> id_cursor \<times> 'a bootstate_scheme \<Rightarrow> (id_cursor \<times> 'a bootstate_scheme) result" where
  "id_map_loop 0 cs = Inr cs"
| "id_map_loop (Suc pageCount) (c, s) =
     (let s = put_entry (c_ptbl c) (c_ptbli c) (boot_entry (push_bit 12 (c_phys c))) s;
          c = c\<lparr>c_phys := c_phys c + 1, c_ptbli := c_ptbli c + 1\<rparr> in
      rbind (next_ptbl (c, s)) (\<lambda>cs. rbind (next_pdir cs) (\<lambda>cs. rbind (next_pdpt cs) (id_map_loop pageCount))))"

definition id_map :: "u32 \<Rightarrow> u32 \<Rightarrow> 'a bootstate_scheme \<Rightarrow> 'a bootstate_scheme result" where
  "id_map pml4_ppn pageCount s =
     rbind (boot_alloc_page s) (\<lambda>(p1, s).
     rbind (boot_alloc_page s) (\<lambda>(p2, s).
     rbind (boot_alloc_page s) (\<lambda>(p3, s).
     let c = \<lparr>c_pml4 = page_addr pml4_ppn, c_pdpt = page_addr p1, c_pdir = page_addr p2, c_ptbl = page_addr p3,
              c_pml4i = 0, c_pdpti = 0, c_pdiri = 0, c_ptbli = 0, c_phys = 0\<rparr>;
         s = put_entry (c_pml4 c) 0 (table_entry (c_pdpt c)) s;
         s = put_entry (c_pdpt c) 0 (table_entry (c_pdir c)) s;
         s = put_entry (c_pdir c) 0 (table_entry (c_ptbl c)) s in
     rbind (id_map_loop (unat pageCount) (c, s)) (\<lambda>(_, s). Inr s))))"

definition paging_init :: "u32 \<Rightarrow> 'a bootstate_scheme \<Rightarrow> (u32 \<times> 'a bootstate_scheme) result" where
  "paging_init idmapPages s =
     rbind (boot_alloc_page s) (\<lambda>(_, s).
     rbind (boot_alloc_page s) (\<lambda>(pml4_ppn, s).
     rbind (id_map pml4_ppn idmapPages s) (\<lambda>s.
     let pml4_phys = page_addr pml4_ppn in
     Inr (pml4_ppn, put_entry pml4_phys 256 (b_phys s (frame_at pml4_phys) 0) s))))"

section \<open>Tables by name\<close>

text \<open>
  The tables the boot stage builds, named by their place in the tree, with entries that refer to tables by name:
  \<open>Ptbl j a\<close> is entry \<open>a\<close> of the directory \<open>Pdir j\<close>, which is entry \<open>j\<close> of the one table of the third level.
\<close>

datatype tbl = Root | Pdpt | Pdir nat | Ptbl nat nat

datatype tent = Empty | To tbl | Page nat

fun tent_word :: "(tbl \<Rightarrow> u32) \<Rightarrow> tent \<Rightarrow> u64" where
  "tent_word F Empty = 0"
| "tent_word F (To x) = table_entry (page_addr (F x))"
| "tent_word F (Page k) = boot_entry (page_addr (of_nat k))"

definition boot_used :: "'a bootstate_scheme \<Rightarrow> nat set" where
  "boot_used s = bmp_used (b_free_pages s)"

definition boot_inv :: "'a bootstate_scheme \<Rightarrow> bool" where
  "boot_inv s \<longleftrightarrow> bmp_inv (b_free_pages s) \<and> unat (bmp_size (b_free_pages s)) \<le> 2 ^ 19"

definition boot_room :: "nat \<Rightarrow> 'a bootstate_scheme \<Rightarrow> bool" where
  "boot_room k s \<longleftrightarrow> card (boot_used s) + k \<le> unat (bmp_size (b_free_pages s))"

text \<open>The tables \<open>L\<close> are frames of their own and have the contents \<open>C\<close>.\<close>

definition tables_ok :: "(tbl \<Rightarrow> u32) \<Rightarrow> tbl set \<Rightarrow> (tbl \<Rightarrow> nat \<Rightarrow> tent) \<Rightarrow> 'a bootstate_scheme \<Rightarrow> bool" where
  "tables_ok F L C s \<longleftrightarrow> boot_inv s \<and> inj_on F L \<and> (\<forall>x\<in>L. unat (F x) \<in> boot_used s) \<and>
     (\<forall>x\<in>L. \<forall>i. b_phys s (ucast (F x)) i = tent_word F (C x i)) \<and> (\<forall>x\<in>L. \<forall>i y. C x i = To y \<longrightarrow> y \<in> L)"

lemma unat_ucast_up: "unat (ucast (x :: u32) :: u64) = unat x"
proof -
  have "unat x < 2 ^ 32" using unsigned_less [of x] by simp
  then have "unat x < 2 ^ 64" by simp
  then show ?thesis by (simp add: unsigned_ucast_eq take_bit_nat_eq_self)
qed

lemma ucast_up_inj: "ucast (x :: u32) = (ucast y :: u64) \<Longrightarrow> x = y"
  using unat_ucast_up by (metis word_unat_eq_iff)

lemma small_bit: "unat (w :: u32) < 2 ^ 20 \<Longrightarrow> bit w n \<Longrightarrow> n < 20"
proof -
  assume a: "unat w < 2 ^ 20" and b: "bit w n"
  have "unat (take_bit 20 w) = unat w" using a by (simp add: unsigned_take_bit_eq take_bit_nat_eq_self)
  then have "take_bit 20 w = w" by (simp add: word_unat_eq_iff)
  then show ?thesis using b by (metis bit_take_bit_iff)
qed

lemma frame_at_page:
  assumes "unat ppn < 2 ^ 20"
  shows "frame_at (page_addr ppn) = ucast ppn"
proof -
  have "drop_bit 12 (push_bit 12 ppn) = ppn"
    using small_bit [OF assms] by (intro bit_word_eqI) (auto simp: bit_simps)
  then show ?thesis by (simp add: frame_at_def page_addr_def)
qed

lemma boot_used_small: "boot_inv s \<Longrightarrow> k \<in> boot_used s \<Longrightarrow> k < 2 ^ 19"
  using bm.used_below_cap [of "b_free_pages s"] by (auto simp: boot_inv_def boot_used_def)

lemma boot_room_Suc: "boot_room (Suc k) s \<Longrightarrow> boot_room k s" by (simp add: boot_room_def)

lemma boot_alloc_page_ok:
  assumes "boot_inv s" and "boot_room (Suc k) s"
  obtains p s' where "boot_alloc_page s = Inr (p, s')" and "boot_inv s'" and "boot_room k s'" and "unat p \<notin> boot_used s"
    and "boot_used s' = insert (unat p) (boot_used s)" and "b_phys s' = (b_phys s)(ucast p := (\<lambda>_. 0))"
proof -
  let ?b = "b_free_pages s"
  have inv: "bmp_inv ?b" "unat (bmp_size ?b) \<le> 2 ^ 19" using assms(1) by (simp_all add: boot_inv_def)
  have nf: "bmp_used ?b \<noteq> {..<unat (bmp_size ?b)}"
  proof
    assume e: "bmp_used ?b = {..<unat (bmp_size ?b)}"
    then have "card (bmp_used ?b) = unat (bmp_size ?b)" by (simp only: e card_lessThan)
    then show False using assms(2) by (simp add: boot_room_def boot_used_def)
  qed
  obtain i where i: "bitmap_find_free ?b = Inr i" "unat i < unat (bmp_size ?b)" "unat i \<notin> bmp_used ?b"
    by (rule bm.find_free [OF inv(1) nf])
  obtain b' where b': "bitmap_set ?b i = Inr b'" "bmp_inv b'" "unat (bmp_size b') = unat (bmp_size ?b)"
    "bmp_used b' = insert (unat i) (bmp_used ?b)"
    using bm.ins_used [OF inv(1) i(2)] by blast
  let ?p = "ucast i :: u32"
  have u: "unat ?p = unat i" using i(2) inv(2) by (simp add: unsigned_ucast_eq take_bit_nat_eq_self)
  have f: "frame_at (page_addr ?p) = ucast ?p" by (rule frame_at_page) (use u i(2) inv(2) in simp)
  let ?s = "s\<lparr>b_free_pages := b', b_phys := (b_phys s)(ucast ?p := (\<lambda>_. 0))\<rparr>"
  have fin: "finite (bmp_used ?b)" using bm.used_below_cap [of ?b] finite_subset by blast
  have "boot_alloc_page s = Inr (?p, ?s)" using i(1) b'(1) f by (simp add: boot_alloc_page_def)
  moreover have "boot_inv ?s" using b'(2,3) inv by (simp add: boot_inv_def)
  moreover have "boot_room k ?s" using assms(2) b'(3,4) i(3) fin by (simp add: boot_room_def boot_used_def)
  moreover have "unat ?p \<notin> boot_used s" "boot_used ?s = insert (unat ?p) (boot_used s)" using i(3) b'(4) u by (simp_all add: boot_used_def)
  ultimately show ?thesis using that by simp
qed

lemma tent_word_cong: "(\<And>y. e = To y \<Longrightarrow> F y = G y) \<Longrightarrow> tent_word F e = tent_word G e"
  by (cases e) auto

lemma tables_alloc:
  assumes "tables_ok F L C s" and "boot_room (Suc k) s" and "x \<notin> L"
  obtains p s' where "boot_alloc_page s = Inr (p, s')" and "tables_ok (F(x := p)) (insert x L) (C(x := (\<lambda>_. Empty))) s'" and "boot_room k s'"
proof -
  have inv: "boot_inv s" using assms(1) by (simp add: tables_ok_def)
  obtain p s' where A: "boot_alloc_page s = Inr (p, s')" "boot_inv s'" "boot_room k s'" "unat p \<notin> boot_used s"
    "boot_used s' = insert (unat p) (boot_used s)" "b_phys s' = (b_phys s)(ucast p := (\<lambda>_. 0))"
    by (rule boot_alloc_page_ok [OF inv assms(2)])
  have new: "F y \<noteq> p" if "y \<in> L" for y using that assms(1) A(4) by (auto simp: tables_ok_def)
  have "tables_ok (F(x := p)) (insert x L) (C(x := (\<lambda>_. Empty))) s'"
    unfolding tables_ok_def
  proof (intro conjI ballI allI impI)
    show "inj_on (F(x := p)) (insert x L)" using assms(1,3) new by (auto simp: tables_ok_def inj_on_def)
  next
    fix y i assume y: "y \<in> insert x L"
    show "b_phys s' (ucast ((F(x := p)) y)) i = tent_word (F(x := p)) ((C(x := (\<lambda>_. Empty))) y i)"
    proof (cases "y = x")
      case False
      then have "tent_word F (C y i) = tent_word (F(x := p)) (C y i)"
        using assms(1,3) y by (intro tent_word_cong) (auto simp: tables_ok_def)
      moreover have "ucast (F y) \<noteq> (ucast p :: u64)" using False y new ucast_up_inj by blast
      ultimately show ?thesis using False y assms(1) A(6) by (auto simp: tables_ok_def)
    qed (simp add: A(6))
  qed (use assms(1,3) A(2,5) in \<open>auto simp: tables_ok_def split: if_splits\<close>)
  then show ?thesis using that A(1,3) by blast
qed

lemma tables_put:
  assumes "tables_ok F L C s" and "x \<in> L" and "\<And>y. e = To y \<Longrightarrow> y \<in> L"
  shows "tables_ok F L (C(x := (C x)(i := e))) (put_entry (page_addr (F x)) i (tent_word F e) s)"
    and "boot_room k (put_entry (page_addr (F x)) i w s) = boot_room k s"
proof -
  have "unat (F x) < 2 ^ 19" using assms(1,2) boot_used_small by (auto simp: tables_ok_def)
  then have "unat (F x) < 2 ^ 20" by simp
  then have f: "frame_at (page_addr (F x)) = ucast (F x)" by (rule frame_at_page)
  have "F y \<noteq> F x" if "y \<in> L" "y \<noteq> x" for y using that assms(1,2) by (auto simp: tables_ok_def inj_on_def)
  then have n: "ucast (F y) \<noteq> (ucast (F x) :: u64)" if "y \<in> L" "y \<noteq> x" for y using that ucast_up_inj by metis
  show "tables_ok F L (C(x := (C x)(i := e))) (put_entry (page_addr (F x)) i (tent_word F e) s)"
    using assms n unfolding tables_ok_def put_entry_def f
    by (auto simp: boot_inv_def boot_used_def)
  show "boot_room k (put_entry (page_addr (F x)) i w s) = boot_room k s"
    by (simp add: boot_room_def boot_used_def put_entry_def)
qed

section \<open>The loop of the identity mapping\<close>

text \<open>
  The place where the loop stores the next page is entry \<open>b\<close> of table \<open>Ptbl j a\<close>. The page stored there is number
  \<open>place_page j a b\<close>. The loop goes to a new directory as soon as the last table of the old one has been entered, and uses its
  first entry only in directory 0.
\<close>

definition place_page :: "nat \<Rightarrow> nat \<Rightarrow> nat \<Rightarrow> nat" where
  "place_page j a b = 261632 * j + 512 * a + b"

definition place_ok :: "nat \<Rightarrow> nat \<Rightarrow> nat \<Rightarrow> bool" where
  "place_ok j a b \<longleftrightarrow> a < 512 \<and> b < 512 \<and> (j = 0 \<or> a \<noteq> 0)"

definition last_pdir :: "nat \<Rightarrow> nat \<Rightarrow> nat" where
  "last_pdir j a = (if a = 511 then Suc j else j)"

definition reached :: "nat \<Rightarrow> nat \<Rightarrow> nat \<Rightarrow> nat \<Rightarrow> bool" where
  "reached j a j' a' \<longleftrightarrow> place_ok j' a' 0 \<and> (j' < j \<or> j' = j \<and> a' \<le> a)"

definition stored :: "nat \<Rightarrow> nat \<Rightarrow> nat \<Rightarrow> nat \<Rightarrow> nat \<Rightarrow> nat \<Rightarrow> bool" where
  "stored j a b j' a' b' \<longleftrightarrow> b' < 512 \<and> (j' < j \<or> j' = j \<and> (a' < a \<or> a' = a \<and> b' < b))"

definition live :: "nat \<Rightarrow> nat \<Rightarrow> tbl set" where
  "live j a = {Root, Pdpt} \<union> Pdir ` {..last_pdir j a} \<union> {Ptbl j' a' |j' a'. reached j a j' a'}"

fun content :: "nat \<Rightarrow> nat \<Rightarrow> nat \<Rightarrow> tbl \<Rightarrow> nat \<Rightarrow> tent" where
  "content j a b Root i = (if i = 0 then To Pdpt else Empty)"
| "content j a b Pdpt i = (if i \<le> last_pdir j a then To (Pdir i) else Empty)"
| "content j a b (Pdir j') i = (if reached j a j' i then To (Ptbl j' i) else Empty)"
| "content j a b (Ptbl j' a') i = (if stored j a b j' a' i then Page (place_page j' a' i) else Empty)"

definition cursor :: "(tbl \<Rightarrow> u32) \<Rightarrow> nat \<Rightarrow> nat \<Rightarrow> nat \<Rightarrow> id_cursor" where
  "cursor F j a b = \<lparr>c_pml4 = page_addr (F Root), c_pdpt = page_addr (F Pdpt), c_pdir = page_addr (F (Pdir (last_pdir j a))),
     c_ptbl = page_addr (F (Ptbl j a)), c_pml4i = 0, c_pdpti = last_pdir j a, c_pdiri = (if a = 511 then 0 else a), c_ptbli = b,
     c_phys = of_nat (place_page j a b)\<rparr>"

definition table_need :: "nat \<Rightarrow> nat \<Rightarrow> nat" where
  "table_need j a = 512 * j + a + last_pdir j a"

definition id_state :: "(tbl \<Rightarrow> u32) \<Rightarrow> nat \<Rightarrow> nat \<Rightarrow> nat \<Rightarrow> nat \<Rightarrow> 'a bootstate_scheme \<Rightarrow> bool" where
  "id_state F j a b N s \<longleftrightarrow> place_ok j a b \<and> tables_ok F (live j a) (content j a b) s \<and> table_need j a \<le> N \<and> boot_room (N - table_need j a) s"

lemma tables_ok_cong: "tables_ok F L C s \<Longrightarrow> L = L' \<Longrightarrow> (\<And>x i. x \<in> L \<Longrightarrow> C x i = C' x i) \<Longrightarrow> tables_ok F L' C' s"
  by (simp add: tables_ok_def)

lemma boot_room_mono: "boot_room k s \<Longrightarrow> k' \<le> k \<Longrightarrow> boot_room k' s" by (simp add: boot_room_def)

lemmas place_defs = place_ok_def last_pdir_def reached_def stored_def live_def

lemma store_page:
  assumes "tables_ok F (live j a) (content j a b) s" and "place_ok j a b"
  shows "tables_ok F (live j a) (content j a (Suc b))
    (put_entry (page_addr (F (Ptbl j a))) b (boot_entry (push_bit 12 (of_nat (place_page j a b)))) s)"
proof -
  have "Ptbl j a \<in> live j a" using assms(2) by (auto simp: place_defs)
  from tables_put(1) [OF assms(1) this, of "Page (place_page j a b)" b]
  have "tables_ok F (live j a) ((content j a b)(Ptbl j a := (content j a b (Ptbl j a))(b := Page (place_page j a b))))
      (put_entry (page_addr (F (Ptbl j a))) b (boot_entry (push_bit 12 (of_nat (place_page j a b)))) s)"
    by (simp add: page_addr_def)
  then show ?thesis
  proof (rule tables_ok_cong)
    fix x i assume "x \<in> live j a"
    show "((content j a b)(Ptbl j a := (content j a b (Ptbl j a))(b := Page (place_page j a b)))) x i = content j a (Suc b) x i"
      using assms(2) by (cases x) (auto simp: stored_def place_ok_def)
  qed simp
qed

lemma new_table:
  assumes "tables_ok F L C s" and "boot_room (Suc k) s" and "x \<notin> L" and "y \<in> L"
  obtains p s' F' where "boot_alloc_page s = Inr (p, s')" and "F' = F(x := p)"
    and "tables_ok F' (insert x L) (C(x := (\<lambda>_. Empty), y := (C y)(i := To x))) (put_entry (page_addr (F y)) i (table_entry (page_addr p)) s')"
    and "boot_room k (put_entry (page_addr (F y)) i (table_entry (page_addr p)) s')"
proof (rule tables_alloc [OF assms(1-3)], goal_cases)
  case (1 p s')
  let ?F = "F(x := p)"
  have ne: "y \<noteq> x" using assms(3,4) by auto
  have "tables_ok ?F (insert x L) ((C(x := (\<lambda>_. Empty)))(y := ((C(x := (\<lambda>_. Empty))) y)(i := To x)))
      (put_entry (page_addr (?F y)) i (tent_word ?F (To x)) s')"
    by (rule tables_put(1) [OF 1(3)]) (use assms(4) in auto)
  moreover have "boot_room k (put_entry (page_addr (?F y)) i (table_entry (page_addr p)) s')"
    using tables_put(2) [OF 1(3), of y Empty] assms(4) 1(4) by simp
  ultimately show ?thesis using that [OF 1(2) refl] ne by simp
qed

lemma enter_table:
  assumes "tables_ok F (live j a) (content j a 512) s" and "place_ok j a 511" and "a \<noteq> 510" and "boot_room (Suc k) s"
    and "j' = last_pdir j a" and "a' = Suc (if a = 511 then 0 else a)"
  obtains p s' F' where "boot_alloc_page s = Inr (p, s')" and "F' = F(Ptbl j' a' := p)"
    and "tables_ok F' (live j' a') (content j' a' 0) (put_entry (page_addr (F (Pdir j'))) a' (table_entry (page_addr p)) s')"
    and "boot_room k (put_entry (page_addr (F (Pdir j'))) a' (table_entry (page_addr p)) s')"
proof (rule new_table [OF assms(1,4), of "Ptbl j' a'" "Pdir j'" a'], goal_cases)
  case (3 p s' F')
  have "live j' a' = insert (Ptbl j' a') (live j a)"
    using assms(2,3,5,6) by (auto simp: place_defs less_Suc_eq split: if_splits)
  moreover have "((content j a 512)(Ptbl j' a' := (\<lambda>_. Empty), Pdir j' := (content j a 512 (Pdir j'))(a' := To (Ptbl j' a')))) x i = content j' a' 0 x i"
    if "x \<in> insert (Ptbl j' a') (live j a)" for x i
    using that assms(2,3,5,6) by (cases x) (auto simp: place_defs less_Suc_eq split: if_splits)
  ultimately have "tables_ok F' (live j' a') (content j' a' 0) (put_entry (page_addr (F (Pdir j'))) a' (table_entry (page_addr p)) s')"
    using tables_ok_cong [OF 3(4)] by metis
  then show ?thesis using that 3(2,3,5) by blast
qed (use assms in \<open>auto simp: place_defs split: if_splits\<close>)

text \<open>In the last but one table of a directory the loop takes the next table and the next directory at once.\<close>

lemma enter_directory:
  assumes "tables_ok F (live j 510) (content j 510 512) s" and "boot_room (Suc (Suc k)) s"
  obtains p s1 q s2 F' where "boot_alloc_page s = Inr (p, s1)" and "F' = F(Ptbl j 511 := p, Pdir (Suc j) := q)"
    and "boot_alloc_page (put_entry (page_addr (F (Pdir j))) 511 (table_entry (page_addr p)) s1) = Inr (q, s2)"
    and "tables_ok F' (live j 511) (content j 511 0) (put_entry (page_addr (F Pdpt)) (Suc j) (table_entry (page_addr q)) s2)"
    and "boot_room k (put_entry (page_addr (F Pdpt)) (Suc j) (table_entry (page_addr q)) s2)"
proof (rule new_table [OF assms, of "Ptbl j 511" "Pdir j" 511], goal_cases)
  case (3 p s1 F1)
  let ?s1 = "put_entry (page_addr (F (Pdir j))) 511 (table_entry (page_addr p)) s1"
  let ?C = "(content j 510 512)(Ptbl j 511 := (\<lambda>_. Empty), Pdir j := (content j 510 512 (Pdir j))(511 := To (Ptbl j 511)))"
  note A = 3
  show ?thesis
  proof (rule new_table [OF A(4,5), of "Pdir (Suc j)" Pdpt "Suc j"], goal_cases)
    case (3 q s2 F2)
    have "live j 511 = insert (Pdir (Suc j)) (insert (Ptbl j 511) (live j 510))"
      by (auto simp: place_defs)
    moreover have "(?C(Pdir (Suc j) := (\<lambda>_. Empty), Pdpt := (?C Pdpt)(Suc j := To (Pdir (Suc j))))) x i = content j 511 0 x i"
      if "x \<in> insert (Pdir (Suc j)) (insert (Ptbl j 511) (live j 510))" for x i
      using that by (cases x) (auto simp: place_defs less_Suc_eq)
    ultimately have "tables_ok F2 (live j 511) (content j 511 0) (put_entry (page_addr (F1 Pdpt)) (Suc j) (table_entry (page_addr q)) s2)"
      using tables_ok_cong [OF 3(3)] by metis
    then show ?thesis using that A(2,3) 3 by simp
  qed (auto simp: place_defs)
qed (auto simp: place_defs)

lemma place_bounds:
  assumes "place_ok j a b" and "place_page j a b \<le> n" and "n \<le> 2 ^ 20"
  shows "j \<le> 4" and "table_need j a \<le> n div 512 + 9"
proof -
  show j: "j \<le> 4" using assms by (simp add: place_page_def)
  have "512 * (512 * j + a) \<le> n + 512 * j" using assms(2) by (simp add: place_page_def)
  then have "512 * j + a \<le> (n + 512 * j) div 512" by simp
  then show "table_need j a \<le> n div 512 + 9" using j by (simp add: table_need_def last_pdir_def)
qed

lemma id_map_step:
  assumes "id_state F j a b N s" and "place_page j a b < n" and "n \<le> 2 ^ 20" and "n div 512 + 9 \<le> N"
  obtains F' j' a' b' s' where "id_map_loop (Suc m) (cursor F j a b, s) = id_map_loop m (cursor F' j' a' b', s')"
    and "id_state F' j' a' b' N s'" and "place_page j' a' b' = Suc (place_page j a b)" and "F' Root = F Root"
proof -
  have ok: "place_ok j a b" and tab: "tables_ok F (live j a) (content j a b) s" and need: "table_need j a \<le> N" and room: "boot_room (N - table_need j a) s"
    using assms(1) by (simp_all add: id_state_def)
  have j: "j \<le> 4" using place_bounds(1) [OF ok _ assms(3)] assms(2) by simp
  let ?s = "put_entry (page_addr (F (Ptbl j a))) b (boot_entry (push_bit 12 (of_nat (place_page j a b)))) s"
  have tab1: "tables_ok F (live j a) (content j a (Suc b)) ?s" by (rule store_page [OF tab ok])
  have room1: "boot_room (N - table_need j a) ?s" using room by (simp add: boot_room_def boot_used_def put_entry_def)
  have ph: "place_page j a (Suc b) = Suc (place_page j a b)" by (simp add: place_page_def)
  let ?c = "(cursor F j a b)\<lparr>c_phys := of_nat (place_page j a (Suc b)), c_ptbli := Suc b\<rparr>"
  have run: "id_map_loop (Suc m) (cursor F j a b, s) =
      rbind (next_ptbl (?c, ?s)) (\<lambda>cs. rbind (next_pdir cs) (\<lambda>cs. rbind (next_pdpt cs) (id_map_loop m)))"
    by (simp add: cursor_def ph add.commute)
  have less: "last_pdir j a < 511" using j by (simp add: last_pdir_def)
  have "b \<le> 511" using ok by (simp add: place_ok_def)
  then consider (same) "b < 511" | (dir) "b = 511" "a = 510" | (table) "b = 511" "a \<noteq> 510" by linarith
  then show ?thesis
  proof cases
    case same
    have "?c = cursor F j a (Suc b)" by (simp add: cursor_def)
    moreover have "rbind (next_ptbl (cursor F j a (Suc b), ?s)) (\<lambda>cs. rbind (next_pdir cs) (\<lambda>cs. rbind (next_pdpt cs) (id_map_loop m))) =
        id_map_loop m (cursor F j a (Suc b), ?s)"
      using same ok less by (auto simp: next_ptbl_def next_pdir_def next_pdpt_def cursor_def place_ok_def)
    ultimately show ?thesis using that [of F j a "Suc b" ?s] run tab1 room1 same ok need ph by (simp add: id_state_def place_ok_def)
  next
    case dir
    have pn: "place_page j 511 0 = Suc (place_page j a b)" using dir by (simp add: place_page_def)
    then have n2: "table_need j 511 \<le> N" using place_bounds(2) [of j 511 0 n] assms(2-4) ok by (simp add: place_ok_def)
    have r2: "boot_room (Suc (Suc (N - table_need j 511))) ?s"
      by (rule boot_room_mono [OF room1]) (use dir n2 in \<open>simp add: table_need_def last_pdir_def\<close>)
    have t2: "tables_ok F (live j 510) (content j 510 512) ?s" using tab1 dir by simp
    show ?thesis
    proof (rule enter_directory [OF t2 r2], goal_cases)
      case (1 p s1 q s2 F')
      have "rbind (next_ptbl (?c, ?s)) (\<lambda>cs. rbind (next_pdir cs) (\<lambda>cs. rbind (next_pdpt cs) (id_map_loop m))) =
          id_map_loop m (cursor F' j 511 0, put_entry (page_addr (F Pdpt)) (Suc j) (table_entry (page_addr q)) s2)"
        using 1(1,3) 1(2) dir pn ph j by (simp add: next_ptbl_def next_pdir_def next_pdpt_def cursor_def last_pdir_def Let_def)
      then show ?thesis using that [of F' j 511 0] run 1(2,4,5) pn n2 by (simp add: id_state_def place_ok_def)
    qed
  next
    case table
    define j' where "j' = last_pdir j a"
    define a' where "a' = Suc (if a = 511 then 0 else a)"
    have ok': "place_ok j' a' 0" using ok table by (auto simp: place_ok_def j'_def a'_def last_pdir_def)
    have pn: "place_page j' a' 0 = Suc (place_page j a b)" using table by (simp add: place_page_def j'_def a'_def last_pdir_def)
    then have n2: "table_need j' a' \<le> N" using place_bounds(2) [OF ok', of n] assms(2-4) by simp
    have l': "last_pdir j' a' = j'" using ok table by (auto simp: j'_def a'_def last_pdir_def place_ok_def)
    have "Suc (table_need j a) \<le> table_need j' a'" unfolding table_need_def l' by (auto simp: j'_def a'_def last_pdir_def)
    then have r2: "boot_room (Suc (N - table_need j' a')) ?s" using n2 by (intro boot_room_mono [OF room1]) simp
    have t2: "tables_ok F (live j a) (content j a 512) ?s" "place_ok j a 511" using tab1 table ok by simp_all
    show ?thesis
    proof (rule enter_table [OF t2 table(2) r2 j'_def a'_def], goal_cases)
      case (1 p s1 F')
      let ?s' = "put_entry (page_addr (F (Pdir j'))) a' (table_entry (page_addr p)) s1"
      have "rbind (next_ptbl (?c, ?s)) (\<lambda>cs. rbind (next_pdir cs) (\<lambda>cs. rbind (next_pdpt cs) (id_map_loop m))) =
          id_map_loop m (cursor F' j' a' 0, ?s')"
        using 1(1,2) table pn ph l' ok' less
        by (auto simp: next_ptbl_def next_pdir_def next_pdpt_def cursor_def Let_def place_ok_def j'_def a'_def)
      then show ?thesis using that [of F' j' a' 0 ?s'] run 1(2-4) pn n2 ok' by (simp add: id_state_def)
    qed
  qed
qed

lemma id_map_loop_ok:
  assumes "id_state F j a b N s" and "place_page j a b + m \<le> n" and "n \<le> 2 ^ 20" and "n div 512 + 9 \<le> N"
  shows "\<exists>F' j' a' b' s'. id_map_loop m (cursor F j a b, s) = Inr (cursor F' j' a' b', s') \<and> id_state F' j' a' b' N s' \<and>
    place_page j' a' b' = place_page j a b + m \<and> F' Root = F Root"
  using assms(1,2)
proof (induction m arbitrary: F j a b s)
  case (Suc m)
  have "place_page j a b < n" using Suc.prems(2) by simp
  then show ?case
  proof (rule id_map_step [OF Suc.prems(1) _ assms(3,4), of m], goal_cases)
    case (1 F' j' a' b' s')
    then show ?case using Suc.IH [of F' j' a' b' s'] Suc.prems(2) by (auto simp del: id_map_loop.simps)
  qed
qed auto

lemma id_map_ok:
  assumes "tables_ok F {Root} (\<lambda>_ _. Empty) s" and "boot_room (unat n div 512 + 12) s" and "unat n \<le> 2 ^ 20"
  obtains F' j a b s' where "id_map (F Root) n s = Inr s'" and "F' Root = F Root" and "place_ok j a b" and "place_page j a b = unat n"
    and "tables_ok F' (live j a) (content j a b) s'"
proof -
  let ?N = "unat n div 512 + 9" and ?E = "\<lambda>_. Empty"
  have r: "boot_room (Suc (Suc (Suc ?N))) s" by (rule boot_room_mono [OF assms(2)]) simp
  show ?thesis
  proof (rule tables_alloc [OF assms(1) r, of Pdpt], simp, goal_cases)
    case (1 p1 s1)
    note A = this
    show ?thesis
    proof (rule tables_alloc [OF A(2,3), of "Pdir 0"], simp, goal_cases)
      case (1 p2 s2)
      note B = this
      show ?thesis
      proof (rule tables_alloc [OF B(2,3), of "Ptbl 0 0"], simp, goal_cases)
        case (1 p3 s3)
        let ?F = "F(Pdpt := p1, Pdir 0 := p2, Ptbl 0 0 := p3)" and ?L = "{Ptbl 0 0, Pdir 0, Pdpt, Root}"
        have t3: "tables_ok ?F ?L (\<lambda>_. ?E) s3" by (rule tables_ok_cong [OF 1(2)]) auto
        let ?s4 = "put_entry (page_addr (F Root)) 0 (table_entry (page_addr p1)) s3"
        let ?s5 = "put_entry (page_addr p1) 0 (table_entry (page_addr p2)) ?s4"
        let ?s6 = "put_entry (page_addr p2) 0 (table_entry (page_addr p3)) ?s5"
        note t4 = tables_put(1) [OF t3, of Root "To Pdpt" 0, simplified]
        note t5 = tables_put(1) [OF t4, of Pdpt "To (Pdir 0)" 0, simplified]
        note t6 = tables_put(1) [OF t5, of "Pdir 0" "To (Ptbl 0 0)" 0, simplified]
        have "?L = live 0 0" by (auto simp: place_defs)
        then have t: "tables_ok ?F (live 0 0) (content 0 0 0) ?s6"
        proof (rule tables_ok_cong [OF t6], goal_cases)
          case (1 x i)
          then show ?case by (auto simp: place_defs)
        qed
        have "boot_room ?N ?s6" using 1(3) by (simp add: boot_room_def boot_used_def put_entry_def)
        then have st: "id_state ?F 0 0 0 ?N ?s6" using t by (simp add: id_state_def place_ok_def table_need_def last_pdir_def)
        then obtain F' j a b s' where L: "id_map_loop (unat n) (cursor ?F 0 0 0, ?s6) = Inr (cursor F' j a b, s')"
          "id_state F' j a b ?N s'" "place_page j a b = unat n" "F' Root = ?F Root"
          using id_map_loop_ok [OF st, of "unat n" "unat n"] assms(3) by (auto simp: place_page_def)
        have "cursor ?F 0 0 0 = \<lparr>c_pml4 = page_addr (F Root), c_pdpt = page_addr p1, c_pdir = page_addr p2, c_ptbl = page_addr p3,
            c_pml4i = 0, c_pdpti = 0, c_pdiri = 0, c_ptbli = 0, c_phys = 0\<rparr>"
          by (simp add: cursor_def last_pdir_def place_page_def)
        then have "id_map (F Root) n s = Inr s'" using A(1) B(1) 1(1) L(1) by (simp add: id_map_def Let_def)
        then show ?case using that [of s' F' j a b] L(2-4) by (simp add: id_state_def)
      qed
    qed
  qed
qed

text \<open>The order of the places is the order of the pages.\<close>

lemma stored_iff:
  assumes "place_ok j a b" and "place_ok j' a' b'"
  shows "stored j a b j' a' b' \<longleftrightarrow> place_page j' a' b' < place_page j a b"
  using assms by (auto simp: stored_def place_ok_def place_page_def)

section \<open>What is mapped\<close>

lemma boot_entry_fields:
  assumes "unat p < 2 ^ 20"
  shows "gpte_present (boot_entry (page_addr p))" and "gpte_write (boot_entry (page_addr p))"
    and "\<not> gpte_user (boot_entry (page_addr p))" and "gpte_ppn (boot_entry (page_addr p)) = ucast p"
proof -
  have b: "bit (boot_entry (page_addr p)) n \<longleftrightarrow> n < 32 \<and> 12 \<le> n \<and> bit p (n - 12) \<or> n = 0 \<or> n = 1" for n
    by (simp only: boot_entry_def bit_or_iff) (auto simp: page_addr_def PAG_PRESENT_def PAG_RDWR_def BIT_def bit_simps)
  then show "gpte_present (boot_entry (page_addr p))" "gpte_write (boot_entry (page_addr p))" "\<not> gpte_user (boot_entry (page_addr p))"
    by (simp_all add: gpte_present_def gpte_write_def gpte_user_def)
  have "n < 20" "n < 40" if "bit p n" for n using small_bit [OF assms that] by simp_all
  then show "gpte_ppn (boot_entry (page_addr p)) = ucast p" by (intro bit_word_eqI) (auto simp: gpte_ppn_def b bit_simps)
qed

lemma table_entry_eq:
  assumes "unat p < 2 ^ 19"
  shows "table_entry (page_addr p) = boot_entry (page_addr p)"
proof -
  have "\<not> bit (page_addr p) 31"
  proof
    assume "bit (page_addr p) 31"
    then have b: "bit p 19" by (simp add: page_addr_def bit_simps)
    have "unat (take_bit 19 p) = unat p" using assms by (simp add: unsigned_take_bit_eq take_bit_nat_eq_self)
    then have "take_bit 19 p = p" by (simp add: word_unat_eq_iff)
    then show False using b by (metis bit_take_bit_iff less_irrefl)
  qed
  then have "n < 31" if "bit (page_addr p) n" for n using that bit_imp_le_length [OF that] by (cases "n = 31") auto
  then have "(scast (page_addr p) :: u64) = ucast (page_addr p)"
    using \<open>\<not> bit (page_addr p) 31\<close> by (intro bit_word_eqI) (auto simp: bit_simps min_def not_less dest: leD)
  then show ?thesis by (simp add: table_entry_def boot_entry_def)
qed

lemma tables_walk:
  assumes "tables_ok F L C s" and "x \<in> L"
  shows "C x i = Empty \<Longrightarrow> walk (b_phys s) (ucast (F x)) (i # p) = None"
    and "C x i = To y \<Longrightarrow> walk (b_phys s) (ucast (F x)) (i # p) = walk (b_phys s) (ucast (F y)) p"
proof -
  have w: "b_phys s (ucast (F x)) i = tent_word F (C x i)" using assms by (simp add: tables_ok_def)
  then show "C x i = Empty \<Longrightarrow> walk (b_phys s) (ucast (F x)) (i # p) = None" by (simp add: gpte_present_def)
  assume y: "C x i = To y"
  then have f: "unat (F y) < 2 ^ 19" using assms boot_used_small unfolding tables_ok_def by blast
  then have "unat (F y) < 2 ^ 20" by simp
  then show "walk (b_phys s) (ucast (F x)) (i # p) = walk (b_phys s) (ucast (F y)) p"
    using w y boot_entry_fields table_entry_eq [OF f] by simp
qed

definition boot_leaf :: "nat \<Rightarrow> nat \<Rightarrow> u64 option" where
  "boot_leaf n v = (let j = v div 262144; a = v div 512 mod 512; k = place_page j a (v mod 512) in
     if (j = 0 \<or> a \<noteq> 0) \<and> k < n then Some (boot_entry (page_addr (of_nat k))) else None)"

lemma tables_leaf:
  assumes "tables_ok F (live j a) C s" and "place_ok j a b" and "\<And>x i. x \<noteq> Root \<Longrightarrow> C x i = content j a b x i"
    and "C Root (va_index virt 3) = To Pdpt" and "va_index virt 2 = v div 262144" and "va_index virt 1 = v div 512 mod 512" and "va_index virt 0 = v mod 512"
  shows "leaf_of (b_phys s) (ucast (F Root)) virt = boot_leaf (place_page j a b) v"
proof -
  let ?j = "v div 262144" and ?a = "v div 512 mod 512" and ?b = "v mod 512"
  have L: "Root \<in> live j a" "Pdpt \<in> live j a" by (simp_all add: live_def)
  have w: "walk (b_phys s) (ucast (F Root)) (take 3 (vpath virt)) =
      (if reached j a ?j ?a then Some (ucast (F (Ptbl ?j ?a))) else None)"
  proof (cases "?j \<le> last_pdir j a")
    case True
    then have p: "Pdir ?j \<in> live j a" by (simp add: live_def)
    have "walk (b_phys s) (ucast (F Root)) (take 3 (vpath virt)) = walk (b_phys s) (ucast (F (Pdir ?j))) [?a]"
      using True assms(3-6) tables_walk(2) [OF assms(1) L(1)] tables_walk(2) [OF assms(1) L(2)] by (simp add: vpath_def del: walk.simps(2))
    then show ?thesis
      using assms(3) tables_walk(1) [OF assms(1) p, of ?a] tables_walk(2) [OF assms(1) p, of ?a] by (simp del: walk.simps(2))
  next
    case False
    then have "\<not> reached j a ?j ?a" by (auto simp: reached_def last_pdir_def split: if_splits)
    then show ?thesis using False tables_walk(2) [OF assms(1) L(1)] tables_walk(1) [OF assms(1) L(2)] assms(3-5)
      by (simp add: vpath_def del: walk.simps(2))
  qed
  have st: "stored j a b ?j ?a ?b \<longleftrightarrow> place_page ?j ?a ?b < place_page j a b" if "?j = 0 \<or> ?a \<noteq> 0"
    by (rule stored_iff [OF assms(2)]) (use that in \<open>simp add: place_ok_def\<close>)
  show ?thesis
  proof (cases "reached j a ?j ?a")
    case True
    then have x: "Ptbl ?j ?a \<in> live j a" "?j = 0 \<or> ?a \<noteq> 0" by (auto simp: live_def reached_def place_ok_def)
    have "b_phys s (ucast (F (Ptbl ?j ?a))) ?b = tent_word F (content j a b (Ptbl ?j ?a) ?b)"
      using assms(1,3) x(1) by (simp add: tables_ok_def)
    moreover have "gpte_present (boot_entry (page_addr p))" for p
      by (simp only: boot_entry_def gpte_present_def bit_or_iff) (simp add: PAG_PRESENT_def BIT_def)
    ultimately show ?thesis using w True st [OF x(2)] x(2) assms(7)
      by (auto simp: leaf_of_def boot_leaf_def Let_def gpte_present_def)
  next
    case False
    then have "\<not> stored j a b ?j ?a ?b" if "?j = 0 \<or> ?a \<noteq> 0" using that by (auto simp: stored_def reached_def place_ok_def)
    then have "\<not> ((?j = 0 \<or> ?a \<noteq> 0) \<and> place_page ?j ?a ?b < place_page j a b)" using st by blast
    then show ?thesis using w False by (simp only: leaf_of_def boot_leaf_def Let_def if_False option.case)
  qed
qed

lemma va_index_nat: "va_index virt k = unat virt div 512 ^ k mod 512"
proof -
  have "drop_bit (9 * k) virt AND 0x1ff = take_bit 9 (drop_bit (9 * k) virt)" by (simp add: take_bit_eq_mask mask_eq_exp_minus_1)
  then have "va_index virt k = take_bit 9 (drop_bit (9 * k) (unat virt))" unfolding va_index_def
    by (simp only: unsigned_take_bit_eq unat_drop_bit_eq)
  then show ?thesis by (simp add: take_bit_eq_mod drop_bit_eq_div power_mult)
qed

text \<open>The two virtual page numbers of a page: in the lower half and from \<^const>\<open>IDENT_OFFSET\<close> on.\<close>

lemma va_index_page:
  assumes "v < 2 ^ 27" and "virt = of_nat v \<or> virt = of_nat v + 0xffff800000000"
  shows "va_index virt 3 \<in> {0, 256}" and "va_index virt 2 = v div 262144" and "va_index virt 1 = v div 512 mod 512" and "va_index virt 0 = v mod 512"
proof -
  have v: "unat (of_nat v :: u64) = v" using assms(1) by (intro unat_of_nat_small) simp
  have "unat (of_nat v + 0xffff800000000 :: u64) = v + 134217728 * 33554176"
    using v assms(1) by (subst unat_add_no_wrap) simp_all
  then obtain m where m: "unat virt = v + 134217728 * m" "m = 0 \<or> m = 33554176" using assms(2) v
    by (metis add.right_neutral mult_0_right)
  have d: "(v + 134217728 * m) div 134217728 = m" using assms(1) by simp
  have d2: "(v + 134217728 * m) div 262144 = v div 262144 + 512 * m" using div_mult_self2 [of 262144 v "512 * m"] by (simp add: ac_simps)
  have d1: "(v + 134217728 * m) div 512 = v div 512 + 512 * (512 * m)" using div_mult_self2 [of 512 v "262144 * m"] by (simp add: ac_simps)
  have d0: "(v + 134217728 * m) mod 512 = v mod 512" using mod_mult_self2 [of v 512 "262144 * m"] by (simp add: ac_simps)
  have v2: "v div 262144 < 512" using assms(1) by simp
  show "va_index virt 3 \<in> {0, 256}" using m(2) by (auto simp: va_index_nat m(1) d)
  show "va_index virt 2 = v div 262144" using v2 by (simp add: va_index_nat m(1) d2)
  show "va_index virt 1 = v div 512 mod 512" by (simp only: va_index_nat m(1) power_one_right d1 mod_mult_self2)
  show "va_index virt 0 = v mod 512" by (simp add: va_index_nat m(1) d0)
qed

lemma paging_init_ok:
  assumes "boot_inv s" and "boot_room (unat n div 512 + 14) s" and "unat n \<le> 2 ^ 20"
  obtains root s' where "paging_init n s = Inr (root, s')"
    and "\<And>v virt. v < 2 ^ 27 \<Longrightarrow> virt = of_nat v \<or> virt = of_nat v + 0xffff800000000 \<Longrightarrow>
      leaf_of (b_phys s') (ucast root) virt = boot_leaf (unat n) v"
proof (rule boot_alloc_page_ok [of s "unat n div 512 + 13"], goal_cases)
  case (3 p s1)
  note A = 3
  have t: "tables_ok (\<lambda>_. 0) {} (\<lambda>_ _. Empty) s1" using A(3) by (simp add: tables_ok_def)
  have r: "boot_room (Suc (unat n div 512 + 12)) s1" using A(4) by (simp add: boot_room_def)
  show ?thesis
  proof (rule tables_alloc [OF t r, of Root], simp, goal_cases)
    case (1 root s2)
    let ?F = "(\<lambda>_. 0)(Root := root)"
    have t2: "tables_ok ?F {Root} (\<lambda>_ _. Empty) s2" by (rule tables_ok_cong [OF 1(2)]) auto
    note B = 1
    show ?thesis
    proof (rule id_map_ok [OF t2 B(3) assms(3)], goal_cases)
      case (1 F j a b s3)
      let ?C = "(content j a b)(Root := (content j a b Root)(256 := To Pdpt))"
      let ?s4 = "put_entry (page_addr (F Root)) 256 (tent_word F (To Pdpt)) s3"
      have L: "Root \<in> live j a" "Pdpt \<in> live j a" by (simp_all add: live_def)
      then have t4: "tables_ok F (live j a) ?C ?s4" using tables_put(1) [OF 1(5), of Root "To Pdpt" 256] by simp
      have "unat (F Root) < 2 ^ 19" using 1(5) L boot_used_small unfolding tables_ok_def by blast
      then have "unat (F Root) < 2 ^ 20" by simp
      then have "b_phys s3 (frame_at (page_addr (F Root))) 0 = tent_word F (To Pdpt)"
        using 1(5) L by (simp add: frame_at_page tables_ok_def)
      then have "paging_init n s = Inr (root, ?s4)"
        using A(2) B(1) 1(1,2) by (simp add: paging_init_def Let_def)
      moreover have "leaf_of (b_phys ?s4) (ucast root) virt = boot_leaf (unat n) v"
        if "v < 2 ^ 27" "virt = of_nat v \<or> virt = of_nat v + 0xffff800000000" for v virt
      proof -
        have "?C Root (va_index virt 3) = To Pdpt" using va_index_page(1) [OF that] by auto
        then show ?thesis using tables_leaf [OF t4 1(3) _ _ va_index_page(2-4) [OF that]] 1(2,4) by simp
      qed
      ultimately show ?thesis using A(1) by blast
    qed
  qed
qed (use assms in \<open>auto simp: boot_room_def\<close>)

definition boot_mapping :: "'a bootstate_scheme \<Rightarrow> u32 \<Rightarrow> u64 \<Rightarrow> (u64 \<times> bool \<times> bool) option" where
  "boot_mapping s root virt = map_option (\<lambda>e. (gpte_ppn e, gpte_write e, gpte_user e)) (leaf_of (b_phys s) (ucast root) virt)"

lemma boot_leaf_fields:
  assumes "boot_leaf n v = Some e" and "n \<le> 2 ^ 20"
  shows "gpte_ppn e = of_nat (place_page (v div 262144) (v div 512 mod 512) (v mod 512))" "gpte_write e" "\<not> gpte_user e"
proof -
  define k where "k = place_page (v div 262144) (v div 512 mod 512) (v mod 512)"
  have k: "k < 2 ^ 20" "e = boot_entry (page_addr (of_nat k))" using assms by (auto simp: boot_leaf_def Let_def k_def split: if_splits)
  then have u: "unat (of_nat k :: u32) = k" by (simp add: unat_of_nat take_bit_nat_eq_self)
  then have c: "ucast (of_nat k :: u32) = (of_nat k :: u64)"
    using k(1) by (simp add: word_unat_eq_iff unat_ucast_up unat_of_nat take_bit_nat_eq_self)
  have "unat (of_nat k :: u32) < 2 ^ 20" unfolding u by (rule k(1))
  note f = boot_entry_fields [OF this, folded k(2), unfolded c]
  show "gpte_ppn e = of_nat (place_page (v div 262144) (v div 512 mod 512) (v mod 512))" using f(4) unfolding k_def .
  show "gpte_write e" "\<not> gpte_user e" by (rule f(2), rule f(3))
qed

lemma boot_leaf_identity:
  assumes "n \<le> 262144"
  shows "boot_leaf n v = (if v < n then Some (boot_entry (page_addr (of_nat v))) else None)"
proof (cases "v < 262144")
  case True
  then have "512 * (v div 512 mod 512) + v mod 512 = v" by simp
  then show ?thesis using True by (simp add: boot_leaf_def place_page_def Let_def)
next
  case False
  then have "1 \<le> v div 262144" by (simp add: Suc_le_eq div_greater_zero_iff)
  then have "262144 \<le> place_page (v div 262144) (v div 512 mod 512) (v mod 512)" if "v div 512 mod 512 \<noteq> 0"
    using that by (simp add: place_page_def)
  then show ?thesis using False \<open>1 \<le> v div 262144\<close> assms by (auto simp: boot_leaf_def Let_def)
qed

lemma paging_init_maps:
  assumes "boot_inv s" and "boot_room (unat n div 512 + 14) s" and "unat n \<le> 262144"
  shows "\<exists>root s'. paging_init n s = Inr (root, s') \<and>
    (\<forall>v < 2 ^ 27. \<forall>virt \<in> {of_nat v, of_nat v + drop_bit 12 IDENT_OFFSET}.
      boot_mapping s' root virt = (if v < unat n then Some (of_nat v, True, False) else None))"
proof (rule paging_init_ok [OF assms(1,2)], goal_cases)
  case (2 root s')
  have i: "drop_bit 12 IDENT_OFFSET = 0xffff800000000" by (simp add: IDENT_OFFSET_def)
  have "map_option (\<lambda>e. (gpte_ppn e, gpte_write e, gpte_user e)) (boot_leaf (unat n) v) = (if v < unat n then Some (of_nat v, True, False) else None)" for v
  proof (cases "v < unat n")
    case True
    then have e: "boot_leaf (unat n) v = Some (boot_entry (page_addr (of_nat v)))" using boot_leaf_identity [OF assms(3)] by simp
    have "place_page (v div 262144) (v div 512 mod 512) (v mod 512) = v" using True assms(3) by (simp add: place_page_def)
    then show ?thesis using True e boot_leaf_fields [OF e] assms(3) by simp
  qed (simp add: boot_leaf_identity [OF assms(3)])
  then show ?case using 2 unfolding boot_mapping_def i by auto
qed (use assms in simp)

text \<open>
  With up to 1 GiB of memory \<^verbatim>\<open>paging_init\<close> succeeds and the processor's page walk then finds every page of the memory at its own
  address and at \<^const>\<open>IDENT_OFFSET\<close> plus its address, writable and for the kernel only, and nothing else in the first 512 GiB of both
  halves, provided that there are enough free pages for the tables and that the memory ends below 2 GiB.
\<close>

theorem paging_init_identity:
  assumes "boot_inv s" and "boot_room (unat n div 512 + 14) s" and "unat n \<le> 262144"
  shows "\<exists>root s'. paging_init n s = Inr (root, s') \<and>
    (\<forall>v < 2 ^ 27. \<forall>virt \<in> {of_nat v, of_nat v + drop_bit 12 IDENT_OFFSET}.
      boot_mapping s' root virt = (if v < unat n then Some (of_nat v, True, False) else None))"
  by (rule paging_init_maps [OF assms])

text \<open>
  C39: with more than 1 GiB of memory the mapping is wrong: the page at 1 GiB is not mapped at its address, and the address 2 MiB behind it
  leads to it instead, in both halves.
\<close>

theorem paging_init_shifted:
  assumes "boot_inv s" and "boot_room (unat n div 512 + 14) s" and "262144 < unat n" and "unat n \<le> 2 ^ 20"
  shows "\<exists>root s'. paging_init n s = Inr (root, s') \<and> boot_mapping s' root 262144 = None \<and> boot_mapping s' root 262656 = Some (262144, True, False) \<and>
    boot_mapping s' root (262144 + drop_bit 12 IDENT_OFFSET) = None \<and> boot_mapping s' root (262656 + drop_bit 12 IDENT_OFFSET) = Some (262144, True, False)"
proof (rule paging_init_ok [OF assms(1,2,4)], goal_cases)
  case (1 root s')
  have i: "drop_bit 12 IDENT_OFFSET = 0xffff800000000" by (simp add: IDENT_OFFSET_def)
  have n: "boot_leaf (unat n) 262144 = None" by (simp add: boot_leaf_def Let_def)
  obtain e where e: "boot_leaf (unat n) 262656 = Some e" using assms(3) by (auto simp: boot_leaf_def place_page_def Let_def)
  have f: "gpte_ppn e = 262144" "gpte_write e" "\<not> gpte_user e" using boot_leaf_fields [OF e assms(4)] by (simp_all add: place_page_def)
  show ?case using 1(1) 1(2) [of 262144 262144] 1(2) [of 262144 "262144 + 0xffff800000000"]
      1(2) [of 262656 262656] 1(2) [of 262656 "262656 + 0xffff800000000"] n e f unfolding boot_mapping_def i by simp
qed

definition boot_machine :: "nat \<Rightarrow> bootstate" where
  "boot_machine bs = \<lparr>b_free_pages = \<lparr>bmp_size = of_nat (8 * bs), bmp_bytes = replicate bs 0\<rparr>, b_phys = (\<lambda>_ _. 7)\<rparr>"

lemma boot_machine_ok:
  assumes "bs \<le> 65536" and "k \<le> 8 * bs"
  shows "boot_inv (boot_machine bs)" and "boot_room k (boot_machine bs)"
proof -
  have u: "unat (of_nat (8 * bs) :: u64) = 8 * bs" using assms(1) by (intro unat_of_nat_small) simp
  have "bmp_used (b_free_pages (boot_machine bs)) = {}"
    using u by (auto simp: boot_machine_def bmp_used_def bmp_bit_def less_mult_imp_div_less mult.commute)
  moreover have "bmp_inv (b_free_pages (boot_machine bs))"
    using u by (auto simp: boot_machine_def bmp_inv_def bmp_wf_def bmp_padded_def unat_BITMAP_BYTE_SIZE)
  ultimately show "boot_inv (boot_machine bs)" "boot_room k (boot_machine bs)"
    using assms u by (simp_all add: boot_inv_def boot_room_def boot_used_def boot_machine_def)
qed

theorem paging_init_identity_witness:
  "\<exists>root s'. paging_init 8 (boot_machine 2) = Inr (root, s') \<and> boot_mapping s' root 7 = Some (7, True, False) \<and> boot_mapping s' root 8 = None"
proof -
  have "\<exists>root s'. paging_init 8 (boot_machine 2) = Inr (root, s') \<and>
    (\<forall>v < 2 ^ 27. \<forall>virt \<in> {of_nat v, of_nat v + drop_bit 12 IDENT_OFFSET}.
      boot_mapping s' root virt = (if v < unat (8 :: u32) then Some (of_nat v, True, False) else None))"
    by (rule paging_init_identity) (use boot_machine_ok [of 2 14] in simp_all)
  then obtain root s' where s': "paging_init 8 (boot_machine 2) = Inr (root, s')"
    "\<And>v virt. v < 2 ^ 27 \<Longrightarrow> virt = of_nat v \<Longrightarrow> boot_mapping s' root virt = (if v < 8 then Some (of_nat v, True, False) else None)"
    by auto
  then show ?thesis using s'(2) [of 7 7] s'(2) [of 8 8] by simp
qed

theorem paging_init_shifted_witness:
  "\<exists>root s'. paging_init 524288 (boot_machine 65536) = Inr (root, s') \<and> boot_mapping s' root 262144 = None"
  using paging_init_shifted [of "boot_machine 65536" 524288] boot_machine_ok [of 65536 1038] by auto
end
