(* ===== verification/Boot_Memory.thy ===== *)
theory Boot_Memory
  imports Boot32
begin

text \<open>
  Memory of the boot stage: its heap (\<^verbatim>\<open>boot32/heap.c\<close>), the memory zones of the boot loader and the bitmap of free pages made from
  them (\<^verbatim>\<open>boot32/mmap.c\<close>), the pages in use before the kernel starts (\<^verbatim>\<open>boot32/boot32mem.c\<close>) and the command line and initial ramdisk
  (\<^verbatim>\<open>boot32/multiboot.c\<close>).

  Addresses and sizes have 32 bits. Block headers are kept by address; a read of an address without header is a fault. The compiler
  extends a pointer to 64 bits with its sign (\<open>ptr64\<close>). A list of structures is the sequence of the structures. What the heap
  blocks hold is kept by address where it is used later (the copies of the command line and of the ramdisk).
\<close>

section \<open>The heap\<close>

record bhblock =
  bb_available :: u32
  bb_magic :: u32
  bb_prev :: u32
  bb_next :: u32
  bb_size :: u32

record region_t =
  rg_addr :: u64
  rg_size :: u64
  rg_available :: bool

record bmstate = bootstate +
  b_bitmap_set :: bool
  b_kheap_break :: u32
  b_heap_start :: u32
  b_heap_last :: u32
  b_hblocks :: "u32 \<rightharpoonup> bhblock"
  b_objs :: "u32 \<rightharpoonup> u8 list"
  b_regions :: "region_t list"
  b_phys_ram_size :: u64

definition EARLY_HEAP_START :: u32 where "EARLY_HEAP_START = 0x02000000"
definition BHEAP_MAGIC :: u32 where "BHEAP_MAGIC = 0xabcdefab"
definition BHEADER_SIZE :: u32 where "BHEADER_SIZE = 20"

definition ptr64 :: "u32 \<Rightarrow> u64" where
  "ptr64 p = scast p"

definition bb_at :: "u32 \<Rightarrow> 'a bmstate_scheme \<Rightarrow> bhblock result" where
  "bb_at p s = (case b_hblocks s p of None \<Rightarrow> Inl (Mem_Fault ''hblock_t'') | Some b \<Rightarrow> Inr b)"

definition bb_upd :: "u32 \<Rightarrow> (bhblock \<Rightarrow> bhblock) \<Rightarrow> 'a bmstate_scheme \<Rightarrow> 'a bmstate_scheme result" where
  "bb_upd p f s = rbind (bb_at p s) (\<lambda>b. Inr (s\<lparr>b_hblocks := (b_hblocks s)(p \<mapsto> f b)\<rparr>))"

text \<open>The pages from \<open>page\<close> to \<open>last\<close> are marked used; \<open>n\<close> bounds the number of rounds.\<close>

fun mark_range :: "nat \<Rightarrow> u32 \<Rightarrow> u32 \<Rightarrow> bitmap_t \<Rightarrow> bitmap_t result" where
  "mark_range 0 page last_page bmp = Inl Diverges"
| "mark_range (Suc n) page last_page bmp =
     (if page \<le> last_page then rbind (bitmap_set bmp (ucast page)) (mark_range n (page + 1) last_page) else Inr bmp)"

definition address_fuel32 :: nat where
  "address_fuel32 = 2 ^ 32 + 1"

definition boot_kbrk :: "u32 \<Rightarrow> 'a bmstate_scheme \<Rightarrow> (u32 \<times> 'a bmstate_scheme) result" where
  "boot_kbrk increment s =
     (let orig_brk = b_kheap_break s;
          s = s\<lparr>b_kheap_break := orig_brk + increment\<rparr> in
      rbind (if b_bitmap_set s then
               let orig_brk_page = ucast (drop_bit 12 (ptr64 orig_brk));
                   new_brk_page = ucast (drop_bit 12 (ptr64 (b_kheap_break s)) + 1) in
               rbind (mark_range address_fuel32 orig_brk_page new_brk_page (b_free_pages s)) (\<lambda>bmp. Inr (s\<lparr>b_free_pages := bmp\<rparr>))
             else Inr s) (\<lambda>s. Inr (orig_brk, s)))"

definition boot_crop :: "u32 \<Rightarrow> u32 \<Rightarrow> 'a bmstate_scheme \<Rightarrow> 'a bmstate_scheme result" where
  "boot_crop block new_size s =
     rbind (bb_at block s) (\<lambda>b.
     let excess_size = bb_size b - new_size in
     if excess_size \<le> BHEADER_SIZE then Inr s
     else
       let original_next = bb_next b; nb = block + new_size;
           s = s\<lparr>b_hblocks := (b_hblocks s)(block \<mapsto> b\<lparr>bb_size := new_size, bb_next := nb\<rparr>,
             nb \<mapsto> \<lparr>bb_available = 1, bb_magic = BHEAP_MAGIC, bb_prev = block, bb_next = original_next, bb_size = excess_size\<rparr>)\<rparr> in
       if original_next \<noteq> 0 then bb_upd original_next (\<lambda>n. n\<lparr>bb_prev := nb\<rparr>) s
       else Inr (s\<lparr>b_heap_last := nb\<rparr>))"

fun boot_find :: "nat \<Rightarrow> u32 \<Rightarrow> u32 \<Rightarrow> 'a bmstate_scheme \<Rightarrow> u32 result" where
  "boot_find 0 entry sz s = Inl Diverges"
| "boot_find (Suc n) entry sz s =
     (if entry = 0 then Inr 0
      else
        rbind (bb_at entry s) (\<lambda>b.
        rbind (kassert (bb_magic b = BHEAP_MAGIC) ''kheap: heap corruption detected'') (\<lambda>_.
        if bb_available b \<noteq> 0 \<and> bb_size b \<ge> BHEADER_SIZE + sz then Inr entry
        else boot_find n (bb_next b) sz s)))"

definition boot_kmalloc :: "u32 \<Rightarrow> 'a bmstate_scheme \<Rightarrow> (u32 \<times> 'a bmstate_scheme) result" where
  "boot_kmalloc sz s =
     rbind (boot_find address_fuel32 (b_heap_start s) sz s) (\<lambda>entry.
     if entry \<noteq> 0 then
       rbind (bb_upd entry (\<lambda>b. b\<lparr>bb_available := 0\<rparr>) s) (\<lambda>s.
       rbind (boot_crop entry (BHEADER_SIZE + sz) s) (\<lambda>s. Inr (entry + BHEADER_SIZE, s)))
     else
       rbind (boot_kbrk (sz + BHEADER_SIZE) s) (\<lambda>(blk, s).
       if blk = - 1 then Inr (0, s)
       else
         let s = s\<lparr>b_hblocks := (b_hblocks s)(blk \<mapsto>
               \<lparr>bb_available = 0, bb_magic = BHEAP_MAGIC, bb_prev = b_heap_last s, bb_next = 0, bb_size = BHEADER_SIZE + sz\<rparr>)\<rparr> in
         rbind (if b_heap_last s \<noteq> 0 then bb_upd (b_heap_last s) (\<lambda>b. b\<lparr>bb_next := blk\<rparr>) s else Inr s) (\<lambda>s.
         let s = s\<lparr>b_heap_last := blk\<rparr>;
             s = (if b_heap_start s = 0 then s\<lparr>b_heap_start := blk\<rparr> else s) in
         Inr (blk + BHEADER_SIZE, s))))"

definition boot_merge_blocks :: "u32 \<Rightarrow> u32 \<Rightarrow> 'a bmstate_scheme \<Rightarrow> 'a bmstate_scheme result" where
  "boot_merge_blocks first second s =
     rbind (bb_at first s) (\<lambda>f.
     rbind (kassert (bb_magic f = BHEAP_MAGIC) ''kheap: heap corruption detected'') (\<lambda>_.
     rbind (bb_at second s) (\<lambda>g.
     rbind (kassert (bb_magic g = BHEAP_MAGIC) ''kheap: heap corruption detected'') (\<lambda>_.
     rbind (bb_upd first (\<lambda>f. f\<lparr>bb_size := bb_size f + bb_size g, bb_next := bb_next g\<rparr>) s) (\<lambda>s.
     rbind (if bb_next g \<noteq> 0 then bb_upd (bb_next g) (\<lambda>n. n\<lparr>bb_prev := first\<rparr>) s else Inr (s\<lparr>b_heap_last := first\<rparr>)) (\<lambda>s.
       bb_upd second (\<lambda>g. g\<lparr>bb_magic := 0\<rparr>) s))))))"

fun boot_shrink :: "nat \<Rightarrow> 'a bmstate_scheme \<Rightarrow> 'a bmstate_scheme result" where
  "boot_shrink 0 s = Inl Diverges"
| "boot_shrink (Suc n) s =
     (if b_heap_last s = 0 then Inr s
      else
        rbind (bb_at (b_heap_last s) s) (\<lambda>b.
        if bb_available b = 0 then Inr s
        else
          rbind (bb_upd (b_heap_last s) (\<lambda>b. b\<lparr>bb_magic := 0\<rparr>) s) (\<lambda>s.
          rbind (if bb_prev b \<noteq> 0 then
                   rbind (bb_upd (bb_prev b) (\<lambda>q. q\<lparr>bb_next := 0\<rparr>) s) (\<lambda>s. Inr (s\<lparr>b_heap_last := bb_prev b\<rparr>))
                 else Inr (s\<lparr>b_heap_start := 0, b_heap_last := 0\<rparr>)) (\<lambda>s.
          rbind (boot_kbrk (- bb_size b) s) (\<lambda>(_, s). boot_shrink n s)))))"

definition boot_kfree :: "u32 \<Rightarrow> 'a bmstate_scheme \<Rightarrow> 'a bmstate_scheme result" where
  "boot_kfree ptr s =
     (if ptr = 0 then Inr s
      else
        rbind (kassert (b_heap_last s \<noteq> 0 \<and> b_heap_start s \<noteq> 0 \<and> ptr \<ge> b_heap_start s \<and> ptr \<le> b_heap_last s + BHEADER_SIZE)
          ''kheap: heap corruption detected'') (\<lambda>_.
        let tofree = ptr - BHEADER_SIZE in
        rbind (bb_at tofree s) (\<lambda>b.
        rbind (kassert (bb_magic b = BHEAP_MAGIC \<and> bb_available b = 0) ''kheap: heap corruption detected'') (\<lambda>_.
        rbind (bb_upd tofree (\<lambda>b. b\<lparr>bb_available := 1\<rparr>) s) (\<lambda>s.
        rbind (if bb_next b \<noteq> 0 then
                 rbind (bb_at (bb_next b) s) (\<lambda>n. if bb_available n \<noteq> 0 then boot_merge_blocks tofree (bb_next b) s else Inr s)
               else Inr s) (\<lambda>s.
        rbind (if bb_prev b \<noteq> 0 then
                 rbind (bb_at (bb_prev b) s) (\<lambda>q. if bb_available q \<noteq> 0 then boot_merge_blocks (bb_prev b) tofree s else Inr s)
               else Inr s) (\<lambda>s.
        boot_shrink address_fuel32 s)))))))"
section \<open>Memory zones and pages in use\<close>

text \<open>The entries of the boot loader's memory map by their address.\<close>

record multiboot_mmape_t =
  me_entry_size :: u32
  me_base_addr :: u64
  me_size :: u64
  me_type :: u32

text \<open>A zone is a structure and an item of a list, both on the heap.\<close>

fun mmap_loop :: "nat \<Rightarrow> (u32 \<Rightarrow> multiboot_mmape_t) \<Rightarrow> u32 \<Rightarrow> u32 \<Rightarrow> 'a bmstate_scheme \<Rightarrow> 'a bmstate_scheme result" where
  "mmap_loop 0 mm entry end_addr s = Inl Diverges"
| "mmap_loop (Suc n) mm entry end_addr s =
     (if entry < end_addr then
        let e = mm entry; addr = me_base_addr e; sz = me_size e in
        rbind (boot_kmalloc 20 s) (\<lambda>(_, s).
        rbind (boot_kmalloc 12 s) (\<lambda>(_, s).
        let s = s\<lparr>b_regions := b_regions s @ [\<lparr>rg_addr = addr, rg_size = sz, rg_available = (me_type e = 1)\<rparr>]\<rparr>;
            s = (if me_type e = 1 \<and> addr + sz > b_phys_ram_size s then s\<lparr>b_phys_ram_size := addr + sz\<rparr> else s) in
        mmap_loop n mm (entry + me_entry_size e + 4) end_addr s))
      else Inr s)"

definition create_mmap :: "(u32 \<Rightarrow> multiboot_mmape_t) \<Rightarrow> u32 \<Rightarrow> u32 \<Rightarrow> 'a bmstate_scheme \<Rightarrow> (u64 \<times> 'a bmstate_scheme) result" where
  "create_mmap mm mmap len s =
     rbind (mmap_loop address_fuel32 mm mmap (mmap + len) (s\<lparr>b_regions := []\<rparr>)) (\<lambda>s. Inr (b_phys_ram_size s, s))"

fun clear_range :: "nat \<Rightarrow> u32 \<Rightarrow> u32 \<Rightarrow> bitmap_t \<Rightarrow> bitmap_t result" where
  "clear_range 0 page last_page bmp = Inl Diverges"
| "clear_range (Suc n) page last_page bmp =
     (if page \<le> last_page then rbind (bitmap_clr bmp (ucast page)) (clear_range n (page + 1) last_page) else Inr bmp)"

fun free_regions :: "region_t list \<Rightarrow> bitmap_t \<Rightarrow> bitmap_t result" where
  "free_regions [] bmp = Inr bmp"
| "free_regions (r # rs) bmp =
     (if \<not> rg_available r then free_regions rs bmp
      else
        let start_page = ucast (drop_bit 12 (rg_addr r)) + (if rg_addr r mod 4096 \<noteq> 0 then 1 else 0);
            end_page = ucast (drop_bit 12 (rg_addr r + rg_size r)) - 1 in
        rbind (clear_range address_fuel32 start_page end_page bmp) (free_regions rs))"

text \<open>The values are the address of the bitmap and the number of pages.\<close>

definition create_pagemap :: "'a bmstate_scheme \<Rightarrow> (u64 \<times> u64 \<times> 'a bmstate_scheme) result" where
  "create_pagemap s =
     (let total_pages = ucast (drop_bit 12 (b_phys_ram_size s)) :: u32 in
      rbind (boot_kmalloc (ucast (BITMAP_BYTE_SIZE (ucast total_pages))) s) (\<lambda>(p, s).
      rbind (free_regions (b_regions s) (bitmap_init (ucast total_pages) 0xff)) (\<lambda>bmp.
      Inr (ptr64 p, ucast total_pages, s\<lparr>b_bitmap_set := (p \<noteq> 0), b_free_pages := bmp\<rparr>))))"

fun mark_pages_used :: "nat \<Rightarrow> u32 \<Rightarrow> bitmap_t \<Rightarrow> bitmap_t result" where
  "mark_pages_used 0 start_page bmp = Inr bmp"
| "mark_pages_used (Suc n) start_page bmp = rbind (bitmap_set bmp (ucast start_page)) (mark_pages_used n (start_page + 1))"

record bootinfo_t =
  bi_free_pages_ptr :: u64
  bi_total_pages :: u64
  bi_boot32_start_page :: u64
  bi_boot32_page_count :: u64
  bi_heap_start_page :: u64
  bi_kernel_addr :: u64
  bi_heap_pages :: u64
  bi_kernel_size :: u64
  bi_stack_start_page :: u64
  bi_stack_pages :: u64
  bi_pml4_ppn :: u64
  bi_cmdline_ptr :: u64
  bi_ramdisk_ptr :: u64
  bi_ramdisk_size :: u64

definition KERNEL_LOAD_ADDR :: u32 where "KERNEL_LOAD_ADDR = 0x01000000"
definition BOOT32_STACK_LOC :: u32 where "BOOT32_STACK_LOC = 0x01000000"
definition BOOT32_STACK_PAGES :: u32 where "BOOT32_STACK_PAGES = 8"

text \<open>
  The addresses of the boot stage's code and data and the kernel image, whose size and copy to memory are \<open>kernel_size\<close> and
  \<open>load_kernel\<close>, come from the linker.
\<close>

definition alloc_boot32_pages ::
  "u32 \<Rightarrow> u32 \<Rightarrow> u32 \<Rightarrow> ((u64 \<Rightarrow> nat \<Rightarrow> u64) \<Rightarrow> u64 \<Rightarrow> nat \<Rightarrow> u64) \<Rightarrow> bootinfo_t \<Rightarrow> 'a bmstate_scheme \<Rightarrow> (bootinfo_t \<times> 'a bmstate_scheme) result" where
  "alloc_boot32_pages boot_start boot_end kernel_size load_kernel bi s =
     (let boot_start_page = drop_bit 12 (ptr64 boot_start);
          boot_page_count = drop_bit 12 (ptr64 boot_end - ptr64 boot_start) + 1;
          stack_start_page = drop_bit 12 BOOT32_STACK_LOC - BOOT32_STACK_PAGES;
          heap_start_page = ucast (drop_bit 12 (ptr64 EARLY_HEAP_START)) :: u32;
          heap_end_page = ucast (drop_bit 12 (ptr64 (b_kheap_break s)) + 1) :: u32;
          kernel_start_page = drop_bit 12 KERNEL_LOAD_ADDR;
          kernel_page_count = drop_bit 12 kernel_size + 1 in
      rbind (mark_pages_used (unat (ucast boot_page_count :: u32)) (ucast boot_start_page) (b_free_pages s)) (\<lambda>bmp.
      rbind (mark_pages_used (unat BOOT32_STACK_PAGES) stack_start_page bmp) (\<lambda>bmp.
      rbind (mark_pages_used (unat (heap_end_page - heap_start_page)) heap_start_page bmp) (\<lambda>bmp.
      rbind (mark_pages_used (unat (kernel_start_page + kernel_page_count) - unat kernel_start_page) kernel_start_page bmp) (\<lambda>bmp.
      Inr (bi\<lparr>bi_boot32_start_page := boot_start_page, bi_boot32_page_count := boot_page_count,
              bi_heap_start_page := ucast heap_start_page, bi_heap_pages := ucast (heap_end_page - heap_start_page),
              bi_kernel_addr := ucast KERNEL_LOAD_ADDR + IDENT_OFFSET, bi_kernel_size := ucast kernel_size,
              bi_stack_start_page := ucast stack_start_page, bi_stack_pages := ucast BOOT32_STACK_PAGES\<rparr>,
           s\<lparr>b_free_pages := bmp, b_phys := load_kernel (b_phys s)\<rparr>))))))"

section \<open>Data of the boot loader\<close>

text \<open>The fields of the multiboot structure that are used, with the strings and the first module they point to.\<close>

record multiboot_t =
  mb_flags :: u32
  mb_cmdline :: "u8 list"
  mb_mods_count :: u32
  mb_initrd :: "u8 list"
  mb_mmap_length :: u32
  mb_mmap :: u32

definition get_multiboot_info :: "multiboot_t \<Rightarrow> bootinfo_t \<Rightarrow> 'a bmstate_scheme \<Rightarrow> (bootinfo_t \<times> 'a bmstate_scheme) result" where
  "get_multiboot_info mb bi s =
     rbind (if bit (mb_flags mb) 2 then
              rbind (boot_kmalloc (of_nat (length (mb_cmdline mb)) + 1) s) (\<lambda>(cmdline, s).
              Inr (bi\<lparr>bi_cmdline_ptr := ptr64 cmdline + IDENT_OFFSET\<rparr>, s\<lparr>b_objs := (b_objs s)(cmdline \<mapsto> mb_cmdline mb @ [0])\<rparr>))
            else Inr (bi\<lparr>bi_cmdline_ptr := 0\<rparr>, s)) (\<lambda>(bi, s).
     if bit (mb_flags mb) 3 \<and> mb_mods_count mb > 0 then
       rbind (boot_kmalloc (of_nat (length (mb_initrd mb))) s) (\<lambda>(initrd, s).
       Inr (bi\<lparr>bi_ramdisk_ptr := ptr64 initrd + IDENT_OFFSET, bi_ramdisk_size := of_nat (length (mb_initrd mb))\<rparr>,
            s\<lparr>b_objs := (b_objs s)(initrd \<mapsto> mb_initrd mb)\<rparr>))
     else Inr (bi\<lparr>bi_ramdisk_ptr := 0, bi_ramdisk_size := 0\<rparr>, s))"

text \<open>
  \<^verbatim>\<open>boot32_main\<close> up to the jump into the kernel: clearing the BSS section and loading the descriptor tables have no counterpart.
\<close>

definition boot32_main ::
  "u32 \<Rightarrow> u32 \<Rightarrow> u32 \<Rightarrow> ((u64 \<Rightarrow> nat \<Rightarrow> u64) \<Rightarrow> u64 \<Rightarrow> nat \<Rightarrow> u64) \<Rightarrow> (u32 \<Rightarrow> multiboot_mmape_t) \<Rightarrow> multiboot_t \<Rightarrow> bootinfo_t \<Rightarrow>
   'a bmstate_scheme \<Rightarrow> (bootinfo_t \<times> 'a bmstate_scheme) result" where
  "boot32_main boot_start boot_end kernel_size load_kernel mm mb bi s =
     rbind (create_mmap mm (mb_mmap mb) (mb_mmap_length mb) s) (\<lambda>(highest_addr, s).
     rbind (create_pagemap s) (\<lambda>(bitmap_addr, total_pages, s).
     rbind (get_multiboot_info mb bi s) (\<lambda>(bi, s).
     rbind (alloc_boot32_pages boot_start boot_end kernel_size load_kernel bi s) (\<lambda>(bi, s).
     rbind (paging_init (ucast (drop_bit 12 highest_addr)) s) (\<lambda>(pml4, s).
     Inr (bi\<lparr>bi_free_pages_ptr := bitmap_addr + IDENT_OFFSET, bi_total_pages := total_pages, bi_pml4_ppn := ucast pml4\<rparr>, s))))))"

section \<open>A heap of allocated blocks\<close>

text \<open>
  The boot stage never releases a block, so its heap is a row of allocated blocks from the start of the heap to the break. The
  list holds their sizes.
\<close>

fun bchain :: "(u32 \<rightharpoonup> bhblock) \<Rightarrow> u32 \<Rightarrow> nat \<Rightarrow> nat list \<Rightarrow> bool" where
  "bchain H prev a [] \<longleftrightarrow> True"
| "bchain H prev a (n # ns) \<longleftrightarrow> 20 \<le> n \<and>
     H (of_nat a) = Some \<lparr>bb_available = 0, bb_magic = BHEAP_MAGIC, bb_prev = prev, bb_next = (if ns = [] then 0 else of_nat (a + n)), bb_size = of_nat n\<rparr> \<and>
     bchain H (of_nat a) (a + n) ns"

definition heap_at :: nat where "heap_at = 0x02000000"

fun last_block :: "nat \<Rightarrow> nat list \<Rightarrow> nat" where
  "last_block a [] = 0"
| "last_block a (n # ns) = (if ns = [] then a else last_block (a + n) ns)"

definition boot_heap :: "nat list \<Rightarrow> 'a bmstate_scheme \<Rightarrow> bool" where
  "boot_heap ns s \<longleftrightarrow> bchain (b_hblocks s) 0 heap_at ns \<and> b_kheap_break s = of_nat (heap_at + sum_list ns) \<and> heap_at + sum_list ns < 2 ^ 31 \<and>
     b_heap_start s = (if ns = [] then 0 else of_nat heap_at) \<and> b_heap_last s = of_nat (last_block heap_at ns)"

lemma of_nat_u32_eq: "x < 2 ^ 32 \<Longrightarrow> y < 2 ^ 32 \<Longrightarrow> (of_nat x :: u32) = of_nat y \<longleftrightarrow> x = y"
proof -
  assume "x < 2 ^ 32" "y < 2 ^ 32"
  then have "unat (of_nat x :: u32) = x" "unat (of_nat y :: u32) = y" by (simp_all add: unat_of_nat take_bit_nat_eq_self)
  then show ?thesis by metis
qed

lemma last_block_bounds: "ns \<noteq> [] \<Longrightarrow> a \<le> last_block a ns \<and> last_block a ns \<le> a + sum_list ns"
  by (induction a ns rule: last_block.induct) auto

lemma last_block_snoc: "last_block a (ns @ [n]) = a + sum_list ns"
  by (induction ns arbitrary: a) auto

lemma boot_find_full:
  assumes "bchain (b_hblocks s) prev a ns" and "0 < a" and "a + sum_list ns < 2 ^ 32" and "length ns < fuel"
  shows "boot_find fuel (if ns = [] then 0 else of_nat a) sz s = Inr 0"
  using assms
proof (induction ns arbitrary: prev a fuel)
  case Nil
  then show ?case by (cases fuel) auto
next
  case (Cons n ns)
  then obtain k where k: "fuel = Suc k" "length ns < k" by (cases fuel) auto
  have "of_nat a \<noteq> (0 :: u32)" using of_nat_u32_eq [of a 0] Cons.prems(2,3) by simp
  moreover have "boot_find k (if ns = [] then 0 else of_nat (a + n)) sz s = Inr 0"
    using Cons.IH [of "of_nat a" "a + n" k] Cons.prems k(2) by auto
  ultimately show ?case using Cons.prems(1) by (simp add: k(1) bb_at_def)
qed

lemma bchain_frame:
  "bchain H prev a ns \<Longrightarrow> x < a \<or> a + sum_list ns \<le> x \<Longrightarrow> x < 2 ^ 32 \<Longrightarrow> a + sum_list ns \<le> 2 ^ 32 \<Longrightarrow> bchain (H(of_nat x \<mapsto> b)) prev a ns"
proof (induction ns arbitrary: prev a)
  case (Cons n ns)
  have "of_nat a \<noteq> (of_nat x :: u32)" using of_nat_u32_eq [of a x] Cons.prems by auto
  then show ?case using Cons by auto
qed simp

text \<open>Linking a new block behind the last one.\<close>

lemma bchain_snoc:
  assumes "bchain H prev a ns" and "ns \<noteq> []" and "20 \<le> n" and "a + sum_list ns + n \<le> 2 ^ 32"
  shows "\<exists>b. H (of_nat (last_block a ns)) = Some b \<and>
    bchain (H(of_nat (a + sum_list ns) \<mapsto> \<lparr>bb_available = 0, bb_magic = BHEAP_MAGIC, bb_prev = of_nat (last_block a ns), bb_next = 0, bb_size = of_nat n\<rparr>,
      of_nat (last_block a ns) \<mapsto> b\<lparr>bb_next := of_nat (a + sum_list ns)\<rparr>)) prev a (ns @ [n])"
  using assms(1,2,4)
proof (induction ns arbitrary: prev a)
  case (Cons m ns)
  let ?e = "a + sum_list (m # ns)"
  let ?new = "\<lparr>bb_available = 0, bb_magic = BHEAP_MAGIC, bb_prev = of_nat (last_block a (m # ns)), bb_next = 0, bb_size = of_nat n\<rparr>"
  have m: "20 \<le> m" using Cons.prems(1) by simp
  show ?case
  proof (cases "ns = []")
    case True
    have "of_nat (a + m) \<noteq> (of_nat a :: u32)" using of_nat_u32_eq [of "a + m" a] Cons.prems(3) True m assms(3) by simp
    then show ?thesis using True Cons.prems(1) assms(3) by auto
  next
    case False
    have p: "bchain H (of_nat a) (a + m) ns" "a + m + sum_list ns + n \<le> 2 ^ 32" using Cons.prems by simp_all
    obtain b where b: "H (of_nat (last_block (a + m) ns)) = Some b"
      "bchain (H(of_nat (a + m + sum_list ns) \<mapsto> \<lparr>bb_available = 0, bb_magic = BHEAP_MAGIC, bb_prev = of_nat (last_block (a + m) ns), bb_next = 0, bb_size = of_nat n\<rparr>,
        of_nat (last_block (a + m) ns) \<mapsto> b\<lparr>bb_next := of_nat (a + m + sum_list ns)\<rparr>)) (of_nat a) (a + m) (ns @ [n])"
      using Cons.IH [OF p(1) False p(2)] by blast
    have "a + m \<le> last_block (a + m) ns" "last_block (a + m) ns \<le> a + m + sum_list ns" using last_block_bounds [OF False, of "a + m"] by simp_all
    then have "of_nat a \<noteq> (of_nat (last_block (a + m) ns) :: u32)" "of_nat a \<noteq> (of_nat (a + m + sum_list ns) :: u32)"
      using of_nat_u32_eq [of a "last_block (a + m) ns"] of_nat_u32_eq [of a "a + m + sum_list ns"] Cons.prems(3) m assms(3) by simp_all
    then show ?thesis using False b Cons.prems(1) by (intro exI [of _ b]) (simp add: add.assoc fun_upd_other del: of_nat_add fun_upd_apply)
  qed
qed simp

lemma unat_ptr_page:
  assumes "a < 2 ^ 31"
  shows "unat (ucast (drop_bit 12 (ptr64 (of_nat a))) :: u32) = a div 4096" and "unat (ucast (drop_bit 12 (ptr64 (of_nat a)) + 1) :: u32) = a div 4096 + 1"
    and "ptr64 (of_nat a) = of_nat a"
proof -
  have u: "unat (of_nat a :: u32) = a" using assms by (simp add: unat_of_nat take_bit_nat_eq_self)
  have nb: "\<not> bit (of_nat a :: u32) n" if "31 \<le> n" for n
  proof
    assume b: "bit (of_nat a :: u32) n"
    have "take_bit 31 (of_nat a :: u32) = of_nat a"
      using u assms by (simp add: word_unat_eq_iff unsigned_take_bit_eq take_bit_nat_eq_self)
    then show False using b that by (metis bit_take_bit_iff not_less)
  qed
  have "(scast (of_nat a :: u32) :: u64) = ucast (of_nat a :: u32)" using nb by (intro bit_word_eqI) (auto simp: bit_simps min_def)
  also have "\<dots> = of_nat a" using assms u by (simp add: word_unat_eq_iff unat_ucast_up unat_of_nat take_bit_nat_eq_self)
  finally show p: "ptr64 (of_nat a) = of_nat a" by (simp add: ptr64_def)
  have "unat (of_nat a :: u64) = a" using assms by (intro unat_of_nat_small) simp
  then have d: "unat (drop_bit 12 (ptr64 (of_nat a))) = a div 4096" unfolding p by (simp only: unat_drop_bit_eq) (simp add: drop_bit_eq_div)
  have lt: "a div 4096 < 2 ^ 19" using assms by simp
  then show "unat (ucast (drop_bit 12 (ptr64 (of_nat a))) :: u32) = a div 4096" using d by (simp add: unsigned_ucast_eq take_bit_nat_eq_self)
  have "unat (drop_bit 12 (ptr64 (of_nat a)) + 1) = a div 4096 + 1" using d lt by (subst unat_add_no_wrap) simp_all
  then show "unat (ucast (drop_bit 12 (ptr64 (of_nat a)) + 1) :: u32) = a div 4096 + 1" using lt by (simp add: unsigned_ucast_eq take_bit_nat_eq_self)
qed

lemma mark_range_ok:
  assumes "bmp_inv bmp" and "unat last_page < unat (bmp_size bmp)" and "unat last_page < 2 ^ 32 - 1" and "unat last_page + 1 - unat page < fuel"
  shows "\<exists>bmp'. mark_range fuel page last_page bmp = Inr bmp' \<and> bmp_inv bmp' \<and> bmp_size bmp' = bmp_size bmp \<and>
    bmp_used bmp' = bmp_used bmp \<union> {unat page..unat last_page}"
  using assms(1,2,4)
proof (induction fuel arbitrary: page bmp)
  case (Suc n)
  show ?case
  proof (cases "page \<le> last_page")
    case True
    then have le: "unat page \<le> unat last_page" by (simp add: word_le_nat_alt)
    have i: "unat (ucast page :: u64) < unat (bmp_size bmp)" using le Suc.prems(2) by (simp add: unat_ucast_up)
    obtain b where b: "bitmap_set bmp (ucast page) = Inr b" "bmp_inv b" "unat (bmp_size b) = unat (bmp_size bmp)" "bmp_used b = insert (unat page) (bmp_used bmp)"
      using bm.ins_used [OF Suc.prems(1) i] by (auto simp: unat_ucast_up)
    have sz: "bmp_size b = bmp_size bmp" using b(3) by (simp add: word_unat_eq_iff)
    have p1: "unat (page + 1) = unat page + 1" using le assms(3) by (simp add: unat_word_ariths)
    have "unat last_page < unat (bmp_size b)" "unat last_page + 1 - unat (page + 1) < n" using sz Suc.prems(2,3) p1 le by auto
    from Suc.IH [OF b(2) this] obtain b' where b': "mark_range n (page + 1) last_page b = Inr b'" "bmp_inv b'" "bmp_size b' = bmp_size b"
      "bmp_used b' = bmp_used b \<union> {unat (page + 1)..unat last_page}" by blast
    have "insert (unat page) {unat (page + 1)..unat last_page} = {unat page..unat last_page}" using le p1 by auto
    then show ?thesis using True b b' sz by auto
  next
    case False
    then show ?thesis using Suc.prems by (auto simp: word_le_nat_alt)
  qed
qed simp

lemma bchain_length: "bchain H prev a ns \<Longrightarrow> 20 * length ns \<le> sum_list ns"
  by (induction ns arbitrary: prev a) fastforce+

lemma bchain_last: "bchain H prev a ns \<Longrightarrow> ns \<noteq> [] \<Longrightarrow> last_block a ns + 20 \<le> a + sum_list ns"
  by (induction ns arbitrary: prev a) fastforce+

lemma last_block_zero: "heap_at + sum_list ns < 2 ^ 31 \<Longrightarrow> of_nat (last_block heap_at ns) = (0 :: u32) \<longleftrightarrow> ns = []"
  using last_block_bounds [of ns heap_at] of_nat_u32_eq [of "last_block heap_at ns" 0] by (cases "ns = []") (auto simp: heap_at_def)

text \<open>The pages that a growing heap marks.\<close>

definition grown_pages :: "nat \<Rightarrow> nat \<Rightarrow> nat set" where
  "grown_pages a b = {a div 4096..b div 4096 + 1}"

lemma boot_kbrk_ok:
  assumes "b_kheap_break s = of_nat a" and "a + n < 2 ^ 31"
    and "b_bitmap_set s \<Longrightarrow> bmp_inv (b_free_pages s) \<and> (a + n) div 4096 + 1 < unat (bmp_size (b_free_pages s))"
  shows "\<exists>bmp. boot_kbrk (of_nat n) s = Inr (of_nat a, s\<lparr>b_kheap_break := of_nat (a + n), b_free_pages := bmp\<rparr>) \<and>
    (if b_bitmap_set s then bmp_inv bmp \<and> bmp_size bmp = bmp_size (b_free_pages s) \<and> bmp_used bmp = bmp_used (b_free_pages s) \<union> grown_pages a (a + n)
     else bmp = b_free_pages s)"
proof (cases "b_bitmap_set s")
  case True
  have p: "unat (ucast (drop_bit 12 (ptr64 (of_nat a))) :: u32) = a div 4096"
    "unat (ucast (drop_bit 12 (ptr64 (of_nat (a + n))) + 1) :: u32) = (a + n) div 4096 + 1"
    using unat_ptr_page(1) [of a] unat_ptr_page(2) [of "a + n"] assms(2) by simp_all
  have lt: "(a + n) div 4096 < 2 ^ 19" using assms(2) by simp
  have "\<exists>bmp. mark_range address_fuel32 (ucast (drop_bit 12 (ptr64 (of_nat a)))) (ucast (drop_bit 12 (ptr64 (of_nat (a + n))) + 1)) (b_free_pages s) = Inr bmp \<and>
      bmp_inv bmp \<and> bmp_size bmp = bmp_size (b_free_pages s) \<and> bmp_used bmp = bmp_used (b_free_pages s) \<union> grown_pages a (a + n)"
    unfolding grown_pages_def p [symmetric] by (rule mark_range_ok) (use assms(3) True p lt in \<open>simp_all add: address_fuel32_def del: of_nat_add\<close>)
  then show ?thesis using True assms(1) by (auto simp: boot_kbrk_def Let_def simp flip: of_nat_add)
qed (use assms(1) in \<open>auto simp: boot_kbrk_def Let_def\<close>)

definition bm_frame :: "'a bmstate_scheme \<Rightarrow> 'a bmstate_scheme \<Rightarrow> bool" where
  "bm_frame s s' \<longleftrightarrow> b_phys s' = b_phys s \<and> b_bitmap_set s' = b_bitmap_set s \<and> b_objs s' = b_objs s \<and> b_regions s' = b_regions s \<and>
     b_phys_ram_size s' = b_phys_ram_size s"

text \<open>The pages in use after an allocation: the heap marks the pages it grows over as soon as there is a bitmap.\<close>

definition bm_marked :: "nat set \<Rightarrow> 'a bmstate_scheme \<Rightarrow> 'a bmstate_scheme \<Rightarrow> bool" where
  "bm_marked P s s' \<longleftrightarrow> (if b_bitmap_set s then bmp_inv (b_free_pages s') \<and> bmp_size (b_free_pages s') = bmp_size (b_free_pages s) \<and>
     bmp_used (b_free_pages s') = bmp_used (b_free_pages s) \<union> P else b_free_pages s' = b_free_pages s)"

lemma boot_kmalloc_ok:
  assumes "boot_heap ns s" and "a = heap_at + sum_list ns" and "a + 20 + n < 2 ^ 31"
    and "b_bitmap_set s \<Longrightarrow> bmp_inv (b_free_pages s) \<and> (a + 20 + n) div 4096 + 1 < unat (bmp_size (b_free_pages s))"
  obtains s' where "boot_kmalloc (of_nat n) s = Inr (of_nat (a + 20), s')" and "boot_heap (ns @ [20 + n]) s'" and "bm_frame s s'"
    and "bm_marked (grown_pages a (a + 20 + n)) s s'"
proof -
  have h: "bchain (b_hblocks s) 0 heap_at ns" "b_kheap_break s = of_nat a" "b_heap_start s = (if ns = [] then 0 else of_nat heap_at)"
    "b_heap_last s = of_nat (last_block heap_at ns)" using assms(1,2) by (simp_all add: boot_heap_def)
  have at: "0 < heap_at" "of_nat heap_at \<noteq> (0 :: u32)" by (simp_all add: heap_at_def)
  have len: "length ns < address_fuel32" using bchain_length [OF h(1)] assms(2,3) by (simp add: address_fuel32_def)
  have find: "boot_find address_fuel32 (b_heap_start s) (of_nat n) s = Inr 0"
    unfolding h(3) by (rule boot_find_full [OF h(1) at(1) _ len]) (use assms(2,3) in simp)
  have sz: "of_nat n + BHEADER_SIZE = of_nat (20 + n)" "BHEADER_SIZE + of_nat n = of_nat (20 + n)" by (simp_all add: BHEADER_SIZE_def)
  obtain bmp where kb: "boot_kbrk (of_nat (20 + n)) s = Inr (of_nat a, s\<lparr>b_kheap_break := of_nat (a + (20 + n)), b_free_pages := bmp\<rparr>)"
    "if b_bitmap_set s then bmp_inv bmp \<and> bmp_size bmp = bmp_size (b_free_pages s) \<and> bmp_used bmp = bmp_used (b_free_pages s) \<union> grown_pages a (a + (20 + n))
     else bmp = b_free_pages s"
    using boot_kbrk_ok [OF h(2), of "20 + n"] assms(3,4) by (auto simp: add.assoc)
  let ?s1 = "s\<lparr>b_kheap_break := of_nat (a + (20 + n)), b_free_pages := bmp\<rparr>"
  have ne: "of_nat a \<noteq> (- 1 :: u32)"
  proof
    assume "of_nat a = (- 1 :: u32)"
    then have "unat (of_nat a :: u32) = unat (- 1 :: u32)" by simp
    then show False using assms(3) by (simp add: unat_of_nat take_bit_nat_eq_self unsigned_minus_1_eq_mask mask_eq_exp_minus_1)
  qed
  have ret: "of_nat a + BHEADER_SIZE = of_nat (a + 20)" by (simp add: BHEADER_SIZE_def)
  let ?new = "\<lparr>bb_available = 0, bb_magic = BHEAP_MAGIC, bb_prev = of_nat (last_block heap_at ns), bb_next = 0, bb_size = of_nat (20 + n)\<rparr>"
  let ?s' = "\<lambda>H. ?s1\<lparr>b_hblocks := H, b_heap_last := of_nat a, b_heap_start := of_nat heap_at\<rparr>"
  have "\<exists>H. boot_kmalloc (of_nat n) s = Inr (of_nat (a + 20), ?s' H) \<and> bchain H 0 heap_at (ns @ [20 + n])"
  proof (cases "ns = []")
    case True
    then show ?thesis using h at kb(1) find ne ret sz assms(2)
      by (intro exI [of _ "(b_hblocks s)(of_nat a \<mapsto> ?new)"]) (simp add: boot_kmalloc_def Let_def del: of_nat_add)
  next
    case False
    obtain b where b: "b_hblocks s (of_nat (last_block heap_at ns)) = Some b"
      "bchain ((b_hblocks s)(of_nat a \<mapsto> ?new, of_nat (last_block heap_at ns) \<mapsto> b\<lparr>bb_next := of_nat a\<rparr>)) 0 heap_at (ns @ [20 + n])"
      using bchain_snoc [OF h(1) False, of "20 + n"] assms(2,3) by (auto simp del: of_nat_add)
    have "of_nat (last_block heap_at ns) \<noteq> (of_nat a :: u32)" "of_nat (last_block heap_at ns) \<noteq> (0 :: u32)"
      using bchain_last [OF h(1) False] last_block_zero [of ns] False assms(2,3)
        of_nat_u32_eq [of "last_block heap_at ns" a] by simp_all
    then show ?thesis using False h at kb(1) find ne ret sz b
      by (intro exI [of _ "(b_hblocks s)(of_nat a \<mapsto> ?new, of_nat (last_block heap_at ns) \<mapsto> b\<lparr>bb_next := of_nat a\<rparr>)"]) (auto simp: boot_kmalloc_def bb_upd_def bb_at_def Let_def simp del: of_nat_add)
  qed
  then obtain H where H: "boot_kmalloc (of_nat n) s = Inr (of_nat (a + 20), ?s' H)" "bchain H 0 heap_at (ns @ [20 + n])" by blast
  have "boot_heap (ns @ [20 + n]) (?s' H)"
    using H(2) assms(2,3) by (simp add: boot_heap_def last_block_snoc add.assoc del: of_nat_add)
  moreover have "bm_frame s (?s' H)" "bm_marked (grown_pages a (a + 20 + n)) s (?s' H)"
    using kb(2) by (simp_all add: bm_frame_def bm_marked_def add.assoc)
  ultimately show ?thesis using that H(1) by blast
qed

section \<open>The free pages\<close>

text \<open>The entries \<open>es\<close> lie one behind the other in memory, each with its own size and the size field in front.\<close>

fun mmap_at :: "(u32 \<Rightarrow> multiboot_mmape_t) \<Rightarrow> nat \<Rightarrow> multiboot_mmape_t list \<Rightarrow> nat \<Rightarrow> bool" where
  "mmap_at mm a [] e \<longleftrightarrow> a = e"
| "mmap_at mm a (x # xs) e \<longleftrightarrow> mm (of_nat a) = x \<and> mmap_at mm (a + unat (me_entry_size x) + 4) xs e"

lemma mmap_at_le: "mmap_at mm a xs e \<Longrightarrow> a + 4 * length xs \<le> e"
  by (induction xs arbitrary: a) fastforce+

definition region_of :: "multiboot_mmape_t \<Rightarrow> region_t" where
  "region_of e = \<lparr>rg_addr = me_base_addr e, rg_size = me_size e, rg_available = (me_type e = 1)\<rparr>"

definition zone_top :: "u64 \<Rightarrow> multiboot_mmape_t \<Rightarrow> u64" where
  "zone_top r e = (if me_type e = 1 \<and> me_base_addr e + me_size e > r then me_base_addr e + me_size e else r)"

lemma boot_heap_update [simp]: "boot_heap ns (s\<lparr>b_regions := x\<rparr>) = boot_heap ns s" "boot_heap ns (s\<lparr>b_phys_ram_size := y\<rparr>) = boot_heap ns s"
  "boot_heap ns (s\<lparr>b_bitmap_set := z, b_free_pages := w\<rparr>) = boot_heap ns s" "boot_heap ns (s\<lparr>b_objs := v\<rparr>) = boot_heap ns s"
  by (simp_all add: boot_heap_def)

lemma mmap_loop_ok:
  assumes "mmap_at mm a es e" and "e < 2 ^ 32" and "boot_heap ns s" and "\<not> b_bitmap_set s" and "heap_at + sum_list ns + 72 * length es < 2 ^ 31"
    and "length es < fuel"
  shows "\<exists>ns' s'. mmap_loop fuel mm (of_nat a) (of_nat e) s = Inr s' \<and> boot_heap ns' s' \<and> sum_list ns' = sum_list ns + 72 * length es \<and>
    \<not> b_bitmap_set s' \<and> b_phys s' = b_phys s \<and> b_objs s' = b_objs s \<and> b_regions s' = b_regions s @ map region_of es \<and>
    b_phys_ram_size s' = foldl zone_top (b_phys_ram_size s) es"
  using assms(1,3-6)
proof (induction es arbitrary: a ns s fuel)
  case Nil
  then show ?case by (cases fuel) auto
next
  case (Cons x es)
  then obtain k where k: "fuel = Suc k" "length es < k" by (cases fuel) auto
  let ?a = "a + unat (me_entry_size x) + 4"
  have le: "?a \<le> e" "mmap_at mm ?a es e" "mm (of_nat a) = x" using Cons.prems(1) mmap_at_le [of mm ?a es e] by simp_all
  have lt: "(of_nat a :: u32) < of_nat e" using le(1) assms(2) by (simp add: word_less_nat_alt unat_of_nat take_bit_nat_eq_self)
  have nxt: "of_nat a + me_entry_size x + 4 = (of_nat ?a :: u32)" by simp
  have room: "heap_at + sum_list ns + 20 + 20 < 2 ^ 31" using Cons.prems(4) by simp
  show ?case
  proof (rule boot_kmalloc_ok [OF Cons.prems(2) refl room], use Cons.prems(3) in simp, goal_cases)
    case (1 s1)
    note A = this
    have nb: "\<not> b_bitmap_set s1" using A(3) Cons.prems(3) by (simp add: bm_frame_def)
    have room2: "heap_at + sum_list (ns @ [20 + 20]) + 20 + 12 < 2 ^ 31" using Cons.prems(4) by simp
    show ?case
    proof (rule boot_kmalloc_ok [OF A(2) refl room2], use nb in simp, goal_cases)
      case (1 s2)
      note B = this
      define s3 where "s3 = s2\<lparr>b_regions := b_regions s2 @ [region_of x], b_phys_ram_size := zone_top (b_phys_ram_size s2) x\<rparr>"
      let ?ns = "(ns @ [20 + 20]) @ [20 + 12]"
      have "mmap_loop fuel mm (of_nat a) (of_nat e) s = mmap_loop k mm (of_nat ?a) (of_nat e) s3"
        using A(1) B(1) lt le(3) nxt by (simp add: k(1) Let_def s3_def region_of_def zone_top_def del: of_nat_add)
      moreover have "boot_heap ?ns s3" "\<not> b_bitmap_set s3" "heap_at + sum_list ?ns + 72 * length es < 2 ^ 31"
        using B(2,3) nb Cons.prems(4) by (simp_all add: s3_def bm_frame_def)
      ultimately show ?case
        using Cons.IH [OF le(2), of ?ns s3 k] k(2) A(3) B(3) by (auto simp: s3_def bm_frame_def add.assoc)
    qed
  qed
qed

definition inside :: "region_t \<Rightarrow> nat set" where
  "inside r = {p. unat (rg_addr r) \<le> 4096 * p \<and> 4096 * (p + 1) \<le> unat (rg_addr r) + unat (rg_size r)}"

lemma clear_range_ok:
  assumes "bmp_inv bmp" and "unat last_page < unat (bmp_size bmp)" and "unat last_page < 2 ^ 32 - 1" and "unat last_page + 1 - unat page < fuel"
  shows "\<exists>bmp'. clear_range fuel page last_page bmp = Inr bmp' \<and> bmp_inv bmp' \<and> bmp_size bmp' = bmp_size bmp \<and>
    bmp_used bmp' = bmp_used bmp - {unat page..unat last_page}"
  using assms(1,2,4)
proof (induction fuel arbitrary: page bmp)
  case (Suc n)
  show ?case
  proof (cases "page \<le> last_page")
    case True
    then have le: "unat page \<le> unat last_page" by (simp add: word_le_nat_alt)
    have i: "unat (ucast page :: u64) < unat (bmp_size bmp)" using le Suc.prems(2) by (simp add: unat_ucast_up)
    obtain b where b: "bitmap_clr bmp (ucast page) = Inr b" "bmp_inv b" "unat (bmp_size b) = unat (bmp_size bmp)" "bmp_used b = bmp_used bmp - {unat page}"
      using bm.del_used [OF Suc.prems(1) i] by (auto simp: unat_ucast_up)
    have sz: "bmp_size b = bmp_size bmp" using b(3) by (simp add: word_unat_eq_iff)
    have p1: "unat (page + 1) = unat page + 1" using le assms(3) by (simp add: unat_word_ariths)
    have "unat last_page < unat (bmp_size b)" "unat last_page + 1 - unat (page + 1) < n" using sz Suc.prems(2,3) p1 le by auto
    from Suc.IH [OF b(2) this] obtain b' where b': "clear_range n (page + 1) last_page b = Inr b'" "bmp_inv b'" "bmp_size b' = bmp_size b"
      "bmp_used b' = bmp_used b - {unat (page + 1)..unat last_page}" by blast
    have "insert (unat page) {unat (page + 1)..unat last_page} = {unat page..unat last_page}" using le p1 by auto
    then have "bmp_used b' = bmp_used bmp - {unat page..unat last_page}" unfolding b'(4) b(4) by blast
    then show ?thesis using True b(1) b' sz by simp
  next
    case False
    then show ?thesis using Suc.prems by (auto simp: word_le_nat_alt)
  qed
qed simp

lemma div_up_le: "(if a mod 4096 = 0 then a div 4096 else Suc (a div 4096)) \<le> p \<longleftrightarrow> a \<le> 4096 * p" for a p :: nat
proof (cases "a mod 4096 = 0")
  case True
  then obtain q where "a = 4096 * q" by (auto simp: mod_eq_0_iff_dvd elim: dvdE)
  then show ?thesis by simp
next
  case False
  then have "a \<noteq> 4096 * p" by auto
  moreover have "a div 4096 < p \<longleftrightarrow> a < 4096 * p" by (simp add: div_less_iff_less_mult mult.commute)
  ultimately show ?thesis using False by (simp add: Suc_le_eq) linarith
qed

lemma region_pages:
  fixes first_page last_page :: u32
  assumes "unat (rg_addr r) + unat (rg_size r) < 2 ^ 31" and "4096 \<le> unat (rg_addr r) + unat (rg_size r)"
    and "first_page = ucast (drop_bit 12 (rg_addr r)) + (if rg_addr r mod 4096 \<noteq> 0 then 1 else 0)" and "last_page = ucast (drop_bit 12 (rg_addr r + rg_size r)) - (1 :: u32)"
  shows "{unat first_page..unat last_page} = inside r" and "unat last_page + 1 = (unat (rg_addr r) + unat (rg_size r)) div 4096"
proof -
  let ?a = "unat (rg_addr r)" and ?e = "unat (rg_addr r) + unat (rg_size r)"
  have e: "unat (rg_addr r + rg_size r) = ?e" using assms(1) by (intro unat_add_no_wrap) simp
  have d: "unat (ucast (drop_bit 12 w) :: u32) = unat w div 4096" if "unat w < 2 ^ 31" for w :: u64
  proof -
    have "unat (drop_bit 12 w) = unat w div 4096" by (simp only: unat_drop_bit_eq) (simp add: drop_bit_eq_div)
    moreover have "unat w div 4096 < 2 ^ 32" using that by simp
    ultimately show ?thesis by (simp add: unsigned_ucast_eq take_bit_nat_eq_self)
  qed
  have m: "rg_addr r mod 4096 = 0 \<longleftrightarrow> ?a mod 4096 = 0" by (simp add: word_unat_eq_iff unat_mod_word)
  have "unat (ucast (drop_bit 12 (rg_addr r)) + 1 :: u32) = ?a div 4096 + 1" using d [of "rg_addr r"] assms(1) by (simp add: unat_word_ariths)
  then have f: "unat first_page = (if ?a mod 4096 = 0 then ?a div 4096 else Suc (?a div 4096))"
    using d [of "rg_addr r"] assms(1) unfolding assms(3) m by simp
  have "1 \<le> ?e div 4096" using assms(2) by simp
  moreover have u: "unat (ucast (drop_bit 12 (rg_addr r + rg_size r)) :: u32) = ?e div 4096" using d [of "rg_addr r + rg_size r"] e assms(1) by simp
  ultimately have "unat last_page = ?e div 4096 - 1" unfolding assms(4) by (subst unat_sub) (simp_all add: word_le_nat_alt)
  then show l: "unat last_page + 1 = ?e div 4096" using \<open>1 \<le> ?e div 4096\<close> by simp
  have "p \<le> unat last_page \<longleftrightarrow> 4096 * (p + 1) \<le> ?e" for p using l by (metis Suc_eq_plus1 Suc_le_mono less_eq_div_iff_mult_less_eq mult.commute zero_less_numeral)
  then show "{unat first_page..unat last_page} = inside r" using f div_up_le [of ?a] by (auto simp: inside_def)
qed

lemma free_regions_ok:
  assumes "\<forall>r\<in>set rs. rg_available r \<longrightarrow> 4096 \<le> unat (rg_addr r) + unat (rg_size r) \<and> unat (rg_addr r) + unat (rg_size r) < 2 ^ 31 \<and>
      (unat (rg_addr r) + unat (rg_size r)) div 4096 \<le> unat (bmp_size bmp)" and "bmp_inv bmp"
  shows "\<exists>bmp'. free_regions rs bmp = Inr bmp' \<and> bmp_inv bmp' \<and> bmp_size bmp' = bmp_size bmp \<and>
    bmp_used bmp' = bmp_used bmp - (\<Union>r \<in> {r \<in> set rs. rg_available r}. inside r)"
  using assms
proof (induction rs arbitrary: bmp)
  case (Cons r rs)
  show ?case
  proof (cases "rg_available r")
    case True
    define f where "f = ucast (drop_bit 12 (rg_addr r)) + (if rg_addr r mod 4096 \<noteq> 0 then 1 else (0 :: u32))"
    define l where "l = ucast (drop_bit 12 (rg_addr r + rg_size r)) - (1 :: u32)"
    have r: "4096 \<le> unat (rg_addr r) + unat (rg_size r)" "unat (rg_addr r) + unat (rg_size r) < 2 ^ 31"
      "(unat (rg_addr r) + unat (rg_size r)) div 4096 \<le> unat (bmp_size bmp)" using Cons.prems(1) True by auto
    note pages = region_pages [OF r(2,1) f_def l_def]
    have "(unat (rg_addr r) + unat (rg_size r)) div 4096 < 2 ^ 19 + 1" using r(2) by simp
    then have "unat l < 2 ^ 19" using pages(2) by linarith
    have "unat l + 1 - unat f < address_fuel32" "unat l < 2 ^ 32 - 1" "unat l < unat (bmp_size bmp)"
      using \<open>unat l < 2 ^ 19\<close> pages(2) r(3) by (simp_all add: address_fuel32_def)
    then obtain b where b: "clear_range address_fuel32 f l bmp = Inr b" "bmp_inv b" "bmp_size b = bmp_size bmp" "bmp_used b = bmp_used bmp - inside r"
      using clear_range_ok [OF Cons.prems(2), of l f address_fuel32] unfolding pages(1) by blast
    have step: "free_regions (r # rs) bmp = free_regions rs b" using True b(1) by (simp add: Let_def f_def l_def)
    obtain b' where b': "free_regions rs b = Inr b'" "bmp_inv b'" "bmp_size b' = bmp_size b"
      "bmp_used b' = bmp_used b - (\<Union>r \<in> {r \<in> set rs. rg_available r}. inside r)"
      using Cons.IH [of b] Cons.prems(1) b(2,3) by auto
    have "{x \<in> set (r # rs). rg_available x} = insert r {x \<in> set rs. rg_available x}" using True by auto
    then have "bmp_used b' = bmp_used bmp - (\<Union>x \<in> {x \<in> set (r # rs). rg_available x}. inside x)" unfolding b'(4) b(4) by auto
    then show ?thesis unfolding step using b' b(3) by auto
  next
    case False
    then have "{x \<in> set (r # rs). rg_available x} = {x \<in> set rs. rg_available x}" by auto
    then show ?thesis using False Cons.IH [of bmp] Cons.prems by simp
  qed
qed auto

lemma bitmap_init_used: "bmp_used (bitmap_init n 0xff) = {..<unat n}"
  using byte_full [of "_ mod 8"]
  by (auto simp: bmp_used_def bitmap_init_def bmp_bit_def unat_BITMAP_BYTE_SIZE nth_replicate)

definition zones_ok :: "multiboot_mmape_t list \<Rightarrow> bool" where
  "zones_ok es \<longleftrightarrow> (\<forall>e\<in>set es. me_type e = 1 \<longrightarrow> 4096 \<le> unat (me_base_addr e) + unat (me_size e) \<and>
     unat (me_base_addr e) + unat (me_size e) < 2 ^ 31)"

definition usable :: "multiboot_mmape_t list \<Rightarrow> nat set" where
  "usable es = (\<Union>e \<in> {e \<in> set es. me_type e = 1}. inside (region_of e))"

definition ram_pages :: "multiboot_mmape_t list \<Rightarrow> nat" where
  "ram_pages es = unat (foldl zone_top 0 es) div 4096"

lemma zone_top_unat:
  assumes "zones_ok [e]"
  shows "unat (zone_top r e) = (if me_type e = 1 then max (unat r) (unat (me_base_addr e) + unat (me_size e)) else unat r)"
proof -
  have "unat (me_base_addr e + me_size e) = unat (me_base_addr e) + unat (me_size e)" if "me_type e = 1"
    using assms that by (intro unat_add_no_wrap) (simp add: zones_ok_def)
  then show ?thesis by (auto simp: zone_top_def word_less_nat_alt max_def)
qed

lemma ram_top:
  "zones_ok es \<Longrightarrow> unat r < 2 ^ 31 \<Longrightarrow> unat r \<le> unat (foldl zone_top r es) \<and> unat (foldl zone_top r es) < 2 ^ 31 \<and>
    (\<forall>e\<in>set es. me_type e = 1 \<longrightarrow> unat (me_base_addr e) + unat (me_size e) \<le> unat (foldl zone_top r es))"
proof (induction es arbitrary: r)
  case (Cons e es)
  then have z: "zones_ok [e]" "zones_ok es" by (simp_all add: zones_ok_def)
  have u: "unat (zone_top r e) = (if me_type e = 1 then max (unat r) (unat (me_base_addr e) + unat (me_size e)) else unat r)"
    by (rule zone_top_unat [OF z(1)])
  moreover have "unat (zone_top r e) < 2 ^ 31" using u Cons.prems(2) z(1) by (simp add: zones_ok_def)
  ultimately show ?case using Cons.IH [OF z(2), of "zone_top r e"] by (auto split: if_splits)
qed simp

lemma ram_pages_bound: "zones_ok es \<Longrightarrow> ram_pages es < 2 ^ 19"
  using ram_top [of es 0] by (simp add: ram_pages_def) linarith

lemma usable_below: "zones_ok es \<Longrightarrow> usable es \<subseteq> {..<ram_pages es}"
proof
  fix p assume z: "zones_ok es" and "p \<in> usable es"
  then obtain e where "e \<in> set es" "me_type e = 1" "4096 * (p + 1) \<le> unat (me_base_addr e) + unat (me_size e)"
    by (auto simp: usable_def inside_def region_of_def)
  then have "4096 * (p + 1) \<le> unat (foldl zone_top 0 es)" using ram_top [OF z, of 0] by force
  then show "p \<in> {..<ram_pages es}" by (simp add: ram_pages_def Suc_le_eq flip: less_eq_div_iff_mult_less_eq)
qed

text \<open>The bitmap of the boot stage: free are the pages that lie completely inside one of the zones of usable memory.\<close>

lemma create_pagemap_ok:
  assumes "boot_heap ns s" and "\<not> b_bitmap_set s" and "b_regions s = map region_of es" and "b_phys_ram_size s = foldl zone_top 0 es"
    and "zones_ok es" and "heap_at + sum_list ns + 20 + (ram_pages es + 7) div 8 < 2 ^ 31"
  obtains p s' where "create_pagemap s = Inr (of_nat p, of_nat (ram_pages es), s')" and "b_bitmap_set s'" and "p = heap_at + sum_list ns + 20"
    and "boot_heap (ns @ [20 + (ram_pages es + 7) div 8]) s'" and "bmp_inv (b_free_pages s')" and "unat (bmp_size (b_free_pages s')) = ram_pages es"
    and "bmp_used (b_free_pages s') = {..<ram_pages es} - usable es" and "b_phys s' = b_phys s" and "b_objs s' = b_objs s"
proof -
  let ?n = "ram_pages es"
  have n: "?n < 2 ^ 19" by (rule ram_pages_bound [OF assms(5)])
  have "unat (drop_bit 12 (foldl zone_top 0 es)) = ?n" by (simp only: unat_drop_bit_eq) (simp add: drop_bit_eq_div ram_pages_def)
  then have t: "ucast (drop_bit 12 (foldl zone_top 0 es)) = (of_nat ?n :: u32)" "unat (of_nat ?n :: u32) = ?n"
    using n by (simp_all add: word_unat_eq_iff unsigned_ucast_eq unat_of_nat take_bit_nat_eq_self)
  then have c: "ucast (of_nat ?n :: u32) = (of_nat ?n :: u64)" "unat (of_nat ?n :: u64) = ?n"
    using n by (simp_all add: word_unat_eq_iff unat_ucast_up unat_of_nat take_bit_nat_eq_self)
  have b: "ucast (BITMAP_BYTE_SIZE (of_nat ?n)) = (of_nat ((?n + 7) div 8) :: u32)"
    using n c(2) by (simp add: word_unat_eq_iff unsigned_ucast_eq unat_BITMAP_BYTE_SIZE unat_of_nat take_bit_nat_eq_self)
  show ?thesis
  proof (rule boot_kmalloc_ok [OF assms(1) refl assms(6)], use assms(2) in simp, goal_cases)
    case (1 s1)
    let ?rs = "map region_of es" and ?bmp = "bitmap_init (of_nat ?n :: u64) 0xff"
    have sz: "unat (bmp_size ?bmp) = ?n" using c(2) by (simp add: bitmap_init_def)
    have "(unat (me_base_addr e) + unat (me_size e)) div 4096 \<le> ?n" if "e \<in> set es" "me_type e = 1" for e
      using ram_top [OF assms(5), of 0] that unfolding ram_pages_def by (intro div_le_mono) simp
    then have "\<forall>r\<in>set ?rs. rg_available r \<longrightarrow> 4096 \<le> unat (rg_addr r) + unat (rg_size r) \<and> unat (rg_addr r) + unat (rg_size r) < 2 ^ 31 \<and>
        (unat (rg_addr r) + unat (rg_size r)) div 4096 \<le> unat (bmp_size ?bmp)"
      using assms(5) unfolding sz by (auto simp: region_of_def zones_ok_def)
    from free_regions_ok [OF this bitmap_init_inv]
    obtain bmp where F: "free_regions ?rs ?bmp = Inr bmp" "bmp_inv bmp" "bmp_size bmp = bmp_size ?bmp"
      "bmp_used bmp = bmp_used ?bmp - (\<Union>r \<in> {r \<in> set ?rs. rg_available r}. inside r)" by blast
    have "(\<Union>r \<in> {r \<in> set ?rs. rg_available r}. inside r) = usable es" by (auto simp: usable_def region_of_def)
    then have us: "bmp_used bmp = {..<?n} - usable es" using F(4) c(2) by (simp add: bitmap_init_used)
    let ?p = "heap_at + sum_list ns + 20"
    have "?p < 2 ^ 31" using assms(6) by simp
    then have p: "of_nat ?p \<noteq> (0 :: u32)" "ptr64 (of_nat ?p) = of_nat ?p"
      using of_nat_u32_eq [of ?p 0] unat_ptr_page(3) [of ?p] by (simp_all add: heap_at_def)
    have "create_pagemap s = Inr (of_nat ?p, of_nat ?n, s1\<lparr>b_bitmap_set := True, b_free_pages := bmp\<rparr>)"
      using 1(1,3) F(1) t c b p assms(3,4) by (simp add: create_pagemap_def Let_def bm_frame_def del: of_nat_add)
    then show ?thesis using that [of ?p "s1\<lparr>b_bitmap_set := True, b_free_pages := bmp\<rparr>"] 1(2,3) F(2,3) sz us by (simp add: bm_frame_def)
  qed
qed

lemma mark_pages_used_ok:
  assumes "bmp_inv bmp" and "unat start_page + n \<le> unat (bmp_size bmp)" and "unat start_page + n < 2 ^ 32"
  shows "\<exists>bmp'. mark_pages_used n start_page bmp = Inr bmp' \<and> bmp_inv bmp' \<and> bmp_size bmp' = bmp_size bmp \<and>
    bmp_used bmp' = bmp_used bmp \<union> {unat start_page..<unat start_page + n}"
  using assms
proof (induction n arbitrary: start_page bmp)
  case (Suc n)
  have i: "unat (ucast start_page :: u64) < unat (bmp_size bmp)" using Suc.prems(2) by (simp add: unat_ucast_up)
  obtain b where b: "bitmap_set bmp (ucast start_page) = Inr b" "bmp_inv b" "unat (bmp_size b) = unat (bmp_size bmp)" "bmp_used b = insert (unat start_page) (bmp_used bmp)"
    using bm.ins_used [OF Suc.prems(1) i] by (auto simp: unat_ucast_up)
  have sz: "bmp_size b = bmp_size bmp" using b(3) by (simp add: word_unat_eq_iff)
  have p1: "unat (start_page + 1) = unat start_page + 1" using Suc.prems(3) by (simp add: unat_word_ariths)
  have "unat (start_page + 1) + n \<le> unat (bmp_size b)" "unat (start_page + 1) + n < 2 ^ 32" using sz p1 Suc.prems(2,3) by simp_all
  from Suc.IH [OF b(2) this] obtain b' where b': "mark_pages_used n (start_page + 1) b = Inr b'" "bmp_inv b'" "bmp_size b' = bmp_size b"
    "bmp_used b' = bmp_used b \<union> {unat (start_page + 1)..<unat (start_page + 1) + n}" by blast
  have "insert (unat start_page) {unat (start_page + 1)..<unat (start_page + 1) + n} = {unat start_page..<unat start_page + Suc n}" using p1 by auto
  then show ?case using b b' sz by auto
qed simp

text \<open>What must not be handed to the kernel as free memory: code and data of the boot stage, its stack, its heap and the kernel.\<close>

definition reserved :: "nat \<Rightarrow> nat \<Rightarrow> nat \<Rightarrow> nat \<Rightarrow> nat set" where
  "reserved boot_start boot_end heap_end kernel_size =
     {boot_start div 4096..boot_start div 4096 + (boot_end - boot_start) div 4096} \<union> {4088..<4096} \<union>
     {heap_at div 4096..heap_end div 4096} \<union> {4096..4096 + kernel_size div 4096}"

lemma unat_drop12: "unat (drop_bit 12 w) = unat w div 4096"
  by (simp only: unat_drop_bit_eq) (simp add: drop_bit_eq_div)

lemma alloc_boot32_pages_ok:
  assumes "boot_heap ns s" and "bmp_inv (b_free_pages s)" and "N = unat (bmp_size (b_free_pages s))" and "N \<le> 2 ^ 19"
    and "unat boot_start \<le> unat boot_end" and "unat boot_end < 2 ^ 31"
    and "reserved (unat boot_start) (unat boot_end) (heap_at + sum_list ns) (unat kernel_size) \<subseteq> {..<N}"
  obtains bi' s' where "alloc_boot32_pages boot_start boot_end kernel_size load_kernel bi s = Inr (bi', s')" and "bmp_inv (b_free_pages s')"
    and "bmp_size (b_free_pages s') = bmp_size (b_free_pages s)" and "b_objs s' = b_objs s"
    and "bmp_used (b_free_pages s') = bmp_used (b_free_pages s) \<union> reserved (unat boot_start) (unat boot_end) (heap_at + sum_list ns) (unat kernel_size)"
proof -
  define bs where "bs = unat boot_start"
  define be where "be = unat boot_end"
  have w: "boot_start = of_nat bs" "boot_end = of_nat be" "bs \<le> be" "be < 2 ^ 31" using assms(5,6) by (simp_all add: bs_def be_def)
  let ?he = "heap_at + sum_list ns" and ?ks = "unat kernel_size"
  have he: "b_kheap_break s = of_nat ?he" "?he < 2 ^ 31" using assms(1) by (simp_all add: boot_heap_def)
  have bnd: "bs div 4096 + (be - bs) div 4096 < N" "4096 + ?ks div 4096 < N" "?he div 4096 < N"
  proof -
    have "bs div 4096 + (be - bs) div 4096 \<in> reserved bs be ?he ?ks" "4096 + ?ks div 4096 \<in> reserved bs be ?he ?ks"
      "?he div 4096 \<in> reserved bs be ?he ?ks" by (simp_all add: reserved_def div_le_mono)
    then show "bs div 4096 + (be - bs) div 4096 < N" "4096 + ?ks div 4096 < N" "?he div 4096 < N" using assms(7) unfolding bs_def be_def by blast+
  qed
  have p: "ptr64 boot_start = of_nat bs" "ptr64 boot_end = of_nat be"
    using unat_ptr_page(3) [of bs] unat_ptr_page(3) [of be] w by simp_all
  have u: "unat (of_nat bs :: u64) = bs" "unat (of_nat be :: u64) = be" using w(3,4) by (simp_all add: unat_of_nat take_bit_nat_eq_self)
  have d: "unat (of_nat be - of_nat bs :: u64) = be - bs" using u w(3) by (subst unat_sub) (simp_all add: word_le_nat_alt)
  have "unat (drop_bit 12 (of_nat be - of_nat bs :: u64) + 1) = (be - bs) div 4096 + 1"
    using d bnd(1) assms(4) by (subst unat_add_no_wrap) (simp_all add: unat_drop12)
  then have c1: "unat (ucast (drop_bit 12 (of_nat be - of_nat bs :: u64) + 1) :: u32) = (be - bs) div 4096 + 1"
    using bnd(1) assms(4) by (simp add: unsigned_ucast_eq take_bit_nat_eq_self)
  have s1: "unat (ucast (drop_bit 12 (of_nat bs :: u64)) :: u32) = bs div 4096"
    using u(1) bnd(1) assms(4) by (simp add: unsigned_ucast_eq unat_drop12 take_bit_nat_eq_self)
  have s2: "drop_bit 12 BOOT32_STACK_LOC - BOOT32_STACK_PAGES = (4088 :: u32)" by (simp add: BOOT32_STACK_LOC_def BOOT32_STACK_PAGES_def)
  have s3: "ucast (drop_bit 12 (ptr64 EARLY_HEAP_START)) = (8192 :: u32)" by (simp add: ptr64_def EARLY_HEAP_START_def)
  have "unat (ucast (drop_bit 12 (ptr64 (of_nat ?he)) + 1) :: u32) = ?he div 4096 + 1" by (rule unat_ptr_page(2) [OF he(2)])
  moreover have h: "8192 \<le> ?he div 4096" by (simp add: heap_at_def)
  ultimately have c3: "unat (ucast (drop_bit 12 (ptr64 (of_nat ?he)) + 1) - 8192 :: u32) = ?he div 4096 + 1 - 8192"
    by (subst unat_sub) (simp_all add: word_le_nat_alt)
  have s4: "drop_bit 12 KERNEL_LOAD_ADDR = (4096 :: u32)" by (simp add: KERNEL_LOAD_ADDR_def)
  have "unat (4096 + (drop_bit 12 kernel_size + 1)) = 4096 + (?ks div 4096 + 1)"
    using bnd(2) assms(4) by (simp add: unat_word_ariths unat_drop12)
  then have c4: "unat (4096 + (drop_bit 12 kernel_size + 1)) - unat (4096 :: u32) = ?ks div 4096 + 1" by simp
  obtain b1 where b1: "mark_pages_used ((be - bs) div 4096 + 1) (ucast (drop_bit 12 (of_nat bs :: u64))) (b_free_pages s) = Inr b1" "bmp_inv b1"
    "bmp_size b1 = bmp_size (b_free_pages s)" "bmp_used b1 = bmp_used (b_free_pages s) \<union> {bs div 4096..<bs div 4096 + ((be - bs) div 4096 + 1)}"
    using mark_pages_used_ok [OF assms(2), of "ucast (drop_bit 12 (of_nat bs :: u64))" "(be - bs) div 4096 + 1"] s1 bnd(1) assms(3,4) by auto
  obtain b2 where b2: "mark_pages_used 8 4088 b1 = Inr b2" "bmp_inv b2" "bmp_size b2 = bmp_size b1" "bmp_used b2 = bmp_used b1 \<union> {4088..<4096}"
    using mark_pages_used_ok [OF b1(2), of 4088 8] b1(3) bnd(2) assms(3) by auto
  obtain b3 where b3: "mark_pages_used (?he div 4096 + 1 - 8192) 8192 b2 = Inr b3" "bmp_inv b3" "bmp_size b3 = bmp_size b2"
    "bmp_used b3 = bmp_used b2 \<union> {8192..<?he div 4096 + 1}"
    using mark_pages_used_ok [OF b2(2), of 8192 "?he div 4096 + 1 - 8192"] b1(3) b2(3) h bnd(3) assms(3,4) by auto
  obtain b4 where b4: "mark_pages_used (?ks div 4096 + 1) 4096 b3 = Inr b4" "bmp_inv b4" "bmp_size b4 = bmp_size b3"
    "bmp_used b4 = bmp_used b3 \<union> {4096..<4096 + (?ks div 4096 + 1)}"
    using mark_pages_used_ok [OF b3(2), of 4096 "?ks div 4096 + 1"] b1(3) b2(3) b3(3) bnd(2) assms(3,4) by auto
  have "\<exists>bi'. alloc_boot32_pages boot_start boot_end kernel_size load_kernel bi s = Inr (bi', s\<lparr>b_free_pages := b4, b_phys := load_kernel (b_phys s)\<rparr>)"
    using b1(1) b2(1) b3(1) b4(1) c1 c3 c4 unfolding alloc_boot32_pages_def Let_def p s2 s3 s4 he(1) by (simp add: BOOT32_STACK_PAGES_def)
  moreover have "bmp_used b4 = bmp_used (b_free_pages s) \<union> reserved bs be ?he ?ks"
    unfolding b4(4) b3(4) b2(4) b1(4) reserved_def by (auto simp: heap_at_def)
  ultimately show ?thesis using that [unfolded bs_def [symmetric] be_def [symmetric]] b1(3) b2(3) b3(3) b4(2,3) by auto
qed

text \<open>The ranges of pages that the kernel is told to release: the boot stage's code and data, its heap and its stack.\<close>

definition boot_ranges :: "nat \<Rightarrow> nat \<Rightarrow> nat \<Rightarrow> bootinfo_t \<Rightarrow> bool" where
  "boot_ranges bs be heap_end bi \<longleftrightarrow>
     unat (bi_boot32_start_page bi) = bs div 4096 \<and> unat (bi_boot32_page_count bi) = (be - bs) div 4096 + 1 \<and>
     unat (bi_heap_start_page bi) = 8192 \<and> unat (bi_heap_pages bi) = heap_end div 4096 + 1 - 8192 \<and>
     unat (bi_stack_start_page bi) = 4088 \<and> unat (bi_stack_pages bi) = 8"

lemma alloc_boot32_pages_ranges:
  assumes "alloc_boot32_pages boot_start boot_end kernel_size load_kernel bi s = Inr (bi', s')" and "b_kheap_break s = of_nat he" and "he < 2 ^ 31"
    and "heap_at \<le> he" and "unat boot_start \<le> unat boot_end" and "unat boot_end < 2 ^ 31"
  shows "boot_ranges (unat boot_start) (unat boot_end) he bi'"
proof -
  have p: "unat (ptr64 boot_start) = unat boot_start" "unat (ptr64 boot_end) = unat boot_end"
    using unat_ptr_page(3) [of "unat boot_start"] unat_ptr_page(3) [of "unat boot_end"] assms(5,6) by (simp_all add: unat_ucast_up)
  have "unat (ptr64 boot_end - ptr64 boot_start) = unat boot_end - unat boot_start" using p assms(5) by (subst unat_sub) (simp_all add: word_le_nat_alt)
  then have c: "unat (drop_bit 12 (ptr64 boot_end - ptr64 boot_start) + 1) = (unat boot_end - unat boot_start) div 4096 + 1"
    using assms(6) by (subst unat_add_no_wrap) (simp_all add: unat_drop12)
  have "unat (ucast (drop_bit 12 (ptr64 (of_nat he)) + 1) :: u32) = he div 4096 + 1" by (rule unat_ptr_page(2) [OF assms(3)])
  then have "unat (ucast (drop_bit 12 (ptr64 (of_nat he)) + 1) - 8192 :: u32) = he div 4096 + 1 - 8192"
    using assms(4) by (subst unat_sub) (simp_all add: word_le_nat_alt heap_at_def)
  then have "unat (ucast (ucast (drop_bit 12 (ptr64 (of_nat he)) + 1) - 8192 :: u32) :: u64) = he div 4096 + 1 - 8192" by (simp add: unat_ucast_up)
  moreover have "ucast (drop_bit 12 (ptr64 EARLY_HEAP_START)) = (8192 :: u32)" by (simp add: ptr64_def EARLY_HEAP_START_def)
  moreover have "drop_bit 12 BOOT32_STACK_LOC - BOOT32_STACK_PAGES = (4088 :: u32)" by (simp add: BOOT32_STACK_LOC_def BOOT32_STACK_PAGES_def)
  ultimately show ?thesis using assms(1,2) p(1) c
    by (auto simp: alloc_boot32_pages_def Let_def rbind_eq_Inr boot_ranges_def unat_drop12 BOOT32_STACK_PAGES_def)
qed

definition info_size :: "multiboot_t \<Rightarrow> nat" where
  "info_size mb = (if bit (mb_flags mb) 2 then 21 + length (mb_cmdline mb) else 0) +
     (if bit (mb_flags mb) 3 \<and> mb_mods_count mb > 0 then 20 + length (mb_initrd mb) else 0)"

text \<open>The copies of the command line and of the ramdisk, as the kernel will find them.\<close>

definition info_copied :: "multiboot_t \<Rightarrow> bootinfo_t \<Rightarrow> 'a bmstate_scheme \<Rightarrow> bool" where
  "info_copied mb bi s \<longleftrightarrow>
     (bit (mb_flags mb) 2 \<longrightarrow> (\<exists>p. bi_cmdline_ptr bi = ptr64 p + IDENT_OFFSET \<and> b_objs s p = Some (mb_cmdline mb @ [0]))) \<and>
     (bit (mb_flags mb) 3 \<and> mb_mods_count mb > 0 \<longrightarrow> (\<exists>p. bi_ramdisk_ptr bi = ptr64 p + IDENT_OFFSET \<and> b_objs s p = Some (mb_initrd mb) \<and>
        bi_ramdisk_size bi = of_nat (length (mb_initrd mb))))"

definition heap_grown :: "nat \<Rightarrow> 'a bmstate_scheme \<Rightarrow> 'a bmstate_scheme \<Rightarrow> bool" where
  "heap_grown e s s' \<longleftrightarrow> b_bitmap_set s' \<and> bmp_inv (b_free_pages s') \<and> bmp_size (b_free_pages s') = bmp_size (b_free_pages s) \<and>
     bmp_used (b_free_pages s) \<subseteq> bmp_used (b_free_pages s') \<and>
     bmp_used (b_free_pages s') \<subseteq> bmp_used (b_free_pages s) \<union> {heap_at div 4096..e div 4096 + 1}"

lemma heap_grown_trans: "heap_grown e s s' \<Longrightarrow> heap_grown e' s' s'' \<Longrightarrow> e \<le> e' \<Longrightarrow> heap_grown e' s s''"
proof -
  assume a: "heap_grown e s s'" "heap_grown e' s' s''" "e \<le> e'"
  have "{heap_at div 4096..e div 4096 + 1} \<subseteq> {heap_at div 4096..e' div 4096 + 1}" using div_le_mono [OF a(3), of 4096] by auto
  then show ?thesis using a(1,2) unfolding heap_grown_def by auto
qed

lemma boot_kmalloc_set:
  assumes "boot_heap ns s" and "b_bitmap_set s" and "bmp_inv (b_free_pages s)" and "e = heap_at + sum_list ns + 20 + n" and "e < 2 ^ 31"
    and "e div 4096 + 1 < unat (bmp_size (b_free_pages s))"
  obtains s' where "boot_kmalloc (of_nat n) s = Inr (of_nat (heap_at + sum_list ns + 20), s')" and "boot_heap (ns @ [20 + n]) s'" and "heap_grown e s s'" and "b_objs s' = b_objs s"
proof (rule boot_kmalloc_ok [OF assms(1) refl, of n], goal_cases)
  case (3 s')
  have "heap_at div 4096 \<le> (heap_at + sum_list ns) div 4096" by (rule div_le_mono) simp
  then have "heap_grown e s s'" using 3(4,5) assms(2,4) by (auto simp: heap_grown_def bm_marked_def bm_frame_def grown_pages_def)
  then show ?thesis using 3(1,2,3,4) by (simp add: bm_frame_def)
qed (use assms in auto)

lemma get_multiboot_info_ok:
  assumes "boot_heap ns s" and "b_bitmap_set s" and "bmp_inv (b_free_pages s)" and "e = heap_at + sum_list ns + info_size mb" and "e < 2 ^ 31"
    and "e div 4096 + 1 < unat (bmp_size (b_free_pages s))"
  shows "\<exists>ns' bi' s'. get_multiboot_info mb bi s = Inr (bi', s') \<and> boot_heap ns' s' \<and> heap_at + sum_list ns' = e \<and> heap_grown e s s' \<and> info_copied mb bi' s'"
proof -
  let ?n = "if bit (mb_flags mb) 2 then 21 + length (mb_cmdline mb) else 0"
  let ?first = "if bit (mb_flags mb) 2 then
      rbind (boot_kmalloc (of_nat (length (mb_cmdline mb)) + 1) s) (\<lambda>(cmdline, s).
      Inr (bi\<lparr>bi_cmdline_ptr := ptr64 cmdline + IDENT_OFFSET\<rparr>, s\<lparr>b_objs := (b_objs s)(cmdline \<mapsto> mb_cmdline mb @ [0])\<rparr>))
    else Inr (bi\<lparr>bi_cmdline_ptr := 0\<rparr>, s)"
  have "\<exists>ns1 bi1 s1. ?first = Inr (bi1, s1) \<and> boot_heap ns1 s1 \<and> sum_list ns1 = sum_list ns + ?n \<and> heap_grown e s s1 \<and>
      (bit (mb_flags mb) 2 \<longrightarrow> (\<exists>p. p < heap_at + sum_list ns1 \<and> bi_cmdline_ptr bi1 = ptr64 (of_nat p) + IDENT_OFFSET \<and> b_objs s1 (of_nat p) = Some (mb_cmdline mb @ [0])))"
  proof (cases "bit (mb_flags mb) 2")
    case True
    define e1 where "e1 = heap_at + sum_list ns + 20 + (length (mb_cmdline mb) + 1)"
    have e1: "e1 \<le> e" using True assms(4) by (simp add: info_size_def e1_def)
    then have r: "e1 < 2 ^ 31" "e1 div 4096 + 1 < unat (bmp_size (b_free_pages s))" using assms(5,6) div_le_mono [OF e1, of 4096] by simp_all
    obtain s1 where s1: "boot_kmalloc (of_nat (length (mb_cmdline mb) + 1)) s = Inr (of_nat (heap_at + sum_list ns + 20), s1)"
      "boot_heap (ns @ [20 + (length (mb_cmdline mb) + 1)]) s1" "heap_grown e1 s s1" "b_objs s1 = b_objs s"
      using boot_kmalloc_set [OF assms(1-3) e1_def r] by blast
    have g: "heap_grown e s (s1\<lparr>b_objs := x\<rparr>)" for x
      using s1(3) div_le_mono [OF e1, of 4096] by (force simp: heap_grown_def)
    show ?thesis using True s1 g
      by (intro exI [of _ "ns @ [20 + (length (mb_cmdline mb) + 1)]"]) (auto intro!: exI [of _ "heap_at + sum_list ns + 20"] simp: add.commute [of _ 1])
  next
    case False
    then show ?thesis using assms(1-3) by (auto simp: heap_grown_def)
  qed
  then obtain ns1 bi1 s1 where f: "?first = Inr (bi1, s1)" "boot_heap ns1 s1" "sum_list ns1 = sum_list ns + ?n" "heap_grown e s s1"
    "bit (mb_flags mb) 2 \<longrightarrow> (\<exists>p. p < heap_at + sum_list ns1 \<and> bi_cmdline_ptr bi1 = ptr64 (of_nat p) + IDENT_OFFSET \<and> b_objs s1 (of_nat p) = Some (mb_cmdline mb @ [0]))"
    by blast
  have g1: "b_bitmap_set s1" "bmp_inv (b_free_pages s1)" "bmp_size (b_free_pages s1) = bmp_size (b_free_pages s)" using f(4) by (simp_all add: heap_grown_def)
  show ?thesis
  proof (cases "bit (mb_flags mb) 3 \<and> mb_mods_count mb > 0")
    case True
    have e2: "e = heap_at + sum_list ns1 + 20 + length (mb_initrd mb)" using True assms(4) f(3) by (simp add: info_size_def)
    obtain s2 where s2: "boot_kmalloc (of_nat (length (mb_initrd mb))) s1 = Inr (of_nat (heap_at + sum_list ns1 + 20), s2)"
      "boot_heap (ns1 @ [20 + length (mb_initrd mb)]) s2" "heap_grown e s1 s2" "b_objs s2 = b_objs s1"
      using boot_kmalloc_set [OF f(2) g1(1,2) e2 assms(5)] assms(6) g1(3) by auto
    let ?q = "heap_at + sum_list ns1 + 20"
    let ?s3 = "s2\<lparr>b_objs := (b_objs s2)(of_nat ?q \<mapsto> mb_initrd mb)\<rparr>"
    let ?bi = "bi1\<lparr>bi_ramdisk_ptr := ptr64 (of_nat ?q) + IDENT_OFFSET, bi_ramdisk_size := of_nat (length (mb_initrd mb))\<rparr>"
    have "heap_grown e s ?s3" using heap_grown_trans [OF f(4) s2(3)] by (simp add: heap_grown_def)
    moreover have "of_nat p \<noteq> (of_nat ?q :: u32)" if "p < heap_at + sum_list ns1" for p
      using that of_nat_u32_eq [of p ?q] e2 assms(5) by simp
    then have "info_copied mb ?bi ?s3" using f(5) s2(4) unfolding info_copied_def by (auto simp del: of_nat_add)
    moreover have "get_multiboot_info mb bi s = Inr (?bi, ?s3)" using f(1) s2(1) True by (simp add: get_multiboot_info_def del: of_nat_add)
    moreover have "heap_at + sum_list (ns1 @ [20 + length (mb_initrd mb)]) = e" using e2 by simp
    ultimately show ?thesis using s2(2) by (intro exI [of _ "ns1 @ [20 + length (mb_initrd mb)]"]) auto
  next
    case False
    then have "get_multiboot_info mb bi s = Inr (bi1\<lparr>bi_ramdisk_ptr := 0, bi_ramdisk_size := 0\<rparr>, s1)" using f(1) by (auto simp: get_multiboot_info_def)
    moreover have "heap_at + sum_list ns1 = e" using False assms(4) f(3) by (auto simp: info_size_def)
    ultimately show ?thesis using f(2,4,5) False by (auto simp: info_copied_def)
  qed
qed

section \<open>The boot stage as a whole\<close>

text \<open>Building page tables only takes further pages.\<close>

definition boot_grows :: "'a bootstate_scheme \<Rightarrow> 'a bootstate_scheme \<Rightarrow> bool" where
  "boot_grows s s' \<longleftrightarrow> (boot_inv s \<longrightarrow> boot_inv s' \<and> boot_used s \<subseteq> boot_used s') \<and> bootstate.more s' = bootstate.more s"

lemma boot_grows_refl [simp]: "boot_grows s s" by (simp add: boot_grows_def)

lemma boot_grows_trans: "boot_grows s s' \<Longrightarrow> boot_grows s' s'' \<Longrightarrow> boot_grows s s''"
  by (auto simp: boot_grows_def)

lemma put_entry_grows [simp]: "boot_grows s (put_entry t i e s)"
  by (cases s) (simp add: boot_grows_def put_entry_def boot_inv_def boot_used_def)

lemma boot_alloc_grows:
  assumes "boot_alloc_page s = Inr (p, s')"
  shows "boot_grows s s'"
proof -
  obtain i b where i: "bitmap_find_free (b_free_pages s) = Inr i" "bitmap_set (b_free_pages s) i = Inr b"
    "s' = s\<lparr>b_free_pages := b, b_phys := (b_phys s)(frame_at (page_addr (ucast i)) := (\<lambda>_. 0))\<rparr>"
    using assms by (auto simp: boot_alloc_page_def rbind_eq_Inr)
  have "unat i < unat (bmp_size (b_free_pages s))"
    using i(2) by (auto simp: bitmap_set_def rbind_eq_Inr kassert_eq_Inr word_less_nat_alt split: if_splits)
  then show ?thesis using bm.ins_used [of "b_free_pages s" i] i(2,3)
    by (cases s) (auto simp: boot_grows_def boot_inv_def boot_used_def)
qed

lemma next_tables_grow:
  "next_ptbl (c, s) = Inr (c', s') \<Longrightarrow> boot_grows s s'" "next_pdir (c, s) = Inr (c', s') \<Longrightarrow> boot_grows s s'" "next_pdpt (c, s) = Inr (c', s') \<Longrightarrow> boot_grows s s'"
  by (auto simp: next_ptbl_def next_pdir_def next_pdpt_def rbind_eq_Inr Let_def split: if_splits intro: boot_grows_trans [OF boot_alloc_grows put_entry_grows])

lemma id_map_loop_grows: "id_map_loop n (c, s) = Inr (c', s') \<Longrightarrow> boot_grows s s'"
proof (induction n arbitrary: c s)
  case (Suc n)
  let ?s = "put_entry (c_ptbl c) (c_ptbli c) (boot_entry (push_bit 12 (c_phys c))) s"
  obtain c1 s1 c2 s2 c3 s3 where "next_ptbl (c\<lparr>c_phys := c_phys c + 1, c_ptbli := c_ptbli c + 1\<rparr>, ?s) = Inr (c1, s1)"
    "next_pdir (c1, s1) = Inr (c2, s2)" "next_pdpt (c2, s2) = Inr (c3, s3)" "id_map_loop n (c3, s3) = Inr (c', s')"
    using Suc.prems by (auto simp: rbind_eq_Inr Let_def)
  then have "boot_grows ?s s1" "boot_grows s1 s2" "boot_grows s2 s3" "boot_grows s3 s'" using next_tables_grow Suc.IH by blast+
  then show ?case using boot_grows_trans put_entry_grows by meson
qed simp

lemma paging_init_grows:
  assumes "paging_init n s = Inr (root, s')"
  shows "boot_grows s s'"
proof -
  obtain p s1 s2 s3 where a: "boot_alloc_page s = Inr (p, s1)" "boot_alloc_page s1 = Inr (root, s2)" "id_map root n s2 = Inr s3"
    "s' = put_entry (page_addr root) 256 (b_phys s3 (frame_at (page_addr root)) 0) s3"
    using assms by (auto simp: paging_init_def rbind_eq_Inr Let_def)
  obtain p1 t1 p2 t2 p3 t3 c t4 c' where b: "boot_alloc_page s2 = Inr (p1, t1)" "boot_alloc_page t1 = Inr (p2, t2)" "boot_alloc_page t2 = Inr (p3, t3)"
    "t4 = put_entry (page_addr p2) 0 (table_entry (page_addr p3)) (put_entry (page_addr p1) 0 (table_entry (page_addr p2))
      (put_entry (page_addr root) 0 (table_entry (page_addr p1)) t3))" "id_map_loop (unat n) (c, t4) = Inr (c', s3)"
    using a(3) by (auto simp: id_map_def rbind_eq_Inr Let_def)
  have t4: "boot_grows t3 t4" unfolding b(4) using boot_grows_trans put_entry_grows by meson
  have "boot_grows s s2" "boot_grows s2 t3" using a(1,2) b(1-3) boot_alloc_grows boot_grows_trans by meson+
  moreover have "boot_grows t3 s3" using t4 id_map_loop_grows [OF b(5)] by (rule boot_grows_trans)
  moreover have "boot_grows s3 s'" unfolding a(4) by simp
  ultimately show ?thesis using boot_grows_trans by meson
qed

definition boot_heap_end :: "multiboot_t \<Rightarrow> multiboot_mmape_t list \<Rightarrow> nat" where
  "boot_heap_end mb es = heap_at + 72 * length es + 20 + (ram_pages es + 7) div 8 + info_size mb"

text \<open>
  The state when the boot loader jumps into the boot stage, and what the machine has to have: memory zones that end between 4 KiB
  and 2 GiB, at most 1 GiB of memory, everything the boot stage uses inside of it, and enough free pages for the page tables.
\<close>

definition boot_start_ok :: "(u32 \<Rightarrow> multiboot_mmape_t) \<Rightarrow> multiboot_t \<Rightarrow> multiboot_mmape_t list \<Rightarrow> 'a bmstate_scheme \<Rightarrow> bool" where
  "boot_start_ok mm mb es s \<longleftrightarrow> boot_heap [] s \<and> \<not> b_bitmap_set s \<and> b_phys_ram_size s = 0 \<and>
     mmap_at mm (unat (mb_mmap mb)) es (unat (mb_mmap mb) + unat (mb_mmap_length mb)) \<and> unat (mb_mmap mb) + unat (mb_mmap_length mb) < 2 ^ 32"

definition machine_ok :: "multiboot_t \<Rightarrow> multiboot_mmape_t list \<Rightarrow> u32 \<Rightarrow> u32 \<Rightarrow> u32 \<Rightarrow> bool" where
  "machine_ok mb es boot_start boot_end kernel_size \<longleftrightarrow> zones_ok es \<and> ram_pages es \<le> 262144 \<and> unat boot_start \<le> unat boot_end \<and> unat boot_end < 2 ^ 31 \<and>
     boot_heap_end mb es div 4096 + 1 < ram_pages es \<and>
     reserved (unat boot_start) (unat boot_end) (boot_heap_end mb es) (unat kernel_size) \<subseteq> {..<ram_pages es} \<and>
     card (({..<ram_pages es} - usable es) \<union> reserved (unat boot_start) (unat boot_end) (boot_heap_end mb es) (unat kernel_size) \<union> {boot_heap_end mb es div 4096 + 1}) +
       ram_pages es div 512 + 14 \<le> ram_pages es"

lemma boot_memory_ok:
  assumes "boot_start_ok mm mb es s" and "machine_ok mb es boot_start boot_end kernel_size"
  obtains s1 ba s2 bi3 s3 bi4 s4 where "create_mmap mm (mb_mmap mb) (mb_mmap_length mb) s = Inr (foldl zone_top 0 es, s1)"
    and "create_pagemap s1 = Inr (ba, of_nat (ram_pages es), s2)" and "get_multiboot_info mb bi s2 = Inr (bi3, s3)"
    and "alloc_boot32_pages boot_start boot_end kernel_size load_kernel bi3 s3 = Inr (bi4, s4)" and "boot_inv s4" and "unat (bmp_size (b_free_pages s4)) = ram_pages es"
    and "boot_used s4 \<subseteq> ({..<ram_pages es} - usable es) \<union> reserved (unat boot_start) (unat boot_end) (boot_heap_end mb es) (unat kernel_size) \<union> {boot_heap_end mb es div 4096 + 1}"
    and "({..<ram_pages es} - usable es) \<union> reserved (unat boot_start) (unat boot_end) (boot_heap_end mb es) (unat kernel_size) \<subseteq> boot_used s4"
    and "info_copied mb bi4 s4" and "boot_ranges (unat boot_start) (unat boot_end) (boot_heap_end mb es) bi4"
proof -
  let ?N = "ram_pages es" and ?e = "boot_heap_end mb es" and ?R = "reserved (unat boot_start) (unat boot_end) (boot_heap_end mb es) (unat kernel_size)"
  have st: "boot_heap [] s" "\<not> b_bitmap_set s" "b_phys_ram_size s = 0" "mmap_at mm (unat (mb_mmap mb)) es (unat (mb_mmap mb) + unat (mb_mmap_length mb))"
    "unat (mb_mmap mb) + unat (mb_mmap_length mb) < 2 ^ 32" using assms(1) by (simp_all add: boot_start_ok_def)
  have mc: "zones_ok es" "?N \<le> 262144" "unat boot_start \<le> unat boot_end" "unat boot_end < 2 ^ 31" "?e div 4096 + 1 < ?N" "?R \<subseteq> {..<?N}"
    using assms(2) by (simp_all add: machine_ok_def)
  have e: "?e < 2 ^ 31" using mc(2,5) by (simp add: div_less_iff_less_mult)
  have "length es < address_fuel32" using mmap_at_le [OF st(4)] st(5) by (simp add: address_fuel32_def)
  then obtain ns1 s1 where m: "mmap_loop address_fuel32 mm (of_nat (unat (mb_mmap mb))) (of_nat (unat (mb_mmap mb) + unat (mb_mmap_length mb))) (s\<lparr>b_regions := []\<rparr>) = Inr s1"
    "boot_heap ns1 s1" "sum_list ns1 = 72 * length es" "\<not> b_bitmap_set s1" "b_regions s1 = map region_of es" "b_phys_ram_size s1 = foldl zone_top 0 es"
    using mmap_loop_ok [OF st(4,5), of "[]" "s\<lparr>b_regions := []\<rparr>" address_fuel32] st(1-3) e by (auto simp: boot_heap_end_def)
  have c1: "create_mmap mm (mb_mmap mb) (mb_mmap_length mb) s = Inr (foldl zone_top 0 es, s1)"
    using m(1,6) by (simp add: create_mmap_def)
  have r: "heap_at + sum_list ns1 + 20 + (?N + 7) div 8 < 2 ^ 31" using m(3) e by (simp add: boot_heap_end_def)
  show ?thesis
  proof (rule create_pagemap_ok [OF m(2,4,5,6) mc(1) r], goal_cases)
    case (1 p s2)
    let ?ns2 = "ns1 @ [20 + (?N + 7) div 8]"
    have e2: "?e = heap_at + sum_list ?ns2 + info_size mb" using m(3) by (simp add: boot_heap_end_def)
    have "?e div 4096 + 1 < unat (bmp_size (b_free_pages s2))" using 1(6) mc(5) by simp
    from get_multiboot_info_ok [OF 1(4,2,5) e2 e this, of bi]
    obtain ns3 bi3 s3 where i: "get_multiboot_info mb bi s2 = Inr (bi3, s3)" "boot_heap ns3 s3" "heap_at + sum_list ns3 = ?e" "heap_grown ?e s2 s3" "info_copied mb bi3 s3"
      by blast
    have g: "bmp_inv (b_free_pages s3)" "unat (bmp_size (b_free_pages s3)) = ?N" using i(4) 1(6) by (simp_all add: heap_grown_def)
    have "?N \<le> 2 ^ 19" using mc(2) by simp
    from alloc_boot32_pages_ok [OF i(2) g(1) g(2) [symmetric] this mc(3,4), of kernel_size load_kernel bi3] mc(6)
    obtain bi4 s4 where a: "alloc_boot32_pages boot_start boot_end kernel_size load_kernel bi3 s3 = Inr (bi4, s4)" "bmp_inv (b_free_pages s4)"
      "bmp_size (b_free_pages s4) = bmp_size (b_free_pages s3)" "b_objs s4 = b_objs s3" "bmp_used (b_free_pages s4) = bmp_used (b_free_pages s3) \<union> ?R"
      unfolding i(3) by blast
    have "bi_cmdline_ptr bi4 = bi_cmdline_ptr bi3" "bi_ramdisk_ptr bi4 = bi_ramdisk_ptr bi3" "bi_ramdisk_size bi4 = bi_ramdisk_size bi3"
      using a(1) by (auto simp: alloc_boot32_pages_def Let_def rbind_eq_Inr)
    then have ic: "info_copied mb bi4 s4" using i(5) a(4) by (simp add: info_copied_def)
    have "{heap_at div 4096..?e div 4096 + 1} \<subseteq> ?R \<union> {?e div 4096 + 1}" by (auto simp: reserved_def)
    then have u1: "boot_used s4 \<subseteq> ({..<?N} - usable es) \<union> ?R \<union> {?e div 4096 + 1}"
      using a(5) i(4) 1(7) unfolding heap_grown_def boot_used_def by blast
    have u2: "({..<?N} - usable es) \<union> ?R \<subseteq> boot_used s4" using a(5) i(4) 1(7) unfolding heap_grown_def boot_used_def by blast
    have "boot_inv s4" using a(2,3) g(2) mc(2) by (simp add: boot_inv_def)
    moreover have "b_kheap_break s3 = of_nat ?e" "heap_at \<le> ?e" using i(2) unfolding i(3) [symmetric] by (simp_all add: boot_heap_def)
    from alloc_boot32_pages_ranges [OF a(1) this(1) e this(2) mc(3,4)] have "boot_ranges (unat boot_start) (unat boot_end) ?e bi4" .
    ultimately show ?thesis using that [OF c1 1(1) i(1) a(1) _ _ u1 u2 ic] a(3) g(2) by simp
  qed
qed

lemma boot32_main_ok:
  assumes "boot_start_ok mm mb es s" and "machine_ok mb es boot_start boot_end kernel_size"
  shows "\<exists>bi' s'. boot32_main boot_start boot_end kernel_size load_kernel mm mb bi s = Inr (bi', s') \<and> unat (bi_total_pages bi') = ram_pages es \<and>
    (\<forall>p < ram_pages es. p \<notin> boot_used s' \<longrightarrow> p \<in> usable es \<and>
      p \<notin> reserved (unat boot_start) (unat boot_end) (boot_heap_end mb es) (unat kernel_size)) \<and> info_copied mb bi' s' \<and>
    boot_ranges (unat boot_start) (unat boot_end) (boot_heap_end mb es) bi' \<and> boot_inv s' \<and>
    reserved (unat boot_start) (unat boot_end) (boot_heap_end mb es) (unat kernel_size) \<subseteq> boot_used s' \<and>
    (\<forall>v < 2 ^ 27. \<forall>virt \<in> {of_nat v, of_nat v + drop_bit 12 IDENT_OFFSET}.
      boot_mapping s' (ucast (bi_pml4_ppn bi')) virt = (if v < ram_pages es then Some (of_nat v, True, False) else None))"
proof -
  let ?N = "ram_pages es" and ?U = "({..<ram_pages es} - usable es) \<union> reserved (unat boot_start) (unat boot_end) (boot_heap_end mb es) (unat kernel_size)"
  have mc: "?N \<le> 262144" "card (?U \<union> {boot_heap_end mb es div 4096 + 1}) + ?N div 512 + 14 \<le> ?N" using assms(2) by (simp_all add: machine_ok_def)
  show ?thesis
  proof (rule boot_memory_ok [OF assms, of bi load_kernel], goal_cases)
    case (1 s1 ba s2 bi3 s3 bi4 s4)
    let ?n = "ucast (drop_bit 12 (foldl zone_top 0 es)) :: u32"
    have n: "unat ?n = ?N" using mc(1) by (simp add: unsigned_ucast_eq unat_drop12 take_bit_nat_eq_self ram_pages_def)
    have "finite (?U \<union> {boot_heap_end mb es div 4096 + 1})" by (simp add: reserved_def)
    then have "card (boot_used s4) \<le> card (?U \<union> {boot_heap_end mb es div 4096 + 1})" using 1(7) by (intro card_mono)
    then have "boot_room (unat ?n div 512 + 14) s4" using mc(2) 1(6) n by (simp add: boot_room_def)
    moreover have "unat ?n \<le> 262144" using n mc(1) by simp
    ultimately obtain root s5 where p: "paging_init ?n s4 = Inr (root, s5)"
      "\<forall>v < 2 ^ 27. \<forall>virt \<in> {of_nat v, of_nat v + drop_bit 12 IDENT_OFFSET}.
        boot_mapping s5 root virt = (if v < unat ?n then Some (of_nat v, True, False) else None)"
      using paging_init_maps [OF 1(5)] by blast
    have g: "boot_used s4 \<subseteq> boot_used s5" "b_objs s5 = b_objs s4" "boot_inv s5"
      using paging_init_grows [OF p(1)] 1(5) by (simp_all add: boot_grows_def) (cases s4; cases s5; simp add: bmstate.defs)
    let ?bi = "bi4\<lparr>bi_free_pages_ptr := ba + IDENT_OFFSET, bi_total_pages := of_nat ?N, bi_pml4_ppn := ucast root\<rparr>"
    have "boot32_main boot_start boot_end kernel_size load_kernel mm mb bi s = Inr (?bi, s5)" using 1(1-4) p(1) by (simp add: boot32_main_def)
    moreover have "unat (of_nat ?N :: u64) = ?N" using mc(1) by (intro unat_of_nat_small) simp
    moreover have "info_copied mb ?bi s5" using 1(9) g(2) by (simp add: info_copied_def)
    moreover have "boot_ranges (unat boot_start) (unat boot_end) (boot_heap_end mb es) ?bi" using 1(10) by (simp add: boot_ranges_def)
    moreover have "ucast (ucast root :: u64) = root" by (rule bit_word_eqI) (simp add: bit_simps)
    ultimately show ?case using p(2) g(1,3) 1(8) unfolding n by (intro exI [of _ ?bi] exI [of _ s5]) auto
  qed
qed


definition small_zone :: multiboot_mmape_t where
  "small_zone = \<lparr>me_entry_size = 20, me_base_addr = 0, me_size = 0x4000000, me_type = 1\<rparr>"

definition small_multiboot :: multiboot_t where
  "small_multiboot = \<lparr>mb_flags = 4, mb_cmdline = [97, 61, 98], mb_mods_count = 0, mb_initrd = [], mb_mmap_length = 24, mb_mmap = 0x1000\<rparr>"

definition small_boot :: bmstate where
  "small_boot = \<lparr>b_free_pages = \<lparr>bmp_size = 0, bmp_bytes = []\<rparr>, b_phys = (\<lambda>_ _. 7), b_bitmap_set = False, b_kheap_break = 0x02000000, b_heap_start = 0,
     b_heap_last = 0, b_hblocks = Map.empty, b_objs = Map.empty, b_regions = [], b_phys_ram_size = 0\<rparr>"

lemma small_boot_pages: "ram_pages [small_zone] = 16384" "usable [small_zone] = {..<16384}" "boot_heap_end small_multiboot [small_zone] = 0x02000000 + 2164"
proof -
  show p: "ram_pages [small_zone] = 16384" by (simp add: ram_pages_def zone_top_def small_zone_def)
  show "usable [small_zone] = {..<16384}" by (auto simp: usable_def inside_def region_of_def small_zone_def)
  show "boot_heap_end small_multiboot [small_zone] = 0x02000000 + 2164"
    by (simp add: boot_heap_end_def p heap_at_def info_size_def small_multiboot_def)
qed

lemma small_boot_ok:
  "boot_start_ok (\<lambda>_. small_zone) small_multiboot [small_zone] small_boot" "machine_ok small_multiboot [small_zone] 0x100000 0x110000 0x8000"
proof -
  show "boot_start_ok (\<lambda>_. small_zone) small_multiboot [small_zone] small_boot"
    by (simp add: boot_start_ok_def small_boot_def boot_heap_def heap_at_def small_multiboot_def small_zone_def)
  have z: "zones_ok [small_zone]" by (simp add: zones_ok_def small_zone_def)
  have "reserved 0x100000 0x110000 (0x02000000 + 2164) 0x8000 = {256..272} \<union> {4088..<4096} \<union> {8192..8192} \<union> {4096..4104}"
    by (simp add: reserved_def heap_at_def)
  then have r: "reserved 0x100000 0x110000 (0x02000000 + 2164) 0x8000 \<subseteq> {256..272} \<union> {4088..8192}" by auto
  have "card (({..<16384} - {..<16384}) \<union> reserved 0x100000 0x110000 (0x02000000 + 2164) 0x8000 \<union> {8193 :: nat}) \<le> card ({256..272} \<union> {4088..8193 :: nat})"
    using r by (intro card_mono) auto
  also have "\<dots> \<le> 17 + 4106" by (rule order_trans [OF card_Un_le]) simp
  finally show "machine_ok small_multiboot [small_zone] 0x100000 0x110000 0x8000"
    using r z by (auto simp: machine_ok_def small_boot_pages)
qed


definition no_info :: bootinfo_t where
  "no_info = \<lparr>bi_free_pages_ptr = 0, bi_total_pages = 0, bi_boot32_start_page = 0, bi_boot32_page_count = 0, bi_heap_start_page = 0, bi_kernel_addr = 0,
     bi_heap_pages = 0, bi_kernel_size = 0, bi_stack_start_page = 0, bi_stack_pages = 0, bi_pml4_ppn = 0, bi_cmdline_ptr = 0, bi_ramdisk_ptr = 0, bi_ramdisk_size = 0\<rparr>"

end
