(* ===== verification/Startup.thy ===== *)
theory Startup
  imports Ata Boot_Memory
begin

text \<open>
  Starting the kernel: \<^verbatim>\<open>amd64_main\<close> of \<^verbatim>\<open>x86_64/main.c\<close> takes over what the boot stage has left in memory, \<^verbatim>\<open>kmain\<close> of
  \<^verbatim>\<open>init/main.c\<close> starts the scheduler with the first task, and this task initialises the drivers and the file system and starts the first program.

  \<open>boot_mem\<close> is the memory that the boot stage has filled: the bitmap of free pages, the command line and the ramdisk, by address. The BSS segment is
  cleared in the state that \<open>amd64_main\<close> starts from; \<open>idtr\<close> is what \<^verbatim>\<open>lidt\<close> loads. The addresses of functions and of static structures and the contents of uninitialised memory are
  arguments, collected in \<open>start_env\<close>. The configured drivers besides the disk driver have nothing to initialise.
\<close>

record start_env =
  se_fs :: fs_memory
  se_bops :: f_ops_t
  se_ext2fs :: u64
  se_ops :: f_ops_t
  se_loader :: "u64 \<Rightarrow> loader_t"
  se_proc :: "u64 \<Rightarrow> proc_t"
  se_vspace :: "u64 \<Rightarrow> vspace_t"
  se_task :: "u64 \<Rightarrow> task_t"
  se_context :: "u64 \<Rightarrow> context_t"
  se_rd_lock :: "u64 \<Rightarrow> mutex_t"
  se_rd_name :: "u64 \<Rightarrow> string"
  se_param :: "u64 \<Rightarrow> nat \<Rightarrow> u8"
  se_pci_dev :: "u64 \<Rightarrow> pci_dev_t"
  se_ide :: "u64 \<Rightarrow> pci_ide_dev_t"
  se_ktask_runtime :: u64
  se_cleanup_func :: u64
  se_idle_func :: u64
  se_init_func :: u64
  se_ata_drv :: u64
  se_ata_irq :: u64
  se_ata_pci :: u64
  se_gdt_address :: u64
  se_tss_address :: u64
  se_idt_address :: u64
  se_irq :: "nat \<Rightarrow> u64"
  se_irq_syscall :: u64

record 'w sstate = "'w astate" +
  stack_start_page :: u64
  stack_page_count :: u64
  s_initrd :: u64
  s_initrd_size :: u64
  s_gdt :: "u64 list"
  s_gdt_descriptor :: gdt_t
  s_tss :: tss_t
  g_idt :: "irq_descriptor_t list"
  idtr :: idt_selector_t

section \<open>Taking over from the boot stage\<close>

type_synonym boot_mem = "u64 \<rightharpoonup> byte list"

definition boot_bytes :: "boot_mem \<Rightarrow> u64 \<Rightarrow> byte list result" where
  "boot_bytes m p = (case m p of None \<Rightarrow> Inl (Mem_Fault ''boot_info'') | Some bs \<Rightarrow> Inr bs)"

text \<open>The command line is a string with its terminator. The value is the string without it.\<close>

definition copy_cmdline :: "boot_mem \<Rightarrow> bootinfo_t \<Rightarrow> 'a hstate_scheme \<Rightarrow> (u8 list \<times> 'a hstate_scheme) result" where
  "copy_cmdline m boot_info s =
     rbind (boot_bytes m (bi_cmdline_ptr boot_info)) (\<lambda>obj.
     if 0 \<notin> set obj then Inl (Mem_Fault ''cmdline'')
     else
       let cmdline = takeWhile (\<lambda>b. b \<noteq> 0) obj in
       rbind (kmalloc (of_nat (length cmdline) + 1) 46 0 s) (\<lambda>(p, s).
       if p = NULL then Inl (Mem_Fault ''strcpy'') else Inr (cmdline, s)))"

text \<open>The bitmap in the memory of the boot stage is the one in use so far.\<close>

definition copy_page_bitmap :: "bootinfo_t \<Rightarrow> 'a hstate_scheme \<Rightarrow> 'a hstate_scheme result" where
  "copy_page_bitmap boot_info s =
     (let bitmap_size = BITMAP_BYTE_SIZE (bi_total_pages boot_info) in
      rbind (kmalloc bitmap_size 53 0 s) (\<lambda>(new_bitmap, s).
      if new_bitmap = NULL then Inl (Mem_Fault ''memcpy'')
      else if length (bmp_bytes (free_pages s)) < unat bitmap_size then Inl (Mem_Fault ''memcpy'')
      else Inr (setup_page_bitmap (take (unat bitmap_size) (bmp_bytes (free_pages s))) (bi_total_pages boot_info) s)))"

definition copy_initrd :: "boot_mem \<Rightarrow> bootinfo_t \<Rightarrow> 'a bstate_scheme \<Rightarrow> (u64 \<times> 'a bstate_scheme) result" where
  "copy_initrd m boot_info s =
     (if bi_ramdisk_ptr boot_info = 0 then Inr (NULL, s)
      else
        rbind (kmalloc (bi_ramdisk_size boot_info) 64 0 s) (\<lambda>(initrd, s).
        rbind (boot_bytes m (bi_ramdisk_ptr boot_info)) (\<lambda>obj.
        if initrd = NULL \<or> length obj < unat (bi_ramdisk_size boot_info) then Inl (Mem_Fault ''memcpy'')
        else Inr (initrd, s\<lparr>ram := (ram s)(initrd \<mapsto> take (unat (bi_ramdisk_size boot_info)) obj)\<rparr>))))"

text \<open>\<^verbatim>\<open>while (count--) free_page(start++);\<close>\<close>

fun release_pages :: "nat \<Rightarrow> u64 \<Rightarrow> 'a pgstate_scheme \<Rightarrow> 'a pgstate_scheme result" where
  "release_pages 0 start s = Inr s"
| "release_pages (Suc count) start s = rbind (free_page start s) (release_pages count (start + 1))"

definition delete_init_stack :: "('w, 'a) sstate_scheme \<Rightarrow> ('w, 'a) sstate_scheme result" where
  "delete_init_stack s = release_pages (unat (stack_page_count s)) (stack_start_page s) s"

section \<open>The first task\<close>

definition init_mknod ::
  "start_env \<Rightarrow> string \<Rightarrow> ftype_t \<Rightarrow> fmode_t \<Rightarrow> u64 \<Rightarrow> u64 \<Rightarrow> ('w, 'a) sstate_scheme \<Rightarrow> (int \<times> ('w, 'a) sstate_scheme) result" where
  "init_mknod e = vfs_mknod (se_fs e) NULL"

definition platform_init_drivers :: "('w, 'x) dma_ports_scheme \<Rightarrow> start_env \<Rightarrow> ('w, 'a) sstate_scheme \<Rightarrow> ('w, 'a) sstate_scheme result" where
  "platform_init_drivers io e s =
     pc_ata_init io (se_ide e) (m_bytes (se_fs e)) (init_mknod e) (se_ata_drv e) (se_ata_irq e) (se_ata_pci e) s"

definition init_drivers :: "('w, 'x) dma_ports_scheme \<Rightarrow> start_env \<Rightarrow> ('w, 'a) sstate_scheme \<Rightarrow> ('w, 'a) sstate_scheme result" where
  "init_drivers io e s =
     rbind (ramdisk_init s) (\<lambda>s.
     rbind (if s_initrd s \<noteq> NULL then
              rbind (ramdisk_install (se_rd_lock e) (se_rd_name e) (m_bytes (se_fs e)) (init_mknod e) (s_initrd s) (s_initrd_size s) s) (\<lambda>(_, s). Inr s)
            else Inr s) (\<lambda>s.
     rbind (pci_init io (se_pci_dev e) s) (platform_init_drivers io e)))"

text \<open>The value of a parameter of the command line; a null pointer is read by the functions it is passed to.\<close>

definition cmdline_string :: "u64 \<Rightarrow> 'a cstate_scheme \<Rightarrow> string result" where
  "cmdline_string p s =
     (if p = NULL then Inl (Mem_Fault ''cmdline_get'') else rbind (param_value s p) (\<lambda>bs. Inr (map (\<lambda>b. char_of (unat b)) bs)))"

definition init_task_func :: "('w, 'x) dma_ports_scheme \<Rightarrow> start_env \<Rightarrow> ('w, 'a) sstate_scheme \<Rightarrow> ('w, 'a) sstate_scheme result" where
  "init_task_func io e s =
     rbind (delete_init_stack s) (\<lambda>s.
     rbind (irq_kernel_init s) (\<lambda>s.
     rbind (blockdev_init s) (\<lambda>s.
     rbind (init_drivers io e s) (\<lambda>s.
     rbind (cmdline_get (bytes ''rootfs'') s) (\<lambda>p.
     rbind (cmdline_string p s) (\<lambda>rootfs.
     rbind (vfs_init (se_fs e) (se_bops e) (se_ext2fs e) (se_ops e) rootfs s) (\<lambda>s.
     rbind (cmdline_get (bytes ''init'') s) (\<lambda>init_program.
     rbind (kpanic (init_program \<noteq> NULL) ''cmdline: no 'init' parameter given'') (\<lambda>_.
     rbind (cmdline_string init_program s) (\<lambda>program.
     rbind (proc_start (se_fs e) (se_bops e) (se_loader e) (se_proc e) (se_vspace e) (se_task e) (se_context e) program s) (\<lambda>(status, s).
     rbind (kpanic (\<not> status < 0) ''kernel startup failed'') (\<lambda>_. Inr s))))))))))))"

text \<open>\<open>ctx\<close> is where the switch to the first task saves the context of the start-up code; the value is the context that runs next.\<close>

definition kmain :: "start_env \<Rightarrow> u8 list \<Rightarrow> u64 \<Rightarrow> u64 \<Rightarrow> u64 \<Rightarrow> ('w, 'a) sstate_scheme \<Rightarrow> (u64 \<times> ('w, 'a) sstate_scheme) result" where
  "kmain e cmdline initrd initrd_size ctx s =
     rbind (cmdline_parse (se_param e) cmdline s) (\<lambda>s.
     let s = s\<lparr>s_initrd := initrd, s_initrd_size := initrd_size\<rparr> in
     rbind (sched_init (se_task e) (se_context e) (se_ktask_runtime e) (se_cleanup_func e) (se_idle_func e) s) (\<lambda>s.
     rbind (create_kernel_task (se_task e) (se_context e) (se_ktask_runtime e) (se_init_func e) s) (\<lambda>(init_task, s).
     rbind (sched_insert init_task s) (sched_enable ctx))))"

section \<open>The start of the kernel\<close>

definition start_gdt :: "start_env \<Rightarrow> ('w, 'a) sstate_scheme \<Rightarrow> ('w, 'a) sstate_scheme" where
  "start_gdt e s =
     (let (gdt, descriptor, tss) = setup_gdt (se_gdt_address e) (se_tss_address e) (s_gdt s) (s_tss s) in
      s\<lparr>s_gdt := gdt, s_gdt_descriptor := descriptor, s_tss := tss\<rparr>)"

definition start_irq :: "start_env \<Rightarrow> ('w, 'a) sstate_scheme \<Rightarrow> ('w, 'a) sstate_scheme result" where
  "start_irq e s =
     rbind (x86_irq_init (se_irq e) (se_irq_syscall e) (se_idt_address e) (g_idt s)) (\<lambda>(outs, idt, selector).
     Inr (s\<lparr>port_output := port_output s @ outs, g_idt := idt, idtr := selector\<rparr>))"

definition amd64_main :: "start_env \<Rightarrow> boot_mem \<Rightarrow> bootinfo_t \<Rightarrow> u64 \<Rightarrow> ('w, 'a) sstate_scheme \<Rightarrow> (u64 \<times> ('w, 'a) sstate_scheme) result" where
  "amd64_main e m boot_info ctx s =
     (let s = start_gdt e s in
     rbind (boot_bytes m (bi_free_pages_ptr boot_info)) (\<lambda>bitmap.
     rbind (vspace_setup (bi_pml4_ppn boot_info) (setup_page_bitmap bitmap (bi_total_pages boot_info) s)) (\<lambda>s.
     rbind (copy_cmdline m boot_info s) (\<lambda>(cmdline, s).
     rbind (copy_page_bitmap boot_info s) (\<lambda>s.
     rbind (copy_initrd m boot_info s) (\<lambda>(initrd, s).
     let s = s\<lparr>stack_start_page := bi_stack_start_page boot_info, stack_page_count := bi_stack_pages boot_info\<rparr> in
     rbind (release_pages (unat (bi_boot32_page_count boot_info)) (bi_boot32_start_page boot_info) s) (\<lambda>s.
     rbind (release_pages (unat (bi_heap_pages boot_info)) (bi_heap_start_page boot_info) s) (\<lambda>s.
     rbind (start_irq e s)
       (kmain e cmdline initrd (bi_ramdisk_size boot_info) ctx)))))))))"

section \<open>Releasing the memory of the boot stage\<close>

text \<open>Releasing a range of used pages frees exactly these; a page that is free already stops the kernel.\<close>

lemma release_pages_ok:
  assumes "pg_inv s" and "{unat start..<unat start + n} \<subseteq> pg_used s" and "unat start + n \<le> 2 ^ 64"
  shows "\<exists>bmp. release_pages n start s = Inr (s\<lparr>free_pages := bmp\<rparr>) \<and> bmp_inv bmp \<and> bmp_size bmp = bmp_size (free_pages s) \<and>
    bmp_used bmp = pg_used s - {unat start..<unat start + n}"
  using assms
proof (induction n arbitrary: start s)
  case 0
  have "s\<lparr>free_pages := free_pages s\<rparr> = s" by simp
  then show ?case using 0 by (intro exI [of _ "free_pages s"]) (simp add: pg_inv_def pg_used_def)
next
  case (Suc n)
  have "unat start \<in> pg_used s" using Suc.prems(2) by auto
  from free_page_used [OF Suc.prems(1) this] obtain bmp where
    b: "free_page start s = Inr (s\<lparr>free_pages := bmp\<rparr>)" "bmp_inv bmp" "bmp_size bmp = bmp_size (free_pages s)" "bmp_used bmp = pg_used s - {unat start}" by blast
  let ?s = "s\<lparr>free_pages := bmp\<rparr>"
  have i: "pg_inv ?s" "pg_used ?s = pg_used s - {unat start}" using Suc.prems(1) b by (simp_all add: pg_inv_def pg_used_def)
  show ?case
  proof (cases n)
    case 0
    then show ?thesis using b by auto
  next
    case (Suc k)
    then have u: "unat (start + 1) = Suc (unat start)" using Suc.prems(3) by (simp add: unat_word_ariths)
    have "{unat (start + 1)..<unat (start + 1) + n} \<subseteq> pg_used ?s" using Suc.prems(2) unfolding u i(2) by auto
    moreover have "unat (start + 1) + n \<le> 2 ^ 64" using Suc.prems(3) unfolding u by simp
    ultimately obtain bmp' where b': "release_pages n (start + 1) ?s = Inr (?s\<lparr>free_pages := bmp'\<rparr>)" "bmp_inv bmp'" "bmp_size bmp' = bmp_size bmp"
      "bmp_used bmp' = pg_used ?s - {unat (start + 1)..<unat (start + 1) + n}" using Suc.IH [OF i(1), of "start + 1"] by auto
    have "{unat start..<unat start + Suc n} = insert (unat start) {unat (start + 1)..<unat (start + 1) + n}" unfolding u by auto
    then show ?thesis using b b' i(2) by (intro exI [of _ bmp']) auto
  qed
qed

text \<open>A page that is free already stops the kernel, even when others follow.\<close>

lemma release_pages_free:
  assumes "pg_inv s" and "unat start \<notin> pg_used s"
  shows "\<exists>msg. release_pages (Suc n) start s = Inl (Panic msg)"
  using free_page_unused [OF assms] by auto

text \<open>The start-up of the kernel goes on only when the first program has been started.\<close>

lemma init_task_starts_program:
  assumes "init_task_func io e s = Inr s'"
  shows "\<exists>t p program status. cmdline_get (bytes ''init'') t = Inr p \<and> p \<noteq> NULL \<and> cmdline_string p t = Inr program \<and> 0 \<le> status \<and>
    proc_start (se_fs e) (se_bops e) (se_loader e) (se_proc e) (se_vspace e) (se_task e) (se_context e) program t = Inr (status, s')"
  using assms by (auto simp: init_task_func_def result_simps not_less)

section \<open>The hand-over from the boot stage\<close>

text \<open>The pages that hold code and data, the heap and the stack of the boot stage.\<close>

definition boot_pages :: "nat \<Rightarrow> nat \<Rightarrow> nat \<Rightarrow> nat set" where
  "boot_pages bs be heap_end = {bs div 4096..bs div 4096 + (be - bs) div 4096} \<union> {heap_at div 4096..heap_end div 4096} \<union> {4088..<4096}"

lemma release_range:
  assumes "pg_inv s" and "unat start = a" and "unat count = n" and "{a..<a + n} \<subseteq> pg_used s" and "a + n \<le> 2 ^ 64"
  obtains s' where "release_pages (unat count) start s = Inr s'" and "pg_inv s'" and "pg_used s' = pg_used s - {a..<a + n}"
proof -
  from release_pages_ok [OF assms(1), of start n] assms obtain bmp where
    b: "release_pages n start s = Inr (s\<lparr>free_pages := bmp\<rparr>)" "bmp_inv bmp" "bmp_used bmp = pg_used s - {a..<a + n}" by auto
  show ?thesis using that [of "s\<lparr>free_pages := bmp\<rparr>"] b assms(1,3) by (simp add: pg_inv_def pg_used_def)
qed

text \<open>
  C31: the memory of the boot stage goes back to the kernel. On a machine on which the boot stage ends below its stack, the boot stage succeeds, and in
  every later state of the page allocator in which no page that the boot stage marked as used has been released, the three ranges it passes on are
  released without a panic: no page among them is free already and none is released twice. Exactly the pages of the boot stage become free.
\<close>

theorem boot_pages_released:
  assumes "boot_start_ok mm mb es s" and "machine_ok mb es boot_start boot_end kernel_size" and "unat boot_end < 0xff7000"
  shows "\<exists>bi s'. boot32_main boot_start boot_end kernel_size load_kernel mm mb bi0 s = Inr (bi, s') \<and>
    (\<forall>k. pg_inv k \<longrightarrow> boot_used s' \<subseteq> pg_used k \<longrightarrow>
      (\<exists>k1 k2 k3. release_pages (unat (bi_boot32_page_count bi)) (bi_boot32_start_page bi) k = Inr k1 \<and>
        release_pages (unat (bi_heap_pages bi)) (bi_heap_start_page bi) k1 = Inr k2 \<and>
        release_pages (unat (bi_stack_pages bi)) (bi_stack_start_page bi) k2 = Inr k3 \<and> pg_inv k3 \<and>
        pg_used k3 = pg_used k - boot_pages (unat boot_start) (unat boot_end) (boot_heap_end mb es)))"
proof -
  let ?bs = "unat boot_start" and ?be = "unat boot_end" and ?he = "boot_heap_end mb es"
  have mc: "?bs \<le> ?be" "?he div 4096 < 2 ^ 18" "?he \<ge> heap_at" using assms(2) by (auto simp: machine_ok_def boot_heap_end_def)
  obtain bi s' where b: "boot32_main boot_start boot_end kernel_size load_kernel mm mb bi0 s = Inr (bi, s')" "boot_ranges ?bs ?be ?he bi"
    "reserved ?bs ?be ?he (unat kernel_size) \<subseteq> boot_used s'" using boot32_main_ok [OF assms(1,2), of load_kernel bi0] by blast
  let ?A = "{?bs div 4096..<?bs div 4096 + ((?be - ?bs) div 4096 + 1)}" and ?B = "{8192..<8192 + (?he div 4096 + 1 - 8192)}" and ?C = "{4088..<4088 + 8 :: nat}"
  have h: "8192 \<le> ?he div 4096" using mc(3) by (simp add: heap_at_def)
  have sub: "?A \<union> ?B \<union> ?C \<subseteq> boot_used s'" using b(3) h by (auto simp: reserved_def heap_at_def)
  have "?bs div 4096 + (?be - ?bs) div 4096 \<le> (?bs + (?be - ?bs)) div 4096" by (simp only: div_add1_eq [of ?bs "?be - ?bs" 4096])
  then have a: "?bs div 4096 + (?be - ?bs) div 4096 + 1 \<le> 4088" using mc(1) assms(3) by simp
  have r: "unat (bi_boot32_start_page bi) = ?bs div 4096" "unat (bi_boot32_page_count bi) = (?be - ?bs) div 4096 + 1" "unat (bi_heap_start_page bi) = 8192"
    "unat (bi_heap_pages bi) = ?he div 4096 + 1 - 8192" "unat (bi_stack_start_page bi) = 4088" "unat (bi_stack_pages bi) = 8"
    using b(2) unfolding boot_ranges_def by blast+
  have bound: "?bs div 4096 + ((?be - ?bs) div 4096 + 1) \<le> 2 ^ 64" "8192 + (?he div 4096 + 1 - 8192) \<le> 2 ^ 64" using a mc(2) by simp_all
  have "\<exists>k1 k2 k3. release_pages (unat (bi_boot32_page_count bi)) (bi_boot32_start_page bi) k = Inr k1 \<and>
        release_pages (unat (bi_heap_pages bi)) (bi_heap_start_page bi) k1 = Inr k2 \<and>
        release_pages (unat (bi_stack_pages bi)) (bi_stack_start_page bi) k2 = Inr k3 \<and> pg_inv k3 \<and> pg_used k3 = pg_used k - boot_pages ?bs ?be ?he"
    if k: "pg_inv k" "boot_used s' \<subseteq> pg_used k" for k
  proof -
    have u: "?A \<subseteq> pg_used k" "?B \<subseteq> pg_used k - ?A" "?C \<subseteq> pg_used k - ?A - ?B" using sub k(2) a by auto
    obtain k1 where k1: "release_pages (unat (bi_boot32_page_count bi)) (bi_boot32_start_page bi) k = Inr k1" "pg_inv k1" "pg_used k1 = pg_used k - ?A"
      by (rule release_range [OF k(1) r(1,2) u(1) bound(1)])
    obtain k2 where k2: "release_pages (unat (bi_heap_pages bi)) (bi_heap_start_page bi) k1 = Inr k2" "pg_inv k2" "pg_used k2 = pg_used k1 - ?B"
      by (rule release_range [OF k1(2) r(3,4) u(2) [folded k1(3)] bound(2)])
    obtain k3 where k3: "release_pages (unat (bi_stack_pages bi)) (bi_stack_start_page bi) k2 = Inr k3" "pg_inv k3" "pg_used k3 = pg_used k2 - ?C"
      by (rule release_range [OF k2(2) r(5,6) u(3) [folded k1(3), folded k2(3)]]) simp
    have "boot_pages ?bs ?be ?he = ?A \<union> ?B \<union> ?C" using h by (auto simp: boot_pages_def heap_at_def)
    then have "pg_used k3 = pg_used k - boot_pages ?bs ?be ?he" unfolding k3(3) k2(3) k1(3) by (simp only: Diff_Un Un_assoc set_diff_eq Un_iff de_Morgan_disj) blast
    then show ?thesis using k1(1) k2(1) k3(1,2) by (intro exI [of _ k1] exI [of _ k2] exI [of _ k3] conjI)
  qed
  then show ?thesis using b(1) by blast
qed

text \<open>A kernel that has every page of 2 GiB in use.\<close>

definition full_kernel :: pgstate where
  "full_kernel = small_machine\<lparr>free_pages := \<lparr>bmp_size = 524288, bmp_bytes = replicate 65536 255\<rparr>\<rparr>"

lemma full_kernel_used: "pg_inv full_kernel" "pg_used full_kernel = {..<524288}"
proof -
  have "(255 :: u8) = mask 8" by (simp add: mask_eq_exp_minus_1)
  then have "bit (255 :: u8) n" if "n < 8" for n using that by (simp only: bit_mask_iff) simp
  then have b: "bmp_bit (free_pages full_kernel) k" if "k < 524288" for k
    using that by (simp add: bmp_bit_def full_kernel_def)
  then show "pg_used full_kernel = {..<524288}" by (auto simp: pg_used_def bmp_used_def full_kernel_def)
  have "unat (BITMAP_BYTE_SIZE 524288) = 65536" by (simp add: BITMAP_BYTE_SIZE_def)
  then show "pg_inv full_kernel" by (simp add: pg_inv_def bmp_inv_def bmp_wf_def bmp_padded_def full_kernel_def small_machine_def)
qed

theorem boot_pages_released_witness:
  "\<exists>bi s' k1 k2 k3. boot32_main 0x100000 0x110000 0x8000 (\<lambda>ph. ph) (\<lambda>_. small_zone) small_multiboot no_info small_boot = Inr (bi, s') \<and>
    release_pages (unat (bi_boot32_page_count bi)) (bi_boot32_start_page bi) full_kernel = Inr k1 \<and>
    release_pages (unat (bi_heap_pages bi)) (bi_heap_start_page bi) k1 = Inr k2 \<and>
    release_pages (unat (bi_stack_pages bi)) (bi_stack_start_page bi) k2 = Inr k3 \<and> pg_used k3 = {..<524288} - ({256..272} \<union> {8192} \<union> {4088..<4096})"
proof -
  have p: "boot_pages (unat (0x100000 :: u32)) (unat (0x110000 :: u32)) (boot_heap_end small_multiboot [small_zone]) = {256..272} \<union> {8192} \<union> {4088..<4096}"
    by (simp add: boot_pages_def small_boot_pages heap_at_def)
  have "unat (0x110000 :: u32) < 0xff7000" by simp
  from boot_pages_released [OF small_boot_ok this, of "\<lambda>ph. ph" no_info, unfolded p]
  obtain bi s' where b: "boot32_main 0x100000 0x110000 0x8000 (\<lambda>ph. ph) (\<lambda>_. small_zone) small_multiboot no_info small_boot = Inr (bi, s')"
    "\<forall>k :: pgstate. pg_inv k \<longrightarrow> boot_used s' \<subseteq> pg_used k \<longrightarrow>
      (\<exists>k1 k2 k3. release_pages (unat (bi_boot32_page_count bi)) (bi_boot32_start_page bi) k = Inr k1 \<and>
        release_pages (unat (bi_heap_pages bi)) (bi_heap_start_page bi) k1 = Inr k2 \<and>
        release_pages (unat (bi_stack_pages bi)) (bi_stack_start_page bi) k2 = Inr k3 \<and> pg_inv k3 \<and>
        pg_used k3 = pg_used k - ({256..272} \<union> {8192} \<union> {4088..<4096}))" by blast
  have "boot_inv s'" using boot32_main_ok [OF small_boot_ok, of "\<lambda>ph. ph" no_info] b(1) by auto
  then have "boot_used s' \<subseteq> {..<524288}" by (auto simp: boot_used_def boot_inv_def bmp_used_def)
  then show ?thesis using b(1) b(2) [rule_format, OF full_kernel_used(1)] unfolding full_kernel_used(2) by blast
qed

end
