(* ===== verification/Spec2Isabelle.thy ===== *)
theory Spec2Isabelle
  imports Linked_List Mutex_Interleaving Boot_Gdt Startup
begin

text \<open>
  A verification development of the UlmerOS kernel: the C code of the 64 bit kernel, of the 32 bit stage that boots it and of the library
  they share, in the x86\_64 configuration with \<^verbatim>\<open>DEBUG\<close> defined, in which \<^verbatim>\<open>assert\<close> is \<^verbatim>\<open>kpanic\<close>. File names below are
  relative to \<^verbatim>\<open>kernel/\<close>; \<^verbatim>\<open>x86_64/\<close> and \<^verbatim>\<open>boot32/\<close> are directories of \<^verbatim>\<open>arch/x86_64/\<close>, and other names
  without a top directory belong to \<^verbatim>\<open>kernel/kernel/\<close>.

  \<^bold>\<open>The program.\<close> The boot stage finds the usable memory, builds a bitmap of free page frames and page tables, copies command line and ramdisk and
  jumps into the kernel. The kernel allocates frames from the bitmap, maps them into address spaces and runs a heap in its own one. On the
  heap live the lists, processes, tasks, files and devices. The scheduler switches between tasks on every interrupt; a page fault of a process is
  resolved by loading a page of its stacks, its heap or its program; a system call goes through a table. Files come from an ext2 file
  system on a block device, which is the ramdisk, a partition or a disk behind the ATA driver, which the PCI bus finds.

  \<^bold>\<open>How it is modelled.\<close> A routine is a function from a state to a \<open>result\<close>: a value with the new state, or a \<open>kfault\<close>, which is a panic with its
  message, an access outside the known memory, a division by zero, going to sleep to wait for another task, or a loop that does not end. The state is one
  record, which each component extends by its static variables and by a map from addresses to its objects:
  \<open>kbase\<close> (tasks), \<open>pgstate\<close> (frames and their contents), \<open>vmstate\<close> (address spaces), \<open>hstate\<close> (heap), then \<open>lstate\<close> (list items) or
  \<open>pstate\<close> (processes), \<open>fstate\<close> (files), \<open>kstate\<close> (scheduler), \<open>bstate\<close> (block devices), \<open>estate\<close> (ext2), \<open>vstate\<close> (mounts),
  \<open>istate\<close> (interrupts), \<open>cstate\<close> (command line), \<open>dstate\<close> (PCI), \<open>astate\<close> (ATA) and \<open>sstate\<close> (start-up). The boot stage has
  \<open>bootstate\<close> and \<open>bmstate\<close>. Integers are words of the width of the C type. Memory that was never written has contents given by
  arguments named \<open>raw\<close> or \<open>junk\<close>. The devices are functions on a state \<open>hw\<close> of a type of their own, one for each kind of port access, and
  what a disk does with its registers is a hypothesis of the theorem that needs it. Pointers to functions are values of a datatype or addresses whose
  functions are arguments. Lists of other components are HOL lists; \<open>Linked_List\<close> shows that \<^verbatim>\<open>list.c\<close> implements them.

  \<^bold>\<open>Bounds.\<close> Loops along pointers have a counter. It starts at \<open>pointer_fuel\<close> or \<open>address_fuel\<close>, both 2^64 + 1, or \<open>address_fuel32\<close>, 2^32 + 1,
  more than there are addresses: a loop that runs out of it has been at an address twice. The specifications state that the routine returns.

  \<^bold>\<open>Memory.\<close>
  \<^item> \<open>Kernel_Prelude\<close>: types, results, lemmas on words and lists. \<open>Mutexes\<close> (\<^verbatim>\<open>sched/mutex.c\<close>, \<^verbatim>\<open>sched/spinlock.c\<close>, \<^verbatim>\<open>x86/atomic.c\<close>): a call
    of a lock operation without interruption. \<open>Mutex_Interleaving\<close>: the single accesses of several tasks as a step relation; mutual exclusion by rule
    induction, that uninterrupted steps are the calls of \<open>Mutexes\<close>, and that a task that goes to sleep on a mutex never wakes up.
  \<^item> \<open>Bitmap\<close> (\<^verbatim>\<open>libutil/bitmap.c\<close>): every operation on the set of used bits, the searches find the first free bits; locale \<open>bit_store\<close>,
    interpretation \<open>bm\<close>. \<open>Page_Alloc\<close> (\<^verbatim>\<open>mm/page.c\<close>): allocation returns a zeroed frame that was free, release makes exactly one frame free;
    locale \<open>frame_allocator\<close>, interpretation \<open>pg\<close>.
  \<^item> \<open>Vspace\<close> and \<open>Vspace_Objects\<close> (\<^verbatim>\<open>x86_64/vspace.c\<close>): page tables as a forest of frames of which no frame is used twice; mapping and unmapping
    change the translation of one page, deletion gives back every frame of the user half. \<open>Page_Mapper\<close>: the loops over fresh pages of all clients;
    locale \<open>page_mapper\<close>, interpretation \<open>vm\<close>.
  \<^item> \<open>Kheap\<close> (\<^verbatim>\<open>mm/heap.c\<close>): the chain of blocks with splitting, merging, growing and shrinking; allocation returns memory apart from all live
    blocks, release gives back one block; locale \<open>memory_allocator\<close>, interpretation \<open>kheap\<close>. \<open>Linked_List\<close> (\<^verbatim>\<open>libutil/list.c\<close>): refinement
    of sequences; locale \<open>sequence_store\<close>, interpretation \<open>ll\<close>.
  \<^item> \<open>Cstring\<close> (\<^verbatim>\<open>libutil/string.c\<close>) and \<open>Formatting\<close> (\<^verbatim>\<open>libutil/sprintf.c\<close>, \<^verbatim>\<open>debug/kprintf.c\<close>): strings in byte memory, number printing
    with round trips, and the output of \<^verbatim>\<open>sprintf\<close> as a function of its directives.

  \<^bold>\<open>Processes and tasks.\<close>
  \<^item> \<open>Processes\<close>, \<open>Userstack\<close> (\<^verbatim>\<open>sched/userstack.c\<close>), \<open>Sbrk\<close> (\<^verbatim>\<open>mm/sbrk.c\<close>), \<open>Files\<close> (\<^verbatim>\<open>fs/vfs.h\<close>), \<open>Elf_Loader\<close> (\<^verbatim>\<open>sched/loader.c\<close>) and
    \<open>Pagefault\<close> (\<^verbatim>\<open>mm/pagefault.c\<close>): what each demand loader does with a page, that stacks lie in slots of their own, that the heap shrinks by exactly the
    pages behind the break, that a segment's page holds the bytes of the file, and how a fault is dispatched among them.
  \<^item> \<open>Scheduler\<close> (\<^verbatim>\<open>sched/sched.c\<close>) and \<open>Tasks\<close> (\<^verbatim>\<open>sched/task.c\<close>, \<^verbatim>\<open>sched/tasklist.c\<close>, \<^verbatim>\<open>sched/proc.c\<close>, \<^verbatim>\<open>x86_64/context.c\<close>): the next task in
    turn runs with its own context, address space and kernel stack; a task that can run is passed over only as often as there are others; a new user
    task starts at its entry with user segments and interrupts on.
  \<^item> \<open>Descriptors\<close> (\<^verbatim>\<open>x86_64/gdt.c\<close>, \<^verbatim>\<open>x86_64/idt.c\<close>): the selectors in contexts select segments of their privilege level, the gates
    lead to their handlers. \<open>Interrupts\<close> (\<^verbatim>\<open>x86/irq.c\<close>, \<^verbatim>\<open>sched/interrupt.c\<close>, \<^verbatim>\<open>sched/syscalls.c\<close>): dispatch of every vector,
    acknowledgement of every interrupt, the table of system calls.

  \<^bold>\<open>Files and devices.\<close>
  \<^item> \<open>Block_Devices\<close> (\<^verbatim>\<open>fs/blockdev.c\<close>, \<^verbatim>\<open>fs/blkdev_ops.c\<close>, \<^verbatim>\<open>fs/partscan.c\<close>, \<^verbatim>\<open>fs/ramdisk.c\<close>), \<open>Ext2\<close> (\<^verbatim>\<open>fs/ext2fs.c\<close>) and \<open>Vfs\<close>
    (\<^verbatim>\<open>fs/ffind.c\<close>, \<^verbatim>\<open>fs/vfs.c\<close>, \<^verbatim>\<open>fs/fs_syscall.c\<close>, \<^verbatim>\<open>fs/ramfs.c\<close>, \<^verbatim>\<open>proc_start\<close>): registration, reading blocks, the inode and the blocks of a
    file on disk, directories as they are laid out, lookup of a path, opening a file.
  \<^item> \<open>Pci\<close> (\<^verbatim>\<open>bus/pci.c\<close>, \<^verbatim>\<open>drivers/pc/pci.c\<close>) and \<open>Ata\<close> (\<^verbatim>\<open>drivers/pc/ata.c\<close>): enumeration finds every function of the bus, a driver is probed
    for each of its devices, a read returns the sectors of the disk in order when the channel keeps its contract \<open>ata_channel\<close>.

  \<^bold>\<open>Booting.\<close>
  \<^item> \<open>Boot32\<close> (\<^verbatim>\<open>boot32/paging.c\<close>), \<open>Boot_Memory\<close> (\<^verbatim>\<open>boot32/heap.c\<close>, \<^verbatim>\<open>boot32/mmap.c\<close>, \<^verbatim>\<open>boot32/boot32mem.c\<close>, \<^verbatim>\<open>boot32/multiboot.c\<close>,
    \<^verbatim>\<open>boot32/main.c\<close>) and \<open>Boot_Gdt\<close> (\<^verbatim>\<open>boot32/gdt.c\<close>, \<^verbatim>\<open>boot32/gdt_long.c\<close>): the page tables map the memory up to 1 GiB to itself and are shifted
    above; what is passed on as free is usable memory outside everything in use; the segments are flat.
  \<^item> \<open>Cmdline\<close> (\<^verbatim>\<open>init/cmdline.c\<close>): a parameter is found with its value. \<open>Startup\<close> (\<^verbatim>\<open>x86_64/main.c\<close>, \<^verbatim>\<open>init/main.c\<close>, \<^verbatim>\<open>drivers/pc/init.c\<close>): the
    kernel takes over, and the memory of the boot stage is released completely and without a panic.

  \<^bold>\<open>Not modelled.\<close> Assembly code and single instructions (\<^verbatim>\<open>invlpg\<close>, \<^verbatim>\<open>lgdt\<close>, \<^verbatim>\<open>lidt\<close>, \<^verbatim>\<open>ltr\<close>, the entry code of interrupts and the
  jump into the kernel): the values they load are fields of the state. The texts of debug messages and of the statistics of heap and frames: they change
  no state. The output of the boot stage (\<^verbatim>\<open>boot32/debug.c\<close>) and the port it goes to (\<^verbatim>\<open>x86/bochs.c\<close>). The drivers of serial port and keyboard: their functions are empty. The user
  library and programs. Interrupts between the accesses of other code than the mutexes. A driver's block functions are functions without a
  state in \<open>Block_Devices\<close>, where \<^verbatim>\<open>ata.c\<close> talks to a disk: \<open>Ata\<close> shows what a read returns from a disk with given sectors.
\<close>

end
